(* ===== verification/Go_Prelude.thy ===== *)
theory Go_Prelude
  imports Main "HOL-Library.Word" "HOL-Library.Multiset" "HOL-Library.Monad_Syntax"
begin

text \<open>
  Shared vocabulary of the development: Go's machine integers, the value that stands for a
  run-time panic, and the generic lemmas on lists and words that the component theories use.

  A Go expression that may panic (an index out of range, a nil dereference) or a call that may not
  return is a value of type \<^typ>\<open>'a option\<close>: \<^const>\<open>None\<close> is "panics or does not return",
  \<^term>\<open>Some v\<close> is "returns \<open>v\<close>". Sequencing is the bind of \<^typ>\<open>'a option\<close>, written with
  \<^theory_text>\<open>do\<close>. A theorem that the result is \<^term>\<open>Some v\<close> therefore states termination and
  the absence of panics together with the result.
\<close>

unbundle bit_operations_syntax

named_theorems go_int_simps \<open>evaluation rules for Go's 64-bit int\<close>

subsection \<open>Integers\<close>

type_synonym byte = "8 word"
type_synonym uint16 = "16 word"
type_synonym uint32 = "32 word"
type_synonym uint64 = "64 word"

text \<open>
  Go's \<open>int\<close> on a 64-bit platform. Indices and lengths are written as \<^typ>\<open>int\<close>; where the code
  relies on (or guards against) wrap-around, the wrap is written with \<open>int64\<close>.
\<close>

definition int64 :: "int \<Rightarrow> int" where
  "int64 x = signed_take_bit 63 x"

lemma int64_id [go_int_simps]: "- (2 ^ 63) \<le> x \<Longrightarrow> x < 2 ^ 63 \<Longrightarrow> int64 x = x"
  by (simp add: int64_def signed_take_bit_int_eq_self)

lemma int64_shift: "int64 (x - 2 ^ 64) = int64 x"
  unfolding int64_def signed_take_bit_eq_iff_take_bit_eq
  using minus_mod_self2 [of x "2 ^ 64"] by (simp add: take_bit_eq_mod)

lemma int64_range: "- (2 ^ 63) \<le> int64 x \<and> int64 x < 2 ^ 63"
  unfolding int64_def
  using signed_take_bit_int_greater_eq_minus_exp [of 63 x] signed_take_bit_int_less_exp [of 63 x]
  by auto

text \<open>
  \<open>int(uint(i+j) >> 1)\<close>, the midpoint of \<open>sort.Search\<close>, \<open>doPivot\<close> and \<open>symMerge\<close>: the sum may
  wrap, the logical shift of its unsigned reading undoes it.
\<close>

definition mid :: "int \<Rightarrow> int \<Rightarrow> int" where
  "mid i j = sint (drop_bit 1 (word_of_int (i + j) :: uint64))"

lemma uint_half_uint64: "0 \<le> x \<Longrightarrow> x < 2 ^ 64 \<Longrightarrow> uint (drop_bit 1 (word_of_int x :: uint64)) = x div 2"
  by (simp add: drop_bit_eq_div uint_div uint_word_of_int)

lemma mid_eq [go_int_simps]:
  assumes "0 \<le> i" "i \<le> j" "j < 2 ^ 63"
  shows "mid i j = (i + j) div 2"
proof -
  from assms have r: "0 \<le> i + j" "i + j < 2 ^ 64" by simp_all
  then have "- (2 ^ 63) \<le> (i + j) div 2" "(i + j) div 2 < 2 ^ 63" by simp_all
  with uint_half_uint64 [OF r] show ?thesis
    unfolding mid_def sint_uint by (simp add: signed_take_bit_int_eq_self)
qed

lemma mid_bounds:
  assumes "0 \<le> i" "i < j" "j < 2 ^ 63"
  shows "i \<le> mid i j" "mid i j < j"
  using assms by (simp_all add: mid_eq)

text \<open>Reading the bit operations of the sources as arithmetic on the unsigned values.\<close>

lemma or_plus_int:
  assumes "0 \<le> b" "b < 2 ^ k" "2 ^ k dvd a"
  shows "a OR b = a + (b::int)"
proof -
  obtain c where "a = push_bit k c" using assms(3) by (auto simp: push_bit_eq_mult elim!: dvdE)
  moreover have "take_bit k b = b" using assms(1,2) by (simp add: take_bit_int_eq_self)
  ultimately show ?thesis using concat_bit_eq [of k b c] by (simp add: concat_bit_def or.commute add.commute)
qed

lemma uint_or_plus:
  fixes a b :: "'a::len word"
  assumes "uint b < 2 ^ k" "2 ^ k dvd uint a"
  shows "uint (a OR b) = uint a + uint b"
  using or_plus_int [of "uint b" k "uint a"] assms by (simp add: unsigned_or_eq)

lemma uint_byte: "0 \<le> uint (b::byte)" "uint (b::byte) < 256"
  using unsigned_less [of b] by simp_all

lemma uint_and_mod:
  fixes b :: "'a::len word"
  shows "uint (b AND 0x3F) = uint b mod 64" "uint (b AND 0x1F) = uint b mod 32"
    "uint (b AND 0x0F) = uint b mod 16" "uint (b AND 0x07) = uint b mod 8" "uint (b AND 0x7F) = uint b mod 128"
    "uint (b AND 0xFF) = uint b mod 256" "uint (b AND 0x3FF) = uint b mod 1024"
proof -
  have m: "uint (b AND mask n) = uint b mod 2 ^ n" for n
  proof -
    have "uint (b AND mask n) = take_bit n (uint b)" by (simp only: take_bit_eq_mask [symmetric] unsigned_take_bit_eq)
    then show ?thesis by (simp only: take_bit_eq_mod)
  qed
  show "uint (b AND 0x3F) = uint b mod 64" using m [of 6] by (simp add: mask_numeral)
  show "uint (b AND 0x1F) = uint b mod 32" using m [of 5] by (simp add: mask_numeral)
  show "uint (b AND 0x0F) = uint b mod 16" using m [of 4] by (simp add: mask_numeral)
  show "uint (b AND 0x07) = uint b mod 8" using m [of 3] by (simp add: mask_numeral)
  show "uint (b AND 0x7F) = uint b mod 128" using m [of 7] by (simp add: mask_numeral)
  show "uint (b AND 0xFF) = uint b mod 256" using m [of 8] by (simp add: mask_numeral)
  show "uint (b AND 0x3FF) = uint b mod 1024" using m [of 10] by (simp add: mask_numeral)
qed

lemma int_div_le_self: "0 \<le> a \<Longrightarrow> 1 \<le> b \<Longrightarrow> a div b \<le> (a::int)"
  using zdiv_mono2 [of a 1 b] by simp

subsection \<open>Panics\<close>

lemma bind_SomeI: "m = Some x \<Longrightarrow> f x = Some y \<Longrightarrow> Option.bind m f = Some y"
  by simp

declare Option.bind_cong [fundef_cong]

text \<open>Checked reads and writes of a slice: out of range is a panic.\<close>

definition idx :: "'a list \<Rightarrow> int \<Rightarrow> 'a option" where
  "idx xs i = (if 0 \<le> i \<and> i < int (length xs) then Some (xs ! nat i) else None)"

definition upd :: "'a list \<Rightarrow> int \<Rightarrow> 'a \<Rightarrow> 'a list option" where
  "upd xs i v = (if 0 \<le> i \<and> i < int (length xs) then Some (xs[nat i := v]) else None)"

lemma idx_Some [simp]: "0 \<le> i \<Longrightarrow> i < int (length xs) \<Longrightarrow> idx xs i = Some (xs ! nat i)"
  by (simp add: idx_def)

lemma upd_Some [simp]: "0 \<le> i \<Longrightarrow> i < int (length xs) \<Longrightarrow> upd xs i v = Some (xs[nat i := v])"
  by (simp add: upd_def)

lemma idx_eq_Some_iff: "idx xs i = Some v \<longleftrightarrow> 0 \<le> i \<and> i < int (length xs) \<and> v = xs ! nat i"
  by (auto simp: idx_def)

lemma idx_of_nat [simp]: "n < length xs \<Longrightarrow> idx xs (int n) = Some (xs ! n)"
  by (simp add: idx_def)

subsection \<open>Lists\<close>

definition swap_at :: "'a list \<Rightarrow> nat \<Rightarrow> nat \<Rightarrow> 'a list" where
  "swap_at xs i j = xs[i := xs ! j, j := xs ! i]"

lemma length_swap_at [simp]: "length (swap_at xs i j) = length xs"
  by (simp add: swap_at_def)

lemma nth_swap_at:
  "i < length xs \<Longrightarrow> j < length xs \<Longrightarrow> k < length xs \<Longrightarrow>
   swap_at xs i j ! k = (if k = i then xs ! j else if k = j then xs ! i else xs ! k)"
  by (auto simp: swap_at_def nth_list_update)

lemma mset_swap_at [simp]: "i < length xs \<Longrightarrow> j < length xs \<Longrightarrow> mset (swap_at xs i j) = mset xs"
  unfolding swap_at_def by (rule mset_swap)

text \<open>A property of every entry of a table and its position, checked by one walk over the table.\<close>

fun all_from :: "(int \<Rightarrow> 'a \<Rightarrow> bool) \<Rightarrow> int \<Rightarrow> 'a list \<Rightarrow> bool" where
  "all_from P i [] = True"
| "all_from P i (x # xs) = (P i x \<and> all_from P (i + 1) xs)"

lemma all_from_nth_from: "all_from P i xs \<Longrightarrow> n < length xs \<Longrightarrow> P (i + int n) (xs ! n)"
proof (induction xs arbitrary: i n)
  case (Cons x xs)
  then show ?case
    by (cases n) (auto simp: add.assoc dest: Cons.IH [of "i + 1"])
qed simp

lemma all_from_nth: "all_from P 0 xs \<Longrightarrow> n < length xs \<Longrightarrow> P (int n) (xs ! n)"
  using all_from_nth_from [of P 0 xs n] by simp

end
