(* ===== verification/Go_Float.thy ===== *)
theory Go_Float
  imports Go_Prelude
begin

text \<open>
  Go's \<open>float64\<close> comparison as the sort package needs it: a value is its IEEE 754 bit pattern, a NaN
  compares false with everything, the two zeros are equal, and every other pair is ordered by sign
  and magnitude.
\<close>

type_synonym float64 = uint64

definition f64_magnitude :: "float64 \<Rightarrow> int" where
  "f64_magnitude x = uint (x AND 0x7FFFFFFFFFFFFFFF)"

definition f64_is_nan :: "float64 \<Rightarrow> bool" where
  "f64_is_nan x \<longleftrightarrow> f64_magnitude x > 0x7FF0000000000000"

definition f64_key :: "float64 \<Rightarrow> int" where
  "f64_key x = (if bit x 63 then - f64_magnitude x else f64_magnitude x)"

definition f64_less :: "float64 \<Rightarrow> float64 \<Rightarrow> bool" where
  "f64_less x y \<longleftrightarrow> \<not> f64_is_nan x \<and> \<not> f64_is_nan y \<and> f64_key x < f64_key y"

definition f64_eq :: "float64 \<Rightarrow> float64 \<Rightarrow> bool" where
  "f64_eq x y \<longleftrightarrow> \<not> f64_is_nan x \<and> \<not> f64_is_nan y \<and> f64_key x = f64_key y"

definition f64_ge :: "float64 \<Rightarrow> float64 \<Rightarrow> bool" where
  "f64_ge x y \<longleftrightarrow> f64_less y x \<or> f64_eq x y"

lemma f64_ge_not_nan: "\<not> f64_is_nan x \<Longrightarrow> \<not> f64_is_nan y \<Longrightarrow> f64_ge x y \<longleftrightarrow> f64_key y \<le> f64_key x"
  by (auto simp: f64_ge_def f64_less_def f64_eq_def)

end
