(* ===== verification/Sort_Search.thy ===== *)
theory Sort_Search
  imports Go_Float "HOL-Library.Char_ord" "HOL-Library.List_Lexorder"
begin

text \<open>
  \<^verbatim>\<open>sort/search.go\<close>: binary search over an index range, and its wrappers for the basic slices.
  The predicate the caller passes may panic, so it returns an option.
\<close>

subsection \<open>Search\<close>

partial_function (option) Search_loop :: "(int \<Rightarrow> bool option) \<Rightarrow> int \<Rightarrow> int \<Rightarrow> int option" where
  "Search_loop f i j =
     (if i < j then
        do {
          let h = mid i j;
          b \<leftarrow> f h;
          if \<not> b then Search_loop f (h + 1) j else Search_loop f i h
        }
      else Some i)"

definition Search :: "int \<Rightarrow> (int \<Rightarrow> bool option) \<Rightarrow> int option" where
  "Search n f = Search_loop f 0 n"

definition SearchInts :: "int list \<Rightarrow> int \<Rightarrow> int option" where
  "SearchInts a x = Search (int (length a)) (\<lambda>i. do { v \<leftarrow> idx a i; Some (v \<ge> x) })"

definition SearchFloat64s :: "float64 list \<Rightarrow> float64 \<Rightarrow> int option" where
  "SearchFloat64s a x = Search (int (length a)) (\<lambda>i. do { v \<leftarrow> idx a i; Some (f64_ge v x) })"

definition SearchStrings :: "string list \<Rightarrow> string \<Rightarrow> int option" where
  "SearchStrings a x = Search (int (length a)) (\<lambda>i. do { v \<leftarrow> idx a i; Some (v \<ge> x) })"

definition IntSlice_Search :: "int list \<Rightarrow> int \<Rightarrow> int option" where
  "IntSlice_Search p x = SearchInts p x"

definition Float64Slice_Search :: "float64 list \<Rightarrow> float64 \<Rightarrow> int option" where
  "Float64Slice_Search p x = SearchFloat64s p x"

definition StringSlice_Search :: "string list \<Rightarrow> string \<Rightarrow> int option" where
  "StringSlice_Search p x = SearchStrings p x"

declare Search_loop.simps [code]

subsection \<open>What the loop returns\<close>

text \<open>
  Without any assumption of monotonicity the loop ends at a boundary of the predicate: it fails just
  before the result and holds at it.
\<close>

lemma Search_loop_boundary:
  assumes "0 \<le> i" "i \<le> j" "j < 2 ^ 63"
    and "\<And>k. i \<le> k \<Longrightarrow> k < j \<Longrightarrow> f k = Some (g k)"
  shows "\<exists>r. Search_loop f i j = Some r \<and> i \<le> r \<and> r \<le> j
           \<and> (r = i \<or> \<not> g (r - 1)) \<and> (r = j \<or> g r)"
  using assms
proof (induction "nat (j - i)" arbitrary: i j rule: less_induct)
  case less
  show ?case
  proof (cases "i < j")
    case False
    with less.prems show ?thesis by (simp add: Search_loop.simps)
  next
    case True
    let ?h = "mid i j"
    have b: "i \<le> ?h" "?h < j" using mid_bounds less.prems True by auto
    then have fh: "f ?h = Some (g ?h)" using less.prems by simp
    show ?thesis
    proof (cases "g ?h")
      case True
      have "\<exists>r. Search_loop f i ?h = Some r \<and> i \<le> r \<and> r \<le> ?h
             \<and> (r = i \<or> \<not> g (r - 1)) \<and> (r = ?h \<or> g r)"
        by (rule less.hyps) (use b less.prems in auto)
      then show ?thesis
        using True \<open>i < j\<close> fh b by (auto simp: Search_loop.simps [of f i j] Let_def)
    next
      case False
      have "\<exists>r. Search_loop f (?h + 1) j = Some r \<and> ?h + 1 \<le> r \<and> r \<le> j
             \<and> (r = ?h + 1 \<or> \<not> g (r - 1)) \<and> (r = j \<or> g r)"
        by (rule less.hyps) (use b less.prems in auto)
      then obtain r where r: "Search_loop f (?h + 1) j = Some r" "?h + 1 \<le> r" "r \<le> j"
          "r = ?h + 1 \<or> \<not> g (r - 1)" "r = j \<or> g r" by blast
      moreover have "\<not> g (r - 1)" using r(4) False by auto
      moreover have "Search_loop f i j = Search_loop f (?h + 1) j"
        using False \<open>i < j\<close> fh by (simp add: Search_loop.simps [of f i j] Let_def)
      ultimately show ?thesis using b by auto
    qed
  qed
qed

lemma Search_least:
  assumes n: "0 \<le> n" "n < 2 ^ 63"
    and f: "\<And>k. 0 \<le> k \<Longrightarrow> k < n \<Longrightarrow> f k = Some (g k)"
    and mono: "\<And>k l. 0 \<le> k \<Longrightarrow> k \<le> l \<Longrightarrow> l < n \<Longrightarrow> g k \<Longrightarrow> g l"
  shows "\<exists>r. Search n f = Some r \<and> 0 \<le> r \<and> r \<le> n
           \<and> (\<forall>k. 0 \<le> k \<and> k < r \<longrightarrow> \<not> g k) \<and> (\<forall>k. r \<le> k \<and> k < n \<longrightarrow> g k)"
proof -
  obtain r where r: "Search n f = Some r" "0 \<le> r" "r \<le> n"
      "r = 0 \<or> \<not> g (r - 1)" "r = n \<or> g r"
    using Search_loop_boundary [of 0 n f g] n f unfolding Search_def by auto
  have "\<not> g k" if "0 \<le> k" "k < r" for k
    using that r mono [of k "r - 1"] by auto
  moreover have "g k" if "r \<le> k" "k < n" for k
    using that r mono [of r k] by auto
  ultimately show ?thesis using r by blast
qed

end
