(* ===== verification/Sort_Interface.thy ===== *)
theory Sort_Interface
  imports Sort_Search
begin

text \<open>
  \<^verbatim>\<open>sort.Interface\<close>, the contract its documentation states, and the implementations the package
  itself provides: IntSlice, Float64Slice, StringSlice and the Reverse wrapper. The interface is a
  record of operations, so the algorithms are definitions over any such record; the contract is a
  locale, and every implementation is an interpretation of it.
\<close>

subsection \<open>The interface and its implementations\<close>

record 'd sort_ops =
  Len :: "'d \<Rightarrow> int"
  Less :: "'d \<Rightarrow> int \<Rightarrow> int \<Rightarrow> bool option"
  Swap :: "'d \<Rightarrow> int \<Rightarrow> int \<Rightarrow> 'd option"

text \<open>The assignment \<open>x[i], x[j] = x[j], x[i]\<close> that every slice type of the package uses.\<close>

definition slice_Swap :: "'a list \<Rightarrow> int \<Rightarrow> int \<Rightarrow> 'a list option" where
  "slice_Swap x i j = do { v \<leftarrow> idx x j; w \<leftarrow> idx x i; y \<leftarrow> upd x i v; upd y j w }"

definition IntSlice :: "int list sort_ops" where
  "IntSlice = \<lparr> Len = (\<lambda>x. int (length x)),
     Less = (\<lambda>x i j. do { v \<leftarrow> idx x i; w \<leftarrow> idx x j; Some (v < w) }),
     Swap = slice_Swap \<rparr>"

definition StringSlice :: "string list sort_ops" where
  "StringSlice = \<lparr> Len = (\<lambda>x. int (length x)),
     Less = (\<lambda>x i j. do { v \<leftarrow> idx x i; w \<leftarrow> idx x j; Some (v < w) }),
     Swap = slice_Swap \<rparr>"

text \<open>\<open>isNaN f\<close> is \<open>f != f\<close>.\<close>

definition isNaN :: "float64 \<Rightarrow> bool" where
  "isNaN f \<longleftrightarrow> \<not> f64_eq f f"

definition Float64Slice_lt :: "float64 \<Rightarrow> float64 \<Rightarrow> bool" where
  "Float64Slice_lt x y \<longleftrightarrow> f64_less x y \<or> (isNaN x \<and> \<not> isNaN y)"

definition Float64Slice :: "float64 list sort_ops" where
  "Float64Slice = \<lparr> Len = (\<lambda>x. int (length x)),
     Less = (\<lambda>x i j. do { v \<leftarrow> idx x i; w \<leftarrow> idx x j; Some (Float64Slice_lt v w) }),
     Swap = slice_Swap \<rparr>"

text \<open>\<open>reverse\<close> embeds an Interface and overrides Less with its arguments exchanged.\<close>

definition Reverse :: "('d, 'm) sort_ops_scheme \<Rightarrow> ('d, 'm) sort_ops_scheme" where
  "Reverse data = data\<lparr> Less := (\<lambda>d i j. Less data d j i) \<rparr>"

lemmas slice_defs = slice_Swap_def IntSlice_def StringSlice_def Float64Slice_def

subsection \<open>The contract\<close>

text \<open>
  \<open>elems\<close> reads the collection as a list and \<open>lt\<close> is the order Less decides; Less and Swap are
  only specified for indices in range, so a lemma of the locale also shows that an algorithm
  never leaves the range. The two transitivity laws are the ones the documentation lists.
\<close>

locale strict_weak_order =
  fixes lt :: "'a \<Rightarrow> 'a \<Rightarrow> bool"
  assumes lt_irrefl: "\<not> lt a a"
    and lt_trans: "lt a b \<Longrightarrow> lt b c \<Longrightarrow> lt a c"
    and lt_cotrans: "\<not> lt a b \<Longrightarrow> \<not> lt b c \<Longrightarrow> \<not> lt a c"
begin

lemma lt_asym: "lt a b \<Longrightarrow> \<not> lt b a"
  using lt_trans lt_irrefl by blast

lemma lt_le_trans: "lt a b \<Longrightarrow> \<not> lt c b \<Longrightarrow> lt a c"
  using lt_cotrans by blast

lemma le_lt_trans: "\<not> lt b a \<Longrightarrow> lt b c \<Longrightarrow> lt a c"
  using lt_cotrans by blast

lemma converse_order: "strict_weak_order (\<lambda>a b. lt b a)"
  by unfold_locales (auto simp: lt_irrefl intro: lt_trans dest: lt_cotrans)

end

locale sort_interface = strict_weak_order lt
  for lt :: "'a \<Rightarrow> 'a \<Rightarrow> bool" +
  fixes data :: "('d, 'm) sort_ops_scheme"
    and elems :: "'d \<Rightarrow> 'a list"
  assumes Len_law: "Len data d = int (length (elems d))"
    and Less_law: "0 \<le> i \<Longrightarrow> i < int (length (elems d)) \<Longrightarrow> 0 \<le> j \<Longrightarrow> j < int (length (elems d)) \<Longrightarrow>
           Less data d i j = Some (lt (elems d ! nat i) (elems d ! nat j))"
    and Swap_law: "0 \<le> i \<Longrightarrow> i < int (length (elems d)) \<Longrightarrow> 0 \<le> j \<Longrightarrow> j < int (length (elems d)) \<Longrightarrow>
           \<exists>d'. Swap data d i j = Some d' \<and> elems d' = swap_at (elems d) (nat i) (nat j)"
begin

text \<open>Reverse of any implementation implements the reversed order.\<close>

lemma Reverse_interface: "sort_interface (\<lambda>a b. lt b a) (Reverse data) elems"
proof -
  from converse_order show ?thesis
    unfolding sort_interface_def sort_interface_axioms_def
    by (auto simp: Reverse_def Len_law Less_law dest: Swap_law)
qed

end

lemma swap_at_commute: "swap_at xs i j = swap_at xs j i"
  by (cases "i = j") (auto simp: swap_at_def list_update_swap)

lemma slice_Swap_law:
  assumes "0 \<le> i" "i < int (length x)" "0 \<le> j" "j < int (length x)"
  shows "slice_Swap x i j = Some (swap_at x (nat i) (nat j))"
  using assms by (simp add: slice_Swap_def swap_at_def)

interpretation ints: sort_interface "(<)" IntSlice "\<lambda>x. x"
  by unfold_locales (auto simp: IntSlice_def slice_Swap_law)

interpretation strings: sort_interface "(<)" StringSlice "\<lambda>x. x"
  by unfold_locales (auto simp: StringSlice_def slice_Swap_law)

lemma isNaN_iff: "isNaN x \<longleftrightarrow> f64_is_nan x"
  by (simp add: isNaN_def f64_eq_def)

interpretation floats: sort_interface Float64Slice_lt Float64Slice "\<lambda>x. x"
  by unfold_locales
    (auto simp: Float64Slice_def slice_Swap_law Float64Slice_lt_def isNaN_iff f64_less_def)

interpretation ints_desc: sort_interface "\<lambda>a b. b < a" "Reverse IntSlice" "\<lambda>x. x"
  by (rule ints.Reverse_interface)

subsection \<open>Ranges of a list\<close>

text \<open>
  The vocabulary of the sorting lemmas: a range is in order, a range was rearranged and nothing
  outside it moved, equal elements kept their order.
\<close>

definition sorted_range :: "('a \<Rightarrow> 'a \<Rightarrow> bool) \<Rightarrow> int \<Rightarrow> int \<Rightarrow> 'a list \<Rightarrow> bool" where
  "sorted_range lt a b xs \<longleftrightarrow>
     (\<forall>i j. a \<le> i \<and> i < j \<and> j < b \<longrightarrow> \<not> lt (xs ! nat j) (xs ! nat i))"

definition permutes_range :: "int \<Rightarrow> int \<Rightarrow> 'a list \<Rightarrow> 'a list \<Rightarrow> bool" where
  "permutes_range a b xs ys \<longleftrightarrow>
     mset ys = mset xs \<and> (\<forall>k < length xs. int k < a \<or> b \<le> int k \<longrightarrow> ys ! k = xs ! k)"

definition stable_perm :: "('a \<Rightarrow> 'a \<Rightarrow> bool) \<Rightarrow> 'a list \<Rightarrow> 'a list \<Rightarrow> bool" where
  "stable_perm lt xs ys \<longleftrightarrow>
     (\<forall>x. filter (\<lambda>y. \<not> lt x y \<and> \<not> lt y x) ys = filter (\<lambda>y. \<not> lt x y \<and> \<not> lt y x) xs)"

lemma sorted_rangeD:
  "sorted_range lt a b xs \<Longrightarrow> a \<le> i \<Longrightarrow> i < j \<Longrightarrow> j < b \<Longrightarrow> \<not> lt (xs ! nat j) (xs ! nat i)"
  by (auto simp: sorted_range_def)

lemma sorted_range_trivial: "b \<le> a + 1 \<Longrightarrow> sorted_range lt a b xs"
  by (auto simp: sorted_range_def)

lemma permutes_range_refl [simp]: "permutes_range a b xs xs"
  by (simp add: permutes_range_def)

lemma permutes_range_length: "permutes_range a b xs ys \<Longrightarrow> length ys = length xs"
  unfolding permutes_range_def by (metis mset_eq_length)

lemma permutes_range_mset: "permutes_range a b xs ys \<Longrightarrow> mset ys = mset xs"
  by (simp add: permutes_range_def)

lemma permutes_range_out:
  "permutes_range a b xs ys \<Longrightarrow> 0 \<le> k \<Longrightarrow> k < int (length xs) \<Longrightarrow> k < a \<or> b \<le> k \<Longrightarrow> ys ! nat k = xs ! nat k"
  by (auto simp: permutes_range_def)

lemma permutes_range_trans:
  assumes "permutes_range a b xs ys" "permutes_range a b ys zs"
  shows "permutes_range a b xs zs"
  using assms permutes_range_length [OF assms(1)] by (auto simp: permutes_range_def)

lemma permutes_range_mono:
  "permutes_range a b xs ys \<Longrightarrow> a' \<le> a \<Longrightarrow> b \<le> b' \<Longrightarrow> permutes_range a' b' xs ys"
  by (force simp: permutes_range_def)

lemma permutes_range_swap:
  assumes "a \<le> i" "i < b" "a \<le> j" "j < b" "0 \<le> a" "b \<le> int (length xs)"
  shows "permutes_range a b xs (swap_at xs (nat i) (nat j))"
  using assms by (auto simp: permutes_range_def nth_swap_at)

lemma permutes_range_slice:
  assumes "permutes_range a b xs ys" "0 \<le> a" "a \<le> b" "b \<le> int (length xs)"
  shows "mset (take (nat (b - a)) (drop (nat a) ys)) = mset (take (nat (b - a)) (drop (nat a) xs))"
proof -
  let ?n = "nat (b - a)"
  have len: "length ys = length xs" using assms(1) by (rule permutes_range_length)
  have pre: "take (nat a) ys = take (nat a) xs"
    using assms len by (intro nth_equalityI) (auto simp: permutes_range_def)
  have post: "drop ?n (drop (nat a) ys) = drop ?n (drop (nat a) xs)"
    using assms len by (intro nth_equalityI) (auto simp: permutes_range_def)
  have split: "zs = take (nat a) zs @ take ?n (drop (nat a) zs) @ drop ?n (drop (nat a) zs)"
    for zs :: "'a list" by (simp only: append_take_drop_id)
  have "mset ys = mset xs" using assms(1) by (rule permutes_range_mset)
  then show ?thesis
    using split [of xs] split [of ys] unfolding pre post
    by (metis add_left_cancel add_right_cancel mset_append)
qed

lemma permutes_range_in:
  assumes "permutes_range a b xs ys" "0 \<le> a" "b \<le> int (length xs)" "a \<le> k" "k < b"
  shows "\<exists>l. a \<le> l \<and> l < b \<and> ys ! nat k = xs ! nat l"
proof -
  let ?sl = "\<lambda>zs. take (nat (b - a)) (drop (nat a) zs)"
  have len: "length ys = length xs" using assms(1) by (rule permutes_range_length)
  have "set (?sl ys) = set (?sl xs)"
    using permutes_range_slice [OF assms(1,2) _ assms(3)] assms(4,5) by (metis mset_eq_setD order_less_imp_le order.trans)
  moreover have "ys ! nat k = ?sl ys ! nat (k - a)" and "nat (k - a) < length (?sl ys)"
    using assms len by (auto simp: nth_append nat_diff_distrib)
  ultimately have "ys ! nat k \<in> set (?sl xs)" by (metis nth_mem)
  then obtain m where m: "m < nat (b - a)" "m < length xs - nat a" "ys ! nat k = ?sl xs ! m"
    by (auto simp: in_set_conv_nth)
  then have "ys ! nat k = xs ! nat (a + int m)"
    using assms by (simp add: nat_add_distrib)
  with m show ?thesis by (intro exI [of _ "a + int m"]) auto
qed

lemma stable_perm_refl [simp]: "stable_perm lt xs xs"
  by (simp add: stable_perm_def)

lemma stable_perm_trans: "stable_perm lt xs ys \<Longrightarrow> stable_perm lt ys zs \<Longrightarrow> stable_perm lt xs zs"
  by (simp add: stable_perm_def)

end
