(* ===== verification/Sort_Insertion.thy ===== *)
theory Sort_Insertion
  imports Sort_Interface
begin

text \<open>
  \<^verbatim>\<open>insertionSort\<close> of \<^verbatim>\<open>sort/sort.go\<close>, used on the small ranges of quickSort and on the blocks of
  Stable: it sorts the range, moves nothing outside it and keeps equal elements in order.
\<close>

partial_function (option) insertionSort_inner ::
  "('d, 'm) sort_ops_scheme \<Rightarrow> 'd \<Rightarrow> int \<Rightarrow> int \<Rightarrow> 'd option" where
  "insertionSort_inner data d a j =
     (if j > a then
        do {
          b \<leftarrow> Less data d j (j - 1);
          if b then do { d' \<leftarrow> Swap data d j (j - 1); insertionSort_inner data d' a (j - 1) }
          else Some d
        }
      else Some d)"

partial_function (option) insertionSort_outer ::
  "('d, 'm) sort_ops_scheme \<Rightarrow> 'd \<Rightarrow> int \<Rightarrow> int \<Rightarrow> int \<Rightarrow> 'd option" where
  "insertionSort_outer data d a b i =
     (if i < b then do { d' \<leftarrow> insertionSort_inner data d a i; insertionSort_outer data d' a b (i + 1) }
      else Some d)"

definition insertionSort :: "('d, 'm) sort_ops_scheme \<Rightarrow> 'd \<Rightarrow> int \<Rightarrow> int \<Rightarrow> 'd option" where
  "insertionSort data d a b = insertionSort_outer data d a b (a + 1)"

declare insertionSort_inner.simps [code] insertionSort_outer.simps [code]

subsection \<open>Exchanging two neighbours that are out of order is stable\<close>

lemma stable_perm_append:
  "stable_perm lt xs ys \<Longrightarrow> stable_perm lt (us @ xs @ vs) (us @ ys @ vs)"
  by (simp add: stable_perm_def)

lemma swap_at_adjacent:
  assumes "Suc i < length xs"
  shows "xs = take i xs @ [xs ! i, xs ! Suc i] @ drop (Suc (Suc i)) xs"
    and "swap_at xs (Suc i) i = take i xs @ [xs ! Suc i, xs ! i] @ drop (Suc (Suc i)) xs"
proof -
  show "xs = take i xs @ [xs ! i, xs ! Suc i] @ drop (Suc (Suc i)) xs"
    using assms by (simp add: Cons_nth_drop_Suc)
  show "swap_at xs (Suc i) i = take i xs @ [xs ! Suc i, xs ! i] @ drop (Suc (Suc i)) xs"
    using assms by (intro nth_equalityI) 
      (auto simp: nth_swap_at nth_append nth_Cons split: nat.splits intro!: arg_cong [where f = "(!) xs"])
qed

context sort_interface
begin

lemma stable_swap_adjacent:
  assumes "Suc i < length xs" "lt (xs ! Suc i) (xs ! i)"
  shows "stable_perm lt xs (swap_at xs (Suc i) i)"
proof -
  have "stable_perm lt [xs ! i, xs ! Suc i] [xs ! Suc i, xs ! i]"
    unfolding stable_perm_def
  proof
    fix x
    have "lt (xs ! Suc i) x \<or> lt x (xs ! i)"
      using lt_le_trans [OF assms(2), of x] by blast
    then show "filter (\<lambda>y. \<not> lt x y \<and> \<not> lt y x) [xs ! Suc i, xs ! i]
        = filter (\<lambda>y. \<not> lt x y \<and> \<not> lt y x) [xs ! i, xs ! Suc i]"
      by auto
  qed
  then have "stable_perm lt (take i xs @ [xs ! i, xs ! Suc i] @ drop (Suc (Suc i)) xs)
      (take i xs @ [xs ! Suc i, xs ! i] @ drop (Suc (Suc i)) xs)"
    by (rule stable_perm_append)
  then show ?thesis
    using swap_at_adjacent [OF assms(1)] by (simp only:)
qed

text \<open>
  The inner loop inserts the element at \<open>j\<close>: the range \<open>[a, hi]\<close> is in order but for \<open>j\<close>, and
  everything after \<open>j\<close> is greater than it.
\<close>

lemma insertionSort_inner_ok:
  assumes "0 \<le> a" "a \<le> j" "j \<le> hi" "hi < int (length (elems d))"
    and "\<And>p q. a \<le> p \<Longrightarrow> p < q \<Longrightarrow> q \<le> hi \<Longrightarrow> p \<noteq> j \<Longrightarrow> q \<noteq> j \<Longrightarrow> \<not> lt (elems d ! nat q) (elems d ! nat p)"
    and "\<And>q. j < q \<Longrightarrow> q \<le> hi \<Longrightarrow> \<not> lt (elems d ! nat q) (elems d ! nat j)"
  shows "\<exists>d'. insertionSort_inner data d a j = Some d' \<and> sorted_range lt a (hi + 1) (elems d')
           \<and> permutes_range a (hi + 1) (elems d) (elems d') \<and> stable_perm lt (elems d) (elems d')"
  using assms
proof (induction "nat j" arbitrary: j d rule: less_induct)
  case less
  let ?e = "\<lambda>k. elems d ! nat k"
  have done_case: ?case
    if "insertionSort_inner data d a j = Some d"
      and le: "\<And>p. a \<le> p \<Longrightarrow> p < j \<Longrightarrow> \<not> lt (?e j) (?e p)"
  proof -
    have "\<not> lt (?e q) (?e p)" if "a \<le> p" "p < q" "q < hi + 1" for p q
      using that less.prems(5) [of p q] less.prems(6) [of q] le [of p] by (cases "p = j"; cases "q = j") auto
    then show ?thesis using that(1) by (auto simp: sorted_range_def)
  qed
  show ?case
  proof (cases "j > a")
    case False
    then show ?thesis
      by (intro done_case) (auto simp: insertionSort_inner.simps)
  next
    case j: True
    have le: "Less data d j (j - 1) = Some (lt (?e j) (?e (j - 1)))"
      using j less.prems by (intro Less_law) auto
    show ?thesis
    proof (cases "lt (?e j) (?e (j - 1))")
      case False
      have "\<not> lt (?e j) (?e p)" if "a \<le> p" "p < j" for p
        using that False lt_cotrans [OF False, of "?e p"] less.prems(5) [of p "j - 1"] less.prems(3)
        by (cases "p = j - 1") auto
      then show ?thesis
        using le False by (intro done_case) (auto simp: insertionSort_inner.simps [of _ _ a j])
    next
      case True
      obtain d' where sw: "Swap data d j (j - 1) = Some d'"
        and e': "elems d' = swap_at (elems d) (nat j) (nat (j - 1))"
        using Swap_law [of j d "j - 1"] j less.prems by auto
      have n: "nat j = Suc (nat (j - 1))" "Suc (nat (j - 1)) < length (elems d)"
        using j less.prems by auto
      have nth: "elems d' ! nat k = (if k = j then ?e (j - 1) else if k = j - 1 then ?e j else ?e k)"
        if "0 \<le> k" "k < int (length (elems d))" for k
        using that j less.prems unfolding e' by (subst nth_swap_at) (auto simp: nat_eq_iff2)
      have "\<exists>d''. insertionSort_inner data d' a (j - 1) = Some d'' \<and> sorted_range lt a (hi + 1) (elems d'')
           \<and> permutes_range a (hi + 1) (elems d') (elems d'') \<and> stable_perm lt (elems d') (elems d'')"
      proof (rule less.hyps)
        show "nat (j - 1) < nat j" "0 \<le> a" "a \<le> j - 1" "j - 1 \<le> hi" "hi < int (length (elems d'))"
          using j less.prems by (auto simp: e')
        show "\<not> lt (elems d' ! nat q) (elems d' ! nat p)"
          if "a \<le> p" "p < q" "q \<le> hi" "p \<noteq> j - 1" "q \<noteq> j - 1" for p q
        proof -
          have r: "0 \<le> p" "0 \<le> q" "p < int (length (elems d))" "q < int (length (elems d))"
            using that less.prems(1,4) by auto
          consider "p = j" | "q = j" | "p \<noteq> j" "q \<noteq> j" by blast
          then show ?thesis
          proof cases
            case 1
            then show ?thesis using that r less.prems(5) [of "j - 1" q] j by (simp add: nth)
          next
            case 2
            then show ?thesis using that r less.prems(3) less.prems(5) [of p "j - 1"] by (simp add: nth)
          next
            case 3
            then show ?thesis using that r less.prems(5) [of p q] by (simp add: nth)
          qed
        qed
        show "\<not> lt (elems d' ! nat q) (elems d' ! nat (j - 1))" if "j - 1 < q" "q \<le> hi" for q
          using that lt_asym [OF True] j less.prems(1,3,4) less.prems(6) [of q] by (auto simp: nth)
      qed
      moreover have "stable_perm lt (elems d) (elems d')"
        using stable_swap_adjacent [OF n(2)] True unfolding e' n(1) by auto
      moreover have "permutes_range a (hi + 1) (elems d) (elems d')"
        unfolding e' using j less.prems by (intro permutes_range_swap) auto
      moreover have "insertionSort_inner data d a j = insertionSort_inner data d' a (j - 1)"
        using j le True sw by (simp add: insertionSort_inner.simps [of _ d a j])
      ultimately show ?thesis
        by (auto intro: stable_perm_trans permutes_range_trans)
    qed
  qed
qed

lemma insertionSort_outer_ok:
  assumes "0 \<le> a" "a < i" "i \<le> b" "b \<le> int (length (elems d))" "sorted_range lt a i (elems d)"
  shows "\<exists>d'. insertionSort_outer data d a b i = Some d' \<and> sorted_range lt a b (elems d')
           \<and> permutes_range a b (elems d) (elems d') \<and> stable_perm lt (elems d) (elems d')"
  using assms
proof (induction "nat (b - i)" arbitrary: i d rule: less_induct)
  case less
  show ?case
  proof (cases "i < b")
    case False
    with less.prems show ?thesis by (auto simp: insertionSort_outer.simps)
  next
    case True
    obtain d1 where d1: "insertionSort_inner data d a i = Some d1" "sorted_range lt a (i + 1) (elems d1)"
        "permutes_range a (i + 1) (elems d) (elems d1)" "stable_perm lt (elems d) (elems d1)"
      using insertionSort_inner_ok [of a i i d] True less.prems by (auto simp: sorted_range_def)
    obtain d2 where d2: "insertionSort_outer data d1 a b (i + 1) = Some d2" "sorted_range lt a b (elems d2)"
        "permutes_range a b (elems d1) (elems d2)" "stable_perm lt (elems d1) (elems d2)"
      using less.hyps [of "i + 1" d1] True less.prems d1 permutes_range_length [OF d1(3)] by auto
    have "permutes_range a b (elems d) (elems d2)"
      using d1(3) d2(3) True by (meson permutes_range_mono permutes_range_trans order_refl zless_imp_add1_zle)
    then show ?thesis
      using True d1 d2 stable_perm_trans by (auto simp: insertionSort_outer.simps [of _ d])
  qed
qed

lemma insertionSort_ok:
  assumes "0 \<le> a" "a \<le> b" "b \<le> int (length (elems d))"
  shows "\<exists>d'. insertionSort data d a b = Some d' \<and> sorted_range lt a b (elems d')
           \<and> permutes_range a b (elems d) (elems d') \<and> stable_perm lt (elems d) (elems d')"
proof (cases "a < b")
  case True
  then show ?thesis
    using assms insertionSort_outer_ok [of a "a + 1" b d]
    by (auto simp: insertionSort_def sorted_range_trivial)
next
  case False
  with assms show ?thesis
    by (auto simp: insertionSort_def insertionSort_outer.simps sorted_range_trivial)
qed

end

end
