(* ===== verification/Heap_Shape.thy ===== *)
theory Heap_Shape
  imports Main
begin

text \<open>
  The implicit binary tree that \<^verbatim>\<open>sort.siftDown\<close> and \<^verbatim>\<open>container/heap\<close> keep in an index range:
  the children of node \<open>i\<close> are \<open>2*i+1\<close> and \<open>2*i+2\<close>. \<open>over p c\<close> says that \<open>p\<close> may stand above \<open>c\<close>;
  the two packages instantiate it with the two directions of their order.
\<close>

definition is_child :: "int \<Rightarrow> int \<Rightarrow> bool" where
  "is_child c i \<longleftrightarrow> c = 2 * i + 1 \<or> c = 2 * i + 2"

definition heap_ok :: "('a \<Rightarrow> 'a \<Rightarrow> bool) \<Rightarrow> (int \<Rightarrow> 'a) \<Rightarrow> int \<Rightarrow> int \<Rightarrow> bool" where
  "heap_ok over e lo hi \<longleftrightarrow> (\<forall>i c. lo \<le> i \<and> is_child c i \<and> c < hi \<longrightarrow> over (e i) (e c))"

text \<open>Node \<open>r\<close> may be wrong with respect to its children; what is above it dominates them.\<close>

definition heap_down_hole :: "('a \<Rightarrow> 'a \<Rightarrow> bool) \<Rightarrow> (int \<Rightarrow> 'a) \<Rightarrow> int \<Rightarrow> int \<Rightarrow> int \<Rightarrow> bool" where
  "heap_down_hole over e lo hi r \<longleftrightarrow>
     (\<forall>i c. lo \<le> i \<and> i \<noteq> r \<and> is_child c i \<and> c < hi \<longrightarrow> over (e i) (e c)) \<and>
     (\<forall>i c. lo \<le> i \<and> is_child r i \<and> is_child c r \<and> c < hi \<longrightarrow> over (e i) (e c))"

text \<open>Node \<open>j\<close> may be wrong with respect to its parent; its parent dominates its children.\<close>

definition heap_up_hole :: "('a \<Rightarrow> 'a \<Rightarrow> bool) \<Rightarrow> (int \<Rightarrow> 'a) \<Rightarrow> int \<Rightarrow> int \<Rightarrow> bool" where
  "heap_up_hole over e hi j \<longleftrightarrow>
     (\<forall>i c. 0 \<le> i \<and> c \<noteq> j \<and> is_child c i \<and> c < hi \<longrightarrow> over (e i) (e c)) \<and>
     (\<forall>i c. 0 \<le> i \<and> is_child j i \<and> is_child c j \<and> c < hi \<longrightarrow> over (e i) (e c))"

lemma is_child_gt: "is_child c i \<Longrightarrow> 0 \<le> i \<Longrightarrow> i < c"
  by (auto simp: is_child_def)

lemma is_child_parent_unique: "is_child c i \<Longrightarrow> is_child c j \<Longrightarrow> i = j"
  by (auto simp: is_child_def)

lemma heap_okD: "heap_ok over e lo hi \<Longrightarrow> lo \<le> i \<Longrightarrow> is_child c i \<Longrightarrow> c < hi \<Longrightarrow> over (e i) (e c)"
  by (auto simp: heap_ok_def)

lemma heap_ok_mono: "heap_ok over e lo hi \<Longrightarrow> lo \<le> lo' \<Longrightarrow> hi' \<le> hi \<Longrightarrow> heap_ok over e lo' hi'"
  by (auto simp: heap_ok_def)

lemma heap_ok_cong:
  assumes "0 \<le> lo" "\<And>k. lo \<le> k \<Longrightarrow> k < hi \<Longrightarrow> e k = e' k"
  shows "heap_ok over e lo hi = heap_ok over e' lo hi"
proof -
  have "e i = e' i \<and> e c = e' c" if "lo \<le> i" "is_child c i" "c < hi" for i c
    using that assms is_child_gt [of c i] by auto
  then show ?thesis unfolding heap_ok_def by metis
qed

lemma heap_down_hole_start: "0 \<le> r \<Longrightarrow> heap_ok over e (r + 1) hi \<Longrightarrow> heap_down_hole over e r hi r"
  by (auto simp: heap_ok_def heap_down_hole_def is_child_def)

lemma heap_down_hole_cong:
  assumes "heap_down_hole over e lo hi r"
    and "0 \<le> lo" "lo \<le> r" "\<And>k. lo \<le> k \<Longrightarrow> k < hi \<Longrightarrow> e' k = e k"
  shows "heap_down_hole over e' lo hi r"
proof -
  have "e' i = e i" "e' c = e c" if "lo \<le> i" "is_child c i" "c < hi" for i c
    using that assms is_child_gt [of c i] by auto
  moreover have "e' i = e i" "e' c = e c" if "lo \<le> i" "is_child r i" "is_child c r" "c < hi" for i c
    using that assms is_child_gt [of c r] is_child_gt [of r i] by auto
  ultimately show ?thesis using assms(1) unfolding heap_down_hole_def by auto
qed

text \<open>The hole closes when \<open>r\<close> dominates its children, and moves down otherwise.\<close>

lemma heap_down_hole_close:
  assumes "heap_down_hole over e lo hi r" "\<And>c. is_child c r \<Longrightarrow> c < hi \<Longrightarrow> over (e r) (e c)"
  shows "heap_ok over e lo hi"
  using assms by (auto simp: heap_ok_def heap_down_hole_def)

lemma heap_down_hole_step:
  assumes hole: "heap_down_hole over e lo hi r"
    and r: "0 \<le> lo" "lo \<le> r" "is_child c r" "c < hi"
    and top: "over (e c) (e r)" "\<And>s. is_child s r \<Longrightarrow> s < hi \<Longrightarrow> s \<noteq> c \<Longrightarrow> over (e c) (e s)"
  shows "heap_down_hole over (e(r := e c, c := e r)) lo hi c"
proof -
  let ?e = "e(r := e c, c := e r)"
  have "over (?e i) (?e x)" if "lo \<le> i" "i \<noteq> c" "is_child x i" "x < hi" for i x
  proof (cases "i = r")
    case True
    then show ?thesis using that top r is_child_gt [of x r] by auto
  next
    case False
    have "x \<noteq> c" using that(3) r(3) False is_child_parent_unique by blast
    moreover have "over (e i) (e c)" if "x = r"
      using hole that \<open>lo \<le> i\<close> \<open>is_child x i\<close> r unfolding heap_down_hole_def by blast
    ultimately show ?thesis
      using hole that False unfolding heap_down_hole_def by auto
  qed
  moreover have "over (?e i) (?e x)" if "lo \<le> i" "is_child c i" "is_child x c" "x < hi" for i x
  proof -
    have "i = r" using that(2) r(3) is_child_parent_unique by blast
    moreover have "r < c" "c < x" using r that(3) is_child_gt [of c r] is_child_gt [of x c] by auto
    moreover have "over (e c) (e x)"
      using hole that r \<open>r < c\<close> unfolding heap_down_hole_def by auto
    ultimately show ?thesis by simp
  qed
  ultimately show ?thesis unfolding heap_down_hole_def by blast
qed

lemma heap_up_hole_close:
  assumes "heap_up_hole over e hi j" "\<And>i. 0 \<le> i \<Longrightarrow> is_child j i \<Longrightarrow> over (e i) (e j)"
  shows "heap_ok over e 0 hi"
  unfolding heap_ok_def
proof (intro allI impI, elim conjE)
  fix i c assume i: "0 \<le> i" "is_child c i" "c < hi"
  show "over (e i) (e c)"
    using assms(1) assms(2) [of i] i unfolding heap_up_hole_def by (cases "c = j") auto
qed

lemma heap_up_hole_step:
  assumes hole: "heap_up_hole over e hi j"
    and j: "0 \<le> i" "is_child j i" "j < hi"
    and top: "over (e j) (e i)" and trans: "\<And>a b c. over a b \<Longrightarrow> over b c \<Longrightarrow> over a c"
  shows "heap_up_hole over (e(i := e j, j := e i)) hi i"
proof -
  let ?e = "e(i := e j, j := e i)"
  have ij: "i < j" using j is_child_gt by blast
  have "over (?e p) (?e x)" if "0 \<le> p" "x \<noteq> i" "is_child x p" "x < hi" for p x
  proof -
    have px: "p < x" using that is_child_gt by blast
    consider "p = i" "x = j" | "p = i" "x \<noteq> j" | "p = j" | "p \<noteq> i" "p \<noteq> j" by blast
    then show ?thesis
    proof cases
      case 1
      then show ?thesis using ij top by simp
    next
      case 2
      then have "over (e i) (e x)" using hole that unfolding heap_up_hole_def by blast
      then show ?thesis using 2 that ij trans [OF top] by simp
    next
      case 3
      then have "over (e i) (e x)" using hole that j unfolding heap_up_hole_def by blast
      then show ?thesis using 3 px that ij by simp
    next
      case 4
      then have "x \<noteq> j" using that j is_child_parent_unique by blast
      then have "over (e p) (e x)" using hole that unfolding heap_up_hole_def by blast
      then show ?thesis using 4 \<open>x \<noteq> j\<close> that by simp
    qed
  qed
  moreover have "over (?e p) (?e x)" if "0 \<le> p" "is_child i p" "is_child x i" "x < hi" for p x
  proof -
    have pi: "p < i" "i < x" using that j is_child_gt by blast+
    have pd: "over (e p) (e i)" using hole that ij j pi unfolding heap_up_hole_def by fastforce
    show ?thesis
    proof (cases "x = j")
      case True
      then show ?thesis using pi ij pd by simp
    next
      case False
      then have "over (e i) (e x)" using hole that j unfolding heap_up_hole_def by blast
      then show ?thesis using False pi ij trans [OF pd] by simp
    qed
  qed
  ultimately show ?thesis unfolding heap_up_hole_def by blast
qed

lemma heap_up_hole_cong:
  assumes "heap_up_hole over e hi j" "0 \<le> j" "\<And>k. 0 \<le> k \<Longrightarrow> k < hi \<Longrightarrow> e' k = e k"
  shows "heap_up_hole over e' hi j"
proof -
  have "e' i = e i" "e' c = e c" if "0 \<le> i" "is_child c i" "c < hi" for i c
    using that assms(3) is_child_gt [of c i] by auto
  moreover have "e' i = e i" "e' c = e c" if "0 \<le> i" "is_child j i" "is_child c j" "c < hi" for i c
    using that assms(2,3) is_child_gt [of c j] is_child_gt [of j i] by auto
  ultimately show ?thesis using assms(1) unfolding heap_up_hole_def by auto
qed

text \<open>
  Replacing the value of one node of a heap leaves a hole that can be mended downwards when the new value
  suits the parent, and upwards when it suits the children.
\<close>

lemma heap_replace_down:
  assumes ok: "heap_ok over e 0 hi" and trans: "\<And>a b c. over a b \<Longrightarrow> over b c \<Longrightarrow> over a c"
    and "0 \<le> i" "i < hi" "\<And>p. 0 \<le> p \<Longrightarrow> is_child i p \<Longrightarrow> over (e p) x"
  shows "heap_down_hole over (e(i := x)) 0 hi i"
proof -
  have "over (e p) (e c)" if "0 \<le> p" "is_child i p" "is_child c i" "c < hi" for p c
    using trans [OF heap_okD [OF ok that(1,2) assms(4)] heap_okD [OF ok assms(3) that(3,4)]] .
  then show ?thesis
    using assms(3,5) heap_okD [OF ok] is_child_gt unfolding heap_down_hole_def by fastforce
qed

lemma heap_replace_up:
  assumes ok: "heap_ok over e 0 hi" and trans: "\<And>a b c. over a b \<Longrightarrow> over b c \<Longrightarrow> over a c"
    and "0 \<le> i" "i < hi" "\<And>c. is_child c i \<Longrightarrow> c < hi \<Longrightarrow> over x (e c)"
  shows "heap_up_hole over (e(i := x)) hi i"
proof -
  have "over (e p) (e c)" if "0 \<le> p" "is_child i p" "is_child c i" "c < hi" for p c
    using trans [OF heap_okD [OF ok that(1,2) assms(4)] heap_okD [OF ok assms(3) that(3,4)]] .
  then show ?thesis
    using assms(3,5) heap_okD [OF ok] is_child_gt unfolding heap_up_hole_def by fastforce
qed

text \<open>The root dominates every node.\<close>

lemma heap_root:
  assumes ok: "heap_ok over e 0 hi"
    and refl: "\<And>a. over a a" and trans: "\<And>a b c. over a b \<Longrightarrow> over b c \<Longrightarrow> over a c"
    and k: "0 \<le> k" "k < hi"
  shows "over (e 0) (e k)"
  using k
proof (induction "nat k" arbitrary: k rule: less_induct)
  case less
  show ?case
  proof (cases "k = 0")
    case True
    then show ?thesis by (simp add: refl)
  next
    case False
    let ?p = "(k - 1) div 2"
    have p: "0 \<le> ?p" "?p < k" "is_child k ?p" using False less.prems by (auto simp: is_child_def)
    then have "over (e 0) (e ?p)" using less by simp
    moreover have "over (e ?p) (e k)" using heap_okD [OF ok _ p(3)] p(1) less.prems by simp
    ultimately show ?thesis by (rule trans)
  qed
qed

end
