(* ===== verification/Sort_Heap.thy ===== *)
theory Sort_Heap
  imports Sort_Insertion Heap_Shape "HOL-Library.Signed_Division"
begin

text \<open>
  \<^verbatim>\<open>siftDown\<close> and \<^verbatim>\<open>heapSort\<close> of \<^verbatim>\<open>sort/sort.go\<close>, the fallback of quickSort when its depth
  budget is spent. \<open>2*root+1\<close> is computed in Go's int, so it is written with its wrap-around; the
  lemmas assume a collection of at most \<open>2 ^ 62\<close> elements, where it does not wrap.
\<close>

partial_function (option) siftDown ::
  "('d, 'm) sort_ops_scheme \<Rightarrow> 'd \<Rightarrow> int \<Rightarrow> int \<Rightarrow> int \<Rightarrow> 'd option" where
  "siftDown data d root hi first =
     (let child = int64 (2 * root + 1) in
      if child \<ge> hi then Some d
      else do {
        child' \<leftarrow> (if child + 1 < hi
                   then do { b \<leftarrow> Less data d (first + child) (first + child + 1);
                             Some (if b then child + 1 else child) }
                   else Some child);
        b \<leftarrow> Less data d (first + root) (first + child');
        if \<not> b then Some d
        else do {
          d' \<leftarrow> Swap data d (first + root) (first + child');
          siftDown data d' child' hi first
        }
      })"

partial_function (option) heapSort_build ::
  "('d, 'm) sort_ops_scheme \<Rightarrow> 'd \<Rightarrow> int \<Rightarrow> int \<Rightarrow> int \<Rightarrow> 'd option" where
  "heapSort_build data d first hi i =
     (if i \<ge> 0 then do { d' \<leftarrow> siftDown data d i hi first; heapSort_build data d' first hi (i - 1) }
      else Some d)"

partial_function (option) heapSort_pop ::
  "('d, 'm) sort_ops_scheme \<Rightarrow> 'd \<Rightarrow> int \<Rightarrow> int \<Rightarrow> 'd option" where
  "heapSort_pop data d first i =
     (if i \<ge> 0 then
        do {
          d1 \<leftarrow> Swap data d first (first + i);
          d2 \<leftarrow> siftDown data d1 0 i first;
          heapSort_pop data d2 first (i - 1)
        }
      else Some d)"

definition heapSort :: "('d, 'm) sort_ops_scheme \<Rightarrow> 'd \<Rightarrow> int \<Rightarrow> int \<Rightarrow> 'd option" where
  "heapSort data d a b =
     (let first = a; hi = b - a in
      do {
        d' \<leftarrow> heapSort_build data d first hi ((hi - 1) sdiv 2);
        heapSort_pop data d' first (hi - 1)
      })"

declare siftDown.simps [code] heapSort_build.simps [code] heapSort_pop.simps [code]

lemma sdiv_2_nonneg: "0 \<le> (x::int) \<Longrightarrow> x sdiv 2 = x div 2"
  by (simp add: signed_divide_int_def sgn_if)

context sort_interface
begin

definition dominates :: "'a \<Rightarrow> 'a \<Rightarrow> bool" where
  "dominates p c \<longleftrightarrow> \<not> lt p c"

definition view :: "'d \<Rightarrow> int \<Rightarrow> int \<Rightarrow> 'a" where
  "view d first k = elems d ! nat (first + k)"

lemma dominates_refl: "dominates a a"
  by (simp add: dominates_def lt_irrefl)

lemma dominates_trans: "dominates a b \<Longrightarrow> dominates b c \<Longrightarrow> dominates a c"
  unfolding dominates_def by (rule lt_cotrans)

lemma Swap_view:
  assumes "0 \<le> first" "0 \<le> i" "0 \<le> j" "first + i < int (length (elems d))" "first + j < int (length (elems d))"
  shows "\<exists>d'. Swap data d (first + i) (first + j) = Some d'
      \<and> elems d' = swap_at (elems d) (nat (first + i)) (nat (first + j))
      \<and> (\<forall>k. 0 \<le> k \<and> first + k < int (length (elems d)) \<longrightarrow>
           view d' first k = ((view d first)(i := view d first j, j := view d first i)) k)"
proof -
  obtain d' where d': "Swap data d (first + i) (first + j) = Some d'"
      "elems d' = swap_at (elems d) (nat (first + i)) (nat (first + j))"
    using Swap_law [of "first + i" d "first + j"] assms by auto
  moreover have "view d' first k = ((view d first)(i := view d first j, j := view d first i)) k"
    if "0 \<le> k" "first + k < int (length (elems d))" for k
    using assms that by (auto simp: view_def d' nth_swap_at nat_eq_iff2)
  ultimately show ?thesis by blast
qed

lemma siftDown_ok:
  assumes "0 \<le> first" "0 \<le> lo" "lo \<le> root" "first + hi \<le> int (length (elems d))"
    "length (elems d) \<le> 2 ^ 62" "root < 2 ^ 62" "heap_down_hole dominates (view d first) lo hi root"
  shows "\<exists>d'. siftDown data d root hi first = Some d' \<and> heap_ok dominates (view d' first) lo hi
           \<and> permutes_range (first + root) (first + hi) (elems d) (elems d')"
  using assms
proof (induction "nat (hi - root)" arbitrary: root d rule: less_induct)
  case less
  let ?v = "view d first" and ?n = "int (length (elems d))"
  have child: "int64 (2 * root + 1) = 2 * root + 1"
    using less.prems by (intro int64_id) auto
  have less_view: "Less data d (first + i) (first + j) = Some (lt (?v i) (?v j))"
    if "0 \<le> i" "0 \<le> j" "i < hi" "j < hi" for i j
    using that less.prems Less_law [of "first + i" d "first + j"] by (auto simp: view_def)
  show ?case
  proof (cases "2 * root + 1 \<ge> hi")
    case True
    have "heap_ok dominates ?v lo hi"
      using less.prems(7) by (rule heap_down_hole_close) (use True in \<open>auto simp: is_child_def\<close>)
    then show ?thesis using True child by (auto simp: siftDown.simps [of _ d] Let_def)
  next
    case False
    define c where "c = (if 2 * root + 2 < hi \<and> lt (?v (2 * root + 1)) (?v (2 * root + 2))
      then 2 * root + 2 else 2 * root + 1)"
    have c: "is_child c root" "c < hi" "root < c"
      using False less.prems by (auto simp: c_def is_child_def)
    have sel: "(if 2 * root + 1 + 1 < hi
        then do { b \<leftarrow> Less data d (first + (2 * root + 1)) (first + (2 * root + 1) + 1);
                  Some (if b then 2 * root + 1 + 1 else 2 * root + 1) }
        else Some (2 * root + 1)) = Some c"
      using False less.prems less_view [of "2 * root + 1" "2 * root + 2"] by (auto simp: c_def add.assoc)
    have max: "dominates (?v c) (?v s)" if "is_child s root" "s < hi" for s
      using that by (auto simp: c_def is_child_def dominates_def lt_irrefl dest: lt_asym)
    have unfold: "siftDown data d root hi first =
        (if \<not> lt (?v root) (?v c) then Some d
         else do { d' \<leftarrow> Swap data d (first + root) (first + c); siftDown data d' c hi first })"
      using False child sel less_view [of root c] c less.prems
      by (simp add: siftDown.simps [of _ d root] Let_def)
    show ?thesis
    proof (cases "lt (?v root) (?v c)")
      case False
      have "dominates (?v root) (?v s)" if "is_child s root" "s < hi" for s
        using dominates_trans [OF _ max [OF that]] False by (auto simp: dominates_def)
      then have "heap_ok dominates ?v lo hi"
        using less.prems(7) by (blast intro: heap_down_hole_close)
      then show ?thesis using False unfold by auto
    next
      case True
      obtain d' where d': "Swap data d (first + root) (first + c) = Some d'"
          "elems d' = swap_at (elems d) (nat (first + root)) (nat (first + c))"
          "\<And>k. 0 \<le> k \<Longrightarrow> first + k < ?n \<Longrightarrow> view d' first k = (?v(root := ?v c, c := ?v root)) k"
        using Swap_view [of first root c d] c less.prems by auto
      have "heap_down_hole dominates (?v(root := ?v c, c := ?v root)) lo hi c"
        using less.prems(2,3,7) c max lt_asym [OF True] True
        by (intro heap_down_hole_step) (auto simp: dominates_def)
      then have hole: "heap_down_hole dominates (view d' first) lo hi c"
        by (rule heap_down_hole_cong) (use d'(3) less.prems(1,2,3,4) c in auto)
      obtain d'' where d'': "siftDown data d' c hi first = Some d''" "heap_ok dominates (view d'' first) lo hi"
          "permutes_range (first + c) (first + hi) (elems d') (elems d'')"
        using less.hyps [of c d'] hole c less.prems d'(2) by auto
      have "permutes_range (first + root) (first + hi) (elems d) (elems d')"
        unfolding d'(2) using c less.prems by (intro permutes_range_swap) auto
      moreover have "permutes_range (first + root) (first + hi) (elems d') (elems d'')"
        by (rule permutes_range_mono [OF d''(3)]) (use c in auto)
      ultimately show ?thesis
        using True unfold d' d'' by (auto intro: permutes_range_trans)
    qed
  qed
qed

lemma heapSort_build_ok:
  assumes "0 \<le> first" "-1 \<le> i" "i < 2 ^ 62" "first + hi \<le> int (length (elems d))"
    "length (elems d) \<le> 2 ^ 62" "heap_ok dominates (view d first) (i + 1) hi"
  shows "\<exists>d'. heapSort_build data d first hi i = Some d' \<and> heap_ok dominates (view d' first) 0 hi
           \<and> permutes_range first (first + hi) (elems d) (elems d')"
  using assms
proof (induction "nat (i + 1)" arbitrary: i d rule: less_induct)
  case less
  show ?case
  proof (cases "i \<ge> 0")
    case False
    with less.prems have "i = -1" by simp
    with less.prems show ?thesis by (auto simp: heapSort_build.simps [of _ d])
  next
    case True
    then obtain d1 where d1: "siftDown data d i hi first = Some d1" "heap_ok dominates (view d1 first) i hi"
        "permutes_range (first + i) (first + hi) (elems d) (elems d1)"
      using siftDown_ok [of first i i hi d] heap_down_hole_start [of i] less.prems by auto
    have len: "length (elems d1) = length (elems d)" using permutes_range_length [OF d1(3)] .
    obtain d2 where d2: "heapSort_build data d1 first hi (i - 1) = Some d2" "heap_ok dominates (view d2 first) 0 hi"
        "permutes_range first (first + hi) (elems d1) (elems d2)"
      using less.hyps [of "i - 1" d1] True less.prems d1(2) len by auto
    have "permutes_range first (first + hi) (elems d) (elems d1)"
      using d1(3) True by (rule_tac permutes_range_mono) auto
    then show ?thesis
      using True d1(1) d2 by (auto simp: heapSort_build.simps [of _ d] intro: permutes_range_trans)
  qed
qed

lemma heapSort_pop_ok:
  assumes "0 \<le> first" "-1 \<le> i" "first + i < b" "b \<le> int (length (elems d))" "length (elems d) \<le> 2 ^ 62"
    "heap_ok dominates (view d first) 0 (i + 1)" "sorted_range lt (first + i + 1) b (elems d)"
    "\<And>p q. first \<le> p \<Longrightarrow> p \<le> first + i \<Longrightarrow> first + i < q \<Longrightarrow> q < b \<Longrightarrow> \<not> lt (elems d ! nat q) (elems d ! nat p)"
  shows "\<exists>d'. heapSort_pop data d first i = Some d' \<and> sorted_range lt first b (elems d')
           \<and> permutes_range first b (elems d) (elems d')"
  using assms
proof (induction "nat (i + 1)" arbitrary: i d rule: less_induct)
  case less
  show ?case
  proof (cases "i \<ge> 0")
    case False
    with less.prems have "i = -1" by simp
    with less.prems show ?thesis by (auto simp: heapSort_pop.simps [of _ d])
  next
    case True
    let ?v = "view d first" and ?n = "int (length (elems d))"
    have top: "\<not> lt (?v 0) (?v k)" if "0 \<le> k" "k \<le> i" for k
      using heap_root [OF less.prems(6) dominates_refl dominates_trans] that by (auto simp: dominates_def)
    obtain d1 where d1: "Swap data d first (first + i) = Some d1"
        "elems d1 = swap_at (elems d) (nat first) (nat (first + i))"
        "\<And>k. 0 \<le> k \<Longrightarrow> first + k < ?n \<Longrightarrow> view d1 first k = (?v(0 := ?v i, i := ?v 0)) k"
      using Swap_view [of first 0 i d] True less.prems by auto
    have len1: "length (elems d1) = length (elems d)" using d1(2) by simp
    have "heap_ok dominates ?v 1 i" using less.prems(6) by (rule heap_ok_mono) auto
    then have "heap_ok dominates (view d1 first) 1 i"
      using heap_ok_cong [of 1 i "view d1 first" ?v] d1(3) less.prems(3,4) by simp
    then have "heap_down_hole dominates (view d1 first) 0 i 0"
      by (intro heap_down_hole_start) auto
    then obtain d2 where d2: "siftDown data d1 0 i first = Some d2" "heap_ok dominates (view d2 first) 0 i"
        "permutes_range first (first + i) (elems d1) (elems d2)"
      using siftDown_ok [of first 0 0 i d1] less.prems len1 by auto
    have len2: "length (elems d2) = length (elems d)" using permutes_range_length [OF d2(3)] len1 by simp
    have out1: "elems d1 ! nat q = elems d ! nat q" if "first + i < q" "q < b" for q
      using d1(3) [of "q - first"] that less.prems True by (auto simp: view_def)
    have out2: "elems d2 ! nat q = elems d1 ! nat q" if "first + i \<le> q" "q < b" for q
      using permutes_range_out [OF d2(3), of q] that less.prems len1 True by auto
    have last: "elems d2 ! nat (first + i) = ?v 0"
      using out2 [of "first + i"] d1(3) [of i] True less.prems by (auto simp: view_def)
    have heap2: "\<exists>k. 0 \<le> k \<and> k \<le> i \<and> elems d2 ! nat p = ?v k" if p: "first \<le> p" "p \<le> first + i" for p
    proof (cases "p = first + i")
      case True
      then show ?thesis using last \<open>i \<ge> 0\<close> by auto
    next
      case False
      then obtain l where l: "first \<le> l" "l < first + i" "elems d2 ! nat p = elems d1 ! nat l"
        using permutes_range_in [OF d2(3), of p] p less.prems len1 by auto
      then show ?thesis
        using d1(3) [of "l - first"] less.prems True
        by (intro exI [of _ "if l = first then i else l - first"]) (auto simp: view_def)
    qed
    have sorted2: "sorted_range lt (first + i) b (elems d2)"
      unfolding sorted_range_def
    proof (intro allI impI, elim conjE)
      fix p q assume pq: "first + i \<le> p" "p < q" "q < b"
      show "\<not> lt (elems d2 ! nat q) (elems d2 ! nat p)"
      proof (cases "p = first + i")
        case True
        then show ?thesis
          using pq less.prems(8) [of first q] last out1 [of q] out2 [of q] \<open>i \<ge> 0\<close> by (auto simp: view_def)
      next
        case False
        then show ?thesis
          using pq sorted_rangeD [OF less.prems(7), of p q] out1 [of p] out1 [of q] out2 [of p] out2 [of q] by auto
      qed
    qed
    have ge2: "\<not> lt (elems d2 ! nat q) (elems d2 ! nat p)"
      if pq: "first \<le> p" "p \<le> first + (i - 1)" "first + (i - 1) < q" "q < b" for p q
    proof -
      obtain k where k: "0 \<le> k" "k \<le> i" "elems d2 ! nat p = ?v k" using heap2 [of p] pq by auto
      show ?thesis
      proof (cases "q = first + i")
        case True
        then show ?thesis using top [OF k(1,2)] last k by auto
      next
        case False
        then show ?thesis
          using pq k less.prems(8) [of "first + k" q] out1 [of q] out2 [of q] by (auto simp: view_def)
      qed
    qed
    obtain d3 where d3: "heapSort_pop data d2 first (i - 1) = Some d3" "sorted_range lt first b (elems d3)"
        "permutes_range first b (elems d2) (elems d3)"
      using less.hyps [of "i - 1" d2] True less.prems len2 d2(2) sorted2 ge2 by auto
    have "permutes_range first b (elems d) (elems d1)"
      unfolding d1(2) using True less.prems by (intro permutes_range_swap) auto
    moreover have "permutes_range first b (elems d1) (elems d2)"
      using d2(3) less.prems by (rule_tac permutes_range_mono) auto
    ultimately show ?thesis
      using True d1(1) d2(1) d3
      by (auto simp: heapSort_pop.simps [of _ d] intro: permutes_range_trans)
  qed
qed

lemma heapSort_ok:
  assumes "0 \<le> a" "a \<le> b" "b \<le> int (length (elems d))" "length (elems d) \<le> 2 ^ 62"
  shows "\<exists>d'. heapSort data d a b = Some d' \<and> sorted_range lt a b (elems d')
           \<and> permutes_range a b (elems d) (elems d')"
proof -
  let ?i = "(b - a - 1) sdiv 2"
  have i: "-1 \<le> ?i" "?i < 2 ^ 62" and leaf: "b - a \<le> 2 * ?i + 3"
    using assms by (auto simp: signed_divide_int_def sgn_if)
  have "heap_ok dominates (view d a) (?i + 1) (b - a)"
    using leaf by (auto simp: heap_ok_def is_child_def)
  then obtain d1 where d1: "heapSort_build data d a (b - a) ?i = Some d1" "heap_ok dominates (view d1 a) 0 (b - a)"
      "permutes_range a b (elems d) (elems d1)"
    using heapSort_build_ok [of a ?i "b - a" d] assms i by auto
  then obtain d2 where "heapSort_pop data d1 a (b - a - 1) = Some d2" "sorted_range lt a b (elems d2)"
      "permutes_range a b (elems d1) (elems d2)"
    using heapSort_pop_ok [of a "b - a - 1" b d1] assms permutes_range_length [OF d1(3)]
    by (auto simp: sorted_range_trivial)
  with d1 show ?thesis
    by (auto simp: heapSort_def Let_def intro: permutes_range_trans)
qed

end

end
