(* ===== verification/Sort_Quick.thy ===== *)
theory Sort_Quick
  imports Sort_Heap
begin

text \<open>
  \<^verbatim>\<open>medianOfThree\<close>, \<^verbatim>\<open>doPivot\<close>, \<^verbatim>\<open>quickSort\<close>, \<^verbatim>\<open>maxDepth\<close>, \<^verbatim>\<open>Sort\<close> and \<^verbatim>\<open>IsSorted\<close> of
  \<^verbatim>\<open>sort/sort.go\<close>. \<open>scan_up\<close> and \<open>scan_down\<close> are the two shapes of scanning \<open>for\<close> loop in doPivot.
\<close>

subsection \<open>Operations\<close>

definition medianOfThree ::
  "('d, 'm) sort_ops_scheme \<Rightarrow> 'd \<Rightarrow> int \<Rightarrow> int \<Rightarrow> int \<Rightarrow> 'd option" where
  "medianOfThree data d m1 m0 m2 =
     do {
       b \<leftarrow> Less data d m1 m0;
       d \<leftarrow> (if b then Swap data d m1 m0 else Some d);
       b \<leftarrow> Less data d m2 m1;
       if b then
         do {
           d \<leftarrow> Swap data d m2 m1;
           b \<leftarrow> Less data d m1 m0;
           if b then Swap data d m1 m0 else Some d
         }
       else Some d
     }"

text \<open>\<open>for ; i < lim && p(i); i++ {}\<close> and \<open>for ; lim < j && p(j-1); j-- {}\<close>.\<close>

partial_function (option) scan_up :: "(int \<Rightarrow> bool option) \<Rightarrow> int \<Rightarrow> int \<Rightarrow> int option" where
  "scan_up p i lim =
     (if i < lim then do { b \<leftarrow> p i; if b then scan_up p (i + 1) lim else Some i } else Some i)"

partial_function (option) scan_down :: "(int \<Rightarrow> bool option) \<Rightarrow> int \<Rightarrow> int \<Rightarrow> int option" where
  "scan_down p j lim =
     (if lim < j then do { b \<leftarrow> p (j - 1); if b then scan_down p (j - 1) lim else Some j } else Some j)"

text \<open>The partition loop around \<open>data[pivot]\<close>.\<close>

partial_function (option) doPivot_loop ::
  "('d, 'm) sort_ops_scheme \<Rightarrow> 'd \<Rightarrow> int \<Rightarrow> int \<Rightarrow> int \<Rightarrow> ('d \<times> int \<times> int) option" where
  "doPivot_loop data d pivot b c =
     do {
       b \<leftarrow> scan_up (\<lambda>i. map_option Not (Less data d pivot i)) b c;
       c \<leftarrow> scan_down (\<lambda>i. Less data d pivot i) c b;
       if b \<ge> c then Some (d, b, c)
       else do { d \<leftarrow> Swap data d b (c - 1); doPivot_loop data d pivot (b + 1) (c - 1) }
     }"

text \<open>The test of some points for equality to the pivot.\<close>

definition doPivot_dups ::
  "('d, 'm) sort_ops_scheme \<Rightarrow> 'd \<Rightarrow> int \<Rightarrow> int \<Rightarrow> int \<Rightarrow> int \<Rightarrow> int \<Rightarrow> ('d \<times> int \<times> int \<times> bool) option" where
  "doPivot_dups data d pivot m hi b c =
     do {
       (d, c, dups) \<leftarrow>
         (do { t \<leftarrow> Less data d pivot (hi - 1);
               if \<not> t then do { d \<leftarrow> Swap data d c (hi - 1); Some (d, c + 1, 1) }
               else Some (d, c, 0 :: int) });
       (b, dups) \<leftarrow>
         (do { t \<leftarrow> Less data d (b - 1) pivot;
               if \<not> t then Some (b - 1, dups + 1) else Some (b, dups) });
       (d, b, dups) \<leftarrow>
         (do { t \<leftarrow> Less data d m pivot;
               if \<not> t then do { d \<leftarrow> Swap data d m (b - 1); Some (d, b - 1, dups + 1) }
               else Some (d, b, dups) });
       Some (d, b, c, dups > 1)
     }"

text \<open>The protection against a lot of duplicates: split the lower part into smaller and equal.\<close>

partial_function (option) doPivot_protect ::
  "('d, 'm) sort_ops_scheme \<Rightarrow> 'd \<Rightarrow> int \<Rightarrow> int \<Rightarrow> int \<Rightarrow> ('d \<times> int) option" where
  "doPivot_protect data d pivot a b =
     do {
       b \<leftarrow> scan_down (\<lambda>i. map_option Not (Less data d i pivot)) b a;
       a \<leftarrow> scan_up (\<lambda>i. Less data d i pivot) a b;
       if a \<ge> b then Some (d, b)
       else do { d \<leftarrow> Swap data d a (b - 1); doPivot_protect data d pivot (a + 1) (b - 1) }
     }"

definition doPivot ::
  "('d, 'm) sort_ops_scheme \<Rightarrow> 'd \<Rightarrow> int \<Rightarrow> int \<Rightarrow> ('d \<times> int \<times> int) option" where
  "doPivot data d lo hi =
     do {
       let m = mid lo hi;
       d \<leftarrow> (if hi - lo > 40 then
               let s = (hi - lo) sdiv 8 in
               do {
                 d \<leftarrow> medianOfThree data d lo (lo + s) (lo + 2 * s);
                 d \<leftarrow> medianOfThree data d m (m - s) (m + s);
                 medianOfThree data d (hi - 1) (hi - 1 - s) (hi - 1 - 2 * s)
               }
             else Some d);
       d \<leftarrow> medianOfThree data d lo m (hi - 1);
       let pivot = lo;
       a \<leftarrow> scan_up (\<lambda>i. Less data d i pivot) (lo + 1) (hi - 1);
       (d, b, c) \<leftarrow> doPivot_loop data d pivot a (hi - 1);
       let protect = hi - c < 5;
       (d, b, c, protect) \<leftarrow>
         (if \<not> protect \<and> hi - c < (hi - lo) sdiv 4 then doPivot_dups data d pivot m hi b c
          else Some (d, b, c, protect));
       (d, b) \<leftarrow> (if protect then doPivot_protect data d pivot a b else Some (d, b));
       d \<leftarrow> Swap data d pivot (b - 1);
       Some (d, b - 1, c)
     }"

text \<open>The gap-6 pass that precedes the insertion sort of a short range.\<close>

partial_function (option) quickSort_gap6 ::
  "('d, 'm) sort_ops_scheme \<Rightarrow> 'd \<Rightarrow> int \<Rightarrow> int \<Rightarrow> 'd option" where
  "quickSort_gap6 data d b i =
     (if i < b then
        do {
          t \<leftarrow> Less data d i (i - 6);
          d \<leftarrow> (if t then Swap data d i (i - 6) else Some d);
          quickSort_gap6 data d b (i + 1)
        }
      else Some d)"

partial_function (option) quickSort ::
  "('d, 'm) sort_ops_scheme \<Rightarrow> 'd \<Rightarrow> int \<Rightarrow> int \<Rightarrow> int \<Rightarrow> 'd option" where
  "quickSort data d a b maxDepth =
     (if b - a > 12 then
        (if maxDepth = 0 then heapSort data d a b
         else do {
           (d, mlo, mhi) \<leftarrow> doPivot data d a b;
           if mlo - a < b - mhi then
             do { d \<leftarrow> quickSort data d a mlo (maxDepth - 1); quickSort data d mhi b (maxDepth - 1) }
           else
             do { d \<leftarrow> quickSort data d mhi b (maxDepth - 1); quickSort data d a mlo (maxDepth - 1) }
         })
      else if b - a > 1 then
        do { d \<leftarrow> quickSort_gap6 data d b (a + 6); insertionSort data d a b }
      else Some d)"

function maxDepth_loop :: "int \<Rightarrow> int \<Rightarrow> int" where
  "maxDepth_loop i depth = (if i > 0 then maxDepth_loop (i div 2) (depth + 1) else depth)"
  by pat_completeness auto
termination
  by (relation "measure (\<lambda>(i, depth). nat i)") auto

declare maxDepth_loop.simps [simp del]

definition maxDepth :: "int \<Rightarrow> int" where
  "maxDepth n = maxDepth_loop n 0 * 2"

definition Sort :: "('d, 'm) sort_ops_scheme \<Rightarrow> 'd \<Rightarrow> 'd option" where
  "Sort data d = (let n = Len data d in quickSort data d 0 n (maxDepth n))"

partial_function (option) IsSorted_loop ::
  "('d, 'm) sort_ops_scheme \<Rightarrow> 'd \<Rightarrow> int \<Rightarrow> bool option" where
  "IsSorted_loop data d i =
     (if i > 0 then
        do { b \<leftarrow> Less data d i (i - 1); if b then Some False else IsSorted_loop data d (i - 1) }
      else Some True)"

definition IsSorted :: "('d, 'm) sort_ops_scheme \<Rightarrow> 'd \<Rightarrow> bool option" where
  "IsSorted data d = (let n = Len data d in IsSorted_loop data d (n - 1))"

declare scan_up.simps [code] scan_down.simps [code] doPivot_loop.simps [code] 
  doPivot_protect.simps [code] quickSort_gap6.simps [code] quickSort.simps [code] 
  IsSorted_loop.simps [code]

text \<open>The convenience wrappers for the basic slices.\<close>

definition Ints :: "int list \<Rightarrow> int list option" where
  "Ints x = Sort IntSlice x"

definition Float64s :: "float64 list \<Rightarrow> float64 list option" where
  "Float64s x = Sort Float64Slice x"

definition Strings :: "string list \<Rightarrow> string list option" where
  "Strings x = Sort StringSlice x"

definition IntsAreSorted :: "int list \<Rightarrow> bool option" where
  "IntsAreSorted x = IsSorted IntSlice x"

definition Float64sAreSorted :: "float64 list \<Rightarrow> bool option" where
  "Float64sAreSorted x = IsSorted Float64Slice x"

definition StringsAreSorted :: "string list \<Rightarrow> bool option" where
  "StringsAreSorted x = IsSorted StringSlice x"

subsection \<open>Scanning loops\<close>

lemma scan_up_ok:
  assumes "\<And>k. i \<le> k \<Longrightarrow> k < lim \<Longrightarrow> p k = Some (g k)" "i \<le> lim"
  shows "\<exists>r. scan_up p i lim = Some r \<and> i \<le> r \<and> r \<le> lim \<and> (\<forall>k. i \<le> k \<and> k < r \<longrightarrow> g k) \<and> (r = lim \<or> \<not> g r)"
  using assms
proof (induction "nat (lim - i)" arbitrary: i rule: less_induct)
  case less
  show ?case
  proof (cases "i < lim \<and> g i")
    case False
    then show ?thesis using less.prems by (auto simp: scan_up.simps [of p i])
  next
    case True
    then obtain r where r: "scan_up p (i + 1) lim = Some r" "i + 1 \<le> r" "r \<le> lim"
        "\<forall>k. i + 1 \<le> k \<and> k < r \<longrightarrow> g k" "r = lim \<or> \<not> g r"
      using less.hyps [of "i + 1"] less.prems by auto
    have "g k" if "i \<le> k" "k < r" for k using that r(4) True by (cases "k = i") auto
    then show ?thesis using r True less.prems(1) [of i] by (auto simp: scan_up.simps [of p i])
  qed
qed

lemma scan_down_ok:
  assumes "\<And>k. lim \<le> k \<Longrightarrow> k < j \<Longrightarrow> p k = Some (g k)" "lim \<le> j"
  shows "\<exists>r. scan_down p j lim = Some r \<and> lim \<le> r \<and> r \<le> j \<and> (\<forall>k. r \<le> k \<and> k < j \<longrightarrow> g k) \<and> (r = lim \<or> \<not> g (r - 1))"
  using assms
proof (induction "nat (j - lim)" arbitrary: j rule: less_induct)
  case less
  show ?case
  proof (cases "lim < j \<and> g (j - 1)")
    case False
    then show ?thesis using less.prems by (auto simp: scan_down.simps [of p j])
  next
    case True
    then obtain r where r: "scan_down p (j - 1) lim = Some r" "lim \<le> r" "r \<le> j - 1"
        "\<forall>k. r \<le> k \<and> k < j - 1 \<longrightarrow> g k" "r = lim \<or> \<not> g (r - 1)"
      using less.hyps [of "j - 1"] less.prems by auto
    have "g k" if "r \<le> k" "k < j" for k using that r(4) True by (cases "k = j - 1") auto
    then show ?thesis using r True less.prems(1) [of "j - 1"] by (auto simp: scan_down.simps [of p j])
  qed
qed

context sort_interface
begin

subsection \<open>Exchanges inside a range\<close>

lemma Swap_range:
  assumes "0 \<le> a" "b \<le> int (length (elems d))" "a \<le> i" "i < b" "a \<le> j" "j < b"
  shows "\<exists>d'. Swap data d i j = Some d' \<and> permutes_range a b (elems d) (elems d')
    \<and> length (elems d') = length (elems d)
    \<and> (\<forall>k. 0 \<le> k \<and> k < int (length (elems d)) \<longrightarrow>
         elems d' ! nat k = (if k = i then elems d ! nat j else if k = j then elems d ! nat i else elems d ! nat k))"
proof -
  obtain d' where d': "Swap data d i j = Some d'" "elems d' = swap_at (elems d) (nat i) (nat j)"
    using Swap_law [of i d j] assms by auto
  moreover have "permutes_range a b (elems d) (elems d')"
    unfolding d'(2) using assms by (intro permutes_range_swap) auto
  ultimately show ?thesis using assms by (auto simp: nth_swap_at nat_eq_iff2)
qed

lemma medianOfThree_ok:
  assumes "0 \<le> a" "b \<le> int (length (elems d))" "a \<le> m1" "m1 < b" "a \<le> m0" "m0 < b" "a \<le> m2" "m2 < b"
    "m1 \<noteq> m2" "m0 \<noteq> m2"
  shows "\<exists>d'. medianOfThree data d m1 m0 m2 = Some d' \<and> permutes_range a b (elems d) (elems d')
           \<and> \<not> lt (elems d' ! nat m2) (elems d' ! nat m1)"
proof -
  have L: "Less data x i j = Some (lt (elems x ! nat i) (elems x ! nat j))"
    if "length (elems x) = length (elems d)" "a \<le> i" "i < b" "a \<le> j" "j < b" for x i j
    using that assms Less_law by auto
  have S: "\<exists>d'. Swap data x i j = Some d' \<and> permutes_range a b (elems x) (elems d')
    \<and> length (elems d') = length (elems x)
    \<and> (\<forall>k. a \<le> k \<and> k < b \<longrightarrow>
         elems d' ! nat k = (if k = i then elems x ! nat j else if k = j then elems x ! nat i else elems x ! nat k))"
    if "length (elems x) = length (elems d)" "a \<le> i" "i < b" "a \<le> j" "j < b" for x i j
    using that assms Swap_range [of a b x i j] by auto
  obtain d1 where d1: "(if lt (elems d ! nat m1) (elems d ! nat m0) then Swap data d m1 m0 else Some d) = Some d1"
      "permutes_range a b (elems d) (elems d1)" "length (elems d1) = length (elems d)"
    using S [of d m1 m0] assms by (cases "lt (elems d ! nat m1) (elems d ! nat m0)") auto
  show ?thesis
  proof (cases "lt (elems d1 ! nat m2) (elems d1 ! nat m1)")
    case False
    then show ?thesis using assms d1 L [of d m1 m0] L [of d1 m2 m1] by (auto simp: medianOfThree_def)
  next
    case True
    obtain d2 where d2: "Swap data d1 m2 m1 = Some d2" "permutes_range a b (elems d1) (elems d2)"
        "length (elems d2) = length (elems d)"
        "elems d2 ! nat m1 = elems d1 ! nat m2" "elems d2 ! nat m2 = elems d1 ! nat m1"
      using S [of d1 m2 m1] assms d1 by auto
    have le2: "\<not> lt (elems d2 ! nat m2) (elems d2 ! nat m1)"
      using lt_asym [OF True] d2 by auto
    show ?thesis
    proof (cases "lt (elems d2 ! nat m1) (elems d2 ! nat m0)")
      case False
      then show ?thesis
        using True le2 assms d1 d2 L [of d m1 m0] L [of d1 m2 m1] L [of d2 m1 m0]
        by (auto simp: medianOfThree_def intro: permutes_range_trans)
    next
      case sw: True
      obtain d3 where d3: "Swap data d2 m1 m0 = Some d3" "permutes_range a b (elems d2) (elems d3)"
          "elems d3 ! nat m1 = elems d2 ! nat m0" "elems d3 ! nat m2 = elems d2 ! nat m2"
        using S [of d2 m1 m0] assms d2 by auto
      have "elems d2 ! nat m0 = elems d1 ! nat m0" if "m0 \<noteq> m1"
        using S [of d1 m2 m1] assms d1 d2(1) that by auto
      moreover have "\<not> lt (elems d1 ! nat m1) (elems d1 ! nat m0)"
      proof (cases "lt (elems d ! nat m1) (elems d ! nat m0)")
        case True
        then show ?thesis using S [of d m1 m0] assms d1 lt_asym [OF True] by auto
      next
        case False
        then show ?thesis using d1 by auto
      qed
      moreover have "m0 \<noteq> m1" using sw lt_irrefl by auto
      ultimately have "\<not> lt (elems d3 ! nat m2) (elems d3 ! nat m1)"
        using d3 d2 by auto
      then show ?thesis
        using True sw assms d1 d2 d3 L [of d m1 m0] L [of d1 m2 m1] L [of d2 m1 m0]
        by (auto simp: medianOfThree_def intro: permutes_range_trans)
    qed
  qed
qed

subsection \<open>The partition\<close>

text \<open>
  The invariant of doPivot: four zones relative to the pivot value \<open>v\<close>, smaller, not greater,
  equal and not smaller.
\<close>

definition zones :: "'d \<Rightarrow> 'a \<Rightarrow> int \<Rightarrow> int \<Rightarrow> int \<Rightarrow> int \<Rightarrow> int \<Rightarrow> bool" where
  "zones d v lo a b c hi \<longleftrightarrow>
     (\<forall>k. lo < k \<and> k < a \<longrightarrow> lt (elems d ! nat k) v) \<and>
     (\<forall>k. a \<le> k \<and> k < b \<longrightarrow> \<not> lt v (elems d ! nat k)) \<and>
     (\<forall>k. b \<le> k \<and> k < c \<longrightarrow> \<not> lt v (elems d ! nat k) \<and> \<not> lt (elems d ! nat k) v) \<and>
     (\<forall>k. c \<le> k \<and> k < hi \<longrightarrow> \<not> lt (elems d ! nat k) v)"

lemma doPivot_loop_ok:
  assumes "0 \<le> lo" "lo < b" "b \<le> c" "c \<le> int (length (elems d))" "elems d ! nat lo = v"
    "\<And>k. a \<le> k \<Longrightarrow> k < b \<Longrightarrow> \<not> lt v (elems d ! nat k)"
    "\<And>k. c \<le> k \<Longrightarrow> k < hi \<Longrightarrow> \<not> lt (elems d ! nat k) v"
    "hi \<le> int (length (elems d))" "lo < a"
  shows "\<exists>d' r. doPivot_loop data d lo b c = Some (d', r, r) \<and> b \<le> r \<and> r \<le> c
    \<and> permutes_range b c (elems d) (elems d')
    \<and> (\<forall>k. a \<le> k \<and> k < r \<longrightarrow> \<not> lt v (elems d' ! nat k))
    \<and> (\<forall>k. r \<le> k \<and> k < hi \<longrightarrow> \<not> lt (elems d' ! nat k) v)"
  using assms
proof (induction "nat (c - b)" arbitrary: b c d rule: less_induct)
  case less
  let ?E = "\<lambda>k. elems d ! nat k"
  have L: "Less data d i j = Some (lt (?E i) (?E j))" if "lo \<le> i" "i < c" "lo \<le> j" "j < c" for i j
    using that less.prems(1,4) Less_law by auto
  obtain b1 where b1: "scan_up (\<lambda>i. map_option Not (Less data d lo i)) b c = Some b1" "b \<le> b1" "b1 \<le> c"
      "\<And>k. b \<le> k \<Longrightarrow> k < b1 \<Longrightarrow> \<not> lt v (?E k)" "b1 = c \<or> lt v (?E b1)"
    using scan_up_ok [of b c "\<lambda>i. map_option Not (Less data d lo i)" "\<lambda>k. \<not> lt v (?E k)"] L less.prems
    by auto
  obtain c1 where c1: "scan_down (\<lambda>i. Less data d lo i) c b1 = Some c1" "b1 \<le> c1" "c1 \<le> c"
      "\<And>k. c1 \<le> k \<Longrightarrow> k < c \<Longrightarrow> lt v (?E k)" "c1 = b1 \<or> \<not> lt v (?E (c1 - 1))"
    using scan_down_ok [of b1 c "\<lambda>i. Less data d lo i" "\<lambda>k. lt v (?E k)"] L less.prems b1 by auto
  have low: "\<not> lt v (?E k)" if "a \<le> k" "k < b1" for k
    using that less.prems(6) [of k] b1(4) [of k] by (cases "k < b") auto
  have high: "\<not> lt (?E k) v" if "c1 \<le> k" "k < hi" for k
    using that less.prems(7) [of k] lt_asym [OF c1(4) [of k]] by (cases "k < c") auto
  show ?case
  proof (cases "b1 \<ge> c1")
    case True
    then have "doPivot_loop data d lo b c = Some (d, b1, b1)"
      using b1(1) c1(1,2) by (simp add: doPivot_loop.simps [of _ d lo b])
    moreover have "\<not> lt (?E k) v" if "b1 \<le> k" "k < hi" for k
      using that high [of k] True by auto
    ultimately show ?thesis using b1 low by auto
  next
    case False
    then have gap: "b1 + 1 \<le> c1 - 1" using b1(5) c1(2,3,5) by (cases "b1 = c1 - 1") auto
    obtain d1 where d1: "Swap data d b1 (c1 - 1) = Some d1" "permutes_range b c (elems d) (elems d1)"
        "length (elems d1) = length (elems d)"
        "\<And>k. 0 \<le> k \<Longrightarrow> k < int (length (elems d)) \<Longrightarrow>
           elems d1 ! nat k = (if k = b1 then ?E (c1 - 1) else if k = c1 - 1 then ?E b1 else ?E k)"
      using Swap_range [of b c d b1 "c1 - 1"] less.prems gap b1(2) c1(3) by auto
    have vb: "lt v (?E b1)" using b1(5) False c1(3) by auto
    have v1: "elems d1 ! nat lo = v" using d1(4) [of lo] less.prems(1,2,3,4,5) b1(2) c1(2) gap by auto
    have low1: "\<not> lt v (elems d1 ! nat k)" if "a \<le> k" "k < b1 + 1" for k
      using that d1(4) [of k] low [of k] gap c1(3,5) less.prems(1,4,9) False by (cases "k = b1") auto
    have high1: "\<not> lt (elems d1 ! nat k) v" if "c1 - 1 \<le> k" "k < hi" for k
      using that d1(4) [of k] high [of k] gap b1(2) less.prems(1,2,8) lt_asym [OF vb]
      by (cases "k = c1 - 1") auto
    obtain d2 r where r: "doPivot_loop data d1 lo (b1 + 1) (c1 - 1) = Some (d2, r, r)" "b1 + 1 \<le> r" "r \<le> c1 - 1"
        "permutes_range (b1 + 1) (c1 - 1) (elems d1) (elems d2)"
        "\<And>k. a \<le> k \<Longrightarrow> k < r \<Longrightarrow> \<not> lt v (elems d2 ! nat k)"
        "\<And>k. r \<le> k \<Longrightarrow> k < hi \<Longrightarrow> \<not> lt (elems d2 ! nat k) v"
      using less.hyps [of "c1 - 1" "b1 + 1" d1] gap b1(2) c1(3) less.prems(1,2,3,4,8,9) d1(3) v1 low1 high1
      by auto
    have "permutes_range b c (elems d1) (elems d2)"
      using r(4) by (rule permutes_range_mono) (use b1 c1 in auto)
    then have "permutes_range b c (elems d) (elems d2)" using d1(2) by (blast intro: permutes_range_trans)
    moreover have "doPivot_loop data d lo b c = Some (d2, r, r)"
      using b1(1) c1(1) False d1(1) r(1) by (simp add: doPivot_loop.simps [of _ d lo b])
    ultimately show ?thesis using r(2,3,5,6) b1(2) c1(3) by auto
  qed
qed

lemma zonesD:
  assumes "zones d v lo a b c hi"
  shows "lo < k \<Longrightarrow> k < a \<Longrightarrow> lt (elems d ! nat k) v"
    and "a \<le> k \<Longrightarrow> k < b \<Longrightarrow> \<not> lt v (elems d ! nat k)"
    and "b \<le> k \<Longrightarrow> k < c \<Longrightarrow> \<not> lt v (elems d ! nat k)"
    and "b \<le> k \<Longrightarrow> k < c \<Longrightarrow> \<not> lt (elems d ! nat k) v"
    and "c \<le> k \<Longrightarrow> k < hi \<Longrightarrow> \<not> lt (elems d ! nat k) v"
  using assms by (auto simp: zones_def)

text \<open>The three tests of doPivot_dups, each keeping the zones.\<close>

lemma dups_high:
  assumes z: "zones d v lo a b c hi" and v: "elems d ! nat lo = v"
    and r: "0 \<le> lo" "lo < a" "a \<le> b" "b \<le> c" "c < hi" "hi \<le> int (length (elems d))"
  shows "\<exists>d' c' dups. (do { t \<leftarrow> Less data d lo (hi - 1);
        if \<not> t then do { d \<leftarrow> Swap data d c (hi - 1); Some (d, c + 1, 1) } else Some (d, c, 0 :: int) })
      = Some (d', c', dups)
    \<and> permutes_range (lo + 1) hi (elems d) (elems d') \<and> elems d' ! nat lo = v
    \<and> zones d' v lo a b c' hi \<and> c \<le> c' \<and> c' \<le> hi"
proof -
  have L: "Less data d lo (hi - 1) = Some (lt v (elems d ! nat (hi - 1)))"
    using Less_law [of lo d "hi - 1"] r v by auto
  show ?thesis
  proof (cases "lt v (elems d ! nat (hi - 1))")
    case True
    then show ?thesis using L z v r by auto
  next
    case False
    obtain d' where d': "Swap data d c (hi - 1) = Some d'" "permutes_range (lo + 1) hi (elems d) (elems d')"
        "\<And>k. 0 \<le> k \<Longrightarrow> k < int (length (elems d)) \<Longrightarrow>
           elems d' ! nat k = (if k = c then elems d ! nat (hi - 1) else if k = hi - 1 then elems d ! nat c else elems d ! nat k)"
      using Swap_range [of "lo + 1" hi d c "hi - 1"] r by auto
    have "elems d' ! nat lo = v" using d'(3) [of lo] v r by auto
    moreover have "zones d' v lo a b (c + 1) hi"
      unfolding zones_def
      using r False zonesD(1,2,5) [OF z] zonesD(3,4) [OF z] by (auto simp: d'(3))
    ultimately show ?thesis using L False d'(1,2) r by auto
  qed
qed

lemma dups_low:
  assumes z: "zones d v lo a b c hi" and v: "elems d ! nat lo = v"
    and r: "0 \<le> lo" "lo + 1 < b" "b \<le> c" "c \<le> hi" "hi \<le> int (length (elems d))" "a \<le> b"
  shows "\<exists>b' dups'. (do { t \<leftarrow> Less data d (b - 1) lo; if \<not> t then Some (b - 1, dups + 1) else Some (b, dups :: int) })
      = Some (b', dups') \<and> zones d v lo a b' c hi \<and> a \<le> b' \<and> b - 1 \<le> b' \<and> b' \<le> b"
proof -
  have L: "Less data d (b - 1) lo = Some (lt (elems d ! nat (b - 1)) v)"
    using Less_law [of "b - 1" d lo] r v by auto
  show ?thesis
  proof (cases "lt (elems d ! nat (b - 1)) v")
    case True
    then show ?thesis using L z r by auto
  next
    case False
    have "a \<le> b - 1" using False zonesD(1) [OF z, of "b - 1"] r by force
    moreover have "zones d v lo a (b - 1) c hi"
      unfolding zones_def
    proof (intro conjI allI impI; elim conjE)
      fix k assume "b - 1 \<le> k" "k < c"
      then show "\<not> lt v (elems d ! nat k)" "\<not> lt (elems d ! nat k) v"
        using False zonesD(2) [OF z, of "b - 1"] zonesD(3,4) [OF z, of k] \<open>a \<le> b - 1\<close>
        by (cases "k = b - 1"; auto)+
    qed (use zonesD [OF z] in auto)
    ultimately show ?thesis using L False by auto
  qed
qed

lemma dups_mid:
  assumes z: "zones d v lo a b c hi" and v: "elems d ! nat lo = v"
    and r: "0 \<le> lo" "lo < m" "m < b" "b \<le> c" "c \<le> hi" "hi \<le> int (length (elems d))" "a \<le> b" "lo < a"
  shows "\<exists>d' b' dups'. (do { t \<leftarrow> Less data d m lo;
        if \<not> t then do { d \<leftarrow> Swap data d m (b - 1); Some (d, b - 1, dups + 1) } else Some (d, b, dups :: int) })
      = Some (d', b', dups') \<and> permutes_range (lo + 1) hi (elems d) (elems d') \<and> elems d' ! nat lo = v
    \<and> zones d' v lo a b' c hi \<and> a \<le> b' \<and> b' \<le> b"
proof -
  have L: "Less data d m lo = Some (lt (elems d ! nat m) v)"
    using Less_law [of m d lo] r v by auto
  show ?thesis
  proof (cases "lt (elems d ! nat m) v")
    case True
    then show ?thesis using L z v r by auto
  next
    case False
    have m: "a \<le> m" using False zonesD(1) [OF z, of m] r by force
    obtain d' where d': "Swap data d m (b - 1) = Some d'" "permutes_range (lo + 1) hi (elems d) (elems d')"
        "\<And>k. 0 \<le> k \<Longrightarrow> k < int (length (elems d)) \<Longrightarrow>
           elems d' ! nat k = (if k = m then elems d ! nat (b - 1) else if k = b - 1 then elems d ! nat m else elems d ! nat k)"
      using Swap_range [of "lo + 1" hi d m "b - 1"] r by auto
    have "elems d' ! nat lo = v" using d'(3) [of lo] v r by auto
    moreover have "zones d' v lo a (b - 1) c hi"
      unfolding zones_def
    proof (intro conjI allI impI; elim conjE)
      fix k assume k: "b - 1 \<le> k" "k < c"
      then show "\<not> lt v (elems d' ! nat k)" "\<not> lt (elems d' ! nat k) v"
        using False zonesD(2) [OF z, of m] zonesD(3,4) [OF z, of k] m r
        by (cases "k = b - 1"; auto simp: d'(3))+
    next
      fix k assume k: "a \<le> k" "k < b - 1"
      then show "\<not> lt v (elems d' ! nat k)"
        using zonesD(2) [OF z, of k] zonesD(2) [OF z, of "b - 1"] m r
        by (cases "k = m") (auto simp: d'(3))
    qed (use zonesD(1,5) [OF z] m r in \<open>auto simp: d'(3)\<close>)
    ultimately show ?thesis using L False d'(1,2) m r by auto
  qed
qed

lemma doPivot_dups_ok:
  assumes z: "zones d v lo a b c hi" and v: "elems d ! nat lo = v"
    and r: "0 \<le> lo" "lo < m" "m + 1 < b" "lo + 1 < b" "b \<le> c" "c < hi" "hi \<le> int (length (elems d))" "a \<le> b" "lo < a"
  shows "\<exists>d' b' c' p. doPivot_dups data d lo m hi b c = Some (d', b', c', p)
    \<and> permutes_range (lo + 1) hi (elems d) (elems d') \<and> elems d' ! nat lo = v
    \<and> zones d' v lo a b' c' hi \<and> a \<le> b' \<and> b' \<le> c' \<and> c' \<le> hi"
proof -
  obtain d1 c1 n1 where 1: "(do { t \<leftarrow> Less data d lo (hi - 1);
        if \<not> t then do { d \<leftarrow> Swap data d c (hi - 1); Some (d, c + 1, 1) } else Some (d, c, 0 :: int) })
      = Some (d1, c1, n1)"
    "permutes_range (lo + 1) hi (elems d) (elems d1)" "elems d1 ! nat lo = v"
    "zones d1 v lo a b c1 hi" "c \<le> c1" "c1 \<le> hi"
    using dups_high [OF z v] r by auto
  have len: "length (elems d1) = length (elems d)" using 1(2) by (rule permutes_range_length)
  obtain b2 n2 where 2: "(do { t \<leftarrow> Less data d1 (b - 1) lo; if \<not> t then Some (b - 1, n1 + 1) else Some (b, n1) })
      = Some (b2, n2)" "zones d1 v lo a b2 c1 hi" "a \<le> b2" "b - 1 \<le> b2" "b2 \<le> b"
    using dups_low [OF 1(4) 1(3), of n1] r 1(5,6) len by auto
  obtain d3 b3 n3 where 3: "(do { t \<leftarrow> Less data d1 m lo;
        if \<not> t then do { d \<leftarrow> Swap data d1 m (b2 - 1); Some (d, b2 - 1, n2 + 1) } else Some (d1, b2, n2) })
      = Some (d3, b3, n3)" "permutes_range (lo + 1) hi (elems d1) (elems d3)" "elems d3 ! nat lo = v"
    "zones d3 v lo a b3 c1 hi" "a \<le> b3" "b3 \<le> b2"
    using dups_mid [OF 2(2) 1(3), of m n2] r 1(5,6) 2(3,4,5) len by auto
  have "doPivot_dups data d lo m hi b c = Some (d3, b3, c1, n3 > 1)"
    unfolding doPivot_dups_def 1(1) by (simp only: 2(1) 3(1) Option.bind.simps prod.case)
  moreover have "permutes_range (lo + 1) hi (elems d) (elems d3)"
    using 1(2) 3(2) by (rule permutes_range_trans)
  ultimately show ?thesis using 1(5,6) 2(5) 3(3-6) r by auto
qed

lemma doPivot_protect_ok:
  assumes "zones d v lo a b c hi" "elems d ! nat lo = v"
    "0 \<le> lo" "lo < a" "a \<le> b" "b \<le> c" "c \<le> hi" "hi \<le> int (length (elems d))"
  shows "\<exists>d' b'. doPivot_protect data d lo a b = Some (d', b')
    \<and> permutes_range (lo + 1) hi (elems d) (elems d') \<and> elems d' ! nat lo = v
    \<and> zones d' v lo b' b' c hi \<and> a \<le> b' \<and> b' \<le> b"
  using assms
proof (induction "nat (b - a)" arbitrary: a b d rule: less_induct)
  case less
  let ?E = "\<lambda>k. elems d ! nat k"
  note z = zonesD [OF less.prems(1)]
  have L: "Less data d k lo = Some (lt (?E k) v)" if "lo \<le> k" "k < hi" for k
    using that less.prems Less_law [of k d lo] by auto
  obtain b1 where b1: "scan_down (\<lambda>i. map_option Not (Less data d i lo)) b a = Some b1" "a \<le> b1" "b1 \<le> b"
      "\<And>k. b1 \<le> k \<Longrightarrow> k < b \<Longrightarrow> \<not> lt (?E k) v" "b1 = a \<or> lt (?E (b1 - 1)) v"
    using scan_down_ok [of a b "\<lambda>i. map_option Not (Less data d i lo)" "\<lambda>k. \<not> lt (?E k) v"] L less.prems
    by auto
  obtain a1 where a1: "scan_up (\<lambda>i. Less data d i lo) a b1 = Some a1" "a \<le> a1" "a1 \<le> b1"
      "\<And>k. a \<le> k \<Longrightarrow> k < a1 \<Longrightarrow> lt (?E k) v" "a1 = b1 \<or> \<not> lt (?E a1) v"
    using scan_up_ok [of a b1 "\<lambda>i. Less data d i lo" "\<lambda>k. lt (?E k) v"] L less.prems b1 by auto
  have low: "lt (?E k) v" if "lo < k" "k < a1" for k
    using that z(1) [of k] a1(4) [of k] by (cases "k < a") auto
  have eq: "\<not> lt v (?E k)" "\<not> lt (?E k) v" if "b1 \<le> k" "k < c" for k
    using that z(2,3,4) [of k] b1(2) b1(4) [of k] by (cases "k < b"; force)+
  show ?case
  proof (cases "a1 \<ge> b1")
    case True
    have "zones d v lo b1 b1 c hi"
      unfolding zones_def using low eq z(5) True by auto
    moreover have "doPivot_protect data d lo a b = Some (d, b1)"
      using True b1(1) a1(1) by (simp add: doPivot_protect.simps [of _ d lo a])
    ultimately show ?thesis using less.prems(2) b1(2,3) by auto
  next
    case False
    have nb1: "lt (?E (b1 - 1)) v" using b1(5) a1(2) False by auto
    have na1: "\<not> lt (?E a1) v" using a1(5) False by auto
    have gap: "a1 + 1 \<le> b1 - 1" using na1 nb1 False by (cases "a1 = b1 - 1") auto
    obtain d1 where d1: "Swap data d a1 (b1 - 1) = Some d1" "permutes_range (lo + 1) hi (elems d) (elems d1)"
        "length (elems d1) = length (elems d)"
        "\<And>k. 0 \<le> k \<Longrightarrow> k < int (length (elems d)) \<Longrightarrow>
           elems d1 ! nat k = (if k = a1 then ?E (b1 - 1) else if k = b1 - 1 then ?E a1 else ?E k)"
      using Swap_range [of "lo + 1" hi d a1 "b1 - 1"] less.prems gap a1(2) b1(3) by auto
    have v1: "elems d1 ! nat lo = v" using d1(4) [of lo] less.prems gap a1(2) by auto
    have z1: "zones d1 v lo (a1 + 1) (b1 - 1) c hi"
      unfolding zones_def
    proof (intro conjI allI impI; elim conjE)
      fix k assume k: "lo < k" "k < a1 + 1"
      then show "lt (elems d1 ! nat k) v"
        using d1(4) [of k] low [of k] nb1 gap less.prems(3,6,7,8) b1(3) by (cases "k = a1") auto
    next
      fix k assume k: "a1 + 1 \<le> k" "k < b1 - 1"
      then show "\<not> lt v (elems d1 ! nat k)"
        using d1(4) [of k] z(2) [of k] gap a1(2) b1(3) less.prems(3,4,6,7,8) by auto
    next
      fix k assume k: "b1 - 1 \<le> k" "k < c"
      then show "\<not> lt v (elems d1 ! nat k)" "\<not> lt (elems d1 ! nat k) v"
        using d1(4) [of k] eq [of k] z(2) [of a1] na1 gap a1(2) b1(3) less.prems(3,4,6,7,8)
        by (cases "k = b1 - 1"; auto)+
    next
      fix k assume k: "c \<le> k" "k < hi"
      then show "\<not> lt (elems d1 ! nat k) v"
        using d1(4) [of k] z(5) [of k] gap b1(3) less.prems(3,4,5,6,8) by auto
    qed
    obtain d2 b2 where r: "doPivot_protect data d1 lo (a1 + 1) (b1 - 1) = Some (d2, b2)"
        "permutes_range (lo + 1) hi (elems d1) (elems d2)" "elems d2 ! nat lo = v"
        "zones d2 v lo b2 b2 c hi" "a1 + 1 \<le> b2" "b2 \<le> b1 - 1"
      using less.hyps [of "b1 - 1" "a1 + 1" d1] z1 v1 gap a1(2) b1(3) less.prems(3,4,6,7,8) d1(3) by auto
    have "doPivot_protect data d lo a b = Some (d2, b2)"
      using False b1(1) a1(1) d1(1) r(1) by (simp add: doPivot_protect.simps [of _ d lo a])
    then show ?thesis using r(2-6) d1(2) a1(2) b1(3) by (auto intro: permutes_range_trans)
  qed
qed

lemma doPivot_medians:
  assumes "0 \<le> lo" "hi - lo > 12" "hi \<le> int (length (elems d))" "length (elems d) \<le> 2 ^ 62"
    and m: "m = mid lo hi"
  shows "\<exists>d'. (do {
       d \<leftarrow> (if hi - lo > 40 then
               let s = (hi - lo) sdiv 8 in
               do {
                 d \<leftarrow> medianOfThree data d lo (lo + s) (lo + 2 * s);
                 d \<leftarrow> medianOfThree data d m (m - s) (m + s);
                 medianOfThree data d (hi - 1) (hi - 1 - s) (hi - 1 - 2 * s)
               }
             else Some d);
       medianOfThree data d lo m (hi - 1)
     }) = Some d' \<and> permutes_range lo hi (elems d) (elems d')
     \<and> \<not> lt (elems d' ! nat (hi - 1)) (elems d' ! nat lo)"
proof -
  have mid: "m = (lo + hi) div 2" using assms by (simp add: mid_eq)
  have m': "lo \<le> m" "m < hi" "m \<noteq> hi - 1" using assms(2) unfolding mid by linarith+
  have M: "\<exists>d'. medianOfThree data x m1 m0 m2 = Some d' \<and> permutes_range lo hi (elems d) (elems d')
           \<and> \<not> lt (elems d' ! nat m2) (elems d' ! nat m1)"
    if "permutes_range lo hi (elems d) (elems x)" "lo \<le> m1" "m1 < hi" "lo \<le> m0" "m0 < hi" "lo \<le> m2" "m2 < hi"
      "m1 \<noteq> m2" "m0 \<noteq> m2" for x m1 m0 m2
    using that(2-) medianOfThree_ok [of lo hi x m1 m0 m2] assms(1,3) permutes_range_length [OF that(1)]
      permutes_range_trans [OF that(1)] by (simp del: lt_irrefl) blast
  obtain d1 where d1: "(if hi - lo > 40 then
               let s = (hi - lo) sdiv 8 in
               do {
                 d \<leftarrow> medianOfThree data d lo (lo + s) (lo + 2 * s);
                 d \<leftarrow> medianOfThree data d m (m - s) (m + s);
                 medianOfThree data d (hi - 1) (hi - 1 - s) (hi - 1 - 2 * s)
               }
             else Some d) = Some d1" "permutes_range lo hi (elems d) (elems d1)"
  proof (cases "hi - lo > 40")
    case False
    then show ?thesis using that by simp
  next
    case True
    let ?s = "(hi - lo) div 8"
    have s: "(hi - lo) sdiv 8 = ?s" using True by (simp add: signed_divide_int_def sgn_if)
    have b: "5 \<le> ?s" "8 * ?s \<le> hi - lo" using True by auto
    have mb: "lo \<le> m - ?s" "m + ?s < hi" "lo \<le> m" "m < hi" using b unfolding mid by linarith+
    obtain x1 where x1: "medianOfThree data d lo (lo + ?s) (lo + 2 * ?s) = Some x1" "permutes_range lo hi (elems d) (elems x1)"
      using M [of d lo "lo + ?s" "lo + 2 * ?s"] b by auto
    obtain x2 where x2: "medianOfThree data x1 m (m - ?s) (m + ?s) = Some x2" "permutes_range lo hi (elems d) (elems x2)"
      using M [OF x1(2), of m "m - ?s" "m + ?s"] b mb by auto
    obtain x3 where x3: "medianOfThree data x2 (hi - 1) (hi - 1 - ?s) (hi - 1 - 2 * ?s) = Some x3" "permutes_range lo hi (elems d) (elems x3)"
      using M [OF x2(2), of "hi - 1" "hi - 1 - ?s" "hi - 1 - 2 * ?s"] b by auto
    show ?thesis using that [of x3] True x1 x2 x3 by (simp add: s Let_def)
  qed
  obtain d2 where "medianOfThree data d1 lo m (hi - 1) = Some d2" "permutes_range lo hi (elems d) (elems d2)"
      "\<not> lt (elems d2 ! nat (hi - 1)) (elems d2 ! nat lo)"
    using M [OF d1(2), of lo m "hi - 1"] m' assms(2) by auto
  then show ?thesis unfolding d1(1) by simp
qed

text \<open>
  doPivot rearranges its range into a part not greater than the pivot, a non-empty part equal to it
  and a part not smaller.
\<close>

lemma doPivot_ok:
  assumes "0 \<le> lo" "hi - lo > 12" "hi \<le> int (length (elems d))" "length (elems d) \<le> 2 ^ 62"
  shows "\<exists>d' mlo mhi v. doPivot data d lo hi = Some (d', mlo, mhi)
    \<and> permutes_range lo hi (elems d) (elems d') \<and> lo \<le> mlo \<and> mlo < mhi \<and> mhi \<le> hi
    \<and> (\<forall>k. lo \<le> k \<and> k < mlo \<longrightarrow> \<not> lt v (elems d' ! nat k))
    \<and> (\<forall>k. mlo \<le> k \<and> k < mhi \<longrightarrow> \<not> lt v (elems d' ! nat k) \<and> \<not> lt (elems d' ! nat k) v)
    \<and> (\<forall>k. mhi \<le> k \<and> k < hi \<longrightarrow> \<not> lt (elems d' ! nat k) v)"
proof -
  let ?m = "mid lo hi"
  have mid: "?m = (lo + hi) div 2" using assms by (simp add: mid_eq)
  obtain d1 where d1: "(do {
       d \<leftarrow> (if hi - lo > 40 then
               let s = (hi - lo) sdiv 8 in
               do {
                 d \<leftarrow> medianOfThree data d lo (lo + s) (lo + 2 * s);
                 d \<leftarrow> medianOfThree data d ?m (?m - s) (?m + s);
                 medianOfThree data d (hi - 1) (hi - 1 - s) (hi - 1 - 2 * s)
               }
             else Some d);
       medianOfThree data d lo ?m (hi - 1)
     }) = Some d1" "permutes_range lo hi (elems d) (elems d1)"
     "\<not> lt (elems d1 ! nat (hi - 1)) (elems d1 ! nat lo)"
    using doPivot_medians [OF assms refl] by blast
  have len1: "length (elems d1) = length (elems d)" using d1(2) by (rule permutes_range_length)
  define v where "v = elems d1 ! nat lo"
  have L: "Less data d1 k lo = Some (lt (elems d1 ! nat k) v)" if "lo \<le> k" "k < hi" for k
    using that assms len1 Less_law [of k d1 lo] by (auto simp: v_def)
  obtain a where a: "scan_up (\<lambda>i. Less data d1 i lo) (lo + 1) (hi - 1) = Some a" "lo + 1 \<le> a" "a \<le> hi - 1"
      "\<And>k. lo + 1 \<le> k \<Longrightarrow> k < a \<Longrightarrow> lt (elems d1 ! nat k) v"
    using scan_up_ok [of "lo + 1" "hi - 1" "\<lambda>i. Less data d1 i lo" "\<lambda>k. lt (elems d1 ! nat k) v"] L assms
    by auto
  have top: "\<not> lt (elems d1 ! nat k) v" if "hi - 1 \<le> k" "k < hi" for k
    using that d1(3) by (cases "k = hi - 1") (auto simp: v_def)
  obtain d2 r where d2: "doPivot_loop data d1 lo a (hi - 1) = Some (d2, r, r)" "a \<le> r" "r \<le> hi - 1"
      "permutes_range a (hi - 1) (elems d1) (elems d2)"
      "\<And>k. a \<le> k \<Longrightarrow> k < r \<Longrightarrow> \<not> lt v (elems d2 ! nat k)"
      "\<And>k. r \<le> k \<Longrightarrow> k < hi \<Longrightarrow> \<not> lt (elems d2 ! nat k) v"
    using doPivot_loop_ok [of lo a "hi - 1" d1 v a hi] a(2,3) assms len1 top by (auto simp: v_def)
  have len2: "length (elems d2) = length (elems d)" using permutes_range_length [OF d2(4)] len1 by simp
  have out2: "elems d2 ! nat k = elems d1 ! nat k" if "lo \<le> k" "k < a" for k
    using permutes_range_out [OF d2(4), of k] that a(3) assms len1 by auto
  have v2: "elems d2 ! nat lo = v" using out2 [of lo] a(2) by (simp add: v_def)
  have z2: "zones d2 v lo a r r hi"
    unfolding zones_def using d2(5,6) out2 a(4) by auto
  obtain d3 b c p where d3: "(if \<not> hi - r < 5 \<and> hi - r < (hi - lo) sdiv 4 then doPivot_dups data d2 lo ?m hi r r
          else Some (d2, r, r, hi - r < 5)) = Some (d3, b, c, p)"
      "permutes_range (lo + 1) hi (elems d2) (elems d3)" "elems d3 ! nat lo = v"
      "zones d3 v lo a b c hi" "a \<le> b" "b \<le> c" "c \<le> hi"
  proof (cases "\<not> hi - r < 5 \<and> hi - r < (hi - lo) sdiv 4")
    case True
    have "(hi - lo) sdiv 4 = (hi - lo) div 4" using assms(2) by (simp add: signed_divide_int_def sgn_if)
    then have "hi - r < (hi - lo) div 4" "5 \<le> hi - r" using True by auto
    then have "lo < ?m" "?m + 1 < r" using assms(2) unfolding mid by linarith+
    then show ?thesis
      using True that doPivot_dups_ok [OF z2 v2, of ?m] assms a(2) d2(2,3) len2 by auto
  next
    case False
    then have "(if \<not> hi - r < 5 \<and> hi - r < (hi - lo) sdiv 4 then doPivot_dups data d2 lo ?m hi r r
          else Some (d2, r, r, hi - r < 5)) = Some (d2, r, r, hi - r < 5)" by (rule if_not_P)
    then show ?thesis using that [of d2 r r] z2 v2 d2(2,3) by auto
  qed
  have len3: "length (elems d3) = length (elems d)" using permutes_range_length [OF d3(2)] len2 by simp
  obtain d4 b4 a4 where d4: "(if p then doPivot_protect data d3 lo a b else Some (d3, b)) = Some (d4, b4)"
      "permutes_range (lo + 1) hi (elems d3) (elems d4)" "elems d4 ! nat lo = v"
      "zones d4 v lo a4 b4 c hi" "a \<le> b4" "b4 \<le> b" "lo + 1 \<le> a4" "a4 \<le> b4"
  proof (cases p)
    case True
    then show ?thesis
      using that doPivot_protect_ok [OF d3(4,3)] assms a(2) d3(5-7) len3 by fastforce
  next
    case False
    then show ?thesis using that [of d3 b a] d3 a(2) by simp
  qed
  have len4: "length (elems d4) = length (elems d)" using permutes_range_length [OF d4(2)] len3 by simp
  obtain d5 where d5: "Swap data d4 lo (b4 - 1) = Some d5" "permutes_range lo hi (elems d4) (elems d5)"
      "\<And>k. 0 \<le> k \<Longrightarrow> k < int (length (elems d)) \<Longrightarrow>
         elems d5 ! nat k = (if k = lo then elems d4 ! nat (b4 - 1) else if k = b4 - 1 then v else elems d4 ! nat k)"
    using Swap_range [of lo hi d4 lo "b4 - 1"] assms a(2) d4(3,5,6) d3(6,7) len4 by auto
  have low: "\<not> lt v (elems d4 ! nat k)" if "lo \<le> k" "k < b4" for k
    using that zonesD(1,2) [OF d4(4), of k] d4(3,8) lt_irrefl lt_asym by (cases "k = lo"; cases "k < a4") auto
  have "doPivot data d lo hi = Some (d5, b4 - 1, c)"
    using d1(1) d2(1) d3(1) d4(1) d5(1) a(1) unfolding doPivot_def Let_def
    by (simp add: bind_eq_Some_conv split del: if_split) blast
  moreover have "permutes_range lo hi (elems d) (elems d5)"
  proof -
    have "permutes_range lo hi (elems d1) (elems d2)"
      using d2(4) by (rule permutes_range_mono) (use a in auto)
    moreover have "permutes_range lo hi (elems d2) (elems d3)" "permutes_range lo hi (elems d3) (elems d4)"
      using d3(2) d4(2) by (auto elim: permutes_range_mono)
    ultimately show ?thesis using d1(2) d5(2) by (blast intro: permutes_range_trans)
  qed
  moreover have "\<not> lt v (elems d5 ! nat k)" if "lo \<le> k" "k < b4 - 1" for k
    using that d5(3) [of k] low [of k] low [of "b4 - 1"] assms(1,3) d3(6,7) d4(5,6) by auto
  moreover have v5: "elems d5 ! nat (b4 - 1) = v"
    using d5(3) [of "b4 - 1"] d4(3) assms(1,3) d3(6,7) d4(5,6) a(2) by (cases "b4 - 1 = lo") auto
  moreover have "\<not> lt v (elems d5 ! nat k) \<and> \<not> lt (elems d5 ! nat k) v" if "b4 - 1 \<le> k" "k < c" for k
    using that d5(3) [of k] zonesD(3,4) [OF d4(4), of k] lt_irrefl [of v] assms(1,3) d3(7) d4(5) a(2) v5
    by (cases "k = b4 - 1") auto
  moreover have "\<not> lt (elems d5 ! nat k) v" if "c \<le> k" "k < hi" for k
    using that d5(3) [of k] zonesD(5) [OF d4(4), of k] assms(1,3) d3(6) d4(5,6) a(2) by auto
  ultimately show ?thesis using a(2) d3(6,7) d4(5,6) by (intro exI conjI) auto
qed

subsection \<open>quickSort and Sort\<close>

lemma quickSort_gap6_ok:
  assumes "0 \<le> a" "a + 6 \<le> i" "b \<le> int (length (elems d))"
  shows "\<exists>d'. quickSort_gap6 data d b i = Some d' \<and> permutes_range a b (elems d) (elems d')"
  using assms
proof (induction "nat (b - i)" arbitrary: i d rule: less_induct)
  case less
  show ?case
  proof (cases "i < b")
    case False
    then show ?thesis by (simp add: quickSort_gap6.simps [of _ d])
  next
    case True
    let ?t = "lt (elems d ! nat i) (elems d ! nat (i - 6))"
    have L: "Less data d i (i - 6) = Some ?t"
      using True less.prems by (intro Less_law) auto
    obtain d1 where d1: "(if ?t then Swap data d i (i - 6) else Some d) = Some d1"
        "permutes_range a b (elems d) (elems d1)"
      using Swap_range [of a b d i "i - 6"] True less.prems by (cases ?t) auto
    obtain d2 where "quickSort_gap6 data d1 b (i + 1) = Some d2" "permutes_range a b (elems d1) (elems d2)"
      using less.hyps [of "i + 1" d1] True less.prems permutes_range_length [OF d1(2)] by auto
    then show ?thesis
      using True L d1 by (auto simp: quickSort_gap6.simps [of _ d] intro: permutes_range_trans)
  qed
qed

lemma quickSort_small_ok:
  assumes "0 \<le> a" "a \<le> b" "b \<le> int (length (elems d))" "b - a \<le> 12"
  shows "\<exists>d'. quickSort data d a b md = Some d' \<and> sorted_range lt a b (elems d')
           \<and> permutes_range a b (elems d) (elems d')"
proof (cases "b - a > 1")
  case False
  then show ?thesis using assms by (auto simp: quickSort.simps [of _ d] sorted_range_trivial)
next
  case True
  obtain d1 where d1: "quickSort_gap6 data d b (a + 6) = Some d1" "permutes_range a b (elems d) (elems d1)"
    using quickSort_gap6_ok [of a "a + 6" b d] assms by auto
  obtain d2 where d2: "insertionSort data d1 a b = Some d2" "sorted_range lt a b (elems d2)"
      "permutes_range a b (elems d1) (elems d2)"
    using insertionSort_ok [of a b d1] assms permutes_range_length [OF d1(2)] by auto
  show ?thesis
    using True assms(4) d1 d2 by (auto simp: quickSort.simps [of _ d] intro: permutes_range_trans)
qed

text \<open>Sorted parts around a pivot value are a sorted whole.\<close>

lemma sorted_range_join:
  assumes s: "sorted_range lt a l xs" "sorted_range lt h b xs" and r: "a \<le> l" "l \<le> h" "h \<le> b"
    and low: "\<And>k. a \<le> k \<Longrightarrow> k < l \<Longrightarrow> \<not> lt v (xs ! nat k)"
    and eq: "\<And>k. l \<le> k \<Longrightarrow> k < h \<Longrightarrow> \<not> lt v (xs ! nat k) \<and> \<not> lt (xs ! nat k) v"
    and high: "\<And>k. h \<le> k \<Longrightarrow> k < b \<Longrightarrow> \<not> lt (xs ! nat k) v"
  shows "sorted_range lt a b xs"
  unfolding sorted_range_def
proof (intro allI impI, elim conjE)
  fix i j assume ij: "a \<le> i" "i < j" "j < b"
  have le: "\<not> lt v (xs ! nat i)" if "i < h"
    using that low [of i] eq [of i] ij by (cases "i < l") auto
  have ge: "\<not> lt (xs ! nat j) v" if "l \<le> j"
    using that high [of j] eq [of j] ij by (cases "h \<le> j") auto
  show "\<not> lt (xs ! nat j) (xs ! nat i)"
  proof (cases "i < h \<and> l \<le> j")
    case True
    then show ?thesis using le ge lt_cotrans by blast
  next
    case False
    then show ?thesis using ij r sorted_rangeD [OF s(1), of i j] sorted_rangeD [OF s(2), of i j] by auto
  qed
qed

text \<open>A property of the values of a zone survives a rearrangement of that zone or of a disjoint one.\<close>

lemma permutes_range_keep:
  assumes "permutes_range s t xs ys" "0 \<le> s" "t \<le> int (length xs)" "0 \<le> u" "w \<le> int (length xs)"
    and sep: "(s = u \<and> t = w) \<or> w \<le> s \<or> t \<le> u"
    and P: "\<And>k. u \<le> k \<Longrightarrow> k < w \<Longrightarrow> P (xs ! nat k)" and k: "u \<le> k" "k < w"
  shows "P (ys ! nat k)"
proof (cases "s \<le> k \<and> k < t")
  case True
  then obtain l where "s \<le> l" "l < t" "ys ! nat k = xs ! nat l"
    using permutes_range_in [OF assms(1-3), of k] by auto
  then show ?thesis using True sep k P [of l] by auto
next
  case False
  then show ?thesis using permutes_range_out [OF assms(1), of k] assms(4,5) k P [of k] by auto
qed

lemma sorted_range_out:
  assumes "permutes_range a b xs ys" "sorted_range lt l h xs" "0 \<le> l" "h \<le> int (length xs)" "h \<le> a \<or> b \<le> l"
  shows "sorted_range lt l h ys"
proof -
  have "ys ! nat k = xs ! nat k" if "l \<le> k" "k < h" for k
    using permutes_range_out [OF assms(1), of k] that assms(3-5) by auto
  then show ?thesis using assms(2) by (auto simp: sorted_range_def)
qed

lemma quickSort_ok:
  assumes "0 \<le> a" "a \<le> b" "b \<le> int (length (elems d))" "length (elems d) \<le> 2 ^ 62" "0 \<le> md"
  shows "\<exists>d'. quickSort data d a b md = Some d' \<and> sorted_range lt a b (elems d')
           \<and> permutes_range a b (elems d) (elems d')"
  using assms
proof (induction "nat md" arbitrary: a b d md rule: less_induct)
  case less
  consider "b - a \<le> 12" | "b - a > 12" "md = 0" | "b - a > 12" "md > 0" using less.prems(5) by linarith
  then show ?case
  proof cases
    case 1
    then show ?thesis using quickSort_small_ok less.prems by blast
  next
    case 2
    then show ?thesis using heapSort_ok [of a b d] less.prems by (simp add: quickSort.simps [of _ d])
  next
    case 3
    obtain d1 mlo mhi v where p: "doPivot data d a b = Some (d1, mlo, mhi)"
        "permutes_range a b (elems d) (elems d1)" "a \<le> mlo" "mlo < mhi" "mhi \<le> b"
        "\<And>k. a \<le> k \<Longrightarrow> k < mlo \<Longrightarrow> \<not> lt v (elems d1 ! nat k)"
        "\<And>k. mlo \<le> k \<Longrightarrow> k < mhi \<Longrightarrow> \<not> lt v (elems d1 ! nat k) \<and> \<not> lt (elems d1 ! nat k) v"
        "\<And>k. mhi \<le> k \<Longrightarrow> k < b \<Longrightarrow> \<not> lt (elems d1 ! nat k) v"
      using doPivot_ok [of a b d] 3(1) less.prems by blast
    have len1: "length (elems d1) = length (elems d)" using p(2) by (rule permutes_range_length)
    have IH: "\<exists>d'. quickSort data x l h (md - 1) = Some d' \<and> sorted_range lt l h (elems d')
        \<and> permutes_range l h (elems x) (elems d')"
      if "0 \<le> l" "l \<le> h" "h \<le> int (length (elems d))" "length (elems x) = length (elems d)" for l h x
      using less.hyps [of "md - 1" l h x] that 3(2) less.prems(4) by auto
    have both: "\<exists>d3. (do { x \<leftarrow> quickSort data d1 l h (md - 1); quickSort data x l' h' (md - 1) }) = Some d3
        \<and> sorted_range lt a b (elems d3) \<and> permutes_range a b (elems d) (elems d3)"
      if lh: "(l, h, l', h') = (a, mlo, mhi, b) \<or> (l, h, l', h') = (mhi, b, a, mlo)" for l h l' h'
    proof -
      have r: "0 \<le> l" "l \<le> h" "h \<le> int (length (elems d))" "0 \<le> l'" "l' \<le> h'" "h' \<le> int (length (elems d))"
        "a \<le> l" "h \<le> b" "a \<le> l'" "h' \<le> b" "h \<le> l' \<or> h' \<le> l" "h < mhi \<and> mlo < l' \<or> h' < mhi \<and> mlo < l"
        using lh p(3-5) less.prems(1,3) by auto
      obtain d2 where d2: "quickSort data d1 l h (md - 1) = Some d2" "sorted_range lt l h (elems d2)"
          "permutes_range l h (elems d1) (elems d2)"
        using IH [of l h d1] r len1 by auto
      have len2: "length (elems d2) = length (elems d)" using permutes_range_length [OF d2(3)] len1 by simp
      obtain d3 where d3: "quickSort data d2 l' h' (md - 1) = Some d3" "sorted_range lt l' h' (elems d3)"
          "permutes_range l' h' (elems d2) (elems d3)"
        using IH [of l' h' d2] r len2 by auto
      have sl: "sorted_range lt l h (elems d3)"
        by (rule sorted_range_out [OF d3(3) d2(2)]) (use r len2 in auto)
      have keep: "P (elems d3 ! nat k)"
        if uw: "(u, w) = (a, mlo) \<or> (u, w) = (mlo, mhi) \<or> (u, w) = (mhi, b)" and k: "u \<le> k" "k < w"
          and P: "\<And>k. u \<le> k \<Longrightarrow> k < w \<Longrightarrow> P (elems d1 ! nat k)" for u w k P
      proof -
        have b1: "0 \<le> u" "w \<le> int (length (elems d))" using uw p(3-5) less.prems(1,3) by auto
        have s1: "(l = u \<and> h = w) \<or> w \<le> l \<or> h \<le> u" and s2: "(l' = u \<and> h' = w) \<or> w \<le> l' \<or> h' \<le> u"
          using uw lh p(3-5) by auto
        have P2: "P (elems d2 ! nat k)" if "u \<le> k" "k < w" for k
          using permutes_range_keep [OF d2(3) _ _ _ _ s1, of P k] P r b1 that len1 by auto
        show ?thesis
          using permutes_range_keep [OF d3(3) _ _ _ _ s2, of P k] P2 r b1 k len2 by auto
      qed
      have "sorted_range lt a b (elems d3)"
      proof (rule sorted_range_join [where l = mlo and h = mhi and v = v])
        show "sorted_range lt a mlo (elems d3)" "sorted_range lt mhi b (elems d3)"
          using lh sl d3(2) by auto
        show "\<not> lt v (elems d3 ! nat k)" if "a \<le> k" "k < mlo" for k
          using keep [of a mlo k "\<lambda>x. \<not> lt v x"] p(6) that by auto
        show "\<not> lt v (elems d3 ! nat k) \<and> \<not> lt (elems d3 ! nat k) v" if "mlo \<le> k" "k < mhi" for k
          using keep [of mlo mhi k "\<lambda>x. \<not> lt v x \<and> \<not> lt x v"] p(7) that by auto
        show "\<not> lt (elems d3 ! nat k) v" if "mhi \<le> k" "k < b" for k
          using keep [of mhi b k "\<lambda>x. \<not> lt x v"] p(8) that by auto
      qed (use p in auto)
      moreover have "permutes_range a b (elems d1) (elems d2)" "permutes_range a b (elems d2) (elems d3)"
        using permutes_range_mono [OF d2(3)] permutes_range_mono [OF d3(3)] r by auto
      ultimately show ?thesis
        using d2(1) d3(1) p(2) by (auto intro: permutes_range_trans)
    qed
    show ?thesis
    proof (cases "mlo - a < b - mhi")
      case True
      then show ?thesis using both [of a mlo mhi b] 3 p(1) by (auto simp: quickSort.simps [of _ d])
    next
      case False
      then show ?thesis using both [of mhi b a mlo] 3 p(1) by (auto simp: quickSort.simps [of _ d])
    qed
  qed
qed

end

lemma maxDepth_loop_ge: "0 \<le> depth \<Longrightarrow> 0 \<le> maxDepth_loop i depth"
  by (induction i depth rule: maxDepth_loop.induct) (subst maxDepth_loop.simps, simp)

lemma maxDepth_nonneg: "0 \<le> maxDepth n"
  using maxDepth_loop_ge [of 0 n] by (simp add: maxDepth_def)

context sort_interface
begin

lemma Sort_ok:
  assumes "length (elems d) \<le> 2 ^ 62"
  shows "\<exists>d'. Sort data d = Some d' \<and> sorted_range lt 0 (int (length (elems d))) (elems d')
           \<and> mset (elems d') = mset (elems d)"
  using quickSort_ok [of 0 "int (length (elems d))" d "maxDepth (int (length (elems d)))"] assms maxDepth_nonneg
  by (auto simp: Sort_def Len_law Let_def permutes_range_def)

lemma IsSorted_loop_ok:
  assumes "i < int (length (elems d))"
  shows "IsSorted_loop data d i = Some (\<forall>k. 0 < k \<and> k \<le> i \<longrightarrow> \<not> lt (elems d ! nat k) (elems d ! nat (k - 1)))"
  using assms
proof (induction "nat i" arbitrary: i rule: less_induct)
  case less
  show ?case
  proof (cases "i > 0")
    case False
    then show ?thesis by (auto simp: IsSorted_loop.simps)
  next
    case True
    have L: "Less data d i (i - 1) = Some (lt (elems d ! nat i) (elems d ! nat (i - 1)))"
      using True less.prems by (intro Less_law) auto
    have IH: "IsSorted_loop data d (i - 1) =
        Some (\<forall>k. 0 < k \<and> k \<le> i - 1 \<longrightarrow> \<not> lt (elems d ! nat k) (elems d ! nat (k - 1)))"
      using less.hyps [of "i - 1"] True less.prems by simp
    have "(\<forall>k. 0 < k \<and> k \<le> i \<longrightarrow> Q k) \<longleftrightarrow> Q i \<and> (\<forall>k. 0 < k \<and> k \<le> i - 1 \<longrightarrow> Q k)" for Q :: "int \<Rightarrow> bool"
      using True by (metis order.trans zle_diff1_eq order_le_less order_refl zless_imp_add1_zle)
    then show ?thesis using True L IH by (simp add: IsSorted_loop.simps [of _ d i])
  qed
qed

lemma sorted_range_adjacent:
  "sorted_range lt 0 n xs \<longleftrightarrow> (\<forall>k. 0 < k \<and> k \<le> n - 1 \<longrightarrow> \<not> lt (xs ! nat k) (xs ! nat (k - 1)))"
proof
  assume adj: "\<forall>k. 0 < k \<and> k \<le> n - 1 \<longrightarrow> \<not> lt (xs ! nat k) (xs ! nat (k - 1))"
  have "\<not> lt (xs ! nat j) (xs ! nat i)" if "0 \<le> i" "i < j" "j < n" for i j
    using that
  proof (induction "nat (j - i)" arbitrary: j rule: less_induct)
    case less
    have step: "\<not> lt (xs ! nat j) (xs ! nat (j - 1))" using adj less.prems by auto
    show ?case
    proof (cases "i = j - 1")
      case True
      then show ?thesis using step by simp
    next
      case False
      then have "\<not> lt (xs ! nat (j - 1)) (xs ! nat i)" using less by auto
      then show ?thesis using step lt_cotrans by blast
    qed
  qed
  then show "sorted_range lt 0 n xs" by (auto simp: sorted_range_def)
qed (auto simp: sorted_range_def)

lemma IsSorted_ok: "IsSorted data d = Some (sorted_range lt 0 (int (length (elems d))) (elems d))"
  unfolding IsSorted_def Let_def Len_law sorted_range_adjacent by (rule IsSorted_loop_ok) simp

end

end
