(* ===== verification/Sort_Stable.thy ===== *)
theory Sort_Stable
  imports Sort_Quick
begin

text \<open>
  \<^verbatim>\<open>Stable\<close> of \<^verbatim>\<open>sort/sort.go\<close>: insertion sort of blocks of 20 elements, merged in place by
  symMerge, whose exchanges are the block-swapping rotation; and the functions of \<^verbatim>\<open>sort/slice.go\<close>,
  which run the same algorithms over a less function on elements.
\<close>

subsection \<open>Operations\<close>

partial_function (option) swapRange_loop ::
  "('d, 'm) sort_ops_scheme \<Rightarrow> 'd \<Rightarrow> int \<Rightarrow> int \<Rightarrow> int \<Rightarrow> int \<Rightarrow> 'd option" where
  "swapRange_loop data d a b n i =
     (if i < n then do { d \<leftarrow> Swap data d (a + i) (b + i); swapRange_loop data d a b n (i + 1) }
      else Some d)"

definition swapRange :: "('d, 'm) sort_ops_scheme \<Rightarrow> 'd \<Rightarrow> int \<Rightarrow> int \<Rightarrow> int \<Rightarrow> 'd option" where
  "swapRange data d a b n = swapRange_loop data d a b n 0"

partial_function (option) rotate_loop ::
  "('d, 'm) sort_ops_scheme \<Rightarrow> 'd \<Rightarrow> int \<Rightarrow> int \<Rightarrow> int \<Rightarrow> 'd option" where
  "rotate_loop data d m i j =
     (if i \<noteq> j then
        (if i > j then do { d \<leftarrow> swapRange data d (m - i) m j; rotate_loop data d m (i - j) j }
         else do { d \<leftarrow> swapRange data d (m - i) (m + j - i) i; rotate_loop data d m i (j - i) })
      else swapRange data d (m - i) m i)"

definition sort_rotate :: "('d, 'm) sort_ops_scheme \<Rightarrow> 'd \<Rightarrow> int \<Rightarrow> int \<Rightarrow> int \<Rightarrow> 'd option" where
  "sort_rotate data d a m b = (let i = m - a; j = b - m in rotate_loop data d m i j)"

text \<open>\<open>for k := from; k < to; k++ { Swap(k, k+1) }\<close> and \<open>for k := from; k > to; k-- { Swap(k, k-1) }\<close>.\<close>

partial_function (option) symMerge_up ::
  "('d, 'm) sort_ops_scheme \<Rightarrow> 'd \<Rightarrow> int \<Rightarrow> int \<Rightarrow> 'd option" where
  "symMerge_up data d k to =
     (if k < to then do { d \<leftarrow> Swap data d k (k + 1); symMerge_up data d (k + 1) to } else Some d)"

partial_function (option) symMerge_down ::
  "('d, 'm) sort_ops_scheme \<Rightarrow> 'd \<Rightarrow> int \<Rightarrow> int \<Rightarrow> 'd option" where
  "symMerge_down data d k to =
     (if k > to then do { d \<leftarrow> Swap data d k (k - 1); symMerge_down data d (k - 1) to } else Some d)"

partial_function (option) symMerge ::
  "('d, 'm) sort_ops_scheme \<Rightarrow> 'd \<Rightarrow> int \<Rightarrow> int \<Rightarrow> int \<Rightarrow> 'd option" where
  "symMerge data d a m b =
     (if m - a = 1 then
        do {
          i \<leftarrow> Search_loop (\<lambda>h. map_option Not (Less data d h a)) m b;
          symMerge_up data d a (i - 1)
        }
      else if b - m = 1 then
        do {
          i \<leftarrow> Search_loop (\<lambda>h. Less data d m h) a m;
          symMerge_down data d m i
        }
      else
        (let middle = mid a b;
             n = middle + m;
             (start, r) = (if m > middle then (n - b, middle) else (a, m));
             p = n - 1
         in do {
           start \<leftarrow> Search_loop (\<lambda>c. Less data d (p - c) c) start r;
           let end' = n - start;
           d \<leftarrow> (if start < m \<and> m < end' then sort_rotate data d start m end' else Some d);
           d \<leftarrow> (if a < start \<and> start < middle then symMerge data d a start middle else Some d);
           (if middle < end' \<and> end' < b then symMerge data d middle end' b else Some d)
         }))"

partial_function (option) stable_blocks ::
  "('d, 'm) sort_ops_scheme \<Rightarrow> 'd \<Rightarrow> int \<Rightarrow> int \<Rightarrow> int \<Rightarrow> int \<Rightarrow> ('d \<times> int) option" where
  "stable_blocks data d n blockSize a b =
     (if b \<le> n then do { d \<leftarrow> insertionSort data d a b; stable_blocks data d n blockSize b (b + blockSize) }
      else Some (d, a))"

partial_function (option) stable_pass ::
  "('d, 'm) sort_ops_scheme \<Rightarrow> 'd \<Rightarrow> int \<Rightarrow> int \<Rightarrow> int \<Rightarrow> int \<Rightarrow> ('d \<times> int) option" where
  "stable_pass data d n blockSize a b =
     (if b \<le> n then
        do { d \<leftarrow> symMerge data d a (a + blockSize) b; stable_pass data d n blockSize b (b + 2 * blockSize) }
      else Some (d, a))"

partial_function (option) stable_merge ::
  "('d, 'm) sort_ops_scheme \<Rightarrow> 'd \<Rightarrow> int \<Rightarrow> int \<Rightarrow> 'd option" where
  "stable_merge data d n blockSize =
     (if blockSize < n then
        do {
          (d, a) \<leftarrow> stable_pass data d n blockSize 0 (2 * blockSize);
          let m = a + blockSize;
          d \<leftarrow> (if m < n then symMerge data d a m n else Some d);
          stable_merge data d n (blockSize * 2)
        }
      else Some d)"

definition stable :: "('d, 'm) sort_ops_scheme \<Rightarrow> 'd \<Rightarrow> int \<Rightarrow> 'd option" where
  "stable data d n =
     do {
       let blockSize = 20;
       (d, a) \<leftarrow> stable_blocks data d n blockSize 0 blockSize;
       d \<leftarrow> insertionSort data d a n;
       stable_merge data d n blockSize
     }"

definition Stable :: "('d, 'm) sort_ops_scheme \<Rightarrow> 'd \<Rightarrow> 'd option" where
  "Stable data d = stable data d (Len data d)"

declare swapRange_loop.simps [code] rotate_loop.simps [code] symMerge_up.simps [code]
  symMerge_down.simps [code] symMerge.simps [code] stable_blocks.simps [code]
  stable_pass.simps [code] stable_merge.simps [code]

text \<open>
  \<^verbatim>\<open>sort/slice.go\<close>: the less function of the caller reads the current contents of the slice at two
  indices; the swapper exchanges two of its elements. The \<open>_func\<close> variants it calls are generated from
  the definitions above with lessSwap in place of Interface.
\<close>

definition lessSwap :: "('a list \<Rightarrow> int \<Rightarrow> int \<Rightarrow> bool option) \<Rightarrow> 'a list sort_ops" where
  "lessSwap less_fn = \<lparr> Len = (\<lambda>x. int (length x)), Less = less_fn, Swap = slice_Swap \<rparr>"

definition Slice :: "'a list \<Rightarrow> ('a list \<Rightarrow> int \<Rightarrow> int \<Rightarrow> bool option) \<Rightarrow> 'a list option" where
  "Slice x less_fn = (let n = int (length x) in quickSort (lessSwap less_fn) x 0 n (maxDepth n))"

definition SliceStable :: "'a list \<Rightarrow> ('a list \<Rightarrow> int \<Rightarrow> int \<Rightarrow> bool option) \<Rightarrow> 'a list option" where
  "SliceStable x less_fn = stable (lessSwap less_fn) x (int (length x))"

definition SliceIsSorted :: "'a list \<Rightarrow> ('a list \<Rightarrow> int \<Rightarrow> int \<Rightarrow> bool option) \<Rightarrow> bool option" where
  "SliceIsSorted x less_fn = IsSorted_loop (lessSwap less_fn) x (int (length x) - 1)"

text \<open>A less function that compares the elements at its two indices with an order.\<close>

definition less_at :: "('a \<Rightarrow> 'a \<Rightarrow> bool) \<Rightarrow> 'a list \<Rightarrow> int \<Rightarrow> int \<Rightarrow> bool option" where
  "less_at lt x i j = do { v \<leftarrow> idx x i; w \<leftarrow> idx x j; Some (lt v w) }"

lemma lessSwap_interface:
  "strict_weak_order lt \<Longrightarrow> sort_interface lt (lessSwap (less_at lt)) (\<lambda>x. x)"
  by (simp add: sort_interface_def sort_interface_axioms_def lessSwap_def less_at_def slice_Swap_law)

context sort_interface
begin

subsection \<open>Rotation\<close>

lemma swapRange_loop_ok:
  assumes "0 \<le> i" "i \<le> n" "0 \<le> a" "a + n \<le> b" "b + n \<le> int (length (elems d))"
  shows "\<exists>d'. swapRange_loop data d a b n i = Some d' \<and> length (elems d') = length (elems d)
    \<and> (\<forall>k. 0 \<le> k \<and> k < int (length (elems d)) \<longrightarrow> elems d' ! nat k =
         (if a + i \<le> k \<and> k < a + n then elems d ! nat (k + (b - a))
          else if b + i \<le> k \<and> k < b + n then elems d ! nat (k - (b - a)) else elems d ! nat k))"
  using assms
proof (induction "nat (n - i)" arbitrary: i d rule: less_induct)
  case less
  show ?case
  proof (cases "i < n")
    case False
    then show ?thesis by (auto simp: swapRange_loop.simps [of _ d])
  next
    case True
    obtain d1 where d1: "Swap data d (a + i) (b + i) = Some d1" "length (elems d1) = length (elems d)"
        "\<And>k. 0 \<le> k \<Longrightarrow> k < int (length (elems d)) \<Longrightarrow> elems d1 ! nat k =
          (if k = a + i then elems d ! nat (b + i) else if k = b + i then elems d ! nat (a + i) else elems d ! nat k)"
      using Swap_range [of 0 "int (length (elems d))" d "a + i" "b + i"] True less.prems by auto
    obtain d2 where d2: "swapRange_loop data d1 a b n (i + 1) = Some d2" "length (elems d2) = length (elems d1)"
        "\<And>k. 0 \<le> k \<Longrightarrow> k < int (length (elems d1)) \<Longrightarrow> elems d2 ! nat k =
         (if a + (i + 1) \<le> k \<and> k < a + n then elems d1 ! nat (k + (b - a))
          else if b + (i + 1) \<le> k \<and> k < b + n then elems d1 ! nat (k - (b - a)) else elems d1 ! nat k)"
      using less.hyps [of "i + 1" d1] True less.prems d1(2) by auto
    have "elems d2 ! nat k =
         (if a + i \<le> k \<and> k < a + n then elems d ! nat (k + (b - a))
          else if b + i \<le> k \<and> k < b + n then elems d ! nat (k - (b - a)) else elems d ! nat k)"
      if k: "0 \<le> k" "k < int (length (elems d))" for k
    proof -
      consider "k = a + i" | "k = b + i" | "a + i < k" "k < a + n" | "b + i < k" "k < b + n"
        | "k < a + i" | "a + n \<le> k" "k < b + i" | "b + n \<le> k" by linarith
      then show ?thesis
        using k less.prems True d1(2) by cases (simp_all add: d2(3) d1(3) add.commute)
    qed
    then show ?thesis using True d1(1,2) d2(1,2) by (auto simp: swapRange_loop.simps [of _ d])
  qed
qed

lemma swapRange_ok:
  assumes "0 \<le> n" "0 \<le> a" "a + n \<le> b" "b + n \<le> int (length (elems d))"
  shows "\<exists>d'. swapRange data d a b n = Some d' \<and> length (elems d') = length (elems d)
    \<and> (\<forall>k. 0 \<le> k \<and> k < int (length (elems d)) \<longrightarrow> elems d' ! nat k =
         (if a \<le> k \<and> k < a + n then elems d ! nat (k + (b - a))
          else if b \<le> k \<and> k < b + n then elems d ! nat (k - (b - a)) else elems d ! nat k))"
  using swapRange_loop_ok [of 0 n a b d, unfolded add_0_right] assms unfolding swapRange_def by blast

lemma rotate_loop_ok:
  assumes "0 < i" "0 < j" "0 \<le> m - i" "m + j \<le> int (length (elems d))"
  shows "\<exists>d'. rotate_loop data d m i j = Some d' \<and> length (elems d') = length (elems d)
    \<and> (\<forall>k. 0 \<le> k \<and> k < int (length (elems d)) \<longrightarrow> elems d' ! nat k =
         (if m - i \<le> k \<and> k < m - i + j then elems d ! nat (k + i)
          else if m - i + j \<le> k \<and> k < m + j then elems d ! nat (k - j) else elems d ! nat k))"
  using assms
proof (induction "nat (i + j)" arbitrary: i j d rule: less_induct)
  case less
  consider "i = j" | "i > j" | "i < j" by linarith
  then show ?case
  proof cases
    case 1
    then show ?thesis
      using swapRange_ok [of i "m - i" m d] less.prems by (auto simp: rotate_loop.simps [of _ d])
  next
    case 2
    obtain d1 where d1: "swapRange data d (m - i) m j = Some d1" "length (elems d1) = length (elems d)"
        "\<And>k. 0 \<le> k \<Longrightarrow> k < int (length (elems d)) \<Longrightarrow> elems d1 ! nat k =
         (if m - i \<le> k \<and> k < m - i + j then elems d ! nat (k + i)
          else if m \<le> k \<and> k < m + j then elems d ! nat (k - i) else elems d ! nat k)"
      using swapRange_ok [of j "m - i" m d] 2 less.prems by auto
    obtain d2 where d2: "rotate_loop data d1 m (i - j) j = Some d2" "length (elems d2) = length (elems d1)"
        "\<And>k. 0 \<le> k \<Longrightarrow> k < int (length (elems d1)) \<Longrightarrow> elems d2 ! nat k =
         (if m - (i - j) \<le> k \<and> k < m - (i - j) + j then elems d1 ! nat (k + (i - j))
          else if m - (i - j) + j \<le> k \<and> k < m + j then elems d1 ! nat (k - j) else elems d1 ! nat k)"
      using less.hyps [of "i - j" j d1] 2 less.prems d1(2) by auto
    have "elems d2 ! nat k =
         (if m - i \<le> k \<and> k < m - i + j then elems d ! nat (k + i)
          else if m - i + j \<le> k \<and> k < m + j then elems d ! nat (k - j) else elems d ! nat k)"
      if k: "0 \<le> k" "k < int (length (elems d))" for k
    proof -
      consider "k < m - i" | "m - i \<le> k" "k < m - i + j" | "m - i + j \<le> k" "k < m - i + 2 * j" "k < m"
        | "m - i + j \<le> k" "k < m - i + 2 * j" "m \<le> k" | "m - i + 2 * j \<le> k" "k < m + j" | "m + j \<le> k"
        by linarith
      then show ?thesis
        using k less.prems 2 d1(2) by cases (simp_all add: d2(3) d1(3))
    qed
    then show ?thesis using 2 d1(1,2) d2(1,2) by (auto simp: rotate_loop.simps [of _ d])
  next
    case 3
    obtain d1 where d1: "swapRange data d (m - i) (m + j - i) i = Some d1" "length (elems d1) = length (elems d)"
        "\<And>k. 0 \<le> k \<Longrightarrow> k < int (length (elems d)) \<Longrightarrow> elems d1 ! nat k =
         (if m - i \<le> k \<and> k < m then elems d ! nat (k + j)
          else if m + j - i \<le> k \<and> k < m + j then elems d ! nat (k - j) else elems d ! nat k)"
      using swapRange_ok [of i "m - i" "m + j - i" d] 3 less.prems by auto
    obtain d2 where d2: "rotate_loop data d1 m i (j - i) = Some d2" "length (elems d2) = length (elems d1)"
        "\<And>k. 0 \<le> k \<Longrightarrow> k < int (length (elems d1)) \<Longrightarrow> elems d2 ! nat k =
         (if m - i \<le> k \<and> k < m - i + (j - i) then elems d1 ! nat (k + i)
          else if m - i + (j - i) \<le> k \<and> k < m + (j - i) then elems d1 ! nat (k - (j - i)) else elems d1 ! nat k)"
      using less.hyps [of i "j - i" d1] 3 less.prems d1(2) by auto
    have "elems d2 ! nat k =
         (if m - i \<le> k \<and> k < m - i + j then elems d ! nat (k + i)
          else if m - i + j \<le> k \<and> k < m + j then elems d ! nat (k - j) else elems d ! nat k)"
      if k: "0 \<le> k" "k < int (length (elems d))" for k
    proof -
      consider "k < m - i" | "m - i \<le> k" "k < m - i + (j - i)" "k < m" | "m - i \<le> k" "k < m - i + (j - i)" "m \<le> k"
        | "m - i + (j - i) \<le> k" "k < m - i + j" | "m - i + j \<le> k" "k < m + j" | "m + j \<le> k"
        by linarith
      then show ?thesis
        using k less.prems 3 d1(2) by cases (simp_all add: d2(3) d1(3))
    qed
    then show ?thesis using 3 d1(1,2) d2(1,2) by (auto simp: rotate_loop.simps [of _ d])
  qed
qed

text \<open>As a statement about lists: the two neighbouring blocks change places.\<close>

lemma rotate_list:
  assumes "0 \<le> a" "a < m" "m < b" "b \<le> int (length (elems d))"
  defines "xs \<equiv> elems d"
  defines "us \<equiv> take (nat (m - a)) (drop (nat a) xs)" and "vs \<equiv> take (nat (b - m)) (drop (nat m) xs)"
  shows "\<exists>d'. sort_rotate data d a m b = Some d'
    \<and> xs = take (nat a) xs @ us @ vs @ drop (nat b) xs
    \<and> elems d' = take (nat a) xs @ vs @ us @ drop (nat b) xs"
proof -
  obtain d' where d': "rotate_loop data d m (m - a) (b - m) = Some d'" "length (elems d') = length xs"
      "\<And>k. 0 \<le> k \<Longrightarrow> k < int (length xs) \<Longrightarrow> elems d' ! nat k =
         (if a \<le> k \<and> k < a + (b - m) then xs ! nat (k + (m - a))
          else if a + (b - m) \<le> k \<and> k < b then xs ! nat (k - (b - m)) else xs ! nat k)"
    using rotate_loop_ok [of "m - a" "b - m" m d] assms(1-4) by (auto simp: xs_def)
  define A M B where "A = nat a" and "M = nat m" and "B = nat b"
  have r: "A < M" "M < B" "B \<le> length xs" and conv: "a = int A" "m = int M" "b = int B"
    using assms(1-4) by (auto simp: A_def M_def B_def xs_def)
  have us: "us = take (M - A) (drop A xs)" and vs: "vs = take (B - M) (drop M xs)"
    using assms(1-4) by (simp_all add: us_def vs_def A_def M_def B_def nat_diff_distrib)
  have len: "length us = M - A" "length vs = B - M" using r by (simp_all add: us vs)
  have "xs = take A xs @ us @ vs @ drop B xs"
    using r by (intro nth_equalityI) (auto simp: us vs nth_append)
  moreover have "elems d' = take A xs @ vs @ us @ drop B xs"
  proof (intro nth_equalityI)
    show "length (elems d') = length (take A xs @ vs @ us @ drop B xs)" using d'(2) r by (simp add: us vs)
    fix k assume "k < length (elems d')"
    then have k: "k < length xs" using d'(2) by simp
    have e: "elems d' ! k =
         (if A \<le> k \<and> k < A + (B - M) then xs ! (k + (M - A))
          else if A + (B - M) \<le> k \<and> k < B then xs ! (k - (B - M)) else xs ! k)"
      using d'(3) [of "int k"] k r unfolding conv by (auto simp: nat_diff_distrib nat_add_distrib of_nat_diff split: if_splits)
    show "elems d' ! k = (take A xs @ vs @ us @ drop B xs) ! k"
      unfolding e using k r by (auto simp: us vs nth_append intro!: arg_cong [where f = "(!) xs"])
  qed
  ultimately show ?thesis using d'(1) by (auto simp: sort_rotate_def Let_def A_def B_def)
qed

lemma stable_perm_blocks:
  assumes "\<And>u v. u \<in> set us \<Longrightarrow> v \<in> set vs \<Longrightarrow> lt v u"
  shows "stable_perm lt (ps @ us @ vs @ ss) (ps @ vs @ us @ ss)"
proof -
  have "filter P us = [] \<or> filter P vs = []"
    if P: "P = (\<lambda>y. \<not> lt x y \<and> \<not> lt y x)" for P x
  proof (rule ccontr)
    assume "\<not> ?thesis"
    then obtain u v where "u \<in> set us" "v \<in> set vs" "\<not> lt x u" "\<not> lt v x"
      unfolding P by (auto simp: filter_empty_conv)
    then show False using assms lt_cotrans by blast
  qed
  then have e: "filter (\<lambda>y. \<not> lt x y \<and> \<not> lt y x) us = [] \<or> filter (\<lambda>y. \<not> lt x y \<and> \<not> lt y x) vs = []" for x
    by blast
  show ?thesis
    unfolding stable_perm_def
  proof
    fix x
    show "filter (\<lambda>y. \<not> lt x y \<and> \<not> lt y x) (ps @ vs @ us @ ss)
        = filter (\<lambda>y. \<not> lt x y \<and> \<not> lt y x) (ps @ us @ vs @ ss)"
      using e [of x] by (elim disjE) (simp_all only: filter_append append_Nil append_Nil2)
  qed
qed

subsection \<open>The merges with a single element\<close>

lemma symMerge_up_ok:
  assumes "0 \<le> k" "k \<le> to" "to < int (length (elems d))"
    and "\<And>q. k < q \<Longrightarrow> q \<le> to \<Longrightarrow> lt (elems d ! nat q) (elems d ! nat k)"
  shows "\<exists>d'. symMerge_up data d k to = Some d' \<and> permutes_range k (to + 1) (elems d) (elems d')
    \<and> stable_perm lt (elems d) (elems d')
    \<and> (\<forall>q. k \<le> q \<and> q < to \<longrightarrow> elems d' ! nat q = elems d ! nat (q + 1))
    \<and> elems d' ! nat to = elems d ! nat k"
  using assms
proof (induction "nat (to - k)" arbitrary: k d rule: less_induct)
  case less
  show ?case
  proof (cases "k < to")
    case False
    then show ?thesis using less.prems(2) by (auto simp: symMerge_up.simps [of _ d])
  next
    case True
    obtain d1 where d1: "Swap data d k (k + 1) = Some d1"
        "elems d1 = swap_at (elems d) (nat k) (nat (k + 1))"
      using Swap_law [of k d "k + 1"] True less.prems by auto
    have nk: "nat (k + 1) = Suc (nat k)" "Suc (nat k) < length (elems d)" using True less.prems by auto
    have nth: "elems d1 ! nat q = (if q = k then elems d ! nat (k + 1) else if q = k + 1 then elems d ! nat k else elems d ! nat q)"
      if "0 \<le> q" "q < int (length (elems d))" for q
      using that True less.prems unfolding d1(2) by (subst nth_swap_at) (auto simp: nat_eq_iff2)
    have len1: "length (elems d1) = length (elems d)" by (simp add: d1(2))
    have st: "stable_perm lt (elems d) (elems d1)"
      using stable_swap_adjacent [OF nk(2)] less.prems(4) [of "k + 1"] True
      unfolding d1(2) by (simp add: nk(1) swap_at_commute [of _ "nat k"])
    have pr: "permutes_range k (to + 1) (elems d) (elems d1)"
      unfolding d1(2) using True less.prems by (intro permutes_range_swap) auto
    have lt1: "lt (elems d1 ! nat q) (elems d1 ! nat (k + 1))" if "k + 1 < q" "q \<le> to" for q
      using that less.prems(1,3) less.prems(4) [of q] True by (simp add: nth)
    obtain d2 where d2: "symMerge_up data d1 (k + 1) to = Some d2"
        "permutes_range (k + 1) (to + 1) (elems d1) (elems d2)" "stable_perm lt (elems d1) (elems d2)"
        "\<And>q. k + 1 \<le> q \<Longrightarrow> q < to \<Longrightarrow> elems d2 ! nat q = elems d1 ! nat (q + 1)"
        "elems d2 ! nat to = elems d1 ! nat (k + 1)"
      using less.hyps [of "k + 1" d1] lt1 True less.prems(1,3) len1 by auto
    have "elems d2 ! nat q = elems d ! nat (q + 1)" if "k \<le> q" "q < to" for q
    proof (cases "q = k")
      case True
      then show ?thesis
        using permutes_range_out [OF d2(2), of k] nth [of k] less.prems(1,3) that len1 by simp
    next
      case False
      then show ?thesis using that less.prems(1,3) d2(4) [of q] by (simp add: nth)
    qed
    moreover have "elems d2 ! nat to = elems d ! nat k"
      using d2(5) nth [of "k + 1"] True less.prems(1,3) by simp
    moreover have "permutes_range k (to + 1) (elems d1) (elems d2)"
      using d2(2) by (rule permutes_range_mono) auto
    ultimately show ?thesis
      using True d1(1) d2(1,3) st pr
      by (auto simp: symMerge_up.simps [of _ d] intro: permutes_range_trans stable_perm_trans)
  qed
qed

lemma symMerge_down_ok:
  assumes "0 \<le> to" "to \<le> k" "k < int (length (elems d))"
    and "\<And>q. to \<le> q \<Longrightarrow> q < k \<Longrightarrow> lt (elems d ! nat k) (elems d ! nat q)"
  shows "\<exists>d'. symMerge_down data d k to = Some d' \<and> permutes_range to (k + 1) (elems d) (elems d')
    \<and> stable_perm lt (elems d) (elems d')
    \<and> (\<forall>q. to < q \<and> q \<le> k \<longrightarrow> elems d' ! nat q = elems d ! nat (q - 1))
    \<and> elems d' ! nat to = elems d ! nat k"
  using assms
proof (induction "nat (k - to)" arbitrary: k d rule: less_induct)
  case less
  show ?case
  proof (cases "k > to")
    case False
    then show ?thesis using less.prems(2) by (auto simp: symMerge_down.simps [of _ d])
  next
    case True
    obtain d1 where d1: "Swap data d k (k - 1) = Some d1"
        "elems d1 = swap_at (elems d) (nat k) (nat (k - 1))"
      using Swap_law [of k d "k - 1"] True less.prems by auto
    have nk: "nat k = Suc (nat (k - 1))" "Suc (nat (k - 1)) < length (elems d)" using True less.prems by auto
    have nth: "elems d1 ! nat q = (if q = k then elems d ! nat (k - 1) else if q = k - 1 then elems d ! nat k else elems d ! nat q)"
      if "0 \<le> q" "q < int (length (elems d))" for q
      using that True less.prems unfolding d1(2) by (subst nth_swap_at) (auto simp: nat_eq_iff2)
    have len1: "length (elems d1) = length (elems d)" by (simp add: d1(2))
    have st: "stable_perm lt (elems d) (elems d1)"
      using stable_swap_adjacent [OF nk(2)] less.prems(4) [of "k - 1"] True unfolding d1(2) nk(1) by simp
    have pr: "permutes_range to (k + 1) (elems d) (elems d1)"
      unfolding d1(2) using True less.prems by (intro permutes_range_swap) auto
    have lt1: "lt (elems d1 ! nat (k - 1)) (elems d1 ! nat q)" if "to \<le> q" "q < k - 1" for q
      using that less.prems(1,3) less.prems(4) [of q] True by (simp add: nth)
    obtain d2 where d2: "symMerge_down data d1 (k - 1) to = Some d2"
        "permutes_range to k (elems d1) (elems d2)" "stable_perm lt (elems d1) (elems d2)"
        "\<And>q. to < q \<Longrightarrow> q \<le> k - 1 \<Longrightarrow> elems d2 ! nat q = elems d1 ! nat (q - 1)"
        "elems d2 ! nat to = elems d1 ! nat (k - 1)"
      using less.hyps [of "k - 1" d1] lt1 True less.prems(1,3) len1 by auto
    have "elems d2 ! nat q = elems d ! nat (q - 1)" if "to < q" "q \<le> k" for q
    proof (cases "q = k")
      case True
      then show ?thesis
        using permutes_range_out [OF d2(2), of k] nth [of k] less.prems(1,3) that len1 by simp
    next
      case False
      then show ?thesis using that less.prems(1,3) d2(4) [of q] by (simp add: nth)
    qed
    moreover have "elems d2 ! nat to = elems d ! nat k"
      using d2(5) nth [of "k - 1"] True less.prems(1,3) by simp
    moreover have "permutes_range to (k + 1) (elems d1) (elems d2)"
      using d2(2) by (rule permutes_range_mono) auto
    ultimately show ?thesis
      using True d1(1) d2(1,3) st pr
      by (auto simp: symMerge_down.simps [of _ d] intro: permutes_range_trans stable_perm_trans)
  qed
qed

text \<open>What symMerge promises; the three cases of its definition are proved separately.\<close>

definition merged :: "'d \<Rightarrow> int \<Rightarrow> int \<Rightarrow> 'd option \<Rightarrow> bool" where
  "merged d a b res \<longleftrightarrow> (\<exists>d'. res = Some d' \<and> sorted_range lt a b (elems d')
     \<and> permutes_range a b (elems d) (elems d') \<and> stable_perm lt (elems d) (elems d'))"

lemma symMerge_left_single:
  assumes "0 \<le> a" "m = a + 1" "m < b" "b \<le> int (length (elems d))" "length (elems d) \<le> 2 ^ 62"
    and s: "sorted_range lt m b (elems d)"
  shows "merged d a b (symMerge data d a m b)"
proof -
  let ?E = "\<lambda>k. elems d ! nat k"
  have L: "Less data d h a = Some (lt (?E h) (?E a))" if "m \<le> h" "h < b" for h
    using that assms(1-4) by (intro Less_law) auto
  obtain i where i: "Search_loop (\<lambda>h. map_option Not (Less data d h a)) m b = Some i" "m \<le> i" "i \<le> b"
      "i = m \<or> lt (?E (i - 1)) (?E a)" "i = b \<or> \<not> lt (?E i) (?E a)"
    using Search_loop_boundary [of m b "\<lambda>h. map_option Not (Less data d h a)" "\<lambda>h. \<not> lt (?E h) (?E a)"] L assms
    by auto
  have low: "lt (?E q) (?E a)" if "m \<le> q" "q < i" for q
  proof (cases "q = i - 1")
    case True
    then show ?thesis using i that by auto
  next
    case False
    then have "\<not> lt (?E (i - 1)) (?E q)" using sorted_rangeD [OF s, of q "i - 1"] that i by auto
    moreover have "lt (?E (i - 1)) (?E a)" using i that by auto
    ultimately show ?thesis by (rule le_lt_trans)
  qed
  have high: "\<not> lt (?E q) (?E a)" if "i \<le> q" "q < b" for q
  proof (cases "q = i")
    case True
    then show ?thesis using i that by auto
  next
    case False
    then have "\<not> lt (?E q) (?E i)" using sorted_rangeD [OF s, of i q] that i by auto
    moreover have "\<not> lt (?E i) (?E a)" using i that by auto
    ultimately show ?thesis by (rule lt_cotrans)
  qed
  obtain d' where d': "symMerge_up data d a (i - 1) = Some d'" "permutes_range a i (elems d) (elems d')"
      "stable_perm lt (elems d) (elems d')"
      "\<And>q. a \<le> q \<Longrightarrow> q < i - 1 \<Longrightarrow> elems d' ! nat q = ?E (q + 1)" "elems d' ! nat (i - 1) = ?E a"
    using symMerge_up_ok [of a "i - 1" d] low i(2,3) assms(1-4) by auto
  have out: "elems d' ! nat q = ?E q" if "i \<le> q" "q < b" for q
    using permutes_range_out [OF d'(2), of q] that assms(1-4) i by auto
  have "sorted_range lt a b (elems d')"
    unfolding sorted_range_def
  proof (intro allI impI, elim conjE)
    fix p q assume pq: "a \<le> p" "p < q" "q < b"
    consider "q < i - 1" | "q = i - 1" | "i \<le> q" "p < i - 1" | "i \<le> q" "p = i - 1" | "i \<le> p" using pq by linarith
    then show "\<not> lt (elems d' ! nat q) (elems d' ! nat p)"
    proof cases
      case 1
      then show ?thesis using pq d'(4) [of p] d'(4) [of q] sorted_rangeD [OF s, of "p + 1" "q + 1"] i assms(2) by auto
    next
      case 2
      then show ?thesis using pq d'(4) [of p] d'(5) lt_asym [OF low [of "p + 1"]] assms(2) by auto
    next
      case 3
      then show ?thesis using pq out [of q] d'(4) [of p] sorted_rangeD [OF s, of "p + 1" q] assms(2) by auto
    next
      case 4
      then show ?thesis using pq out [of q] d'(5) high [of q] by auto
    next
      case 5
      then show ?thesis using pq out [of q] out [of p] sorted_rangeD [OF s, of p q] i by auto
    qed
  qed
  moreover have "permutes_range a b (elems d) (elems d')" using d'(2) by (rule permutes_range_mono) (use i in auto)
  moreover have "symMerge data d a m b = Some d'"
    using i(1) d'(1) assms(2) by (simp add: symMerge.simps [of _ d])
  ultimately show ?thesis using d'(3) by (auto simp: merged_def)
qed

lemma symMerge_right_single:
  assumes "0 \<le> a" "a < m" "m \<noteq> a + 1" "b = m + 1" "b \<le> int (length (elems d))" "length (elems d) \<le> 2 ^ 62"
    and s: "sorted_range lt a m (elems d)"
  shows "merged d a b (symMerge data d a m b)"
proof -
  let ?E = "\<lambda>k. elems d ! nat k"
  have L: "Less data d m h = Some (lt (?E m) (?E h))" if "a \<le> h" "h < m" for h
    using that assms(1-5) by (intro Less_law) auto
  obtain i where i: "Search_loop (\<lambda>h. Less data d m h) a m = Some i" "a \<le> i" "i \<le> m"
      "i = a \<or> \<not> lt (?E m) (?E (i - 1))" "i = m \<or> lt (?E m) (?E i)"
    using Search_loop_boundary [of a m "\<lambda>h. Less data d m h" "\<lambda>h. lt (?E m) (?E h)"] L assms
    by auto
  have low: "\<not> lt (?E m) (?E q)" if "a \<le> q" "q < i" for q
  proof (cases "q = i - 1")
    case True
    then show ?thesis using i that by auto
  next
    case False
    then have "\<not> lt (?E (i - 1)) (?E q)" using sorted_rangeD [OF s, of q "i - 1"] that i by auto
    moreover have "\<not> lt (?E m) (?E (i - 1))" using i that by auto
    ultimately show ?thesis by (rule lt_cotrans [rotated])
  qed
  have high: "lt (?E m) (?E q)" if "i \<le> q" "q < m" for q
  proof (cases "q = i")
    case True
    then show ?thesis using i that by auto
  next
    case False
    then have "\<not> lt (?E q) (?E i)" using sorted_rangeD [OF s, of i q] that i by auto
    moreover have "lt (?E m) (?E i)" using i that by auto
    ultimately show ?thesis by (rule lt_le_trans [rotated])
  qed
  obtain d' where d': "symMerge_down data d m i = Some d'" "permutes_range i b (elems d) (elems d')"
      "stable_perm lt (elems d) (elems d')"
      "\<And>q. i < q \<Longrightarrow> q \<le> m \<Longrightarrow> elems d' ! nat q = ?E (q - 1)" "elems d' ! nat i = ?E m"
    using symMerge_down_ok [of i m d] high i(2,3) assms(1-5) by auto
  have out: "elems d' ! nat q = ?E q" if "a \<le> q" "q < i" for q
    using permutes_range_out [OF d'(2), of q] that assms(1-5) i by auto
  have "sorted_range lt a b (elems d')"
    unfolding sorted_range_def
  proof (intro allI impI, elim conjE)
    fix p q assume pq: "a \<le> p" "p < q" "q < b"
    consider "q < i" | "q = i" | "i < q" "p < i" | "i < q" "p = i" | "i < p" using pq by linarith
    then show "\<not> lt (elems d' ! nat q) (elems d' ! nat p)"
    proof cases
      case 1
      then show ?thesis using pq out [of p] out [of q] sorted_rangeD [OF s, of p q] i by auto
    next
      case 2
      then show ?thesis using pq d'(5) out [of p] low [of p] by auto
    next
      case 3
      then show ?thesis
        using pq out [of p] d'(4) [of q] sorted_rangeD [OF s, of p "q - 1"] assms(4) by auto
    next
      case 4
      then show ?thesis using pq d'(4) [of q] d'(5) lt_asym [OF high [of "q - 1"]] assms(4) by auto
    next
      case 5
      then show ?thesis
        using pq d'(4) [of p] d'(4) [of q] sorted_rangeD [OF s, of "p - 1" "q - 1"] i assms(4) by auto
    qed
  qed
  moreover have "permutes_range a b (elems d) (elems d')" using d'(2) by (rule permutes_range_mono) (use i in auto)
  moreover have "symMerge data d a m b = Some d'"
    using i(1) d'(1) assms(3,4) by (simp add: symMerge.simps [of _ d])
  ultimately show ?thesis using d'(3) by (auto simp: merged_def)
qed

subsection \<open>The symmetric merge\<close>

lemma sort_rotate_ok:
  assumes r: "0 \<le> a" "a < m" "m < b" "b \<le> int (length (elems d))"
    and cross: "\<And>i j. a \<le> i \<Longrightarrow> i < m \<Longrightarrow> m \<le> j \<Longrightarrow> j < b \<Longrightarrow> lt (elems d ! nat j) (elems d ! nat i)"
  shows "\<exists>d'. sort_rotate data d a m b = Some d' \<and> permutes_range a b (elems d) (elems d')
    \<and> stable_perm lt (elems d) (elems d')
    \<and> (\<forall>k. 0 \<le> k \<and> k < int (length (elems d)) \<longrightarrow> elems d' ! nat k =
         (if a \<le> k \<and> k < a + b - m then elems d ! nat (k + (m - a))
          else if a + b - m \<le> k \<and> k < b then elems d ! nat (k - (b - m)) else elems d ! nat k))"
proof -
  let ?us = "take (nat (m - a)) (drop (nat a) (elems d))" and ?vs = "take (nat (b - m)) (drop (nat m) (elems d))"
  obtain d' where d': "sort_rotate data d a m b = Some d'"
      "elems d = take (nat a) (elems d) @ ?us @ ?vs @ drop (nat b) (elems d)"
      "elems d' = take (nat a) (elems d) @ ?vs @ ?us @ drop (nat b) (elems d)"
    using rotate_list [OF r] by auto
  have nth: "elems d' ! nat k =
         (if a \<le> k \<and> k < a + b - m then elems d ! nat (k + (m - a))
          else if a + b - m \<le> k \<and> k < b then elems d ! nat (k - (b - m)) else elems d ! nat k)"
    if "0 \<le> k" "k < int (length (elems d))" for k
    using rotate_loop_ok [of "m - a" "b - m" m d] that r d'(1)
    by (simp add: sort_rotate_def Let_def add_diff_eq)
  have "lt v u" if uv: "u \<in> set ?us" "v \<in> set ?vs" for u v
  proof -
    obtain i j where i: "i < nat (m - a)" "u = elems d ! (nat a + i)" and j: "j < nat (b - m)" "v = elems d ! (nat m + j)"
      using uv r by (auto simp: in_set_conv_nth)
    have "nat (a + int i) = nat a + i" "nat (m + int j) = nat m + j" using r by auto
    then show ?thesis using cross [of "a + int i" "m + int j"] i j r by auto
  qed
  then have "stable_perm lt (elems d) (elems d')"
    unfolding d'(3) by (subst d'(2)) (rule stable_perm_blocks)
  moreover have "mset (elems d') = mset (elems d)"
    unfolding d'(3) by (subst (3) d'(2)) (simp only: mset_append ac_simps)
  then have "permutes_range a b (elems d) (elems d')"
    using nth [of "int k" for k] r by (auto simp: permutes_range_def)
  ultimately show ?thesis using d'(1) nth by blast
qed

text \<open>
  The search and the rotation of symMerge split the merge of \<open>[a, m)\<close> and \<open>[m, b)\<close> into two merges
  around \<open>middle\<close>, every element of the first not greater than any of the second.
\<close>

definition symMerge_split :: "'d \<Rightarrow> 'd \<Rightarrow> int \<Rightarrow> int \<Rightarrow> int \<Rightarrow> int \<Rightarrow> int \<Rightarrow> bool" where
  "symMerge_split d d' a start middle end' b \<longleftrightarrow>
     permutes_range a b (elems d) (elems d') \<and> stable_perm lt (elems d) (elems d') \<and>
     a \<le> start \<and> start \<le> middle \<and> middle \<le> end' \<and> end' \<le> b \<and>
     sorted_range lt a start (elems d') \<and> sorted_range lt start middle (elems d') \<and>
     sorted_range lt middle end' (elems d') \<and> sorted_range lt end' b (elems d') \<and>
     (\<forall>i j. a \<le> i \<and> i < middle \<and> middle \<le> j \<and> j < b \<longrightarrow> \<not> lt (elems d' ! nat j) (elems d' ! nat i))"

lemma symMerge_splitting:
  assumes r: "0 \<le> a" "a + 2 \<le> m" "m + 2 \<le> b" "b \<le> int (length (elems d))" "length (elems d) \<le> 2 ^ 62"
    and s: "sorted_range lt a m (elems d)" "sorted_range lt m b (elems d)"
  defines "middle \<equiv> mid a b"
  defines "n \<equiv> middle + m"
  shows "\<exists>st d1. Search_loop (\<lambda>c. Less data d (n - 1 - c) c)
           (if m > middle then n - b else a) (if m > middle then middle else m) = Some st
    \<and> (if st < m \<and> m < n - st then sort_rotate data d st m (n - st) else Some d) = Some d1
    \<and> symMerge_split d d1 a st middle (n - st) b"
proof -
  let ?E = "\<lambda>k. elems d ! nat k" and ?N = "int (length (elems d))"
  define s0 r0 where "s0 = (if m > middle then n - b else a)" and "r0 = (if m > middle then middle else m)"
  have "middle = (a + b) div 2" using r by (simp add: middle_def mid_eq)
  then have m2: "2 * middle \<le> a + b" "a + b \<le> 2 * middle + 1" by linarith+
  have b0: "a \<le> s0" "s0 \<le> r0" "r0 \<le> m" "r0 \<le> middle" "n - s0 \<le> b" "m \<le> n - r0" "a < middle" "middle < b"
    and ends: "s0 = a \<or> n - s0 = b" "r0 = m \<or> n - r0 = m"
    using r m2 by (auto simp: s0_def r0_def n_def)
  have L: "Less data d (n - 1 - c) c = Some (lt (?E (n - 1 - c)) (?E c))" if "s0 \<le> c" "c < r0" for c
    using that b0 r by (intro Less_law) auto
  obtain st where st: "Search_loop (\<lambda>c. Less data d (n - 1 - c) c) s0 r0 = Some st" "s0 \<le> st" "st \<le> r0"
      "st = s0 \<or> \<not> lt (?E (n - 1 - (st - 1))) (?E (st - 1))" "st = r0 \<or> lt (?E (n - 1 - st)) (?E st)"
    using Search_loop_boundary [of s0 r0 "\<lambda>c. Less data d (n - 1 - c) c" "\<lambda>c. lt (?E (n - 1 - c)) (?E c)"] L b0 r
    by auto
  define en where "en = n - st"
  have idx: "n - 1 - (st - 1) = en" "n - 1 - st = en - 1" by (simp_all add: en_def)
  have b1: "a \<le> st" "st \<le> m" "st \<le> middle" "m \<le> en" "en \<le> b" "middle \<le> en" "st + (en - m) = middle"
    using b0 st(2,3) by (auto simp: en_def n_def)
  have cross1: "lt (?E j) (?E i)" if "st \<le> i" "i < m" "m \<le> j" "j < en" for i j
  proof -
    have "st \<noteq> r0" using that ends(2) b0 by (auto simp: en_def)
    then have key: "lt (?E (en - 1)) (?E st)" using st(5) by (simp add: idx)
    have "\<not> lt (?E (en - 1)) (?E j)"
      using that b1 sorted_rangeD [OF s(2), of j "en - 1"] by (cases "j = en - 1") (auto simp: lt_irrefl)
    moreover have "\<not> lt (?E i) (?E st)"
      using that b1 sorted_rangeD [OF s(1), of st i] by (cases "i = st") (auto simp: lt_irrefl)
    ultimately show ?thesis using lt_le_trans [OF key] le_lt_trans by blast
  qed
  have cross2: "\<not> lt (?E j) (?E i)" if "a \<le> i" "i < st" "en \<le> j" "j < b" for i j
  proof -
    have "st \<noteq> s0" using that ends(1) by (auto simp: en_def)
    then have key: "\<not> lt (?E en) (?E (st - 1))" using st(4) by (simp add: idx)
    have "\<not> lt (?E (st - 1)) (?E i)"
      using that b1 sorted_rangeD [OF s(1), of i "st - 1"] by (cases "i = st - 1") (auto simp: lt_irrefl)
    moreover have "\<not> lt (?E j) (?E en)"
      using that b1 sorted_rangeD [OF s(2), of en j] by (cases "j = en") (auto simp: lt_irrefl)
    ultimately show ?thesis using key lt_cotrans by blast
  qed
  obtain d1 where d1: "(if st < m \<and> m < en then sort_rotate data d st m en else Some d) = Some d1"
      "permutes_range a b (elems d) (elems d1)" "stable_perm lt (elems d) (elems d1)"
      "\<And>k. 0 \<le> k \<Longrightarrow> k < ?N \<Longrightarrow> elems d1 ! nat k =
         (if st \<le> k \<and> k < middle then ?E (k + (m - st))
          else if middle \<le> k \<and> k < en then ?E (k - (en - m)) else ?E k)"
  proof (cases "st < m \<and> m < en")
    case True
    have mm: "st + en - m = middle" using b1(7) by simp
    obtain d' where "sort_rotate data d st m en = Some d'" "permutes_range st en (elems d) (elems d')"
      "stable_perm lt (elems d) (elems d')"
      "\<forall>k. 0 \<le> k \<and> k < ?N \<longrightarrow> elems d' ! nat k =
         (if st \<le> k \<and> k < middle then ?E (k + (m - st))
          else if middle \<le> k \<and> k < en then ?E (k - (en - m)) else ?E k)"
      using sort_rotate_ok [of st m en d] cross1 True b1 r unfolding mm by auto
    then show ?thesis using that [of d'] True b1 permutes_range_mono [of st en _ _ a b] by auto
  next
    case False
    then have "st = m \<or> en = m" using b1 by auto
    then have "?E k = (if st \<le> k \<and> k < middle then ?E (k + (m - st))
          else if middle \<le> k \<and> k < en then ?E (k - (en - m)) else ?E k)" for k
      using b1 by auto
    then show ?thesis using that [of d] False by auto
  qed
  have E1: "a \<le> k \<Longrightarrow> k < st \<Longrightarrow> elems d1 ! nat k = ?E k"
    "st \<le> k \<Longrightarrow> k < middle \<Longrightarrow> elems d1 ! nat k = ?E (k + (m - st))"
    "middle \<le> k \<Longrightarrow> k < en \<Longrightarrow> elems d1 ! nat k = ?E (k - (en - m))"
    "en \<le> k \<Longrightarrow> k < b \<Longrightarrow> elems d1 ! nat k = ?E k" for k
    using d1(4) [of k] b1 b0 r by auto
  have shift: "st \<le> k \<Longrightarrow> k < middle \<Longrightarrow> m \<le> k + (m - st) \<and> k + (m - st) < en"
    "middle \<le> k \<Longrightarrow> k < en \<Longrightarrow> st \<le> k - (en - m) \<and> k - (en - m) < m" for k
    using b1 by auto
  have parts: "sorted_range lt a st (elems d1)" "sorted_range lt st middle (elems d1)"
    "sorted_range lt middle en (elems d1)" "sorted_range lt en b (elems d1)"
    unfolding sorted_range_def
    using E1 shift b1 sorted_rangeD [OF s(1)] sorted_rangeD [OF s(2)] by auto
  have "\<not> lt (elems d1 ! nat j) (elems d1 ! nat i)"
    if ij: "a \<le> i" "i < middle" "middle \<le> j" "j < b" for i j
  proof -
    consider "i < st" "j < en" | "i < st" "en \<le> j" | "st \<le> i" "j < en" | "st \<le> i" "en \<le> j" by linarith
    then show ?thesis
    proof cases
      case 1
      then show ?thesis
        using ij E1(1) [of i] E1(3) [of j] shift(2) [of j] sorted_rangeD [OF s(1), of i "j - (en - m)"] by auto
    next
      case 2
      then show ?thesis using ij E1(1) [of i] E1(4) [of j] cross2 [of i j] by auto
    next
      case 3
      then show ?thesis
        using ij E1(2) [of i] E1(3) [of j] shift(1) [of i] shift(2) [of j]
          lt_asym [OF cross1 [of "j - (en - m)" "i + (m - st)"]] by auto
    next
      case 4
      then show ?thesis
        using ij E1(2) [of i] E1(4) [of j] shift(1) [of i] sorted_rangeD [OF s(2), of "i + (m - st)" j] by auto
    qed
  qed
  then have "symMerge_split d d1 a st middle en b"
    using d1(2,3) parts b1 by (auto simp: symMerge_split_def)
  then show ?thesis using st(1) d1(1) by (auto simp: s0_def r0_def en_def)
qed

lemma sorted_range_glue:
  assumes "sorted_range lt a m xs" "sorted_range lt m b xs"
    and "\<And>i j. a \<le> i \<Longrightarrow> i < m \<Longrightarrow> m \<le> j \<Longrightarrow> j < b \<Longrightarrow> \<not> lt (xs ! nat j) (xs ! nat i)"
  shows "sorted_range lt a b xs"
  unfolding sorted_range_def
proof (intro allI impI, elim conjE)
  fix i j assume "a \<le> i" "i < j" "j < b"
  then show "\<not> lt (xs ! nat j) (xs ! nat i)"
    using assms(3) [of i j] sorted_rangeD [OF assms(1), of i j] sorted_rangeD [OF assms(2), of i j]
    by (cases "j < m"; cases "i < m") auto
qed

lemma symMerge_ok:
  assumes "0 \<le> a" "a < m" "m < b" "b \<le> int (length (elems d))" "length (elems d) \<le> 2 ^ 62"
    "sorted_range lt a m (elems d)" "sorted_range lt m b (elems d)"
  shows "merged d a b (symMerge data d a m b)"
  using assms
proof (induction "nat (b - a)" arbitrary: a m b d rule: less_induct)
  case less
  consider "m = a + 1" | "m \<noteq> a + 1" "b = m + 1" | "a + 2 \<le> m" "m + 2 \<le> b" using less.prems by linarith
  then show ?case
  proof cases
    case 1
    then show ?thesis using symMerge_left_single less.prems by blast
  next
    case 2
    then show ?thesis using symMerge_right_single less.prems by blast
  next
    case 3
    define middle where "middle = mid a b"
    define n where "n = middle + m"
    obtain st d1 where st: "Search_loop (\<lambda>c. Less data d (n - 1 - c) c)
           (if m > middle then n - b else a) (if m > middle then middle else m) = Some st"
        "(if st < m \<and> m < n - st then sort_rotate data d st m (n - st) else Some d) = Some d1"
        "symMerge_split d d1 a st middle (n - st) b"
      using symMerge_splitting [of a m b d] 3 less.prems unfolding middle_def n_def by blast
    define en where "en = n - st"
    have sp: "permutes_range a b (elems d) (elems d1)" "stable_perm lt (elems d) (elems d1)"
        "a \<le> st" "st \<le> middle" "middle \<le> en" "en \<le> b"
        "sorted_range lt a st (elems d1)" "sorted_range lt st middle (elems d1)"
        "sorted_range lt middle en (elems d1)" "sorted_range lt en b (elems d1)"
        "\<And>i j. a \<le> i \<Longrightarrow> i < middle \<Longrightarrow> middle \<le> j \<Longrightarrow> j < b \<Longrightarrow> \<not> lt (elems d1 ! nat j) (elems d1 ! nat i)"
      using st(3) by (auto simp: symMerge_split_def en_def)
    have mm: "middle = (a + b) div 2" using less.prems by (simp add: middle_def mid_eq)
    then have mb: "a < middle" "middle < b" using 3 by auto
    have len1: "length (elems d1) = length (elems d)" using sp(1) by (rule permutes_range_length)
    have "merged d1 a middle (if a < st \<and> st < middle then symMerge data d1 a st middle else Some d1)"
    proof (cases "a < st \<and> st < middle")
      case True
      then show ?thesis using less.hyps [of middle a st d1] mb sp(7,8) less.prems(1,4,5) len1 by auto
    next
      case False
      then have "st = a \<or> st = middle" using sp(3,4) by auto
      then show ?thesis using False sp(7,8) by (auto simp: merged_def)
    qed
    then obtain d2 where d2: "(if a < st \<and> st < middle then symMerge data d1 a st middle else Some d1) = Some d2"
        "sorted_range lt a middle (elems d2)" "permutes_range a middle (elems d1) (elems d2)"
        "stable_perm lt (elems d1) (elems d2)" by (auto simp: merged_def)
    have len2: "length (elems d2) = length (elems d)" using permutes_range_length [OF d2(3)] len1 by simp
    have s2: "sorted_range lt middle en (elems d2)" "sorted_range lt en b (elems d2)"
      using sorted_range_out [OF d2(3) sp(9)] sorted_range_out [OF d2(3) sp(10)] mb sp(3-6) less.prems(1,4) len1
      by auto
    have "merged d2 middle b (if middle < en \<and> en < b then symMerge data d2 middle en b else Some d2)"
    proof (cases "middle < en \<and> en < b")
      case True
      then show ?thesis using less.hyps [of b middle en d2] mb s2 less.prems(1,4,5) len2 by auto
    next
      case False
      then have "en = middle \<or> en = b" using sp(5,6) by auto
      then show ?thesis using False s2 by (auto simp: merged_def)
    qed
    then obtain d3 where d3: "(if middle < en \<and> en < b then symMerge data d2 middle en b else Some d2) = Some d3"
        "sorted_range lt middle b (elems d3)" "permutes_range middle b (elems d2) (elems d3)"
        "stable_perm lt (elems d2) (elems d3)" by (auto simp: merged_def)
    have "sorted_range lt a b (elems d3)"
    proof (rule sorted_range_glue [where m = middle])
      show "sorted_range lt a middle (elems d3)"
        by (rule sorted_range_out [OF d3(3) d2(2)]) (use mb less.prems(1,4) len2 in auto)
      fix i j assume ij: "a \<le> i" "i < middle" "middle \<le> j" "j < b"
      obtain i' where i': "a \<le> i'" "i' < middle" "elems d2 ! nat i = elems d1 ! nat i'"
        using permutes_range_in [OF d2(3), of i] ij mb less.prems(1,4) len1 by auto
      obtain j' where j': "middle \<le> j'" "j' < b" "elems d3 ! nat j = elems d2 ! nat j'"
        using permutes_range_in [OF d3(3), of j] ij mb less.prems(1,4) len2 by auto
      have "elems d3 ! nat i = elems d2 ! nat i"
        using permutes_range_out [OF d3(3), of i] ij mb less.prems(1,4) len2 by auto
      moreover have "elems d2 ! nat j' = elems d1 ! nat j'"
        using permutes_range_out [OF d2(3), of j'] j' mb less.prems(1,4) len1 by auto
      ultimately show "\<not> lt (elems d3 ! nat j) (elems d3 ! nat i)" using sp(11) i' j' by simp
    qed (rule d3(2))
    moreover have "permutes_range a b (elems d1) (elems d2)" "permutes_range a b (elems d2) (elems d3)"
      using permutes_range_mono [OF d2(3)] permutes_range_mono [OF d3(3)] mb by auto
    moreover have "symMerge data d a m b = Some d3"
    proof -
      have "symMerge data d a m b = do {
           start \<leftarrow> Search_loop (\<lambda>c. Less data d (n - 1 - c) c)
             (if m > middle then n - b else a) (if m > middle then middle else m);
           let end' = n - start;
           d \<leftarrow> (if start < m \<and> m < end' then sort_rotate data d start m end' else Some d);
           d \<leftarrow> (if a < start \<and> start < middle then symMerge data d a start middle else Some d);
           (if middle < end' \<and> end' < b then symMerge data d middle end' b else Some d)
         }"
        unfolding symMerge.simps [of _ d a m b] using 3
        by (simp add: Let_def n_def flip: middle_def)
      also have "\<dots> = Some d3"
        using st(1,2) d2(1) d3(1) unfolding en_def Let_def by (simp only: Option.bind.simps)
      finally show ?thesis .
    qed
    ultimately show ?thesis
      using sp(1,2) d2(4) d3(4) by (auto simp: merged_def intro: permutes_range_trans stable_perm_trans)
  qed
qed

subsection \<open>Blocks and passes\<close>

definition runs :: "int \<Rightarrow> int \<Rightarrow> int \<Rightarrow> 'a list \<Rightarrow> bool" where
  "runs bs a n xs \<longleftrightarrow> (\<forall>q. 0 \<le> q \<longrightarrow> sorted_range lt (a + q * bs) (min n (a + (q + 1) * bs)) xs)"

lemma runs_step:
  assumes "0 < bs" "sorted_range lt a (min n (a + bs)) xs" "runs bs (a + bs) n xs"
  shows "runs bs a n xs"
  unfolding runs_def
proof (intro allI impI)
  fix q :: int assume q: "0 \<le> q"
  show "sorted_range lt (a + q * bs) (min n (a + (q + 1) * bs)) xs"
  proof (cases "q = 0")
    case True
    then show ?thesis using assms(2) by simp
  next
    case False
    have "a + bs + (q - 1) * bs = a + q * bs" "a + bs + (q - 1 + 1) * bs = a + (q + 1) * bs"
      by (simp_all add: algebra_simps)
    moreover have "0 \<le> q - 1" using q False by simp
    ultimately show ?thesis
      using assms(3) [unfolded runs_def, rule_format, of "q - 1"] by (simp only:)
  qed
qed

lemma runs_first:
  assumes "runs bs a n xs"
  shows "sorted_range lt a (min n (a + bs)) xs"
  using assms unfolding runs_def by (metis add_0 add.right_neutral mult_1 mult_zero_left order_refl)

lemma runs_rest:
  assumes "runs bs a n xs"
  shows "runs bs (a + bs) n xs"
  unfolding runs_def
proof (intro allI impI)
  fix q :: int assume "0 \<le> q"
  then have "sorted_range lt (a + (q + 1) * bs) (min n (a + (q + 1 + 1) * bs)) xs"
    using assms unfolding runs_def by (metis add_nonneg_nonneg zero_le_one)
  then show "sorted_range lt (a + bs + q * bs) (min n (a + bs + (q + 1) * bs)) xs"
    by (simp add: algebra_simps)
qed

lemma runs_last:
  assumes "0 < bs" "n \<le> a + bs" "sorted_range lt a n xs"
  shows "runs bs a n xs"
proof (rule runs_step [OF assms(1)])
  have "q * bs \<ge> 0" if "0 \<le> q" for q using that assms(1) by simp
  then show "runs bs (a + bs) n xs"
    using assms(2) unfolding runs_def by (smt (verit) sorted_range_trivial)
qed (use assms in \<open>simp add: min_def\<close>)

lemma runs_all: "n \<le> bs \<Longrightarrow> runs bs 0 n xs \<Longrightarrow> sorted_range lt 0 n xs"
  using runs_first [of bs 0 n xs] by (simp add: min_def)

lemma runs_out:
  assumes "permutes_range l h xs ys" "runs bs a n xs" "0 < bs" "0 \<le> a" "h \<le> a" "n \<le> int (length xs)"
  shows "runs bs a n ys"
  unfolding runs_def
proof (intro allI impI)
  fix q :: int assume q: "0 \<le> q"
  then have "0 \<le> q * bs" using assms(3) by simp
  then show "sorted_range lt (a + q * bs) (min n (a + (q + 1) * bs)) ys"
    using sorted_range_out [OF assms(1), of "a + q * bs"] assms(2,4-6) q unfolding runs_def by auto
qed

lemma stable_blocks_ok:
  assumes "0 \<le> a" "a \<le> n" "n \<le> int (length (elems d))" "0 < bs"
  shows "\<exists>d'. (do { (d, a) \<leftarrow> stable_blocks data d n bs a (a + bs); insertionSort data d a n }) = Some d'
    \<and> runs bs a n (elems d') \<and> permutes_range a n (elems d) (elems d') \<and> stable_perm lt (elems d) (elems d')"
  using assms
proof (induction "nat (n - a)" arbitrary: a d rule: less_induct)
  case less
  show ?case
  proof (cases "a + bs \<le> n")
    case False
    then show ?thesis
      using insertionSort_ok [of a n d] less.prems runs_last [of bs n a]
      by (auto simp: stable_blocks.simps [of _ d])
  next
    case True
    obtain d1 where d1: "insertionSort data d a (a + bs) = Some d1" "sorted_range lt a (a + bs) (elems d1)"
        "permutes_range a (a + bs) (elems d) (elems d1)" "stable_perm lt (elems d) (elems d1)"
      using insertionSort_ok [of a "a + bs" d] True less.prems by auto
    have len1: "length (elems d1) = length (elems d)" using d1(3) by (rule permutes_range_length)
    obtain d2 where d2: "(do { (d, a) \<leftarrow> stable_blocks data d1 n bs (a + bs) (a + bs + bs); insertionSort data d a n }) = Some d2"
        "runs bs (a + bs) n (elems d2)" "permutes_range (a + bs) n (elems d1) (elems d2)"
        "stable_perm lt (elems d1) (elems d2)"
      using less.hyps [of "a + bs" d1] True less.prems len1 by auto
    have "sorted_range lt a (a + bs) (elems d2)"
      by (rule sorted_range_out [OF d2(3) d1(2)]) (use True less.prems len1 in auto)
    then have "runs bs a n (elems d2)"
      using runs_step [OF less.prems(4) _ d2(2)] True by (simp add: min_def)
    moreover have "permutes_range a n (elems d) (elems d1)" "permutes_range a n (elems d1) (elems d2)"
      using permutes_range_mono [OF d1(3)] permutes_range_mono [OF d2(3)] True less.prems(4) by auto
    ultimately show ?thesis
      using True d1(1,4) d2(1,4)
      by (auto simp: stable_blocks.simps [of _ d] intro: permutes_range_trans stable_perm_trans)
  qed
qed

lemma stable_pass_ok:
  assumes "0 \<le> a" "a \<le> n" "n \<le> int (length (elems d))" "0 < bs" "length (elems d) \<le> 2 ^ 62"
    "runs bs a n (elems d)"
  shows "\<exists>d'. (do {
       (d, a) \<leftarrow> stable_pass data d n bs a (a + 2 * bs);
       (if a + bs < n then symMerge data d a (a + bs) n else Some d)
     }) = Some d'
    \<and> runs (2 * bs) a n (elems d') \<and> permutes_range a n (elems d) (elems d') \<and> stable_perm lt (elems d) (elems d')"
  using assms
proof (induction "nat (n - a)" arbitrary: a d rule: less_induct)
  case less
  have first: "sorted_range lt a (min n (a + bs)) (elems d)"
    using runs_first [OF less.prems(6)] .
  have second: "sorted_range lt (a + bs) (min n (a + 2 * bs)) (elems d)"
    using runs_first [OF runs_rest [OF less.prems(6)]] by (simp add: add.assoc)
  show ?case
  proof (cases "a + 2 * bs \<le> n")
    case False
    have pass: "stable_pass data d n bs a (a + 2 * bs) = Some (d, a)"
      using False by (simp add: stable_pass.simps [of _ d])
    have "merged d a n (if a + bs < n then symMerge data d a (a + bs) n else Some d)"
    proof (cases "a + bs < n")
      case True
      then show ?thesis
        using symMerge_ok [of a "a + bs" n d] first second False less.prems by (simp add: min_def)
    next
      case False
      then show ?thesis using first by (simp add: merged_def min_def split: if_splits)
    qed
    then show ?thesis
      using pass False less.prems(4) runs_last [of "2 * bs" n a] by (auto simp: merged_def)
  next
    case True
    have "sorted_range lt a (a + bs) (elems d)" "sorted_range lt (a + bs) (a + 2 * bs) (elems d)"
      using first second True less.prems(4) by (simp_all add: min_absorb2)
    then have "merged d a (a + 2 * bs) (symMerge data d a (a + bs) (a + 2 * bs))"
      using symMerge_ok [of a "a + bs" "a + 2 * bs" d] True less.prems(1-5) by auto
    then obtain d1 where d1: "symMerge data d a (a + bs) (a + 2 * bs) = Some d1"
        "sorted_range lt a (a + 2 * bs) (elems d1)" "permutes_range a (a + 2 * bs) (elems d) (elems d1)"
        "stable_perm lt (elems d) (elems d1)" by (auto simp: merged_def)
    have len1: "length (elems d1) = length (elems d)" using d1(3) by (rule permutes_range_length)
    have "runs bs (a + 2 * bs) n (elems d)"
      using runs_rest [OF runs_rest [OF less.prems(6)]] by (simp add: add.assoc)
    then have runs1: "runs bs (a + 2 * bs) n (elems d1)"
      by (rule runs_out [OF d1(3)]) (use less.prems in auto)
    obtain d2 where d2: "(do {
       (d, a) \<leftarrow> stable_pass data d1 n bs (a + 2 * bs) (a + 2 * bs + 2 * bs);
       (if a + bs < n then symMerge data d a (a + bs) n else Some d)
     }) = Some d2" "runs (2 * bs) (a + 2 * bs) n (elems d2)" "permutes_range (a + 2 * bs) n (elems d1) (elems d2)"
        "stable_perm lt (elems d1) (elems d2)"
      using less.hyps [of "a + 2 * bs" d1] runs1 True less.prems(1-5) len1 by auto
    have "sorted_range lt a (a + 2 * bs) (elems d2)"
      by (rule sorted_range_out [OF d2(3) d1(2)]) (use True less.prems len1 in auto)
    then have "runs (2 * bs) a n (elems d2)"
      using runs_step [OF _ _ d2(2)] True less.prems(4) by (simp add: min_def)
    moreover have "permutes_range a n (elems d) (elems d1)" "permutes_range a n (elems d1) (elems d2)"
      using permutes_range_mono [OF d1(3)] permutes_range_mono [OF d2(3)] True less.prems(4) by auto
    ultimately show ?thesis
      using True d1(1,4) d2(1,4)
      by (auto simp: stable_pass.simps [of _ d] intro: permutes_range_trans stable_perm_trans)
  qed
qed

lemma stable_merge_ok:
  assumes "0 \<le> n" "n \<le> int (length (elems d))" "0 < bs" "length (elems d) \<le> 2 ^ 62" "runs bs 0 n (elems d)"
  shows "merged d 0 n (stable_merge data d n bs)"
  using assms
proof (induction "nat (n - bs)" arbitrary: bs d rule: less_induct)
  case less
  show ?case
  proof (cases "bs < n")
    case False
    then show ?thesis
      using runs_all [OF _ less.prems(5)] by (simp add: stable_merge.simps [of _ d] merged_def)
  next
    case True
    obtain d1 where d1: "(do {
       (d, a) \<leftarrow> stable_pass data d n bs 0 (2 * bs);
       (if a + bs < n then symMerge data d a (a + bs) n else Some d)
     }) = Some d1" "runs (bs * 2) 0 n (elems d1)" "permutes_range 0 n (elems d) (elems d1)"
        "stable_perm lt (elems d) (elems d1)"
      using stable_pass_ok [of 0 n d bs] less.prems by (auto simp: mult.commute)
    have len1: "length (elems d1) = length (elems d)" using d1(3) by (rule permutes_range_length)
    have "merged d1 0 n (stable_merge data d1 n (bs * 2))"
      using less.hyps [of "bs * 2" d1] True less.prems(1-4) d1(2) len1 by auto
    moreover have "stable_merge data d n bs = stable_merge data d1 n (bs * 2)"
      using True d1(1) by (auto simp: stable_merge.simps [of _ d n bs] Let_def bind_eq_Some_conv)
    ultimately show ?thesis
      using d1(3,4) by (auto simp: merged_def intro: permutes_range_trans stable_perm_trans)
  qed
qed

lemma stable_ok:
  assumes "0 \<le> n" "n \<le> int (length (elems d))" "length (elems d) \<le> 2 ^ 62"
  shows "merged d 0 n (stable data d n)"
proof -
  obtain d1 where d1: "(do { (d, a) \<leftarrow> stable_blocks data d n 20 0 20; insertionSort data d a n }) = Some d1"
      "runs 20 0 n (elems d1)" "permutes_range 0 n (elems d) (elems d1)" "stable_perm lt (elems d) (elems d1)"
    using stable_blocks_ok [of 0 n d 20] assms by auto
  have "merged d1 0 n (stable_merge data d1 n 20)"
    using stable_merge_ok [of n d1 20] d1(2) assms permutes_range_length [OF d1(3)] by auto
  moreover have "stable data d n = stable_merge data d1 n 20"
    using d1(1) by (auto simp: stable_def Let_def bind_eq_Some_conv)
  ultimately show ?thesis
    using d1(3,4) by (auto simp: merged_def intro: permutes_range_trans stable_perm_trans)
qed

lemma Stable_ok:
  assumes "length (elems d) \<le> 2 ^ 62"
  shows "\<exists>d'. Stable data d = Some d' \<and> sorted_range lt 0 (int (length (elems d))) (elems d')
    \<and> mset (elems d') = mset (elems d) \<and> stable_perm lt (elems d) (elems d')"
  using stable_ok [of "int (length (elems d))" d] assms
  by (auto simp: Stable_def Len_law merged_def permutes_range_def)

end

end
