(* ===== verification/Sort_Properties.thy ===== *)
theory Sort_Properties
  imports Sort_Stable
begin

text \<open>
  The properties of package sort, each from the locale lemmas of the preceding theories: the general
  ones for every implementation that meets the contract of Interface, the concrete ones for the
  slice types through their interpretations.
\<close>

subsection \<open>From ranges to sorted lists\<close>

lemma sorted_range_sorted_wrt:
  "sorted_range lt 0 (int (length xs)) xs \<longleftrightarrow> sorted_wrt (\<lambda>a b. \<not> lt b a) xs"
proof
  assume L: "sorted_range lt 0 (int (length xs)) xs"
  show "sorted_wrt (\<lambda>a b. \<not> lt b a) xs"
    unfolding sorted_wrt_iff_nth_less using L [unfolded sorted_range_def, rule_format, of "int _" "int _"] by auto
next
  assume R: "sorted_wrt (\<lambda>a b. \<not> lt b a) xs"
  show "sorted_range lt 0 (int (length xs)) xs"
    unfolding sorted_range_def
    using R [unfolded sorted_wrt_iff_nth_less] by (auto simp: nat_less_iff)
qed

lemma sort_unique: "sorted ys \<Longrightarrow> mset ys = mset xs \<Longrightarrow> ys = sort xs"
  by (metis properties_for_sort)

lemma permutation_in_order:
  assumes "sorted_range lt 0 (int (length xs)) ys" "mset ys = mset xs"
  shows "sorted_wrt (\<lambda>a b. \<not> lt b a) ys"
proof -
  have "length ys = length xs" using assms(2) by (rule mset_eq_length)
  then show ?thesis using assms(1) by (simp flip: sorted_range_sorted_wrt)
qed

context sort_interface
begin

lemma Sort_in_order:
  assumes "length (elems d) \<le> 2 ^ 62"
  obtains d' where "Sort data d = Some d'" "sorted_wrt (\<lambda>a b. \<not> lt b a) (elems d')" "mset (elems d') = mset (elems d)"
  using Sort_ok [OF assms] permutation_in_order by blast

lemma Stable_in_order:
  assumes "length (elems d) \<le> 2 ^ 62"
  obtains d' where "Stable data d = Some d'" "sorted_wrt (\<lambda>a b. \<not> lt b a) (elems d')" "mset (elems d') = mset (elems d)"
    "stable_perm lt (elems d) (elems d')"
  using Stable_ok [OF assms] permutation_in_order by blast

end

subsection \<open>Sorting any collection that meets the contract\<close>

text \<open>
  C2 (Sort). For every implementation of Interface that meets its documented contract, Sort returns (no panic,
  no endless loop, whatever path through median-of-nine, the duplicate scan and the heap sort
  fallback is taken), the result is in order, and it is a rearrangement of the input.
\<close>

theorem Sort_correct:
  assumes "sort_interface lt data elems" "length (elems d) \<le> 2 ^ 62"
  shows "\<exists>d'. Sort data d = Some d' \<and> sorted_wrt (\<lambda>a b. \<not> lt b a) (elems d') \<and> mset (elems d') = mset (elems d)"
  using sort_interface.Sort_in_order [OF assms] by blast

lemma Sort_correct_witness:
  "\<exists>d'. Sort (Reverse IntSlice) [2, 5, 3] = Some d' \<and> sorted_wrt (\<lambda>a b. \<not> (a < b)) d' \<and> mset d' = {#2, 5, 3#}"
  using Sort_correct [OF ints_desc.sort_interface_axioms, of "[2, 5, 3]"] by simp

text \<open>
  C7 (Stable). For every implementation of Interface that meets its contract, Stable returns, sorts,
  permutes, and keeps elements that compare equal in their original order.
\<close>

theorem Stable_correct:
  assumes "sort_interface lt data elems" "length (elems d) \<le> 2 ^ 62"
  shows "\<exists>d'. Stable data d = Some d' \<and> sorted_wrt (\<lambda>a b. \<not> lt b a) (elems d') \<and> mset (elems d') = mset (elems d)
    \<and> (\<forall>x. filter (\<lambda>y. \<not> lt x y \<and> \<not> lt y x) (elems d') = filter (\<lambda>y. \<not> lt x y \<and> \<not> lt y x) (elems d))"
  using sort_interface.Stable_in_order [OF assms] unfolding stable_perm_def by blast

lemma Stable_correct_witness:
  "\<exists>d'. Stable StringSlice [''b'', ''a'', ''b''] = Some d' \<and> sorted_wrt (\<lambda>a b. \<not> b < a) d'
    \<and> mset d' = {#''b'', ''a'', ''b''#}"
  using Stable_correct [OF strings.sort_interface_axioms, of "[''b'', ''a'', ''b'']"] by auto

text \<open>
  HeapSort. The fallback of quickSort sorts exactly the range it is given: the range ends up in
  order, nothing outside it moves and no element is lost.
\<close>

theorem heapSort_correct:
  assumes "sort_interface lt data elems"
    and "0 \<le> a" "a \<le> b" "b \<le> int (length (elems d))" "length (elems d) \<le> 2 ^ 62"
  shows "\<exists>d'. heapSort data d a b = Some d' \<and> sorted_range lt a b (elems d') \<and> permutes_range a b (elems d) (elems d')"
  by (rule sort_interface.heapSort_ok [OF assms])

lemma heapSort_correct_witness:
  "\<exists>d'. heapSort IntSlice [9, 3, 2, 1, 0] 1 4 = Some d' \<and> sorted_range (<) 1 4 d' \<and> permutes_range 1 4 [9, 3, 2, 1, 0] d'"
  using heapSort_correct [OF ints.sort_interface_axioms, of 1 4 "[9, 3, 2, 1, 0]"] by simp

text \<open>
  SymMerge. The in-place merge joins two neighbouring sorted ranges into one sorted range, moves
  nothing outside them and is stable.
\<close>

theorem symMerge_correct:
  assumes "sort_interface lt data elems"
    and "0 \<le> a" "a < m" "m < b" "b \<le> int (length (elems d))" "length (elems d) \<le> 2 ^ 62"
    and "sorted_range lt a m (elems d)" "sorted_range lt m b (elems d)"
  shows "\<exists>d'. symMerge data d a m b = Some d' \<and> sorted_range lt a b (elems d')
    \<and> permutes_range a b (elems d) (elems d') \<and> stable_perm lt (elems d) (elems d')"
  using sort_interface.symMerge_ok [OF assms(1), of a m b d] assms(2-)
  unfolding sort_interface.merged_def [OF assms(1)] by auto

lemma symMerge_correct_witness:
  "\<exists>d'. symMerge IntSlice [2, 4, 1, 3] 0 2 4 = Some d' \<and> sorted_range (<) 0 4 d'
    \<and> permutes_range 0 4 [2, 4, 1, 3] d' \<and> stable_perm (<) [2, 4, 1, 3] d'"
proof -
  have "sorted_range (<) 0 2 [2, 4, 1, 3 :: int]"
    by (auto simp: ints.sorted_range_adjacent nth_Cons')
  moreover have "sorted_range (<) 2 4 [2, 4, 1, 3 :: int]"
  proof -
    have "i = 2 \<and> j = 3" if "2 \<le> i" "i < j" "j < 4" for i j :: int using that by presburger
    then show ?thesis unfolding sorted_range_def by (auto simp: nth_Cons')
  qed
  ultimately show ?thesis using symMerge_correct [OF ints.sort_interface_axioms, of 0 2 4 "[2, 4, 1, 3]"] by simp
qed

text \<open>
  DoPivot. The pivot step partitions its range into values not above the pivot, equal to it and not
  below it, leaves at least one equal element in the middle and touches nothing outside the range,
  so the two recursive calls of quickSort are on strictly shorter ranges.
\<close>

theorem doPivot_correct:
  assumes "sort_interface lt data elems"
    and "0 \<le> lo" "hi - lo > 12" "hi \<le> int (length (elems d))" "length (elems d) \<le> 2 ^ 62"
  shows "\<exists>d' mlo mhi v. doPivot data d lo hi = Some (d', mlo, mhi)
    \<and> permutes_range lo hi (elems d) (elems d') \<and> lo \<le> mlo \<and> mlo < mhi \<and> mhi \<le> hi
    \<and> (\<forall>k. lo \<le> k \<and> k < mlo \<longrightarrow> \<not> lt v (elems d' ! nat k))
    \<and> (\<forall>k. mlo \<le> k \<and> k < mhi \<longrightarrow> \<not> lt v (elems d' ! nat k) \<and> \<not> lt (elems d' ! nat k) v)
    \<and> (\<forall>k. mhi \<le> k \<and> k < hi \<longrightarrow> \<not> lt (elems d' ! nat k) v)"
  by (rule sort_interface.doPivot_ok [OF assms])

lemma doPivot_correct_witness:
  "\<exists>d' mlo mhi v. doPivot IntSlice (rev [0..12]) 0 13 = Some (d', mlo, mhi)
    \<and> permutes_range 0 13 (rev [0..12]) d' \<and> 0 \<le> mlo \<and> mlo < mhi \<and> mhi \<le> 13
    \<and> (\<forall>k. 0 \<le> k \<and> k < mlo \<longrightarrow> \<not> v < d' ! nat k)
    \<and> (\<forall>k. mlo \<le> k \<and> k < mhi \<longrightarrow> \<not> v < d' ! nat k \<and> \<not> d' ! nat k < v)
    \<and> (\<forall>k. mhi \<le> k \<and> k < 13 \<longrightarrow> \<not> d' ! nat k < v)"
  by (rule doPivot_correct [OF ints.sort_interface_axioms]) simp_all

text \<open>
  IsSorted. IsSorted, which only compares neighbours, decides that no element is smaller than
  an earlier one.
\<close>

theorem IsSorted_correct:
  assumes "sort_interface lt data elems"
  shows "IsSorted data d = Some (sorted_wrt (\<lambda>a b. \<not> lt b a) (elems d))"
  using sort_interface.IsSorted_ok [OF assms] by (simp add: sorted_range_sorted_wrt)

lemma IsSorted_correct_witness:
  "IsSorted IntSlice [1, 2, 2] = Some True \<and> IsSorted IntSlice [1, 3, 2] = Some False"
  using IsSorted_correct [OF ints.sort_interface_axioms] by simp_all

subsection \<open>The slice types\<close>

lemma Ints_mset_sorted: "length x \<le> 2 ^ 62 \<Longrightarrow> \<exists>y. Ints x = Some y \<and> sorted y \<and> mset y = mset x"
  using ints.Sort_in_order [of x] unfolding Ints_def by (auto simp: not_less)

lemma Strings_mset_sorted: "length x \<le> 2 ^ 62 \<Longrightarrow> \<exists>y. Strings x = Some y \<and> sorted y \<and> mset y = mset x"
  using strings.Sort_in_order [of x] unfolding Strings_def by (auto simp: not_less)

text \<open>
  Ints. Ints computes the sorted list of its argument.
\<close>

theorem Ints_sorts:
  assumes "length x \<le> 2 ^ 62"
  shows "Ints x = Some (sort x)"
  using Ints_mset_sorted [OF assms] sort_unique by blast

lemma Ints_sorts_witness: "Ints [3, 1, 2] = Some [1, 2, 3]"
  using Ints_sorts [of "[3, 1, 2]"] by simp

text \<open>
  Strings. Strings computes the sorted list of its argument, in the bytewise lexicographic order.
\<close>

theorem Strings_sorts:
  assumes "length x \<le> 2 ^ 62"
  shows "Strings x = Some (sort x)"
  using Strings_mset_sorted [OF assms] sort_unique by blast

lemma Strings_sorts_witness: "Strings [''b'', ''ab'', ''a''] = Some [''a'', ''ab'', ''b'']"
  using Strings_sorts [of "[''b'', ''ab'', ''a'']"] by (simp add: less_char_def)

lemma nan_suffix:
  assumes "sorted_wrt (\<lambda>a b. \<not> Float64Slice_lt b a) y"
  shows "\<not> list_ex isNaN (dropWhile isNaN y) \<and> sorted_wrt (\<lambda>a b. \<not> f64_less b a) (dropWhile isNaN y)"
  using assms
proof (induction y)
  case (Cons a y)
  have a: "\<not> Float64Slice_lt b a" if "b \<in> set y" for b using Cons.prems that by simp
  have y: "sorted_wrt (\<lambda>a b. \<not> Float64Slice_lt b a) y" using Cons.prems by simp
  show ?case
  proof (cases "isNaN a")
    case True
    then show ?thesis using Cons.IH [OF y] by simp
  next
    case False
    then have "\<not> isNaN b \<and> \<not> f64_less b a" if "b \<in> set y" for b
      using a [OF that] unfolding Float64Slice_lt_def by blast
    moreover from this have "dropWhile isNaN y = y" by (cases y) auto
    ultimately show ?thesis using Cons.IH [OF y] False by (simp add: list_ex_iff)
  qed
qed simp

text \<open>
  Float64s. Float64s returns a permutation of its argument that begins with all the NaN values and
  continues with the ordinary values in ascending order.
\<close>

theorem Float64s_sorts:
  assumes "length x \<le> 2 ^ 62"
  shows "\<exists>nans rest. Float64s x = Some (nans @ rest) \<and> mset (nans @ rest) = mset x
    \<and> list_all isNaN nans \<and> \<not> list_ex isNaN rest \<and> sorted_wrt (\<lambda>a b. \<not> f64_less b a) rest"
proof -
  obtain y where y: "Float64s x = Some y" "mset y = mset x"
      and s: "sorted_wrt (\<lambda>a b. \<not> Float64Slice_lt b a) y"
    using floats.Sort_in_order [of x] assms unfolding Float64s_def by blast
  have "list_all isNaN (takeWhile isNaN y)" by (induction y) simp_all
  moreover have "\<not> list_ex isNaN (dropWhile isNaN y) \<and> sorted_wrt (\<lambda>a b. \<not> f64_less b a) (dropWhile isNaN y)"
    using s by (rule nan_suffix)
  ultimately show ?thesis
    using y by (intro exI [of _ "takeWhile isNaN y"] exI [of _ "dropWhile isNaN y"]) simp
qed

lemma Float64s_sorts_witness:
  "\<exists>nans rest. Float64s [0x4000000000000000, 0x7FF8000000000001, 0xC000000000000000] = Some (nans @ rest)
    \<and> mset (nans @ rest) = {#0x4000000000000000, 0x7FF8000000000001, 0xC000000000000000#}
    \<and> list_all isNaN nans \<and> \<not> list_ex isNaN rest \<and> sorted_wrt (\<lambda>a b. \<not> f64_less b a) rest"
  using Float64s_sorts [of "[0x4000000000000000, 0x7FF8000000000001, 0xC000000000000000]"] by simp

text \<open>
  Reverse. Sorting through the Reverse wrapper gives the descending list.
\<close>

theorem Reverse_sorts_descending:
  assumes "length x \<le> 2 ^ 62"
  shows "Sort (Reverse IntSlice) x = Some (rev (sort x))"
proof -
  obtain y where "Sort (Reverse IntSlice) x = Some y" "sorted (rev y)" "mset y = mset x"
    using ints_desc.Sort_in_order [of x] assms by (auto simp: not_less sorted_wrt_rev)
  then show ?thesis using sort_unique [of "rev y" x] by (metis mset_rev rev_rev_ident)
qed

lemma Reverse_sorts_descending_witness: "Sort (Reverse IntSlice) [2, 3, 1] = Some [3, 2, 1]"
  using Reverse_sorts_descending [of "[2, 3, 1]"] by simp

subsection \<open>Sorting with a less function\<close>

text \<open>
  SliceStable. With a less function that compares two elements by a key, SliceStable is the
  stable sort by that key.
\<close>

theorem SliceStable_sorts_by_key:
  fixes key :: "'a \<Rightarrow> 'k::linorder"
  assumes "length x \<le> 2 ^ 62"
  shows "SliceStable x (less_at (\<lambda>a b. key a < key b)) = Some (sort_key key x)"
proof -
  let ?lt = "\<lambda>a b. key a < key b"
  have i: "sort_interface ?lt (lessSwap (less_at ?lt)) (\<lambda>x. x)"
    by (rule lessSwap_interface) (unfold_locales; auto)
  obtain y where y: "Stable (lessSwap (less_at ?lt)) x = Some y" "mset y = mset x"
      and s: "sorted_wrt (\<lambda>a b. \<not> key b < key a) y" and st: "stable_perm ?lt x y"
    using sort_interface.Stable_in_order [OF i, of x] assms by blast
  have run: "SliceStable x (less_at ?lt) = Some y"
    using y(1) by (simp add: SliceStable_def Stable_def lessSwap_def)
  have "sort_key key x = y"
  proof (rule properties_for_sort_key [OF y(2)])
    show "filter (\<lambda>z. key k = key z) y = filter (\<lambda>z. key k = key z) x" if "k \<in> set y" for k
    proof -
      have "(\<lambda>z. key k = key z) = (\<lambda>z. \<not> key k < key z \<and> \<not> key z < key k)" by (auto simp: not_less)
      then show ?thesis using st [unfolded stable_perm_def, rule_format, of k] by (simp only:)
    qed
    show "sorted (map key y)" using s by (simp add: sorted_map not_less)
  qed
  with run show ?thesis by simp
qed

lemma SliceStable_sorts_by_key_witness:
  "SliceStable [(2, ''x''), (1, ''y''), (2, ''a'')] (less_at (\<lambda>a b. fst a < (fst b :: int)))
     = Some [(1, ''y''), (2, ''x''), (2, ''a'')]"
  using SliceStable_sorts_by_key [of "[(2, ''x''), (1, ''y''), (2, ''a'')]" "fst :: int \<times> string \<Rightarrow> int"] by simp

text \<open>
  Slice. Slice sorts and permutes, for every less function that compares the elements at its two
  indices with a strict weak order.
\<close>

theorem Slice_sorts:
  assumes "strict_weak_order lt" "length x \<le> 2 ^ 62"
  shows "\<exists>y. Slice x (less_at lt) = Some y \<and> sorted_wrt (\<lambda>a b. \<not> lt b a) y \<and> mset y = mset x"
  using sort_interface.Sort_in_order [OF lessSwap_interface [OF assms(1)], of x] assms(2)
  by (auto simp: Slice_def Sort_def Let_def lessSwap_def)

lemma Slice_sorts_witness:
  "\<exists>y. Slice [3, 1, 2 :: int] (less_at (<)) = Some y \<and> sorted_wrt (\<lambda>a b. \<not> b < a) y \<and> mset y = {#3, 1, 2#}"
  using Slice_sorts [OF ints.strict_weak_order_axioms, of "[3, 1, 2]"] by simp

subsection \<open>Binary search\<close>

text \<open>
  C33 (Search). On a monotone predicate, Search returns the least index in the range at which the predicate
  holds, or the length when there is none; the midpoint does not overflow even for the largest range.
\<close>

theorem Search_finds_least:
  assumes "0 \<le> n" "n < 2 ^ 63"
    and "\<And>k. 0 \<le> k \<Longrightarrow> k < n \<Longrightarrow> f k = Some (g k)"
    and "\<And>k l. 0 \<le> k \<Longrightarrow> k \<le> l \<Longrightarrow> l < n \<Longrightarrow> g k \<Longrightarrow> g l"
  shows "\<exists>r. Search n f = Some r \<and> 0 \<le> r \<and> r \<le> n
           \<and> (\<forall>k. 0 \<le> k \<and> k < r \<longrightarrow> \<not> g k) \<and> (\<forall>k. r \<le> k \<and> k < n \<longrightarrow> g k)"
  using assms by (rule Search_least)

lemma Search_finds_least_witness:
  "\<exists>r. Search (2 ^ 63 - 1) (\<lambda>i. Some (i \<ge> 1000)) = Some r \<and> 0 \<le> r \<and> r \<le> 2 ^ 63 - 1
    \<and> (\<forall>k. 0 \<le> k \<and> k < r \<longrightarrow> \<not> 1000 \<le> k) \<and> (\<forall>k. r \<le> k \<and> k < 2 ^ 63 - 1 \<longrightarrow> 1000 \<le> k)"
  by (rule Search_finds_least) simp_all

lemma takeWhile_boundary:
  assumes "r \<le> length xs" "\<And>k. k < r \<Longrightarrow> P (xs ! k)" "\<And>k. r \<le> k \<Longrightarrow> k < length xs \<Longrightarrow> \<not> P (xs ! k)"
  shows "length (takeWhile P xs) = r"
  by (subst takeWhile_eq_take_P_nth [of r]) (use assms in auto)

text \<open>
  SearchInts. On an ascending slice SearchInts returns the number of elements below the value
  looked for: the place where it is, if present, and where to insert it, if not.
\<close>

theorem SearchInts_counts_smaller:
  assumes "sorted a" "length a < 2 ^ 63"
  shows "SearchInts a x = Some (int (length (takeWhile (\<lambda>v. v < x) a)))"
proof -
  have mono: "x \<le> a ! nat l" if "0 \<le> k" "k \<le> l" "l < int (length a)" "x \<le> a ! nat k" for k l
    using that sorted_nth_mono [OF assms(1), of "nat k" "nat l"] by (auto intro: order.trans)
  have "\<exists>r. SearchInts a x = Some r \<and> 0 \<le> r \<and> r \<le> int (length a)
      \<and> (\<forall>k. 0 \<le> k \<and> k < r \<longrightarrow> \<not> x \<le> a ! nat k) \<and> (\<forall>k. r \<le> k \<and> k < int (length a) \<longrightarrow> x \<le> a ! nat k)"
    unfolding SearchInts_def
  proof (rule Search_least)
    show "x \<le> a ! nat l" if "0 \<le> k" "k \<le> l" "l < int (length a)" "x \<le> a ! nat k" for k l
      using that by (rule mono)
  qed (use assms(2) in simp_all)
  then obtain r where r: "SearchInts a x = Some r" "0 \<le> r" "r \<le> int (length a)"
      and below: "\<And>k. 0 \<le> k \<Longrightarrow> k < r \<Longrightarrow> \<not> x \<le> a ! nat k"
      and upper: "\<And>k. r \<le> k \<Longrightarrow> k < int (length a) \<Longrightarrow> x \<le> a ! nat k" by blast
  have "length (takeWhile (\<lambda>v. v < x) a) = nat r"
  proof (rule takeWhile_boundary)
    show "a ! k < x" if "k < nat r" for k using below [of "int k"] that by (simp add: zless_nat_eq_int_zless not_le)
    show "\<not> a ! k < x" if "nat r \<le> k" "k < length a" for k using upper [of "int k"] that by (simp add: nat_le_iff not_less)
  qed (use r in simp)
  with r(1,2) show ?thesis by simp
qed

lemma SearchInts_counts_smaller_witness: "SearchInts [1, 3, 5] 4 = Some 2"
  using SearchInts_counts_smaller [of "[1, 3, 5]" 4] by simp

end
