(* ===== verification/Container_Heap.thy ===== *)
theory Container_Heap
  imports Sort_Heap
begin

text \<open>
  \<^verbatim>\<open>container/heap/heap.go\<close>: a binary min-heap over any implementation of its Interface, which extends
  \<^verbatim>\<open>sort.Interface\<close> with Push and Pop at the end of the collection; and \<open>actionQueue\<close> of
  \<^verbatim>\<open>cmd/go/internal/work/action.go\<close>, the ready queue of the go command, which is an implementation of it.
  \<open>2*i+1\<close> is written with its wrap-around, because \<open>down\<close> tests for it.
\<close>

subsection \<open>Operations\<close>

record ('d, 'x) heap_ops = "'d sort_ops" +
  Push_method :: "'d \<Rightarrow> 'x \<Rightarrow> 'd option"
  Pop_method :: "'d \<Rightarrow> ('x \<times> 'd) option"

partial_function (option) heap_up :: "('d, 'x, 'm) heap_ops_scheme \<Rightarrow> 'd \<Rightarrow> int \<Rightarrow> 'd option" where
  "heap_up h d j =
     (let i = (j - 1) sdiv 2 in
      if i = j then Some d
      else do {
        b \<leftarrow> Less h d j i;
        if \<not> b then Some d
        else do { d \<leftarrow> Swap h d i j; heap_up h d i }
      })"

partial_function (option) heap_down_loop ::
  "('d, 'x, 'm) heap_ops_scheme \<Rightarrow> 'd \<Rightarrow> int \<Rightarrow> int \<Rightarrow> ('d \<times> int) option" where
  "heap_down_loop h d i n =
     (let j1 = int64 (2 * i + 1) in
      if j1 \<ge> n \<or> j1 < 0 then Some (d, i)
      else do {
        j \<leftarrow> (let j2 = j1 + 1 in
              if j2 < n then do { b \<leftarrow> Less h d j2 j1; Some (if b then j2 else j1) } else Some j1);
        b \<leftarrow> Less h d j i;
        if \<not> b then Some (d, i)
        else do { d \<leftarrow> Swap h d i j; heap_down_loop h d j n }
      })"

definition heap_down :: "('d, 'x, 'm) heap_ops_scheme \<Rightarrow> 'd \<Rightarrow> int \<Rightarrow> int \<Rightarrow> ('d \<times> bool) option" where
  "heap_down h d i0 n = do { (d, i) \<leftarrow> heap_down_loop h d i0 n; Some (d, i > i0) }"

partial_function (option) heap_Init_loop ::
  "('d, 'x, 'm) heap_ops_scheme \<Rightarrow> 'd \<Rightarrow> int \<Rightarrow> int \<Rightarrow> 'd option" where
  "heap_Init_loop h d n i =
     (if i \<ge> 0 then do { (d, _) \<leftarrow> heap_down h d i n; heap_Init_loop h d n (i - 1) } else Some d)"

definition heap_Init :: "('d, 'x, 'm) heap_ops_scheme \<Rightarrow> 'd \<Rightarrow> 'd option" where
  "heap_Init h d = (let n = Len h d in heap_Init_loop h d n (n sdiv 2 - 1))"

definition heap_Push :: "('d, 'x, 'm) heap_ops_scheme \<Rightarrow> 'd \<Rightarrow> 'x \<Rightarrow> 'd option" where
  "heap_Push h d x = do { d \<leftarrow> Push_method h d x; heap_up h d (Len h d - 1) }"

definition heap_Pop :: "('d, 'x, 'm) heap_ops_scheme \<Rightarrow> 'd \<Rightarrow> ('x \<times> 'd) option" where
  "heap_Pop h d =
     (let n = Len h d - 1 in
      do { d \<leftarrow> Swap h d 0 n; (d, _) \<leftarrow> heap_down h d 0 n; Pop_method h d })"

definition heap_Remove :: "('d, 'x, 'm) heap_ops_scheme \<Rightarrow> 'd \<Rightarrow> int \<Rightarrow> ('x \<times> 'd) option" where
  "heap_Remove h d i =
     (let n = Len h d - 1 in
      do {
        d \<leftarrow> (if n \<noteq> i then
                do {
                  d \<leftarrow> Swap h d i n;
                  (d, moved) \<leftarrow> heap_down h d i n;
                  if \<not> moved then heap_up h d i else Some d
                }
              else Some d);
        Pop_method h d
      })"

definition heap_Fix :: "('d, 'x, 'm) heap_ops_scheme \<Rightarrow> 'd \<Rightarrow> int \<Rightarrow> 'd option" where
  "heap_Fix h d i =
     do { (d, moved) \<leftarrow> heap_down h d i (Len h d); if \<not> moved then heap_up h d i else Some d }"

declare heap_up.simps [code] heap_down_loop.simps [code] heap_Init_loop.simps [code]

subsection \<open>The contract of heap.Interface\<close>

locale heap_interface = sort_interface lt data elems
  for lt :: "'x \<Rightarrow> 'x \<Rightarrow> bool" and data :: "('d, 'x, 'm) heap_ops_scheme" and elems :: "'d \<Rightarrow> 'x list" +
  assumes Push_law: "\<exists>d'. Push_method data d x = Some d' \<and> elems d' = elems d @ [x]"
    and Pop_law: "elems d \<noteq> [] \<Longrightarrow>
           \<exists>d'. Pop_method data d = Some (last (elems d), d') \<and> elems d' = butlast (elems d)"
begin

text \<open>\<open>below p c\<close>: the value \<open>p\<close> may be the parent of the value \<open>c\<close>.\<close>

definition below :: "'x \<Rightarrow> 'x \<Rightarrow> bool" where
  "below p c \<longleftrightarrow> \<not> lt c p"

definition heap_valid :: "'d \<Rightarrow> bool" where
  "heap_valid d \<longleftrightarrow> heap_ok below (view d 0) 0 (int (length (elems d)))"

lemma below_refl: "below a a"
  by (simp add: below_def lt_irrefl)

lemma below_trans: "below a b \<Longrightarrow> below b c \<Longrightarrow> below a c"
  unfolding below_def by (metis lt_cotrans)

lemma Less_view:
  assumes "0 \<le> i" "0 \<le> j" "i < int (length (elems d))" "j < int (length (elems d))"
  shows "Less data d i j = Some (lt (view d 0 i) (view d 0 j))"
  using assms Less_law [of i d j] by (simp add: view_def)

lemma Swap_view0:
  assumes "0 \<le> i" "0 \<le> j" "i < int (length (elems d))" "j < int (length (elems d))"
  obtains d' where "Swap data d i j = Some d'" "elems d' = swap_at (elems d) (nat i) (nat j)"
    "\<And>k. 0 \<le> k \<Longrightarrow> k < int (length (elems d)) \<Longrightarrow>
       view d' 0 k = ((view d 0)(i := view d 0 j, j := view d 0 i)) k"
  using Swap_view [of 0 i j d] assms by auto

subsection \<open>Sifting down\<close>

lemma child_index:
  assumes "0 \<le> i" "i < 2 ^ 63" "n < 2 ^ 63"
  shows "(int64 (2 * i + 1) \<ge> n \<or> int64 (2 * i + 1) < 0) = (2 * i + 1 \<ge> n)"
    and "2 * i + 1 < n \<Longrightarrow> int64 (2 * i + 1) = 2 * i + 1"
proof -
  show eq: "int64 (2 * i + 1) = 2 * i + 1" if "2 * i + 1 < n" using that assms by (intro int64_id) auto
  show "(int64 (2 * i + 1) \<ge> n \<or> int64 (2 * i + 1) < 0) = (2 * i + 1 \<ge> n)"
  proof (cases "2 * i + 1 < 2 ^ 63")
    case True
    then have "int64 (2 * i + 1) = 2 * i + 1" using assms by (intro int64_id) auto
    then show ?thesis using assms by auto
  next
    case False
    have "int64 (2 * i + 1) = int64 (2 * i + 1 - 2 ^ 64)"
      by (rule int64_shift [symmetric])
    also have "\<dots> = 2 * i + 1 - 2 ^ 64" using False assms by (intro int64_id) auto
    finally show ?thesis using False assms by auto
  qed
qed

text \<open>Sifting down from a hole at \<open>i\<close> restores the heap; a node that is not moved is left where it was.\<close>

lemma heap_down_loop_ok:
  assumes "0 \<le> lo" "lo \<le> i" "i < 2 ^ 63" "n \<le> int (length (elems d))" "length (elems d) < 2 ^ 63"
    "heap_down_hole below (view d 0) lo n i"
  shows "\<exists>d' i'. heap_down_loop data d i n = Some (d', i') \<and> heap_ok below (view d' 0) lo n
           \<and> permutes_range i n (elems d) (elems d')"
  using assms
proof (induction "nat (n - i)" arbitrary: i d rule: less_induct)
  case less
  let ?v = "view d 0"
  have stop: "(int64 (2 * i + 1) \<ge> n \<or> int64 (2 * i + 1) < 0) = (2 * i + 1 \<ge> n)"
    and child: "2 * i + 1 < n \<Longrightarrow> int64 (2 * i + 1) = 2 * i + 1"
    using child_index [of i n] less.prems by auto
  show ?case
  proof (cases "2 * i + 1 \<ge> n")
    case True
    have "heap_ok below ?v lo n"
      using less.prems(6) by (rule heap_down_hole_close) (use True in \<open>auto simp: is_child_def\<close>)
    then show ?thesis using True stop by (auto simp: heap_down_loop.simps [of _ d] Let_def)
  next
    case False
    define c where "c = (if 2 * i + 2 < n \<and> lt (?v (2 * i + 2)) (?v (2 * i + 1)) then 2 * i + 2 else 2 * i + 1)"
    have c: "is_child c i" "c < n" "i < c" "c < 2 ^ 63"
      using False less.prems by (auto simp: c_def is_child_def)
    have sel: "(if 2 * i + 1 + 1 < n
        then do { b \<leftarrow> Less data d (2 * i + 1 + 1) (2 * i + 1); Some (if b then 2 * i + 1 + 1 else 2 * i + 1) }
        else Some (2 * i + 1)) = Some c"
      using False less.prems Less_view [of "2 * i + 2" "2 * i + 1" d] by (auto simp: c_def add.assoc)
    have min: "below (?v c) (?v s)" if "is_child s i" "s < n" for s
      using that by (auto simp: c_def is_child_def below_def lt_irrefl dest: lt_asym)
    have unfold: "heap_down_loop data d i n =
        (if \<not> lt (?v c) (?v i) then Some (d, i) else do { d \<leftarrow> Swap data d i c; heap_down_loop data d c n })"
    proof -
      have go: "\<not> (2 * i + 1 \<ge> n \<or> 2 * i + 1 < 0)" "int64 (2 * i + 1) = 2 * i + 1"
        using False child less.prems(1,2) by auto
      have L: "Less data d c i = Some (lt (?v c) (?v i))" using Less_view [of c i d] c less.prems by auto
      show ?thesis
        unfolding heap_down_loop.simps [of _ d i] Let_def go(2) by (simp only: go(1) if_False sel L Option.bind.simps)
    qed
    show ?thesis
    proof (cases "lt (?v c) (?v i)")
      case False
      have "below (?v i) (?v s)" if "is_child s i" "s < n" for s
        using below_trans [OF _ min [OF that]] False by (auto simp: below_def)
      then have "heap_ok below ?v lo n"
        using less.prems(6) by (blast intro: heap_down_hole_close)
      then show ?thesis using False unfold by auto
    next
      case True
      obtain d1 where d1: "Swap data d i c = Some d1" "elems d1 = swap_at (elems d) (nat i) (nat c)"
          "\<And>k. 0 \<le> k \<Longrightarrow> k < int (length (elems d)) \<Longrightarrow> view d1 0 k = (?v(i := ?v c, c := ?v i)) k"
        using Swap_view0 [of i c d] c less.prems by auto
      have "heap_down_hole below (?v(i := ?v c, c := ?v i)) lo n c"
        using less.prems(1,2,6) c min lt_asym [OF True]
        by (intro heap_down_hole_step) (auto simp: below_def)
      then have hole: "heap_down_hole below (view d1 0) lo n c"
        by (rule heap_down_hole_cong) (use d1(3) less.prems(1,2,4) c in auto)
      obtain d2 i2 where d2: "heap_down_loop data d1 c n = Some (d2, i2)" "heap_ok below (view d2 0) lo n"
          "permutes_range c n (elems d1) (elems d2)"
        using less.hyps [of c d1] hole c less.prems d1(2) by auto
      have "permutes_range i n (elems d) (elems d1)"
        unfolding d1(2) using c less.prems by (intro permutes_range_swap) auto
      moreover have "permutes_range i n (elems d1) (elems d2)"
        by (rule permutes_range_mono [OF d2(3)]) (use c in auto)
      ultimately show ?thesis
        using True unfold d1 d2 by (auto intro: permutes_range_trans)
    qed
  qed
qed

lemma heap_down_loop_stays:
  assumes "0 \<le> i" "i < 2 ^ 63" "n \<le> int (length (elems d))" "length (elems d) < 2 ^ 63"
    "\<And>c. is_child c i \<Longrightarrow> c < n \<Longrightarrow> below (view d 0 i) (view d 0 c)"
  shows "heap_down_loop data d i n = Some (d, i)"
proof (cases "2 * i + 1 \<ge> n")
  case True
  then show ?thesis using child_index(1) [of i n] assms by (simp add: heap_down_loop.simps [of _ d] Let_def)
next
  case False
  have L: "Less data d j k = Some (lt (view d 0 j) (view d 0 k))" if "0 \<le> j" "0 \<le> k" "j < n" "k < n" for j k
    using Less_view that assms(3) by auto
  have b: "\<not> lt (view d 0 (2 * i + 1)) (view d 0 i)" "2 * i + 1 + 1 < n \<Longrightarrow> \<not> lt (view d 0 (2 * i + 1 + 1)) (view d 0 i)"
    using assms(5) [of "2 * i + 1"] assms(5) [of "2 * i + 1 + 1"] False by (auto simp: below_def is_child_def)
  show ?thesis
    using child_index [of i n] False b assms(1-4) L [of "2 * i + 1 + 1" "2 * i + 1"] L [of "2 * i + 1 + 1" i] L [of "2 * i + 1" i]
    by (auto simp: heap_down_loop.simps [of _ d] Let_def)
qed

subsection \<open>Sifting up\<close>

lemma parent_index: "0 < j \<Longrightarrow> (j - 1) sdiv 2 = (j - 1) div 2 \<and> is_child j ((j - 1) div 2)
    \<and> 0 \<le> (j - 1) div 2 \<and> (j - 1) div 2 < (j :: int)"
  by (simp add: sdiv_2_nonneg is_child_def) presburger

lemma heap_up_ok:
  assumes "0 \<le> j" "j < n" "n \<le> int (length (elems d))" "heap_up_hole below (view d 0) n j"
  shows "\<exists>d'. heap_up data d j = Some d' \<and> heap_ok below (view d' 0) 0 n
           \<and> permutes_range 0 n (elems d) (elems d')"
  using assms
proof (induction "nat j" arbitrary: j d rule: less_induct)
  case less
  let ?v = "view d 0"
  show ?case
  proof (cases "j = 0")
    case True
    have "heap_ok below ?v 0 n"
      using less.prems(4) by (rule heap_up_hole_close) (use True in \<open>auto simp: is_child_def\<close>)
    then show ?thesis using True by (auto simp: heap_up.simps [of _ d] signed_divide_int_def)
  next
    case False
    define i where "i = (j - 1) div 2"
    have i: "(j - 1) sdiv 2 = i" "is_child j i" "0 \<le> i" "i < j"
      using parent_index [of j] False less.prems(1) unfolding i_def by auto
    have unfold: "heap_up data d j =
        (if \<not> lt (?v j) (?v i) then Some d else do { d \<leftarrow> Swap data d i j; heap_up data d i })"
      using i less.prems Less_view [of j i d] by (simp add: heap_up.simps [of _ d j] Let_def)
    show ?thesis
    proof (cases "lt (?v j) (?v i)")
      case False
      have "heap_ok below ?v 0 n"
        using less.prems(4)
        by (rule heap_up_hole_close) (use False i is_child_parent_unique in \<open>auto simp: below_def\<close>)
      then show ?thesis using False unfold by auto
    next
      case True
      obtain d1 where d1: "Swap data d i j = Some d1" "elems d1 = swap_at (elems d) (nat i) (nat j)"
          "\<And>k. 0 \<le> k \<Longrightarrow> k < int (length (elems d)) \<Longrightarrow> view d1 0 k = (?v(i := ?v j, j := ?v i)) k"
        using Swap_view0 [of i j d] i less.prems by auto
      have "heap_up_hole below (?v(i := ?v j, j := ?v i)) n i"
        using less.prems(2,4) i lt_asym [OF True] below_trans
        by (intro heap_up_hole_step) (auto simp: below_def)
      then have "heap_up_hole below (view d1 0) n i"
        by (rule heap_up_hole_cong) (use d1(3) less.prems i in auto)
      then obtain d2 where d2: "heap_up data d1 i = Some d2" "heap_ok below (view d2 0) 0 n"
          "permutes_range 0 n (elems d1) (elems d2)"
        using less.hyps [of i d1] i less.prems d1(2) by auto
      have "permutes_range 0 n (elems d) (elems d1)"
        unfolding d1(2) using i less.prems by (intro permutes_range_swap) auto
      then show ?thesis using True unfold d1 d2 by (auto intro: permutes_range_trans)
    qed
  qed
qed

lemma heap_ok_hole: "0 \<le> i \<Longrightarrow> heap_ok below v (i + 1) n \<Longrightarrow> heap_down_hole below v i n i"
  by (rule heap_down_hole_start)

lemma heap_Init_loop_ok:
  assumes "-1 \<le> i" "i < 2 ^ 63" "n \<le> int (length (elems d))" "length (elems d) < 2 ^ 63"
    "heap_ok below (view d 0) (i + 1) n"
  shows "\<exists>d'. heap_Init_loop data d n i = Some d' \<and> heap_ok below (view d' 0) 0 n
           \<and> mset (elems d') = mset (elems d)"
  using assms
proof (induction "nat (i + 1)" arbitrary: i d rule: less_induct)
  case less
  show ?case
  proof (cases "i \<ge> 0")
    case False
    then have "i = -1" using less.prems(1) by simp
    then show ?thesis using less.prems(5) by (simp add: heap_Init_loop.simps [of _ d])
  next
    case True
    obtain d1 i1 where d1: "heap_down_loop data d i n = Some (d1, i1)" "heap_ok below (view d1 0) i n"
        "permutes_range i n (elems d) (elems d1)"
      using heap_down_loop_ok [of i i n d] heap_ok_hole [OF True less.prems(5)] True less.prems by auto
    obtain d2 where "heap_Init_loop data d1 n (i - 1) = Some d2" "heap_ok below (view d2 0) 0 n"
        "mset (elems d2) = mset (elems d1)"
      using less.hyps [of "i - 1" d1] d1(2) permutes_range_length [OF d1(3)] True less.prems by auto
    then show ?thesis
      using True d1(1) permutes_range_mset [OF d1(3)] by (simp add: heap_Init_loop.simps [of _ d] heap_down_def)
  qed
qed

lemma Init_ok:
  assumes "length (elems d) < 2 ^ 63"
  shows "\<exists>d'. heap_Init data d = Some d' \<and> heap_valid d' \<and> mset (elems d') = mset (elems d)"
proof -
  let ?n = "int (length (elems d))"
  have "heap_ok below (view d 0) (?n div 2 - 1 + 1) ?n"
    unfolding heap_ok_def is_child_def by presburger
  then obtain d' where d': "heap_Init_loop data d ?n (?n div 2 - 1) = Some d'"
      "heap_ok below (view d' 0) 0 ?n" "mset (elems d') = mset (elems d)"
    using heap_Init_loop_ok [of "?n div 2 - 1" ?n d] assms by force
  moreover have "length (elems d') = length (elems d)" using d'(3) by (rule mset_eq_length)
  ultimately show ?thesis
    by (simp add: heap_Init_def Len_law Let_def sdiv_2_nonneg heap_valid_def)
qed

lemma Push_ok:
  assumes "heap_valid d"
  shows "\<exists>d'. heap_Push data d x = Some d' \<and> heap_valid d' \<and> mset (elems d') = add_mset x (mset (elems d))"
proof -
  let ?n = "int (length (elems d))"
  obtain d1 where d1: "Push_method data d x = Some d1" "elems d1 = elems d @ [x]" using Push_law by blast
  have same: "view d1 0 k = view d 0 k" if "0 \<le> k" "k < ?n" for k
    using that by (simp add: view_def d1(2) nth_append nat_less_iff)
  have "heap_ok below (view d1 0) 0 ?n"
    using assms heap_ok_cong [of 0 ?n "view d1 0" "view d 0" below] same unfolding heap_valid_def by auto
  then have "heap_up_hole below (view d1 0) (?n + 1) ?n"
    unfolding heap_up_hole_def heap_ok_def by (auto simp: is_child_def)
  then obtain d2 where d2: "heap_up data d1 ?n = Some d2" "heap_ok below (view d2 0) 0 (?n + 1)"
      "permutes_range 0 (?n + 1) (elems d1) (elems d2)"
    using heap_up_ok [of ?n "?n + 1" d1] d1(2) by auto
  then show ?thesis
    using d1 permutes_range_length [OF d2(3)] permutes_range_mset [OF d2(3)]
    by (auto simp: heap_Push_def Len_law heap_valid_def add.commute)
qed

text \<open>
  The element at \<open>i\<close> of a heap of \<open>n\<close> nodes was replaced by \<open>x\<close>. Down moves it when it is too large;
  if it does not move, up does.
\<close>

lemma mend_ok:
  assumes v: "heap_ok below v 0 n" and i: "0 \<le> i" "i < n" and n: "n \<le> int (length (elems d))" "length (elems d) < 2 ^ 63"
    and d: "\<And>k. 0 \<le> k \<Longrightarrow> k < n \<Longrightarrow> view d 0 k = (v(i := x)) k"
  shows "\<exists>d'. (do { (d, moved) \<leftarrow> heap_down data d i n; if \<not> moved then heap_up data d i else Some d }) = Some d'
    \<and> heap_ok below (view d' 0) 0 n \<and> permutes_range 0 n (elems d) (elems d')"
proof (cases "\<forall>p. 0 \<le> p \<longrightarrow> is_child i p \<longrightarrow> below (v p) x")
  case True
  have "heap_down_hole below (v(i := x)) 0 n i"
    by (rule heap_replace_down [OF v below_trans i]) (use True in auto)
  then have "heap_down_hole below (view d 0) 0 n i"
    by (rule heap_down_hole_cong) (use d i in auto)
  then obtain d1 i1 where d1: "heap_down_loop data d i n = Some (d1, i1)" "heap_ok below (view d1 0) 0 n"
      "permutes_range i n (elems d) (elems d1)"
    using heap_down_loop_ok [of 0 i n d] i n by auto
  have p1: "permutes_range 0 n (elems d) (elems d1)" by (rule permutes_range_mono [OF d1(3)]) (use i in auto)
  have "heap_up_hole below ((view d1 0)(i := view d1 0 i)) n i"
    by (rule heap_replace_up [OF d1(2) below_trans i]) (use d1(2) i heap_okD in auto)
  then obtain d2 where "heap_up data d1 i = Some d2" "heap_ok below (view d2 0) 0 n"
      "permutes_range 0 n (elems d1) (elems d2)"
    using heap_up_ok [of i n d1] i n(1) permutes_range_length [OF d1(3)] by auto
  then show ?thesis
    using d1 p1 permutes_range_trans by (cases "i1 > i") (auto simp: heap_down_def)
next
  case False
  then obtain p where p: "0 \<le> p" "is_child i p" "lt x (v p)" by (auto simp: below_def)
  have x: "below x (v c)" if c: "is_child c i" "c < n" for c
  proof -
    have "below (v p) (v i)" "below (v i) (v c)" using heap_okD [OF v] p i c by auto
    then have "below (v p) (v c)" by (rule below_trans)
    then show ?thesis using p(3) lt_asym [OF p(3)] below_trans [of x "v p" "v c"] by (auto simp: below_def)
  qed
  have "below (view d 0 i) (view d 0 c)" if "is_child c i" "c < n" for c
    using x [OF that] d i that is_child_gt [OF that(1) i(1)] by auto
  then have stay: "heap_down_loop data d i n = Some (d, i)"
    using heap_down_loop_stays [of i n d] i n by auto
  have "heap_up_hole below (v(i := x)) n i"
    by (rule heap_replace_up [OF v below_trans i]) (use x in auto)
  then have "heap_up_hole below (view d 0) n i"
    by (rule heap_up_hole_cong) (use d i in auto)
  then show ?thesis
    using heap_up_ok [of i n d] stay i n(1) by (auto simp: heap_down_def)
qed

lemma Fix_ok:
  assumes "heap_valid d" "0 \<le> i" "i < int (length (elems d))" "length (elems d) < 2 ^ 63"
    and "elems d1 = (elems d)[nat i := x]"
  shows "\<exists>d'. heap_Fix data d1 i = Some d' \<and> heap_valid d' \<and> mset (elems d') = mset (elems d1)"
proof -
  let ?n = "int (length (elems d))"
  have "view d1 0 k = ((view d 0)(i := x)) k" if "0 \<le> k" "k < ?n" for k
    using that assms(2,3,5) by (auto simp: view_def nth_list_update)
  then obtain d2 where d2: "(do { (d, moved) \<leftarrow> heap_down data d1 i ?n; if \<not> moved then heap_up data d i else Some d }) = Some d2"
      "heap_ok below (view d2 0) 0 ?n" "permutes_range 0 ?n (elems d1) (elems d2)"
    using mend_ok [OF assms(1) [unfolded heap_valid_def] assms(2,3), of d1 x] assms(4,5) by auto
  then show ?thesis
    using permutes_range_length [OF d2(3)] permutes_range_mset [OF d2(3)] assms(5)
    by (auto simp: heap_Fix_def Len_law heap_valid_def)
qed

text \<open>The last element of the collection is what the Pop method takes away.\<close>

lemma Pop_method_ok:
  assumes "heap_ok below (view d 0) 0 n" "0 \<le> n" "int (length (elems d)) = n + 1"
  shows "\<exists>d'. Pop_method data d = Some (elems d ! nat n, d') \<and> heap_valid d'
           \<and> mset (elems d) = add_mset (elems d ! nat n) (mset (elems d'))"
proof -
  have ne: "elems d \<noteq> []" using assms(2,3) by auto
  have "nat n = length (elems d) - 1" using assms(2,3) by auto
  then have last: "last (elems d) = elems d ! nat n" by (simp add: last_conv_nth [OF ne])
  obtain d' where d': "Pop_method data d = Some (last (elems d), d')" "elems d' = butlast (elems d)"
    using Pop_law [OF ne] by blast
  have len: "int (length (elems d')) = n" using assms(2,3) ne by (simp add: d'(2) of_nat_diff Suc_le_eq)
  have "view d' 0 k = view d 0 k" if "0 \<le> k" "k < n" for k
    using that len by (simp add: view_def d'(2) nth_butlast nat_less_iff)
  then have "heap_valid d'"
    using heap_ok_cong [of 0 n "view d' 0" "view d 0" below] assms(1) len by (auto simp: heap_valid_def)
  moreover have "mset (elems d) = add_mset (last (elems d)) (mset (elems d'))"
    using ne append_butlast_last_id [OF ne] d'(2) by (metis mset.simps(2) mset_append union_mset_add_mset_right add.right_neutral mset.simps(1))
  ultimately show ?thesis using d'(1) last by auto
qed

lemma Remove_ok:
  assumes "heap_valid d" "0 \<le> i" "i < int (length (elems d))" "length (elems d) < 2 ^ 63"
  shows "\<exists>d'. heap_Remove data d i = Some (elems d ! nat i, d') \<and> heap_valid d'
           \<and> mset (elems d) = add_mset (elems d ! nat i) (mset (elems d'))"
proof -
  let ?n = "int (length (elems d)) - 1" and ?v = "view d 0"
  have n: "0 \<le> ?n" "heap_ok below ?v 0 ?n"
    using assms(1,2,3) heap_ok_mono [of below ?v 0 _ 0 ?n] by (auto simp: heap_valid_def)
  show ?thesis
  proof (cases "?n = i")
    case True
    then show ?thesis using Pop_method_ok [OF n(2,1)] by (simp add: heap_Remove_def Len_law Let_def)
  next
    case False
    then have i: "i < ?n" using assms(3) by simp
    obtain d1 where d1: "Swap data d i ?n = Some d1" "elems d1 = swap_at (elems d) (nat i) (nat ?n)"
        "\<And>k. 0 \<le> k \<Longrightarrow> k < int (length (elems d)) \<Longrightarrow> view d1 0 k = (?v(i := ?v ?n, ?n := ?v i)) k"
      by (rule Swap_view0 [of i ?n d]) (use i assms(2) n(1) in auto)
    have "view d1 0 k = (?v(i := ?v ?n)) k" if "0 \<le> k" "k < ?n" for k
      using d1(3) that by simp
    then obtain d2 where d2: "(do { (d, moved) \<leftarrow> heap_down data d1 i ?n; if \<not> moved then heap_up data d i else Some d }) = Some d2"
        "heap_ok below (view d2 0) 0 ?n" "permutes_range 0 ?n (elems d1) (elems d2)"
      using mend_ok [OF n(2) assms(2) i, of d1 "?v ?n"] assms(4) d1(2) by auto
    have len2: "length (elems d2) = length (elems d)" using permutes_range_length [OF d2(3)] d1(2) by simp
    have "elems d2 ! nat ?n = elems d ! nat i"
      using permutes_range_out [OF d2(3), of ?n] d1(2) n(1) assms(2) i by (simp add: nth_swap_at nat_less_iff)
    moreover have "mset (elems d2) = mset (elems d)"
      using permutes_range_mset [OF d2(3)] d1(2) assms(2) i by (simp add: nat_less_iff)
    ultimately have "\<exists>d'. Pop_method data d2 = Some (elems d ! nat i, d') \<and> heap_valid d'
        \<and> mset (elems d) = add_mset (elems d ! nat i) (mset (elems d'))"
      using Pop_method_ok [OF d2(2) n(1)] len2 by simp
    moreover have "heap_Remove data d i = Pop_method data d2"
      using False d1(1) d2(1) by (auto simp: heap_Remove_def Len_law Let_def bind_eq_Some_conv split: prod.splits)
    ultimately show ?thesis by simp
  qed
qed

lemma heap_min:
  assumes "heap_valid d" "y \<in> set (elems d)"
  shows "\<not> lt y (elems d ! 0)"
proof -
  obtain k where k: "k < length (elems d)" "y = elems d ! k" using assms(2) by (auto simp: in_set_conv_nth)
  have "below (view d 0 0) (view d 0 (int k))"
    using assms(1) [unfolded heap_valid_def] below_refl below_trans by (rule heap_root) (use k in auto)
  then show ?thesis using k by (simp add: view_def below_def)
qed

lemma Pop_ok:
  assumes "heap_valid d" "elems d \<noteq> []" "length (elems d) < 2 ^ 63"
  shows "\<exists>x d'. heap_Pop data d = Some (x, d') \<and> heap_valid d'
           \<and> mset (elems d) = add_mset x (mset (elems d')) \<and> (\<forall>y \<in> set (elems d). \<not> lt y x)"
proof -
  let ?n = "int (length (elems d)) - 1" and ?v = "view d 0"
  have n: "0 \<le> ?n" "heap_ok below ?v 0 ?n"
    using assms(1,2) heap_ok_mono [of below ?v 0 _ 0 ?n] by (auto simp: heap_valid_def Suc_le_eq)
  obtain d1 where d1: "Swap data d 0 ?n = Some d1" "elems d1 = swap_at (elems d) 0 (nat ?n)"
      "\<And>k. 0 \<le> k \<Longrightarrow> k < int (length (elems d)) \<Longrightarrow> view d1 0 k = (?v(0 := ?v ?n, ?n := ?v 0)) k"
    using Swap_view0 [of 0 ?n d] n(1) by auto
  have "heap_down_hole below (view d1 0) 0 ?n 0"
  proof (cases "?n = 0")
    case True
    then show ?thesis by (auto simp: heap_down_hole_def is_child_def)
  next
    case False
    have "heap_down_hole below (?v(0 := ?v ?n)) 0 ?n 0"
    proof (rule heap_replace_down [OF n(2) below_trans])
      show "0 < ?n" using False n(1) by linarith
    qed (simp_all add: is_child_def)
    then show ?thesis by (rule heap_down_hole_cong) (use d1(3) in auto)
  qed
  then obtain d2 i2 where d2: "heap_down_loop data d1 0 ?n = Some (d2, i2)" "heap_ok below (view d2 0) 0 ?n"
      "permutes_range 0 ?n (elems d1) (elems d2)"
    using heap_down_loop_ok [of 0 0 ?n d1] d1(2) assms(3) by auto
  have len2: "length (elems d2) = length (elems d)" using permutes_range_length [OF d2(3)] d1(2) by simp
  have "elems d2 ! nat ?n = elems d ! 0"
    using permutes_range_out [OF d2(3), of ?n] d1(2) n(1) assms(2) by (simp add: nth_swap_at nat_less_iff)
  moreover have "mset (elems d2) = mset (elems d)"
    using permutes_range_mset [OF d2(3)] d1(2) n(1) assms(2) by (simp add: nat_less_iff)
  ultimately obtain d' where "Pop_method data d2 = Some (elems d ! 0, d')" "heap_valid d'"
      "mset (elems d) = add_mset (elems d ! 0) (mset (elems d'))"
    using Pop_method_ok [OF d2(2) n(1)] len2 by auto
  then show ?thesis
    using d1(1) d2(1) heap_min [OF assms(1)] by (auto simp: heap_Pop_def Len_law Let_def heap_down_def)
qed

end

subsection \<open>The ready queue of the go command\<close>

text \<open>
  An Action has many fields; the queue only reads its priority, so the record is open: its extension
  holds the rest. Push and pop of the queue are what the scheduler calls; the time stamp that push writes
  into the JSON log record of the action, when there is one, is not part of the model.
\<close>

record action =
  priority :: int

definition actionQueue_Push :: "'m action_scheme list \<Rightarrow> 'm action_scheme \<Rightarrow> 'm action_scheme list option" where
  "actionQueue_Push q x = Some (q @ [x])"

definition actionQueue_Pop :: "'m action_scheme list \<Rightarrow> ('m action_scheme \<times> 'm action_scheme list) option" where
  "actionQueue_Pop q =
     (let n = int (length q) - 1 in do { x \<leftarrow> idx q n; Some (x, take (nat n) q) })"

definition actionQueue :: "('m action_scheme list, 'm action_scheme) heap_ops" where
  "actionQueue = \<lparr> Len = (\<lambda>q. int (length q)),
     Less = (\<lambda>q i j. do { v \<leftarrow> idx q i; w \<leftarrow> idx q j; Some (priority v < priority w) }),
     Swap = slice_Swap, Push_method = actionQueue_Push, Pop_method = actionQueue_Pop \<rparr>"

definition actionQueue_push :: "'m action_scheme list \<Rightarrow> 'm action_scheme \<Rightarrow> 'm action_scheme list option" where
  "actionQueue_push q a = heap_Push actionQueue q a"

definition actionQueue_pop :: "'m action_scheme list \<Rightarrow> ('m action_scheme \<times> 'm action_scheme list) option" where
  "actionQueue_pop q = heap_Pop actionQueue q"

lemma nat_pred: "nat (int n - 1) = n - Suc 0"
  by (cases n) simp_all

interpretation actions: heap_interface "\<lambda>v w. priority v < priority w" actionQueue "\<lambda>q. q"
proof
  show "q \<noteq> [] \<Longrightarrow> \<exists>q'. Pop_method actionQueue q = Some (last q, q') \<and> q' = butlast q" for q :: "'a action_scheme list"
    by (simp add: actionQueue_def actionQueue_Pop_def Let_def idx_def nat_pred last_conv_nth butlast_conv_take)
qed (simp_all add: actionQueue_def actionQueue_Push_def slice_Swap_law)

subsection \<open>The heap invariant and the operations\<close>

text \<open>The invariant of the documentation of Interface, over the indices of the collection.\<close>

definition min_heap :: "('x \<Rightarrow> 'x \<Rightarrow> bool) \<Rightarrow> 'x list \<Rightarrow> bool" where
  "min_heap lt xs \<longleftrightarrow>
     (\<forall>i < length xs. \<forall>j < length xs. 2 * i + 1 \<le> j \<and> j \<le> 2 * i + 2 \<longrightarrow> \<not> lt (xs ! j) (xs ! i))"

context heap_interface
begin

lemma heap_valid_iff: "heap_valid d \<longleftrightarrow> min_heap lt (elems d)"
proof
  assume v: "heap_valid d"
  show "min_heap lt (elems d)"
    unfolding min_heap_def
  proof (intro allI impI, elim conjE)
    fix i j assume ij: "i < length (elems d)" "j < length (elems d)" "2 * i + 1 \<le> j" "j \<le> 2 * i + 2"
    then have "is_child (int j) (int i)" by (auto simp: is_child_def)
    then have "below (view d 0 (int i)) (view d 0 (int j))"
      using heap_okD [OF v [unfolded heap_valid_def], of "int i" "int j"] ij by simp
    then show "\<not> lt (elems d ! j) (elems d ! i)" by (simp add: below_def view_def)
  qed
next
  assume m: "min_heap lt (elems d)"
  show "heap_valid d"
    unfolding heap_valid_def heap_ok_def
  proof (intro allI impI, elim conjE)
    fix i c :: int assume ic: "0 \<le> i" "is_child c i" "c < int (length (elems d))"
    then have "nat i < length (elems d)" "nat c < length (elems d)" "2 * nat i + 1 \<le> nat c" "nat c \<le> 2 * nat i + 2"
      by (auto simp: is_child_def)
    then have "\<not> lt (elems d ! nat c) (elems d ! nat i)"
      using m unfolding min_heap_def by blast
    then show "below (view d 0 i) (view d 0 c)" by (simp add: below_def view_def)
  qed
qed

end

text \<open>
  Heap.Init. Init turns any collection into a heap of the same elements.
\<close>

theorem heap_Init_correct:
  assumes "heap_interface lt data elems" "length (elems d) < 2 ^ 63"
  shows "\<exists>d'. heap_Init data d = Some d' \<and> min_heap lt (elems d') \<and> mset (elems d') = mset (elems d)"
  using heap_interface.Init_ok [OF assms] unfolding heap_interface.heap_valid_iff [OF assms(1)] .

lemma heap_Init_correct_witness:
  "\<exists>d'. heap_Init actionQueue [\<lparr>priority = 3\<rparr>, \<lparr>priority = 1\<rparr>] = Some d' \<and> min_heap (\<lambda>v w. priority v < priority w) d'
    \<and> mset d' = {#\<lparr>priority = 3\<rparr>, \<lparr>priority = 1\<rparr>#}"
  using heap_Init_correct [OF actions.heap_interface_axioms, of "[\<lparr>priority = 3\<rparr>, \<lparr>priority = 1\<rparr>]"] by simp

text \<open>
  Heap.Push. Push adds one element to a heap and keeps it a heap.
\<close>

theorem heap_Push_correct:
  assumes "heap_interface lt data elems" "min_heap lt (elems d)"
  shows "\<exists>d'. heap_Push data d x = Some d' \<and> min_heap lt (elems d') \<and> mset (elems d') = add_mset x (mset (elems d))"
  using heap_interface.Push_ok [OF assms(1)] assms(2) unfolding heap_interface.heap_valid_iff [OF assms(1)] by blast

lemma heap_Push_correct_witness:
  "\<exists>d'. heap_Push actionQueue [\<lparr>priority = 3\<rparr>] \<lparr>priority = 1\<rparr> = Some d' \<and> min_heap (\<lambda>v w. priority v < priority w) d'
    \<and> mset d' = {#\<lparr>priority = 1\<rparr>, \<lparr>priority = 3\<rparr>#}"
  using heap_Push_correct [OF actions.heap_interface_axioms, of "[\<lparr>priority = 3\<rparr>]" "\<lparr>priority = 1\<rparr>"]
  by (simp add: min_heap_def)

text \<open>
  C12 (heap.Pop). Pop of a non-empty heap returns a least element, removes exactly it and leaves a heap.
\<close>

theorem heap_Pop_correct:
  assumes "heap_interface lt data elems" "min_heap lt (elems d)" "elems d \<noteq> []" "length (elems d) < 2 ^ 63"
  shows "\<exists>x d'. heap_Pop data d = Some (x, d') \<and> min_heap lt (elems d')
           \<and> mset (elems d) = add_mset x (mset (elems d')) \<and> (\<forall>y \<in> set (elems d). \<not> lt y x)"
  using heap_interface.Pop_ok [OF assms(1) _ assms(3,4)] assms(2)
  unfolding heap_interface.heap_valid_iff [OF assms(1)] .

lemma heap_Pop_correct_witness:
  "\<exists>x d'. heap_Pop actionQueue [\<lparr>priority = 1\<rparr>, \<lparr>priority = 3\<rparr>] = Some (x, d') \<and> min_heap (\<lambda>v w. priority v < priority w) d'
    \<and> {#\<lparr>priority = 1\<rparr>, \<lparr>priority = 3\<rparr>#} = add_mset x (mset d')
    \<and> (\<forall>y \<in> set [\<lparr>priority = 1\<rparr>, \<lparr>priority = 3\<rparr>]. \<not> priority y < priority x)"
  using heap_Pop_correct [OF actions.heap_interface_axioms, of "[\<lparr>priority = 1\<rparr>, \<lparr>priority = 3\<rparr>]"]
  by (simp add: min_heap_def less_Suc_eq all_conj_distrib)

text \<open>
  Heap.Remove. Remove of an index in range returns the element that stood there, removes exactly it and
  leaves a heap, whether the element that takes its place has to move down or up.
\<close>

theorem heap_Remove_correct:
  assumes "heap_interface lt data elems" "min_heap lt (elems d)"
    and "0 \<le> i" "i < int (length (elems d))" "length (elems d) < 2 ^ 63"
  shows "\<exists>d'. heap_Remove data d i = Some (elems d ! nat i, d') \<and> min_heap lt (elems d')
           \<and> mset (elems d) = add_mset (elems d ! nat i) (mset (elems d'))"
  using heap_interface.Remove_ok [OF assms(1) _ assms(3-5)] assms(2)
  unfolding heap_interface.heap_valid_iff [OF assms(1)] .

lemma heap_Remove_correct_witness:
  "\<exists>d'. heap_Remove actionQueue [\<lparr>priority = 1\<rparr>, \<lparr>priority = 3\<rparr>, \<lparr>priority = 2\<rparr>] 1 = Some (\<lparr>priority = 3\<rparr>, d')
    \<and> min_heap (\<lambda>v w. priority v < priority w) d'
    \<and> {#\<lparr>priority = 1\<rparr>, \<lparr>priority = 3\<rparr>, \<lparr>priority = 2\<rparr>#} = add_mset \<lparr>priority = 3\<rparr> (mset d')"
  using heap_Remove_correct [OF actions.heap_interface_axioms, of "[\<lparr>priority = 1\<rparr>, \<lparr>priority = 3\<rparr>, \<lparr>priority = 2\<rparr>]" 1]
  by (simp add: min_heap_def less_Suc_eq all_conj_distrib)

text \<open>
  Heap.Fix. After the element at one index of a heap was given any new value, Fix makes it a heap
  again, with the same elements.
\<close>

theorem heap_Fix_correct:
  assumes "heap_interface lt data elems" "min_heap lt (elems d)"
    and "0 \<le> i" "i < int (length (elems d))" "length (elems d) < 2 ^ 63"
    and "elems d1 = (elems d)[nat i := x]"
  shows "\<exists>d'. heap_Fix data d1 i = Some d' \<and> min_heap lt (elems d') \<and> mset (elems d') = mset (elems d1)"
  using heap_interface.Fix_ok [OF assms(1) _ assms(3-6)] assms(2)
  unfolding heap_interface.heap_valid_iff [OF assms(1)] .

lemma heap_Fix_correct_witness:
  "\<exists>d'. heap_Fix actionQueue [\<lparr>priority = 1\<rparr>, \<lparr>priority = 0\<rparr>] 1 = Some d'
    \<and> min_heap (\<lambda>v w. priority v < priority w) d' \<and> mset d' = {#\<lparr>priority = 1\<rparr>, \<lparr>priority = 0\<rparr>#}"
  using heap_Fix_correct [OF actions.heap_interface_axioms, of "[\<lparr>priority = 1\<rparr>, \<lparr>priority = 3\<rparr>]" 1
      "[\<lparr>priority = 1\<rparr>, \<lparr>priority = 0\<rparr>]" "\<lparr>priority = 0\<rparr>"]
  by (simp add: min_heap_def less_Suc_eq all_conj_distrib)

subsection \<open>The ready queue as a priority queue\<close>

text \<open>
  A history of the queue is a list of pushes and pops. The queue runs it and collects what the pops
  return; a pop of the empty queue panics. The specification is a bag of actions, from which a pop may
  take any element of least priority.
\<close>

datatype 'm queue_op = QPush "'m action_scheme" | QPop

fun queue_run :: "'m queue_op list \<Rightarrow> 'm action_scheme list \<Rightarrow> 'm action_scheme list option" where
  "queue_run [] q = Some []"
| "queue_run (QPush a # ops) q = do { q \<leftarrow> actionQueue_push q a; queue_run ops q }"
| "queue_run (QPop # ops) q = do { (a, q) \<leftarrow> actionQueue_pop q; out \<leftarrow> queue_run ops q; Some (a # out) }"

fun bag_allows :: "'m queue_op list \<Rightarrow> 'm action_scheme multiset \<Rightarrow> 'm action_scheme list \<Rightarrow> bool" where
  "bag_allows [] M out \<longleftrightarrow> out = []"
| "bag_allows (QPush a # ops) M out \<longleftrightarrow> bag_allows ops (add_mset a M) out"
| "bag_allows (QPop # ops) M [] \<longleftrightarrow> False"
| "bag_allows (QPop # ops) M (a # out) \<longleftrightarrow>
     a \<in># M \<and> (\<forall>b \<in># M. priority a \<le> priority b) \<and> bag_allows ops (M - {#a#}) out"

text \<open>No prefix of the history pops more often than it pushes, from a queue of \<open>n\<close> actions.\<close>

fun never_underflows :: "'m queue_op list \<Rightarrow> nat \<Rightarrow> bool" where
  "never_underflows [] n \<longleftrightarrow> True"
| "never_underflows (QPush a # ops) n \<longleftrightarrow> never_underflows ops (Suc n)"
| "never_underflows (QPop # ops) n \<longleftrightarrow> n > 0 \<and> never_underflows ops (n - 1)"

lemma queue_run_ok:
  assumes "min_heap (\<lambda>v w. priority v < priority w) q" "length q + length ops < 2 ^ 63"
  shows "if never_underflows ops (length q) then \<exists>out. queue_run ops q = Some out \<and> bag_allows ops (mset q) out
    else queue_run ops q = None"
  using assms
proof (induction ops arbitrary: q)
  case (Cons oper ops)
  show ?case
  proof (cases oper)
    case (QPush a)
    obtain q' where q': "heap_Push actionQueue q a = Some q'" "min_heap (\<lambda>v w. priority v < priority w) q'"
        "mset q' = add_mset a (mset q)"
      using actions.Push_ok [of q a] Cons.prems(1) unfolding actions.heap_valid_iff by blast
    have "length q' = Suc (length q)" using q'(3) by (metis size_mset size_add_mset)
    then show ?thesis
      using Cons.IH [OF q'(2)] Cons.prems(2) q' QPush by (simp add: actionQueue_push_def split: if_splits)
  next
    case QPop
    show ?thesis
    proof (cases "q = []")
      case True
      then show ?thesis
        using QPop by (simp add: actionQueue_pop_def heap_Pop_def actionQueue_def slice_Swap_def idx_def Let_def)
    next
      case False
      obtain a q' where q': "heap_Pop actionQueue q = Some (a, q')" "min_heap (\<lambda>v w. priority v < priority w) q'"
          "mset q = add_mset a (mset q')" "\<forall>b \<in> set q. \<not> priority b < priority a"
        using actions.Pop_ok [of q] Cons.prems False unfolding actions.heap_valid_iff by auto
      have len: "length q = Suc (length q')" using q'(3) by (metis size_mset size_add_mset)
      have min: "\<forall>b \<in># mset q. priority a \<le> priority b" using q'(4) by (auto simp: not_less)
      show ?thesis
        using Cons.IH [OF q'(2)] Cons.prems(2) q'(1,3) len min QPop
        by (auto simp: actionQueue_pop_def)
    qed
  qed
qed simp

text \<open>
  C13 (actionQueue). The heap-backed ready queue refines the bag of actions: a history that never pops the empty
  queue returns, and hands out the actions as a priority queue may.
\<close>

theorem actionQueue_refines_bag:
  assumes "never_underflows ops 0" "length ops < 2 ^ 63"
  shows "\<exists>out. queue_run ops [] = Some out \<and> bag_allows ops {#} out"
  using queue_run_ok [of "[]" ops] assms by (simp add: min_heap_def)

lemma actionQueue_refines_bag_witness:
  "\<exists>out. queue_run [QPush \<lparr>priority = 5\<rparr>, QPush \<lparr>priority = 2\<rparr>, QPop, QPush \<lparr>priority = 3\<rparr>, QPop] [] = Some out
    \<and> bag_allows [QPush \<lparr>priority = 5\<rparr>, QPush \<lparr>priority = 2\<rparr>, QPop, QPush \<lparr>priority = 3\<rparr>, QPop] {#} out"
  by (rule actionQueue_refines_bag) simp_all

end
