(* ===== verification/Utf8.thy ===== *)
theory Utf8
  imports Go_Prelude
begin

text \<open>
  \<^verbatim>\<open>unicode/utf8/utf8.go\<close>. A rune is Go's \<open>int32\<close>, kept as a 32-bit word and read with the signed
  comparisons; byte slices and strings are both lists of bytes. Every index into a slice is checked, so
  that a result \<^term>\<open>Some r\<close> also says that no index was out of range.
\<close>

subsection \<open>Constants and tables\<close>

type_synonym rune = "32 word"

abbreviation (input) RuneError :: rune where "RuneError \<equiv> 0xFFFD"
abbreviation (input) MaxRune :: rune where "MaxRune \<equiv> 0x10FFFF"
abbreviation (input) RuneSelf :: "'a::numeral" where "RuneSelf \<equiv> 0x80"
abbreviation (input) utf8_locb :: byte where "utf8_locb \<equiv> 0x80"
abbreviation (input) utf8_hicb :: byte where "utf8_hicb \<equiv> 0xBF"
abbreviation (input) utf8_xx :: byte where "utf8_xx \<equiv> 0xF1"
abbreviation (input) utf8_as :: byte where "utf8_as \<equiv> 0xF0"

definition utf8_first :: "byte list" where
  "utf8_first =
     replicate 0x80 utf8_as @ replicate 0x40 utf8_xx @
     replicate 2 utf8_xx @ replicate 30 0x02 @
     [0x13] @ replicate 12 0x03 @ [0x23] @ replicate 2 0x03 @
     [0x34] @ replicate 3 0x04 @ [0x44] @ replicate 11 utf8_xx"

record acceptRange =
  accept_lo :: byte
  accept_hi :: byte

definition acceptRanges :: "acceptRange list" where
  "acceptRanges =
     [\<lparr>accept_lo = utf8_locb, accept_hi = utf8_hicb\<rparr>, \<lparr>accept_lo = 0xA0, accept_hi = utf8_hicb\<rparr>,
      \<lparr>accept_lo = utf8_locb, accept_hi = 0x9F\<rparr>, \<lparr>accept_lo = 0x90, accept_hi = utf8_hicb\<rparr>,
      \<lparr>accept_lo = utf8_locb, accept_hi = 0x8F\<rparr>] @ replicate 11 \<lparr>accept_lo = 0, accept_hi = 0\<rparr>"

subsection \<open>Operations\<close>

definition FullRune :: "byte list \<Rightarrow> bool option" where
  "FullRune p =
     (let n = int (length p) in
      if n = 0 then Some False
      else do {
        p0 \<leftarrow> idx p 0;
        let x = utf8_first ! unat p0;
        if n \<ge> uint (x AND 7) then Some True
        else do {
          let accept = acceptRanges ! unat (drop_bit 4 x);
          bad1 \<leftarrow> (if n > 1 then do { p1 \<leftarrow> idx p 1; Some (p1 < accept_lo accept \<or> accept_hi accept < p1) }
                  else Some False);
          if bad1 then Some True
          else do {
            bad2 \<leftarrow> (if n > 2 then do { p2 \<leftarrow> idx p 2; Some (p2 < utf8_locb \<or> utf8_hicb < p2) }
                    else Some False);
            Some bad2
          }
        }
      })"

definition DecodeRune :: "byte list \<Rightarrow> (rune \<times> int) option" where
  "DecodeRune p =
     (let n = int (length p) in
      if n < 1 then Some (RuneError, 0)
      else do {
        p0 \<leftarrow> idx p 0;
        let x = utf8_first ! unat p0;
        if x \<ge> utf8_as then
          (let mask = signed_drop_bit 31 (push_bit 31 (ucast x :: rune)) in
           Some ((ucast p0 AND NOT mask) OR (RuneError AND mask), 1))
        else do {
          let sz = uint (x AND 7);
          let accept = acceptRanges ! unat (drop_bit 4 x);
          if n < sz then Some (RuneError, 1)
          else do {
            b1 \<leftarrow> idx p 1;
            if b1 < accept_lo accept \<or> accept_hi accept < b1 then Some (RuneError, 1)
            else if sz \<le> 2 then
              Some (push_bit 6 (ucast (p0 AND 0x1F)) OR ucast (b1 AND 0x3F), 2)
            else do {
              b2 \<leftarrow> idx p 2;
              if b2 < utf8_locb \<or> utf8_hicb < b2 then Some (RuneError, 1)
              else if sz \<le> 3 then
                Some (push_bit 12 (ucast (p0 AND 0x0F)) OR push_bit 6 (ucast (b1 AND 0x3F)) OR ucast (b2 AND 0x3F), 3)
              else do {
                b3 \<leftarrow> idx p 3;
                if b3 < utf8_locb \<or> utf8_hicb < b3 then Some (RuneError, 1)
                else Some (push_bit 18 (ucast (p0 AND 0x07)) OR push_bit 12 (ucast (b1 AND 0x3F))
                       OR push_bit 6 (ucast (b2 AND 0x3F)) OR ucast (b3 AND 0x3F), 4)
              }
            }
          }
        }
      })"

definition RuneStart :: "byte \<Rightarrow> bool" where
  "RuneStart b \<longleftrightarrow> b AND 0xC0 \<noteq> 0x80"

text \<open>The loop that looks backwards for the start of the last rune.\<close>

partial_function (option) DecodeLastRune_loop :: "byte list \<Rightarrow> int \<Rightarrow> int \<Rightarrow> int option" where
  "DecodeLastRune_loop p lim start =
     (if start \<ge> lim then
        do { b \<leftarrow> idx p start; if RuneStart b then Some start else DecodeLastRune_loop p lim (start - 1) }
      else Some start)"

definition DecodeLastRune :: "byte list \<Rightarrow> (rune \<times> int) option" where
  "DecodeLastRune p =
     (let end' = int (length p) in
      if end' = 0 then Some (RuneError, 0)
      else do {
        let start = end' - 1;
        b \<leftarrow> idx p start;
        let r = (ucast b :: rune);
        if r <s RuneSelf then Some (r, 1)
        else do {
          let lim = end' - 4;
          let lim = (if lim < 0 then 0 else lim);
          start \<leftarrow> DecodeLastRune_loop p lim (start - 1);
          let start = (if start < 0 then 0 else start);
          (r, size) \<leftarrow> DecodeRune (drop (nat start) p);
          if start + size \<noteq> end' then Some (RuneError, 1) else Some (r, size)
        }
      })"

definition RuneLen :: "rune \<Rightarrow> int" where
  "RuneLen r =
     (if r <s 0 then -1
      else if r \<le>s 0x7F then 1
      else if r \<le>s 0x7FF then 2
      else if 0xD800 \<le>s r \<and> r \<le>s 0xDFFF then -1
      else if r \<le>s 0xFFFF then 3
      else if r \<le>s MaxRune then 4
      else -1)"

text \<open>The two long cases of EncodeRune; the out-of-range case falls through to the first with RuneError.\<close>

definition EncodeRune3 :: "byte list \<Rightarrow> rune \<Rightarrow> (byte list \<times> int) option" where
  "EncodeRune3 p r =
     do {
       _ \<leftarrow> idx p 2;
       p \<leftarrow> upd p 0 (0xE0 OR ucast (signed_drop_bit 12 r));
       p \<leftarrow> upd p 1 (0x80 OR (ucast (signed_drop_bit 6 r) AND 0x3F));
       p \<leftarrow> upd p 2 (0x80 OR (ucast r AND 0x3F));
       Some (p, 3)
     }"

definition EncodeRune :: "byte list \<Rightarrow> rune \<Rightarrow> (byte list \<times> int) option" where
  "EncodeRune p r =
     (let i = (r :: uint32) in
      if i \<le> 0x7F then do { p \<leftarrow> upd p 0 (ucast r); Some (p, 1) }
      else if i \<le> 0x7FF then
        do {
          _ \<leftarrow> idx p 1;
          p \<leftarrow> upd p 0 (0xC0 OR ucast (signed_drop_bit 6 r));
          p \<leftarrow> upd p 1 (0x80 OR (ucast r AND 0x3F));
          Some (p, 2)
        }
      else if i > MaxRune \<or> (0xD800 \<le> i \<and> i \<le> 0xDFFF) then EncodeRune3 p RuneError
      else if i \<le> 0xFFFF then EncodeRune3 p r
      else
        do {
          _ \<leftarrow> idx p 3;
          p \<leftarrow> upd p 0 (0xF0 OR ucast (signed_drop_bit 18 r));
          p \<leftarrow> upd p 1 (0x80 OR (ucast (signed_drop_bit 12 r) AND 0x3F));
          p \<leftarrow> upd p 2 (0x80 OR (ucast (signed_drop_bit 6 r) AND 0x3F));
          p \<leftarrow> upd p 3 (0x80 OR (ucast r AND 0x3F));
          Some (p, 4)
        })"

partial_function (option) RuneCount_loop :: "byte list \<Rightarrow> int \<Rightarrow> int \<Rightarrow> int \<Rightarrow> int option" where
  "RuneCount_loop p np i n =
     (if i < np then
        do {
          let n = n + 1;
          c \<leftarrow> idx p i;
          if c < RuneSelf then RuneCount_loop p np (i + 1) n
          else do {
            let x = utf8_first ! unat c;
            if x = utf8_xx then RuneCount_loop p np (i + 1) n
            else do {
              let size = uint (x AND 7);
              if i + size > np then RuneCount_loop p np (i + 1) n
              else do {
                let accept = acceptRanges ! unat (drop_bit 4 x);
                c \<leftarrow> idx p (i + 1);
                size \<leftarrow>
                  (if c < accept_lo accept \<or> accept_hi accept < c then Some 1
                   else if size = 2 then Some size
                   else do {
                     c \<leftarrow> idx p (i + 2);
                     if c < utf8_locb \<or> utf8_hicb < c then Some 1
                     else if size = 3 then Some size
                     else do { c \<leftarrow> idx p (i + 3); Some (if c < utf8_locb \<or> utf8_hicb < c then 1 else size) }
                   });
                RuneCount_loop p np (i + size) n
              }
            }
          }
        }
      else Some n)"

definition RuneCount :: "byte list \<Rightarrow> int option" where
  "RuneCount p = RuneCount_loop p (int (length p)) 0 0"

text \<open>The fast path of Valid drops ASCII bytes eight at a time.\<close>

definition load32 :: "byte list \<Rightarrow> nat \<Rightarrow> uint32" where
  "load32 p k = ucast (p ! k) OR push_bit 8 (ucast (p ! (k + 1))) OR push_bit 16 (ucast (p ! (k + 2)))
     OR push_bit 24 (ucast (p ! (k + 3)))"

function Valid_fast :: "byte list \<Rightarrow> byte list" where
  "Valid_fast p =
     (if length p \<ge> 8 then
        (let first32 = load32 p 0; second32 = load32 p 4 in
         if (first32 OR second32) AND 0x80808080 \<noteq> 0 then p else Valid_fast (drop 8 p))
      else p)"
  by pat_completeness auto
termination
  by (relation "measure length") auto

declare Valid_fast.simps [simp del]

partial_function (option) Valid_loop :: "byte list \<Rightarrow> int \<Rightarrow> int \<Rightarrow> bool option" where
  "Valid_loop p n i =
     (if i < n then
        do {
          pi \<leftarrow> idx p i;
          if pi < RuneSelf then Valid_loop p n (i + 1)
          else do {
            let x = utf8_first ! unat pi;
            if x = utf8_xx then Some False
            else do {
              let size = uint (x AND 7);
              if i + size > n then Some False
              else do {
                let accept = acceptRanges ! unat (drop_bit 4 x);
                c \<leftarrow> idx p (i + 1);
                if c < accept_lo accept \<or> accept_hi accept < c then Some False
                else if size = 2 then Valid_loop p n (i + size)
                else do {
                  c \<leftarrow> idx p (i + 2);
                  if c < utf8_locb \<or> utf8_hicb < c then Some False
                  else if size = 3 then Valid_loop p n (i + size)
                  else do {
                    c \<leftarrow> idx p (i + 3);
                    if c < utf8_locb \<or> utf8_hicb < c then Some False else Valid_loop p n (i + size)
                  }
                }
              }
            }
          }
        }
      else Some True)"

definition Valid :: "byte list \<Rightarrow> bool option" where
  "Valid p = (let p = Valid_fast p; n = int (length p) in Valid_loop p n 0)"

definition ValidRune :: "rune \<Rightarrow> bool" where
  "ValidRune r \<longleftrightarrow> (0 \<le>s r \<and> r <s 0xD800) \<or> (0xDFFF <s r \<and> r \<le>s MaxRune)"

declare DecodeLastRune_loop.simps [code] RuneCount_loop.simps [code] Valid_loop.simps [code]

subsection \<open>Well-formed sequences\<close>

text \<open>
  The specification: the table of well-formed byte sequences of the Unicode standard (Table 3-7), and the
  scalar value of such a sequence.
\<close>

definition cont_byte :: "byte \<Rightarrow> bool" where
  "cont_byte b \<longleftrightarrow> 0x80 \<le> uint b \<and> uint b \<le> 0xBF"

fun well_formed :: "byte list \<Rightarrow> bool" where
  "well_formed [a] \<longleftrightarrow> uint a < 0x80"
| "well_formed [a, b] \<longleftrightarrow> 0xC2 \<le> uint a \<and> uint a \<le> 0xDF \<and> cont_byte b"
| "well_formed [a, b, c] \<longleftrightarrow> 0xE0 \<le> uint a \<and> uint a \<le> 0xEF \<and> cont_byte b \<and> cont_byte c
     \<and> (uint a = 0xE0 \<longrightarrow> 0xA0 \<le> uint b) \<and> (uint a = 0xED \<longrightarrow> uint b \<le> 0x9F)"
| "well_formed [a, b, c, d] \<longleftrightarrow> 0xF0 \<le> uint a \<and> uint a \<le> 0xF4 \<and> cont_byte b \<and> cont_byte c \<and> cont_byte d
     \<and> (uint a = 0xF0 \<longrightarrow> 0x90 \<le> uint b) \<and> (uint a = 0xF4 \<longrightarrow> uint b \<le> 0x8F)"
| "well_formed _ \<longleftrightarrow> False"

fun scalar_value :: "byte list \<Rightarrow> int" where
  "scalar_value [a] = uint a"
| "scalar_value [a, b] = (uint a mod 32) * 64 + uint b mod 64"
| "scalar_value [a, b, c] = (uint a mod 16) * 4096 + (uint b mod 64) * 64 + uint c mod 64"
| "scalar_value [a, b, c, d] =
     (uint a mod 8) * 262144 + (uint b mod 64) * 4096 + (uint c mod 64) * 64 + uint d mod 64"
| "scalar_value _ = 0"

lemma utf8_first_nth:
  fixes b :: byte
  shows "utf8_first ! unat b = (if b < 0x80 then 0xF0 else if b < 0xC2 then 0xF1 else if b < 0xE0 then 2
     else if b = 0xE0 then 0x13 else if b < 0xED then 3 else if b = 0xED then 0x23 else if b < 0xF0 then 3
     else if b = 0xF0 then 0x34 else if b < 0xF4 then 4 else if b = 0xF4 then 0x44 else 0xF1)"
proof -
  have "unat b < 256" using unsigned_less [of b] by simp
  then consider "unat b < 128" | "128 \<le> unat b" "unat b < 192" | "192 \<le> unat b" "unat b < 194"
    | "194 \<le> unat b" "unat b < 224" | "unat b = 224" | "225 \<le> unat b" "unat b < 237" | "unat b = 237"
    | "238 \<le> unat b" "unat b < 240" | "unat b = 240" | "241 \<le> unat b" "unat b < 244" | "unat b = 244"
    | "245 \<le> unat b" "unat b < 256" by linarith
  then show ?thesis
    by cases (simp_all add: utf8_first_def nth_append nth_Cons' word_less_nat_alt word_unat_eq_iff, presburger+)
qed

lemma uint_rune_byte: "uint (ucast (r::rune) :: byte) = uint r mod 256"
  by (simp add: unsigned_ucast_eq take_bit_eq_mod)

lemma uint_byte_rune: "uint (ucast (b::byte) :: rune) = uint b"
  using uint_byte [of b] by (simp add: unsigned_ucast_eq take_bit_int_eq_self)

lemma sint_rune: "uint (r::rune) < 2 ^ 31 \<Longrightarrow> sint r = uint r"
  using signed_take_bit_int_eq_self [of 31 "uint r"] by (simp add: sint_uint order.trans [of _ 0])

lemma uint_signed_drop_bit_rune:
  assumes "uint (r::rune) < 2 ^ 31"
  shows "uint (signed_drop_bit k r) = uint r div 2 ^ k"
proof -
  have "uint (signed_drop_bit k r) = take_bit 32 (sint (signed_drop_bit k r))"
    using uint_sint [of "signed_drop_bit k r"] by simp
  also have "\<dots> = take_bit 32 (uint r div 2 ^ k)"
    by (simp add: sint_signed_drop_bit_eq sint_rune [OF assms] drop_bit_eq_div)
  also have "\<dots> = uint r div 2 ^ k"
  proof (rule take_bit_int_eq_self)
    show "uint r div 2 ^ k < 2 ^ 32" using int_div_le_self [of "uint r" "2 ^ k"] assms by simp
    show "0 \<le> uint r div 2 ^ k" by (simp add: pos_imp_zdiv_nonneg_iff)
  qed
  finally show ?thesis .
qed

lemma sless_numeral_rune:
  assumes "uint (r::rune) < 2 ^ 31" "uint n < 2 ^ 31"
  shows "(r <s n) = (uint r < uint n)" "(n <s r) = (uint n < uint r)"
    "(r \<le>s n) = (uint r \<le> uint n)" "(n \<le>s r) = (uint n \<le> uint r)"
  using assms by (simp_all add: word_sless_alt word_sle_eq sint_rune)

lemma sint_rune_if: "sint (r::rune) = (if uint r < 2 ^ 31 then uint r else uint r - 2 ^ 32)"
proof (cases "uint r < 2 ^ 31")
  case False
  have u: "uint r < 2 ^ 32" using unsigned_less [of r, where 'a = int] by simp
  have "sint r = signed_take_bit 31 (uint r)" by (simp add: sint_uint)
  also have "\<dots> = signed_take_bit 31 (uint r - 2 ^ 32)"
    unfolding signed_take_bit_eq_iff_take_bit_eq by (simp add: take_bit_eq_mod)
  also have "\<dots> = uint r - 2 ^ 32" using False u by (intro signed_take_bit_int_eq_self) auto
  finally show ?thesis using False by simp
qed (simp add: sint_rune)

lemma uint_rune_bound: "uint (r::rune) < 2 ^ 32"
  using unsigned_less [of r, where 'a = int] by simp

lemma ValidRune_iff: "ValidRune r \<longleftrightarrow> uint r < 0xD800 \<or> (0xDFFF < uint r \<and> uint r \<le> 0x10FFFF)"
  using uint_rune_bound [of r] by (auto simp: ValidRune_def word_sless_alt word_sle_eq sint_rune_if)

subsection \<open>Decoding\<close>

text \<open>The table entry of a lead byte, by the unsigned value of the byte.\<close>

lemma utf8_first_uint:
  fixes b :: byte
  shows "utf8_first ! unat b = (if uint b < 0x80 then 0xF0 else if uint b < 0xC2 then 0xF1 else if uint b < 0xE0 then 2
     else if uint b = 0xE0 then 0x13 else if uint b < 0xED then 3 else if uint b = 0xED then 0x23
     else if uint b < 0xF0 then 3 else if uint b = 0xF0 then 0x34 else if uint b < 0xF4 then 4
     else if uint b = 0xF4 then 0x44 else 0xF1)"
  unfolding utf8_first_nth by (simp add: word_less_def word_uint_eq_iff)

lemma acceptRanges_nth [simp]:
  "acceptRanges ! 0 = \<lparr>accept_lo = 0x80, accept_hi = 0xBF\<rparr>"
  "acceptRanges ! 1 = \<lparr>accept_lo = 0xA0, accept_hi = 0xBF\<rparr>"
  "acceptRanges ! Suc 0 = \<lparr>accept_lo = 0xA0, accept_hi = 0xBF\<rparr>"
  "acceptRanges ! 2 = \<lparr>accept_lo = 0x80, accept_hi = 0x9F\<rparr>"
  "acceptRanges ! 3 = \<lparr>accept_lo = 0x90, accept_hi = 0xBF\<rparr>"
  "acceptRanges ! 4 = \<lparr>accept_lo = 0x80, accept_hi = 0x8F\<rparr>"
  by (simp_all add: acceptRanges_def)

lemma uint_push_bit_rune:
  assumes "uint (b::byte) < 2 ^ m" "m + k \<le> 32"
  shows "uint (push_bit k (ucast b :: rune)) = uint b * 2 ^ k"
proof -
  have "uint b * 2 ^ k < 2 ^ m * 2 ^ k" using assms(1) by (rule mult_strict_right_mono) simp
  also have "\<dots> \<le> (2::int) ^ 32" unfolding power_add [symmetric] using assms(2) by (intro power_increasing) auto
  finally have "take_bit 32 (uint b * 2 ^ k) = uint b * 2 ^ k" by (intro take_bit_int_eq_self) auto
  then show ?thesis unfolding unsigned_push_bit_eq by (simp add: uint_byte_rune push_bit_eq_mult)
qed

lemma rune_parts:
  "uint (ucast (b AND 0x3F :: byte) :: rune) = uint b mod 64"
  "uint (push_bit 6 (ucast (b AND 0x3F :: byte)) :: rune) = (uint b mod 64) * 64"
  "uint (push_bit 12 (ucast (b AND 0x3F :: byte)) :: rune) = (uint b mod 64) * 4096"
  "uint (push_bit 6 (ucast (b AND 0x1F :: byte)) :: rune) = (uint b mod 32) * 64"
  "uint (push_bit 12 (ucast (b AND 0x0F :: byte)) :: rune) = (uint b mod 16) * 4096"
  "uint (push_bit 18 (ucast (b AND 0x07 :: byte)) :: rune) = (uint b mod 8) * 262144"
  using uint_push_bit_rune [of "b AND 0x3F" 6 6] uint_push_bit_rune [of "b AND 0x3F" 6 12]
    uint_push_bit_rune [of "b AND 0x1F" 5 6] uint_push_bit_rune [of "b AND 0x0F" 4 12]
    uint_push_bit_rune [of "b AND 0x07" 3 18]
  by (simp_all add: uint_and_mod uint_byte_rune del: push_bit_numeral)

lemma rune_join2:
  "push_bit 6 (ucast (a AND 0x1F :: byte)) OR ucast (b AND 0x3F :: byte)
     = (word_of_int ((uint a mod 32) * 64 + uint b mod 64) :: rune)" (is "?l = word_of_int ?v")
proof -
  have "uint ?l = ?v" by (subst uint_or_plus [where k = 6]) (simp_all add: rune_parts)
  then show ?thesis by (metis word_of_int_uint)
qed

lemma rune_low12: "uint (push_bit 6 (ucast (b AND 0x3F :: byte)) OR ucast (c AND 0x3F :: byte) :: rune)
    = (uint b mod 64) * 64 + uint c mod 64"
  by (subst uint_or_plus [where k = 6]) (simp_all add: rune_parts)

lemma low12_bound: "(x::int) mod 64 * 64 + y mod 64 < 4096"
  by (smt (verit) pos_mod_bound)

lemma rune_join3:
  "push_bit 12 (ucast (a AND 0x0F :: byte)) OR push_bit 6 (ucast (b AND 0x3F :: byte)) OR ucast (c AND 0x3F :: byte)
     = (word_of_int ((uint a mod 16) * 4096 + (uint b mod 64) * 64 + uint c mod 64) :: rune)" (is "?l = word_of_int ?v")
proof -
  have "uint ?l = ?v"
    by (subst uint_or_plus [where k = 12]) (simp_all add: rune_parts rune_low12 low12_bound)
  then show ?thesis by (metis word_of_int_uint)
qed

lemma rune_low18: "uint (push_bit 12 (ucast (b AND 0x3F :: byte)) OR push_bit 6 (ucast (c AND 0x3F :: byte))
      OR ucast (d AND 0x3F :: byte) :: rune) = (uint b mod 64) * 4096 + (uint c mod 64) * 64 + uint d mod 64"
  by (subst uint_or_plus [where k = 12]) (simp_all add: rune_parts rune_low12 low12_bound)

lemma low18_bound: "(x::int) mod 64 * 4096 + y mod 64 * 64 + z mod 64 < 262144"
  by (smt (verit) pos_mod_bound)

lemma rune_join4:
  "push_bit 18 (ucast (a AND 0x07 :: byte)) OR push_bit 12 (ucast (b AND 0x3F :: byte)) OR push_bit 6 (ucast (c AND 0x3F :: byte))
      OR ucast (d AND 0x3F :: byte)
     = (word_of_int ((uint a mod 8) * 262144 + (uint b mod 64) * 4096 + (uint c mod 64) * 64 + uint d mod 64) :: rune)"
    (is "?l = word_of_int ?v")
proof -
  have "uint ?l = ?v"
    by (subst uint_or_plus [where k = 18]) (simp_all add: rune_parts rune_low18 low18_bound)
  then show ?thesis by (metis word_of_int_uint)
qed

lemma DecodeRune_well_formed:
  assumes "well_formed s"
  shows "DecodeRune (s @ rest) = Some (word_of_int (scalar_value s), int (length s))"
  using assms
  by (cases s rule: well_formed.cases)
    (auto simp: DecodeRune_def Let_def idx_def utf8_first_uint rune_join2 rune_join3 rune_join4 cont_byte_def word_less_def)

lemma DecodeRune_empty: "DecodeRune [] = Some (RuneError, 0)"
  by (simp add: DecodeRune_def)

text \<open>Whatever does not begin with a well-formed sequence is one erroneous byte.\<close>

definition starts_well :: "byte list \<Rightarrow> bool" where
  "starts_well p \<longleftrightarrow>
     well_formed (take 1 p) \<or> well_formed (take 2 p) \<or> well_formed (take 3 p) \<or> well_formed (take 4 p)"

lemma well_formed_length: "well_formed s \<Longrightarrow> length s \<in> {1, 2, 3, 4}"
  by (cases s rule: well_formed.cases) simp_all

lemma starts_well_iff: "starts_well p \<longleftrightarrow> (\<exists>s q. p = s @ q \<and> well_formed s)"
proof
  show "starts_well p \<Longrightarrow> \<exists>s q. p = s @ q \<and> well_formed s"
    unfolding starts_well_def by (metis append_take_drop_id)
  show "\<exists>s q. p = s @ q \<and> well_formed s \<Longrightarrow> starts_well p"
    unfolding starts_well_def using well_formed_length by fastforce
qed

lemma lead_byte_cases:
  fixes a :: byte
  obtains "uint a < 0x80" | "0x80 \<le> uint a" "uint a < 0xC2" | "0xC2 \<le> uint a" "uint a < 0xE0"
    | "uint a = 0xE0" | "0xE0 < uint a" "uint a < 0xED" | "uint a = 0xED" | "0xED < uint a" "uint a < 0xF0"
    | "uint a = 0xF0" | "0xF0 < uint a" "uint a < 0xF4" | "uint a = 0xF4" | "0xF4 < uint a"
  by linarith

lemma DecodeRune_ill_formed:
  assumes "p \<noteq> []" "\<not> starts_well p"
  shows "DecodeRune p = Some (RuneError, 1)"
proof -
  note defs = DecodeRune_def Let_def idx_def utf8_first_uint cont_byte_def word_less_def starts_well_def
  obtain a q where p: "p = a # q" using assms(1) by (cases p) auto
  consider "q = []" | b where "q = [b]" | b c where "q = [b, c]" | b c d r where "q = b # c # d # r"
    by (metis list.exhaust)
  then show ?thesis
  proof cases
    case 1
    then show ?thesis using assms(2) p by (cases a rule: lead_byte_cases; simp add: defs; auto)
  next
    case 2
    then show ?thesis using assms(2) p by (cases a rule: lead_byte_cases; simp add: defs; auto)
  next
    case 3
    then show ?thesis using assms(2) p by (cases a rule: lead_byte_cases; simp add: defs; auto)
  next
    case 4
    then show ?thesis using assms(2) p by (cases a rule: lead_byte_cases; simp add: defs; auto)
  qed
qed

subsection \<open>Encoding\<close>

definition utf8_bytes :: "int \<Rightarrow> byte list" where
  "utf8_bytes v = map word_of_int
     (if v < 0x80 then [v]
      else if v < 0x800 then [0xC0 + v div 64, 0x80 + v mod 64]
      else if v < 0x10000 then [0xE0 + v div 4096, 0x80 + (v div 64) mod 64, 0x80 + v mod 64]
      else [0xF0 + v div 262144, 0x80 + (v div 4096) mod 64, 0x80 + (v div 64) mod 64, 0x80 + v mod 64])"

definition scalar :: "int \<Rightarrow> bool" where
  "scalar v \<longleftrightarrow> 0 \<le> v \<and> v \<le> 0x10FFFF \<and> \<not> (0xD800 \<le> v \<and> v \<le> 0xDFFF)"

lemma ValidRune_scalar: "ValidRune r \<longleftrightarrow> scalar (uint r)"
  by (auto simp: ValidRune_iff scalar_def)

lemma uint_byte_of_int: "0 \<le> x \<Longrightarrow> x < 256 \<Longrightarrow> uint (word_of_int x :: byte) = x"
  by (simp add: uint_word_of_int)

lemma byte_eqI: "uint (b::byte) = x \<Longrightarrow> b = word_of_int x"
  by (metis word_of_int_uint)

lemma digit: "0 \<le> r \<Longrightarrow> r < c \<Longrightarrow> (x * c + r) div c = (x::int)" "0 \<le> r \<Longrightarrow> r < c \<Longrightarrow> (x * c + r) mod c = (r::int)"
  by simp_all

lemma base64_digits:
  fixes x y z w :: int
  assumes "0 \<le> y" "y < 64" "0 \<le> z" "z < 64" "0 \<le> w" "w < 64"
  shows "(x * 64 + y) div 64 = x" "(x * 64 + y) mod 64 = y"
    "(x * 4096 + y * 64 + z) div 4096 = x" "(x * 4096 + y * 64 + z) div 64 mod 64 = y" "(x * 4096 + y * 64 + z) mod 64 = z"
    "(x * 262144 + y * 4096 + z * 64 + w) div 262144 = x" "(x * 262144 + y * 4096 + z * 64 + w) div 4096 mod 64 = y"
    "(x * 262144 + y * 4096 + z * 64 + w) div 64 mod 64 = z" "(x * 262144 + y * 4096 + z * 64 + w) mod 64 = w"
proof -
  have r: "0 \<le> y * 64 + z" "y * 64 + z < 4096" "0 \<le> z * 64 + w" "z * 64 + w < 4096" "0 \<le> y * 4096 + z * 64 + w"
    "y * 4096 + z * 64 + w < 262144"
    using assms by linarith+
  show "(x * 64 + y) div 64 = x" "(x * 64 + y) mod 64 = y" using digit assms by blast+
  show "(x * 4096 + y * 64 + z) div 4096 = x" using digit(1) [OF r(1,2)] by (simp add: add.assoc)
  have "(x * 4096 + y * 64 + z) div 64 = x * 64 + y" using digit(1) [of z 64 "x * 64 + y"] assms by (simp add: algebra_simps)
  then show "(x * 4096 + y * 64 + z) div 64 mod 64 = y" using digit(2) [of y 64 x] assms by simp
  show "(x * 4096 + y * 64 + z) mod 64 = z" using digit(2) [of z 64 "x * 64 + y"] assms by (simp add: algebra_simps)
  show "(x * 262144 + y * 4096 + z * 64 + w) div 262144 = x" using digit(1) [OF r(5,6)] by (simp add: add.assoc)
  have "(x * 262144 + y * 4096 + z * 64 + w) div 4096 = x * 64 + y"
    using digit(1) [OF r(3,4), of "x * 64 + y"] by (simp add: algebra_simps)
  then show "(x * 262144 + y * 4096 + z * 64 + w) div 4096 mod 64 = y" using digit(2) [of y 64 x] assms by simp
  have "(x * 262144 + y * 4096 + z * 64 + w) div 64 = (x * 64 + y) * 64 + z"
    using digit(1) [of w 64 "(x * 64 + y) * 64 + z"] assms by (simp add: algebra_simps)
  then show "(x * 262144 + y * 4096 + z * 64 + w) div 64 mod 64 = z" using digit(2) [of z 64 "x * 64 + y"] assms by simp
  show "(x * 262144 + y * 4096 + z * 64 + w) mod 64 = w"
    using digit(2) [of w 64 "(x * 64 + y) * 64 + z"] assms by (simp add: algebra_simps)
qed

lemma base64_split:
  fixes v :: int
  shows "v = v div 64 * 64 + v mod 64" "v div 64 = v div 4096 * 64 + v div 64 mod 64"
    "v div 4096 = v div 262144 * 64 + v div 4096 mod 64"
  using div_mult_mod_eq [of "v div 64" 64] div_mult_mod_eq [of "v div 4096" 64]
  by (simp_all add: zdiv_zmult2_eq [of 64 v 64, simplified, symmetric] zdiv_zmult2_eq [of 64 v 4096, simplified, symmetric])

lemma low_digit: "0 \<le> y \<Longrightarrow> y < 64 \<Longrightarrow> (128 + y) mod 64 = (y::int)"
  using digit(2) [of y 64 2] by simp

lemma well_formed_utf8_bytes:
  assumes "scalar v"
  shows "well_formed (utf8_bytes v)" "scalar_value (utf8_bytes v) = v"
proof -
  note defs = utf8_bytes_def uint_byte_of_int cont_byte_def low_digit
  note v = assms [unfolded scalar_def]
  have mods: "0 \<le> k mod 64" "k mod 64 < 64" for k :: int by simp_all
  note split = base64_split [of v] mods [of v] mods [of "v div 64"] mods [of "v div 4096"]
  consider "v < 0x80" | "0x80 \<le> v" "v < 0x800" | "0x800 \<le> v" "v < 0x10000" | "0x10000 \<le> v" by linarith
  then have "well_formed (utf8_bytes v) \<and> scalar_value (utf8_bytes v) = v"
  proof cases
    case 1
    then show ?thesis using v by (simp add: defs)
  next
    case 2
    define x y where "x = v div 64" and "y = v mod 64"
    have xy: "v = x * 64 + y" "2 \<le> x" "x < 32" "0 \<le> y" "y < 64"
      unfolding x_def y_def using 2 split(1,4,5) by linarith+
    have "(192 + x) mod 32 = x" using xy(2,3) digit(2) [of x 32 6] by simp
    then show ?thesis
      using xy(1) [symmetric] xy(2-) 2 by (simp add: defs del: of_int_add flip: x_def y_def)
  next
    case 3
    define x y z where "x = v div 4096" and "y = v div 64 mod 64" and "z = v mod 64"
    have xyz: "v = x * 4096 + y * 64 + z" "0 \<le> x" "x < 16" "0 \<le> y" "y < 64" "0 \<le> z" "z < 64"
      unfolding x_def y_def z_def using 3 split by linarith+
    then have "x = 0 \<longrightarrow> 32 \<le> y" "x = 13 \<longrightarrow> y < 32" using 3 v by auto
    moreover have "(224 + x) mod 16 = x" using xyz(2,3) digit(2) [of x 16 14] by simp
    ultimately show ?thesis
      using xyz(1) [symmetric] xyz(2-) 3 by (simp add: defs del: of_int_add flip: x_def y_def z_def) auto
  next
    case 4
    define x y z w where "x = v div 262144" and "y = v div 4096 mod 64" and "z = v div 64 mod 64" and "w = v mod 64"
    have xyzw: "v = x * 262144 + y * 4096 + z * 64 + w" "0 \<le> x" "x < 5" "0 \<le> y" "y < 64" "0 \<le> z" "z < 64" "0 \<le> w" "w < 64"
    proof -
      show e: "v = x * 262144 + y * 4096 + z * 64 + w"
        unfolding x_def y_def z_def w_def using split(1-3) by linarith
      show b: "0 \<le> y" "y < 64" "0 \<le> z" "z < 64" "0 \<le> w" "w < 64"
        unfolding y_def z_def w_def using split(4-) by simp_all
      show "0 \<le> x" "x < 5" using e b 4 v by linarith+
    qed
    then have "x = 0 \<longrightarrow> 16 \<le> y" "x = 4 \<longrightarrow> y < 16" using 4 v by auto
    moreover have "(240 + x) mod 8 = x" using xyzw(2,3) digit(2) [of x 8 30] by simp
    ultimately show ?thesis
      using xyzw(1) [symmetric] xyzw(2-) 4 by (simp add: defs del: of_int_add flip: x_def y_def z_def w_def) auto
  qed
  then show "well_formed (utf8_bytes v)" "scalar_value (utf8_bytes v) = v" by simp_all
qed

lemma utf8_bytes_scalar_value:
  assumes "well_formed s"
  shows "scalar (scalar_value s)" "utf8_bytes (scalar_value s) = s"
proof -
  note defs = scalar_def utf8_bytes_def cont_byte_def low_digit
  have "scalar (scalar_value s) \<and> utf8_bytes (scalar_value s) = s"
    using assms
  proof (cases s rule: well_formed.cases)
    case (1 a)
    then show ?thesis using assms by (simp add: scalar_def utf8_bytes_def)
  next
    case (2 a b)
    define x y where "x = uint a - 192" and "y = uint b - 128"
    have ab: "uint a = 192 + x" "uint b = 128 + y" "2 \<le> x" "x < 32" "0 \<le> y" "y < 64"
      using assms 2 by (auto simp: x_def y_def cont_byte_def)
    have "(192 + x) mod 32 = x" using ab(3,4) digit(2) [of x 32 6] by simp
    then have v: "scalar_value s = x * 64 + y" using 2 ab by (simp add: low_digit)
    have n: "\<not> x * 64 + y < 128" "x * 64 + y < 2048" "scalar (x * 64 + y)" using ab by (auto simp: scalar_def)
    have "utf8_bytes (x * 64 + y) = map word_of_int [192 + x, 128 + y]"
      unfolding utf8_bytes_def using n base64_digits [of y 0 0 x] ab(5,6) by (simp del: of_int_add)
    then show ?thesis using v n(3) 2 by (simp del: of_int_add flip: ab(1,2))
  next
    case (3 a b c)
    define x y z where "x = uint a - 224" and "y = uint b - 128" and "z = uint c - 128"
    have abc: "uint a = 224 + x" "uint b = 128 + y" "uint c = 128 + z" "0 \<le> x" "x < 16" "0 \<le> y" "y < 64" "0 \<le> z" "z < 64"
      "x = 0 \<longrightarrow> 32 \<le> y" "x = 13 \<longrightarrow> y < 32"
      using assms 3 by (auto simp: x_def y_def z_def cont_byte_def)
    have "(224 + x) mod 16 = x" using abc(4,5) digit(2) [of x 16 14] by simp
    then have v: "scalar_value s = x * 4096 + y * 64 + z" using 3 abc by (simp add: low_digit)
    have n: "\<not> x * 4096 + y * 64 + z < 128" "\<not> x * 4096 + y * 64 + z < 2048" "x * 4096 + y * 64 + z < 65536" using abc by auto
    have "\<not> (0xD800 \<le> x * 4096 + y * 64 + z \<and> x * 4096 + y * 64 + z \<le> 0xDFFF)"
    proof -
      consider "x \<le> 12" | "x = 13" | "x \<ge> 14" by linarith
      then show ?thesis using abc by cases auto
    qed
    then have sc: "scalar (x * 4096 + y * 64 + z)" using n by (auto simp: scalar_def)
    have "utf8_bytes (x * 4096 + y * 64 + z) = map word_of_int [224 + x, 128 + y, 128 + z]"
      unfolding utf8_bytes_def
      using n base64_digits(3-5) [of y z 0 x, OF abc(6-9)] by (simp only: if_False if_True order_refl zero_less_numeral)
    then show ?thesis using v sc 3 by (simp del: of_int_add flip: abc(1-3))
  next
    case (4 a b c d)
    define x y z w where "x = uint a - 240" and "y = uint b - 128" and "z = uint c - 128" and "w = uint d - 128"
    have abcd: "uint a = 240 + x" "uint b = 128 + y" "uint c = 128 + z" "uint d = 128 + w"
      "0 \<le> x" "x \<le> 4" "0 \<le> y" "y < 64" "0 \<le> z" "z < 64" "0 \<le> w" "w < 64"
      "x = 0 \<longrightarrow> 16 \<le> y" "x = 4 \<longrightarrow> y < 16"
      using assms 4 by (auto simp: x_def y_def z_def w_def cont_byte_def)
    have "(240 + x) mod 8 = x" using abcd(5,6) digit(2) [of x 8 30] by simp
    then have v: "scalar_value s = x * 262144 + y * 4096 + z * 64 + w" using 4 abcd by (simp add: low_digit)
    have n: "\<not> x * 262144 + y * 4096 + z * 64 + w < 65536 \<and> x * 262144 + y * 4096 + z * 64 + w \<le> 0x10FFFF"
    proof -
      consider "x = 0" | "1 \<le> x" "x \<le> 3" | "x = 4" using abcd(5,6) by linarith
      then show ?thesis using abcd(7-14) by cases auto
    qed
    then have sc: "scalar (x * 262144 + y * 4096 + z * 64 + w)" by (auto simp: scalar_def)
    have "\<not> x * 262144 + y * 4096 + z * 64 + w < 128" "\<not> x * 262144 + y * 4096 + z * 64 + w < 2048" using n by linarith+
    then have "utf8_bytes (x * 262144 + y * 4096 + z * 64 + w) = map word_of_int [240 + x, 128 + y, 128 + z, 128 + w]"
      unfolding utf8_bytes_def
      using n base64_digits(6-9) [OF abcd(7-12), of x] by (simp only: if_False if_True)
    then show ?thesis using v sc 4 by (simp del: of_int_add flip: abcd(1-4))
  qed simp_all
  then show "scalar (scalar_value s)" "utf8_bytes (scalar_value s) = s" by simp_all
qed

lemma encode_low:
  assumes "uint (r::rune) < 2 ^ 31"
  shows "(0x80 OR (ucast (signed_drop_bit k r) AND 0x3F) :: byte) = word_of_int (0x80 + (uint r div 2 ^ k) mod 64)"
    and "(0x80 OR (ucast r AND 0x3F) :: byte) = word_of_int (0x80 + uint r mod 64)"
proof -
  have "uint (0x80 OR (b AND 0x3F) :: byte) = 0x80 + uint b mod 64" for b
    by (subst uint_or_plus [where k = 6]) (simp_all add: uint_and_mod)
  then show "(0x80 OR (ucast (signed_drop_bit k r) AND 0x3F) :: byte) = word_of_int (0x80 + (uint r div 2 ^ k) mod 64)"
    and "(0x80 OR (ucast r AND 0x3F) :: byte) = word_of_int (0x80 + uint r mod 64)"
    using uint_signed_drop_bit_rune [OF assms, of k]
    by (auto intro!: byte_eqI simp: uint_rune_byte mod_mod_cancel simp del: of_int_add)
qed

lemma encode_lead:
  assumes "uint (r::rune) < 2 ^ 31"
  shows "uint r < 0x800 \<Longrightarrow> (0xC0 OR ucast (signed_drop_bit 6 r) :: byte) = word_of_int (0xC0 + uint r div 64)"
    and "uint r < 0x10000 \<Longrightarrow> (0xE0 OR ucast (signed_drop_bit 12 r) :: byte) = word_of_int (0xE0 + uint r div 4096)"
    and "uint r \<le> 0x10FFFF \<Longrightarrow> (0xF0 OR ucast (signed_drop_bit 18 r) :: byte) = word_of_int (0xF0 + uint r div 262144)"
proof -
  have u: "uint (ucast (signed_drop_bit k r) :: byte) = uint r div 2 ^ k" if "uint r div 2 ^ k < 256" for k
    using that uint_signed_drop_bit_rune [OF assms, of k] by (simp add: uint_rune_byte pos_imp_zdiv_nonneg_iff)
  show "(0xC0 OR ucast (signed_drop_bit 6 r) :: byte) = word_of_int (0xC0 + uint r div 64)" if v: "uint r < 0x800"
  proof -
    have "uint r div 64 < 32" using v by (simp add: div_less_iff_less_mult)
    then have "uint (0xC0 OR ucast (signed_drop_bit 6 r) :: byte) = 0xC0 + uint r div 64"
      using u [of 6] by (subst uint_or_plus [where k = 6]) simp_all
    then show ?thesis by (rule byte_eqI)
  qed
  show "(0xE0 OR ucast (signed_drop_bit 12 r) :: byte) = word_of_int (0xE0 + uint r div 4096)" if v: "uint r < 0x10000"
  proof -
    have "uint r div 4096 < 16" using v by (simp add: div_less_iff_less_mult)
    then have "uint (0xE0 OR ucast (signed_drop_bit 12 r) :: byte) = 0xE0 + uint r div 4096"
      using u [of 12] by (subst uint_or_plus [where k = 5]) simp_all
    then show ?thesis by (rule byte_eqI)
  qed
  show "(0xF0 OR ucast (signed_drop_bit 18 r) :: byte) = word_of_int (0xF0 + uint r div 262144)" if v: "uint r \<le> 0x10FFFF"
  proof -
    have "uint r div 262144 < 5" using v by (simp add: div_less_iff_less_mult)
    then have "uint (0xF0 OR ucast (signed_drop_bit 18 r) :: byte) = 0xF0 + uint r div 262144"
      using u [of 18] by (subst uint_or_plus [where k = 4]) simp_all
    then show ?thesis by (rule byte_eqI)
  qed
qed

lemma list_at_least:
  "1 \<le> length p \<Longrightarrow> \<exists>a q. p = a # q"
  "2 \<le> length p \<Longrightarrow> \<exists>a b q. p = a # b # q"
  "3 \<le> length p \<Longrightarrow> \<exists>a b c q. p = a # b # c # q"
  "4 \<le> length p \<Longrightarrow> \<exists>a b c d q. p = a # b # c # d # q"
  by (auto simp: numeral_eq_Suc Suc_le_length_iff)

lemma EncodeRune3_eq:
  assumes "uint r < 0x10000" "3 \<le> length p"
  shows "EncodeRune3 p r = Some (map word_of_int [0xE0 + uint r div 4096, 0x80 + (uint r div 64) mod 64, 0x80 + uint r mod 64]
           @ drop 3 p, 3)"
proof -
  have r: "uint r < 2 ^ 31" using assms(1) by simp
  obtain a b c q where p: "p = a # b # c # q" using list_at_least(3) [OF assms(2)] by blast
  show ?thesis
    unfolding EncodeRune3_def encode_low [OF r] encode_lead(2) [OF r assms(1)]
    by (simp add: p idx_def upd_def del: of_int_add)
qed

lemma EncodeRune_scalar:
  assumes "scalar (uint r)" "length (utf8_bytes (uint r)) \<le> length p"
  shows "EncodeRune p r = Some (utf8_bytes (uint r) @ drop (length (utf8_bytes (uint r))) p, int (length (utf8_bytes (uint r))))"
proof -
  have r: "uint r < 2 ^ 31" using assms(1) by (simp add: scalar_def)
  note cmp = word_le_def word_less_def
  consider "uint r < 0x80" | "0x80 \<le> uint r" "uint r < 0x800" | "0x800 \<le> uint r" "uint r < 0x10000" | "0x10000 \<le> uint r"
    by linarith
  then show ?thesis
  proof cases
    case 1
    then obtain a q where "p = a # q" using assms(2) list_at_least(1) [of p] by (auto simp: utf8_bytes_def)
    then show ?thesis using 1 by (simp add: EncodeRune_def utf8_bytes_def cmp upd_def)
  next
    case 2
    then obtain a b q where "p = a # b # q" using assms(2) list_at_least(2) [of p] by (auto simp: utf8_bytes_def)
    then show ?thesis
      using 2 encode_low(2) [OF r] encode_lead(1) [OF r 2(2)]
      by (simp add: EncodeRune_def utf8_bytes_def cmp upd_def idx_def del: of_int_add)
  next
    case 3
    then have "3 \<le> length p" using assms(2) by (simp add: utf8_bytes_def)
    moreover have "\<not> (0xD800 \<le> uint r \<and> uint r \<le> 0xDFFF)" using assms(1) by (simp add: scalar_def)
    ultimately show ?thesis
      using 3 EncodeRune3_eq [of r p]
      by (auto simp: EncodeRune_def utf8_bytes_def cmp numeral_3_eq_3 simp del: of_int_add)
  next
    case 4
    then obtain a b c d q where p: "p = a # b # c # d # q" using assms(2) list_at_least(4) [of p] by (auto simp: utf8_bytes_def)
    have "\<not> uint r \<le> 0xDFFF" "uint r \<le> 0x10FFFF" using 4 assms(1) by (simp_all add: scalar_def)
    then show ?thesis
      using 4 p encode_low(1) [OF r, of 12] encode_low(1) [OF r, of 6] encode_low(2) [OF r] encode_lead(3) [OF r]
      by (simp add: EncodeRune_def utf8_bytes_def cmp upd_def idx_def del: of_int_add)
  qed
qed

lemma EncodeRune_invalid:
  assumes "\<not> scalar (uint r)"
  shows "EncodeRune p r = EncodeRune3 p RuneError"
  using assms unsigned_greater_eq [of r] by (auto simp: EncodeRune_def scalar_def word_le_def word_less_def)

lemma RuneLen_scalar: "scalar (uint r) \<Longrightarrow> RuneLen r = int (length (utf8_bytes (uint r)))"
  by (auto simp: RuneLen_def utf8_bytes_def scalar_def sless_numeral_rune)

end
