(* ===== verification/Utf8_Text.thy ===== *)
theory Utf8_Text
  imports Utf8
begin

text \<open>
  The loops of \<^verbatim>\<open>unicode/utf8\<close> over whole texts, and the properties of the package. A text is a
  concatenation of well-formed sequences.
\<close>

subsection \<open>Decoding step by step\<close>

lemma DecodeRune_cases:
  assumes "p \<noteq> []"
  obtains s q where "p = s @ q" "well_formed s" "DecodeRune p = Some (word_of_int (scalar_value s), int (length s))"
  | "\<not> starts_well p" "DecodeRune p = Some (RuneError, 1)"
  using DecodeRune_ill_formed [OF assms] DecodeRune_well_formed starts_well_iff by metis

lemma well_formed_prefix_unique:
  assumes "s @ q = s' @ q'" "well_formed s" "well_formed s'"
  shows "s = s'"
proof -
  have "length s = length s'"
    using DecodeRune_well_formed [OF assms(2), of q] DecodeRune_well_formed [OF assms(3), of q'] assms(1) by simp
  then show ?thesis using assms(1) by (simp add: append_eq_append_conv)
qed

text \<open>The runes a range loop over the bytes visits.\<close>

function decode_all :: "byte list \<Rightarrow> rune list" where
  "decode_all p = (if p = [] then [] else
     (case DecodeRune p of Some (r, sz) \<Rightarrow> r # decode_all (drop (max 1 (nat sz)) p) | None \<Rightarrow> []))"
  by pat_completeness auto
termination
  by (relation "measure length") auto

declare decode_all.simps [simp del]

definition utf8_text :: "byte list \<Rightarrow> bool" where
  "utf8_text p \<longleftrightarrow> (\<exists>ss. list_all well_formed ss \<and> p = concat ss)"

lemma utf8_text_Nil [simp]: "utf8_text []"
  by (auto simp: utf8_text_def intro: exI [of _ "[]"])

lemma utf8_text_append: "well_formed s \<Longrightarrow> utf8_text (s @ q) \<longleftrightarrow> utf8_text q"
proof
  assume s: "well_formed s"
  show "utf8_text q \<Longrightarrow> utf8_text (s @ q)"
    using s unfolding utf8_text_def by (metis concat.simps(2) list.pred_inject(2))
  assume "utf8_text (s @ q)"
  then obtain ss where ss: "list_all well_formed ss" "s @ q = concat ss" by (auto simp: utf8_text_def)
  have "s \<noteq> []" using s by auto
  then obtain t ts where t: "ss = t # ts" "well_formed t" using ss by (cases ss) auto
  then have "s = t" using well_formed_prefix_unique [of s q t "concat ts"] s ss(2) by simp
  then show "utf8_text q" using ss t by (auto simp: utf8_text_def)
qed

lemma utf8_text_starts_well: "p \<noteq> [] \<Longrightarrow> utf8_text p \<Longrightarrow> starts_well p"
proof -
  assume "p \<noteq> []" "utf8_text p"
  then obtain ss where "list_all well_formed ss" "p = concat ss" by (auto simp: utf8_text_def)
  then show "starts_well p" using \<open>p \<noteq> []\<close> unfolding starts_well_iff by (cases ss) auto
qed

text \<open>One turn of the loops, at the rest \<open>w\<close> of the text.\<close>

lemma idx_drop: "0 \<le> i \<Longrightarrow> i \<le> int (length p) \<Longrightarrow> 0 \<le> k \<Longrightarrow> idx p (i + k) = idx (drop (nat i) p) k"
  by (auto simp: idx_def nat_add_distrib)

lemma byte_list_cases:
  obtains "q = []" | b where "q = [b]" | b c where "q = [b, c]" | b c d r where "q = b # c # d # r"
  by (metis list.exhaust)

lemma loop_at:
  assumes "0 \<le> i" "i < int (length p)" "drop (nat i) p = w"
  shows "idx p i = idx w 0" "idx p (i + 1) = idx w 1" "idx p (i + 2) = idx w 2" "idx p (i + 3) = idx w 3"
    "int (length p) = i + int (length w)" "w \<noteq> []"
  using idx_drop [of i p 0] idx_drop [of i p] assms by auto

lemma RuneCount_step_good:
  assumes "0 \<le> i" "i < int (length p)" "drop (nat i) p = s @ q" "well_formed s"
  shows "RuneCount_loop p (int (length p)) i n = RuneCount_loop p (int (length p)) (i + int (length s)) (n + 1)"
proof -
  note at = loop_at [OF assms(1-3)]
  note defs = Let_def idx_def utf8_first_uint word_less_def word_uint_eq_iff cont_byte_def
  note step = RuneCount_loop.simps [of p _ i] at
  show ?thesis
    using assms(4)
  proof (cases s rule: well_formed.cases)
    case (1 a)
    then show ?thesis using assms(4) unfolding step by (simp add: defs)
  next
    case (2 a b)
    then show ?thesis using assms(4) unfolding step by (simp add: defs)
  next
    case (3 a b c)
    then show ?thesis using assms(4) unfolding step by (cases a rule: lead_byte_cases; simp add: defs)
  next
    case (4 a b c d)
    then show ?thesis using assms(4) unfolding step by (cases a rule: lead_byte_cases; simp add: defs)
  qed simp_all
qed

lemma RuneCount_step_bad:
  assumes "0 \<le> i" "i < int (length p)" "\<not> starts_well (drop (nat i) p)"
  shows "RuneCount_loop p (int (length p)) i n = RuneCount_loop p (int (length p)) (i + 1) (n + 1)"
proof -
  obtain w where w: "drop (nat i) p = w" by blast
  note at = loop_at [OF assms(1,2) w]
  note defs = Let_def idx_def utf8_first_uint word_less_def word_uint_eq_iff cont_byte_def starts_well_def
  have bad: "\<not> starts_well w" using assms(3) w by simp
  obtain a q where "w = a # q" using at(6) by (cases w) auto
  then show ?thesis
    unfolding RuneCount_loop.simps [of p _ i] at
    using bad by (cases q rule: byte_list_cases; cases a rule: lead_byte_cases; simp add: defs; auto)
qed

lemma decode_all_Nil [simp]: "decode_all [] = []"
  by (simp add: decode_all.simps)

lemma decode_all_step:
  "p \<noteq> [] \<Longrightarrow> DecodeRune p = Some (r, sz) \<Longrightarrow> 1 \<le> sz \<Longrightarrow> decode_all p = r # decode_all (drop (nat sz) p)"
proof -
  assume "p \<noteq> []" "DecodeRune p = Some (r, sz)" "1 \<le> sz"
  moreover from this have "max 1 (nat sz) = nat sz" by auto
  ultimately show ?thesis unfolding decode_all.simps [of p] by simp
qed

lemma RuneCount_loop_end: "\<not> i < np \<Longrightarrow> RuneCount_loop p np i n = Some n"
  by (simp add: RuneCount_loop.simps [of p np i n])

lemma RuneCount_loop_ok:
  assumes "0 \<le> i" "i \<le> int (length p)"
  shows "RuneCount_loop p (int (length p)) i n = Some (n + int (length (decode_all (drop (nat i) p))))"
  using assms
proof (induction "nat (int (length p) - i)" arbitrary: i n rule: less_induct)
  case less
  let ?w = "drop (nat i) p"
  show ?case
  proof (cases "i < int (length p)")
    case False
    then show ?thesis using less.prems RuneCount_loop_end [OF False] by simp
  next
    case True
    then have ne: "?w \<noteq> []" using less.prems(1) by auto
    have next_step: "RuneCount_loop p (int (length p)) (i + sz) (n + 1)
        = Some (n + 1 + int (length (decode_all (drop (nat sz) ?w))))"
      if "1 \<le> sz" "sz \<le> int (length ?w)" for sz
      using less.hyps [of "i + sz" "n + 1"] that less.prems True by (simp add: nat_add_distrib add.commute)
    from ne show ?thesis
    proof (cases rule: DecodeRune_cases)
      case (1 s q)
      have "1 \<le> int (length s)" using well_formed_length [OF 1(2)] by auto
      then show ?thesis
        using RuneCount_step_good [OF less.prems(1) True 1(1,2)] next_step [of "int (length s)"] 1(1)
          decode_all_step [OF ne 1(3)] by simp
    next
      case 2
      then show ?thesis
        using RuneCount_step_bad [OF less.prems(1) True 2(1)] next_step [of 1] ne
          decode_all_step [OF ne 2(2)] by (simp add: Suc_le_eq)
    qed
  qed
qed

subsection \<open>Validity\<close>

lemma Valid_step_good:
  assumes "0 \<le> i" "i < int (length p)" "drop (nat i) p = s @ q" "well_formed s"
  shows "Valid_loop p (int (length p)) i = Valid_loop p (int (length p)) (i + int (length s))"
proof -
  note at = loop_at [OF assms(1-3)]
  note defs = Let_def idx_def utf8_first_uint word_less_def word_uint_eq_iff cont_byte_def
  note step = Valid_loop.simps [of p _ i] at
  show ?thesis
    using assms(4)
  proof (cases s rule: well_formed.cases)
    case (1 a)
    then show ?thesis using assms(4) unfolding step by (simp add: defs)
  next
    case (2 a b)
    then show ?thesis using assms(4) unfolding step by (simp add: defs)
  next
    case (3 a b c)
    then show ?thesis using assms(4) unfolding step by (cases a rule: lead_byte_cases; simp add: defs)
  next
    case (4 a b c d)
    then show ?thesis using assms(4) unfolding step by (cases a rule: lead_byte_cases; simp add: defs)
  qed simp_all
qed

lemma Valid_step_bad:
  assumes "0 \<le> i" "i < int (length p)" "\<not> starts_well (drop (nat i) p)"
  shows "Valid_loop p (int (length p)) i = Some False"
proof -
  obtain w where w: "drop (nat i) p = w" by blast
  note at = loop_at [OF assms(1,2) w]
  note defs = Let_def idx_def utf8_first_uint word_less_def word_uint_eq_iff cont_byte_def starts_well_def
  have bad: "\<not> starts_well w" using assms(3) w by simp
  obtain a q where "w = a # q" using at(6) by (cases w) auto
  then show ?thesis
    unfolding Valid_loop.simps [of p _ i] at
    using bad by (cases q rule: byte_list_cases; cases a rule: lead_byte_cases; simp add: defs; auto)
qed

lemma Valid_loop_end: "\<not> i < np \<Longrightarrow> Valid_loop p np i = Some True"
  by (simp add: Valid_loop.simps [of p np i])

lemma Valid_loop_ok:
  assumes "0 \<le> i" "i \<le> int (length p)"
  shows "Valid_loop p (int (length p)) i = Some (utf8_text (drop (nat i) p))"
  using assms
proof (induction "nat (int (length p) - i)" arbitrary: i rule: less_induct)
  case less
  let ?w = "drop (nat i) p"
  show ?case
  proof (cases "i < int (length p)")
    case False
    then show ?thesis using less.prems Valid_loop_end [OF False] by simp
  next
    case True
    then have ne: "?w \<noteq> []" using less.prems(1) by auto
    from ne show ?thesis
    proof (cases rule: DecodeRune_cases)
      case (1 s q)
      have l: "1 \<le> int (length s)" using well_formed_length [OF 1(2)] by auto
      have "int (length p) = i + int (length (s @ q))" using 1(1) less.prems by (metis length_drop nat_eq_iff2 of_nat_diff nat_le_iff diff_add_cancel add.commute int_nat_eq)
      then have "Valid_loop p (int (length p)) (i + int (length s)) = Some (utf8_text (drop (nat (i + int (length s))) p))"
        using less.hyps [of "i + int (length s)"] l less.prems by simp
      moreover have "drop (nat (i + int (length s))) p = q"
        using less.prems(1) 1(1) by (metis append_eq_conv_conj drop_drop nat_add_distrib nat_int of_nat_0_le_iff add.commute)
      ultimately show ?thesis
        using Valid_step_good [OF less.prems(1) True 1(1,2)] utf8_text_append [OF 1(2)] 1(1) by simp
    next
      case 2
      then show ?thesis
        using Valid_step_bad [OF less.prems(1) True 2(1)] utf8_text_starts_well [OF ne] by auto
    qed
  qed
qed

text \<open>The fast path only drops ASCII bytes.\<close>

lemma high_bit:
  assumes "\<not> bit (b::byte) 7"
  shows "uint b < 0x80"
proof -
  have "\<not> bit (uint b) 7" using assms by (simp only: bit_uint_iff) simp
  then have "even (uint b div 128)" by (simp add: bit_iff_odd)
  then show ?thesis using uint_byte [of b] by presburger
qed

lemma utf8_text_ascii:
  "(\<And>b. b \<in> set u \<Longrightarrow> uint b < 0x80) \<Longrightarrow> utf8_text (u @ q) = utf8_text q"
proof (induction u)
  case (Cons b u)
  then show ?case using utf8_text_append [of "[b]" "u @ q"] by simp
qed simp

lemma load32_ascii:
  assumes "(load32 p 0 OR load32 p 4) AND 0x80808080 = 0" "k < 8"
  shows "uint (p ! k) < 0x80"
proof -
  have b: "\<not> bit ((load32 p 0 OR load32 p 4) AND 0x80808080 :: uint32) n" for n using assms(1) by simp
  have "\<not> bit (p ! 0) 7" "\<not> bit (p ! 1) 7" "\<not> bit (p ! 2) 7" "\<not> bit (p ! 3) 7"
    "\<not> bit (p ! 4) 7" "\<not> bit (p ! 5) 7" "\<not> bit (p ! 6) 7" "\<not> bit (p ! 7) 7"
    using b [of 7] b [of 15] b [of 23] b [of 31]
    by (auto simp: load32_def bit_and_iff bit_or_iff bit_push_bit_iff bit_ucast_iff numeral_2_eq_2)
  moreover have "k = 0 \<or> k = 1 \<or> k = 2 \<or> k = 3 \<or> k = 4 \<or> k = 5 \<or> k = 6 \<or> k = 7" using assms(2) by linarith
  ultimately show ?thesis using high_bit by blast
qed

lemma Valid_fast_ok: "utf8_text (Valid_fast p) = utf8_text p"
proof (induction p rule: Valid_fast.induct)
  case (1 p)
  show ?case
  proof (cases "length p \<ge> 8 \<and> (load32 p 0 OR load32 p 4) AND 0x80808080 = 0")
    case True
    then have "uint b < 0x80" if "b \<in> set (take 8 p)" for b
      using that load32_ascii [of p] by (auto simp: in_set_conv_nth)
    then have "utf8_text (take 8 p @ drop 8 p) = utf8_text (drop 8 p)" by (rule utf8_text_ascii)
    moreover have "Valid_fast p = Valid_fast (drop 8 p)" using True by (simp add: Valid_fast.simps [of p] Let_def)
    ultimately show ?thesis using 1 True by (simp add: Let_def)
  next
    case False
    then have "Valid_fast p = p" by (auto simp: Valid_fast.simps [of p] Let_def)
    then show ?thesis by simp
  qed
qed

subsection \<open>The last rune\<close>

lemma RuneStart_iff: "RuneStart b \<longleftrightarrow> \<not> cont_byte b"
proof -
  have m: "(0xC0::int) = mask (2 + 6) AND NOT (mask 6)" by (simp add: mask_numeral)
  have "uint (b AND 0xC0) = uint b AND (mask (2 + 6) AND NOT (mask 6))" by (simp add: unsigned_and_eq m)
  also have "\<dots> = (uint b div 64) mod 4 * 64"
    using slice_eq_mask [of 6 2 "uint b"]
    by (simp add: push_bit_eq_mult take_bit_eq_mod drop_bit_eq_div and.assoc)
  finally have "uint (b AND 0xC0) = (uint b div 64) mod 4 * 64" .
  moreover have "b AND 0xC0 = 0x80 \<longleftrightarrow> uint (b AND 0xC0) = 0x80" by (simp add: word_uint_eq_iff)
  moreover have "uint b div 64 < 4" "0 \<le> uint b div 64" using uint_byte [of b] by (simp_all add: div_less_iff_less_mult pos_imp_zdiv_nonneg_iff)
  ultimately have "RuneStart b \<longleftrightarrow> uint b div 64 \<noteq> 2" by (simp add: RuneStart_def)
  moreover have "cont_byte b \<longleftrightarrow> uint b div 64 = 2"
    unfolding cont_byte_def by presburger
  ultimately show ?thesis by simp
qed

lemma DecodeLastRune_loop_ok:
  assumes "-1 \<le> start" "start < int (length p)" "0 \<le> lim"
  shows "\<exists>r. DecodeLastRune_loop p lim start = Some r \<and> r \<le> start \<and> (r \<ge> lim \<longrightarrow> RuneStart (p ! nat r))
    \<and> (r < lim \<longrightarrow> r = start \<or> r = lim - 1) \<and> (\<forall>k. r < k \<and> k \<le> start \<longrightarrow> \<not> RuneStart (p ! nat k))"
  using assms
proof (induction "nat (start + 1)" arbitrary: start rule: less_induct)
  case less
  show ?case
  proof (cases "start \<ge> lim")
    case False
    then show ?thesis by (auto simp: DecodeLastRune_loop.simps [of p lim start])
  next
    case True
    then have at: "idx p start = Some (p ! nat start)" using less.prems by simp
    show ?thesis
    proof (cases "RuneStart (p ! nat start)")
      case True
      then show ?thesis using at \<open>start \<ge> lim\<close> by (auto simp: DecodeLastRune_loop.simps [of p lim start])
    next
      case False
      obtain r where r: "DecodeLastRune_loop p lim (start - 1) = Some r" "r \<le> start - 1"
          "r \<ge> lim \<longrightarrow> RuneStart (p ! nat r)" "r < lim \<longrightarrow> r = start - 1 \<or> r = lim - 1"
          "\<forall>k. r < k \<and> k \<le> start - 1 \<longrightarrow> \<not> RuneStart (p ! nat k)"
        using less.hyps [of "start - 1"] less.prems True by auto
      have "\<not> RuneStart (p ! nat k)" if "r < k" "k \<le> start" for k
        using r(5) False that by (cases "k = start") auto
      then show ?thesis
        using r at False \<open>start \<ge> lim\<close> by (auto simp: DecodeLastRune_loop.simps [of p lim start])
    qed
  qed
qed

lemma well_formed_shape:
  assumes "well_formed s"
  shows "\<exists>a t. s = a # t \<and> RuneStart a \<and> list_all (\<lambda>b. \<not> RuneStart b) t \<and> (t \<noteq> [] \<longrightarrow> 0x80 \<le> uint a)"
  using assms by (cases s rule: well_formed.cases) (auto simp: RuneStart_iff cont_byte_def)

lemma DecodeLastRune_good:
  assumes "well_formed s"
  shows "DecodeLastRune (p @ s) = Some (word_of_int (scalar_value s), int (length s))"
proof -
  obtain a t where s: "s = a # t" "RuneStart a" "list_all (\<lambda>b. \<not> RuneStart b) t" "t \<noteq> [] \<longrightarrow> 0x80 \<le> uint a"
    using well_formed_shape [OF assms] by blast
  have small: "(ucast b :: rune) <s 0x80 \<longleftrightarrow> uint b < 0x80" for b :: byte
    using uint_byte [of b] by (simp add: sless_numeral_rune uint_byte_rune)
  show ?thesis
  proof (cases "t = []")
    case True
    then have "uint a < 0x80" using assms s(1) by simp
    then show ?thesis
      using True s(1) small by (simp add: DecodeLastRune_def Let_def idx_def nth_append)
  next
    case False
    define n where "n = int (length (p @ s))"
    have last: "idx (p @ s) (n - 1) = Some (last t)" "\<not> RuneStart (last t)"
      using False s(1,3) by (auto simp: n_def idx_def nth_append last_conv_nth list_all_iff nat_add_distrib)
    define lim where "lim = (if n - 4 < 0 then 0 else n - 4)"
    have lim: "0 \<le> lim" "lim \<le> int (length p)"
      using well_formed_length [OF assms] by (auto simp: lim_def n_def)
    obtain r where r: "DecodeLastRune_loop (p @ s) lim (n - 1 - 1) = Some r" "r \<le> n - 2"
        "r \<ge> lim \<longrightarrow> RuneStart ((p @ s) ! nat r)" "r < lim \<longrightarrow> r = n - 2 \<or> r = lim - 1"
        "\<forall>k. r < k \<and> k \<le> n - 2 \<longrightarrow> \<not> RuneStart ((p @ s) ! nat k)"
      using DecodeLastRune_loop_ok [of "n - 2" "p @ s" lim] lim False s(1) by (auto simp: n_def Suc_le_eq)
    have len: "n = int (length p) + 1 + int (length t)" using s(1) by (simp add: n_def)
    have t: "0 < length t" using False by simp
    have "(p @ s) ! length p = a" using s(1) by simp
    then have "int (length p) \<le> r"
      using r(5) [rule_format, of "int (length p)"] s(2) len t by (cases "r < int (length p)") auto
    moreover have "\<not> int (length p) < r"
    proof
      assume l: "int (length p) < r"
      define k where "k = nat r - length p - 1"
      have "nat r = length p + Suc k" "k < length t" using l r(2) len by (auto simp: k_def)
      then have "(p @ s) ! nat r = t ! k" using s(1) by (simp add: nth_append)
      then show False using r(3) lim l s(3) \<open>k < length t\<close> by (auto simp: list_all_length)
    qed
    ultimately have "r = int (length p)" by simp
    then have dec: "DecodeRune (drop (nat r) (p @ s)) = Some (word_of_int (scalar_value s), int (length s))"
      using DecodeRune_well_formed [OF assms, of "[]"] by simp
    have "\<not> (ucast (last t) :: rune) <s 0x80" using last(2) small [of "last t"] RuneStart_iff [of "last t"]
      by (simp add: cont_byte_def)
    then show ?thesis
      using last(1) r(1) dec \<open>r = int (length p)\<close> len s(1)
      unfolding DecodeLastRune_def n_def [symmetric] Let_def lim_def [symmetric] by simp
  qed
qed

lemma DecodeLastRune_bad:
  assumes "p \<noteq> []" "\<And>q s. p = q @ s \<Longrightarrow> \<not> well_formed s"
  shows "DecodeLastRune p = Some (RuneError, 1)"
proof -
  define n where "n = int (length p)"
  have small: "(ucast b :: rune) <s 0x80 \<longleftrightarrow> uint b < 0x80" for b :: byte
    using uint_byte [of b] by (simp add: sless_numeral_rune uint_byte_rune)
  have n: "1 \<le> n" using assms(1) by (simp add: n_def Suc_le_eq)
  have last: "idx p (n - 1) = Some (last p)"
    using assms(1) by (simp add: n_def idx_def last_conv_nth nat_diff_distrib Suc_le_eq)
  have "\<not> well_formed [last p]" using assms(2) [of "butlast p" "[last p]"] assms(1) by simp
  then have big: "\<not> (ucast (last p) :: rune) <s 0x80" using small by simp
  define lim where "lim = (if n - 4 < 0 then 0 else n - 4)"
  obtain r where r: "DecodeLastRune_loop p lim (n - 1 - 1) = Some r" "r \<le> n - 2"
  proof -
    have "0 \<le> lim" "-1 \<le> n - 2" "n - 2 < int (length p)" using n by (auto simp: lim_def n_def)
    then show ?thesis using that DecodeLastRune_loop_ok [of "n - 2" p lim] by auto
  qed
  define st where "st = (if r < 0 then 0 else r)"
  have ne: "drop (nat st) p \<noteq> []" using r(2) n by (auto simp: st_def n_def)
  obtain rn sz where d: "DecodeRune (drop (nat st) p) = Some (rn, sz)" "st + sz = n \<Longrightarrow> rn = RuneError \<and> sz = 1"
    using ne
  proof (cases rule: DecodeRune_cases)
    case (1 s q)
    have "p = (take (nat st) p @ s) @ q" using 1(1) by (metis append_assoc append_take_drop_id)
    moreover from this have "q \<noteq> []" using assms(2) [of "take (nat st) p" s] 1(2) by auto
    moreover have "int (length p) = st + int (length s) + int (length q)"
      using arg_cong [OF 1(1), of length] r(2) n by (auto simp: st_def n_def)
    ultimately show ?thesis using that [OF 1(3)] by (auto simp: n_def)
  next
    case 2
    then show ?thesis using that by blast
  qed
  show ?thesis
    using last big r(1) d n
    unfolding DecodeLastRune_def n_def [symmetric] Let_def lim_def [symmetric] by (auto simp flip: st_def)
qed

subsection \<open>Full runes\<close>

lemma well_formed_extends:
  "(\<exists>q. q \<noteq> [] \<and> well_formed ([a] @ q)) \<longleftrightarrow> 0xC2 \<le> uint a \<and> uint a \<le> 0xF4"
  "(\<exists>q. q \<noteq> [] \<and> well_formed ([a, b] @ q)) \<longleftrightarrow> 0xE0 \<le> uint a \<and> uint a \<le> 0xF4 \<and> cont_byte b
     \<and> (uint a = 0xE0 \<longrightarrow> 0xA0 \<le> uint b) \<and> (uint a = 0xED \<longrightarrow> uint b \<le> 0x9F)
     \<and> (uint a = 0xF0 \<longrightarrow> 0x90 \<le> uint b) \<and> (uint a = 0xF4 \<longrightarrow> uint b \<le> 0x8F)"
  "(\<exists>q. q \<noteq> [] \<and> well_formed ([a, b, c] @ q)) \<longleftrightarrow> 0xF0 \<le> uint a \<and> uint a \<le> 0xF4 \<and> cont_byte b \<and> cont_byte c
     \<and> (uint a = 0xF0 \<longrightarrow> 0x90 \<le> uint b) \<and> (uint a = 0xF4 \<longrightarrow> uint b \<le> 0x8F)"
proof -
  have c: "cont_byte 0x80" "cont_byte 0xA0" "cont_byte 0x90" by (simp_all add: cont_byte_def)
  show "(\<exists>q. q \<noteq> [] \<and> well_formed ([a] @ q)) \<longleftrightarrow> 0xC2 \<le> uint a \<and> uint a \<le> 0xF4" (is "?l \<longleftrightarrow> ?r")
  proof
    assume ?l
    then obtain q where "q \<noteq> []" "well_formed (a # q)" by auto
    then show ?r by (cases q rule: byte_list_cases) (auto elim: well_formed.elims)
  next
    assume r: ?r
    consider "uint a \<le> 0xDF" | "uint a = 0xE0" | "0xE0 < uint a" "uint a \<le> 0xEF" | "uint a = 0xF0" | "0xF0 < uint a" by linarith
    then show ?l
    proof cases
      case 1
      then show ?thesis using r c by (intro exI [of _ "[0x80]"]) simp
    next
      case 2
      then show ?thesis using c by (intro exI [of _ "[0xA0, 0x80]"]) simp
    next
      case 3
      then show ?thesis using c by (intro exI [of _ "[0x80, 0x80]"]) simp
    next
      case 4
      then show ?thesis using c by (intro exI [of _ "[0x90, 0x80, 0x80]"]) simp
    next
      case 5
      then show ?thesis using r c by (intro exI [of _ "[0x80, 0x80, 0x80]"]) simp
    qed
  qed
  show "(\<exists>q. q \<noteq> [] \<and> well_formed ([a, b] @ q)) \<longleftrightarrow> 0xE0 \<le> uint a \<and> uint a \<le> 0xF4 \<and> cont_byte b
     \<and> (uint a = 0xE0 \<longrightarrow> 0xA0 \<le> uint b) \<and> (uint a = 0xED \<longrightarrow> uint b \<le> 0x9F)
     \<and> (uint a = 0xF0 \<longrightarrow> 0x90 \<le> uint b) \<and> (uint a = 0xF4 \<longrightarrow> uint b \<le> 0x8F)" (is "?l \<longleftrightarrow> ?r")
  proof
    assume ?l
    then obtain q where "q \<noteq> []" "well_formed (a # b # q)" by auto
    then show ?r by (cases q rule: byte_list_cases) (auto elim: well_formed.elims)
  next
    assume r: ?r
    then show ?l
      using c by (cases "uint a \<le> 0xEF") (intro exI [of _ "[0x80]"], simp, intro exI [of _ "[0x80, 0x80]"], simp)
  qed
  show "(\<exists>q. q \<noteq> [] \<and> well_formed ([a, b, c] @ q)) \<longleftrightarrow> 0xF0 \<le> uint a \<and> uint a \<le> 0xF4 \<and> cont_byte b \<and> cont_byte c
     \<and> (uint a = 0xF0 \<longrightarrow> 0x90 \<le> uint b) \<and> (uint a = 0xF4 \<longrightarrow> uint b \<le> 0x8F)" (is "?l \<longleftrightarrow> ?r")
  proof
    assume ?l
    then obtain q where "q \<noteq> []" "well_formed (a # b # c # q)" by auto
    then show ?r by (cases q rule: byte_list_cases) (auto elim: well_formed.elims)
  next
    assume r: ?r
    then show ?l using c by (intro exI [of _ "[0x80]"]) simp
  qed
qed

lemma FullRune_ok: "FullRune p = Some (\<not> (\<exists>q. q \<noteq> [] \<and> well_formed (p @ q)))"
proof -
  note defs = FullRune_def Let_def idx_def utf8_first_uint word_less_def cont_byte_def
  consider "p = []" | a where "p = [a]" | a b where "p = [a, b]" | a b c where "p = [a, b, c]"
    | a b c d r where "p = a # b # c # d # r" by (metis list.exhaust)
  then show ?thesis
  proof cases
    case 1
    then show ?thesis by (auto simp: FullRune_def intro!: exI [of _ "[0]"])
  next
    case 2
    then show ?thesis unfolding 2 well_formed_extends by (cases a rule: lead_byte_cases; simp add: defs)
  next
    case 3
    then show ?thesis unfolding 3 well_formed_extends by (cases a rule: lead_byte_cases; simp add: defs; auto)
  next
    case 4
    then show ?thesis unfolding 4 well_formed_extends by (cases a rule: lead_byte_cases; simp add: defs; auto)
  next
    case 5
    have "\<not> well_formed (p @ q)" if "q \<noteq> []" for q
      using 5 that well_formed_length [of "p @ q"] by (cases q) auto
    moreover have "FullRune p = Some True" unfolding 5 by (cases a rule: lead_byte_cases; simp add: defs)
    ultimately show ?thesis by auto
  qed
qed

subsection \<open>Properties\<close>

lemma rune_of_scalar: "well_formed s \<Longrightarrow> uint (word_of_int (scalar_value s) :: rune) = scalar_value s"
  using utf8_bytes_scalar_value(1) [of s] by (simp add: uint_word_of_int scalar_def)

text \<open>EncodeRune panics when the encoding does not fit.\<close>

lemma EncodeRune_fits: "EncodeRune p r = Some (q, n) \<Longrightarrow> n \<le> int (length p)"
  by (auto simp: EncodeRune_def EncodeRune3_def Let_def idx_def upd_def bind_eq_Some_conv Suc_le_eq split: if_splits)

lemma DecodeRune_EncodeRune_full:
  assumes "ValidRune r" "RuneLen r \<le> int (length p)"
  shows "\<exists>p'. EncodeRune p r = Some (p', RuneLen r) \<and> DecodeRune p' = Some (r, RuneLen r)
    \<and> length p' = length p \<and> drop (nat (RuneLen r)) p' = drop (nat (RuneLen r)) p"
proof -
  let ?u = "utf8_bytes (uint r)"
  have r: "scalar (uint r)" using assms(1) by (simp add: ValidRune_scalar)
  note len = RuneLen_scalar [OF r]
  have "EncodeRune p r = Some (?u @ drop (length ?u) p, int (length ?u))"
    using EncodeRune_scalar [OF r] assms(2) len by simp
  moreover have "DecodeRune (?u @ drop (length ?u) p) = Some (r, int (length ?u))"
    using DecodeRune_well_formed [OF well_formed_utf8_bytes(1) [OF r]] well_formed_utf8_bytes(2) [OF r] by simp
  ultimately show ?thesis using len assms(2) by auto
qed

text \<open>
  C21 (round trip). Encoding a valid rune into a long enough buffer and decoding the buffer gives the rune
  back, with the width RuneLen announces; the bytes after it are untouched.
\<close>

theorem DecodeRune_EncodeRune:
  assumes "ValidRune r" "RuneLen r \<le> int (length p)"
  shows "\<exists>p'. EncodeRune p r = Some (p', RuneLen r) \<and> DecodeRune p' = Some (r, RuneLen r)
    \<and> length p' = length p \<and> drop (nat (RuneLen r)) p' = drop (nat (RuneLen r)) p"
  by (rule DecodeRune_EncodeRune_full [OF assms])

lemma DecodeRune_EncodeRune_witness:
  "\<exists>p'. EncodeRune [0, 0, 0, 7] 0x20AC = Some (p', RuneLen 0x20AC) \<and> DecodeRune p' = Some (0x20AC, RuneLen 0x20AC)
    \<and> length p' = length [0, 0, 0, 7 :: byte] \<and> drop (nat (RuneLen 0x20AC)) p' = drop (nat (RuneLen 0x20AC)) [0, 0, 0, 7]"
  by (rule DecodeRune_EncodeRune) code_simp+

text \<open>
  C25 (strict decoding). DecodeRune returns a rune with its width, other than the error pair (U+FFFD, 1), exactly when the rune is
  valid and the text begins with the encoding that EncodeRune writes for it: writing it back changes nothing, so that overlong forms,
  surrogates and values out of range are rejected and nothing else is. On every other text that is not empty it returns the error pair.
\<close>

theorem DecodeRune_sound:
  assumes "p \<noteq> []"
  shows "(DecodeRune p = Some (r, n) \<and> \<not> (r = RuneError \<and> n = 1) \<longleftrightarrow> ValidRune r \<and> n = RuneLen r \<and> EncodeRune p r = Some (p, n))
    \<and> (DecodeRune p = Some (RuneError, 1) \<longleftrightarrow> \<not> (\<exists>r. ValidRune r \<and> EncodeRune p r = Some (p, RuneLen r)))"
proof -
  have encoded: "DecodeRune p = Some (r, RuneLen r) \<and> \<not> (r = RuneError \<and> RuneLen r = 1)" if "ValidRune r" "EncodeRune p r = Some (p, RuneLen r)" for r
  proof -
    have "RuneLen r \<le> int (length p)" by (rule EncodeRune_fits [OF that(2)])
    then obtain p' where "EncodeRune p r = Some (p', RuneLen r)" "DecodeRune p' = Some (r, RuneLen r)"
      using DecodeRune_EncodeRune_full [OF \<open>ValidRune r\<close>] by blast
    moreover have "RuneLen RuneError \<noteq> 1" by code_simp
    ultimately show ?thesis using that(2) by auto
  qed
  show ?thesis using assms
  proof (cases rule: DecodeRune_cases)
    case (1 s q)
    define c where "c = (word_of_int (scalar_value s) :: rune)"
    have v: "uint c = scalar_value s" unfolding c_def by (rule rune_of_scalar [OF 1(2)])
    have sc: "scalar (uint c)" using utf8_bytes_scalar_value(1) [OF 1(2)] v by simp
    have u: "utf8_bytes (uint c) = s" using utf8_bytes_scalar_value(2) [OF 1(2)] v by simp
    have c: "DecodeRune p = Some (c, RuneLen c)" "ValidRune c" "EncodeRune p c = Some (p, RuneLen c)"
      using 1(1,3) sc u EncodeRune_scalar [OF sc, of p] RuneLen_scalar [OF sc] by (simp_all add: ValidRune_scalar c_def)
    show ?thesis
    proof (rule conjI, rule iffI)
      assume "DecodeRune p = Some (r, n) \<and> \<not> (r = RuneError \<and> n = 1)"
      then have "Some (c, RuneLen c) = Some (r, n)" using c(1) by metis
      then have "c = r" "RuneLen c = n" by blast+
      then show "ValidRune r \<and> n = RuneLen r \<and> EncodeRune p r = Some (p, n)" using c(2,3) by blast
    next
      assume e: "ValidRune r \<and> n = RuneLen r \<and> EncodeRune p r = Some (p, n)"
      then show "DecodeRune p = Some (r, n) \<and> \<not> (r = RuneError \<and> n = 1)" using encoded [of r] by blast
    next
      have "DecodeRune p \<noteq> Some (RuneError, 1)" using encoded [OF c(2,3)] by auto
      then show "DecodeRune p = Some (RuneError, 1) \<longleftrightarrow> \<not> (\<exists>r. ValidRune r \<and> EncodeRune p r = Some (p, RuneLen r))" using c(2,3) by blast
    qed
  next
    case 2
    then show ?thesis using encoded by auto
  qed
qed

lemma DecodeRune_sound_witness:
  "DecodeRune [0xE2, 0x82, 0xAC, 1] = Some (0x20AC, 3) \<and> DecodeRune [0xE0, 0x82, 0xAC] = Some (RuneError, 1)
    \<and> \<not> (\<exists>r. ValidRune r \<and> EncodeRune [0xE0, 0x82, 0xAC] r = Some ([0xE0, 0x82, 0xAC], RuneLen r))"
proof -
  have "ValidRune 0x20AC \<and> 3 = RuneLen 0x20AC \<and> EncodeRune [0xE2, 0x82, 0xAC, 1] 0x20AC = Some ([0xE2, 0x82, 0xAC, 1], 3)" by code_simp
  then have "DecodeRune [0xE2, 0x82, 0xAC, 1] = Some (0x20AC, 3)" using DecodeRune_sound [of "[0xE2, 0x82, 0xAC, 1]" "0x20AC" 3] by blast
  moreover have "DecodeRune [0xE0, 0x82, 0xAC] = Some (RuneError, 1)" by code_simp
  ultimately show ?thesis using DecodeRune_sound [of "[0xE0, 0x82, 0xAC]" RuneError 1] by blast
qed

text \<open>
  Invalid runes. EncodeRune writes the encoding of U+FFFD for every rune that is not valid.
\<close>

theorem EncodeRune_replaces_invalid:
  assumes "\<not> ValidRune r" "3 \<le> length p"
  shows "EncodeRune p r = Some ([0xEF, 0xBF, 0xBD] @ drop 3 p, 3) \<and> DecodeRune [0xEF, 0xBF, 0xBD] = Some (RuneError, 3)"
proof -
  have "EncodeRune p r = EncodeRune3 p RuneError" using assms(1) by (simp add: EncodeRune_invalid ValidRune_scalar)
  moreover have "DecodeRune [0xEF, 0xBF, 0xBD] = Some (RuneError, 3)" by code_simp
  ultimately show ?thesis using EncodeRune3_eq [of RuneError p] assms(2) by simp
qed

lemma EncodeRune_replaces_invalid_witness:
  "EncodeRune [0, 0, 0] 0xD800 = Some ([0xEF, 0xBF, 0xBD] @ drop 3 [0, 0, 0], 3)
    \<and> DecodeRune [0xEF, 0xBF, 0xBD] = Some (RuneError, 3)"
  by (rule EncodeRune_replaces_invalid) (code_simp, simp)

text \<open>
  C22 (Valid). Valid, with its eight-bytes-at-a-time fast path, decides exactly the texts that are
  concatenations of well-formed sequences, and never reads out of range.
\<close>

theorem Valid_correct: "Valid p = Some (utf8_text p)"
  using Valid_loop_ok [of 0 "Valid_fast p"] Valid_fast_ok [of p] by (simp add: Valid_def Let_def)

text \<open>
  RuneCount. RuneCount, which does not decode, returns the number of runes that decoding the bytes one by
  one visits, erroneous bytes counted singly.
\<close>

theorem RuneCount_correct: "RuneCount p = Some (int (length (decode_all p)))"
  using RuneCount_loop_ok [of 0 p 0] by (simp add: RuneCount_def)

text \<open>
  DecodeLastRune. The last rune of a non-empty text is the well-formed sequence it ends in, and the
  erroneous byte when no suffix is well-formed.
\<close>

theorem DecodeLastRune_correct:
  assumes "p \<noteq> []"
  shows "(\<exists>q s. p = q @ s \<and> well_formed s \<and> DecodeLastRune p = Some (word_of_int (scalar_value s), int (length s)))
    \<or> (\<not> (\<exists>q s. p = q @ s \<and> well_formed s) \<and> DecodeLastRune p = Some (RuneError, 1))"
  using DecodeLastRune_good DecodeLastRune_bad [OF assms] by metis

lemma DecodeLastRune_correct_witness:
  "(\<exists>q s. [65, 0xE2, 0x82, 0xAC] = q @ s \<and> well_formed s
      \<and> DecodeLastRune [65, 0xE2, 0x82, 0xAC] = Some (word_of_int (scalar_value s), int (length s)))
    \<or> (\<not> (\<exists>q s. [65, 0xE2, 0x82, 0xAC] = q @ s \<and> well_formed s) \<and> DecodeLastRune [65, 0xE2, 0x82, 0xAC] = Some (RuneError, 1))"
  by (rule DecodeLastRune_correct) simp

text \<open>
  FullRune. FullRune is false exactly for the proper prefixes of well-formed sequences.
\<close>

theorem FullRune_correct: "FullRune p = Some (\<not> (\<exists>q. q \<noteq> [] \<and> well_formed (p @ q)))"
  by (rule FullRune_ok)

end
