(* ===== verification/Utf16.thy ===== *)
theory Utf16
  imports Utf8
begin

text \<open>
  \<^verbatim>\<open>unicode/utf16/utf16.go\<close>: surrogate pairs, and the conversion of whole texts. The result arrays are
  allocated by a first pass, so the model fills a list of zeros by checked index.
\<close>

subsection \<open>Operations\<close>

definition IsSurrogate :: "rune \<Rightarrow> bool" where
  "IsSurrogate r \<longleftrightarrow> 0xD800 \<le>s r \<and> r <s 0xE000"

definition utf16_DecodeRune :: "rune \<Rightarrow> rune \<Rightarrow> rune" where
  "utf16_DecodeRune r1 r2 =
     (if 0xD800 \<le>s r1 \<and> r1 <s 0xDC00 \<and> 0xDC00 \<le>s r2 \<and> r2 <s 0xE000
      then (push_bit 10 (r1 - 0xD800) OR (r2 - 0xDC00)) + 0x10000
      else RuneError)"

definition utf16_EncodeRune :: "rune \<Rightarrow> rune \<times> rune" where
  "utf16_EncodeRune r =
     (if r <s 0x10000 \<or> MaxRune <s r then (RuneError, RuneError)
      else let r = r - 0x10000 in
        (0xD800 + (signed_drop_bit 10 r AND 0x3FF), 0xDC00 + (r AND 0x3FF)))"

text \<open>The size the first loop of Encode computes.\<close>

fun utf16_count :: "rune list \<Rightarrow> int \<Rightarrow> int" where
  "utf16_count [] n = n"
| "utf16_count (v # s) n = utf16_count s (if 0x10000 \<le>s v then n + 1 else n)"

fun utf16_Encode_loop :: "rune list \<Rightarrow> uint16 list \<Rightarrow> int \<Rightarrow> (uint16 list \<times> int) option" where
  "utf16_Encode_loop [] a n = Some (a, n)"
| "utf16_Encode_loop (v # s) a n =
     (if (0 \<le>s v \<and> v <s 0xD800) \<or> (0xE000 \<le>s v \<and> v <s 0x10000) then
        do { a \<leftarrow> upd a n (ucast v); utf16_Encode_loop s a (n + 1) }
      else if 0x10000 \<le>s v \<and> v \<le>s MaxRune then
        (let (r1, r2) = utf16_EncodeRune v in
         do { a \<leftarrow> upd a n (ucast r1); a \<leftarrow> upd a (n + 1) (ucast r2); utf16_Encode_loop s a (n + 2) })
      else do { a \<leftarrow> upd a n (ucast (RuneError :: rune)); utf16_Encode_loop s a (n + 1) })"

definition utf16_Encode :: "rune list \<Rightarrow> uint16 list option" where
  "utf16_Encode s =
     (let n = utf16_count s (int (length s)); a = replicate (nat n) 0 in
      do { (a, n) \<leftarrow> utf16_Encode_loop s a 0; Some (take (nat n) a) })"

partial_function (option) utf16_Decode_loop ::
  "uint16 list \<Rightarrow> int \<Rightarrow> rune list \<Rightarrow> int \<Rightarrow> (rune list \<times> int) option" where
  "utf16_Decode_loop s i a n =
     (if i < int (length s) then
        do {
          r \<leftarrow> idx s i;
          if r < 0xD800 \<or> 0xE000 \<le> r then
            do { a \<leftarrow> upd a n (ucast r); utf16_Decode_loop s (i + 1) a (n + 1) }
          else do {
            pair \<leftarrow> (if 0xD800 \<le> r \<and> r < 0xDC00 \<and> i + 1 < int (length s)
                     then do { r2 \<leftarrow> idx s (i + 1); Some (0xDC00 \<le> r2 \<and> r2 < 0xE000) } else Some False);
            if pair then
              do {
                r2 \<leftarrow> idx s (i + 1);
                a \<leftarrow> upd a n (utf16_DecodeRune (ucast r) (ucast r2));
                utf16_Decode_loop s (i + 2) a (n + 1)
              }
            else do { a \<leftarrow> upd a n RuneError; utf16_Decode_loop s (i + 1) a (n + 1) }
          }
        }
      else Some (a, n))"

definition utf16_Decode :: "uint16 list \<Rightarrow> rune list option" where
  "utf16_Decode s =
     (let a = replicate (length s) 0 in
      do { (a, n) \<leftarrow> utf16_Decode_loop s 0 a 0; Some (take (nat n) a) })"

declare utf16_Decode_loop.simps [code]

subsection \<open>Surrogate pairs\<close>

lemmas rune_cmp = word_sless_alt word_sle_eq sint_rune_if

lemma uint_minus_word: "uint b \<le> uint a \<Longrightarrow> uint (a - b :: 'a::len word) = uint a - uint b"
  by (metis uint_sub_lem)

lemma uint_plus_rune: "uint a + uint b < 2 ^ 32 \<Longrightarrow> uint (a + b :: rune) = uint a + uint b"
  using uint_add_lem [of a b] by simp

lemma utf16_EncodeRune_values:
  assumes "0x10000 \<le> uint r" "uint r \<le> 0x10FFFF"
  obtains h l where "utf16_EncodeRune r = (h, l)" "uint h = 0xD800 + (uint r - 0x10000) div 1024"
    "uint l = 0xDC00 + (uint r - 0x10000) mod 1024"
proof -
  let ?x = "r - 0x10000"
  have x: "uint ?x = uint r - 0x10000" using assms(1) uint_minus_word [of "0x10000" r] by simp
  then have hi: "uint (signed_drop_bit 10 ?x) = (uint r - 0x10000) div 1024"
    using uint_signed_drop_bit_rune [of ?x 10] assms by simp
  have d: "(uint r - 0x10000) div 1024 < 1024" "0 \<le> (uint r - 0x10000) div 1024"
    using assms by (simp_all add: div_less_iff_less_mult pos_imp_zdiv_nonneg_iff)
  have "uint (0xD800 + (signed_drop_bit 10 ?x AND 0x3FF)) = 0xD800 + (uint r - 0x10000) div 1024"
    using d hi by (subst uint_plus_rune) (simp_all add: uint_and_mod)
  moreover have "uint (0xDC00 + (?x AND 0x3FF)) = 0xDC00 + (uint r - 0x10000) mod 1024"
    using x pos_mod_bound [of 1024 "uint r - 0x10000"] by (subst uint_plus_rune) (simp_all add: uint_and_mod)
  moreover have "utf16_EncodeRune r = (0xD800 + (signed_drop_bit 10 ?x AND 0x3FF), 0xDC00 + (?x AND 0x3FF))"
    using assms by (simp add: utf16_EncodeRune_def rune_cmp Let_def)
  ultimately show ?thesis using that by blast
qed

lemma utf16_DecodeRune_values:
  assumes "0xD800 \<le> uint h" "uint h < 0xDC00" "0xDC00 \<le> uint l" "uint l < 0xE000"
  shows "utf16_DecodeRune h l = word_of_int ((uint h - 0xD800) * 1024 + (uint l - 0xDC00) + 0x10000)"
proof -
  have h: "uint (h - 0xD800) = uint h - 0xD800" using uint_minus_word [of "0xD800" h] assms by simp
  have l: "uint (l - 0xDC00) = uint l - 0xDC00" using uint_minus_word [of "0xDC00" l] assms by simp
  have p: "uint (push_bit 10 (h - 0xD800)) = (uint h - 0xD800) * 1024"
    unfolding unsigned_push_bit_eq h using assms by (simp add: push_bit_eq_mult take_bit_int_eq_self)
  have o: "uint (push_bit 10 (h - 0xD800) OR (l - 0xDC00)) = (uint h - 0xD800) * 1024 + (uint l - 0xDC00)"
    using p l assms by (subst uint_or_plus [where k = 10]) simp_all
  have "uint ((push_bit 10 (h - 0xD800) OR (l - 0xDC00)) + 0x10000) = (uint h - 0xD800) * 1024 + (uint l - 0xDC00) + 0x10000"
    using o assms by (subst uint_plus_rune) simp_all
  then have "(push_bit 10 (h - 0xD800) OR (l - 0xDC00)) + 0x10000 = word_of_int ((uint h - 0xD800) * 1024 + (uint l - 0xDC00) + 0x10000)"
    by (metis word_of_int_uint)
  then show ?thesis using assms by (simp add: utf16_DecodeRune_def rune_cmp)
qed

lemma utf16_pair:
  assumes "0x10000 \<le> uint r" "uint r \<le> 0x10FFFF"
  obtains h l where "utf16_EncodeRune r = (h, l)" "0xD800 \<le> uint h" "uint h < 0xDC00" "0xDC00 \<le> uint l" "uint l < 0xE000"
    "utf16_DecodeRune h l = r"
proof -
  obtain h l where hl: "utf16_EncodeRune r = (h, l)" "uint h = 0xD800 + (uint r - 0x10000) div 1024"
    "uint l = 0xDC00 + (uint r - 0x10000) mod 1024" using utf16_EncodeRune_values [OF assms] .
  have d: "(uint r - 0x10000) div 1024 < 1024" "0 \<le> (uint r - 0x10000) div 1024"
    using assms by (simp_all add: div_less_iff_less_mult pos_imp_zdiv_nonneg_iff)
  have m: "0 \<le> (uint r - 0x10000) mod 1024" "(uint r - 0x10000) mod 1024 < 1024" by simp_all
  have b: "0xD800 \<le> uint h" "uint h < 0xDC00" "0xDC00 \<le> uint l" "uint l < 0xE000" using hl d m by linarith+
  have "(uint h - 0xD800) * 1024 + (uint l - 0xDC00) + 0x10000 = uint r"
    unfolding hl(2,3) using div_mult_mod_eq [of "uint r - 0x10000" 1024] by (simp add: algebra_simps)
  then have "utf16_DecodeRune h l = r" using utf16_DecodeRune_values [OF b] by simp
  then show ?thesis using that hl(1) b by blast
qed

subsection \<open>Texts\<close>

text \<open>What one rune becomes, and what a reader that pairs surrogates makes of a sequence of units.\<close>

definition units_of :: "rune \<Rightarrow> uint16 list" where
  "units_of v =
     (if uint v < 0xD800 \<or> (0xE000 \<le> uint v \<and> uint v < 0x10000) then [ucast v]
      else if 0x10000 \<le> uint v \<and> uint v \<le> 0x10FFFF
      then (case utf16_EncodeRune v of (h, l) \<Rightarrow> [ucast h, ucast l])
      else [0xFFFD])"

definition high_unit :: "uint16 \<Rightarrow> bool" where
  "high_unit u \<longleftrightarrow> 0xD800 \<le> uint u \<and> uint u < 0xDC00"

definition low_unit :: "uint16 \<Rightarrow> bool" where
  "low_unit u \<longleftrightarrow> 0xDC00 \<le> uint u \<and> uint u < 0xE000"

fun runes_of :: "uint16 list \<Rightarrow> rune list" where
  "runes_of [] = []"
| "runes_of [u] = [if high_unit u \<or> low_unit u then RuneError else ucast u]"
| "runes_of (u # v # us) =
     (if high_unit u \<and> low_unit v then utf16_DecodeRune (ucast u) (ucast v) # runes_of us
      else (if high_unit u \<or> low_unit u then RuneError else ucast u) # runes_of (v # us))"

lemma upd_array:
  assumes "int (length a) = n"
  shows "upd (a @ x # b) n v = Some (a @ v # b)"
proof -
  have "nat n = length a" "0 \<le> n" using assms by auto
  then show ?thesis using assms by (simp add: upd_def)
qed

lemma rune_class:
  "((0 \<le>s v \<and> v <s 0xD800) \<or> (0xE000 \<le>s v \<and> v <s 0x10000))
     = (uint v < 0xD800 \<or> (0xE000 \<le> uint v \<and> uint v < 0x10000))"
  "(0x10000 \<le>s v \<and> v \<le>s MaxRune) = (0x10000 \<le> uint v \<and> uint v \<le> 0x10FFFF)"
  for v :: rune
  using uint_rune_bound [of v] by (auto simp: rune_cmp)

lemma utf16_Encode_loop_ok:
  "int (length a) = n \<Longrightarrow> length (concat (map units_of s)) \<le> k \<Longrightarrow>
   utf16_Encode_loop s (a @ replicate k 0) n
     = Some (a @ concat (map units_of s) @ replicate (k - length (concat (map units_of s))) 0,
             n + int (length (concat (map units_of s))))"
proof (induction s arbitrary: a n k)
  case (Cons v s)
  have shift: "utf16_Encode_loop s ((a @ us) @ replicate (k - length us) 0) (n + int (length us))
      = Some ((a @ us) @ concat (map units_of s) @ replicate (k - length us - length (concat (map units_of s))) 0,
             n + int (length us) + int (length (concat (map units_of s))))"
    if "units_of v = us" for us
    using Cons.IH [of "a @ us" "n + int (length us)" "k - length us"] Cons.prems that by simp
  consider (bmp) "uint v < 0xD800 \<or> (0xE000 \<le> uint v \<and> uint v < 0x10000)"
    | (pair) "\<not> (uint v < 0xD800 \<or> (0xE000 \<le> uint v \<and> uint v < 0x10000))" "0x10000 \<le> uint v \<and> uint v \<le> 0x10FFFF"
    | (bad) "\<not> (uint v < 0xD800 \<or> (0xE000 \<le> uint v \<and> uint v < 0x10000))" "\<not> (0x10000 \<le> uint v \<and> uint v \<le> 0x10FFFF)"
    by blast
  then show ?case
  proof cases
    case bmp
    then have u: "units_of v = [ucast v]" by (simp add: units_of_def)
    then obtain k' where k: "k = Suc k'" using Cons.prems(2) by (cases k) auto
    then show ?thesis
      using bmp shift [OF u] u by (simp add: rune_class upd_array [OF Cons.prems(1)])
  next
    case pair
    obtain h l where hl: "utf16_EncodeRune v = (h, l)" by (cases "utf16_EncodeRune v")
    then have u: "units_of v = [ucast h, ucast l]" using pair by (simp add: units_of_def)
    then obtain k' where k: "k = Suc (Suc k')" using Cons.prems(2) by (cases k; cases "k - 1") auto
    have "upd ((a @ [ucast h]) @ 0 # replicate k' 0) (n + 1) (ucast l) = Some ((a @ [ucast h]) @ ucast l # replicate k' 0)"
      by (rule upd_array) (use Cons.prems(1) in simp)
    then show ?thesis
      using pair k shift [OF u] u hl by (simp add: rune_class upd_array [OF Cons.prems(1)])
  next
    case bad
    then have u: "units_of v = [0xFFFD]" by (auto simp: units_of_def)
    then obtain k' where k: "k = Suc k'" using Cons.prems(2) by (cases k) auto
    then show ?thesis
      using bad shift [OF u] u by (auto simp: rune_class upd_array [OF Cons.prems(1)])
  qed
qed simp

lemma utf16_count_ok: "n + int (length (concat (map units_of s))) \<le> utf16_count s (n + int (length s))"
proof (induction s arbitrary: n)
  case (Cons v s)
  have len: "int (length (units_of v)) \<le> 1 + (if 0x10000 \<le>s v then 1 else 0)"
    using uint_rune_bound [of v] by (auto simp: units_of_def rune_cmp split: prod.splits)
  then show ?case
    using Cons.IH [of "n + 1"] Cons.IH [of "n + 2"] by (cases "0x10000 \<le>s v") (simp_all add: algebra_simps)
qed simp

lemma utf16_Encode_ok: "utf16_Encode s = Some (concat (map units_of s))"
proof -
  let ?u = "concat (map units_of s)" and ?n = "nat (utf16_count s (int (length s)))"
  have "length ?u \<le> ?n" using utf16_count_ok [of 0 s] by (simp add: le_nat_iff)
  then have "utf16_Encode_loop s (replicate ?n 0) 0 = Some (?u @ replicate (?n - length ?u) 0, int (length ?u))"
    using utf16_Encode_loop_ok [of "[]" 0 s ?n] by simp
  then show ?thesis by (simp add: utf16_Encode_def Let_def)
qed

lemma uint_uint16_rune: "uint (ucast (u::uint16) :: rune) = uint u"
proof -
  have "uint u < 2 ^ 16" using unsigned_less [of u, where 'a = int] by simp
  then show ?thesis by (simp add: unsigned_ucast_eq take_bit_int_eq_self)
qed

lemma uint_rune_uint16: "uint (r::rune) < 2 ^ 16 \<Longrightarrow> uint (ucast r :: uint16) = uint r"
  by (simp add: unsigned_ucast_eq take_bit_int_eq_self)

lemma runes_of_length: "length (runes_of s) \<le> length s"
  by (induction s rule: runes_of.induct) auto

lemma utf16_Decode_loop_end: "\<not> i < int (length s) \<Longrightarrow> utf16_Decode_loop s i a n = Some (a, n)"
  by (simp add: utf16_Decode_loop.simps [of s i])

lemma utf16_Decode_loop_ok:
  assumes "0 \<le> i" "i \<le> int (length s)" "int (length a) = n" "length (runes_of (drop (nat i) s)) \<le> k"
  shows "utf16_Decode_loop s i (a @ replicate k 0) n
    = Some (a @ runes_of (drop (nat i) s) @ replicate (k - length (runes_of (drop (nat i) s))) 0,
            n + int (length (runes_of (drop (nat i) s))))"
  using assms
proof (induction "nat (int (length s) - i)" arbitrary: i a n k rule: less_induct)
  case less
  let ?w = "drop (nat i) s"
  show ?case
  proof (cases "i < int (length s)")
    case False
    then show ?thesis using less.prems utf16_Decode_loop_end [OF False] by simp
  next
    case True
    have at: "idx s i = idx ?w 0" "idx s (i + 1) = idx ?w 1"
      using True less.prems(1) by (auto simp: idx_def nat_add_distrib)
    obtain u us where w: "?w = u # us" using True less.prems(1) by (cases ?w) auto
    have len: "int (length s) - i = 1 + int (length us)"
      using arg_cong [OF w, of length] True less.prems(1) by simp
    have "length (runes_of ?w) \<noteq> 0" using w by (cases us) auto
    then obtain k' where k: "k = Suc k'" using less.prems(4) by (cases k) auto
    have tail: "drop (nat (i + 1)) s = us" "drop (nat (i + 2)) s = drop 1 us"
    proof -
      have "drop (Suc m) s = tl (drop m s)" for m by (simp add: drop_Suc tl_drop)
      then show "drop (nat (i + 1)) s = us" "drop (nat (i + 2)) s = drop 1 us"
        using w less.prems(1) by (simp_all add: nat_add_distrib drop_Suc [of 0])
    qed
    have IH: "utf16_Decode_loop s (i + j) ((a @ [x]) @ replicate k' 0) (n + 1)
        = Some ((a @ [x]) @ runes_of (drop (nat (i + j)) s) @ replicate (k' - length (runes_of (drop (nat (i + j)) s))) 0,
            n + 1 + int (length (runes_of (drop (nat (i + j)) s))))"
      if "0 < j" "i + j \<le> int (length s)" "length (runes_of (drop (nat (i + j)) s)) \<le> k'" for x j
      using less.hyps [of "i + j" "a @ [x]" "n + 1" k'] that less.prems by simp
    note cmp = word_less_def word_le_def
    have arr: "upd (a @ replicate k 0) n x = Some ((a @ [x]) @ replicate k' 0)" for x
      using upd_array [OF less.prems(3)] k by simp
    show ?thesis
    proof (cases "high_unit u \<or> low_unit u")
      case False
      then have "u < 0xD800 \<or> 0xE000 \<le> u" by (auto simp: high_unit_def low_unit_def cmp)
      moreover have "runes_of ?w = ucast u # runes_of us" using False w by (cases us) auto
      ultimately show ?thesis
        using IH [of 1 "ucast u"] True at(1) w tail(1) arr len k less.prems(4)
        by (simp add: utf16_Decode_loop.simps [of s i] idx_def)
    next
      case sur: True
      then have c: "\<not> (u < 0xD800 \<or> 0xE000 \<le> u)" "0xD800 \<le> u" "(u < 0xDC00) = high_unit u"
        by (auto simp: high_unit_def low_unit_def cmp)
      show ?thesis
      proof (cases "\<exists>v vs. us = v # vs \<and> high_unit u \<and> low_unit v")
        case True
        then obtain v vs where v: "us = v # vs" "high_unit u" "low_unit v" by blast
        then have lv: "0xDC00 \<le> v" "v < 0xE000" by (simp_all add: low_unit_def cmp)
        show ?thesis
          using IH [of 2 "utf16_DecodeRune (ucast u) (ucast v)"] \<open>i < int (length s)\<close> at w v lv c tail(2) arr len k less.prems(4)
          by (simp add: utf16_Decode_loop.simps [of s i] idx_def)
      next
        case False
        have pair: "(if 0xD800 \<le> u \<and> u < 0xDC00 \<and> i + 1 < int (length s)
            then do { r2 \<leftarrow> idx s (i + 1); Some (0xDC00 \<le> r2 \<and> r2 < 0xE000) } else Some False) = Some False"
        proof (cases us)
          case Nil
          then show ?thesis using len by simp
        next
          case (Cons v vs)
          then have "(0xDC00 \<le> v \<and> v < 0xE000) = low_unit v" by (simp add: low_unit_def cmp)
          then show ?thesis using Cons False at(2) w c by (auto simp: idx_def)
        qed
        have "runes_of ?w = RuneError # runes_of us" using False sur w by (cases us) auto
        then show ?thesis
          using IH [of 1 RuneError] \<open>i < int (length s)\<close> at(1) w tail(1) arr len k less.prems(4) c(1) pair
          by (simp add: utf16_Decode_loop.simps [of s i] idx_def)
      qed
    qed
  qed
qed

lemma utf16_Decode_ok: "utf16_Decode s = Some (runes_of s)"
  using utf16_Decode_loop_ok [of 0 s "[]" 0 "length s"] runes_of_length [of s]
  by (simp add: utf16_Decode_def Let_def)

lemma runes_of_units:
  "runes_of (units_of v @ us) = (if ValidRune v then v else RuneError) # runes_of us"
proof -
  consider (bmp) "uint v < 0xD800 \<or> (0xE000 \<le> uint v \<and> uint v < 0x10000)"
    | (pair) "0x10000 \<le> uint v" "uint v \<le> 0x10FFFF"
    | (bad) "\<not> ValidRune v" "units_of v = [0xFFFD]"
  proof (cases "ValidRune v")
    case True
    then show ?thesis using that(1,2) unfolding ValidRune_iff by linarith
  next
    case False
    then have "units_of v = [0xFFFD]" unfolding ValidRune_iff units_of_def by auto
    then show ?thesis using that(3) False by simp
  qed
  then show ?thesis
  proof cases
    case bmp
    then have "uint (ucast v :: uint16) = uint v" by (intro uint_rune_uint16) auto
    moreover from this have "ucast (ucast v :: uint16) = v" by (simp add: word_uint_eq_iff uint_uint16_rune)
    ultimately show ?thesis
      using bmp by (cases us) (auto simp: units_of_def high_unit_def low_unit_def ValidRune_iff)
  next
    case pair
    obtain h l where hl: "utf16_EncodeRune v = (h, l)" "0xD800 \<le> uint h" "uint h < 0xDC00" "0xDC00 \<le> uint l" "uint l < 0xE000"
      "utf16_DecodeRune h l = v" using utf16_pair [OF pair] .
    have u: "uint (ucast h :: uint16) = uint h" "uint (ucast l :: uint16) = uint l"
      using hl by (auto intro!: uint_rune_uint16)
    then have "ucast (ucast h :: uint16) = h" "ucast (ucast l :: uint16) = l"
      by (simp_all add: word_uint_eq_iff uint_uint16_rune)
    moreover have "units_of v = [ucast h, ucast l]" using pair hl(1) by (simp add: units_of_def)
    ultimately show ?thesis
      using hl u pair by (simp add: high_unit_def low_unit_def ValidRune_iff)
  next
    case bad
    have "ucast (0xFFFD :: uint16) = (RuneError :: rune)" by simp
    then show ?thesis using bad by (cases us) (simp_all add: high_unit_def low_unit_def)
  qed
qed

subsection \<open>Properties\<close>

text \<open>
  UTF-16 round trip. Encode never runs out of the array it allocated, Decode never leaves its input, and
  decoding an encoded text gives the text back, with every invalid rune replaced by U+FFFD.
\<close>

theorem utf16_round_trip:
  "(do { u \<leftarrow> utf16_Encode s; utf16_Decode u }) = Some (map (\<lambda>v. if ValidRune v then v else RuneError) s)"
proof -
  have "runes_of (concat (map units_of s)) = map (\<lambda>v. if ValidRune v then v else RuneError) s"
    by (induction s) (simp_all add: runes_of_units)
  then show ?thesis by (simp add: utf16_Encode_ok utf16_Decode_ok)
qed

end
