(* ===== verification/Math_Bits.thy ===== *)
theory Math_Bits
  imports Go_Prelude
begin

text \<open>
  \<^verbatim>\<open>math/bits\<close> in its portable form, for a platform with 64-bit uint: counting, rotating and reversing bits,
  and the full-width arithmetic that \<^verbatim>\<open>strconv\<close> and \<^verbatim>\<open>math/big\<close> build on. Values are machine words, so that every
  addition, shift and product wraps as in the source.
\<close>

subsection \<open>Tables\<close>

definition ntz8tab :: "byte list" where
  "ntz8tab =
    [8, 0, 1, 0, 2, 0, 1, 0, 3, 0, 1, 0, 2, 0, 1, 0,
     4, 0, 1, 0, 2, 0, 1, 0, 3, 0, 1, 0, 2, 0, 1, 0,
     5, 0, 1, 0, 2, 0, 1, 0, 3, 0, 1, 0, 2, 0, 1, 0,
     4, 0, 1, 0, 2, 0, 1, 0, 3, 0, 1, 0, 2, 0, 1, 0,
     6, 0, 1, 0, 2, 0, 1, 0, 3, 0, 1, 0, 2, 0, 1, 0,
     4, 0, 1, 0, 2, 0, 1, 0, 3, 0, 1, 0, 2, 0, 1, 0,
     5, 0, 1, 0, 2, 0, 1, 0, 3, 0, 1, 0, 2, 0, 1, 0,
     4, 0, 1, 0, 2, 0, 1, 0, 3, 0, 1, 0, 2, 0, 1, 0,
     7, 0, 1, 0, 2, 0, 1, 0, 3, 0, 1, 0, 2, 0, 1, 0,
     4, 0, 1, 0, 2, 0, 1, 0, 3, 0, 1, 0, 2, 0, 1, 0,
     5, 0, 1, 0, 2, 0, 1, 0, 3, 0, 1, 0, 2, 0, 1, 0,
     4, 0, 1, 0, 2, 0, 1, 0, 3, 0, 1, 0, 2, 0, 1, 0,
     6, 0, 1, 0, 2, 0, 1, 0, 3, 0, 1, 0, 2, 0, 1, 0,
     4, 0, 1, 0, 2, 0, 1, 0, 3, 0, 1, 0, 2, 0, 1, 0,
     5, 0, 1, 0, 2, 0, 1, 0, 3, 0, 1, 0, 2, 0, 1, 0,
     4, 0, 1, 0, 2, 0, 1, 0, 3, 0, 1, 0, 2, 0, 1, 0]"

definition pop8tab :: "byte list" where
  "pop8tab =
    [0, 1, 1, 2, 1, 2, 2, 3, 1, 2, 2, 3, 2, 3, 3, 4,
     1, 2, 2, 3, 2, 3, 3, 4, 2, 3, 3, 4, 3, 4, 4, 5,
     1, 2, 2, 3, 2, 3, 3, 4, 2, 3, 3, 4, 3, 4, 4, 5,
     2, 3, 3, 4, 3, 4, 4, 5, 3, 4, 4, 5, 4, 5, 5, 6,
     1, 2, 2, 3, 2, 3, 3, 4, 2, 3, 3, 4, 3, 4, 4, 5,
     2, 3, 3, 4, 3, 4, 4, 5, 3, 4, 4, 5, 4, 5, 5, 6,
     2, 3, 3, 4, 3, 4, 4, 5, 3, 4, 4, 5, 4, 5, 5, 6,
     3, 4, 4, 5, 4, 5, 5, 6, 4, 5, 5, 6, 5, 6, 6, 7,
     1, 2, 2, 3, 2, 3, 3, 4, 2, 3, 3, 4, 3, 4, 4, 5,
     2, 3, 3, 4, 3, 4, 4, 5, 3, 4, 4, 5, 4, 5, 5, 6,
     2, 3, 3, 4, 3, 4, 4, 5, 3, 4, 4, 5, 4, 5, 5, 6,
     3, 4, 4, 5, 4, 5, 5, 6, 4, 5, 5, 6, 5, 6, 6, 7,
     2, 3, 3, 4, 3, 4, 4, 5, 3, 4, 4, 5, 4, 5, 5, 6,
     3, 4, 4, 5, 4, 5, 5, 6, 4, 5, 5, 6, 5, 6, 6, 7,
     3, 4, 4, 5, 4, 5, 5, 6, 4, 5, 5, 6, 5, 6, 6, 7,
     4, 5, 5, 6, 5, 6, 6, 7, 5, 6, 6, 7, 6, 7, 7, 8]"

definition rev8tab :: "byte list" where
  "rev8tab =
    [0, 128, 64, 192, 32, 160, 96, 224, 16, 144, 80, 208, 48, 176, 112, 240,
     8, 136, 72, 200, 40, 168, 104, 232, 24, 152, 88, 216, 56, 184, 120, 248,
     4, 132, 68, 196, 36, 164, 100, 228, 20, 148, 84, 212, 52, 180, 116, 244,
     12, 140, 76, 204, 44, 172, 108, 236, 28, 156, 92, 220, 60, 188, 124, 252,
     2, 130, 66, 194, 34, 162, 98, 226, 18, 146, 82, 210, 50, 178, 114, 242,
     10, 138, 74, 202, 42, 170, 106, 234, 26, 154, 90, 218, 58, 186, 122, 250,
     6, 134, 70, 198, 38, 166, 102, 230, 22, 150, 86, 214, 54, 182, 118, 246,
     14, 142, 78, 206, 46, 174, 110, 238, 30, 158, 94, 222, 62, 190, 126, 254,
     1, 129, 65, 193, 33, 161, 97, 225, 17, 145, 81, 209, 49, 177, 113, 241,
     9, 137, 73, 201, 41, 169, 105, 233, 25, 153, 89, 217, 57, 185, 121, 249,
     5, 133, 69, 197, 37, 165, 101, 229, 21, 149, 85, 213, 53, 181, 117, 245,
     13, 141, 77, 205, 45, 173, 109, 237, 29, 157, 93, 221, 61, 189, 125, 253,
     3, 131, 67, 195, 35, 163, 99, 227, 19, 147, 83, 211, 51, 179, 115, 243,
     11, 139, 75, 203, 43, 171, 107, 235, 27, 155, 91, 219, 59, 187, 123, 251,
     7, 135, 71, 199, 39, 167, 103, 231, 23, 151, 87, 215, 55, 183, 119, 247,
     15, 143, 79, 207, 47, 175, 111, 239, 31, 159, 95, 223, 63, 191, 127, 255]"

definition len8tab :: "byte list" where
  "len8tab =
    [0, 1, 2, 2, 3, 3, 3, 3, 4, 4, 4, 4, 4, 4, 4, 4,
     5, 5, 5, 5, 5, 5, 5, 5, 5, 5, 5, 5, 5, 5, 5, 5,
     6, 6, 6, 6, 6, 6, 6, 6, 6, 6, 6, 6, 6, 6, 6, 6,
     6, 6, 6, 6, 6, 6, 6, 6, 6, 6, 6, 6, 6, 6, 6, 6,
     7, 7, 7, 7, 7, 7, 7, 7, 7, 7, 7, 7, 7, 7, 7, 7,
     7, 7, 7, 7, 7, 7, 7, 7, 7, 7, 7, 7, 7, 7, 7, 7,
     7, 7, 7, 7, 7, 7, 7, 7, 7, 7, 7, 7, 7, 7, 7, 7,
     7, 7, 7, 7, 7, 7, 7, 7, 7, 7, 7, 7, 7, 7, 7, 7,
     8, 8, 8, 8, 8, 8, 8, 8, 8, 8, 8, 8, 8, 8, 8, 8,
     8, 8, 8, 8, 8, 8, 8, 8, 8, 8, 8, 8, 8, 8, 8, 8,
     8, 8, 8, 8, 8, 8, 8, 8, 8, 8, 8, 8, 8, 8, 8, 8,
     8, 8, 8, 8, 8, 8, 8, 8, 8, 8, 8, 8, 8, 8, 8, 8,
     8, 8, 8, 8, 8, 8, 8, 8, 8, 8, 8, 8, 8, 8, 8, 8,
     8, 8, 8, 8, 8, 8, 8, 8, 8, 8, 8, 8, 8, 8, 8, 8,
     8, 8, 8, 8, 8, 8, 8, 8, 8, 8, 8, 8, 8, 8, 8, 8,
     8, 8, 8, 8, 8, 8, 8, 8, 8, 8, 8, 8, 8, 8, 8, 8]"

definition deBruijn32tab :: "byte list" where
  "deBruijn32tab =
    [0, 1, 28, 2, 29, 14, 24, 3, 30, 22, 20, 15, 25, 17, 4, 8,
     31, 27, 13, 23, 21, 19, 16, 7, 26, 12, 18, 6, 11, 5, 10, 9]"

definition deBruijn64tab :: "byte list" where
  "deBruijn64tab =
    [0, 1, 56, 2, 57, 49, 28, 3, 61, 58, 42, 50, 38, 29, 17, 4,
     62, 47, 59, 36, 45, 43, 51, 22, 53, 39, 33, 30, 24, 18, 12, 5,
     63, 55, 48, 27, 60, 41, 37, 16, 46, 35, 44, 21, 52, 32, 23, 11,
     54, 26, 40, 15, 34, 20, 31, 10, 25, 14, 19, 9, 13, 8, 7, 6]"

text \<open>A table read: the tables have an entry for every value of their index type.\<close>

definition tab :: "byte list \<Rightarrow> 'a::len word \<Rightarrow> int" where
  "tab t x = uint (t ! unat x)"

subsection \<open>Counting\<close>

definition Len8 :: "byte \<Rightarrow> int" where
  "Len8 x = tab len8tab x"

definition Len16 :: "uint16 \<Rightarrow> int" where
  "Len16 x =
     (let (x, n) = (if x \<ge> 0x100 then (drop_bit 8 x, 8) else (x, 0)) in
      n + tab len8tab x)"

definition Len32 :: "uint32 \<Rightarrow> int" where
  "Len32 x =
     (let (x, n) = (if x \<ge> 0x10000 then (drop_bit 16 x, 16) else (x, 0));
          (x, n) = (if x \<ge> 0x100 then (drop_bit 8 x, n + 8) else (x, n)) in
      n + tab len8tab x)"

definition Len64 :: "uint64 \<Rightarrow> int" where
  "Len64 x =
     (let (x, n) = (if x \<ge> 0x100000000 then (drop_bit 32 x, 32) else (x, 0));
          (x, n) = (if x \<ge> 0x10000 then (drop_bit 16 x, n + 16) else (x, n));
          (x, n) = (if x \<ge> 0x100 then (drop_bit 8 x, n + 8) else (x, n)) in
      n + tab len8tab x)"

definition bits_Len :: "uint64 \<Rightarrow> int" where
  "bits_Len x = Len64 x"

definition LeadingZeros8 :: "byte \<Rightarrow> int" where "LeadingZeros8 x = 8 - Len8 x"
definition LeadingZeros16 :: "uint16 \<Rightarrow> int" where "LeadingZeros16 x = 16 - Len16 x"
definition LeadingZeros32 :: "uint32 \<Rightarrow> int" where "LeadingZeros32 x = 32 - Len32 x"
definition LeadingZeros64 :: "uint64 \<Rightarrow> int" where "LeadingZeros64 x = 64 - Len64 x"
definition LeadingZeros :: "uint64 \<Rightarrow> int" where "LeadingZeros x = 64 - bits_Len x"

definition TrailingZeros8 :: "byte \<Rightarrow> int" where
  "TrailingZeros8 x = tab ntz8tab x"

definition TrailingZeros16 :: "uint16 \<Rightarrow> int" where
  "TrailingZeros16 x =
     (if x = 0 then 16
      else tab deBruijn32tab (drop_bit (32 - 5) ((ucast (x AND - x) :: uint32) * 0x077CB531)))"

definition TrailingZeros32 :: "uint32 \<Rightarrow> int" where
  "TrailingZeros32 x =
     (if x = 0 then 32 else tab deBruijn32tab (drop_bit (32 - 5) ((x AND - x) * 0x077CB531)))"

definition TrailingZeros64 :: "uint64 \<Rightarrow> int" where
  "TrailingZeros64 x =
     (if x = 0 then 64 else tab deBruijn64tab (drop_bit (64 - 6) ((x AND - x) * 0x03f79d71b4ca8b09)))"

definition TrailingZeros :: "uint64 \<Rightarrow> int" where
  "TrailingZeros x = TrailingZeros64 x"

definition OnesCount8 :: "byte \<Rightarrow> int" where
  "OnesCount8 x = tab pop8tab x"

text \<open>The sums of table entries are computed in uint8.\<close>

definition OnesCount16 :: "uint16 \<Rightarrow> int" where
  "OnesCount16 x = uint (pop8tab ! unat (drop_bit 8 x) + pop8tab ! unat (x AND 0xff))"

definition OnesCount32 :: "uint32 \<Rightarrow> int" where
  "OnesCount32 x =
     uint (pop8tab ! unat (drop_bit 24 x) + pop8tab ! unat (drop_bit 16 x AND 0xff)
       + pop8tab ! unat (drop_bit 8 x AND 0xff) + pop8tab ! unat (x AND 0xff))"

definition bits_m0 :: uint64 where "bits_m0 = 0x5555555555555555"
definition bits_m1 :: uint64 where "bits_m1 = 0x3333333333333333"
definition bits_m2 :: uint64 where "bits_m2 = 0x0f0f0f0f0f0f0f0f"
definition bits_m3 :: uint64 where "bits_m3 = 0x00ff00ff00ff00ff"
definition bits_m4 :: uint64 where "bits_m4 = 0x0000ffff0000ffff"

definition OnesCount64 :: "uint64 \<Rightarrow> int" where
  "OnesCount64 x =
     (let x = (drop_bit 1 x AND bits_m0) + (x AND bits_m0);
          x = (drop_bit 2 x AND bits_m1) + (x AND bits_m1);
          x = (drop_bit 4 x + x) AND bits_m2;
          x = x + drop_bit 8 x;
          x = x + drop_bit 16 x;
          x = x + drop_bit 32 x in
      uint (x AND 0x7f))"

definition OnesCount :: "uint64 \<Rightarrow> int" where
  "OnesCount x = OnesCount64 x"

subsection \<open>Rotating and reversing\<close>

text \<open>\<open>s := uint(k) & (n - 1)\<close> for a width that is a power of two.\<close>

definition RotateLeft8 :: "byte \<Rightarrow> int \<Rightarrow> byte" where
  "RotateLeft8 x k = (let s = unat ((word_of_int k :: uint64) AND 7) in push_bit s x OR drop_bit (8 - s) x)"

definition RotateLeft16 :: "uint16 \<Rightarrow> int \<Rightarrow> uint16" where
  "RotateLeft16 x k = (let s = unat ((word_of_int k :: uint64) AND 15) in push_bit s x OR drop_bit (16 - s) x)"

definition RotateLeft32 :: "uint32 \<Rightarrow> int \<Rightarrow> uint32" where
  "RotateLeft32 x k = (let s = unat ((word_of_int k :: uint64) AND 31) in push_bit s x OR drop_bit (32 - s) x)"

definition RotateLeft64 :: "uint64 \<Rightarrow> int \<Rightarrow> uint64" where
  "RotateLeft64 x k = (let s = unat ((word_of_int k :: uint64) AND 63) in push_bit s x OR drop_bit (64 - s) x)"

definition RotateLeft :: "uint64 \<Rightarrow> int \<Rightarrow> uint64" where
  "RotateLeft x k = RotateLeft64 x k"

definition ReverseBytes16 :: "uint16 \<Rightarrow> uint16" where
  "ReverseBytes16 x = drop_bit 8 x OR push_bit 8 x"

definition ReverseBytes32 :: "uint32 \<Rightarrow> uint32" where
  "ReverseBytes32 x =
     (let m3 = ucast bits_m3;
          x = (drop_bit 8 x AND m3) OR push_bit 8 (x AND m3) in
      drop_bit 16 x OR push_bit 16 x)"

definition ReverseBytes64 :: "uint64 \<Rightarrow> uint64" where
  "ReverseBytes64 x =
     (let x = (drop_bit 8 x AND bits_m3) OR push_bit 8 (x AND bits_m3);
          x = (drop_bit 16 x AND bits_m4) OR push_bit 16 (x AND bits_m4) in
      drop_bit 32 x OR push_bit 32 x)"

definition ReverseBytes :: "uint64 \<Rightarrow> uint64" where
  "ReverseBytes x = ReverseBytes64 x"

definition bits_Reverse8 :: "byte \<Rightarrow> byte" where
  "bits_Reverse8 x = rev8tab ! unat x"

definition bits_Reverse16 :: "uint16 \<Rightarrow> uint16" where
  "bits_Reverse16 x = ucast (rev8tab ! unat (drop_bit 8 x)) OR push_bit 8 (ucast (rev8tab ! unat (x AND 0xff)))"

definition bits_Reverse32 :: "uint32 \<Rightarrow> uint32" where
  "bits_Reverse32 x =
     (let m0 = ucast bits_m0; m1 = ucast bits_m1; m2 = ucast bits_m2;
          x = (drop_bit 1 x AND m0) OR push_bit 1 (x AND m0);
          x = (drop_bit 2 x AND m1) OR push_bit 2 (x AND m1);
          x = (drop_bit 4 x AND m2) OR push_bit 4 (x AND m2) in
      ReverseBytes32 x)"

definition bits_Reverse64 :: "uint64 \<Rightarrow> uint64" where
  "bits_Reverse64 x =
     (let x = (drop_bit 1 x AND bits_m0) OR push_bit 1 (x AND bits_m0);
          x = (drop_bit 2 x AND bits_m1) OR push_bit 2 (x AND bits_m1);
          x = (drop_bit 4 x AND bits_m2) OR push_bit 4 (x AND bits_m2) in
      ReverseBytes64 x)"

definition bits_Reverse :: "uint64 \<Rightarrow> uint64" where
  "bits_Reverse x = bits_Reverse64 x"

subsection \<open>Full-width arithmetic\<close>

definition Add32 :: "uint32 \<Rightarrow> uint32 \<Rightarrow> uint32 \<Rightarrow> uint32 \<times> uint32" where
  "Add32 x y carry =
     (let sum64 = (ucast x :: uint64) + ucast y + ucast carry in (ucast sum64, ucast (drop_bit 32 sum64)))"

definition Add64 :: "uint64 \<Rightarrow> uint64 \<Rightarrow> uint64 \<Rightarrow> uint64 \<times> uint64" where
  "Add64 x y carry =
     (let sum' = x + y + carry in
      (sum', drop_bit 63 ((x AND y) OR ((x OR y) AND NOT sum'))))"

definition bits_Add :: "uint64 \<Rightarrow> uint64 \<Rightarrow> uint64 \<Rightarrow> uint64 \<times> uint64" where
  "bits_Add x y carry = Add64 x y carry"

definition Sub32 :: "uint32 \<Rightarrow> uint32 \<Rightarrow> uint32 \<Rightarrow> uint32 \<times> uint32" where
  "Sub32 x y borrow =
     (let diff = x - y - borrow in
      (diff, drop_bit 31 ((NOT x AND y) OR (NOT (x XOR y) AND diff))))"

definition Sub64 :: "uint64 \<Rightarrow> uint64 \<Rightarrow> uint64 \<Rightarrow> uint64 \<times> uint64" where
  "Sub64 x y borrow =
     (let diff = x - y - borrow in
      (diff, drop_bit 63 ((NOT x AND y) OR (NOT (x XOR y) AND diff))))"

definition bits_Sub :: "uint64 \<Rightarrow> uint64 \<Rightarrow> uint64 \<Rightarrow> uint64 \<times> uint64" where
  "bits_Sub x y borrow = Sub64 x y borrow"

definition Mul32 :: "uint32 \<Rightarrow> uint32 \<Rightarrow> uint32 \<times> uint32" where
  "Mul32 x y = (let tmp = (ucast x :: uint64) * ucast y in (ucast (drop_bit 32 tmp), ucast tmp))"

definition Mul64 :: "uint64 \<Rightarrow> uint64 \<Rightarrow> uint64 \<times> uint64" where
  "Mul64 x y =
     (let x0 = x AND 0xffffffff; x1 = drop_bit 32 x;
          y0 = y AND 0xffffffff; y1 = drop_bit 32 y;
          w0 = x0 * y0;
          t = x1 * y0 + drop_bit 32 w0;
          w1 = t AND 0xffffffff; w2 = drop_bit 32 t;
          w1 = w1 + x0 * y1;
          hi = x1 * y1 + w2 + drop_bit 32 w1;
          lo = x * y in
      (hi, lo))"

definition bits_Mul :: "uint64 \<Rightarrow> uint64 \<Rightarrow> uint64 \<times> uint64" where
  "bits_Mul x y = Mul64 x y"

text \<open>Division panics on a zero divisor and when the quotient does not fit.\<close>

definition Div32 :: "uint32 \<Rightarrow> uint32 \<Rightarrow> uint32 \<Rightarrow> (uint32 \<times> uint32) option" where
  "Div32 hi lo y =
     (if y \<noteq> 0 \<and> y \<le> hi then None
      else if y = 0 then None
      else let z = push_bit 32 (ucast hi :: uint64) OR ucast lo in
        Some (ucast (z div ucast y), ucast (z mod ucast y)))"

text \<open>
  The correction loop \<open>for q >= two32 || q*yn0 > two32*rhat+un { q--; rhat += yn1; if rhat >= two32 { break } }\<close>,
  which Div64 runs once for each half of the quotient.
\<close>

partial_function (option) Div64_correct :: "uint64 \<Rightarrow> uint64 \<Rightarrow> uint64 \<Rightarrow> uint64 \<Rightarrow> uint64 \<Rightarrow> uint64 option" where
  "Div64_correct yn1 yn0 un q rhat =
     (if q \<ge> 0x100000000 \<or> q * yn0 > 0x100000000 * rhat + un then
        (let q = q - 1; rhat = rhat + yn1 in
         if rhat \<ge> 0x100000000 then Some q else Div64_correct yn1 yn0 un q rhat)
      else Some q)"

definition Div64 :: "uint64 \<Rightarrow> uint64 \<Rightarrow> uint64 \<Rightarrow> (uint64 \<times> uint64) option" where
  "Div64 hi lo y =
     (if y = 0 then None
      else if y \<le> hi then None
      else do {
        let s = nat (LeadingZeros64 y);
        let y = push_bit s y;
        let yn1 = drop_bit 32 y;
        let yn0 = y AND 0xffffffff;
        let un32 = push_bit s hi OR drop_bit (64 - s) lo;
        let un10 = push_bit s lo;
        let un1 = drop_bit 32 un10;
        let un0 = un10 AND 0xffffffff;
        let q1 = un32 div yn1;
        let rhat = un32 - q1 * yn1;
        q1 \<leftarrow> Div64_correct yn1 yn0 un1 q1 rhat;
        let un21 = un32 * 0x100000000 + un1 - q1 * y;
        let q0 = un21 div yn1;
        let rhat = un21 - q0 * yn1;
        q0 \<leftarrow> Div64_correct yn1 yn0 un0 q0 rhat;
        Some (q1 * 0x100000000 + q0, drop_bit s (un21 * 0x100000000 + un0 - q0 * y))
      })"

definition bits_Div :: "uint64 \<Rightarrow> uint64 \<Rightarrow> uint64 \<Rightarrow> (uint64 \<times> uint64) option" where
  "bits_Div hi lo y = Div64 hi lo y"

definition Rem32 :: "uint32 \<Rightarrow> uint32 \<Rightarrow> uint32 \<Rightarrow> uint32 option" where
  "Rem32 hi lo y =
     (if y = 0 then None
      else Some (ucast ((push_bit 32 (ucast hi :: uint64) OR ucast lo) mod ucast y)))"

definition Rem64 :: "uint64 \<Rightarrow> uint64 \<Rightarrow> uint64 \<Rightarrow> uint64 option" where
  "Rem64 hi lo y =
     (if y = 0 then None else do { (_, rem) \<leftarrow> Div64 (hi mod y) lo y; Some rem })"

definition bits_Rem :: "uint64 \<Rightarrow> uint64 \<Rightarrow> uint64 \<Rightarrow> uint64 option" where
  "bits_Rem hi lo y = Rem64 hi lo y"

declare Div64_correct.simps [code]

end
