(* ===== verification/Strconv.thy ===== *)
theory Strconv
  imports Math_Bits
begin

text \<open>
  The integer conversions of \<^verbatim>\<open>strconv\<close> (atoi.go, itoa.go, atob.go). A Go string is its list of bytes; a Go
  \<open>(value, error)\<close> pair is a pair whose second component is \<^const>\<open>None\<close> for a nil error. An int64 is an
  \<^typ>\<open>int\<close> in its range, conversions and negations that may wrap are written with \<^const>\<open>int64\<close>.
  Every index expression of atoi.go stands behind a length test of the same condition.
\<close>

type_synonym gostring = "byte list"

text \<open>A string literal of the source.\<close>

definition bytes :: "string \<Rightarrow> gostring" where
  "bytes s = map of_char s"

subsection \<open>atoi.go: errors\<close>

text \<open>The reasons of a NumError; the last two are the errors built by \<open>errors.New\<close> with the offending number.\<close>

datatype num_err = ErrRange | ErrSyntax | InvalidBase int | InvalidBitSize int

record NumError =
  Func :: gostring
  Num :: gostring
  Err :: num_err

definition syntaxError :: "gostring \<Rightarrow> gostring \<Rightarrow> NumError" where
  "syntaxError fn str = \<lparr>Func = fn, Num = str, Err = ErrSyntax\<rparr>"

definition rangeError :: "gostring \<Rightarrow> gostring \<Rightarrow> NumError" where
  "rangeError fn str = \<lparr>Func = fn, Num = str, Err = ErrRange\<rparr>"

definition baseError :: "gostring \<Rightarrow> gostring \<Rightarrow> int \<Rightarrow> NumError" where
  "baseError fn str base = \<lparr>Func = fn, Num = str, Err = InvalidBase base\<rparr>"

definition bitSizeError :: "gostring \<Rightarrow> gostring \<Rightarrow> int \<Rightarrow> NumError" where
  "bitSizeError fn str bitSize = \<lparr>Func = fn, Num = str, Err = InvalidBitSize bitSize\<rparr>"

definition fnParseUint :: gostring where "fnParseUint = bytes ''ParseUint''"
definition fnParseInt :: gostring where "fnParseInt = bytes ''ParseInt''"
definition fnAtoi :: gostring where "fnAtoi = bytes ''Atoi''"

definition IntSize :: int where "IntSize = 64"
definition maxUint64 :: uint64 where "maxUint64 = 0xFFFFFFFFFFFFFFFF"

subsection \<open>atoi.go: parsing\<close>

definition lower :: "byte \<Rightarrow> byte" where
  "lower c = c OR (0x78 - 0x58)"

text \<open>
  The automaton of underscoreOK over the rest of the number; \<open>saw\<close> is the class of the last character:
  \<open>^\<close> (0x5E), \<open>0\<close> (0x30), \<open>_\<close> (0x5F) or \<open>!\<close> (0x21).
\<close>

fun underscoreOK_loop :: "bool \<Rightarrow> byte \<Rightarrow> gostring \<Rightarrow> bool" where
  "underscoreOK_loop hex saw [] = (saw \<noteq> 0x5F)"
| "underscoreOK_loop hex saw (c # s) =
     (if 0x30 \<le> c \<and> c \<le> 0x39 \<or> hex \<and> 0x61 \<le> lower c \<and> lower c \<le> 0x66 then underscoreOK_loop hex 0x30 s
      else if c = 0x5F then (if saw \<noteq> 0x30 then False else underscoreOK_loop hex 0x5F s)
      else if saw = 0x5F then False
      else underscoreOK_loop hex 0x21 s)"

definition underscoreOK :: "gostring \<Rightarrow> bool" where
  "underscoreOK s =
     (let s = (if 1 \<le> length s \<and> (s ! 0 = 0x2D \<or> s ! 0 = 0x2B) then drop 1 s else s) in
      if 2 \<le> length s \<and> s ! 0 = 0x30 \<and> (lower (s ! 1) = 0x62 \<or> lower (s ! 1) = 0x6F \<or> lower (s ! 1) = 0x78)
      then underscoreOK_loop (lower (s ! 1) = 0x78) 0x30 (drop 2 s)
      else underscoreOK_loop False 0x5E s)"

text \<open>
  The digit loop of ParseUint: \<^const>\<open>Inl\<close> is an early return with its error, \<^const>\<open>Inr\<close> the variables
  \<open>underscores\<close> and \<open>n\<close> after the loop.
\<close>

fun ParseUint_loop ::
  "bool \<Rightarrow> int \<Rightarrow> uint64 \<Rightarrow> uint64 \<Rightarrow> gostring \<Rightarrow> bool \<Rightarrow> uint64 \<Rightarrow> (uint64 \<times> num_err) + (bool \<times> uint64)" where
  "ParseUint_loop base0 base cutoff maxVal [] underscores n = Inr (underscores, n)"
| "ParseUint_loop base0 base cutoff maxVal (c # s) underscores n =
     (if c = 0x5F \<and> base0 then ParseUint_loop base0 base cutoff maxVal s True n
      else
        case (if 0x30 \<le> c \<and> c \<le> 0x39 then Some (c - 0x30)
              else if 0x61 \<le> lower c \<and> lower c \<le> 0x7A then Some (lower c - 0x61 + 10)
              else None) of
          None \<Rightarrow> Inl (0, ErrSyntax)
        | Some d \<Rightarrow>
            if word_of_int base \<le> d then Inl (0, ErrSyntax)
            else if cutoff \<le> n then Inl (maxVal, ErrRange)
            else
              (let n = n * word_of_int base; n1 = n + ucast d in
               if n1 < n \<or> maxVal < n1 then Inl (maxVal, ErrRange)
               else ParseUint_loop base0 base cutoff maxVal s underscores n1))"

text \<open>The switch on the base: \<^const>\<open>None\<close> is its default case, otherwise the base and the digits to convert.\<close>

definition ParseUint_base :: "gostring \<Rightarrow> int \<Rightarrow> (int \<times> gostring) option" where
  "ParseUint_base s base =
     (if 2 \<le> base \<and> base \<le> 36 then Some (base, s)
      else if base = 0 then
        (if s ! 0 = 0x30 then
           (if 3 \<le> length s \<and> lower (s ! 1) = 0x62 then Some (2, drop 2 s)
            else if 3 \<le> length s \<and> lower (s ! 1) = 0x6F then Some (8, drop 2 s)
            else if 3 \<le> length s \<and> lower (s ! 1) = 0x78 then Some (16, drop 2 s)
            else Some (8, drop 1 s))
         else Some (10, s))
      else None)"

definition ParseUint :: "gostring \<Rightarrow> int \<Rightarrow> int \<Rightarrow> uint64 \<times> NumError option" where
  "ParseUint s base bitSize =
     (if s = [] then (0, Some (syntaxError fnParseUint s))
      else
        let base0 = base = 0; s0 = s in
        case ParseUint_base s base of
          None \<Rightarrow> (0, Some (baseError fnParseUint s0 base))
        | Some (base, s) \<Rightarrow>
            if bitSize \<noteq> 0 \<and> (bitSize < 0 \<or> bitSize > 64) then (0, Some (bitSizeError fnParseUint s0 bitSize))
            else
              let bitSize = (if bitSize = 0 then IntSize else bitSize);
                  cutoff = (if base = 10 then maxUint64 div 10 + 1
                            else if base = 16 then maxUint64 div 16 + 1
                            else maxUint64 div word_of_int base + 1);
                  maxVal = push_bit (nat bitSize) 1 - 1 in
              case ParseUint_loop base0 base cutoff maxVal s False 0 of
                Inl (v, ErrRange) \<Rightarrow> (v, Some (rangeError fnParseUint s0))
              | Inl (v, _) \<Rightarrow> (v, Some (syntaxError fnParseUint s0))
              | Inr (underscores, n) \<Rightarrow>
                  if underscores \<and> \<not> underscoreOK s0 then (0, Some (syntaxError fnParseUint s0))
                  else (n, None))"

text \<open>The range check at the end of ParseInt, reached with a nil error and with ErrRange.\<close>

definition ParseInt_range :: "gostring \<Rightarrow> bool \<Rightarrow> uint64 \<Rightarrow> int \<Rightarrow> int \<times> NumError option" where
  "ParseInt_range s0 neg un bitSize =
     (let bitSize = (if bitSize = 0 then IntSize else bitSize);
          cutoff = push_bit (nat (bitSize - 1)) 1 in
      if \<not> neg \<and> cutoff \<le> un then (sint (cutoff - 1), Some (rangeError fnParseInt s0))
      else if neg \<and> cutoff < un then (int64 (- sint cutoff), Some (rangeError fnParseInt s0))
      else
        let n = sint un in
        (if neg then int64 (- n) else n, None))"

definition ParseInt :: "gostring \<Rightarrow> int \<Rightarrow> int \<Rightarrow> int \<times> NumError option" where
  "ParseInt s base bitSize =
     (if s = [] then (0, Some (syntaxError fnParseInt s))
      else
        let s0 = s;
            (neg, s) = (if s ! 0 = 0x2B then (False, drop 1 s) else if s ! 0 = 0x2D then (True, drop 1 s) else (False, s));
            (un, err) = ParseUint s base bitSize in
        case err of
          Some e \<Rightarrow> if Err e \<noteq> ErrRange then (0, Some (e\<lparr>Func := fnParseInt, Num := s0\<rparr>)) else ParseInt_range s0 neg un bitSize
        | None \<Rightarrow> ParseInt_range s0 neg un bitSize)"

text \<open>The digit loop of Atoi's fast path; \<^const>\<open>None\<close> is its syntax error.\<close>

fun Atoi_loop :: "gostring \<Rightarrow> int \<Rightarrow> int option" where
  "Atoi_loop [] n = Some n"
| "Atoi_loop (ch # s) n =
     (let ch = ch - 0x30 in
      if ch > 9 then None else Atoi_loop s (int64 (n * 10 + uint ch)))"

definition Atoi :: "gostring \<Rightarrow> int \<times> NumError option" where
  "Atoi s =
     (let sLen = int (length s) in
      if IntSize = 32 \<and> 0 < sLen \<and> sLen < 10 \<or> IntSize = 64 \<and> 0 < sLen \<and> sLen < 19 then
        let s0 = s; signed = s ! 0 = 0x2D \<or> s ! 0 = 0x2B; s = (if signed then drop 1 s else s) in
        if signed \<and> length s < 1 then (0, Some \<lparr>Func = fnAtoi, Num = s0, Err = ErrSyntax\<rparr>)
        else
          case Atoi_loop s 0 of
            None \<Rightarrow> (0, Some \<lparr>Func = fnAtoi, Num = s0, Err = ErrSyntax\<rparr>)
          | Some n \<Rightarrow> (if s0 ! 0 = 0x2D then int64 (- n) else n, None)
      else
        let (i64, err) = ParseInt s 10 0 in
        (i64, case err of None \<Rightarrow> None | Some nerr \<Rightarrow> Some (nerr\<lparr>Func := fnAtoi\<rparr>)))"

subsection \<open>atob.go\<close>

definition ParseBool :: "gostring \<Rightarrow> bool \<times> NumError option" where
  "ParseBool str =
     (if str \<in> set (map bytes [''1'', ''t'', ''T'', ''true'', ''TRUE'', ''True'']) then (True, None)
      else if str \<in> set (map bytes [''0'', ''f'', ''F'', ''false'', ''FALSE'', ''False'']) then (False, None)
      else (False, Some (syntaxError (bytes ''ParseBool'') str)))"

definition FormatBool :: "bool \<Rightarrow> gostring" where
  "FormatBool b = (if b then bytes ''true'' else bytes ''false'')"

definition AppendBool :: "byte list \<Rightarrow> bool \<Rightarrow> byte list" where
  "AppendBool dst b = (if b then dst @ bytes ''true'' else dst @ bytes ''false'')"

subsection \<open>itoa.go\<close>

definition nSmalls :: int where "nSmalls = 100"

definition smallsString :: gostring where
  "smallsString = bytes (''00010203040506070809'' @ ''10111213141516171819'' @ ''20212223242526272829'' @
     ''30313233343536373839'' @ ''40414243444546474849'' @ ''50515253545556575859'' @ ''60616263646566676869'' @
     ''70717273747576777879'' @ ''80818283848586878889'' @ ''90919293949596979899'')"

definition digits :: gostring where
  "digits = bytes ''0123456789abcdefghijklmnopqrstuvwxyz''"

text \<open>A slice expression \<open>s[i:j]\<close>, which panics when out of range.\<close>

definition substring :: "gostring \<Rightarrow> int \<Rightarrow> int \<Rightarrow> gostring option" where
  "substring s i j =
     (if 0 \<le> i \<and> i \<le> j \<and> j \<le> int (length s) then Some (take (nat (j - i)) (drop (nat i) s)) else None)"

definition small :: "int \<Rightarrow> gostring option" where
  "small i = (if i < 10 then substring digits i (i + 1) else substring smallsString (i * 2) (i * 2 + 2))"

definition isPowerOfTwo :: "int \<Rightarrow> bool" where
  "isPowerOfTwo x \<longleftrightarrow> x AND (x - 1) = 0"

text \<open>
  The loops of formatBits; each takes the array, the write position and the number left, and returns them.
  The block under the constant \<open>host32bit\<close> is compiled only for 32-bit hosts and is left out.
\<close>

partial_function (option) formatBits_base10 :: "byte list \<Rightarrow> int \<Rightarrow> uint64 \<Rightarrow> (byte list \<times> int \<times> uint64) option" where
  "formatBits_base10 a i us =
     (if 100 \<le> us then
        do {
          let is = uint (us mod 100 * 2);
          let us = us div 100;
          let i = i - 2;
          c \<leftarrow> idx smallsString (is + 1);
          a \<leftarrow> upd a (i + 1) c;
          c \<leftarrow> idx smallsString (is + 0);
          a \<leftarrow> upd a (i + 0) c;
          formatBits_base10 a i us
        }
      else Some (a, i, us))"

partial_function (option) formatBits_pow2 ::
  "uint64 \<Rightarrow> uint64 \<Rightarrow> nat \<Rightarrow> byte list \<Rightarrow> int \<Rightarrow> uint64 \<Rightarrow> (byte list \<times> int \<times> uint64) option" where
  "formatBits_pow2 b m shift a i u =
     (if b \<le> u then
        do {
          let i = i - 1;
          c \<leftarrow> idx digits (uint (u AND m));
          a \<leftarrow> upd a i c;
          formatBits_pow2 b m shift a i (drop_bit shift u)
        }
      else Some (a, i, u))"

partial_function (option) formatBits_general ::
  "uint64 \<Rightarrow> byte list \<Rightarrow> int \<Rightarrow> uint64 \<Rightarrow> (byte list \<times> int \<times> uint64) option" where
  "formatBits_general b a i u =
     (if b \<le> u then
        do {
          let i = i - 1;
          let q = u div b;
          c \<leftarrow> idx digits (uint (u - q * b));
          a \<leftarrow> upd a i c;
          formatBits_general b a i q
        }
      else Some (a, i, u))"

text \<open>The digits of \<open>u\<close> written before the end of the array, without the sign.\<close>

definition formatBits_digits :: "byte list \<Rightarrow> int \<Rightarrow> uint64 \<Rightarrow> int \<Rightarrow> (byte list \<times> int) option" where
  "formatBits_digits a i u base =
     (if base = 10 then
        do {
          (a, i, us) \<leftarrow> formatBits_base10 a i u;
          let is = uint (us * 2);
          let i = i - 1;
          c \<leftarrow> idx smallsString (is + 1);
          a \<leftarrow> upd a i c;
          if 10 \<le> us then
            do {
              let i = i - 1;
              c \<leftarrow> idx smallsString is;
              a \<leftarrow> upd a i c;
              Some (a, i)
            }
          else Some (a, i)
        }
      else if isPowerOfTwo base then
        do {
          let shift = nat (TrailingZeros (word_of_int base) AND 7);
          let b = word_of_int base;
          let m = word_of_int base - 1;
          (a, i, u) \<leftarrow> formatBits_pow2 b m shift a i u;
          let i = i - 1;
          c \<leftarrow> idx digits (uint u);
          a \<leftarrow> upd a i c;
          Some (a, i)
        }
      else
        do {
          let b = word_of_int base;
          (a, i, u) \<leftarrow> formatBits_general b a i u;
          let i = i - 1;
          c \<leftarrow> idx digits (uint u);
          a \<leftarrow> upd a i c;
          Some (a, i)
        })"

text \<open>The result is the pair \<open>(d, s)\<close> of the source, the component that is not set being empty.\<close>

definition formatBits :: "byte list \<Rightarrow> uint64 \<Rightarrow> int \<Rightarrow> bool \<Rightarrow> bool \<Rightarrow> (byte list \<times> gostring) option" where
  "formatBits dst u base neg app =
     (if base < 2 \<or> int (length digits) < base then None
      else do {
        let a = replicate (64 + 1) 0;
        let i = int (length a);
        let u = (if neg then - u else u);
        (a, i) \<leftarrow> formatBits_digits a i u base;
        (a, i) \<leftarrow> (if neg then do { let i = i - 1; a \<leftarrow> upd a i 0x2D; Some (a, i) } else Some (a, i));
        if app then Some (dst @ drop (nat i) a, []) else Some ([], drop (nat i) a)
      })"

definition FormatUint :: "uint64 \<Rightarrow> int \<Rightarrow> gostring option" where
  "FormatUint i base =
     (if uint i < nSmalls \<and> base = 10 then small (uint i)
      else do { (_, s) \<leftarrow> formatBits [] i base False False; Some s })"

definition FormatInt :: "int \<Rightarrow> int \<Rightarrow> gostring option" where
  "FormatInt i base =
     (if 0 \<le> i \<and> i < nSmalls \<and> base = 10 then small i
      else do { (_, s) \<leftarrow> formatBits [] (word_of_int i) base (i < 0) False; Some s })"

definition Itoa :: "int \<Rightarrow> gostring option" where
  "Itoa i = FormatInt i 10"

definition AppendInt :: "byte list \<Rightarrow> int \<Rightarrow> int \<Rightarrow> byte list option" where
  "AppendInt dst i base =
     (if 0 \<le> i \<and> i < nSmalls \<and> base = 10 then do { s \<leftarrow> small i; Some (dst @ s) }
      else do { (dst, _) \<leftarrow> formatBits dst (word_of_int i) base (i < 0) True; Some dst })"

definition AppendUint :: "byte list \<Rightarrow> uint64 \<Rightarrow> int \<Rightarrow> byte list option" where
  "AppendUint dst i base =
     (if uint i < nSmalls \<and> base = 10 then do { s \<leftarrow> small (uint i); Some (dst @ s) }
      else do { (dst, _) \<leftarrow> formatBits dst i base False True; Some dst })"

declare formatBits_base10.simps [code] formatBits_pow2.simps [code] formatBits_general.simps [code]

end
