(* ===== verification/Go_Words.thy ===== *)
theory Go_Words
  imports Go_Prelude
begin

unbundle bit_operations_syntax

text \<open>The unsigned value of shifted words and of bytes that are put together: facts shared by the encodings and hashes.\<close>

lemma uint_drop: "uint (drop_bit k (v :: 'a::len word)) = uint v div 2 ^ k"
  by (simp only: unsigned_drop_bit_eq) (simp add: drop_bit_eq_div take_bit_int_eq_self)

lemma uint_and_mask: "uint (b AND mask n :: 'a::len word) = uint b mod 2 ^ n"
proof -
  have "uint (b AND mask n) = take_bit n (uint b)" by (simp only: take_bit_eq_mask [symmetric] unsigned_take_bit_eq)
  then show ?thesis by (simp only: take_bit_eq_mod)
qed

lemma uint_plus_fits: "uint a + uint b < 2 ^ LENGTH('a) \<Longrightarrow> uint (a + b :: 'a::len word) = uint a + uint b"
  by (simp add: uint_add_lem)

lemma uint_push:
  fixes v :: "'a::len word"
  assumes "uint v * 2 ^ k < 2 ^ LENGTH('a)"
  shows "uint (push_bit k v) = uint v * 2 ^ k"
proof -
  have "uint (push_bit k v) = take_bit LENGTH('a) (push_bit k (uint v))" by (simp only: unsigned_push_bit_eq)
  also have "\<dots> = uint v * 2 ^ k" using assms by (simp add: push_bit_eq_mult take_bit_int_eq_self)
  finally show ?thesis .
qed

lemma uint_shift_byte:
  fixes b :: byte
  assumes "uint b * 2 ^ k < 2 ^ LENGTH('a::len)"
  shows "uint (push_bit k (ucast b :: 'a word)) = uint b * 2 ^ k"
proof -
  have "uint (push_bit k (ucast b :: 'a word)) = take_bit LENGTH('a) (push_bit k (uint b))"
    by (simp add: unsigned_push_bit_eq unsigned_ucast_eq push_bit_take_bit)
  also have "\<dots> = uint b * 2 ^ k"
    using assms by (simp add: push_bit_eq_mult take_bit_int_eq_self)
  finally show ?thesis .
qed

lemma uint_or_shift:
  fixes x :: "'a::len word" and b :: byte
  assumes "uint x < 2 ^ k" "uint b * 2 ^ k < 2 ^ LENGTH('a)"
  shows "uint (x OR push_bit k (ucast b)) = uint x + uint b * 2 ^ k"
  using uint_or_plus [of x k "push_bit k (ucast b)"] assms uint_shift_byte [OF assms(2)] by (simp add: or.commute)

text \<open>Writing at constant positions of a slice that is given by its bytes.\<close>

lemma nat_Suc_pred: "0 < x \<Longrightarrow> nat x = Suc (nat (x - 1))"
  by simp

lemma upd_Cons:
  "upd (x # xs) 0 v = Some (v # xs)" "0 < i \<Longrightarrow> upd (x # xs) i v = map_option ((#) x) (upd xs (i - 1) v)"
  using nat_Suc_pred [of i] by (auto simp: upd_def)

lemma idx_Cons:
  "idx (x # xs) 0 = Some x" "0 < i \<Longrightarrow> idx (x # xs) i = idx xs (i - 1)"
  using nat_Suc_pred [of i] by (auto simp: idx_def)

end
