(* ===== verification/Math_Bits_Count.thy ===== *)
theory Math_Bits_Count
  imports Math_Bits_Arith
begin

text \<open>
  The counting functions of \<^verbatim>\<open>math/bits\<close> against the position of the highest and of the lowest set bit.
  A table is checked once, entry by entry; the functions on wider words are reduced to it.
\<close>

subsection \<open>Bit length\<close>

definition bit_length :: "int \<Rightarrow> int \<Rightarrow> bool" where
  "bit_length x n \<longleftrightarrow> 0 \<le> n \<and> x < 2 ^ nat n \<and> (x = 0 \<and> n = 0 \<or> 0 < n \<and> 2 ^ nat (n - 1) \<le> x)"

lemma len8tab_ok: "all_from bit_length 0 (map uint len8tab)"
  by (simp add: len8tab_def bit_length_def)

lemma tab_len8tab:
  fixes x :: "'a::len word"
  assumes "uint x < 256"
  shows "bit_length (uint x) (tab len8tab x)"
proof -
  have l: "length len8tab = 256" by (simp add: len8tab_def)
  have "int (unat x) < 256" using assms unfolding uint_nat .
  then have u: "unat x < length len8tab" unfolding l by linarith
  then have "bit_length (int (unat x)) (map uint len8tab ! unat x)"
    by (intro all_from_nth [OF len8tab_ok]) (simp only: length_map)
  then show ?thesis unfolding nth_map [OF u] tab_def uint_nat .
qed

lemma bit_length_add:
  assumes "bit_length (x div 2 ^ k) n" "0 < n"
  shows "bit_length x (n + int k)"
proof -
  have n: "nat (n + int k) = nat n + k" "nat (n + int k - 1) = nat (n - 1) + k" using assms(2) by auto
  have a: "x div 2 ^ k < 2 ^ nat n" and b: "2 ^ nat (n - 1) \<le> x div 2 ^ k" using assms by (auto simp: bit_length_def)
  have e: "x = x div 2 ^ k * 2 ^ k + x mod 2 ^ k" by (rule div_mult_mod_eq [symmetric])
  have m: "0 \<le> x mod 2 ^ k" "x mod 2 ^ k < 2 ^ k" by simp_all
  have "x div 2 ^ k * 2 ^ k \<le> (2 ^ nat n - 1) * 2 ^ k" using a by (intro mult_right_mono) auto
  then have "x < 2 ^ nat n * 2 ^ k" using e m unfolding left_diff_distrib by linarith
  moreover have "2 ^ nat (n - 1) * 2 ^ k \<le> x div 2 ^ k * 2 ^ k" using b by (intro mult_right_mono) auto
  then have "2 ^ nat (n - 1) * 2 ^ k \<le> x" using e m by linarith
  ultimately show ?thesis using assms(2) unfolding bit_length_def n power_add by simp
qed

lemma bit_length_unique:
  assumes "bit_length x m" "bit_length x n"
  shows "m = n"
proof -
  have "\<not> a < b" if "bit_length x a" "bit_length x b" for a b
  proof
    assume "a < b"
    then have "nat a \<le> nat (b - 1)" and b0: "0 < b" using that by (auto simp: bit_length_def)
    then have "(2::int) ^ nat a \<le> 2 ^ nat (b - 1)" by (intro power_increasing) auto
    then show False using that b0 unfolding bit_length_def by linarith
  qed
  then show ?thesis using assms by (meson linorder_neqE)
qed

lemma int_div_less: "a < c * b \<Longrightarrow> 0 < c \<Longrightarrow> a div c < b" for a b c :: int
  using div_mult_mod_eq [of a c] pos_mod_sign [of c a]
  by (metis linorder_not_less mult.commute mult_left_mono order_less_imp_le order_less_le_trans minus_mod_eq_mult_div
      diff_le_eq le_add_same_cancel1)

text \<open>One halving step of the search for the highest set bit.\<close>

lemma bit_length_half:
  fixes x :: "'a::len word"
  assumes "bit_length (uint (drop_bit k x)) n" "2 ^ k \<le> uint x"
  shows "bit_length (uint x) (int k + n)"
proof -
  have "2 ^ k div 2 ^ k \<le> uint x div 2 ^ k" using assms(2) by (intro zdiv_mono1) auto
  then have "1 \<le> uint x div 2 ^ k" by simp
  moreover then have "0 < n" using assms(1) unfolding uint_drop bit_length_def by linarith
  ultimately show ?thesis using bit_length_add [of "uint x" k n] assms(1) unfolding uint_drop by (simp only: add.commute)
qed

lemma len_step:
  fixes x t :: "'a::len word"
  assumes p: "(if t \<le> x then (drop_bit k x, a) else (x, n)) = (x', n')"
    and a: "a = n + int k" and t: "uint t = 2 ^ k" and x: "uint x < 2 ^ (k + k)"
  shows "uint x' < 2 ^ k" "bit_length (uint x') m \<Longrightarrow> bit_length (uint x) (n' - n + m)"
proof -
  have "uint x div 2 ^ k < 2 ^ k"
    using x unfolding power_add by (rule int_div_less) simp
  then show "uint x' < 2 ^ k" using p t by (auto simp: word_le_def uint_drop split: if_splits)
  show "bit_length (uint x) (n' - n + m)" if "bit_length (uint x') m"
    using p a t that bit_length_half [of k x m] by (auto simp: word_le_def split: if_splits)
qed

lemma Len16_ok: "bit_length (uint x) (Len16 x)" for x :: uint16
proof -
  obtain x1 and n1 :: int where 1: "(if 0x100 \<le> x then (drop_bit 8 x, 8) else (x, 0)) = (x1, n1)" by fastforce
  have "uint x < 2 ^ (8 + 8)" using unsigned_less [of x, where 'a = int] by simp
  note s1 = len_step [OF 1 _ _ this, simplified]
  have "bit_length (uint x1) (tab len8tab x1)" by (rule tab_len8tab) (rule s1(1))
  from s1(2) [OF this] show ?thesis by (simp only: Len16_def 1 prod.case Let_def)
qed

lemma Len32_ok: "bit_length (uint x) (Len32 x)" for x :: uint32
proof -
  obtain x1 and n1 :: int where 1: "(if 0x10000 \<le> x then (drop_bit 16 x, 16) else (x, 0)) = (x1, n1)" by fastforce
  obtain x2 n2 where 2: "(if 0x100 \<le> x1 then (drop_bit 8 x1, n1 + 8) else (x1, n1)) = (x2, n2)" by fastforce
  have "uint x < 2 ^ (16 + 16)" using unsigned_less [of x, where 'a = int] by simp
  note s1 = len_step [OF 1 _ _ this, simplified]
  have "uint x1 < 2 ^ (8 + 8)" using s1(1) by simp
  note s2 = len_step [OF 2 _ _ this, simplified]
  have "bit_length (uint x2) (tab len8tab x2)" by (rule tab_len8tab) (rule s2(1))
  from s1(2) [OF s2(2) [OF this]] have "bit_length (uint x) (n2 + tab len8tab x2)" by simp
  then show ?thesis by (simp only: Len32_def 1 2 prod.case Let_def)
qed

lemma Len64_ok: "bit_length (uint x) (Len64 x)" for x :: uint64
proof -
  obtain x1 and n1 :: int where 1: "(if 0x100000000 \<le> x then (drop_bit 32 x, 32) else (x, 0)) = (x1, n1)" by fastforce
  obtain x2 n2 where 2: "(if 0x10000 \<le> x1 then (drop_bit 16 x1, n1 + 16) else (x1, n1)) = (x2, n2)" by fastforce
  obtain x3 n3 where 3: "(if 0x100 \<le> x2 then (drop_bit 8 x2, n2 + 8) else (x2, n2)) = (x3, n3)" by fastforce
  have "uint x < 2 ^ (32 + 32)" using unsigned_less [of x, where 'a = int] by simp
  note s1 = len_step [OF 1 _ _ this, simplified]
  have "uint x1 < 2 ^ (16 + 16)" using s1(1) by simp
  note s2 = len_step [OF 2 _ _ this, simplified]
  have "uint x2 < 2 ^ (8 + 8)" using s2(1) by simp
  note s3 = len_step [OF 3 _ _ this, simplified]
  have "bit_length (uint x3) (tab len8tab x3)" by (rule tab_len8tab) (rule s3(1))
  from s1(2) [OF s2(2) [OF s3(2) [OF this]]] have "bit_length (uint x) (n3 + tab len8tab x3)" by simp
  then show ?thesis by (simp only: Len64_def 1 2 3 prod.case Let_def)
qed

text \<open>Shifting by the leading zeros puts the highest set bit at the top.\<close>

lemma LeadingZeros64_normalises:
  assumes "y \<noteq> 0"
  shows "0 \<le> LeadingZeros64 y" "LeadingZeros64 y < 64"
    "2 ^ 63 \<le> uint y * 2 ^ nat (LeadingZeros64 y)" "uint y * 2 ^ nat (LeadingZeros64 y) < 2 ^ 64"
proof -
  let ?n = "Len64 y"
  have b: "0 < ?n" "uint y < 2 ^ nat ?n" "2 ^ nat (?n - 1) \<le> uint y"
    using Len64_ok [of y] assms by (auto simp: bit_length_def uint_0_iff)
  have "\<not> 64 < ?n"
  proof
    assume "64 < ?n"
    then have "(2::int) ^ 64 \<le> 2 ^ nat (?n - 1)" by (intro power_increasing) auto
    then show False using b(3) uint64_bounds(2) [of y] by linarith
  qed
  then have n: "?n \<le> 64" by simp
  have z: "LeadingZeros64 y = 64 - ?n" by (simp add: LeadingZeros64_def)
  show "0 \<le> LeadingZeros64 y" "LeadingZeros64 y < 64" using n b(1) by (simp_all add: z)
  have e: "(2::int) ^ nat (?n - 1) * 2 ^ nat (64 - ?n) = 2 ^ 63" "(2::int) ^ nat ?n * 2 ^ nat (64 - ?n) = 2 ^ 64"
    unfolding power_add [symmetric] using n b(1) by (simp_all add: nat_add_distrib [symmetric])
  have "2 ^ nat (?n - 1) * 2 ^ nat (64 - ?n) \<le> uint y * 2 ^ nat (64 - ?n)" using b(3) by (intro mult_right_mono) auto
  then show "2 ^ 63 \<le> uint y * 2 ^ nat (LeadingZeros64 y)" unfolding e z .
  have "uint y * 2 ^ nat (64 - ?n) < 2 ^ nat ?n * 2 ^ nat (64 - ?n)" using b(2) by (intro mult_strict_right_mono) auto
  then show "uint y * 2 ^ nat (LeadingZeros64 y) < 2 ^ 64" unfolding e z .
qed

end
