(* ===== verification/Math_Bits_Div.thy ===== *)
theory Math_Bits_Div
  imports Math_Bits_Count
begin

text \<open>
  \<^verbatim>\<open>bits.Div64\<close> (Knuth's algorithm D with two digits in base $2^{32}$) computes quotient and remainder, and
  panics exactly for a zero divisor and for a quotient that does not fit.
\<close>

subsection \<open>One quotient digit\<close>

text \<open>
  With \<open>q * yn1 + r = u\<close> the test of the correction loop compares \<open>q * y\<close> with the dividend, so a digit that is
  too large is the only reason to go on.
\<close>

lemma trial_digit:
  fixes q r u d yn1 yn0 b y N :: int
  assumes "q * yn1 + r = u" "y = yn1 * b + yn0" "N = u * b + d"
  shows "N - q * y = r * b + d - q * yn0"
  unfolding assms(2,3) assms(1) [symmetric] by (simp add: algebra_simps)

lemma quotient_between:
  fixes q y N :: int
  assumes "0 < y" "N div y \<le> q"
  shows "N < q * y \<Longrightarrow> N div y \<le> q - 1" "q * y \<le> N \<Longrightarrow> q = N div y"
proof -
  have e: "N div y * y + N mod y = N" "0 \<le> N mod y" using assms by simp_all
  show "N div y \<le> q - 1" if "N < q * y"
  proof -
    have "N div y * y < q * y" using e that by linarith
    then show ?thesis using assms(1) by simp
  qed
  show "q = N div y" if "q * y \<le> N"
    using zdiv_mono1 [OF that assms(1)] assms by simp
qed

lemma Div64_correct_ok:
  fixes yn1 yn0 un q rhat :: uint64
  defines "b \<equiv> (2::int) ^ 32"
  defines "y \<equiv> uint yn1 * b + uint yn0"
  assumes y: "0 < uint yn1" "uint yn1 < b" "uint yn0 < b" and un: "uint un < b"
    and u: "uint q * uint yn1 + uint rhat = u" "u < y"
    and q: "(u * b + uint un) div y \<le> uint q" "uint q \<le> b + 1" and r: "uint rhat < b"
  shows "\<exists>q'. Div64_correct yn1 yn0 un q rhat = Some q' \<and> uint q' = (u * b + uint un) div y"
  using u(1) q r
proof (induction "nat (b - uint rhat)" arbitrary: q rhat rule: less_induct)
  case less
  let ?N = "u * b + uint un" and ?Q = "(u * b + uint un) div y"
  note rng = uint64_bounds [of q] uint64_bounds [of rhat] uint64_bounds [of yn1] uint64_bounds [of yn0] uint64_bounds [of un]
  have b0: "0 < b" by (simp add: b_def)
  have y0: "0 < y" unfolding y_def using y rng b0 by (simp add: add_pos_nonneg)
  have u0: "0 \<le> u" using less.prems(1) rng by (metis add_nonneg_nonneg mult_nonneg_nonneg)
  have Qb: "?Q < b"
  proof (rule int_div_less [OF _ y0])
    have "u * b + uint un < u * b + b" using un by simp
    also have "\<dots> \<le> y * b" using u(2) b0 mult_right_mono [of "u + 1" y b] by (simp add: algebra_simps)
    finally show "u * b + uint un < y * b" .
  qed
  have Q0: "0 \<le> ?Q" using u0 b0 rng y0 by (simp add: pos_imp_zdiv_nonneg_iff)
  have test: "0x100000000 \<le> q \<longleftrightarrow> b \<le> uint q" by (simp add: word_le_def b_def)
  have rb: "uint (0x100000000 * rhat + un) = uint rhat * b + uint un"
  proof -
    have "uint rhat * b \<le> (b - 1) * b" using less.prems(4) b0 by (intro mult_right_mono) auto
    then have "uint rhat * b + uint un < 2 ^ 64" using un unfolding b_def by simp
    moreover have m: "uint (0x100000000 * rhat) = uint rhat * b"
    proof -
      have "uint (0x100000000::uint64) * uint rhat < 2 ^ 64" using less.prems(4) by (simp add: b_def)
      from uint_times64 [OF this] show ?thesis by (simp add: b_def)
    qed
    ultimately show ?thesis using uint_plus64 [of "0x100000000 * rhat" un] by simp
  qed
  have test2: "0x100000000 * rhat + un < q * yn0 \<longleftrightarrow> ?N < uint q * y" if "uint q < b"
  proof -
    have "uint q * uint yn0 \<le> (b - 1) * (b - 1)" using that y(3) rng b0 by (intro mult_mono) auto
    then have "uint q * uint yn0 < 2 ^ 64" by (simp add: b_def)
    from uint_times64 [OF this] have "0x100000000 * rhat + un < q * yn0 \<longleftrightarrow> uint rhat * b + uint un < uint q * uint yn0"
      unfolding word_less_def rb by simp
    moreover have "?N - uint q * y = uint rhat * b + uint un - uint q * uint yn0"
      by (rule trial_digit [OF less.prems(1) _ refl]) (simp add: y_def)
    then have "uint rhat * b + uint un < uint q * uint yn0 \<longleftrightarrow> ?N < uint q * y" by (intro iffI) linarith+
    ultimately show ?thesis by simp
  qed
  show ?case
  proof (cases "0x100000000 \<le> q \<or> 0x100000000 * rhat + un < q * yn0")
    case False
    then have "\<not> ?N < uint q * y" "uint q < b" using test test2 by auto
    then have "uint q = ?Q" using quotient_between(2) [OF y0 less.prems(2)] by simp
    moreover have "Div64_correct yn1 yn0 un q rhat = Some q" using False by (subst Div64_correct.simps) simp
    ultimately show ?thesis by blast
  next
    case True
    have Q1: "?Q \<le> uint q - 1"
    proof (cases "b \<le> uint q")
      case False
      then have "?N < uint q * y" using True test test2 by auto
      then show ?thesis by (rule quotient_between(1) [OF y0 less.prems(2)])
    qed (use Qb in linarith)
    have q1: "uint (q - 1) = uint q - 1" using Q1 Q0 by (subst uint_minus64) auto
    have r1: "uint (rhat + yn1) = uint rhat + uint yn1"
      by (rule uint_plus64) (use less.prems(4) y(2) in \<open>simp add: b_def\<close>)
    have s: "uint (q - 1) * uint yn1 + uint (rhat + yn1) = u"
      using less.prems(1) unfolding q1 r1 by (simp add: algebra_simps)
    have step: "Div64_correct yn1 yn0 un q rhat =
        (if 0x100000000 \<le> rhat + yn1 then Some (q - 1) else Div64_correct yn1 yn0 un (q - 1) (rhat + yn1))"
      using True by (subst Div64_correct.simps) (simp add: Let_def)
    show ?thesis
    proof (cases "b \<le> uint (rhat + yn1)")
      case big: True
      have "uint (q - 1) * uint yn0 \<le> b * b"
        using less.prems(3) y(3) rng q1 b0 Q1 Q0 by (intro mult_mono) auto
      also have "\<dots> \<le> uint (rhat + yn1) * b" using big b0 by (intro mult_right_mono) auto
      finally have "uint (q - 1) * uint yn0 \<le> uint (rhat + yn1) * b + uint un" using rng by linarith
      moreover have "?N - uint (q - 1) * y = uint (rhat + yn1) * b + uint un - uint (q - 1) * uint yn0"
        by (rule trial_digit [OF s _ refl]) (simp add: y_def)
      ultimately have "uint (q - 1) * y \<le> ?N" by linarith
      then have "uint (q - 1) = ?Q" using quotient_between(2) [OF y0, of ?N "uint (q - 1)"] Q1 q1 by simp
      moreover have "Div64_correct yn1 yn0 un q rhat = Some (q - 1)" using big unfolding step by (simp add: word_le_def b_def)
      ultimately show ?thesis by blast
    next
      case small: False
      then have "Div64_correct yn1 yn0 un q rhat = Div64_correct yn1 yn0 un (q - 1) (rhat + yn1)"
        unfolding step by (simp add: word_le_def b_def)
      moreover have "\<exists>q'. Div64_correct yn1 yn0 un (q - 1) (rhat + yn1) = Some q' \<and> uint q' = ?Q"
        by (rule less.hyps [OF _ s]) (use small r1 y(1) Q1 q1 less.prems(3) in auto)
      ultimately show ?thesis by simp
    qed
  qed
qed

text \<open>A whole digit: the estimate from the leading halves, corrected.\<close>

lemma Div64_digit:
  fixes yn1 yn0 un u :: uint64
  defines "b \<equiv> (2::int) ^ 32"
  defines "y \<equiv> uint yn1 * b + uint yn0"
  assumes yn: "2 ^ 31 \<le> uint yn1" "uint yn1 < b" "uint yn0 < b" and un: "uint un < b" and u: "uint u < y"
  shows "\<exists>q. Div64_correct yn1 yn0 un (u div yn1) (u - u div yn1 * yn1) = Some q
    \<and> uint q = (uint u * b + uint un) div y"
proof -
  have b0: "0 < b" by (simp add: b_def)
  note rng = uint64_bounds [of u] uint64_bounds [of yn0] uint64_bounds [of un]
  have q: "uint (u div yn1) = uint u div uint yn1" by (simp add: uint_div)
  have y1: "0 < uint yn1" using yn(1) by simp
  have le: "uint u div uint yn1 * uint yn1 \<le> uint u"
    using div_mult_mod_eq [of "uint u" "uint yn1"] pos_mod_sign [OF y1, of "uint u"] by linarith
  have qy: "uint (u div yn1 * yn1) = uint u div uint yn1 * uint yn1"
    unfolding q [symmetric] by (rule uint_times64) (use le rng in \<open>simp add: q\<close>)
  have r: "uint (u - u div yn1 * yn1) = uint u mod uint yn1"
    by (subst uint_minus64) (use le in \<open>simp_all add: qy minus_div_mult_eq_mod\<close>)
  have "(uint u * b + uint un) div y \<le> (uint u * b + uint un) div (b * uint yn1)"
    by (rule zdiv_mono2) (use rng b0 y1 in \<open>simp_all add: y_def mult.commute\<close>)
  also have "\<dots> = uint u div uint yn1"
    using rng un b0 by (simp add: div_mult2_eq' zdiv_zmult2_eq add.commute)
  finally have Q: "(uint u * b + uint un) div y \<le> uint (u div yn1)" unfolding q .
  have "uint u < (b + 2) * uint yn1" using u yn unfolding y_def b_def by (simp add: algebra_simps)
  then have "uint (u div yn1) \<le> b + 1" unfolding q using int_div_less [of "uint u" "uint yn1" "b + 2"] y1 by (simp add: mult.commute)
  moreover have "uint (u - u div yn1 * yn1) < b" unfolding r using pos_mod_bound [OF y1, of "uint u"] yn(2) by linarith
  ultimately show ?thesis unfolding b_def y_def
    by (intro Div64_correct_ok) (use y1 yn un u Q in \<open>simp_all add: b_def y_def q qy r\<close>)
qed

subsection \<open>Both digits\<close>

lemma uint_shift_left_mod: "uint (push_bit s x) = (uint x * 2 ^ s) mod 2 ^ 64" for x :: uint64
  using unsigned_push_bit_eq [of s x, where 'a = int] unfolding push_bit_eq_mult take_bit_eq_mod by simp

lemma uint_shift_left: "uint x * 2 ^ s < 2 ^ 64 \<Longrightarrow> uint (push_bit s x) = uint x * 2 ^ s" for x :: uint64
  unfolding uint_shift_left_mod by (rule mod_pos_pos_trivial) simp_all

text \<open>\<open>hi << s | lo >> (64 - s)\<close> together with \<open>lo << s\<close> is the shifted dividend.\<close>

lemma shifted_dividend:
  fixes hi lo :: uint64
  assumes s: "s < 64" and hi: "uint hi * 2 ^ s + 2 ^ s \<le> 2 ^ 64"
  defines "u \<equiv> push_bit s hi OR drop_bit (64 - s) lo"
  shows "uint u = uint hi * 2 ^ s + uint lo div 2 ^ (64 - s)"
    "(uint hi * 2 ^ 64 + uint lo) * 2 ^ s = uint u * 2 ^ 64 + uint (push_bit s lo)"
proof -
  have p: "(2::int) ^ 64 = 2 ^ (64 - s) * 2 ^ s" unfolding power_add [symmetric] using s by simp
  have h: "uint (push_bit s hi) = uint hi * 2 ^ s" by (rule uint_shift_left) (use hi zero_less_power [of "2::int" s] in linarith)
  have d: "uint (drop_bit (64 - s) lo) = uint lo div 2 ^ (64 - s)" by (rule uint_drop)
  have "uint lo div 2 ^ (64 - s) < 2 ^ s" by (rule int_div_less) (use uint64_bounds [of lo] p in simp_all)
  then show u: "uint u = uint hi * 2 ^ s + uint lo div 2 ^ (64 - s)"
    unfolding u_def by (subst uint_or_plus [where k = s]) (simp_all only: h d dvd_triv_right)
  have l: "uint (push_bit s lo) = uint lo mod 2 ^ (64 - s) * 2 ^ s"
    unfolding uint_shift_left_mod p by (rule mult_mod_left [symmetric])
  have "uint lo * 2 ^ s = uint lo div 2 ^ (64 - s) * 2 ^ 64 + uint lo mod 2 ^ (64 - s) * 2 ^ s"
  proof -
    let ?A = "uint lo div 2 ^ (64 - s)" and ?B = "uint lo mod 2 ^ (64 - s)"
    have "uint lo * 2 ^ s = (?A * 2 ^ (64 - s) + ?B) * 2 ^ s" by (simp only: div_mult_mod_eq)
    then show ?thesis unfolding p by (simp only: distrib_right mult.assoc)
  qed
  then show "(uint hi * 2 ^ 64 + uint lo) * 2 ^ s = uint u * 2 ^ 64 + uint (push_bit s lo)"
    unfolding u l by (simp add: algebra_simps)
qed

lemma uint_next_dividend:
  fixes u d q y :: uint64
  assumes "uint q = (uint u * 2 ^ 32 + uint d) div uint y" "0 < uint y"
  shows "uint (u * 0x100000000 + d - q * y) = (uint u * 2 ^ 32 + uint d) mod uint y"
proof -
  let ?r = "(uint u * 2 ^ 32 + uint d) mod uint y"
  have "uint (u * 0x100000000 + d - q * y) = (uint u * 2 ^ 32 + uint d - uint q * uint y) mod 2 ^ 64"
    by (simp add: uint_word_ariths mod_simps)
  also have "uint u * 2 ^ 32 + uint d - uint q * uint y = ?r"
    unfolding assms(1) by (rule minus_div_mult_eq_mod)
  also have "?r mod 2 ^ 64 = ?r"
    using pos_mod_bound [OF assms(2), of "uint u * 2 ^ 32 + uint d"] pos_mod_sign [OF assms(2), of "uint u * 2 ^ 32 + uint d"]
      uint64_bounds(2) [of y] by (intro mod_pos_pos_trivial) linarith+
  finally show ?thesis .
qed

lemma two_digits:
  fixes u d1 d0 y b :: int
  assumes "0 < y" "0 \<le> d0"
  shows "(u * b + d1) * b + d0 = ((u * b + d1) div y * b + ((u * b + d1) mod y * b + d0) div y) * y
    + ((u * b + d1) mod y * b + d0) mod y"
proof -
  have "(u * b + d1) * b + d0 = ((u * b + d1) div y * y + (u * b + d1) mod y) * b + d0" by simp
  also have "\<dots> = (u * b + d1) div y * b * y + ((u * b + d1) mod y * b + d0)" by (simp only: algebra_simps)
  also have "\<dots> = (u * b + d1) div y * b * y + (((u * b + d1) mod y * b + d0) div y * y + ((u * b + d1) mod y * b + d0) mod y)"
    by simp
  finally show ?thesis by (simp only: algebra_simps)
qed

lemma Div64_ok:
  assumes "uint hi < uint y"
  shows "\<exists>q r. Div64 hi lo y = Some (q, r) \<and> uint hi * 2 ^ 64 + uint lo = uint q * uint y + uint r \<and> uint r < uint y"
proof -
  define s where "s = nat (LeadingZeros64 y)"
  define y' where "y' = push_bit s y"
  define yn1 yn0 where "yn1 = drop_bit 32 y'" and "yn0 = y' AND 0xffffffff"
  define un32 where "un32 = push_bit s hi OR drop_bit (64 - s) lo"
  define un10 where "un10 = push_bit s lo"
  define un1 un0 where "un1 = drop_bit 32 un10" and "un0 = un10 AND 0xffffffff"
  have y0: "0 < uint y" using assms uint64_bounds(1) [of hi] by linarith
  then have y1: "y \<noteq> 0" by auto
  have s64: "s < 64" and n: "2 ^ 63 \<le> uint y * 2 ^ s" "uint y * 2 ^ s < 2 ^ 64"
    using LeadingZeros64_normalises [OF y1] unfolding s_def by simp_all
  have uy: "uint y' = uint y * 2 ^ s" unfolding y'_def by (rule uint_shift_left [OF n(2)])
  have ps: "(0::int) < 2 ^ s" by simp
  have hs: "uint hi * 2 ^ s + 2 ^ s \<le> uint y'"
    using mult_right_mono [of "uint hi + 1" "uint y" "2 ^ s"] assms unfolding uy by (simp add: algebra_simps)
  have yn: "uint y' = uint yn1 * 2 ^ 32 + uint yn0" unfolding yn1_def yn0_def uint_drop uint_low32 by simp
  have yn1: "2 ^ 31 \<le> uint yn1"
    using zdiv_mono1 [OF n(1), of "2 ^ 32"] unfolding yn1_def uint_drop uy by simp
  have low: "uint (drop_bit 32 x) < 2 ^ 32" "uint (x AND 0xffffffff) < 2 ^ 32" for x :: uint64
    unfolding uint_drop uint_low32 by (rule int_div_less) (use uint64_bounds [of x] in simp_all)
  note nlow = low(1) [of y', folded yn1_def] low(2) [of y', folded yn0_def]
    low(1) [of un10, folded un1_def] low(2) [of un10, folded un0_def]
  have sd: "uint un32 = uint hi * 2 ^ s + uint lo div 2 ^ (64 - s)"
      "(uint hi * 2 ^ 64 + uint lo) * 2 ^ s = uint un32 * 2 ^ 64 + uint un10"
    unfolding un32_def un10_def using hs uint64_bounds(2) [of y'] by (intro shifted_dividend s64; linarith)+
  have "uint lo div 2 ^ (64 - s) < 2 ^ s"
    by (rule int_div_less) (use uint64_bounds [of lo] s64 in \<open>simp_all add: power_add [symmetric]\<close>)
  then have uy32: "uint un32 < uint y'" using sd(1) hs by linarith
  have u10: "uint un10 = uint un1 * 2 ^ 32 + uint un0" unfolding un1_def un0_def uint_drop uint_low32 by simp
  have py: "0 < uint y'" using n(1) uy by simp
  obtain q1 where q1: "Div64_correct yn1 yn0 un1 (un32 div yn1) (un32 - un32 div yn1 * yn1) = Some q1"
      "uint q1 = (uint un32 * 2 ^ 32 + uint un1) div uint y'"
    using Div64_digit [of yn1 yn0 un1 un32] yn1 nlow uy32 unfolding yn by blast
  define un21 where "un21 = un32 * 0x100000000 + un1 - q1 * y'"
  have u21: "uint un21 = (uint un32 * 2 ^ 32 + uint un1) mod uint y'"
    unfolding un21_def by (rule uint_next_dividend [OF q1(2) py])
  have l21: "uint un21 < uint y'" unfolding u21 by (rule pos_mod_bound [OF py])
  obtain q0 where q0: "Div64_correct yn1 yn0 un0 (un21 div yn1) (un21 - un21 div yn1 * yn1) = Some q0"
      "uint q0 = (uint un21 * 2 ^ 32 + uint un0) div uint y'"
    using Div64_digit [of yn1 yn0 un0 un21] yn1 nlow l21 unfolding yn by blast
  define r where "r = un21 * 0x100000000 + un0 - q0 * y'"
  have r: "uint r = (uint un21 * 2 ^ 32 + uint un0) mod uint y'"
    unfolding r_def by (rule uint_next_dividend [OF q0(2) py])
  have D: "Div64 hi lo y = Some (q1 * 0x100000000 + q0, drop_bit s r)"
  proof -
    have g: "\<not> y \<le> hi" using assms by (simp add: word_le_def)
    show ?thesis
      using y1 g q1(1) q0(1)
      by (simp add: Div64_def Let_def un21_def r_def yn1_def yn0_def un32_def un1_def un0_def un10_def y'_def s_def)
  qed
  have digit: "uint q1 < 2 ^ 32" "uint q0 < 2 ^ 32"
    unfolding q1(2) q0(2) using uy32 l21 nlow py uint64_bounds(1)
    by (auto intro!: int_div_less simp: algebra_simps)
  have q: "uint (q1 * 0x100000000 + q0) = uint q1 * 2 ^ 32 + uint q0"
  proof -
    have m: "uint (q1 * 0x100000000) = uint q1 * 2 ^ 32"
      using uint_times64 [of q1 "0x100000000"] digit by simp
    show ?thesis using digit uint_plus64 [of "q1 * 0x100000000" q0] unfolding m by simp
  qed
  have "(uint hi * 2 ^ 64 + uint lo) * 2 ^ s = (uint un32 * 2 ^ 32 + uint un1) * 2 ^ 32 + uint un0"
    unfolding sd(2) u10 by simp
  also have "\<dots> = (uint q1 * 2 ^ 32 + uint q0) * uint y' + uint r"
    using two_digits [OF py, of "uint un0" "uint un32" "2 ^ 32" "uint un1"] uint64_bounds [of un0]
    unfolding q1(2) q0(2) r u21 by simp
  finally have e: "(uint hi * 2 ^ 64 + uint lo - uint (q1 * 0x100000000 + q0) * uint y) * 2 ^ s = uint r"
    unfolding q uy by (simp add: algebra_simps)
  have rr: "uint (drop_bit s r) = uint hi * 2 ^ 64 + uint lo - uint (q1 * 0x100000000 + q0) * uint y"
    unfolding uint_drop e [symmetric] by simp
  have "uint r < uint y * 2 ^ s" unfolding r uy [symmetric] by (rule pos_mod_bound [OF py])
  then have "uint r < 2 ^ s * uint y" by (simp only: mult.commute)
  then have "uint (drop_bit s r) < uint y" unfolding uint_drop by (rule int_div_less [OF _ ps])
  then show ?thesis using D rr by simp
qed

end
