(* ===== verification/Math_Bits_Properties.thy ===== *)
theory Math_Bits_Properties
  imports Math_Bits_Div
begin

text \<open>
  What the functions of \<^verbatim>\<open>math/bits\<close> compute: exact sums, differences, products and quotients of numbers wider
  than a machine word, and the position of the highest and of the lowest set bit.
\<close>

subsection \<open>The lowest set bit\<close>

text \<open>\<open>x & -x\<close> isolates the lowest set bit; the multiplication by the de Bruijn constant hashes it to a table index.\<close>

lemma and_uminus_int: "(2 ^ k * (2 * m + 1)) AND (- (2 ^ k * (2 * m + 1))) = (2 ^ k :: int)"
proof -
  let ?w = "2 * m + 1"
  have d: "(- (2 * m) - 1) div 2 = NOT m" unfolding not_eq_complement by presburger
  have "?w AND (- ?w) = 1" by (subst and_int_rec) (simp add: d)
  then have "push_bit k ?w AND push_bit k (- ?w) = push_bit k 1" by (simp only: push_bit_and [symmetric])
  moreover have "push_bit k z = 2 ^ k * z" for z :: int by (simp only: push_bit_eq_mult mult.commute)
  ultimately show ?thesis by (simp only: mult_minus_right mult_1_right)
qed

lemma lowest_bit_split:
  assumes "0 < (x::int)"
  obtains k m where "x = 2 ^ k * (2 * m + 1)" "0 \<le> m"
proof -
  have "\<exists>k m. x = 2 ^ k * (2 * m + 1) \<and> 0 \<le> m" using assms
  proof (induction "nat x" arbitrary: x rule: less_induct)
    case less
    show ?case
    proof (cases "odd x")
      case True
      then obtain m where "x = 2 * m + 1" by (rule oddE)
      then show ?thesis using less.prems by (intro exI [of _ 0] exI [of _ m]) simp
    next
      case False
      then obtain z where z: "x = 2 * z" by (auto elim: evenE)
      then obtain k m where "z = 2 ^ k * (2 * m + 1)" "0 \<le> m" using less.hyps [of z] less.prems by auto
      then show ?thesis using z by (intro exI [of _ "Suc k"] exI [of _ m]) simp
    qed
  qed
  then show ?thesis using that by blast
qed

lemma and_uminus_word:
  fixes x :: "'a::len word"
  assumes "uint x = 2 ^ k * (2 * m + 1)" "0 \<le> m"
  shows "x AND - x = word_of_int (2 ^ k)" "k < LENGTH('a)"
proof -
  have x: "x = word_of_int (2 ^ k * (2 * m + 1))" using assms(1) by (metis word_of_int_uint)
  have "x AND - x = word_of_int ((2 ^ k * (2 * m + 1)) AND - (2 ^ k * (2 * m + 1)))"
    by (simp only: x of_int_and_eq of_int_minus)
  then show "x AND - x = word_of_int (2 ^ k)" by (simp only: and_uminus_int)
  have "2 ^ k * 1 \<le> 2 ^ k * (2 * m + 1)" using assms(2) by (intro mult_left_mono) auto
  then have "(2::int) ^ k \<le> uint x" using assms(1) by simp
  then have "(2::int) ^ k < 2 ^ LENGTH('a)" using unsigned_less [of x, where 'a = int] by (rule order_le_less_trans)
  then show "k < LENGTH('a)" by simp
qed

lemma deBruijn64_hash:
  "list_all (\<lambda>k. map uint deBruijn64tab ! nat ((0x03f79d71b4ca8b09 * 2 ^ k) mod 2 ^ 64 div 2 ^ 58) = int k) [0..<64]"
  by code_simp

lemma TrailingZeros64_ok:
  assumes "uint x = 2 ^ k * (2 * m + 1)" "0 \<le> m"
  shows "TrailingZeros64 x = int k"
proof -
  let ?i = "drop_bit 58 ((x AND - x) * 0x03f79d71b4ca8b09)"
  note a = and_uminus_word [OF assms]
  have "0 < uint x" using assms by simp
  then have x0: "x \<noteq> 0" by auto
  have "uint ((x AND - x) * 0x03f79d71b4ca8b09) = (2 ^ k * 0x03f79d71b4ca8b09) mod 2 ^ 64"
  proof -
    have "(x AND - x) * 0x03f79d71b4ca8b09 = word_of_int (2 ^ k * 0x03f79d71b4ca8b09)"
      unfolding a(1) by (simp only: of_int_mult of_int_numeral)
    then show ?thesis by (simp only: uint_word_of_int) simp
  qed
  then have i: "unat ?i = nat ((0x03f79d71b4ca8b09 * 2 ^ k) mod 2 ^ 64 div 2 ^ 58)"
    unfolding unat_eq_nat_uint uint_drop by (simp only: mult.commute)
  have l: "unat ?i < length deBruijn64tab"
  proof -
    have "uint ?i < 64" unfolding uint_drop
      by (rule int_div_less) (use uint64_bounds [of "(x AND - x) * 0x03f79d71b4ca8b09"] in simp_all)
    moreover have "length deBruijn64tab = 64" by (simp add: deBruijn64tab_def)
    ultimately show ?thesis unfolding uint_nat by linarith
  qed
  have "TrailingZeros64 x = map uint deBruijn64tab ! unat ?i"
    unfolding nth_map [OF l] using x0 by (simp add: TrailingZeros64_def tab_def)
  also have "\<dots> = int k" unfolding i using deBruijn64_hash a(2) by (simp add: list_all_iff)
  finally show ?thesis .
qed

lemma quotient_remainder:
  fixes q r y :: int
  assumes "0 \<le> r" "r < y"
  shows "(q * y + r) div y = q" "(q * y + r) mod y = r"
  using assms by simp_all

subsection \<open>Claims\<close>

text \<open>
  Add64 and Sub64. With a carry of 0 or 1 the sum and the carry out are the exact sum of the operands, and
  subtracting one operand with the carry as borrow gives the other one back.
\<close>

theorem Add64_exact:
  assumes "uint carry \<le> 1" "Add64 x y carry = (s, c)"
  shows "uint x + uint y + uint carry = uint s + 2 ^ 64 * uint c \<and> uint c \<le> 1 \<and> Sub64 s y carry = (x, c)"
proof -
  have e: "uint x + uint y + uint carry = uint s + 2 ^ 64 * uint c" using Add64_ok [OF assms(1), of x y] assms(2) by simp
  obtain d b where d: "Sub64 s y carry = (d, b)" by fastforce
  have f: "uint s - uint y - uint carry = uint d - 2 ^ 64 * uint b" using Sub64_ok [OF assms(1), of s y] d by simp
  note r = uint64_bounds [of x] uint64_bounds [of y] uint64_bounds [of s] uint64_bounds [of d] uint64_bounds [of c]
  have "2 ^ 64 * uint c \<le> 2 ^ 64 * 2 - 1" using e r assms(1) by linarith
  then have c: "uint c \<le> 1" by simp
  have "uint x - uint d = 2 ^ 64 * (uint c - uint b)" using e f by (simp add: algebra_simps)
  moreover have "- (2 ^ 64) < uint x - uint d" "uint x - uint d < 2 ^ 64" using r by linarith+
  ultimately have "uint c - uint b = 0" by simp
  then have "uint x = uint d" "uint c = uint b" using e f by simp_all
  then have "d = x" "b = c" unfolding word_uint_eq_iff by simp_all
  then show ?thesis using e c d by simp
qed

lemma Add64_exact_witness: "Sub64 1 3 1 = (-3 :: uint64, 1)"
proof -
  have "Add64 (- 3) 3 1 = (1 :: uint64, 1)" by code_simp
  then show ?thesis using Add64_exact [of 1 "- 3" 3 1 1] by simp
qed

text \<open>
  Mul64. The two result words are the full 128-bit product.
\<close>

theorem Mul64_exact: "(case Mul64 x y of (hi, lo) \<Rightarrow> uint x * uint y = uint hi * 2 ^ 64 + uint lo)"
  by (rule Mul64_ok)

text \<open>
  C8 (Div64). Div64 panics exactly for a zero divisor and for a quotient that does not fit in 64 bits; otherwise it
  terminates with quotient and remainder of the 128-bit dividend.
\<close>

theorem Div64_exact:
  "Div64 hi lo y =
     (if y = 0 \<or> y \<le> hi then None
      else Some (word_of_int ((uint hi * 2 ^ 64 + uint lo) div uint y), word_of_int ((uint hi * 2 ^ 64 + uint lo) mod uint y)))"
proof (cases "y = 0 \<or> y \<le> hi")
  case True
  then have "Div64 hi lo y = None" by (cases "y = 0") (simp_all only: Div64_def simp_thms if_True if_False)
  then show ?thesis using True by (simp only: simp_thms if_True)
next
  case False
  then have "uint hi < uint y" by (simp add: word_le_def)
  from Div64_ok [OF this, of lo] obtain q r where D: "Div64 hi lo y = Some (q, r)"
    and e: "uint hi * 2 ^ 64 + uint lo = uint q * uint y + uint r" and r: "uint r < uint y" by blast
  note quotient_remainder [OF uint64_bounds(1) r]
  then show ?thesis using D False unfolding e by simp
qed

text \<open>
  Rem64. Rem64 returns the remainder of the 128-bit dividend also when the quotient does not fit, and panics
  only for a zero divisor.
\<close>

theorem Rem64_exact:
  "Rem64 hi lo y = (if y = 0 then None else Some (word_of_int ((uint hi * 2 ^ 64 + uint lo) mod uint y)))"
proof (cases "y = 0")
  case False
  then have y: "0 < uint y" using uint64_bounds(1) [of y] by (auto simp: uint_0_iff order_less_le)
  have h: "uint (hi mod y) = uint hi mod uint y" by (simp add: uint_mod)
  have "uint (hi mod y) < uint y" unfolding h by (rule pos_mod_bound [OF y])
  from Div64_ok [OF this, of lo] obtain q r where D: "Div64 (hi mod y) lo y = Some (q, r)"
    and e: "uint (hi mod y) * 2 ^ 64 + uint lo = uint q * uint y + uint r" and r: "uint r < uint y" by blast
  have "(uint hi * 2 ^ 64 + uint lo) mod uint y = (uint (hi mod y) * 2 ^ 64 + uint lo) mod uint y"
    unfolding h by (metis mod_add_left_eq mod_mult_left_eq)
  also have "\<dots> = uint r" unfolding e by (rule quotient_remainder(2) [OF uint64_bounds(1) r])
  finally show ?thesis using D False by (simp add: Rem64_def)
qed (simp add: Rem64_def)

text \<open>
  Len64 and TrailingZeros64. For a non-zero word the bit length and the number of trailing zeros bracket it:
  the highest set bit is at the one, the lowest at the other.
\<close>

theorem Len64_TrailingZeros64:
  assumes "x \<noteq> 0"
  shows "2 ^ nat (Len64 x - 1) \<le> uint x \<and> uint x < 2 ^ nat (Len64 x)
    \<and> (\<exists>m. uint x = 2 ^ nat (TrailingZeros64 x) * (2 * m + 1))"
proof -
  have "0 < uint x" using assms uint64_bounds(1) [of x] by (auto simp: uint_0_iff order_less_le)
  then obtain k m where "uint x = 2 ^ k * (2 * m + 1)" "0 \<le> m" by (rule lowest_bit_split)
  then show ?thesis using Len64_ok [of x] assms TrailingZeros64_ok [of x k m] by (auto simp: bit_length_def uint_0_iff)
qed

lemma Len64_TrailingZeros64_witness:
  "2 ^ nat (Len64 40 - 1) \<le> uint (40 :: uint64) \<and> uint (40 :: uint64) < 2 ^ nat (Len64 40)"
  using Len64_TrailingZeros64 [of 40] by simp

end
