(* ===== verification/Strconv_Format.thy ===== *)
theory Strconv_Format
  imports Strconv Math_Bits_Properties
begin

text \<open>
  Formatting integers: the three loops of formatBits write the digits of the number, most significant first, in
  front of what the array already holds, and never leave the array.
\<close>

subsection \<open>The digits of a number\<close>

definition digit_char :: "int \<Rightarrow> byte" where
  "digit_char d = word_of_int (if d < 10 then 48 + d else 87 + d)"

function digits_of :: "int \<Rightarrow> int \<Rightarrow> gostring" where
  "digits_of b u = (if b < 2 \<or> u < b then [digit_char u] else digits_of b (u div b) @ [digit_char (u mod b)])"
  by auto
termination
  by (relation "measure (\<lambda>(b, u). nat u)") (auto simp: nat_less_eq_zless int_div_less_self)

declare digits_of.simps [simp del]

lemma digits_of_small: "u < b \<Longrightarrow> digits_of b u = [digit_char u]"
  by (simp add: digits_of.simps [of b u])

lemma digits_of_step: "2 \<le> b \<Longrightarrow> b \<le> u \<Longrightarrow> digits_of b u = digits_of b (u div b) @ [digit_char (u mod b)]"
  by (simp add: digits_of.simps [of b u])

lemma length_digits_of:
  assumes "2 \<le> b" "0 \<le> u" "u < b ^ k" "0 < k"
  shows "length (digits_of b u) \<le> k"
  using assms(2-4)
proof (induction k arbitrary: u)
  case (Suc k)
  show ?case
  proof (cases "u < b")
    case False
    have "u div b < b ^ k" using Suc.prems(2) assms(1) by (intro int_div_less) auto
    moreover have "0 < k"
    proof (rule ccontr)
      assume "\<not> 0 < k"
      then show False using Suc.prems(2) False by simp
    qed
    ultimately have "length (digits_of b (u div b)) \<le> k"
      using Suc.prems(1) assms(1) by (intro Suc.IH) (auto simp: pos_imp_zdiv_nonneg_iff)
    then show ?thesis using False assms(1) by (simp add: digits_of_step)
  qed (simp add: digits_of_small)
qed simp

lemma length_digits_of_pos: "0 < length (digits_of b u)"
  by (subst digits_of.simps) simp

lemma uint64_digits:
  fixes u :: uint64
  assumes "2 \<le> b"
  shows "length (digits_of b (uint u)) \<le> 64"
proof (rule length_digits_of [OF assms])
  have "(2::int) ^ 64 \<le> b ^ 64" using assms by (intro power_mono) auto
  then show "uint u < b ^ 64" using uint64_bounds(2) [of u] by linarith
qed (use uint64_bounds(1) [of u] in auto)

subsection \<open>The tables\<close>

lemma digits_table: "all_from (\<lambda>i c. c = digit_char i) 0 digits"
  by code_simp

lemma length_digits: "length digits = 36"
  by (simp add: digits_def bytes_def)

lemma idx_digits: "0 \<le> d \<Longrightarrow> d < 36 \<Longrightarrow> idx digits d = Some (digit_char d)"
  using all_from_nth [OF digits_table, of "nat d"] by (simp add: length_digits)

lemma smallsString_table:
  "all_from (\<lambda>i c. c = digit_char (if even i then i div 2 div 10 else i div 2 mod 10)) 0 smallsString"
  by code_simp

lemma length_smallsString: "length smallsString = 200"
  by (simp add: smallsString_def bytes_def)

lemma idx_smallsString:
  assumes "0 \<le> d" "d < 100"
  shows "idx smallsString (2 * d) = Some (digit_char (d div 10))" "idx smallsString (2 * d + 1) = Some (digit_char (d mod 10))"
  using all_from_nth [OF smallsString_table, of "nat (2 * d)"] all_from_nth [OF smallsString_table, of "nat (2 * d + 1)"] assms
  by (simp_all add: length_smallsString)

subsection \<open>Filling the array from its end\<close>

definition filled :: "byte list \<Rightarrow> int \<Rightarrow> gostring \<Rightarrow> bool" where
  "filled a i s \<longleftrightarrow> 0 \<le> i \<and> i \<le> int (length a) \<and> drop (nat i) a = s"

lemma filled_upd:
  assumes "filled a i s" "1 \<le> i"
  shows "upd a (i - 1) c = Some (a[nat (i - 1) := c])" "filled (a[nat (i - 1) := c]) (i - 1) (c # s)"
proof -
  have l: "nat (i - 1) < length a" using assms by (auto simp: filled_def)
  then show "upd a (i - 1) c = Some (a[nat (i - 1) := c])" using assms by (simp add: upd_def)
  have "drop (nat (i - 1)) (a[nat (i - 1) := c]) = c # drop (Suc (nat (i - 1))) a"
    using l by (simp add: Cons_nth_drop_Suc [symmetric])
  moreover have "Suc (nat (i - 1)) = nat i" using assms(2) by simp
  ultimately show "filled (a[nat (i - 1) := c]) (i - 1) (c # s)" using assms by (auto simp: filled_def)
qed

text \<open>
  The state a digit loop leaves: the digits of the rest \<open>u'\<close> are still to be written in front of \<open>t\<close>, and after
  them there will be \<open>r\<close> free places.
\<close>

definition digits_left :: "int \<Rightarrow> int \<Rightarrow> gostring \<Rightarrow> int \<Rightarrow> byte list \<times> int \<times> uint64 \<Rightarrow> bool" where
  "digits_left b u s r = (\<lambda>(a', i', u'). \<exists>t. filled a' i' t \<and> digits_of b (uint u') @ t = digits_of b u @ s
     \<and> r = i' - int (length (digits_of b (uint u'))))"

lemma unat_lessI: "uint x < uint y \<Longrightarrow> unat x < unat y"
  by (simp only: unat_eq_nat_uint nat_less_eq_zless unsigned_greater_eq)

lemma formatBits_general_ok:
  assumes "2 \<le> uint b" "uint b \<le> 36" "filled a i s" "int (length (digits_of (uint b) (uint u))) \<le> i"
  shows "\<exists>a' i' u'. formatBits_general b a i u = Some (a', i', u') \<and> uint u' < uint b
    \<and> digits_left (uint b) (uint u) s (i - int (length (digits_of (uint b) (uint u)))) (a', i', u')"
  using assms(3,4)
proof (induction "unat u" arbitrary: a i s u rule: less_induct)
  case less
  show ?case
  proof (cases "b \<le> u")
    case False
    then show ?thesis using less.prems
      by (subst formatBits_general.simps) (auto simp: word_le_def digits_left_def)
  next
    case True
    then have le: "uint b \<le> uint u" by (simp add: word_le_def)
    have q: "uint (u div b) = uint u div uint b" and m: "uint (u - u div b * b) = uint u mod uint b"
      by (simp_all add: minus_div_mult_eq_mod uint_div uint_mod)
    have b0: "0 < uint b" using assms(1) by simp
    have d: "idx digits (uint (u - u div b * b)) = Some (digit_char (uint u mod uint b))"
      unfolding m by (rule idx_digits) (use pos_mod_bound [OF b0, of "uint u"] pos_mod_sign [OF b0, of "uint u"] assms(2) in linarith)+
    have ds: "digits_of (uint b) (uint u) = digits_of (uint b) (uint (u div b)) @ [digit_char (uint u mod uint b)]"
      unfolding q by (rule digits_of_step [OF assms(1) le])
    then have i1: "1 \<le> i" "int (length (digits_of (uint b) (uint (u div b)))) \<le> i - 1" using less.prems(2) by simp_all
    note up = filled_upd [OF less.prems(1) i1(1), of "digit_char (uint u mod uint b)"]
    have lt: "unat (u div b) < unat u"
      by (rule unat_lessI) (use int_div_less_self [of "uint u" "uint b"] assms(1) le in \<open>simp add: q\<close>)
    have "formatBits_general b a i u = formatBits_general b (a[nat (i - 1) := digit_char (uint u mod uint b)]) (i - 1) (u div b)"
      using True d up(1) by (subst formatBits_general.simps) (simp add: Let_def)
    with less.hyps [OF lt up(2) i1(2)] show ?thesis by (auto simp: digits_left_def ds)
  qed
qed

text \<open>With a base that is a power of two the loop shifts and masks instead of dividing.\<close>

lemma formatBits_pow2_general:
  assumes "0 < k" "k < 64"
  shows "formatBits_pow2 (2 ^ k) (2 ^ k - 1) k a i u = formatBits_general (2 ^ k) a i u"
proof (induction "unat u" arbitrary: a i u rule: less_induct)
  case less
  have m: "u AND (2 ^ k - 1) = u - u div 2 ^ k * 2 ^ k"
    unfolding minus_div_mult_eq_mod mask_eq_exp_minus_1 [symmetric] take_bit_eq_mask [symmetric] take_bit_eq_mod ..
  have p: "uint ((2::uint64) ^ k) = 2 ^ k" using assms 
    using uint_shift_left [of 1 k] power_strict_increasing [of k 64 "2::int"] assms by simp
  have lt: "unat (drop_bit k u) < unat u" if "2 ^ k \<le> u"
  proof -
    have "2 ^ k \<le> uint u" using that p by (simp add: word_le_def)
    moreover have "(1::int) < 2 ^ k" "(0::int) < 2 ^ k" using assms by simp_all
    ultimately have "uint u div 2 ^ k < uint u" by (intro int_div_less_self) linarith+
    then show ?thesis by (intro unat_lessI) (simp only: uint_drop)
  qed
  show ?case
    using less.hyps [OF lt] by (subst formatBits_pow2.simps, subst formatBits_general.simps)
      (auto simp: Let_def m drop_bit_eq_div intro!: Option.bind_cong)
qed

lemma digits_of_two:
  assumes "100 \<le> (u::int)"
  shows "digits_of 10 u = digits_of 10 (u div 100) @ [digit_char (u mod 100 div 10), digit_char (u mod 100 mod 10)]"
proof -
  have "digits_of 10 u = digits_of 10 (u div 10) @ [digit_char (u mod 10)]" using assms by (simp add: digits_of_step)
  moreover have "digits_of 10 (u div 10) = digits_of 10 (u div 10 div 10) @ [digit_char (u div 10 mod 10)]"
    using assms by (intro digits_of_step) simp_all
  moreover have "u div 10 div 10 = u div 100" using zdiv_zmult2_eq [of 10 u 10] by simp
  moreover have "u mod 100 = 10 * (u div 10 mod 10) + u mod 10" using zmod_zmult2_eq [of 10 u 10] by simp
  then have "u div 10 mod 10 = u mod 100 div 10" "u mod 10 = u mod 100 mod 10" by simp_all
  ultimately show ?thesis by simp
qed

lemma formatBits_base10_ok:
  assumes "filled a i s" "int (length (digits_of 10 (uint u))) \<le> i"
  shows "\<exists>a' i' u'. formatBits_base10 a i u = Some (a', i', u') \<and> uint u' < 100
    \<and> digits_left 10 (uint u) s (i - int (length (digits_of 10 (uint u)))) (a', i', u')"
  using assms
proof (induction "unat u" arbitrary: a i s u rule: less_induct)
  case less
  show ?case
  proof (cases "100 \<le> u")
    case False
    then show ?thesis using less.prems
      by (subst formatBits_base10.simps) (auto simp: word_le_def digits_left_def)
  next
    case True
    then have le: "100 \<le> uint u" by (simp add: word_le_def)
    let ?d = "uint u mod 100"
    have q: "uint (u div 100) = uint u div 100" by (simp add: uint_div)
    have d: "uint (u mod 100 * 2) = 2 * ?d"
      by (subst uint_times64) (simp_all add: uint_mod)
    have r: "0 \<le> ?d" "?d < 100" by simp_all
    note ds = digits_of_two [OF le, folded q]
    have i1: "1 \<le> i" "1 \<le> i - 1" "int (length (digits_of 10 (uint (u div 100)))) \<le> i - 1 - 1" using less.prems(2) ds by simp_all
    note up1 = filled_upd [OF less.prems(1) i1(1), of "digit_char (?d mod 10)"]
    note up2 = filled_upd [OF up1(2) i1(2), of "digit_char (?d div 10)"]
    have lt: "unat (u div 100) < unat u"
      by (rule unat_lessI) (use le in \<open>simp add: q\<close>)
    have "formatBits_base10 a i u = formatBits_base10 (a[nat (i - 1) := digit_char (?d mod 10), nat (i - 1 - 1) := digit_char (?d div 10)])
        (i - 1 - 1) (u div 100)"
      using True idx_smallsString [OF r] up1(1) up2(1) d by (subst formatBits_base10.simps) (simp add: Let_def algebra_simps)
    with less.hyps [OF lt up2(2) i1(3)] show ?thesis by (auto simp: digits_left_def ds)
  qed
qed

subsection \<open>All digits\<close>

lemma power_of_two_bases:
  assumes "2 \<le> base" "base \<le> 36" "isPowerOfTwo base"
  obtains k where "0 < k" "k < 6" "base = 2 ^ k"
proof -
  have "list_all (\<lambda>x. isPowerOfTwo x \<longrightarrow> x \<in> {2 ^ 1, 2 ^ 2, 2 ^ 3, 2 ^ 4, 2 ^ 5}) [2..36]"
    by code_simp
  moreover have "base \<in> set [2..36]" using assms(1,2) by (simp only: set_upto atLeastAtMost_iff)
  ultimately have "base \<in> {2 ^ 1, 2 ^ 2, 2 ^ 3, 2 ^ 4, 2 ^ 5}" using assms(3) unfolding list_all_iff by blast
  then show ?thesis using that [of 1] that [of 2] that [of 3] that [of 4] that [of 5] by auto
qed

lemma uint_base: "2 \<le> base \<Longrightarrow> base \<le> 36 \<Longrightarrow> uint (word_of_int base :: uint64) = base"
  by (simp add: uint_word_of_int)

lemma TrailingZeros_power_of_two:
  assumes "0 < k" "k < 6"
  shows "nat (TrailingZeros (word_of_int (2 ^ k)) AND 7) = k"
proof -
  have p: "(2::int) ^ k < 2 ^ 64" using assms by (intro power_strict_increasing) auto
  have "uint (word_of_int (2 ^ k) :: uint64) = 2 ^ k mod 2 ^ 64" by (simp only: uint_word_of_int) simp
  then have "uint (word_of_int (2 ^ k) :: uint64) = 2 ^ k * (2 * 0 + 1)" using p by simp
  then have "TrailingZeros (word_of_int (2 ^ k)) = int k"
    unfolding TrailingZeros_def by (rule TrailingZeros64_ok) simp
  moreover have "int k AND 7 = int k mod 2 ^ 3" using take_bit_eq_mask [of 3 "int k"] by (simp add: mask_numeral take_bit_eq_mod)
  ultimately show ?thesis using assms by simp
qed

text \<open>The last digits, written after the loop.\<close>

lemma last_digit:
  assumes "digits_left b u s r (a, i, u')" "uint u' < b" "b \<le> 36" "0 \<le> r"
  shows "\<exists>a'. do { c \<leftarrow> idx digits (uint u'); a \<leftarrow> upd a (i - 1) c; Some (a, i - 1) } = Some (a', r)
    \<and> filled a' r (digits_of b u @ s)"
proof -
  obtain t where t: "filled a i t" "digits_of b (uint u') @ t = digits_of b u @ s" "r = i - 1"
    using assms(1,2) by (auto simp: digits_left_def digits_of_small)
  then have d: "digit_char (uint u') # t = digits_of b u @ s" using assms(2) by (simp add: digits_of_small)
  have x: "idx digits (uint u') = Some (digit_char (uint u'))"
    by (rule idx_digits) (use assms(2,3) uint64_bounds(1) [of u'] in linarith)+
  note up = filled_upd [OF t(1), of "digit_char (uint u')", unfolded d]
  show ?thesis using x up t(3) assms(4) by simp
qed

lemma formatBits_digits_ok:
  assumes "2 \<le> base" "base \<le> 36" "filled a i s" "int (length (digits_of base (uint u))) \<le> i"
  shows "\<exists>a'. formatBits_digits a i u base = Some (a', i - int (length (digits_of base (uint u))))
    \<and> filled a' (i - int (length (digits_of base (uint u)))) (digits_of base (uint u) @ s)"
proof -
  let ?r = "i - int (length (digits_of base (uint u)))" and ?b = "word_of_int base :: uint64"
  have r: "0 \<le> ?r" using assms(4) by simp
  note ub = uint_base [OF assms(1,2)]
  consider "base = 10" | k where "base \<noteq> 10" "isPowerOfTwo base" "0 < k" "k < 6" "base = 2 ^ k"
    | "base \<noteq> 10" "\<not> isPowerOfTwo base"
    using power_of_two_bases [OF assms(1,2)] by blast
  then show ?thesis
  proof cases
    case 1
    obtain a' i' u' where f: "formatBits_base10 a i u = Some (a', i', u')" "uint u' < 100" "digits_left 10 (uint u) s ?r (a', i', u')"
      using formatBits_base10_ok [of a i s u] assms unfolding 1 by blast
    obtain t where t: "filled a' i' t" "digits_of 10 (uint u') @ t = digits_of 10 (uint u) @ s"
        "?r = i' - int (length (digits_of 10 (uint u')))"
      using f(3) unfolding digits_left_def by blast
    have "uint (u' * 2) = 2 * uint u'" using f(2) by (subst uint_times64) simp_all
    note sm = idx_smallsString [OF uint64_bounds(1) f(2), folded this]
    have i1: "1 \<le> i'" using t(3) r length_digits_of_pos [of 10 "uint u'"] by linarith
    note up1 = filled_upd [OF t(1) i1, of "digit_char (uint u' mod 10)"]
    note FD = formatBits_digits_def [of a i u 10]
    show ?thesis
    proof (cases "uint u' < 10")
      case True
      then have "\<not> 10 \<le> u'" by (simp add: word_le_def)
      then show ?thesis using f(1) sm up1 True t(2,3) by (simp add: 1 FD Let_def digits_of_small)
    next
      case False
      then have g: "10 \<le> u'" by (simp add: word_le_def)
      have ds: "digits_of 10 (uint u') = [digit_char (uint u' div 10), digit_char (uint u' mod 10)]"
        using False f(2) by (simp add: digits_of_step digits_of_small)
      then have i2: "1 \<le> i' - 1" using t(3) r by simp
      note up2 = filled_upd [OF up1(2) i2, of "digit_char (uint u' div 10)"]
      show ?thesis using f(1) sm up1(1) up2 t(2,3) g by (simp add: 1 FD Let_def ds)
    qed
  next
    case 2
    have p: "?b = 2 ^ k" by (simp add: 2)
    obtain a' i' u' where f: "formatBits_general ?b a i u = Some (a', i', u')" "uint u' < base" "digits_left base (uint u) s ?r (a', i', u')"
      using formatBits_general_ok [of ?b a i s u] assms unfolding ub by blast
    have "formatBits_pow2 ?b (?b - 1) (nat (TrailingZeros ?b AND 7)) a i u = Some (a', i', u')"
      using TrailingZeros_power_of_two [OF 2(3,4)] formatBits_pow2_general [OF 2(3), of a i u] 2(4,5) f(1) by (simp add: p)
    then show ?thesis using last_digit [OF f(3,2) assms(2) r] 2(1,2) by (simp add: formatBits_digits_def Let_def)
  next
    case 3
    obtain a' i' u' where f: "formatBits_general ?b a i u = Some (a', i', u')" "uint u' < base" "digits_left base (uint u) s ?r (a', i', u')"
      using formatBits_general_ok [of ?b a i s u] assms unfolding ub by blast
    then show ?thesis using last_digit [OF f(3,2) assms(2) r] 3 by (simp add: formatBits_digits_def Let_def)
  qed
qed

subsection \<open>The formatting functions\<close>

definition sign_of :: "bool \<Rightarrow> gostring" where
  "sign_of neg = (if neg then [0x2D] else [])"

lemma formatBits_ok:
  assumes "2 \<le> base" "base \<le> 36"
  shows "formatBits dst u base neg app =
    (let s = sign_of neg @ digits_of base (uint (if neg then - u else u)) in Some (if app then (dst @ s, []) else ([], s)))"
proof -
  let ?u = "if neg then - u else u"
  let ?ds = "digits_of base (uint ?u)"
  have l: "int (length ?ds) \<le> 64" using uint64_digits [OF assms(1), of ?u] by simp
  have "filled (replicate 65 0) 65 []" by (simp add: filled_def)
  from formatBits_digits_ok [OF assms this, of ?u] l obtain a' where
    a': "formatBits_digits (replicate 65 0) 65 ?u base = Some (a', 65 - int (length ?ds))" "filled a' (65 - int (length ?ds)) ?ds"
    by auto
  have i1: "1 \<le> 65 - int (length ?ds)" using l by simp
  note up = filled_upd [OF a'(2) i1, of "0x2D"]
  show ?thesis
    using a' up assms by (auto simp: formatBits_def length_digits Let_def sign_of_def filled_def)
qed

lemma small_ok:
  assumes "0 \<le> i" "i < 100"
  shows "small i = Some (digits_of 10 i)"
proof -
  have two: "take 2 (drop n xs) = [xs ! n, xs ! Suc n]" if "Suc n < length xs" for n and xs :: "byte list"
    using that by (simp add: Cons_nth_drop_Suc [symmetric] numeral_2_eq_2)
  have one: "take 1 (drop n xs) = [xs ! n]" if "n < length xs" for n and xs :: "byte list"
    using that by (simp add: Cons_nth_drop_Suc [symmetric])
  show ?thesis
  proof (cases "i < 10")
    case True
    then show ?thesis using assms idx_digits [of i] one [of "nat i" digits]
      by (simp add: small_def substring_def length_digits digits_of_small idx_def)
  next
    case False
    have n: "nat (2 * i + 1) = Suc (nat (2 * i))" "Suc (nat (2 * i)) < length smallsString"
      using assms by (simp_all add: length_smallsString)
    have "smallsString ! nat (2 * i) = digit_char (i div 10)" "smallsString ! Suc (nat (2 * i)) = digit_char (i mod 10)"
      using idx_smallsString [OF assms] unfolding idx_eq_Some_iff n(1) by simp_all
    moreover have "substring smallsString (i * 2) (i * 2 + 2) = Some (take 2 (drop (nat (2 * i)) smallsString))"
      using assms by (simp add: substring_def length_smallsString mult.commute)
    ultimately have "small i = Some [digit_char (i div 10), digit_char (i mod 10)]"
      using False two [OF n(2)] by (simp add: small_def)
    then show ?thesis using False assms(2) by (simp add: digits_of_step digits_of_small)
  qed
qed

lemma FormatUint_ok: "2 \<le> base \<Longrightarrow> base \<le> 36 \<Longrightarrow> FormatUint i base = Some (digits_of base (uint i))"
  by (auto simp: FormatUint_def small_ok nSmalls_def formatBits_ok sign_of_def Let_def)

lemma uint_magnitude:
  assumes "- (2 ^ 63) \<le> i" "i < 2 ^ 63"
  shows "uint (if i < 0 then - word_of_int i else word_of_int i :: uint64) = \<bar>i\<bar>"
proof -
  have "(if i < 0 then - word_of_int i else word_of_int i :: uint64) = word_of_int \<bar>i\<bar>" by simp
  then show ?thesis using assms by (simp only: uint_word_of_int) simp
qed

lemma FormatInt_ok:
  assumes "2 \<le> base" "base \<le> 36" "- (2 ^ 63) \<le> i" "i < 2 ^ 63"
  shows "FormatInt i base = Some (sign_of (i < 0) @ digits_of base \<bar>i\<bar>)"
  using assms(1,2) uint_magnitude [OF assms(3,4)]
  by (auto simp: FormatInt_def small_ok nSmalls_def formatBits_ok sign_of_def Let_def)

lemma AppendInt_ok:
  assumes "2 \<le> base" "base \<le> 36" "- (2 ^ 63) \<le> i" "i < 2 ^ 63"
  shows "AppendInt dst i base = Some (dst @ sign_of (i < 0) @ digits_of base \<bar>i\<bar>)"
  using assms(1,2) uint_magnitude [OF assms(3,4)]
  by (auto simp: AppendInt_def small_ok nSmalls_def formatBits_ok sign_of_def Let_def)

end
