(* ===== verification/Strconv_Parse.thy ===== *)
theory Strconv_Parse
  imports Strconv_Format
begin

text \<open>
  Parsing integers: the loop of ParseUint, with its wrap-around test on 64-bit words, against the value of the
  digits in the integers.
\<close>

subsection \<open>Digits\<close>

definition digit_val :: "byte \<Rightarrow> int option" where
  "digit_val c =
     (if 0x30 \<le> uint c \<and> uint c \<le> 0x39 then Some (uint c - 0x30)
      else if 0x41 \<le> uint c \<and> uint c \<le> 0x5A then Some (uint c - 0x41 + 10)
      else if 0x61 \<le> uint c \<and> uint c \<le> 0x7A then Some (uint c - 0x61 + 10)
      else None)"

definition digit_in :: "int \<Rightarrow> byte \<Rightarrow> bool" where
  "digit_in base c = (case digit_val c of Some d \<Rightarrow> d < base | None \<Rightarrow> False)"

fun value_from :: "int \<Rightarrow> int \<Rightarrow> gostring \<Rightarrow> int" where
  "value_from base n [] = n"
| "value_from base n (c # s) = value_from base (n * base + the (digit_val c)) s"

text \<open>
  What a conversion to \<open>w\<close> bits does with a string of digits in a given base: out of range as soon as the digits
  before the first invalid character overflow.
\<close>

definition number_spec :: "nat \<Rightarrow> int \<Rightarrow> gostring \<Rightarrow> uint64 \<times> num_err option" where
  "number_spec w base s =
     (let ds = takeWhile (digit_in base) s in
      if 2 ^ w \<le> value_from base 0 ds then (word_of_int (2 ^ w - 1), Some ErrRange)
      else if ds \<noteq> s then (0, Some ErrSyntax)
      else (word_of_int (value_from base 0 s), None))"

text \<open>Setting the bit \<open>0x20\<close> of a byte, by the eight possible values of its upper three bits.\<close>

lemma set_case_bit:
  fixes x :: int
  assumes "0 \<le> x" "x < 256"
  defines "y \<equiv> if odd (x div 32) then x else x + 32"
  shows "even (x div 32) \<Longrightarrow> x + 32 < 256"
    "0x61 \<le> y \<and> y \<le> 0x7A \<longleftrightarrow> 0x41 \<le> x \<and> x \<le> 0x5A \<or> 0x61 \<le> x \<and> x \<le> 0x7A"
    "0x41 \<le> x \<and> x \<le> 0x5A \<or> 0x61 \<le> x \<and> x \<le> 0x7A \<Longrightarrow> y = (if x \<le> 0x5A then x + 32 else x)"
proof -
  define q where "q = x div 32"
  have r: "32 * q \<le> x" "x < 32 * q + 32"
    using div_mult_mod_eq [of x 32] pos_mod_bound [of 32 x] pos_mod_sign [of 32 x] unfolding q_def by linarith+
  then have "0 \<le> q" "q \<le> 7" using assms(1,2) by linarith+
  then have "q = 0 \<or> q = 1 \<or> q = 2 \<or> q = 3 \<or> q = 4 \<or> q = 5 \<or> q = 6 \<or> q = 7" by presburger
  then consider "odd (x div 32)" "y = x" "32 \<le> x \<and> x < 64 \<or> 96 \<le> x \<and> x < 128 \<or> 160 \<le> x \<and> x < 192 \<or> 224 \<le> x"
    | "even (x div 32)" "y = x + 32" "x < 32 \<or> 64 \<le> x \<and> x < 96 \<or> 128 \<le> x \<and> x < 160 \<or> 192 \<le> x \<and> x < 224"
    unfolding y_def q_def [symmetric] using r by (elim disjE) simp_all
  note c = this
  show "even (x div 32) \<Longrightarrow> x + 32 < 256" by (cases rule: c) auto
  show "0x61 \<le> y \<and> y \<le> 0x7A \<longleftrightarrow> 0x41 \<le> x \<and> x \<le> 0x5A \<or> 0x61 \<le> x \<and> x \<le> 0x7A" by (cases rule: c) linarith+
  show "0x41 \<le> x \<and> x \<le> 0x5A \<or> 0x61 \<le> x \<and> x \<le> 0x7A \<Longrightarrow> y = (if x \<le> 0x5A then x + 32 else x)"
    by (cases rule: c) auto
qed

lemma uint_lower: "uint (lower c) = (if odd (uint c div 32) then uint c else uint c + 32)"
proof -
  have b: "bit c 5 \<longleftrightarrow> odd (uint c div 32)" using bit_uint_iff [of c 5] by (simp add: bit_iff_odd)
  have m: "(0x20::byte) = 2 ^ 5" by simp
  show ?thesis
  proof (cases "bit c 5")
    case True
    have "c OR 0x20 = c"
    proof (rule bit_eqI)
      fix n
      show "bit (c OR 0x20) n = bit c n" using True unfolding m bit_or_iff bit_exp_iff by auto
    qed
    then show ?thesis using True b by (simp add: lower_def)
  next
    case False
    have "c AND 0x20 = 0"
    proof (rule bit_eqI)
      fix n
      show "bit (c AND 0x20) n = bit 0 n" using False unfolding m bit_and_iff bit_exp_iff by auto
    qed
    then have "c OR 0x20 = c + 0x20" by (simp add: disjunctive_add_eq_or)
    moreover have "uint c + 32 < 256" using set_case_bit(1) [OF uint_byte] False b by simp
    then have "uint (c + 0x20) = uint c + 32" using uint_add_lem [of c "0x20"] by simp
    ultimately show ?thesis using False b by (simp add: lower_def)
  qed
qed

text \<open>The switch of the loop computes exactly \<^const>\<open>digit_val\<close>.\<close>

definition switch_digit :: "byte \<Rightarrow> byte option" where
  "switch_digit c =
     (if 0x30 \<le> c \<and> c \<le> 0x39 then Some (c - 0x30)
      else if 0x61 \<le> lower c \<and> lower c \<le> 0x7A then Some (lower c - 0x61 + 10)
      else None)"

lemma switch_digit_val: "map_option uint (switch_digit c) = digit_val c"
proof -
  note l = set_case_bit(2) [OF uint_byte, of c, folded uint_lower]
    and u = set_case_bit(3) [OF uint_byte, of c, folded uint_lower]
  have s1: "uint (c - 0x30) = uint c - 0x30" if "0x30 \<le> uint c" using uint_sub_lem [of "0x30" c] that by simp
  have s2: "uint (lower c - 0x61 + 10) = uint (lower c) - 0x61 + 10" if "0x61 \<le> uint (lower c)" "uint (lower c) \<le> 0x7A"
    using uint_sub_lem [of "0x61" "lower c"] uint_add_lem [of "lower c - 0x61" 10] that by simp
  show ?thesis
    using s1 s2 u l by (auto simp: switch_digit_def digit_val_def word_le_def)
qed

lemma digit_val_bounds: "digit_val c = Some d \<Longrightarrow> 0 \<le> d \<and> d < 36"
  by (auto simp: digit_val_def split: if_splits)

lemma digit_in_obtain:
  assumes "digit_in base c"
  obtains d where "digit_val c = Some d" "0 \<le> d" "d < base"
  using assms digit_val_bounds [of c] by (auto simp: digit_in_def split: option.splits)

lemma value_from_ge:
  assumes "list_all (digit_in base) s" "1 \<le> base" "0 \<le> n"
  shows "n \<le> value_from base n s"
  using assms(1,3)
proof (induction s arbitrary: n)
  case (Cons c s)
  from Cons.prems(1) obtain d where d: "digit_val c = Some d" "0 \<le> d" by (auto elim: digit_in_obtain)
  have "n * 1 \<le> n * base" using assms(2) Cons.prems(2) by (intro mult_left_mono) auto
  then have "n \<le> n * base + d" using d(2) by simp
  moreover have "n * base + d \<le> value_from base (n * base + d) s"
    using Cons calculation by (intro Cons.IH) auto
  ultimately show ?case using d by simp
qed simp

lemma value_from_append: "value_from base n (s @ t) = value_from base (value_from base n s) t"
  by (induction s arbitrary: n) auto

subsection \<open>The loop\<close>

lemma ParseUint_loop_Cons:
  "ParseUint_loop False base cutoff maxVal (c # s) u n =
     (case switch_digit c of
        None \<Rightarrow> Inl (0, ErrSyntax)
      | Some d \<Rightarrow>
          if word_of_int base \<le> d then Inl (0, ErrSyntax)
          else if cutoff \<le> n then Inl (maxVal, ErrRange)
          else
            (let n = n * word_of_int base; n1 = n + ucast d in
             if n1 < n \<or> maxVal < n1 then Inl (maxVal, ErrRange)
             else ParseUint_loop False base cutoff maxVal s u n1))"
  by (simp add: switch_digit_def)

lemma ParseUint_loop_underscore:
  "ParseUint_loop True base cutoff maxVal s u n =
     map_sum id (\<lambda>(_, n). (u \<or> 0x5F \<in> set s, n))
       (ParseUint_loop False base cutoff maxVal (filter (\<lambda>c. c \<noteq> 0x5F) s) u n)"
proof (induction s arbitrary: u n)
  case (Cons c s)
  have u: "ParseUint_loop False base cutoff maxVal s' True n =
      map_sum id (\<lambda>(_, n). (True, n)) (ParseUint_loop False base cutoff maxVal s' u n)" for s' n
    by (induction s' arbitrary: n) (auto simp: Let_def split: option.splits)
  show ?case
    using Cons u [of "filter (\<lambda>c. c \<noteq> 0x5F) s" n]
    by (auto simp: Let_def sum.map_comp o_def id_def case_prod_unfold split: option.splits)
qed simp

text \<open>The wrap-around tests of one step, on words and on integers.\<close>

lemma cutoff_iff:
  fixes n :: uint64
  assumes "2 \<le> base" "base \<le> 36"
  shows "maxUint64 div word_of_int base + 1 \<le> n \<longleftrightarrow> 2 ^ 64 \<le> uint n * base"
proof -
  let ?m = "(2::int) ^ 64 - 1"
  have q: "uint (maxUint64 div word_of_int base) = ?m div base"
    by (simp add: uint_div maxUint64_def uint_base [OF assms])
  have lt: "?m div base < 2 ^ 63" by (rule int_div_less) (use assms in simp_all)
  have "uint (maxUint64 div word_of_int base + 1) = ?m div base + 1"
    using uint_plus64 [of "maxUint64 div word_of_int base" 1] lt q by simp
  then have "maxUint64 div word_of_int base + 1 \<le> n \<longleftrightarrow> ?m div base < uint n" unfolding word_le_def by linarith
  also have "\<dots> \<longleftrightarrow> ?m < uint n * base"
    using assms int_div_less [of ?m base "uint n"] zdiv_mono1 [of "uint n * base" ?m base] by (auto simp: mult.commute not_less [symmetric])
  finally show ?thesis by linarith
qed

lemma step_value:
  fixes n m :: uint64
  assumes "2 \<le> base" "base \<le> 36" "uint n * base < 2 ^ 64" "uint d < base"
  defines "n' \<equiv> n * word_of_int base"
  shows "n' + ucast d < n' \<or> m < n' + ucast d \<longleftrightarrow> uint m < uint n * base + uint (d::byte)"
    "uint n * base + uint d \<le> uint m \<Longrightarrow> uint (n' + ucast d) = uint n * base + uint d"
proof -
  have n': "uint n' = uint n * base"
    unfolding n'_def using uint_times64 [of n "word_of_int base"] assms uint_base by simp
  have d: "uint (ucast d :: uint64) = uint d"
    using uint_byte [of d] by (simp add: unsigned_ucast_eq take_bit_int_eq_self)
  have s: "uint (n' + ucast d) = (uint n * base + uint d) mod 2 ^ 64" by (simp add: uint_word_ariths n' d)
  have r: "0 \<le> uint n * base" "0 \<le> uint d" "uint d < 2 ^ 64" using assms(1) uint_byte [of d] uint64_bounds(1) [of n] by simp_all
  then have m2: "uint (n' + ucast d) = (if uint n * base + uint d < 2 ^ 64 then uint n * base + uint d else uint n * base + uint d - 2 ^ 64)"
    unfolding s using assms(3) by (intro mod_once) linarith+
  show "n' + ucast d < n' \<or> m < n' + ucast d \<longleftrightarrow> uint m < uint n * base + uint d"
    unfolding word_less_def m2 n' using r uint64_bounds(2) [of m] by auto
  show "uint n * base + uint d \<le> uint m \<Longrightarrow> uint (n' + ucast d) = uint n * base + uint d"
    unfolding m2 using uint64_bounds(2) [of m] by simp
qed

lemma ParseUint_loop_ok:
  assumes "2 \<le> base" "base \<le> 36" "uint n \<le> uint maxVal"
  defines "cutoff \<equiv> maxUint64 div word_of_int base + 1"
  shows "ParseUint_loop False base cutoff maxVal s u n =
    (let ds = takeWhile (digit_in base) s in
     if uint maxVal < value_from base (uint n) ds then Inl (maxVal, ErrRange)
     else if ds \<noteq> s then Inl (0, ErrSyntax)
     else Inr (u, word_of_int (value_from base (uint n) s)))"
  using assms(3)
proof (induction s arbitrary: n)
  case Nil
  then show ?case by simp
next
  case (Cons c s)
  have tw: "list_all (digit_in base) (takeWhile (digit_in base) s)" by (auto simp: list_all_iff dest: set_takeWhileD)
  have nn: "\<not> uint maxVal < uint n" using Cons.prems by simp
  show ?case
  proof (cases "switch_digit c")
    case None
    then have "\<not> digit_in base c" using switch_digit_val [of c] by (simp add: digit_in_def)
    then show ?thesis using None nn unfolding ParseUint_loop_Cons by (simp add: Let_def)
  next
    case (Some d)
    then have v: "digit_val c = Some (uint d)" using switch_digit_val [of c] by simp
    have b8: "uint (word_of_int base :: byte) = base" using assms(1,2) by (simp add: uint_word_of_int)
    then have le: "word_of_int base \<le> d \<longleftrightarrow> \<not> digit_in base c" using v by (auto simp: word_le_def digit_in_def)
    let ?v = "uint n * base + uint d"
    have vge: "?v \<le> value_from base ?v (takeWhile (digit_in base) s)"
      using assms(1) uint_byte [of d] uint64_bounds(1) [of n] by (intro value_from_ge [OF tw]) auto
    show ?thesis
    proof (cases "digit_in base c")
      case False
      then show ?thesis using Some le nn unfolding ParseUint_loop_Cons by (simp add: Let_def)
    next
      case True
      then have dlt: "uint d < base" using v by (simp add: digit_in_def)
      have big: "Inl (maxVal, ErrRange) = (let ds = takeWhile (digit_in base) (c # s) in
          if uint maxVal < value_from base (uint n) ds then Inl (maxVal, ErrRange)
          else if ds \<noteq> c # s then Inl (0, ErrSyntax) else Inr (u, word_of_int (value_from base (uint n) (c # s))))"
        if "uint maxVal < ?v"
        using that True v vge by (simp add: Let_def)
      show ?thesis
      proof (cases "2 ^ 64 \<le> uint n * base")
        case ovf: True
        then have rng: "uint maxVal < ?v" using uint64_bounds(2) [of maxVal] uint_byte(1) [of d] by linarith
        have "cutoff \<le> n" unfolding cutoff_def using cutoff_iff [OF assms(1,2), of n] ovf by simp
        then have "ParseUint_loop False base cutoff maxVal (c # s) u n = Inl (maxVal, ErrRange)"
          unfolding ParseUint_loop_Cons using Some le True by simp
        then show ?thesis using big [OF rng] by (rule trans)
      next
        case False
        then have c: "\<not> cutoff \<le> n" unfolding cutoff_def using cutoff_iff [OF assms(1,2), of n] by simp
        have lt: "uint n * base < 2 ^ 64" using False by simp
        note st = step_value [OF assms(1,2) lt dlt, of maxVal]
        show ?thesis
        proof (cases "uint maxVal < ?v")
          case rng: True
          then have "ParseUint_loop False base cutoff maxVal (c # s) u n = Inl (maxVal, ErrRange)"
            unfolding ParseUint_loop_Cons using Some le True c st(1) by (simp add: Let_def)
          then show ?thesis using big [OF rng] by (rule trans)
        next
          case ok: False
          then have e: "uint (n * word_of_int base + ucast d) = ?v" using st(2) by simp
          then have "uint (n * word_of_int base + ucast d) \<le> uint maxVal" using ok by simp
          note IH = Cons.IH [OF this]
          show ?thesis
            unfolding ParseUint_loop_Cons using Some le True c st(1) ok v by (simp add: Let_def IH e)
        qed
      qed
    qed
  qed
qed

end
