(* ===== verification/Strconv_Properties.thy ===== *)
theory Strconv_Properties
  imports Strconv_Parse
begin

text \<open>
  What the integer conversions of \<^verbatim>\<open>strconv\<close> promise: the result of ParseUint, ParseInt and Atoi on every
  input with a valid base and bit size, the printed form, and the round trips between them.
\<close>

subsection \<open>Reading back what was printed\<close>

lemma digit_val_char:
  assumes "0 \<le> d" "d < 36"
  shows "digit_val (digit_char d) = Some d"
proof -
  have "uint (digit_char d) = (if d < 10 then 48 + d else 87 + d)"
    unfolding digit_char_def uint_word_of_int using assms by simp
  then show ?thesis using assms by (auto simp: digit_val_def)
qed

lemma digits_of_ok:
  assumes "2 \<le> b" "b \<le> 36" "0 \<le> u"
  shows "list_all (digit_in b) (digits_of b u) \<and> value_from b 0 (digits_of b u) = u"
  using assms(3)
proof (induction "nat u" arbitrary: u rule: less_induct)
  case less
  have v: "digit_val (digit_char d) = Some d" if "0 \<le> d" "d < b" for d
    using that assms(2) by (intro digit_val_char) auto
  show ?case
  proof (cases "u < b")
    case True
    then show ?thesis using v [of u] less.prems by (simp add: digits_of_small digit_in_def)
  next
    case False
    have "u div b < u" using assms(1) False less.prems by (intro int_div_less_self) auto
    moreover have q: "0 \<le> u div b" using less.prems assms(1) by (simp add: pos_imp_zdiv_nonneg_iff)
    ultimately have IH: "list_all (digit_in b) (digits_of b (u div b)) \<and> value_from b 0 (digits_of b (u div b)) = u div b"
      using less.prems assms(1) by (intro less.hyps) auto
    have "0 \<le> u mod b" "u mod b < b" using assms(1) by simp_all
    then show ?thesis using IH v [of "u mod b"] False assms(1)
      by (simp add: digits_of_step value_from_append digit_in_def)
  qed
qed

lemma takeWhile_all: "list_all P s \<Longrightarrow> takeWhile P s = s"
  by (simp add: takeWhile_eq_all_conv list_all_iff)

lemma number_spec_digits_of:
  assumes "2 \<le> b" "b \<le> 36" "0 \<le> u"
  shows "number_spec w b (digits_of b u) = (if 2 ^ w \<le> u then (word_of_int (2 ^ w - 1), Some ErrRange) else (word_of_int u, None))"
  using digits_of_ok [OF assms] by (simp add: number_spec_def takeWhile_all Let_def)

subsection \<open>ParseUint\<close>

definition width :: "int \<Rightarrow> nat" where
  "width bitSize = (if bitSize = 0 then 64 else nat bitSize)"

lemma uint_maxVal:
  assumes "0 \<le> bitSize" "bitSize \<le> 64"
  shows "uint (push_bit (nat (if bitSize = 0 then IntSize else bitSize)) 1 - 1 :: uint64) = 2 ^ width bitSize - 1"
    "push_bit (nat (if bitSize = 0 then IntSize else bitSize)) 1 - 1 = (word_of_int (2 ^ width bitSize - 1) :: uint64)"
proof -
  have w: "nat (if bitSize = 0 then IntSize else bitSize) = width bitSize" by (simp add: width_def IntSize_def)
  have "width bitSize \<le> 64" using assms by (auto simp: width_def nat_le_iff)
  then have p: "(2::int) ^ width bitSize \<le> 2 ^ 64" by (intro power_increasing) auto
  show e: "push_bit (nat (if bitSize = 0 then IntSize else bitSize)) 1 - 1 = (word_of_int (2 ^ width bitSize - 1) :: uint64)"
    unfolding w by (simp add: push_bit_eq_mult)
  show "uint (push_bit (nat (if bitSize = 0 then IntSize else bitSize)) 1 - 1 :: uint64) = 2 ^ width bitSize - 1"
    unfolding e uint_word_of_int using p by (simp add: mod_pos_pos_trivial)
qed

text \<open>The loop, entered the way ParseUint enters it, against the specification.\<close>

definition loop_result :: "uint64 \<times> num_err option \<Rightarrow> bool \<Rightarrow> (uint64 \<times> num_err) + (bool \<times> uint64)" where
  "loop_result r u = (case r of (v, Some e) \<Rightarrow> Inl (v, e) | (v, None) \<Rightarrow> Inr (u, v))"

lemma ParseUint_loop_spec:
  assumes "2 \<le> base" "base \<le> 36" "0 \<le> bitSize" "bitSize \<le> 64"
  shows "ParseUint_loop False base
    (if base = 10 then maxUint64 div 10 + 1 else if base = 16 then maxUint64 div 16 + 1 else maxUint64 div word_of_int base + 1)
    (push_bit (nat (if bitSize = 0 then IntSize else bitSize)) 1 - 1) s u 0 = loop_result (number_spec (width bitSize) base s) u"
proof -
  have c: "(if base = 10 then maxUint64 div 10 + 1 else if base = 16 then maxUint64 div 16 + 1 else maxUint64 div word_of_int base + 1)
      = maxUint64 div word_of_int base + 1" by simp
  obtain M :: uint64 where M: "push_bit (nat (if bitSize = 0 then IntSize else bitSize)) 1 - 1 = M" by blast
  note m = uint_maxVal [OF assms(3,4), unfolded M]
  have "uint (0::uint64) \<le> uint M" by simp
  note L = ParseUint_loop_ok [OF assms(1,2) this, of s u]
  have le: "uint M < v \<longleftrightarrow> 2 ^ width bitSize \<le> v" for v using m(1) by linarith
  show ?thesis
    unfolding c M L number_spec_def loop_result_def Let_def le m(2) [symmetric] by simp
qed

definition num_error :: "gostring \<Rightarrow> gostring \<Rightarrow> num_err \<Rightarrow> NumError" where
  "num_error fn s e = \<lparr>Func = fn, Num = s, Err = e\<rparr>"

lemmas num_error_defs = num_error_def syntaxError_def rangeError_def

lemma number_spec_err: "number_spec w base s = (v, Some e) \<Longrightarrow> e = ErrRange \<or> e = ErrSyntax \<and> v = 0"
  by (auto simp: number_spec_def Let_def split: if_splits)

lemma ParseUint_ok:
  assumes "2 \<le> base" "base \<le> 36" "0 \<le> bitSize" "bitSize \<le> 64" "s \<noteq> []"
  shows "ParseUint s base bitSize = map_prod id (map_option (num_error fnParseUint s)) (number_spec (width bitSize) base s)"
proof -
  obtain v e where n: "number_spec (width bitSize) base s = (v, e)" by fastforce
  have b: "ParseUint_base s base = Some (base, s)" using assms by (simp add: ParseUint_base_def)
  have b0: "(base = 0) = False" using assms(1) by simp
  have bs: "(bitSize \<noteq> 0 \<and> (bitSize < 0 \<or> 64 < bitSize)) = False" using assms by simp
  show ?thesis
    unfolding ParseUint_def b b0 bs Let_def ParseUint_loop_spec [OF assms(1-4)] option.case prod.case n
    using assms(5) number_spec_err [of "width bitSize" base s v] n
    by (cases e) (auto simp: loop_result_def num_error_defs)
qed

lemma ParseUint_base0_ok:
  assumes "0 \<le> bitSize" "bitSize \<le> 64" "s \<noteq> []" "ParseUint_base s 0 = Some (base, t)"
  shows "ParseUint s 0 bitSize =
    (case number_spec (width bitSize) base (filter (\<lambda>c. c \<noteq> 0x5F) t) of
       (v, Some e) \<Rightarrow> (v, Some (num_error fnParseUint s e))
     | (v, None) \<Rightarrow>
         if 0x5F \<in> set t \<and> \<not> underscoreOK s then (0, Some (num_error fnParseUint s ErrSyntax)) else (v, None))"
proof -
  obtain v e where n: "number_spec (width bitSize) base (filter (\<lambda>c. c \<noteq> 0x5F) t) = (v, e)" by fastforce
  have base: "2 \<le> base" "base \<le> 36" using assms(4) by (auto simp: ParseUint_base_def split: if_splits)
  have bs: "(bitSize \<noteq> 0 \<and> (bitSize < 0 \<or> 64 < bitSize)) = False" using assms by simp
  show ?thesis
    unfolding ParseUint_def assms(4) bs Let_def option.case prod.case ParseUint_loop_underscore simp_thms
      ParseUint_loop_spec [OF base assms(1,2)] n
    using assms(3) number_spec_err [of "width bitSize" base "filter (\<lambda>c. c \<noteq> 0x5F) t" v] n
    by (cases e) (auto simp: loop_result_def num_error_defs)
qed

subsection \<open>ParseInt\<close>

definition split_sign :: "gostring \<Rightarrow> bool \<times> gostring" where
  "split_sign s = (if s ! 0 = 0x2B then (False, drop 1 s) else if s ! 0 = 0x2D then (True, drop 1 s) else (False, s))"

text \<open>The signed reading of the digits in \<open>w\<close> bits.\<close>

definition int_spec :: "nat \<Rightarrow> int \<Rightarrow> bool \<Rightarrow> gostring \<Rightarrow> int \<times> num_err option" where
  "int_spec w base neg t =
     (case number_spec w base t of
        (v, Some ErrRange) \<Rightarrow> (if neg then - (2 ^ (w - 1)) else 2 ^ (w - 1) - 1, Some ErrRange)
      | (v, Some e) \<Rightarrow> (0, Some e)
      | (v, None) \<Rightarrow>
          if neg \<and> 2 ^ (w - 1) < uint v then (- (2 ^ (w - 1)), Some ErrRange)
          else if \<not> neg \<and> 2 ^ (w - 1) \<le> uint v then (2 ^ (w - 1) - 1, Some ErrRange)
          else (if neg then - uint v else uint v, None))"

lemma sint_int64: "sint (x::uint64) = int64 (uint x)"
  by (simp add: sint_uint int64_def)

lemma int64_nonneg: "0 \<le> x \<Longrightarrow> x < 2 ^ 63 \<Longrightarrow> int64 x = x"
  by (rule int64_id) simp_all

lemma int64_nonpos: "0 \<le> x \<Longrightarrow> x \<le> 2 ^ 63 \<Longrightarrow> int64 (- x) = - x"
  by (rule int64_id) simp_all

lemma int64_uminus: "int64 (- int64 x) = int64 (- x)"
  unfolding int64_def by (rule signed_take_bit_minus)

lemma ParseInt_range_ok:
  assumes "0 \<le> bitSize" "bitSize \<le> 64"
  shows "ParseInt_range s0 neg un bitSize =
    (let h = 2 ^ (width bitSize - 1) in
     if \<not> neg \<and> h \<le> uint un then (h - 1, Some (rangeError fnParseInt s0))
     else if neg \<and> h < uint un then (- h, Some (rangeError fnParseInt s0))
     else (if neg then - uint un else uint un, None))"
proof -
  define h where "h = (2::int) ^ (width bitSize - 1)"
  obtain cutoff :: uint64 where c: "push_bit (nat ((if bitSize = 0 then IntSize else bitSize) - 1)) 1 = cutoff" by blast
  have w: "nat ((if bitSize = 0 then IntSize else bitSize) - 1) = width bitSize - 1" "width bitSize - 1 \<le> 63"
    using assms by (auto simp: width_def IntSize_def nat_le_iff nat_diff_distrib)
  have h: "1 \<le> h" "h \<le> 2 ^ 63" unfolding h_def using w(2) power_increasing [of "width bitSize - 1" 63 "2::int"] by simp_all
  have u: "uint cutoff = h"
    using uint_shift_left [of 1 "width bitSize - 1"] h(2) unfolding c [symmetric] w h_def by simp
  have m: "sint (cutoff - 1) = h - 1"
    using uint_minus64 [of 1 cutoff] h u by (simp add: sint_int64 int64_id)
  have n: "int64 (- sint cutoff) = - h" using h by (simp add: sint_int64 int64_uminus u int64_id)
  have p: "sint un = uint un" if "uint un < h" unfolding sint_int64
    by (rule int64_nonneg [OF uint64_bounds(1)]) (use that h in linarith)
  have q: "int64 (- sint un) = - uint un" if "uint un \<le> h" unfolding sint_int64 int64_uminus
    by (rule int64_nonpos [OF uint64_bounds(1)]) (use that h in linarith)
  show ?thesis
    unfolding ParseInt_range_def Let_def c m n h_def [symmetric] using p q u by (auto simp: word_le_def word_less_def)
qed

lemma ParseInt_ok:
  assumes "2 \<le> base" "base \<le> 36" "bitSize = 0 \<or> 2 \<le> bitSize" "bitSize \<le> 64" "s \<noteq> []" "split_sign s = (neg, t)" "t \<noteq> []"
  shows "ParseInt s base bitSize = map_prod id (map_option (num_error fnParseInt s)) (int_spec (width bitSize) base neg t)"
proof -
  have bs: "0 \<le> bitSize" using assms(3) by auto
  have w: "2 \<le> width bitSize" "width bitSize \<le> 64" using assms(3,4) by (auto simp: width_def nat_le_iff)
  obtain v e where n: "number_spec (width bitSize) base t = (v, e)" by fastforce
  note P = ParseUint_ok [OF assms(1,2) bs assms(4,7), unfolded n]
  have u: "uint v = 2 ^ width bitSize - 1" if "e = Some ErrRange"
  proof -
    have "v = word_of_int (2 ^ width bitSize - 1)"
      using n that by (auto simp: number_spec_def Let_def split: if_splits)
    then show ?thesis using uint_maxVal [OF bs assms(4)] by simp
  qed
  have h: "(2::int) ^ width bitSize = 2 * 2 ^ (width bitSize - 1)" "(2::int) \<le> 2 ^ (width bitSize - 1)"
    using w power_increasing [of 1 "width bitSize - 1" "2::int"] by (simp_all flip: power_Suc)
  have D: "ParseInt s base bitSize =
    (case map_prod id (map_option (num_error fnParseUint t)) (v, e) of
       (un, None) \<Rightarrow> ParseInt_range s neg un bitSize
     | (un, Some e) \<Rightarrow> if Err e \<noteq> ErrRange then (0, Some (e\<lparr>Func := fnParseInt, Num := s\<rparr>)) else ParseInt_range s neg un bitSize)"
    using assms(5,6) P by (auto simp: ParseInt_def Let_def split_sign_def split: if_splits option.splits)
  note R = ParseInt_range_ok [OF bs assms(4), of s neg v]
  consider "e = None" | "e = Some ErrRange" | "e = Some ErrSyntax"
    using number_spec_err [of "width bitSize" base t v] n by (cases e) auto
  then show ?thesis
  proof cases
    case 1
    then show ?thesis by (auto simp: D R int_spec_def n Let_def num_error_defs)
  next
    case 2
    then show ?thesis using u h by (auto simp: D R int_spec_def n Let_def num_error_defs)
  next
    case 3
    then show ?thesis by (auto simp: D int_spec_def n num_error_def)
  qed
qed

text \<open>A sign alone is a syntax error.\<close>

lemma ParseInt_sign_only:
  assumes "s \<noteq> []" "split_sign s = (neg, [])"
  shows "ParseInt s base bitSize = (0, Some (num_error fnParseInt s ErrSyntax))"
  using assms by (auto simp: ParseInt_def Let_def split_sign_def ParseUint_def num_error_defs split: if_splits)

text \<open>A base or a bit size out of range, in this order.\<close>

lemma ParseInt_bad:
  assumes "s \<noteq> []" "split_sign s = (neg, t)" "t \<noteq> []" "base \<noteq> 0" "\<not> (2 \<le> base \<and> base \<le> 36 \<and> 0 \<le> bitSize \<and> bitSize \<le> 64)"
  shows "ParseInt s base bitSize =
    (0, Some (num_error fnParseInt s (if 2 \<le> base \<and> base \<le> 36 then InvalidBitSize bitSize else InvalidBase base)))"
proof -
  have "ParseUint t base bitSize =
      (0, Some (num_error fnParseUint t (if 2 \<le> base \<and> base \<le> 36 then InvalidBitSize bitSize else InvalidBase base)))"
    using assms(3-5) by (auto simp: ParseUint_def ParseUint_base_def Let_def num_error_def baseError_def bitSizeError_def)
  then show ?thesis using assms(1,2) by (auto simp: ParseInt_def Let_def split_sign_def num_error_def split: if_splits)
qed

subsection \<open>Atoi\<close>

lemma Atoi_digit:
  "ch - 0x30 > (9::byte) \<longleftrightarrow> \<not> digit_in 10 ch" "digit_in 10 ch \<Longrightarrow> digit_val ch = Some (uint (ch - 0x30))"
proof -
  have s: "uint (ch - 0x30) = (uint ch - 48) mod 256" by (simp add: uint_word_ariths)
  have d: "digit_in 10 ch \<longleftrightarrow> 48 \<le> uint ch \<and> uint ch \<le> 57" by (auto simp: digit_in_def digit_val_def)
  have "9 < (u - 48) mod 256 \<longleftrightarrow> \<not> (48 \<le> u \<and> u \<le> 57)" if "0 \<le> u" "u < 256" for u :: int
    using mod_once_neg [of 256 "u - 48"] that by auto
  note this [OF uint_byte]
  then have "9 < (uint ch - 48) mod 256 \<longleftrightarrow> \<not> (48 \<le> uint ch \<and> uint ch \<le> 57)"
    .
  then show "ch - 0x30 > (9::byte) \<longleftrightarrow> \<not> digit_in 10 ch" unfolding word_less_def s d by simp
  show "digit_in 10 ch \<Longrightarrow> digit_val ch = Some (uint (ch - 0x30))"
    unfolding s d by (simp add: digit_val_def)
qed

lemma value_bound:
  assumes "list_all (digit_in 10) s" "0 \<le> n" "n < 10 ^ j"
  shows "0 \<le> value_from 10 n s \<and> value_from 10 n s < 10 ^ (j + length s)"
  using assms
proof (induction s arbitrary: n j)
  case (Cons c s)
  from Cons.prems(1) obtain d where d: "digit_val c = Some d" "0 \<le> d" "d < 10" by (auto elim: digit_in_obtain)
  have "n * 10 + d < 10 ^ Suc j" using Cons.prems(3) d by simp
  then have "0 \<le> value_from 10 (n * 10 + d) s \<and> value_from 10 (n * 10 + d) s < 10 ^ (Suc j + length s)"
    using Cons.prems d by (intro Cons.IH) auto
  then show ?case using d by simp
qed simp

lemma Atoi_loop_ok:
  assumes "0 \<le> n" "n < 10 ^ j" "j + length s \<le> 18"
  shows "Atoi_loop s n = (if takeWhile (digit_in 10) s = s then Some (value_from 10 n s) else None)"
  using assms
proof (induction s arbitrary: n j)
  case (Cons c s)
  show ?case
  proof (cases "digit_in 10 c")
    case True
    note d = Atoi_digit(2) [OF True]
    have r: "0 \<le> uint (c - 0x30)" "uint (c - 0x30) < 10" using digit_val_bounds [OF d] True d by (auto simp: digit_in_def)
    have "n * 10 + uint (c - 0x30) < 10 ^ Suc j" using Cons.prems(2) r by simp
    moreover have "(10::int) ^ Suc j \<le> 10 ^ 18" using Cons.prems(3) by (intro power_increasing) auto
    ultimately have "int64 (n * 10 + uint (c - 0x30)) = n * 10 + uint (c - 0x30)"
      using Cons.prems(1) r by (intro int64_nonneg) simp_all
    moreover have "Atoi_loop s (n * 10 + uint (c - 0x30)) =
        (if takeWhile (digit_in 10) s = s then Some (value_from 10 (n * 10 + uint (c - 0x30)) s) else None)"
      using Cons.prems r \<open>n * 10 + uint (c - 0x30) < 10 ^ Suc j\<close> by (intro Cons.IH [of _ "Suc j"]) auto
    ultimately show ?thesis using True Atoi_digit(1) [of c] d by (simp add: Let_def)
  next
    case False
    then show ?thesis using Atoi_digit(1) [of c] by (simp add: Let_def)
  qed
qed simp

subsection \<open>Underscores\<close>

definition number_char :: "bool \<Rightarrow> byte \<Rightarrow> bool" where
  "number_char hex c \<longleftrightarrow> 0x30 \<le> c \<and> c \<le> 0x39 \<or> hex \<and> 0x61 \<le> lower c \<and> lower c \<le> 0x66"

text \<open>Every underscore stands between two digits.\<close>

definition separators_ok :: "bool \<Rightarrow> gostring \<Rightarrow> bool" where
  "separators_ok hex s \<longleftrightarrow>
     (\<forall>i<length s. s ! i = 0x5F \<longrightarrow> 0 < i \<and> number_char hex (s ! (i - 1)) \<and> Suc i < length s \<and> number_char hex (s ! Suc i))"

lemma number_char_classes:
  "number_char hex 0x30" "\<not> number_char hex 0x5F" "\<not> number_char hex 0x5E" "\<not> number_char hex 0x21"
  by (simp_all add: number_char_def lower_def word_le_def)

lemma underscoreOK_loop_ok:
  "underscoreOK_loop hex saw t \<longleftrightarrow>
     (\<forall>i<length t. t ! i = 0x5F \<longrightarrow> (if i = 0 then saw = 0x30 else number_char hex (t ! (i - 1)))
        \<and> Suc i < length t \<and> number_char hex (t ! Suc i))
     \<and> (saw = 0x5F \<longrightarrow> t \<noteq> [] \<and> number_char hex (t ! 0))"
proof (induction t arbitrary: saw)
  case (Cons c t)
  let ?Q = "\<lambda>b i. t ! i = 0x5F \<longrightarrow> (if i = 0 then b else number_char hex (t ! (i - 1))) \<and> Suc i < length t \<and> number_char hex (t ! Suc i)"
  have split: "(\<forall>i<length (c # t). (c # t) ! i = 0x5F \<longrightarrow> (if i = 0 then saw = 0x30 else number_char hex ((c # t) ! (i - 1)))
        \<and> Suc i < length (c # t) \<and> number_char hex ((c # t) ! Suc i))
    \<longleftrightarrow> (c = 0x5F \<longrightarrow> saw = 0x30 \<and> t \<noteq> [] \<and> number_char hex (t ! 0)) \<and> (\<forall>i<length t. ?Q (number_char hex c) i)"
    by (auto simp: All_less_Suc2 nth_Cons' split: if_splits)
  note num = number_char_classes(2) [of hex]
  have step: "underscoreOK_loop hex saw (c # t) =
     (if number_char hex c then underscoreOK_loop hex 0x30 t
      else if c = 0x5F then (if saw \<noteq> 0x30 then False else underscoreOK_loop hex 0x5F t)
      else if saw = 0x5F then False
      else underscoreOK_loop hex 0x21 t)"
    by (simp add: number_char_def)
  show ?case
    unfolding split step Cons.IH using num by auto
qed simp

text \<open>The part of a literal the check looks at: its sign is dropped, a base prefix counts as one digit.\<close>

definition literal_body :: "gostring \<Rightarrow> bool \<times> gostring" where
  "literal_body s =
     (let s = (if s \<noteq> [] \<and> s ! 0 \<in> {0x2B, 0x2D} then tl s else s) in
      if 2 \<le> length s \<and> s ! 0 = 0x30 \<and> lower (s ! 1) \<in> {0x62, 0x6F, 0x78}
      then (lower (s ! 1) = 0x78, 0x30 # drop 2 s) else (False, s))"

lemma separators_loop:
  "underscoreOK_loop hex 0x30 t = separators_ok hex (0x30 # t)" "underscoreOK_loop hex 0x5E t = separators_ok hex t"
proof -
  show "underscoreOK_loop hex 0x30 t = separators_ok hex (0x30 # t)"
    unfolding underscoreOK_loop_ok separators_ok_def
    by (auto simp: All_less_Suc2 number_char_classes nth_Cons' split: if_splits)
  have e: "(if i = 0 then (0x5E::byte) = 0x30 else X) \<longleftrightarrow> 0 < i \<and> X" for i :: nat and X by simp
  show "underscoreOK_loop hex 0x5E t = separators_ok hex t"
    unfolding underscoreOK_loop_ok separators_ok_def e by simp
qed

subsection \<open>Claims\<close>

text \<open>
  ParseUint. In an explicit base ParseUint returns the value of the digits when they all are digits of the
  base and the value fits; the largest value and ErrRange as soon as the digits before the first invalid character
  overflow; ErrSyntax otherwise.
\<close>

theorem ParseUint_correct:
  assumes "2 \<le> base" "base \<le> 36" "0 \<le> bitSize" "bitSize \<le> 64" "s \<noteq> []"
  shows "ParseUint s base bitSize =
    (let w = width bitSize; ds = takeWhile (digit_in base) s in
     if 2 ^ w \<le> value_from base 0 ds then (word_of_int (2 ^ w - 1), Some \<lparr>Func = fnParseUint, Num = s, Err = ErrRange\<rparr>)
     else if ds \<noteq> s then (0, Some \<lparr>Func = fnParseUint, Num = s, Err = ErrSyntax\<rparr>)
     else (word_of_int (value_from base 0 s), None))"
  using ParseUint_ok [OF assms] by (simp add: number_spec_def num_error_def Let_def)

lemma ParseUint_correct_witness: "ParseUint (bytes ''256'') 10 8 = (255, Some \<lparr>Func = fnParseUint, Num = bytes ''256'', Err = ErrRange\<rparr>)"
proof -
  have f: "width 8 = 8" "takeWhile (digit_in 10) (bytes ''256'') = bytes ''256''" "value_from 10 0 (bytes ''256'') = 256" "bytes ''256'' \<noteq> []"
    by code_simp+
  show ?thesis using ParseUint_correct [of 10 8, OF _ _ _ _ f(4)] unfolding Let_def f by simp
qed

text \<open>
  Base 0. With base 0 the prefix selects the base, underscores are skipped by the conversion, and a literal with
  a misplaced underscore is a syntax error unless an invalid digit or an overflow was reported before.
\<close>

theorem ParseUint_base0_correct:
  assumes "0 \<le> bitSize" "bitSize \<le> 64" "s \<noteq> []" "ParseUint_base s 0 = Some (base, t)" "literal_body s = (hex, body)"
  shows "ParseUint s 0 bitSize =
    (case number_spec (width bitSize) base (filter (\<lambda>c. c \<noteq> 0x5F) t) of
       (v, Some e) \<Rightarrow> (v, Some \<lparr>Func = fnParseUint, Num = s, Err = e\<rparr>)
     | (v, None) \<Rightarrow>
         if 0x5F \<in> set t \<and> \<not> separators_ok hex body then (0, Some \<lparr>Func = fnParseUint, Num = s, Err = ErrSyntax\<rparr>)
         else (v, None))"
proof -
  have u: "underscoreOK s = separators_ok hex body"
    using assms(3,5) by (auto simp: underscoreOK_def literal_body_def Let_def separators_loop drop_Suc Suc_le_eq split: if_splits)
  show ?thesis using ParseUint_base0_ok [OF assms(1-4)] unfolding u num_error_def .
qed

lemma ParseUint_base0_correct_witness: "ParseUint (bytes ''0x_f'') 0 64 = (15, None)"
proof -
  let ?s = "bytes ''0x_f''"
  have "?s \<noteq> []" "ParseUint_base ?s 0 = Some (16, bytes ''_f'')" "literal_body ?s = (True, bytes ''0_f'')"
    "number_spec (width 64) 16 (filter (\<lambda>c. c \<noteq> 0x5F) (bytes ''_f'')) = (15, None)" "separators_ok True (bytes ''0_f'')"
    by code_simp+
  then show ?thesis using ParseUint_base0_correct [of 64 ?s 16 "bytes ''_f''" True "bytes ''0_f''"] by simp
qed

text \<open>
  C6 (ParseInt). The result of ParseInt on every string in every base but 0 and for every bit size but 1, for which it is wrong (the
  next theorem). An empty string and a sign alone are syntax errors, and then a bad base and a bad bit size are reported. An invalid
  digit is a syntax error with value 0, unless the digits before it already have a value of 2^w or more, w being the number of bits; the signed value of
  the digits is returned when it is representable, and otherwise the representable value closest to it with ErrRange. The error
  names ParseInt and holds the whole string.
\<close>

theorem ParseInt_correct:
  assumes "base \<noteq> 0" "bitSize \<noteq> 1" "split_sign s = (neg, t)" "ds = takeWhile (digit_in base) t"
    "v = (if neg then - value_from base 0 ds else value_from base 0 ds)" "w = width bitSize"
  shows "ParseInt s base bitSize =
    (if s = [] \<or> t = [] then (0, Some \<lparr>Func = fnParseInt, Num = s, Err = ErrSyntax\<rparr>)
     else if \<not> (2 \<le> base \<and> base \<le> 36) then (0, Some \<lparr>Func = fnParseInt, Num = s, Err = InvalidBase base\<rparr>)
     else if \<not> (0 \<le> bitSize \<and> bitSize \<le> 64) then (0, Some \<lparr>Func = fnParseInt, Num = s, Err = InvalidBitSize bitSize\<rparr>)
     else if ds \<noteq> t \<and> value_from base 0 ds < 2 ^ w then (0, Some \<lparr>Func = fnParseInt, Num = s, Err = ErrSyntax\<rparr>)
     else if v < - (2 ^ (w - 1)) then (- (2 ^ (w - 1)), Some \<lparr>Func = fnParseInt, Num = s, Err = ErrRange\<rparr>)
     else if 2 ^ (w - 1) \<le> v then (2 ^ (w - 1) - 1, Some \<lparr>Func = fnParseInt, Num = s, Err = ErrRange\<rparr>)
     else (v, None))"
proof (cases "s = [] \<or> t = []")
  case True
  then show ?thesis using ParseInt_sign_only [of s neg base bitSize] assms(3) by (auto simp: ParseInt_def num_error_def syntaxError_def)
next
  case False
  then have s: "s \<noteq> []" "t \<noteq> []" by auto
  show ?thesis
  proof (cases "2 \<le> base \<and> base \<le> 36 \<and> 0 \<le> bitSize \<and> bitSize \<le> 64")
    case bad: False
    then show ?thesis using ParseInt_bad [OF s(1) assms(3) s(2) assms(1), of bitSize] s by (simp add: num_error_def)
  next
    case True
    then have bs: "bitSize = 0 \<or> 2 \<le> bitSize" using assms(2) by linarith
    have v: "0 \<le> value_from base 0 ds" using True unfolding assms(4) by (intro value_from_ge) (auto dest: set_takeWhileD simp: list_all_iff)
    have w: "2 \<le> w" "w \<le> 64" using True bs assms(6) by (auto simp: width_def nat_le_iff)
    have h: "(2::int) ^ w = 2 * 2 ^ (w - 1)" "(2::int) \<le> 2 ^ (w - 1)" "(2::int) ^ w \<le> 2 ^ 64"
      using w power_increasing [of 1 "w - 1" "2::int"] power_increasing [of w 64 "2::int"] by (simp_all flip: power_Suc)
    have u: "uint (word_of_int x :: uint64) = x" if "0 \<le> x" "x < 2 ^ w" for x
      unfolding uint_word_of_int using that h(3) by simp
    note P = ParseInt_ok [OF _ _ bs _ s(1) assms(3) s(2), of base, folded assms(6)]
    show ?thesis
      using True P v h u [OF v] s unfolding assms(5)
      by (auto simp: int_spec_def number_spec_def assms(4) [symmetric] num_error_def Let_def)
  qed
qed

lemma ParseInt_correct_witness:
  "ParseInt (bytes ''-129'') 10 8 = (-128, Some \<lparr>Func = fnParseInt, Num = bytes ''-129'', Err = ErrRange\<rparr>)
    \<and> ParseInt (bytes ''+1x'') 10 8 = (0, Some \<lparr>Func = fnParseInt, Num = bytes ''+1x'', Err = ErrSyntax\<rparr>)"
proof
  have f: "split_sign (bytes ''-129'') = (True, bytes ''129'')" "bytes ''129'' = takeWhile (digit_in 10) (bytes ''129'')"
    "value_from 10 0 (bytes ''129'') = 129" "bytes ''-129'' \<noteq> []" "bytes ''129'' \<noteq> []" "width 8 = 8"
    by code_simp+
  from ParseInt_correct [of 10 8, OF _ _ f(1,2) refl refl]
  show "ParseInt (bytes ''-129'') 10 8 = (-128, Some \<lparr>Func = fnParseInt, Num = bytes ''-129'', Err = ErrRange\<rparr>)"
    by (simp add: f(3-6))
  have g: "split_sign (bytes ''+1x'') = (False, bytes ''1x'')" "bytes ''1'' = takeWhile (digit_in 10) (bytes ''1x'')"
    "value_from 10 0 (bytes ''1'') = 1" "bytes ''+1x'' \<noteq> []" "bytes ''1x'' \<noteq> []" "bytes ''1'' \<noteq> bytes ''1x''"
    by code_simp+
  from ParseInt_correct [of 10 8, OF _ _ g(1,2) refl refl]
  show "ParseInt (bytes ''+1x'') 10 8 = (0, Some \<lparr>Func = fnParseInt, Num = bytes ''+1x'', Err = ErrSyntax\<rparr>)"
    by (simp add: g(3-6) f(6))
qed

text \<open>
  Bit size 1. With bit size 1 a negative number of any magnitude above 1 is silently parsed as -1, without the
  promised ErrRange: ParseUint's clamped result equals the cutoff that the range check compares it with.
\<close>

theorem ParseInt_bitSize1_out_of_range:
  assumes "2 \<le> base" "base \<le> 36" "list_all (digit_in base) t" "2 \<le> value_from base 0 t"
  shows "ParseInt (0x2D # t) base 1 = (- 1, None)"
proof -
  have t: "t \<noteq> []" using assms(4) by auto
  have "ParseUint t base 1 = (1, Some (num_error fnParseUint t ErrRange))"
    using ParseUint_ok [OF assms(1,2) _ _ t, of 1] assms(4)
    by (simp add: number_spec_def width_def takeWhile_all [OF assms(3)] Let_def)
  then show ?thesis
    using ParseInt_range_ok [of 1 "0x2D # t" True 1] by (simp add: ParseInt_def num_error_def width_def Let_def)
qed

lemma ParseInt_bitSize1_out_of_range_witness: "ParseInt (0x2D # bytes ''1000'') 10 1 = (- 1, None)"
proof -
  have "list_all (digit_in 10) (bytes ''1000'')" "2 \<le> value_from 10 0 (bytes ''1000'')" by code_simp+
  then show ?thesis using ParseInt_bitSize1_out_of_range [of 10 "bytes ''1000''"] by simp
qed

text \<open>
  C20 (round trip). Formatting an int64 never panics, and parsing the text in the same base with a bit size that
  holds the number gives the number back.
\<close>

theorem ParseInt_FormatInt:
  assumes "2 \<le> base" "base \<le> 36" "bitSize = 0 \<or> 2 \<le> bitSize" "bitSize \<le> 64"
    "- (2 ^ (width bitSize - 1)) \<le> i" "i < 2 ^ (width bitSize - 1)"
  shows "\<exists>s. FormatInt i base = Some s \<and> ParseInt s base bitSize = (i, None)"
proof -
  have w: "2 \<le> width bitSize" "width bitSize \<le> 64" using assms(3,4) by (auto simp: width_def nat_le_iff)
  have h: "(2::int) ^ width bitSize = 2 * 2 ^ (width bitSize - 1)" "(2::int) ^ (width bitSize - 1) \<le> 2 ^ 63" "(2::int) \<le> 2 ^ (width bitSize - 1)"
    using w power_increasing [of "width bitSize - 1" 63 "2::int"] power_increasing [of 1 "width bitSize - 1" "2::int"]
    by (simp_all flip: power_Suc)
  let ?t = "digits_of base \<bar>i\<bar>"
  let ?s = "sign_of (i < 0) @ ?t"
  have F: "FormatInt i base = Some ?s" by (rule FormatInt_ok) (use assms h in linarith)+
  have t: "?t \<noteq> []" using length_digits_of_pos [of base "\<bar>i\<bar>"] by auto
  have "?t ! 0 \<in> set ?t" using t by simp
  then have "digit_in base (?t ! 0)" using digits_of_ok [OF assms(1,2), of "\<bar>i\<bar>"] by (auto simp: list_all_iff)
  then have c: "?t ! 0 \<noteq> 0x2B" "?t ! 0 \<noteq> 0x2D" by (auto simp: digit_in_def digit_val_def)
  have sp: "split_sign ?s = (i < 0, ?t)" using c t by (simp add: split_sign_def sign_of_def nth_append)
  have m: "uint (word_of_int \<bar>i\<bar> :: uint64) = \<bar>i\<bar>"
    unfolding uint_word_of_int by (rule mod_pos_pos_trivial) (use assms(5,6) h in simp_all)
  have "ParseInt ?s base bitSize = (i, None)"
    using ParseInt_ok [OF assms(1-4) _ sp t] t m assms(5,6) h
    by (auto simp: int_spec_def number_spec_digits_of [OF assms(1,2)])
  then show ?thesis using F by blast
qed

lemma ParseInt_FormatInt_witness: "\<exists>s. FormatInt (- 32768) 36 = Some s \<and> ParseInt s 36 16 = (- 32768, None)"
  using ParseInt_FormatInt [of 36 16 "- 32768"] by (simp add: width_def)

text \<open>The two ways of Atoi, and what the loop of the fast one computes.\<close>

lemma Atoi_slow:
  assumes "s = [] \<or> 19 \<le> length s"
  shows "Atoi s = (case ParseInt s 10 0 of (v, err) \<Rightarrow> (v, map_option (\<lambda>e. e\<lparr>Func := fnAtoi\<rparr>) err))"
proof -
  have g: "((64::int) = 32 \<and> 0 < int (length s) \<and> int (length s) < 10 \<or> (64::int) = 64 \<and> 0 < int (length s) \<and> int (length s) < 19) = False"
    using assms by auto
  have "Atoi s = (let (i64, err) = ParseInt s 10 0 in
      (i64, case err of None \<Rightarrow> None | Some nerr \<Rightarrow> Some (nerr\<lparr>Func := fnAtoi\<rparr>)))"
    unfolding Atoi_def IntSize_def Let_def g if_False ..
  then show ?thesis by (cases "ParseInt s 10 0") (auto split: option.splits)
qed

lemma Atoi_fast:
  assumes "s \<noteq> []" "length s < 19" "split_sign s = (neg, t)"
  shows "Atoi s = (if t = [] then (0, Some (num_error fnAtoi s ErrSyntax))
      else case Atoi_loop t 0 of None \<Rightarrow> (0, Some (num_error fnAtoi s ErrSyntax)) | Some n \<Rightarrow> (if neg then int64 (- n) else n, None))"
    "length t \<le> 18"
proof -
  have t: "(if s ! 0 = 0x2D \<or> s ! 0 = 0x2B then drop 1 s else s) = t" "s ! 0 = 0x2D \<longleftrightarrow> neg"
    using assms(3) by (auto simp: split_sign_def split: if_splits)
  have g: "((64::int) = 32 \<and> 0 < int (length s) \<and> int (length s) < 10 \<or> (64::int) = 64 \<and> 0 < int (length s) \<and> int (length s) < 19) = True"
    using assms(1,2) by simp
  have "(s ! 0 = 0x2D \<or> s ! 0 = 0x2B) \<and> length t < 1 \<longleftrightarrow> t = []" using assms(1) t(1) by (auto split: if_splits)
  then show "Atoi s = (if t = [] then (0, Some (num_error fnAtoi s ErrSyntax))
      else case Atoi_loop t 0 of None \<Rightarrow> (0, Some (num_error fnAtoi s ErrSyntax)) | Some n \<Rightarrow> (if neg then int64 (- n) else n, None))"
    unfolding Atoi_def IntSize_def Let_def t(1) g if_True unfolding t(2) num_error_def by simp
  show "length t \<le> 18" using t(1) assms(2) by (auto split: if_splits)
qed

lemma Atoi_loop_spec:
  assumes "length t \<le> 18"
  shows "(case Atoi_loop t 0 of None \<Rightarrow> (0, Some (num_error f s ErrSyntax)) | Some n \<Rightarrow> (if neg then int64 (- n) else n, None))
    = map_prod id (map_option (num_error f s)) (int_spec 64 10 neg t)"
proof -
  let ?ds = "takeWhile (digit_in 10) t"
  have "list_all (digit_in 10) ?ds" by (auto simp: list_all_iff dest: set_takeWhileD)
  from value_bound [OF this, of 0 0] have vd: "0 \<le> value_from 10 0 ?ds" "value_from 10 0 ?ds < 10 ^ length ?ds" by simp_all
  have "(10::int) ^ length ?ds \<le> 10 ^ 18"
    using assms le_trans [OF length_takeWhile_le assms] by (intro power_increasing) auto
  then have vb: "value_from 10 0 ?ds < 2 ^ 63" using vd(2) by simp
  have L: "Atoi_loop t 0 = (if ?ds = t then Some (value_from 10 0 t) else None)"
    by (rule Atoi_loop_ok [of 0 0]) (use assms in simp_all)
  show ?thesis
  proof (cases "?ds = t")
    case False
    then have "number_spec 64 10 t = (0, Some ErrSyntax)" using vb unfolding number_spec_def Let_def by simp
    then show ?thesis unfolding L using False by (simp add: int_spec_def num_error_def)
  next
    case True
    let ?v = "value_from 10 0 t"
    have v: "0 \<le> ?v" "?v < 2 ^ 63" using vd(1) vb unfolding True .
    have "uint (word_of_int ?v :: uint64) = ?v" unfolding uint_word_of_int by (rule mod_pos_pos_trivial) (use v in simp_all)
    moreover have "number_spec 64 10 t = (word_of_int ?v, None)" using v(2) unfolding number_spec_def Let_def True by simp
    moreover have "int64 (- ?v) = - ?v" using v by (intro int64_nonpos) simp_all
    ultimately show ?thesis unfolding L using True v by (simp add: int_spec_def)
  qed
qed

text \<open>
  C27 (Atoi). The fast path of Atoi, which accumulates in an int without any overflow test, returns on every string
  what ParseInt in base 10 returns, with the function name replaced in the error.
\<close>

theorem Atoi_is_ParseInt:
  "Atoi s = (case ParseInt s 10 0 of (v, err) \<Rightarrow> (v, map_option (\<lambda>e. e\<lparr>Func := fnAtoi\<rparr>) err))"
proof (cases "s = [] \<or> 19 \<le> length s")
  case False
  then have s: "s \<noteq> []" "length s < 19" by auto
  obtain neg t where sp: "split_sign s = (neg, t)" by fastforce
  note A = Atoi_fast [OF s sp]
  show ?thesis
  proof (cases "t = []")
    case True
    then show ?thesis using ParseInt_sign_only [OF s(1), of neg] sp by (simp add: A(1) num_error_def)
  next
    case ne: False
    have "ParseInt s 10 0 = map_prod id (map_option (num_error fnParseInt s)) (int_spec 64 10 neg t)"
      using ParseInt_ok [of 10 0 s neg t] s(1) sp ne by (simp add: width_def)
    then show ?thesis
      using ne unfolding A(1) Atoi_loop_spec [OF A(2)] if_False
      by (cases "int_spec 64 10 neg t") (auto simp: num_error_def option.map_comp comp_def intro: option.map_cong)
  qed
qed (rule Atoi_slow)

end
