(* ===== verification/Utf8_String.thy ===== *)
theory Utf8_String
  imports Utf8_Text
begin

text \<open>
  The functions of \<^verbatim>\<open>unicode/utf8\<close> on strings. The package repeats their bodies for strings to avoid a
  conversion; a string is modelled by its bytes, so each function must agree with its counterpart on slices.
\<close>

subsection \<open>Operations\<close>

definition FullRuneInString :: "byte list \<Rightarrow> bool option" where
  "FullRuneInString s =
     (let n = int (length s) in
      if n = 0 then Some False
      else do {
        s0 \<leftarrow> idx s 0;
        let x = utf8_first ! unat s0;
        if n \<ge> uint (x AND 7) then Some True
        else do {
          let accept = acceptRanges ! unat (drop_bit 4 x);
          bad1 \<leftarrow> (if n > 1 then do { s1 \<leftarrow> idx s 1; Some (s1 < accept_lo accept \<or> accept_hi accept < s1) }
                  else Some False);
          if bad1 then Some True
          else do {
            bad2 \<leftarrow> (if n > 2 then do { s2 \<leftarrow> idx s 2; Some (s2 < utf8_locb \<or> utf8_hicb < s2) }
                    else Some False);
            Some bad2
          }
        }
      })"

definition DecodeRuneInString :: "byte list \<Rightarrow> (rune \<times> int) option" where
  "DecodeRuneInString s =
     (let n = int (length s) in
      if n < 1 then Some (RuneError, 0)
      else do {
        s0 \<leftarrow> idx s 0;
        let x = utf8_first ! unat s0;
        if x \<ge> utf8_as then
          (let mask = signed_drop_bit 31 (push_bit 31 (ucast x :: rune)) in
           Some ((ucast s0 AND NOT mask) OR (RuneError AND mask), 1))
        else do {
          let sz = uint (x AND 7);
          let accept = acceptRanges ! unat (drop_bit 4 x);
          if n < sz then Some (RuneError, 1)
          else do {
            s1 \<leftarrow> idx s 1;
            if s1 < accept_lo accept \<or> accept_hi accept < s1 then Some (RuneError, 1)
            else if sz \<le> 2 then
              Some (push_bit 6 (ucast (s0 AND 0x1F)) OR ucast (s1 AND 0x3F), 2)
            else do {
              s2 \<leftarrow> idx s 2;
              if s2 < utf8_locb \<or> utf8_hicb < s2 then Some (RuneError, 1)
              else if sz \<le> 3 then
                Some (push_bit 12 (ucast (s0 AND 0x0F)) OR push_bit 6 (ucast (s1 AND 0x3F)) OR ucast (s2 AND 0x3F), 3)
              else do {
                s3 \<leftarrow> idx s 3;
                if s3 < utf8_locb \<or> utf8_hicb < s3 then Some (RuneError, 1)
                else Some (push_bit 18 (ucast (s0 AND 0x07)) OR push_bit 12 (ucast (s1 AND 0x3F))
                       OR push_bit 6 (ucast (s2 AND 0x3F)) OR ucast (s3 AND 0x3F), 4)
              }
            }
          }
        }
      })"

partial_function (option) DecodeLastRuneInString_loop :: "byte list \<Rightarrow> int \<Rightarrow> int \<Rightarrow> int option" where
  "DecodeLastRuneInString_loop s lim start =
     (if start \<ge> lim then
        do { b \<leftarrow> idx s start; if RuneStart b then Some start else DecodeLastRuneInString_loop s lim (start - 1) }
      else Some start)"

definition DecodeLastRuneInString :: "byte list \<Rightarrow> (rune \<times> int) option" where
  "DecodeLastRuneInString s =
     (let end' = int (length s) in
      if end' = 0 then Some (RuneError, 0)
      else do {
        let start = end' - 1;
        b \<leftarrow> idx s start;
        let r = (ucast b :: rune);
        if r <s RuneSelf then Some (r, 1)
        else do {
          let lim = end' - 4;
          let lim = (if lim < 0 then 0 else lim);
          start \<leftarrow> DecodeLastRuneInString_loop s lim (start - 1);
          let start = (if start < 0 then 0 else start);
          (r, size) \<leftarrow> DecodeRuneInString (drop (nat start) s);
          if start + size \<noteq> end' then Some (RuneError, 1) else Some (r, size)
        }
      })"

partial_function (option) RuneCountInString_loop :: "byte list \<Rightarrow> int \<Rightarrow> int \<Rightarrow> int \<Rightarrow> int option" where
  "RuneCountInString_loop s ns i n =
     (if i < ns then
        do {
          c \<leftarrow> idx s i;
          if c < RuneSelf then RuneCountInString_loop s ns (i + 1) (n + 1)
          else do {
            let x = utf8_first ! unat c;
            if x = utf8_xx then RuneCountInString_loop s ns (i + 1) (n + 1)
            else do {
              let size = uint (x AND 7);
              if i + size > ns then RuneCountInString_loop s ns (i + 1) (n + 1)
              else do {
                let accept = acceptRanges ! unat (drop_bit 4 x);
                c \<leftarrow> idx s (i + 1);
                size \<leftarrow>
                  (if c < accept_lo accept \<or> accept_hi accept < c then Some 1
                   else if size = 2 then Some size
                   else do {
                     c \<leftarrow> idx s (i + 2);
                     if c < utf8_locb \<or> utf8_hicb < c then Some 1
                     else if size = 3 then Some size
                     else do { c \<leftarrow> idx s (i + 3); Some (if c < utf8_locb \<or> utf8_hicb < c then 1 else size) }
                   });
                RuneCountInString_loop s ns (i + size) (n + 1)
              }
            }
          }
        }
      else Some n)"

definition RuneCountInString :: "byte list \<Rightarrow> int option" where
  "RuneCountInString s = RuneCountInString_loop s (int (length s)) 0 0"

function ValidString_fast :: "byte list \<Rightarrow> byte list" where
  "ValidString_fast s =
     (if length s \<ge> 8 then
        (let first32 = load32 s 0; second32 = load32 s 4 in
         if (first32 OR second32) AND 0x80808080 \<noteq> 0 then s else ValidString_fast (drop 8 s))
      else s)"
  by pat_completeness auto
termination
  by (relation "measure length") auto

declare ValidString_fast.simps [simp del]

partial_function (option) ValidString_loop :: "byte list \<Rightarrow> int \<Rightarrow> int \<Rightarrow> bool option" where
  "ValidString_loop s n i =
     (if i < n then
        do {
          si \<leftarrow> idx s i;
          if si < RuneSelf then ValidString_loop s n (i + 1)
          else do {
            let x = utf8_first ! unat si;
            if x = utf8_xx then Some False
            else do {
              let size = uint (x AND 7);
              if i + size > n then Some False
              else do {
                let accept = acceptRanges ! unat (drop_bit 4 x);
                c \<leftarrow> idx s (i + 1);
                if c < accept_lo accept \<or> accept_hi accept < c then Some False
                else if size = 2 then ValidString_loop s n (i + size)
                else do {
                  c \<leftarrow> idx s (i + 2);
                  if c < utf8_locb \<or> utf8_hicb < c then Some False
                  else if size = 3 then ValidString_loop s n (i + size)
                  else do {
                    c \<leftarrow> idx s (i + 3);
                    if c < utf8_locb \<or> utf8_hicb < c then Some False else ValidString_loop s n (i + size)
                  }
                }
              }
            }
          }
        }
      else Some True)"

definition ValidString :: "byte list \<Rightarrow> bool option" where
  "ValidString s = (let s = ValidString_fast s; n = int (length s) in ValidString_loop s n 0)"

declare DecodeLastRuneInString_loop.simps [code] RuneCountInString_loop.simps [code] ValidString_loop.simps [code]

subsection \<open>Agreement\<close>

lemma FullRuneInString_eq: "FullRuneInString s = FullRune s"
  unfolding FullRuneInString_def FullRune_def ..

lemma DecodeRuneInString_eq: "DecodeRuneInString s = DecodeRune s"
  unfolding DecodeRuneInString_def DecodeRune_def ..

text \<open>Two loops over the same steps agree: each returns what the other one returns.\<close>

lemma option_eqI: "(\<And>y. a = Some y \<Longrightarrow> b = Some y) \<Longrightarrow> (\<And>y. b = Some y \<Longrightarrow> a = Some y) \<Longrightarrow> a = b"
  by (cases a; cases b) auto

lemma bind_mono: "(\<And>x. f x = Some y \<Longrightarrow> g x = Some y) \<Longrightarrow> Option.bind m f = Some y \<Longrightarrow> Option.bind m g = Some y"
  by (cases m) auto

lemma if_mono:
  "(c \<Longrightarrow> a = Some y \<Longrightarrow> a' = Some y) \<Longrightarrow> (\<not> c \<Longrightarrow> b = Some y \<Longrightarrow> b' = Some y) \<Longrightarrow>
   (if c then a else b) = Some y \<Longrightarrow> (if c then a' else b') = Some y"
  by (cases c) auto

lemmas some_mono = bind_mono [rotated] if_mono [rotated 2]

lemma DecodeLastRuneInString_loop_eq: "DecodeLastRuneInString_loop p lim start = DecodeLastRune_loop p lim start"
proof (rule option_eqI)
  show "DecodeLastRune_loop p lim start = Some y" if "DecodeLastRuneInString_loop p lim start = Some y" for y
    apply (rule DecodeLastRuneInString_loop.raw_induct [OF _ that], subst DecodeLastRune_loop.simps)
    subgoal premises p by (insert p(2), (unfold Let_def)?) (erule some_mono p(1) | assumption)+
    done
  show "DecodeLastRuneInString_loop p lim start = Some y" if "DecodeLastRune_loop p lim start = Some y" for y
    apply (rule DecodeLastRune_loop.raw_induct [OF _ that], subst DecodeLastRuneInString_loop.simps)
    subgoal premises p by (insert p(2), (unfold Let_def)?) (erule some_mono p(1) | assumption)+
    done
qed

lemma DecodeLastRuneInString_eq: "DecodeLastRuneInString s = DecodeLastRune s"
  unfolding DecodeLastRuneInString_def DecodeLastRune_def DecodeLastRuneInString_loop_eq DecodeRuneInString_eq ..

lemma RuneCountInString_loop_eq: "RuneCountInString_loop s ns i n = RuneCount_loop s ns i n"
proof (rule option_eqI)
  show "RuneCount_loop s ns i n = Some y" if "RuneCountInString_loop s ns i n = Some y" for y
    apply (rule RuneCountInString_loop.raw_induct [OF _ that], subst RuneCount_loop.simps)
    subgoal premises p by (insert p(2), (unfold Let_def)?) (erule some_mono p(1) | assumption)+
    done
  show "RuneCountInString_loop s ns i n = Some y" if "RuneCount_loop s ns i n = Some y" for y
    apply (rule RuneCount_loop.raw_induct [OF _ that], subst RuneCountInString_loop.simps)
    subgoal premises p by (insert p(2), (unfold Let_def)?) (erule some_mono p(1) | assumption)+
    done
qed

lemma RuneCountInString_eq: "RuneCountInString s = RuneCount s"
  unfolding RuneCountInString_def RuneCount_def RuneCountInString_loop_eq ..

lemma ValidString_fast_eq: "ValidString_fast s = Valid_fast s"
proof (induction s rule: Valid_fast.induct)
  case (1 p)
  then show ?case by (subst ValidString_fast.simps, subst Valid_fast.simps) (simp add: Let_def)
qed

lemma ValidString_loop_eq: "ValidString_loop s n i = Valid_loop s n i"
proof (rule option_eqI)
  show "Valid_loop s n i = Some y" if "ValidString_loop s n i = Some y" for y
    apply (rule ValidString_loop.raw_induct [OF _ that], subst Valid_loop.simps)
    subgoal premises p by (insert p(2), (unfold Let_def)?) (erule some_mono p(1) | assumption)+
    done
  show "ValidString_loop s n i = Some y" if "Valid_loop s n i = Some y" for y
    apply (rule Valid_loop.raw_induct [OF _ that], subst ValidString_loop.simps)
    subgoal premises p by (insert p(2), (unfold Let_def)?) (erule some_mono p(1) | assumption)+
    done
qed

lemma ValidString_eq: "ValidString s = Valid s"
  unfolding ValidString_def Valid_def ValidString_loop_eq ValidString_fast_eq ..

text \<open>
  Strings. The string versions of the package compute what the slice versions compute: the length of the first
  and the last rune, the number of runes and validity; so the properties of those carry over.
\<close>

theorem string_variants_agree:
  "FullRuneInString s = FullRune s \<and> DecodeRuneInString s = DecodeRune s \<and> DecodeLastRuneInString s = DecodeLastRune s
   \<and> RuneCountInString s = Some (int (length (decode_all s))) \<and> ValidString s = Some (utf8_text s)"
  using RuneCount_loop_ok [of 0 s 0] Valid_loop_ok [of 0 "Valid_fast s"] Valid_fast_ok [of s]
  by (simp add: FullRuneInString_eq DecodeRuneInString_eq DecodeLastRuneInString_eq RuneCountInString_eq ValidString_eq
      RuneCount_def Valid_def Let_def)

end
