(* ===== verification/Json_Scanner.thy ===== *)
theory Json_Scanner
  imports Go_Prelude
begin

text \<open>
  The scanner of \<^verbatim>\<open>encoding/json\<close> (scanner.go): a state machine whose current state is a function stored in the
  field \<open>step\<close>. The functions are the values of \<open>json_step\<close>, \<open>scan_step\<close> calls the one that is stored.
  \<^const>\<open>None\<close> is a panic: an index or a slice out of range on the parse stack. The text of an error is kept as
  its parts; \<open>quoteChar\<close>, which renders a byte with \<open>strconv.Quote\<close>, is not modelled.
\<close>

subsection \<open>The state of the scanner\<close>

datatype json_op = scanContinue | scanBeginLiteral | scanBeginObject | scanObjectKey | scanObjectValue
  | scanEndObject | scanBeginArray | scanArrayValue | scanEndArray | scanSkipSpace | scanEnd | scanError

datatype parse_state = parseObjectKey | parseObjectValue | parseArrayValue

datatype json_step = BeginValueOrEmpty | BeginValue | BeginStringOrEmpty | BeginString | EndValue | EndTop
  | InString | InStringEsc | InStringEscU | InStringEscU1 | InStringEscU12 | InStringEscU123
  | Neg | State1 | State0 | Dot | Dot0 | StateE | ESign | E0
  | StT | StTr | StTru | StF | StFa | StFal | StFals | StN | StNu | StNul | StError

datatype json_msg = InvalidCharacter byte string | UnexpectedEnd

record SyntaxError =
  msg :: json_msg
  Offset :: int

record scanner =
  step :: json_step
  endTop :: bool
  parseState :: "parse_state list"
  err :: "SyntaxError option"
  scan_bytes :: int

definition maxNestingDepth :: int where "maxNestingDepth = 10000"

definition scan_reset :: "scanner \<Rightarrow> scanner" where
  "scan_reset s = s\<lparr>step := BeginValue, parseState := [], err := None, endTop := False\<rparr>"

text \<open>The scanner a pool hands out is any earlier one; only its allocated fields are reused.\<close>

definition newScanner :: "scanner \<Rightarrow> scanner" where
  "newScanner pooled = scan_reset (pooled\<lparr>scan_bytes := 0\<rparr>)"

definition freeScanner :: "scanner \<Rightarrow> scanner" where
  "freeScanner scan = (if length (parseState scan) > 1024 then scan\<lparr>parseState := []\<rparr> else scan)"

definition isSpace :: "byte \<Rightarrow> bool" where
  "isSpace c \<longleftrightarrow> c \<le> 0x20 \<and> (c = 0x20 \<or> c = 0x09 \<or> c = 0x0D \<or> c = 0x0A)"

subsection \<open>The transition functions\<close>

type_synonym scan_result = "(scanner \<times> json_op) option"

definition scan_error :: "scanner \<Rightarrow> byte \<Rightarrow> string \<Rightarrow> scanner \<times> json_op" where
  "scan_error s c context =
     (s\<lparr>step := StError, err := Some \<lparr>msg = InvalidCharacter c context, Offset = scan_bytes s\<rparr>\<rparr>, scanError)"

definition pushParseState :: "scanner \<Rightarrow> byte \<Rightarrow> parse_state \<Rightarrow> json_op \<Rightarrow> scanner \<times> json_op" where
  "pushParseState s c newParseState successState =
     (let s = s\<lparr>parseState := parseState s @ [newParseState]\<rparr> in
      if int (length (parseState s)) \<le> maxNestingDepth then (s, successState)
      else scan_error s c ''exceeded max depth'')"

definition popParseState :: "scanner \<Rightarrow> scanner option" where
  "popParseState s =
     (let n = int (length (parseState s)) - 1 in
      if n < 0 then None
      else
        let s = s\<lparr>parseState := take (nat n) (parseState s)\<rparr> in
        if n = 0 then Some (s\<lparr>step := EndTop, endTop := True\<rparr>) else Some (s\<lparr>step := EndValue\<rparr>))"

definition stateEndTop :: "scanner \<Rightarrow> byte \<Rightarrow> scan_result" where
  "stateEndTop s c =
     (let s = (if \<not> isSpace c then fst (scan_error s c ''after top-level value'') else s) in Some (s, scanEnd))"

definition stateEndValue :: "scanner \<Rightarrow> byte \<Rightarrow> scan_result" where
  "stateEndValue s c =
     (let n = int (length (parseState s)) in
      if n = 0 then stateEndTop (s\<lparr>step := EndTop, endTop := True\<rparr>) c
      else if isSpace c then Some (s\<lparr>step := EndValue\<rparr>, scanSkipSpace)
      else do {
        ps \<leftarrow> idx (parseState s) (n - 1);
        case ps of
          parseObjectKey \<Rightarrow>
            if c = 0x3A then do {
              st \<leftarrow> upd (parseState s) (n - 1) parseObjectValue;
              Some (s\<lparr>parseState := st, step := BeginValue\<rparr>, scanObjectKey)
            }
            else Some (scan_error s c ''after object key'')
        | parseObjectValue \<Rightarrow>
            if c = 0x2C then do {
              st \<leftarrow> upd (parseState s) (n - 1) parseObjectKey;
              Some (s\<lparr>parseState := st, step := BeginString\<rparr>, scanObjectValue)
            }
            else if c = 0x7D then do { s \<leftarrow> popParseState s; Some (s, scanEndObject) }
            else Some (scan_error s c ''after object key:value pair'')
        | parseArrayValue \<Rightarrow>
            if c = 0x2C then Some (s\<lparr>step := BeginValue\<rparr>, scanArrayValue)
            else if c = 0x5D then do { s \<leftarrow> popParseState s; Some (s, scanEndArray) }
            else Some (scan_error s c ''after array element'')
      })"

definition stateBeginValue :: "scanner \<Rightarrow> byte \<Rightarrow> scan_result" where
  "stateBeginValue s c =
     (if isSpace c then Some (s, scanSkipSpace)
      else if c = 0x7B then Some (pushParseState (s\<lparr>step := BeginStringOrEmpty\<rparr>) c parseObjectKey scanBeginObject)
      else if c = 0x5B then Some (pushParseState (s\<lparr>step := BeginValueOrEmpty\<rparr>) c parseArrayValue scanBeginArray)
      else if c = 0x22 then Some (s\<lparr>step := InString\<rparr>, scanBeginLiteral)
      else if c = 0x2D then Some (s\<lparr>step := Neg\<rparr>, scanBeginLiteral)
      else if c = 0x30 then Some (s\<lparr>step := State0\<rparr>, scanBeginLiteral)
      else if c = 0x74 then Some (s\<lparr>step := StT\<rparr>, scanBeginLiteral)
      else if c = 0x66 then Some (s\<lparr>step := StF\<rparr>, scanBeginLiteral)
      else if c = 0x6E then Some (s\<lparr>step := StN\<rparr>, scanBeginLiteral)
      else if 0x31 \<le> c \<and> c \<le> 0x39 then Some (s\<lparr>step := State1\<rparr>, scanBeginLiteral)
      else Some (scan_error s c ''looking for beginning of value''))"

definition stateBeginValueOrEmpty :: "scanner \<Rightarrow> byte \<Rightarrow> scan_result" where
  "stateBeginValueOrEmpty s c =
     (if isSpace c then Some (s, scanSkipSpace)
      else if c = 0x5D then stateEndValue s c
      else stateBeginValue s c)"

definition stateBeginString :: "scanner \<Rightarrow> byte \<Rightarrow> scan_result" where
  "stateBeginString s c =
     (if isSpace c then Some (s, scanSkipSpace)
      else if c = 0x22 then Some (s\<lparr>step := InString\<rparr>, scanBeginLiteral)
      else Some (scan_error s c ''looking for beginning of object key string''))"

definition stateBeginStringOrEmpty :: "scanner \<Rightarrow> byte \<Rightarrow> scan_result" where
  "stateBeginStringOrEmpty s c =
     (if isSpace c then Some (s, scanSkipSpace)
      else if c = 0x7D then do {
        let n = int (length (parseState s));
        st \<leftarrow> upd (parseState s) (n - 1) parseObjectValue;
        stateEndValue (s\<lparr>parseState := st\<rparr>) c
      }
      else stateBeginString s c)"

definition stateInString :: "scanner \<Rightarrow> byte \<Rightarrow> scan_result" where
  "stateInString s c =
     (if c = 0x22 then Some (s\<lparr>step := EndValue\<rparr>, scanContinue)
      else if c = 0x5C then Some (s\<lparr>step := InStringEsc\<rparr>, scanContinue)
      else if c < 0x20 then Some (scan_error s c ''in string literal'')
      else Some (s, scanContinue))"

definition stateInStringEsc :: "scanner \<Rightarrow> byte \<Rightarrow> scan_result" where
  "stateInStringEsc s c =
     (if c \<in> {0x62, 0x66, 0x6E, 0x72, 0x74, 0x5C, 0x2F, 0x22} then Some (s\<lparr>step := InString\<rparr>, scanContinue)
      else if c = 0x75 then Some (s\<lparr>step := InStringEscU\<rparr>, scanContinue)
      else Some (scan_error s c ''in string escape code''))"

definition stateInStringEscU :: "scanner \<Rightarrow> byte \<Rightarrow> scan_result" where
  "stateInStringEscU s c =
     (if 0x30 \<le> c \<and> c \<le> 0x39 \<or> 0x61 \<le> c \<and> c \<le> 0x66 \<or> 0x41 \<le> c \<and> c \<le> 0x46
      then Some (s\<lparr>step := InStringEscU1\<rparr>, scanContinue)
      else Some (scan_error s c (''in '' @ [CHR 0x5C] @ ''u hexadecimal character escape'')))"

definition stateInStringEscU1 :: "scanner \<Rightarrow> byte \<Rightarrow> scan_result" where
  "stateInStringEscU1 s c =
     (if 0x30 \<le> c \<and> c \<le> 0x39 \<or> 0x61 \<le> c \<and> c \<le> 0x66 \<or> 0x41 \<le> c \<and> c \<le> 0x46
      then Some (s\<lparr>step := InStringEscU12\<rparr>, scanContinue)
      else Some (scan_error s c (''in '' @ [CHR 0x5C] @ ''u hexadecimal character escape'')))"

definition stateInStringEscU12 :: "scanner \<Rightarrow> byte \<Rightarrow> scan_result" where
  "stateInStringEscU12 s c =
     (if 0x30 \<le> c \<and> c \<le> 0x39 \<or> 0x61 \<le> c \<and> c \<le> 0x66 \<or> 0x41 \<le> c \<and> c \<le> 0x46
      then Some (s\<lparr>step := InStringEscU123\<rparr>, scanContinue)
      else Some (scan_error s c (''in '' @ [CHR 0x5C] @ ''u hexadecimal character escape'')))"

definition stateInStringEscU123 :: "scanner \<Rightarrow> byte \<Rightarrow> scan_result" where
  "stateInStringEscU123 s c =
     (if 0x30 \<le> c \<and> c \<le> 0x39 \<or> 0x61 \<le> c \<and> c \<le> 0x66 \<or> 0x41 \<le> c \<and> c \<le> 0x46
      then Some (s\<lparr>step := InString\<rparr>, scanContinue)
      else Some (scan_error s c (''in '' @ [CHR 0x5C] @ ''u hexadecimal character escape'')))"

definition state0 :: "scanner \<Rightarrow> byte \<Rightarrow> scan_result" where
  "state0 s c =
     (if c = 0x2E then Some (s\<lparr>step := Dot\<rparr>, scanContinue)
      else if c = 0x65 \<or> c = 0x45 then Some (s\<lparr>step := StateE\<rparr>, scanContinue)
      else stateEndValue s c)"

definition state1 :: "scanner \<Rightarrow> byte \<Rightarrow> scan_result" where
  "state1 s c =
     (if 0x30 \<le> c \<and> c \<le> 0x39 then Some (s\<lparr>step := State1\<rparr>, scanContinue)
      else state0 s c)"

definition stateNeg :: "scanner \<Rightarrow> byte \<Rightarrow> scan_result" where
  "stateNeg s c =
     (if c = 0x30 then Some (s\<lparr>step := State0\<rparr>, scanContinue)
      else if 0x31 \<le> c \<and> c \<le> 0x39 then Some (s\<lparr>step := State1\<rparr>, scanContinue)
      else Some (scan_error s c ''in numeric literal''))"

definition stateDot :: "scanner \<Rightarrow> byte \<Rightarrow> scan_result" where
  "stateDot s c =
     (if 0x30 \<le> c \<and> c \<le> 0x39 then Some (s\<lparr>step := Dot0\<rparr>, scanContinue)
      else Some (scan_error s c ''after decimal point in numeric literal''))"

definition stateDot0 :: "scanner \<Rightarrow> byte \<Rightarrow> scan_result" where
  "stateDot0 s c =
     (if 0x30 \<le> c \<and> c \<le> 0x39 then Some (s, scanContinue)
      else if c = 0x65 \<or> c = 0x45 then Some (s\<lparr>step := StateE\<rparr>, scanContinue)
      else stateEndValue s c)"

definition stateESign :: "scanner \<Rightarrow> byte \<Rightarrow> scan_result" where
  "stateESign s c =
     (if 0x30 \<le> c \<and> c \<le> 0x39 then Some (s\<lparr>step := E0\<rparr>, scanContinue)
      else Some (scan_error s c ''in exponent of numeric literal''))"

definition stateE :: "scanner \<Rightarrow> byte \<Rightarrow> scan_result" where
  "stateE s c =
     (if c = 0x2B \<or> c = 0x2D then Some (s\<lparr>step := ESign\<rparr>, scanContinue)
      else stateESign s c)"

definition stateE0 :: "scanner \<Rightarrow> byte \<Rightarrow> scan_result" where
  "stateE0 s c =
     (if 0x30 \<le> c \<and> c \<le> 0x39 then Some (s, scanContinue)
      else stateEndValue s c)"

definition stateT :: "scanner \<Rightarrow> byte \<Rightarrow> scan_result" where
  "stateT s c =
     (if c = 0x72 then Some (s\<lparr>step := StTr\<rparr>, scanContinue)
      else Some (scan_error s c (''in literal true (expecting '' @ [CHR 0x27, CHR ''r'', CHR 0x27] @ '')'')))"

definition stateTr :: "scanner \<Rightarrow> byte \<Rightarrow> scan_result" where
  "stateTr s c =
     (if c = 0x75 then Some (s\<lparr>step := StTru\<rparr>, scanContinue)
      else Some (scan_error s c (''in literal true (expecting '' @ [CHR 0x27, CHR ''u'', CHR 0x27] @ '')'')))"

definition stateTru :: "scanner \<Rightarrow> byte \<Rightarrow> scan_result" where
  "stateTru s c =
     (if c = 0x65 then Some (s\<lparr>step := EndValue\<rparr>, scanContinue)
      else Some (scan_error s c (''in literal true (expecting '' @ [CHR 0x27, CHR ''e'', CHR 0x27] @ '')'')))"

definition stateF :: "scanner \<Rightarrow> byte \<Rightarrow> scan_result" where
  "stateF s c =
     (if c = 0x61 then Some (s\<lparr>step := StFa\<rparr>, scanContinue)
      else Some (scan_error s c (''in literal false (expecting '' @ [CHR 0x27, CHR ''a'', CHR 0x27] @ '')'')))"

definition stateFa :: "scanner \<Rightarrow> byte \<Rightarrow> scan_result" where
  "stateFa s c =
     (if c = 0x6C then Some (s\<lparr>step := StFal\<rparr>, scanContinue)
      else Some (scan_error s c (''in literal false (expecting '' @ [CHR 0x27, CHR ''l'', CHR 0x27] @ '')'')))"

definition stateFal :: "scanner \<Rightarrow> byte \<Rightarrow> scan_result" where
  "stateFal s c =
     (if c = 0x73 then Some (s\<lparr>step := StFals\<rparr>, scanContinue)
      else Some (scan_error s c (''in literal false (expecting '' @ [CHR 0x27, CHR ''s'', CHR 0x27] @ '')'')))"

definition stateFals :: "scanner \<Rightarrow> byte \<Rightarrow> scan_result" where
  "stateFals s c =
     (if c = 0x65 then Some (s\<lparr>step := EndValue\<rparr>, scanContinue)
      else Some (scan_error s c (''in literal false (expecting '' @ [CHR 0x27, CHR ''e'', CHR 0x27] @ '')'')))"

definition stateN :: "scanner \<Rightarrow> byte \<Rightarrow> scan_result" where
  "stateN s c =
     (if c = 0x75 then Some (s\<lparr>step := StNu\<rparr>, scanContinue)
      else Some (scan_error s c (''in literal null (expecting '' @ [CHR 0x27, CHR ''u'', CHR 0x27] @ '')'')))"

definition stateNu :: "scanner \<Rightarrow> byte \<Rightarrow> scan_result" where
  "stateNu s c =
     (if c = 0x6C then Some (s\<lparr>step := StNul\<rparr>, scanContinue)
      else Some (scan_error s c (''in literal null (expecting '' @ [CHR 0x27, CHR ''l'', CHR 0x27] @ '')'')))"

definition stateNul :: "scanner \<Rightarrow> byte \<Rightarrow> scan_result" where
  "stateNul s c =
     (if c = 0x6C then Some (s\<lparr>step := EndValue\<rparr>, scanContinue)
      else Some (scan_error s c (''in literal null (expecting '' @ [CHR 0x27, CHR ''l'', CHR 0x27] @ '')'')))"

definition stateError :: "scanner \<Rightarrow> byte \<Rightarrow> scan_result" where
  "stateError s c = Some (s, scanError)"

text \<open>The call \<open>s.step(s, c)\<close>.\<close>

fun scan_step :: "json_step \<Rightarrow> scanner \<Rightarrow> byte \<Rightarrow> scan_result" where
  "scan_step BeginValueOrEmpty s c = stateBeginValueOrEmpty s c"
| "scan_step BeginValue s c = stateBeginValue s c"
| "scan_step BeginStringOrEmpty s c = stateBeginStringOrEmpty s c"
| "scan_step BeginString s c = stateBeginString s c"
| "scan_step EndValue s c = stateEndValue s c"
| "scan_step EndTop s c = stateEndTop s c"
| "scan_step InString s c = stateInString s c"
| "scan_step InStringEsc s c = stateInStringEsc s c"
| "scan_step InStringEscU s c = stateInStringEscU s c"
| "scan_step InStringEscU1 s c = stateInStringEscU1 s c"
| "scan_step InStringEscU12 s c = stateInStringEscU12 s c"
| "scan_step InStringEscU123 s c = stateInStringEscU123 s c"
| "scan_step Neg s c = stateNeg s c"
| "scan_step State1 s c = state1 s c"
| "scan_step State0 s c = state0 s c"
| "scan_step Dot s c = stateDot s c"
| "scan_step Dot0 s c = stateDot0 s c"
| "scan_step StateE s c = stateE s c"
| "scan_step ESign s c = stateESign s c"
| "scan_step E0 s c = stateE0 s c"
| "scan_step StT s c = stateT s c"
| "scan_step StTr s c = stateTr s c"
| "scan_step StTru s c = stateTru s c"
| "scan_step StF s c = stateF s c"
| "scan_step StFa s c = stateFa s c"
| "scan_step StFal s c = stateFal s c"
| "scan_step StFals s c = stateFals s c"
| "scan_step StN s c = stateN s c"
| "scan_step StNu s c = stateNu s c"
| "scan_step StNul s c = stateNul s c"
| "scan_step StError s c = stateError s c"

subsection \<open>End of input and validation\<close>

definition scan_eof :: "scanner \<Rightarrow> scan_result" where
  "scan_eof s =
     (if err s \<noteq> None then Some (s, scanError)
      else if endTop s then Some (s, scanEnd)
      else do {
        (s, _) \<leftarrow> scan_step (step s) s 0x20;
        if endTop s then Some (s, scanEnd)
        else
          let s = (if err s = None then s\<lparr>err := Some \<lparr>msg = UnexpectedEnd, Offset = scan_bytes s\<rparr>\<rparr> else s) in
          Some (s, scanError)
      })"

text \<open>The loop of checkValid; the flag says that it returned early.\<close>

fun checkValid_loop :: "byte list \<Rightarrow> scanner \<Rightarrow> (scanner \<times> bool) option" where
  "checkValid_loop [] scan = Some (scan, False)"
| "checkValid_loop (c # data) scan =
     do {
       let scan = scan\<lparr>scan_bytes := int64 (scan_bytes scan + 1)\<rparr>;
       (scan, op) \<leftarrow> scan_step (step scan) scan c;
       if op = scanError then Some (scan, True) else checkValid_loop data scan
     }"

definition checkValid :: "byte list \<Rightarrow> scanner \<Rightarrow> (SyntaxError option \<times> scanner) option" where
  "checkValid data scan =
     do {
       let scan = scan_reset scan;
       (scan, stop) \<leftarrow> checkValid_loop data scan;
       if stop then Some (err scan, scan)
       else do {
         (scan, op) \<leftarrow> scan_eof scan;
         if op = scanError then Some (err scan, scan) else Some (None, scan)
       }
     }"

text \<open>The result together with the scanner that goes back to the pool.\<close>

definition json_Valid :: "scanner \<Rightarrow> byte list \<Rightarrow> (bool \<times> scanner) option" where
  "json_Valid pooled data =
     do {
       let scan = newScanner pooled;
       (e, scan) \<leftarrow> checkValid data scan;
       Some (e = None, freeScanner scan)
     }"

end
