(* ===== verification/Json_Machine.thy ===== *)
theory Json_Machine
  imports Json_Scanner
begin

text \<open>
  The scanner as a deterministic pushdown automaton: the state function and the parse stack (top first) without the
  bookkeeping, \<^const>\<open>None\<close> for a syntax error. \<open>sim\<close> relates the two, and \<open>json_accepts\<close> is what validation
  decides. No reachable scanner panics.
\<close>

definition dec_digit :: "byte \<Rightarrow> bool" where "dec_digit c \<longleftrightarrow> 0x30 \<le> c \<and> c \<le> 0x39"
definition pos_digit :: "byte \<Rightarrow> bool" where "pos_digit c \<longleftrightarrow> 0x31 \<le> c \<and> c \<le> 0x39"
definition hex_digit :: "byte \<Rightarrow> bool" where
  "hex_digit c \<longleftrightarrow> 0x30 \<le> c \<and> c \<le> 0x39 \<or> 0x61 \<le> c \<and> c \<le> 0x66 \<or> 0x41 \<le> c \<and> c \<le> 0x46"
definition escapable :: "byte \<Rightarrow> bool" where "escapable c \<longleftrightarrow> c \<in> {0x62, 0x66, 0x6E, 0x72, 0x74, 0x5C, 0x2F, 0x22}"

subsection \<open>The automaton\<close>

definition popped :: "parse_state list \<Rightarrow> json_step \<times> parse_state list" where
  "popped st = (if st = [] then EndTop else EndValue, st)"

fun delta_end :: "parse_state list \<Rightarrow> byte \<Rightarrow> (json_step \<times> parse_state list) option" where
  "delta_end [] c = (if isSpace c then Some (EndTop, []) else None)"
| "delta_end (p # st) c =
     (if isSpace c then Some (EndValue, p # st)
      else case p of
        parseObjectKey \<Rightarrow> if c = 0x3A then Some (BeginValue, parseObjectValue # st) else None
      | parseObjectValue \<Rightarrow>
          if c = 0x2C then Some (BeginString, parseObjectKey # st) else if c = 0x7D then Some (popped st) else None
      | parseArrayValue \<Rightarrow>
          if c = 0x2C then Some (BeginValue, parseArrayValue # st) else if c = 0x5D then Some (popped st) else None)"

definition delta_push :: "json_step \<Rightarrow> parse_state \<Rightarrow> parse_state list \<Rightarrow> (json_step \<times> parse_state list) option" where
  "delta_push q p st = (if length st < 10000 then Some (q, p # st) else None)"

definition delta_value :: "parse_state list \<Rightarrow> byte \<Rightarrow> (json_step \<times> parse_state list) option" where
  "delta_value st c =
     (if isSpace c then Some (BeginValue, st)
      else if c = 0x7B then delta_push BeginStringOrEmpty parseObjectKey st
      else if c = 0x5B then delta_push BeginValueOrEmpty parseArrayValue st
      else if c = 0x22 then Some (InString, st)
      else if c = 0x2D then Some (Neg, st)
      else if c = 0x30 then Some (State0, st)
      else if c = 0x74 then Some (StT, st)
      else if c = 0x66 then Some (StF, st)
      else if c = 0x6E then Some (StN, st)
      else if pos_digit c then Some (State1, st)
      else None)"

definition on :: "bool \<Rightarrow> json_step \<Rightarrow> parse_state list \<Rightarrow> (json_step \<times> parse_state list) option" where
  "on b q st = (if b then Some (q, st) else None)"

fun delta :: "json_step \<Rightarrow> parse_state list \<Rightarrow> byte \<Rightarrow> (json_step \<times> parse_state list) option" where
  "delta BeginValueOrEmpty st c =
     (if isSpace c then Some (BeginValueOrEmpty, st) else if c = 0x5D then delta_end st c else delta_value st c)"
| "delta BeginValue st c = delta_value st c"
| "delta BeginStringOrEmpty st c =
     (if isSpace c then Some (BeginStringOrEmpty, st)
      else if c = 0x7D then delta_end (parseObjectValue # tl st) c
      else on (c = 0x22) InString st)"
| "delta BeginString st c = (if isSpace c then Some (BeginString, st) else on (c = 0x22) InString st)"
| "delta EndValue st c = delta_end st c"
| "delta EndTop st c = on (isSpace c) EndTop st"
| "delta InString st c =
     (if c = 0x22 then Some (EndValue, st) else if c = 0x5C then Some (InStringEsc, st) else if c < 0x20 then None else Some (InString, st))"
| "delta InStringEsc st c = (if escapable c then Some (InString, st) else on (c = 0x75) InStringEscU st)"
| "delta InStringEscU st c = on (hex_digit c) InStringEscU1 st"
| "delta InStringEscU1 st c = on (hex_digit c) InStringEscU12 st"
| "delta InStringEscU12 st c = on (hex_digit c) InStringEscU123 st"
| "delta InStringEscU123 st c = on (hex_digit c) InString st"
| "delta Neg st c = (if c = 0x30 then Some (State0, st) else on (pos_digit c) State1 st)"
| "delta State1 st c =
     (if dec_digit c then Some (State1, st) else if c = 0x2E then Some (Dot, st)
      else if c = 0x65 \<or> c = 0x45 then Some (StateE, st) else delta_end st c)"
| "delta State0 st c =
     (if c = 0x2E then Some (Dot, st) else if c = 0x65 \<or> c = 0x45 then Some (StateE, st) else delta_end st c)"
| "delta Dot st c = on (dec_digit c) Dot0 st"
| "delta Dot0 st c = (if dec_digit c then Some (Dot0, st) else if c = 0x65 \<or> c = 0x45 then Some (StateE, st) else delta_end st c)"
| "delta StateE st c = (if c = 0x2B \<or> c = 0x2D then Some (ESign, st) else on (dec_digit c) E0 st)"
| "delta ESign st c = on (dec_digit c) E0 st"
| "delta E0 st c = (if dec_digit c then Some (E0, st) else delta_end st c)"
| "delta StT st c = on (c = 0x72) StTr st"
| "delta StTr st c = on (c = 0x75) StTru st"
| "delta StTru st c = on (c = 0x65) EndValue st"
| "delta StF st c = on (c = 0x61) StFa st"
| "delta StFa st c = on (c = 0x6C) StFal st"
| "delta StFal st c = on (c = 0x73) StFals st"
| "delta StFals st c = on (c = 0x65) EndValue st"
| "delta StN st c = on (c = 0x75) StNu st"
| "delta StNu st c = on (c = 0x6C) StNul st"
| "delta StNul st c = on (c = 0x6C) EndValue st"
| "delta StError st c = None"

text \<open>At the end of the input a complete value must have been read; a number may end there.\<close>

definition final :: "json_step \<Rightarrow> parse_state list \<Rightarrow> bool" where
  "final q st \<longleftrightarrow> q = EndTop \<or> st = [] \<and> q \<in> {EndValue, State0, State1, Dot0, E0}"

fun json_accepts :: "json_step \<Rightarrow> parse_state list \<Rightarrow> byte list \<Rightarrow> bool" where
  "json_accepts q st [] = final q st"
| "json_accepts q st (c # s) = (case delta q st c of None \<Rightarrow> False | Some (q', st') \<Rightarrow> json_accepts q' st' s)"

subsection \<open>The scanner simulates the automaton\<close>

definition well_stacked :: "json_step \<Rightarrow> parse_state list \<Rightarrow> bool" where
  "well_stacked q st \<longleftrightarrow> (q = BeginStringOrEmpty \<longrightarrow> st \<noteq> []) \<and> (q = BeginValueOrEmpty \<longrightarrow> st \<noteq> []) \<and> (q = EndTop \<longrightarrow> st = [])
     \<and> q \<noteq> StError \<and> length st \<le> 10000"

definition sim :: "scanner \<Rightarrow> json_step \<Rightarrow> parse_state list \<Rightarrow> bool" where
  "sim s q st \<longleftrightarrow> step s = q \<and> parseState s = rev st \<and> err s = None \<and> (endTop s \<longleftrightarrow> q = EndTop) \<and> well_stacked q st"

definition failed :: "scanner \<Rightarrow> bool" where
  "failed s \<longleftrightarrow> step s = StError \<and> err s \<noteq> None"

text \<open>What a transition function has to do in a state the automaton is in.\<close>

definition follows :: "scan_result \<Rightarrow> (json_step \<times> parse_state list) option \<Rightarrow> bool" where
  "follows r d \<longleftrightarrow>
     (case d of
        Some (q, st) \<Rightarrow> \<exists>s op. r = Some (s, op) \<and> op \<noteq> scanError \<and> sim s q st
      | None \<Rightarrow> \<exists>s op. r = Some (s, op) \<and> failed s)"

lemma idx_snoc [simp]: "idx (xs @ [x]) (int (length xs)) = Some x"
  by (simp add: idx_def)

lemma upd_snoc [simp]: "upd (xs @ [x]) (int (length xs)) y = Some (xs @ [y])"
  by (simp add: upd_def)

lemma scan_error_failed: "failed (fst (scan_error s c x))" "snd (scan_error s c x) = scanError"
  by (simp_all add: scan_error_def failed_def)

lemma follows_error: "follows (Some (scan_error s c x)) None"
  using scan_error_failed [of s c x] by (cases "scan_error s c x") (auto simp: follows_def)

lemma follows_Some: "sim s q st \<Longrightarrow> op \<noteq> scanError \<Longrightarrow> follows (Some (s, op)) (Some (q, st))"
  by (simp add: follows_def)

lemma popParseState_sim:
  assumes "parseState s = rev (p # st)" "err s = None" "\<not> endTop s" "length st < 10000"
  shows "\<exists>s'. popParseState s = Some s' \<and> sim s' (fst (popped st)) (snd (popped st))"
  using assms by (auto simp: popParseState_def Let_def sim_def popped_def well_stacked_def)

lemma stateEndValue_snoc:
  assumes "parseState s = xs @ [p]"
  shows "stateEndValue s c =
    (if isSpace c then Some (s\<lparr>step := EndValue\<rparr>, scanSkipSpace)
     else case p of
       parseObjectKey \<Rightarrow>
         if c = 0x3A then Some (s\<lparr>parseState := xs @ [parseObjectValue], step := BeginValue\<rparr>, scanObjectKey)
         else Some (scan_error s c ''after object key'')
     | parseObjectValue \<Rightarrow>
         if c = 0x2C then Some (s\<lparr>parseState := xs @ [parseObjectKey], step := BeginString\<rparr>, scanObjectValue)
         else if c = 0x7D then do { s \<leftarrow> popParseState s; Some (s, scanEndObject) }
         else Some (scan_error s c ''after object key:value pair'')
     | parseArrayValue \<Rightarrow>
         if c = 0x2C then Some (s\<lparr>step := BeginValue\<rparr>, scanArrayValue)
         else if c = 0x5D then do { s \<leftarrow> popParseState s; Some (s, scanEndArray) }
         else Some (scan_error s c ''after array element''))"
proof -
  have n: "int (length (xs @ [p])) - 1 = int (length xs)" "(int (length (xs @ [p])) = 0) = False" by simp_all
  show ?thesis
    unfolding stateEndValue_def Let_def assms n if_False idx_snoc upd_snoc by (cases p) simp_all
qed

lemma stateEndValue_follows:
  assumes "parseState s = rev st" "err s = None" "\<not> endTop s" "length st \<le> 10000"
  shows "follows (stateEndValue s c) (delta_end st c)"
proof (cases st)
  case Nil
  then show ?thesis using assms
    by (auto simp: stateEndValue_def stateEndTop_def follows_def sim_def well_stacked_def scan_error_failed)
next
  case (Cons p st')
  obtain s' where pop: "popParseState s = Some s'" "sim s' (fst (popped st')) (snd (popped st'))"
    using popParseState_sim [of s p st'] assms Cons by auto
  have p: "follows (Some (s', op)) (Some (popped st'))" if "op \<noteq> scanError" for op
    using follows_Some [OF pop(2) that] by simp
  have ps: "parseState s = rev st' @ [p]" using assms(1) Cons by simp
  have sim: "sim (s\<lparr>step := EndValue\<rparr>) EndValue (p # st')" "sim (s\<lparr>step := BeginValue\<rparr>) BeginValue (p # st')"
    "sim (s\<lparr>parseState := rev st' @ [p'], step := BeginValue\<rparr>) BeginValue (p' # st')"
    "sim (s\<lparr>parseState := rev st' @ [p'], step := BeginString\<rparr>) BeginString (p' # st')" for p'
    using assms Cons ps by (simp_all add: sim_def well_stacked_def)
  show ?thesis
    unfolding stateEndValue_snoc [OF ps] Cons
    using sim(1,2) by (cases p) (simp_all add: follows_error follows_Some sim(3,4) pop(1) p)
qed

lemma pushParseState_follows:
  assumes "parseState s = rev st" "err s = None" "\<not> endTop s" "step s = q" "q \<notin> {EndTop, StError}" "op \<noteq> scanError"
  shows "follows (Some (pushParseState s c p op)) (delta_push q p st)"
  using assms by (auto simp: pushParseState_def delta_push_def maxNestingDepth_def Let_def follows_error
      intro!: follows_Some simp: sim_def well_stacked_def)

lemma stateBeginValue_follows:
  assumes "sim s q st" "q = BeginValue \<or> q = BeginValueOrEmpty \<and> \<not> isSpace c"
  shows "follows (stateBeginValue s c) (delta_value st c)"
proof -
  have "sim (s\<lparr>step := q'\<rparr>) q' st" if "q' \<in> {InString, Neg, State0, State1, StT, StF, StN}" for q'
    using assms that by (auto simp: sim_def well_stacked_def)
  moreover have "follows (Some (pushParseState (s\<lparr>step := q'\<rparr>) c p op)) (delta_push q' p st)"
    if "q' \<in> {BeginStringOrEmpty, BeginValueOrEmpty}" "op \<noteq> scanError" for q' p op
    by (rule pushParseState_follows) (use assms that in \<open>auto simp: sim_def\<close>)
  ultimately show ?thesis
    using assms by (auto simp: stateBeginValue_def delta_value_def follows_error pos_digit_def intro: follows_Some)
qed

lemma follows_if:
  "(b \<Longrightarrow> follows r d) \<Longrightarrow> (\<not> b \<Longrightarrow> follows r' d') \<Longrightarrow> follows (if b then r else r') (if b then d else d')"
  by simp

lemma follows_on:
  "(b \<Longrightarrow> follows r (Some (q, st))) \<Longrightarrow> (\<not> b \<Longrightarrow> follows r' None) \<Longrightarrow> follows (if b then r else r') (on b q st)"
  by (simp add: on_def)

lemma follows_step:
  "sim s q st \<Longrightarrow> q \<noteq> EndTop \<Longrightarrow> q' \<notin> {EndTop, StError, BeginStringOrEmpty, BeginValueOrEmpty} \<Longrightarrow> op \<noteq> scanError \<Longrightarrow>
   follows (Some (s\<lparr>step := q'\<rparr>, op)) (Some (q', st))"
  by (rule follows_Some) (auto simp: sim_def well_stacked_def)

lemmas step_defs = stateInString_def stateInStringEsc_def stateInStringEscU_def stateInStringEscU1_def stateInStringEscU12_def
  stateInStringEscU123_def state0_def state1_def stateNeg_def stateDot_def stateDot0_def stateESign_def stateE_def stateE0_def
  stateT_def stateTr_def stateTru_def stateF_def stateFa_def stateFal_def stateFals_def stateN_def stateNu_def stateNul_def
  stateBeginString_def dec_digit_def pos_digit_def hex_digit_def escapable_def

lemma scan_step_follows:
  assumes "sim s q st"
  shows "follows (scan_step (step s) s c) (delta q st c)"
proof -
  have s: "step s = q" "parseState s = rev st" "err s = None" "endTop s \<longleftrightarrow> q = EndTop" "well_stacked q st" "length st \<le> 10000"
    using assms by (auto simp: sim_def well_stacked_def)
  have E: "follows (stateEndValue s c) (delta_end st c)" if "q \<noteq> EndTop"
    by (rule stateEndValue_follows) (use s that in auto)
  have V: "follows (stateBeginValue s c) (delta_value st c)" if "q = BeginValue \<or> q = BeginValueOrEmpty \<and> \<not> isSpace c"
    by (rule stateBeginValue_follows [OF assms that])
  have same: "follows (Some (s, op)) (Some (q, st))" if "op \<noteq> scanError" for op
    using assms that by (rule follows_Some)
  note leaf = follows_if follows_on follows_error E follows_step [OF assms]
  show ?thesis
    unfolding s(1)
  proof (cases q)
    case BeginStringOrEmpty
    then obtain p st' where st: "st = p # st'" using s(5) by (cases st) (auto simp: well_stacked_def)
    have n: "int (length (rev st)) - 1 = int (length (rev st'))" "rev st = rev st' @ [p]" by (simp_all add: st)
    have u: "upd (parseState s) (int (length (parseState s)) - 1) parseObjectValue = Some (rev st' @ [parseObjectValue])"
      unfolding s(2) n(1) unfolding n(2) upd_snoc ..
    have "follows (stateEndValue (s\<lparr>parseState := rev st' @ [parseObjectValue]\<rparr>) c) (delta_end (parseObjectValue # st') c)"
      by (rule stateEndValue_follows) (use s BeginStringOrEmpty st in auto)
    then show "follows (scan_step q s c) (delta q st c)"
      using BeginStringOrEmpty same [of scanSkipSpace] follows_step [OF assms, of InString] u
      by (auto simp: stateBeginStringOrEmpty_def stateBeginString_def on_def st Let_def follows_error)
  next
    case EndTop
    then show "follows (scan_step q s c) (delta q st c)"
      using same by (auto simp: stateEndTop_def on_def follows_def scan_error_failed Let_def)
  next
    case BeginValueOrEmpty
    then show "follows (scan_step q s c) (delta q st c)"
      using same V E by (auto simp: stateBeginValueOrEmpty_def)
  next
    case StError
    then show "follows (scan_step q s c) (delta q st c)" using s(5) by (simp add: well_stacked_def)
  qed (use V E same in \<open>simp_all only: scan_step.simps delta.simps step_defs simp_thms\<close>,
      (rule leaf | assumption | simp)+)
qed

subsection \<open>Validation decides acceptance\<close>

text \<open>The rest of checkValid, from any scanner on.\<close>

definition validate_from :: "byte list \<Rightarrow> scanner \<Rightarrow> (SyntaxError option \<times> scanner) option" where
  "validate_from data scan =
     do {
       (scan, stop) \<leftarrow> checkValid_loop data scan;
       if stop then Some (err scan, scan)
       else do {
         (scan, op) \<leftarrow> scan_eof scan;
         if op = scanError then Some (err scan, scan) else Some (None, scan)
       }
     }"

lemma validate_from_Cons:
  "validate_from (c # data) s =
     do {
       (s, op) \<leftarrow> scan_step (step s) (s\<lparr>scan_bytes := int64 (scan_bytes s + 1)\<rparr>) c;
       if op = scanError then Some (err s, s) else validate_from data s
     }"
  by (cases "scan_step (step s) (s\<lparr>scan_bytes := int64 (scan_bytes s + 1)\<rparr>) c") (auto simp: validate_from_def Let_def)

lemma validate_from_failed:
  assumes "failed s"
  shows "\<exists>e s'. validate_from data s = Some (Some e, s')"
proof (cases data)
  case Nil
  then show ?thesis using assms by (auto simp: validate_from_def scan_eof_def failed_def)
next
  case (Cons c data')
  then show ?thesis using assms by (auto simp: validate_from_Cons failed_def stateError_def)
qed

lemma isSpace_blank [simp]: "isSpace 0x20" by (simp add: isSpace_def)

lemma final_iff:
  assumes "q \<noteq> EndTop" "well_stacked q st"
  shows "final q st \<longleftrightarrow> (\<exists>st'. delta q st 0x20 = Some (EndTop, st'))"
  using assms by (cases q; cases st) (auto simp: final_def delta_value_def on_def dec_digit_def well_stacked_def split: parse_state.splits)

lemma scan_step_space:
  assumes "scan_step (step s) s 0x20 = Some (s', op)" "delta (step s) (rev (parseState s)) 0x20 = None" "step s \<noteq> EndTop" "\<not> endTop s"
  shows "\<not> endTop s'"
  using assms
  by (cases "step s"; cases "parseState s" rule: rev_cases)
    (auto simp: step_defs stateError_def stateBeginValue_def stateBeginValueOrEmpty_def stateBeginStringOrEmpty_def scan_error_def delta_value_def on_def
      stateEndValue_def stateEndTop_def Let_def)

lemma validate_from_sim:
  assumes "sim s q st"
  shows "\<exists>e s'. validate_from data s = Some (e, s') \<and> (e = None \<longleftrightarrow> json_accepts q st data)"
  using assms
proof (induction data arbitrary: s q st)
  case Nil
  then have q: "step s = q" "rev (parseState s) = st" "endTop s \<longleftrightarrow> q = EndTop" "err s = None" "well_stacked q st" by (auto simp: sim_def)
  show ?case
  proof (cases "q = EndTop")
    case True
    then show ?thesis using q by (simp add: validate_from_def scan_eof_def final_def)
  next
    case False
    have F: "follows (scan_step q s 0x20) (delta q st 0x20)" using scan_step_follows [OF Nil, of "0x20"] q(1) by simp
    show ?thesis
    proof (cases "delta q st 0x20")
      case None
      then obtain s' op where s': "scan_step q s 0x20 = Some (s', op)" "failed s'" using F by (auto simp: follows_def)
      have "\<not> endTop s'" using scan_step_space [of s s' op] s'(1) None q False by simp
      moreover have "\<not> final q st" using final_iff [OF False q(5)] None by simp
      ultimately show ?thesis using s' q False by (auto simp: validate_from_def scan_eof_def failed_def Let_def)
    next
      case (Some p)
      then obtain q' st' where p: "delta q st 0x20 = Some (q', st')" by (cases p) auto
      then obtain s' op where s': "scan_step q s 0x20 = Some (s', op)" "sim s' q' st'" using F by (auto simp: follows_def)
      have "final q st \<longleftrightarrow> endTop s'" using final_iff [OF False q(5)] p s'(2) by (auto simp: sim_def)
      then show ?thesis using s' q False by (auto simp: validate_from_def scan_eof_def sim_def Let_def)
    qed
  qed
next
  case (Cons c data)
  let ?s = "s\<lparr>scan_bytes := int64 (scan_bytes s + 1)\<rparr>"
  have "sim ?s q st" using Cons.prems by (simp add: sim_def)
  from scan_step_follows [OF this, of c] have F: "follows (scan_step (step s) ?s c) (delta q st c)" by simp
  show ?case
  proof (cases "delta q st c")
    case None
    then obtain s' op where s': "scan_step (step s) ?s c = Some (s', op)" "failed s'" using F by (auto simp: follows_def)
    then show ?thesis using validate_from_failed [OF s'(2), of data] None by (auto simp: validate_from_Cons failed_def)
  next
    case (Some p)
    then obtain q' st' where p: "delta q st c = Some (q', st')" by (cases p) auto
    then obtain s' op where s': "scan_step (step s) ?s c = Some (s', op)" "op \<noteq> scanError" "sim s' q' st'" using F by (auto simp: follows_def)
    then show ?thesis using Cons.IH [OF s'(3)] p by (auto simp: validate_from_Cons)
  qed
qed

lemma json_Valid_accepts: "\<exists>scan. json_Valid pooled data = Some (json_accepts BeginValue [] data, scan)"
proof -
  let ?s = "scan_reset (newScanner pooled)"
  have "sim ?s BeginValue []" by (simp add: sim_def scan_reset_def well_stacked_def)
  from validate_from_sim [OF this, of data] obtain e s' where
    v: "validate_from data ?s = Some (e, s')" "e = None \<longleftrightarrow> json_accepts BeginValue [] data" by blast
  have "checkValid data (newScanner pooled) = validate_from data ?s" by (simp add: checkValid_def validate_from_def Let_def)
  then show ?thesis using v by (simp add: json_Valid_def Let_def)
qed

end
