(* ===== verification/Json_Grammar.thy ===== *)
theory Json_Grammar
  imports Json_Machine
begin

text \<open>
  The JSON grammar (RFC 8259) over bytes as inductive predicates, with the nesting depth as a bound, and the proof
  that the automaton of the scanner accepts exactly the texts of the grammar.
\<close>

subsection \<open>The grammar\<close>

definition json_ws :: "byte list \<Rightarrow> bool" where
  "json_ws w \<longleftrightarrow> list_all isSpace w"

inductive json_chars :: "byte list \<Rightarrow> bool" where
  chars_empty: "json_chars []"
| chars_plain: "\<not> c < 0x20 \<Longrightarrow> c \<noteq> 0x22 \<Longrightarrow> c \<noteq> 0x5C \<Longrightarrow> json_chars b \<Longrightarrow> json_chars (c # b)"
| chars_escape: "escapable e \<Longrightarrow> json_chars b \<Longrightarrow> json_chars (0x5C # e # b)"
| chars_unicode: "list_all hex_digit [h1, h2, h3, h4] \<Longrightarrow> json_chars b \<Longrightarrow> json_chars (0x5C # 0x75 # h1 # h2 # h3 # h4 # b)"

definition json_string :: "byte list \<Rightarrow> bool" where
  "json_string s \<longleftrightarrow> (\<exists>b. s = 0x22 # b @ [0x22] \<and> json_chars b)"

definition json_exponent :: "byte list \<Rightarrow> bool" where
  "json_exponent e \<longleftrightarrow> e = [] \<or>
     (\<exists>m sgn ds. e = m # sgn @ ds \<and> m \<in> {0x65, 0x45} \<and> sgn \<in> {[], [0x2B], [0x2D]} \<and> ds \<noteq> [] \<and> list_all dec_digit ds)"

definition json_fraction :: "byte list \<Rightarrow> bool" where
  "json_fraction f \<longleftrightarrow> f = [] \<or> (\<exists>ds. f = 0x2E # ds \<and> ds \<noteq> [] \<and> list_all dec_digit ds)"

definition json_integer :: "byte list \<Rightarrow> bool" where
  "json_integer i \<longleftrightarrow> i = [0x30] \<or> (\<exists>d ds. i = d # ds \<and> pos_digit d \<and> list_all dec_digit ds)"

definition json_number :: "byte list \<Rightarrow> bool" where
  "json_number n \<longleftrightarrow>
     (\<exists>sgn i f e. n = sgn @ i @ f @ e \<and> sgn \<in> {[], [0x2D]} \<and> json_integer i \<and> json_fraction f \<and> json_exponent e)"

definition json_literal :: "byte list \<Rightarrow> bool" where
  "json_literal s \<longleftrightarrow> s \<in> {[0x74, 0x72, 0x75, 0x65], [0x66, 0x61, 0x6C, 0x73, 0x65], [0x6E, 0x75, 0x6C, 0x6C]}"

inductive json_value :: "nat \<Rightarrow> byte list \<Rightarrow> bool"
  and json_elements :: "nat \<Rightarrow> byte list \<Rightarrow> bool"
  and json_members :: "nat \<Rightarrow> byte list \<Rightarrow> bool" where
  value_literal: "json_literal v \<Longrightarrow> json_value d v"
| value_string: "json_string v \<Longrightarrow> json_value d v"
| value_number: "json_number v \<Longrightarrow> json_value d v"
| value_empty_array: "json_ws w \<Longrightarrow> json_value (Suc d) (0x5B # w @ [0x5D])"
| value_array: "json_elements d es \<Longrightarrow> json_value (Suc d) (0x5B # es @ [0x5D])"
| value_empty_object: "json_ws w \<Longrightarrow> json_value (Suc d) (0x7B # w @ [0x7D])"
| value_object: "json_members d ms \<Longrightarrow> json_value (Suc d) (0x7B # ms @ [0x7D])"
| elements_last: "json_ws w1 \<Longrightarrow> json_value d v \<Longrightarrow> json_ws w2 \<Longrightarrow> json_elements d (w1 @ v @ w2)"
| elements_more: "json_ws w1 \<Longrightarrow> json_value d v \<Longrightarrow> json_ws w2 \<Longrightarrow> json_elements d es \<Longrightarrow> json_elements d (w1 @ v @ w2 @ 0x2C # es)"
| members_last: "json_ws w1 \<Longrightarrow> json_string k \<Longrightarrow> json_ws w2 \<Longrightarrow> json_ws w3 \<Longrightarrow> json_value d v \<Longrightarrow> json_ws w4 \<Longrightarrow>
    json_members d (w1 @ k @ w2 @ 0x3A # w3 @ v @ w4)"
| members_more: "json_ws w1 \<Longrightarrow> json_string k \<Longrightarrow> json_ws w2 \<Longrightarrow> json_ws w3 \<Longrightarrow> json_value d v \<Longrightarrow> json_ws w4 \<Longrightarrow>
    json_members d ms \<Longrightarrow> json_members d (w1 @ k @ w2 @ 0x3A # w3 @ v @ w4 @ 0x2C # ms)"

definition json_text :: "byte list \<Rightarrow> bool" where
  "json_text s \<longleftrightarrow> (\<exists>w v w'. s = w @ v @ w' \<and> json_ws w \<and> json_value 10000 v \<and> json_ws w')"

subsection \<open>Prefix languages\<close>

text \<open>The input begins with a word of \<open>L\<close> and the automaton accepts the rest as what may follow a value.\<close>

definition cont :: "(byte list \<Rightarrow> bool) \<Rightarrow> parse_state list \<Rightarrow> byte list \<Rightarrow> bool" where
  "cont L st s \<longleftrightarrow> (\<exists>t r. s = t @ r \<and> L t \<and> json_accepts EndValue st r)"

lemma cont_Nil: "cont L st [] \<longleftrightarrow> L [] \<and> json_accepts EndValue st []"
  by (simp add: cont_def)

lemma cont_Cons: "cont L st (c # s) \<longleftrightarrow> L [] \<and> json_accepts EndValue st (c # s) \<or> cont (\<lambda>t. L (c # t)) st s"
  unfolding cont_def by (auto simp: Cons_eq_append_conv simp del: json_accepts.simps)

lemma cont_conj: "cont (\<lambda>t. b \<and> L t) st s \<longleftrightarrow> b \<and> cont L st s"
  by (auto simp: cont_def)

lemma cont_disj: "cont (\<lambda>t. L t \<or> M t) st s \<longleftrightarrow> cont L st s \<or> cont M st s"
  by (auto simp: cont_def)

lemma cont_empty: "cont (\<lambda>t. t = []) st s \<longleftrightarrow> json_accepts EndValue st s"
  by (simp add: cont_def)

lemma cont_False: "\<not> cont (\<lambda>t. False) st s"
  by (simp add: cont_def)

lemmas cont_simps = cont_Nil cont_Cons cont_conj cont_disj cont_empty cont_False

text \<open>Concatenation of two languages, and its first byte.\<close>

definition seq :: "(byte list \<Rightarrow> bool) \<Rightarrow> (byte list \<Rightarrow> bool) \<Rightarrow> byte list \<Rightarrow> bool" where
  "seq L M s \<longleftrightarrow> (\<exists>u v. s = u @ v \<and> L u \<and> M v)"

lemma seq_simps:
  "seq L M [] \<longleftrightarrow> L [] \<and> M []"
  "seq L M (c # t) \<longleftrightarrow> L [] \<and> M (c # t) \<or> seq (\<lambda>u. L (c # u)) M t"
  "seq (\<lambda>u. b \<and> L u) M t \<longleftrightarrow> b \<and> seq L M t"
  "seq (\<lambda>u. L u \<or> L' u) M t \<longleftrightarrow> seq L M t \<or> seq L' M t"
  "seq (\<lambda>u. u = []) M t \<longleftrightarrow> M t"
  "\<not> seq (\<lambda>u. False) M t"
  by (auto simp: seq_def Cons_eq_append_conv)

text \<open>The words that complete a literal from each state inside one.\<close>

definition string_tail :: "byte list \<Rightarrow> bool" where
  "string_tail t \<longleftrightarrow> (\<exists>b. t = b @ [0x22] \<and> json_chars b)"

definition hex_tail :: "nat \<Rightarrow> byte list \<Rightarrow> bool" where
  "hex_tail n t \<longleftrightarrow> n \<le> length t \<and> list_all hex_digit (take n t) \<and> string_tail (drop n t)"

fun lang :: "json_step \<Rightarrow> byte list \<Rightarrow> bool" where
  "lang InString t = string_tail t"
| "lang InStringEsc t = (t \<noteq> [] \<and> (escapable (hd t) \<and> string_tail (tl t) \<or> hd t = 0x75 \<and> hex_tail 4 (tl t)))"
| "lang InStringEscU t = hex_tail 4 t"
| "lang InStringEscU1 t = hex_tail 3 t"
| "lang InStringEscU12 t = hex_tail 2 t"
| "lang InStringEscU123 t = hex_tail 1 t"
| "lang E0 t = list_all dec_digit t"
| "lang ESign t = (t \<noteq> [] \<and> list_all dec_digit t)"
| "lang StateE t = seq (\<lambda>sgn. sgn \<in> {[], [0x2B], [0x2D]}) (\<lambda>ds. ds \<noteq> [] \<and> list_all dec_digit ds) t"
| "lang Dot0 t = seq (list_all dec_digit) json_exponent t"
| "lang Dot t = seq (\<lambda>ds. ds \<noteq> [] \<and> list_all dec_digit ds) json_exponent t"
| "lang State0 t = seq json_fraction json_exponent t"
| "lang State1 t = seq (list_all dec_digit) (seq json_fraction json_exponent) t"
| "lang Neg t = seq json_integer (seq json_fraction json_exponent) t"
| "lang StT t = (t = [0x72, 0x75, 0x65])" | "lang StTr t = (t = [0x75, 0x65])" | "lang StTru t = (t = [0x65])"
| "lang StF t = (t = [0x61, 0x6C, 0x73, 0x65])" | "lang StFa t = (t = [0x6C, 0x73, 0x65])" | "lang StFal t = (t = [0x73, 0x65])"
| "lang StFals t = (t = [0x65])"
| "lang StN t = (t = [0x75, 0x6C, 0x6C])" | "lang StNu t = (t = [0x6C, 0x6C])" | "lang StNul t = (t = [0x6C])"
| "lang _ t = False"

definition inside_literal :: "json_step \<Rightarrow> bool" where
  "inside_literal q \<longleftrightarrow> q \<notin> {BeginValueOrEmpty, BeginValue, BeginStringOrEmpty, BeginString, EndValue, EndTop, StError}"

text \<open>Every state language, one byte on: the states the automaton can go to.\<close>

lemma hex_tail_simps:
  "hex_tail 0 t = string_tail t" "hex_tail (Suc n) [] = False" "hex_tail (Suc n) (c # t) \<longleftrightarrow> hex_digit c \<and> hex_tail n t"
  by (auto simp: hex_tail_def)

lemma string_tail_simps:
  "string_tail [] = False"
  "string_tail (c # t) \<longleftrightarrow> c = 0x22 \<and> t = [] \<or> \<not> c < 0x20 \<and> c \<noteq> 0x22 \<and> c \<noteq> 0x5C \<and> string_tail t \<or> c = 0x5C \<and> lang InStringEsc t"
proof -
  show "string_tail [] = False" by (simp add: string_tail_def)
  have esc: "lang InStringEsc t \<longleftrightarrow> (\<exists>b. 0x5C # t = b @ [0x22] \<and> json_chars b)"
  proof
    assume "lang InStringEsc t"
    then consider e u where "t = e # u" "escapable e" "string_tail u"
      | h1 h2 h3 h4 u where "t = 0x75 # h1 # h2 # h3 # h4 # u" "list_all hex_digit [h1, h2, h3, h4]" "string_tail u"
      by (cases t) (auto simp: numeral_eq_Suc hex_tail_def Suc_le_length_iff)
    then show "\<exists>b. 0x5C # t = b @ [0x22] \<and> json_chars b"
    proof cases
      case 1
      then obtain b where "u = b @ [0x22]" "json_chars b" by (auto simp: string_tail_def)
      then show ?thesis using 1 chars_escape [of e b] by (intro exI [of _ "0x5C # e # b"]) simp
    next
      case 2
      then obtain b where "u = b @ [0x22]" "json_chars b" by (auto simp: string_tail_def)
      then show ?thesis using 2 chars_unicode [of h1 h2 h3 h4 b] by (intro exI [of _ "0x5C # 0x75 # h1 # h2 # h3 # h4 # b"]) simp
    qed
  next
    assume "\<exists>b. 0x5C # t = b @ [0x22] \<and> json_chars b"
    then obtain b where "0x5C # t = b @ [0x22]" "json_chars b" by blast
    from this(2,1) show "lang InStringEsc t"
    proof (cases rule: json_chars.cases)
      case (chars_escape e b')
      then show ?thesis using \<open>0x5C # t = b @ [0x22]\<close> by (auto simp: string_tail_def)
    next
      case (chars_unicode h1 h2 h3 h4 b')
      then have "t = 0x75 # h1 # h2 # h3 # h4 # (b' @ [0x22])" using \<open>0x5C # t = b @ [0x22]\<close> by simp
      then show ?thesis using chars_unicode by (auto simp: hex_tail_def string_tail_def)
    qed simp_all
  qed
  have "string_tail (c # t) \<longleftrightarrow> c = 0x22 \<and> t = [] \<or> (\<exists>b. t = b @ [0x22] \<and> json_chars (c # b))"
    unfolding string_tail_def by (auto simp: Cons_eq_append_conv intro: chars_empty)
  moreover have "json_chars (c # b) \<longleftrightarrow> \<not> c < 0x20 \<and> c \<noteq> 0x22 \<and> c \<noteq> 0x5C \<and> json_chars b \<or> c = 0x5C \<and> json_chars (0x5C # b)" for b
    by (auto elim: json_chars.cases intro: json_chars.intros)
  moreover have "(\<exists>b. t = b @ [0x22] \<and> json_chars (0x5C # b)) \<longleftrightarrow> lang InStringEsc t"
    unfolding esc by (auto simp: Cons_eq_append_conv)
  ultimately show "string_tail (c # t) \<longleftrightarrow> c = 0x22 \<and> t = [] \<or> \<not> c < 0x20 \<and> c \<noteq> 0x22 \<and> c \<noteq> 0x5C \<and> string_tail t \<or> c = 0x5C \<and> lang InStringEsc t"
    unfolding string_tail_def by metis
qed

lemma digit_not_mark: "dec_digit c \<Longrightarrow> c \<notin> {0x2B, 0x2D, 0x2E, 0x65, 0x45}" "pos_digit c \<Longrightarrow> dec_digit c" "pos_digit c \<Longrightarrow> c \<noteq> 0x30"
  by (auto simp: dec_digit_def pos_digit_def word_le_def)

lemma StateE_Cons: "lang StateE (c # t) \<longleftrightarrow> c \<in> {0x2B, 0x2D} \<and> lang ESign t \<or> dec_digit c \<and> lang E0 t" "\<not> lang StateE []"
  by (auto simp: seq_simps)

lemma exponent_Cons: "json_exponent (c # t) \<longleftrightarrow> c \<in> {0x65, 0x45} \<and> lang StateE t" "json_exponent []"
  by (auto simp: json_exponent_def seq_def)

lemma fraction_Cons: "json_fraction (c # t) \<longleftrightarrow> c = 0x2E \<and> t \<noteq> [] \<and> list_all dec_digit t" "json_fraction []"
  by (auto simp: json_fraction_def)

lemma integer_Cons: "json_integer (c # t) \<longleftrightarrow> c = 0x30 \<and> t = [] \<or> pos_digit c \<and> list_all dec_digit t" "\<not> json_integer []"
  by (auto simp: json_integer_def)

lemma Dot0_Cons: "lang Dot0 (c # t) \<longleftrightarrow> dec_digit c \<and> lang Dot0 t \<or> c \<in> {0x65, 0x45} \<and> lang StateE t" "lang Dot0 []"
  by (auto simp: seq_simps exponent_Cons simp del: lang.simps(9))

lemma Dot_Cons: "lang Dot (c # t) \<longleftrightarrow> dec_digit c \<and> lang Dot0 t" "\<not> lang Dot []"
  by (auto simp: seq_simps)

lemma State0_Cons: "lang State0 (c # t) \<longleftrightarrow> c = 0x2E \<and> lang Dot t \<or> c \<in> {0x65, 0x45} \<and> lang StateE t" "lang State0 []"
  by (auto simp: seq_simps exponent_Cons fraction_Cons simp del: lang.simps(9))

lemma State1_Cons: "lang State1 (c # t) \<longleftrightarrow> dec_digit c \<and> lang State1 t \<or> lang State0 (c # t)" "lang State1 []"
  by (auto simp: seq_simps exponent_Cons fraction_Cons)

lemma Neg_Cons: "lang Neg (c # t) \<longleftrightarrow> c = 0x30 \<and> lang State0 t \<or> pos_digit c \<and> lang State1 t" "\<not> lang Neg []"
  by (auto simp: seq_simps integer_Cons)

lemma json_number_seq: "json_number n \<longleftrightarrow> seq (\<lambda>sgn. sgn = [] \<or> sgn = [0x2D]) (seq json_integer (seq json_fraction json_exponent)) n"
  unfolding json_number_def seq_def by blast

lemma number_Cons: "json_number (c # t) \<longleftrightarrow> c = 0x2D \<and> lang Neg t \<or> lang Neg (c # t)" "\<not> json_number []"
  unfolding json_number_seq by (auto simp: seq_simps integer_Cons)

lemmas lang_Cons = StateE_Cons Dot0_Cons Dot_Cons State0_Cons State1_Cons Neg_Cons string_tail_simps hex_tail_simps

subsection \<open>Literals\<close>

text \<open>What cannot follow a value: the bytes that continue a number.\<close>

lemma delta_end_number: "dec_digit c \<or> c \<in> {0x2E, 0x65, 0x45} \<Longrightarrow> delta_end st c = None"
  by (cases st) (auto simp: isSpace_def dec_digit_def word_le_def split: parse_state.splits)

lemma accepts_EndValue_number: "dec_digit c \<or> c \<in> {0x2E, 0x65, 0x45} \<Longrightarrow> \<not> json_accepts EndValue st (c # s)"
  by (simp add: delta_end_number)

lemma lang_Nil: "inside_literal q \<Longrightarrow> lang q [] \<longleftrightarrow> q \<in> {State0, State1, Dot0, E0}"
  by (cases q) (simp_all add: inside_literal_def lang_Cons hex_tail_def string_tail_simps(1) del: lang.simps(9-14))

text \<open>One byte read inside a literal: the languages follow the automaton.\<close>

lemma lang_string_Cons:
  "lang InString (c # t) \<longleftrightarrow> c = 0x22 \<and> t = [] \<or> \<not> c < 0x20 \<and> c \<noteq> 0x22 \<and> c \<noteq> 0x5C \<and> lang InString t \<or> c = 0x5C \<and> lang InStringEsc t"
  "lang InStringEsc (c # t) \<longleftrightarrow> escapable c \<and> lang InString t \<or> c = 0x75 \<and> lang InStringEscU t"
  "lang InStringEscU (c # t) \<longleftrightarrow> hex_digit c \<and> lang InStringEscU1 t"
  "lang InStringEscU1 (c # t) \<longleftrightarrow> hex_digit c \<and> lang InStringEscU12 t"
  "lang InStringEscU12 (c # t) \<longleftrightarrow> hex_digit c \<and> lang InStringEscU123 t"
  "lang InStringEscU123 (c # t) \<longleftrightarrow> hex_digit c \<and> lang InString t"
  by (auto simp: hex_tail_def numeral_eq_Suc string_tail_simps(2))

lemma lang_word_Cons:
  "lang StT (c # t) \<longleftrightarrow> c = 0x72 \<and> lang StTr t" "lang StTr (c # t) \<longleftrightarrow> c = 0x75 \<and> lang StTru t"
  "lang StTru (c # t) \<longleftrightarrow> c = 0x65 \<and> t = []"
  "lang StF (c # t) \<longleftrightarrow> c = 0x61 \<and> lang StFa t" "lang StFa (c # t) \<longleftrightarrow> c = 0x6C \<and> lang StFal t"
  "lang StFal (c # t) \<longleftrightarrow> c = 0x73 \<and> lang StFals t" "lang StFals (c # t) \<longleftrightarrow> c = 0x65 \<and> t = []"
  "lang StN (c # t) \<longleftrightarrow> c = 0x75 \<and> lang StNu t" "lang StNu (c # t) \<longleftrightarrow> c = 0x6C \<and> lang StNul t"
  "lang StNul (c # t) \<longleftrightarrow> c = 0x6C \<and> t = []"
  "lang E0 (c # t) \<longleftrightarrow> dec_digit c \<and> lang E0 t" "lang ESign (c # t) \<longleftrightarrow> dec_digit c \<and> lang E0 t"
  by auto

lemma State1_Cons': "lang State1 (c # t) \<longleftrightarrow> dec_digit c \<and> lang State1 t \<or> c = 0x2E \<and> lang Dot t \<or> c \<in> {0x65, 0x45} \<and> lang StateE t"
  unfolding State1_Cons(1) State0_Cons(1) ..

lemmas lang_step = lang_string_Cons lang_word_Cons StateE_Cons(1) Dot0_Cons(1) Dot_Cons(1) State0_Cons(1) State1_Cons' Neg_Cons(1)

lemma not_escapable_u: "\<not> escapable 0x75"
  by (simp add: escapable_def)

lemma accepts_literal:
  "inside_literal q \<Longrightarrow> json_accepts q st s \<longleftrightarrow> cont (lang q) st s"
proof (induction s arbitrary: q)
  case Nil
  then show ?case
    by (auto simp: cont_Nil final_def lang_Nil inside_literal_def)
next
  case (Cons c s)
  have IH: "cont (lang q') st s \<longleftrightarrow> json_accepts q' st s" if "inside_literal q'" for q' using Cons.IH that by simp
  have end': "json_accepts EndValue st (c # s) \<longleftrightarrow> \<not> (dec_digit c \<or> c \<in> {0x2E, 0x65, 0x45}) \<and> json_accepts EndValue st (c # s)"
    using accepts_EndValue_number [of c st s] by blast
  have nxt: "json_accepts EndValue st (c # s) = (case delta_end st c of None \<Rightarrow> False | Some (q', st') \<Rightarrow> json_accepts q' st' s)"
    by simp
  show ?case
    unfolding cont_Cons lang_Nil [OF Cons.prems]
    using Cons.prems digit_not_mark [of c] not_escapable_u
    by (cases q) (auto simp: inside_literal_def lang_step cont_conj cont_disj cont_empty IH on_def delta_end_number
      split: if_splits option.splits
      simp del: lang.simps)
qed

subsection \<open>Values\<close>

text \<open>What completes an array or an object after its opening byte.\<close>

definition elements_tail :: "nat \<Rightarrow> byte list \<Rightarrow> bool" where
  "elements_tail d t \<longleftrightarrow> (\<exists>es. t = es @ [0x5D] \<and> json_elements d es)"

definition members_tail :: "nat \<Rightarrow> byte list \<Rightarrow> bool" where
  "members_tail d t \<longleftrightarrow> (\<exists>ms. t = ms @ [0x7D] \<and> json_members d ms)"

definition array_tail :: "nat \<Rightarrow> byte list \<Rightarrow> bool" where
  "array_tail d t \<longleftrightarrow> (\<exists>w. t = w @ [0x5D] \<and> json_ws w) \<or> elements_tail d t"

definition object_tail :: "nat \<Rightarrow> byte list \<Rightarrow> bool" where
  "object_tail d t \<longleftrightarrow> (\<exists>w. t = w @ [0x7D] \<and> json_ws w) \<or> members_tail d t"

lemma string_Cons: "json_string (c # t) \<longleftrightarrow> c = 0x22 \<and> lang InString t" "\<not> json_string []"
  by (auto simp: json_string_def string_tail_def)

lemma literal_Cons:
  "json_literal (c # t) \<longleftrightarrow> c = 0x74 \<and> lang StT t \<or> c = 0x66 \<and> lang StF t \<or> c = 0x6E \<and> lang StN t" "\<not> json_literal []"
  by (auto simp: json_literal_def)

lemma value_Cons:
  "json_value d (c # t) \<longleftrightarrow>
     c = 0x22 \<and> lang InString t \<or> c = 0x2D \<and> lang Neg t \<or> c = 0x30 \<and> lang State0 t \<or> pos_digit c \<and> lang State1 t
     \<or> c = 0x74 \<and> lang StT t \<or> c = 0x66 \<and> lang StF t \<or> c = 0x6E \<and> lang StN t
     \<or> c = 0x5B \<and> (d > 0 \<and> array_tail (d - 1) t) \<or> c = 0x7B \<and> (d > 0 \<and> object_tail (d - 1) t)"
proof -
  have "json_value d (c # t) \<longleftrightarrow> json_literal (c # t) \<or> json_string (c # t) \<or> json_number (c # t)
     \<or> c = 0x5B \<and> (d > 0 \<and> array_tail (d - 1) t) \<or> c = 0x7B \<and> (d > 0 \<and> object_tail (d - 1) t)"
    by (subst json_value.simps) (auto simp: array_tail_def object_tail_def elements_tail_def members_tail_def gr0_conv_Suc)
  then show ?thesis
    unfolding string_Cons literal_Cons number_Cons Neg_Cons by blast
qed

lemma value_Nil: "\<not> json_value d []"
  by (subst json_value.simps) (auto simp: string_Cons literal_Cons number_Cons)

text \<open>White space, then a value, then what may follow it.\<close>

definition cont_value :: "nat \<Rightarrow> parse_state list \<Rightarrow> byte list \<Rightarrow> bool" where
  "cont_value d st s \<longleftrightarrow> (\<exists>w v r. s = w @ v @ r \<and> json_ws w \<and> json_value d v \<and> json_accepts EndValue st r)"

lemma cont_value_Nil: "\<not> cont_value d st []"
  by (simp add: cont_value_def value_Nil)

lemma json_ws_simps: "json_ws []" "json_ws (c # w) \<longleftrightarrow> isSpace c \<and> json_ws w"
  by (simp_all add: json_ws_def)

lemma cont_value_Cons:
  "cont_value d st (c # s) \<longleftrightarrow> isSpace c \<and> cont_value d st s \<or> cont (\<lambda>t. json_value d (c # t)) st s"
proof
  assume "cont_value d st (c # s)"
  then obtain w v r where *: "c # s = w @ v @ r" "json_ws w" "json_value d v" "json_accepts EndValue st r"
    unfolding cont_value_def by blast
  show "isSpace c \<and> cont_value d st s \<or> cont (\<lambda>t. json_value d (c # t)) st s"
  proof (cases w)
    case Nil
    then obtain t where "v = c # t" "s = t @ r" using * value_Nil by (cases v) auto
    then show ?thesis using * unfolding cont_def by blast
  next
    case (Cons b w')
    then show ?thesis using * unfolding cont_value_def by (auto simp: json_ws_simps)
  qed
next
  assume "isSpace c \<and> cont_value d st s \<or> cont (\<lambda>t. json_value d (c # t)) st s"
  then show "cont_value d st (c # s)"
  proof
    assume "isSpace c \<and> cont_value d st s"
    then obtain w v r where "s = w @ v @ r" "json_ws (c # w)" "json_value d v" "json_accepts EndValue st r"
      unfolding cont_value_def by (auto simp: json_ws_simps)
    then show ?thesis unfolding cont_value_def by (intro exI [of _ "c # w"] exI [of _ v] exI [of _ r]) simp
  next
    assume "cont (\<lambda>t. json_value d (c # t)) st s"
    then obtain t r where "s = t @ r" "json_value d (c # t)" "json_accepts EndValue st r" unfolding cont_def by blast
    then show ?thesis unfolding cont_value_def by (intro exI [of _ "[]"] exI [of _ "c # t"] exI [of _ r]) (simp add: json_ws_simps)
  qed
qed

text \<open>After a value: white space, and the byte that the enclosing construct expects.\<close>

lemma accepts_popped: "(case popped st of (q, st') \<Rightarrow> json_accepts q st' r) \<longleftrightarrow> json_accepts EndValue st r"
proof -
  have "json_accepts EndTop [] r = json_accepts EndValue [] r" by (cases r) (auto simp: on_def final_def)
  then show ?thesis by (simp add: popped_def)
qed

lemma accepts_EndTop: "json_accepts EndTop [] r \<longleftrightarrow> json_ws r"
  by (induction r) (auto simp: on_def json_ws_simps final_def)

lemma accepts_EndValue_Nil: "json_accepts EndValue [] r \<longleftrightarrow> json_ws r"
  using accepts_popped [where st = "[]" and r = r] accepts_EndTop [of r] by (simp add: popped_def)

fun after_value :: "parse_state list \<Rightarrow> byte \<Rightarrow> byte list \<Rightarrow> bool" where
  "after_value [] c r = False"
| "after_value (parseObjectKey # st) c r \<longleftrightarrow> c = 0x3A \<and> json_accepts BeginValue (parseObjectValue # st) r"
| "after_value (parseObjectValue # st) c r \<longleftrightarrow>
     c = 0x2C \<and> json_accepts BeginString (parseObjectKey # st) r \<or> c = 0x7D \<and> json_accepts EndValue st r"
| "after_value (parseArrayValue # st) c r \<longleftrightarrow>
     c = 0x2C \<and> json_accepts BeginValue (parseArrayValue # st) r \<or> c = 0x5D \<and> json_accepts EndValue st r"

lemma accepts_EndValue_Cons:
  "json_accepts EndValue (p # st) (c # s) \<longleftrightarrow> (if isSpace c then json_accepts EndValue (p # st) s else after_value (p # st) c s)"
  by (cases p) (auto simp flip: accepts_popped [where st = st and r = s])

lemma after_value_space: "isSpace c \<Longrightarrow> \<not> after_value st c r"
  by (induction st c r rule: after_value.induct) (auto simp: isSpace_def)

lemma ws_split_Cons:
  "(\<exists>w c r. b # s = w @ c # r \<and> json_ws w \<and> P c r) \<longleftrightarrow> P b s \<or> isSpace b \<and> (\<exists>w c r. s = w @ c # r \<and> json_ws w \<and> P c r)"
  (is "?l \<longleftrightarrow> ?r")
proof
  assume ?l
  then obtain w c r where "b # s = w @ c # r" "json_ws w" "P c r" by blast
  then show ?r by (cases w) (auto simp: json_ws_simps)
next
  assume ?r
  then consider "P b s" | w c r where "s = w @ c # r" "json_ws (b # w)" "P c r" by (auto simp: json_ws_simps)
  then show ?l
  proof cases
    case 1
    then show ?thesis by (intro exI [of _ "[]"] exI [of _ b] exI [of _ s]) (simp add: json_ws_simps)
  next
    case 2
    then show ?thesis by (intro exI [of _ "b # w"] exI [of _ c] exI [of _ r]) simp
  qed
qed

lemma accepts_EndValue:
  "json_accepts EndValue (p # st) s \<longleftrightarrow> (\<exists>w c r. s = w @ c # r \<and> json_ws w \<and> after_value (p # st) c r)"
proof (induction s)
  case Nil
  then show ?case by (simp add: final_def)
next
  case (Cons b s)
  then show ?case
    unfolding ws_split_Cons accepts_EndValue_Cons using after_value_space [of b "p # st" s] by simp
qed

text \<open>White space, then a string, then what may follow it: an object key.\<close>

lemma accepts_BeginString:
  "json_accepts BeginString st s \<longleftrightarrow> (\<exists>w k r. s = w @ k @ r \<and> json_ws w \<and> json_string k \<and> json_accepts EndValue st r)"
proof -
  have "json_accepts BeginString st s \<longleftrightarrow> (\<exists>w c u. s = w @ c # u \<and> json_ws w \<and> (c = 0x22 \<and> json_accepts InString st u))"
  proof (induction s)
    case Nil
    then show ?case by (simp add: final_def)
  next
    case (Cons b s)
    then show ?case unfolding ws_split_Cons by (auto simp: on_def isSpace_def)
  qed
  also have "\<dots> \<longleftrightarrow> (\<exists>w t r. s = w @ 0x22 # t @ r \<and> json_ws w \<and> lang InString t \<and> json_accepts EndValue st r)"
    by (simp add: accepts_literal inside_literal_def cont_def del: lang.simps) blast
  also have "\<dots> \<longleftrightarrow> (\<exists>w k r. s = w @ k @ r \<and> json_ws w \<and> json_string k \<and> json_accepts EndValue st r)"
  proof -
    have "json_string k \<longleftrightarrow> (\<exists>t. k = 0x22 # t \<and> lang InString t)" for k
      by (cases k) (auto simp: string_Cons simp del: lang.simps)
    then show ?thesis by (metis append_Cons)
  qed
  finally show ?thesis .
qed

subsection \<open>The automaton accepts the grammar\<close>

text \<open>
  One statement per construct, for a stack and the nesting that is still allowed; each follows from those for shorter
  inputs.
\<close>

definition value_ok :: "byte list \<Rightarrow> bool" where
  "value_ok s \<longleftrightarrow> (\<forall>st d. length st + d = 10000 \<longrightarrow> json_accepts BeginValue st s = cont_value d st s)"

definition elements_ok :: "byte list \<Rightarrow> bool" where
  "elements_ok s \<longleftrightarrow> (\<forall>st d. length st + Suc d = 10000 \<longrightarrow>
     json_accepts BeginValue (parseArrayValue # st) s = cont (elements_tail d) st s)"

definition array_ok :: "byte list \<Rightarrow> bool" where
  "array_ok s \<longleftrightarrow> (\<forall>st d. length st + Suc d = 10000 \<longrightarrow>
     json_accepts BeginValueOrEmpty (parseArrayValue # st) s = cont (array_tail d) st s)"

definition members_ok :: "byte list \<Rightarrow> bool" where
  "members_ok s \<longleftrightarrow> (\<forall>st d. length st + Suc d = 10000 \<longrightarrow>
     json_accepts BeginString (parseObjectKey # st) s = cont (members_tail d) st s)"

definition object_ok :: "byte list \<Rightarrow> bool" where
  "object_ok s \<longleftrightarrow> (\<forall>st d. length st + Suc d = 10000 \<longrightarrow>
     json_accepts BeginStringOrEmpty (parseObjectKey # st) s = cont (object_tail d) st s)"

definition shorter :: "byte list \<Rightarrow> (byte list \<Rightarrow> bool) \<Rightarrow> bool" where
  "shorter s P \<longleftrightarrow> (\<forall>s'. length s' < length s \<longrightarrow> P s')"

lemma shorterD: "shorter s P \<Longrightarrow> length s' < length s \<Longrightarrow> P s'"
  by (simp add: shorter_def)

lemma value_ok_step:
  assumes "shorter s value_ok" "shorter s array_ok" "shorter s object_ok"
  shows "value_ok s"
  unfolding value_ok_def
proof (intro allI impI)
  fix st :: "parse_state list" and d :: nat assume d: "length st + d = 10000"
  show "json_accepts BeginValue st s = cont_value d st s"
  proof (cases s)
    case Nil
    then show ?thesis by (simp add: cont_value_Nil final_def)
  next
    case (Cons c u)
    have V: "json_accepts BeginValue st u = cont_value d st u"
      using shorterD [OF assms(1), of u] d Cons by (simp add: value_ok_def)
    have A: "(case delta_push BeginValueOrEmpty parseArrayValue st of None \<Rightarrow> False | Some (q', st') \<Rightarrow> json_accepts q' st' u)
        \<longleftrightarrow> d > 0 \<and> cont (array_tail (d - 1)) st u"
      using shorterD [OF assms(2), of u] d Cons by (cases d) (auto simp: array_ok_def delta_push_def)
    have O: "(case delta_push BeginStringOrEmpty parseObjectKey st of None \<Rightarrow> False | Some (q', st') \<Rightarrow> json_accepts q' st' u)
        \<longleftrightarrow> d > 0 \<and> cont (object_tail (d - 1)) st u"
      using shorterD [OF assms(3), of u] d Cons by (cases d) (auto simp: object_ok_def delta_push_def)
    have L: "cont (lang q) st u = json_accepts q st u" if "inside_literal q" for q by (simp add: accepts_literal that)
    have "json_accepts BeginValue st (c # u) =
       (case delta_value st c of None \<Rightarrow> False | Some (q', st') \<Rightarrow> json_accepts q' st' u)" by simp
    also have "\<dots> \<longleftrightarrow> isSpace c \<and> cont_value d st u \<or> cont (\<lambda>t. json_value d (c # t)) st u"
      unfolding value_Cons cont_disj cont_conj A [symmetric] O [symmetric] V [symmetric]
      by (simp add: L inside_literal_def delta_value_def isSpace_def pos_digit_def word_le_def del: lang.simps) blast
    finally show ?thesis unfolding Cons cont_value_Cons .
  qed
qed

lemma cont_elements:
  "cont (elements_tail d) st s \<longleftrightarrow>
     (\<exists>w v w' c r. s = w @ v @ w' @ c # r \<and> json_ws w \<and> json_value d v \<and> json_ws w'
        \<and> (c = 0x2C \<and> cont (elements_tail d) st r \<or> c = 0x5D \<and> json_accepts EndValue st r))" (is "?l \<longleftrightarrow> ?r")
proof
  assume ?l
  then obtain es r where s: "s = es @ 0x5D # r" "json_elements d es" "json_accepts EndValue st r"
    by (auto simp: cont_def elements_tail_def)
  from s(2) show ?r
  proof cases
    case (elements_last w1 v w2)
    then show ?thesis using s by (metis append.assoc)
  next
    case (elements_more w1 v w2 es')
    then have "cont (elements_tail d) st (es' @ 0x5D # r)"
      using s unfolding cont_def elements_tail_def by (intro exI [of _ "es' @ [0x5D]"] exI [of _ r]) simp
    moreover have "s = w1 @ v @ w2 @ 0x2C # es' @ 0x5D # r" using s elements_more by simp
    ultimately show ?thesis using elements_more by blast
  qed
next
  assume ?r
  then obtain w v w' c r where s: "s = w @ v @ w' @ c # r" "json_ws w" "json_value d v" "json_ws w'"
    and "c = 0x2C \<and> cont (elements_tail d) st r \<or> c = 0x5D \<and> json_accepts EndValue st r" by blast
  from this(5) show ?l
  proof
    assume c: "c = 0x2C \<and> cont (elements_tail d) st r"
    then obtain es r' where "r = es @ 0x5D # r'" "json_elements d es" "json_accepts EndValue st r'"
      by (auto simp: cont_def elements_tail_def)
    then show ?l using s c elements_more [OF s(2-4), of es] unfolding cont_def elements_tail_def
      by (intro exI [of _ "(w @ v @ w' @ 0x2C # es) @ [0x5D]"] exI [of _ r']) auto
  next
    assume c: "c = 0x5D \<and> json_accepts EndValue st r"
    then show ?l using s elements_last [OF s(2-4)] unfolding cont_def elements_tail_def
      by (intro exI [of _ "(w @ v @ w') @ [0x5D]"] exI [of _ r]) auto
  qed
qed

lemma elements_ok_step:
  assumes "value_ok s" "shorter s elements_ok"
  shows "elements_ok s"
  unfolding elements_ok_def
proof (intro allI impI)
  fix st :: "parse_state list" and d :: nat assume d: "length st + Suc d = 10000"
  have IH: "json_accepts BeginValue (parseArrayValue # st) r = cont (elements_tail d) st r" if "length r < length s" for r
    using shorterD [OF assms(2) that] d by (simp add: elements_ok_def)
  have "json_accepts BeginValue (parseArrayValue # st) s = cont_value d (parseArrayValue # st) s"
    using assms(1) d by (simp add: value_ok_def)
  also have "\<dots> \<longleftrightarrow> (\<exists>w v w' c r. s = w @ v @ w' @ c # r \<and> json_ws w \<and> json_value d v \<and> json_ws w' \<and> after_value (parseArrayValue # st) c r)"
    unfolding cont_value_def accepts_EndValue by blast
  also have "\<dots> \<longleftrightarrow> cont (elements_tail d) st s"
    unfolding cont_elements [of d st s] after_value.simps by (intro ex_cong1) (auto simp: IH)
  finally show "json_accepts BeginValue (parseArrayValue # st) s = cont (elements_tail d) st s" .
qed

lemma cont_members:
  "cont (members_tail d) st s \<longleftrightarrow>
     (\<exists>w k w2 w3 v w4 c r. s = w @ k @ w2 @ 0x3A # w3 @ v @ w4 @ c # r \<and> json_ws w \<and> json_string k \<and> json_ws w2 \<and> json_ws w3
        \<and> json_value d v \<and> json_ws w4
        \<and> (c = 0x2C \<and> cont (members_tail d) st r \<or> c = 0x7D \<and> json_accepts EndValue st r))" (is "?l \<longleftrightarrow> ?r")
proof
  assume ?l
  then obtain ms r where s: "s = ms @ 0x7D # r" "json_members d ms" "json_accepts EndValue st r"
    by (auto simp: cont_def members_tail_def)
  from s(2) show ?r
  proof cases
    case (members_last w1 k w2 w3 v w4)
    then have "s = w1 @ k @ w2 @ 0x3A # w3 @ v @ w4 @ 0x7D # r" using s by simp
    then show ?thesis using s members_last by blast
  next
    case (members_more w1 k w2 w3 v w4 ms')
    then have "cont (members_tail d) st (ms' @ 0x7D # r)"
      using s unfolding cont_def members_tail_def by (intro exI [of _ "ms' @ [0x7D]"] exI [of _ r]) simp
    moreover have "s = w1 @ k @ w2 @ 0x3A # w3 @ v @ w4 @ 0x2C # ms' @ 0x7D # r" using s members_more by simp
    ultimately show ?thesis using members_more by blast
  qed
next
  assume ?r
  then obtain w k w2 w3 v w4 c r where s: "s = w @ k @ w2 @ 0x3A # w3 @ v @ w4 @ c # r" "json_ws w" "json_string k" "json_ws w2"
      "json_ws w3" "json_value d v" "json_ws w4"
    and "c = 0x2C \<and> cont (members_tail d) st r \<or> c = 0x7D \<and> json_accepts EndValue st r" by blast
  from this(8) show ?l
  proof
    assume c: "c = 0x2C \<and> cont (members_tail d) st r"
    then obtain ms r' where "r = ms @ 0x7D # r'" "json_members d ms" "json_accepts EndValue st r'"
      by (auto simp: cont_def members_tail_def)
    then show ?l using s c members_more [OF s(2-7), of ms] unfolding cont_def members_tail_def
      by (intro exI [of _ "(w @ k @ w2 @ 0x3A # w3 @ v @ w4 @ 0x2C # ms) @ [0x7D]"] exI [of _ r']) auto
  next
    assume c: "c = 0x7D \<and> json_accepts EndValue st r"
    then show ?l using s members_last [OF s(2-7)] unfolding cont_def members_tail_def
      by (intro exI [of _ "(w @ k @ w2 @ 0x3A # w3 @ v @ w4) @ [0x7D]"] exI [of _ r]) auto
  qed
qed

lemma members_ok_step:
  assumes "shorter s value_ok" "shorter s members_ok"
  shows "members_ok s"
  unfolding members_ok_def
proof (intro allI impI)
  fix st :: "parse_state list" and d :: nat assume d: "length st + Suc d = 10000"
  have IH: "json_accepts BeginString (parseObjectKey # st) r = cont (members_tail d) st r" if "length r < length s" for r
    using shorterD [OF assms(2) that] d by (simp add: members_ok_def)
  have V: "json_accepts BeginValue (parseObjectValue # st) u = cont_value d (parseObjectValue # st) u" if "length u < length s" for u
    using shorterD [OF assms(1) that] d by (simp add: value_ok_def)
  have "json_accepts BeginString (parseObjectKey # st) s \<longleftrightarrow>
      (\<exists>w k w2 u. s = w @ k @ w2 @ 0x3A # u \<and> json_ws w \<and> json_string k \<and> json_ws w2 \<and> json_accepts BeginValue (parseObjectValue # st) u)"
    unfolding accepts_BeginString accepts_EndValue after_value.simps by blast
  also have "\<dots> \<longleftrightarrow>
      (\<exists>w k w2 u. s = w @ k @ w2 @ 0x3A # u \<and> json_ws w \<and> json_string k \<and> json_ws w2 \<and> cont_value d (parseObjectValue # st) u)"
    by (intro ex_cong1) (auto simp: V simp del: json_accepts.simps)
  also have "\<dots> \<longleftrightarrow>
      (\<exists>w k w2 w3 v w4 c r. s = w @ k @ w2 @ 0x3A # w3 @ v @ w4 @ c # r \<and> json_ws w \<and> json_string k \<and> json_ws w2 \<and> json_ws w3
        \<and> json_value d v \<and> json_ws w4 \<and> after_value (parseObjectValue # st) c r)"
    unfolding cont_value_def accepts_EndValue by blast
  also have "\<dots> \<longleftrightarrow> cont (members_tail d) st s"
    unfolding cont_members [of d st s] after_value.simps by (intro ex_cong1) (auto simp: IH simp del: json_accepts.simps)
  finally show "json_accepts BeginString (parseObjectKey # st) s = cont (members_tail d) st s" .
qed

text \<open>Opening brackets: an empty construct, or its first element.\<close>

definition closed :: "(byte list \<Rightarrow> bool) \<Rightarrow> byte \<Rightarrow> byte list \<Rightarrow> bool" where
  "closed E z t \<longleftrightarrow> (\<exists>es. t = es @ [z] \<and> E es)"

definition spaced :: "byte \<Rightarrow> (byte list \<Rightarrow> bool) \<Rightarrow> bool" where
  "spaced z E \<longleftrightarrow> (\<forall>c es. isSpace c \<longrightarrow> E (c # es) = E es) \<and> \<not> E [] \<and> (\<forall>es. \<not> E (z # es)) \<and> \<not> isSpace z"

lemma closed_simps: "\<not> closed E z []" "closed E z (c # t) \<longleftrightarrow> c = z \<and> t = [] \<and> E [] \<or> closed (\<lambda>es. E (c # es)) z t"
  by (auto simp: closed_def Cons_eq_append_conv)

lemma cont_closed_Cons:
  assumes E: "spaced z E"
  shows "cont (\<lambda>t. closed json_ws z t \<or> closed E z t) st (c # u) \<longleftrightarrow>
     (if isSpace c then cont (\<lambda>t. closed json_ws z t \<or> closed E z t) st u
      else if c = z then json_accepts EndValue st u else cont (closed E z) st (c # u))"
proof -
  have ws: "closed json_ws z (c # t) \<longleftrightarrow> c = z \<and> t = [] \<or> isSpace c \<and> closed json_ws z t" for t
    by (auto simp: closed_simps json_ws_simps) (auto simp: closed_def)
  have sp: "closed E z (c # t) = closed E z t" if "isSpace c" for t
    using E that by (simp add: spaced_def closed_simps)
  have no: "\<not> closed E z (z # t)" for t
    using E by (simp add: spaced_def closed_simps) (simp add: closed_def)
  have z: "\<not> isSpace z" using E by (simp add: spaced_def)
  consider "isSpace c" "c \<noteq> z" | "\<not> isSpace c" "c = z" | "\<not> isSpace c" "c \<noteq> z" using z by blast
  then show ?thesis
  proof cases
    case 1
    then show ?thesis unfolding cont_Cons ws by (simp add: sp closed_simps(1))
  next
    case 2
    then show ?thesis unfolding cont_Cons ws by (simp add: no cont_empty closed_simps(1))
  next
    case 3
    then show ?thesis unfolding cont_Cons ws by (simp add: closed_simps(1))
  qed
qed

lemma value_first: "json_value d (c # t) \<Longrightarrow> \<not> isSpace c \<and> c \<noteq> 0x5D"
proof -
  assume v: "json_value d (c # t)"
  have "c \<noteq> 0x20" "c \<noteq> 0x09" "c \<noteq> 0x0D" "c \<noteq> 0x0A" "c \<noteq> 0x5D"
    using v by (auto simp: value_Cons pos_digit_def simp del: lang.simps)
  then show ?thesis by (simp add: isSpace_def)
qed

lemma elements_iff:
  "json_elements d es \<longleftrightarrow> (\<exists>w u. es = w @ u \<and> json_ws w \<and>
     (\<exists>v w'. json_value d v \<and> json_ws w' \<and> (u = v @ w' \<or> (\<exists>es'. u = v @ w' @ 0x2C # es' \<and> json_elements d es'))))"
  by (subst json_elements.simps) blast

lemma members_iff:
  "json_members d ms \<longleftrightarrow> (\<exists>w u. ms = w @ u \<and> json_ws w \<and>
     (\<exists>k w2 w3 v w4. json_string k \<and> json_ws w2 \<and> json_ws w3 \<and> json_value d v \<and> json_ws w4 \<and>
       (u = k @ w2 @ 0x3A # w3 @ v @ w4 \<or> (\<exists>ms'. u = k @ w2 @ 0x3A # w3 @ v @ w4 @ 0x2C # ms' \<and> json_members d ms'))))"
  (is "_ = ?r")
proof
  assume "json_members d ms"
  then show ?r by cases blast+
next
  assume ?r
  then obtain w k w2 w3 v w4 where p: "json_ws w" "json_string k" "json_ws w2" "json_ws w3" "json_value d v" "json_ws w4"
    and "ms = w @ k @ w2 @ 0x3A # w3 @ v @ w4
      \<or> (\<exists>ms'. ms = w @ k @ w2 @ 0x3A # w3 @ v @ w4 @ 0x2C # ms' \<and> json_members d ms')" by blast
  from this(7) show "json_members d ms"
    using members_last [OF p] members_more [OF p] by (elim disjE exE conjE) simp_all
qed

lemma spacedI:
  assumes "\<And>es. E es \<longleftrightarrow> (\<exists>w u. es = w @ u \<and> json_ws w \<and> F u)" "\<not> F []" "\<And>c u. F (c # u) \<Longrightarrow> \<not> isSpace c \<and> c \<noteq> z" "\<not> isSpace z"
  shows "spaced z E"
proof -
  have 1: "E (c # es) = E es" if c: "isSpace c" for c es
  proof
    assume "E (c # es)"
    then obtain w u where "c # es = w @ u" "json_ws w" "F u" using assms(1) by blast
    then show "E es" using assms(1,3) c by (cases w) (auto simp: json_ws_simps)
  next
    assume "E es"
    then obtain w u where "es = w @ u" "json_ws w" "F u" using assms(1) by blast
    then show "E (c # es)" unfolding assms(1) using c by (intro exI [of _ "c # w"] exI [of _ u]) (simp add: json_ws_simps)
  qed
  have 2: "\<not> E (z # es)" for es
  proof
    assume "E (z # es)"
    then obtain w u where "z # es = w @ u" "json_ws w" "F u" using assms(1) by blast
    then show False using assms(3,4) by (cases w) (auto simp: json_ws_simps)
  qed
  have 3: "\<not> E []" using assms(1,2) by auto
  show ?thesis using 1 2 3 assms(4) by (simp add: spaced_def)
qed

lemma spaced_elements: "spaced 0x5D (json_elements d)"
proof (rule spacedI [OF elements_iff])
  fix c u
  assume "\<exists>v w'. json_value d v \<and> json_ws w' \<and> (c # u = v @ w' \<or> (\<exists>es'. c # u = v @ w' @ 0x2C # es' \<and> json_elements d es'))"
  then obtain v x where "json_value d v" "c # u = v @ x" by blast
  then show "\<not> isSpace c \<and> c \<noteq> 0x5D" using value_first [of d] value_Nil [of d] by (cases v) auto
qed (auto simp: value_Nil isSpace_def)

lemma spaced_members: "spaced 0x7D (json_members d)"
proof (rule spacedI [OF members_iff])
  fix c u
  assume "\<exists>k w2 w3 v w4. json_string k \<and> json_ws w2 \<and> json_ws w3 \<and> json_value d v \<and> json_ws w4 \<and>
       (c # u = k @ w2 @ 0x3A # w3 @ v @ w4 \<or> (\<exists>ms'. c # u = k @ w2 @ 0x3A # w3 @ v @ w4 @ 0x2C # ms' \<and> json_members d ms'))"
  then obtain k x where "json_string k" "c # u = k @ x" by blast
  then show "\<not> isSpace c \<and> c \<noteq> 0x7D" by (cases k) (auto simp: string_Cons isSpace_def simp del: lang.simps)
qed (auto simp: isSpace_def)

lemma array_tail_closed: "array_tail d = (\<lambda>t. closed json_ws 0x5D t \<or> closed (json_elements d) 0x5D t)"
  and elements_tail_closed: "elements_tail d = closed (json_elements d) 0x5D"
  and object_tail_closed: "object_tail d = (\<lambda>t. closed json_ws 0x7D t \<or> closed (json_members d) 0x7D t)"
  and members_tail_closed: "members_tail d = closed (json_members d) 0x7D"
  by (auto simp: fun_eq_iff array_tail_def elements_tail_def object_tail_def members_tail_def closed_def)

lemma array_ok_step:
  assumes "elements_ok s" "shorter s array_ok"
  shows "array_ok s"
  unfolding array_ok_def
proof (intro allI impI)
  fix st :: "parse_state list" and d :: nat assume d: "length st + Suc d = 10000"
  show "json_accepts BeginValueOrEmpty (parseArrayValue # st) s = cont (array_tail d) st s"
  proof (cases s)
    case Nil
    then show ?thesis by (simp add: final_def cont_Nil array_tail_closed closed_simps)
  next
    case (Cons c u)
    have A: "json_accepts BeginValueOrEmpty (parseArrayValue # st) u = cont (array_tail d) st u"
      using shorterD [OF assms(2), of u] d Cons by (simp add: array_ok_def)
    have E: "json_accepts BeginValue (parseArrayValue # st) (c # u) = cont (elements_tail d) st (c # u)"
      using assms(1) d Cons by (simp add: elements_ok_def)
    have "json_accepts BeginValueOrEmpty (parseArrayValue # st) (c # u) \<longleftrightarrow>
      (if isSpace c then json_accepts BeginValueOrEmpty (parseArrayValue # st) u
       else if c = 0x5D then json_accepts EndValue st u else json_accepts BeginValue (parseArrayValue # st) (c # u))"
      by (auto simp flip: accepts_popped [where st = st and r = u])
    then show ?thesis
      unfolding Cons array_tail_closed cont_closed_Cons [OF spaced_elements] E
      by (simp add: A array_tail_closed elements_tail_closed)
  qed
qed

lemma object_ok_step:
  assumes "members_ok s" "shorter s object_ok"
  shows "object_ok s"
  unfolding object_ok_def
proof (intro allI impI)
  fix st :: "parse_state list" and d :: nat assume d: "length st + Suc d = 10000"
  show "json_accepts BeginStringOrEmpty (parseObjectKey # st) s = cont (object_tail d) st s"
  proof (cases s)
    case Nil
    then show ?thesis by (simp add: final_def cont_Nil object_tail_closed closed_simps)
  next
    case (Cons c u)
    have A: "json_accepts BeginStringOrEmpty (parseObjectKey # st) u = cont (object_tail d) st u"
      using shorterD [OF assms(2), of u] d Cons by (simp add: object_ok_def)
    have E: "json_accepts BeginString (parseObjectKey # st) (c # u) = cont (members_tail d) st (c # u)"
      using assms(1) d Cons by (simp add: members_ok_def)
    have "json_accepts BeginStringOrEmpty (parseObjectKey # st) (c # u) \<longleftrightarrow>
      (if isSpace c then json_accepts BeginStringOrEmpty (parseObjectKey # st) u
       else if c = 0x7D then json_accepts EndValue st u else json_accepts BeginString (parseObjectKey # st) (c # u))"
      by (auto simp flip: accepts_popped [where st = st and r = u] simp: isSpace_def)
    then show ?thesis
      unfolding Cons object_tail_closed cont_closed_Cons [OF spaced_members] E
      by (simp add: A object_tail_closed members_tail_closed)
  qed
qed

theorem automaton_grammar: "value_ok s \<and> elements_ok s \<and> array_ok s \<and> members_ok s \<and> object_ok s"
proof (induction s rule: length_induct)
  case (1 s)
  then have sh: "shorter s value_ok" "shorter s elements_ok" "shorter s array_ok" "shorter s members_ok" "shorter s object_ok"
    by (simp_all add: shorter_def)
  have v: "value_ok s" by (rule value_ok_step [OF sh(1,3,5)])
  have e: "elements_ok s" by (rule elements_ok_step [OF v sh(2)])
  have a: "array_ok s" by (rule array_ok_step [OF e sh(3)])
  have m: "members_ok s" by (rule members_ok_step [OF sh(1,4)])
  show ?case using v e a m object_ok_step [OF m sh(5)] by blast
qed

lemma json_accepts_text: "json_accepts BeginValue [] s \<longleftrightarrow> json_text s"
proof -
  have "json_accepts BeginValue [] s = cont_value 10000 [] s" using automaton_grammar [of s] by (simp add: value_ok_def)
  then show ?thesis by (simp add: cont_value_def json_text_def accepts_EndValue_Nil)
qed

end
