(* ===== verification/Json_Properties.thy ===== *)
theory Json_Properties
  imports Json_Grammar
begin

text \<open>
  The properties of the JSON scanner: validation decides the grammar, no reachable scanner panics, and an error names the
  byte and the offset where the text stops being the beginning of a JSON text.
\<close>

subsection \<open>Reachable scanners\<close>

text \<open>
  What a client of the scanner can do, as \<open>checkValid\<close>, the decoder and the encoder do it: reset it and feed it bytes,
  with any value in the byte counter.
\<close>

inductive json_reach :: "scanner \<Rightarrow> bool" where
  reach_reset: "json_reach (scan_reset s)"
| reach_step: "json_reach s \<Longrightarrow> scan_step (step s) (s\<lparr>scan_bytes := n\<rparr>) c = Some (s', op) \<Longrightarrow> json_reach s'"

lemma sim_bytes [simp]: "sim (s\<lparr>scan_bytes := n\<rparr>) q st = sim s q st"
  by (simp add: sim_def)

lemma json_reach_sim: "json_reach s \<Longrightarrow> failed s \<or> (\<exists>q st. sim s q st)"
proof (induction rule: json_reach.induct)
  case (reach_reset s)
  have "sim (scan_reset s) BeginValue []" by (simp add: sim_def scan_reset_def well_stacked_def)
  then show ?case by blast
next
  case (reach_step s n c s' op)
  then show ?case
  proof (elim disjE exE)
    fix q st assume "sim s q st"
    then have "follows (scan_step (step s) (s\<lparr>scan_bytes := n\<rparr>) c) (delta q st c)"
      using scan_step_follows [of "s\<lparr>scan_bytes := n\<rparr>" q st c] by simp
    then show ?thesis using reach_step.hyps(2) by (auto simp: follows_def split: option.splits)
  qed (auto simp: failed_def stateError_def)
qed

lemma scan_step_total:
  assumes "failed s \<or> (\<exists>q st. sim s q st)"
  shows "\<exists>s' op. scan_step (step s) s c = Some (s', op) \<and> (op = scanError \<longrightarrow> err s' \<noteq> None)"
  using assms
proof (elim disjE exE)
  fix q st assume "sim s q st"
  from scan_step_follows [OF this, of c] show ?thesis by (auto simp: follows_def failed_def split: option.splits)
qed (auto simp: failed_def stateError_def)

lemma scan_eof_total:
  assumes "failed s \<or> (\<exists>q st. sim s q st)"
  shows "\<exists>s' op. scan_eof s = Some (s', op) \<and> (op = scanError \<longleftrightarrow> err s' \<noteq> None)"
  using assms
proof (elim disjE exE)
  fix q st assume sim: "sim s q st"
  then have s: "err s = None" "step s = q" "endTop s \<longleftrightarrow> q = EndTop" "rev (parseState s) = st" by (auto simp: sim_def)
  have F: "follows (scan_step q s 0x20) (delta q st 0x20)" using scan_step_follows [OF sim, of "0x20"] s by simp
  then obtain s' op where s': "scan_step q s 0x20 = Some (s', op)" "failed s' \<and> delta q st 0x20 = None \<or> err s' = None"
    by (auto simp: follows_def sim_def split: option.splits)
  show ?thesis
  proof (cases "q = EndTop")
    case False
    then have "\<not> endTop s'" if "err s' \<noteq> None"
      using scan_step_space [of s s' op] s' s that by auto
    then show ?thesis using s s'(1) False by (auto simp: scan_eof_def Let_def)
  qed (use s in \<open>simp add: scan_eof_def\<close>)
qed (auto simp: failed_def scan_eof_def)

subsection \<open>Where an error is\<close>

text \<open>Every state that is not an error can still be completed: the bytes that do it.\<close>

fun close_stack :: "parse_state list \<Rightarrow> byte list" where
  "close_stack [] = []"
| "close_stack (parseObjectKey # st) = 0x3A # 0x30 # 0x7D # close_stack st"
| "close_stack (parseObjectValue # st) = 0x7D # close_stack st"
| "close_stack (parseArrayValue # st) = 0x5D # close_stack st"

fun complete :: "json_step \<Rightarrow> byte list" where
  "complete BeginValueOrEmpty = [0x30]" | "complete BeginValue = [0x30]"
| "complete BeginStringOrEmpty = [0x22, 0x22]" | "complete BeginString = [0x22, 0x22]"
| "complete InString = [0x22]" | "complete InStringEsc = [0x6E, 0x22]"
| "complete InStringEscU = [0x30, 0x30, 0x30, 0x30, 0x22]" | "complete InStringEscU1 = [0x30, 0x30, 0x30, 0x22]"
| "complete InStringEscU12 = [0x30, 0x30, 0x22]" | "complete InStringEscU123 = [0x30, 0x22]"
| "complete Neg = [0x30]" | "complete Dot = [0x30]" | "complete StateE = [0x30]" | "complete ESign = [0x30]"
| "complete StT = [0x72, 0x75, 0x65]" | "complete StTr = [0x75, 0x65]" | "complete StTru = [0x65]"
| "complete StF = [0x61, 0x6C, 0x73, 0x65]" | "complete StFa = [0x6C, 0x73, 0x65]" | "complete StFal = [0x73, 0x65]"
| "complete StFals = [0x65]" | "complete StN = [0x75, 0x6C, 0x6C]" | "complete StNu = [0x6C, 0x6C]" | "complete StNul = [0x6C]"
| "complete _ = []"

lemma accepts_close_stack:
  "json_accepts EndValue st (close_stack st)" "json_accepts State0 st (close_stack st)"
  "json_accepts State1 st (close_stack st)" "json_accepts Dot0 st (close_stack st)" "json_accepts E0 st (close_stack st)"
proof -
  have E: "json_accepts EndValue st (close_stack st) \<and> json_accepts State0 st (close_stack st)"
  proof (induction st rule: close_stack.induct)
    case (2 st)
    then show ?case by (simp add: isSpace_def delta_value_def dec_digit_def accepts_popped)
  qed (simp_all add: isSpace_def accepts_popped final_def dec_digit_def)
  then show "json_accepts EndValue st (close_stack st)" "json_accepts State0 st (close_stack st)" by blast+
  show "json_accepts State1 st (close_stack st)" "json_accepts Dot0 st (close_stack st)" "json_accepts E0 st (close_stack st)"
    using E by (cases st rule: close_stack.cases; simp add: isSpace_def dec_digit_def final_def)+
qed

lemma accepts_complete:
  assumes "well_stacked q st"
  shows "json_accepts q st (complete q @ close_stack st)"
  using assms accepts_close_stack [of st]
  by (cases q) (simp_all add: isSpace_def delta_value_def on_def escapable_def hex_digit_def dec_digit_def well_stacked_def final_def)

lemma scan_step_err:
  assumes "err s = None" "scan_step (step s) s c = Some (s', op)"
  shows "scan_bytes s' = scan_bytes s \<and> (err s' = None \<or> (\<exists>x. err s' = Some \<lparr>msg = InvalidCharacter c x, Offset = scan_bytes s\<rparr>))"
  using assms
  by (cases "step s")
    (auto simp: step_defs stateError_def stateBeginValue_def stateBeginValueOrEmpty_def stateBeginStringOrEmpty_def scan_error_def
      stateEndValue_def stateEndTop_def pushParseState_def popParseState_def Let_def
      split: if_splits parse_state.splits Option.bind_splits)

lemma validate_from_failed_err: "failed s \<Longrightarrow> \<exists>s'. validate_from data s = Some (err s, s')"
  by (cases data) (auto simp: validate_from_def scan_eof_def failed_def stateError_def Let_def)

text \<open>The two kinds of error: at a byte of the text, or at its end.\<close>

definition error_at :: "(byte list \<Rightarrow> bool) \<Rightarrow> byte list \<Rightarrow> int \<Rightarrow> SyntaxError \<Rightarrow> bool" where
  "error_at L data n e \<longleftrightarrow>
     (\<exists>p c t. data = p @ c # t \<and> (\<exists>x. msg e = InvalidCharacter c x) \<and> Offset e = n + int (length p) + 1
        \<and> (\<exists>u. L (p @ u)) \<and> (\<forall>u. \<not> L (p @ c # u)))"

definition error_end :: "(byte list \<Rightarrow> bool) \<Rightarrow> byte list \<Rightarrow> int \<Rightarrow> SyntaxError \<Rightarrow> bool" where
  "error_end L data n e \<longleftrightarrow>
     (msg e = UnexpectedEnd \<or> (\<exists>x. msg e = InvalidCharacter 0x20 x)) \<and> Offset e = n + int (length data)
     \<and> (\<exists>u. L (data @ u)) \<and> \<not> L data"

lemma error_at_Cons: "error_at (\<lambda>s. L (c # s)) data (n + 1) e \<Longrightarrow> error_at L (c # data) n e"
  unfolding error_at_def by (elim exE conjE) (rule exI [of _ "c # _"], auto)

lemma error_end_Cons: "error_end (\<lambda>s. L (c # s)) data (n + 1) e \<Longrightarrow> error_end L (c # data) n e"
  by (auto simp: error_end_def)

lemma validate_error:
  assumes "sim s q st" "validate_from data s = Some (Some e, s')" "0 \<le> scan_bytes s" "scan_bytes s + int (length data) < 2 ^ 63"
  shows "error_at (json_accepts q st) data (scan_bytes s) e \<or> error_end (json_accepts q st) data (scan_bytes s) e"
  using assms
proof (induction data arbitrary: s q st)
  case Nil
  have s: "step s = q" "err s = None" "endTop s \<longleftrightarrow> q = EndTop" "well_stacked q st" using Nil.prems(1) by (auto simp: sim_def)
  have c: "\<exists>u. json_accepts q st u" using accepts_complete [OF s(4)] by blast
  have n: "\<not> json_accepts q st []" using validate_from_sim [OF Nil.prems(1), of "[]"] Nil.prems(2) by auto
  have "msg e = UnexpectedEnd \<or> (\<exists>x. msg e = InvalidCharacter 0x20 x)" "Offset e = scan_bytes s"
    using Nil.prems(2) s(2,3) scan_step_err [OF s(2), of "0x20"]
    by (auto simp: validate_from_def scan_eof_def Let_def split: if_splits Option.bind_splits)
  then show ?case using c n by (simp add: error_end_def)
next
  case (Cons c data)
  let ?s = "s\<lparr>scan_bytes := int64 (scan_bytes s + 1)\<rparr>"
  have b: "int64 (scan_bytes s + 1) = scan_bytes s + 1" by (rule int64_id) (use Cons.prems(3,4) in auto)
  have sim: "sim ?s q st" using Cons.prems(1) by simp
  from scan_step_follows [OF sim, of c] have F: "follows (scan_step (step s) ?s c) (delta q st c)" by simp
  show ?case
  proof (cases "delta q st c")
    case None
    then obtain s1 op where s1: "scan_step (step s) ?s c = Some (s1, op)" "failed s1" using F by (auto simp: follows_def)
    have "err s1 = Some e" using Cons.prems(2) s1 validate_from_failed_err [OF s1(2), of data] by (auto simp: validate_from_Cons split: if_splits)
    then have "(\<exists>x. msg e = InvalidCharacter c x) \<and> Offset e = scan_bytes s + 1"
      using scan_step_err [of ?s c s1 op] s1(1) Cons.prems(1) b by (auto simp: sim_def)
    moreover have "\<exists>u. json_accepts q st u" using accepts_complete [of q st] Cons.prems(1) by (auto simp: sim_def)
    ultimately have "error_at (json_accepts q st) (c # data) (scan_bytes s) e"
      unfolding error_at_def using None by (intro exI [of _ "[]"] exI [of _ c] exI [of _ data]) auto
    then show ?thesis ..
  next
    case (Some p)
    then obtain q' st' where p: "delta q st c = Some (q', st')" by (cases p) auto
    then obtain s1 op where s1: "scan_step (step s) ?s c = Some (s1, op)" "op \<noteq> scanError" "sim s1 q' st'"
      using F by (auto simp: follows_def)
    have n: "scan_bytes s1 = scan_bytes s + 1"
      using scan_step_err [of ?s c s1 op] s1(1) Cons.prems(1) b by (auto simp: sim_def)
    have "error_at (json_accepts q' st') data (scan_bytes s1) e \<or> error_end (json_accepts q' st') data (scan_bytes s1) e"
      by (rule Cons.IH [OF s1(3)]) (use Cons.prems s1 n in \<open>auto simp: validate_from_Cons\<close>)
    moreover have "(\<lambda>s. json_accepts q st (c # s)) = json_accepts q' st'" using p by auto
    ultimately show ?thesis
      using error_at_Cons [of "json_accepts q st" c data "scan_bytes s" e] error_end_Cons [of "json_accepts q st" c data "scan_bytes s" e] n
      by auto
  qed
qed

subsection \<open>The properties\<close>

text \<open>
  C1 (validation decides the JSON grammar). On every byte slice and with every scanner the pool may hand out,
  \<open>Valid\<close> returns without a panic, and it returns whether the slice is a JSON text: optional white space around one value
  whose nesting is at most 10000.
\<close>

theorem json_Valid_grammar: "\<exists>scan. json_Valid pooled data = Some (json_text data, scan)"
  using json_Valid_accepts [of pooled data] unfolding json_accepts_text .

text \<open>
  C23 (safety of the scanner). In every state a scanner can reach, the next call of the state function and the call at
  the end of the input return without a panic; an error is reported together with its text; after an error every
  further byte is refused and changes nothing; and without one the parse stack never exceeds the permitted nesting and
  the flag endTop is set exactly when the scanner has read a whole value.
\<close>

theorem json_scanner_safe:
  assumes "json_reach s"
  shows "(\<exists>s' op. scan_step (step s) s c = Some (s', op) \<and> (op = scanError \<longrightarrow> err s' \<noteq> None))
    \<and> (\<exists>s' op. scan_eof s = Some (s', op) \<and> (op = scanError \<longleftrightarrow> err s' \<noteq> None))
    \<and> (err s \<noteq> None \<longrightarrow> scan_step (step s) s c = Some (s, scanError))
    \<and> (err s = None \<longrightarrow> int (length (parseState s)) \<le> maxNestingDepth \<and> (endTop s \<longleftrightarrow> step s = EndTop))"
proof -
  note r = json_reach_sim [OF assms]
  have "err s \<noteq> None \<longrightarrow> scan_step (step s) s c = Some (s, scanError)"
    using r by (auto simp: failed_def sim_def stateError_def)
  moreover have "err s = None \<longrightarrow> int (length (parseState s)) \<le> maxNestingDepth \<and> (endTop s \<longleftrightarrow> step s = EndTop)"
    using r by (auto simp: failed_def sim_def well_stacked_def maxNestingDepth_def)
  ultimately show ?thesis using scan_step_total [OF r] scan_eof_total [OF r] by blast
qed

theorem json_scanner_safe_witness:
  "\<exists>s. parseState s = [parseArrayValue] \<and> (\<exists>s' op. scan_step (step s) s 0x5D = Some (s', op) \<and> (op = scanError \<longrightarrow> err s' \<noteq> None))"
proof -
  let ?s = "\<lparr>step = EndTop, endTop = True, parseState = [], err = None, scan_bytes = 0\<rparr>"
  let ?s1 = "\<lparr>step = BeginValueOrEmpty, endTop = False, parseState = [parseArrayValue], err = None, scan_bytes = 1\<rparr>"
  have "scan_step (step (scan_reset ?s)) ((scan_reset ?s)\<lparr>scan_bytes := 1\<rparr>) 0x5B = Some (?s1, scanBeginArray)"
    by (simp add: scan_reset_def stateBeginValue_def isSpace_def pushParseState_def maxNestingDepth_def)
  then have "json_reach ?s1" using reach_step [OF reach_reset [of ?s]] by blast
  from json_scanner_safe [OF this, of "0x5D"] show ?thesis by (intro exI [of _ ?s1]) simp
qed

text \<open>
  The error and its offset. When validation fails, the offset counts the bytes up to and including the first byte
  that no JSON text continues with, and the error names that byte; or the slice is the proper beginning of a JSON text,
  and the offset is its length.
\<close>

theorem json_error_position:
  assumes "checkValid data (newScanner pooled) = Some (Some e, scan)" "int (length data) < 2 ^ 63"
  shows "error_at json_text data 0 e \<or> error_end json_text data 0 e"
proof -
  let ?s = "scan_reset (newScanner pooled)"
  have sim: "sim ?s BeginValue []" by (simp add: sim_def scan_reset_def well_stacked_def)
  have b: "scan_bytes ?s = 0" by (simp add: newScanner_def scan_reset_def)
  have "validate_from data ?s = Some (Some e, scan)" using assms(1) by (simp add: checkValid_def validate_from_def Let_def)
  from validate_error [OF sim this] show ?thesis using assms(2) b by (simp add: json_accepts_text [abs_def])
qed

text \<open>The text \<open>[1,]\<close>: the fourth byte is where it stops being JSON.\<close>

theorem json_error_position_witness:
  "\<exists>e. Offset e = 4 \<and> (error_at json_text [0x5B, 0x31, 0x2C, 0x5D] 0 e \<or> error_end json_text [0x5B, 0x31, 0x2C, 0x5D] 0 e)"
proof -
  let ?s = "\<lparr>step = EndTop, endTop = True, parseState = [], err = None, scan_bytes = 0\<rparr>"
  have "\<exists>e scan. checkValid [0x5B, 0x31, 0x2C, 0x5D] (newScanner ?s) = Some (Some e, scan) \<and> Offset e = 4"
    by (simp add: checkValid_def newScanner_def scan_reset_def step_defs stateBeginValue_def stateBeginValueOrEmpty_def isSpace_def
        pushParseState_def maxNestingDepth_def stateEndValue_def idx_def scan_error_def int64_def Let_def)
  then obtain e scan where e: "checkValid [0x5B, 0x31, 0x2C, 0x5D] (newScanner ?s) = Some (Some e, scan)" "Offset e = 4" by blast
  from json_error_position [OF e(1)] e(2) show ?thesis by (intro exI [of _ e]) simp
qed

text \<open>
  The end of the input is tested by feeding a space to the state function. When the text stops inside a number or a
  literal, the error therefore names a space that the text does not contain; for a lone minus sign:
\<close>

theorem json_eof_names_a_space:
  "\<exists>scan. checkValid [0x2D] (newScanner pooled)
     = Some (Some \<lparr>msg = InvalidCharacter 0x20 ''in numeric literal'', Offset = 1\<rparr>, scan)"
  by (simp add: checkValid_def newScanner_def scan_reset_def stateBeginValue_def stateNeg_def isSpace_def scan_eof_def
      scan_error_def int64_def Let_def)

end
