(* ===== verification/Container_List.thy ===== *)
theory Container_List
  imports Go_Prelude
begin

text \<open>
  The doubly linked lists of \<^verbatim>\<open>container/list\<close> over an explicit store: a pointer to an element is nil, the sentinel
  inside a list, or an element allocated on its own. \<^const>\<open>None\<close> is a panic, here a nil dereference.
\<close>

subsection \<open>The store\<close>

datatype ref = Null | Root nat | Elem nat

text \<open>A list pointer: nil or an allocated list. A value of the empty interface: nil or something.\<close>

type_synonym list_ref = "nat option"

record 'v element =
  elem_next :: ref
  elem_prev :: ref
  elem_list :: list_ref
  Value :: "'v option"

record 'v store =
  mem :: "ref \<Rightarrow> 'v element option"
  lens :: "nat \<Rightarrow> int option"
  fresh_elem :: nat
  fresh_list :: nat

definition set_next :: "ref \<Rightarrow> ref \<Rightarrow> 'v store \<Rightarrow> 'v store option" where
  "set_next p q s = do { x \<leftarrow> mem s p; Some (s\<lparr>mem := (mem s)(p \<mapsto> x\<lparr>elem_next := q\<rparr>)\<rparr>) }"

definition set_prev :: "ref \<Rightarrow> ref \<Rightarrow> 'v store \<Rightarrow> 'v store option" where
  "set_prev p q s = do { x \<leftarrow> mem s p; Some (s\<lparr>mem := (mem s)(p \<mapsto> x\<lparr>elem_prev := q\<rparr>)\<rparr>) }"

definition set_list :: "ref \<Rightarrow> list_ref \<Rightarrow> 'v store \<Rightarrow> 'v store option" where
  "set_list p l s = do { x \<leftarrow> mem s p; Some (s\<lparr>mem := (mem s)(p \<mapsto> x\<lparr>elem_list := l\<rparr>)\<rparr>) }"

text \<open>The address \<open>&l.root\<close>, and reading and writing \<open>l.len\<close>.\<close>

definition root_of :: "list_ref \<Rightarrow> ref option" where
  "root_of l = map_option Root l"

definition set_len :: "list_ref \<Rightarrow> int \<Rightarrow> 'v store \<Rightarrow> 'v store option" where
  "set_len l n s = do { k \<leftarrow> l; _ \<leftarrow> lens s k; Some (s\<lparr>lens := (lens s)(k \<mapsto> n)\<rparr>) }"

definition list_Len :: "list_ref \<Rightarrow> 'v store \<Rightarrow> int option" where
  "list_Len l s = do { k \<leftarrow> l; lens s k }"

text \<open>Allocation of \<open>&Element{Value: v}\<close> and of the zero value of \<open>List\<close>.\<close>

definition new_element :: "'v option \<Rightarrow> 'v store \<Rightarrow> ref \<times> 'v store" where
  "new_element v s =
     (Elem (fresh_elem s),
      s\<lparr>mem := (mem s)(Elem (fresh_elem s) \<mapsto> \<lparr>elem_next = Null, elem_prev = Null, elem_list = None, Value = v\<rparr>),
        fresh_elem := Suc (fresh_elem s)\<rparr>)"

definition zero_list :: "'v store \<Rightarrow> nat \<times> 'v store" where
  "zero_list s =
     (fresh_list s,
      s\<lparr>mem := (mem s)(Root (fresh_list s) \<mapsto> \<lparr>elem_next = Null, elem_prev = Null, elem_list = None, Value = None\<rparr>),
        lens := (lens s)(fresh_list s \<mapsto> 0), fresh_list := Suc (fresh_list s)\<rparr>)"

subsection \<open>The operations\<close>

definition Element_Next :: "ref \<Rightarrow> 'v store \<Rightarrow> ref option" where
  "Element_Next e s =
     do {
       x \<leftarrow> mem s e;
       let p = elem_next x;
       if elem_list x \<noteq> None then do { r \<leftarrow> root_of (elem_list x); Some (if p \<noteq> r then p else Null) }
       else Some Null
     }"

definition Element_Prev :: "ref \<Rightarrow> 'v store \<Rightarrow> ref option" where
  "Element_Prev e s =
     do {
       x \<leftarrow> mem s e;
       let p = elem_prev x;
       if elem_list x \<noteq> None then do { r \<leftarrow> root_of (elem_list x); Some (if p \<noteq> r then p else Null) }
       else Some Null
     }"

definition list_Init :: "list_ref \<Rightarrow> 'v store \<Rightarrow> 'v store option" where
  "list_Init l s =
     do {
       r \<leftarrow> root_of l;
       s \<leftarrow> set_next r r s;
       s \<leftarrow> set_prev r r s;
       set_len l 0 s
     }"

definition list_New :: "'v store \<Rightarrow> (list_ref \<times> 'v store) option" where
  "list_New s = do { let (k, s) = zero_list s; s \<leftarrow> list_Init (Some k) s; Some (Some k, s) }"

definition Front :: "list_ref \<Rightarrow> 'v store \<Rightarrow> ref option" where
  "Front l s =
     do {
       n \<leftarrow> list_Len l s;
       if n = 0 then Some Null else do { r \<leftarrow> root_of l; x \<leftarrow> mem s r; Some (elem_next x) }
     }"

definition Back :: "list_ref \<Rightarrow> 'v store \<Rightarrow> ref option" where
  "Back l s =
     do {
       n \<leftarrow> list_Len l s;
       if n = 0 then Some Null else do { r \<leftarrow> root_of l; x \<leftarrow> mem s r; Some (elem_prev x) }
     }"

definition lazyInit :: "list_ref \<Rightarrow> 'v store \<Rightarrow> 'v store option" where
  "lazyInit l s =
     do {
       r \<leftarrow> root_of l;
       x \<leftarrow> mem s r;
       if elem_next x = Null then list_Init l s else Some s
     }"

definition list_insert :: "list_ref \<Rightarrow> ref \<Rightarrow> ref \<Rightarrow> 'v store \<Rightarrow> (ref \<times> 'v store) option" where
  "list_insert l e at s =
     do {
       s \<leftarrow> set_prev e at s;
       a \<leftarrow> mem s at;
       s \<leftarrow> set_next e (elem_next a) s;
       x \<leftarrow> mem s e;
       s \<leftarrow> set_next (elem_prev x) e s;
       x \<leftarrow> mem s e;
       s \<leftarrow> set_prev (elem_next x) e s;
       s \<leftarrow> set_list e l s;
       n \<leftarrow> list_Len l s;
       s \<leftarrow> set_len l (int64 (n + 1)) s;
       Some (e, s)
     }"

definition insertValue :: "list_ref \<Rightarrow> 'v option \<Rightarrow> ref \<Rightarrow> 'v store \<Rightarrow> (ref \<times> 'v store) option" where
  "insertValue l v at s = (let (e, s) = new_element v s in list_insert l e at s)"

definition list_remove :: "list_ref \<Rightarrow> ref \<Rightarrow> 'v store \<Rightarrow> (ref \<times> 'v store) option" where
  "list_remove l e s =
     do {
       x \<leftarrow> mem s e;
       s \<leftarrow> set_next (elem_prev x) (elem_next x) s;
       x \<leftarrow> mem s e;
       s \<leftarrow> set_prev (elem_next x) (elem_prev x) s;
       s \<leftarrow> set_next e Null s;
       s \<leftarrow> set_prev e Null s;
       s \<leftarrow> set_list e None s;
       n \<leftarrow> list_Len l s;
       s \<leftarrow> set_len l (int64 (n - 1)) s;
       Some (e, s)
     }"

definition list_move :: "ref \<Rightarrow> ref \<Rightarrow> 'v store \<Rightarrow> (ref \<times> 'v store) option" where
  "list_move e at s =
     (if e = at then Some (e, s)
      else do {
        x \<leftarrow> mem s e;
        s \<leftarrow> set_next (elem_prev x) (elem_next x) s;
        x \<leftarrow> mem s e;
        s \<leftarrow> set_prev (elem_next x) (elem_prev x) s;
        s \<leftarrow> set_prev e at s;
        a \<leftarrow> mem s at;
        s \<leftarrow> set_next e (elem_next a) s;
        x \<leftarrow> mem s e;
        s \<leftarrow> set_next (elem_prev x) e s;
        x \<leftarrow> mem s e;
        s \<leftarrow> set_prev (elem_next x) e s;
        Some (e, s)
      })"

definition list_Remove :: "list_ref \<Rightarrow> ref \<Rightarrow> 'v store \<Rightarrow> ('v option \<times> 'v store) option" where
  "list_Remove l e s =
     do {
       x \<leftarrow> mem s e;
       s \<leftarrow> (if elem_list x = l then do { (_, s) \<leftarrow> list_remove l e s; Some s } else Some s);
       x \<leftarrow> mem s e;
       Some (Value x, s)
     }"

definition PushFront :: "list_ref \<Rightarrow> 'v option \<Rightarrow> 'v store \<Rightarrow> (ref \<times> 'v store) option" where
  "PushFront l v s = do { s \<leftarrow> lazyInit l s; r \<leftarrow> root_of l; insertValue l v r s }"

definition PushBack :: "list_ref \<Rightarrow> 'v option \<Rightarrow> 'v store \<Rightarrow> (ref \<times> 'v store) option" where
  "PushBack l v s = do { s \<leftarrow> lazyInit l s; r \<leftarrow> root_of l; x \<leftarrow> mem s r; insertValue l v (elem_prev x) s }"

definition InsertBefore :: "list_ref \<Rightarrow> 'v option \<Rightarrow> ref \<Rightarrow> 'v store \<Rightarrow> (ref \<times> 'v store) option" where
  "InsertBefore l v mark s =
     do { m \<leftarrow> mem s mark; if elem_list m \<noteq> l then Some (Null, s) else insertValue l v (elem_prev m) s }"

definition InsertAfter :: "list_ref \<Rightarrow> 'v option \<Rightarrow> ref \<Rightarrow> 'v store \<Rightarrow> (ref \<times> 'v store) option" where
  "InsertAfter l v mark s =
     do { m \<leftarrow> mem s mark; if elem_list m \<noteq> l then Some (Null, s) else insertValue l v mark s }"

definition MoveToFront :: "list_ref \<Rightarrow> ref \<Rightarrow> 'v store \<Rightarrow> 'v store option" where
  "MoveToFront l e s =
     do {
       x \<leftarrow> mem s e;
       if elem_list x \<noteq> l then Some s
       else do {
         r \<leftarrow> root_of l;
         rx \<leftarrow> mem s r;
         if elem_next rx = e then Some s
         else do { (_, s) \<leftarrow> list_move e r s; Some s }
       }
     }"

definition MoveToBack :: "list_ref \<Rightarrow> ref \<Rightarrow> 'v store \<Rightarrow> 'v store option" where
  "MoveToBack l e s =
     do {
       x \<leftarrow> mem s e;
       if elem_list x \<noteq> l then Some s
       else do {
         r \<leftarrow> root_of l;
         rx \<leftarrow> mem s r;
         if elem_prev rx = e then Some s
         else do { (_, s) \<leftarrow> list_move e (elem_prev rx) s; Some s }
       }
     }"

definition MoveBefore :: "list_ref \<Rightarrow> ref \<Rightarrow> ref \<Rightarrow> 'v store \<Rightarrow> 'v store option" where
  "MoveBefore l e mark s =
     do {
       x \<leftarrow> mem s e;
       if elem_list x \<noteq> l \<or> e = mark then Some s
       else do {
         m \<leftarrow> mem s mark;
         if elem_list m \<noteq> l then Some s
         else do { (_, s) \<leftarrow> list_move e (elem_prev m) s; Some s }
       }
     }"

definition MoveAfter :: "list_ref \<Rightarrow> ref \<Rightarrow> ref \<Rightarrow> 'v store \<Rightarrow> 'v store option" where
  "MoveAfter l e mark s =
     do {
       x \<leftarrow> mem s e;
       if elem_list x \<noteq> l \<or> e = mark then Some s
       else do {
         m \<leftarrow> mem s mark;
         if elem_list m \<noteq> l then Some s
         else do { (_, s) \<leftarrow> list_move e mark s; Some s }
       }
     }"

text \<open>The loops of PushBackList and PushFrontList count down from the length of the other list.\<close>

function PushBackList_loop :: "list_ref \<Rightarrow> int \<Rightarrow> ref \<Rightarrow> 'v store \<Rightarrow> 'v store option" where
  "PushBackList_loop l i e s =
     (if i > 0 then
        do {
          x \<leftarrow> mem s e;
          r \<leftarrow> root_of l;
          rx \<leftarrow> mem s r;
          (_, s) \<leftarrow> insertValue l (Value x) (elem_prev rx) s;
          e \<leftarrow> Element_Next e s;
          PushBackList_loop l (i - 1) e s
        }
      else Some s)"
  by pat_completeness auto
termination
  by (relation "measure (\<lambda>(l, i, e, s). nat i)") auto

definition PushBackList :: "list_ref \<Rightarrow> list_ref \<Rightarrow> 'v store \<Rightarrow> 'v store option" where
  "PushBackList l other s =
     do {
       s \<leftarrow> lazyInit l s;
       i \<leftarrow> list_Len other s;
       e \<leftarrow> Front other s;
       PushBackList_loop l i e s
     }"

function PushFrontList_loop :: "list_ref \<Rightarrow> int \<Rightarrow> ref \<Rightarrow> 'v store \<Rightarrow> 'v store option" where
  "PushFrontList_loop l i e s =
     (if i > 0 then
        do {
          x \<leftarrow> mem s e;
          r \<leftarrow> root_of l;
          (_, s) \<leftarrow> insertValue l (Value x) r s;
          e \<leftarrow> Element_Prev e s;
          PushFrontList_loop l (i - 1) e s
        }
      else Some s)"
  by pat_completeness auto
termination
  by (relation "measure (\<lambda>(l, i, e, s). nat i)") auto

definition PushFrontList :: "list_ref \<Rightarrow> list_ref \<Rightarrow> 'v store \<Rightarrow> 'v store option" where
  "PushFrontList l other s =
     do {
       s \<leftarrow> lazyInit l s;
       i \<leftarrow> list_Len other s;
       e \<leftarrow> Back other s;
       PushFrontList_loop l i e s
     }"

declare PushBackList_loop.simps [simp del] PushFrontList_loop.simps [simp del]

end
