(* ===== verification/Container_List_Spec.thy ===== *)
theory Container_List_Spec
  imports Container_List
begin

text \<open>
  The abstract lists that \<^verbatim>\<open>container/list\<close> implements: finite sequences of element names, one per list, the value
  of every element, and the set of the elements that were in a list when \<^verbatim>\<open>Init\<close> cleared it. \<open>rep\<close> relates a store to them, and every operation keeps it.
\<close>

subsection \<open>Fields of the store\<close>

definition nx :: "(ref \<Rightarrow> 'v element option) \<Rightarrow> ref \<Rightarrow> ref" where "nx m p = elem_next (the (m p))"
definition pv :: "(ref \<Rightarrow> 'v element option) \<Rightarrow> ref \<Rightarrow> ref" where "pv m p = elem_prev (the (m p))"
definition ow :: "(ref \<Rightarrow> 'v element option) \<Rightarrow> ref \<Rightarrow> list_ref" where "ow m p = elem_list (the (m p))"
definition vl :: "(ref \<Rightarrow> 'v element option) \<Rightarrow> ref \<Rightarrow> 'v option" where "vl m p = Value (the (m p))"

definition next_upd :: "(ref \<Rightarrow> 'v element option) \<Rightarrow> ref \<Rightarrow> ref \<Rightarrow> ref \<Rightarrow> 'v element option" where
  "next_upd m p q = m(p := map_option (\<lambda>x. x\<lparr>elem_next := q\<rparr>) (m p))"
definition prev_upd :: "(ref \<Rightarrow> 'v element option) \<Rightarrow> ref \<Rightarrow> ref \<Rightarrow> ref \<Rightarrow> 'v element option" where
  "prev_upd m p q = m(p := map_option (\<lambda>x. x\<lparr>elem_prev := q\<rparr>) (m p))"
definition list_upd :: "(ref \<Rightarrow> 'v element option) \<Rightarrow> ref \<Rightarrow> list_ref \<Rightarrow> ref \<Rightarrow> 'v element option" where
  "list_upd m p l = m(p := map_option (\<lambda>x. x\<lparr>elem_list := l\<rparr>) (m p))"

lemma upd_dom [simp]:
  "next_upd m p q r = None \<longleftrightarrow> m r = None" "prev_upd m p q r = None \<longleftrightarrow> m r = None" "list_upd m p l r = None \<longleftrightarrow> m r = None"
  by (simp_all add: next_upd_def prev_upd_def list_upd_def)

lemma upd_fields [simp]:
  "nx (next_upd m p q) r = (if r = p \<and> m p \<noteq> None then q else nx m r)" "nx (prev_upd m p q) r = nx m r" "nx (list_upd m p l) r = nx m r"
  "pv (prev_upd m p q) r = (if r = p \<and> m p \<noteq> None then q else pv m r)" "pv (next_upd m p q) r = pv m r" "pv (list_upd m p l) r = pv m r"
  "ow (list_upd m p l) r = (if r = p \<and> m p \<noteq> None then l else ow m r)" "ow (next_upd m p q) r = ow m r" "ow (prev_upd m p q) r = ow m r"
  "vl (next_upd m p q) r = vl m r" "vl (prev_upd m p q) r = vl m r" "vl (list_upd m p l) r = vl m r"
  by (cases "m p"; simp add: next_upd_def prev_upd_def list_upd_def nx_def pv_def ow_def vl_def)+

lemma bind_mem: "m p \<noteq> None \<Longrightarrow> Option.bind (m p) f = f (the (m p))"
  by auto

lemmas fold_fields = nx_def [symmetric] pv_def [symmetric] ow_def [symmetric] vl_def [symmetric]

lemma set_eqs:
  "mem s p \<noteq> None \<Longrightarrow> set_next p q s = Some (s\<lparr>mem := next_upd (mem s) p q\<rparr>)"
  "mem s p \<noteq> None \<Longrightarrow> set_prev p q s = Some (s\<lparr>mem := prev_upd (mem s) p q\<rparr>)"
  "mem s p \<noteq> None \<Longrightarrow> set_list p l s = Some (s\<lparr>mem := list_upd (mem s) p l\<rparr>)"
  by (auto simp: set_next_def set_prev_def set_list_def next_upd_def prev_upd_def list_upd_def)

subsection \<open>What the pointer surgery does\<close>

definition link :: "(ref \<Rightarrow> 'v element option) \<Rightarrow> ref \<Rightarrow> ref \<Rightarrow> ref \<Rightarrow> 'v element option" where
  "link m e a = prev_upd (next_upd (next_upd (prev_upd m e a) e (nx m a)) a e) (nx m a) e"

definition unlink :: "(ref \<Rightarrow> 'v element option) \<Rightarrow> ref \<Rightarrow> ref \<Rightarrow> 'v element option" where
  "unlink m e = prev_upd (next_upd m (pv m e) (nx m e)) (nx m e) (pv m e)"

lemma list_insert_eq:
  assumes "mem s e \<noteq> None" "mem s a \<noteq> None" "mem s (nx (mem s) a) \<noteq> None" "e \<noteq> a" "lens s k = Some n"
  shows "list_insert (Some k) e a s =
    Some (e, s\<lparr>mem := list_upd (link (mem s) e a) e (Some k), lens := (lens s)(k \<mapsto> int64 (n + 1))\<rparr>)"
  using assms by (simp add: list_insert_def set_eqs bind_mem fold_fields link_def list_Len_def set_len_def)

lemma list_remove_eq:
  assumes "mem s e \<noteq> None" "mem s (pv (mem s) e) \<noteq> None" "mem s (nx (mem s) e) \<noteq> None" "e \<noteq> pv (mem s) e" "lens s k = Some n"
  shows "list_remove (Some k) e s =
    Some (e, s\<lparr>mem := list_upd (prev_upd (next_upd (unlink (mem s) e) e Null) e Null) e None, lens := (lens s)(k \<mapsto> int64 (n - 1))\<rparr>)"
  using assms by (simp add: list_remove_def set_eqs bind_mem fold_fields unlink_def list_Len_def set_len_def)

lemma list_move_eq:
  assumes "mem s e \<noteq> None" "mem s (pv (mem s) e) \<noteq> None" "mem s (nx (mem s) e) \<noteq> None" "e \<noteq> pv (mem s) e"
    "mem s a \<noteq> None" "mem s (nx (unlink (mem s) e) a) \<noteq> None" "e \<noteq> a"
  shows "list_move e a s = Some (e, s\<lparr>mem := link (unlink (mem s) e) e a\<rparr>)"
  using assms by (simp add: list_move_def set_eqs bind_mem fold_fields unlink_def link_def)

subsection \<open>Cycles\<close>

fun linked :: "(ref \<Rightarrow> 'v element option) \<Rightarrow> ref list \<Rightarrow> bool" where
  "linked m (x # y # p) \<longleftrightarrow> nx m x = y \<and> pv m y = x \<and> linked m (y # p)"
| "linked m _ = True"

lemma linked_append: "linked m (p @ x # q) \<longleftrightarrow> linked m (p @ [x]) \<and> linked m (x # q)"
proof (induction p)
  case (Cons y p)
  then show ?case by (cases p) auto
qed simp

lemma linked_frame:
  "(\<And>x. x \<in> set (butlast p) \<Longrightarrow> nx m' x = nx m x) \<Longrightarrow> (\<And>x. x \<in> set (tl p) \<Longrightarrow> pv m' x = pv m x) \<Longrightarrow> linked m' p = linked m p"
proof (induction m p rule: linked.induct)
  case (1 m x y p)
  then show ?case by (cases p) auto
qed auto

definition path :: "nat \<Rightarrow> nat list \<Rightarrow> ref list" where
  "path k es = Root k # map Elem es @ [Root k]"

definition cycle :: "(ref \<Rightarrow> 'v element option) \<Rightarrow> nat \<Rightarrow> nat list \<Rightarrow> bool" where
  "cycle m k es \<longleftrightarrow> linked m (path k es)"

text \<open>The neighbours of a gap in a list: the sentinel at either end.\<close>

definition before :: "nat \<Rightarrow> nat list \<Rightarrow> ref" where "before k xs = (if xs = [] then Root k else Elem (last xs))"
definition behind :: "nat \<Rightarrow> nat list \<Rightarrow> ref" where "behind k ys = (if ys = [] then Root k else Elem (hd ys))"

lemma path_gap: "path k (xs @ ys) = (butlast (Root k # map Elem xs) @ [before k xs]) @ behind k ys # tl (map Elem ys @ [Root k])"
proof -
  have "butlast (Root k # map Elem xs) @ [before k xs] = Root k # map Elem xs"
    by (cases xs rule: rev_cases) (simp_all add: before_def butlast_append)
  moreover have "behind k ys # tl (map Elem ys @ [Root k]) = map Elem ys @ [Root k]"
    by (cases ys) (simp_all add: behind_def)
  ultimately show ?thesis by (simp add: path_def)
qed

lemma linked_gap:
  "linked m ((p @ [a]) @ b # q) \<longleftrightarrow> linked m (p @ [a]) \<and> nx m a = b \<and> pv m b = a \<and> linked m (b # q)"
  using linked_append [of m p a "b # q"] by auto

lemma gap_mem: "before k xs \<in> insert (Root k) (Elem ` set xs)" "behind k ys \<in> insert (Root k) (Elem ` set ys)"
  by (auto simp: before_def behind_def)

lemma gap_out:
  assumes "set xs \<subseteq> E"
  shows "r \<notin> insert (Root k) (Elem ` E) \<Longrightarrow> r \<noteq> before k xs" "r \<notin> insert (Root k) (Elem ` E) \<Longrightarrow> r \<noteq> behind k xs"
  using gap_mem [of k xs] assms by blast+

lemma cycle_gap:
  "cycle m k (xs @ ys) \<Longrightarrow> nx m (before k xs) = behind k ys \<and> pv m (behind k ys) = before k xs"
  unfolding cycle_def path_gap linked_gap by blast

text \<open>The two sides of a gap in a list without repetitions.\<close>

lemma gap_sides:
  fixes xs ys :: "nat list"
  assumes "distinct (xs @ ys)"
  shows "set (butlast (butlast (Root k # map Elem xs) @ [before k xs])) \<subseteq> (insert (Root k) (Elem ` set xs)) - {before k xs}"
    "set (tl (butlast (Root k # map Elem xs) @ [before k xs])) \<subseteq> Elem ` set xs"
    "behind k ys \<notin> Elem ` set xs"
    "set (butlast (behind k ys # tl (map Elem ys @ [Root k]))) \<subseteq> Elem ` set ys"
    "before k xs \<notin> Elem ` set ys"
    "set (tl (behind k ys # tl (map Elem ys @ [Root k]))) \<subseteq> (insert (Root k) (Elem ` set ys)) - {behind k ys}"
proof -
  have x: "butlast (Root k # map Elem xs) @ [before k xs] = Root k # map Elem xs"
    by (cases xs rule: rev_cases) (simp_all add: before_def butlast_append)
  have y: "behind k ys # tl (map Elem ys @ [Root k]) = map Elem ys @ [Root k]"
    by (cases ys) (simp_all add: behind_def)
  show "set (tl (butlast (Root k # map Elem xs) @ [before k xs])) \<subseteq> Elem ` set xs" unfolding x by simp
  show "set (butlast (behind k ys # tl (map Elem ys @ [Root k]))) \<subseteq> Elem ` set ys" unfolding y by (simp add: butlast_append)
  show "set (butlast (butlast (Root k # map Elem xs) @ [before k xs])) \<subseteq> (insert (Root k) (Elem ` set xs)) - {before k xs}"
    using assms by (cases xs rule: rev_cases) (auto simp: before_def butlast_append)
  show "set (tl (behind k ys # tl (map Elem ys @ [Root k]))) \<subseteq> (insert (Root k) (Elem ` set ys)) - {behind k ys}"
    using assms by (cases ys) (auto simp: behind_def)
  show "behind k ys \<notin> Elem ` set xs" using assms by (cases ys) (auto simp: behind_def)
  show "before k xs \<notin> Elem ` set ys" using assms by (cases xs rule: rev_cases) (auto simp: before_def)
qed

lemma cycle_link:
  assumes c: "cycle m k (xs @ ys)" and d: "distinct (xs @ e # ys)" and m: "m (Elem e) \<noteq> None" "m (before k xs) \<noteq> None" "m (behind k ys) \<noteq> None"
  shows "cycle (link m (Elem e) (before k xs)) k (xs @ e # ys)"
proof -
  let ?m = "link m (Elem e) (before k xs)"
  define p where "p = butlast (Root k # map Elem xs)"
  define q where "q = tl (map Elem ys @ [Root k])"
  have old: "linked m (p @ [before k xs])" "nx m (before k xs) = behind k ys" "linked m (behind k ys # q)"
    using c unfolding cycle_def path_gap linked_gap p_def q_def by blast+
  have d': "distinct (xs @ ys)" "e \<notin> set xs" "e \<notin> set ys" using d by auto
  note sides = gap_sides [OF d'(1), of k, folded p_def q_def]
  have ne: "Elem e \<noteq> before k xs" "Elem e \<noteq> behind k ys" using gap_mem [of k xs] gap_mem [of k ys] d' by auto
  have nx: "nx ?m r = (if r = before k xs then Elem e else if r = Elem e then behind k ys else nx m r)" for r
    using m ne old(2) by (simp add: link_def)
  have pv: "pv ?m r = (if r = behind k ys then Elem e else if r = Elem e then before k xs else pv m r)" for r
    using m ne old(2) by (simp add: link_def)
  have 1: "linked ?m (p @ [before k xs])"
    using old(1) by (subst linked_frame [of _ ?m m]) (use sides d'(2) in \<open>auto simp: nx pv\<close>)
  have 2: "linked ?m (behind k ys # q)"
    using old(3) by (subst linked_frame [of _ ?m m]) (use sides d'(3) in \<open>auto simp: nx pv\<close>)
  have "linked ?m ((p @ [before k xs]) @ Elem e # behind k ys # q)"
    unfolding linked_gap using 1 2 ne by (simp add: nx pv)
  moreover have "path k (xs @ e # ys) = (p @ [before k xs]) @ Elem e # behind k ys # q"
    using path_gap [of k xs "e # ys"] path_gap [of k "[]" ys] unfolding p_def q_def
    by (cases ys) (simp_all add: behind_def path_def)
  ultimately show ?thesis by (simp add: cycle_def)
qed

lemma cycle_unlink:
  assumes c: "cycle m k (xs @ e # ys)" and d: "distinct (xs @ e # ys)" and m: "m (before k xs) \<noteq> None" "m (behind k ys) \<noteq> None"
  shows "cycle (unlink m (Elem e)) k (xs @ ys)" "pv m (Elem e) = before k xs" "nx m (Elem e) = behind k ys"
proof -
  let ?m = "unlink m (Elem e)"
  show pve: "pv m (Elem e) = before k xs" using cycle_gap [OF c] by (simp add: behind_def)
  show nxe: "nx m (Elem e) = behind k ys" using cycle_gap [of m k "xs @ [e]" ys] c by (simp add: before_def)
  define p where "p = butlast (Root k # map Elem xs)"
  define q where "q = tl (map Elem ys @ [Root k])"
  have d': "distinct (xs @ ys)" "e \<notin> set xs" "e \<notin> set ys" using d by auto
  note sides = gap_sides [OF d'(1), of k, folded p_def q_def]
  have old: "linked m (p @ [before k xs])"
    using c unfolding cycle_def path_gap linked_gap p_def by blast
  have old2: "linked m (behind k ys # q)"
  proof -
    have "cycle m k ((xs @ [e]) @ ys)" using c by simp
    then show ?thesis unfolding cycle_def path_gap linked_gap q_def by blast
  qed
  have nx: "nx ?m r = (if r = before k xs then behind k ys else nx m r)" for r
    using m pve nxe by (simp add: unlink_def)
  have pv: "pv ?m r = (if r = behind k ys then before k xs else pv m r)" for r
    using m pve nxe by (simp add: unlink_def)
  have 1: "linked ?m (p @ [before k xs])"
    using old by (subst linked_frame [of _ ?m m]) (use sides d'(2) in \<open>auto simp: nx pv\<close>)
  have 2: "linked ?m (behind k ys # q)"
    using old2 by (subst linked_frame [of _ ?m m]) (use sides d'(3) in \<open>auto simp: nx pv\<close>)
  show "cycle ?m k (xs @ ys)"
    unfolding cycle_def path_gap p_def [symmetric] q_def [symmetric] linked_gap using 1 2 by (simp add: nx pv)
qed

subsection \<open>Abstract lists\<close>

text \<open>The elements \<open>gone\<close> with a cleared list are in no sequence, but their pointer to the list is still set.\<close>

record 'v lists =
  seqs :: "nat \<Rightarrow> nat list"
  vals :: "nat \<Rightarrow> 'v option"
  gone :: "nat set"
  nelem :: nat
  nlist :: nat

definition list_ok :: "(ref \<Rightarrow> 'v element option) \<Rightarrow> nat \<Rightarrow> nat list \<Rightarrow> bool" where
  "list_ok m k es \<longleftrightarrow> distinct es \<and> (\<forall>e\<in>set es. m (Elem e) \<noteq> None \<and> ow m (Elem e) = Some k)
     \<and> (cycle m k es \<or> es = [] \<and> nx m (Root k) = Null)"

definition rep :: "'v store \<Rightarrow> 'v lists \<Rightarrow> bool" where
  "rep s A \<longleftrightarrow> fresh_elem s = nelem A \<and> fresh_list s = nlist A \<and> mem s Null = None
     \<and> (\<forall>k. mem s (Root k) \<noteq> None \<longleftrightarrow> k < nlist A) \<and> (\<forall>e. mem s (Elem e) \<noteq> None \<longleftrightarrow> e < nelem A)
     \<and> (\<forall>k<nlist A. lens s k = Some (int (length (seqs A k))) \<and> list_ok (mem s) k (seqs A k))
     \<and> (\<forall>e<nelem A. vl (mem s) (Elem e) = vals A e
          \<and> (\<forall>k. ow (mem s) (Elem e) = Some k \<longrightarrow> k < nlist A \<and> (e \<in> set (seqs A k) \<or> e \<in> gone A)))"

lemma field_cong:
  "m' r = m r \<Longrightarrow> nx m' r = nx m r" "m' r = m r \<Longrightarrow> pv m' r = pv m r" "m' r = m r \<Longrightarrow> ow m' r = ow m r" "m' r = m r \<Longrightarrow> vl m' r = vl m r"
  by (simp_all add: nx_def pv_def ow_def vl_def)

lemma cycle_frame:
  assumes "\<And>r. r \<in> insert (Root k) (Elem ` set es) \<Longrightarrow> m' r = m r"
  shows "cycle m' k es = cycle m k es"
  unfolding cycle_def
proof (rule linked_frame)
  fix x assume "x \<in> set (butlast (path k es))"
  then have "x \<in> insert (Root k) (Elem ` set es)" by (auto simp: path_def butlast_append dest: in_set_butlastD)
  then show "nx m' x = nx m x" using assms field_cong(1) by blast
next
  fix x assume "x \<in> set (tl (path k es))"
  then have "x \<in> insert (Root k) (Elem ` set es)" by (auto simp: path_def)
  then show "pv m' x = pv m x" using assms field_cong(2) by blast
qed

lemma list_ok_frame:
  assumes "\<And>r. r \<in> insert (Root k) (Elem ` set es) \<Longrightarrow> m' r = m r"
  shows "list_ok m' k es = list_ok m k es"
proof -
  have "m' (Elem e) = m (Elem e) \<and> ow m' (Elem e) = ow m (Elem e)" if "e \<in> set es" for e
    using assms [of "Elem e"] field_cong(3) [of m' "Elem e" m] that by auto
  moreover have "nx m' (Root k) = nx m (Root k)" using assms [of "Root k"] field_cong(1) by blast
  ultimately show ?thesis unfolding list_ok_def using cycle_frame [of k es m' m, OF assms] by auto
qed

lemma repD:
  assumes "rep s A"
  shows "mem s Null = None" "mem s (Root k) \<noteq> None \<longleftrightarrow> k < nlist A" "mem s (Elem e) \<noteq> None \<longleftrightarrow> e < nelem A"
    "k < nlist A \<Longrightarrow> lens s k = Some (int (length (seqs A k)))" "k < nlist A \<Longrightarrow> list_ok (mem s) k (seqs A k)"
    "e < nelem A \<Longrightarrow> vl (mem s) (Elem e) = vals A e"
    "fresh_elem s = nelem A" "fresh_list s = nlist A"
  using assms unfolding rep_def by blast+

lemma rep_owner: "rep s A \<Longrightarrow> e < nelem A \<Longrightarrow> ow (mem s) (Elem e) = Some k \<Longrightarrow> k < nlist A \<and> (e \<in> set (seqs A k) \<or> e \<in> gone A)"
  unfolding rep_def by blast

lemma rep_seq:
  assumes "rep s A" "k < nlist A"
  shows "distinct (seqs A k)" "e \<in> set (seqs A k) \<Longrightarrow> e < nelem A" "e \<in> set (seqs A k) \<Longrightarrow> ow (mem s) (Elem e) = Some k"
  using repD(5) [OF assms] repD(3) [OF assms(1), of e] unfolding list_ok_def by blast+

lemma rep_owner_iff: "rep s A \<Longrightarrow> e < nelem A \<Longrightarrow> e \<notin> gone A \<Longrightarrow> k < nlist A \<Longrightarrow> ow (mem s) (Elem e) = Some k \<longleftrightarrow> e \<in> set (seqs A k)"
  using rep_owner rep_seq(3) by blast

lemma rep_length:
  assumes "rep s A" "k < nlist A"
  shows "length (seqs A k) \<le> nelem A"
proof -
  have "set (seqs A k) \<subseteq> {..<nelem A}" using rep_seq(2) [OF assms(1)] assms(2) by auto
  then have "card (set (seqs A k)) \<le> nelem A" using card_mono [of "{..<nelem A}"] by simp
  then show ?thesis using rep_seq(1) [OF assms] by (simp add: distinct_card)
qed

text \<open>An operation that only touches one list: the sentinel, its elements, and elements of no list.\<close>

lemma rep_change_gone:
  assumes rep: "rep s A" and k: "k < nlist A"
    and dom: "\<And>r. m' r = None \<longleftrightarrow> mem s r = None"
    and same: "\<And>r. r \<notin> insert (Root k) (Elem ` E) \<Longrightarrow> m' r = mem s r"
    and vl: "\<And>r. vl m' r = vl (mem s) r"
    and E: "set (seqs A k) \<subseteq> E" "set es \<subseteq> E" "\<And>e j. e \<in> E \<Longrightarrow> e < nelem A \<and> (ow (mem s) (Elem e) = Some j \<longrightarrow> j = k)"
    and ow: "\<And>e. e \<in> E \<Longrightarrow> ow m' (Elem e) = (if e \<in> set es then Some k else None) \<or> e \<notin> set es \<and> e \<in> G \<and> ow m' (Elem e) = Some k"
    and G: "gone A \<subseteq> G"
    and ok: "distinct es" "cycle m' k es"
  shows "rep (s\<lparr>mem := m', lens := (lens s)(k \<mapsto> int (length es))\<rparr>) (A\<lparr>seqs := (seqs A)(k := es), gone := G\<rparr>)"
proof -
  have other: "list_ok m' j (seqs A j)" if j: "j < nlist A" "j \<noteq> k" for j
  proof -
    have "m' r = mem s r" if "r \<in> insert (Root j) (Elem ` set (seqs A j))" for r
    proof (rule same)
      show "r \<notin> insert (Root k) (Elem ` E)"
        using that j E(3) rep_seq(3) [OF rep j(1)] by auto
    qed
    then show ?thesis using list_ok_frame [of j "seqs A j" m' "mem s"] repD(5) [OF rep j(1)] by blast
  qed
  have "ow m' (Elem e) = Some k" if "e \<in> set es" for e using ow [of e] E(2) that by auto
  then have mine: "list_ok m' k es" using ok E(2,3) repD(3) [OF rep] by (auto simp: list_ok_def dom)
  have owner: "j < nlist A \<and> (e \<in> set (((seqs A)(k := es)) j) \<or> e \<in> G)" if "e < nelem A" "ow m' (Elem e) = Some j" for e j
  proof (cases "e \<in> E")
    case True
    then show ?thesis using ow [OF True] that k by (auto split: if_splits)
  next
    case False
    then have "m' (Elem e) = mem s (Elem e)" by (intro same) auto
    then have "ow (mem s) (Elem e) = Some j" using field_cong(3) [of m' "Elem e" "mem s"] that by simp
    then have "j < nlist A" "e \<in> set (seqs A j) \<or> e \<in> gone A" using rep_owner [OF rep that(1)] by blast+
    moreover have "e \<notin> set (seqs A k)" using E(1) False by auto
    ultimately show ?thesis using G by auto
  qed
  show ?thesis
    using rep k other mine owner vl dom unfolding rep_def by auto
qed

lemma rep_change:
  assumes rep: "rep s A" and k: "k < nlist A"
    and dom: "\<And>r. m' r = None \<longleftrightarrow> mem s r = None"
    and same: "\<And>r. r \<notin> insert (Root k) (Elem ` E) \<Longrightarrow> m' r = mem s r"
    and vl: "\<And>r. vl m' r = vl (mem s) r"
    and E: "set (seqs A k) \<subseteq> E" "set es \<subseteq> E" "\<And>e j. e \<in> E \<Longrightarrow> e < nelem A \<and> (ow (mem s) (Elem e) = Some j \<longrightarrow> j = k)"
    and ow: "\<And>e. e \<in> E \<Longrightarrow> ow m' (Elem e) = (if e \<in> set es then Some k else None)"
    and ok: "distinct es" "cycle m' k es"
  shows "rep (s\<lparr>mem := m', lens := (lens s)(k \<mapsto> int (length es))\<rparr>) (A\<lparr>seqs := (seqs A)(k := es)\<rparr>)"
proof -
  have "rep (s\<lparr>mem := m', lens := (lens s)(k \<mapsto> int (length es))\<rparr>) (A\<lparr>seqs := (seqs A)(k := es), gone := gone A\<rparr>)"
    by (rule rep_change_gone [OF rep k dom same vl E(1-3) _ _ ok]) (use ow in auto)
  then show ?thesis by simp
qed

subsection \<open>Inserting, removing, moving\<close>

definition add_elem :: "nat \<Rightarrow> nat list \<Rightarrow> nat list \<Rightarrow> 'v option \<Rightarrow> 'v lists \<Rightarrow> 'v lists" where
  "add_elem k xs ys v A =
     A\<lparr>seqs := (seqs A)(k := xs @ nelem A # ys), vals := (vals A)(nelem A := v), nelem := Suc (nelem A)\<rparr>"

definition set_seq :: "nat \<Rightarrow> nat list \<Rightarrow> 'v lists \<Rightarrow> 'v lists" where
  "set_seq k xs A = A\<lparr>seqs := (seqs A)(k := xs)\<rparr>"

lemma upd_other:
  "r \<notin> {e, a, nx m a} \<Longrightarrow> link m e a r = m r" "r \<notin> {pv m e, nx m e} \<Longrightarrow> unlink m e r = m r"
  by (auto simp: link_def unlink_def next_upd_def prev_upd_def)

lemma link_simps [simp]:
  "link m e a r = None \<longleftrightarrow> m r = None" "unlink m e r = None \<longleftrightarrow> m r = None"
  "ow (link m e a) r = ow m r" "ow (unlink m e) r = ow m r" "vl (link m e a) r = vl m r" "vl (unlink m e) r = vl m r"
  by (simp_all add: link_def unlink_def)

lemma cycle_list_upd [simp]: "cycle (list_upd m e l) k es = cycle m k es"
  unfolding cycle_def by (rule linked_frame) simp_all

lemma new_element_rep:
  assumes "rep s A"
  shows "rep (snd (new_element v s)) (A\<lparr>vals := (vals A)(nelem A := v), nelem := Suc (nelem A)\<rparr>)"
    "ow (mem (snd (new_element v s))) (Elem (nelem A)) = None"
proof -
  let ?m = "mem (snd (new_element v s))"
  have m: "?m r = mem s r" if "r \<noteq> Elem (nelem A)" for r using that repD(7) [OF assms] by (simp add: new_element_def)
  have new: "?m (Elem (nelem A)) \<noteq> None" "ow ?m (Elem (nelem A)) = None" "vl ?m (Elem (nelem A)) = v"
    using repD(7) [OF assms] by (simp_all add: new_element_def ow_def vl_def)
  have ok: "list_ok ?m k (seqs A k)" if "k < nlist A" for k
  proof -
    have "nelem A \<notin> set (seqs A k)" using rep_seq(2) [OF assms that] by auto
    then have "?m r = mem s r" if "r \<in> insert (Root k) (Elem ` set (seqs A k))" for r by (intro m) (use that in auto)
    then show ?thesis using list_ok_frame [of k "seqs A k" ?m "mem s"] repD(5) [OF assms that] by blast
  qed
  have e: "ow ?m (Elem e) = ow (mem s) (Elem e)" "vl ?m (Elem e) = vl (mem s) (Elem e)" if "e \<noteq> nelem A" for e
    using field_cong(3,4) [of ?m "Elem e" "mem s"] m [of "Elem e"] that by auto
  have f: "fresh_elem (snd (new_element v s)) = Suc (nelem A)" "fresh_list (snd (new_element v s)) = nlist A"
    "lens (snd (new_element v s)) = lens s" using repD(7,8) [OF assms] by (simp_all add: new_element_def)
  have 1: "?m (Elem e) \<noteq> None \<longleftrightarrow> e < Suc (nelem A)" for e
    using new(1) m [of "Elem e"] repD(3) [OF assms, of e] by (cases "e = nelem A") auto
  have 2: "?m (Root k) \<noteq> None \<longleftrightarrow> k < nlist A" for k using m [of "Root k"] repD(2) [OF assms] by simp
  have 3: "?m Null = None" using m [of Null] repD(1) [OF assms] by simp
  have 4: "vl ?m (Elem e) = ((vals A)(nelem A := v)) e \<and> (\<forall>k. ow ?m (Elem e) = Some k \<longrightarrow> k < nlist A \<and> (e \<in> set (seqs A k) \<or> e \<in> gone A))"
    if "e < Suc (nelem A)" for e
  proof (cases "e = nelem A")
    case True
    then show ?thesis using new by simp
  next
    case False
    then have "e < nelem A" using that by simp
    then show ?thesis using e [OF False] assms False unfolding rep_def by simp
  qed
  show "ow ?m (Elem (nelem A)) = None" by (rule new(2))
  show "rep (snd (new_element v s)) (A\<lparr>vals := (vals A)(nelem A := v), nelem := Suc (nelem A)\<rparr>)"
    unfolding rep_def using f 1 2 3 4 ok repD(4) [OF assms] by auto
qed

lemma gap_dom:
  assumes "rep s A" "k < nlist A" "set xs \<subseteq> set (seqs A k)"
  shows "mem s (before k xs) \<noteq> None" "mem s (behind k xs) \<noteq> None"
proof -
  have "mem s (Root k) \<noteq> None" using repD(2) [OF assms(1)] assms(2) by blast
  moreover have "mem s (Elem e) \<noteq> None" if "e \<in> set xs" for e
    using repD(3) [OF assms(1), of e] rep_seq(2) [OF assms(1,2), of e] assms(3) that by auto
  ultimately show "mem s (before k xs) \<noteq> None" "mem s (behind k xs) \<noteq> None"
    by (auto simp: before_def behind_def)
qed

lemma insertValue_rep:
  assumes rep: "rep s A" and k: "k < nlist A" and S: "seqs A k = xs @ ys" and c: "cycle (mem s) k (xs @ ys)"
    and b: "int (nelem A) < 2 ^ 63 - 1"
  shows "\<exists>s'. insertValue (Some k) v (before k xs) s = Some (Elem (nelem A), s') \<and> rep s' (add_elem k xs ys v A)
    \<and> cycle (mem s') k (xs @ nelem A # ys)"
proof -
  let ?e = "nelem A"
  let ?s = "snd (new_element v s)"
  let ?A = "A\<lparr>vals := (vals A)(nelem A := v), nelem := Suc (nelem A)\<rparr>"
  note r1 = new_element_rep [OF rep, of v]
  have d: "distinct (xs @ ys)" using rep_seq(1) [OF rep k] S by simp
  have e: "?e \<notin> set (xs @ ys)" using rep_seq(2) [OF rep k] S by auto
  then have d': "distinct (xs @ ?e # ys)" using d by auto
  have m: "mem ?s r = mem s r" if "r \<noteq> Elem ?e" for r using that repD(7) [OF rep] by (simp add: new_element_def)
  have "mem ?s r = mem s r" if "r \<in> insert (Root k) (Elem ` set (xs @ ys))" for r by (rule m) (use that e in auto)
  then have c1: "cycle (mem ?s) k (xs @ ys)" using cycle_frame [of k "xs @ ys" "mem ?s" "mem s"] c by blast
  have dom: "mem ?s (Elem ?e) \<noteq> None" using repD(3) [OF r1(1), of ?e] by simp
  have dom2: "mem ?s (before k xs) \<noteq> None" "mem ?s (behind k ys) \<noteq> None"
    using gap_dom [OF r1(1), of k xs] gap_dom [OF r1(1), of k ys] k S by auto
  have nxb: "nx (mem ?s) (before k xs) = behind k ys" using cycle_gap [OF c1] by blast
  have ne: "Elem ?e \<noteq> before k xs" using gap_mem(1) [of k xs] e by auto
  have len: "int64 (int (length (xs @ ys)) + 1) = int (length (xs @ ?e # ys))"
    using rep_length [OF rep k] S b by (subst int64_id) auto
  have lens: "lens ?s k = Some (int (length (xs @ ys)))" using repD(4) [OF rep k] S by (simp add: new_element_def)
  let ?m = "list_upd (link (mem ?s) (Elem ?e) (before k xs)) (Elem ?e) (Some k)"
  have c2: "cycle ?m k (xs @ ?e # ys)"
    using cycle_link [OF c1 d' dom dom2] by simp
  have "rep (?s\<lparr>mem := ?m, lens := (lens ?s)(k \<mapsto> int (length (xs @ ?e # ys)))\<rparr>) (?A\<lparr>seqs := (seqs ?A)(k := xs @ ?e # ys)\<rparr>)"
  proof (rule rep_change [OF r1(1), where E = "set (xs @ ?e # ys)"])
    show "k < nlist ?A" using k by simp
    fix r assume "r \<notin> insert (Root k) (Elem ` set (xs @ ?e # ys))"
    then have "r \<notin> {Elem ?e, before k xs, behind k ys}" using gap_mem [of k xs] gap_mem [of k ys] by auto
    then show "?m r = mem ?s r" using upd_other(1) [of r "Elem ?e" "before k xs" "mem ?s"] nxb by (simp add: list_upd_def)
  next
    fix e j assume "e \<in> set (xs @ ?e # ys)"
    then consider "e = ?e" | "e \<in> set (seqs A k)" using S by auto
    then show "e < nelem ?A \<and> (ow (mem ?s) (Elem e) = Some j \<longrightarrow> j = k)"
    proof cases
      case 1
      then show ?thesis using r1(2) by simp
    next
      case 2
      then show ?thesis using rep_seq(2) [OF rep k 2] rep_seq(3) [OF r1(1), of k e] k 2 by auto
    qed
  next
    fix e assume "e \<in> set (xs @ ?e # ys)"
    then consider "e = ?e" | "e \<in> set (seqs A k)" "e \<noteq> ?e" using S by auto
    then show "ow ?m (Elem e) = (if e \<in> set (xs @ ?e # ys) then Some k else None)"
    proof cases
      case 1
      then show ?thesis using dom by simp
    next
      case 2
      then show ?thesis using rep_seq(3) [OF r1(1), of k e] rep_seq(2) [OF rep k 2(1)] k S by auto
    qed
  qed (use S d' c2 in auto)
  moreover have "insertValue (Some k) v (before k xs) s =
      Some (Elem ?e, ?s\<lparr>mem := ?m, lens := (lens ?s)(k \<mapsto> int (length (xs @ ?e # ys)))\<rparr>)"
  proof -
    have "fst (new_element v s) = Elem ?e" using repD(7) [OF rep] by (simp add: new_element_def)
    moreover have "list_insert (Some k) (Elem ?e) (before k xs) ?s =
        Some (Elem ?e, ?s\<lparr>mem := ?m, lens := (lens ?s)(k \<mapsto> int64 (int (length (xs @ ys)) + 1))\<rparr>)"
      by (rule list_insert_eq [OF dom dom2(1) _ ne lens]) (simp add: nxb dom2(2))
    ultimately show ?thesis unfolding insertValue_def len by (simp add: case_prod_beta)
  qed
  moreover have "?A\<lparr>seqs := (seqs ?A)(k := xs @ ?e # ys)\<rparr> = add_elem k xs ys v A" by (simp add: add_elem_def)
  ultimately show ?thesis using c2 by auto
qed

lemma rep_cycle: "rep s A \<Longrightarrow> k < nlist A \<Longrightarrow> seqs A k \<noteq> [] \<Longrightarrow> cycle (mem s) k (seqs A k)"
  using repD(5) [of s A k] by (auto simp: list_ok_def)

lemma list_remove_rep:
  assumes rep: "rep s A" and k: "k < nlist A" and S: "seqs A k = xs @ e # ys" and b: "int (nelem A) < 2 ^ 63"
  shows "\<exists>s'. list_remove (Some k) (Elem e) s = Some (Elem e, s') \<and> rep s' (set_seq k (xs @ ys) A)"
proof -
  have c: "cycle (mem s) k (xs @ e # ys)" and d: "distinct (xs @ e # ys)"
    using rep_cycle [OF rep k] rep_seq(1) [OF rep k] S by auto
  have dom: "mem s (before k xs) \<noteq> None" "mem s (behind k ys) \<noteq> None"
    using gap_dom [OF rep k, of xs] gap_dom [OF rep k, of ys] S by auto
  note u = cycle_unlink [OF c d dom]
  have e: "e \<in> set (seqs A k)" using S by simp
  then have me: "mem s (Elem e) \<noteq> None" using repD(3) [OF rep, of e] rep_seq(2) [OF rep k] by auto
  let ?m = "list_upd (prev_upd (next_upd (unlink (mem s) (Elem e)) (Elem e) Null) (Elem e) Null) (Elem e) None"
  have ne: "Elem e \<noteq> before k xs" using gap_mem(1) [of k xs] d by auto
  have len: "int64 (int (length (xs @ e # ys)) - 1) = int (length (xs @ ys))"
    using rep_length [OF rep k] S b by (subst int64_id) auto
  have in': "e' \<in> set (xs @ e # ys) \<Longrightarrow> e' \<in> set (seqs A k)" for e' using S by simp
  have out: "Elem e \<notin> insert (Root k) (Elem ` set (xs @ ys))" using d by auto
  have "cycle (prev_upd (next_upd (unlink (mem s) (Elem e)) (Elem e) Null) (Elem e) Null) k (xs @ ys)"
    by (subst cycle_frame [of k "xs @ ys" _ "unlink (mem s) (Elem e)"])
      (use out u(1) in \<open>auto simp: next_upd_def prev_upd_def\<close>)
  then have c': "cycle ?m k (xs @ ys)" by simp
  have "rep (s\<lparr>mem := ?m, lens := (lens s)(k \<mapsto> int (length (xs @ ys)))\<rparr>) (A\<lparr>seqs := (seqs A)(k := xs @ ys)\<rparr>)"
  proof (rule rep_change [OF rep k, where E = "set (xs @ e # ys)"])
    fix r assume "r \<notin> insert (Root k) (Elem ` set (xs @ e # ys))"
    then have "r \<notin> {Elem e, before k xs, behind k ys}" using gap_mem [of k xs] gap_mem [of k ys] by auto
    then show "?m r = mem s r" using upd_other(2) [of r "mem s" "Elem e"] u(2,3) by (simp add: list_upd_def prev_upd_def next_upd_def)
  next
    fix e' j assume "e' \<in> set (xs @ e # ys)"
    then show "e' < nelem A \<and> (ow (mem s) (Elem e') = Some j \<longrightarrow> j = k)"
      using rep_seq(2,3) [OF rep k in'] by auto
  next
    fix e' assume "e' \<in> set (xs @ e # ys)"
    then show "ow ?m (Elem e') = (if e' \<in> set (xs @ ys) then Some k else None)"
      using rep_seq(3) [OF rep k in'] me d by auto
  qed (use S d c' in auto)
  moreover have "list_remove (Some k) (Elem e) s = Some (Elem e, s\<lparr>mem := ?m, lens := (lens s)(k \<mapsto> int (length (xs @ ys)))\<rparr>)"
    using list_remove_eq [of s "Elem e" k "int (length (xs @ e # ys))"] me dom u(2,3) ne repD(4) [OF rep k] S len by simp
  ultimately show ?thesis unfolding set_seq_def by blast
qed

lemma list_move_rep:
  assumes rep: "rep s A" and k: "k < nlist A" and S: "seqs A k = xs @ e # ys" and R: "xs @ ys = us @ vs"
  shows "\<exists>s'. list_move (Elem e) (before k us) s = Some (Elem e, s') \<and> rep s' (set_seq k (us @ e # vs) A)"
proof -
  have c: "cycle (mem s) k (xs @ e # ys)" and d: "distinct (xs @ e # ys)"
    using rep_cycle [OF rep k] rep_seq(1) [OF rep k] S by auto
  have sets: "set us \<union> set vs = set xs \<union> set ys" using R by (metis set_append)
  have d': "distinct (us @ e # vs)"
  proof -
    have "distinct (us @ vs)" using d by (simp flip: R)
    moreover have "e \<notin> set us \<union> set vs" using d sets by auto
    ultimately show ?thesis by auto
  qed
  have dom: "mem s (before k xs) \<noteq> None" "mem s (behind k ys) \<noteq> None" "mem s (before k us) \<noteq> None" "mem s (behind k vs) \<noteq> None"
    using gap_dom [OF rep k, of xs] gap_dom [OF rep k, of ys] gap_dom [OF rep k, of us] gap_dom [OF rep k, of vs] S sets by auto
  note u = cycle_unlink [OF c d dom(1,2)]
  have e: "e \<in> set (seqs A k)" using S by simp
  then have me: "mem s (Elem e) \<noteq> None" using repD(3) [OF rep, of e] rep_seq(2) [OF rep k] by auto
  let ?u = "unlink (mem s) (Elem e)"
  let ?m = "link ?u (Elem e) (before k us)"
  have ne: "Elem e \<noteq> before k xs" "Elem e \<noteq> before k us" using gap_mem(1) [of k xs] gap_mem(1) [of k us] d sets by auto
  have cu: "cycle ?u k (us @ vs)" using u(1) R by simp
  have nxb: "nx ?u (before k us) = behind k vs" using cycle_gap [OF cu] by blast
  have c': "cycle ?m k (us @ e # vs)" by (rule cycle_link [OF cu d']) (use me dom in auto)
  have in': "e' \<in> set (us @ e # vs) \<Longrightarrow> e' \<in> set (seqs A k)" for e' using S sets by auto
  have "rep (s\<lparr>mem := ?m, lens := (lens s)(k \<mapsto> int (length (us @ e # vs)))\<rparr>) (A\<lparr>seqs := (seqs A)(k := us @ e # vs)\<rparr>)"
  proof (rule rep_change [OF rep k, where E = "set (us @ e # vs)"])
    fix r assume r: "r \<notin> insert (Root k) (Elem ` set (us @ e # vs))"
    have sub: "set xs \<subseteq> set (us @ e # vs)" "set ys \<subseteq> set (us @ e # vs)" "set us \<subseteq> set (us @ e # vs)" "set vs \<subseteq> set (us @ e # vs)"
      using sets by auto
    have "r \<noteq> Elem e" "r \<noteq> before k xs" "r \<noteq> behind k ys" "r \<noteq> before k us" "r \<noteq> behind k vs"
      using r gap_out [OF sub(1)] gap_out [OF sub(2)] gap_out [OF sub(3)] gap_out [OF sub(4)] by auto
    then show "?m r = mem s r"
      using upd_other(2) [of r "mem s" "Elem e"] upd_other(1) [of r "Elem e" "before k us" ?u] u(2,3) nxb by simp
  next
    fix e' j assume "e' \<in> set (us @ e # vs)"
    then show "e' < nelem A \<and> (ow (mem s) (Elem e') = Some j \<longrightarrow> j = k)"
      using rep_seq(2,3) [OF rep k in'] by auto
  next
    fix e' assume "e' \<in> set (us @ e # vs)"
    then show "ow ?m (Elem e') = (if e' \<in> set (us @ e # vs) then Some k else None)"
      using rep_seq(3) [OF rep k in'] by auto
  qed (use S d' c' sets in auto)
  moreover have "list_move (Elem e) (before k us) s = Some (Elem e, s\<lparr>mem := ?m\<rparr>)"
    by (rule list_move_eq) (use me dom u(2,3) ne nxb in auto)
  moreover have "(lens s)(k \<mapsto> int (length (us @ e # vs))) = lens s"
  proof -
    have "length (us @ e # vs) = length (xs @ e # ys)" using arg_cong [OF R, of length] by simp
    then show ?thesis using repD(4) [OF rep k] S by (metis fun_upd_triv)
  qed
  ultimately show ?thesis unfolding set_seq_def by auto
qed

subsection \<open>Initialisation and observers\<close>

lemma cycle_empty: "cycle m k [] \<longleftrightarrow> nx m (Root k) = Root k \<and> pv m (Root k) = Root k"
  by (simp add: cycle_def path_def)

text \<open>What \<^verbatim>\<open>Init\<close> does: the list is empty, and the elements that were in it are gone.\<close>

definition clear_seq :: "nat \<Rightarrow> 'v lists \<Rightarrow> 'v lists" where
  "clear_seq k A = A\<lparr>seqs := (seqs A)(k := []), gone := gone A \<union> set (seqs A k)\<rparr>"

lemma clear_seq_empty: "seqs A k = [] \<Longrightarrow> clear_seq k A = A"
  by (cases A) (simp add: clear_seq_def fun_upd_idem)

lemma list_Init_clears:
  assumes rep: "rep s A" and k: "k < nlist A"
  shows "\<exists>s'. list_Init (Some k) s = Some s' \<and> rep s' (clear_seq k A) \<and> cycle (mem s') k []"
proof -
  let ?m = "prev_upd (next_upd (mem s) (Root k) (Root k)) (Root k) (Root k)"
  have dom: "mem s (Root k) \<noteq> None" using repD(2) [OF rep] k by blast
  then have c: "cycle ?m k []" by (simp add: cycle_empty)
  have "rep (s\<lparr>mem := ?m, lens := (lens s)(k \<mapsto> int (length ([]::nat list)))\<rparr>) (A\<lparr>seqs := (seqs A)(k := []), gone := gone A \<union> set (seqs A k)\<rparr>)"
  proof (rule rep_change_gone [OF rep k, where E = "set (seqs A k)"])
    fix r show "vl ?m r = vl (mem s) r" by simp
  next
    fix r assume "r \<notin> insert (Root k) (Elem ` set (seqs A k))"
    then show "?m r = mem s r" by (simp add: next_upd_def prev_upd_def)
  next
    fix e j assume "e \<in> set (seqs A k)"
    then show "e < nelem A \<and> (ow (mem s) (Elem e) = Some j \<longrightarrow> j = k)" using rep_seq(2,3) [OF rep k] by auto
  next
    fix e assume "e \<in> set (seqs A k)"
    then show "ow ?m (Elem e) = (if e \<in> set [] then Some k else None)
        \<or> e \<notin> set [] \<and> e \<in> gone A \<union> set (seqs A k) \<and> ow ?m (Elem e) = Some k" using rep_seq(3) [OF rep k] by simp
  qed (use c in auto)
  moreover have "list_Init (Some k) s = Some (s\<lparr>mem := ?m, lens := (lens s)(k \<mapsto> 0)\<rparr>)"
    using dom repD(4) [OF rep k] by (simp add: list_Init_def root_of_def set_eqs set_len_def)
  ultimately show ?thesis using c by (auto simp: clear_seq_def)
qed

lemma list_Init_rep:
  assumes "rep s A" "k < nlist A" "seqs A k = []"
  shows "\<exists>s'. list_Init (Some k) s = Some s' \<and> rep s' A \<and> cycle (mem s') k []"
  using list_Init_clears [OF assms(1,2)] unfolding clear_seq_empty [OF assms(3)] .

lemma lazyInit_rep:
  assumes rep: "rep s A" and k: "k < nlist A"
  shows "\<exists>s'. lazyInit (Some k) s = Some s' \<and> rep s' A \<and> cycle (mem s') k (seqs A k)"
proof -
  have dom: "mem s (Root k) \<noteq> None" using repD(2) [OF rep] k by blast
  have l: "lazyInit (Some k) s = (if nx (mem s) (Root k) = Null then list_Init (Some k) s else Some s)"
    using dom by (simp add: lazyInit_def root_of_def bind_mem fold_fields)
  show ?thesis
  proof (cases "nx (mem s) (Root k) = Null")
    case True
    have "\<not> cycle (mem s) k (seqs A k)"
    proof
      assume "cycle (mem s) k (seqs A k)"
      then have "nx (mem s) (Root k) = behind k (seqs A k)" using cycle_gap [of "mem s" k "[]" "seqs A k"] by (simp add: before_def)
      then show False using True by (auto simp: behind_def split: if_splits)
    qed
    then have "seqs A k = []" using repD(5) [OF rep k] by (auto simp: list_ok_def)
    then show ?thesis using list_Init_rep [OF rep k] l True by auto
  next
    case False
    then show ?thesis using l rep repD(5) [OF rep k] by (auto simp: list_ok_def)
  qed
qed

lemma zero_list_rep:
  assumes rep: "rep s A"
  shows "fst (zero_list s) = nlist A" "rep (snd (zero_list s)) (A\<lparr>seqs := (seqs A)(nlist A := []), nlist := Suc (nlist A)\<rparr>)"
proof -
  let ?s = "snd (zero_list s)"
  have m: "mem ?s r = mem s r" if "r \<noteq> Root (nlist A)" for r using that repD(8) [OF rep] by (simp add: zero_list_def)
  have new: "mem ?s (Root (nlist A)) \<noteq> None" "nx (mem ?s) (Root (nlist A)) = Null" "lens ?s (nlist A) = Some 0"
    using repD(8) [OF rep] by (simp_all add: zero_list_def nx_def)
  have ok: "list_ok (mem ?s) k (seqs A k)" "lens ?s k = lens s k" if "k < nlist A" for k
  proof -
    have "mem ?s r = mem s r" if "r \<in> insert (Root k) (Elem ` set (seqs A k))" for r
      by (rule m) (use that \<open>k < nlist A\<close> in auto)
    then show "list_ok (mem ?s) k (seqs A k)" using list_ok_frame [of k "seqs A k" "mem ?s" "mem s"] repD(5) [OF rep that] by blast
    show "lens ?s k = lens s k" using that repD(8) [OF rep] by (simp add: zero_list_def)
  qed
  have el: "mem ?s (Elem e) = mem s (Elem e)" for e by (rule m) simp
  have 1: "ow (mem ?s) (Elem e) = ow (mem s) (Elem e)" "vl (mem ?s) (Elem e) = vl (mem s) (Elem e)" for e
    using field_cong(3,4) [of "mem ?s" "Elem e" "mem s"] el [of e] by blast+
  have 2: "mem ?s (Root k) \<noteq> None \<longleftrightarrow> k < Suc (nlist A)" for k
    using new(1) m [of "Root k"] repD(2) [OF rep, of k] by (cases "k = nlist A") auto
  have 3: "mem ?s Null = None" using m [of Null] repD(1) [OF rep] by simp
  have f: "fresh_elem ?s = nelem A" "fresh_list ?s = Suc (nlist A)" using repD(7,8) [OF rep] by (simp_all add: zero_list_def)
  have new_ok: "list_ok (mem ?s) (nlist A) []" using new by (simp add: list_ok_def)
  show "fst (zero_list s) = nlist A" using repD(8) [OF rep] by (simp add: zero_list_def)
  have own: "k < Suc (nlist A) \<and> (e \<in> set (((seqs A)(nlist A := [])) k) \<or> e \<in> gone A)" if "e < nelem A" "ow (mem s) (Elem e) = Some k" for e k
    using rep_owner [OF rep that] by auto
  show "rep ?s (A\<lparr>seqs := (seqs A)(nlist A := []), nlist := Suc (nlist A)\<rparr>)"
    unfolding rep_def using f 2 3 el 1 repD(3,6) [OF rep] own new(3) new_ok ok repD(4) [OF rep] by (auto simp: less_Suc_eq)
qed

lemma Front_rep:
  assumes rep: "rep s A" and k: "k < nlist A"
  shows "Front (Some k) s = Some (if seqs A k = [] then Null else Elem (hd (seqs A k)))"
    "Back (Some k) s = Some (if seqs A k = [] then Null else Elem (last (seqs A k)))"
    "list_Len (Some k) s = Some (int (length (seqs A k)))"
proof -
  have dom: "mem s (Root k) \<noteq> None" using repD(2) [OF rep] k by blast
  show len: "list_Len (Some k) s = Some (int (length (seqs A k)))" using repD(4) [OF rep k] by (simp add: list_Len_def)
  have "nx (mem s) (Root k) = behind k (seqs A k)" "pv (mem s) (Root k) = before k (seqs A k)" if "seqs A k \<noteq> []"
    using cycle_gap [of "mem s" k "[]" "seqs A k"] cycle_gap [of "mem s" k "seqs A k" "[]"] rep_cycle [OF rep k that]
    by (simp_all add: before_def behind_def)
  then show "Front (Some k) s = Some (if seqs A k = [] then Null else Elem (hd (seqs A k)))"
    "Back (Some k) s = Some (if seqs A k = [] then Null else Elem (last (seqs A k)))"
    using len dom by (auto simp: Front_def Back_def root_of_def bind_mem fold_fields behind_def before_def)
qed

lemma Element_Next_rep:
  assumes rep: "rep s A" and k: "k < nlist A" and S: "seqs A k = xs @ e # ys"
  shows "Element_Next (Elem e) s = Some (if ys = [] then Null else Elem (hd ys))"
    "Element_Prev (Elem e) s = Some (if xs = [] then Null else Elem (last xs))"
proof -
  have e: "e \<in> set (seqs A k)" using S by simp
  then have me: "mem s (Elem e) \<noteq> None" using repD(3) [OF rep, of e] rep_seq(2) [OF rep k] by auto
  have c: "cycle (mem s) k (xs @ e # ys)" using rep_cycle [OF rep k] S by simp
  have "pv (mem s) (Elem e) = before k xs" using cycle_gap [OF c] by (simp add: behind_def)
  moreover have "nx (mem s) (Elem e) = behind k ys" using cycle_gap [of "mem s" k "xs @ [e]" ys] c by (simp add: before_def)
  ultimately show "Element_Next (Elem e) s = Some (if ys = [] then Null else Elem (hd ys))"
    "Element_Prev (Elem e) s = Some (if xs = [] then Null else Elem (last xs))"
    using me rep_seq(3) [OF rep k e] by (auto simp: Element_Next_def Element_Prev_def bind_mem fold_fields root_of_def before_def behind_def)
qed

lemma Element_Next_free:
  assumes rep: "rep s A" and e: "e < nelem A" "\<And>k. k < nlist A \<Longrightarrow> e \<notin> set (seqs A k)" "e \<notin> gone A"
  shows "Element_Next (Elem e) s = Some Null" "Element_Prev (Elem e) s = Some Null"
proof -
  have me: "mem s (Elem e) \<noteq> None" using repD(3) [OF rep, of e] e(1) by auto
  moreover have "ow (mem s) (Elem e) = None" using rep_owner [OF rep e(1)] e(2,3) by (cases "ow (mem s) (Elem e)") auto
  ultimately show "Element_Next (Elem e) s = Some Null" "Element_Prev (Elem e) s = Some Null"
    by (simp_all add: Element_Next_def Element_Prev_def bind_mem fold_fields)
qed

end
