(* ===== verification/Container_List_Properties.thy ===== *)
theory Container_List_Properties
  imports Container_List_Spec
begin

text \<open>
  The operations of \<^verbatim>\<open>container/list\<close> as calls, what each call does to the abstract lists, and the refinement: any
  sequence of calls on the pointer structure gives the results of the abstract sequences.
\<close>

subsection \<open>Calls\<close>

text \<open>Lists and elements are named by the numbers of their allocation.\<close>

datatype 'v list_call =
    CNew | CVar | CInit nat | CLen nat | CFront nat | CBack nat | CNext nat | CPrev nat
  | CRemove nat nat | CPushFront nat "'v option" | CPushBack nat "'v option"
  | CInsertBefore nat "'v option" nat | CInsertAfter nat "'v option" nat
  | CMoveToFront nat nat | CMoveToBack nat nat | CMoveBefore nat nat nat | CMoveAfter nat nat nat
  | CPushBackList nat nat | CPushFrontList nat nat

datatype 'v list_result = RUnit | RList nat | RInt int | RRef ref | RVal "'v option"

fun run_call :: "'v list_call \<Rightarrow> 'v store \<Rightarrow> ('v list_result \<times> 'v store) option" where
  "run_call CNew s = do { (l, s) \<leftarrow> list_New s; k \<leftarrow> l; Some (RList k, s) }"
| "run_call CVar s = (let (k, s) = zero_list s in Some (RList k, s))"
| "run_call (CInit k) s = do { s \<leftarrow> list_Init (Some k) s; Some (RUnit, s) }"
| "run_call (CLen k) s = do { n \<leftarrow> list_Len (Some k) s; Some (RInt n, s) }"
| "run_call (CFront k) s = do { e \<leftarrow> Front (Some k) s; Some (RRef e, s) }"
| "run_call (CBack k) s = do { e \<leftarrow> Back (Some k) s; Some (RRef e, s) }"
| "run_call (CNext e) s = do { e \<leftarrow> Element_Next (Elem e) s; Some (RRef e, s) }"
| "run_call (CPrev e) s = do { e \<leftarrow> Element_Prev (Elem e) s; Some (RRef e, s) }"
| "run_call (CRemove k e) s = do { (v, s) \<leftarrow> list_Remove (Some k) (Elem e) s; Some (RVal v, s) }"
| "run_call (CPushFront k v) s = do { (e, s) \<leftarrow> PushFront (Some k) v s; Some (RRef e, s) }"
| "run_call (CPushBack k v) s = do { (e, s) \<leftarrow> PushBack (Some k) v s; Some (RRef e, s) }"
| "run_call (CInsertBefore k v e) s = do { (e, s) \<leftarrow> InsertBefore (Some k) v (Elem e) s; Some (RRef e, s) }"
| "run_call (CInsertAfter k v e) s = do { (e, s) \<leftarrow> InsertAfter (Some k) v (Elem e) s; Some (RRef e, s) }"
| "run_call (CMoveToFront k e) s = do { s \<leftarrow> MoveToFront (Some k) (Elem e) s; Some (RUnit, s) }"
| "run_call (CMoveToBack k e) s = do { s \<leftarrow> MoveToBack (Some k) (Elem e) s; Some (RUnit, s) }"
| "run_call (CMoveBefore k e m) s = do { s \<leftarrow> MoveBefore (Some k) (Elem e) (Elem m) s; Some (RUnit, s) }"
| "run_call (CMoveAfter k e m) s = do { s \<leftarrow> MoveAfter (Some k) (Elem e) (Elem m) s; Some (RUnit, s) }"
| "run_call (CPushBackList k j) s = do { s \<leftarrow> PushBackList (Some k) (Some j) s; Some (RUnit, s) }"
| "run_call (CPushFrontList k j) s = do { s \<leftarrow> PushFrontList (Some k) (Some j) s; Some (RUnit, s) }"

text \<open>The element of a sequence that follows or precedes a position, and the list an element is in.\<close>

definition ref_of :: "nat list \<Rightarrow> ref" where "ref_of ys = (if ys = [] then Null else Elem (hd ys))"

definition ahead :: "nat \<Rightarrow> nat list \<Rightarrow> nat list" where "ahead e xs = takeWhile (\<lambda>x. x \<noteq> e) xs"
definition since :: "nat \<Rightarrow> nat list \<Rightarrow> nat list" where "since e xs = dropWhile (\<lambda>x. x \<noteq> e) xs"

definition home :: "nat \<Rightarrow> 'v lists \<Rightarrow> nat list" where
  "home e A = (case filter (\<lambda>k. e \<in> set (seqs A k)) [0..<nlist A] of [] \<Rightarrow> [] | k # _ \<Rightarrow> seqs A k)"

definition push_back :: "nat \<Rightarrow> 'v option \<Rightarrow> 'v lists \<Rightarrow> 'v lists" where
  "push_back k v A = add_elem k (seqs A k) [] v A"

definition push_front :: "nat \<Rightarrow> 'v option \<Rightarrow> 'v lists \<Rightarrow> 'v lists" where
  "push_front k v A = add_elem k [] (seqs A k) v A"

fun spec_call :: "'v list_call \<Rightarrow> 'v lists \<Rightarrow> 'v list_result \<times> 'v lists" where
  "spec_call CNew A = (RList (nlist A), A\<lparr>seqs := (seqs A)(nlist A := []), nlist := Suc (nlist A)\<rparr>)"
| "spec_call CVar A = (RList (nlist A), A\<lparr>seqs := (seqs A)(nlist A := []), nlist := Suc (nlist A)\<rparr>)"
| "spec_call (CInit k) A = (RUnit, clear_seq k A)"
| "spec_call (CLen k) A = (RInt (int (length (seqs A k))), A)"
| "spec_call (CFront k) A = (RRef (ref_of (seqs A k)), A)"
| "spec_call (CBack k) A = (RRef (ref_of (rev (seqs A k))), A)"
| "spec_call (CNext e) A = (RRef (ref_of (tl (since e (home e A)))), A)"
| "spec_call (CPrev e) A = (RRef (ref_of (rev (ahead e (home e A)))), A)"
| "spec_call (CRemove k e) A = (RVal (vals A e), set_seq k (remove1 e (seqs A k)) A)"
| "spec_call (CPushFront k v) A = (RRef (Elem (nelem A)), push_front k v A)"
| "spec_call (CPushBack k v) A = (RRef (Elem (nelem A)), push_back k v A)"
| "spec_call (CInsertBefore k v e) A =
     (if e \<in> set (seqs A k) then (RRef (Elem (nelem A)), add_elem k (ahead e (seqs A k)) (since e (seqs A k)) v A) else (RRef Null, A))"
| "spec_call (CInsertAfter k v e) A =
     (if e \<in> set (seqs A k)
      then (RRef (Elem (nelem A)), add_elem k (ahead e (seqs A k) @ [e]) (tl (since e (seqs A k))) v A) else (RRef Null, A))"
| "spec_call (CMoveToFront k e) A =
     (RUnit, if e \<in> set (seqs A k) then set_seq k (e # remove1 e (seqs A k)) A else A)"
| "spec_call (CMoveToBack k e) A =
     (RUnit, if e \<in> set (seqs A k) then set_seq k (remove1 e (seqs A k) @ [e]) A else A)"
| "spec_call (CMoveBefore k e m) A =
     (RUnit, if e \<in> set (seqs A k) \<and> m \<in> set (seqs A k) \<and> e \<noteq> m
             then let xs = remove1 e (seqs A k) in set_seq k (ahead m xs @ e # since m xs) A else A)"
| "spec_call (CMoveAfter k e m) A =
     (RUnit, if e \<in> set (seqs A k) \<and> m \<in> set (seqs A k) \<and> e \<noteq> m
             then let xs = remove1 e (seqs A k) in set_seq k (ahead m xs @ m # e # tl (since m xs)) A else A)"
| "spec_call (CPushBackList k j) A = (RUnit, fold (push_back k) (map (vals A) (seqs A j)) A)"
| "spec_call (CPushFrontList k j) A = (RUnit, fold (push_front k) (rev (map (vals A) (seqs A j))) A)"

text \<open>
  The arguments a call may have: existing lists and elements, and fewer than 2^63 - 1 elements in all. An element that was in a
  list when \<^verbatim>\<open>Init\<close> cleared it may not be an argument any more: its pointer to the list is still set, so that the code takes it
  for an element of the list (the theorem at the end).
\<close>

definition usable :: "nat \<Rightarrow> 'v lists \<Rightarrow> bool" where
  "usable e A \<longleftrightarrow> e < nelem A \<and> e \<notin> gone A"

fun call_ok :: "'v list_call \<Rightarrow> 'v lists \<Rightarrow> bool" where
  "call_ok CNew A = True" | "call_ok CVar A = True"
| "call_ok (CInit k) A \<longleftrightarrow> k < nlist A"
| "call_ok (CLen k) A \<longleftrightarrow> k < nlist A" | "call_ok (CFront k) A \<longleftrightarrow> k < nlist A" | "call_ok (CBack k) A \<longleftrightarrow> k < nlist A"
| "call_ok (CNext e) A \<longleftrightarrow> usable e A" | "call_ok (CPrev e) A \<longleftrightarrow> usable e A"
| "call_ok (CRemove k e) A \<longleftrightarrow> k < nlist A \<and> usable e A \<and> int (nelem A) < 2 ^ 63"
| "call_ok (CPushFront k v) A \<longleftrightarrow> k < nlist A \<and> int (nelem A) < 2 ^ 63 - 1"
| "call_ok (CPushBack k v) A \<longleftrightarrow> k < nlist A \<and> int (nelem A) < 2 ^ 63 - 1"
| "call_ok (CInsertBefore k v e) A \<longleftrightarrow> k < nlist A \<and> usable e A \<and> int (nelem A) < 2 ^ 63 - 1"
| "call_ok (CInsertAfter k v e) A \<longleftrightarrow> k < nlist A \<and> usable e A \<and> int (nelem A) < 2 ^ 63 - 1"
| "call_ok (CMoveToFront k e) A \<longleftrightarrow> k < nlist A \<and> usable e A" | "call_ok (CMoveToBack k e) A \<longleftrightarrow> k < nlist A \<and> usable e A"
| "call_ok (CMoveBefore k e m) A \<longleftrightarrow> k < nlist A \<and> usable e A \<and> usable m A"
| "call_ok (CMoveAfter k e m) A \<longleftrightarrow> k < nlist A \<and> usable e A \<and> usable m A"
| "call_ok (CPushBackList k j) A \<longleftrightarrow> k < nlist A \<and> j < nlist A \<and> int (nelem A + length (seqs A j)) < 2 ^ 63 - 1"
| "call_ok (CPushFrontList k j) A \<longleftrightarrow> k < nlist A \<and> j < nlist A \<and> int (nelem A + length (seqs A j)) < 2 ^ 63 - 1"

subsection \<open>Each call\<close>

definition refines :: "('v list_result \<times> 'v store) option \<Rightarrow> 'v list_result \<times> 'v lists \<Rightarrow> bool" where
  "refines r q \<longleftrightarrow> (\<exists>s'. r = Some (fst q, s') \<and> rep s' (snd q))"

lemma split_at:
  assumes "e \<in> set xs"
  shows "xs = ahead e xs @ e # tl (since e xs)" "since e xs = e # tl (since e xs)" "e \<notin> set (ahead e xs)"
proof -
  have "since e xs = e # tl (since e xs)"
    using assms hd_dropWhile [of "\<lambda>x. x \<noteq> e" xs] unfolding since_def
    by (metis (mono_tags, lifting) dropWhile_eq_Nil_conv list.collapse)
  then show "since e xs = e # tl (since e xs)" .
  then show "xs = ahead e xs @ e # tl (since e xs)" unfolding ahead_def since_def by (metis takeWhile_dropWhile_id)
  show "e \<notin> set (ahead e xs)" by (auto simp: ahead_def dest: set_takeWhileD)
qed

lemma owner_of:
  assumes "rep s A" "e < nelem A"
  obtains x where "mem s (Elem e) = Some x" "\<And>k. k < nlist A \<Longrightarrow> e \<in> set (seqs A k) \<Longrightarrow> elem_list x = Some k"
    "\<And>k. k < nlist A \<Longrightarrow> e \<notin> gone A \<Longrightarrow> elem_list x = Some k \<longleftrightarrow> e \<in> set (seqs A k)"
    "elem_prev x = pv (mem s) (Elem e)" "elem_next x = nx (mem s) (Elem e)" "Value x = vals A e"
proof -
  obtain x where x: "mem s (Elem e) = Some x" using repD(3) [OF assms(1), of e] assms(2) by auto
  have "elem_list x = Some k \<longleftrightarrow> e \<in> set (seqs A k)" if "k < nlist A" "e \<notin> gone A" for k
    using rep_owner_iff [OF assms that(2,1)] x by (simp add: ow_def)
  moreover have "elem_list x = Some k" if "k < nlist A" "e \<in> set (seqs A k)" for k
    using rep_seq(3) [OF assms(1) that] x by (simp add: ow_def)
  ultimately show thesis using that [of x] x repD(6) [OF assms] by (simp add: pv_def nx_def vl_def)
qed

lemma owner_usable:
  assumes "rep s A" "usable e A"
  obtains x where "mem s (Elem e) = Some x" "\<And>k. k < nlist A \<Longrightarrow> elem_list x = Some k \<longleftrightarrow> e \<in> set (seqs A k)"
    "elem_prev x = pv (mem s) (Elem e)" "Value x = vals A e"
proof -
  have e: "e < nelem A" "e \<notin> gone A" using assms(2) by (simp_all add: usable_def)
  show thesis by (rule owner_of [OF assms(1) e(1)]) (rule that, use e(2) in auto)
qed

lemma home_eq:
  assumes "rep s A" "k < nlist A" "e \<in> set (seqs A k)"
  shows "home e A = seqs A k"
proof -
  have "e < nelem A" using rep_seq(2) [OF assms(1,2)] assms(3) by simp
  then have only: "j = k" if "j < nlist A" "e \<in> set (seqs A j)" for j
    using that rep_seq(3) [OF assms(1), of j e] rep_seq(3) [OF assms(1), of k e] assms by auto
  show ?thesis
  proof (cases "filter (\<lambda>k. e \<in> set (seqs A k)) [0..<nlist A]")
    case Nil
    then show ?thesis using assms by (auto simp: filter_empty_conv)
  next
    case (Cons j js)
    then have "j \<in> set (filter (\<lambda>k. e \<in> set (seqs A k)) [0..<nlist A])" by simp
    then have "j = k" using only by auto
    then show ?thesis using Cons by (simp add: home_def)
  qed
qed

lemma call_Next:
  assumes rep: "rep s A" and e: "usable e A"
  shows "Element_Next (Elem e) s = Some (ref_of (tl (since e (home e A))))" "Element_Prev (Elem e) s = Some (ref_of (rev (ahead e (home e A))))"
proof -
  have "Element_Next (Elem e) s = Some (ref_of (tl (since e (home e A)))) \<and> Element_Prev (Elem e) s = Some (ref_of (rev (ahead e (home e A))))"
  proof (cases "\<exists>k<nlist A. e \<in> set (seqs A k)")
    case True
    then obtain k where k: "k < nlist A" "e \<in> set (seqs A k)" by blast
    show ?thesis
      using Element_Next_rep [OF rep k(1) split_at(1) [OF k(2)]] home_eq [OF rep k] by (simp add: ref_of_def hd_rev)
  next
    case False
    then have "filter (\<lambda>k. e \<in> set (seqs A k)) [0..<nlist A] = []" by (auto simp: filter_empty_conv)
    then have "home e A = []" by (simp add: home_def)
    then show ?thesis using Element_Next_free [OF rep, of e] e False by (simp add: ahead_def since_def ref_of_def usable_def)
  qed
  then show "Element_Next (Elem e) s = Some (ref_of (tl (since e (home e A))))"
    "Element_Prev (Elem e) s = Some (ref_of (rev (ahead e (home e A))))" by blast+
qed

lemma call_PushBack:
  assumes rep: "rep s A" and k: "k < nlist A" and b: "int (nelem A) < 2 ^ 63 - 1"
  shows "\<exists>s'. PushBack (Some k) v s = Some (Elem (nelem A), s') \<and> rep s' (push_back k v A)"
proof -
  obtain s1 where s1: "lazyInit (Some k) s = Some s1" "rep s1 A" "cycle (mem s1) k (seqs A k)" using lazyInit_rep [OF rep k] by blast
  have "pv (mem s1) (Root k) = before k (seqs A k)" using cycle_gap [of "mem s1" k "seqs A k" "[]"] s1(3) by (simp add: behind_def)
  moreover have "mem s1 (Root k) \<noteq> None" using repD(2) [OF s1(2)] k by blast
  ultimately show ?thesis
    using insertValue_rep [OF s1(2) k, of "seqs A k" "[]" v] s1 b
    by (auto simp: PushBack_def root_of_def bind_mem fold_fields push_back_def)
qed

lemma call_PushFront:
  assumes rep: "rep s A" and k: "k < nlist A" and b: "int (nelem A) < 2 ^ 63 - 1"
  shows "\<exists>s'. PushFront (Some k) v s = Some (Elem (nelem A), s') \<and> rep s' (push_front k v A)"
proof -
  obtain s1 where s1: "lazyInit (Some k) s = Some s1" "rep s1 A" "cycle (mem s1) k (seqs A k)" using lazyInit_rep [OF rep k] by blast
  then show ?thesis
    using insertValue_rep [OF s1(2) k, of "[]" "seqs A k" v] b by (auto simp: PushFront_def root_of_def push_front_def before_def)
qed

lemma call_Insert:
  assumes rep: "rep s A" and k: "k < nlist A" and e: "e \<in> set (seqs A k)" and b: "int (nelem A) < 2 ^ 63 - 1"
  shows "\<exists>s'. InsertBefore (Some k) v (Elem e) s = Some (Elem (nelem A), s') \<and> rep s' (add_elem k (ahead e (seqs A k)) (since e (seqs A k)) v A)"
    "\<exists>s'. InsertAfter (Some k) v (Elem e) s = Some (Elem (nelem A), s') \<and> rep s' (add_elem k (ahead e (seqs A k) @ [e]) (tl (since e (seqs A k))) v A)"
proof -
  have e': "e < nelem A" using rep_seq(2) [OF rep k] e by simp
  note sp = split_at [OF e]
  have c: "cycle (mem s) k (seqs A k)" using rep_cycle [OF rep k] e by force
  have S: "seqs A k = ahead e (seqs A k) @ since e (seqs A k)" "seqs A k = (ahead e (seqs A k) @ [e]) @ tl (since e (seqs A k))"
    using sp(1,2) by auto
  have "pv (mem s) (behind k (since e (seqs A k))) = before k (ahead e (seqs A k))"
    using cycle_gap [of "mem s" k "ahead e (seqs A k)" "since e (seqs A k)"] c S(1) by simp
  moreover have "behind k (since e (seqs A k)) = Elem e" using sp(2) by (simp add: behind_def) (metis list.discI list.sel(1))
  ultimately have pv: "pv (mem s) (Elem e) = before k (ahead e (seqs A k))" by simp
  obtain x where x: "mem s (Elem e) = Some x" "elem_list x = Some k" "elem_prev x = pv (mem s) (Elem e)"
    using owner_of [OF rep e'] e k by metis
  show "\<exists>s'. InsertBefore (Some k) v (Elem e) s = Some (Elem (nelem A), s') \<and> rep s' (add_elem k (ahead e (seqs A k)) (since e (seqs A k)) v A)"
    using insertValue_rep [OF rep k S(1) _ b, of v] c S(1) x pv by (auto simp: InsertBefore_def)
  show "\<exists>s'. InsertAfter (Some k) v (Elem e) s = Some (Elem (nelem A), s') \<and> rep s' (add_elem k (ahead e (seqs A k) @ [e]) (tl (since e (seqs A k))) v A)"
    using insertValue_rep [OF rep k S(2) _ b, of v] c S(2) x by (auto simp: InsertAfter_def before_def)
qed

lemma remove1_split: "e \<in> set xs \<Longrightarrow> remove1 e xs = ahead e xs @ tl (since e xs)"
  using split_at(1,3) [of e xs] by (metis remove1.simps(2) remove1_append)

lemma call_Remove:
  assumes rep: "rep s A" and k: "k < nlist A" and e: "usable e A" and b: "int (nelem A) < 2 ^ 63"
  shows "\<exists>s'. list_Remove (Some k) (Elem e) s = Some (vals A e, s') \<and> rep s' (set_seq k (remove1 e (seqs A k)) A)"
proof (cases "e \<in> set (seqs A k)")
  case True
  obtain s1 where s1: "list_remove (Some k) (Elem e) s = Some (Elem e, s1)" "rep s1 (set_seq k (remove1 e (seqs A k)) A)"
    using list_remove_rep [OF rep k split_at(1) [OF True] b] remove1_split [OF True] by auto
  obtain x where x: "mem s (Elem e) = Some x" "elem_list x = Some k" using owner_usable [OF rep e] True k by metis
  have "e < nelem (set_seq k (remove1 e (seqs A k)) A)" using e by (simp add: set_seq_def usable_def)
  then obtain y where "mem s1 (Elem e) = Some y" "Value y = vals (set_seq k (remove1 e (seqs A k)) A) e"
    by (rule owner_of [OF s1(2)])
  then have "mem s1 (Elem e) = Some y" "Value y = vals A e" by (simp_all add: set_seq_def)
  then show ?thesis using x s1 by (auto simp: list_Remove_def)
next
  case False
  obtain x where x: "mem s (Elem e) = Some x" "elem_list x \<noteq> Some k" "Value x = vals A e" using owner_usable [OF rep e] False k by metis
  have "set_seq k (remove1 e (seqs A k)) A = A" using False by (simp add: set_seq_def remove1_idem)
  then show ?thesis using x rep by (auto simp: list_Remove_def)
qed

lemma call_Move:
  assumes rep: "rep s A" and k: "k < nlist A" and e: "e \<in> set (seqs A k)" and R: "remove1 e (seqs A k) = us @ vs"
  shows "\<exists>s'. list_move (Elem e) (before k us) s = Some (Elem e, s') \<and> rep s' (set_seq k (us @ e # vs) A)"
  by (rule list_move_rep [OF rep k split_at(1) [OF e]]) (use R remove1_split [OF e] in simp)

lemma call_MoveToFront:
  assumes rep: "rep s A" and k: "k < nlist A" and e: "usable e A"
  shows "\<exists>s'. MoveToFront (Some k) (Elem e) s = Some s' \<and> rep s' (if e \<in> set (seqs A k) then set_seq k (e # remove1 e (seqs A k)) A else A)"
proof (cases "e \<in> set (seqs A k)")
  case True
  obtain x where x: "mem s (Elem e) = Some x" "elem_list x = Some k" using owner_usable [OF rep e] True k by metis
  obtain r where r: "mem s (Root k) = Some r" using repD(2) [OF rep, of k] k by auto
  have n: "elem_next r = behind k (seqs A k)"
    using cycle_gap [of "mem s" k "[]" "seqs A k"] rep_cycle [OF rep k] True r by (force simp: before_def nx_def)
  obtain s' where s': "list_move (Elem e) (Root k) s = Some (Elem e, s')" "rep s' (set_seq k (e # remove1 e (seqs A k)) A)"
    using call_Move [OF rep k True, of "[]"] by (auto simp: before_def)
  show ?thesis
  proof (cases "behind k (seqs A k) = Elem e")
    case True': True
    then obtain ys where "seqs A k = e # ys" using True by (cases "seqs A k") (auto simp: behind_def)
    then have "set_seq k (e # remove1 e (seqs A k)) A = A" by (simp add: set_seq_def fun_upd_idem)
    then show ?thesis using x r n rep True True' by (simp add: MoveToFront_def root_of_def)
  next
    case False
    then show ?thesis using x r n s' True by (simp add: MoveToFront_def root_of_def)
  qed
next
  case False
  obtain x where x: "mem s (Elem e) = Some x" "elem_list x \<noteq> Some k" using owner_usable [OF rep e] False k by metis
  then show ?thesis using rep False by (simp add: MoveToFront_def)
qed

lemma call_MoveToBack:
  assumes rep: "rep s A" and k: "k < nlist A" and e: "usable e A"
  shows "\<exists>s'. MoveToBack (Some k) (Elem e) s = Some s' \<and> rep s' (if e \<in> set (seqs A k) then set_seq k (remove1 e (seqs A k) @ [e]) A else A)"
proof (cases "e \<in> set (seqs A k)")
  case True
  obtain x where x: "mem s (Elem e) = Some x" "elem_list x = Some k" using owner_usable [OF rep e] True k by metis
  obtain r where r: "mem s (Root k) = Some r" using repD(2) [OF rep, of k] k by auto
  have n: "elem_prev r = before k (seqs A k)"
    using cycle_gap [of "mem s" k "seqs A k" "[]"] rep_cycle [OF rep k] True r by (force simp: behind_def pv_def)
  have d: "distinct (seqs A k)" by (rule rep_seq(1) [OF rep k])
  show ?thesis
  proof (cases "before k (seqs A k) = Elem e")
    case True': True
    then obtain ys where ys: "seqs A k = ys @ [e]" using True by (cases "seqs A k" rule: rev_cases) (auto simp: before_def)
    then have "set_seq k (remove1 e (seqs A k) @ [e]) A = A" using d by (simp add: set_seq_def remove1_append fun_upd_idem)
    then show ?thesis using x r n rep True True' by (simp add: MoveToBack_def root_of_def)
  next
    case False
    then have "tl (since e (seqs A k)) \<noteq> []" using split_at(1) [OF True] True
      by (metis before_def empty_iff empty_set last_snoc)
    then have "before k (remove1 e (seqs A k)) = before k (seqs A k)"
      using split_at(1) [OF True] remove1_split [OF True] True unfolding before_def
      by (metis append_is_Nil_conv last_appendR last_ConsR list.discI)
    then obtain s' where "list_move (Elem e) (before k (seqs A k)) s = Some (Elem e, s')" "rep s' (set_seq k (remove1 e (seqs A k) @ [e]) A)"
      using call_Move [OF rep k True, of "remove1 e (seqs A k)" "[]"] by auto
    then show ?thesis using x r n False True by (simp add: MoveToBack_def root_of_def)
  qed
next
  case False
  obtain x where x: "mem s (Elem e) = Some x" "elem_list x \<noteq> Some k" using owner_usable [OF rep e] False k by metis
  then show ?thesis using rep False by (simp add: MoveToBack_def)
qed

lemma ahead_split: "m \<notin> set xs \<Longrightarrow> ahead m (xs @ m # ys) = xs" "m \<notin> set xs \<Longrightarrow> since m (xs @ m # ys) = m # ys"
  by (induction xs) (auto simp: ahead_def since_def)

lemma ahead_remove1:
  assumes "distinct S" "e \<in> set S" "m \<in> set S" "e \<noteq> m"
  shows "ahead m (remove1 e S) = remove1 e (ahead m S)" "since m (remove1 e S) = m # remove1 e (tl (since m S))"
proof -
  obtain xs ys where S: "S = xs @ m # ys" and n: "m \<notin> set xs" using split_at(1,3) [OF assms(3)] by blast
  have "e \<in> set xs \<Longrightarrow> e \<notin> set ys" using assms(1) S by auto
  then have "e \<in> set xs \<Longrightarrow> remove1 e ys = ys" by (simp add: remove1_idem)
  then have "remove1 e S = remove1 e xs @ m # remove1 e ys"
    using assms(4) S by (auto simp: remove1_append remove1_idem)
  moreover have "m \<notin> set (remove1 e xs)" using n by (metis notin_set_remove1)
  ultimately show "ahead m (remove1 e S) = remove1 e (ahead m S)" "since m (remove1 e S) = m # remove1 e (tl (since m S))"
    using n by (simp_all add: ahead_split S)
qed

lemma call_MoveBefore:
  assumes rep: "rep s A" and k: "k < nlist A" and e: "usable e A" and m: "usable m A"
  shows "\<exists>s'. MoveBefore (Some k) (Elem e) (Elem m) s = Some s' \<and> rep s' (snd (spec_call (CMoveBefore k e m) A))"
proof -
  obtain x where x: "mem s (Elem e) = Some x" "elem_list x = Some k \<longleftrightarrow> e \<in> set (seqs A k)" using owner_usable [OF rep e] k by metis
  obtain y where y: "mem s (Elem m) = Some y" "elem_list y = Some k \<longleftrightarrow> m \<in> set (seqs A k)" "elem_prev y = pv (mem s) (Elem m)"
    using owner_usable [OF rep m] k by metis
  let ?S = "seqs A k"
  show ?thesis
  proof (cases "e \<in> set ?S \<and> m \<in> set ?S \<and> e \<noteq> m")
    case True
    have d: "distinct ?S" by (rule rep_seq(1) [OF rep k])
    have S: "?S = ahead m ?S @ m # tl (since m ?S)" using split_at(1) [of m ?S] True by blast
    have "cycle (mem s) k ?S" using rep_cycle [OF rep k] True by force
    then have "pv (mem s) (behind k (m # tl (since m ?S))) = before k (ahead m ?S)"
      using cycle_gap [of "mem s" k "ahead m ?S" "m # tl (since m ?S)"] S by simp
    then have pv: "elem_prev y = before k (ahead m ?S)" using y(3) by (simp add: behind_def)
    have R: "remove1 e ?S = ahead m (remove1 e ?S) @ since m (remove1 e ?S)" by (simp add: ahead_def since_def)
    show ?thesis
    proof (cases "before k (ahead m ?S) = Elem e")
      case last: True
      then obtain us where us: "ahead m ?S = us @ [e]" by (cases "ahead m ?S" rule: rev_cases) (auto simp: before_def)
      have "distinct (us @ [e])" using d S us by (metis distinct_append)
      then have "remove1 e (us @ [e]) = us" by (simp add: remove1_append)
      moreover have "remove1 e (tl (since m ?S)) = tl (since m ?S)"
        using d S us by (metis append.assoc append_Cons distinct_append distinct.simps(2) in_set_conv_decomp remove1_idem)
      ultimately have "ahead m (remove1 e ?S) @ e # since m (remove1 e ?S) = ?S"
        using ahead_remove1 [OF d, of e m] True us S by simp
      then have "set_seq k (ahead m (remove1 e ?S) @ e # since m (remove1 e ?S)) A = A" by (simp add: set_seq_def fun_upd_idem)
      then show ?thesis using x y pv True last rep by (simp add: MoveBefore_def list_move_def Let_def)
    next
      case False
      then have "before k (remove1 e (ahead m ?S)) = before k (ahead m ?S)"
        by (cases "ahead m ?S" rule: rev_cases) (auto simp: before_def remove1_append)
      then have "before k (ahead m (remove1 e ?S)) = elem_prev y" using ahead_remove1(1) [OF d, of e m] True pv by simp
      then show ?thesis using call_Move [OF rep k _ R] x y True by (auto simp: MoveBefore_def Let_def)
    qed
  next
    case False
    then show ?thesis using x y rep by (auto simp: MoveBefore_def)
  qed
qed

lemma call_MoveAfter:
  assumes rep: "rep s A" and k: "k < nlist A" and e: "usable e A" and m: "usable m A"
  shows "\<exists>s'. MoveAfter (Some k) (Elem e) (Elem m) s = Some s' \<and> rep s' (snd (spec_call (CMoveAfter k e m) A))"
proof -
  obtain x where x: "mem s (Elem e) = Some x" "elem_list x = Some k \<longleftrightarrow> e \<in> set (seqs A k)" using owner_usable [OF rep e] k by metis
  obtain y where y: "mem s (Elem m) = Some y" "elem_list y = Some k \<longleftrightarrow> m \<in> set (seqs A k)" using owner_usable [OF rep m] k by metis
  show ?thesis
  proof (cases "e \<in> set (seqs A k) \<and> m \<in> set (seqs A k) \<and> e \<noteq> m")
    case True
    then have "m \<in> set (remove1 e (seqs A k))" by simp
    then have "remove1 e (seqs A k) = (ahead m (remove1 e (seqs A k)) @ [m]) @ tl (since m (remove1 e (seqs A k)))"
      using split_at(1) [of m "remove1 e (seqs A k)"] by simp
    from call_Move [OF rep k _ this] show ?thesis using x y True by (auto simp: MoveAfter_def Let_def before_def)
  next
    case False
    then show ?thesis using x y rep by (auto simp: MoveAfter_def)
  qed
qed

text \<open>The copying loops: what is left of the other list, and where the element pointer stands.\<close>

lemma push_simps [simp]:
  "nlist (push_back k v A) = nlist A" "nelem (push_back k v A) = Suc (nelem A)" "nlist (push_front k v A) = nlist A"
  "nelem (push_front k v A) = Suc (nelem A)"
  "seqs (push_back k v A) j = (if j = k then seqs A k @ [nelem A] else seqs A j)"
  "seqs (push_front k v A) j = (if j = k then nelem A # seqs A k else seqs A j)"
  "vals (push_back k v A) = (vals A)(nelem A := v)" "vals (push_front k v A) = (vals A)(nelem A := v)"
  "gone (push_back k v A) = gone A" "gone (push_front k v A) = gone A"
  by (simp_all add: push_back_def push_front_def add_elem_def)

lemma PushBackList_loop_rep:
  assumes "rep s A" "k < nlist A" "j < nlist A" "seqs A j = pre @ rest @ post" "rest \<noteq> [] \<Longrightarrow> e = Elem (hd rest)"
    "cycle (mem s) k (seqs A k)" "int (nelem A + length rest) < 2 ^ 63 - 1"
  shows "\<exists>s'. PushBackList_loop (Some k) (int (length rest)) e s = Some s' \<and> rep s' (fold (push_back k) (map (vals A) rest) A)"
  using assms
proof (induction rest arbitrary: s A pre post e)
  case Nil
  then show ?case by (simp add: PushBackList_loop.simps)
next
  case (Cons x rest)
  note rep = Cons.prems(1) and k = Cons.prems(2) and j = Cons.prems(3)
  let ?A = "push_back k (vals A x) A"
  have e: "e = Elem x" and xj: "x \<in> set (seqs A j)" using Cons.prems(4,5) by simp_all
  have xn: "x < nelem A" by (rule rep_seq(2) [OF rep j xj])
  obtain mx where mx: "mem s (Elem x) = Some mx" "Value mx = vals A x" using owner_of [OF rep xn] by metis
  obtain r where r: "mem s (Root k) = Some r" using repD(2) [OF rep, of k] k by auto
  have p: "elem_prev r = before k (seqs A k)"
    using cycle_gap [of "mem s" k "seqs A k" "[]"] Cons.prems(6) r by (simp add: behind_def pv_def)
  obtain s1 where s1: "insertValue (Some k) (vals A x) (before k (seqs A k)) s = Some (Elem (nelem A), s1)" "rep s1 ?A"
    "cycle (mem s1) k (seqs ?A k)"
    using insertValue_rep [OF rep k, of "seqs A k" "[]" "vals A x"] Cons.prems(6,7) by (auto simp: push_back_def add_elem_def)
  obtain post' where S1: "seqs ?A j = pre @ x # rest @ post'" using Cons.prems(4) by (cases "j = k") auto
  have n: "Element_Next (Elem x) s1 = Some (if rest @ post' = [] then Null else Elem (hd (rest @ post')))"
    by (rule Element_Next_rep(1) [OF s1(2) _ S1]) (use j in simp)
  have v: "map (vals A) rest = map (vals ?A) rest"
    using rep_seq(2) [OF rep j] Cons.prems(4) by auto
  have "\<exists>s'. PushBackList_loop (Some k) (int (length rest)) (if rest @ post' = [] then Null else Elem (hd (rest @ post'))) s1 = Some s'
      \<and> rep s' (fold (push_back k) (map (vals ?A) rest) ?A)"
    by (rule Cons.IH [OF s1(2), of "pre @ [x]" post']) (use k j S1 s1(3) Cons.prems(7) in auto)
  then show ?case
    using mx r p s1(1) n e by (subst PushBackList_loop.simps) (simp add: root_of_def v)
qed

lemma PushFrontList_loop_rep:
  assumes "rep s A" "k < nlist A" "j < nlist A" "seqs A j = pre @ rev rest @ post" "rest \<noteq> [] \<Longrightarrow> e = Elem (hd rest)"
    "cycle (mem s) k (seqs A k)" "int (nelem A + length rest) < 2 ^ 63 - 1"
  shows "\<exists>s'. PushFrontList_loop (Some k) (int (length rest)) e s = Some s' \<and> rep s' (fold (push_front k) (map (vals A) rest) A)"
  using assms
proof (induction rest arbitrary: s A pre post e)
  case Nil
  then show ?case by (simp add: PushFrontList_loop.simps)
next
  case (Cons x rest)
  note rep = Cons.prems(1) and k = Cons.prems(2) and j = Cons.prems(3)
  let ?A = "push_front k (vals A x) A"
  have e: "e = Elem x" and xj: "x \<in> set (seqs A j)" using Cons.prems(4,5) by simp_all
  have xn: "x < nelem A" by (rule rep_seq(2) [OF rep j xj])
  obtain mx where mx: "mem s (Elem x) = Some mx" "Value mx = vals A x" using owner_of [OF rep xn] by metis
  obtain r where r: "mem s (Root k) = Some r" using repD(2) [OF rep, of k] k by auto
  obtain s1 where s1: "insertValue (Some k) (vals A x) (Root k) s = Some (Elem (nelem A), s1)" "rep s1 ?A"
    "cycle (mem s1) k (seqs ?A k)"
    using insertValue_rep [OF rep k, of "[]" "seqs A k" "vals A x"] Cons.prems(6,7) by (auto simp: push_front_def add_elem_def before_def)
  obtain pre' where S1: "seqs ?A j = (pre' @ rev rest) @ x # post" using Cons.prems(4) by (cases "j = k") auto
  have n: "Element_Prev (Elem x) s1 = Some (if pre' @ rev rest = [] then Null else Elem (last (pre' @ rev rest)))"
    by (rule Element_Next_rep(2) [OF s1(2) _ S1]) (use j in simp)
  have v: "map (vals A) rest = map (vals ?A) rest"
    using rep_seq(2) [OF rep j] Cons.prems(4) by auto
  have "\<exists>s'. PushFrontList_loop (Some k) (int (length rest)) (if pre' @ rev rest = [] then Null else Elem (last (pre' @ rev rest))) s1 = Some s'
      \<and> rep s' (fold (push_front k) (map (vals ?A) rest) ?A)"
    by (rule Cons.IH [OF s1(2), of pre' "x # post"]) (use k j S1 s1(3) Cons.prems(7) in \<open>auto simp: last_rev\<close>)
  then show ?case
    using mx r s1(1) n e by (subst PushFrontList_loop.simps) (simp add: root_of_def v)
qed

lemma call_PushList:
  assumes rep: "rep s A" and k: "k < nlist A" and j: "j < nlist A" and b: "int (nelem A + length (seqs A j)) < 2 ^ 63 - 1"
  shows "\<exists>s'. PushBackList (Some k) (Some j) s = Some s' \<and> rep s' (fold (push_back k) (map (vals A) (seqs A j)) A)"
    "\<exists>s'. PushFrontList (Some k) (Some j) s = Some s' \<and> rep s' (fold (push_front k) (rev (map (vals A) (seqs A j))) A)"
proof -
  obtain s1 where s1: "lazyInit (Some k) s = Some s1" "rep s1 A" "cycle (mem s1) k (seqs A k)" using lazyInit_rep [OF rep k] by blast
  note f = Front_rep [OF s1(2) j]
  show "\<exists>s'. PushBackList (Some k) (Some j) s = Some s' \<and> rep s' (fold (push_back k) (map (vals A) (seqs A j)) A)"
    using PushBackList_loop_rep [OF s1(2) k j, of "[]" "seqs A j" "[]"] s1 f b by (auto simp: PushBackList_def)
  show "\<exists>s'. PushFrontList (Some k) (Some j) s = Some s' \<and> rep s' (fold (push_front k) (rev (map (vals A) (seqs A j))) A)"
    using PushFrontList_loop_rep [OF s1(2) k j, of "[]" "rev (seqs A j)" "[]"] s1 f b
    by (auto simp: PushFrontList_def rev_map hd_rev)
qed

lemma call_refines:
  assumes rep: "rep s A" and ok: "call_ok c A"
  shows "refines (run_call c s) (spec_call c A)"
proof (cases c)
  case CNew
  have "rep (snd (zero_list s)) (A\<lparr>seqs := (seqs A)(nlist A := []), nlist := Suc (nlist A)\<rparr>)" by (rule zero_list_rep(2) [OF rep])
  from list_Init_rep [OF this, of "nlist A"] show ?thesis
    using zero_list_rep(1) [OF rep] CNew by (auto simp: refines_def list_New_def case_prod_beta)
next
  case CVar
  then show ?thesis using zero_list_rep [OF rep] by (auto simp: refines_def case_prod_beta)
next
  case (CInit k)
  then show ?thesis using list_Init_clears [OF rep, of k] ok by (auto simp: refines_def)
next
  case (CLen k)
  then show ?thesis using Front_rep(3) [OF rep, of k] ok rep by (auto simp: refines_def)
next
  case (CFront k)
  then show ?thesis using Front_rep(1) [OF rep, of k] ok rep by (auto simp: refines_def ref_of_def)
next
  case (CBack k)
  then show ?thesis using Front_rep(2) [OF rep, of k] ok rep by (auto simp: refines_def ref_of_def hd_rev)
next
  case (CNext e)
  then show ?thesis using call_Next(1) [OF rep, of e] ok rep by (auto simp: refines_def)
next
  case (CPrev e)
  then show ?thesis using call_Next(2) [OF rep, of e] ok rep by (auto simp: refines_def)
next
  case (CRemove k e)
  then show ?thesis using call_Remove [OF rep, of k e] ok by (auto simp: refines_def)
next
  case (CPushFront k v)
  then show ?thesis using call_PushFront [OF rep, of k v] ok by (auto simp: refines_def)
next
  case (CPushBack k v)
  then show ?thesis using call_PushBack [OF rep, of k v] ok by (auto simp: refines_def)
next
  case (CInsertBefore k v e)
  then have k: "k < nlist A" "usable e A" "int (nelem A) < 2 ^ 63 - 1" using ok by auto
  obtain x where "mem s (Elem e) = Some x" "elem_list x = Some k \<longleftrightarrow> e \<in> set (seqs A k)" using owner_usable [OF rep k(2)] k(1) by metis
  then show ?thesis using call_Insert(1) [OF rep k(1) _ k(3), of e v] CInsertBefore rep
    by (cases "e \<in> set (seqs A k)") (auto simp: refines_def InsertBefore_def)
next
  case (CInsertAfter k v e)
  then have k: "k < nlist A" "usable e A" "int (nelem A) < 2 ^ 63 - 1" using ok by auto
  obtain x where "mem s (Elem e) = Some x" "elem_list x = Some k \<longleftrightarrow> e \<in> set (seqs A k)" using owner_usable [OF rep k(2)] k(1) by metis
  then show ?thesis using call_Insert(2) [OF rep k(1) _ k(3), of e v] CInsertAfter rep
    by (cases "e \<in> set (seqs A k)") (auto simp: refines_def InsertAfter_def)
next
  case (CMoveToFront k e)
  then show ?thesis using call_MoveToFront [OF rep, of k e] ok by (auto simp: refines_def)
next
  case (CMoveToBack k e)
  then show ?thesis using call_MoveToBack [OF rep, of k e] ok by (auto simp: refines_def)
next
  case (CMoveBefore k e m)
  then obtain s' where "MoveBefore (Some k) (Elem e) (Elem m) s = Some s'" "rep s' (snd (spec_call c A))"
    using call_MoveBefore [OF rep, of k e m] ok by auto
  then show ?thesis unfolding CMoveBefore refines_def by simp
next
  case (CMoveAfter k e m)
  then obtain s' where "MoveAfter (Some k) (Elem e) (Elem m) s = Some s'" "rep s' (snd (spec_call c A))"
    using call_MoveAfter [OF rep, of k e m] ok by auto
  then show ?thesis unfolding CMoveAfter refines_def by simp
next
  case (CPushBackList k j)
  then show ?thesis using call_PushList(1) [OF rep, of k j] ok by (auto simp: refines_def)
next
  case (CPushFrontList k j)
  then show ?thesis using call_PushList(2) [OF rep, of k j] ok by (auto simp: refines_def)
qed

subsection \<open>Sequences of calls\<close>

definition empty_store :: "'v store" where
  "empty_store = \<lparr>mem = (\<lambda>_. None), lens = (\<lambda>_. None), fresh_elem = 0, fresh_list = 0\<rparr>"

definition no_lists :: "'v lists" where
  "no_lists = \<lparr>seqs = (\<lambda>_. []), vals = (\<lambda>_. None), gone = {}, nelem = 0, nlist = 0\<rparr>"

fun run_calls :: "'v list_call list \<Rightarrow> 'v store \<Rightarrow> ('v list_result list \<times> 'v store) option" where
  "run_calls [] s = Some ([], s)"
| "run_calls (c # cs) s = do { (r, s) \<leftarrow> run_call c s; (rs, s) \<leftarrow> run_calls cs s; Some (r # rs, s) }"

fun spec_calls :: "'v list_call list \<Rightarrow> 'v lists \<Rightarrow> 'v list_result list \<times> 'v lists" where
  "spec_calls [] A = ([], A)"
| "spec_calls (c # cs) A = (let (r, A) = spec_call c A; (rs, A) = spec_calls cs A in (r # rs, A))"

fun calls_ok :: "'v list_call list \<Rightarrow> 'v lists \<Rightarrow> bool" where
  "calls_ok [] A = True"
| "calls_ok (c # cs) A \<longleftrightarrow> call_ok c A \<and> calls_ok cs (snd (spec_call c A))"

lemma calls_refine:
  "rep s A \<Longrightarrow> calls_ok cs A \<Longrightarrow> \<exists>s'. run_calls cs s = Some (fst (spec_calls cs A), s') \<and> rep s' (snd (spec_calls cs A))"
proof (induction cs arbitrary: s A)
  case (Cons c cs)
  obtain s1 where s1: "run_call c s = Some (fst (spec_call c A), s1)" "rep s1 (snd (spec_call c A))"
    using call_refines [OF Cons.prems(1), of c] Cons.prems(2) by (auto simp: refines_def)
  from Cons.IH [OF s1(2)] Cons.prems(2) show ?case using s1(1) by (auto simp: case_prod_beta Let_def)
qed simp

lemma rep_empty: "rep empty_store no_lists"
  by (simp add: rep_def empty_store_def no_lists_def)

subsection \<open>The properties\<close>

text \<open>
  C3 (linked lists implement sequences). Any sequence of calls on any number of lists, from an empty store on, in which no call is given an
  element that was in a list when Init cleared it, runs without a panic and returns what the same calls on abstract sequences return: the
  elements inserted, the values removed, the lengths, the first and last elements and the neighbours of an element; copying a list into itself
  and clearing a list with elements included. (Lists and elements exist when they are used, and there are fewer than 2^63 - 1 elements.) The
  elements of a cleared list are excluded because the code goes wrong on them: see the next theorem.
\<close>

theorem list_refines_sequences:
  assumes "calls_ok cs no_lists"
  shows "\<exists>s'. run_calls cs empty_store = Some (fst (spec_calls cs no_lists), s')"
  using calls_refine [OF rep_empty assms] by blast

theorem list_refines_sequences_witness:
  "\<exists>s'. run_calls [CVar, CPushBack 0 (Some True), CPushFront 0 None, CMoveToBack 0 1, CPushBackList 0 0, CRemove 0 0, CNext 1, CLen 0, CInit 0, CPushFront 0 None, CLen 0] empty_store
     = Some ([RList 0, RRef (Elem 0), RRef (Elem 1), RUnit, RUnit, RVal (Some True), RRef (Elem 2), RInt 3, RUnit, RRef (Elem 4), RInt 1], s')"
proof -
  let ?cs = "[CVar, CPushBack 0 (Some True), CPushFront 0 None, CMoveToBack 0 1, CPushBackList 0 0, CRemove 0 0, CNext 1, CLen 0, CInit 0, CPushFront 0 None, CLen 0]"
  have ok: "calls_ok ?cs no_lists" by (simp add: no_lists_def set_seq_def usable_def clear_seq_def)
  have spec: "fst (spec_calls ?cs no_lists) = [RList 0, RRef (Elem 0), RRef (Elem 1), RUnit, RUnit, RVal (Some True), RRef (Elem 2), RInt 3, RUnit, RRef (Elem 4), RInt 1]"
    by (simp add: no_lists_def set_seq_def home_def since_def ref_of_def clear_seq_def)
  from list_refines_sequences [OF ok] show ?thesis unfolding spec .
qed

text \<open>
  \<open>Init\<close> clears a list but not the back pointers of its elements: a removed element still claims to be in the list, and
  removing it again makes the length negative.
\<close>

theorem list_Init_keeps_members:
  "\<exists>s. run_calls [CNew, CPushBack 0 v, CInit 0, CRemove 0 0, CLen 0, CFront 0] empty_store
     = Some ([RList 0, RRef (Elem 0), RUnit, RVal v, RInt (- 1), RRef (Root 0)], s)"
  by (simp add: empty_store_def list_New_def zero_list_def list_Init_def root_of_def set_next_def set_prev_def set_list_def
      set_len_def PushBack_def lazyInit_def insertValue_def new_element_def list_insert_def list_Len_def list_Remove_def
      list_remove_def Front_def int64_def)

end
