(* ===== verification/Binary_Encoding.thy ===== *)
theory Binary_Encoding
  imports Go_Prelude
begin

unbundle bit_operations_syntax

text \<open>
  \<^verbatim>\<open>encoding/binary\<close>: the two byte orders (binary.go) and the variable-length integers (varint.go). A slice is a list of
  bytes, a write returns the new slice, and \<^const>\<open>None\<close> is an index out of range.
\<close>

subsection \<open>Byte orders\<close>

definition LE_Uint16 :: "byte list \<Rightarrow> 16 word option" where
  "LE_Uint16 b = do { _ \<leftarrow> idx b 1; b0 \<leftarrow> idx b 0; b1 \<leftarrow> idx b 1; Some (ucast b0 OR push_bit 8 (ucast b1)) }"

definition LE_PutUint16 :: "byte list \<Rightarrow> 16 word \<Rightarrow> byte list option" where
  "LE_PutUint16 b v = do { _ \<leftarrow> idx b 1; b \<leftarrow> upd b 0 (ucast v); upd b 1 (ucast (drop_bit 8 v)) }"

definition LE_Uint32 :: "byte list \<Rightarrow> 32 word option" where
  "LE_Uint32 b =
     do {
       _ \<leftarrow> idx b 3; b0 \<leftarrow> idx b 0; b1 \<leftarrow> idx b 1; b2 \<leftarrow> idx b 2; b3 \<leftarrow> idx b 3;
       Some (ucast b0 OR push_bit 8 (ucast b1) OR push_bit 16 (ucast b2) OR push_bit 24 (ucast b3))
     }"

definition LE_PutUint32 :: "byte list \<Rightarrow> 32 word \<Rightarrow> byte list option" where
  "LE_PutUint32 b v =
     do {
       _ \<leftarrow> idx b 3;
       b \<leftarrow> upd b 0 (ucast v);
       b \<leftarrow> upd b 1 (ucast (drop_bit 8 v));
       b \<leftarrow> upd b 2 (ucast (drop_bit 16 v));
       upd b 3 (ucast (drop_bit 24 v))
     }"

definition LE_Uint64 :: "byte list \<Rightarrow> uint64 option" where
  "LE_Uint64 b =
     do {
       _ \<leftarrow> idx b 7; b0 \<leftarrow> idx b 0; b1 \<leftarrow> idx b 1; b2 \<leftarrow> idx b 2; b3 \<leftarrow> idx b 3;
       b4 \<leftarrow> idx b 4; b5 \<leftarrow> idx b 5; b6 \<leftarrow> idx b 6; b7 \<leftarrow> idx b 7;
       Some (ucast b0 OR push_bit 8 (ucast b1) OR push_bit 16 (ucast b2) OR push_bit 24 (ucast b3)
         OR push_bit 32 (ucast b4) OR push_bit 40 (ucast b5) OR push_bit 48 (ucast b6) OR push_bit 56 (ucast b7))
     }"

definition LE_PutUint64 :: "byte list \<Rightarrow> uint64 \<Rightarrow> byte list option" where
  "LE_PutUint64 b v =
     do {
       _ \<leftarrow> idx b 7;
       b \<leftarrow> upd b 0 (ucast v);
       b \<leftarrow> upd b 1 (ucast (drop_bit 8 v));
       b \<leftarrow> upd b 2 (ucast (drop_bit 16 v));
       b \<leftarrow> upd b 3 (ucast (drop_bit 24 v));
       b \<leftarrow> upd b 4 (ucast (drop_bit 32 v));
       b \<leftarrow> upd b 5 (ucast (drop_bit 40 v));
       b \<leftarrow> upd b 6 (ucast (drop_bit 48 v));
       upd b 7 (ucast (drop_bit 56 v))
     }"

definition BE_Uint16 :: "byte list \<Rightarrow> 16 word option" where
  "BE_Uint16 b = do { _ \<leftarrow> idx b 1; b1 \<leftarrow> idx b 1; b0 \<leftarrow> idx b 0; Some (ucast b1 OR push_bit 8 (ucast b0)) }"

definition BE_PutUint16 :: "byte list \<Rightarrow> 16 word \<Rightarrow> byte list option" where
  "BE_PutUint16 b v = do { _ \<leftarrow> idx b 1; b \<leftarrow> upd b 0 (ucast (drop_bit 8 v)); upd b 1 (ucast v) }"

definition BE_Uint32 :: "byte list \<Rightarrow> 32 word option" where
  "BE_Uint32 b =
     do {
       _ \<leftarrow> idx b 3; b3 \<leftarrow> idx b 3; b2 \<leftarrow> idx b 2; b1 \<leftarrow> idx b 1; b0 \<leftarrow> idx b 0;
       Some (ucast b3 OR push_bit 8 (ucast b2) OR push_bit 16 (ucast b1) OR push_bit 24 (ucast b0))
     }"

definition BE_PutUint32 :: "byte list \<Rightarrow> 32 word \<Rightarrow> byte list option" where
  "BE_PutUint32 b v =
     do {
       _ \<leftarrow> idx b 3;
       b \<leftarrow> upd b 0 (ucast (drop_bit 24 v));
       b \<leftarrow> upd b 1 (ucast (drop_bit 16 v));
       b \<leftarrow> upd b 2 (ucast (drop_bit 8 v));
       upd b 3 (ucast v)
     }"

definition BE_Uint64 :: "byte list \<Rightarrow> uint64 option" where
  "BE_Uint64 b =
     do {
       _ \<leftarrow> idx b 7; b7 \<leftarrow> idx b 7; b6 \<leftarrow> idx b 6; b5 \<leftarrow> idx b 5; b4 \<leftarrow> idx b 4;
       b3 \<leftarrow> idx b 3; b2 \<leftarrow> idx b 2; b1 \<leftarrow> idx b 1; b0 \<leftarrow> idx b 0;
       Some (ucast b7 OR push_bit 8 (ucast b6) OR push_bit 16 (ucast b5) OR push_bit 24 (ucast b4)
         OR push_bit 32 (ucast b3) OR push_bit 40 (ucast b2) OR push_bit 48 (ucast b1) OR push_bit 56 (ucast b0))
     }"

definition BE_PutUint64 :: "byte list \<Rightarrow> uint64 \<Rightarrow> byte list option" where
  "BE_PutUint64 b v =
     do {
       _ \<leftarrow> idx b 7;
       b \<leftarrow> upd b 0 (ucast (drop_bit 56 v));
       b \<leftarrow> upd b 1 (ucast (drop_bit 48 v));
       b \<leftarrow> upd b 2 (ucast (drop_bit 40 v));
       b \<leftarrow> upd b 3 (ucast (drop_bit 32 v));
       b \<leftarrow> upd b 4 (ucast (drop_bit 24 v));
       b \<leftarrow> upd b 5 (ucast (drop_bit 16 v));
       b \<leftarrow> upd b 6 (ucast (drop_bit 8 v));
       upd b 7 (ucast v)
     }"

subsection \<open>Variable-length integers\<close>

definition MaxVarintLen64 :: int where "MaxVarintLen64 = 10"

function PutUvarint_loop :: "byte list \<Rightarrow> int \<Rightarrow> uint64 \<Rightarrow> (byte list \<times> int) option" where
  "PutUvarint_loop buf i x =
     (if x \<ge> 0x80 then do { buf \<leftarrow> upd buf i (ucast x OR 0x80); PutUvarint_loop buf (i + 1) (drop_bit 7 x) }
      else do { buf \<leftarrow> upd buf i (ucast x); Some (buf, i + 1) })"
  by pat_completeness auto
termination
proof (relation "measure (\<lambda>(buf, i, x). unat x)")
  fix x :: uint64 and i :: int and buf buf' :: "byte list"
  assume "x \<ge> 0x80"
  then have "128 \<le> unat x" by (simp add: word_le_nat_alt)
  moreover have "unat (drop_bit 7 x) = drop_bit 7 (unat x)" by (rule unat_drop_bit_eq)
  moreover have "drop_bit 7 (unat x) = unat x div 128" by (simp add: drop_bit_eq_div)
  ultimately have "unat (drop_bit 7 x) < unat x" by linarith
  then show "((buf', i + 1, drop_bit 7 x), (buf, i, x)) \<in> measure (\<lambda>(buf, i, x). unat x)" by simp
qed simp

declare PutUvarint_loop.simps [simp del]

definition PutUvarint :: "byte list \<Rightarrow> uint64 \<Rightarrow> (byte list \<times> int) option" where
  "PutUvarint buf x = PutUvarint_loop buf 0 x"

fun Uvarint_loop :: "byte list \<Rightarrow> int \<Rightarrow> uint64 \<Rightarrow> uint64 \<Rightarrow> uint64 \<times> int" where
  "Uvarint_loop [] i x s = (0, 0)"
| "Uvarint_loop (b # buf) i x s =
     (if b < 0x80 then
        if i \<ge> MaxVarintLen64 \<or> i = MaxVarintLen64 - 1 \<and> b > 1 then (0, - (i + 1))
        else (x OR push_bit (unat s) (ucast b), i + 1)
      else Uvarint_loop buf (i + 1) (x OR push_bit (unat s) (ucast (b AND 0x7F))) (s + 7))"

definition Uvarint :: "byte list \<Rightarrow> uint64 \<times> int" where
  "Uvarint buf = Uvarint_loop buf 0 0 0"

text \<open>The zig-zag mapping of PutVarint and Varint; an int64 is a word read with its sign.\<close>

definition zigzag :: "uint64 \<Rightarrow> uint64" where
  "zigzag x = (let ux = push_bit 1 x in if x <s 0 then NOT ux else ux)"

definition unzigzag :: "uint64 \<Rightarrow> uint64" where
  "unzigzag ux = (let x = drop_bit 1 ux in if ux AND 1 \<noteq> 0 then NOT x else x)"

definition PutVarint :: "byte list \<Rightarrow> uint64 \<Rightarrow> (byte list \<times> int) option" where
  "PutVarint buf x = PutUvarint buf (zigzag x)"

definition Varint :: "byte list \<Rightarrow> uint64 \<times> int" where
  "Varint buf = (let (ux, n) = Uvarint buf in (unzigzag ux, n))"

text \<open>
  Reading from an \<open>io.ByteReader\<close>: its method is the parameter \<open>ReadByte\<close>, on a state of the reader, with the reader's own
  errors.
\<close>

datatype 'e varint_error = ReadError 'e | VarintOverflow

function ReadUvarint_loop ::
  "('r \<Rightarrow> (byte \<times> 'e option) \<times> 'r) \<Rightarrow> int \<Rightarrow> uint64 \<Rightarrow> uint64 \<Rightarrow> 'r \<Rightarrow> (uint64 \<times> 'e varint_error option) \<times> 'r" where
  "ReadUvarint_loop ReadByte i x s r =
     (if i < MaxVarintLen64 then
        case ReadByte r of
          ((b, Some err), r) \<Rightarrow> ((x, Some (ReadError err)), r)
        | ((b, None), r) \<Rightarrow>
            if b < 0x80 then
              if i = MaxVarintLen64 - 1 \<and> b > 1 then ((x, Some VarintOverflow), r)
              else ((x OR push_bit (unat s) (ucast b), None), r)
            else ReadUvarint_loop ReadByte (i + 1) (x OR push_bit (unat s) (ucast (b AND 0x7F))) (s + 7) r
      else ((x, Some VarintOverflow), r))"
  by pat_completeness auto
termination
  by (relation "measure (\<lambda>(_, i, _). nat (MaxVarintLen64 - i))") auto

declare ReadUvarint_loop.simps [simp del]

definition ReadUvarint :: "('r \<Rightarrow> (byte \<times> 'e option) \<times> 'r) \<Rightarrow> 'r \<Rightarrow> (uint64 \<times> 'e varint_error option) \<times> 'r" where
  "ReadUvarint ReadByte r = ReadUvarint_loop ReadByte 0 0 0 r"

definition ReadVarint :: "('r \<Rightarrow> (byte \<times> 'e option) \<times> 'r) \<Rightarrow> 'r \<Rightarrow> (uint64 \<times> 'e varint_error option) \<times> 'r" where
  "ReadVarint ReadByte r = (let ((ux, err), r) = ReadUvarint ReadByte r in ((unzigzag ux, err), r))"

end
