(* ===== verification/Binary_Properties.thy ===== *)
theory Binary_Properties
  imports Binary_Encoding Go_Words
begin

text \<open>
  The properties of \<^verbatim>\<open>encoding/binary\<close>: the values of fixed-size and variable-length encodings, round trips, and what
  happens for short buffers and numbers that are too large.
\<close>

subsection \<open>Values of byte sequences\<close>

fun le_value :: "byte list \<Rightarrow> int" where
  "le_value [] = 0"
| "le_value (b # bs) = uint b + 256 * le_value bs"

text \<open>Seven bits of every byte, the least significant group first.\<close>

fun varint_value :: "byte list \<Rightarrow> int" where
  "varint_value [] = 0"
| "varint_value (b # bs) = uint b mod 128 + 128 * varint_value bs"

lemma varint_value_bounds: "0 \<le> varint_value bs" "varint_value bs < 128 ^ length bs"
proof -
  show "0 \<le> varint_value bs" by (induction bs) auto
  show "varint_value bs < 128 ^ length bs"
  proof (induction bs)
    case (Cons b bs)
    have "uint b mod 128 < 128" by simp
    then show ?case using Cons by simp
  qed simp
qed

subsection \<open>Byte orders\<close>

text \<open>One more byte below bits that are already in place.\<close>

lemma or_byte_below:
  fixes b :: byte and t :: "'a::len word"
  assumes "2 ^ (k + 8) dvd uint t" "k + 8 \<le> LENGTH('a)"
  shows "uint (push_bit k (ucast b) OR t) = uint b * 2 ^ k + uint t" "2 ^ k dvd uint (push_bit k (ucast b) OR t)"
proof -
  have "uint b * 2 ^ k < 2 ^ (k + 8)" using uint_byte(2) [of b] by (simp add: power_add)
  moreover have "(2::int) ^ (k + 8) \<le> 2 ^ LENGTH('a)" using assms(2) by (rule power_increasing) simp
  ultimately have "uint b * 2 ^ k < 2 ^ LENGTH('a)" by linarith
  from uint_shift_byte [OF this] have s: "uint (push_bit k (ucast b :: 'a word)) = uint b * 2 ^ k" .
  show 1: "uint (push_bit k (ucast b) OR t) = uint b * 2 ^ k + uint t"
    using uint_or_plus [of "push_bit k (ucast b)" "k + 8" t] s \<open>uint b * 2 ^ k < 2 ^ (k + 8)\<close> assms(1) by (simp add: or.commute add.commute)
  have "2 ^ k dvd uint t" using assms(1) by (metis dvd_mult_left power_add)
  then show "2 ^ k dvd uint (push_bit k (ucast b) OR t)" unfolding 1 by simp
qed

lemma byte_top:
  fixes b :: byte
  assumes "LENGTH('a::len) = k + 8"
  shows "uint (push_bit k (ucast b :: 'a word)) = uint b * 2 ^ k" "2 ^ k dvd uint (push_bit k (ucast b :: 'a word))"
proof -
  have "uint b * 2 ^ k < 2 ^ LENGTH('a)" using uint_byte(2) [of b] assms by (simp add: power_add)
  from uint_shift_byte [OF this] show "uint (push_bit k (ucast b :: 'a word)) = uint b * 2 ^ k" .
  then show "2 ^ k dvd uint (push_bit k (ucast b :: 'a word))" by simp
qed

lemma LE_word16:
  fixes b0 b1 :: byte
  shows "uint (ucast b0 OR push_bit 8 (ucast b1) :: 16 word) = le_value [b0, b1]"
proof -
  note t = byte_top [of 8 b1, where 'a = 16, simplified]
  have "uint (push_bit 0 (ucast b0) OR push_bit 8 (ucast b1) :: 16 word) = uint b0 * 2 ^ 0 + uint (push_bit 8 (ucast b1) :: 16 word)"
    by (rule or_byte_below) (use t in simp_all)
  then show ?thesis using t(1) by simp
qed

lemma LE_word32:
  fixes b0 b1 b2 b3 :: byte
  shows "uint (ucast b0 OR push_bit 8 (ucast b1) OR push_bit 16 (ucast b2) OR push_bit 24 (ucast b3) :: 32 word) = le_value [b0, b1, b2, b3]"
proof -
  note t3 = byte_top [of 24 b3, where 'a = 32, simplified]
  note t2 = or_byte_below [of 16 "push_bit 24 (ucast b3) :: 32 word" b2, simplified, OF t3(2)]
  note t1 = or_byte_below [of 8 _ b1, where 'a = 32, simplified, OF t2(2)]
  note t0 = or_byte_below(1) [of 0 _ b0, where 'a = 32, simplified, OF t1(2)]
  show ?thesis unfolding t0 t1(1) t2(1) t3(1) by simp
qed

lemma LE_word64:
  fixes b0 b1 b2 b3 b4 b5 b6 b7 :: byte
  shows "uint (ucast b0 OR push_bit 8 (ucast b1) OR push_bit 16 (ucast b2) OR push_bit 24 (ucast b3) OR push_bit 32 (ucast b4)
    OR push_bit 40 (ucast b5) OR push_bit 48 (ucast b6) OR push_bit 56 (ucast b7) :: 64 word) = le_value [b0, b1, b2, b3, b4, b5, b6, b7]"
proof -
  note t7 = byte_top [of 56 b7, where 'a = 64, simplified]
  note t6 = or_byte_below [of 48 "push_bit 56 (ucast b7) :: 64 word" b6, simplified, OF t7(2)]
  note t5 = or_byte_below [of 40 _ b5, where 'a = 64, simplified, OF t6(2)]
  note t4 = or_byte_below [of 32 _ b4, where 'a = 64, simplified, OF t5(2)]
  note t3 = or_byte_below [of 24 _ b3, where 'a = 64, simplified, OF t4(2)]
  note t2 = or_byte_below [of 16 _ b2, where 'a = 64, simplified, OF t3(2)]
  note t1 = or_byte_below [of 8 _ b1, where 'a = 64, simplified, OF t2(2)]
  note t0 = or_byte_below(1) [of 0 _ b0, where 'a = 64, simplified, OF t1(2)]
  show ?thesis unfolding t0 t1(1) t2(1) t3(1) t4(1) t5(1) t6(1) t7(1) by simp
qed

text \<open>The bytes of a word, least significant first, and their value.\<close>

fun le_bytes :: "nat \<Rightarrow> int \<Rightarrow> byte list" where
  "le_bytes 0 v = []"
| "le_bytes (Suc n) v = word_of_int v # le_bytes n (v div 256)"

lemma le_value_bytes: "0 \<le> v \<Longrightarrow> v < 256 ^ n \<Longrightarrow> le_value (le_bytes n v) = v"
proof (induction n arbitrary: v)
  case (Suc n)
  then have "v div 256 < 256 ^ n" by simp
  then have "le_value (le_bytes n (v div 256)) = v div 256" using Suc by simp
  then show ?case using Suc.prems by (simp add: unsigned_of_int take_bit_eq_mod)
qed simp

lemma byte_of_word: "(ucast (drop_bit k v) :: byte) = word_of_int (uint v div 2 ^ k)"
  by (metis ucast_eq uint_drop)

lemma byte_of_word0: "(ucast v :: byte) = word_of_int (uint v)"
  by (rule ucast_eq)

lemma le_word_div:
  "le_bytes 2 v = [word_of_int v, word_of_int (v div 2 ^ 8)]"
  "le_bytes 4 v = [word_of_int v, word_of_int (v div 2 ^ 8), word_of_int (v div 2 ^ 16), word_of_int (v div 2 ^ 24)]"
  "le_bytes 8 v = [word_of_int v, word_of_int (v div 2 ^ 8), word_of_int (v div 2 ^ 16), word_of_int (v div 2 ^ 24),
     word_of_int (v div 2 ^ 32), word_of_int (v div 2 ^ 40), word_of_int (v div 2 ^ 48), word_of_int (v div 2 ^ 56)]"
  by (simp_all add: numeral_eq_Suc zdiv_zmult2_eq [symmetric])

text \<open>Both orders on a slice that is long enough: the value, and the bytes written.\<close>

lemma at_least:
  "2 \<le> length b \<Longrightarrow> \<exists>b0 b1 r. b = b0 # b1 # r"
  "4 \<le> length b \<Longrightarrow> \<exists>b0 b1 b2 b3 r. b = b0 # b1 # b2 # b3 # r"
  "8 \<le> length b \<Longrightarrow> \<exists>b0 b1 b2 b3 b4 b5 b6 b7 r. b = b0 # b1 # b2 # b3 # b4 # b5 # b6 # b7 # r"
  by (auto simp: numeral_eq_Suc Suc_le_length_iff)

lemma order_read:
  "2 \<le> length b \<Longrightarrow> \<exists>w. LE_Uint16 b = Some w \<and> uint w = le_value (take 2 b)"
  "4 \<le> length b \<Longrightarrow> \<exists>w. LE_Uint32 b = Some w \<and> uint w = le_value (take 4 b)"
  "8 \<le> length b \<Longrightarrow> \<exists>w. LE_Uint64 b = Some w \<and> uint w = le_value (take 8 b)"
  "2 \<le> length b \<Longrightarrow> \<exists>w. BE_Uint16 b = Some w \<and> uint w = le_value (rev (take 2 b))"
  "4 \<le> length b \<Longrightarrow> \<exists>w. BE_Uint32 b = Some w \<and> uint w = le_value (rev (take 4 b))"
  "8 \<le> length b \<Longrightarrow> \<exists>w. BE_Uint64 b = Some w \<and> uint w = le_value (rev (take 8 b))"
proof -
  show "2 \<le> length b \<Longrightarrow> \<exists>w. LE_Uint16 b = Some w \<and> uint w = le_value (take 2 b)"
    "2 \<le> length b \<Longrightarrow> \<exists>w. BE_Uint16 b = Some w \<and> uint w = le_value (rev (take 2 b))"
    by (drule at_least(1); elim exE; simp add: LE_Uint16_def BE_Uint16_def idx_def LE_word16)+
  show "4 \<le> length b \<Longrightarrow> \<exists>w. LE_Uint32 b = Some w \<and> uint w = le_value (take 4 b)"
    "4 \<le> length b \<Longrightarrow> \<exists>w. BE_Uint32 b = Some w \<and> uint w = le_value (rev (take 4 b))"
    by (drule at_least(2); elim exE; simp add: LE_Uint32_def BE_Uint32_def idx_def LE_word32)+
  show "8 \<le> length b \<Longrightarrow> \<exists>w. LE_Uint64 b = Some w \<and> uint w = le_value (take 8 b)"
    "8 \<le> length b \<Longrightarrow> \<exists>w. BE_Uint64 b = Some w \<and> uint w = le_value (rev (take 8 b))"
    by (drule at_least(3); elim exE; simp add: LE_Uint64_def BE_Uint64_def idx_def LE_word64)+
qed

lemma le_bytes_word:
  fixes v :: "'a::len word"
  shows "le_bytes 2 (uint v) = [ucast v, ucast (drop_bit 8 v)]"
    "le_bytes 4 (uint v) = [ucast v, ucast (drop_bit 8 v), ucast (drop_bit 16 v), ucast (drop_bit 24 v)]"
    "le_bytes 8 (uint v) = [ucast v, ucast (drop_bit 8 v), ucast (drop_bit 16 v), ucast (drop_bit 24 v),
       ucast (drop_bit 32 v), ucast (drop_bit 40 v), ucast (drop_bit 48 v), ucast (drop_bit 56 v)]"
  unfolding le_word_div byte_of_word byte_of_word0 [of v] by (rule refl)+

lemma order_write:
  "2 \<le> length b \<Longrightarrow> LE_PutUint16 b v2 = Some (le_bytes 2 (uint v2) @ drop 2 b)"
  "2 \<le> length b \<Longrightarrow> BE_PutUint16 b v2 = Some (rev (le_bytes 2 (uint v2)) @ drop 2 b)"
  "4 \<le> length b \<Longrightarrow> LE_PutUint32 b v4 = Some (le_bytes 4 (uint v4) @ drop 4 b)"
  "4 \<le> length b \<Longrightarrow> BE_PutUint32 b v4 = Some (rev (le_bytes 4 (uint v4)) @ drop 4 b)"
  "8 \<le> length b \<Longrightarrow> LE_PutUint64 b v8 = Some (le_bytes 8 (uint v8) @ drop 8 b)"
  "8 \<le> length b \<Longrightarrow> BE_PutUint64 b v8 = Some (rev (le_bytes 8 (uint v8)) @ drop 8 b)"
  unfolding le_bytes_word LE_PutUint16_def BE_PutUint16_def LE_PutUint32_def BE_PutUint32_def LE_PutUint64_def BE_PutUint64_def
  by (drule at_least; elim exE; simp add: idx_Cons upd_Cons)+

definition order_ok ::
  "nat \<Rightarrow> (byte list \<Rightarrow> 'a::len word \<Rightarrow> byte list option) \<Rightarrow> (byte list \<Rightarrow> 'a word option) \<Rightarrow>
   (byte list \<Rightarrow> 'a word \<Rightarrow> byte list option) \<Rightarrow> (byte list \<Rightarrow> 'a word option) \<Rightarrow> byte list \<Rightarrow> 'a word \<Rightarrow> bool" where
  "order_ok n lput lget bput bget b v \<longleftrightarrow>
     (\<exists>l r. lput b v = Some l \<and> bput b v = Some r \<and> lget l = Some v \<and> bget r = Some v
        \<and> le_value (take n l) = uint v \<and> take n r = rev (take n l) \<and> drop n l = drop n b \<and> drop n r = drop n b)"

lemma length_le_bytes [simp]: "length (le_bytes n v) = n"
  by (induction n arbitrary: v) auto

lemma order_okI:
  fixes v :: "'a::len word"
  assumes w: "lput b v = Some (le_bytes n (uint v) @ drop n b)" "bput b v = Some (rev (le_bytes n (uint v)) @ drop n b)"
    and r: "\<And>b. n \<le> length b \<Longrightarrow> \<exists>w. lget b = Some w \<and> uint w = le_value (take n b)"
      "\<And>b. n \<le> length b \<Longrightarrow> \<exists>w. bget b = Some w \<and> uint w = le_value (rev (take n b))"
    and n: "n \<le> length b" "LENGTH('a) = 8 * n"
  shows "order_ok n lput lget bput bget b v"
proof -
  have "uint v < 256 ^ n" using unsigned_less [of v] n(2) by (simp add: power_mult)
  then have v: "le_value (le_bytes n (uint v)) = uint v" by (simp add: le_value_bytes)
  let ?l = "le_bytes n (uint v) @ drop n b" and ?r = "rev (le_bytes n (uint v)) @ drop n b"
  have "\<exists>w. lget ?l = Some w \<and> uint w = uint v" using r(1) [of ?l] v by simp
  moreover have "\<exists>w. bget ?r = Some w \<and> uint w = uint v" using r(2) [of ?r] v by simp
  ultimately show ?thesis unfolding order_ok_def using w v by (auto simp: word_uint_eq_iff)
qed

lemma order_short:
  "length b < 8 \<Longrightarrow> LE_Uint64 b = None \<and> BE_Uint64 b = None \<and> LE_PutUint64 b v8 = None \<and> BE_PutUint64 b v8 = None"
  "length b < 4 \<Longrightarrow> LE_Uint32 b = None \<and> BE_Uint32 b = None \<and> LE_PutUint32 b v4 = None \<and> BE_PutUint32 b v4 = None"
  "length b < 2 \<Longrightarrow> LE_Uint16 b = None \<and> BE_Uint16 b = None \<and> LE_PutUint16 b v2 = None \<and> BE_PutUint16 b v2 = None"
  by (simp_all add: LE_Uint64_def BE_Uint64_def LE_PutUint64_def BE_PutUint64_def LE_Uint32_def BE_Uint32_def LE_PutUint32_def
      BE_PutUint32_def LE_Uint16_def BE_Uint16_def LE_PutUint16_def BE_PutUint16_def idx_def)

subsection \<open>Variable-length integers\<close>

lemma uint_or_group:
  fixes x :: uint64 and b :: byte
  assumes "uint x < 2 ^ k" "k + 7 \<le> 64"
  shows "uint (x OR push_bit k (ucast (b AND 0x7F))) = uint x + (uint b mod 128) * 2 ^ k" "uint (x OR push_bit k (ucast (b AND 0x7F))) < 2 ^ (k + 7)"
proof -
  have m: "uint (b AND 0x7F) = uint b mod 128" by (rule uint_and_mod)
  have lt: "(uint b mod 128) * 2 ^ k < 2 ^ (k + 7)" by (simp add: power_add)
  have "(2::int) ^ (k + 7) \<le> 2 ^ 64" using assms(2) by (intro power_increasing) simp_all
  then show 1: "uint (x OR push_bit k (ucast (b AND 0x7F))) = uint x + (uint b mod 128) * 2 ^ k"
    using uint_or_shift [of x k "b AND 0x7F"] assms(1) lt m by simp
  have "uint b mod 128 \<le> 127" by simp
  then have "(uint b mod 128) * 2 ^ k \<le> 127 * 2 ^ k" by (rule mult_right_mono) simp
  moreover have "(2::int) ^ (k + 7) = 127 * 2 ^ k + 2 ^ k" by (simp add: power_add)
  ultimately show "uint (x OR push_bit k (ucast (b AND 0x7F))) < 2 ^ (k + 7)"
    unfolding 1 using assms(1) by linarith
qed

text \<open>The bytes up to the first one without the continuation bit.\<close>

definition cont_len :: "byte list \<Rightarrow> nat" where "cont_len buf = length (takeWhile (\<lambda>b. \<not> b < 0x80) buf)"

lemma cont_len_simps:
  "cont_len [] = 0" "b < 0x80 \<Longrightarrow> cont_len (b # buf) = 0" "\<not> b < 0x80 \<Longrightarrow> cont_len (b # buf) = Suc (cont_len buf)"
  by (simp_all add: cont_len_def)

definition loop_state :: "nat \<Rightarrow> uint64 \<Rightarrow> uint64 \<Rightarrow> bool" where
  "loop_state n x s \<longleftrightarrow> (n \<le> 9 \<longrightarrow> unat s = 7 * n \<and> uint x < 2 ^ (7 * n))"

lemma loop_state_step:
  fixes b :: byte
  assumes "loop_state n x s"
  shows "loop_state (Suc n) (x OR push_bit (unat s) (ucast (b AND 0x7F))) (s + 7)"
proof (cases "Suc n \<le> 9")
  case True
  then have s: "unat s = 7 * n" "uint x < 2 ^ (7 * n)" using assms by (auto simp: loop_state_def)
  have "unat (s + 7) = unat s + 7" using s(1) True by (simp add: unat_word_ariths)
  moreover have "7 * n + 7 = 7 * Suc n" by simp
  ultimately show ?thesis
    unfolding loop_state_def using uint_or_group(2) [OF s(2), of b] s(1) True by (auto simp: add.commute)
qed (simp add: loop_state_def)

lemma loop_state_last:
  assumes "loop_state n x s" "b < (0x80::byte)" "n \<le> 9" "n = 9 \<longrightarrow> \<not> b > 1"
  shows "uint (x OR push_bit (unat s) (ucast b)) = uint x + uint b * 2 ^ (7 * n)"
proof -
  have s: "unat s = 7 * n" "uint x < 2 ^ (7 * n)" using assms by (auto simp: loop_state_def)
  have b: "uint b < 128" using assms(2) by (simp add: word_less_def)
  have "uint b * 2 ^ (7 * n) < 2 ^ 64"
  proof (cases "n = 9")
    case True
    then have "uint b \<le> 1" using assms(4) by (simp add: word_less_def)
    then show ?thesis using True by simp
  next
    case False
    then have "n \<le> 8" using assms(3) by simp
    have "uint b * 2 ^ (7 * n) < 128 * 2 ^ (7 * n)" using b by simp
    also have "\<dots> = 2 ^ (7 * n + 7)" by (simp add: power_add)
    also have "\<dots> \<le> 2 ^ 64" using \<open>n \<le> 8\<close> by (intro power_increasing) simp_all
    finally show ?thesis .
  qed
  then show ?thesis using uint_or_shift [of x "7 * n" b] s by simp
qed

lemma Uvarint_loop_value:
  assumes "loop_state n x s"
  shows "Uvarint_loop buf (int n) x s =
    (let k = cont_len buf in
     if k = length buf then (0, 0)
     else if n + k \<le> 9 \<and> (n + k = 9 \<longrightarrow> \<not> buf ! k > 1)
     then (word_of_int (uint x + varint_value (take (Suc k) buf) * 2 ^ (7 * n)), int (n + k + 1))
     else (0, - int (n + k + 1)))"
  using assms
proof (induction buf arbitrary: n x s)
  case Nil
  then show ?case by (simp add: cont_len_simps)
next
  case (Cons b buf)
  show ?case
  proof (cases "b < 0x80")
    case True
    have b: "uint b mod 128 = uint b" using True by (simp add: word_less_def)
    show ?thesis
    proof (cases "n \<le> 9 \<and> (n = 9 \<longrightarrow> \<not> b > 1)")
      case ok: True
      have "x OR push_bit (unat s) (ucast b) = word_of_int (uint x + uint b * 2 ^ (7 * n))"
        using loop_state_last [OF Cons.prems True] ok by (metis word_of_int_uint)
      then show ?thesis using True ok b by (auto simp: cont_len_simps MaxVarintLen64_def Let_def)
    next
      case False
      then have "int n \<ge> 10 \<or> int n = 9 \<and> b > 1" by auto
      then show ?thesis using True False by (auto simp: cont_len_simps MaxVarintLen64_def Let_def)
    qed
  next
    case False
    let ?x = "x OR push_bit (unat s) (ucast (b AND 0x7F))"
    have v: "uint ?x = uint x + (uint b mod 128) * 2 ^ (7 * n)" if "n \<le> 8"
      using uint_or_group(1) [of x "7 * n" b] Cons.prems that by (simp add: loop_state_def)
    note IH = Cons.IH [OF loop_state_step [OF Cons.prems, of b]]
    have "uint ?x + varint_value (take (Suc k) buf) * 2 ^ (7 * Suc n)
        = uint x + varint_value (b # take (Suc k) buf) * 2 ^ (7 * n)" if "n \<le> 8" for k
      unfolding v [OF that] by (simp add: power_add algebra_simps)
    then show ?thesis
      using IH False by (simp add: cont_len_simps Let_def add.commute)
  qed
qed

lemma Uvarint_value_eq:
  "Uvarint buf =
    (let k = cont_len buf in
     if k = length buf then (0, 0)
     else if k \<le> 9 \<and> (k = 9 \<longrightarrow> \<not> buf ! k > 1) then (word_of_int (varint_value (take (Suc k) buf)), int k + 1)
     else (0, - (int k + 1)))"
proof -
  have "loop_state 0 0 0" by (simp add: loop_state_def)
  from Uvarint_loop_value [OF this, of buf] show ?thesis by (simp add: Uvarint_def Let_def add.commute)
qed

text \<open>The encoding, as a function of the number.\<close>

function varint_bytes :: "int \<Rightarrow> byte list" where
  "varint_bytes v = (if v < 128 then [word_of_int v] else word_of_int (v mod 128 + 128) # varint_bytes (v div 128))"
  by pat_completeness auto
termination
  by (relation "measure nat") auto

declare varint_bytes.simps [simp del]

lemma PutUvarint_loop_eq:
  "n \<le> length buf \<Longrightarrow> PutUvarint_loop buf (int n) x =
    (let bs = varint_bytes (uint x) in
     if n + length bs \<le> length buf then Some (take n buf @ bs @ drop (n + length bs) buf, int (n + length bs)) else None)"
proof (induction "unat x" arbitrary: buf n x rule: less_induct)
  case less
  show ?case
  proof (cases "x \<ge> 0x80")
    case False
    then have "uint x < 128" by (simp add: word_le_def)
    then have "varint_bytes (uint x) = [ucast x]" by (subst varint_bytes.simps) simp
    moreover have "PutUvarint_loop buf (int n) x = (if n < length buf then Some (buf[n := ucast x], int n + 1) else None)"
      using False by (subst PutUvarint_loop.simps) (simp add: upd_def)
    ultimately show ?thesis
      using upd_conv_take_nth_drop [of n buf "ucast x"] by (cases "n < length buf") (simp_all add: add.commute)
  next
    case True
    then have v: "128 \<le> uint x" by (simp add: word_le_def)
    have d: "uint (drop_bit 7 x) = uint x div 128" using uint_drop [where k = 7 and v = x] by (simp only: power_numeral) simp
    have "uint x div 128 < uint x" by (rule int_div_less_self) (use v in simp_all)
    then have small: "unat (drop_bit 7 x) < unat x" using d v by (metis nat_less_eq_zless uint_nat unat_eq_nat_uint uint_ge_0 nat_mono_iff order_less_le_trans zero_less_numeral)
    have "uint ((ucast x :: byte) OR 0x80) = uint x mod 128 + 128"
    proof -
      have "(ucast x :: byte) OR 0x80 = (ucast x AND 0x7F) OR 0x80" by (rule bit_word_eqI) (auto simp: bit_simps less_Suc_eq numeral_eq_Suc)
      moreover have "uint ((ucast x :: byte) AND 0x7F) = uint x mod 128"
        using uint_and_mod(5) [of "ucast x :: byte"] by (simp add: unsigned_ucast_eq take_bit_eq_mod mod_mod_cancel)
      moreover have "uint (((ucast x :: byte) AND 0x7F) OR 0x80) = uint ((ucast x :: byte) AND 0x7F) + uint (0x80 :: byte)"
        using uint_or_plus [of "(ucast x :: byte) AND 0x7F" 7 "0x80"] calculation(2) by (simp add: or.commute)
      ultimately show ?thesis by simp
    qed
    then have b: "(ucast x :: byte) OR 0x80 = word_of_int (uint x mod 128 + 128)" by (metis word_of_int_uint)
    have vb: "varint_bytes (uint x) = ((ucast x :: byte) OR 0x80) # varint_bytes (uint (drop_bit 7 x))"
      using v by (subst varint_bytes.simps) (simp add: b d)
    show ?thesis
    proof (cases "n < length buf")
      case True': True
      let ?buf = "buf[n := (ucast x :: byte) OR 0x80]"
      have t: "take (Suc n) ?buf = take n buf @ [(ucast x :: byte) OR 0x80]" using True' by (simp add: take_Suc_conv_app_nth)
      have "PutUvarint_loop buf (int n) x = PutUvarint_loop ?buf (int (Suc n)) (drop_bit 7 x)"
        using True True' by (subst PutUvarint_loop.simps) (simp add: upd_def add.commute)
      also have "\<dots> = (let bs = varint_bytes (uint (drop_bit 7 x)) in
          if Suc n + length bs \<le> length ?buf then Some (take (Suc n) ?buf @ bs @ drop (Suc n + length bs) ?buf, int (Suc n + length bs)) else None)"
        by (rule less.hyps [OF small]) (use True' in simp)
      finally show ?thesis unfolding vb t by (simp add: Let_def drop_update_swap)
    next
      case False
      then show ?thesis using True unfolding vb by (subst PutUvarint_loop.simps) (simp add: upd_def Let_def)
    qed
  qed
qed

lemma varint_bytes_not_Nil: "varint_bytes v \<noteq> []"
  by (subst varint_bytes.simps) simp

lemma varint_bytes_decode:
  "0 \<le> v \<Longrightarrow> cont_len (varint_bytes v @ r) = length (varint_bytes v) - 1 \<and> varint_value (varint_bytes v) = v"
proof (induction v rule: varint_bytes.induct)
  case (1 v)
  show ?case
  proof (cases "v < 128")
    case True
    then have "uint (word_of_int v :: byte) = v" using 1 by (simp add: unsigned_of_int take_bit_int_eq_self)
    then have "(word_of_int v :: byte) < 0x80" "uint (word_of_int v :: byte) mod 128 = v" using True 1 by (simp_all add: word_less_def)
    then show ?thesis using True by (subst (1 2 3) varint_bytes.simps) (simp add: cont_len_simps)
  next
    case False
    have "uint (word_of_int (v mod 128 + 128) :: byte) = v mod 128 + 128"
      by (subst unsigned_of_int) (simp add: take_bit_int_eq_self)
    then have w: "\<not> (word_of_int (v mod 128 + 128) :: byte) < 0x80" "uint (word_of_int (v mod 128 + 128) :: byte) mod 128 = v mod 128"
      by (simp_all add: word_less_def not_less)
    have IH: "cont_len (varint_bytes (v div 128) @ r) = length (varint_bytes (v div 128)) - 1"
      "varint_value (varint_bytes (v div 128)) = v div 128" using 1 False by simp_all
    show ?thesis
      using False w IH varint_bytes_not_Nil [of "v div 128"]
      by (subst (1 2 3) varint_bytes.simps) (simp add: cont_len_simps)
  qed
qed

lemma varint_bytes_length: "0 \<le> v \<Longrightarrow> v < 128 ^ Suc k \<Longrightarrow> length (varint_bytes v) \<le> Suc k"
proof (induction k arbitrary: v)
  case 0
  then show ?case by (subst varint_bytes.simps) simp
next
  case (Suc k)
  then have "v div 128 < 128 ^ Suc k" by simp
  then show ?case using Suc.IH [of "v div 128"] Suc.prems(1) by (subst varint_bytes.simps) simp
qed

text \<open>The top byte of a number of 64 bits fits the range check.\<close>

lemma varint_value_last: "varint_value (bs @ [b]) = varint_value bs + (uint b mod 128) * 128 ^ length bs"
  by (induction bs) (simp_all add: algebra_simps)

lemma Uvarint_bytes:
  fixes x :: uint64
  shows "Uvarint (varint_bytes (uint x) @ r) = (x, int (length (varint_bytes (uint x))))"
    "1 \<le> length (varint_bytes (uint x))" "length (varint_bytes (uint x)) \<le> 10"
proof -
  let ?bs = "varint_bytes (uint x)"
  have x: "0 \<le> uint x" "uint x < 2 ^ 64" using unsigned_less [of x] by simp_all
  have d: "cont_len (?bs @ r) = length ?bs - 1" "varint_value ?bs = uint x" using varint_bytes_decode [OF x(1), of r] by blast+
  have "uint x < 128 ^ Suc 9" using x(2) by simp
  from varint_bytes_length [OF x(1) this] show len: "length ?bs \<le> 10" by simp
  show pos: "1 \<le> length ?bs" using varint_bytes_not_Nil [of "uint x"] by (cases ?bs) auto
  have top: "\<not> (?bs @ r) ! 9 > 1" if "length ?bs - 1 = 9"
  proof -
    obtain cs b where bs: "?bs = cs @ [b]" using varint_bytes_not_Nil [of "uint x"] by (cases ?bs rule: rev_cases) auto
    then have cs: "length cs = 9" using that by simp
    have "cont_len ?bs = 9" using varint_bytes_decode [OF x(1), of "[]"] that by simp
    then have "takeWhile (\<lambda>b. \<not> b < 0x80) ?bs \<noteq> ?bs" using bs cs unfolding cont_len_def by (metis length_append_singleton n_not_Suc_n)
    then have "b < 0x80"
      using bs cs \<open>cont_len ?bs = 9\<close> nth_length_takeWhile [of "\<lambda>b. \<not> b < 0x80" ?bs] by (simp add: cont_len_def nth_append)
    then have "uint b mod 128 = uint b" by (simp add: word_less_def)
    moreover have "uint b mod 128 * 128 ^ 9 < 2 ^ 64"
      using d(2) x(2) varint_value_last [of cs b] varint_value_bounds(1) [of cs] bs cs by simp
    ultimately have "uint b \<le> 1" by simp
    then show ?thesis using bs cs by (simp add: nth_append word_less_def not_less)
  qed
  have "take (Suc (length ?bs - 1)) (?bs @ r) = ?bs" using pos by simp
  then show "Uvarint (?bs @ r) = (x, int (length ?bs))"
    unfolding Uvarint_value_eq d(1) using pos len top d(2) by (auto simp: Let_def)
qed

lemma unzigzag_zigzag: "unzigzag (zigzag x) = x"
proof -
  have neg: "x <s 0 \<longleftrightarrow> bit x 63" using bit_last_iff [of x] by (simp add: word_sless_alt)
  have odd: "y AND 1 \<noteq> 0 \<longleftrightarrow> bit y 0" for y :: uint64 by (simp add: and_one_eq odd_iff_mod_2_eq_one bit_0)
  show ?thesis
  proof (cases "x <s 0")
    case True
    have b: "bit (NOT (push_bit 1 x)) 0" unfolding bit_not_iff bit_push_bit_iff by simp
    have "NOT (drop_bit 1 (NOT (push_bit 1 x))) = x"
    proof (rule bit_word_eqI)
      fix n assume "n < LENGTH(64)"
      then have "n = 63 \<or> n < 63" by auto
      then show "bit (NOT (drop_bit 1 (NOT (push_bit 1 x)))) n = bit x n"
        unfolding bit_not_iff bit_drop_bit_eq comp_def bit_push_bit_iff using True neg by auto
    qed
    then show ?thesis using True b odd by (simp add: unzigzag_def zigzag_def Let_def)
  next
    case False
    have b: "\<not> bit (push_bit 1 x) 0" unfolding bit_push_bit_iff by simp
    have "drop_bit 1 (push_bit 1 x) = x"
    proof (rule bit_word_eqI)
      fix n assume "n < LENGTH(64)"
      then have "n = 63 \<or> n < 63" by auto
      then show "bit (drop_bit 1 (push_bit 1 x)) n = bit x n"
        unfolding bit_drop_bit_eq comp_def bit_push_bit_iff using False neg by auto
    qed
    then show ?thesis using False b odd [of "push_bit 1 x"] by (simp add: unzigzag_def zigzag_def Let_def)
  qed
qed

lemma PutUvarint_eq:
  "PutUvarint buf x =
    (let bs = varint_bytes (uint x) in if length bs \<le> length buf then Some (bs @ drop (length bs) buf, int (length bs)) else None)"
  using PutUvarint_loop_eq [of 0 buf x] by (simp add: PutUvarint_def Let_def)

subsection \<open>Reading from a byte reader\<close>

text \<open>A reader over a slice, as the readers of the standard library that only hold bytes: it fails at the end.\<close>

datatype slice_error = EOF

fun slice_reader :: "byte list \<Rightarrow> (byte \<times> slice_error option) \<times> byte list" where
  "slice_reader [] = ((0, Some EOF), [])"
| "slice_reader (b # bs) = ((b, None), bs)"

text \<open>What ReadUvarint makes of a slice on which Uvarint returns \<open>(v, n)\<close>, after \<open>k\<close> bytes.\<close>

lemma Uvarint_loop_late: "10 \<le> i \<Longrightarrow> snd (Uvarint_loop buf i x s) \<le> 0"
  by (induction buf i x s rule: Uvarint_loop.induct) (auto simp: MaxVarintLen64_def)

lemma Uvarint_loop_pos: "0 \<le> i \<Longrightarrow> 0 < snd (Uvarint_loop buf i x s) \<Longrightarrow> i < snd (Uvarint_loop buf i x s)"
  by (induction buf i x s rule: Uvarint_loop.induct) (auto split: if_splits)

definition agrees :: "nat \<Rightarrow> byte list \<Rightarrow> uint64 \<times> int \<Rightarrow> (uint64 \<times> slice_error varint_error option) \<times> byte list \<Rightarrow> bool" where
  "agrees k buf p r \<longleftrightarrow>
     (if snd p > 0 then r = ((fst p, None), drop (nat (snd p) - k) buf)
      else snd (fst r) = Some (if snd p = 0 \<and> k + length buf < 10 then ReadError EOF else VarintOverflow)
        \<and> snd r = drop (10 - k) buf)"

lemma ReadUvarint_loop_slice:
  "k \<le> 10 \<Longrightarrow> agrees k buf (Uvarint_loop buf (int k) x s) (ReadUvarint_loop slice_reader (int k) x s buf)"
proof (induction buf arbitrary: k x s)
  case Nil
  then show ?case by (subst ReadUvarint_loop.simps) (auto simp: MaxVarintLen64_def agrees_def)
next
  case (Cons b buf)
  consider "k = 10" | "k < 10" "b < 0x80" | "k < 10" "\<not> b < 0x80" using Cons.prems by linarith
  then show ?case
  proof cases
    case 1
    then have "ReadUvarint_loop slice_reader (int k) x s (b # buf) = ((x, Some VarintOverflow), b # buf)"
      by (subst ReadUvarint_loop.simps) (simp add: MaxVarintLen64_def)
    then show ?thesis using 1 Uvarint_loop_late [of "int k" "b # buf" x s] by (simp add: agrees_def del: Uvarint_loop.simps)
  next
    case 2
    then show ?thesis by (subst ReadUvarint_loop.simps) (auto simp: MaxVarintLen64_def agrees_def nat_add_distrib)
  next
    case 3
    let ?x = "x OR push_bit (unat s) (ucast (b AND 0x7F))"
    have r: "ReadUvarint_loop slice_reader (int k) x s (b # buf) = ReadUvarint_loop slice_reader (int (Suc k)) ?x (s + 7) buf"
      using 3 by (subst ReadUvarint_loop.simps) (simp add: MaxVarintLen64_def add.commute)
    have u: "Uvarint_loop (b # buf) (int k) x s = Uvarint_loop buf (int (Suc k)) ?x (s + 7)"
      using 3 by (simp add: add.commute)
    have IH: "agrees (Suc k) buf (Uvarint_loop buf (int (Suc k)) ?x (s + 7)) (ReadUvarint_loop slice_reader (int (Suc k)) ?x (s + 7) buf)"
      by (rule Cons.IH) (use 3 in simp)
    have p: "0 < snd (Uvarint_loop buf (int (Suc k)) ?x (s + 7)) \<Longrightarrow> int (Suc k) < snd (Uvarint_loop buf (int (Suc k)) ?x (s + 7))"
      by (rule Uvarint_loop_pos) simp
    have d: "drop (m - k) (b # buf) = drop (m - Suc k) buf" if "k < m" for m using that by (simp add: Suc_diff_Suc [symmetric])
    show ?thesis unfolding r u using IH p 3 by (auto simp: agrees_def d)
  qed
qed

subsection \<open>The properties\<close>

text \<open>
  Byte orders. On a slice that is long enough, both byte orders write the bytes of the number and read it back, at
  16, 32 and 64 bits; the value read is the sum of the bytes with their weights, the two orders are mirror images, and no
  other byte changes. On a shorter slice every operation panics.
\<close>

theorem byte_orders_exact:
  "(8 \<le> length b \<longrightarrow> order_ok 8 LE_PutUint64 LE_Uint64 BE_PutUint64 BE_Uint64 b v8)
   \<and> (4 \<le> length b \<longrightarrow> order_ok 4 LE_PutUint32 LE_Uint32 BE_PutUint32 BE_Uint32 b v4)
   \<and> (2 \<le> length b \<longrightarrow> order_ok 2 LE_PutUint16 LE_Uint16 BE_PutUint16 BE_Uint16 b v2)
   \<and> (length b < 8 \<longrightarrow> LE_Uint64 b = None \<and> BE_Uint64 b = None \<and> LE_PutUint64 b v8 = None \<and> BE_PutUint64 b v8 = None)
   \<and> (length b < 4 \<longrightarrow> LE_Uint32 b = None \<and> BE_Uint32 b = None \<and> LE_PutUint32 b v4 = None \<and> BE_PutUint32 b v4 = None)
   \<and> (length b < 2 \<longrightarrow> LE_Uint16 b = None \<and> BE_Uint16 b = None \<and> LE_PutUint16 b v2 = None \<and> BE_PutUint16 b v2 = None)"
proof -
  have "8 \<le> length b \<longrightarrow> order_ok 8 LE_PutUint64 LE_Uint64 BE_PutUint64 BE_Uint64 b v8"
    by (intro impI order_okI order_write order_read) simp_all
  moreover have "4 \<le> length b \<longrightarrow> order_ok 4 LE_PutUint32 LE_Uint32 BE_PutUint32 BE_Uint32 b v4"
    by (intro impI order_okI order_write order_read) simp_all
  moreover have "2 \<le> length b \<longrightarrow> order_ok 2 LE_PutUint16 LE_Uint16 BE_PutUint16 BE_Uint16 b v2"
    by (intro impI order_okI order_write order_read) simp_all
  ultimately show ?thesis using order_short(1) [of b v8] order_short(2) [of b v4] order_short(3) [of b v2] by blast
qed

theorem byte_orders_exact_witness:
  "order_ok 4 LE_PutUint32 LE_Uint32 BE_PutUint32 BE_Uint32 [9, 9, 9, 9, 9] 0x01020304 \<and> LE_Uint64 [9, 9, 9, 9, 9] = None"
  using byte_orders_exact [of "[9, 9, 9, 9, 9]" 0 "0x01020304" 0] by simp

text \<open>
  C14 (varint round trip). In a buffer of ten bytes PutUvarint writes between one and ten bytes and leaves the others;
  Uvarint reads the number and the count back, whatever follows; the same for the signed variants with their zig-zag
  mapping. PutUvarint panics exactly when the encoding is longer than the buffer.
\<close>

theorem varint_round_trip:
  "\<exists>bs. 1 \<le> length bs \<and> length bs \<le> 10
     \<and> PutUvarint buf x = (if length bs \<le> length buf then Some (bs @ drop (length bs) buf, int (length bs)) else None)
     \<and> Uvarint (bs @ r) = (x, int (length bs))
   \<and> (\<exists>cs. 1 \<le> length cs \<and> length cs \<le> 10
     \<and> PutVarint buf x = (if length cs \<le> length buf then Some (cs @ drop (length cs) buf, int (length cs)) else None)
     \<and> Varint (cs @ r) = (x, int (length cs)))"
proof -
  have u: "PutUvarint buf y = (let bs = varint_bytes (uint y) in
      if length bs \<le> length buf then Some (bs @ drop (length bs) buf, int (length bs)) else None)" for y
    by (rule PutUvarint_eq)
  show ?thesis
    by (rule exI [of _ "varint_bytes (uint x)"], intro conjI exI [of _ "varint_bytes (uint (zigzag x))"])
      (use Uvarint_bytes(2) [of x] Uvarint_bytes(2) [of "zigzag x"] in
        \<open>simp_all add: Uvarint_bytes(1,3) u PutVarint_def Varint_def unzigzag_zigzag Let_def\<close>)
qed

text \<open>
  What Uvarint decodes. On every slice: if each byte has the continuation bit, the result is \<open>(0, 0)\<close>; otherwise the
  groups of seven bits up to the first byte without it are the number, except that a number of more than ten bytes or
  beyond 64 bits is refused with the negated count of the bytes read.
\<close>

theorem Uvarint_value:
  "Uvarint buf =
    (let k = cont_len buf; v = varint_value (take (Suc k) buf) in
     if k = length buf then (0, 0)
     else if k \<le> 9 \<and> v < 2 ^ 64 then (word_of_int v, int k + 1)
     else (0, - (int k + 1)))"
proof (cases "cont_len buf < length buf \<and> cont_len buf = 9")
  case True
  let ?k = "cont_len buf"
  have t: "take (Suc ?k) buf = take ?k buf @ [buf ! ?k]" by (rule take_Suc_conv_app_nth) (use True in simp)
  have "buf ! ?k < 0x80" using True nth_length_takeWhile [of "\<lambda>b. \<not> b < 0x80" buf] by (simp add: cont_len_def)
  then have "uint (buf ! ?k) mod 128 = uint (buf ! ?k)" by (simp add: word_less_def)
  then have v: "varint_value (take (Suc ?k) buf) = varint_value (take 9 buf) + uint (buf ! ?k) * 2 ^ 63"
    unfolding t varint_value_last using True by simp
  have b: "0 \<le> varint_value (take 9 buf)" "varint_value (take 9 buf) < 2 ^ 63"
    using varint_value_bounds [of "take 9 buf"] True by simp_all
  have "\<not> buf ! ?k > 1 \<longleftrightarrow> varint_value (take (Suc ?k) buf) < 2 ^ 64"
    using b unfolding v by (auto simp: word_less_def not_less)
  then show ?thesis using True unfolding Uvarint_value_eq by (simp add: Let_def)
next
  case False
  let ?k = "cont_len buf"
  have "varint_value (take (Suc ?k) buf) < 2 ^ 64" if "?k \<le> 8"
  proof -
    have "varint_value (take (Suc ?k) buf) < 128 ^ length (take (Suc ?k) buf)" by (rule varint_value_bounds(2))
    also have "(128::int) ^ length (take (Suc ?k) buf) \<le> 128 ^ 9" by (rule power_increasing) (use that in simp_all)
    finally show ?thesis by simp
  qed
  moreover have "?k \<le> length buf" unfolding cont_len_def by (rule length_takeWhile_le)
  ultimately show ?thesis using False unfolding Uvarint_value_eq by (auto simp: Let_def)
qed

text \<open>
  ReadUvarint agrees with Uvarint. Reading byte by byte from a reader over a slice returns the number Uvarint
  decodes and consumes exactly its bytes. Where Uvarint fails, it reports an overflow after ten bytes, or the error of the
  reader when the slice ends before.
\<close>

theorem ReadUvarint_agrees: "agrees 0 buf (Uvarint buf) (ReadUvarint slice_reader buf)"
  using ReadUvarint_loop_slice [of 0 buf 0 0] by (simp add: Uvarint_def ReadUvarint_def)

end
