(* ===== verification/Go_IO.thy ===== *)
theory Go_IO
  imports Go_Words
begin

text \<open>
  Slices of slices, and the interfaces of \<^verbatim>\<open>io\<close> that the encodings call. An \<^verbatim>\<open>io.Writer\<close> takes the bytes and its own
  state and returns the number of bytes written and an error of its own.
\<close>

text \<open>\<^verbatim>\<open>s[n:]\<close>, and an operation on \<^verbatim>\<open>s[n:]\<close> that writes through to \<^verbatim>\<open>s\<close>.\<close>

definition from_index :: "'a list \<Rightarrow> int \<Rightarrow> 'a list option" where
  "from_index s n = (if 0 \<le> n \<and> n \<le> int (length s) then Some (drop (nat n) s) else None)"

definition on_tail :: "'a list \<Rightarrow> int \<Rightarrow> ('a list \<Rightarrow> ('a list \<times> 'b) option) \<Rightarrow> ('a list \<times> 'b) option" where
  "on_tail s n f = do { t \<leftarrow> from_index s n; (t, r) \<leftarrow> f t; Some (take (nat n) s @ t, r) }"

text \<open>\<^verbatim>\<open>s[a:b]\<close> within the length of \<^verbatim>\<open>s\<close>.\<close>

definition slice_of :: "'a list \<Rightarrow> int \<Rightarrow> int \<Rightarrow> 'a list option" where
  "slice_of s a b = (if 0 \<le> a \<and> a \<le> b \<and> b \<le> int (length s) then Some (drop (nat a) (take (nat b) s)) else None)"

text \<open>\<^verbatim>\<open>copy(dst, src)\<close>: the new \<^verbatim>\<open>dst\<close> and the number of elements copied.\<close>

definition copy_into :: "'a list \<Rightarrow> 'a list \<Rightarrow> 'a list \<times> int" where
  "copy_into dst src = (let n = min (length dst) (length src) in (take n src @ drop n dst, int n))"

type_synonym ('w, 'e) writer = "byte list \<Rightarrow> 'w \<Rightarrow> (int \<times> 'e option) \<times> 'w"

text \<open>A \<^verbatim>\<open>strings.Builder\<close> appends and never fails; its capacity is not modelled.\<close>

definition builder_Write :: "(byte list, unit) writer" where
  "builder_Write p w = ((int (length p), None), w @ p)"

end
