(* ===== verification/Hex.thy ===== *)
theory Hex
  imports Go_IO "HOL-Library.Signed_Division"
begin

unbundle bit_operations_syntax

text \<open>
  \<^verbatim>\<open>encoding/hex\<close>: encoding, decoding, the streaming encoder and the dumper of hex.go. The \<open>io.Writer\<close> is the
  parameter \<open>wr\<close>. \<^const>\<open>None\<close> is an index out of range.
\<close>

definition hextable :: "byte list" where
  "hextable = [0x30, 0x31, 0x32, 0x33, 0x34, 0x35, 0x36, 0x37, 0x38, 0x39, 0x61, 0x62, 0x63, 0x64, 0x65, 0x66]"

definition EncodedLen :: "int \<Rightarrow> int" where "EncodedLen n = int64 (n * 2)"

definition DecodedLen :: "int \<Rightarrow> int" where "DecodedLen x = x sdiv 2"

subsection \<open>Encoding\<close>

fun Encode_loop :: "byte list \<Rightarrow> byte list \<Rightarrow> int \<Rightarrow> byte list option" where
  "Encode_loop dst [] j = Some dst"
| "Encode_loop dst (v # src) j =
     do {
       h \<leftarrow> idx hextable (uint (drop_bit 4 v));
       dst \<leftarrow> upd dst j h;
       l \<leftarrow> idx hextable (uint (v AND 0x0F));
       dst \<leftarrow> upd dst (j + 1) l;
       Encode_loop dst src (j + 2)
     }"

definition Encode :: "byte list \<Rightarrow> byte list \<Rightarrow> (byte list \<times> int) option" where
  "Encode dst src = do { dst \<leftarrow> Encode_loop dst src 0; Some (dst, int64 (int (length src) * 2)) }"

definition EncodeToString :: "byte list \<Rightarrow> byte list option" where
  "EncodeToString src =
     do {
       let n = EncodedLen (int (length src));
       (dst, _) \<leftarrow> (if n < 0 then None else Encode (replicate (nat n) 0) src);
       Some dst
     }"

subsection \<open>Decoding\<close>

datatype hex_error = InvalidByteError byte | ErrLength

definition fromHexChar :: "byte \<Rightarrow> byte \<times> bool" where
  "fromHexChar c =
     (if 0x30 \<le> c \<and> c \<le> 0x39 then (c - 0x30, True)
      else if 0x61 \<le> c \<and> c \<le> 0x66 then (c - 0x61 + 10, True)
      else if 0x41 \<le> c \<and> c \<le> 0x46 then (c - 0x41 + 10, True)
      else (0, False))"

text \<open>The two slices of Decode: apart from each other, or one slice that is read and overwritten.\<close>

datatype slices = Apart "byte list" "byte list" | Same "byte list"

fun src_of :: "slices \<Rightarrow> byte list" where
  "src_of (Apart dst src) = src" | "src_of (Same b) = b"

fun dst_of :: "slices \<Rightarrow> byte list" where
  "dst_of (Apart dst src) = dst" | "dst_of (Same b) = b"

fun put_dst :: "slices \<Rightarrow> int \<Rightarrow> byte \<Rightarrow> slices option" where
  "put_dst (Apart dst src) i v = do { dst \<leftarrow> upd dst i v; Some (Apart dst src) }"
| "put_dst (Same b) i v = do { b \<leftarrow> upd b i v; Some (Same b) }"

lemma put_dst_length: "put_dst m i v = Some m' \<Longrightarrow> length (src_of m') = length (src_of m)"
  by (cases m) (auto simp: upd_def split: if_splits)

text \<open>The loop returns the slices, the counters, and the byte at which it returned early.\<close>

function Decode_loop :: "slices \<Rightarrow> int \<Rightarrow> int \<Rightarrow> (slices \<times> int \<times> int \<times> byte option) option" where
  "Decode_loop m i j =
     (if j < int (length (src_of m)) then
        do {
          p \<leftarrow> idx (src_of m) (j - 1);
          let (a, ok) = fromHexChar p;
          if \<not> ok then Some (m, i, j, Some p)
          else do {
            q \<leftarrow> idx (src_of m) j;
            let (b, ok) = fromHexChar q;
            if \<not> ok then Some (m, i, j, Some q)
            else do {
              m \<leftarrow> put_dst m i (push_bit 4 a OR b);
              Decode_loop m (i + 1) (j + 2)
            }
          }
        }
      else Some (m, i, j, None))"
  by pat_completeness auto
termination
  by (relation "measure (\<lambda>(m, i, j). nat (int (length (src_of m)) - j))") (auto dest: put_dst_length)

declare Decode_loop.simps [simp del]

definition Decode :: "slices \<Rightarrow> (slices \<times> int \<times> hex_error option) option" where
  "Decode m =
     do {
       (m, i, j, bad) \<leftarrow> Decode_loop m 0 1;
       case bad of
         Some c \<Rightarrow> Some (m, i, Some (InvalidByteError c))
       | None \<Rightarrow>
           if int (length (src_of m)) mod 2 = 1 then do {
             c \<leftarrow> idx (src_of m) (j - 1);
             if \<not> snd (fromHexChar c) then Some (m, i, Some (InvalidByteError c)) else Some (m, i, Some ErrLength)
           }
           else Some (m, i, None)
     }"

definition DecodeString :: "byte list \<Rightarrow> (byte list \<times> hex_error option) option" where
  "DecodeString s = do { (m, n, e) \<leftarrow> Decode (Same s); Some (take (nat n) (src_of m), e) }"

subsection \<open>The streaming encoder\<close>

definition bufferSize :: int where "bufferSize = 1024"

record 'e encoder =
  enc_err :: "'e option"
  out :: "byte list"

definition NewEncoder :: "'e encoder" where
  "NewEncoder = \<lparr>enc_err = None, out = replicate (nat bufferSize) 0\<rparr>"

function encoder_Write_loop ::
  "('w, 'e) writer \<Rightarrow> byte list \<Rightarrow> int \<Rightarrow> 'e encoder \<Rightarrow> 'w \<Rightarrow> (int \<times> 'e encoder \<times> 'w) option" where
  "encoder_Write_loop wr p n e w =
     (if p \<noteq> [] \<and> enc_err e = None then
        do {
          let chunkSize = bufferSize div 2;
          let chunkSize = (if int (length p) < chunkSize then int (length p) else chunkSize);
          (out', encoded) \<leftarrow> Encode (out e) (take (nat chunkSize) p);
          let ((written, err'), w) = wr (take (nat encoded) out') w;
          encoder_Write_loop wr (drop (nat chunkSize) p) (int64 (n + written sdiv 2)) (e\<lparr>enc_err := err', out := out'\<rparr>) w
        }
      else Some (n, e, w))"
  by pat_completeness auto
termination
  by (relation "measure (\<lambda>(wr, p, n, e, w). length p)") (auto simp: bufferSize_def)

declare encoder_Write_loop.simps [simp del]

definition encoder_Write ::
  "('w, 'e) writer \<Rightarrow> byte list \<Rightarrow> 'e encoder \<Rightarrow> 'w \<Rightarrow> ((int \<times> 'e option) \<times> 'e encoder \<times> 'w) option" where
  "encoder_Write wr p e w = do { (n, e, w) \<leftarrow> encoder_Write_loop wr p 0 e w; Some ((n, enc_err e), e, w) }"

subsection \<open>The dumper\<close>

record dumper =
  rightChars :: "byte list"
  dump_buf :: "byte list"
  used :: int
  dump_n :: uint64
  closed :: bool

definition Dumper :: dumper where
  "Dumper = \<lparr>rightChars = replicate 18 0, dump_buf = replicate 14 0, used = 0, dump_n = 0, closed = False\<rparr>"

definition toChar :: "byte \<Rightarrow> byte" where
  "toChar b = (if b < 32 \<or> b > 126 then 0x2E else b)"

text \<open>An error of the dumper: its own, or one of the writer.\<close>

datatype 'e dump_error = DumperClosed | WriteError 'e

text \<open>The offset at the beginning of a line.\<close>

definition dumper_offset :: "dumper \<Rightarrow> dumper option" where
  "dumper_offset h =
     do {
       b \<leftarrow> upd (dump_buf h) 0 (ucast (drop_bit 24 (dump_n h)));
       b \<leftarrow> upd b 1 (ucast (drop_bit 16 (dump_n h)));
       b \<leftarrow> upd b 2 (ucast (drop_bit 8 (dump_n h)));
       b \<leftarrow> upd b 3 (ucast (dump_n h));
       (d, _) \<leftarrow> Encode (drop 4 b) (take 4 b);
       let b = take 4 b @ d;
       b \<leftarrow> upd b 12 0x20;
       b \<leftarrow> upd b 13 0x20;
       Some (h\<lparr>dump_buf := b\<rparr>)
     }"

text \<open>The hexadecimal cell of one byte, and the number of its characters.\<close>

definition dumper_cell :: "dumper \<Rightarrow> byte \<Rightarrow> (dumper \<times> int) option" where
  "dumper_cell h v =
     do {
       (b, _) \<leftarrow> Encode (dump_buf h) [v];
       b \<leftarrow> upd b 2 0x20;
       (b, l) \<leftarrow> (if used h = 7 then do { b \<leftarrow> upd b 3 0x20; Some (b, 4) }
                 else if used h = 15 then do { b \<leftarrow> upd b 3 0x20; b \<leftarrow> upd b 4 0x7C; Some (b, 5) }
                 else Some (b, 3));
       Some (h\<lparr>dump_buf := b\<rparr>, l)
     }"

text \<open>The loop over the data; \<open>n\<close> counts the bytes that were dumped.\<close>

fun dumper_Write_loop ::
  "('w, 'e) writer \<Rightarrow> byte list \<Rightarrow> int \<Rightarrow> dumper \<Rightarrow> 'w \<Rightarrow> ((int \<times> 'e dump_error option) \<times> dumper \<times> 'w) option" where
  "dumper_Write_loop wr [] n h w = Some ((n, None), h, w)"
| "dumper_Write_loop wr (v # data) n h w =
     do {
       h0 \<leftarrow> (if used h = 0 then dumper_offset h else Some h);
       let ((_, err0), w0) = (if used h = 0 then wr (drop 4 (dump_buf h0)) w else ((0, None), w));
       case err0 of
         Some e \<Rightarrow> Some ((n, Some (WriteError e)), h0, w0)
       | None \<Rightarrow> do {
           (h1, l) \<leftarrow> dumper_cell h0 v;
           let ((_, err1), w1) = wr (take (nat l) (dump_buf h1)) w0;
           case err1 of
             Some e \<Rightarrow> Some ((n, Some (WriteError e)), h1, w1)
           | None \<Rightarrow> do {
               rc \<leftarrow> upd (rightChars h1) (used h1) (toChar v);
               let h2 = h1\<lparr>rightChars := rc, used := used h1 + 1, dump_n := dump_n h1 + 1\<rparr>;
               if used h2 = 16 then do {
                 rc \<leftarrow> upd (rightChars h2) 16 0x7C;
                 rc \<leftarrow> upd rc 17 0x0A;
                 let ((_, err2), w2) = wr rc w1;
                 case err2 of
                   Some e \<Rightarrow> Some ((n + 1, Some (WriteError e)), h2\<lparr>rightChars := rc\<rparr>, w2)
                 | None \<Rightarrow> dumper_Write_loop wr data (n + 1) (h2\<lparr>rightChars := rc, used := 0\<rparr>) w2
               }
               else dumper_Write_loop wr data (n + 1) h2 w1
             }
         }
     }"

definition dumper_Write ::
  "('w, 'e) writer \<Rightarrow> byte list \<Rightarrow> dumper \<Rightarrow> 'w \<Rightarrow> ((int \<times> 'e dump_error option) \<times> dumper \<times> 'w) option" where
  "dumper_Write wr data h w =
     (if closed h then Some ((0, Some DumperClosed), h, w) else dumper_Write_loop wr data 0 h w)"

text \<open>The padding of the last line; the result says whether a write failed.\<close>

function dumper_pad :: "('w, 'e) writer \<Rightarrow> dumper \<Rightarrow> 'w \<Rightarrow> 'e option \<times> dumper \<times> 'w" where
  "dumper_pad wr h w =
     (if used h < 16 then
        let l = (if used h = 7 then 4 else if used h = 15 then 5 else 3);
            ((_, err), w) = wr (take l (dump_buf h)) w
        in case err of
             Some e \<Rightarrow> (Some e, h, w)
           | None \<Rightarrow> dumper_pad wr (h\<lparr>used := used h + 1\<rparr>) w
      else (None, h, w))"
  by pat_completeness auto
termination
  by (relation "measure (\<lambda>(wr, h, w). nat (16 - used h))") auto

declare dumper_pad.simps [simp del]

definition dumper_Close :: "('w, 'e) writer \<Rightarrow> dumper \<Rightarrow> 'w \<Rightarrow> ('e option \<times> dumper \<times> 'w) option" where
  "dumper_Close wr h w =
     (if closed h then Some (None, h, w)
      else
        let h = h\<lparr>closed := True\<rparr> in
        if used h = 0 then Some (None, h, w)
        else do {
          b \<leftarrow> upd (dump_buf h) 0 0x20;
          b \<leftarrow> upd b 1 0x20;
          b \<leftarrow> upd b 2 0x20;
          b \<leftarrow> upd b 3 0x20;
          b \<leftarrow> upd b 4 0x7C;
          let nBytes = used h;
          let (err, h, w) = dumper_pad wr (h\<lparr>dump_buf := b\<rparr>) w;
          case err of
            Some e \<Rightarrow> Some (Some e, h, w)
          | None \<Rightarrow> do {
              rc \<leftarrow> upd (rightChars h) nBytes 0x7C;
              rc \<leftarrow> upd rc (nBytes + 1) 0x0A;
              let ((_, err), w) = wr (take (nat (nBytes + 2)) rc) w;
              Some (err, h\<lparr>rightChars := rc\<rparr>, w)
            }
        })"

text \<open>Dump writes to a \<^verbatim>\<open>strings.Builder\<close>.\<close>

definition Dump :: "byte list \<Rightarrow> byte list option" where
  "Dump data =
     (if data = [] then Some []
      else do {
        (_, h, w) \<leftarrow> dumper_Write builder_Write data Dumper [];
        (_, _, w) \<leftarrow> dumper_Close builder_Write h w;
        Some w
      })"

end
