(* ===== verification/Hex_Properties.thy ===== *)
theory Hex_Properties
  imports Hex Go_Words
begin

unbundle bit_operations_syntax

text \<open>
  The properties of \<^verbatim>\<open>encoding/hex\<close>: what is written and read back, decoding in place, the streaming encoder, and the layout
  of a dump.
\<close>

subsection \<open>Encoding\<close>

definition hex_pair :: "byte \<Rightarrow> byte list" where
  "hex_pair v = [hextable ! nat (uint v div 16), hextable ! nat (uint v mod 16)]"

definition hex_of :: "byte list \<Rightarrow> byte list" where
  "hex_of src = concat (map hex_pair src)"

lemma hex_of_simps [simp]: "hex_of [] = []" "hex_of (v # src) = hex_pair v @ hex_of src" "hex_of (a @ b) = hex_of a @ hex_of b"
  by (simp_all add: hex_of_def)

lemma length_hex_pair [simp]: "length (hex_pair v) = 2"
  by (simp add: hex_pair_def)

lemma length_hex_of [simp]: "length (hex_of src) = 2 * length src"
  by (induction src) simp_all

lemma nibbles:
  fixes v :: byte
  shows "uint (drop_bit 4 v) = uint v div 16" "uint (v AND 0x0F) = uint v mod 16" "0 \<le> uint v div 16" "uint v div 16 < 16"
proof -
  show "uint (drop_bit 4 v) = uint v div 16"
    by (simp only: uint_drop) simp
  show "uint (v AND 0x0F) = uint v mod 16" by (rule uint_and_mod)
  show "0 \<le> uint v div 16" by (rule pos_imp_zdiv_nonneg_iff [THEN iffD2]) simp_all
  show "uint v div 16 < 16" using uint_byte [of v] by simp
qed

lemma length_hextable: "length hextable = 16"
  by (simp add: hextable_def)

lemma hextable_idx: "0 \<le> i \<Longrightarrow> i < 16 \<Longrightarrow> idx hextable i = Some (hextable ! nat i)"
  by (simp add: length_hextable)

lemma Encode_loop_eq:
  "Encode_loop dst src (int j) =
    (if j + 2 * length src \<le> length dst \<or> src = [] then Some (take j dst @ hex_of src @ drop (j + 2 * length src) dst) else None)"
proof (induction src arbitrary: dst j)
  case (Cons v src)
  let ?h = "hextable ! nat (uint v div 16)" and ?l = "hextable ! nat (uint v mod 16)"
  have i: "idx hextable (uint (drop_bit 4 v)) = Some ?h" "idx hextable (uint (v AND 0x0F)) = Some ?l"
    unfolding nibbles(1,2) by (rule hextable_idx; simp add: nibbles)+
  show ?case
  proof (cases "Suc j < length dst")
    case True
    let ?dst = "dst[j := ?h, Suc j := ?l]"
    have e: "Encode_loop dst (v # src) (int j) = Encode_loop ?dst src (int (j + 2))"
      using True by (simp only: Encode_loop.simps i) (simp add: upd_def nat_add_distrib add.commute)
    have t: "take (j + 2) ?dst = take j dst @ [?h, ?l]"
      using True by (simp add: take_Suc_conv_app_nth numeral_2_eq_2 nth_list_update)
    have d: "drop (j + 2 + 2 * length src) ?dst = drop (j + 2 * length (v # src)) dst" by (simp add: drop_update_swap)
    show ?thesis
    proof (cases "src = []")
      case True': True
      have "?dst = take (j + 2) ?dst @ drop (j + 2) ?dst" by (rule append_take_drop_id [symmetric])
      then show ?thesis using True True' d unfolding e t by (simp add: hex_pair_def)
    next
      case False
      then show ?thesis unfolding e Cons.IH t d by (simp add: hex_pair_def)
    qed
  next
    case False
    then have "Encode_loop dst (v # src) (int j) = None"
      by (simp only: Encode_loop.simps i) (simp add: upd_def)
    then show ?thesis using False by simp
  qed
qed simp

lemma Encode_eq:
  assumes "2 * length src \<le> length dst" "int (length src) < 2 ^ 62"
  shows "Encode dst src = Some (hex_of src @ drop (2 * length src) dst, int (2 * length src))"
  using Encode_loop_eq [of dst src 0] assms int64_id [of "int (length src) * 2"] by (auto simp: Encode_def)

lemma EncodeToString_eq:
  assumes "int (length src) < 2 ^ 62"
  shows "EncodeToString src = Some (hex_of src)"
proof -
  have n: "EncodedLen (int (length src)) = int (2 * length src)"
    using assms unfolding EncodedLen_def by (subst int64_id) auto
  show ?thesis unfolding EncodeToString_def n Let_def using Encode_eq [of src "replicate (2 * length src) 0"] assms by (simp add: nat_mult_distrib)
qed

subsection \<open>Decoding\<close>

text \<open>The reference: pairs of hexadecimal characters up to the first problem.\<close>

definition is_hex :: "byte \<Rightarrow> bool" where
  "is_hex c \<longleftrightarrow> 0x30 \<le> c \<and> c \<le> 0x39 \<or> 0x61 \<le> c \<and> c \<le> 0x66 \<or> 0x41 \<le> c \<and> c \<le> 0x46"

definition hex_val :: "byte \<Rightarrow> int" where
  "hex_val c = (if c \<le> 0x39 then uint c - 0x30 else if 0x61 \<le> c then uint c - 0x61 + 10 else uint c - 0x41 + 10)"

fun unhex :: "byte list \<Rightarrow> byte list \<times> hex_error option" where
  "unhex [] = ([], None)"
| "unhex [c] = ([], Some (if is_hex c then ErrLength else InvalidByteError c))"
| "unhex (c # d # s) =
     (if \<not> is_hex c then ([], Some (InvalidByteError c))
      else if \<not> is_hex d then ([], Some (InvalidByteError d))
      else let (bs, e) = unhex s in (word_of_int (16 * hex_val c + hex_val d) # bs, e))"

lemma uint_sub_byte:
  fixes c d :: byte
  assumes "d \<le> c"
  shows "uint (c - d) = uint c - uint d"
  using assms by (simp add: uint_minus_simple_alt word_le_def)

lemma fromHexChar_spec: "snd (fromHexChar c) = is_hex c" "is_hex c \<Longrightarrow> uint (fst (fromHexChar c)) = hex_val c \<and> 0 \<le> hex_val c \<and> hex_val c < 16"
proof -
  show "snd (fromHexChar c) = is_hex c" by (auto simp: fromHexChar_def is_hex_def)
  assume "is_hex c"
  then consider "0x30 \<le> c" "c \<le> 0x39" | "0x61 \<le> c" "c \<le> 0x66" | "0x41 \<le> c" "c \<le> 0x46" by (auto simp: is_hex_def)
  then show "uint (fst (fromHexChar c)) = hex_val c \<and> 0 \<le> hex_val c \<and> hex_val c < 16"
  proof cases
    case 1
    then show ?thesis using uint_sub_byte [of "0x30" c] by (simp add: fromHexChar_def hex_val_def word_le_def)
  next
    case 2
    then have u: "97 \<le> uint c" "uint c \<le> 102" by (simp_all add: word_le_def)
    have s: "uint (c - 0x61) = uint c - 97" using uint_sub_byte [of "0x61" c] 2 by simp
    then have "uint (c - 0x61 + 10) = uint c - 97 + 10" using u by (simp add: uint_word_ariths)
    then show ?thesis using 2 u by (simp add: fromHexChar_def hex_val_def word_le_def)
  next
    case 3
    then have u: "65 \<le> uint c" "uint c \<le> 70" by (simp_all add: word_le_def)
    have s: "uint (c - 0x41) = uint c - 65" using uint_sub_byte [of "0x41" c] 3 by simp
    then have "uint (c - 0x41 + 10) = uint c - 65 + 10" using u by (simp add: uint_word_ariths)
    then show ?thesis using 3 u by (simp add: fromHexChar_def hex_val_def word_le_def)
  qed
qed

lemma nibble_or:
  assumes "is_hex c" "is_hex d"
  shows "(push_bit 4 (fst (fromHexChar c)) OR fst (fromHexChar d) :: byte) = word_of_int (16 * hex_val c + hex_val d)"
proof -
  note c = fromHexChar_spec(2) [OF assms(1)] and d = fromHexChar_spec(2) [OF assms(2)]
  have p: "uint (push_bit 4 (fst (fromHexChar c))) = 16 * hex_val c"
    using c by (subst uint_push) simp_all
  have "uint (push_bit 4 (fst (fromHexChar c)) OR fst (fromHexChar d)) = 16 * hex_val c + hex_val d"
    using uint_or_plus [of "fst (fromHexChar d)" 4 "push_bit 4 (fst (fromHexChar c))"] c d p by simp
  then show ?thesis by (metis word_of_int_uint)
qed

text \<open>The part of Decode after its loop.\<close>

definition Decode_end :: "slices \<times> int \<times> int \<times> byte option \<Rightarrow> (slices \<times> int \<times> hex_error option) option" where
  "Decode_end = (\<lambda>(m, i, j, bad). case bad of
     Some c \<Rightarrow> Some (m, i, Some (InvalidByteError c))
   | None \<Rightarrow>
       if int (length (src_of m)) mod 2 = 1 then do {
         c \<leftarrow> idx (src_of m) (j - 1);
         if \<not> snd (fromHexChar c) then Some (m, i, Some (InvalidByteError c)) else Some (m, i, Some ErrLength)
       }
       else Some (m, i, None))"

lemma Decode_split: "Decode m = do { x \<leftarrow> Decode_loop m 0 1; Decode_end x }"
  unfolding Decode_def Decode_end_def ..

text \<open>Writing behind the read position does not disturb what is still to be read, in either kind of slices.\<close>

lemma put_dst_eq:
  assumes "k < length (dst_of m)"
  shows "\<exists>m'. put_dst m (int k) v = Some m' \<and> dst_of m' = (dst_of m)[k := v]
    \<and> length (src_of m') = length (src_of m) \<and> (\<forall>n > k. drop n (src_of m') = drop n (src_of m))
    \<and> (\<exists>b. m = Same b) = (\<exists>b. m' = Same b) \<and> (\<forall>d s. m = Apart d s \<longrightarrow> (\<exists>d'. m' = Apart d' s))"
  using assms by (cases m) (auto simp: upd_def drop_update_cancel)

lemma Decode_loop_eq:
  assumes "drop (2 * k) (src_of m) = r" "2 * k \<le> length (src_of m)" "k + length r div 2 \<le> length (dst_of m)"
  shows "\<exists>m'. do { x \<leftarrow> Decode_loop m (int k) (int (2 * k + 1)); Decode_end x } = Some (m', int (k + length (fst (unhex r))), snd (unhex r))
    \<and> dst_of m' = take k (dst_of m) @ fst (unhex r) @ drop (k + length (fst (unhex r))) (dst_of m)
    \<and> (\<exists>b. m = Same b) = (\<exists>b. m' = Same b) \<and> (\<forall>d s. m = Apart d s \<longrightarrow> (\<exists>d'. m' = Apart d' s))"
  using assms
proof (induction r arbitrary: m k rule: unhex.induct)
  case 1
  then have "length (src_of m) = 2 * k" by simp
  then show ?case by (subst Decode_loop.simps) (auto simp: Decode_end_def)
next
  case (2 c)
  have l: "length (src_of m) = 2 * k + 1" using arg_cong [OF "2.prems"(1), of length] "2.prems"(2) by simp
  have c: "src_of m ! (2 * k) = c" using "2.prems"(1) by (rule nth_via_drop)
  have "idx (src_of m) (int (2 * k)) = Some c" using l c by (simp only: idx_of_nat)
  then show ?case using l by (subst Decode_loop.simps) (auto simp: Decode_end_def fromHexChar_spec(1))
next
  case (3 c d s)
  have l: "length (src_of m) = 2 * k + 2 + length s" using arg_cong [OF "3.prems"(1), of length] "3.prems"(2) by simp
  have c: "src_of m ! (2 * k) = c" using "3.prems"(1) by (rule nth_via_drop)
  have "drop (Suc (2 * k)) (src_of m) = d # s" using "3.prems"(1) by (metis drop_Suc list.sel(3) tl_drop)
  then have d: "src_of m ! Suc (2 * k) = d" by (rule nth_via_drop)
  have ic: "idx (src_of m) (int (2 * k)) = Some c" using l c by (subst idx_of_nat) simp_all
  have id': "idx (src_of m) (int (2 * k) + 1) = Some d" using l d by (simp add: idx_def nat_add_distrib nat_mult_distrib)
  have step: "Decode_loop m (int k) (int (2 * k + 1)) =
     (if \<not> is_hex c then Some (m, int k, int (2 * k + 1), Some c)
      else if \<not> is_hex d then Some (m, int k, int (2 * k + 1), Some d)
      else do {
        m \<leftarrow> put_dst m (int k) (push_bit 4 (fst (fromHexChar c)) OR fst (fromHexChar d));
        Decode_loop m (int (k + 1)) (int (2 * (k + 1) + 1))
      })"
    using l ic id' fromHexChar_spec(1) [of c] fromHexChar_spec(1) [of d]
    by (subst Decode_loop.simps) (auto simp: case_prod_beta Let_def algebra_simps)
  consider "\<not> is_hex c" | "is_hex c" "\<not> is_hex d" | "is_hex c" "is_hex d" by blast
  then show ?case
  proof cases
    case 1
    then show ?thesis unfolding step by (simp add: Decode_end_def)
  next
    case 2
    then show ?thesis unfolding step by (simp add: Decode_end_def)
  next
    case 3
    let ?v = "push_bit 4 (fst (fromHexChar c)) OR fst (fromHexChar d) :: byte"
    have room: "k < length (dst_of m)" using "3.prems"(3) by simp
    obtain m1 where m1: "put_dst m (int k) ?v = Some m1" "dst_of m1 = (dst_of m)[k := ?v]" "length (src_of m1) = length (src_of m)"
      "\<forall>n > k. drop n (src_of m1) = drop n (src_of m)" "(\<exists>b. m = Same b) = (\<exists>b. m1 = Same b)"
      "\<forall>d s. m = Apart d s \<longrightarrow> (\<exists>d'. m1 = Apart d' s)"
      using put_dst_eq [OF room, of ?v] by blast
    have "drop (2 * (k + 1)) (src_of m1) = s"
    proof -
      have "drop (2 * (k + 1)) (src_of m1) = drop 2 (drop (2 * k) (src_of m))" using m1(4) by (simp add: add.commute)
      then show ?thesis using "3.prems"(1) by simp
    qed
    from "3.IH" [OF _ _ this] 3 obtain m2 where
      m2: "do { x \<leftarrow> Decode_loop m1 (int (k + 1)) (int (2 * (k + 1) + 1)); Decode_end x } = Some (m2, int (k + 1 + length (fst (unhex s))), snd (unhex s))"
        "dst_of m2 = take (k + 1) (dst_of m1) @ fst (unhex s) @ drop (k + 1 + length (fst (unhex s))) (dst_of m1)"
        "(\<exists>b. m1 = Same b) = (\<exists>b. m2 = Same b)" "\<forall>d s. m1 = Apart d s \<longrightarrow> (\<exists>d'. m2 = Apart d' s)"
      using l m1(2,3) "3.prems"(3) by auto
    have u: "fst (unhex (c # d # s)) = ?v # fst (unhex s)" "snd (unhex (c # d # s)) = snd (unhex s)"
      using 3 nibble_or [OF 3] by (simp_all add: case_prod_beta Let_def)
    have t: "take (k + 1) (dst_of m1) = take k (dst_of m) @ [?v]" "drop (k + 1 + n) (dst_of m1) = drop (k + 1 + n) (dst_of m)" for n
      using room m1(2) by (simp_all add: take_Suc_conv_app_nth)
    have "do { x \<leftarrow> Decode_loop m (int k) (int (2 * k + 1)); Decode_end x } = Some (m2, int (k + length (fst (unhex (c # d # s)))), snd (unhex (c # d # s)))"
      unfolding step u using 3 m1(1) m2(1) by simp
    moreover have "dst_of m2 = take k (dst_of m) @ fst (unhex (c # d # s)) @ drop (k + length (fst (unhex (c # d # s)))) (dst_of m)"
      unfolding u m2(2) t(1) using t(2) [of "length (fst (unhex s))"] by simp
    ultimately show ?thesis using m1(5,6) m2(3,4) by blast
  qed
qed

lemma unhex_length: "length (fst (unhex r)) \<le> length r div 2"
  by (induction r rule: unhex.induct) (auto simp: case_prod_beta Let_def)

lemma DecodeString_eq: "DecodeString s = Some (unhex s)"
proof -
  obtain m where m: "Decode (Same s) = Some (m, int (length (fst (unhex s))), snd (unhex s))"
      "dst_of m = fst (unhex s) @ drop (length (fst (unhex s))) s" "\<exists>b. m = Same b"
    using Decode_loop_eq [of 0 "Same s" s] by (auto simp: Decode_split)
  then show ?thesis by (auto simp: DecodeString_def)
qed

lemma Decode_apart:
  assumes "length src div 2 \<le> length dst"
  shows "Decode (Apart dst src) =
    Some (Apart (fst (unhex src) @ drop (length (fst (unhex src))) dst) src, int (length (fst (unhex src))), snd (unhex src))"
proof -
  obtain m where "Decode (Apart dst src) = Some (m, int (length (fst (unhex src))), snd (unhex src))"
      "dst_of m = fst (unhex src) @ drop (length (fst (unhex src))) dst" "\<exists>d'. m = Apart d' src"
    using Decode_loop_eq [of 0 "Apart dst src" src] assms by (auto simp: Decode_split)
  then show ?thesis by auto
qed

lemma hex_digit_back:
  assumes "0 \<le> i" "i < 16"
  shows "is_hex (hextable ! nat i)" "hex_val (hextable ! nat i) = i"
proof -
  have "list_all (\<lambda>i. is_hex (hextable ! i) \<and> hex_val (hextable ! i) = int i) [0..<16]" by code_simp
  then have "is_hex (hextable ! n) \<and> hex_val (hextable ! n) = int n" if "n < 16" for n using that by (simp add: list_all_iff)
  from this [of "nat i"] show "is_hex (hextable ! nat i)" "hex_val (hextable ! nat i) = i" using assms by (simp_all add: nat_less_iff)
qed

lemma unhex_hex_of: "unhex (hex_of src) = (src, None)"
proof (induction src)
  case (Cons v src)
  have d: "0 \<le> uint v div 16" "uint v div 16 < 16" "0 \<le> uint v mod 16" "uint v mod 16 < 16" using nibbles(3,4) [of v] by simp_all
  have "16 * (uint v div 16) + uint v mod 16 = uint v" by simp
  then have "(word_of_int (16 * (uint v div 16) + uint v mod 16) :: byte) = v" by (simp only: word_of_int_uint)
  then show ?case using Cons hex_digit_back [OF d(1,2)] hex_digit_back [OF d(3,4)] by (simp add: hex_pair_def)
qed simp

subsection \<open>The streaming encoder\<close>

lemma encoder_Write_loop_eq:
  assumes "enc_err e = None" "length (out e) = 1024" "int n + int (length p) < 2 ^ 62"
  shows "\<exists>e'. encoder_Write_loop builder_Write p (int n) e w = Some (int (n + length p), e', w @ hex_of p) \<and> enc_err e' = None"
  using assms
proof (induction "length p" arbitrary: p n e w rule: less_induct)
  case less
  show ?case
  proof (cases "p = []")
    case True
    then show ?thesis using less.prems by (subst encoder_Write_loop.simps) simp
  next
    case False
    define k where "k = min (length p) 512"
    let ?q = "take k p"
    have k: "nat (if int (length p) < bufferSize div 2 then int (length p) else bufferSize div 2) = k" "0 < k" "k \<le> length p" "k \<le> 512"
      using False by (auto simp: k_def bufferSize_def min_def)
    let ?out = "hex_of ?q @ drop (2 * k) (out e)"
    let ?e = "e\<lparr>enc_err := None, out := ?out\<rparr>"
    have enc: "Encode (out e) ?q = Some (?out, int (2 * k))"
      using Encode_eq [of ?q "out e"] less.prems(2) k by simp
    have half: "int (2 * k) sdiv 2 = int k" by (simp add: signed_divide_int_def sgn_if)
    have n: "int64 (int n + int (2 * k) sdiv 2) = int (n + k)"
      unfolding half using less.prems(3) k(3) by (subst int64_id) auto
    have step: "encoder_Write_loop builder_Write p (int n) e w = encoder_Write_loop builder_Write (drop k p) (int (n + k)) ?e (w @ hex_of ?q)"
      using False less.prems(1) k enc n by (subst encoder_Write_loop.simps) (simp add: Let_def builder_Write_def)
    have "length ?out = 1024" using less.prems(2) k by simp
    then obtain e' where "encoder_Write_loop builder_Write (drop k p) (int (n + k)) ?e (w @ hex_of ?q)
        = Some (int (n + k + length (drop k p)), e', (w @ hex_of ?q) @ hex_of (drop k p))" "enc_err e' = None"
      using less.hyps [of "drop k p" ?e "n + k" "w @ hex_of ?q"] less.prems(3) k False by auto
    moreover have "hex_of ?q @ hex_of (drop k p) = hex_of p" by (metis append_take_drop_id hex_of_simps(3))
    ultimately show ?thesis using step k(3) by auto
  qed
qed

subsection \<open>The layout of a dump\<close>

text \<open>A line: the offset, sixteen cells with a gap in the middle, and the characters between bars.\<close>

definition dump_offset :: "uint64 \<Rightarrow> byte list" where
  "dump_offset n = hex_of [ucast (drop_bit 24 n), ucast (drop_bit 16 n), ucast (drop_bit 8 n), ucast n] @ [0x20, 0x20]"

definition dump_gap :: "nat \<Rightarrow> byte list" where
  "dump_gap j = (if j = 7 then [0x20] else if j = 15 then [0x20, 0x7C] else [])"

definition dump_cell :: "nat \<Rightarrow> byte \<Rightarrow> byte list" where
  "dump_cell j v = hex_pair v @ [0x20] @ dump_gap j"

definition dump_blank :: "nat \<Rightarrow> byte list" where
  "dump_blank j = [0x20, 0x20, 0x20] @ dump_gap j"

fun dump_cells :: "nat \<Rightarrow> byte list \<Rightarrow> byte list" where
  "dump_cells j [] = []"
| "dump_cells j (v # vs) = dump_cell j v @ dump_cells (Suc j) vs"

definition dump_line :: "uint64 \<Rightarrow> byte list \<Rightarrow> byte list" where
  "dump_line n vs = dump_offset n @ dump_cells 0 vs @ concat (map dump_blank [length vs..<16]) @ map toChar vs @ [0x7C, 0x0A]"

function hexdump :: "uint64 \<Rightarrow> byte list \<Rightarrow> byte list" where
  "hexdump n vs = (if vs = [] then [] else dump_line n (take 16 vs) @ hexdump (n + 16) (drop 16 vs))"
  by pat_completeness auto
termination
  by (relation "measure (\<lambda>(n, vs). length vs)") auto

declare hexdump.simps [simp del]

text \<open>The dumper inside a line: the bytes \<open>vs\<close> of it are written, from offset \<open>n\<close>.\<close>

definition in_line :: "dumper \<Rightarrow> uint64 \<Rightarrow> byte list \<Rightarrow> bool" where
  "in_line h n vs \<longleftrightarrow> used h = int (length vs) \<and> length vs < 16 \<and> length (rightChars h) = 18 \<and> length (dump_buf h) = 14
     \<and> take (length vs) (rightChars h) = map toChar vs \<and> dump_n h = n + of_nat (length vs) \<and> \<not> closed h"

lemma in_line_Dumper: "in_line Dumper 0 []"
  by (simp add: in_line_def Dumper_def)

lemma at_14:
  assumes "length b = 14"
  obtains b0 b1 b2 b3 b4 b5 b6 b7 b8 b9 b10 b11 b12 b13 where "b = [b0, b1, b2, b3, b4, b5, b6, b7, b8, b9, b10, b11, b12, b13]"
  using assms by (auto simp: numeral_eq_Suc length_Suc_conv)

lemma dumper_offset_eq:
  assumes "length (dump_buf h) = 14"
  shows "\<exists>h'. dumper_offset h = Some h' \<and> drop 4 (dump_buf h') = dump_offset (dump_n h) \<and> length (dump_buf h') = 14
    \<and> h' = h\<lparr>dump_buf := dump_buf h'\<rparr>"
proof -
  from assms obtain b0 b1 b2 b3 b4 b5 b6 b7 b8 b9 b10 b11 b12 b13 where b: "dump_buf h = [b0, b1, b2, b3, b4, b5, b6, b7, b8, b9, b10, b11, b12, b13]"
    by (rule at_14)
  have E: "Encode [x4, x5, x6, x7, x8, x9, x10, x11, x12, x13] [v0, v1, v2, v3] = Some (hex_of [v0, v1, v2, v3] @ [x12, x13], 8)"
    for x4 x5 x6 x7 x8 x9 x10 x11 x12 x13 v0 v1 v2 v3 :: byte
    by (subst Encode_eq) simp_all
  show ?thesis
    unfolding dumper_offset_def b dump_offset_def by (simp add: upd_Cons E hex_pair_def)
qed

lemma dumper_cell_eq:
  assumes "length (dump_buf h) = 14" "used h = int j" "j < 16"
  shows "\<exists>h' l. dumper_cell h v = Some (h', l) \<and> take (nat l) (dump_buf h') = dump_cell j v \<and> length (dump_buf h') = 14
    \<and> h' = h\<lparr>dump_buf := dump_buf h'\<rparr>"
proof -
  from assms(1) obtain b0 b1 b2 b3 b4 b5 b6 b7 b8 b9 b10 b11 b12 b13 where b: "dump_buf h = [b0, b1, b2, b3, b4, b5, b6, b7, b8, b9, b10, b11, b12, b13]"
    by (rule at_14)
  have E: "Encode [b0, b1, b2, b3, b4, b5, b6, b7, b8, b9, b10, b11, b12, b13] [v]
      = Some (hex_pair v @ [b2, b3, b4, b5, b6, b7, b8, b9, b10, b11, b12, b13], 2)"
    by (subst Encode_eq) simp_all
  show ?thesis
    unfolding dumper_cell_def b dump_cell_def dump_gap_def using assms(2) by (auto simp: upd_Cons E hex_pair_def)
qed

lemma last_two: "length xs = 18 \<Longrightarrow> xs[16 := a, 17 := b] = take 16 xs @ [a, b]"
proof -
  assume l: "length xs = 18"
  then obtain p q where "drop 16 xs = [p, q]" by (cases "drop 16 xs" rule: remdups_adj.cases) (auto dest: arg_cong [of _ _ length])
  then have "xs = take 16 xs @ [p, q]" by (metis append_take_drop_id)
  moreover have "(take 16 xs @ [p, q])[16 := a, 17 := b] = take 16 xs @ [a, b]" using l by (simp add: list_update_append)
  ultimately show ?thesis by metis
qed

lemma dumper_byte:
  assumes "in_line h n vs"
  shows "\<exists>h'. dumper_Write_loop builder_Write (v # data) m h w =
      dumper_Write_loop builder_Write data (m + 1) h'
        (w @ (if vs = [] then dump_offset n else []) @ dump_cell (length vs) v
          @ (if length vs = 15 then map toChar (vs @ [v]) @ [0x7C, 0x0A] else []))
    \<and> (if length vs = 15 then in_line h' (n + 16) [] else in_line h' n (vs @ [v]))"
proof -
  let ?j = "length vs"
  have h: "used h = int ?j" "?j < 16" "length (rightChars h) = 18" "length (dump_buf h) = 14"
    "take ?j (rightChars h) = map toChar vs" "dump_n h = n + of_nat ?j" "\<not> closed h"
    using assms by (auto simp: in_line_def)
  obtain h0 where h0: "(if used h = 0 then dumper_offset h else Some h) = Some h0" "length (dump_buf h0) = 14"
      "h0 = h\<lparr>dump_buf := dump_buf h0\<rparr>" "vs = [] \<Longrightarrow> drop 4 (dump_buf h0) = dump_offset n"
    using dumper_offset_eq [OF h(4)] h by (cases "vs = []") auto
  have s0: "used h0 = int ?j" "rightChars h0 = rightChars h" "dump_n h0 = dump_n h" "closed h0 = closed h"
    by (subst h0(3); simp add: h(1))+
  obtain h1 l where h1: "dumper_cell h0 v = Some (h1, l)" "take (nat l) (dump_buf h1) = dump_cell ?j v" "length (dump_buf h1) = 14"
      "h1 = h0\<lparr>dump_buf := dump_buf h1\<rparr>"
    using dumper_cell_eq [OF h0(2) s0(1) h(2)] by blast
  have s1: "used h1 = int ?j" "rightChars h1 = rightChars h" "dump_n h1 = dump_n h" "closed h1 = closed h"
    by (subst h1(4); simp add: s0)+
  let ?rc = "(rightChars h)[?j := toChar v]"
  have rc: "upd (rightChars h1) (used h1) (toChar v) = Some ?rc" using s1 h by (simp add: upd_def)
  have t: "take (Suc ?j) ?rc = map toChar (vs @ [v])" using h(2,3,5) by (simp add: take_Suc_conv_app_nth)
  show ?thesis
  proof (cases "?j = 15")
    case True
    let ?rc2 = "?rc[16 := 0x7C, 17 := 0x0A]"
    let ?h2 = "h1\<lparr>dump_n := dump_n h1 + 1, rightChars := ?rc2, used := 0\<rparr>"
    have ne: "vs \<noteq> []" using True by auto
    have "take 16 ?rc = map toChar (vs @ [v])" using t True by simp
    then have rc2: "?rc2 = map toChar (vs @ [v]) @ [0x7C, 0x0A]"
      using last_two [of ?rc "0x7C" "0x0A"] h(3) by simp
    have u: "upd ?rc 16 0x7C = Some (?rc[16 := 0x7C])" "upd (?rc[16 := 0x7C]) 17 0x0A = Some ?rc2" using h(3) by (simp_all add: upd_def)
    have "in_line ?h2 (n + 16) []" using h h1(3) s1 True by (simp add: in_line_def add.assoc)
    moreover have "dumper_Write_loop builder_Write (v # data) m h w = dumper_Write_loop builder_Write data (m + 1) ?h2
        (w @ (if vs = [] then dump_offset n else []) @ dump_cell ?j v @ ?rc2)"
      using h0(1) h1(1,2) rc u s1 True h(1) ne by (simp add: builder_Write_def Let_def)
    ultimately show ?thesis using True rc2 by auto
  next
    case False
    let ?h2 = "h1\<lparr>rightChars := ?rc, used := used h1 + 1, dump_n := dump_n h1 + 1\<rparr>"
    have "in_line ?h2 n (vs @ [v])" using h h1(3) s1 False t by (auto simp: in_line_def)
    moreover have "dumper_Write_loop builder_Write (v # data) m h w = dumper_Write_loop builder_Write data (m + 1) ?h2
        (w @ (if vs = [] then dump_offset n else []) @ dump_cell ?j v)"
      using h0(1,4) h1(1,2) rc s1 False h(1) by (cases "vs = []") (simp_all add: builder_Write_def Let_def)
    ultimately show ?thesis using False by auto
  qed
qed

text \<open>What the dumper has written for the beginning \<open>vs\<close> of a line.\<close>

definition dump_part :: "uint64 \<Rightarrow> byte list \<Rightarrow> byte list" where
  "dump_part n vs = (if vs = [] then [] else dump_offset n @ dump_cells 0 vs)"

lemma dump_cells_append: "dump_cells j (us @ vs) = dump_cells j us @ dump_cells (j + length us) vs"
  by (induction us arbitrary: j) simp_all

lemma dump_line_full: "length vs = 16 \<Longrightarrow> dump_line n vs = dump_offset n @ dump_cells 0 vs @ map toChar vs @ [0x7C, 0x0A]"
  by (simp add: dump_line_def)

text \<open>The state of a dumper that has been given the bytes \<open>ds\<close>: whole lines, and the beginning of the next one.\<close>

definition dumped :: "dumper \<Rightarrow> byte list \<Rightarrow> byte list \<Rightarrow> bool" where
  "dumped h w ds \<longleftrightarrow> (\<exists>n vs w0. in_line h n vs \<and> w = w0 @ dump_part n vs \<and> (\<forall>more. hexdump 0 (ds @ more) = w0 @ hexdump n (vs @ more)))"

lemma dumped_Dumper: "dumped Dumper [] []"
  unfolding dumped_def using in_line_Dumper by (intro exI [of _ 0] exI [of _ "[]"]) (simp add: dump_part_def)

lemma dumped_byte:
  assumes "dumped h w ds"
  shows "\<exists>h' w'. dumper_Write_loop builder_Write (v # data) m h w = dumper_Write_loop builder_Write data (m + 1) h' w' \<and> dumped h' w' (ds @ [v])"
proof -
  from assms obtain n vs w0 where d: "in_line h n vs" "w = w0 @ dump_part n vs" "\<And>more. hexdump 0 (ds @ more) = w0 @ hexdump n (vs @ more)"
    unfolding dumped_def by blast
  from dumper_byte [OF d(1), of v data m w] obtain h' where h':
    "dumper_Write_loop builder_Write (v # data) m h w = dumper_Write_loop builder_Write data (m + 1) h'
      (w @ (if vs = [] then dump_offset n else []) @ dump_cell (length vs) v @ (if length vs = 15 then map toChar (vs @ [v]) @ [0x7C, 0x0A] else []))"
    "if length vs = 15 then in_line h' (n + 16) [] else in_line h' n (vs @ [v])" by blast
  have p: "dump_part n vs @ (if vs = [] then dump_offset n else []) @ dump_cell (length vs) v = dump_offset n @ dump_cells 0 (vs @ [v])"
    by (simp add: dump_part_def dump_cells_append)
  show ?thesis
  proof (cases "length vs = 15")
    case True
    have "hexdump n (vs @ v # more) = dump_line n (vs @ [v]) @ hexdump (n + 16) more" for more
      using True by (subst hexdump.simps) simp
    then have "dumped h' (w0 @ dump_line n (vs @ [v])) (ds @ [v])"
      unfolding dumped_def using h'(2) True d(3) by (intro exI [of _ "n + 16"] exI [of _ "[]"] exI [of _ "w0 @ dump_line n (vs @ [v])"]) (auto simp: dump_part_def)
    moreover have "w @ (if vs = [] then dump_offset n else []) @ dump_cell (length vs) v @ map toChar (vs @ [v]) @ [0x7C, 0x0A]
        = w0 @ dump_line n (vs @ [v])"
      using p True by (simp add: d(2) dump_line_full)
    ultimately show ?thesis using h'(1) True by auto
  next
    case False
    have "w @ (if vs = [] then dump_offset n else []) @ dump_cell (length vs) v = w0 @ dump_part n (vs @ [v])"
      using p by (simp add: d(2) dump_part_def)
    moreover have "dumped h' (w0 @ dump_part n (vs @ [v])) (ds @ [v])"
      unfolding dumped_def using h'(2) False d(3) by (intro exI [of _ n] exI [of _ "vs @ [v]"] exI [of _ w0]) auto
    ultimately show ?thesis using h'(1) False by auto
  qed
qed

lemma dumped_Write_loop:
  "dumped h w ds \<Longrightarrow> \<exists>h' w'. dumper_Write_loop builder_Write data m h w = Some ((m + int (length data), None), h', w') \<and> dumped h' w' (ds @ data)"
proof (induction data arbitrary: h w ds m)
  case (Cons v data)
  obtain h1 w1 where "dumper_Write_loop builder_Write (v # data) m h w = dumper_Write_loop builder_Write data (m + 1) h1 w1" "dumped h1 w1 (ds @ [v])"
    using dumped_byte [OF Cons.prems] by blast
  then show ?case using Cons.IH [of h1 w1 "ds @ [v]" "m + 1"] by (auto simp: add.assoc)
qed simp

lemma dumped_Write:
  assumes "dumped h w ds"
  shows "\<exists>h' w'. dumper_Write builder_Write data h w = Some ((int (length data), None), h', w') \<and> dumped h' w' (ds @ data)"
proof -
  have "\<not> closed h" using assms by (auto simp: dumped_def in_line_def)
  then show ?thesis using dumped_Write_loop [OF assms, of data 0] by (simp add: dumper_Write_def)
qed

text \<open>Closing pads the last line.\<close>

lemma dumper_pad_eq:
  assumes "used h = int j" "j \<le> 16" "take 5 (dump_buf h) = [0x20, 0x20, 0x20, 0x20, 0x7C]"
  shows "\<exists>h'. dumper_pad builder_Write h w = (None, h', w @ concat (map dump_blank [j..<16])) \<and> rightChars h' = rightChars h"
  using assms
proof (induction "16 - j" arbitrary: h w j)
  case 0
  then show ?case by (subst dumper_pad.simps) simp
next
  case (Suc x)
  then have j: "j < 16" by simp
  have t: "take 3 (dump_buf h) = [0x20, 0x20, 0x20]" "take 4 (dump_buf h) = [0x20, 0x20, 0x20, 0x20]"
    using arg_cong [OF Suc.prems(3), of "take 3"] arg_cong [OF Suc.prems(3), of "take 4"] by simp_all
  have step: "dumper_pad builder_Write h w = dumper_pad builder_Write (h\<lparr>used := used h + 1\<rparr>) (w @ dump_blank j)"
    using j Suc.prems(1,3) t by (subst dumper_pad.simps) (auto simp: builder_Write_def dump_blank_def dump_gap_def)
  have x: "x = 16 - Suc j" using Suc.hyps(2) by arith
  obtain h' where "dumper_pad builder_Write (h\<lparr>used := used h + 1\<rparr>) (w @ dump_blank j)
      = (None, h', (w @ dump_blank j) @ concat (map dump_blank [Suc j..<16]))" "rightChars h' = rightChars h"
    using Suc.hyps(1) [OF x, of "h\<lparr>used := used h + 1\<rparr>" "w @ dump_blank j"] Suc.prems j by auto
  moreover have "concat (map dump_blank [j..<16]) = dump_blank j @ concat (map dump_blank [Suc j..<16])" using j by (simp add: upt_conv_Cons)
  ultimately show ?case using step by simp
qed

lemma dumped_Close:
  assumes "dumped h w ds"
  shows "\<exists>h'. dumper_Close builder_Write h w = Some (None, h', hexdump 0 ds)"
proof -
  from assms obtain n vs w0 where d: "in_line h n vs" "w = w0 @ dump_part n vs" "\<And>more. hexdump 0 (ds @ more) = w0 @ hexdump n (vs @ more)"
    unfolding dumped_def by blast
  have h: "used h = int (length vs)" "length vs < 16" "length (rightChars h) = 18" "length (dump_buf h) = 14"
    "take (length vs) (rightChars h) = map toChar vs" "\<not> closed h"
    using d(1) by (auto simp: in_line_def)
  have out: "hexdump 0 ds = w0 @ hexdump n vs" using d(3) [of "[]"] by simp
  show ?thesis
  proof (cases "vs = []")
    case True
    then have "hexdump n vs = []" by (subst hexdump.simps) simp
    then show ?thesis using True h out d(2) by (simp add: dumper_Close_def dump_part_def)
  next
    case False
    from h(4) obtain b0 b1 b2 b3 b4 b5 b6 b7 b8 b9 b10 b11 b12 b13 where b: "dump_buf h = [b0, b1, b2, b3, b4, b5, b6, b7, b8, b9, b10, b11, b12, b13]"
      by (rule at_14)
    let ?b = "[0x20, 0x20, 0x20, 0x20, 0x7C, b5, b6, b7, b8, b9, b10, b11, b12, b13]"
    let ?h = "h\<lparr>closed := True, dump_buf := ?b\<rparr>"
    obtain h' where pad: "dumper_pad builder_Write ?h w = (None, h', w @ concat (map dump_blank [length vs..<16]))" "rightChars h' = rightChars h"
      using dumper_pad_eq [of ?h "length vs" w] h(1,2) by auto
    let ?k = "length vs"
    let ?rc = "(rightChars h)[?k := 0x7C, Suc ?k := 0x0A]"
    have u: "upd (rightChars h) (int ?k) 0x7C = Some ((rightChars h)[?k := 0x7C])"
      "upd ((rightChars h)[?k := 0x7C]) (int ?k + 1) 0x0A = Some ?rc" using h(2,3) by (simp_all add: upd_def nat_add_distrib)
    have rc: "take (?k + 2) ?rc = map toChar vs @ [0x7C, 0x0A]"
      using h(2,3,5) by (simp add: take_Suc_conv_app_nth nth_list_update)
    have "nat (int ?k + 2) = ?k + 2" by simp
    then have "dumper_Close builder_Write h w = Some (None, h'\<lparr>rightChars := ?rc\<rparr>,
        (w @ concat (map dump_blank [?k..<16])) @ map toChar vs @ [0x7C, 0x0A])"
      using h(1,6) False pad u rc by (simp add: dumper_Close_def b upd_Cons builder_Write_def Let_def)
    moreover have "hexdump n vs = dump_line n vs"
    proof -
      have "hexdump (n + 16) (drop 16 vs) = []" using h(2) by (subst hexdump.simps) simp
      then show ?thesis using False h(2) by (subst hexdump.simps) simp
    qed
    ultimately show ?thesis using False by (simp add: out d(2) dump_part_def dump_line_def)
  qed
qed

text \<open>A dump in pieces: the calls of Write for each piece, then Close.\<close>

fun dump_pieces :: "byte list list \<Rightarrow> dumper \<Rightarrow> byte list \<Rightarrow> byte list option" where
  "dump_pieces [] h w = do { (_, _, w) \<leftarrow> dumper_Close builder_Write h w; Some w }"
| "dump_pieces (p # ps) h w = do { (_, h, w) \<leftarrow> dumper_Write builder_Write p h w; dump_pieces ps h w }"

lemma dump_pieces_eq: "dumped h w ds \<Longrightarrow> dump_pieces ps h w = Some (hexdump 0 (ds @ concat ps))"
proof (induction ps arbitrary: h w ds)
  case Nil
  then show ?case using dumped_Close by fastforce
next
  case (Cons p ps)
  then show ?case using dumped_Write [OF Cons.prems, of p] by fastforce
qed

subsection \<open>The properties\<close>

text \<open>
  Hexadecimal round trip. EncodeToString never panics below 2^62 bytes; its result has two characters per byte, and
  DecodeString gives the bytes back without an error, as does Decode into a slice of its own.
\<close>

theorem hex_round_trip:
  assumes "int (length src) < 2 ^ 62"
  shows "\<exists>s. EncodeToString src = Some s \<and> length s = 2 * length src \<and> DecodeString s = Some (src, None)
    \<and> Decode (Apart (replicate (length src) 0) s) = Some (Apart src s, int (length src), None)"
  using EncodeToString_eq [OF assms] DecodeString_eq [of "hex_of src"] Decode_apart [of "hex_of src" "replicate (length src) 0"]
  by (simp add: unhex_hex_of)

theorem hex_round_trip_witness:
  "\<exists>s. EncodeToString [0xAB, 0x01] = Some s \<and> length s = 4 \<and> DecodeString s = Some ([0xAB, 0x01], None)"
  using hex_round_trip [of "[0xAB, 0x01]"] by auto

text \<open>
  C19 (decoding in place). DecodeString, which overwrites the slice it reads, returns on every input what decoding the
  pairs of characters one after the other gives: the bytes before the first character that is not hexadecimal together
  with that character, or the length error when only a last character is left over.
\<close>

theorem DecodeString_correct: "DecodeString s = Some (unhex s)"
  by (rule DecodeString_eq)

text \<open>
  Streaming encoder. Whatever the length of the data, writing to an encoder passes the complete encoding on to the
  writer, in chunks through its buffer, and reports all bytes as written.
\<close>

theorem encoder_Write_complete:
  assumes "int (length p) < 2 ^ 62"
  shows "\<exists>e. encoder_Write builder_Write p NewEncoder w = Some ((int (length p), None), e, w @ hex_of p)"
  using encoder_Write_loop_eq [of NewEncoder 0 p w] assms by (auto simp: encoder_Write_def NewEncoder_def bufferSize_def)

theorem encoder_Write_complete_witness:
  "\<exists>e. encoder_Write builder_Write (replicate 600 0xFF) NewEncoder [] = Some ((600, None), e, hex_of (replicate 600 0xFF))"
  using encoder_Write_complete [of "replicate 600 0xFF" "[]"] by simp

text \<open>
  C24 (hex dump). However the data is cut into calls of Write, the dumper writes the same lines: the offset, sixteen cells
  with a gap after the eighth, blanks for the missing bytes of the last line, and the printable characters between bars.
  Dump is the dump of the whole data.
\<close>

theorem dump_layout: "dump_pieces ps Dumper [] = Some (hexdump 0 (concat ps)) \<and> Dump data = Some (hexdump 0 data)"
proof -
  have "Dump data = (if data = [] then Some [] else dump_pieces [data] Dumper [])"
    using dumped_Write [OF dumped_Dumper, of data] by (auto simp: Dump_def)
  moreover have "hexdump 0 [] = []" by (subst hexdump.simps) simp
  ultimately show ?thesis using dump_pieces_eq [OF dumped_Dumper] by auto
qed

end
