(* ===== verification/Crc.thy ===== *)
theory Crc
  imports Go_Words
begin

unbundle bit_operations_syntax

text \<open>
  The arithmetic that both CRC packages share, at any word length: the bit-serial register as the reference, its
  linearity over exclusive or, and the table steps that follow from it.
\<close>

subsection \<open>The bit-serial register\<close>

definition crc_bit :: "'a::len word \<Rightarrow> 'a word \<Rightarrow> 'a word" where
  "crc_bit poly c = (if bit c 0 then drop_bit 1 c XOR poly else drop_bit 1 c)"

definition crc_step :: "'a::len word \<Rightarrow> 'a word \<Rightarrow> 'a word" where
  "crc_step poly c = ((crc_bit poly) ^^ 8) c"

text \<open>The reference: the register takes the bytes one after the other, eight single-bit steps for each.\<close>

definition crc_register :: "'a::len word \<Rightarrow> 'a word \<Rightarrow> byte list \<Rightarrow> 'a word" where
  "crc_register poly c p = foldl (\<lambda>c v. crc_step poly (c XOR ucast v)) c p"

definition crc_reference :: "'a::len word \<Rightarrow> 'a word \<Rightarrow> byte list \<Rightarrow> 'a word" where
  "crc_reference poly c p = NOT (crc_register poly (NOT c) p)"

lemma crc_register_simps [simp]:
  "crc_register poly c [] = c"
  "crc_register poly c (v # p) = crc_register poly (crc_step poly (c XOR ucast v)) p"
  by (simp_all add: crc_register_def)

lemma crc_register_append: "crc_register poly c (p @ q) = crc_register poly (crc_register poly c p) q"
  by (simp add: crc_register_def)

lemma crc_reference_Nil [simp]: "crc_reference poly c [] = c"
  by (simp add: crc_reference_def)

lemma crc_reference_append: "crc_reference poly c (p @ q) = crc_reference poly (crc_reference poly c p) q"
  by (simp add: crc_reference_def crc_register_append)

subsection \<open>Linearity\<close>

lemma drop_bit_xor_word: "drop_bit n (x XOR y) = drop_bit n x XOR drop_bit n (y :: 'a::len word)"
  by (simp only: drop_bit_xor)

lemma crc_bit_xor: "crc_bit poly (x XOR y) = crc_bit poly x XOR crc_bit poly y"
proof -
  have "poly XOR (poly XOR z) = z" for z by (simp flip: xor.assoc)
  then show ?thesis
    unfolding crc_bit_def drop_bit_xor_word bit_xor_iff by (cases "bit x 0"; cases "bit y 0") (simp_all add: ac_simps)
qed

lemma crc_step_xor: "crc_step poly (x XOR y) = crc_step poly x XOR crc_step poly y"
proof -
  have "((crc_bit poly) ^^ n) (x XOR y) = ((crc_bit poly) ^^ n) x XOR ((crc_bit poly) ^^ n) y" for n
    by (induction n) (simp_all add: crc_bit_xor)
  then show ?thesis by (simp add: crc_step_def)
qed

lemma crc_step_0 [simp]: "crc_step poly 0 = 0"
  using crc_step_xor [of poly 0 0] by simp

text \<open>A byte above the lowest one is only moved down.\<close>

lemma crc_bit_push:
  fixes y :: "'a::len word"
  assumes "take_bit (LENGTH('a) - Suc n) y = y"
  shows "crc_bit poly (push_bit (Suc n) y) = push_bit n y"
proof -
  have out: "\<not> bit y k" if "LENGTH('a) - Suc n \<le> k" for k
    using that assms bit_take_bit_iff [of "LENGTH('a) - Suc n" y k] by simp
  have below: "Suc k < LENGTH('a)" if "bit y (k - n)" "n \<le> k" "k < LENGTH('a)" for k
  proof -
    have "k - n < LENGTH('a) - Suc n" using out [of "k - n"] that(1) by (meson not_le)
    with that show ?thesis by linarith
  qed
  have "drop_bit 1 (push_bit (Suc n) y) = push_bit n y"
  proof (rule bit_eqI)
    fix k
    show "bit (drop_bit 1 (push_bit (Suc n) y)) k = bit (push_bit n y) k"
      unfolding bit_drop_bit_eq bit_push_bit_iff o_def
      using below by (auto simp: possible_bit_def)
  qed
  then show ?thesis unfolding crc_bit_def by (simp add: bit_push_bit_iff del: push_bit_Suc)
qed

lemma crc_step_push:
  fixes y :: "'a::len word"
  assumes "take_bit (LENGTH('a) - 8) y = y"
  shows "crc_step poly (push_bit 8 y) = y"
proof -
  have fit: "take_bit (LENGTH('a) - k) y = y" if "k \<le> 8" for k
    using that assms by (metis diff_le_mono2 min.absorb2 take_bit_take_bit)
  have "((crc_bit poly) ^^ n) (push_bit (n + m) y) = push_bit m y" if "n + m \<le> 8" for n m
    using that
  proof (induction n arbitrary: m)
    case (Suc n)
    have "((crc_bit poly) ^^ Suc n) (push_bit (Suc n + m) y) = crc_bit poly (((crc_bit poly) ^^ n) (push_bit (n + Suc m) y))"
      by simp
    also have "\<dots> = crc_bit poly (push_bit (Suc m) y)" using Suc.IH [of "Suc m"] Suc.prems by simp
    also have "\<dots> = push_bit m y" by (rule crc_bit_push, rule fit) (use Suc.prems in simp)
    finally show ?case .
  qed simp
  from this [of 8 0] show ?thesis by (simp add: crc_step_def)
qed

lemma low_high_split: "x = take_bit k x XOR push_bit k (drop_bit k x)" for x :: "'a::len word"
  by (rule bit_eqI) (auto simp: bit_simps)

text \<open>One byte through the register is one table entry and a shift.\<close>

lemma crc_step_table: "crc_step poly x = crc_step poly (take_bit 8 x) XOR drop_bit 8 (x :: 'a::len word)"
proof -
  have "take_bit (LENGTH('a) - 8) (drop_bit 8 x) = drop_bit 8 x"
    by (rule bit_eqI) (auto simp: bit_simps dest: bit_imp_le_length)
  from crc_step_push [OF this, of poly] show ?thesis
    using crc_step_xor [of poly "take_bit 8 x" "push_bit 8 (drop_bit 8 x)"] low_high_split [of x 8] by simp
qed

subsection \<open>Several bytes at once\<close>

abbreviation crc_steps :: "nat \<Rightarrow> 'a::len word \<Rightarrow> 'a word \<Rightarrow> 'a word" where
  "crc_steps n poly \<equiv> (crc_step poly) ^^ n"

lemma crc_steps_xor: "crc_steps n poly (x XOR y) = crc_steps n poly x XOR crc_steps n poly y"
  by (induction n) (simp_all add: crc_step_xor)

text \<open>The lowest byte of a word needs a table entry, the rest one step less.\<close>

lemma crc_steps_split:
  "crc_steps (Suc n) poly x = crc_steps (Suc n) poly (take_bit 8 x) XOR crc_steps n poly (drop_bit 8 x)"
proof -
  have "crc_steps (Suc n) poly x = crc_steps n poly (crc_step poly x)" by (simp only: funpow_Suc_right o_def)
  also have "\<dots> = crc_steps n poly (crc_step poly (take_bit 8 x)) XOR crc_steps n poly (drop_bit 8 x)"
    unfolding crc_step_table [of poly x] by (rule crc_steps_xor)
  finally show ?thesis by (simp only: funpow_Suc_right o_def)
qed

text \<open>Bytes that fit in the register enter it at once: \<open>bytes_word\<close> is the little-endian word of the code.\<close>

fun bytes_word :: "byte list \<Rightarrow> 'a::len word" where
  "bytes_word [] = 0"
| "bytes_word (b # bs) = ucast b XOR push_bit 8 (bytes_word bs)"

lemma bytes_word_or: "bytes_word (b # bs) = (ucast b OR push_bit 8 (bytes_word bs) :: 'a::len word)"
  by (rule bit_word_eqI) (auto simp: bit_simps dest: bit_imp_le_length)

lemma bytes_word_fits: "take_bit (8 * length bs) (bytes_word bs :: 'a::len word) = bytes_word bs"
proof (induction bs)
  case (Cons b bs)
  have b: "\<not> bit (ucast b :: 'a word) k" if "8 \<le> k" for k
    using that bit_imp_le_length [of b k] by (auto simp: bit_ucast_iff)
  have r: "\<not> bit (bytes_word bs :: 'a word) k" if "8 * length bs \<le> k" for k
    using Cons.IH that bit_take_bit_iff [of "8 * length bs" "bytes_word bs :: 'a word" k] by simp
  show ?case
  proof (rule bit_eqI)
    fix k
    show "bit (take_bit (8 * length (b # bs)) (bytes_word (b # bs) :: 'a word)) k = bit (bytes_word (b # bs) :: 'a word) k"
    proof (cases "k < 8 * length (b # bs)")
      case False
      then have "8 \<le> k" "8 * length bs \<le> k - 8" by simp_all
      with b [of k] r [of "k - 8"] show ?thesis by (simp add: bit_take_bit_iff bit_xor_iff bit_push_bit_iff)
    qed (simp only: bit_take_bit_iff simp_thms)
  qed
qed simp

lemma crc_register_word:
  assumes "8 * length bs \<le> LENGTH('a::len)"
  shows "crc_register poly c bs = crc_steps (length bs) poly (c XOR (bytes_word bs :: 'a word))"
  using assms
proof (induction bs arbitrary: c)
  case (Cons b bs)
  have "take_bit (LENGTH('a) - 8) (bytes_word bs :: 'a word) = take_bit (LENGTH('a) - 8) (take_bit (8 * length bs) (bytes_word bs))"
    by (simp only: bytes_word_fits)
  also have "\<dots> = take_bit (8 * length bs) (bytes_word bs)"
    unfolding take_bit_take_bit using Cons.prems by (simp add: min_absorb2)
  also have "\<dots> = bytes_word bs" by (rule bytes_word_fits)
  finally have f: "crc_step poly (push_bit 8 (bytes_word bs)) = (bytes_word bs :: 'a word)" by (rule crc_step_push)
  have "crc_register poly c (b # bs) = crc_steps (length bs) poly (crc_step poly (c XOR ucast b) XOR bytes_word bs)"
    using Cons by simp
  also have "crc_step poly (c XOR ucast b) XOR bytes_word bs = crc_step poly (c XOR bytes_word (b # bs))"
    using f by (simp add: crc_step_xor xor.assoc)
  finally show ?case by (simp only: length_Cons funpow_Suc_right o_def)
qed simp

subsection \<open>Bytes, table indices and pieces of eight bytes\<close>

lemma crc_bit_test: "(if crc AND 1 = 1 then drop_bit 1 crc XOR poly else drop_bit 1 crc) = crc_bit poly (crc :: 'a::len word)"
  by (simp add: crc_bit_def and_one_eq bit_0 mod2_eq_if)

lemma unat_byte: "unat (b :: byte) < 256"
  using unsigned_less [of b, where 'a = nat] by simp

lemma of_nat_unat_byte: "of_nat (unat (b :: byte)) = (ucast b :: 'a::len word)"
  by (simp add: of_nat_unat)

lemma low_byte: "ucast (ucast x :: byte) = take_bit 8 (x :: 'a::len word)"
  by (rule bit_word_eqI) (auto simp: bit_simps dest: bit_imp_le_length)

lemma and_FF: "x AND 0xFF = take_bit 8 (x :: 'a::len word)"
  by (simp add: take_bit_eq_mask mask_numeral)

lemma unat_take_8: "unat (take_bit 8 (x :: 'a::len word)) < 256"
  using take_bit_nat_less_exp [of 8 "unat x"] by (simp add: unsigned_take_bit_eq)

lemma eight_bytes:
  assumes "8 \<le> length p"
  obtains b0 b1 b2 b3 b4 b5 b6 b7 q where "p = [b0, b1, b2, b3, b4, b5, b6, b7] @ q"
proof -
  obtain t where "take 8 p = t" "length t = 8" using assms by simp
  moreover from this(2) obtain b0 b1 b2 b3 b4 b5 b6 b7 where "t = [b0, b1, b2, b3, b4, b5, b6, b7]"
    by (auto simp: numeral_eq_Suc length_Suc_conv)
  ultimately show thesis using that append_take_drop_id [of 8 p] by metis
qed

end
