(* ===== verification/Crc32.thy ===== *)
theory Crc32
  imports Crc
begin

unbundle bit_operations_syntax

text \<open>
  \<^verbatim>\<open>hash/crc32\<close>: the table-driven algorithms of crc32_generic.go and the package of crc32.go around them, with its
  lazily initialised tables. The implementations for particular processors are assembly: they are the parameter \<open>arch\<close>.
\<close>

subsection \<open>Tables and the generic algorithms (crc32_generic.go)\<close>

type_synonym crc32_table = "uint32 list"

definition crc32_entry :: "uint32 \<Rightarrow> nat \<Rightarrow> uint32" where
  "crc32_entry poly i =
     ((\<lambda>crc. if crc AND 1 = 1 then drop_bit 1 crc XOR poly else drop_bit 1 crc) ^^ 8) (of_nat i)"

definition simplePopulateTable :: "uint32 \<Rightarrow> crc32_table" where
  "simplePopulateTable poly = map (crc32_entry poly) [0..<256]"

definition simpleMakeTable :: "uint32 \<Rightarrow> crc32_table" where
  "simpleMakeTable poly = simplePopulateTable poly"

definition simpleUpdate_step :: "crc32_table \<Rightarrow> uint32 \<Rightarrow> byte \<Rightarrow> uint32" where
  "simpleUpdate_step tab crc v = tab ! unat (ucast crc XOR v :: byte) XOR drop_bit 8 crc"

definition simpleUpdate :: "uint32 \<Rightarrow> crc32_table \<Rightarrow> byte list \<Rightarrow> uint32" where
  "simpleUpdate crc tab p =
     (let crc = NOT crc;
          crc = foldl (simpleUpdate_step tab) crc p
      in NOT crc)"

definition slicing8Cutoff :: nat where
  "slicing8Cutoff = 16"

type_synonym slicing8Table = "crc32_table list"

fun slicing_entry :: "crc32_table \<Rightarrow> nat \<Rightarrow> uint32 \<Rightarrow> uint32" where
  "slicing_entry t0 0 crc = crc"
| "slicing_entry t0 (Suc j) crc = (let crc = slicing_entry t0 j crc in t0 ! unat (crc AND 0xFF) XOR drop_bit 8 crc)"

definition slicingMakeTable :: "uint32 \<Rightarrow> slicing8Table" where
  "slicingMakeTable poly =
     (let t0 = simplePopulateTable poly
      in map (\<lambda>j. map (\<lambda>i. slicing_entry t0 j (t0 ! i)) [0..<256]) [0..<8])"

definition slicing_block :: "slicing8Table \<Rightarrow> uint32 \<Rightarrow> byte list \<Rightarrow> uint32" where
  "slicing_block tab crc p =
     (let crc = crc XOR (ucast (p ! 0) OR push_bit 8 (ucast (p ! 1)) OR push_bit 16 (ucast (p ! 2)) OR push_bit 24 (ucast (p ! 3)))
      in tab ! 0 ! unat (p ! 7) XOR tab ! 1 ! unat (p ! 6) XOR tab ! 2 ! unat (p ! 5) XOR tab ! 3 ! unat (p ! 4) XOR
         tab ! 4 ! unat (drop_bit 24 crc) XOR tab ! 5 ! unat (drop_bit 16 crc AND 0xFF) XOR
         tab ! 6 ! unat (drop_bit 8 crc AND 0xFF) XOR tab ! 7 ! unat (crc AND 0xFF))"

function slicing_loop :: "slicing8Table \<Rightarrow> uint32 \<Rightarrow> byte list \<Rightarrow> uint32 \<times> byte list" where
  "slicing_loop tab crc p =
     (if length p > 8 then slicing_loop tab (slicing_block tab crc p) (drop 8 p) else (crc, p))"
  by pat_completeness auto
termination by (relation "measure (\<lambda>(_, _, p). length p)") auto

declare slicing_loop.simps [simp del]

definition slicingUpdate :: "uint32 \<Rightarrow> slicing8Table \<Rightarrow> byte list \<Rightarrow> uint32" where
  "slicingUpdate crc tab p =
     (let (crc, p) = (if length p \<ge> slicing8Cutoff
                      then let crc = NOT crc; (crc, p) = slicing_loop tab crc p in (NOT crc, p)
                      else (crc, p))
      in if length p = 0 then crc else simpleUpdate crc (tab ! 0) p)"

subsection \<open>The generic algorithms compute the reference\<close>

lemma crc32_entry_eq: "crc32_entry poly i = crc_step poly (of_nat i)"
  unfolding crc32_entry_def crc_step_def crc_bit_test ..

lemma table_nth: "i < 256 \<Longrightarrow> simplePopulateTable poly ! i = crc_step poly (of_nat i)"
  by (simp add: simplePopulateTable_def crc32_entry_eq)

lemma table_byte: "simplePopulateTable poly ! unat (b :: byte) = crc_step poly (ucast b)"
  by (simp add: table_nth unat_byte of_nat_unat_byte)

lemma simpleUpdate_step_eq: "simpleUpdate_step (simplePopulateTable poly) crc v = crc_step poly (crc XOR ucast v)"
proof -
  have h: "drop_bit 8 (ucast v :: uint32) = 0" by (rule bit_word_eqI) (auto simp: bit_simps dest: bit_imp_le_length)
  have "ucast (ucast crc XOR v :: byte) = take_bit 8 (crc XOR ucast v)"
    by (rule bit_word_eqI) (auto simp: bit_simps dest: bit_imp_le_length)
  then show ?thesis
    unfolding simpleUpdate_step_def table_byte crc_step_table [of poly "crc XOR ucast v"] by (simp only: drop_bit_xor h xor.right_neutral)
qed

lemma simpleUpdate_eq: "simpleUpdate crc (simplePopulateTable poly) p = crc_reference poly crc p"
proof -
  have "simpleUpdate_step (simplePopulateTable poly) = (\<lambda>c v. crc_step poly (c XOR ucast v))"
    by (intro ext) (rule simpleUpdate_step_eq)
  then show ?thesis by (simp add: simpleUpdate_def crc_reference_def crc_register_def Let_def)
qed

lemma table_low: "simplePopulateTable poly ! unat (take_bit 8 x) = crc_step poly (take_bit 8 x)"
  by (simp add: table_nth unat_take_8)

lemma slicing_entry_eq: "slicing_entry (simplePopulateTable poly) j crc = crc_steps j poly crc"
  by (induction j) (simp_all only: slicing_entry.simps Let_def and_FF table_low crc_step_table [symmetric] funpow.simps o_def id_apply)

lemma slicing_table:
  assumes "j < 8" "i < 256"
  shows "slicingMakeTable poly ! j ! i = crc_steps (Suc j) poly (of_nat i)"
  using assms by (simp add: slicingMakeTable_def Let_def slicing_entry_eq table_nth funpow_swap1 del: of_nat_unat)

lemma slicing_table_0: "slicingMakeTable poly ! 0 = simplePopulateTable poly"
  by (rule nth_equalityI) (simp_all add: slicingMakeTable_def simplePopulateTable_def Let_def)

lemma slicing_table_byte: "j < 8 \<Longrightarrow> slicingMakeTable poly ! j ! unat (b :: byte) = crc_steps (Suc j) poly (ucast b)"
  by (simp only: slicing_table unat_byte of_nat_unat_byte)

lemma slicing_table_low:
  "j < 8 \<Longrightarrow> slicingMakeTable poly ! j ! unat (take_bit 8 x) = crc_steps (Suc j) poly (take_bit 8 x)"
  by (simp only: slicing_table unat_take_8 of_nat_unat ucast_id)

lemma or_is_xor_bytes:
  "(ucast b0 OR push_bit 8 (ucast b1) OR push_bit 16 (ucast b2) OR push_bit 24 (ucast b3) :: uint32) = bytes_word [b0, b1, b2, b3]"
  by (simp add: bytes_word_or push_bit_or del: bytes_word.simps(2))

lemma slicing_block_eq:
  "slicing_block (slicingMakeTable poly) crc ([b0, b1, b2, b3, b4, b5, b6, b7] @ q)
    = crc_register poly crc [b0, b1, b2, b3, b4, b5, b6, b7]"
proof -
  define x where "x = crc XOR bytes_word [b0, b1, b2, b3]"
  have top: "take_bit 8 (drop_bit 24 x) = drop_bit 24 x" by (rule bit_word_eqI) (auto simp: bit_simps dest: bit_imp_le_length)
  have "crc_register poly crc [b0, b1, b2, b3] = crc_steps (length [b0, b1, b2, b3]) poly x"
    unfolding x_def by (rule crc_register_word) simp
  then have "crc_register poly crc [b0, b1, b2, b3] = crc_steps 4 poly x"
    by (simp only: list.size) (simp add: eval_nat_numeral)
  then have "crc_register poly crc [b0, b1, b2, b3, b4, b5, b6, b7] = crc_register poly (crc_steps 4 poly x) [b4, b5, b6, b7]"
    using crc_register_append [of poly crc "[b0, b1, b2, b3]" "[b4, b5, b6, b7]"] by (simp only: append_Cons append_Nil)
  also have "\<dots> = crc_steps 8 poly x XOR (crc_steps 4 poly (ucast b4) XOR crc_steps 3 poly (ucast b5)
      XOR crc_steps 2 poly (ucast b6) XOR crc_steps 1 poly (ucast b7))"
    by (simp add: crc_step_xor eval_nat_numeral ac_simps)
  also have "crc_steps 8 poly x = crc_steps 8 poly (take_bit 8 x) XOR crc_steps 7 poly (take_bit 8 (drop_bit 8 x))
      XOR crc_steps 6 poly (take_bit 8 (drop_bit 16 x)) XOR crc_steps 5 poly (drop_bit 24 x)"
    using crc_steps_split [of 7 poly x] crc_steps_split [of 6 poly "drop_bit 8 x"] crc_steps_split [of 5 poly "drop_bit 16 x"]
    by (simp add: xor.assoc)
  finally have reg: "crc_register poly crc [b0, b1, b2, b3, b4, b5, b6, b7]
    = (crc_steps 8 poly (take_bit 8 x) XOR crc_steps 7 poly (take_bit 8 (drop_bit 8 x))
      XOR crc_steps 6 poly (take_bit 8 (drop_bit 16 x)) XOR crc_steps 5 poly (drop_bit 24 x))
      XOR (crc_steps 4 poly (ucast b4) XOR crc_steps 3 poly (ucast b5)
      XOR crc_steps 2 poly (ucast b6) XOR crc_steps 1 poly (ucast b7))" .
  have nth: "([b0, b1, b2, b3, b4, b5, b6, b7] @ q) ! 0 = b0" "([b0, b1, b2, b3, b4, b5, b6, b7] @ q) ! 1 = b1"
    "([b0, b1, b2, b3, b4, b5, b6, b7] @ q) ! 2 = b2" "([b0, b1, b2, b3, b4, b5, b6, b7] @ q) ! 3 = b3"
    "([b0, b1, b2, b3, b4, b5, b6, b7] @ q) ! 4 = b4" "([b0, b1, b2, b3, b4, b5, b6, b7] @ q) ! 5 = b5"
    "([b0, b1, b2, b3, b4, b5, b6, b7] @ q) ! 6 = b6" "([b0, b1, b2, b3, b4, b5, b6, b7] @ q) ! 7 = b7"
    by simp_all
  let ?T = "slicingMakeTable poly"
  have low: "?T ! 7 ! unat (take_bit 8 x) = crc_steps 8 poly (take_bit 8 x)"
    "?T ! 6 ! unat (take_bit 8 (drop_bit 8 x)) = crc_steps 7 poly (take_bit 8 (drop_bit 8 x))"
    "?T ! 5 ! unat (take_bit 8 (drop_bit 16 x)) = crc_steps 6 poly (take_bit 8 (drop_bit 16 x))"
    "?T ! 4 ! unat (drop_bit 24 x) = crc_steps 5 poly (drop_bit 24 x)"
    using slicing_table_low [of 7 poly x] slicing_table_low [of 6 poly "drop_bit 8 x"]
      slicing_table_low [of 5 poly "drop_bit 16 x"] slicing_table_low [of 4 poly "drop_bit 24 x", unfolded top] by simp_all
  have byte: "?T ! 3 ! unat b4 = crc_steps 4 poly (ucast b4)" "?T ! 2 ! unat b5 = crc_steps 3 poly (ucast b5)"
    "?T ! 1 ! unat b6 = crc_steps 2 poly (ucast b6)" "?T ! 0 ! unat b7 = crc_steps 1 poly (ucast b7)"
    using slicing_table_byte [of 3 poly b4] slicing_table_byte [of 2 poly b5]
      slicing_table_byte [of 1 poly b6] slicing_table_byte [of 0 poly b7]
    by (simp_all add: eval_nat_numeral)
  show ?thesis
    unfolding slicing_block_def nth or_is_xor_bytes and_FF Let_def x_def [symmetric] reg low byte by (simp only: ac_simps)
qed

lemma slicing_loop_eq:
  "slicing_loop (slicingMakeTable poly) crc p = (c, q) \<Longrightarrow> crc_register poly c q = crc_register poly crc p"
proof (induction "length p" arbitrary: crc p rule: less_induct)
  case less
  show ?case
  proof (cases "length p > 8")
    case True
    then obtain b0 b1 b2 b3 b4 b5 b6 b7 r where p: "p = [b0, b1, b2, b3, b4, b5, b6, b7] @ r"
      using eight_bytes [of p] by (metis less_imp_le)
    have "slicing_loop (slicingMakeTable poly) (slicing_block (slicingMakeTable poly) crc p) (drop 8 p) = (c, q)"
      using less.prems True by (subst (asm) slicing_loop.simps) simp
    then have "crc_register poly c q = crc_register poly (slicing_block (slicingMakeTable poly) crc p) (drop 8 p)"
      using less.hyps [of "drop 8 p"] True by simp
    then show ?thesis unfolding p slicing_block_eq crc_register_append by simp
  next
    case False
    then show ?thesis using less.prems by (subst (asm) slicing_loop.simps) simp
  qed
qed

lemma slicingUpdate_eq: "slicingUpdate crc (slicingMakeTable poly) p = crc_reference poly crc p"
proof -
  obtain c q where l: "slicing_loop (slicingMakeTable poly) (NOT crc) p = (c, q)" by fastforce
  then have "crc_reference poly (NOT c) q = crc_reference poly crc p"
    using slicing_loop_eq [OF l] by (simp add: crc_reference_def)
  then show ?thesis
    using l by (cases q) (simp_all add: slicingUpdate_def Let_def slicing_table_0 simpleUpdate_eq)
qed

end
