(* ===== verification/Hash_Bytes.thy ===== *)
theory Hash_Bytes
  imports Go_Words
begin

unbundle bit_operations_syntax

text \<open>
  What the hash packages share: the big-endian words in which they write sums and marshalled states (every package has its
  own copy of these four functions), and the contract of \<^verbatim>\<open>hash.Hash\<close> with \<^verbatim>\<open>encoding.BinaryMarshaler\<close> that their digests meet.
\<close>

subsection \<open>Big-endian words\<close>

definition appendUint32 :: "byte list \<Rightarrow> uint32 \<Rightarrow> byte list" where
  "appendUint32 b x = b @ [ucast (drop_bit 24 x), ucast (drop_bit 16 x), ucast (drop_bit 8 x), ucast x]"

definition readUint32 :: "byte list \<Rightarrow> uint32 option" where
  "readUint32 b =
     do {
       _ \<leftarrow> idx b 3; b3 \<leftarrow> idx b 3; b2 \<leftarrow> idx b 2; b1 \<leftarrow> idx b 1; b0 \<leftarrow> idx b 0;
       Some (ucast b3 OR push_bit 8 (ucast b2) OR push_bit 16 (ucast b1) OR push_bit 24 (ucast b0))
     }"

definition appendUint64 :: "byte list \<Rightarrow> uint64 \<Rightarrow> byte list" where
  "appendUint64 b x =
     b @ [ucast (drop_bit 56 x), ucast (drop_bit 48 x), ucast (drop_bit 40 x), ucast (drop_bit 32 x),
          ucast (drop_bit 24 x), ucast (drop_bit 16 x), ucast (drop_bit 8 x), ucast x]"

definition readUint64 :: "byte list \<Rightarrow> uint64 option" where
  "readUint64 b =
     do {
       _ \<leftarrow> idx b 7; b7 \<leftarrow> idx b 7; b6 \<leftarrow> idx b 6; b5 \<leftarrow> idx b 5; b4 \<leftarrow> idx b 4;
       b3 \<leftarrow> idx b 3; b2 \<leftarrow> idx b 2; b1 \<leftarrow> idx b 1; b0 \<leftarrow> idx b 0;
       Some (ucast b7 OR push_bit 8 (ucast b6) OR push_bit 16 (ucast b5) OR push_bit 24 (ucast b4) OR
             push_bit 32 (ucast b3) OR push_bit 40 (ucast b2) OR push_bit 48 (ucast b1) OR push_bit 56 (ucast b0))
     }"

lemma word_chunk: "push_bit k (ucast (ucast (drop_bit k x) :: byte)) = push_bit k (take_bit 8 (drop_bit k (x :: 'a::len word)))"
  by (rule bit_word_eqI) (auto simp: bit_simps dest: bit_imp_le_length)

lemma word_chunks:
  "take_bit n x OR push_bit n (take_bit m (drop_bit n x)) = take_bit (n + m) (x :: 'a::len word)"
  by (rule bit_word_eqI) (auto simp: bit_simps dest: bit_imp_le_length)

lemma ucast_byte: "ucast (ucast x :: byte) = take_bit 8 (x :: 'a::len word)"
  by (rule bit_word_eqI) (auto simp: bit_simps dest: bit_imp_le_length)

lemma whole_word: "LENGTH('a) \<le> n \<Longrightarrow> take_bit n x = (x :: 'a::len word)"
  by (rule bit_word_eqI) (auto simp: bit_simps)

lemma readUint32_append: "readUint32 (appendUint32 [] x @ r) = Some x"
  by (simp add: appendUint32_def readUint32_def idx_Cons word_chunk ucast_byte whole_word or.assoc [symmetric]
      word_chunks [of 8 x 8] word_chunks [of 16 x 8] word_chunks [of 24 x 8])

lemma readUint64_append: "readUint64 (appendUint64 [] x @ r) = Some x"
  by (simp add: appendUint64_def readUint64_def idx_Cons word_chunk ucast_byte whole_word or.assoc [symmetric]
      word_chunks [of 8 x 8] word_chunks [of 16 x 8] word_chunks [of 24 x 8] word_chunks [of 32 x 8]
      word_chunks [of 40 x 8] word_chunks [of 48 x 8] word_chunks [of 56 x 8])

lemma appendUint32_append: "appendUint32 b x = b @ appendUint32 [] x"
  by (simp add: appendUint32_def)

lemma length_appendUint32: "length (appendUint32 b x) = length b + 4"
  by (simp add: appendUint32_def)

lemma appendUint64_append: "appendUint64 b x = b @ appendUint64 [] x"
  by (simp add: appendUint64_def)

lemma length_appendUint64: "length (appendUint64 b x) = length b + 8"
  by (simp add: appendUint64_def)

subsection \<open>The contract of a hash\<close>

text \<open>
  What the documentation of \<^verbatim>\<open>hash.Hash\<close> promises: the sum depends on the bytes written only, not on how they are cut
  into calls, and the marshalled state of a digest can be read into another one of the same kind (\<open>fits\<close>), which then
  goes on where the first one was. \<open>puts_of\<close> writes slice after slice.
\<close>

definition puts_of :: "(byte list \<Rightarrow> 'd \<Rightarrow> int \<times> 'd) \<Rightarrow> byte list list \<Rightarrow> 'd \<Rightarrow> 'd" where
  "puts_of put ps d = fold (\<lambda>p d. snd (put p d)) ps d"

definition resumes :: "(byte list \<Rightarrow> 'd \<Rightarrow> int \<times> 'd) \<Rightarrow> ('d \<Rightarrow> byte list)
    \<Rightarrow> (byte list \<Rightarrow> 'd \<Rightarrow> ('d \<times> 'e option) option) \<Rightarrow> 'd \<Rightarrow> 'd \<Rightarrow> byte list list \<Rightarrow> byte list list \<Rightarrow> bool" where
  "resumes put marshal unmarshal d e ps qs \<longleftrightarrow>
     (case unmarshal (marshal (puts_of put ps d)) e of
        Some (d', None) \<Rightarrow> puts_of put qs d' = snd (put (concat (ps @ qs)) d)
      | _ \<Rightarrow> False)"

locale hash_contract =
  fixes put :: "byte list \<Rightarrow> 'd \<Rightarrow> int \<times> 'd"
    and marshal :: "'d \<Rightarrow> byte list"
    and unmarshal :: "byte list \<Rightarrow> 'd \<Rightarrow> ('d \<times> 'e option) option"
    and fits :: "'d \<Rightarrow> 'd \<Rightarrow> bool"
  assumes put_length: "fst (put p d) = int (length p)"
    and put_Nil: "fits d e \<Longrightarrow> snd (put [] d) = d"
    and put_append: "fits d e \<Longrightarrow> snd (put (p @ q) d) = snd (put q (snd (put p d)))"
    and fits_put: "fits d e \<Longrightarrow> fits (snd (put p d)) e"
    and restore: "fits d e \<Longrightarrow> unmarshal (marshal d) e = Some (d, None)"
begin

lemma fits_puts: "fits d e \<Longrightarrow> fits (puts_of put ps d) e"
  by (induction ps arbitrary: d) (simp_all add: puts_of_def fits_put)

lemma puts: "fits d e \<Longrightarrow> puts_of put ps d = snd (put (concat ps) d)"
proof (induction ps arbitrary: d)
  case (Cons p ps)
  then show ?case
    using fits_put [OF Cons.prems, of p] put_append [OF Cons.prems, of p "concat ps"] by (simp add: puts_of_def)
qed (simp add: puts_of_def put_Nil)

text \<open>Writing, saving the state, restoring it elsewhere and writing on is writing everything at once.\<close>

lemma resume: "fits d e \<Longrightarrow> resumes put marshal unmarshal d e ps qs"
  using restore [OF fits_puts, of d e ps] puts [OF fits_puts [of d e ps], of qs] puts [of d e ps] put_append [of d e "concat ps" "concat qs"]
  by (simp add: resumes_def)

end

end
