(* ===== verification/Crc32_Package.thy ===== *)
theory Crc32_Package
  imports Crc32 Hash_Bytes
begin

unbundle bit_operations_syntax

text \<open>
  \<^verbatim>\<open>hash/crc32\<close>, crc32.go: the package variables with their lazy initialisation, tables as pointers, digests and their
  marshalled state. The functions of the architecture-specific files are the record \<open>arch\<close>, a parameter of every
  operation; \<open>otherarch\<close> is the one of crc32_otherarch.go. A dereferenced nil pointer is a panic.
\<close>

subsection \<open>Variables, tables and digests\<close>

definition IEEE :: uint32 where "IEEE = 0xedb88320"
definition Castagnoli :: uint32 where "Castagnoli = 0x82f63b78"
definition Koopman :: uint32 where "Koopman = 0xeb31d82e"

record crc32_arch =
  archAvailableIEEE :: bool
  archInitIEEE :: "unit option"
  archUpdateIEEE :: "uint32 \<Rightarrow> byte list \<Rightarrow> uint32 option"
  archAvailableCastagnoli :: bool
  archInitCastagnoli :: "unit option"
  archUpdateCastagnoli :: "uint32 \<Rightarrow> byte list \<Rightarrow> uint32 option"

definition otherarch :: crc32_arch where
  "otherarch = \<lparr> archAvailableIEEE = False, archInitIEEE = None, archUpdateIEEE = (\<lambda>crc p. None),
     archAvailableCastagnoli = False, archInitCastagnoli = None, archUpdateCastagnoli = (\<lambda>crc p. None) \<rparr>"

text \<open>The two function values that the update variables may hold.\<close>

datatype crc32_impl = ArchUpdate | SlicingUpdate

record crc32_vars =
  castagnoliTable :: "crc32_table option"
  castagnoliTable8 :: "slicing8Table option"
  castagnoliArchImpl :: bool
  updateCastagnoli :: "crc32_impl option"
  castagnoliOnce :: bool
  haveCastagnoli :: bool
  ieeeTable8 :: "slicing8Table option"
  ieeeArchImpl :: bool
  updateIEEE :: "crc32_impl option"
  ieeeOnce :: bool

definition crc32_start :: crc32_vars where
  "crc32_start = \<lparr> castagnoliTable = None, castagnoliTable8 = None, castagnoliArchImpl = False, updateCastagnoli = None,
     castagnoliOnce = False, haveCastagnoli = False, ieeeTable8 = None, ieeeArchImpl = False, updateIEEE = None, ieeeOnce = False \<rparr>"

definition IEEETable :: crc32_table where
  "IEEETable = simpleMakeTable IEEE"

text \<open>A \<^verbatim>\<open>*Table\<close>: nil, one of the two tables the package compares pointers with, or a table of the caller.\<close>

datatype table_ptr = NilTable | IEEETablePtr | CastagnoliTablePtr | OwnTable crc32_table

fun deref_table :: "crc32_vars \<Rightarrow> table_ptr \<Rightarrow> crc32_table option" where
  "deref_table s NilTable = None"
| "deref_table s IEEETablePtr = Some IEEETable"
| "deref_table s CastagnoliTablePtr = castagnoliTable s"
| "deref_table s (OwnTable t) = Some t"

record crc32_digest =
  crc :: uint32
  crc_tab :: table_ptr

datatype crc32_error = CrcBadIdentifier | CrcBadSize | CrcTablesDiffer

subsection \<open>Initialisation\<close>

definition castagnoliInit :: "crc32_arch \<Rightarrow> crc32_vars \<Rightarrow> crc32_vars option" where
  "castagnoliInit arch s =
     do {
       let s = s\<lparr>castagnoliTable := Some (simpleMakeTable Castagnoli)\<rparr>;
       let s = s\<lparr>castagnoliArchImpl := archAvailableCastagnoli arch\<rparr>;
       s \<leftarrow> (if castagnoliArchImpl s then
               do { _ \<leftarrow> archInitCastagnoli arch; Some (s\<lparr>updateCastagnoli := Some ArchUpdate\<rparr>) }
             else Some (s\<lparr>castagnoliTable8 := Some (slicingMakeTable Castagnoli), updateCastagnoli := Some SlicingUpdate\<rparr>));
       Some (s\<lparr>haveCastagnoli := True\<rparr>)
     }"

definition ieeeInit :: "crc32_arch \<Rightarrow> crc32_vars \<Rightarrow> crc32_vars option" where
  "ieeeInit arch s =
     do {
       let s = s\<lparr>ieeeArchImpl := archAvailableIEEE arch\<rparr>;
       if ieeeArchImpl s then do { _ \<leftarrow> archInitIEEE arch; Some (s\<lparr>updateIEEE := Some ArchUpdate\<rparr>) }
       else Some (s\<lparr>ieeeTable8 := Some (slicingMakeTable IEEE), updateIEEE := Some SlicingUpdate\<rparr>)
     }"

text \<open>\<^verbatim>\<open>castagnoliOnce.Do(castagnoliInit)\<close> and \<^verbatim>\<open>ieeeOnce.Do(ieeeInit)\<close>: the first call runs the initialisation, later ones do nothing.\<close>

definition castagnoli_Do :: "crc32_arch \<Rightarrow> crc32_vars \<Rightarrow> crc32_vars option" where
  "castagnoli_Do arch s =
     (if castagnoliOnce s then Some s else do { s \<leftarrow> castagnoliInit arch s; Some (s\<lparr>castagnoliOnce := True\<rparr>) })"

definition ieee_Do :: "crc32_arch \<Rightarrow> crc32_vars \<Rightarrow> crc32_vars option" where
  "ieee_Do arch s = (if ieeeOnce s then Some s else do { s \<leftarrow> ieeeInit arch s; Some (s\<lparr>ieeeOnce := True\<rparr>) })"

definition crc32_MakeTable :: "crc32_arch \<Rightarrow> uint32 \<Rightarrow> crc32_vars \<Rightarrow> (table_ptr \<times> crc32_vars) option" where
  "crc32_MakeTable arch poly s =
     (if poly = IEEE then do { s \<leftarrow> ieee_Do arch s; Some (IEEETablePtr, s) }
      else if poly = Castagnoli then do { s \<leftarrow> castagnoli_Do arch s; Some (CastagnoliTablePtr, s) }
      else Some (OwnTable (simpleMakeTable poly), s))"

subsection \<open>Updates\<close>

text \<open>The algorithms through a table pointer: with a nil table only the empty slice can be added.\<close>

definition slicing_at :: "uint32 \<Rightarrow> slicing8Table option \<Rightarrow> byte list \<Rightarrow> uint32 option" where
  "slicing_at c tab p = (case tab of Some t \<Rightarrow> Some (slicingUpdate c t p) | None \<Rightarrow> if p = [] then Some c else None)"

definition simple_at :: "uint32 \<Rightarrow> crc32_table option \<Rightarrow> byte list \<Rightarrow> uint32 option" where
  "simple_at c tab p = (case tab of Some t \<Rightarrow> Some (simpleUpdate c t p) | None \<Rightarrow> if p = [] then Some c else None)"

definition call_updateCastagnoli :: "crc32_arch \<Rightarrow> crc32_vars \<Rightarrow> uint32 \<Rightarrow> byte list \<Rightarrow> uint32 option" where
  "call_updateCastagnoli arch s c p =
     (case updateCastagnoli s of
        None \<Rightarrow> None
      | Some ArchUpdate \<Rightarrow> archUpdateCastagnoli arch c p
      | Some SlicingUpdate \<Rightarrow> slicing_at c (castagnoliTable8 s) p)"

definition call_updateIEEE :: "crc32_arch \<Rightarrow> crc32_vars \<Rightarrow> uint32 \<Rightarrow> byte list \<Rightarrow> uint32 option" where
  "call_updateIEEE arch s c p =
     (case updateIEEE s of
        None \<Rightarrow> None
      | Some ArchUpdate \<Rightarrow> archUpdateIEEE arch c p
      | Some SlicingUpdate \<Rightarrow> slicing_at c (ieeeTable8 s) p)"

definition crc32_Update :: "crc32_arch \<Rightarrow> uint32 \<Rightarrow> table_ptr \<Rightarrow> byte list \<Rightarrow> crc32_vars \<Rightarrow> (uint32 \<times> crc32_vars) option" where
  "crc32_Update arch c tab p s =
     (if haveCastagnoli s \<and> tab = CastagnoliTablePtr then do { c \<leftarrow> call_updateCastagnoli arch s c p; Some (c, s) }
      else if tab = IEEETablePtr then do { s \<leftarrow> ieee_Do arch s; c \<leftarrow> call_updateIEEE arch s c p; Some (c, s) }
      else do { c \<leftarrow> simple_at c (deref_table s tab) p; Some (c, s) })"

definition crc32_Checksum :: "crc32_arch \<Rightarrow> byte list \<Rightarrow> table_ptr \<Rightarrow> crc32_vars \<Rightarrow> (uint32 \<times> crc32_vars) option" where
  "crc32_Checksum arch data tab s = crc32_Update arch 0 tab data s"

definition ChecksumIEEE :: "crc32_arch \<Rightarrow> byte list \<Rightarrow> crc32_vars \<Rightarrow> (uint32 \<times> crc32_vars) option" where
  "ChecksumIEEE arch data s = do { s \<leftarrow> ieee_Do arch s; c \<leftarrow> call_updateIEEE arch s 0 data; Some (c, s) }"

subsection \<open>Digests\<close>

definition crc32_New :: "crc32_arch \<Rightarrow> table_ptr \<Rightarrow> crc32_vars \<Rightarrow> (crc32_digest \<times> crc32_vars) option" where
  "crc32_New arch tab s =
     do { s \<leftarrow> (if tab = IEEETablePtr then ieee_Do arch s else Some s); Some (\<lparr> crc = 0, crc_tab = tab \<rparr>, s) }"

definition crc32_NewIEEE :: "crc32_arch \<Rightarrow> crc32_vars \<Rightarrow> (crc32_digest \<times> crc32_vars) option" where
  "crc32_NewIEEE arch s = crc32_New arch IEEETablePtr s"

definition crc32_Reset :: "crc32_digest \<Rightarrow> crc32_digest" where
  "crc32_Reset d = d\<lparr>crc := 0\<rparr>"

definition crc32_Write :: "crc32_arch \<Rightarrow> byte list \<Rightarrow> crc32_digest \<Rightarrow> crc32_vars \<Rightarrow> (int \<times> crc32_digest) option" where
  "crc32_Write arch p d s =
     do {
       c \<leftarrow> (if haveCastagnoli s \<and> crc_tab d = CastagnoliTablePtr then call_updateCastagnoli arch s (crc d) p
             else if crc_tab d = IEEETablePtr then call_updateIEEE arch s (crc d) p
             else simple_at (crc d) (deref_table s (crc_tab d)) p);
       Some (int (length p), d\<lparr>crc := c\<rparr>)
     }"

definition crc32_Sum32 :: "crc32_digest \<Rightarrow> uint32" where
  "crc32_Sum32 d = crc d"

definition crc32_Sum :: "crc32_digest \<Rightarrow> byte list \<Rightarrow> byte list" where
  "crc32_Sum d inp =
     (let s = crc32_Sum32 d in inp @ [ucast (drop_bit 24 s), ucast (drop_bit 16 s), ucast (drop_bit 8 s), ucast s])"

definition crc32_tableSum :: "crc32_arch \<Rightarrow> table_ptr \<Rightarrow> crc32_vars \<Rightarrow> (uint32 \<times> crc32_vars) option" where
  "crc32_tableSum arch t s =
     (let b = (case deref_table s t of None \<Rightarrow> [] | Some xs \<Rightarrow> foldl appendUint32 [] xs) in ChecksumIEEE arch b s)"

definition crc32_magic :: "byte list" where
  "crc32_magic = [0x63, 0x72, 0x63, 0x01]"

definition crc32_marshaledSize :: int where
  "crc32_marshaledSize = int (length crc32_magic) + 4 + 4"

definition crc32_MarshalBinary :: "crc32_arch \<Rightarrow> crc32_digest \<Rightarrow> crc32_vars \<Rightarrow> (byte list \<times> crc32_vars) option" where
  "crc32_MarshalBinary arch d s =
     do {
       let b = [] @ crc32_magic;
       (t, s) \<leftarrow> crc32_tableSum arch (crc_tab d) s;
       let b = appendUint32 b t;
       Some (appendUint32 b (crc d), s)
     }"

definition crc32_UnmarshalBinary ::
  "crc32_arch \<Rightarrow> byte list \<Rightarrow> crc32_digest \<Rightarrow> crc32_vars \<Rightarrow> (crc32_error option \<times> crc32_digest \<times> crc32_vars) option" where
  "crc32_UnmarshalBinary arch b d s =
     (if length b < length crc32_magic \<or> take (length crc32_magic) b \<noteq> crc32_magic then Some (Some CrcBadIdentifier, d, s)
      else if int (length b) \<noteq> crc32_marshaledSize then Some (Some CrcBadSize, d, s)
      else do {
        (t, s) \<leftarrow> crc32_tableSum arch (crc_tab d) s;
        w \<leftarrow> readUint32 (drop 4 b);
        if t \<noteq> w then Some (Some CrcTablesDiffer, d, s)
        else do { c \<leftarrow> readUint32 (drop 8 b); Some (None, d\<lparr>crc := c\<rparr>, s) }
      })"

end
