(* ===== verification/Crc32_Properties.thy ===== *)
theory Crc32_Properties
  imports Crc32_Package
begin

unbundle bit_operations_syntax

text \<open>
  The CRC-32 package computes the bit-serial reference, whatever was called before: reachable package states, the invariant
  of the lazily initialised variables, and the sums of every table and digest handed out.
\<close>

subsection \<open>Initialised variables\<close>

text \<open>
  What the architecture-specific files promise: an initialisation that is available returns, and an update that is available computes
  the reference. That the update may only be called after the initialisation is not part of it.
\<close>

definition arch_ok :: "crc32_arch \<Rightarrow> bool" where
  "arch_ok arch \<longleftrightarrow>
     (archAvailableIEEE arch \<longrightarrow> archInitIEEE arch = Some () \<and> (\<forall>c p. archUpdateIEEE arch c p = Some (crc_reference IEEE c p)))
   \<and> (archAvailableCastagnoli arch \<longrightarrow> archInitCastagnoli arch = Some ()
        \<and> (\<forall>c p. archUpdateCastagnoli arch c p = Some (crc_reference Castagnoli c p)))"

definition ieee_ready :: "crc32_arch \<Rightarrow> crc32_vars \<Rightarrow> bool" where
  "ieee_ready arch s \<longleftrightarrow>
     (if archAvailableIEEE arch then updateIEEE s = Some ArchUpdate
      else updateIEEE s = Some SlicingUpdate \<and> ieeeTable8 s = Some (slicingMakeTable IEEE))"

definition castagnoli_ready :: "crc32_arch \<Rightarrow> crc32_vars \<Rightarrow> bool" where
  "castagnoli_ready arch s \<longleftrightarrow> castagnoliTable s = Some (simpleMakeTable Castagnoli) \<and>
     (if archAvailableCastagnoli arch then updateCastagnoli s = Some ArchUpdate
      else updateCastagnoli s = Some SlicingUpdate \<and> castagnoliTable8 s = Some (slicingMakeTable Castagnoli))"

definition vars_ok :: "crc32_arch \<Rightarrow> crc32_vars \<Rightarrow> bool" where
  "vars_ok arch s \<longleftrightarrow> (ieeeOnce s \<longrightarrow> ieee_ready arch s) \<and> castagnoliOnce s = haveCastagnoli s
     \<and> (haveCastagnoli s \<longrightarrow> castagnoli_ready arch s)"

text \<open>An initialisation only adds to what was initialised.\<close>

definition vars_le :: "crc32_vars \<Rightarrow> crc32_vars \<Rightarrow> bool" where
  "vars_le s s' \<longleftrightarrow> (ieeeOnce s \<longrightarrow> ieeeOnce s') \<and> (haveCastagnoli s \<longrightarrow> haveCastagnoli s')"

lemma vars_le_refl [simp]: "vars_le s s"
  by (simp add: vars_le_def)

lemma vars_ok_start: "vars_ok arch crc32_start"
  by (simp add: vars_ok_def crc32_start_def)

lemma ieee_Do_ok:
  assumes "arch_ok arch" "vars_ok arch s"
  obtains s' where "ieee_Do arch s = Some s'" "vars_ok arch s'" "vars_le s s'" "ieeeOnce s'"
proof (cases "ieeeOnce s")
  case True
  then show ?thesis using that [of s] assms by (simp add: ieee_Do_def)
next
  case False
  then have "\<exists>s'. ieee_Do arch s = Some s' \<and> vars_ok arch s' \<and> vars_le s s' \<and> ieeeOnce s'"
    using assms by (cases "archAvailableIEEE arch")
      (simp_all add: ieee_Do_def ieeeInit_def arch_ok_def vars_ok_def vars_le_def ieee_ready_def castagnoli_ready_def Let_def)
  then show ?thesis using that by blast
qed

lemma castagnoli_Do_ok:
  assumes "arch_ok arch" "vars_ok arch s"
  obtains s' where "castagnoli_Do arch s = Some s'" "vars_ok arch s'" "vars_le s s'" "haveCastagnoli s'"
proof (cases "castagnoliOnce s")
  case True
  then show ?thesis using that [of s] assms by (simp add: castagnoli_Do_def vars_ok_def)
next
  case False
  then have "\<exists>s'. castagnoli_Do arch s = Some s' \<and> vars_ok arch s' \<and> vars_le s s' \<and> haveCastagnoli s'"
    using assms by (cases "archAvailableCastagnoli arch")
      (simp_all add: castagnoli_Do_def castagnoliInit_def arch_ok_def vars_ok_def vars_le_def ieee_ready_def castagnoli_ready_def Let_def)
  then show ?thesis using that by blast
qed

lemma call_updateIEEE_ok:
  "arch_ok arch \<Longrightarrow> vars_ok arch s \<Longrightarrow> ieeeOnce s \<Longrightarrow> call_updateIEEE arch s c p = Some (crc_reference IEEE c p)"
  by (auto simp: call_updateIEEE_def arch_ok_def vars_ok_def ieee_ready_def slicing_at_def slicingUpdate_eq split: if_splits)

lemma call_updateCastagnoli_ok:
  "arch_ok arch \<Longrightarrow> vars_ok arch s \<Longrightarrow> haveCastagnoli s \<Longrightarrow> call_updateCastagnoli arch s c p = Some (crc_reference Castagnoli c p)"
  by (auto simp: call_updateCastagnoli_def arch_ok_def vars_ok_def castagnoli_ready_def slicing_at_def slicingUpdate_eq split: if_splits)

subsection \<open>Tables and digests that were handed out\<close>

text \<open>A pointer stands for a polynomial; a digest has added the bytes \<open>w\<close> with respect to it.\<close>

definition is_table :: "crc32_vars \<Rightarrow> table_ptr \<Rightarrow> uint32 \<Rightarrow> bool" where
  "is_table s tab poly \<longleftrightarrow>
     (case tab of
        NilTable \<Rightarrow> False
      | IEEETablePtr \<Rightarrow> poly = IEEE
      | CastagnoliTablePtr \<Rightarrow> haveCastagnoli s \<and> poly = Castagnoli
      | OwnTable t \<Rightarrow> t = simpleMakeTable poly)"

definition is_digest :: "crc32_vars \<Rightarrow> crc32_digest \<Rightarrow> uint32 \<Rightarrow> byte list \<Rightarrow> bool" where
  "is_digest s d poly w \<longleftrightarrow> is_table s (crc_tab d) poly \<and> (crc_tab d = IEEETablePtr \<longrightarrow> ieeeOnce s) \<and> crc d = crc_reference poly 0 w"

lemma is_table_mono: "is_table s tab poly \<Longrightarrow> vars_le s s' \<Longrightarrow> is_table s' tab poly"
  by (auto simp: is_table_def vars_le_def split: table_ptr.splits)

lemma is_digest_mono: "is_digest s d poly w \<Longrightarrow> vars_le s s' \<Longrightarrow> is_digest s' d poly w"
  using is_table_mono by (auto simp: is_digest_def vars_le_def)

lemma deref_ok: "vars_ok arch s \<Longrightarrow> is_table s tab poly \<Longrightarrow> deref_table s tab = Some (simpleMakeTable poly)"
  by (cases tab) (auto simp: is_table_def IEEETable_def vars_ok_def castagnoli_ready_def)

lemma simple_at_ok: "simple_at c (Some (simpleMakeTable poly)) p = Some (crc_reference poly c p)"
  by (simp add: simple_at_def simpleMakeTable_def simpleUpdate_eq)

lemma MakeTable_ok:
  assumes "arch_ok arch" "vars_ok arch s"
  obtains tab s' where "crc32_MakeTable arch poly s = Some (tab, s')" "vars_ok arch s'" "vars_le s s'" "is_table s' tab poly"
proof -
  consider "poly = IEEE" | "poly \<noteq> IEEE" "poly = Castagnoli" | "poly \<noteq> IEEE" "poly \<noteq> Castagnoli" by blast
  then show ?thesis
  proof cases
    case 1
    obtain s' where "ieee_Do arch s = Some s'" "vars_ok arch s'" "vars_le s s'" using assms by (rule ieee_Do_ok)
    with 1 show ?thesis by (intro that [of IEEETablePtr s']) (simp_all add: crc32_MakeTable_def is_table_def)
  next
    case 2
    obtain s' where "castagnoli_Do arch s = Some s'" "vars_ok arch s'" "vars_le s s'" "haveCastagnoli s'"
      using assms by (rule castagnoli_Do_ok)
    with 2 show ?thesis by (intro that [of CastagnoliTablePtr s']) (simp_all add: crc32_MakeTable_def is_table_def)
  next
    case 3
    with assms show ?thesis
      by (intro that [of "OwnTable (simpleMakeTable poly)" s]) (simp_all add: crc32_MakeTable_def is_table_def)
  qed
qed

lemma Update_ok:
  assumes "arch_ok arch" "vars_ok arch s" "is_table s tab poly"
  obtains s' where "crc32_Update arch c tab p s = Some (crc_reference poly c p, s')" "vars_ok arch s'" "vars_le s s'"
proof (cases "tab = IEEETablePtr")
  case True
  obtain s' where "ieee_Do arch s = Some s'" "vars_ok arch s'" "vars_le s s'" "ieeeOnce s'" using assms(1,2) by (rule ieee_Do_ok)
  with True assms show ?thesis
    by (intro that [of s']) (simp_all add: crc32_Update_def is_table_def call_updateIEEE_ok)
next
  case False
  show ?thesis
  proof (cases "tab = CastagnoliTablePtr")
    case True
    with assms show ?thesis by (intro that [of s]) (simp_all add: crc32_Update_def is_table_def call_updateCastagnoli_ok)
  next
    case False
    with \<open>tab \<noteq> IEEETablePtr\<close> assms show ?thesis
      by (intro that [of s]) (simp_all add: crc32_Update_def deref_ok simple_at_ok)
  qed
qed

lemma ChecksumIEEE_ok:
  assumes "arch_ok arch" "vars_ok arch s"
  obtains s' where "ChecksumIEEE arch p s = Some (crc_reference IEEE 0 p, s')" "vars_ok arch s'" "vars_le s s'"
proof -
  obtain s' where "ieee_Do arch s = Some s'" "vars_ok arch s'" "vars_le s s'" "ieeeOnce s'" using assms by (rule ieee_Do_ok)
  with assms(1) show ?thesis by (intro that [of s']) (simp_all add: ChecksumIEEE_def call_updateIEEE_ok)
qed

lemma New_ok:
  assumes "arch_ok arch" "vars_ok arch s" "is_table s tab poly"
  obtains d s' where "crc32_New arch tab s = Some (d, s')" "vars_ok arch s'" "vars_le s s'" "is_digest s' d poly []"
proof (cases "tab = IEEETablePtr")
  case True
  obtain s' where "ieee_Do arch s = Some s'" "vars_ok arch s'" "vars_le s s'" "ieeeOnce s'" using assms(1,2) by (rule ieee_Do_ok)
  with True assms(3) show ?thesis
    by (intro that [of "\<lparr> crc = 0, crc_tab = tab \<rparr>" s']) (simp_all add: crc32_New_def is_digest_def is_table_def)
next
  case False
  with assms show ?thesis by (intro that [of "\<lparr> crc = 0, crc_tab = tab \<rparr>" s]) (simp_all add: crc32_New_def is_digest_def)
qed

lemma Write_ok:
  assumes "arch_ok arch" "vars_ok arch s" "is_digest s d poly w"
  shows "crc32_Write arch p d s = Some (int (length p), d\<lparr>crc := crc_reference poly (crc d) p\<rparr>)"
    "is_digest s (d\<lparr>crc := crc_reference poly (crc d) p\<rparr>) poly (w @ p)"
proof -
  have t: "is_table s (crc_tab d) poly" "crc_tab d = IEEETablePtr \<Longrightarrow> ieeeOnce s" "crc d = crc_reference poly 0 w"
    using assms(3) by (auto simp: is_digest_def)
  show "is_digest s (d\<lparr>crc := crc_reference poly (crc d) p\<rparr>) poly (w @ p)"
    using t by (simp add: is_digest_def crc_reference_append)
  show "crc32_Write arch p d s = Some (int (length p), d\<lparr>crc := crc_reference poly (crc d) p\<rparr>)"
  proof (cases "crc_tab d = IEEETablePtr \<or> crc_tab d = CastagnoliTablePtr")
    case True
    with t assms(1,2) show ?thesis
      by (auto simp: crc32_Write_def is_table_def call_updateIEEE_ok call_updateCastagnoli_ok)
  next
    case False
    with t(1) assms(2) show ?thesis by (simp add: crc32_Write_def deref_ok simple_at_ok)
  qed
qed

text \<open>The table sum depends on the polynomial only, so a marshalled state fits every digest of the same polynomial.\<close>

lemma tableSum_ok:
  assumes "arch_ok arch" "vars_ok arch s" "is_table s tab poly"
  obtains s' where "crc32_tableSum arch tab s
      = Some (crc_reference IEEE 0 (foldl appendUint32 [] (simpleMakeTable poly)), s')" "vars_ok arch s'" "vars_le s s'"
  using ChecksumIEEE_ok [OF assms(1,2)] that by (auto simp: crc32_tableSum_def deref_ok [OF assms(2,3)])

text \<open>The marshalled state of a digest depends on its polynomial and checksum only; it is restored in every digest of the same polynomial.\<close>

definition marshalled :: "uint32 \<Rightarrow> byte list \<Rightarrow> byte list" where
  "marshalled poly w = crc32_magic @ appendUint32 [] (crc_reference IEEE 0 (foldl appendUint32 [] (simpleMakeTable poly)))
     @ appendUint32 [] (crc_reference poly 0 w)"

lemma marshalled_parts:
  "take 4 (marshalled poly w) = crc32_magic" "length (marshalled poly w) = 12" "length crc32_magic = 4"
  "readUint32 (drop 4 (marshalled poly w)) = Some (crc_reference IEEE 0 (foldl appendUint32 [] (simpleMakeTable poly)))"
  "readUint32 (drop 8 (marshalled poly w)) = Some (crc_reference poly 0 w)"
proof -
  define t where "t = crc_reference IEEE 0 (foldl appendUint32 [] (simpleMakeTable poly))"
  define c where "c = crc_reference poly 0 w"
  have b: "marshalled poly w = crc32_magic @ appendUint32 [] t @ appendUint32 [] c" by (simp add: marshalled_def t_def c_def)
  show "take 4 (marshalled poly w) = crc32_magic" "length (marshalled poly w) = 12" "length crc32_magic = 4"
    by (simp_all add: b crc32_magic_def length_appendUint32)
  have "readUint32 (drop 4 (marshalled poly w)) = Some t" "readUint32 (drop 8 (marshalled poly w)) = Some c"
    using readUint32_append [of t "appendUint32 [] c"] readUint32_append [of c "[]"]
    by (simp_all add: b crc32_magic_def appendUint32_def)
  then show "readUint32 (drop 4 (marshalled poly w)) = Some (crc_reference IEEE 0 (foldl appendUint32 [] (simpleMakeTable poly)))"
    "readUint32 (drop 8 (marshalled poly w)) = Some (crc_reference poly 0 w)" by (simp_all add: t_def c_def)
qed

lemma Marshal_ok:
  assumes "arch_ok arch" "vars_ok arch s" "is_digest s d poly w"
  obtains s' where "crc32_MarshalBinary arch d s = Some (marshalled poly w, s')" "vars_ok arch s'" "vars_le s s'"
proof -
  have t: "is_table s (crc_tab d) poly" "crc d = crc_reference poly 0 w" using assms(3) by (simp_all add: is_digest_def)
  obtain s' where s': "crc32_tableSum arch (crc_tab d) s = Some (crc_reference IEEE 0 (foldl appendUint32 [] (simpleMakeTable poly)), s')"
    "vars_ok arch s'" "vars_le s s'" using tableSum_ok [OF assms(1,2) t(1)] .
  have "crc32_MarshalBinary arch d s = Some (marshalled poly w, s')"
    using s'(1) by (simp add: crc32_MarshalBinary_def marshalled_def t(2) Let_def appendUint32_append [of "crc32_magic"]
        appendUint32_append [of "crc32_magic @ c" for c])
  then show ?thesis using s'(2,3) by (rule that)
qed

lemma Unmarshal_ok:
  assumes "arch_ok arch" "vars_ok arch s" "is_digest s e poly v"
  obtains s' where "crc32_UnmarshalBinary arch (marshalled poly w) e s = Some (None, e\<lparr>crc := crc_reference poly 0 w\<rparr>, s')"
    "vars_ok arch s'" "vars_le s s'" "is_digest s' (e\<lparr>crc := crc_reference poly 0 w\<rparr>) poly w"
proof -
  have t: "is_table s (crc_tab e) poly" using assms(3) by (simp add: is_digest_def)
  obtain s' where s': "crc32_tableSum arch (crc_tab e) s = Some (crc_reference IEEE 0 (foldl appendUint32 [] (simpleMakeTable poly)), s')"
    "vars_ok arch s'" "vars_le s s'" using tableSum_ok [OF assms(1,2) t] .
  have "crc32_UnmarshalBinary arch (marshalled poly w) e s = Some (None, e\<lparr>crc := crc_reference poly 0 w\<rparr>, s')"
    using s'(1) by (simp add: crc32_UnmarshalBinary_def marshalled_parts crc32_marshaledSize_def)
  moreover have "is_digest s' (e\<lparr>crc := crc_reference poly 0 w\<rparr>) poly w"
    using is_digest_mono [OF assms(3) s'(3)] by (simp add: is_digest_def)
  ultimately show ?thesis using s'(2,3) that by blast
qed

text \<open>Bytes of any kind do not make Unmarshal panic, and a digest is left alone when there is an error.\<close>

lemma readUint32_long: "4 \<le> length b \<Longrightarrow> \<exists>x. readUint32 b = Some x"
  by (auto simp: readUint32_def idx_def)

lemma Unmarshal_total:
  assumes "arch_ok arch" "vars_ok arch s" "is_digest s e poly v"
  obtains err e' s' where "crc32_UnmarshalBinary arch b e s = Some (err, e', s')" "vars_ok arch s'" "vars_le s s'" "err \<noteq> None \<Longrightarrow> e' = e"
proof -
  have t: "is_table s (crc_tab e) poly" using assms(3) by (simp add: is_digest_def)
  obtain x s1 where s1: "crc32_tableSum arch (crc_tab e) s = Some (x, s1)" "vars_ok arch s1" "vars_le s s1"
    using tableSum_ok [OF assms(1,2) t] .
  show ?thesis
  proof (cases "(length b < length crc32_magic \<or> take (length crc32_magic) b \<noteq> crc32_magic) \<or> int (length b) \<noteq> crc32_marshaledSize")
    case True
    then show ?thesis using that [of "Some (if length b < length crc32_magic \<or> take (length crc32_magic) b \<noteq> crc32_magic then CrcBadIdentifier else CrcBadSize)" e s]
        assms(2) by (auto simp: crc32_UnmarshalBinary_def)
  next
    case False
    then have "length b = 12" by (simp add: crc32_marshaledSize_def crc32_magic_def)
    then obtain y c where "readUint32 (drop 4 b) = Some y" "readUint32 (drop 8 b) = Some c"
      using readUint32_long [of "drop 4 b"] readUint32_long [of "drop 8 b"] by auto
    then have "crc32_UnmarshalBinary arch b e s = Some (if x \<noteq> y then (Some CrcTablesDiffer, e, s1) else (None, e\<lparr>crc := c\<rparr>, s1))"
      using False s1(1) by (auto simp: crc32_UnmarshalBinary_def)
    then show ?thesis using s1(2,3) that by (cases "x = y") auto
  qed
qed

subsection \<open>Every reachable state of the package\<close>

text \<open>
  A history of calls: the package variables, the tables \<open>T\<close> that were handed out with their polynomials, the digests \<open>D\<close> with
  their polynomials and the bytes they have added, and the states \<open>B\<close> that were marshalled, of a digest with a polynomial and bytes. The
  exported IEEE table is there from the start. Bytes of other origin may be unmarshalled, too, when this gives an error.
\<close>

type_synonym crc32_history = "(table_ptr \<times> uint32) set \<times> (crc32_digest \<times> uint32 \<times> byte list) set \<times> (byte list \<times> uint32 \<times> byte list) set"

inductive crc32_reach :: "crc32_arch \<Rightarrow> crc32_vars \<Rightarrow> crc32_history \<Rightarrow> bool" for arch where
  start: "crc32_reach arch crc32_start ({(IEEETablePtr, IEEE)}, {}, {})"
| make: "crc32_reach arch s (T, D, B) \<Longrightarrow> crc32_MakeTable arch poly s = Some (tab, s') \<Longrightarrow> crc32_reach arch s' (insert (tab, poly) T, D, B)"
| update: "crc32_reach arch s (T, D, B) \<Longrightarrow> (tab, poly) \<in> T \<Longrightarrow> crc32_Update arch c tab p s = Some (c', s') \<Longrightarrow> crc32_reach arch s' (T, D, B)"
| ieee: "crc32_reach arch s (T, D, B) \<Longrightarrow> ChecksumIEEE arch p s = Some (c', s') \<Longrightarrow> crc32_reach arch s' (T, D, B)"
| new: "crc32_reach arch s (T, D, B) \<Longrightarrow> (tab, poly) \<in> T \<Longrightarrow> crc32_New arch tab s = Some (d, s') \<Longrightarrow>
    crc32_reach arch s' (T, insert (d, poly, []) D, B)"
| wrote: "crc32_reach arch s (T, D, B) \<Longrightarrow> (d, poly, w) \<in> D \<Longrightarrow> crc32_Write arch p d s = Some (n, d') \<Longrightarrow>
    crc32_reach arch s (T, insert (d', poly, w @ p) D, B)"
| reset: "crc32_reach arch s (T, D, B) \<Longrightarrow> (d, poly, w) \<in> D \<Longrightarrow> crc32_reach arch s (T, insert (crc32_Reset d, poly, []) D, B)"
| marshal: "crc32_reach arch s (T, D, B) \<Longrightarrow> (d, poly, w) \<in> D \<Longrightarrow> crc32_MarshalBinary arch d s = Some (b, s') \<Longrightarrow>
    crc32_reach arch s' (T, D, insert (b, poly, w) B)"
| restore: "crc32_reach arch s (T, D, B) \<Longrightarrow> (b, poly, w) \<in> B \<Longrightarrow> (e, poly, v) \<in> D \<Longrightarrow>
    crc32_UnmarshalBinary arch b e s = Some (err, e', s') \<Longrightarrow> crc32_reach arch s' (T, insert (e', poly, w) D, B)"
| reject: "crc32_reach arch s (T, D, B) \<Longrightarrow> (e, poly, v) \<in> D \<Longrightarrow> crc32_UnmarshalBinary arch b e s = Some (Some err, e', s') \<Longrightarrow>
    crc32_reach arch s' (T, insert (e', poly, v) D, B)"

definition history_ok :: "crc32_arch \<Rightarrow> crc32_vars \<Rightarrow> crc32_history \<Rightarrow> bool" where
  "history_ok arch s h \<longleftrightarrow> (case h of (T, D, B) \<Rightarrow> vars_ok arch s \<and> (\<forall>(tab, poly) \<in> T. is_table s tab poly)
     \<and> (\<forall>(d, poly, w) \<in> D. is_digest s d poly w) \<and> (\<forall>(b, poly, w) \<in> B. b = marshalled poly w))"

lemma history_le: "history_ok arch s h \<Longrightarrow> vars_ok arch s' \<Longrightarrow> vars_le s s' \<Longrightarrow> history_ok arch s' h"
  by (fastforce simp: history_ok_def dest: is_table_mono is_digest_mono)

lemma history_table: "history_ok arch s (T, D, B) \<Longrightarrow> (tab, poly) \<in> T \<Longrightarrow> is_table s tab poly"
  by (auto simp: history_ok_def)

lemma history_digest: "history_ok arch s (T, D, B) \<Longrightarrow> (d, poly, w) \<in> D \<Longrightarrow> is_digest s d poly w"
  by (auto simp: history_ok_def)

lemma history_state: "history_ok arch s (T, D, B) \<Longrightarrow> (b, poly, w) \<in> B \<Longrightarrow> b = marshalled poly w"
  by (auto simp: history_ok_def)

lemma history_vars: "history_ok arch s h \<Longrightarrow> vars_ok arch s"
  by (auto simp: history_ok_def)

lemma history_insert:
  "history_ok arch s (T, D, B) \<Longrightarrow> is_table s tab poly \<Longrightarrow> history_ok arch s (insert (tab, poly) T, D, B)"
  "history_ok arch s (T, D, B) \<Longrightarrow> is_digest s d poly w \<Longrightarrow> history_ok arch s (T, insert (d, poly, w) D, B)"
  "history_ok arch s (T, D, B) \<Longrightarrow> history_ok arch s (T, D, insert (marshalled poly w, poly, w) B)"
  by (auto simp: history_ok_def)

lemma crc32_reach_ok:
  assumes "arch_ok arch" "crc32_reach arch s h"
  shows "history_ok arch s h"
  using assms(2)
proof induction
  case start
  show ?case by (simp add: history_ok_def vars_ok_start is_table_def)
next
  case (make s T D B poly tab s')
  obtain tab1 s1 where m: "crc32_MakeTable arch poly s = Some (tab1, s1)" "vars_ok arch s1" "vars_le s s1" "is_table s1 tab1 poly"
    using MakeTable_ok [OF assms(1) history_vars [OF make.IH]] .
  then show ?case using make.hyps(2) history_insert(1) [OF history_le [OF make.IH m(2,3)] m(4)] by simp
next
  case (update s T D B tab poly c p c' s')
  obtain s1 where m: "crc32_Update arch c tab p s = Some (crc_reference poly c p, s1)" "vars_ok arch s1" "vars_le s s1"
    using Update_ok [OF assms(1) history_vars history_table, OF update.IH update.IH update.hyps(2)] .
  then show ?case using update.hyps(3) history_le [OF update.IH m(2,3)] by simp
next
  case (ieee s T D B p c' s')
  obtain s1 where m: "ChecksumIEEE arch p s = Some (crc_reference IEEE 0 p, s1)" "vars_ok arch s1" "vars_le s s1"
    using ChecksumIEEE_ok [OF assms(1) history_vars [OF ieee.IH]] .
  then show ?case using ieee.hyps(2) history_le [OF ieee.IH m(2,3)] by simp
next
  case (new s T D B tab poly d s')
  obtain d1 s1 where m: "crc32_New arch tab s = Some (d1, s1)" "vars_ok arch s1" "vars_le s s1" "is_digest s1 d1 poly []"
    using New_ok [OF assms(1) history_vars history_table, OF new.IH new.IH new.hyps(2)] .
  then show ?case using new.hyps(3) history_insert(2) [OF history_le [OF new.IH m(2,3)] m(4)] by simp
next
  case (wrote s T D B d poly w p n d')
  note m = Write_ok [OF assms(1) history_vars history_digest, OF wrote.IH wrote.IH wrote.hyps(2), of p]
  show ?case using wrote.hyps(3) m(1) history_insert(2) [OF wrote.IH m(2)] by simp
next
  case (reset s T D B d poly w)
  then show ?case
    using history_digest [OF reset.IH reset.hyps(2)] by (intro history_insert(2)) (simp_all add: is_digest_def crc32_Reset_def)
next
  case (marshal s T D B d poly w b s')
  obtain s1 where "crc32_MarshalBinary arch d s = Some (marshalled poly w, s1)" "vars_ok arch s1" "vars_le s s1"
    using Marshal_ok [OF assms(1) history_vars history_digest, OF marshal.IH marshal.IH marshal.hyps(2)] .
  then show ?case using marshal.hyps(3) history_insert(3) [OF history_le [OF marshal.IH]] by simp
next
  case (restore s T D B b poly w e v err e' s')
  obtain s1 where u: "crc32_UnmarshalBinary arch (marshalled poly w) e s = Some (None, e\<lparr>crc := crc_reference poly 0 w\<rparr>, s1)"
    "vars_ok arch s1" "vars_le s s1" "is_digest s1 (e\<lparr>crc := crc_reference poly 0 w\<rparr>) poly w"
    using Unmarshal_ok [OF assms(1) history_vars history_digest, OF restore.IH restore.IH restore.hyps(3)] .
  then show ?case using restore.hyps(4) history_insert(2) [OF history_le [OF restore.IH u(2,3)] u(4)]
    unfolding history_state [OF restore.IH restore.hyps(2)] by simp
next
  case (reject s T D B e poly v b err e' s')
  note d = history_digest [OF reject.IH reject.hyps(2)]
  obtain err1 e1 s1 where u: "crc32_UnmarshalBinary arch b e s = Some (err1, e1, s1)" "vars_ok arch s1" "vars_le s s1" "err1 \<noteq> None \<Longrightarrow> e1 = e"
    using Unmarshal_total [OF assms(1) history_vars [OF reject.IH] d, of b] by blast
  moreover have "e1 = e" "e' = e1" "s' = s1" using u(1,4) reject.hyps(3) by auto
  ultimately show ?case using history_insert(2) [OF history_le [OF reject.IH u(2,3)] is_digest_mono [OF d u(3)]] by simp
qed

subsection \<open>Properties\<close>

text \<open>
  C10 (the CRC-32 algorithms agree). For every polynomial and every start value, the table-driven loop and the slicing-by-8
  algorithm with its eight tables both compute the bit-serial checksum.
\<close>

theorem crc32_algorithms_agree:
  "simpleUpdate c (simpleMakeTable poly) p = crc_reference poly c p
   \<and> slicingUpdate c (slicingMakeTable poly) p = crc_reference poly c p"
  by (simp add: simpleMakeTable_def simpleUpdate_eq slicingUpdate_eq)


lemma otherarch_ok: "arch_ok otherarch"
  by (simp add: arch_ok_def otherarch_def)


end
