(* ===== verification/Adler32.thy ===== *)
theory Adler32
  imports Hash_Bytes
begin

unbundle bit_operations_syntax

text \<open>
  \<^verbatim>\<open>hash/adler32\<close>: the checksum with its two running sums, the loop in blocks of 5552 bytes with four bytes per round, and
  the marshalled state. The sums are machine words: every addition of the code may wrap, and the lemmas show that none does,
  whatever the digest the update starts from.
\<close>

subsection \<open>The code\<close>

type_synonym adler_digest = uint32

datatype adler_error = AdlerBadIdentifier | AdlerBadSize

definition adler_mod :: uint32 where
  "adler_mod = 65521"

definition nmax :: nat where
  "nmax = 5552"

definition adler_Reset :: adler_digest where
  "adler_Reset = 1"

definition adler_New :: adler_digest where
  "adler_New = adler_Reset"

definition adler_magic :: "byte list" where
  "adler_magic = [0x61, 0x64, 0x6C, 0x01]"

definition adler_marshaledSize :: int where
  "adler_marshaledSize = int (length adler_magic) + 4"

definition adler_MarshalBinary :: "adler_digest \<Rightarrow> byte list" where
  "adler_MarshalBinary d = appendUint32 ([] @ adler_magic) d"

definition adler_UnmarshalBinary :: "byte list \<Rightarrow> adler_digest \<Rightarrow> (adler_digest \<times> adler_error option) option" where
  "adler_UnmarshalBinary b d =
     (if length b < length adler_magic \<or> take (length adler_magic) b \<noteq> adler_magic then Some (d, Some AdlerBadIdentifier)
      else if int (length b) \<noteq> adler_marshaledSize then Some (d, Some AdlerBadSize)
      else do { v \<leftarrow> readUint32 (drop (length adler_magic) b); Some (v, None) })"

fun adler_unrolled :: "uint32 \<Rightarrow> uint32 \<Rightarrow> byte list \<Rightarrow> uint32 \<times> uint32 \<times> byte list" where
  "adler_unrolled s1 s2 (p0 # p1 # p2 # p3 # p) =
     (let s1 = s1 + ucast p0; s2 = s2 + s1;
          s1 = s1 + ucast p1; s2 = s2 + s1;
          s1 = s1 + ucast p2; s2 = s2 + s1;
          s1 = s1 + ucast p3; s2 = s2 + s1
      in adler_unrolled s1 s2 p)"
| "adler_unrolled s1 s2 p = (s1, s2, p)"

fun adler_bytes :: "uint32 \<Rightarrow> uint32 \<Rightarrow> byte list \<Rightarrow> uint32 \<times> uint32" where
  "adler_bytes s1 s2 [] = (s1, s2)"
| "adler_bytes s1 s2 (x # p) = (let s1 = s1 + ucast x; s2 = s2 + s1 in adler_bytes s1 s2 p)"

function adler_loop :: "uint32 \<Rightarrow> uint32 \<Rightarrow> byte list \<Rightarrow> uint32 \<times> uint32" where
  "adler_loop s1 s2 p =
     (if 0 < length p then
        let (p, q) = (if length p > nmax then (take nmax p, drop nmax p) else (p, []));
            (s1, s2, p) = adler_unrolled s1 s2 p;
            (s1, s2) = adler_bytes s1 s2 p;
            s1 = s1 mod adler_mod;
            s2 = s2 mod adler_mod
        in adler_loop s1 s2 q
      else (s1, s2))"
  by pat_completeness auto
termination by (relation "measure (\<lambda>(_, _, p). length p)") (auto simp: nmax_def split: if_splits)

declare adler_loop.simps [simp del]

definition adler_update :: "adler_digest \<Rightarrow> byte list \<Rightarrow> adler_digest" where
  "adler_update d p =
     (let (s1, s2) = (d AND 0xFFFF, drop_bit 16 d);
          (s1, s2) = adler_loop s1 s2 p
      in push_bit 16 s2 OR s1)"

definition adler_Write :: "byte list \<Rightarrow> adler_digest \<Rightarrow> int \<times> adler_digest" where
  "adler_Write p d = (int (length p), adler_update d p)"

definition adler_Sum32 :: "adler_digest \<Rightarrow> uint32" where
  "adler_Sum32 d = d"

definition adler_Sum :: "adler_digest \<Rightarrow> byte list \<Rightarrow> byte list" where
  "adler_Sum d inp = (let s = d in inp @ [ucast (drop_bit 24 s), ucast (drop_bit 16 s), ucast (drop_bit 8 s), ucast s])"

definition adler_Checksum :: "byte list \<Rightarrow> uint32" where
  "adler_Checksum data = adler_update 1 data"

subsection \<open>The sums of RFC 1950\<close>

text \<open>The two sums as integers: \<open>byte_sum\<close> is the sum of the bytes, \<open>prefix_sum\<close> the sum of all its intermediate values.\<close>

fun byte_sum :: "byte list \<Rightarrow> int" where
  "byte_sum [] = 0"
| "byte_sum (x # p) = uint x + byte_sum p"

fun prefix_sum :: "byte list \<Rightarrow> int" where
  "prefix_sum [] = 0"
| "prefix_sum (x # p) = uint x * (1 + int (length p)) + prefix_sum p"

lemma byte_sum_append: "byte_sum (p @ q) = byte_sum p + byte_sum q"
  by (induction p) simp_all

lemma prefix_sum_append: "prefix_sum (p @ q) = prefix_sum p + byte_sum p * int (length q) + prefix_sum q"
  by (induction p) (simp_all add: algebra_simps)

lemma byte_sum_bounds: "0 \<le> byte_sum p" "byte_sum p \<le> 255 * int (length p)"
proof (induction p)
  case (Cons x p)
  { case 1 then show ?case using Cons.IH(1) uint_byte [of x] by simp }
  { case 2 then show ?case using Cons.IH(2) uint_byte [of x] by simp }
qed simp_all

lemma prefix_sum_bounds: "0 \<le> prefix_sum p" "2 * prefix_sum p \<le> 255 * (int (length p) * (int (length p) + 1))"
proof (induction p)
  case (Cons x p)
  have x: "0 \<le> uint x * (1 + int (length p))" "uint x * (1 + int (length p)) \<le> 255 * (1 + int (length p))"
    using uint_byte [of x] by (simp, intro mult_right_mono) simp_all
  { case 1 then show ?case using Cons.IH(1) x by simp }
  { case 2 then show ?case using Cons.IH(2) x by (simp add: algebra_simps) }
qed simp_all

text \<open>The unrolled loop followed by the byte loop is the byte loop.\<close>

lemma adler_unrolled_bytes:
  "(case adler_unrolled s1 s2 p of (s1, s2, p) \<Rightarrow> adler_bytes s1 s2 p) = adler_bytes s1 s2 p"
proof (induction s1 s2 p rule: adler_unrolled.induct)
  case (1 s1 s2 p0 p1 p2 p3 p)
  show ?case
    by (simp only: adler_unrolled.simps adler_bytes.simps Let_def 1 [OF refl refl refl refl refl refl refl refl])
qed simp_all

lemma adler_loop_step:
  assumes "p \<noteq> []"
  shows "adler_loop s1 s2 p =
    (case adler_bytes s1 s2 (take nmax p) of (s1, s2) \<Rightarrow> adler_loop (s1 mod adler_mod) (s2 mod adler_mod) (drop nmax p))"
  using assms adler_unrolled_bytes [of s1 s2 "take nmax p"]
  by (subst adler_loop.simps) (auto simp: Let_def split: prod.splits)

text \<open>Within a block no addition of the byte loop wraps.\<close>

lemma adler_bytes_exact:
  assumes "uint s1 + byte_sum p < 2 ^ 32" "uint s2 + int (length p) * uint s1 + prefix_sum p < 2 ^ 32"
  shows "\<exists>r1 r2. adler_bytes s1 s2 p = (r1, r2) \<and> uint r1 = uint s1 + byte_sum p
    \<and> uint r2 = uint s2 + int (length p) * uint s1 + prefix_sum p"
  using assms
proof (induction p arbitrary: s1 s2)
  case (Cons x p)
  have u: "uint (ucast x :: uint32) = uint x" by (simp add: unsigned_ucast_eq take_bit_int_eq_self uint_byte order.strict_trans [OF uint_byte(2)])
  note b = byte_sum_bounds [of p] prefix_sum_bounds [of p] uint_byte [of x]
  have l: "0 \<le> int (length p) * uint s1" "0 \<le> uint x * int (length p)" using b by simp_all
  have 1: "uint (s1 + ucast x) = uint s1 + uint x"
    using uint_plus_fits [of s1 "ucast x"] Cons.prems(1) b by (simp add: u)
  have "uint s2 + int (length (x # p)) * uint s1 + prefix_sum (x # p)
      = uint s2 + (uint s1 + uint x) + int (length p) * uint s1 + uint x * int (length p) + prefix_sum p"
    by (simp add: algebra_simps)
  then have "uint s2 + (uint s1 + uint x) < 2 ^ 32" using Cons.prems(2) b(3) l by linarith
  then have 2: "uint (s2 + (s1 + ucast x)) = uint s2 + uint s1 + uint x"
    using uint_plus_fits [of s2 "s1 + ucast x"] 1 by simp
  show ?case
    using Cons.IH [of "s1 + ucast x" "s2 + (s1 + ucast x)", unfolded 1 2] Cons.prems by (simp add: algebra_simps Let_def)
qed simp

text \<open>A block is small enough even for a digest whose halves are not reduced, as after reading a foreign state.\<close>

lemma adler_block_bound:
  assumes "uint s1 < 65536" "uint s2 < 65536" "length p \<le> nmax"
  shows "uint s1 + byte_sum p < 2 ^ 32" "uint s2 + int (length p) * uint s1 + prefix_sum p < 2 ^ 32"
proof -
  have n: "int (length p) \<le> 5552" using assms(3) by (simp add: nmax_def)
  show "uint s1 + byte_sum p < 2 ^ 32" using byte_sum_bounds [of p] n assms(1) by simp
  have "int (length p) * uint s1 \<le> 5552 * 65535" using n assms(1) by (intro mult_mono) simp_all
  moreover have "int (length p) * (int (length p) + 1) \<le> 5552 * 5553" using n by (intro mult_mono) simp_all
  ultimately show "uint s2 + int (length p) * uint s1 + prefix_sum p < 2 ^ 32"
    using prefix_sum_bounds [of p] assms(2) by simp
qed

text \<open>The loop over the blocks computes both sums modulo 65521.\<close>

abbreviation adler_prime :: int where
  "adler_prime \<equiv> 65521"

lemma mod_sum_cong: "(a mod m + k * (b mod m) + c) mod m = (a + k * b + c) mod m" for a b c k m :: int
  by (intro mod_add_cong mod_mult_cong mod_mod_trivial refl)

lemma uint_adler_mod: "uint (v mod adler_mod) = uint v mod adler_prime" "uint (v mod adler_mod) < 65536"
  by (simp_all add: adler_mod_def uint_mod order.strict_trans [OF pos_mod_bound])

lemma adler_loop_exact:
  assumes "uint s1 < 65536" "uint s2 < 65536" "p \<noteq> []"
  shows "\<exists>r1 r2. adler_loop s1 s2 p = (r1, r2) \<and> uint r1 = (uint s1 + byte_sum p) mod adler_prime
    \<and> uint r2 = (uint s2 + int (length p) * uint s1 + prefix_sum p) mod adler_prime"
  using assms
proof (induction "length p" arbitrary: p s1 s2 rule: less_induct)
  case less
  let ?b = "take nmax p" and ?q = "drop nmax p"
  obtain t1 t2 where t: "adler_bytes s1 s2 ?b = (t1, t2)" "uint t1 = uint s1 + byte_sum ?b"
    "uint t2 = uint s2 + int (length ?b) * uint s1 + prefix_sum ?b"
    using adler_bytes_exact [OF adler_block_bound [OF less.prems(1,2), of ?b]] by auto
  note step = adler_loop_step [OF less.prems(3), of s1 s2, unfolded t(1) prod.case]
  have sums: "byte_sum p = byte_sum ?b + byte_sum ?q"
    "prefix_sum p = prefix_sum ?b + byte_sum ?b * int (length ?q) + prefix_sum ?q"
    "int (length p) = int (length ?b) + int (length ?q)"
    using byte_sum_append [of ?b ?q] prefix_sum_append [of ?b ?q] length_append [of ?b ?q]
    unfolding append_take_drop_id by (simp_all only: of_nat_add)
  show ?case
  proof (cases "?q = []")
    case True
    then have "?b = p" by simp
    then show ?thesis using step True t by (simp add: adler_loop.simps [of _ _ "[]"] uint_adler_mod)
  next
    case False
    then have "length ?q < length p" by (simp add: nmax_def)
    from less.hyps [OF this uint_adler_mod(2) uint_adler_mod(2) False, of t1 t2]
    obtain r1 r2 where r: "adler_loop s1 s2 p = (r1, r2)"
      "uint r1 = (uint t1 mod adler_prime + byte_sum ?q) mod adler_prime"
      "uint r2 = (uint t2 mod adler_prime + int (length ?q) * (uint t1 mod adler_prime) + prefix_sum ?q) mod adler_prime"
      unfolding step uint_adler_mod by blast
    have "uint r1 = (uint t1 + byte_sum ?q) mod adler_prime" by (simp add: r mod_simps)
    also have "uint t1 + byte_sum ?q = uint s1 + byte_sum p" unfolding t(2) sums(1) by (simp only: ac_simps)
    finally have 1: "uint r1 = (uint s1 + byte_sum p) mod adler_prime" .
    have "uint r2 = (uint t2 + int (length ?q) * uint t1 + prefix_sum ?q) mod adler_prime"
      unfolding r(3) by (rule mod_sum_cong)
    also have "uint t2 + int (length ?q) * uint t1 + prefix_sum ?q
        = uint s2 + int (length p) * uint s1 + prefix_sum p"
      unfolding t(2,3) sums(2) sums(3) by (simp only: algebra_simps)
    finally show ?thesis using r(1) 1 by simp
  qed
qed

lemma adler_halves:
  "uint (d AND 0xFFFF :: uint32) = uint d mod 65536" "uint (drop_bit 16 (d :: uint32)) = uint d div 65536"
  "uint (drop_bit 16 (d :: uint32)) < 65536"
proof -
  show "uint (d AND 0xFFFF) = uint d mod 65536" using uint_and_mask [of d 16] by (simp add: mask_numeral)
  show 1: "uint (drop_bit 16 d) = uint d div 65536" by (simp only: uint_drop) simp
  show "uint (drop_bit 16 d) < 65536" unfolding 1 using unsigned_less [of d, where 'a = int] by simp
qed

lemma adler_join:
  assumes "uint s1 < 65536" "uint s2 < 65536"
  shows "uint (push_bit 16 s2 OR s1 :: uint32) = uint s2 * 65536 + uint s1"
  using uint_or_plus [of s1 16 "push_bit 16 s2"] uint_push [of s2 16] assms by simp

lemma adler_update_Nil: "adler_update d [] = d"
proof -
  have "uint (adler_update d []) = uint d"
    using adler_join [of "d AND 0xFFFF" "drop_bit 16 d"] adler_halves [of d]
    by (simp add: adler_update_def adler_loop.simps)
  then show ?thesis by (simp only: word_uint_eq_iff)
qed

lemma adler_update_halves:
  assumes "p \<noteq> []"
  shows "uint (adler_update d p) mod 65536 = (uint d mod 65536 + byte_sum p) mod adler_prime"
    "uint (adler_update d p) div 65536
      = (uint d div 65536 + int (length p) * (uint d mod 65536) + prefix_sum p) mod adler_prime"
proof -
  obtain r1 r2 where r: "adler_loop (d AND 0xFFFF) (drop_bit 16 d) p = (r1, r2)"
    "uint r1 = (uint d mod 65536 + byte_sum p) mod adler_prime"
    "uint r2 = (uint d div 65536 + int (length p) * (uint d mod 65536) + prefix_sum p) mod adler_prime"
    using adler_loop_exact [of "d AND 0xFFFF" "drop_bit 16 d", OF _ adler_halves(3) assms] unfolding adler_halves by auto
  have "uint r1 < 65536" "uint r2 < 65536" unfolding r by (simp_all add: order.strict_trans [OF pos_mod_bound])
  then have "uint (adler_update d p) = uint r2 * 65536 + uint r1"
    using adler_join [of r1 r2] by (simp add: adler_update_def r(1))
  then show "uint (adler_update d p) mod 65536 = (uint d mod 65536 + byte_sum p) mod adler_prime"
    "uint (adler_update d p) div 65536
      = (uint d div 65536 + int (length p) * (uint d mod 65536) + prefix_sum p) mod adler_prime"
    unfolding r(2,3) [symmetric] using \<open>uint r1 < 65536\<close> by simp_all
qed

end
