(* ===== verification/Crc64.thy ===== *)
theory Crc64
  imports Crc Hash_Bytes
begin

unbundle bit_operations_syntax

text \<open>
  \<^verbatim>\<open>hash/crc64\<close>: the whole package. The once-built slicing tables are read only after they were built, so they are
  constants of the model; tables are compared by their entries, as the code does, and passed as values.
\<close>

subsection \<open>The code\<close>

definition ISO :: uint64 where "ISO = 0xD800000000000000"
definition ECMA :: uint64 where "ECMA = 0xC96C5795D7870F42"

type_synonym crc64_table = "uint64 list"

definition crc64_entry :: "uint64 \<Rightarrow> nat \<Rightarrow> uint64" where
  "crc64_entry poly i =
     ((\<lambda>crc. if crc AND 1 = 1 then drop_bit 1 crc XOR poly else drop_bit 1 crc) ^^ 8) (of_nat i)"

definition crc64_makeTable :: "uint64 \<Rightarrow> crc64_table" where
  "crc64_makeTable poly = map (crc64_entry poly) [0..<256]"

fun helper_entry :: "crc64_table \<Rightarrow> nat \<Rightarrow> uint64 \<Rightarrow> uint64" where
  "helper_entry t 0 crc = crc"
| "helper_entry t (Suc j) crc = (let crc = helper_entry t j crc in t ! unat (crc AND 0xFF) XOR drop_bit 8 crc)"

definition makeSlicingBy8Table :: "crc64_table \<Rightarrow> crc64_table list" where
  "makeSlicingBy8Table t = map (\<lambda>j. map (\<lambda>i. helper_entry t j (t ! i)) [0..<256]) [0..<8]"

definition slicing8TableISO :: "crc64_table list" where
  "slicing8TableISO = makeSlicingBy8Table (crc64_makeTable ISO)"

definition slicing8TableECMA :: "crc64_table list" where
  "slicing8TableECMA = makeSlicingBy8Table (crc64_makeTable ECMA)"

definition crc64_MakeTable :: "uint64 \<Rightarrow> crc64_table" where
  "crc64_MakeTable poly =
     (if poly = ISO then slicing8TableISO ! 0
      else if poly = ECMA then slicing8TableECMA ! 0
      else crc64_makeTable poly)"

definition crc64_block :: "crc64_table list \<Rightarrow> uint64 \<Rightarrow> byte list \<Rightarrow> uint64" where
  "crc64_block helperTable crc p =
     (let crc = crc XOR (ucast (p ! 0) OR push_bit 8 (ucast (p ! 1)) OR push_bit 16 (ucast (p ! 2)) OR push_bit 24 (ucast (p ! 3)) OR
                push_bit 32 (ucast (p ! 4)) OR push_bit 40 (ucast (p ! 5)) OR push_bit 48 (ucast (p ! 6)) OR push_bit 56 (ucast (p ! 7)))
      in helperTable ! 7 ! unat (crc AND 0xFF) XOR
         helperTable ! 6 ! unat (drop_bit 8 crc AND 0xFF) XOR
         helperTable ! 5 ! unat (drop_bit 16 crc AND 0xFF) XOR
         helperTable ! 4 ! unat (drop_bit 24 crc AND 0xFF) XOR
         helperTable ! 3 ! unat (drop_bit 32 crc AND 0xFF) XOR
         helperTable ! 2 ! unat (drop_bit 40 crc AND 0xFF) XOR
         helperTable ! 1 ! unat (drop_bit 48 crc AND 0xFF) XOR
         helperTable ! 0 ! unat (drop_bit 56 crc))"

function crc64_blocks :: "crc64_table list \<Rightarrow> uint64 \<Rightarrow> byte list \<Rightarrow> uint64 \<times> byte list" where
  "crc64_blocks helperTable crc p =
     (if length p > 8 then crc64_blocks helperTable (crc64_block helperTable crc p) (drop 8 p) else (crc, p))"
  by pat_completeness auto
termination by (relation "measure (\<lambda>(_, _, p). length p)") auto

declare crc64_blocks.simps [simp del]

text \<open>The choice of the helper table; \<^const>\<open>None\<close> is the \<^verbatim>\<open>break\<close>.\<close>

definition helper_table :: "crc64_table \<Rightarrow> byte list \<Rightarrow> crc64_table list option" where
  "helper_table tab p =
     (if tab = slicing8TableECMA ! 0 then Some slicing8TableECMA
      else if tab = slicing8TableISO ! 0 then Some slicing8TableISO
      else if length p > 16384 then Some (makeSlicingBy8Table tab)
      else None)"

lemma crc64_blocks_length: "length (snd (crc64_blocks h crc p)) \<le> 8"
proof (induction h crc p rule: crc64_blocks.induct)
  case (1 h crc p)
  then show ?case by (cases "8 < length p") (simp_all add: crc64_blocks.simps [of h crc p])
qed

function crc64_slices :: "crc64_table \<Rightarrow> uint64 \<Rightarrow> byte list \<Rightarrow> uint64 \<times> byte list" where
  "crc64_slices tab crc p =
     (if length p \<ge> 64 then
        case helper_table tab p of
          None \<Rightarrow> (crc, p)
        | Some helperTable \<Rightarrow> let (crc, p) = crc64_blocks helperTable crc p in crc64_slices tab crc p
      else (crc, p))"
  by pat_completeness auto
termination
proof (relation "measure (\<lambda>(_, _, p). length p)")
  fix tab :: crc64_table and crc :: uint64 and p q helperTable x c
  assume "64 \<le> length p" "x = crc64_blocks helperTable crc p" "(c, q) = x"
  then have "length q \<le> 8" using crc64_blocks_length [of helperTable crc p] by (metis snd_conv)
  then show "((tab, c, q), tab, crc, p) \<in> measure (\<lambda>(_, _, p). length p)" using \<open>64 \<le> length p\<close> by simp
qed simp

declare crc64_slices.simps [simp del]

definition crc64_update_step :: "crc64_table \<Rightarrow> uint64 \<Rightarrow> byte \<Rightarrow> uint64" where
  "crc64_update_step tab crc v = tab ! unat (ucast crc XOR v :: byte) XOR drop_bit 8 crc"

definition crc64_update :: "uint64 \<Rightarrow> crc64_table \<Rightarrow> byte list \<Rightarrow> uint64" where
  "crc64_update crc tab p =
     (let crc = NOT crc;
          (crc, p) = crc64_slices tab crc p;
          crc = foldl (crc64_update_step tab) crc p
      in NOT crc)"

definition crc64_Update :: "uint64 \<Rightarrow> crc64_table \<Rightarrow> byte list \<Rightarrow> uint64" where
  "crc64_Update crc tab p = crc64_update crc tab p"

definition crc64_Checksum :: "byte list \<Rightarrow> crc64_table \<Rightarrow> uint64" where
  "crc64_Checksum data tab = crc64_update 0 tab data"

record crc64_digest =
  crc64_crc :: uint64
  crc64_tab :: crc64_table

datatype crc64_error = Crc64BadIdentifier | Crc64BadSize | Crc64TablesDiffer

definition crc64_New :: "crc64_table \<Rightarrow> crc64_digest" where
  "crc64_New tab = \<lparr> crc64_crc = 0, crc64_tab = tab \<rparr>"

definition crc64_Reset :: "crc64_digest \<Rightarrow> crc64_digest" where
  "crc64_Reset d = d\<lparr>crc64_crc := 0\<rparr>"

definition crc64_Write :: "byte list \<Rightarrow> crc64_digest \<Rightarrow> int \<times> crc64_digest" where
  "crc64_Write p d = (int (length p), d\<lparr>crc64_crc := crc64_update (crc64_crc d) (crc64_tab d) p\<rparr>)"

definition crc64_Sum64 :: "crc64_digest \<Rightarrow> uint64" where
  "crc64_Sum64 d = crc64_crc d"

definition crc64_Sum :: "crc64_digest \<Rightarrow> byte list \<Rightarrow> byte list" where
  "crc64_Sum d inp =
     (let s = crc64_Sum64 d
      in inp @ [ucast (drop_bit 56 s), ucast (drop_bit 48 s), ucast (drop_bit 40 s), ucast (drop_bit 32 s),
                ucast (drop_bit 24 s), ucast (drop_bit 16 s), ucast (drop_bit 8 s), ucast s])"

definition crc64_tableSum :: "crc64_table \<Rightarrow> uint64" where
  "crc64_tableSum t = (let b = foldl appendUint64 [] t in crc64_Checksum b (crc64_MakeTable ISO))"

definition crc64_magic :: "byte list" where
  "crc64_magic = [0x63, 0x72, 0x63, 0x02]"

definition crc64_marshaledSize :: int where
  "crc64_marshaledSize = int (length crc64_magic) + 8 + 8"

definition crc64_MarshalBinary :: "crc64_digest \<Rightarrow> byte list" where
  "crc64_MarshalBinary d =
     (let b = [] @ crc64_magic; b = appendUint64 b (crc64_tableSum (crc64_tab d)) in appendUint64 b (crc64_crc d))"

definition crc64_UnmarshalBinary :: "byte list \<Rightarrow> crc64_digest \<Rightarrow> (crc64_digest \<times> crc64_error option) option" where
  "crc64_UnmarshalBinary b d =
     (if length b < length crc64_magic \<or> take (length crc64_magic) b \<noteq> crc64_magic then Some (d, Some Crc64BadIdentifier)
      else if int (length b) \<noteq> crc64_marshaledSize then Some (d, Some Crc64BadSize)
      else do {
        w \<leftarrow> readUint64 (drop 4 b);
        if crc64_tableSum (crc64_tab d) \<noteq> w then Some (d, Some Crc64TablesDiffer)
        else do { c \<leftarrow> readUint64 (drop 12 b); Some (d\<lparr>crc64_crc := c\<rparr>, None) }
      })"

subsection \<open>The update computes the reference\<close>

lemma crc64_table_nth: "i < 256 \<Longrightarrow> crc64_makeTable poly ! i = crc_step poly (of_nat i)"
  unfolding crc64_makeTable_def crc64_entry_def crc_bit_test crc_step_def by simp

lemma crc64_table_byte: "crc64_makeTable poly ! unat (b :: byte) = crc_step poly (ucast b)"
  by (simp add: crc64_table_nth unat_byte of_nat_unat_byte)

lemma crc64_table_low: "crc64_makeTable poly ! unat (take_bit 8 x) = crc_step poly (take_bit 8 x)"
  by (simp add: crc64_table_nth unat_take_8)

lemma crc64_update_step_eq: "crc64_update_step (crc64_makeTable poly) crc v = crc_step poly (crc XOR ucast v)"
proof -
  have h: "drop_bit 8 (ucast v :: uint64) = 0" by (rule bit_word_eqI) (auto simp: bit_simps dest: bit_imp_le_length)
  have "ucast (ucast crc XOR v :: byte) = take_bit 8 (crc XOR ucast v)"
    by (rule bit_word_eqI) (auto simp: bit_simps dest: bit_imp_le_length)
  then show ?thesis
    unfolding crc64_update_step_def crc64_table_byte crc_step_table [of poly "crc XOR ucast v"]
    by (simp only: drop_bit_xor h xor.right_neutral)
qed

lemma helper_entry_eq: "helper_entry (crc64_makeTable poly) j crc = crc_steps j poly crc"
  by (induction j) (simp_all only: helper_entry.simps Let_def and_FF crc64_table_low crc_step_table [symmetric] funpow.simps o_def id_apply)

abbreviation crc64_slicing :: "uint64 \<Rightarrow> crc64_table list" where
  "crc64_slicing poly \<equiv> makeSlicingBy8Table (crc64_makeTable poly)"

lemma crc64_slicing_nth: "j < 8 \<Longrightarrow> i < 256 \<Longrightarrow> crc64_slicing poly ! j ! i = crc_steps (Suc j) poly (of_nat i)"
  by (simp add: makeSlicingBy8Table_def helper_entry_eq crc64_table_nth funpow_swap1 del: of_nat_unat)

lemma crc64_slicing_low:
  "j < 8 \<Longrightarrow> n = Suc j \<Longrightarrow> crc64_slicing poly ! j ! unat (take_bit 8 x) = crc_steps n poly (take_bit 8 x)"
  by (simp only: crc64_slicing_nth unat_take_8 of_nat_unat ucast_id)

lemma crc64_slicing_0: "crc64_slicing poly ! 0 = crc64_makeTable poly"
  by (rule nth_equalityI) (simp_all add: makeSlicingBy8Table_def crc64_makeTable_def)

lemma or_is_xor_bytes64:
  "(ucast b0 OR push_bit 8 (ucast b1) OR push_bit 16 (ucast b2) OR push_bit 24 (ucast b3) OR
    push_bit 32 (ucast b4) OR push_bit 40 (ucast b5) OR push_bit 48 (ucast b6) OR push_bit 56 (ucast b7) :: uint64)
    = bytes_word [b0, b1, b2, b3, b4, b5, b6, b7]"
  by (simp add: bytes_word_or push_bit_or del: bytes_word.simps(2))

lemma crc64_block_eq:
  "crc64_block (crc64_slicing poly) crc ([b0, b1, b2, b3, b4, b5, b6, b7] @ q)
    = crc_register poly crc [b0, b1, b2, b3, b4, b5, b6, b7]"
proof -
  define x where "x = crc XOR bytes_word [b0, b1, b2, b3, b4, b5, b6, b7]"
  have top: "take_bit 8 (drop_bit 56 x) = drop_bit 56 x" by (rule bit_word_eqI) (auto simp: bit_simps dest: bit_imp_le_length)
  have "crc_register poly crc [b0, b1, b2, b3, b4, b5, b6, b7] = crc_steps (length [b0, b1, b2, b3, b4, b5, b6, b7]) poly x"
    unfolding x_def by (rule crc_register_word) simp
  then have "crc_register poly crc [b0, b1, b2, b3, b4, b5, b6, b7] = crc_steps 8 poly x"
    by (simp only: list.size) (simp add: eval_nat_numeral)
  also have "\<dots> = crc_steps 8 poly (take_bit 8 x) XOR crc_steps 7 poly (take_bit 8 (drop_bit 8 x))
      XOR crc_steps 6 poly (take_bit 8 (drop_bit 16 x)) XOR crc_steps 5 poly (take_bit 8 (drop_bit 24 x))
      XOR crc_steps 4 poly (take_bit 8 (drop_bit 32 x)) XOR crc_steps 3 poly (take_bit 8 (drop_bit 40 x))
      XOR crc_steps 2 poly (take_bit 8 (drop_bit 48 x)) XOR crc_steps 1 poly (drop_bit 56 x)"
    using crc_steps_split [of 7 poly x] crc_steps_split [of 6 poly "drop_bit 8 x"] crc_steps_split [of 5 poly "drop_bit 16 x"]
      crc_steps_split [of 4 poly "drop_bit 24 x"] crc_steps_split [of 3 poly "drop_bit 32 x"]
      crc_steps_split [of 2 poly "drop_bit 40 x"] crc_steps_split [of 1 poly "drop_bit 48 x", unfolded Suc_1]
    by (simp add: xor.assoc del: funpow.simps)
  finally have reg: "crc_register poly crc [b0, b1, b2, b3, b4, b5, b6, b7] = \<dots>" .
  have nth: "([b0, b1, b2, b3, b4, b5, b6, b7] @ q) ! 0 = b0" "([b0, b1, b2, b3, b4, b5, b6, b7] @ q) ! 1 = b1"
    "([b0, b1, b2, b3, b4, b5, b6, b7] @ q) ! 2 = b2" "([b0, b1, b2, b3, b4, b5, b6, b7] @ q) ! 3 = b3"
    "([b0, b1, b2, b3, b4, b5, b6, b7] @ q) ! 4 = b4" "([b0, b1, b2, b3, b4, b5, b6, b7] @ q) ! 5 = b5"
    "([b0, b1, b2, b3, b4, b5, b6, b7] @ q) ! 6 = b6" "([b0, b1, b2, b3, b4, b5, b6, b7] @ q) ! 7 = b7"
    by simp_all
  let ?T = "crc64_slicing poly"
  have low: "?T ! 7 ! unat (take_bit 8 x) = crc_steps 8 poly (take_bit 8 x)"
    "?T ! 6 ! unat (take_bit 8 (drop_bit 8 x)) = crc_steps 7 poly (take_bit 8 (drop_bit 8 x))"
    "?T ! 5 ! unat (take_bit 8 (drop_bit 16 x)) = crc_steps 6 poly (take_bit 8 (drop_bit 16 x))"
    "?T ! 4 ! unat (take_bit 8 (drop_bit 24 x)) = crc_steps 5 poly (take_bit 8 (drop_bit 24 x))"
    "?T ! 3 ! unat (take_bit 8 (drop_bit 32 x)) = crc_steps 4 poly (take_bit 8 (drop_bit 32 x))"
    "?T ! 2 ! unat (take_bit 8 (drop_bit 40 x)) = crc_steps 3 poly (take_bit 8 (drop_bit 40 x))"
    "?T ! 1 ! unat (take_bit 8 (drop_bit 48 x)) = crc_steps 2 poly (take_bit 8 (drop_bit 48 x))"
    by (rule crc64_slicing_low; simp)+
  have low0: "?T ! 0 ! unat (drop_bit 56 x) = crc_steps 1 poly (drop_bit 56 x)"
    using crc64_slicing_low [of 0 1 poly "drop_bit 56 x", unfolded top] by simp
  show ?thesis
    unfolding crc64_block_def nth or_is_xor_bytes64 and_FF Let_def x_def [symmetric] reg low low0 by (simp only: ac_simps)
qed

lemma crc64_blocks_eq:
  "crc64_blocks (crc64_slicing poly) crc p = (c, q) \<Longrightarrow> crc_register poly c q = crc_register poly crc p"
proof (induction "length p" arbitrary: crc p rule: less_induct)
  case less
  show ?case
  proof (cases "length p > 8")
    case True
    then obtain b0 b1 b2 b3 b4 b5 b6 b7 r where p: "p = [b0, b1, b2, b3, b4, b5, b6, b7] @ r"
      using eight_bytes [of p] by (metis less_imp_le)
    have "crc64_blocks (crc64_slicing poly) (crc64_block (crc64_slicing poly) crc p) (drop 8 p) = (c, q)"
      using less.prems True by (subst (asm) crc64_blocks.simps) simp
    then have "crc_register poly c q = crc_register poly (crc64_block (crc64_slicing poly) crc p) (drop 8 p)"
      using less.hyps [of "drop 8 p"] True by simp
    then show ?thesis unfolding p crc64_block_eq crc_register_append by simp
  next
    case False
    then show ?thesis using less.prems by (subst (asm) crc64_blocks.simps) simp
  qed
qed

lemma helper_table_eq: "helper_table (crc64_makeTable poly) p = Some h \<Longrightarrow> h = crc64_slicing poly"
  by (auto simp: helper_table_def slicing8TableECMA_def slicing8TableISO_def crc64_slicing_0 split: if_splits)

lemma crc64_slices_eq:
  "crc64_slices (crc64_makeTable poly) crc p = (c, q) \<Longrightarrow> crc_register poly c q = crc_register poly crc p"
proof (induction "length p" arbitrary: crc p rule: less_induct)
  case less
  consider "length p < 64 \<or> helper_table (crc64_makeTable poly) p = None"
    | h where "64 \<le> length p" "helper_table (crc64_makeTable poly) p = Some h" by (cases "length p < 64") auto
  then show ?case
  proof cases
    case 1
    then show ?thesis using less.prems by (subst (asm) crc64_slices.simps) (auto split: if_splits option.splits)
  next
    case 2
    obtain c' q' where b: "crc64_blocks (crc64_slicing poly) crc p = (c', q')" by fastforce
    with 2 have "crc64_slices (crc64_makeTable poly) c' q' = (c, q)"
      using less.prems helper_table_eq [OF 2(2)] by (subst (asm) crc64_slices.simps) simp
    moreover have "length q' < length p" using crc64_blocks_length [of "crc64_slicing poly" crc p] b 2(1) by simp
    ultimately show ?thesis using less.hyps crc64_blocks_eq [OF b] by simp
  qed
qed

lemma crc64_update_eq: "crc64_update crc (crc64_makeTable poly) p = crc_reference poly crc p"
proof -
  obtain c q where l: "crc64_slices (crc64_makeTable poly) (NOT crc) p = (c, q)" by fastforce
  have "crc64_update_step (crc64_makeTable poly) = (\<lambda>c v. crc_step poly (c XOR ucast v))"
    by (intro ext) (rule crc64_update_step_eq)
  then show ?thesis
    using crc64_slices_eq [OF l] l by (simp add: crc64_update_def crc_reference_def crc_register_def Let_def)
qed

lemma crc64_MakeTable_eq: "crc64_MakeTable poly = crc64_makeTable poly"
  by (simp add: crc64_MakeTable_def slicing8TableECMA_def slicing8TableISO_def crc64_slicing_0)

text \<open>Digests of the same polynomial meet the contract of a hash.\<close>

definition crc64_fits :: "crc64_digest \<Rightarrow> crc64_digest \<Rightarrow> bool" where
  "crc64_fits d e \<longleftrightarrow> crc64_tab e = crc64_tab d \<and> (\<exists>poly. crc64_tab d = crc64_makeTable poly)"

lemma crc64_restore:
  assumes "crc64_tab e = crc64_tab d"
  shows "crc64_UnmarshalBinary (crc64_MarshalBinary d) e = Some (d, None)"
proof -
  let ?t = "crc64_tableSum (crc64_tab d)"
  have m: "crc64_MarshalBinary d = crc64_magic @ appendUint64 [] ?t @ appendUint64 [] (crc64_crc d)"
    by (simp add: crc64_MarshalBinary_def Let_def appendUint64_append [of crc64_magic] appendUint64_append [of "crc64_magic @ c" for c])
  have "readUint64 (drop 4 (crc64_MarshalBinary d)) = Some ?t" "readUint64 (drop 12 (crc64_MarshalBinary d)) = Some (crc64_crc d)"
    using readUint64_append [of ?t "appendUint64 [] (crc64_crc d)"] readUint64_append [of "crc64_crc d" "[]"]
    by (simp_all add: m crc64_magic_def appendUint64_def)
  then show ?thesis
    using assms by (simp add: crc64_UnmarshalBinary_def crc64_marshaledSize_def m crc64_magic_def length_appendUint64)
qed

interpretation crc64: hash_contract crc64_Write crc64_MarshalBinary crc64_UnmarshalBinary crc64_fits
proof unfold_locales
  fix d e :: crc64_digest and p q
  show "fst (crc64_Write p d) = int (length p)" by (simp add: crc64_Write_def)
  assume f: "crc64_fits d e"
  then obtain poly where t: "crc64_tab d = crc64_makeTable poly" by (auto simp: crc64_fits_def)
  show "snd (crc64_Write [] d) = d" by (simp add: crc64_Write_def t crc64_update_eq)
  show "snd (crc64_Write (p @ q) d) = snd (crc64_Write q (snd (crc64_Write p d)))"
    by (simp add: crc64_Write_def t crc64_update_eq crc_reference_append)
  show "crc64_fits (snd (crc64_Write p d)) e" using f by (simp add: crc64_Write_def crc64_fits_def)
  show "crc64_UnmarshalBinary (crc64_MarshalBinary d) e = Some (d, None)" using f by (simp add: crc64_restore crc64_fits_def)
qed

end
