(* ===== verification/Fnv.thy ===== *)
theory Fnv
  imports Math_Bits_Arith Hash_Bytes
begin

unbundle bit_operations_syntax

text \<open>
  \<^verbatim>\<open>hash/fnv\<close>: FNV-1 and FNV-1a at 32, 64 and 128 bits. A digest is its sum; \<open>sum128\<close> and \<open>sum128a\<close> are pairs of a high
  and a low word whose multiplication by the prime is put together from \<^verbatim>\<open>bits.Mul64\<close>.
\<close>

subsection \<open>The code\<close>

type_synonym sum128 = "uint64 \<times> uint64"

definition offset32 :: uint32 where "offset32 = 2166136261"
definition offset64 :: uint64 where "offset64 = 14695981039346656037"
definition offset128Lower :: uint64 where "offset128Lower = 0x62b821756295c58d"
definition offset128Higher :: uint64 where "offset128Higher = 0x6c62272e07bb0142"
definition prime32 :: uint32 where "prime32 = 16777619"
definition prime64 :: uint64 where "prime64 = 1099511628211"
definition prime128Lower :: uint64 where "prime128Lower = 0x13b"
definition prime128Shift :: nat where "prime128Shift = 24"

datatype fnv_error = FnvBadIdentifier | FnvBadSize

definition New32 :: uint32 where "New32 = offset32"
definition New32a :: uint32 where "New32a = offset32"
definition New64 :: uint64 where "New64 = offset64"
definition New64a :: uint64 where "New64a = offset64"
definition New128 :: sum128 where "New128 = (offset128Higher, offset128Lower)"
definition New128a :: sum128 where "New128a = (offset128Higher, offset128Lower)"

definition sum32_Reset :: "uint32 \<Rightarrow> uint32" where "sum32_Reset s = offset32"
definition sum32a_Reset :: "uint32 \<Rightarrow> uint32" where "sum32a_Reset s = offset32"
definition sum64_Reset :: "uint64 \<Rightarrow> uint64" where "sum64_Reset s = offset64"
definition sum64a_Reset :: "uint64 \<Rightarrow> uint64" where "sum64a_Reset s = offset64"
definition sum128_Reset :: "sum128 \<Rightarrow> sum128" where "sum128_Reset s = (offset128Higher, offset128Lower)"
definition sum128a_Reset :: "sum128 \<Rightarrow> sum128" where "sum128a_Reset s = (offset128Higher, offset128Lower)"

definition sum32_Write :: "byte list \<Rightarrow> uint32 \<Rightarrow> int \<times> uint32" where
  "sum32_Write data s = (int (length data), foldl (\<lambda>hash c. let hash = hash * prime32 in hash XOR ucast c) s data)"

definition sum32a_Write :: "byte list \<Rightarrow> uint32 \<Rightarrow> int \<times> uint32" where
  "sum32a_Write data s = (int (length data), foldl (\<lambda>hash c. let hash = hash XOR ucast c in hash * prime32) s data)"

definition sum64_Write :: "byte list \<Rightarrow> uint64 \<Rightarrow> int \<times> uint64" where
  "sum64_Write data s = (int (length data), foldl (\<lambda>hash c. let hash = hash * prime64 in hash XOR ucast c) s data)"

definition sum64a_Write :: "byte list \<Rightarrow> uint64 \<Rightarrow> int \<times> uint64" where
  "sum64a_Write data s = (int (length data), foldl (\<lambda>hash c. let hash = hash XOR ucast c in hash * prime64) s data)"

definition sum128_step :: "sum128 \<Rightarrow> byte \<Rightarrow> sum128" where
  "sum128_step s c =
     (let (s0, s1) = Mul64 prime128Lower (snd s);
          s0 = s0 + (push_bit prime128Shift (snd s) + prime128Lower * fst s)
      in (s0, s1 XOR ucast c))"

definition sum128_Write :: "byte list \<Rightarrow> sum128 \<Rightarrow> int \<times> sum128" where
  "sum128_Write data s = (int (length data), foldl sum128_step s data)"

definition sum128a_step :: "sum128 \<Rightarrow> byte \<Rightarrow> sum128" where
  "sum128a_step s c =
     (let s = (fst s, snd s XOR ucast c);
          (s0, s1) = Mul64 prime128Lower (snd s);
          s0 = s0 + (push_bit prime128Shift (snd s) + prime128Lower * fst s)
      in (s0, s1))"

definition sum128a_Write :: "byte list \<Rightarrow> sum128 \<Rightarrow> int \<times> sum128" where
  "sum128a_Write data s = (int (length data), foldl sum128a_step s data)"

definition sum32_Sum :: "uint32 \<Rightarrow> byte list \<Rightarrow> byte list" where
  "sum32_Sum v inp = inp @ [ucast (drop_bit 24 v), ucast (drop_bit 16 v), ucast (drop_bit 8 v), ucast v]"

definition sum64_Sum :: "uint64 \<Rightarrow> byte list \<Rightarrow> byte list" where
  "sum64_Sum v inp =
     inp @ [ucast (drop_bit 56 v), ucast (drop_bit 48 v), ucast (drop_bit 40 v), ucast (drop_bit 32 v),
            ucast (drop_bit 24 v), ucast (drop_bit 16 v), ucast (drop_bit 8 v), ucast v]"

definition sum128_Sum :: "sum128 \<Rightarrow> byte list \<Rightarrow> byte list" where
  "sum128_Sum s inp =
     inp @ [ucast (drop_bit 56 (fst s)), ucast (drop_bit 48 (fst s)), ucast (drop_bit 40 (fst s)), ucast (drop_bit 32 (fst s)),
            ucast (drop_bit 24 (fst s)), ucast (drop_bit 16 (fst s)), ucast (drop_bit 8 (fst s)), ucast (fst s),
            ucast (drop_bit 56 (snd s)), ucast (drop_bit 48 (snd s)), ucast (drop_bit 40 (snd s)), ucast (drop_bit 32 (snd s)),
            ucast (drop_bit 24 (snd s)), ucast (drop_bit 16 (snd s)), ucast (drop_bit 8 (snd s)), ucast (snd s)]"

definition magic32 :: "byte list" where "magic32 = [0x66, 0x6E, 0x76, 0x01]"
definition magic32a :: "byte list" where "magic32a = [0x66, 0x6E, 0x76, 0x02]"
definition magic64 :: "byte list" where "magic64 = [0x66, 0x6E, 0x76, 0x03]"
definition magic64a :: "byte list" where "magic64a = [0x66, 0x6E, 0x76, 0x04]"
definition magic128 :: "byte list" where "magic128 = [0x66, 0x6E, 0x76, 0x05]"
definition magic128a :: "byte list" where "magic128a = [0x66, 0x6E, 0x76, 0x06]"

definition marshaledSize32 :: int where "marshaledSize32 = int (length magic32) + 4"
definition marshaledSize64 :: int where "marshaledSize64 = int (length magic64) + 8"
definition marshaledSize128 :: int where "marshaledSize128 = int (length magic128) + 8 * 2"

definition sum32_MarshalBinary :: "uint32 \<Rightarrow> byte list" where
  "sum32_MarshalBinary s = (let b = [] @ magic32 in appendUint32 b s)"

definition sum32a_MarshalBinary :: "uint32 \<Rightarrow> byte list" where
  "sum32a_MarshalBinary s = (let b = [] @ magic32a in appendUint32 b s)"

definition sum64_MarshalBinary :: "uint64 \<Rightarrow> byte list" where
  "sum64_MarshalBinary s = (let b = [] @ magic64 in appendUint64 b s)"

definition sum64a_MarshalBinary :: "uint64 \<Rightarrow> byte list" where
  "sum64a_MarshalBinary s = (let b = [] @ magic64a in appendUint64 b s)"

definition sum128_MarshalBinary :: "sum128 \<Rightarrow> byte list" where
  "sum128_MarshalBinary s = (let b = [] @ magic128 in let b = appendUint64 b (fst s) in appendUint64 b (snd s))"

definition sum128a_MarshalBinary :: "sum128 \<Rightarrow> byte list" where
  "sum128a_MarshalBinary s = (let b = [] @ magic128a in let b = appendUint64 b (fst s) in appendUint64 b (snd s))"

definition sum32_UnmarshalBinary :: "byte list \<Rightarrow> uint32 \<Rightarrow> (uint32 \<times> fnv_error option) option" where
  "sum32_UnmarshalBinary b s =
     (if length b < length magic32 \<or> take (length magic32) b \<noteq> magic32 then Some (s, Some FnvBadIdentifier)
      else if int (length b) \<noteq> marshaledSize32 then Some (s, Some FnvBadSize)
      else do { v \<leftarrow> readUint32 (drop 4 b); Some (v, None) })"

definition sum32a_UnmarshalBinary :: "byte list \<Rightarrow> uint32 \<Rightarrow> (uint32 \<times> fnv_error option) option" where
  "sum32a_UnmarshalBinary b s =
     (if length b < length magic32a \<or> take (length magic32a) b \<noteq> magic32a then Some (s, Some FnvBadIdentifier)
      else if int (length b) \<noteq> marshaledSize32 then Some (s, Some FnvBadSize)
      else do { v \<leftarrow> readUint32 (drop 4 b); Some (v, None) })"

definition sum64_UnmarshalBinary :: "byte list \<Rightarrow> uint64 \<Rightarrow> (uint64 \<times> fnv_error option) option" where
  "sum64_UnmarshalBinary b s =
     (if length b < length magic64 \<or> take (length magic64) b \<noteq> magic64 then Some (s, Some FnvBadIdentifier)
      else if int (length b) \<noteq> marshaledSize64 then Some (s, Some FnvBadSize)
      else do { v \<leftarrow> readUint64 (drop 4 b); Some (v, None) })"

definition sum64a_UnmarshalBinary :: "byte list \<Rightarrow> uint64 \<Rightarrow> (uint64 \<times> fnv_error option) option" where
  "sum64a_UnmarshalBinary b s =
     (if length b < length magic64a \<or> take (length magic64a) b \<noteq> magic64a then Some (s, Some FnvBadIdentifier)
      else if int (length b) \<noteq> marshaledSize64 then Some (s, Some FnvBadSize)
      else do { v \<leftarrow> readUint64 (drop 4 b); Some (v, None) })"

definition sum128_UnmarshalBinary :: "byte list \<Rightarrow> sum128 \<Rightarrow> (sum128 \<times> fnv_error option) option" where
  "sum128_UnmarshalBinary b s =
     (if length b < length magic128 \<or> take (length magic128) b \<noteq> magic128 then Some (s, Some FnvBadIdentifier)
      else if int (length b) \<noteq> marshaledSize128 then Some (s, Some FnvBadSize)
      else do { s0 \<leftarrow> readUint64 (drop 4 b); s1 \<leftarrow> readUint64 (drop 12 b); Some ((s0, s1), None) })"

definition sum128a_UnmarshalBinary :: "byte list \<Rightarrow> sum128 \<Rightarrow> (sum128 \<times> fnv_error option) option" where
  "sum128a_UnmarshalBinary b s =
     (if length b < length magic128a \<or> take (length magic128a) b \<noteq> magic128a then Some (s, Some FnvBadIdentifier)
      else if int (length b) \<noteq> marshaledSize128 then Some (s, Some FnvBadSize)
      else do { s0 \<leftarrow> readUint64 (drop 4 b); s1 \<leftarrow> readUint64 (drop 12 b); Some ((s0, s1), None) })"

subsection \<open>Multiplication by the 128-bit prime\<close>

definition value128 :: "sum128 \<Rightarrow> int" where
  "value128 s = uint (fst s) * 2 ^ 64 + uint (snd s)"

definition prime128 :: int where
  "prime128 = 2 ^ 88 + 0x13b"

lemma value128_bounds: "0 \<le> value128 s" "value128 s < 2 ^ 128"
  using uint64_bounds [of "fst s"] uint64_bounds [of "snd s"] by (simp_all add: value128_def)

lemma mul128:
  assumes "Mul64 prime128Lower x = (hi, lo)"
  shows "value128 (hi + (push_bit prime128Shift x + prime128Lower * y), lo) = (uint y * 2 ^ 64 + uint x) * prime128 mod 2 ^ 128"
proof -
  have m: "0x13b * uint x = uint hi * 2 ^ 64 + uint lo"
    using Mul64_ok [of prime128Lower x] assms by (simp add: prime128Lower_def)
  define z where "z = uint hi + (uint x * 2 ^ 24 + 0x13b * uint y)"
  have "uint (hi + (push_bit prime128Shift x + prime128Lower * y)) = z mod 2 ^ 64"
    unfolding z_def prime128Shift_def prime128Lower_def push_bit_eq_mult uint_word_ariths by (simp add: mod_simps mult.commute)
  moreover have "(uint y * 2 ^ 64 + uint x) * prime128 = z * 2 ^ 64 + uint lo + uint y * 2 ^ 24 * 2 ^ 128"
    using m by (simp add: z_def prime128_def algebra_simps)
  moreover have "(z * 2 ^ 64 + uint lo + k * 2 ^ 128) mod 2 ^ 128 = (z mod 2 ^ 64) * 2 ^ 64 + uint lo" for k
  proof -
    have "(z * 2 ^ 64 + uint lo + k * 2 ^ 128) mod 2 ^ 128 = (z * 2 ^ 64 + uint lo) mod (2 ^ 64 * 2 ^ 64)" by simp
    also have "\<dots> = 2 ^ 64 * ((z * 2 ^ 64 + uint lo) div 2 ^ 64 mod 2 ^ 64) + (z * 2 ^ 64 + uint lo) mod 2 ^ 64"
      by (rule zmod_zmult2_eq) simp
    finally show ?thesis using uint64_bounds [of lo] by simp
  qed
  ultimately show ?thesis by (simp only: value128_def fst_conv snd_conv)
qed

lemma xor_low:
  fixes a b c :: int
  assumes "0 \<le> b" "b < 2 ^ k" "0 \<le> c" "c < 2 ^ k" "2 ^ k dvd a"
  shows "(a + b) XOR c = a + (b XOR c)"
proof -
  have t: "take_bit k b = b" "take_bit k c = c" using assms by (simp_all add: take_bit_int_eq_self)
  then have "take_bit k (b XOR c) = b XOR c" by simp
  then have "0 \<le> b XOR c" "b XOR c < 2 ^ k" by (metis take_bit_nonnegative) (metis \<open>take_bit k (b XOR c) = b XOR c\<close> take_bit_int_less_exp)
  then have e: "a OR b = a + b" "a OR (b XOR c) = a + (b XOR c)" using or_plus_int assms by blast+
  obtain d where d: "a = push_bit k d" using assms(5) by (auto simp: push_bit_eq_mult elim!: dvdE)
  have "(a OR b) XOR c = a OR (b XOR c)"
  proof (rule bit_eqI)
    fix n
    have "\<not> bit c n" if "k \<le> n" using t(2) that by (metis bit_take_bit_iff not_le)
    then show "bit ((a OR b) XOR c) n = bit (a OR (b XOR c)) n"
      by (cases "k \<le> n") (auto simp: bit_or_iff bit_xor_iff d bit_push_bit_iff)
  qed
  then show ?thesis by (simp only: e)
qed

lemma value128_xor: "value128 (h, l XOR ucast (c :: byte)) = value128 (h, l) XOR uint c"
proof -
  have "uint (ucast c :: uint64) = uint c" using uint_byte [of c] by (simp add: unsigned_ucast_eq take_bit_int_eq_self)
  then show ?thesis
    using xor_low [of "uint l" 64 "uint c" "uint h * 2 ^ 64"] uint64_bounds [of l] uint_byte [of c]
    by (simp add: value128_def unsigned_xor_eq)
qed

lemma sum128_step_eq: "value128 (sum128_step s c) = (value128 s * prime128 mod 2 ^ 128) XOR uint c"
  using mul128 [of "snd s" _ _ "fst s"]
  by (auto simp: sum128_step_def Let_def value128_xor split: prod.splits) (simp add: value128_def)

lemma sum128a_step_eq: "value128 (sum128a_step s c) = (value128 s XOR uint c) * prime128 mod 2 ^ 128"
  using mul128 [of "snd s XOR ucast c" _ _ "fst s"] value128_xor [of "fst s" "snd s" c]
  by (auto simp: sum128a_step_def Let_def value128_def split: prod.splits)

subsection \<open>The contract of a hash\<close>

lemma sum32_restore: "sum32_UnmarshalBinary (sum32_MarshalBinary d) e = Some (d, None)"
  using readUint32_append [of d "[]"]
  by (simp add: sum32_UnmarshalBinary_def sum32_MarshalBinary_def Let_def magic32_def marshaledSize32_def magic32_def
      appendUint32_def)

interpretation fnv32: hash_contract sum32_Write sum32_MarshalBinary sum32_UnmarshalBinary "\<lambda>d e. True"
  by unfold_locales (simp_all add: sum32_Write_def sum32_restore)

lemma sum32a_restore: "sum32a_UnmarshalBinary (sum32a_MarshalBinary d) e = Some (d, None)"
  using readUint32_append [of d "[]"]
  by (simp add: sum32a_UnmarshalBinary_def sum32a_MarshalBinary_def Let_def magic32a_def marshaledSize32_def magic32_def
      appendUint32_def)

interpretation fnv32a: hash_contract sum32a_Write sum32a_MarshalBinary sum32a_UnmarshalBinary "\<lambda>d e. True"
  by unfold_locales (simp_all add: sum32a_Write_def sum32a_restore)

lemma sum64_restore: "sum64_UnmarshalBinary (sum64_MarshalBinary d) e = Some (d, None)"
  using readUint64_append [of d "[]"]
  by (simp add: sum64_UnmarshalBinary_def sum64_MarshalBinary_def Let_def magic64_def marshaledSize64_def magic64_def
      appendUint64_def)

interpretation fnv64: hash_contract sum64_Write sum64_MarshalBinary sum64_UnmarshalBinary "\<lambda>d e. True"
  by unfold_locales (simp_all add: sum64_Write_def sum64_restore)

lemma sum64a_restore: "sum64a_UnmarshalBinary (sum64a_MarshalBinary d) e = Some (d, None)"
  using readUint64_append [of d "[]"]
  by (simp add: sum64a_UnmarshalBinary_def sum64a_MarshalBinary_def Let_def magic64a_def marshaledSize64_def magic64_def
      appendUint64_def)

interpretation fnv64a: hash_contract sum64a_Write sum64a_MarshalBinary sum64a_UnmarshalBinary "\<lambda>d e. True"
  by unfold_locales (simp_all add: sum64a_Write_def sum64a_restore)

lemma sum128_restore: "sum128_UnmarshalBinary (sum128_MarshalBinary d) e = Some (d, None)"
  using readUint64_append [of "fst d" "appendUint64 [] (snd d)"] readUint64_append [of "snd d" "[]"]
  by (simp add: sum128_UnmarshalBinary_def sum128_MarshalBinary_def Let_def magic128_def marshaledSize128_def magic128_def
      appendUint64_def)

interpretation fnv128: hash_contract sum128_Write sum128_MarshalBinary sum128_UnmarshalBinary "\<lambda>d e. True"
  by unfold_locales (simp_all add: sum128_Write_def sum128_restore)

lemma sum128a_restore: "sum128a_UnmarshalBinary (sum128a_MarshalBinary d) e = Some (d, None)"
  using readUint64_append [of "fst d" "appendUint64 [] (snd d)"] readUint64_append [of "snd d" "[]"]
  by (simp add: sum128a_UnmarshalBinary_def sum128a_MarshalBinary_def Let_def magic128a_def marshaledSize128_def magic128_def
      appendUint64_def)

interpretation fnv128a: hash_contract sum128a_Write sum128a_MarshalBinary sum128a_UnmarshalBinary "\<lambda>d e. True"
  by unfold_locales (simp_all add: sum128a_Write_def sum128a_restore)

end
