(* ===== verification/Hash_Properties.thy ===== *)
theory Hash_Properties
  imports Adler32 Crc64 Fnv
begin

unbundle bit_operations_syntax

text \<open>The properties of Adler-32, CRC-64 and FNV, and of the contract all of them meet.\<close>

lemma adler_restore: "adler_UnmarshalBinary (adler_MarshalBinary d) e = Some (d, None)"
  using readUint32_append [of d "[]"]
  by (simp add: adler_UnmarshalBinary_def adler_MarshalBinary_def adler_magic_def adler_marshaledSize_def
      appendUint32_def)

lemma adler_update_append: "adler_update d (p @ q) = adler_update (adler_update d p) q"
proof (cases "p = [] \<or> q = []")
  case True
  then show ?thesis by (auto simp: adler_update_Nil)
next
  case False
  let ?m = "adler_update d p" and ?a = "adler_update (adler_update d p) q" and ?b = "adler_update d (p @ q)"
  have p: "uint ?m mod 65536 = (uint d mod 65536 + byte_sum p) mod adler_prime"
    "uint ?m div 65536 = (uint d div 65536 + int (length p) * (uint d mod 65536) + prefix_sum p) mod adler_prime"
    by (rule adler_update_halves; use False in simp)+
  have q: "uint ?a mod 65536 = (uint ?m mod 65536 + byte_sum q) mod adler_prime"
    "uint ?a div 65536 = (uint ?m div 65536 + int (length q) * (uint ?m mod 65536) + prefix_sum q) mod adler_prime"
    by (rule adler_update_halves; use False in simp)+
  have b: "uint ?b mod 65536 = (uint d mod 65536 + byte_sum (p @ q)) mod adler_prime"
    "uint ?b div 65536 = (uint d div 65536 + int (length (p @ q)) * (uint d mod 65536) + prefix_sum (p @ q)) mod adler_prime"
    by (rule adler_update_halves; use False in simp)+
  have "uint ?a mod 65536 = uint ?b mod 65536"
    unfolding q p b byte_sum_append mod_add_left_eq by (simp only: ac_simps)
  moreover have "uint ?a div 65536 = uint ?b div 65536"
    unfolding q p b mod_sum_cong byte_sum_append prefix_sum_append length_append of_nat_add by (simp only: algebra_simps)
  ultimately have "uint ?a = uint ?b" by (metis div_mult_mod_eq)
  then show ?thesis by (simp only: word_uint_eq_iff)
qed

interpretation adler: hash_contract adler_Write adler_MarshalBinary adler_UnmarshalBinary "\<lambda>d e. True"
  by unfold_locales (simp_all add: adler_Write_def adler_update_Nil adler_update_append adler_restore)

subsection \<open>Properties\<close>

text \<open>
  C11 (Adler-32 is exact). For every digest and every non-empty slice, of any length, the update computes the two sums of
  RFC 1950 modulo 65521: no 32-bit addition of the unrolled loop wraps in a block of 5552 bytes, even when the digest was
  restored with halves that are not reduced. The empty slice leaves the digest alone.
\<close>

theorem adler_update_exact:
  "(p \<noteq> [] \<longrightarrow> uint (adler_update d p)
      = ((uint d div 65536 + int (length p) * (uint d mod 65536) + prefix_sum p) mod 65521) * 65536
        + (uint d mod 65536 + byte_sum p) mod 65521)
   \<and> (p = [] \<longrightarrow> adler_update d p = d)"
proof (intro conjI impI)
  assume "p \<noteq> []"
  show "uint (adler_update d p)
      = ((uint d div 65536 + int (length p) * (uint d mod 65536) + prefix_sum p) mod 65521) * 65536
        + (uint d mod 65536 + byte_sum p) mod 65521"
    unfolding adler_update_halves [OF \<open>p \<noteq> []\<close>, symmetric] by (rule div_mult_mod_eq [symmetric])
qed (simp add: adler_update_Nil)

theorem adler_update_exact_witness:
  "uint (adler_update 0xFFFFFFFF [1, 2]) = ((65535 + 2 * 65535 + 4) mod 65521) * 65536 + (65535 + 3) mod 65521"
  using adler_update_exact [of "[1, 2]" "0xFFFFFFFF"] by simp

text \<open>
  C35 (CRC-64 is exact). Whatever way the code takes, table by table or eight bytes at a time with one of the prepared or a
  freshly made helper table, the update for a polynomial computes the bit-serial checksum.
\<close>

theorem crc64_update_exact: "crc64_Update c (crc64_MakeTable poly) p = crc_reference poly c p"
  by (simp add: crc64_Update_def crc64_MakeTable_eq crc64_update_eq)

text \<open>
  FNV at 128 bits is exact. The two-word multiplication of both 128-bit variants is the multiplication by the prime
  modulo 2 to the power of 128, for every state and every slice.
\<close>

theorem fnv128_exact:
  "value128 (snd (sum128_Write p s)) = foldl (\<lambda>v c. (v * prime128 mod 2 ^ 128) XOR uint c) (value128 s) p
   \<and> value128 (snd (sum128a_Write p s)) = foldl (\<lambda>v c. (v XOR uint c) * prime128 mod 2 ^ 128) (value128 s) p"
proof -
  have "value128 (foldl sum128_step s p) = foldl (\<lambda>v c. (v * prime128 mod 2 ^ 128) XOR uint c) (value128 s) p"
    by (induction p arbitrary: s) (simp_all add: sum128_step_eq)
  moreover have "value128 (foldl sum128a_step s p) = foldl (\<lambda>v c. (v XOR uint c) * prime128 mod 2 ^ 128) (value128 s) p"
    by (induction p arbitrary: s) (simp_all add: sum128a_step_eq)
  ultimately show ?thesis by (simp add: sum128_Write_def sum128a_Write_def)
qed

text \<open>
  Hashes can be interrupted and resumed. Writing slices into a digest, marshalling it, unmarshalling the state into
  any other digest of the same kind and writing on gives the digest that one Write of all the bytes gives: for Adler-32,
  for CRC-64 with any polynomial, and for all six FNV hashes.
\<close>

theorem hash_resume:
  "resumes adler_Write adler_MarshalBinary adler_UnmarshalBinary d e ps qs
   \<and> (crc64_fits c c0 \<longrightarrow> resumes crc64_Write crc64_MarshalBinary crc64_UnmarshalBinary c c0 ps qs)
   \<and> resumes sum32_Write sum32_MarshalBinary sum32_UnmarshalBinary d e ps qs
   \<and> resumes sum32a_Write sum32a_MarshalBinary sum32a_UnmarshalBinary d e ps qs
   \<and> resumes sum64_Write sum64_MarshalBinary sum64_UnmarshalBinary f g ps qs
   \<and> resumes sum64a_Write sum64a_MarshalBinary sum64a_UnmarshalBinary f g ps qs
   \<and> resumes sum128_Write sum128_MarshalBinary sum128_UnmarshalBinary h i ps qs
   \<and> resumes sum128a_Write sum128a_MarshalBinary sum128a_UnmarshalBinary h i ps qs"
  by (intro conjI impI adler.resume crc64.resume fnv32.resume fnv32a.resume fnv64.resume fnv64a.resume fnv128.resume
      fnv128a.resume TrueI)

theorem hash_resume_witness:
  "resumes crc64_Write crc64_MarshalBinary crc64_UnmarshalBinary (crc64_New (crc64_MakeTable ECMA))
     (crc64_New (crc64_MakeTable ECMA)) [[1], [2]] [[3]]"
proof -
  have "crc64_fits (crc64_New (crc64_MakeTable ECMA)) (crc64_New (crc64_MakeTable ECMA))"
    by (auto simp: crc64_fits_def crc64_New_def crc64_MakeTable_eq)
  then show ?thesis using hash_resume by blast
qed

end
