(* ===== verification/Path.thy ===== *)
theory Path
  imports Go_Words
begin

text \<open>
  \<^verbatim>\<open>path\<close>: slash-separated paths (path.go). The lazily allocated buffer is a record; reading or writing beyond it is a panic.
\<close>

abbreviation slash :: byte where "slash \<equiv> 0x2F"
abbreviation dot :: byte where "dot \<equiv> 0x2E"

subsection \<open>The lazy buffer\<close>

record lazybuf =
  lb_s :: "byte list"
  lb_buf :: "byte list option"
  lb_w :: int

definition lb_index :: "lazybuf \<Rightarrow> int \<Rightarrow> byte option" where
  "lb_index b i = (case lb_buf b of Some buf \<Rightarrow> idx buf i | None \<Rightarrow> idx (lb_s b) i)"

definition lb_append :: "lazybuf \<Rightarrow> byte \<Rightarrow> lazybuf option" where
  "lb_append b c =
     (case lb_buf b of
        None \<Rightarrow>
          do {
            same \<leftarrow> (if lb_w b < int (length (lb_s b)) then do { x \<leftarrow> idx (lb_s b) (lb_w b); Some (x = c) } else Some False);
            if same then Some (b\<lparr>lb_w := lb_w b + 1\<rparr>)
            else do {
              let buf = take (nat (lb_w b)) (lb_s b) @ replicate (length (lb_s b) - nat (lb_w b)) 0;
              buf \<leftarrow> upd buf (lb_w b) c;
              Some (b\<lparr>lb_buf := Some buf, lb_w := lb_w b + 1\<rparr>)
            }
          }
      | Some buf \<Rightarrow> do { buf \<leftarrow> upd buf (lb_w b) c; Some (b\<lparr>lb_buf := Some buf, lb_w := lb_w b + 1\<rparr>) })"

definition lb_string :: "lazybuf \<Rightarrow> byte list" where
  "lb_string b = (case lb_buf b of None \<Rightarrow> take (nat (lb_w b)) (lb_s b) | Some buf \<Rightarrow> take (nat (lb_w b)) buf)"

subsection \<open>Clean\<close>

text \<open>The backtracking loop, the copying loop, and the main loop of \<^verbatim>\<open>Clean\<close>.\<close>

function Clean_back :: "lazybuf \<Rightarrow> int \<Rightarrow> lazybuf option" where
  "Clean_back out dotdot =
     (if lb_w out > dotdot then
        do {
          c \<leftarrow> lb_index out (lb_w out);
          if c \<noteq> slash then Clean_back (out\<lparr>lb_w := lb_w out - 1\<rparr>) dotdot else Some out
        }
      else Some out)"
  by pat_completeness auto
termination by (relation "measure (\<lambda>(out, dotdot). nat (lb_w out - dotdot))") auto

declare Clean_back.simps [simp del]

function Clean_copy :: "byte list \<Rightarrow> lazybuf \<Rightarrow> int \<Rightarrow> (lazybuf \<times> int) option" where
  "Clean_copy path out r =
     (if r < int (length path) then
        do {
          c \<leftarrow> idx path r;
          if c \<noteq> slash then do { out \<leftarrow> lb_append out c; Clean_copy path out (r + 1) } else Some (out, r)
        }
      else Some (out, r))"
  by pat_completeness auto
termination by (relation "measure (\<lambda>(path, out, r). nat (int (length path) - r))") auto

declare Clean_copy.simps [simp del]

definition Clean_dotdot :: "bool \<Rightarrow> lazybuf \<Rightarrow> int \<Rightarrow> (lazybuf \<times> int) option" where
  "Clean_dotdot rooted out dotdot =
     (if lb_w out > dotdot then
        do { out \<leftarrow> Clean_back (out\<lparr>lb_w := lb_w out - 1\<rparr>) dotdot; Some (out, dotdot) }
      else if \<not> rooted then
        do {
          out \<leftarrow> (if lb_w out > 0 then lb_append out slash else Some out);
          out \<leftarrow> lb_append out dot;
          out \<leftarrow> lb_append out dot;
          Some (out, lb_w out)
        }
      else Some (out, dotdot))"

partial_function (option) Clean_loop :: "byte list \<Rightarrow> bool \<Rightarrow> lazybuf \<Rightarrow> int \<Rightarrow> int \<Rightarrow> lazybuf option" where
  "Clean_loop path rooted out r dotdot =
     (let n = int (length path) in
      if r < n then
        do {
          c \<leftarrow> idx path r;
          if c = slash then Clean_loop path rooted out (r + 1) dotdot
          else do {
            single \<leftarrow> (if c = dot then if r + 1 = n then Some True else do { d \<leftarrow> idx path (r + 1); Some (d = slash) } else Some False);
            if single then Clean_loop path rooted out (r + 1) dotdot
            else do {
              double \<leftarrow> (if c = dot then do {
                           d \<leftarrow> idx path (r + 1);
                           if d = dot then if r + 2 = n then Some True else do { e \<leftarrow> idx path (r + 2); Some (e = slash) } else Some False
                         } else Some False);
              if double then do { (out, dotdot) \<leftarrow> Clean_dotdot rooted out dotdot; Clean_loop path rooted out (r + 2) dotdot }
              else do {
                out \<leftarrow> (if rooted \<and> lb_w out \<noteq> 1 \<or> \<not> rooted \<and> lb_w out \<noteq> 0 then lb_append out slash else Some out);
                (out, r) \<leftarrow> Clean_copy path out r;
                Clean_loop path rooted out r dotdot
              }
            }
          }
        }
      else Some out)"

declare Clean_loop.simps [code]

definition Clean :: "byte list \<Rightarrow> byte list option" where
  "Clean path =
     (if path = [] then Some [dot]
      else do {
        c \<leftarrow> idx path 0;
        let rooted = (c = slash);
        let out = \<lparr> lb_s = path, lb_buf = None, lb_w = 0 \<rparr>;
        (out, r, dotdot) \<leftarrow> (if rooted then do { out \<leftarrow> lb_append out slash; Some (out, 1, 1) } else Some (out, 0, 0));
        out \<leftarrow> Clean_loop path rooted out r dotdot;
        if lb_w out = 0 then Some [dot] else Some (lb_string out)
      })"

subsection \<open>The other functions\<close>

function lastSlash_loop :: "byte list \<Rightarrow> int \<Rightarrow> int option" where
  "lastSlash_loop s i =
     (if i \<ge> 0 then do { c \<leftarrow> idx s i; if c \<noteq> slash then lastSlash_loop s (i - 1) else Some i } else Some i)"
  by pat_completeness auto
termination by (relation "measure (\<lambda>(s, i). nat (i + 1))") auto

declare lastSlash_loop.simps [simp del]

definition lastSlash :: "byte list \<Rightarrow> int option" where
  "lastSlash s = lastSlash_loop s (int (length s) - 1)"

definition path_Split :: "byte list \<Rightarrow> (byte list \<times> byte list) option" where
  "path_Split path = do { i \<leftarrow> lastSlash path; Some (take (nat (i + 1)) path, drop (nat (i + 1)) path) }"

definition Join_buf :: "byte list list \<Rightarrow> byte list" where
  "Join_buf elem =
     foldl (\<lambda>buf e. if length buf > 0 \<or> e \<noteq> [] then (let buf = (if length buf > 0 then buf @ [slash] else buf) in buf @ e) else buf) [] elem"

definition path_Join :: "byte list list \<Rightarrow> byte list option" where
  "path_Join elem =
     (let size = foldl (\<lambda>size e. size + int (length e)) 0 elem
      in if size = 0 then Some [] else Clean (Join_buf elem))"

function Ext_loop :: "byte list \<Rightarrow> int \<Rightarrow> byte list option" where
  "Ext_loop path i =
     (if i \<ge> 0 then
        do {
          c \<leftarrow> idx path i;
          if c \<noteq> slash then if c = dot then Some (drop (nat i) path) else Ext_loop path (i - 1)
          else Some []
        }
      else Some [])"
  by pat_completeness auto
termination by (relation "measure (\<lambda>(path, i). nat (i + 1))") auto

declare Ext_loop.simps [simp del]

definition Ext :: "byte list \<Rightarrow> byte list option" where
  "Ext path = Ext_loop path (int (length path) - 1)"

function Base_strip :: "byte list \<Rightarrow> byte list option" where
  "Base_strip path =
     (if length path > 0 then
        do {
          c \<leftarrow> idx path (int (length path) - 1);
          if c = slash then Base_strip (take (length path - 1) path) else Some path
        }
      else Some path)"
  by pat_completeness auto
termination by (relation "measure length") auto

declare Base_strip.simps [simp del]

definition Base :: "byte list \<Rightarrow> byte list option" where
  "Base path =
     (if path = [] then Some [dot]
      else do {
        path \<leftarrow> Base_strip path;
        i \<leftarrow> lastSlash path;
        let path = (if i \<ge> 0 then drop (nat (i + 1)) path else path);
        if path = [] then Some [slash] else Some path
      })"

definition IsAbs :: "byte list \<Rightarrow> bool option" where
  "IsAbs path = (if length path > 0 then do { c \<leftarrow> idx path 0; Some (c = slash) } else Some False)"

definition Dir :: "byte list \<Rightarrow> byte list option" where
  "Dir path = do { (dir, _) \<leftarrow> path_Split path; Clean dir }"

end
