(* ===== verification/Path_Clean.thy ===== *)
theory Path_Clean
  imports Path
begin

text \<open>
  What \<^verbatim>\<open>Clean\<close> computes: the elements of the path are pushed on a stack from which dot-dot elements pop. The loop over
  the bytes with its in-place buffer is related to the stack by an invariant.
\<close>

subsection \<open>The specification\<close>

fun elems :: "byte list \<Rightarrow> byte list list" where
  "elems [] = [[]]"
| "elems (c # s) = (if c = slash then [] # elems s else (c # hd (elems s)) # tl (elems s))"

abbreviation dotdot_elem :: "byte list" where "dotdot_elem \<equiv> [dot, dot]"

definition clean_elem :: "bool \<Rightarrow> byte list list \<Rightarrow> byte list \<Rightarrow> byte list list" where
  "clean_elem rooted st e =
     (if e = [] \<or> e = [dot] then st
      else if e = dotdot_elem then
        if st \<noteq> [] \<and> last st \<noteq> dotdot_elem then butlast st else if rooted then st else st @ [e]
      else st @ [e])"

fun path_join :: "byte list list \<Rightarrow> byte list" where
  "path_join [] = []"
| "path_join [e] = e"
| "path_join (e # es) = e @ slash # path_join es"

definition render :: "bool \<Rightarrow> byte list list \<Rightarrow> byte list" where
  "render rooted st = (if rooted then [slash] else []) @ path_join st"

definition is_rooted :: "byte list \<Rightarrow> bool" where
  "is_rooted path \<longleftrightarrow> path \<noteq> [] \<and> hd path = slash"

definition clean_stack :: "byte list \<Rightarrow> byte list list" where
  "clean_stack path = foldl (clean_elem (is_rooted path)) [] (elems path)"

definition clean_spec :: "byte list \<Rightarrow> byte list" where
  "clean_spec path = (let s = render (is_rooted path) (clean_stack path) in if s = [] then [dot] else s)"

text \<open>
  A stack the loop can be in: \<open>k\<close> dot-dot elements at the bottom, none in a rooted path, and real elements above them.
\<close>

definition real_elem :: "byte list \<Rightarrow> bool" where
  "real_elem e \<longleftrightarrow> e \<noteq> [] \<and> e \<noteq> [dot] \<and> e \<noteq> dotdot_elem \<and> slash \<notin> set e"

abbreviation dots :: "nat \<Rightarrow> byte list list" where
  "dots k \<equiv> replicate k dotdot_elem"

definition canon :: "bool \<Rightarrow> nat \<Rightarrow> byte list list \<Rightarrow> bool" where
  "canon rooted k ys \<longleftrightarrow> (\<forall>e \<in> set ys. real_elem e) \<and> (rooted \<longrightarrow> k = 0)"

lemma elems_not_Nil [simp]: "elems s \<noteq> []"
  by (cases s) simp_all

lemma elems_slash: "slash \<notin> set e \<Longrightarrow> elems (e @ slash # s) = e # elems s"
  by (induction e) auto

lemma elems_append: "elems (s @ slash # t) = elems s @ elems t"
  by (induction s) simp_all

lemma elems_end: "slash \<notin> set e \<Longrightarrow> elems e = [e]"
  by (induction e) auto

lemma foldl_elems:
  assumes "slash \<notin> set e" "s = [] \<or> (\<exists>t. s = slash # t)"
  shows "foldl (clean_elem rooted) st (elems (e @ s)) = foldl (clean_elem rooted) (clean_elem rooted st e) (elems s)"
  using assms(2)
proof
  assume "s = []"
  then show ?thesis using assms(1) by (simp add: elems_end clean_elem_def)
next
  assume "\<exists>t. s = slash # t"
  then obtain t where "s = slash # t" by blast
  then show ?thesis using assms(1) by (simp add: elems_slash) (simp add: clean_elem_def)
qed

lemma foldl_elems_slash: "foldl (clean_elem rooted) st (elems (slash # s)) = foldl (clean_elem rooted) st (elems s)"
  by (simp add: clean_elem_def)

lemma path_join_snoc: "path_join (st @ [e]) = (if st = [] then e else path_join st @ slash # e)"
  by (induction st rule: path_join.induct) auto

lemma render_snoc: "render rooted (st @ [e]) = (if st = [] then render rooted [] @ e else render rooted st @ slash # e)"
  by (simp add: render_def path_join_snoc)

lemma render_append_le: "length (render rooted st) \<le> length (render rooted (st @ st'))"
proof (induction st' rule: rev_induct)
  case (snoc e st')
  have "length (render rooted (st @ st')) \<le> length (render rooted ((st @ st') @ [e]))"
    unfolding render_snoc by simp
  then show ?case using snoc by simp
qed simp

lemma clean_elem_skip [simp]: "clean_elem rooted st [] = st" "clean_elem rooted st [dot] = st"
  by (simp_all add: clean_elem_def)

lemma clean_elem_push: "real_elem e \<Longrightarrow> clean_elem rooted st e = st @ [e]"
  by (simp add: clean_elem_def real_elem_def)

lemma clean_elem_pop: "real_elem e \<Longrightarrow> clean_elem rooted (st @ [e]) dotdot_elem = st"
  by (simp add: clean_elem_def real_elem_def)

lemma clean_elem_dots:
  "clean_elem True [] dotdot_elem = []" "clean_elem False (dots k) dotdot_elem = dots (Suc k)"
  by (cases k; simp add: clean_elem_def replicate_append_same)+

lemma canon_Nil [simp]: "canon rooted 0 []"
  by (simp add: canon_def)

lemma canon_elems:
  assumes "canon rooted k ys" "e \<in> set (dots k @ ys)"
  shows "e \<noteq> []" "slash \<notin> set e"
proof -
  consider "e = dotdot_elem" | "real_elem e" using assms by (auto simp: canon_def)
  then show "e \<noteq> []" "slash \<notin> set e" by (cases; simp add: real_elem_def)+
qed

lemma canon_push: "canon rooted k ys \<Longrightarrow> real_elem e \<Longrightarrow> canon rooted k (ys @ [e])"
  by (auto simp: canon_def)

lemma canon_pop: "canon rooted k (ys @ [e]) \<Longrightarrow> canon rooted k ys \<and> real_elem e"
  by (auto simp: canon_def)

subsection \<open>The buffer\<close>

definition lb_bytes :: "lazybuf \<Rightarrow> byte list" where
  "lb_bytes b = (case lb_buf b of None \<Rightarrow> lb_s b | Some buf \<Rightarrow> buf)"

definition lb_ok :: "byte list \<Rightarrow> lazybuf \<Rightarrow> bool" where
  "lb_ok path b \<longleftrightarrow> lb_s b = path \<and> length (lb_bytes b) = length path \<and> 0 \<le> lb_w b \<and> lb_w b \<le> int (length path)"

definition holds :: "byte list \<Rightarrow> lazybuf \<Rightarrow> byte list \<Rightarrow> bool" where
  "holds path b out \<longleftrightarrow> lb_ok path b \<and> lb_w b = int (length out) \<and> take (length out) (lb_bytes b) = out"

lemma lb_index_eq: "lb_index b i = idx (lb_bytes b) i"
  by (simp add: lb_index_def lb_bytes_def split: option.split)

lemma holds_string: "holds path b out \<Longrightarrow> lb_string b = out"
  by (auto simp: holds_def lb_string_def lb_bytes_def split: option.splits)

lemma holds_append:
  assumes "holds path b out" "length out < length path"
  obtains b' where "lb_append b c = Some b'" "holds path b' (out @ [c])"
proof (cases "lb_buf b")
  case None
  with assms have b: "lb_s b = path" "lb_w b = int (length out)" "take (length out) path = out"
    by (auto simp: holds_def lb_ok_def lb_bytes_def)
  show ?thesis
  proof (cases "path ! length out = c")
    case True
    then have "take (Suc (length out)) path = out @ [c]" using assms(2) b(3) by (simp add: take_Suc_conv_app_nth)
    with True None assms(2) b show ?thesis
      by (intro that [of "b\<lparr>lb_w := lb_w b + 1\<rparr>"]) (simp_all add: lb_append_def holds_def lb_ok_def lb_bytes_def)
  next
    case False
    let ?buf = "(take (length out) path @ replicate (length path - length out) 0)[length out := c]"
    have "take (Suc (length out)) ?buf = out @ [c]" "length ?buf = length path"
      using assms(2) b(3) by (simp_all add: take_Suc_conv_app_nth)
    with False None assms(2) b show ?thesis
      by (intro that [of "b\<lparr>lb_buf := Some ?buf, lb_w := lb_w b + 1\<rparr>"])
        (simp_all add: lb_append_def holds_def lb_ok_def lb_bytes_def)
  qed
next
  case (Some buf)
  with assms have b: "lb_s b = path" "lb_w b = int (length out)" "take (length out) buf = out" "length buf = length path"
    by (simp_all add: holds_def lb_ok_def lb_bytes_def)
  then have "take (Suc (length out)) (buf[length out := c]) = out @ [c]" using assms(2) by (simp add: take_Suc_conv_app_nth)
  with Some assms(2) b show ?thesis
    by (intro that [of "b\<lparr>lb_buf := Some (buf[length out := c]), lb_w := lb_w b + 1\<rparr>"])
      (simp_all add: lb_append_def holds_def lb_ok_def lb_bytes_def)
qed

text \<open>Moving the write index back drops the end; the bytes behind it can still be read.\<close>

lemma holds_cut: "holds path b (out @ e) \<Longrightarrow> holds path (b\<lparr>lb_w := int (length out)\<rparr>) out"
proof -
  assume h: "holds path b (out @ e)"
  have "take (length out) (lb_bytes b) = take (length out) (take (length (out @ e)) (lb_bytes b))" by simp
  also have "\<dots> = out" using h unfolding holds_def by simp
  finally show ?thesis using h by (auto simp: holds_def lb_ok_def lb_bytes_def split: option.splits)
qed

lemma holds_index:
  assumes "holds path b out" "j < length out"
  shows "lb_index b (int j) = Some (out ! j)"
proof -
  have "length out \<le> length (lb_bytes b)" "take (length out) (lb_bytes b) = out"
    using assms(1) by (auto simp: holds_def lb_ok_def)
  then show ?thesis using assms(2) by (simp add: lb_index_eq) (metis nth_take)
qed

lemma lb_index_w [simp]: "lb_index (b\<lparr>lb_w := w\<rparr>) i = lb_index b i"
  by (simp add: lb_index_def split: option.split)

text \<open>The backtracking loop stops at the separator in front of the last element, or at \<open>dotdot\<close>.\<close>

lemma Clean_back_ok:
  assumes "holds path b (p @ e)" "slash \<notin> set e" "j < length e"
    "int (length p) = dotdot \<or> (\<exists>p'. p = p' @ [slash] \<and> dotdot \<le> int (length p'))"
  shows "Clean_back (b\<lparr>lb_w := int (length p + j)\<rparr>) dotdot
    = Some (b\<lparr>lb_w := if int (length p) = dotdot then int (length p) else int (length p) - 1\<rparr>)"
  using assms(3)
proof (induction j)
  case 0
  show ?case
  proof (cases "int (length p) = dotdot")
    case True
    then show ?thesis by (subst Clean_back.simps) simp
  next
    case False
    then obtain p' where p': "p = p' @ [slash]" "dotdot \<le> int (length p')" using assms(4) by blast
    have "lb_index b (int (length p)) = Some (e ! 0)"
      using holds_index [OF assms(1), of "length p"] 0 by (simp add: nth_append)
    moreover have "e ! 0 \<noteq> slash" using assms(2) 0 by (metis nth_mem)
    moreover have "lb_index b (int (length p')) = Some slash"
      using holds_index [OF assms(1), of "length p'"] by (simp add: nth_append p'(1))
    ultimately show ?thesis using p' False
      by (subst Clean_back.simps, simp, subst Clean_back.simps) auto
  qed
next
  case (Suc j)
  have "lb_index b (int (length p + Suc j)) = Some (e ! Suc j)"
    using holds_index [OF assms(1), of "length p + Suc j"] Suc.prems by (simp add: nth_append)
  moreover have "e ! Suc j \<noteq> slash" using assms(2) Suc.prems by (metis nth_mem)
  moreover have "dotdot < int (length p + Suc j)" using assms(4) by auto
  moreover have "int (length p + Suc j) - 1 = int (length p + j)" by simp
  ultimately show ?case using Suc by (subst Clean_back.simps) simp
qed

subsection \<open>The loops\<close>

lemma idx_at: "idx (pre @ c # s) (int (length pre)) = Some c"
  by (simp add: idx_def)

lemma idx_at1: "idx (pre @ c # d # s) (int (length pre) + 1) = Some d"
  by (simp add: idx_def nth_append nat_add_distrib)

lemma idx_at2: "idx (pre @ c # d # e # s) (int (length pre) + 2) = Some e"
  by (simp add: idx_def nth_append nat_add_distrib)

text \<open>Copying an element.\<close>

lemma Clean_copy_ok:
  assumes "path = pre @ e @ s" "slash \<notin> set e" "s = [] \<or> (\<exists>t. s = slash # t)" "holds path b out" "length out \<le> length pre"
  shows "\<exists>b'. Clean_copy path b (int (length pre)) = Some (b', int (length (pre @ e))) \<and> holds path b' (out @ e)"
  using assms
proof (induction e arbitrary: pre b out)
  case Nil
  from Nil.prems(3) show ?case
  proof
    assume "s = []"
    with Nil.prems show ?thesis by (subst Clean_copy.simps) simp
  next
    assume "\<exists>t. s = slash # t"
    then obtain t where s: "s = slash # t" by blast
    have "idx path (int (length pre)) = Some slash" unfolding Nil.prems(1) s by (simp add: idx_at)
    with s Nil.prems show ?thesis by (subst Clean_copy.simps) simp
  qed
next
  case (Cons c e)
  have c: "idx path (int (length pre)) = Some c" using Cons.prems(1) by (simp add: idx_at)
  have "length out < length path" using Cons.prems(1,5) by simp
  then obtain b' where b': "lb_append b c = Some b'" "holds path b' (out @ [c])"
    using holds_append [OF Cons.prems(4)] by blast
  obtain b'' where "Clean_copy path b' (int (length (pre @ [c]))) = Some (b'', int (length ((pre @ [c]) @ e)))"
    "holds path b'' ((out @ [c]) @ e)"
    using Cons.IH [of "pre @ [c]" b' "out @ [c]"] Cons.prems b'(2) by auto
  then show ?case using c b'(1) Cons.prems(1,2) by (subst Clean_copy.simps) (simp add: add.commute)
qed

text \<open>The state at the head of the main loop: the buffer holds the stack, and there is room for a separator.\<close>

definition at_head :: "byte list \<Rightarrow> bool \<Rightarrow> byte list \<Rightarrow> byte list \<Rightarrow> lazybuf \<Rightarrow> int \<Rightarrow> nat \<Rightarrow> byte list list \<Rightarrow> bool" where
  "at_head path rooted pre s b dotdot k ys \<longleftrightarrow>
     path = pre @ s \<and> canon rooted k ys \<and> holds path b (render rooted (dots k @ ys))
   \<and> dotdot = int (length (render rooted (dots k))) \<and> length (render rooted (dots k @ ys)) \<le> length pre
   \<and> (s \<noteq> [] \<and> hd s \<noteq> slash \<longrightarrow> dots k @ ys = [] \<or> length (render rooted (dots k @ ys)) < length pre)"

lemma render_dots_Suc: "render False (dots (Suc k)) = (if k = 0 then [] else render False (dots k) @ [slash]) @ dotdot_elem"
  using render_snoc [of False "dots k" dotdot_elem] by (simp add: replicate_append_same render_def)

lemma path_join_Nil_iff: "\<forall>e \<in> set st. e \<noteq> [] \<Longrightarrow> path_join st = [] \<longleftrightarrow> st = []"
  by (induction st rule: path_join.induct) auto

lemma render_real_less:
  assumes "real_elem e"
  shows "length (render rooted st) < length (render rooted (st @ [e]))"
  using assms by (auto simp: render_snoc real_elem_def)

text \<open>A dot-dot element: the last real element goes, or the prefix of dot-dot elements grows.\<close>

lemma Clean_dotdot_ok:
  assumes "at_head path rooted pre (dot # dot # s) b dotdot k ys" "s = [] \<or> (\<exists>t. s = slash # t)"
  obtains b' dotdot' k' ys' where "Clean_dotdot rooted b dotdot = Some (b', dotdot')"
    "at_head path rooted (pre @ [dot, dot]) s b' dotdot' k' ys'"
    "dots k' @ ys' = clean_elem rooted (dots k @ ys) dotdot_elem"
proof (cases ys rule: rev_cases)
  case (snoc zs e)
  have h: "path = pre @ dot # dot # s" "canon rooted k zs" "real_elem e" "holds path b (render rooted (dots k @ zs @ [e]))"
    "dotdot = int (length (render rooted (dots k)))" "length (render rooted (dots k @ zs @ [e])) \<le> length pre"
    using assms(1) canon_pop [of rooted k zs e] unfolding at_head_def snoc by auto
  let ?st = "dots k @ zs"
  have e: "e \<noteq> []" "slash \<notin> set e" using h(3) by (simp_all add: real_elem_def)
  define p where "p = (if ?st = [] then render rooted [] else render rooted ?st @ [slash])"
  have r: "render rooted (?st @ [e]) = p @ e" unfolding p_def render_snoc by simp
  have le: "length (render rooted (dots k)) \<le> length (render rooted ?st)" by (rule render_append_le)
  have q: "int (length p) = dotdot \<or> (\<exists>p'. p = p' @ [slash] \<and> dotdot \<le> int (length p'))"
    using le h(5) by (auto simp: p_def)
  have w: "lb_w b = int (length p + length e)" using h(4) r by (simp add: holds_def)
  have "dotdot < lb_w b"
    using h(5) render_real_less [OF h(3), of rooted ?st] le r w by simp
  moreover have "lb_w b - 1 = int (length p + (length e - 1))" using w e(1) by (cases e) simp_all
  moreover have "Clean_back (b\<lparr>lb_w := int (length p + (length e - 1))\<rparr>) dotdot
      = Some (b\<lparr>lb_w := if int (length p) = dotdot then int (length p) else int (length p) - 1\<rparr>)"
    using h(4) r e q by (intro Clean_back_ok [of path]) auto
  moreover have "(if int (length p) = dotdot then int (length p) else int (length p) - 1) = int (length (render rooted ?st))"
    using h(5) le by (auto simp: p_def)
  ultimately have c: "Clean_dotdot rooted b dotdot = Some (b\<lparr>lb_w := int (length (render rooted ?st))\<rparr>, dotdot)"
    by (simp add: Clean_dotdot_def)
  have "\<exists>u. render rooted (?st @ [e]) = render rooted ?st @ u" unfolding render_snoc by auto
  then have hold: "holds path (b\<lparr>lb_w := int (length (render rooted ?st))\<rparr>) (render rooted ?st)"
    using h(4) holds_cut by auto
  have "length (render rooted ?st) < length pre" using render_real_less [OF h(3), of rooted ?st] h(6) by simp
  then have "at_head path rooted (pre @ [dot, dot]) s (b\<lparr>lb_w := int (length (render rooted ?st))\<rparr>) dotdot k zs"
    using h hold by (simp add: at_head_def)
  moreover have "dots k @ zs = clean_elem rooted (dots k @ ys) dotdot_elem"
    using clean_elem_pop [OF h(3), of rooted ?st] by (simp add: snoc)
  ultimately show ?thesis using c by (intro that)
next
  case Nil
  have h: "path = pre @ dot # dot # s" "rooted \<Longrightarrow> k = 0" "holds path b (render rooted (dots k))"
    "dotdot = int (length (render rooted (dots k)))" "length (render rooted (dots k)) \<le> length pre"
    "k = 0 \<or> length (render rooted (dots k)) < length pre"
    using assms(1) unfolding at_head_def Nil by (auto simp: canon_def)
  have w: "lb_w b = dotdot" using h(3,4) by (simp add: holds_def)
  show ?thesis
  proof (cases rooted)
    case True
    have "Clean_dotdot rooted b dotdot = Some (b, dotdot)" using True w by (simp add: Clean_dotdot_def)
    moreover have "at_head path rooted (pre @ [dot, dot]) s b dotdot 0 []"
      using h True by (simp add: at_head_def)
    moreover have "dots 0 @ [] = clean_elem rooted (dots k @ ys) dotdot_elem" using h(2) True Nil clean_elem_dots(1) by simp
    ultimately show ?thesis by (rule that)
  next
    case False
    let ?p = "if k = 0 then [] else render False (dots k) @ [slash]"
    have room: "length ?p < length path" "Suc (length ?p) < length path" using h(1,5,6) False by auto
    have "\<exists>b1. (if lb_w b > 0 then lb_append b slash else Some b) = Some b1 \<and> holds path b1 ?p"
    proof (cases "k = 0")
      case True
      then show ?thesis using w h(3,4) False by (simp add: render_def)
    next
      case k: False
      then have "0 < dotdot" using h(4) False render_dots_Suc [of "k - 1"] by simp
      moreover have "length (render rooted (dots k)) < length path" using h(1,5) by simp
      ultimately show ?thesis using k w False h(3) holds_append [of path b "render rooted (dots k)" slash] by auto
    qed
    then obtain b1 where b1: "(if lb_w b > 0 then lb_append b slash else Some b) = Some b1" "holds path b1 ?p" by blast
    obtain b2 where b2: "lb_append b1 dot = Some b2" "holds path b2 (?p @ [dot])" using holds_append [OF b1(2) room(1)] by blast
    obtain b3 where b3: "lb_append b2 dot = Some b3" "holds path b3 ((?p @ [dot]) @ [dot])"
      using holds_append [OF b2(2)] room(2) by (auto split: if_splits)
    have r: "render False (dots (Suc k)) = (?p @ [dot]) @ [dot]" unfolding render_dots_Suc by simp
    have "Clean_dotdot rooted b dotdot = Some (b3, lb_w b3)"
      using False w b1(1) b2(1) b3(1) by (simp add: Clean_dotdot_def)
    moreover have "length (render False (dots (Suc k))) \<le> length pre + 2" using h(5,6) False unfolding r by auto
    then have "at_head path rooted (pre @ [dot, dot]) s b3 (lb_w b3) (Suc k) []"
      using h(1) False b3(2) assms(2) unfolding r [symmetric] by (auto simp: at_head_def canon_def holds_def)
    moreover have "dots (Suc k) @ [] = clean_elem rooted (dots k @ ys) dotdot_elem"
      using False Nil clean_elem_dots(2) [of k] by simp
    ultimately show ?thesis by (rule that)
  qed
qed

text \<open>The main loop pushes the remaining elements on the stack.\<close>

lemma Clean_loop_ok:
  assumes "at_head path rooted pre s b dotdot k ys"
  shows "\<exists>b'. Clean_loop path rooted b (int (length pre)) dotdot = Some b'
    \<and> holds path b' (render rooted (foldl (clean_elem rooted) (dots k @ ys) (elems s)))"
  using assms
proof (induction "length s" arbitrary: pre s b dotdot k ys rule: less_induct)
  case less
  let ?st = "dots k @ ys"
  note path = less.prems [unfolded at_head_def, THEN conjunct1]
  have IH: "\<exists>b'. Clean_loop path rooted b1 (int (length (pre @ u))) dd = Some b'
      \<and> holds path b' (render rooted (foldl (clean_elem rooted) (dots k1 @ ys1) (elems t)))"
    if "s = u @ t" "u \<noteq> []" "at_head path rooted (pre @ u) t b1 dd k1 ys1" for u t b1 dd k1 ys1
    using less.hyps [OF _ that(3)] that(1,2) by simp
  consider "s = []" | t where "s = slash # t"
    | t where "s = dot # t" "t = [] \<or> (\<exists>u. t = slash # u)"
    | t where "s = dot # dot # t" "t = [] \<or> (\<exists>u. t = slash # u)"
    | e t where "s = e @ t" "real_elem e" "t = [] \<or> (\<exists>u. t = slash # u)"
  proof -
    define e t where "e = takeWhile (\<lambda>c. c \<noteq> slash) s" and "t = dropWhile (\<lambda>c. c \<noteq> slash) s"
    have s: "s = e @ t" by (simp add: e_def t_def)
    have e: "slash \<notin> set e" using set_takeWhileD by (force simp: e_def)
    have "t \<noteq> [] \<Longrightarrow> hd t = slash" unfolding t_def using hd_dropWhile by blast
    then have t: "t = [] \<or> (\<exists>u. t = slash # u)" by (cases t) auto
    show thesis
      using that s e t unfolding real_elem_def by (cases "e = []"; cases "e = [dot]"; cases "e = dotdot_elem") auto
  qed
  then show ?case
  proof cases
    case 1
    then show ?thesis using less.prems by (subst Clean_loop.simps) (auto simp: at_head_def)
  next
    case (2 t)
    have "at_head path rooted (pre @ [slash]) t b dotdot k ys" using less.prems by (auto simp: at_head_def 2)
    from IH [OF _ _ this] 2 show ?thesis
      using path by (subst Clean_loop.simps) (simp add: 2 idx_at foldl_elems_slash add.commute)
  next
    case (3 t)
    have "at_head path rooted (pre @ [dot]) t b dotdot k ys" using less.prems by (auto simp: at_head_def 3)
    note hd = IH [OF _ _ this]
    have "Clean_loop path rooted b (int (length pre)) dotdot = Clean_loop path rooted b (int (length pre) + 1) dotdot"
      using 3(2) path unfolding 3(1)
      by (elim disjE exE; subst Clean_loop.simps) (simp_all add: idx_at idx_at1)
    moreover have "foldl (clean_elem rooted) ?st (elems s) = foldl (clean_elem rooted) ?st (elems t)"
      using foldl_elems [of "[dot]" t rooted ?st] 3 by simp
    ultimately show ?thesis using hd 3(1) by (simp add: add.commute)
  next
    case (4 t)
    obtain b' dd k' ys' where d: "Clean_dotdot rooted b dotdot = Some (b', dd)" "at_head path rooted (pre @ [dot, dot]) t b' dd k' ys'"
      "dots k' @ ys' = clean_elem rooted ?st dotdot_elem"
      using Clean_dotdot_ok less.prems 4 by metis
    have "Clean_loop path rooted b (int (length pre)) dotdot = Clean_loop path rooted b' (int (length pre) + 2) dd"
      using 4(2) path d(1) unfolding 4(1)
      by (elim disjE exE; subst Clean_loop.simps) (simp_all add: idx_at idx_at1 idx_at2)
    moreover have "foldl (clean_elem rooted) ?st (elems s) = foldl (clean_elem rooted) (dots k' @ ys') (elems t)"
      using foldl_elems [of dotdot_elem t rooted ?st] 4 d(3) by simp
    ultimately show ?thesis using IH [OF _ _ d(2)] 4(1) by (simp add: add.commute)
  next
    case (5 e t)
    have e: "e \<noteq> []" "slash \<notin> set e" "e \<noteq> [dot]" "e \<noteq> dotdot_elem" using 5(2) by (simp_all add: real_elem_def)
    have e0: "hd e \<noteq> slash" using e(1,2) by (cases e) auto
    have h: "holds path b (render rooted ?st)" "canon rooted k ys" "dotdot = int (length (render rooted (dots k)))"
      "length (render rooted ?st) \<le> length pre" "?st = [] \<or> length (render rooted ?st) < length pre"
      using less.prems e(1) e0 5(1) by (auto simp: at_head_def)
    let ?p = "if ?st = [] then render rooted [] else render rooted ?st @ [slash]"
    have "\<exists>b1. (if rooted \<and> lb_w b \<noteq> 1 \<or> \<not> rooted \<and> lb_w b \<noteq> 0 then lb_append b slash else Some b) = Some b1
        \<and> holds path b1 ?p"
    proof (cases "?st = []")
      case True
      then show ?thesis using h(1) by (auto simp: holds_def render_def)
    next
      case False
      have "path_join ?st \<noteq> []"
        using canon_elems(1) [OF h(2)] False by (subst path_join_Nil_iff) blast+
      then have "rooted \<and> lb_w b \<noteq> 1 \<or> \<not> rooted \<and> lb_w b \<noteq> 0" using h(1) by (auto simp: holds_def render_def)
      moreover have "length (render rooted ?st) < length path" using h(5) False path by auto
      ultimately show ?thesis using holds_append [OF h(1), of slash] False by auto
    qed
    then obtain b1 where b1: "(if rooted \<and> lb_w b \<noteq> 1 \<or> \<not> rooted \<and> lb_w b \<noteq> 0 then lb_append b slash else Some b) = Some b1"
      "holds path b1 ?p" by blast
    have "length ?p \<le> length pre" using h(4,5) by auto
    then obtain b2 where b2: "Clean_copy path b1 (int (length pre)) = Some (b2, int (length (pre @ e)))" "holds path b2 (?p @ e)"
      using Clean_copy_ok [of path pre e t b1 ?p] path 5(1,3) e(2) b1(2) by auto
    have r: "?p @ e = render rooted (dots k @ ys @ [e])" using render_snoc [of rooted ?st e] by simp
    have "at_head path rooted (pre @ e) t b2 dotdot k (ys @ [e])"
      using path 5(1,3) canon_push [OF h(2) 5(2)] b2(2) h(3) \<open>length ?p \<le> length pre\<close> unfolding at_head_def r [symmetric] by auto
    from IH [OF 5(1) e(1) this] obtain b3 where b3: "Clean_loop path rooted b2 (int (length (pre @ e))) dotdot = Some b3"
      "holds path b3 (render rooted (foldl (clean_elem rooted) (dots k @ ys @ [e]) (elems t)))" by blast
    have f: "foldl (clean_elem rooted) ?st (elems s) = foldl (clean_elem rooted) (dots k @ ys @ [e]) (elems t)"
      using foldl_elems [OF e(2) 5(3), of rooted ?st] clean_elem_push [OF 5(2), of rooted ?st] 5(1) by simp
    have "Clean_loop path rooted b (int (length pre)) dotdot = Clean_loop path rooted b2 (int (length (pre @ e))) dotdot"
    proof (cases e)
      case (Cons c e')
      have p0: "path = pre @ c # e' @ t" "c \<noteq> slash" using path 5(1) Cons e(2) by simp_all
      consider "c \<noteq> dot" | d e'' where "c = dot" "e' = d # e''" "d \<noteq> dot" "d \<noteq> slash"
        | x e'' where "c = dot" "e' = dot # x # e''" "x \<noteq> slash"
        using e Cons by (cases e'; cases "tl e'") auto
      then show ?thesis
      proof cases
        case 1
        then show ?thesis using p0 b1(1) b2(1) by (subst Clean_loop.simps) (simp add: idx_at)
      next
        case (2 d e'')
        then show ?thesis using p0 b1(1) b2(1) by (subst Clean_loop.simps) (simp add: idx_at idx_at1)
      next
        case (3 x e'')
        then show ?thesis using p0 b1(1) b2(1) by (subst Clean_loop.simps) (simp add: idx_at idx_at1 idx_at2)
      qed
    qed (use e(1) in simp)
    then show ?thesis using b3 unfolding f by auto
  qed
qed

lemma Clean_ok: "Clean path = Some (clean_spec path)"
proof (cases path)
  case Nil
  then show ?thesis by (simp add: Clean_def clean_spec_def is_rooted_def clean_stack_def render_def)
next
  case (Cons c s)
  define b0 where "b0 = \<lparr> lb_s = path, lb_buf = None, lb_w = 0 \<rparr>"
  have b0: "holds path b0 []" by (simp add: holds_def lb_ok_def lb_bytes_def b0_def)
  have fin: "(if lb_w b = 0 then Some [dot] else Some (lb_string b)) = Some (clean_spec path)"
    if "holds path b (render (is_rooted path) (clean_stack path))" for b
    using that holds_string [OF that] by (auto simp: clean_spec_def Let_def holds_def)
  show ?thesis
  proof (cases "c = slash")
    case True
    then have r: "is_rooted path" by (simp add: is_rooted_def Cons)
    obtain b1 where b1: "lb_append b0 slash = Some b1" "holds path b1 ([] @ [slash])"
      using holds_append [OF b0] Cons by auto
    have "at_head path True [slash] s b1 1 0 []" using b1(2) by (simp add: at_head_def Cons True render_def)
    from Clean_loop_ok [OF this] obtain b2 where b2: "Clean_loop path True b1 1 1 = Some b2"
      "holds path b2 (render True (foldl (clean_elem True) [] (elems s)))" by auto
    moreover have "foldl (clean_elem True) [] (elems s) = clean_stack path"
      using foldl_elems_slash [of True "[]" s] r by (simp add: clean_stack_def Cons True)
    ultimately show ?thesis
      using fin [of b2] b1(1) True r unfolding b0_def Cons by (simp add: Clean_def idx_def)
  next
    case False
    then have r: "\<not> is_rooted path" by (simp add: is_rooted_def Cons)
    have "at_head path False [] path b0 0 0 []" using b0 by (simp add: at_head_def render_def)
    from Clean_loop_ok [OF this] obtain b2 where b2: "Clean_loop path False b0 0 0 = Some b2"
      "holds path b2 (render False (foldl (clean_elem False) [] (elems path)))" by auto
    then show ?thesis
      using fin [of b2] False r unfolding b0_def Cons by (simp add: Clean_def idx_def clean_stack_def)
  qed
qed

subsection \<open>Canonical paths\<close>

lemma clean_elem_canon:
  assumes "canon rooted k ys" "slash \<notin> set e"
  shows "\<exists>k' ys'. canon rooted k' ys' \<and> clean_elem rooted (dots k @ ys) e = dots k' @ ys'"
proof -
  consider "e = [] \<or> e = [dot]" | "e = dotdot_elem" "ys \<noteq> []" | "e = dotdot_elem" "ys = []" "rooted"
    | "e = dotdot_elem" "ys = []" "\<not> rooted" | "real_elem e"
    using assms(2) unfolding real_elem_def by blast
  then show ?thesis
  proof cases
    case 1
    then show ?thesis using assms(1) by (intro exI [of _ k] exI [of _ ys]) auto
  next
    case 2
    then obtain zs y where y: "ys = zs @ [y]" by (cases ys rule: rev_cases) auto
    have "canon rooted k zs" "real_elem y" using canon_pop assms(1) unfolding y by blast+
    then show ?thesis using clean_elem_pop [of y rooted "dots k @ zs"] 2(1) by (auto simp: y)
  next
    case 3
    then show ?thesis using assms(1) clean_elem_dots(1) by (auto simp: canon_def)
  next
    case 4
    then show ?thesis using clean_elem_dots(2) [of k] by (intro exI [of _ "Suc k"] exI [of _ "[]"]) (simp add: canon_def)
  next
    case 5
    then show ?thesis using canon_push [OF assms(1) 5] clean_elem_push [OF 5, of rooted "dots k @ ys"] by auto
  qed
qed

lemma elems_no_slash: "e \<in> set (elems s) \<Longrightarrow> slash \<notin> set e"
proof (induction s arbitrary: e)
  case (Cons c s)
  have "hd (elems s) \<in> set (elems s)" "set (tl (elems s)) \<subseteq> set (elems s)" by (simp_all add: list.set_sel(2) subsetI)
  with Cons show ?case by (auto split: if_splits)
qed simp

lemma clean_stack_canon: "\<exists>k ys. canon (is_rooted path) k ys \<and> clean_stack path = dots k @ ys"
proof -
  have "\<exists>k' ys'. canon r k' ys' \<and> foldl (clean_elem r) (dots k @ ys) es = dots k' @ ys'"
    if "canon r k ys" "\<forall>e \<in> set es. slash \<notin> set e" for r k ys es
    using that
  proof (induction es arbitrary: k ys)
    case (Cons e es)
    obtain k' ys' where "canon r k' ys'" "clean_elem r (dots k @ ys) e = dots k' @ ys'"
      using clean_elem_canon [OF Cons.prems(1), of e] Cons.prems(2) by auto
    then show ?case using Cons by auto
  qed auto
  from this [of "is_rooted path" 0 "[]" "elems path"] show ?thesis using elems_no_slash by (auto simp: clean_stack_def)
qed

lemma elems_join: "st \<noteq> [] \<Longrightarrow> \<forall>e \<in> set st. slash \<notin> set e \<Longrightarrow> elems (path_join st) = st"
  by (induction st rule: path_join.induct) (auto simp: elems_slash elems_end)

lemma clean_stack_fixed:
  assumes "canon rooted k ys"
  shows "foldl (clean_elem rooted) [] (dots k @ ys) = dots k @ ys"
proof -
  have "foldl (clean_elem rooted) [] (dots j) = dots j" if "rooted \<longrightarrow> j = 0" for j
    using that
  proof (induction j)
    case (Suc j)
    then have "\<not> rooted" by simp
    then show ?case using Suc clean_elem_dots(2) [of j] by (simp flip: replicate_append_same)
  qed simp
  then have "foldl (clean_elem rooted) [] (dots k) = dots k" using assms by (simp add: canon_def)
  moreover have "foldl (clean_elem rooted) st zs = st @ zs" if "\<forall>z \<in> set zs. real_elem z" for st zs
    using that by (induction zs arbitrary: st) (simp_all add: clean_elem_push)
  ultimately show ?thesis using assms by (simp add: canon_def)
qed

lemma clean_spec_fixed:
  assumes "canon rooted k ys" "dots k @ ys \<noteq> [] \<or> rooted"
  shows "is_rooted (render rooted (dots k @ ys)) = rooted" "clean_stack (render rooted (dots k @ ys)) = dots k @ ys"
proof -
  let ?st = "dots k @ ys"
  have e: "\<forall>e \<in> set ?st. slash \<notin> set e \<and> e \<noteq> []" using canon_elems [OF assms(1)] by blast
  have h: "\<not> is_rooted (path_join ?st)" if "?st \<noteq> []"
  proof -
    obtain x es where x: "?st = x # es" using \<open>dots k @ ys \<noteq> []\<close> by (meson neq_Nil_conv)
    then have "x \<noteq> []" "slash \<notin> set x" using e by auto
    then obtain c x' where "x = c # x'" "c \<noteq> slash" by (cases x) auto
    then show ?thesis unfolding x by (cases es) (simp_all add: is_rooted_def)
  qed
  show r: "is_rooted (render rooted ?st) = rooted"
  proof (cases rooted)
    case True
    then show ?thesis by (simp add: render_def is_rooted_def)
  next
    case False
    then show ?thesis using assms(2) h by (simp add: render_def)
  qed
  have s: "foldl (clean_elem rooted) [] (elems (path_join ?st)) = ?st"
    using elems_join [of ?st] e clean_stack_fixed [OF assms(1)] by (cases "?st = []") auto
  show "clean_stack (render rooted ?st) = ?st"
    unfolding clean_stack_def r using s foldl_elems_slash [of rooted "[]" "path_join ?st"] by (cases rooted) (simp_all add: render_def)
qed

lemma clean_spec_idem: "clean_spec (clean_spec path) = clean_spec path"
proof -
  obtain k ys where c: "canon (is_rooted path) k ys" "clean_stack path = dots k @ ys" using clean_stack_canon by blast
  show ?thesis
  proof (cases "dots k @ ys \<noteq> [] \<or> is_rooted path")
    case True
    have "render (is_rooted path) (dots k @ ys) \<noteq> []"
      using True canon_elems(1) [OF c(1)] path_join_Nil_iff [of "dots k @ ys"] by (cases "is_rooted path") (simp_all only: render_def, simp_all)
    then have "clean_spec path = render (is_rooted path) (dots k @ ys)" by (simp add: clean_spec_def c(2))
    then show ?thesis using clean_spec_fixed [OF c(1) True] \<open>render _ _ \<noteq> []\<close> by (simp add: clean_spec_def)
  next
    case False
    then have "clean_spec path = [dot]" by (simp add: clean_spec_def c(2) render_def)
    then show ?thesis by (simp add: clean_spec_def is_rooted_def clean_stack_def render_def)
  qed
qed

subsection \<open>The other functions\<close>

lemma lastSlash_loop_ok:
  "i < int (length s) \<Longrightarrow> -1 \<le> i \<Longrightarrow>
   \<exists>k. lastSlash_loop s i = Some k \<and> -1 \<le> k \<and> k \<le> i \<and> (0 \<le> k \<longrightarrow> s ! nat k = slash)
     \<and> (\<forall>j. k < j \<and> j \<le> i \<longrightarrow> s ! nat j \<noteq> slash)"
proof (induction "nat (i + 1)" arbitrary: i)
  case 0
  then show ?case by (subst lastSlash_loop.simps) auto
next
  case (Suc n)
  show ?case
  proof (cases "s ! nat i = slash")
    case True
    then show ?thesis using Suc.hyps(2) Suc.prems by (subst lastSlash_loop.simps) auto
  next
    case False
    have i: "0 \<le> i" and n: "n = nat (i - 1 + 1)" using Suc.hyps(2) by simp_all
    obtain k where "lastSlash_loop s (i - 1) = Some k" "-1 \<le> k" "k \<le> i - 1" "0 \<le> k \<longrightarrow> s ! nat k = slash"
      "\<forall>j. k < j \<and> j \<le> i - 1 \<longrightarrow> s ! nat j \<noteq> slash"
      using Suc.hyps(1) [OF n] Suc.prems i by auto
    moreover note i
    moreover have "s ! nat j \<noteq> slash" if "k < j" "j \<le> i" for j
      using False calculation(5) that by (cases "j = i") auto
    ultimately show ?thesis using False Suc.prems by (subst lastSlash_loop.simps) auto
  qed
qed

text \<open>\<^verbatim>\<open>Split\<close> cuts behind the last slash.\<close>

lemma Split_ok:
  obtains dir nm where "path_Split p = Some (dir, nm)" "p = dir @ nm" "slash \<notin> set nm" "dir = [] \<or> last dir = slash"
proof -
  obtain k where k: "lastSlash p = Some k" "-1 \<le> k" "k \<le> int (length p) - 1" "0 \<le> k \<longrightarrow> p ! nat k = slash"
    "\<forall>j. k < j \<and> j \<le> int (length p) - 1 \<longrightarrow> p ! nat j \<noteq> slash"
    using lastSlash_loop_ok [of "int (length p) - 1" p] by (auto simp: lastSlash_def)
  let ?n = "nat (k + 1)"
  have "slash \<notin> set (drop ?n p)"
  proof
    assume "slash \<in> set (drop ?n p)"
    then obtain i where i: "i < length p - ?n" "p ! (?n + i) = slash" by (auto simp: in_set_conv_nth)
    have "k < int (?n + i)" "int (?n + i) \<le> int (length p) - 1" using i(1) k(2) by auto
    then have "p ! nat (int (?n + i)) \<noteq> slash" using k(5) by blast
    then show False using i(2) by (simp only: nat_int)
  qed
  moreover have "take ?n p = [] \<or> last (take ?n p) = slash"
  proof (cases "k = -1")
    case False
    then have n: "?n = Suc (nat k)" "nat k < length p" using k(2,3) by auto
    then have "take ?n p = take (nat k) p @ [p ! nat k]" by (simp add: take_Suc_conv_app_nth)
    then show ?thesis using k(2,4) False by simp
  qed simp
  ultimately show ?thesis using that [of "take ?n p" "drop ?n p"] k(1) by (simp add: path_Split_def)
qed

lemma Base_strip_ok: "\<exists>q n. Base_strip p = Some q \<and> p = q @ replicate n slash \<and> (q = [] \<or> last q \<noteq> slash)"
proof (induction p rule: rev_induct)
  case Nil
  show ?case by (subst Base_strip.simps) simp
next
  case (snoc c p)
  show ?case
  proof (cases "c = slash")
    case True
    obtain q n where q: "Base_strip p = Some q" "p = q @ replicate n slash" "q = [] \<or> last q \<noteq> slash" using snoc by blast
    have "Base_strip (p @ [c]) = Some q" using True q(1) by (subst Base_strip.simps) (simp add: nth_append)
    then show ?thesis using q True by (intro exI [of _ q] exI [of _ "Suc n"]) (simp add: replicate_append_same)
  next
    case False
    then show ?thesis by (intro exI [of _ "p @ [c]"] exI [of _ 0]) (subst Base_strip.simps, simp add: nth_append)
  qed
qed

text \<open>\<^verbatim>\<open>Base\<close> is the last element that is not empty.\<close>

lemma Base_ok:
  "Base p = Some (if p = [] then [dot] else
     (let es = filter (\<lambda>e. e \<noteq> []) (elems p) in if es = [] then [slash] else last es))"
proof (cases "p = []")
  case False
  obtain q n where q: "Base_strip p = Some q" "p = q @ replicate n slash" "q = [] \<or> last q \<noteq> slash"
    using Base_strip_ok by blast
  obtain dir nm where f: "path_Split q = Some (dir, nm)" "q = dir @ nm" "slash \<notin> set nm" "dir = [] \<or> last dir = slash"
    using Split_ok by blast
  obtain i where i: "lastSlash q = Some i" "dir = take (nat (i + 1)) q" "nm = drop (nat (i + 1)) q"
    using f(1) by (auto simp: path_Split_def split: bind_splits)
  have b: "Base p = Some (if nm = [] then [slash] else nm)"
    using q(1) i False by (auto simp: Base_def Let_def)
  have pad: "filter (\<lambda>e. e \<noteq> []) (elems (s @ replicate n slash)) = filter (\<lambda>e. e \<noteq> []) (elems s)" for s
  proof (induction n arbitrary: s)
    case (Suc n)
    have "filter (\<lambda>e. e \<noteq> []) (elems (s @ [slash])) = filter (\<lambda>e. e \<noteq> []) (elems s)"
      by (simp add: elems_append)
    then show ?case using Suc [of "s @ [slash]"] by simp
  qed simp
  have "elems (d @ [slash] @ nm) = elems d @ [nm]" for d
    using f(3) by (simp add: elems_append elems_end)
  then have e: "dir \<noteq> [] \<Longrightarrow> elems q = elems (butlast dir) @ [nm]"
    using f(2,4) by (metis append_butlast_last_id append.assoc)
  show ?thesis
  proof (cases "nm = []")
    case True
    then have "q = []" using f(2,4) q(3) by auto
    then show ?thesis using b True False q(2) pad [of "[]"] by simp
  next
    case nonempty: False
    have "filter (\<lambda>e. e \<noteq> []) (elems p) = filter (\<lambda>e. e \<noteq> []) (elems q)" using pad [of q] q(2) by simp
    moreover have "\<exists>xs. filter (\<lambda>e. e \<noteq> []) (elems q) = xs @ [nm]"
    proof (cases "dir = []")
      case True
      then show ?thesis using f(2,3) nonempty by (simp add: elems_end)
    qed (use e nonempty in simp)
    ultimately show ?thesis using b False nonempty by (auto simp: Let_def)
  qed
qed (simp add: Base_def)

end
