(* ===== verification/Path_Properties.thy ===== *)
theory Path_Properties
  imports Path_Clean
begin

text \<open>The properties of path.go.\<close>

subsection \<open>Join and Ext\<close>

lemma path_join_concat: "path_join (e # es) = e @ concat (map ((#) slash) es)"
  by (induction es arbitrary: e) simp_all

lemma Join_buf_eq: "Join_buf es = path_join (dropWhile (\<lambda>e. e = []) es)"
proof -
  let ?f = "\<lambda>buf e. if length buf > 0 \<or> e \<noteq> [] then (let buf = (if length buf > 0 then buf @ [slash] else buf) in buf @ e) else buf"
  have g: "foldl ?f b es = b @ concat (map ((#) slash) es)" if "b \<noteq> []" for b es
    using that by (induction es arbitrary: b) (simp_all add: Let_def)
  have "foldl ?f [] es = path_join (dropWhile (\<lambda>e. e = []) es)"
  proof (induction es)
    case (Cons e es)
    then show ?case using g [of e es] by (cases "e = []") (simp_all add: path_join_concat Let_def)
  qed simp
  then show ?thesis by (simp add: Join_buf_def)
qed

abbreviation nonempty :: "byte list list \<Rightarrow> byte list list" where
  "nonempty es \<equiv> filter (\<lambda>e. e \<noteq> []) es"

lemma foldl_nonempty: "foldl (clean_elem r) st (nonempty es) = foldl (clean_elem r) st es"
  by (induction es arbitrary: st) simp_all

lemma elems_path_join: "nonempty (elems (path_join es)) = concat (map (\<lambda>e. nonempty (elems e)) es)"
proof (cases es)
  case (Cons e fs)
  have "nonempty (elems (e @ concat (map ((#) slash) fs))) = concat (map (\<lambda>e. nonempty (elems e)) (e # fs))"
    by (induction fs arbitrary: e) (simp_all add: elems_append)
  then show ?thesis unfolding Cons path_join_concat .
qed simp

lemma clean_join_nonempty:
  assumes "\<exists>e \<in> set es. e \<noteq> []"
  shows "clean_spec (path_join (dropWhile (\<lambda>e. e = []) es)) = clean_spec (path_join (nonempty es))"
proof -
  let ?d = "dropWhile (\<lambda>e. e = []) es"
  have "?d \<noteq> []" using assms by (simp add: dropWhile_eq_Nil_conv)
  then obtain x fs where x: "?d = x # fs" "x \<noteq> []" using hd_dropWhile [of "\<lambda>e. e = []" es] by (cases ?d) auto
  have n: "nonempty es = x # nonempty fs"
  proof -
    have "nonempty es = nonempty (takeWhile (\<lambda>e. e = []) es @ ?d)" by simp
    also have "\<dots> = nonempty ?d" unfolding filter_append by (simp add: filter_empty_conv) (metis set_takeWhileD)
    finally show ?thesis using x by simp
  qed
  have r: "is_rooted (path_join ?d) = is_rooted (path_join (nonempty es))"
    using x(2) unfolding x(1) n path_join_concat by (simp add: is_rooted_def)
  have "concat (map (\<lambda>e. nonempty (elems e)) (nonempty fs)) = concat (map (\<lambda>e. nonempty (elems e)) fs)"
    by (induction fs) simp_all
  then have "nonempty (elems (path_join ?d)) = nonempty (elems (path_join (nonempty es)))"
    unfolding elems_path_join unfolding x(1) n by simp
  then have "clean_stack (path_join ?d) = clean_stack (path_join (nonempty es))"
    unfolding clean_stack_def r by (metis foldl_nonempty)
  then show ?thesis by (simp add: clean_spec_def r)
qed

lemma Join_size: "foldl (\<lambda>size e. size + int (length e)) 0 es = int (length (concat es))"
proof -
  have "foldl (\<lambda>size e. size + int (length e)) k es = k + int (length (concat es))" for k
    by (induction es arbitrary: k) simp_all
  then show ?thesis by simp
qed

lemma Ext_loop_ok:
  assumes "p = q @ t" "slash \<notin> set t" "dot \<notin> set t"
  shows "Ext_loop p (int (length q) - 1)
    = Some (case rev (takeWhile (\<lambda>c. c \<noteq> slash \<and> c \<noteq> dot) (rev q)) of u \<Rightarrow>
        if length u < length q \<and> q ! (length q - 1 - length u) = dot then dot # u @ t else [])"
  using assms
proof (induction q arbitrary: t rule: rev_induct)
  case Nil
  show ?case by (subst Ext_loop.simps) simp
next
  case (snoc c q)
  have i: "idx p (int (length q)) = Some c" using snoc.prems(1) by (simp add: idx_def)
  consider "c = slash" | "c = dot" | "c \<noteq> slash" "c \<noteq> dot" by blast
  then show ?case
  proof cases
    case 1
    then show ?thesis using i by (subst Ext_loop.simps) (simp add: nth_append)
  next
    case 2
    then show ?thesis using i snoc.prems(1) by (subst Ext_loop.simps) (simp add: nth_append)
  next
    case 3
    let ?u = "rev (takeWhile (\<lambda>c. c \<noteq> slash \<and> c \<noteq> dot) (rev q))"
    have "Ext_loop p (int (length (q @ [c])) - 1) = Ext_loop p (int (length q) - 1)"
      using 3 i by (subst Ext_loop.simps) simp
    moreover have "length ?u \<le> length q" using length_takeWhile_le [of _ "rev q"] by simp
    ultimately show ?thesis
      using snoc.IH [of "c # t"] snoc.prems 3 by (cases "q = []") (auto simp: nth_append)
  qed
qed

subsection \<open>Properties\<close>

text \<open>
  C4 (Clean computes the canonical path). For every path the loop over the bytes, which writes into a buffer that is
  allocated only when it must be, never reads or writes out of range and returns the path whose elements are the elements
  of the argument pushed on a stack: empty and dot elements are skipped, a dot-dot element removes the element before it,
  is dropped at the root, and stays at the front of a relative path. The result is a fixed point of Clean.
\<close>

theorem Clean_correct: "Clean path = Some (clean_spec path) \<and> Clean (clean_spec path) = Some (clean_spec path)"
  by (simp add: Clean_ok clean_spec_idem)

text \<open>
  C26 (Join, Split, Base and Dir fit together). Join is the cleaned path of the elements that are not empty, and empty when
  there is none. Split cuts a path behind its last slash, Dir is the cleaned first part, and Base is the last element
  that is not empty, with the documented results for paths without one.
\<close>

theorem path_parts_correct:
  "path_Join es = Some (if \<forall>e \<in> set es. e = [] then [] else clean_spec (path_join (nonempty es)))
   \<and> (\<exists>dir f. path_Split p = Some (dir, f) \<and> p = dir @ f \<and> slash \<notin> set f \<and> (dir = [] \<or> last dir = slash)
        \<and> Dir p = Some (clean_spec dir))
   \<and> Base p = Some (if p = [] then [dot] else if nonempty (elems p) = [] then [slash] else last (nonempty (elems p)))"
proof (intro conjI)
  show "path_Join es = Some (if \<forall>e \<in> set es. e = [] then [] else clean_spec (path_join (nonempty es)))"
    using clean_join_nonempty [of es] by (auto simp: path_Join_def Join_size Join_buf_eq Clean_ok Let_def)
  obtain dir f where "path_Split p = Some (dir, f)" "p = dir @ f" "slash \<notin> set f" "dir = [] \<or> last dir = slash"
    by (rule Split_ok)
  then show "\<exists>dir f. path_Split p = Some (dir, f) \<and> p = dir @ f \<and> slash \<notin> set f \<and> (dir = [] \<or> last dir = slash)
      \<and> Dir p = Some (clean_spec dir)"
    by (simp add: Dir_def Clean_ok)
  show "Base p = Some (if p = [] then [dot] else if nonempty (elems p) = [] then [slash] else last (nonempty (elems p)))"
    by (simp add: Base_ok Let_def)
qed

theorem path_parts_correct_witness:
  "path_Join [[0x61], [], [0x2E, 0x2E, 0x2F, 0x62]] = Some [0x62]"
  using path_parts_correct [of "[[0x61], [], [0x2E, 0x2E, 0x2F, 0x62]]" "[]"]
  by (simp add: clean_spec_def is_rooted_def clean_stack_def clean_elem_def render_def)

text \<open>
  Ext is the end of the path from the last dot on, when no slash follows that dot, and empty otherwise.
\<close>

theorem Ext_correct:
  "Ext p = Some (case rev (takeWhile (\<lambda>c. c \<noteq> slash \<and> c \<noteq> dot) (rev p)) of u \<Rightarrow>
      if length u < length p \<and> p ! (length p - 1 - length u) = dot then dot # u else [])"
  using Ext_loop_ok [of p p "[]"] by (simp add: Ext_def)

end
