(* ===== verification/Path_Match.thy ===== *)
theory Path_Match
  imports Path Utf8_String Go_IO
begin

text \<open>
  \<^verbatim>\<open>path\<close>: shell patterns (match.go). The error is \<^verbatim>\<open>ErrBadPattern\<close>, the only one; a slice expression or an index out of
  range is a panic.
\<close>

datatype match_error = ErrBadPattern

abbreviation ch_star :: byte where "ch_star \<equiv> 0x2A"
abbreviation ch_any :: byte where "ch_any \<equiv> 0x3F"
abbreviation ch_open :: byte where "ch_open \<equiv> 0x5B"
abbreviation ch_back :: byte where "ch_back \<equiv> 0x5C"
abbreviation ch_close :: byte where "ch_close \<equiv> 0x5D"
abbreviation ch_caret :: byte where "ch_caret \<equiv> 0x5E"
abbreviation ch_minus :: byte where "ch_minus \<equiv> 0x2D"

definition getEsc :: "byte list \<Rightarrow> (rune \<times> byte list \<times> match_error option) option" where
  "getEsc chunk =
     (if length chunk = 0 then Some (0, [], Some ErrBadPattern)
      else do {
        c \<leftarrow> idx chunk 0;
        if c = ch_minus \<or> c = ch_close then Some (0, [], Some ErrBadPattern)
        else do {
          let chunk = (if c = ch_back then drop 1 chunk else chunk);
          if c = ch_back \<and> length chunk = 0 then Some (0, [], Some ErrBadPattern)
          else do {
            (r, n) \<leftarrow> DecodeRuneInString chunk;
            let err = (if r = RuneError \<and> n = 1 then Some ErrBadPattern else None);
            nchunk \<leftarrow> from_index chunk n;
            let err = (if length nchunk = 0 then Some ErrBadPattern else err);
            Some (r, nchunk, err)
          }
        }
      })"

text \<open>The loop over the ranges of a class: the rest of the chunk and whether the rune was matched, or the error.\<close>

partial_function (option) class_loop ::
  "byte list \<Rightarrow> rune \<Rightarrow> bool \<Rightarrow> int \<Rightarrow> (byte list \<times> bool \<times> match_error option) option" where
  "class_loop chunk r mat nrange =
     do {
       closed \<leftarrow> (if length chunk > 0 then do { c \<leftarrow> idx chunk 0; Some (c = ch_close \<and> nrange > 0) } else Some False);
       if closed then Some (drop 1 chunk, mat, None)
       else do {
         (lo, chunk, err) \<leftarrow> getEsc chunk;
         if err \<noteq> None then Some ([], False, err)
         else do {
           c \<leftarrow> idx chunk 0;
           (hi, chunk, err) \<leftarrow> (if c = ch_minus then getEsc (drop 1 chunk) else Some (lo, chunk, None));
           if err \<noteq> None then Some ([], False, err)
           else class_loop chunk r (mat \<or> sint lo \<le> sint r \<and> sint r \<le> sint hi) (nrange + 1)
         }
       }
     }"

partial_function (option) matchChunk_loop ::
  "byte list \<Rightarrow> byte list \<Rightarrow> bool \<Rightarrow> (byte list \<times> bool \<times> match_error option) option" where
  "matchChunk_loop chunk s failed =
     (if length chunk > 0 then
        do {
          let failed = (failed \<or> length s = 0);
          c \<leftarrow> idx chunk 0;
          if c = ch_open then do {
            (r, s) \<leftarrow> (if \<not> failed then do { (r, n) \<leftarrow> DecodeRuneInString s; s \<leftarrow> from_index s n; Some (r, s) } else Some (0, s));
            let chunk = drop 1 chunk;
            (negated, chunk) \<leftarrow> (if length chunk > 0 then do { d \<leftarrow> idx chunk 0;
                                   Some (if d = ch_caret then (True, drop 1 chunk) else (False, chunk)) }
                                 else Some (False, chunk));
            (chunk, mat, err) \<leftarrow> class_loop chunk r False 0;
            if err \<noteq> None then Some ([], False, err)
            else matchChunk_loop chunk s (failed \<or> mat = negated)
          }
          else if c = ch_any then do {
            (failed, s) \<leftarrow> (if \<not> failed then do {
                              d \<leftarrow> idx s 0;
                              let failed = (d = slash);
                              (_, n) \<leftarrow> DecodeRuneInString s;
                              s \<leftarrow> from_index s n;
                              Some (failed, s)
                            } else Some (failed, s));
            matchChunk_loop (drop 1 chunk) s failed
          }
          else do {
            let chunk = (if c = ch_back then drop 1 chunk else chunk);
            if c = ch_back \<and> length chunk = 0 then Some ([], False, Some ErrBadPattern)
            else do {
              (failed, s) \<leftarrow> (if \<not> failed then do {
                                a \<leftarrow> idx chunk 0;
                                b \<leftarrow> idx s 0;
                                s \<leftarrow> from_index s 1;
                                Some (a \<noteq> b, s)
                              } else Some (failed, s));
              matchChunk_loop (drop 1 chunk) s failed
            }
          }
        }
      else if failed then Some ([], False, None) else Some (s, True, None))"

definition matchChunk :: "byte list \<Rightarrow> byte list \<Rightarrow> (byte list \<times> bool \<times> match_error option) option" where
  "matchChunk chunk s = matchChunk_loop chunk s False"

fun scan_stars :: "byte list \<Rightarrow> bool \<Rightarrow> bool \<times> byte list" where
  "scan_stars [] star = (star, [])"
| "scan_stars (c # p) star = (if c = ch_star then scan_stars p True else (star, c # p))"

function scan_loop :: "byte list \<Rightarrow> int \<Rightarrow> bool \<Rightarrow> int option" where
  "scan_loop pattern i inrange =
     (if i < int (length pattern) then
        do {
          c \<leftarrow> idx pattern i;
          if c = ch_back then scan_loop pattern (if i + 1 < int (length pattern) then i + 2 else i + 1) inrange
          else if c = ch_open then scan_loop pattern (i + 1) True
          else if c = ch_close then scan_loop pattern (i + 1) False
          else if c = ch_star \<and> \<not> inrange then Some i
          else scan_loop pattern (i + 1) inrange
        }
      else Some i)"
  by pat_completeness auto
termination by (relation "measure (\<lambda>(pattern, i, inrange). nat (int (length pattern) - i))") auto

declare scan_loop.simps [simp del]

definition scanChunk :: "byte list \<Rightarrow> (bool \<times> byte list \<times> byte list) option" where
  "scanChunk pattern =
     (let (star, pattern) = scan_stars pattern False
      in do { i \<leftarrow> scan_loop pattern 0 False; Some (star, take (nat i) pattern, drop (nat i) pattern) })"

text \<open>What trying a chunk at later positions of the name may give.\<close>

datatype skip_result = Found "byte list" | SkipError match_error | NotFound

function Match_skip :: "byte list \<Rightarrow> byte list \<Rightarrow> byte list \<Rightarrow> int \<Rightarrow> skip_result option" where
  "Match_skip chunk pattern name i =
     (if i < int (length name) then
        do {
          c \<leftarrow> idx name i;
          if c = slash then Some NotFound
          else do {
            s \<leftarrow> from_index name (i + 1);
            (t, ok, err) \<leftarrow> matchChunk chunk s;
            if ok then if length pattern = 0 \<and> length t > 0 then Match_skip chunk pattern name (i + 1) else Some (Found t)
            else case err of Some e \<Rightarrow> Some (SkipError e) | None \<Rightarrow> Match_skip chunk pattern name (i + 1)
          }
        }
      else Some NotFound)"
  by pat_completeness auto
termination by (relation "measure (\<lambda>(chunk, pattern, name, i). nat (int (length name) - i))") auto

declare Match_skip.simps [simp del]

partial_function (option) Match_rest :: "byte list \<Rightarrow> match_error option option" where
  "Match_rest pattern =
     (if length pattern > 0 then
        do {
          (_, chunk, pattern) \<leftarrow> scanChunk pattern;
          (_, _, err) \<leftarrow> matchChunk chunk [];
          if err \<noteq> None then Some err else Match_rest pattern
        }
      else Some None)"

function IndexByteString_loop :: "byte list \<Rightarrow> byte \<Rightarrow> int \<Rightarrow> int option" where
  "IndexByteString_loop s c i =
     (if i < int (length s) then do { x \<leftarrow> idx s i; if x = c then Some i else IndexByteString_loop s c (i + 1) }
      else Some (-1))"
  by pat_completeness auto
termination by (relation "measure (\<lambda>(s, c, i). nat (int (length s) - i))") auto

declare IndexByteString_loop.simps [simp del]

definition IndexByteString :: "byte list \<Rightarrow> byte \<Rightarrow> int option" where
  "IndexByteString s c = IndexByteString_loop s c 0"

partial_function (option) path_Match :: "byte list \<Rightarrow> byte list \<Rightarrow> (bool \<times> match_error option) option" where
  "path_Match pattern name =
     (if length pattern > 0 then
        do {
          (star, chunk, pattern) \<leftarrow> scanChunk pattern;
          if star \<and> chunk = [] then do { i \<leftarrow> IndexByteString name slash; Some (i < 0, None) }
          else do {
            (t, ok, err) \<leftarrow> matchChunk chunk name;
            if ok \<and> (length t = 0 \<or> length pattern > 0) then path_Match pattern t
            else if err \<noteq> None then Some (False, err)
            else do {
              skip \<leftarrow> (if star then Match_skip chunk pattern name 0 else Some NotFound);
              case skip of
                Found t \<Rightarrow> path_Match pattern t
              | SkipError e \<Rightarrow> Some (False, Some e)
              | NotFound \<Rightarrow> do { err \<leftarrow> Match_rest pattern; Some (False, err) }
            }
          }
        }
      else Some (length name = 0, None))"

declare class_loop.simps [code] matchChunk_loop.simps [code] Match_rest.simps [code] path_Match.simps [code]

end
