(* ===== verification/Path_Pattern.thy ===== *)
theory Path_Pattern
  imports Path_Match
begin

text \<open>
  Shell patterns as the documentation of \<^verbatim>\<open>Match\<close> gives them: the parse of a pattern into terms, the meaning of a term, and
  the lemmas that relate \<^verbatim>\<open>getEsc\<close>, the loop over a class and \<^verbatim>\<open>matchChunk\<close> to them.
\<close>

subsection \<open>Decoding a character\<close>

definition decode :: "byte list \<Rightarrow> rune \<times> nat" where
  "decode s = (case DecodeRune s of Some (r, n) \<Rightarrow> (r, nat n) | None \<Rightarrow> (RuneError, 0))"

lemma decode_well_formed: "well_formed w \<Longrightarrow> decode (w @ q) = (word_of_int (scalar_value w), length w)"
  by (simp add: decode_def DecodeRune_well_formed)

lemma decode_ill_formed: "p \<noteq> [] \<Longrightarrow> \<not> starts_well p \<Longrightarrow> decode p = (RuneError, 1)"
  by (simp add: decode_def DecodeRune_ill_formed)

lemma decode_total:
  assumes "s \<noteq> []"
  shows "DecodeRuneInString s = Some (fst (decode s), int (snd (decode s)))" "1 \<le> snd (decode s)" "snd (decode s) \<le> length s"
proof -
  show "DecodeRuneInString s = Some (fst (decode s), int (snd (decode s)))"
    unfolding DecodeRuneInString_eq decode_def using assms by (cases rule: DecodeRune_cases) simp_all
  show "1 \<le> snd (decode s)" "snd (decode s) \<le> length s"
  proof -
    have "1 \<le> snd (decode s) \<and> snd (decode s) \<le> length s"
    proof (cases "starts_well s")
      case True
      then obtain w q where w: "s = w @ q" "well_formed w" using starts_well_iff by blast
      have "1 \<le> length w" using well_formed_length [OF w(2)] by auto
      then show ?thesis using decode_well_formed [OF w(2), of q] w(1) by simp
    next
      case False
      then show ?thesis using decode_ill_formed [OF assms] assms by (cases s) simp_all
    qed
    then show "1 \<le> snd (decode s)" "snd (decode s) \<le> length s" by simp_all
  qed
qed

text \<open>A decoding error is the replacement character of length one.\<close>

lemma well_formed_not_error: "well_formed w \<Longrightarrow> \<not> (word_of_int (scalar_value w) = (RuneError :: rune) \<and> length w = 1)"
proof
  assume w: "well_formed w" and e: "word_of_int (scalar_value w) = (RuneError :: rune) \<and> length w = 1"
  then obtain a where a: "w = [a]" "uint a < 0x80" by (cases w rule: well_formed.cases) auto
  have k: "uint (word_of_int k :: rune) = k" if "0 \<le> k" "k < 0x80" for k using that by (simp add: uint_word_of_int)
  have r: "word_of_int (uint a) = (RuneError :: rune)" using e unfolding a(1) scalar_value.simps by (rule conjunct1)
  have "uint (RuneError :: rune) = uint a" using k [OF uint_ge_0 a(2)] unfolding r .
  then show False using a(2) by simp
qed

lemma decode_error_iff:
  assumes "s \<noteq> []"
  shows "decode s = (RuneError, 1) \<longleftrightarrow> \<not> starts_well s"
  using decode_ill_formed [OF assms] decode_well_formed well_formed_not_error starts_well_iff [of s] by auto

subsection \<open>Patterns\<close>

datatype pterm = Star | Any | Class bool "(rune \<times> rune) list" | Lit byte

text \<open>A character of a class: \<open>esc\<close> gives the rune and the rest, which must not be empty.\<close>

definition esc :: "byte list \<Rightarrow> (rune \<times> byte list) option" where
  "esc p =
     (if p = [] \<or> hd p = ch_minus \<or> hd p = ch_close then None
      else let s = (if hd p = ch_back then tl p else p) in
        if s = [] \<or> decode s = (RuneError, 1) \<or> drop (snd (decode s)) s = [] then None
        else Some (fst (decode s), drop (snd (decode s)) s))"

lemma esc_shorter: "esc p = Some (r, q) \<Longrightarrow> length q < length p"
  using decode_total(2) [of p] decode_total(2) [of "tl p"]
  by (cases p) (auto simp: esc_def Let_def split: if_splits)

lemma esc_rest: "esc p = Some (r, q) \<Longrightarrow> q \<noteq> []"
  by (auto simp: esc_def Let_def split: if_splits)

definition esc_hi :: "rune \<Rightarrow> byte list \<Rightarrow> (rune \<times> byte list) option" where
  "esc_hi lo p = (if hd p = ch_minus then esc (tl p) else Some (lo, p))"

lemma esc_hi_shorter: "esc_hi lo p = Some (hi, q) \<Longrightarrow> length q \<le> length p"
  using esc_shorter [of "tl p" hi q] by (auto simp: esc_hi_def split: if_splits)

function parse_ranges :: "byte list \<Rightarrow> bool \<Rightarrow> ((rune \<times> rune) list \<times> byte list) option" where
  "parse_ranges p sm =
     (if sm \<and> p \<noteq> [] \<and> hd p = ch_close then Some ([], tl p)
      else case esc p of
        None \<Rightarrow> None
      | Some (lo, p1) \<Rightarrow>
          (case esc_hi lo p1 of
             None \<Rightarrow> None
           | Some (hi, p2) \<Rightarrow> map_option (\<lambda>(rs, q). ((lo, hi) # rs, q)) (parse_ranges p2 True)))"
  by pat_completeness auto
termination
  by (relation "measure (\<lambda>(p, sm). length p)") (auto dest!: esc_shorter esc_hi_shorter)

declare parse_ranges.simps [simp del]

lemma parse_ranges_shorter: "parse_ranges p sm = Some (rs, q) \<Longrightarrow> length q < length p"
proof (induction "length p" arbitrary: p sm rs q rule: less_induct)
  case less
  show ?case
  proof (cases "sm \<and> p \<noteq> [] \<and> hd p = ch_close")
    case True
    then show ?thesis using less.prems by (cases p) (simp_all add: parse_ranges.simps)
  next
    case False
    then obtain lo p1 hi p2 rs' where p: "esc p = Some (lo, p1)" "esc_hi lo p1 = Some (hi, p2)" "parse_ranges p2 True = Some (rs', q)"
      using less.prems by (subst (asm) parse_ranges.simps) (auto split: option.splits)
    then have "length p2 < length p" using esc_shorter [OF p(1)] esc_hi_shorter [OF p(2)] by simp
    then show ?thesis using less.hyps p(3) by fastforce
  qed
qed

definition parse_class :: "byte list \<Rightarrow> (pterm \<times> byte list) option" where
  "parse_class p =
     (let neg = (p \<noteq> [] \<and> hd p = ch_caret)
      in map_option (\<lambda>(rs, q). (Class neg rs, q)) (parse_ranges (if neg then tl p else p) False))"

lemma parse_class_shorter: "parse_class p = Some (t, q) \<Longrightarrow> length q < length p"
  by (cases p) (auto simp: parse_class_def Let_def split: if_splits dest!: parse_ranges_shorter)

text \<open>The next term. Within a chunk a star cannot be the next term; \<open>star\<close> says what it is read as.\<close>

fun next_term :: "pterm \<Rightarrow> byte list \<Rightarrow> (pterm \<times> byte list) option" where
  "next_term star [] = None"
| "next_term star (c # p) =
     (if c = ch_star then Some (star, p)
      else if c = ch_any then Some (Any, p)
      else if c = ch_open then parse_class p
      else if c = ch_back then (case p of [] \<Rightarrow> None | d # q \<Rightarrow> Some (Lit d, q))
      else Some (Lit c, p))"

lemma next_term_shorter: "next_term star p = Some (t, q) \<Longrightarrow> length q < length p"
  by (cases p) (auto split: if_splits list.splits dest!: parse_class_shorter)

function parse_with :: "pterm \<Rightarrow> byte list \<Rightarrow> pterm list option" where
  "parse_with star p =
     (if p = [] then Some []
      else case next_term star p of None \<Rightarrow> None | Some (t, q) \<Rightarrow> map_option ((#) t) (parse_with star q))"
  by pat_completeness auto
termination
  by (relation "measure (\<lambda>(star, p). length p)") (auto dest: next_term_shorter)

declare parse_with.simps [simp del]

definition parse :: "byte list \<Rightarrow> pterm list option" where
  "parse p = parse_with Star p"

abbreviation parse_chunk :: "byte list \<Rightarrow> pterm list option" where
  "parse_chunk p \<equiv> parse_with (Lit ch_star) p"

subsection \<open>What a pattern matches\<close>

definition in_ranges :: "(rune \<times> rune) list \<Rightarrow> rune \<Rightarrow> bool" where
  "in_ranges rs r \<longleftrightarrow> (\<exists>(lo, hi) \<in> set rs. sint lo \<le> sint r \<and> sint r \<le> sint hi)"

text \<open>A term other than a star takes one character from the front of the name.\<close>

fun eats :: "pterm \<Rightarrow> byte list \<Rightarrow> byte list option" where
  "eats Star s = None"
| "eats Any s = (if s = [] \<or> hd s = slash then None else Some (drop (snd (decode s)) s))"
| "eats (Class neg rs) s = (if s = [] \<or> in_ranges rs (fst (decode s)) = neg then None else Some (drop (snd (decode s)) s))"
| "eats (Lit c) s = (case s of [] \<Rightarrow> None | d # q \<Rightarrow> if c = d then Some q else None)"

fun eats_all :: "pterm list \<Rightarrow> byte list \<Rightarrow> byte list option" where
  "eats_all [] s = Some s"
| "eats_all (t # ts) s = Option.bind (eats t s) (eats_all ts)"

text \<open>The whole pattern: a star takes any bytes but a slash.\<close>

fun matches :: "pterm list \<Rightarrow> byte list \<Rightarrow> bool" where
  "matches [] s \<longleftrightarrow> s = []"
| "matches (Star # ts) s \<longleftrightarrow> (\<exists>k \<le> length s. slash \<notin> set (take k s) \<and> matches ts (drop k s))"
| "matches (t # ts) s \<longleftrightarrow> (case eats t s of None \<Rightarrow> False | Some q \<Rightarrow> matches ts q)"

subsection \<open>The code on one chunk\<close>

lemma from_index_drop: "n \<le> length s \<Longrightarrow> from_index s (int n) = Some (drop n s)"
  by (simp add: from_index_def)

lemma getEsc_Some: "esc p = Some (r, q) \<Longrightarrow> getEsc p = Some (r, q, None)"
  using decode_total [of p] decode_total [of "tl p"]
  by (cases p) (auto simp: esc_def getEsc_def Let_def idx_def from_index_drop prod_eq_iff split: if_splits)

lemma getEsc_None: "esc p = None \<Longrightarrow> \<exists>r q. getEsc p = Some (r, q, Some ErrBadPattern)"
  using decode_total [of p] decode_total [of "tl p"]
  by (cases p) (auto simp: esc_def getEsc_def Let_def idx_def from_index_drop prod_eq_iff split: if_splits)

lemma in_ranges_simps [simp]:
  "\<not> in_ranges [] r"
  "in_ranges ((lo, hi) # rs) r \<longleftrightarrow> sint lo \<le> sint r \<and> sint r \<le> sint hi \<or> in_ranges rs r"
  by (auto simp: in_ranges_def)

lemma class_step_closed:
  assumes "sm = (0 < n)" "sm" "p \<noteq> []" "hd p = ch_close"
  shows "class_loop p r mat n = Some (tl p, mat, None)"
  using assms by (cases p) (simp_all add: class_loop.simps idx_def)

lemma class_step:
  assumes "\<not> (0 < n \<and> p \<noteq> [] \<and> hd p = ch_close)" "esc p = Some (lo, p1)" "esc_hi lo p1 = Some (hi, p2)"
  shows "class_loop p r mat n = class_loop p2 r (mat \<or> sint lo \<le> sint r \<and> sint r \<le> sint hi) (n + 1)"
proof -
  have c: "(if length p > 0 then do { c \<leftarrow> idx p 0; Some (c = ch_close \<and> n > 0) } else Some False) = Some False"
    using assms(1) by (cases p) (auto simp: idx_def)
  have i: "idx p1 0 = Some (hd p1)" using esc_rest [OF assms(2)] by (cases p1) (simp_all add: idx_def)
  have h: "(if hd p1 = ch_minus then getEsc (drop 1 p1) else Some (lo, p1, None)) = Some (hi, p2, None)"
    using assms(3) getEsc_Some [of "tl p1"] by (auto simp: esc_hi_def drop_Suc split: if_splits)
  show ?thesis by (subst class_loop.simps) (simp add: c [simplified] getEsc_Some [OF assms(2)] i h [simplified])
qed

lemma class_step_error:
  assumes "\<not> (0 < n \<and> p \<noteq> [] \<and> hd p = ch_close)"
    "esc p = None \<or> (\<exists>lo p1. esc p = Some (lo, p1) \<and> esc_hi lo p1 = None)"
  shows "class_loop p r mat n = Some ([], False, Some ErrBadPattern)"
proof -
  have c: "(if length p > 0 then do { c \<leftarrow> idx p 0; Some (c = ch_close \<and> n > 0) } else Some False) = Some False"
    using assms(1) by (cases p) (auto simp: idx_def)
  from assms(2) show ?thesis
  proof
    assume "esc p = None"
    then obtain r' q' where "getEsc p = Some (r', q', Some ErrBadPattern)" using getEsc_None by blast
    then show ?thesis by (subst class_loop.simps) (simp add: c [simplified])
  next
    assume "\<exists>lo p1. esc p = Some (lo, p1) \<and> esc_hi lo p1 = None"
    then obtain lo p1 where e: "esc p = Some (lo, p1)" "esc_hi lo p1 = None" by blast
    have i: "idx p1 0 = Some (hd p1)" using esc_rest [OF e(1)] by (cases p1) (simp_all add: idx_def)
    have m: "hd p1 = ch_minus" "esc (tl p1) = None" using e(2) by (auto simp: esc_hi_def split: if_splits)
    then obtain r' q' where "getEsc (drop 1 p1) = Some (r', q', Some ErrBadPattern)" using getEsc_None [OF m(2)] by (auto simp: drop_Suc)
    then show ?thesis using m(1) by (subst class_loop.simps) (simp add: c [simplified] getEsc_Some [OF e(1)] i)
  qed
qed

lemma class_loop_ok:
  assumes "0 \<le> n"
  shows "parse_ranges p (0 < n) = Some (rs, q) \<Longrightarrow> class_loop p r mat n = Some (q, mat \<or> in_ranges rs r, None)"
    and "parse_ranges p (0 < n) = None \<Longrightarrow> class_loop p r mat n = Some ([], False, Some ErrBadPattern)"
proof -
  have "(\<forall>rs q. parse_ranges p (0 < n) = Some (rs, q) \<longrightarrow> class_loop p r mat n = Some (q, mat \<or> in_ranges rs r, None))
    \<and> (parse_ranges p (0 < n) = None \<longrightarrow> class_loop p r mat n = Some ([], False, Some ErrBadPattern))"
    using assms
  proof (induction "length p" arbitrary: p n mat rule: less_induct)
    case less
    note pr = parse_ranges.simps [of p "0 < n"]
    consider "0 < n" "p \<noteq> []" "hd p = ch_close"
      | lo p1 hi p2 where "\<not> (0 < n \<and> p \<noteq> [] \<and> hd p = ch_close)" "esc p = Some (lo, p1)" "esc_hi lo p1 = Some (hi, p2)"
      | "\<not> (0 < n \<and> p \<noteq> [] \<and> hd p = ch_close)" "esc p = None \<or> (\<exists>lo p1. esc p = Some (lo, p1) \<and> esc_hi lo p1 = None)"
      by (cases "esc p") fastforce+
    then show ?case
    proof cases
      case 1
      then show ?thesis using class_step_closed [of "0 < n" n p r mat] pr by simp
    next
      case (2 lo p1 hi p2)
      have "length p2 < length p" using esc_shorter [OF 2(2)] esc_hi_shorter [OF 2(3)] by simp
      from less.hyps [OF this, of "n + 1" "mat \<or> sint lo \<le> sint r \<and> sint r \<le> sint hi"] show ?thesis
        using less.prems 2 pr class_step [OF 2, of r mat] by (auto simp: disj_assoc)
    next
      case 3
      then show ?thesis using class_step_error [OF 3, of r mat] pr by (auto split: option.splits)
    qed
  qed
  then show "parse_ranges p (0 < n) = Some (rs, q) \<Longrightarrow> class_loop p r mat n = Some (q, mat \<or> in_ranges rs r, None)"
    "parse_ranges p (0 < n) = None \<Longrightarrow> class_loop p r mat n = Some ([], False, Some ErrBadPattern)"
    by blast+
qed

text \<open>One round of \<^verbatim>\<open>matchChunk\<close>: after a failure the name is not read any more.\<close>

lemma chunk_class:
  fixes s :: "byte list"
  defines "q0 p \<equiv> if p \<noteq> [] \<and> hd p = ch_caret then tl p else p"
  assumes "c = ch_open"
  shows "matchChunk_loop (c # p) s failed =
    do {
      let failed = (failed \<or> s = []);
      (chunk, mat, err) \<leftarrow> class_loop (q0 p) (if failed then 0 else fst (decode s)) False 0;
      if err \<noteq> None then Some ([], False, err)
      else matchChunk_loop chunk (if failed then s else drop (snd (decode s)) s)
        (failed \<or> mat = (p \<noteq> [] \<and> hd p = ch_caret))
    }"
  using decode_total [of s] from_index_drop [of "snd (decode s)" s] assms(2)
  by (subst matchChunk_loop.simps) (cases p; cases "s = []"; cases failed; simp add: q0_def idx_def Let_def case_prod_unfold cong: if_cong)

lemma chunk_step:
  assumes "next_term (Lit ch_star) p = Some (t, q)"
  shows "failed \<or> eats t s = None \<Longrightarrow> \<exists>s'. matchChunk_loop p s failed = matchChunk_loop q s' True"
    and "\<not> failed \<Longrightarrow> eats t s = Some s' \<Longrightarrow> matchChunk_loop p s failed = matchChunk_loop q s' False"
proof -
  obtain c p' where p: "p = c # p'" using assms by (cases p) auto
  have "(failed \<or> eats t s = None \<longrightarrow> (\<exists>s'. matchChunk_loop p s failed = matchChunk_loop q s' True))
      \<and> (\<not> failed \<longrightarrow> eats t s = Some s' \<longrightarrow> matchChunk_loop p s failed = matchChunk_loop q s' False)"
  proof (cases "c = ch_open")
    case True
    let ?neg = "p' \<noteq> [] \<and> hd p' = ch_caret"
    obtain rs where r: "parse_ranges (if ?neg then tl p' else p') False = Some (rs, q)" "t = Class ?neg rs"
      using assms p True by (auto simp: parse_class_def Let_def split: if_splits)
    have "class_loop (if ?neg then tl p' else p') x False 0 = Some (q, in_ranges rs x, None)" for x
      using class_loop_ok(1) [of 0 "if ?neg then tl p' else p'" rs q x False] r(1) by simp
    then show ?thesis using chunk_class [OF True, of p' s failed] r(2) p by (auto simp: Let_def)
  next
    case False
    show ?thesis
    proof (cases "c = ch_any")
      case True
      then show ?thesis
        using assms p decode_total [of s] from_index_drop [of "snd (decode s)" s]
        by (subst (1 3) matchChunk_loop.simps) (cases s; auto simp: idx_def Let_def)
    next
      case na: False
      show ?thesis
      proof (cases "c = ch_back")
        case True
        then obtain d where "p' = d # q" "t = Lit d" using assms p by (auto split: list.splits)
        with True show ?thesis
          unfolding p by (subst (1 3) matchChunk_loop.simps) (cases s; auto simp: idx_def Let_def from_index_def)
      next
        case nb: False
        then have "q = p'" "t = Lit c" using assms p False na by (auto split: if_splits)
        with False na nb show ?thesis
          unfolding p by (subst (1 3) matchChunk_loop.simps) (cases s; auto simp: idx_def Let_def from_index_def)
      qed
    qed
  qed
  then show "failed \<or> eats t s = None \<Longrightarrow> \<exists>s'. matchChunk_loop p s failed = matchChunk_loop q s' True"
    "\<not> failed \<Longrightarrow> eats t s = Some s' \<Longrightarrow> matchChunk_loop p s failed = matchChunk_loop q s' False"
    by blast+
qed

lemma chunk_error:
  assumes "p \<noteq> []" "next_term (Lit ch_star) p = None"
  shows "matchChunk_loop p s failed = Some ([], False, Some ErrBadPattern)"
proof -
  obtain c p' where p: "p = c # p'" using assms by (cases p) auto
  consider "c = ch_open" "parse_class p' = None" | "c = ch_back" "p' = []"
    using assms(2) p by (auto split: if_splits list.splits)
  then show ?thesis
  proof cases
    case 1
    let ?neg = "p' \<noteq> [] \<and> hd p' = ch_caret"
    have "parse_ranges (if ?neg then tl p' else p') False = None" using 1(2) by (simp add: parse_class_def Let_def)
    then have "class_loop (if ?neg then tl p' else p') x False 0 = Some ([], False, Some ErrBadPattern)" for x
      using class_loop_ok(2) [of 0 "if ?neg then tl p' else p'" x False] by simp
    then show ?thesis using chunk_class [OF 1(1), of p' s failed] p by (simp add: Let_def)
  next
    case 2
    then show ?thesis unfolding p by (subst matchChunk_loop.simps) (simp add: idx_def Let_def)
  qed
qed

lemma matchChunk_loop_ok:
  shows "parse_chunk p = Some ts \<Longrightarrow> matchChunk_loop p s failed
      = Some (case (if failed then None else eats_all ts s) of None \<Rightarrow> ([], False, None) | Some q \<Rightarrow> (q, True, None))"
    and "parse_chunk p = None \<Longrightarrow> matchChunk_loop p s failed = Some ([], False, Some ErrBadPattern)"
proof -
  have "(\<forall>ts. parse_chunk p = Some ts \<longrightarrow> matchChunk_loop p s failed
      = Some (case (if failed then None else eats_all ts s) of None \<Rightarrow> ([], False, None) | Some q \<Rightarrow> (q, True, None)))
    \<and> (parse_chunk p = None \<longrightarrow> matchChunk_loop p s failed = Some ([], False, Some ErrBadPattern))"
  proof (induction "length p" arbitrary: p s failed rule: less_induct)
    case less
    note pr = parse_with.simps [of "Lit ch_star" p]
    consider "p = []" | "p \<noteq> []" "next_term (Lit ch_star) p = None" | t q where "next_term (Lit ch_star) p = Some (t, q)" by fastforce
    then show ?case
    proof cases
      case 1
      then show ?thesis by (subst matchChunk_loop.simps) (simp add: parse_with.simps)
    next
      case 2
      then show ?thesis using chunk_error [OF 2] pr by simp
    next
      case (3 t q)
      have l: "length q < length p" by (rule next_term_shorter [OF 3])
      have ne: "p \<noteq> []" using 3 by auto
      show ?thesis
      proof (cases "failed \<or> eats t s = None")
        case True
        then obtain s' where "matchChunk_loop p s failed = matchChunk_loop q s' True" using chunk_step(1) [OF 3] by blast
        then show ?thesis using less.hyps [OF l, of s' True] pr 3 ne True by auto
      next
        case False
        then obtain s' where e: "eats t s = Some s'" by auto
        then have "matchChunk_loop p s failed = matchChunk_loop q s' False" using chunk_step(2) [OF 3] False by blast
        then show ?thesis using less.hyps [OF l, of s' False] pr 3 ne False e by auto
      qed
    qed
  qed
  then show "parse_chunk p = Some ts \<Longrightarrow> matchChunk_loop p s failed
      = Some (case (if failed then None else eats_all ts s) of None \<Rightarrow> ([], False, None) | Some q \<Rightarrow> (q, True, None))"
    "parse_chunk p = None \<Longrightarrow> matchChunk_loop p s failed = Some ([], False, Some ErrBadPattern)"
    by blast+
qed

end
