(* ===== verification/Path_Scan.thy ===== *)
theory Path_Scan
  imports Path_Pattern
begin

text \<open>
  \<^verbatim>\<open>scanChunk\<close> cuts a pattern at a star outside of brackets without parsing it. The cut agrees with the parse: a pattern is
  well-formed exactly when its chunks are, and its terms are theirs.
\<close>

subsection \<open>The cut as a function on lists\<close>

fun chunk_of :: "bool \<Rightarrow> byte list \<Rightarrow> byte list" where
  "chunk_of inr [] = []"
| "chunk_of inr (c # p) =
     (if c = ch_back then (case p of [] \<Rightarrow> [c] | d # q \<Rightarrow> c # d # chunk_of inr q)
      else if c = ch_open then c # chunk_of True p
      else if c = ch_close then c # chunk_of False p
      else if c = ch_star \<and> \<not> inr then []
      else c # chunk_of inr p)"

abbreviation rest_of :: "bool \<Rightarrow> byte list \<Rightarrow> byte list" where
  "rest_of inr p \<equiv> drop (length (chunk_of inr p)) p"

declare chunk_of.simps(2) [simp del]

lemma chunk_of_simps [simp]:
  "chunk_of inr [ch_back] = [ch_back]"
  "chunk_of inr (ch_back # d # q) = ch_back # d # chunk_of inr q"
  "chunk_of inr (ch_open # q) = ch_open # chunk_of True q"
  "chunk_of inr (ch_close # q) = ch_close # chunk_of False q"
  "chunk_of False (ch_star # q) = []"
  "chunk_of True (ch_star # q) = ch_star # chunk_of True q"
  "c \<noteq> ch_back \<Longrightarrow> c \<noteq> ch_open \<Longrightarrow> c \<noteq> ch_close \<Longrightarrow> c \<noteq> ch_star \<Longrightarrow> chunk_of inr (c # q) = c # chunk_of inr q"
  by (simp_all add: chunk_of.simps(2))

text \<open>The cases of the scanner as an induction rule.\<close>

lemma chunk_induct [case_names Nil esc_end escaped opened closed star star_in other]:
  assumes "\<And>inr. P inr []" "\<And>inr. P inr [ch_back]"
    "\<And>inr d q. P inr q \<Longrightarrow> P inr (ch_back # d # q)"
    "\<And>inr q. P True q \<Longrightarrow> P inr (ch_open # q)" "\<And>inr q. P False q \<Longrightarrow> P inr (ch_close # q)"
    "\<And>q. P False (ch_star # q)" "\<And>q. P True q \<Longrightarrow> P True (ch_star # q)"
    "\<And>inr c q. c \<noteq> ch_back \<Longrightarrow> c \<noteq> ch_open \<Longrightarrow> c \<noteq> ch_close \<Longrightarrow> c \<noteq> ch_star \<Longrightarrow> P inr q \<Longrightarrow> P inr (c # q)"
  shows "P inr p"
proof (induction "length p" arbitrary: inr p rule: less_induct)
  case less
  show ?case
  proof (cases p)
    case Nil
    then show ?thesis using assms(1) by simp
  next
    case (Cons c q)
    consider "c = ch_back" "q = []" | d r where "c = ch_back" "q = d # r" | "c = ch_open" | "c = ch_close"
      | "c = ch_star" "inr" | "c = ch_star" "\<not> inr" | "c \<noteq> ch_back" "c \<noteq> ch_open" "c \<noteq> ch_close" "c \<noteq> ch_star"
      by (cases q) auto
    then show ?thesis by cases (use less assms Cons in auto)
  qed
qed

lemma chunk_of_prefix: "take (length (chunk_of inr p)) p = chunk_of inr p"
  by (induction inr p rule: chunk_induct) simp_all

lemma chunk_rest: "chunk_of inr p @ rest_of inr p = p"
  using chunk_of_prefix [of inr p] append_take_drop_id [of "length (chunk_of inr p)" p] by simp

lemma rest_star: "rest_of inr p = [] \<or> hd (rest_of inr p) = ch_star"
  by (induction inr p rule: chunk_induct) simp_all

lemma chunk_True_Nil: "chunk_of True p = [] \<longleftrightarrow> p = []"
proof -
  have "b \<and> chunk_of b p = [] \<longrightarrow> p = []" for b
    by (induction b p rule: chunk_induct) simp_all
  from this [of True] show ?thesis by (cases "p = []") simp_all
qed

lemma scan_loop_eq: "scan_loop (pre @ p) (int (length pre)) inr = Some (int (length pre) + int (length (chunk_of inr p)))"
proof (induction inr p arbitrary: pre rule: chunk_induct)
  case (Nil inr)
  show ?case by (subst scan_loop.simps) simp
next
  case (esc_end inr)
  show ?case by (subst scan_loop.simps, simp add: idx_def, subst scan_loop.simps) simp
next
  case (escaped inr d q)
  from escaped [of "pre @ [ch_back, d]"] show ?case by (subst scan_loop.simps) (simp add: idx_def add.commute)
next
  case (opened inr q)
  from opened [of "pre @ [ch_open]"] show ?case by (subst scan_loop.simps) (simp add: idx_def add.commute)
next
  case (closed inr q)
  from closed [of "pre @ [ch_close]"] show ?case by (subst scan_loop.simps) (simp add: idx_def add.commute)
next
  case (star q)
  show ?case by (subst scan_loop.simps) (simp add: idx_def)
next
  case (star_in q)
  have "ch_star \<noteq> ch_back" "ch_star \<noteq> ch_open" "ch_star \<noteq> ch_close" by simp_all
  with star_in [of "pre @ [ch_star]"] show ?case
    by (subst scan_loop.simps) (simp add: idx_def add.commute del: numeral_eq_iff word_eq_numeral_iff_iszero)
next
  case (other inr c q)
  from other(5) [of "pre @ [c]"] other(1-4) show ?case by (subst scan_loop.simps) (simp add: idx_def add.commute)
qed

lemma scan_stars_eq: "scan_stars p b = (b \<or> (p \<noteq> [] \<and> hd p = ch_star), dropWhile (\<lambda>c. c = ch_star) p)"
  by (induction p arbitrary: b) auto

lemma scanChunk_eq:
  "scanChunk p = (let q = dropWhile (\<lambda>c. c = ch_star) p in Some (p \<noteq> [] \<and> hd p = ch_star, chunk_of False q, rest_of False q))"
  using scan_loop_eq [of "[]"] by (simp add: scanChunk_def scan_stars_eq Let_def chunk_of_prefix)

subsection \<open>The cut agrees with the parse\<close>

text \<open>Inside a class the bytes of a character are copied, whatever its first byte is.\<close>

lemma chunk_copy: "\<forall>b \<in> set u. 0x80 \<le> uint b \<Longrightarrow> chunk_of True (u @ q) = u @ chunk_of True q"
proof (induction u)
  case (Cons b u)
  then have "0x80 \<le> uint b" by simp
  then have "b \<noteq> ch_back" "b \<noteq> ch_open" "b \<noteq> ch_close" "b \<noteq> ch_star" by auto
  then show ?case using Cons by simp
qed simp

lemma well_formed_tail: "well_formed (d # u) \<Longrightarrow> \<forall>b \<in> set u. 0x80 \<le> uint b"
  by (cases "d # u" rule: well_formed.cases) (auto simp: cont_byte_def)

lemma chunk_True_Cons: "c \<noteq> ch_back \<Longrightarrow> c \<noteq> ch_close \<Longrightarrow> chunk_of True (c # p) = c # chunk_of True p"
  by (cases "c = ch_open"; cases "c = ch_star") simp_all

lemma hd_chunk_True: "p \<noteq> [] \<Longrightarrow> chunk_of True p \<noteq> [] \<and> hd (chunk_of True p) = hd p"
proof (cases p)
  case (Cons c q)
  then show ?thesis by (cases "c = ch_back"; cases "c = ch_close"; cases q) (simp_all add: chunk_True_Cons)
qed simp

text \<open>What \<open>esc\<close> accepts: an optional backslash, the encoding of a character and a rest that is not empty.\<close>

lemma esc_SomeI:
  assumes "well_formed w" "q \<noteq> []" "pre = [] \<and> hd w \<notin> {ch_minus, ch_close, ch_back} \<or> pre = [ch_back]"
  shows "esc (pre @ w @ q) = Some (word_of_int (scalar_value w), q)"
proof -
  have "w \<noteq> []" using well_formed_length [OF assms(1)] by auto
  then show ?thesis using assms decode_well_formed [OF assms(1), of q] well_formed_not_error [OF assms(1)]
    by (auto simp: esc_def Let_def)
qed

lemma esc_SomeE:
  assumes "esc p = Some (r, q)"
  obtains pre w where "p = pre @ w @ q" "well_formed w" "q \<noteq> []" "r = word_of_int (scalar_value w)"
    "pre = [] \<and> hd w \<notin> {ch_minus, ch_close, ch_back} \<or> pre = [ch_back]"
proof -
  define s where "s = (if hd p = ch_back then tl p else p)"
  have p: "p \<noteq> []" "hd p \<noteq> ch_minus" "hd p \<noteq> ch_close" "s \<noteq> []" "decode s \<noteq> (RuneError, 1)" "drop (snd (decode s)) s = q" "q \<noteq> []"
    "r = fst (decode s)"
    using assms unfolding esc_def s_def Let_def by (auto split: if_splits)
  obtain w x where w: "s = w @ x" "well_formed w" using p(4,5) decode_error_iff [OF p(4)] starts_well_iff by blast
  have q: "q = x" "r = word_of_int (scalar_value w)" using p decode_well_formed [OF w(2), of x] w(1) by auto
  have "w \<noteq> []" using well_formed_length [OF w(2)] by auto
  then have "p = (if hd p = ch_back then [ch_back] else []) @ w @ q" "hd p \<noteq> ch_back \<Longrightarrow> hd w = hd p"
    using p(1) w(1) q unfolding s_def by (cases p; simp split: if_splits)+
  then show ?thesis using that [of "[ch_back]" w] that [of "[]" w] w(2) q p by (cases "hd p = ch_back") simp_all
qed

lemma esc_cut_copy:
  assumes "well_formed w" "pre = [] \<and> hd w \<notin> {ch_minus, ch_close, ch_back} \<or> pre = [ch_back]"
  shows "chunk_of True (pre @ w @ q) = pre @ w @ chunk_of True q"
proof -
  obtain d u where u: "w = d # u" using well_formed_length [OF assms(1)] by (cases w) auto
  then show ?thesis using assms chunk_copy [OF well_formed_tail, of d u q] chunk_True_Cons [of d] by auto
qed

lemma esc_chunk:
  "esc p = None \<Longrightarrow> esc (chunk_of True p) = None"
  "esc p = Some (r, q) \<Longrightarrow> esc (chunk_of True p) = Some (r, chunk_of True q)"
proof -
  show "esc (chunk_of True p) = None" if n: "esc p = None"
  proof (rule ccontr)
    assume "esc (chunk_of True p) \<noteq> None"
    then obtain r q where "esc (chunk_of True p) = Some (r, q)" by auto
    then obtain pre w where "chunk_of True p = pre @ w @ q" "well_formed w" "q \<noteq> []"
      "pre = [] \<and> hd w \<notin> {ch_minus, ch_close, ch_back} \<or> pre = [ch_back]" by (rule esc_SomeE)
    then show False using esc_SomeI [of w "q @ rest_of True p" pre] chunk_rest [of True p] n by (metis append.assoc append_is_Nil_conv option.distinct(1))
  qed
  assume "esc p = Some (r, q)"
  then obtain pre w where w: "p = pre @ w @ q" "well_formed w" "q \<noteq> []" "r = word_of_int (scalar_value w)"
      "pre = [] \<and> hd w \<notin> {ch_minus, ch_close, ch_back} \<or> pre = [ch_back]" by (rule esc_SomeE)
  then show "esc (chunk_of True p) = Some (r, chunk_of True q)"
    using esc_cut_copy [OF w(2) w(5)] esc_SomeI [OF w(2) _ w(5), of "chunk_of True q"] chunk_True_Nil by simp
qed

lemma tl_chunk_minus: "p \<noteq> [] \<Longrightarrow> hd p = ch_minus \<or> hd p = ch_caret \<Longrightarrow> tl (chunk_of True p) = chunk_of True (tl p)"
  by (cases p) (auto simp: chunk_True_Cons)

lemma esc_hi_chunk:
  assumes "p \<noteq> []"
  shows "esc_hi lo p = None \<Longrightarrow> esc_hi lo (chunk_of True p) = None"
    and "esc_hi lo p = Some (hi, q) \<Longrightarrow> esc_hi lo (chunk_of True p) = Some (hi, chunk_of True q)"
  using hd_chunk_True [OF assms] tl_chunk_minus [OF assms] esc_chunk [of "tl p"] by (auto simp: esc_hi_def split: if_splits)

text \<open>The cut of \<open>p\<close> goes on with the cut of \<open>q\<close>.\<close>

definition cut_goes_on :: "bool \<Rightarrow> byte list \<Rightarrow> bool \<Rightarrow> byte list \<Rightarrow> bool" where
  "cut_goes_on b p b' q \<longleftrightarrow> (\<exists>u. p = u @ q \<and> chunk_of b p = u @ chunk_of b' q)"

lemma cut_trans: "cut_goes_on b p b' q \<Longrightarrow> cut_goes_on b' q b'' r \<Longrightarrow> cut_goes_on b p b'' r"
  unfolding cut_goes_on_def by (elim exE conjE) (rule_tac x = "u @ ua" in exI, simp)

lemma cut_rest: "cut_goes_on b p b' q \<Longrightarrow> rest_of b p = rest_of b' q"
  unfolding cut_goes_on_def by auto

lemma cut_one: "chunk_of b (c # p) = c # chunk_of b' p \<Longrightarrow> cut_goes_on b (c # p) b' p"
  unfolding cut_goes_on_def by (rule exI [of _ "[c]"]) simp

lemma esc_cut:
  assumes "esc p = Some (r, q)"
  shows "cut_goes_on True p True q"
proof -
  obtain pre w where w: "p = pre @ w @ q" "well_formed w" "pre = [] \<and> hd w \<notin> {ch_minus, ch_close, ch_back} \<or> pre = [ch_back]"
    using assms by (rule esc_SomeE)
  then show ?thesis using esc_cut_copy [OF w(2,3), of q] unfolding cut_goes_on_def by (intro exI [of _ "pre @ w"]) simp
qed

lemma esc_hi_cut:
  assumes "p \<noteq> []" "esc_hi lo p = Some (hi, q)"
  shows "cut_goes_on True p True q"
proof (cases "hd p = ch_minus")
  case True
  then obtain s where p: "p = ch_minus # s" using assms(1) by (cases p) auto
  have "esc s = Some (hi, q)" using assms(2) p by (simp add: esc_hi_def)
  then show ?thesis using cut_trans [OF cut_one esc_cut] p by simp
next
  case False
  then show ?thesis using assms(2) by (auto simp: esc_hi_def cut_goes_on_def)
qed

lemma ranges_cases [case_names closed range error]:
  fixes p :: "byte list"
  obtains "sm" "p \<noteq> []" "hd p = ch_close"
    | lo p1 hi p2 where "\<not> (sm \<and> p \<noteq> [] \<and> hd p = ch_close)" "esc p = Some (lo, p1)" "esc_hi lo p1 = Some (hi, p2)"
    | "\<not> (sm \<and> p \<noteq> [] \<and> hd p = ch_close)" "esc p = None \<or> (\<exists>lo p1. esc p = Some (lo, p1) \<and> esc_hi lo p1 = None)"
  by (cases "esc p") fastforce+

lemma chunk_True_close:
  "sm \<and> chunk_of True p \<noteq> [] \<and> hd (chunk_of True p) = ch_close \<longleftrightarrow> sm \<and> p \<noteq> [] \<and> hd p = ch_close"
  using hd_chunk_True [of p] chunk_True_Nil [of p] by (cases "p = []") auto

lemma parse_ranges_chunk_None: "parse_ranges p sm = None \<Longrightarrow> parse_ranges (chunk_of True p) sm = None"
proof (induction "length p" arbitrary: p sm rule: less_induct)
  case less
  note pr = parse_ranges.simps [of p sm] parse_ranges.simps [of "chunk_of True p" sm]
  show ?case
  proof (cases rule: ranges_cases [of sm p])
    case closed
    then show ?thesis using pr less.prems by simp
  next
    case (range lo p1 hi p2)
    have l: "length p2 < length p" using esc_shorter [OF range(2)] esc_hi_shorter [OF range(3)] by simp
    have "esc (chunk_of True p) = Some (lo, chunk_of True p1)" "esc_hi lo (chunk_of True p1) = Some (hi, chunk_of True p2)"
      using esc_chunk(2) [OF range(2)] esc_hi_chunk(2) [OF esc_rest [OF range(2)] range(3)] by simp_all
    then show ?thesis using less.hyps [OF l, of True] less.prems pr range chunk_True_close [of sm p] by auto
  next
    case error
    have "esc (chunk_of True p) = None \<or> (\<exists>lo p1. esc (chunk_of True p) = Some (lo, p1) \<and> esc_hi lo p1 = None)"
      using error(2) esc_chunk esc_hi_chunk(1) esc_rest by metis
    then show ?thesis using pr error chunk_True_close [of sm p] by (auto split: option.splits)
  qed
qed

lemma parse_ranges_chunk_Some:
  "parse_ranges p sm = Some (rs, q) \<Longrightarrow> parse_ranges (chunk_of True p) sm = Some (rs, chunk_of False q) \<and> cut_goes_on True p False q"
proof (induction "length p" arbitrary: p sm rs rule: less_induct)
  case less
  note pr = parse_ranges.simps [of p sm] parse_ranges.simps [of "chunk_of True p" sm]
  show ?case
  proof (cases rule: ranges_cases [of sm p])
    case closed
    then obtain s where p: "p = ch_close # s" by (cases p) auto
    have "cut_goes_on True p False s" unfolding p by (rule cut_one) simp
    then show ?thesis using closed pr less.prems p by simp
  next
    case (range lo p1 hi p2)
    have l: "length p2 < length p" using esc_shorter [OF range(2)] esc_hi_shorter [OF range(3)] by simp
    obtain rs' where rs: "rs = (lo, hi) # rs'" "parse_ranges p2 True = Some (rs', q)" using less.prems pr range by auto
    note ih = less.hyps [OF l rs(2)]
    have "esc (chunk_of True p) = Some (lo, chunk_of True p1)" "esc_hi lo (chunk_of True p1) = Some (hi, chunk_of True p2)"
      using esc_chunk(2) [OF range(2)] esc_hi_chunk(2) [OF esc_rest [OF range(2)] range(3)] by simp_all
    then have "parse_ranges (chunk_of True p) sm = Some (rs, chunk_of False q)"
      using ih pr range rs chunk_True_close [of sm p] by auto
    moreover have "cut_goes_on True p False q"
      using cut_trans [OF cut_trans [OF esc_cut [OF range(2)] esc_hi_cut [OF esc_rest [OF range(2)] range(3)]]] ih by blast
    ultimately show ?thesis ..
  next
    case error
    then show ?thesis using pr less.prems by (auto split: option.splits)
  qed
qed

lemma parse_class_chunk:
  "parse_class p = None \<Longrightarrow> parse_class (chunk_of True p) = None"
  "parse_class p = Some (t, q) \<Longrightarrow> parse_class (chunk_of True p) = Some (t, chunk_of False q) \<and> cut_goes_on True p False q"
proof -
  have tail: "cut_goes_on True p True (tl p)" if "p \<noteq> []" "hd p = ch_caret" using that by (cases p) (auto intro!: cut_one)
  show "parse_class p = None \<Longrightarrow> parse_class (chunk_of True p) = None"
    using hd_chunk_True [of p] tl_chunk_minus [of p] parse_ranges_chunk_None
    by (cases "p = []") (auto simp: parse_class_def Let_def split: if_splits)
  assume c: "parse_class p = Some (t, q)"
  show "parse_class (chunk_of True p) = Some (t, chunk_of False q) \<and> cut_goes_on True p False q"
  proof (cases "p \<noteq> [] \<and> hd p = ch_caret")
    case True
    then obtain rs where "parse_ranges (tl p) False = Some (rs, q)" "t = Class True rs" using c by (auto simp: parse_class_def)
    then show ?thesis using parse_ranges_chunk_Some [of "tl p" False rs q] True hd_chunk_True [of p] tl_chunk_minus [of p]
        cut_trans [OF tail] by (auto simp: parse_class_def)
  next
    case False
    then obtain rs where "parse_ranges p False = Some (rs, q)" "t = Class False rs"
      using c by (auto simp: parse_class_def simp del: not_None_eq)
    moreover have "(chunk_of True p \<noteq> [] \<and> hd (chunk_of True p) = ch_caret) = False"
      using False hd_chunk_True [of p] chunk_True_Nil [of p] by (cases "p = []") auto
    ultimately show ?thesis using parse_ranges_chunk_Some [of p False rs q] unfolding parse_class_def Let_def by auto
  qed
qed

lemma next_term_chunk:
  assumes "p = [] \<or> hd p \<noteq> ch_star"
  shows "next_term st p = None \<Longrightarrow> next_term st' (chunk_of False p) = None"
    and "next_term st p = Some (t, q) \<Longrightarrow> next_term st' (chunk_of False p) = Some (t, chunk_of False q) \<and> cut_goes_on False p False q"
proof -
  have "(next_term st p = None \<longrightarrow> next_term st' (chunk_of False p) = None)
    \<and> (next_term st p = Some (t, q) \<longrightarrow> next_term st' (chunk_of False p) = Some (t, chunk_of False q) \<and> cut_goes_on False p False q)"
  proof (cases p)
    case (Cons c s)
    consider "c = ch_open" | "c = ch_back" "s = []" | d u where "c = ch_back" "s = d # u" | "c = ch_any" | "c = ch_close"
      | "c \<noteq> ch_back" "c \<noteq> ch_open" "c \<noteq> ch_close" "c \<noteq> ch_star" "c \<noteq> ch_any" using assms Cons by (cases s) auto
    then show ?thesis
    proof cases
      case 1
      have "cut_goes_on False (ch_open # s) True s" by (rule cut_one) simp
      then show ?thesis using 1 Cons parse_class_chunk [of s] cut_trans by auto
    next
      case 2
      then show ?thesis using Cons by simp
    next
      case (3 d u)
      have "cut_goes_on False (ch_back # d # u) False u" unfolding cut_goes_on_def by (rule exI [of _ "[ch_back, d]"]) simp
      then show ?thesis using 3 Cons by auto
    next
      case 4
      then show ?thesis using Cons by (auto intro!: cut_one)
    next
      case 5
      then show ?thesis using Cons by (auto intro!: cut_one)
    next
      case 6
      then show ?thesis using Cons by (auto intro!: cut_one)
    qed
  qed simp
  then show "next_term st p = None \<Longrightarrow> next_term st' (chunk_of False p) = None"
    "next_term st p = Some (t, q) \<Longrightarrow> next_term st' (chunk_of False p) = Some (t, chunk_of False q) \<and> cut_goes_on False p False q"
    by blast+
qed

lemma parse_split:
  "parse p = (case parse_chunk (chunk_of False p) of None \<Rightarrow> None | Some ts \<Rightarrow> map_option ((@) ts) (parse (rest_of False p)))"
proof (induction "length p" arbitrary: p rule: less_induct)
  case less
  note pr = parse_with.simps [of Star p] parse_with.simps [of "Lit ch_star" "chunk_of False p"]
  show ?case
  proof (cases "p = [] \<or> hd p = ch_star")
    case True
    then have "chunk_of False p = []" by (cases p) auto
    then show ?thesis by (cases "parse p") (simp_all add: parse_with.simps [of _ "[]"])
  next
    case False
    then have nt: "p = [] \<or> hd p \<noteq> ch_star" "p \<noteq> []" by simp_all
    show ?thesis
    proof (cases "next_term Star p")
      case None
      then have n: "next_term (Lit ch_star) (chunk_of False p) = None" by (rule next_term_chunk(1) [OF nt(1)])
      have "chunk_of False p \<noteq> []" using False by (cases p; cases "tl p") (auto simp: chunk_of.simps(2))
      then show ?thesis using None n pr nt by (simp add: parse_def)
    next
      case (Some a)
      obtain t q where a: "a = (t, q)" by (cases a)
      have l: "length q < length p" using next_term_shorter Some a by blast
      have n: "next_term (Lit ch_star) (chunk_of False p) = Some (t, chunk_of False q)" "cut_goes_on False p False q"
        using next_term_chunk(2) [OF nt(1), of Star t q "Lit ch_star"] Some a by simp_all
      then have ne: "chunk_of False p \<noteq> []" by auto
      show ?thesis using less [OF l] Some a n(1) ne pr nt cut_rest [OF n(2)]
        by (cases "parse_with Star (rest_of False q)") (auto simp: parse_def split: option.splits)
    qed
  qed
qed

lemma parse_stars:
  "parse p = map_option ((@) (replicate (length (takeWhile (\<lambda>c. c = ch_star) p)) Star)) (parse (dropWhile (\<lambda>c. c = ch_star) p))"
proof (induction p)
  case Nil
  then show ?case by (simp add: parse_def parse_with.simps)
next
  case (Cons c p)
  show ?case
  proof (cases "c = ch_star")
    case True
    then have "parse (c # p) = map_option ((#) Star) (parse p)" unfolding parse_def by (subst parse_with.simps) simp
    then show ?thesis using Cons True by (simp add: option.map_comp comp_def)
  next
    case False
    then show ?thesis by (simp add: option.map_id [unfolded id_def])
  qed
qed

end
