(* ===== verification/Path_Greedy.thy ===== *)
theory Path_Greedy
  imports Path_Scan
begin

text \<open>
  \<^verbatim>\<open>path.Match\<close> as a search: a star followed by a chunk takes the leftmost place at which the chunk fits, and does not come
  back to it. The lemmas here say what the search finds and when the leftmost place is good enough.
\<close>

subsection \<open>The search for a place\<close>

definition fits :: "byte list \<Rightarrow> pterm list \<Rightarrow> byte list \<Rightarrow> byte list option" where
  "fits rest ts s = (case eats_all ts s of None \<Rightarrow> None | Some t \<Rightarrow> if t = [] \<or> rest \<noteq> [] then Some t else None)"

fun first_fit :: "(byte list \<Rightarrow> byte list option) \<Rightarrow> byte list \<Rightarrow> byte list option" where
  "first_fit P [] = None"
| "first_fit P (c # s) = (if c = slash then None else case P s of Some t \<Rightarrow> Some t | None \<Rightarrow> first_fit P s)"

definition leftmost :: "(byte list \<Rightarrow> byte list option) \<Rightarrow> byte list \<Rightarrow> byte list option" where
  "leftmost P s = (case P s of Some t \<Rightarrow> Some t | None \<Rightarrow> first_fit P s)"

lemma leftmost_Some:
  assumes "leftmost P s = Some t"
  shows "\<exists>k \<le> length s. slash \<notin> set (take k s) \<and> P (drop k s) = Some t \<and> (\<forall>j < k. P (drop j s) = None)"
  using assms
proof (induction s)
  case Nil
  then show ?case by (auto simp: leftmost_def split: option.splits)
next
  case (Cons c s)
  show ?case
  proof (cases "P (c # s)")
    case None
    then have "c \<noteq> slash" "leftmost P s = Some t" using Cons.prems by (auto simp: leftmost_def split: if_splits)
    then obtain k where k: "k \<le> length s" "slash \<notin> set (take k s)" "P (drop k s) = Some t" "\<forall>j < k. P (drop j s) = None"
      using Cons.IH by blast
    have "P (drop j (c # s)) = None" if "j < Suc k" for j using that k(4) None by (cases j) simp_all
    then show ?thesis using k(1-3) \<open>c \<noteq> slash\<close> by (intro exI [of _ "Suc k"]) auto
  next
    case (Some t')
    then show ?thesis using Cons.prems by (intro exI [of _ 0]) (simp add: leftmost_def)
  qed
qed

lemma leftmost_None:
  "leftmost P s = None \<Longrightarrow> k \<le> length s \<Longrightarrow> slash \<notin> set (take k s) \<Longrightarrow> P (drop k s) = None"
proof (induction s arbitrary: k)
  case Nil
  then show ?case by (simp add: leftmost_def split: option.splits)
next
  case (Cons c s)
  show ?case
  proof (cases k)
    case 0
    then show ?thesis using Cons.prems by (auto simp: leftmost_def split: option.splits)
  next
    case (Suc n)
    then have "leftmost P s = None" using Cons.prems by (auto simp: leftmost_def split: option.splits)
    then show ?thesis using Cons Suc by simp
  qed
qed

lemma matchChunk_Some:
  assumes "parse_chunk chunk = Some ts"
  shows "matchChunk chunk s = Some (case eats_all ts s of None \<Rightarrow> ([], False, None) | Some q \<Rightarrow> (q, True, None))"
  using matchChunk_loop_ok(1) [OF assms, of s False] by (simp add: matchChunk_def)

lemma matchChunk_None:
  assumes "parse_chunk chunk = None"
  shows "matchChunk chunk s = Some ([], False, Some ErrBadPattern)"
  using matchChunk_loop_ok(2) [OF assms, of s False] by (simp add: matchChunk_def)

lemma Match_skip_eq:
  assumes "parse_chunk chunk = Some ts"
  shows "Match_skip chunk rest (pre @ s) (int (length pre))
    = Some (case first_fit (fits rest ts) s of Some t \<Rightarrow> Found t | None \<Rightarrow> NotFound)"
proof (induction s arbitrary: pre)
  case Nil
  show ?case by (subst Match_skip.simps) simp
next
  case (Cons c s)
  have f: "from_index (pre @ c # s) (int (length pre) + 1) = Some s" by (simp add: from_index_def nat_add_distrib)
  from Cons [of "pre @ [c]"] have "Match_skip chunk rest (pre @ c # s) (int (length pre) + 1)
      = Some (case first_fit (fits rest ts) s of Some t \<Rightarrow> Found t | None \<Rightarrow> NotFound)" by (simp add: add.commute)
  then show ?case by (subst Match_skip.simps)
      (auto simp: idx_def f matchChunk_Some [OF assms] fits_def split: option.splits)
qed

lemma parse_Nil [simp]: "parse [] = Some []"
  by (simp add: parse_def parse_with.simps)

lemma rest_shorter:
  assumes "p \<noteq> []"
  shows "length (rest_of False (dropWhile (\<lambda>c. c = ch_star) p)) < length p"
proof (cases "hd p = ch_star")
  case True
  then have "length (dropWhile (\<lambda>c. c = ch_star) p) < length p"
    using assms length_dropWhile_le [of _ "tl p"] by (cases p) (auto simp: less_Suc_eq_le)
  then show ?thesis by simp
next
  case False
  then have "dropWhile (\<lambda>c. c = ch_star) p = p" using assms by (cases p) auto
  moreover have "chunk_of False p \<noteq> []" using assms False by (cases p; cases "tl p") (auto simp: chunk_of.simps(2))
  ultimately show ?thesis using assms by simp
qed

lemma Match_rest_eq: "Match_rest p = Some (if parse p = None then Some ErrBadPattern else None)"
proof (induction "length p" arbitrary: p rule: less_induct)
  case less
  define q where "q = dropWhile (\<lambda>c. c = ch_star) p"
  have n: "parse p = None \<longleftrightarrow> parse q = None" by (subst parse_stars) (simp add: q_def)
  show ?case
  proof (cases "p = []")
    case True
    then show ?thesis by (subst Match_rest.simps) (simp add: parse_def parse_with.simps)
  next
    case False
    have sc: "scanChunk p = Some (hd p = ch_star, chunk_of False q, rest_of False q)"
      using scanChunk_eq [of p] False by (simp add: Let_def q_def)
    show ?thesis
    proof (cases "parse_chunk (chunk_of False q)")
      case None
      then have "parse q = None" by (subst parse_split) simp
      then show ?thesis using False n by (subst Match_rest.simps) (simp add: sc matchChunk_None [OF None])
    next
      case (Some ts)
      have e: "parse q = map_option ((@) ts) (parse (rest_of False q))" by (subst parse_split) (simp add: Some)
      from less [OF rest_shorter [OF False, folded q_def]] have r: "Match_rest (rest_of False q) = Some (if parse (rest_of False q) = None then Some ErrBadPattern else None)" .
      have "Match_rest p = Match_rest (rest_of False q)" using False
        by (subst Match_rest.simps) (simp add: sc matchChunk_Some [OF Some] split: option.splits)
      then show ?thesis using r n e by auto
    qed
  qed
qed

subsection \<open>One round of the matcher\<close>

lemma Match_round:
  fixes p :: "byte list"
  defines "q \<equiv> dropWhile (\<lambda>c. c = ch_star) p"
  assumes "p \<noteq> []" "parse_chunk (chunk_of False q) = Some ts" "\<not> (hd p = ch_star \<and> q = [])"
  shows "path_Match p name =
    (case (if hd p = ch_star then leftmost (fits (rest_of False q) ts) name else fits (rest_of False q) ts name) of
       Some t \<Rightarrow> path_Match (rest_of False q) t
     | None \<Rightarrow> Some (False, if parse (rest_of False q) = None then Some ErrBadPattern else None))"
proof -
  have sc: "scanChunk p = Some (hd p = ch_star, chunk_of False q, rest_of False q)"
    using scanChunk_eq [of p] assms(2) by (simp add: Let_def q_def)
  have ne: "\<not> (hd p = ch_star \<and> chunk_of False q = [])"
  proof -
    have "q = [] \<or> hd q \<noteq> ch_star" unfolding q_def using hd_dropWhile by blast
    then have "chunk_of False q = [] \<Longrightarrow> q = []" by (cases q; cases "tl q") (auto simp: chunk_of.simps(2) split: if_splits)
    then show ?thesis using assms(4) by blast
  qed
  define r where "r = rest_of False q"
  have sk: "Match_skip (chunk_of False q) r name 0 = Some (case first_fit (fits r ts) name of Some t \<Rightarrow> Found t | None \<Rightarrow> NotFound)" for r
    using Match_skip_eq [OF assms(3), of r "[]" name] by simp
  show ?thesis unfolding r_def [symmetric]
    by (subst path_Match.simps)
      (use assms(2) ne in \<open>auto simp: sc [folded r_def] matchChunk_Some [OF assms(3)] fits_def leftmost_def sk Match_rest_eq split: option.splits\<close>)
qed

lemma Match_bad_chunk:
  fixes p :: "byte list"
  defines "q \<equiv> dropWhile (\<lambda>c. c = ch_star) p"
  assumes "p \<noteq> []" "parse_chunk (chunk_of False q) = None"
  shows "path_Match p name = Some (False, Some ErrBadPattern)"
proof -
  have sc: "scanChunk p = Some (hd p = ch_star, chunk_of False q, rest_of False q)"
    using scanChunk_eq [of p] assms(2) by (simp add: Let_def q_def)
  have "chunk_of False q \<noteq> []" using assms(3) by (auto simp: parse_with.simps)
  then show ?thesis using assms(2) by (subst path_Match.simps) (simp add: sc matchChunk_None [OF assms(3)])
qed

lemma Match_end: "path_Match [] name = Some (name = [], None)"
  by (subst path_Match.simps) simp

lemma IndexByteString_found: "\<exists>i. IndexByteString s c = Some i \<and> (i < 0 \<longleftrightarrow> c \<notin> set s)"
proof -
  have "\<exists>i. IndexByteString_loop (pre @ s) c (int (length pre)) = Some i \<and> (i < 0 \<longleftrightarrow> c \<notin> set s)" for pre
  proof (induction s arbitrary: pre)
    case Nil
    show ?case by (subst IndexByteString_loop.simps) simp
  next
    case (Cons d s)
    from Cons [of "pre @ [d]"] show ?case by (subst IndexByteString_loop.simps) (auto simp: idx_def add.commute)
  qed
  from this [of "[]"] show ?thesis by (simp add: IndexByteString_def)
qed

lemma Match_star_end:
  assumes "p \<noteq> []" "dropWhile (\<lambda>c. c = ch_star) p = []"
  shows "path_Match p name = Some (slash \<notin> set name, None)"
proof -
  have "hd p = ch_star" using assms by (cases p) (auto split: if_splits)
  then have "scanChunk p = Some (True, [], [])" unfolding scanChunk_eq assms(2) Let_def using assms(1) by simp
  then show ?thesis using assms(1) IndexByteString_found [of name slash] by (subst path_Match.simps) auto
qed

subsection \<open>Joining the meaning of the chunks\<close>

lemma matches_append:
  "Star \<notin> set ts \<Longrightarrow> matches (ts @ us) s \<longleftrightarrow> (case eats_all ts s of None \<Rightarrow> False | Some q \<Rightarrow> matches us q)"
proof (induction ts arbitrary: s)
  case (Cons t ts)
  then show ?case by (cases t) (auto split: option.splits)
qed simp

lemma matches_star_star: "matches (Star # Star # ts) s \<longleftrightarrow> matches (Star # ts) s"
proof
  assume "matches (Star # Star # ts) s"
  then obtain k j where k: "k \<le> length s" "slash \<notin> set (take k s)" "j \<le> length (drop k s)" "slash \<notin> set (take j (drop k s))" "matches ts (drop j (drop k s))"
    by auto
  then show "matches (Star # ts) s" by (auto intro!: exI [of _ "k + j"] simp: take_add add.commute [of j k])
next
  assume "matches (Star # ts) s"
  then show "matches (Star # Star # ts) s" unfolding matches.simps(2) [of "Star # ts" s] by (intro exI [of _ 0]) simp
qed

lemma matches_stars: "matches (replicate n Star @ ts) s \<longleftrightarrow> matches (if n = 0 then ts else Star # ts) s"
proof (induction n arbitrary: s)
  case (Suc n)
  show ?case
  proof (cases n)
    case (Suc m)
    then show ?thesis using Suc.IH matches_star_star by (simp del: matches.simps)
  qed simp
qed simp

lemma next_term_no_star: "next_term (Lit c) p = Some (t, q) \<Longrightarrow> t \<noteq> Star"
  by (cases p) (auto simp: parse_class_def Let_def split: if_splits list.splits)

lemma parse_chunk_no_star: "parse_chunk p = Some ts \<Longrightarrow> Star \<notin> set ts"
proof (induction "length p" arbitrary: p ts rule: less_induct)
  case less
  show ?case
  proof (cases "p = []")
    case True
    then show ?thesis using less.prems by (simp add: parse_with.simps)
  next
    case False
    then obtain t q us where t: "next_term (Lit ch_star) p = Some (t, q)" "parse_chunk q = Some us" "ts = t # us"
      using less.prems by (subst (asm) parse_with.simps) (auto split: option.splits)
    then show ?thesis using less.hyps [OF next_term_shorter [OF t(1)] t(2)] next_term_no_star [OF t(1)] by auto
  qed
qed

end
