(* ===== verification/Path_Match_Properties.thy ===== *)
theory Path_Match_Properties
  imports Path_Greedy
begin

text \<open>
  What \<^verbatim>\<open>path.Match\<close> promises: it returns, it rejects exactly the malformed patterns, what it accepts matches, and for
  names in ASCII and patterns whose classes do not contain the slash it accepts every match.
\<close>

subsection \<open>Names in ASCII\<close>

abbreviation ascii :: "byte list \<Rightarrow> bool" where
  "ascii s \<equiv> \<forall>b \<in> set s. uint b < 0x80"

lemma decode_ascii: "uint d < 0x80 \<Longrightarrow> decode (d # s) = (word_of_int (uint d), 1)"
  using decode_well_formed [of "[d]" s] by simp

lemma eats_ascii: "eats t s = Some q \<Longrightarrow> ascii s \<Longrightarrow> s \<noteq> [] \<and> q = tl s"
  by (cases t; cases s) (auto simp: decode_ascii split: if_splits)

lemma eats_all_ascii: "eats_all ts s = Some q \<Longrightarrow> ascii s \<Longrightarrow> length ts \<le> length s \<and> q = drop (length ts) s"
proof (induction ts arbitrary: s)
  case (Cons t ts)
  then obtain r where r: "eats t s = Some r" "eats_all ts r = Some q" by (auto simp: bind_eq_Some_conv)
  then obtain d where d: "s = d # r" using eats_ascii [OF r(1)] Cons.prems(2) by (cases s) auto
  then show ?case using Cons.IH [OF r(2)] Cons.prems(2) by simp
qed simp

text \<open>A class that contains the slash lets a pattern without a slash match a name with one.\<close>

fun takes_slash :: "pterm \<Rightarrow> bool" where
  "takes_slash (Class neg rs) \<longleftrightarrow> in_ranges rs 0x2F \<noteq> neg"
| "takes_slash _ \<longleftrightarrow> False"

lemma eats_slash: "eats t (d # s) = Some q \<Longrightarrow> uint d < 0x80 \<Longrightarrow> \<not> takes_slash t \<Longrightarrow> d = slash \<longleftrightarrow> t = Lit slash"
  by (cases t) (auto simp: decode_ascii split: if_splits)

lemma first_slash:
  "eats_all ts s = Some q \<Longrightarrow> ascii s \<Longrightarrow> \<not> (\<exists>t \<in> set ts. takes_slash t) \<Longrightarrow>
    length (takeWhile (\<lambda>c. c \<noteq> slash) (take (length ts) s)) = length (takeWhile (\<lambda>t. t \<noteq> Lit slash) ts)"
proof (induction ts arbitrary: s)
  case (Cons t ts)
  then obtain r where r: "eats t s = Some r" "eats_all ts r = Some q" by (auto simp: bind_eq_Some_conv)
  then obtain d where d: "s = d # r" using eats_ascii [OF r(1)] Cons.prems(2) by (cases s) auto
  have "d = slash \<longleftrightarrow> t = Lit slash" using eats_slash [OF r(1) [unfolded d]] Cons.prems d by simp
  then show ?case using Cons.IH [OF r(2)] Cons.prems d by auto
qed simp

subsection \<open>When the leftmost place is good enough\<close>

lemma takeWhile_full: "length (takeWhile P xs) = length xs \<longleftrightarrow> (\<forall>x \<in> set xs. P x)"
  by (metis takeWhile_eq_all_conv takeWhile_eq_take take_all_iff order_refl)

lemma slash_at:
  assumes "slash \<notin> set (take k s)" "k \<le> length s" "length (takeWhile (\<lambda>c. c \<noteq> slash) (take n (drop k s))) = m" "m < n" "k + n \<le> length s"
  shows "length (takeWhile (\<lambda>c. c \<noteq> slash) s) = k + m"
proof -
  let ?f = "takeWhile (\<lambda>c. c \<noteq> slash)"
  have "?f s = take k s @ ?f (drop k s)"
    by (subst append_take_drop_id [of k s, symmetric], rule takeWhile_append2) (use assms(1) in auto)
  moreover have "?f (drop k s) = ?f (take n (drop k s))"
  proof -
    have "\<exists>x \<in> set (take n (drop k s)). x = slash"
      using takeWhile_full [of "\<lambda>c. c \<noteq> slash" "take n (drop k s)"] assms(3-5) by auto
    then show ?thesis using takeWhile_append1 [of slash "take n (drop k s)" "\<lambda>c. c \<noteq> slash" "drop n (drop k s)", unfolded append_take_drop_id] by simp
  qed
  ultimately show ?thesis using assms(2,3) by simp
qed

lemma leftmost_enough:
  assumes a: "ascii s" "\<not> (\<exists>t \<in> set ts. takes_slash t)" and k: "k \<le> length s" "slash \<notin> set (take k s)" "eats_all ts (drop k s) = Some q"
    and j: "j \<le> k" "eats_all ts (drop j s) = Some r" and m: "matches (Star # us) q"
  shows "matches (Star # us) r"
proof -
  define n where "n = length ts"
  have sub: "set (take j s) \<subseteq> set (take k s)" by (rule set_take_subset_set_take [OF j(1)])
  have as: "ascii (drop i s)" for i using a(1) by (auto dest: in_set_dropD)
  have q: "q = drop (n + k) s" "n + k \<le> length s" using eats_all_ascii [OF k(3) as] k(1) by (auto simp: n_def)
  have r: "r = drop (n + j) s" using eats_all_ascii [OF j(2) as] by (auto simp: n_def)
  note f = first_slash [OF k(3) as a(2), folded n_def] first_slash [OF j(2) as a(2), folded n_def]
  show ?thesis
  proof (cases "Lit slash \<in> set ts")
    case True
    then have l: "length (takeWhile (\<lambda>t. t \<noteq> Lit slash) ts) < n" using length_takeWhile_le [of _ ts] takeWhile_full [of "\<lambda>t. t \<noteq> Lit slash" ts]
      unfolding n_def by (metis le_neq_implies_less)
    have "k = j" using slash_at [OF k(2,1) f(1) l] slash_at [OF _ _ f(2) l] sub k j q by auto
    then show ?thesis using k j m by simp
  next
    case False
    then have "length (takeWhile (\<lambda>c. c \<noteq> slash) (take n (drop k s))) = n" using f(1) takeWhile_full [of "\<lambda>t. t \<noteq> Lit slash" ts] by (auto simp: n_def)
    then have "slash \<notin> set (take n (drop k s))" using takeWhile_full [of "\<lambda>c. c \<noteq> slash" "take n (drop k s)"] q by auto
    then have "slash \<notin> set (take (k + n) s)" using k(2) by (simp add: take_add)
    moreover have "take (k - j) r = drop (n + j) (take (k + n) s)" using j(1) by (simp add: r drop_take)
    ultimately have ns: "slash \<notin> set (take (k - j) r)" by (auto dest: in_set_dropD)
    obtain i where i: "i \<le> length q" "slash \<notin> set (take i q)" "matches us (drop i q)" using m by auto
    have q': "q = drop (k - j) r" "k - j \<le> length r" using q r j(1) by (simp_all add: add.commute)
    have "k - j + i \<le> length r \<and> slash \<notin> set (take (k - j + i) r) \<and> matches us (drop (k - j + i) r)"
      using i ns q' by (simp add: take_add add.commute [of i])
    then show ?thesis unfolding matches.simps(2) by blast
  qed
qed

subsection \<open>Stars over characters\<close>

text \<open>
  The documentation lets a star take characters, the code bytes. \<open>star_rests\<close> are the texts a star of the documentation may leave, and
  \<open>matches_chars\<close> is the match with such stars, which is the documented one. The two differ where the star stops inside the encoding of a character. A
  byte that is not a continuation byte is never inside, so that they agree where such a literal byte stops every star that is not at the end.
\<close>

lemma decode_drop: "s \<noteq> [] \<Longrightarrow> length (drop (snd (decode s)) s) < length s"
  using decode_total(2) [of s] by (cases s) auto

function star_rests :: "byte list \<Rightarrow> byte list list" where
  "star_rests s = s # (if s = [] \<or> hd s = slash then [] else star_rests (drop (snd (decode s)) s))"
  by pat_completeness auto
termination
  by (relation "measure length") (simp_all add: decode_drop del: length_drop)

declare star_rests.simps [simp del]

lemma star_rests_iff:
  "q \<in> set (star_rests s) \<longleftrightarrow> q = s \<or> s \<noteq> [] \<and> hd s \<noteq> slash \<and> q \<in> set (star_rests (drop (snd (decode s)) s))"
  by (subst star_rests.simps) simp

fun matches_chars :: "pterm list \<Rightarrow> byte list \<Rightarrow> bool" where
  "matches_chars [] s \<longleftrightarrow> s = []"
| "matches_chars (Star # ts) s \<longleftrightarrow> (\<exists>q \<in> set (star_rests s). matches_chars ts q)"
| "matches_chars (t # ts) s \<longleftrightarrow> (case eats t s of None \<Rightarrow> False | Some q \<Rightarrow> matches_chars ts q)"

fun stops_star :: "pterm list \<Rightarrow> bool" where
  "stops_star [] = True"
| "stops_star (Star # ts) = True"
| "stops_star (Lit b # ts) \<longleftrightarrow> \<not> cont_byte b"
| "stops_star (_ # ts) = False"

fun stars_stopped :: "pterm list \<Rightarrow> bool" where
  "stars_stopped [] = True"
| "stars_stopped (Star # ts) \<longleftrightarrow> stops_star ts \<and> stars_stopped ts"
| "stars_stopped (_ # ts) \<longleftrightarrow> stars_stopped ts"

text \<open>The bytes of a character behind the first are continuation bytes.\<close>

lemma well_formed_cont: "well_formed w \<Longrightarrow> i < length w \<Longrightarrow> i \<noteq> 0 \<Longrightarrow> cont_byte (w ! i)"
  by (cases w rule: well_formed.cases) (auto simp: less_Suc_eq numeral_eq_Suc nth_Cons')

lemma decode_inside:
  assumes "s \<noteq> []" "0 < k" "k < snd (decode s)"
  shows "k < length s" "cont_byte (s ! k)"
proof -
  show "k < length s" using decode_total(3) [OF assms(1)] assms(3) by simp
  have "starts_well s" using decode_ill_formed [OF assms(1)] assms(2,3) by (cases "starts_well s") auto
  then obtain w q where w: "s = w @ q" "well_formed w" using starts_well_iff by blast
  then show "cont_byte (s ! k)" using well_formed_cont [OF w(2), of k] decode_well_formed [OF w(2), of q] assms(2,3) by (simp add: nth_append)
qed

lemma cont_not_slash: "cont_byte b \<Longrightarrow> b \<noteq> slash"
  by (auto simp: cont_byte_def)

lemma star_rests_sound: "q \<in> set (star_rests s) \<Longrightarrow> \<exists>k \<le> length s. slash \<notin> set (take k s) \<and> q = drop k s"
proof (induction s rule: star_rests.induct)
  case (1 s)
  show ?case
  proof (cases "q = s")
    case True
    then show ?thesis by (intro exI [of _ 0]) simp
  next
    case False
    then have s: "s \<noteq> []" "hd s \<noteq> slash" "q \<in> set (star_rests (drop (snd (decode s)) s))"
      using 1(2) star_rests_iff by blast+
    define n where "n = snd (decode s)"
    obtain k where k: "k \<le> length s - n" "slash \<notin> set (take k (drop n s))" "q = drop k (drop n s)"
      using 1(1) s unfolding n_def by auto
    have n: "1 \<le> n" "n \<le> length s" using decode_total(2,3) [OF s(1)] by (simp_all add: n_def)
    have "b \<noteq> slash" if "b \<in> set (take n s)" for b
    proof -
      obtain i where i: "i < n" "b = s ! i" using \<open>b \<in> set (take n s)\<close> n(2) by (auto simp: in_set_conv_nth)
      then show ?thesis using s(2) hd_conv_nth [OF s(1)] decode_inside(2) [OF s(1), of i] cont_not_slash
        by (cases "i = 0") (auto simp: n_def)
    qed
    then have "slash \<notin> set (take (n + k) s)" using k(2) by (auto simp: take_add)
    then show ?thesis using k n by (intro exI [of _ "n + k"]) (simp add: add.commute)
  qed
qed

lemma star_rests_complete:
  "k \<le> length s \<Longrightarrow> slash \<notin> set (take k s) \<Longrightarrow> drop k s = [] \<or> \<not> cont_byte (s ! k) \<Longrightarrow> drop k s \<in> set (star_rests s)"
proof (induction s arbitrary: k rule: star_rests.induct)
  case (1 s)
  show ?case
  proof (cases "k = 0")
    case True
    then show ?thesis using star_rests_iff [of s s] by simp
  next
    case False
    then have s: "s \<noteq> []" "hd s \<noteq> slash" using 1(2,3) by (cases s; cases k; auto)+
    define n where "n = snd (decode s)"
    have "n \<le> k" using decode_inside [OF s(1), of k] False 1(4) unfolding n_def by (metis drop_eq_Nil linorder_not_le neq0_conv)
    then obtain j where j: "k = n + j" using le_Suc_ex by blast
    have dd: "drop j (drop n s) = drop k s" "drop n s ! j = s ! k" using 1(2) j by (simp_all add: add.commute)
    have "slash \<notin> set (take j (drop n s))" "j \<le> length (drop n s)" using 1(2,3) j by (simp_all add: take_add)
    then have "drop k s \<in> set (star_rests (drop n s))" using 1(1) [of j] s 1(4) unfolding n_def [symmetric] dd by simp
    then show ?thesis using s star_rests_iff unfolding n_def by blast
  qed
qed

lemma matches_term:
  "t \<noteq> Star \<Longrightarrow> matches (t # ts) s \<longleftrightarrow> (\<exists>q. eats t s = Some q \<and> matches ts q)"
  "t \<noteq> Star \<Longrightarrow> matches_chars (t # ts) s \<longleftrightarrow> (\<exists>q. eats t s = Some q \<and> matches_chars ts q)"
  by (cases t; simp split: option.splits)+

lemma matches_chars_matches: "matches_chars ts s \<Longrightarrow> matches ts s"
proof (induction ts arbitrary: s)
  case (Cons t ts)
  show ?case
  proof (cases "t = Star")
    case True
    then obtain q where "q \<in> set (star_rests s)" "matches_chars ts q" using Cons.prems by auto
    then show ?thesis using star_rests_sound [of q s] Cons.IH [of q] True by auto
  next
    case False
    then show ?thesis using Cons matches_term by blast
  qed
qed simp

lemma matches_matches_chars: "matches ts s \<Longrightarrow> stars_stopped ts \<or> ascii s \<Longrightarrow> matches_chars ts s"
proof (induction ts arbitrary: s)
  case (Cons t ts)
  show ?case
  proof (cases "t = Star")
    case True
    obtain k where k: "k \<le> length s" "slash \<notin> set (take k s)" "matches ts (drop k s)" using Cons.prems(1) True by auto
    have st: "stars_stopped ts \<or> ascii (drop k s)" using Cons.prems(2) True by (auto dest: in_set_dropD)
    consider (ascii) "ascii s" | (double) us where "ts = Star # us" "stars_stopped ts" | (stop) "drop k s = [] \<or> \<not> cont_byte (s ! k)"
    proof (cases "ascii s")
      case False
      then have "stops_star ts" "stars_stopped ts" using Cons.prems(2) True by auto
      then show thesis using double stop k(3) by (cases ts rule: stops_star.cases; cases "drop k s") (auto simp: nth_via_drop split: if_splits)
    qed
    then show ?thesis
    proof cases
      case ascii
      have "drop k s = [] \<or> \<not> cont_byte (s ! k)"
      proof (cases "k < length s")
        case True
        then have "uint (s ! k) < 0x80" using ascii by simp
        then show ?thesis by (simp add: cont_byte_def)
      qed simp
      then have "drop k s \<in> set (star_rests s)" by (rule star_rests_complete [OF k(1,2)])
      then show ?thesis using Cons.IH [OF k(3) st] True by auto
    next
      case double
      then have "matches (replicate 2 Star @ us) s" using Cons.prems(1) True by (simp add: numeral_2_eq_2)
      then have "matches ts s" unfolding matches_stars using double(1) by simp
      then have "matches_chars ts s" using Cons.IH double(2) by blast
      moreover have "s \<in> set (star_rests s)" using star_rests_iff by blast
      ultimately show ?thesis using True by auto
    next
      case stop
      then have "drop k s \<in> set (star_rests s)" by (rule star_rests_complete [OF k(1,2)])
      then show ?thesis using Cons.IH [OF k(3) st] True by auto
    qed
  next
    case False
    then obtain q where q: "eats t s = Some q" "matches ts q" using Cons.prems(1) matches_term by blast
    have "stars_stopped ts \<or> ascii q" using Cons.prems(2) False eats_ascii [OF q(1)] by (cases t; cases s) auto
    then show ?thesis using Cons.IH [OF q(2)] q(1) matches_term(2) [OF False] by blast
  qed
qed simp

subsection \<open>The whole match\<close>

lemma parse_star_Cons: "hd p = ch_star \<Longrightarrow> p \<noteq> [] \<Longrightarrow> parse p = map_option ((#) Star) (parse (tl p))"
  by (cases p) (auto simp: parse_def parse_with.simps [of Star "_ # _"])

definition match_ok :: "pterm list \<Rightarrow> byte list \<Rightarrow> bool \<Rightarrow> bool" where
  "match_ok ts name m \<longleftrightarrow> (m \<longrightarrow> matches ts name) \<and> (ascii name \<and> \<not> (\<exists>t \<in> set ts. takes_slash t) \<and> matches ts name \<longrightarrow> m)"

lemma match_plain:
  assumes "Star \<notin> set cs" "fits r cs name = Some t" "match_ok us t m"
  shows "match_ok (cs @ us) name m"
proof -
  have e: "eats_all cs name = Some t" using assms(2) by (auto simp: fits_def split: option.splits if_splits)
  have "ascii name \<Longrightarrow> ascii t" using eats_all_ascii [OF e] by (auto dest: in_set_dropD)
  then show ?thesis using assms(1,3) e by (auto simp: match_ok_def matches_append)
qed

lemma match_plain_fails:
  assumes "Star \<notin> set cs" "fits r cs name = None" "r = [] \<Longrightarrow> us = []"
  shows "\<not> matches (cs @ us) name"
  using assms by (auto simp: fits_def matches_append split: option.splits if_splits)

lemma match_starred:
  assumes cs: "Star \<notin> set cs" and l: "leftmost (fits r cs) name = Some t" and us: "r = [] \<Longrightarrow> us = []" "r \<noteq> [] \<Longrightarrow> \<exists>us'. us = Star # us'"
    and m: "match_ok us t m"
  shows "match_ok (Star # cs @ us) name m"
proof -
  obtain j where j: "j \<le> length name" "slash \<notin> set (take j name)" "fits r cs (drop j name) = Some t" "\<forall>i < j. fits r cs (drop i name) = None"
    using leftmost_Some [OF l] by blast
  have e: "eats_all cs (drop j name) = Some t" "t = [] \<or> r \<noteq> []" using j(3) by (auto simp: fits_def split: option.splits if_splits)
  have "matches (Star # cs @ us) name" if "m"
    using that m e(1) j(1,2) cs by (auto simp: match_ok_def matches_append)
  moreover have "m" if a: "ascii name" "\<not> (\<exists>t \<in> set (Star # cs @ us). takes_slash t)" and h: "matches (Star # cs @ us) name"
  proof -
    obtain k q where k: "k \<le> length name" "slash \<notin> set (take k name)" "eats_all cs (drop k name) = Some q" "matches us q"
      using h cs by (auto simp: matches_append split: option.splits)
    have "matches us t"
    proof (cases "r = []")
      case True
      then show ?thesis using e(2) us(1) by simp
    next
      case False
      then obtain us' where u: "us = Star # us'" using us(2) by blast
      have "fits r cs (drop k name) \<noteq> None" using k(3) False by (simp add: fits_def)
      then have "j \<le> k" using j(4) by (metis not_le_imp_less)
      then show ?thesis using leftmost_enough [OF a(1) _ k(1-3) _ e(1), of us'] a(2) k(4) u by auto
    qed
    moreover have "ascii t" using eats_all_ascii [OF e(1)] a(1) by (auto dest: in_set_dropD)
    ultimately show ?thesis using m a(2) by (auto simp: match_ok_def)
  qed
  ultimately show ?thesis by (simp add: match_ok_def)
qed

lemma match_starred_fails:
  assumes "Star \<notin> set cs" "leftmost (fits r cs) name = None" "r = [] \<Longrightarrow> us = []"
  shows "\<not> matches (Star # cs @ us) name"
proof
  assume "matches (Star # cs @ us) name"
  then obtain k where k: "k \<le> length name" "slash \<notin> set (take k name)" "matches (cs @ us) (drop k name)" by auto
  then show False using match_plain_fails [OF assms(1) leftmost_None [OF assms(2) k(1,2)] assms(3)] by simp
qed

lemma match_ok_stars: "match_ok (replicate n Star @ ts) name m \<longleftrightarrow> match_ok (if n = 0 then ts else Star # ts) name m"
  using matches_stars [of n ts name] by (auto simp: match_ok_def)

lemma path_Match_result:
  "path_Match p name = (case parse p of None \<Rightarrow> Some (False, Some ErrBadPattern)
    | Some ts \<Rightarrow> Some (fst (the (path_Match p name)), None)) \<and>
   (\<forall>ts. parse p = Some ts \<longrightarrow> match_ok ts name (fst (the (path_Match p name))))"
proof (induction "length p" arbitrary: p name rule: less_induct)
  case less
  define q where "q = dropWhile (\<lambda>c. c = ch_star) p"
  define r where "r = rest_of False q"
  define n where "n = length (takeWhile (\<lambda>c. c = ch_star) p)"
  have pp: "parse p = map_option ((@) (replicate n Star)) (parse q)" unfolding n_def q_def by (rule parse_stars)
  have pq: "parse q = (case parse_chunk (chunk_of False q) of None \<Rightarrow> None | Some ts \<Rightarrow> map_option ((@) ts) (parse r))"
    unfolding r_def by (rule parse_split)
  have n0: "p \<noteq> [] \<Longrightarrow> n = 0 \<longleftrightarrow> hd p \<noteq> ch_star" unfolding n_def by (cases p) auto
  consider "p = []" | "p \<noteq> []" "q = []" | "p \<noteq> []" "parse_chunk (chunk_of False q) = None"
    | cs where "p \<noteq> []" "q \<noteq> []" "parse_chunk (chunk_of False q) = Some cs" by fastforce
  then show ?case
  proof cases
    case 1
    then show ?thesis by (simp add: Match_end match_ok_def)
  next
    case 2
    then have "n \<noteq> 0" using n0 unfolding q_def by (cases p) (auto split: if_splits)
    have "matches [Star] name \<longleftrightarrow> slash \<notin> set name" by auto
    then have "match_ok (replicate n Star @ []) name (slash \<notin> set name)" unfolding match_ok_stars using \<open>n \<noteq> 0\<close> by (simp add: match_ok_def del: matches.simps)
    then show ?thesis using Match_star_end [OF 2(1) 2(2) [unfolded q_def]] pp 2(2) by simp
  next
    case 3
    then show ?thesis using Match_bad_chunk [OF 3(1) 3(2) [unfolded q_def]] pp pq by simp
  next
    case (4 cs)
    have st: "Star \<notin> set cs" by (rule parse_chunk_no_star [OF 4(3)])
    have ln: "length r < length p" unfolding r_def q_def by (rule rest_shorter [OF 4(1)])
    define res where "res = (if hd p = ch_star then leftmost (fits r cs) name else fits r cs name)"
    have rd: "path_Match p name = (case res of Some t \<Rightarrow> path_Match r t | None \<Rightarrow> Some (False, if parse r = None then Some ErrBadPattern else None))"
      unfolding res_def r_def q_def by (rule Match_round) (use 4 q_def in auto)
    show ?thesis
    proof (cases "parse r")
      case None
      then have "parse p = None" using pp pq 4 by simp
      then show ?thesis using rd less [OF ln] None by (cases res) simp_all
    next
      case (Some us)
      have ts: "parse p = Some (replicate n Star @ cs @ us)" using pp pq 4 Some by simp
      have us: "r = [] \<Longrightarrow> us = []" "r \<noteq> [] \<Longrightarrow> \<exists>us'. us = Star # us'"
        using Some parse_star_Cons [of r] rest_star [of False q, folded r_def] by (auto simp: eq_commute [of "Some us"])
      show ?thesis
      proof (cases res)
        case None
        then have "\<not> matches (if n = 0 then cs @ us else Star # cs @ us) name"
          using n0 [OF 4(1)] match_plain_fails [OF st _ us(1), of r name] match_starred_fails [OF st _ us(1), of r name] unfolding res_def
          by (cases "n = 0") (simp_all del: matches.simps)
        then have "match_ok (replicate n Star @ cs @ us) name False" unfolding match_ok_stars by (simp add: match_ok_def del: matches.simps)
        then show ?thesis using rd None Some ts by simp
      next
        case t: (Some t)
        note ih = less [OF ln, of t]
        have "match_ok (if n = 0 then cs @ us else Star # cs @ us) name (fst (the (path_Match r t)))"
          using n0 [OF 4(1)] match_plain [OF st] match_starred [OF st _ us] t ih Some unfolding res_def by auto
        then show ?thesis using rd t Some ts ih match_ok_stars by auto
      qed
    qed
  qed
qed

text \<open>A round that begins with one star, for concrete patterns.\<close>

lemma star_round:
  assumes "parse_chunk (chunk_of False (c # q)) = Some ts" "c \<noteq> ch_star" "leftmost (fits (rest_of False (c # q)) ts) name = Some t"
  shows "path_Match (ch_star # c # q) name = path_Match (rest_of False (c # q)) t"
  using Match_round [of "ch_star # c # q" ts name] assms by simp

lemma star_round_fails:
  assumes "parse_chunk (chunk_of False (c # q)) = Some ts" "c \<noteq> ch_star" "leftmost (fits (rest_of False (c # q)) ts) name = None"
    "parse (rest_of False (c # q)) \<noteq> None"
  shows "path_Match (ch_star # c # q) name = Some (False, None)"
  using Match_round [of "ch_star # c # q" ts name] assms by auto

text \<open>
  C5 (Matching is sound). On every pattern and name \<^verbatim>\<open>path.Match\<close> returns, and it reports \<^verbatim>\<open>ErrBadPattern\<close> exactly when the pattern is
  not in the documented grammar, wherever the fault is and whatever the name is. When it answers that the name matches, the
  terms of the pattern match the whole name with stars that take any bytes other than the slash. The documentation lets stars take
  characters; the name also matches in this sense when it is ASCII or when every star of the pattern is followed by nothing, by a star or by a literal byte
  that begins a character. On other patterns and names it need not (the last theorem of this file).
\<close>

theorem path_Match_sound:
  "\<exists>m. path_Match p name = Some (m, if parse p = None then Some ErrBadPattern else None)
    \<and> (m \<longrightarrow> (\<exists>ts. parse p = Some ts \<and> matches ts name \<and> (stars_stopped ts \<or> ascii name \<longrightarrow> matches_chars ts name)))"
  using path_Match_result [of p name] matches_matches_chars by (cases "parse p") (auto simp: match_ok_def)

text \<open>The pattern \<^verbatim>\<open>*[a-c]\<close> on the name \<^verbatim>\<open>xb\<close>.\<close>

lemma path_Match_sound_witness:
  "\<exists>ts. parse [0x2A, 0x5B, 0x61, 0x2D, 0x63, 0x5D] = Some ts \<and> matches ts [0x78, 0x62] \<and> matches_chars ts [0x78, 0x62]"
proof -
  have "path_Match [0x2A, 0x5B, 0x61, 0x2D, 0x63, 0x5D] [0x78, 0x62] = path_Match (rest_of False [0x5B, 0x61, 0x2D, 0x63, 0x5D]) []"
    by (rule star_round [of _ _ "[Class False [(0x61, 0x63)]]"]; code_simp)
  then have "path_Match [0x2A, 0x5B, 0x61, 0x2D, 0x63, 0x5D] [0x78, 0x62] = Some (True, None)" by (simp add: Match_end)
  then show ?thesis using path_Match_sound [of "[0x2A, 0x5B, 0x61, 0x2D, 0x63, 0x5D]" "[0x78, 0x62]"] by auto
qed

text \<open>
  C15 (Matching is complete on ASCII names). When the name is ASCII and no class of the pattern contains the slash, the leftmost
  choice that \<^verbatim>\<open>path.Match\<close> makes for every star loses nothing: the answer is whether the terms of the pattern match the name.
\<close>

theorem path_Match_ascii:
  assumes "parse p = Some ts" "ascii name" "\<not> (\<exists>t \<in> set ts. takes_slash t)"
  shows "path_Match p name = Some (matches ts name, None)"
  using path_Match_result [of p name] assms by (auto simp: match_ok_def)

text \<open>The pattern \<^verbatim>\<open>*b?\<close> on the name \<^verbatim>\<open>abbc\<close>: the first place that fits is not the one the rest needs.\<close>

lemma path_Match_ascii_witness: "path_Match [0x2A, 0x62, 0x3F] [0x61, 0x62, 0x62, 0x63] = Some (True, None)"
proof -
  have "parse [0x2A, 0x62, 0x3F] = Some [Star, Lit 0x62, Any]" by code_simp
  moreover have "matches [Star, Lit 0x62, Any] [0x61, 0x62, 0x62, 0x63]"
    unfolding matches.simps(2) by (rule exI [of _ 2]) (simp add: decode_ascii)
  moreover have "ascii [0x61, 0x62, 0x62, 0x63]" by simp
  ultimately show ?thesis using path_Match_ascii [of "[0x2A, 0x62, 0x3F]" "[Star, Lit 0x62, Any]" "[0x61, 0x62, 0x62, 0x63]"]
    by (simp del: matches.simps)
qed

text \<open>
  The leftmost choice can be wrong. A class may contain the slash, a star may not take it: on the pattern \<^verbatim>\<open>*[^b]*c\<close> and the
  name \<^verbatim>\<open>a/c\<close> the search puts the class on the letter, so that the second star would have to take the slash, and answers no
  although the name matches with the class on the slash.
\<close>

theorem path_Match_leftmost_misses:
  "path_Match [0x2A, 0x5B, 0x5E, 0x62, 0x5D, 0x2A, 0x63] [0x61, 0x2F, 0x63] = Some (False, None)
    \<and> (\<exists>ts. parse [0x2A, 0x5B, 0x5E, 0x62, 0x5D, 0x2A, 0x63] = Some ts \<and> matches ts [0x61, 0x2F, 0x63])"
proof
  have "path_Match [0x2A, 0x5B, 0x5E, 0x62, 0x5D, 0x2A, 0x63] [0x61, 0x2F, 0x63]
      = path_Match (rest_of False [0x5B, 0x5E, 0x62, 0x5D, 0x2A, 0x63]) [0x2F, 0x63]"
    by (rule star_round [of _ _ "[Class True [(0x62, 0x62)]]"]; code_simp)
  also have "rest_of False [0x5B, 0x5E, 0x62, 0x5D, 0x2A, 0x63] = [0x2A, 0x63]" by code_simp
  also have "path_Match [0x2A, 0x63] [0x2F, 0x63] = Some (False, None)"
    by (rule star_round_fails [of _ _ "[Lit 0x63]"]; code_simp)
  finally show "path_Match [0x2A, 0x5B, 0x5E, 0x62, 0x5D, 0x2A, 0x63] [0x61, 0x2F, 0x63] = Some (False, None)" .
  have "parse [0x2A, 0x5B, 0x5E, 0x62, 0x5D, 0x2A, 0x63] = Some [Star, Class True [(0x62, 0x62)], Star, Lit 0x63]" by code_simp
  moreover have "matches [Star, Class True [(0x62, 0x62)], Star, Lit 0x63] [0x61, 0x2F, 0x63]"
    unfolding matches.simps(2) by (rule exI [of _ 1], simp add: decode_ascii in_ranges_def) (rule exI [of _ 0], simp)
  ultimately show "\<exists>ts. parse [0x2A, 0x5B, 0x5E, 0x62, 0x5D, 0x2A, 0x63] = Some ts \<and> matches ts [0x61, 0x2F, 0x63]" by blast
qed

text \<open>
  A star may end within the encoding of a character: \<^verbatim>\<open>*??\<close> matches the one character U+65E5, which it should not.
\<close>

lemma path_Match_star_within_character:
  "well_formed [0xE6, 0x97, 0xA5] \<and> path_Match [0x2A, 0x3F, 0x3F] [0xE6, 0x97, 0xA5] = Some (True, None)
    \<and> parse [0x2A, 0x3F, 0x3F] = Some [Star, Any, Any] \<and> \<not> matches_chars [Star, Any, Any] [0xE6, 0x97, 0xA5]"
proof (intro conjI)
  show "well_formed [0xE6, 0x97, 0xA5]" by code_simp
  have "path_Match [0x2A, 0x3F, 0x3F] [0xE6, 0x97, 0xA5] = path_Match (rest_of False [0x3F, 0x3F]) []"
    by (rule star_round [of _ _ "[Any, Any]"]; code_simp)
  then show "path_Match [0x2A, 0x3F, 0x3F] [0xE6, 0x97, 0xA5] = Some (True, None)" by (simp add: Match_end)
  show "parse [0x2A, 0x3F, 0x3F] = Some [Star, Any, Any]" by code_simp
  show "\<not> matches_chars [Star, Any, Any] [0xE6, 0x97, 0xA5]" by code_simp
qed

end
