(* ===== verification/Base64.thy ===== *)
theory Base64
  imports Go_IO Utf8 Binary_Encoding "HOL-Library.Signed_Division"
begin

unbundle bit_operations_syntax

text \<open>
  \<^verbatim>\<open>encoding/base64\<close>, base64.go: encodings, \<^verbatim>\<open>Encode\<close>, \<^verbatim>\<open>Decode\<close> with its two fast paths, and the streaming encoder. An
  index out of range is a panic, as are the explicit ones of \<^verbatim>\<open>NewEncoding\<close> and \<^verbatim>\<open>WithPadding\<close>. The slices \<^verbatim>\<open>dst\<close> and \<^verbatim>\<open>src\<close>
  do not overlap.
\<close>

record encoding =
  encode :: "byte list"
  decodeMap :: "byte list"
  padChar :: rune
  strict :: bool

definition StdPadding :: rune where "StdPadding = 0x3D"
definition NoPadding :: rune where "NoPadding = -1"

definition encodeStd :: "byte list" where
  "encodeStd = map of_char ''ABCDEFGHIJKLMNOPQRSTUVWXYZabcdefghijklmnopqrstuvwxyz0123456789+/''"

definition encodeURL :: "byte list" where
  "encodeURL = map of_char ''ABCDEFGHIJKLMNOPQRSTUVWXYZabcdefghijklmnopqrstuvwxyz0123456789-_''"

abbreviation newline :: "byte \<Rightarrow> bool" where "newline c \<equiv> c = 0x0A \<or> c = 0x0D"

fun map_letters :: "byte list \<Rightarrow> byte list \<Rightarrow> int \<Rightarrow> byte list option" where
  "map_letters m [] i = Some m"
| "map_letters m (c # encoder) i = do { m \<leftarrow> upd m (uint c) (word_of_int i); map_letters m encoder (i + 1) }"

definition NewEncoding :: "byte list \<Rightarrow> encoding option" where
  "NewEncoding encoder =
     (if length encoder \<noteq> 64 then None
      else if \<exists>c \<in> set encoder. newline c then None
      else do {
        let (code, _) = copy_into (replicate 64 0) encoder;
        m \<leftarrow> map_letters (replicate 256 0xFF) encoder 0;
        Some \<lparr>encode = code, decodeMap = m, padChar = StdPadding, strict = False\<rparr>
      })"

definition WithPadding :: "encoding \<Rightarrow> rune \<Rightarrow> encoding option" where
  "WithPadding enc padding =
     (if padding = 0x0D \<or> padding = 0x0A \<or> sint padding > 0xFF then None
      else if \<exists>c \<in> set (encode enc). ucast c = padding then None
      else Some (enc\<lparr>padChar := padding\<rparr>))"

definition Strict :: "encoding \<Rightarrow> encoding" where
  "Strict enc = enc\<lparr>strict := True\<rparr>"

definition StdEncoding :: "encoding option" where "StdEncoding = NewEncoding encodeStd"
definition URLEncoding :: "encoding option" where "URLEncoding = NewEncoding encodeURL"
definition RawStdEncoding :: "encoding option" where "RawStdEncoding = do { e \<leftarrow> StdEncoding; WithPadding e NoPadding }"
definition RawURLEncoding :: "encoding option" where "RawURLEncoding = do { e \<leftarrow> URLEncoding; WithPadding e NoPadding }"

subsection \<open>Encoding\<close>

definition b64_EncodedLen :: "encoding \<Rightarrow> int \<Rightarrow> int" where
  "b64_EncodedLen enc n =
     (if padChar enc = NoPadding then int64 (int64 (n * 8) + 5) sdiv 6 else int64 (int64 (n + 2) sdiv 3 * 4))"

definition b64_DecodedLen :: "encoding \<Rightarrow> int \<Rightarrow> int" where
  "b64_DecodedLen enc n = (if padChar enc = NoPadding then int64 (n * 6) sdiv 8 else int64 (n sdiv 4 * 3))"

text \<open>The letter for six bits of a value.\<close>

definition letter :: "encoding \<Rightarrow> uint64 \<Rightarrow> byte option" where
  "letter enc v = idx (encode enc) (uint (v AND 0x3F))"

function b64_Encode_loop :: "encoding \<Rightarrow> byte list \<Rightarrow> byte list \<Rightarrow> int \<Rightarrow> int \<Rightarrow> int \<Rightarrow> (byte list \<times> int \<times> int) option" where
  "b64_Encode_loop enc dst src di si n =
     (if si < n then
        do {
          b0 \<leftarrow> idx src si;
          b1 \<leftarrow> idx src (si + 1);
          b2 \<leftarrow> idx src (si + 2);
          let val = (push_bit 16 (ucast b0) OR push_bit 8 (ucast b1) OR ucast b2 :: uint64);
          c \<leftarrow> letter enc (drop_bit 18 val); dst \<leftarrow> upd dst di c;
          c \<leftarrow> letter enc (drop_bit 12 val); dst \<leftarrow> upd dst (di + 1) c;
          c \<leftarrow> letter enc (drop_bit 6 val); dst \<leftarrow> upd dst (di + 2) c;
          c \<leftarrow> letter enc val; dst \<leftarrow> upd dst (di + 3) c;
          b64_Encode_loop enc dst src (di + 4) (si + 3) n
        }
      else Some (dst, di, si))"
  by pat_completeness auto
termination by (relation "measure (\<lambda>(enc, dst, src, di, si, n). nat (n - si))") auto

declare b64_Encode_loop.simps [simp del]

definition b64_Encode :: "encoding \<Rightarrow> byte list \<Rightarrow> byte list \<Rightarrow> byte list option" where
  "b64_Encode enc dst src =
     (if length src = 0 then Some dst
      else do {
        let n = int (length src) div 3 * 3;
        (dst, di, si) \<leftarrow> b64_Encode_loop enc dst src 0 0 n;
        let remain = int (length src) - si;
        if remain = 0 then Some dst
        else do {
          b0 \<leftarrow> idx src si;
          let val = (push_bit 16 (ucast b0) :: uint64);
          val \<leftarrow> (if remain = 2 then do { b1 \<leftarrow> idx src (si + 1); Some (val OR push_bit 8 (ucast b1)) } else Some val);
          c \<leftarrow> letter enc (drop_bit 18 val); dst \<leftarrow> upd dst di c;
          c \<leftarrow> letter enc (drop_bit 12 val); dst \<leftarrow> upd dst (di + 1) c;
          if remain = 2 then do {
            c \<leftarrow> letter enc (drop_bit 6 val); dst \<leftarrow> upd dst (di + 2) c;
            if padChar enc \<noteq> NoPadding then upd dst (di + 3) (ucast (padChar enc)) else Some dst
          }
          else if remain = 1 then
            if padChar enc \<noteq> NoPadding then do { dst \<leftarrow> upd dst (di + 2) (ucast (padChar enc)); upd dst (di + 3) (ucast (padChar enc)) }
            else Some dst
          else Some dst
        }
      })"

definition b64_EncodeToString :: "encoding \<Rightarrow> byte list \<Rightarrow> byte list option" where
  "b64_EncodeToString enc src =
     (let n = b64_EncodedLen enc (int (length src))
      in if n < 0 then None else b64_Encode enc (replicate (nat n) 0) src)"

subsection \<open>The streaming encoder\<close>

record 'e b64_encoder =
  b64_err :: "'e option"
  b64_buf :: "byte list"
  b64_nbuf :: int
  b64_out :: "byte list"

definition b64_NewEncoder :: "'e b64_encoder" where
  "b64_NewEncoder = \<lparr>b64_err = None, b64_buf = replicate 3 0, b64_nbuf = 0, b64_out = replicate 1024 0\<rparr>"

text \<open>The leading fringe: bytes are moved to the buffer until it is full; the rest of the slice is returned.\<close>

fun fringe :: "'e b64_encoder \<Rightarrow> byte list \<Rightarrow> int \<Rightarrow> ('e b64_encoder \<times> int \<times> byte list) option" where
  "fringe e [] i = Some (e, i, [])"
| "fringe e (c # p) i =
     (if b64_nbuf e < 3 then do { buf \<leftarrow> upd (b64_buf e) (b64_nbuf e) c; fringe (e\<lparr>b64_buf := buf, b64_nbuf := b64_nbuf e + 1\<rparr>) p (i + 1) }
      else Some (e, i, c # p))"

text \<open>The large interior chunks, until fewer than three bytes are left or a write fails.\<close>

partial_function (option) interior ::
  "encoding \<Rightarrow> ('w, 'e) writer \<Rightarrow> 'e b64_encoder \<Rightarrow> byte list \<Rightarrow> int \<Rightarrow> 'w \<Rightarrow> ('e b64_encoder \<times> byte list \<times> int \<times> 'w) option" where
  "interior enc wr e p n w =
     (if length p \<ge> 3 then
        do {
          let nn = int (length (b64_out e)) div 4 * 3;
          let nn = (if nn > int (length p) then int (length p) - int (length p) mod 3 else nn);
          out' \<leftarrow> b64_Encode enc (b64_out e) (take (nat nn) p);
          piece \<leftarrow> slice_of out' 0 (nn div 3 * 4);
          let ((_, err'), w) = wr piece w;
          let e = e\<lparr>b64_err := err', b64_out := out'\<rparr>;
          if err' \<noteq> None then Some (e, p, n, w) else interior enc wr e (drop (nat nn) p) (n + nn) w
        }
      else Some (e, p, n, w))"

text \<open>The trailing fringe.\<close>

fun trailing :: "byte list \<Rightarrow> int \<Rightarrow> byte list \<Rightarrow> byte list option" where
  "trailing buf i [] = Some buf"
| "trailing buf i (c # p) = do { buf \<leftarrow> upd buf i c; trailing buf (i + 1) p }"

definition b64_Write_rest ::
  "encoding \<Rightarrow> ('w, 'e) writer \<Rightarrow> byte list \<Rightarrow> int \<Rightarrow> 'e b64_encoder \<Rightarrow> 'w \<Rightarrow> ((int \<times> 'e option) \<times> 'e b64_encoder \<times> 'w) option" where
  "b64_Write_rest enc wr p n e w =
     do {
       (e, p, n, w) \<leftarrow> interior enc wr e p n w;
       if b64_err e \<noteq> None then Some ((n, b64_err e), e, w)
       else do {
         buf \<leftarrow> trailing (b64_buf e) 0 p;
         Some ((n + int (length p), None), e\<lparr>b64_buf := buf, b64_nbuf := int (length p)\<rparr>, w)
       }
     }"

definition b64_Write ::
  "encoding \<Rightarrow> ('w, 'e) writer \<Rightarrow> byte list \<Rightarrow> 'e b64_encoder \<Rightarrow> 'w \<Rightarrow> ((int \<times> 'e option) \<times> 'e b64_encoder \<times> 'w) option" where
  "b64_Write enc wr p e w =
     (if b64_err e \<noteq> None then Some ((0, b64_err e), e, w)
      else if b64_nbuf e > 0 then
        do {
          (e, i, p) \<leftarrow> fringe e p 0;
          if b64_nbuf e < 3 then Some ((i, None), e, w)
          else do {
            out' \<leftarrow> b64_Encode enc (b64_out e) (b64_buf e);
            piece \<leftarrow> slice_of out' 0 4;
            let ((_, err'), w) = wr piece w;
            let e = e\<lparr>b64_err := err', b64_out := out'\<rparr>;
            if err' \<noteq> None then Some ((i, err'), e, w) else b64_Write_rest enc wr p i (e\<lparr>b64_nbuf := 0\<rparr>) w
          }
        }
      else b64_Write_rest enc wr p 0 e w)"

definition b64_Close ::
  "encoding \<Rightarrow> ('w, 'e) writer \<Rightarrow> 'e b64_encoder \<Rightarrow> 'w \<Rightarrow> ('e option \<times> 'e b64_encoder \<times> 'w) option" where
  "b64_Close enc wr e w =
     (if b64_err e = None \<and> b64_nbuf e > 0 then
        do {
          p \<leftarrow> slice_of (b64_buf e) 0 (b64_nbuf e);
          out' \<leftarrow> b64_Encode enc (b64_out e) p;
          piece \<leftarrow> slice_of out' 0 (b64_EncodedLen enc (b64_nbuf e));
          let ((_, err'), w) = wr piece w;
          Some (err', e\<lparr>b64_err := err', b64_out := out', b64_nbuf := 0\<rparr>, w)
        }
      else Some (b64_err e, e, w))"

subsection \<open>Decoding\<close>

datatype base64_error = CorruptInputError int

text \<open>\<^verbatim>\<open>for si < len(src) && (src[si] == '\n' || src[si] == '\r')\<close>\<close>

function skip_newlines :: "byte list \<Rightarrow> int \<Rightarrow> int option" where
  "skip_newlines src si =
     (if si < int (length src) then do { c \<leftarrow> idx src si; if newline c then skip_newlines src (si + 1) else Some si } else Some si)"
  by pat_completeness auto
termination by (relation "measure (\<lambda>(src, si). nat (int (length src) - si))") auto

declare skip_newlines.simps [simp del]

text \<open>How the loop of \<^verbatim>\<open>decodeQuantum\<close> ends: an early return, or \<open>dbuf\<close>, \<open>dlen\<close>, \<open>si\<close> and \<open>err\<close> as the code behind it finds them.\<close>

datatype quantum = Early int "base64_error option" | Digits "byte list" int int "base64_error option"

definition quantum_padding :: "encoding \<Rightarrow> byte list \<Rightarrow> int \<Rightarrow> int \<Rightarrow> byte list \<Rightarrow> quantum option" where
  "quantum_padding enc src si j dbuf =
     (if j = 0 \<or> j = 1 then Some (Early si (Some (CorruptInputError (si - 1))))
      else do {
        r \<leftarrow> (if j = 2 then do {
                si \<leftarrow> skip_newlines src si;
                if si = int (length src) then Some (Inl (Early si (Some (CorruptInputError (int (length src))))))
                else do {
                  c \<leftarrow> idx src si;
                  if ucast c \<noteq> padChar enc then Some (Inl (Early si (Some (CorruptInputError (si - 1)))))
                  else Some (Inr (si + 1))
                }
              } else Some (Inr si));
        case r of
          Inl q \<Rightarrow> Some q
        | Inr si \<Rightarrow> do {
            si \<leftarrow> skip_newlines src si;
            let err = (if si < int (length src) then Some (CorruptInputError si) else None);
            Some (Digits dbuf j si err)
          }
      })"

function quantum_loop :: "encoding \<Rightarrow> byte list \<Rightarrow> int \<Rightarrow> int \<Rightarrow> byte list \<Rightarrow> quantum option" where
  "quantum_loop enc src si j dbuf =
     (if j < 4 then
        if int (length src) = si then
          if j = 0 then Some (Early si None)
          else if j = 1 \<or> padChar enc \<noteq> NoPadding then Some (Early si (Some (CorruptInputError (si - j))))
          else Some (Digits dbuf j si None)
        else do {
          inb \<leftarrow> idx src si;
          let si1 = si + 1;
          out \<leftarrow> idx (decodeMap enc) (uint inb);
          if out \<noteq> 0xFF then do { dbuf \<leftarrow> upd dbuf j out; quantum_loop enc src si1 (j + 1) dbuf }
          else if newline inb then quantum_loop enc src si1 j dbuf
          else if ucast inb \<noteq> padChar enc then Some (Early si1 (Some (CorruptInputError (si1 - 1))))
          else quantum_padding enc src si1 j dbuf
        }
      else Some (Digits dbuf 4 si None))"
  by pat_completeness auto
termination
  by (relation "measure (\<lambda>(enc, src, si, j, dbuf). nat (int (length src) - si))") (auto simp: idx_eq_Some_iff)

declare quantum_loop.simps [simp del]

text \<open>The bytes of a quantum are stored from the last one down.\<close>

definition quantum_store ::
  "encoding \<Rightarrow> byte list \<Rightarrow> byte list \<Rightarrow> int \<Rightarrow> int \<Rightarrow> base64_error option \<Rightarrow> (byte list \<times> int \<times> int \<times> base64_error option) option" where
  "quantum_store enc dst dbuf dlen si err =
     do {
       d0 \<leftarrow> idx dbuf 0; d1 \<leftarrow> idx dbuf 1; d2 \<leftarrow> idx dbuf 2; d3 \<leftarrow> idx dbuf 3;
       let val = (push_bit 18 (ucast d0) OR push_bit 12 (ucast d1) OR push_bit 6 (ucast d2) OR ucast d3 :: uint64);
       let (b2, b1, b0) = (ucast val :: byte, ucast (drop_bit 8 val) :: byte, ucast (drop_bit 16 val) :: byte);
       (dst, b2) \<leftarrow> (if dlen = 4 then do { dst \<leftarrow> upd dst 2 b2; Some (dst, 0) } else Some (dst, b2));
       dst \<leftarrow> (if dlen = 4 \<or> dlen = 3 then upd dst 1 b1 else Some dst);
       if (dlen = 4 \<or> dlen = 3) \<and> strict enc \<and> b2 \<noteq> 0 then Some (dst, si, 0, Some (CorruptInputError (si - 1)))
       else do {
         let b1 = (if dlen = 4 \<or> dlen = 3 then 0 else b1);
         dst \<leftarrow> (if dlen = 4 \<or> dlen = 3 \<or> dlen = 2 then upd dst 0 b0 else Some dst);
         if (dlen = 4 \<or> dlen = 3 \<or> dlen = 2) \<and> strict enc \<and> (b1 \<noteq> 0 \<or> b2 \<noteq> 0) then Some (dst, si, 0, Some (CorruptInputError (si - 2)))
         else Some (dst, si, dlen - 1, err)
       }
     }"

definition decodeQuantum ::
  "encoding \<Rightarrow> byte list \<Rightarrow> byte list \<Rightarrow> int \<Rightarrow> (byte list \<times> int \<times> int \<times> base64_error option) option" where
  "decodeQuantum enc dst src si =
     do {
       q \<leftarrow> quantum_loop enc src si 0 [0, 0, 0, 0];
       case q of
         Early si err \<Rightarrow> Some (dst, si, 0, err)
       | Digits dbuf dlen si err \<Rightarrow> quantum_store enc dst dbuf dlen si err
     }"

definition assemble32 :: "byte \<Rightarrow> byte \<Rightarrow> byte \<Rightarrow> byte \<Rightarrow> uint32 \<times> bool" where
  "assemble32 n1 n2 n3 n4 =
     (if n1 OR n2 OR n3 OR n4 = 0xFF then (0, False)
      else (push_bit 26 (ucast n1) OR push_bit 20 (ucast n2) OR push_bit 14 (ucast n3) OR push_bit 8 (ucast n4), True))"

definition assemble64 :: "byte \<Rightarrow> byte \<Rightarrow> byte \<Rightarrow> byte \<Rightarrow> byte \<Rightarrow> byte \<Rightarrow> byte \<Rightarrow> byte \<Rightarrow> uint64 \<times> bool" where
  "assemble64 n1 n2 n3 n4 n5 n6 n7 n8 =
     (if n1 OR n2 OR n3 OR n4 OR n5 OR n6 OR n7 OR n8 = 0xFF then (0, False)
      else (push_bit 58 (ucast n1) OR push_bit 52 (ucast n2) OR push_bit 46 (ucast n3) OR push_bit 40 (ucast n4)
         OR push_bit 34 (ucast n5) OR push_bit 28 (ucast n6) OR push_bit 22 (ucast n7) OR push_bit 16 (ucast n8), True))"

text \<open>\<^verbatim>\<open>enc.decodeMap[src2[k]]\<close>\<close>

definition digit_at :: "encoding \<Rightarrow> byte list \<Rightarrow> int \<Rightarrow> byte option" where
  "digit_at enc src2 k = do { c \<leftarrow> idx src2 k; idx (decodeMap enc) (uint c) }"

text \<open>The slow path within \<^verbatim>\<open>Decode\<close>: \<^verbatim>\<open>decodeQuantum(dst[n:], src, si)\<close>, with the new \<^verbatim>\<open>dst\<close>, \<^verbatim>\<open>n\<close> and \<^verbatim>\<open>si\<close>.\<close>

definition Decode_slow ::
  "encoding \<Rightarrow> byte list \<Rightarrow> byte list \<Rightarrow> int \<Rightarrow> int \<Rightarrow> (byte list \<times> int \<times> int \<times> base64_error option) option" where
  "Decode_slow enc dst src si n =
     do {
       (dst, si, ninc, err) \<leftarrow> on_tail dst n (\<lambda>d. decodeQuantum enc d src si);
       Some (dst, si, n + ninc, err)
     }"

text \<open>The three loops. Each returns \<^verbatim>\<open>dst\<close>, \<^verbatim>\<open>si\<close>, \<^verbatim>\<open>n\<close> and the error of an early return.\<close>

partial_function (option) Decode_loop64 ::
  "encoding \<Rightarrow> byte list \<Rightarrow> byte list \<Rightarrow> int \<Rightarrow> int \<Rightarrow> (byte list \<times> int \<times> int \<times> base64_error option) option" where
  "Decode_loop64 enc dst src si n =
     (if int (length src) - si \<ge> 8 \<and> int (length dst) - n \<ge> 8 then
        do {
          src2 \<leftarrow> slice_of src si (si + 8);
          n1 \<leftarrow> digit_at enc src2 0; n2 \<leftarrow> digit_at enc src2 1; n3 \<leftarrow> digit_at enc src2 2; n4 \<leftarrow> digit_at enc src2 3;
          n5 \<leftarrow> digit_at enc src2 4; n6 \<leftarrow> digit_at enc src2 5; n7 \<leftarrow> digit_at enc src2 6; n8 \<leftarrow> digit_at enc src2 7;
          let (dn, ok) = assemble64 n1 n2 n3 n4 n5 n6 n7 n8;
          if ok then do {
            (dst, _) \<leftarrow> on_tail dst n (\<lambda>d. do { d \<leftarrow> BE_PutUint64 d dn; Some (d, ()) });
            Decode_loop64 enc dst src (si + 8) (n + 6)
          }
          else do {
            (dst, si, n, err) \<leftarrow> Decode_slow enc dst src si n;
            if err \<noteq> None then Some (dst, si, n, err) else Decode_loop64 enc dst src si n
          }
        }
      else Some (dst, si, n, None))"

partial_function (option) Decode_loop32 ::
  "encoding \<Rightarrow> byte list \<Rightarrow> byte list \<Rightarrow> int \<Rightarrow> int \<Rightarrow> (byte list \<times> int \<times> int \<times> base64_error option) option" where
  "Decode_loop32 enc dst src si n =
     (if int (length src) - si \<ge> 4 \<and> int (length dst) - n \<ge> 4 then
        do {
          src2 \<leftarrow> slice_of src si (si + 4);
          n1 \<leftarrow> digit_at enc src2 0; n2 \<leftarrow> digit_at enc src2 1; n3 \<leftarrow> digit_at enc src2 2; n4 \<leftarrow> digit_at enc src2 3;
          let (dn, ok) = assemble32 n1 n2 n3 n4;
          if ok then do {
            (dst, _) \<leftarrow> on_tail dst n (\<lambda>d. do { d \<leftarrow> BE_PutUint32 d dn; Some (d, ()) });
            Decode_loop32 enc dst src (si + 4) (n + 3)
          }
          else do {
            (dst, si, n, err) \<leftarrow> Decode_slow enc dst src si n;
            if err \<noteq> None then Some (dst, si, n, err) else Decode_loop32 enc dst src si n
          }
        }
      else Some (dst, si, n, None))"

partial_function (option) Decode_loop8 ::
  "encoding \<Rightarrow> byte list \<Rightarrow> byte list \<Rightarrow> int \<Rightarrow> int \<Rightarrow> (byte list \<times> int \<times> int \<times> base64_error option) option" where
  "Decode_loop8 enc dst src si n =
     (if si < int (length src) then
        do {
          (dst, si, n, err) \<leftarrow> Decode_slow enc dst src si n;
          if err \<noteq> None then Some (dst, si, n, err) else Decode_loop8 enc dst src si n
        }
      else Some (dst, si, n, None))"

declare interior.simps [code] Decode_loop64.simps [code] Decode_loop32.simps [code] Decode_loop8.simps [code]

definition b64_Decode :: "encoding \<Rightarrow> byte list \<Rightarrow> byte list \<Rightarrow> (byte list \<times> int \<times> base64_error option) option" where
  "b64_Decode enc dst src =
     (if length src = 0 then Some (dst, 0, None)
      else do {
        (dst, si, n, err) \<leftarrow> Decode_loop64 enc dst src 0 0;
        if err \<noteq> None then Some (dst, n, err)
        else do {
          (dst, si, n, err) \<leftarrow> Decode_loop32 enc dst src si n;
          if err \<noteq> None then Some (dst, n, err)
          else do { (dst, si, n, err) \<leftarrow> Decode_loop8 enc dst src si n; Some (dst, n, err) }
        }
      })"

definition b64_DecodeString :: "encoding \<Rightarrow> byte list \<Rightarrow> (byte list \<times> base64_error option) option" where
  "b64_DecodeString enc s =
     (let k = b64_DecodedLen enc (int (length s))
      in if k < 0 then None
         else do {
           (dbuf, n, err) \<leftarrow> b64_Decode enc (replicate (nat k) 0) s;
           r \<leftarrow> slice_of dbuf 0 n;
           Some (r, err)
         })"

end
