(* ===== verification/Base64_Encode.thy ===== *)
theory Base64_Encode
  imports Base64
begin

text \<open>
  Encoding against the reference: three bytes are four letters of six bits each, and the rest of one or two bytes is padded.
\<close>

subsection \<open>The reference\<close>

definition lett :: "encoding \<Rightarrow> int \<Rightarrow> byte" where
  "lett enc k = encode enc ! nat k"

definition pads :: "encoding \<Rightarrow> nat \<Rightarrow> byte list" where
  "pads enc n = (if padChar enc = NoPadding then [] else replicate n (ucast (padChar enc)))"

fun b64_text :: "encoding \<Rightarrow> byte list \<Rightarrow> byte list" where
  "b64_text enc [] = []"
| "b64_text enc [x] = [lett enc (uint x div 4), lett enc (uint x mod 4 * 16)] @ pads enc 2"
| "b64_text enc [x, y] =
     [lett enc (uint x div 4), lett enc (uint x mod 4 * 16 + uint y div 16), lett enc (uint y mod 16 * 4)] @ pads enc 1"
| "b64_text enc (x # y # z # r) =
     [lett enc (uint x div 4), lett enc (uint x mod 4 * 16 + uint y div 16), lett enc (uint y mod 16 * 4 + uint z div 64),
      lett enc (uint z mod 64)] @ b64_text enc r"

lemma b64_text_append: "length p = 3 * k \<Longrightarrow> b64_text enc (p @ q) = b64_text enc p @ b64_text enc q"
proof (induction k arbitrary: p)
  case (Suc k)
  then obtain x y z r where "p = x # y # z # r" "length r = 3 * k"
    by (cases p; cases "tl p"; cases "tl (tl p)") auto
  then show ?case using Suc.IH by simp
qed simp

lemma length_b64_text_groups: "length p = 3 * k \<Longrightarrow> length (b64_text enc p) = 4 * k"
proof (induction k arbitrary: p)
  case (Suc k)
  then obtain x y z r where "p = x # y # z # r" "length r = 3 * k"
    by (cases p; cases "tl p"; cases "tl (tl p)") auto
  then show ?case using Suc.IH by simp
qed simp

lemma length_b64_text:
  "int (length (b64_text enc src)) =
    (if padChar enc = NoPadding then (int (length src) * 8 + 5) div 6 else (int (length src) + 2) div 3 * 4)"
proof (induction enc src rule: b64_text.induct)
  case (4 enc x y z r)
  have "(int (length (x # y # z # r)) * 8 + 5) = int (length r) * 8 + 5 + 4 * 6" "int (length (x # y # z # r)) + 2 = int (length r) + 2 + 1 * 3"
    by simp_all
  then show ?case using 4 by (simp only: b64_text.simps(4) div_mult_self1) simp
qed (simp_all add: pads_def)

subsection \<open>Six bits of three bytes\<close>

lemma three_bytes:
  fixes x y z :: byte
  defines "v \<equiv> (push_bit 16 (ucast x) OR push_bit 8 (ucast y) OR ucast z :: uint64)"
  shows "uint v = uint x * 65536 + uint y * 256 + uint z"
proof -
  have z: "uint (ucast z :: uint64) = uint z" using uint_shift_byte [of z 0, where 'a = 64] uint_byte [of z] by simp
  have y: "uint (push_bit 8 (ucast y) OR ucast z :: uint64) = uint y * 256 + uint z"
    using uint_or_plus [of "ucast z :: uint64" 8 "push_bit 8 (ucast y)"] uint_shift_byte [of y 8, where 'a = 64] uint_byte [of y] uint_byte [of z] z by simp
  have "uint (push_bit 16 (ucast x) OR (push_bit 8 (ucast y) OR ucast z) :: uint64) = uint x * 65536 + (uint y * 256 + uint z)"
    using uint_or_plus [of "push_bit 8 (ucast y) OR ucast z :: uint64" 16 "push_bit 16 (ucast x)"] uint_shift_byte [of x 16, where 'a = 64]
      uint_byte [of x] uint_byte [of y] uint_byte [of z] y by simp
  then show ?thesis by (simp add: v_def or.assoc)
qed

lemma mod_split: "0 \<le> w \<Longrightarrow> w < n \<Longrightarrow> 0 \<le> m \<Longrightarrow> (w + a * n) mod (n * m) = a mod m * n + (w :: int)"
  by (simp add: zmod_zmult2_eq)

lemma six_bits:
  fixes x y z :: int
  assumes "0 \<le> x" "x < 256" "0 \<le> y" "y < 256" "0 \<le> z" "z < 256"
  defines "v \<equiv> x * 65536 + y * 256 + z"
  shows "v div 262144 mod 64 = x div 4" "v div 4096 mod 64 = x mod 4 * 16 + y div 16"
    "v div 64 mod 64 = y mod 16 * 4 + z div 64" "v mod 64 = z mod 64"
proof -
  have v8: "v div 256 = x * 256 + y" using assms div_mult_self1 [of 256 z "x * 256 + y"] by (simp add: v_def algebra_simps)
  have v16: "v div 65536 = x"
  proof -
    have "v div 65536 = v div 256 div 256" by (simp flip: zdiv_zmult2_eq)
    also have "\<dots> = x" unfolding v8 using assms(3,4) div_mult_self1 [of 256 y x] by (simp add: add.commute)
    finally show ?thesis .
  qed
  have v6: "v div 64 = z div 64 + (x * 1024 + y * 4)" using div_mult_self1 [of 64 z "x * 1024 + y * 4"] by (simp add: v_def algebra_simps)
  have a: "v div 262144 = v div 65536 div 4" "v div 4096 = v div 256 div 16" by (simp_all flip: zdiv_zmult2_eq)
  show "v div 262144 mod 64 = x div 4" using assms(1,2) by (simp add: a v16)
  show "v div 4096 mod 64 = x mod 4 * 16 + y div 16" unfolding a v8
    using mod_split [of "y div 16" 16 4 x] div_mult_self1 [of 16 y "x * 16"] assms(3,4) by (simp add: algebra_simps)
  show "v div 64 mod 64 = y mod 16 * 4 + z div 64" unfolding v6
    using mod_split [of "z div 64" 4 16 "x * 256 + y"] assms(5,6) mod_mult_self1 [of y "x * 16" 16] by (simp add: algebra_simps)
  have "v = z + (x * 1024 + y * 4) * 64" by (simp add: v_def)
  then show "v mod 64 = z mod 64" using mod_mult_self1 [of z "x * 1024 + y * 4" 64] by (simp only:)
qed

lemma letter_eq:
  assumes "length (encode enc) = 64"
  shows "letter enc v = Some (lett enc (uint v mod 64))"
  using assms by (simp add: letter_def lett_def uint_and_mod)

lemma letters_3:
  fixes x y z :: byte
  defines "v \<equiv> (push_bit 16 (ucast x) OR push_bit 8 (ucast y) OR ucast z :: uint64)"
  assumes "length (encode enc) = 64"
  shows "letter enc (drop_bit 18 v) = Some (lett enc (uint x div 4))"
    "letter enc (drop_bit 12 v) = Some (lett enc (uint x mod 4 * 16 + uint y div 16))"
    "letter enc (drop_bit 6 v) = Some (lett enc (uint y mod 16 * 4 + uint z div 64))"
    "letter enc v = Some (lett enc (uint z mod 64))"
proof -
  have v: "uint v = uint x * 65536 + uint y * 256 + uint z" unfolding v_def by (rule three_bytes)
  have p: "(2::int) ^ 18 = 262144" "(2::int) ^ 12 = 4096" "(2::int) ^ 6 = 64" by simp_all
  note s = six_bits [OF uint_byte [of x] uint_byte [of y] uint_byte [of z], folded v]
  show "letter enc (drop_bit 18 v) = Some (lett enc (uint x div 4))"
    "letter enc (drop_bit 12 v) = Some (lett enc (uint x mod 4 * 16 + uint y div 16))"
    "letter enc (drop_bit 6 v) = Some (lett enc (uint y mod 16 * 4 + uint z div 64))"
    "letter enc v = Some (lett enc (uint z mod 64))"
    unfolding letter_eq [OF assms(2)] uint_drop p s by (rule refl)+
qed

subsection \<open>The loop and the whole function\<close>

lemma upd_append: "n < length b \<Longrightarrow> upd (a @ b) (int (length a) + int n) v = Some (a @ b[n := v])"
  by (simp add: upd_def nat_add_distrib list_update_append)

lemma idx_append: "n < length b \<Longrightarrow> idx (a @ b) (int (length a) + int n) = Some (b ! n)"
  by (simp add: idx_def nat_add_distrib nth_append)

lemma Encode_group:
  assumes "length (encode enc) = 64"
  shows "b64_Encode_loop enc (out @ u0 # u1 # u2 # u3 # junk) (done @ x # y # z # r) (int (length out)) (int (length done)) n
    = (if int (length done) < n then b64_Encode_loop enc (out @ b64_text enc [x, y, z] @ junk) (done @ x # y # z # r) (int (length out) + 4) (int (length done) + 3) n
       else Some (out @ u0 # u1 # u2 # u3 # junk, int (length out), int (length done)))"
proof -
  note i = idx_append [of 0 "x # y # z # r" "done"] idx_append [of 1 "x # y # z # r" "done"] idx_append [of 2 "x # y # z # r" "done"]
  have u: "upd (out @ a # b # c # d # junk) (int (length out)) v = Some (out @ v # b # c # d # junk)"
    "upd (out @ a # b # c # d # junk) (int (length out) + 1) v = Some (out @ a # v # c # d # junk)"
    "upd (out @ a # b # c # d # junk) (int (length out) + 2) v = Some (out @ a # b # v # d # junk)"
    "upd (out @ a # b # c # d # junk) (int (length out) + 3) v = Some (out @ a # b # c # v # junk)" for a b c d v
    using upd_append [of 0 "a # b # c # d # junk" out v] upd_append [of 1 "a # b # c # d # junk" out v]
      upd_append [of 2 "a # b # c # d # junk" out v] upd_append [of 3 "a # b # c # d # junk" out v] by (simp_all add: numeral_eq_Suc)
  show ?thesis
    by (subst b64_Encode_loop.simps) (use i in \<open>simp add: Let_def letters_3 [OF assms] u del: drop_bit_or\<close>)
qed

lemma Encode_loop_ok:
  assumes "length (encode enc) = 64"
  shows "length p = 3 * k \<Longrightarrow> length junk = 4 * k \<Longrightarrow>
    b64_Encode_loop enc (out @ junk @ t) (done @ p @ r) (int (length out)) (int (length done)) (int (length done) + 3 * int k)
      = Some (out @ b64_text enc p @ t, int (length out) + 4 * int k, int (length done) + 3 * int k)"
proof (induction k arbitrary: p junk out "done")
  case 0
  then show ?case by (subst b64_Encode_loop.simps) simp
next
  case (Suc k)
  obtain x y z q where p: "p = x # y # z # q" "length q = 3 * k" using Suc.prems(1) by (cases p; cases "tl p"; cases "tl (tl p)") auto
  obtain u0 u1 u2 u3 j where j: "junk = u0 # u1 # u2 # u3 # j" "length j = 4 * k"
    using Suc.prems(2) by (cases junk; cases "tl junk"; cases "tl (tl junk)"; cases "tl (tl (tl junk))") auto
  have l: "length (b64_text enc [x, y, z]) = 4" by simp
  have "b64_Encode_loop enc (out @ junk @ t) (done @ p @ r) (int (length out)) (int (length done)) (int (length done) + 3 * int (Suc k))
      = b64_Encode_loop enc ((out @ b64_text enc [x, y, z]) @ j @ t) ((done @ [x, y, z]) @ q @ r) (int (length (out @ b64_text enc [x, y, z])))
          (int (length (done @ [x, y, z]))) (int (length (done @ [x, y, z])) + 3 * int k)"
    using Encode_group [OF assms, of out u0 u1 u2 u3 "j @ t" "done" x y z "q @ r" "int (length done) + 3 * int (Suc k)"] p j
    by (simp add: algebra_simps)
  also have "\<dots> = Some ((out @ b64_text enc [x, y, z]) @ b64_text enc q @ t, int (length (out @ b64_text enc [x, y, z])) + 4 * int k,
      int (length (done @ [x, y, z])) + 3 * int k)"
    by (rule Suc.IH [OF p(2) j(2)])
  finally show ?case using p by (simp add: algebra_simps)
qed

text \<open>The last one or two bytes: the missing bytes count as zero.\<close>

lemma letters_2:
  fixes x y :: byte
  defines "v \<equiv> (push_bit 16 (ucast x) OR push_bit 8 (ucast y) :: uint64)"
  assumes "length (encode enc) = 64"
  shows "letter enc (drop_bit 18 v) = Some (lett enc (uint x div 4))"
    "letter enc (drop_bit 12 v) = Some (lett enc (uint x mod 4 * 16 + uint y div 16))"
    "letter enc (drop_bit 6 v) = Some (lett enc (uint y mod 16 * 4))"
  using letters_3 [OF assms(2), of x y 0] by (simp_all add: v_def del: drop_bit_or)

lemma letters_1:
  fixes x :: byte
  assumes "length (encode enc) = 64"
  shows "letter enc (drop_bit 18 (push_bit 16 (ucast x))) = Some (lett enc (uint x div 4))"
    "letter enc (drop_bit 12 (push_bit 16 (ucast x))) = Some (lett enc (uint x mod 4 * 16))"
  using letters_3 [OF assms, of x 0 0] by (simp_all del: drop_bit_or)

lemma upd_behind:
  "upd (out @ a # t) (int (length out)) v = Some (out @ v # t)"
  "upd (out @ a # b # t) (int (length out) + 1) v = Some (out @ a # v # t)"
  "upd (out @ a # b # c # t) (int (length out) + 2) v = Some (out @ a # b # v # t)"
  "upd (out @ a # b # c # d # t) (int (length out) + 3) v = Some (out @ a # b # c # v # t)"
  using upd_append [of 0 "a # t" out v] upd_append [of 1 "a # b # t" out v]
    upd_append [of 2 "a # b # c # t" out v] upd_append [of 3 "a # b # c # d # t" out v] by (simp_all add: numeral_eq_Suc)

lemma short_list_cases:
  assumes "length r < 3"
  obtains "r = []" | x where "r = [x]" | x y where "r = [x, y]"
  using assms by (cases r; cases "tl r"; cases "tl (tl r)") auto

lemma b64_Encode_ok:
  assumes enc: "length (encode enc) = 64" and room: "length (b64_text enc src) \<le> length dst"
  shows "b64_Encode enc dst src = Some (b64_text enc src @ drop (length (b64_text enc src)) dst)"
proof (cases "src = []")
  case True
  then show ?thesis by (simp add: b64_Encode_def)
next
  case False
  define k where "k = length src div 3"
  define p where "p = take (3 * k) src"
  define r where "r = drop (3 * k) src"
  have src: "src = p @ r" by (simp add: p_def r_def)
  have lp: "length p = 3 * k" and lr: "length r < 3" by (simp_all add: p_def r_def k_def min_def) (use mod_less_divisor [of 3 "length src"] in linarith)+
  have both: "b64_text enc src = b64_text enc p @ b64_text enc r" unfolding src by (rule b64_text_append [OF lp])
  have lt: "length (b64_text enc p) = 4 * k" by (rule length_b64_text_groups [OF lp])
  define junk where "junk = take (4 * k) dst"
  define t where "t = drop (4 * k) dst"
  have dst: "dst = junk @ t" "length junk = 4 * k" "length (b64_text enc r) \<le> length t"
    using room by (simp_all add: junk_def t_def both lt)
  have n: "int (length src) div 3 * 3 = 3 * int k" by (simp add: k_def zdiv_int)
  have loop: "b64_Encode_loop enc dst src 0 0 (int (length src) div 3 * 3) = Some (b64_text enc p @ t, int (length (b64_text enc p)), int (length p))"
    using Encode_loop_ok [OF enc lp dst(2), of "[]" t "[]" r] unfolding n unfolding dst(1) src by (simp add: lt lp)
  have ls: "length src = length p + length r" by (simp add: src)
  have at: "r = x # r' \<Longrightarrow> src ! length p = x" "r = x # y # r' \<Longrightarrow> src ! nat (int (length p) + 1) = y" for x y r'
    by (simp_all add: src nth_append nat_add_distrib)
  have res: "b64_text enc src @ drop (length (b64_text enc src)) dst = b64_text enc p @ b64_text enc r @ drop (length (b64_text enc r)) t"
    by (simp add: both dst(1,2) lt)
  note body = b64_Encode_def Let_def loop
  from lr show ?thesis
  proof (cases rule: short_list_cases)
    case 1
    then have "length src = length p" "p \<noteq> []" using src False by auto
    then show ?thesis using False 1 unfolding res b64_Encode_def Let_def loop by simp
  next
    case (2 x)
    then show ?thesis using False dst(3) unfolding res
      by (cases t; cases "tl t"; cases "tl (tl t)"; cases "tl (tl (tl t))")
        (unfold body, auto simp: ls numeral_2_eq_2 at letters_1 [OF enc] upd_behind pads_def split: if_splits)
  next
    case (3 x y)
    then show ?thesis using False dst(3) unfolding res
      by (cases t; cases "tl t"; cases "tl (tl t)"; cases "tl (tl (tl t))")
        (unfold body, auto simp: ls numeral_2_eq_2 at letters_2 [OF enc] upd_behind pads_def simp del: drop_bit_or split: if_splits)
  qed
qed

lemma b64_EncodedLen_ok:
  assumes "length src < 2 ^ 59"
  shows "b64_EncodedLen enc (int (length src)) = int (length (b64_text enc src))"
proof -
  have b: "int (length src) < 576460752303423488" using assms by simp
  then have i: "int64 (int (length src) * 8) = int (length src) * 8" "int64 (int (length src) * 8 + 5) = int (length src) * 8 + 5"
    "int64 (int (length src) + 2) = int (length src) + 2"
    by (simp_all add: go_int_simps)
  have "0 \<le> (int (length src) + 2) div 3" "(int (length src) + 2) div 3 \<le> int (length src) + 2"
    using int_div_le_self [of "int (length src) + 2" 3] by simp_all
  then have "int64 ((int (length src) + 2) div 3 * 4) = (int (length src) + 2) div 3 * 4"
    using b by (intro int64_id) auto
  then show ?thesis unfolding length_b64_text b64_EncodedLen_def i by (simp add: signed_divide_int_def)
qed

lemma b64_EncodeToString_ok:
  assumes "length (encode enc) = 64" "length src < 2 ^ 59"
  shows "b64_EncodeToString enc src = Some (b64_text enc src)"
  using b64_Encode_ok [OF assms(1), of src] b64_EncodedLen_ok [OF assms(2), of enc]
  by (simp add: b64_EncodeToString_def)

end
