(* ===== verification/Base64_Digits.thy ===== *)
theory Base64_Digits
  imports Base64_Encode
begin

text \<open>
  Decoding as a specification: the reference decoder on the text without its newlines, and the arithmetic that puts four
  digits together in the slow path and in the two fast ones.
\<close>

subsection \<open>Encodings\<close>

definition dg :: "encoding \<Rightarrow> byte \<Rightarrow> byte" where "dg enc c = decodeMap enc ! unat c"
definition isd :: "encoding \<Rightarrow> byte \<Rightarrow> bool" where "isd enc c \<longleftrightarrow> dg enc c \<noteq> 0xFF"

text \<open>The decode map inverts the alphabet; newlines and the padding are not letters.\<close>

definition valid_encoding :: "encoding \<Rightarrow> bool" where
  "valid_encoding enc \<longleftrightarrow> length (encode enc) = 64 \<and> length (decodeMap enc) = 256
    \<and> (\<forall>i < 64. dg enc (encode enc ! i) = word_of_nat i)
    \<and> (\<forall>c. c \<notin> set (encode enc) \<longrightarrow> dg enc c = 0xFF)
    \<and> (\<forall>c \<in> set (encode enc). \<not> newline c \<and> ucast c \<noteq> padChar enc)
    \<and> (padChar enc = NoPadding \<or> (\<exists>c. padChar enc = ucast (c :: byte) \<and> \<not> newline c))"

lemma small_nat: "n < 256 \<Longrightarrow> unat (word_of_nat n :: byte) = n"
  by (simp add: unsigned_of_nat take_bit_nat_eq_self)

lemma valid_letters:
  assumes "valid_encoding enc" "isd enc c"
  shows "uint (dg enc c) < 64" "encode enc ! unat (dg enc c) = c" "\<not> newline c" "ucast c \<noteq> padChar enc"
proof -
  have "c \<in> set (encode enc)" using assms by (auto simp: valid_encoding_def isd_def)
  then obtain i where i: "i < 64" "c = encode enc ! i" using assms(1) by (auto simp: valid_encoding_def in_set_conv_nth)
  then have d: "dg enc c = word_of_nat i" using assms(1) by (simp add: valid_encoding_def)
  then have u: "unat (dg enc c) = i" using i(1) small_nat [of i] by simp
  show "uint (dg enc c) < 64" using i(1) u by (simp add: uint_nat)
  show "encode enc ! unat (dg enc c) = c" using i(2) u by simp
  show "\<not> newline c" "ucast c \<noteq> padChar enc" using assms(1) \<open>c \<in> set (encode enc)\<close> by (auto simp: valid_encoding_def)
qed

lemma dg_lett:
  assumes "valid_encoding enc" "0 \<le> k" "k < 64"
  shows "uint (dg enc (lett enc k)) = k" "isd enc (lett enc k)"
proof -
  have "dg enc (lett enc k) = word_of_nat (nat k)" using assms by (simp add: valid_encoding_def lett_def)
  then have "unat (dg enc (lett enc k)) = nat k" using small_nat [of "nat k"] assms(2,3) by simp
  then show u: "uint (dg enc (lett enc k)) = k" using assms(2) by (simp add: uint_nat)
  show "isd enc (lett enc k)" using u assms(3) by (auto simp: isd_def)
qed

subsection \<open>Four digits\<close>

definition value4 :: "int \<Rightarrow> int \<Rightarrow> int \<Rightarrow> int \<Rightarrow> int" where
  "value4 a b c d = a * 262144 + b * 4096 + c * 64 + d"

definition bytes_of :: "int \<Rightarrow> byte list" where
  "bytes_of v = [word_of_int (v div 65536), word_of_int (v div 256), word_of_int v]"

lemma value4_range:
  assumes "0 \<le> a" "a < 64" "0 \<le> b" "b < 64" "0 \<le> c" "c < 64" "0 \<le> d" "d < 64"
  shows "0 \<le> value4 a b c d" "value4 a b c d < 16777216"
  using assms by (simp_all add: value4_def)

lemma digit_or:
  fixes w :: "'a::len word" and d :: byte
  assumes "uint d < 64" "uint w < 2 ^ k" "k + 6 \<le> LENGTH('a)"
  shows "uint (push_bit k (ucast d) OR w) = uint d * 2 ^ k + uint w" "uint d * 2 ^ k + uint w < 2 ^ (k + 6)"
proof -
  have b: "uint d * 2 ^ k \<le> 63 * 2 ^ k" using assms(1) by (intro mult_right_mono) auto
  moreover have "(2::int) ^ (k + 6) = 64 * 2 ^ k" by (simp add: power_add)
  ultimately show "uint d * 2 ^ k + uint w < 2 ^ (k + 6)" using assms(2) by linarith
  moreover have "(2::int) ^ (k + 6) \<le> 2 ^ LENGTH('a)" using assms(3) by (intro power_increasing) simp_all
  ultimately have "uint d * 2 ^ k < 2 ^ LENGTH('a)" using uint_ge_0 [of w] by linarith
  then have "uint (push_bit k (ucast d) :: 'a word) = uint d * 2 ^ k" by (rule uint_shift_byte)
  then show "uint (push_bit k (ucast d) OR w) = uint d * 2 ^ k + uint w"
    using uint_or_plus [of w k "push_bit k (ucast d)"] assms(2) by simp
qed

lemma uint_ucast_digit: "6 \<le> LENGTH('a::len) \<Longrightarrow> uint d < 64 \<Longrightarrow> uint (ucast (d :: byte) :: 'a word) = uint d"
  using uint_shift_byte [of d 0, where 'a = 'a] power_increasing [of 6 "LENGTH('a)" "2::int"] by simp

lemma four_digits:
  fixes d0 d1 d2 d3 :: byte and w :: "'a::len word"
  assumes d: "uint d0 < 64" "uint d1 < 64" "uint d2 < 64" "uint d3 < 64" and w: "uint w < 2 ^ k" and k: "k + 24 \<le> LENGTH('a)"
  shows "uint (push_bit (k + 18) (ucast d0) OR push_bit (k + 12) (ucast d1) OR push_bit (k + 6) (ucast d2) OR push_bit k (ucast d3) OR w)
      = value4 (uint d0) (uint d1) (uint d2) (uint d3) * 2 ^ k + uint w"
    "value4 (uint d0) (uint d1) (uint d2) (uint d3) * 2 ^ k + uint w < 2 ^ (k + 24)"
proof -
  note s3 = digit_or [OF d(4) w]
  note s2 = digit_or [OF d(3), of "push_bit k (ucast d3) OR w" "k + 6"]
  note s1 = digit_or [OF d(2), of "push_bit (k + 6) (ucast d2) OR (push_bit k (ucast d3) OR w)" "k + 12"]
  note s0 = digit_or [OF d(1), of "push_bit (k + 12) (ucast d1) OR (push_bit (k + 6) (ucast d2) OR (push_bit k (ucast d3) OR w))" "k + 18"]
  have u3: "uint (push_bit k (ucast d3) OR w) = uint d3 * 2 ^ k + uint w" "uint d3 * 2 ^ k + uint w < 2 ^ (k + 6)" using s3 k by simp_all
  have u2: "uint (push_bit (k + 6) (ucast d2) OR (push_bit k (ucast d3) OR w)) = uint d2 * 2 ^ (k + 6) + (uint d3 * 2 ^ k + uint w)"
    "uint d2 * 2 ^ (k + 6) + (uint d3 * 2 ^ k + uint w) < 2 ^ (k + 12)" using s2 u3 k by (simp_all add: add.assoc)
  have u1: "uint (push_bit (k + 12) (ucast d1) OR (push_bit (k + 6) (ucast d2) OR (push_bit k (ucast d3) OR w)))
      = uint d1 * 2 ^ (k + 12) + (uint d2 * 2 ^ (k + 6) + (uint d3 * 2 ^ k + uint w))"
    "uint d1 * 2 ^ (k + 12) + (uint d2 * 2 ^ (k + 6) + (uint d3 * 2 ^ k + uint w)) < 2 ^ (k + 18)" using s1 u2 k by (simp_all add: add.assoc)
  have u0: "uint (push_bit (k + 18) (ucast d0) OR (push_bit (k + 12) (ucast d1) OR (push_bit (k + 6) (ucast d2) OR (push_bit k (ucast d3) OR w))))
      = uint d0 * 2 ^ (k + 18) + (uint d1 * 2 ^ (k + 12) + (uint d2 * 2 ^ (k + 6) + (uint d3 * 2 ^ k + uint w)))"
    "uint d0 * 2 ^ (k + 18) + (uint d1 * 2 ^ (k + 12) + (uint d2 * 2 ^ (k + 6) + (uint d3 * 2 ^ k + uint w))) < 2 ^ (k + 24)" using s0 u1 k by (simp_all add: add.assoc)
  have v: "uint d0 * 2 ^ (k + 18) + (uint d1 * 2 ^ (k + 12) + (uint d2 * 2 ^ (k + 6) + (uint d3 * 2 ^ k + uint w)))
      = value4 (uint d0) (uint d1) (uint d2) (uint d3) * 2 ^ k + uint w"
    by (simp add: value4_def power_add algebra_simps)
  show "uint (push_bit (k + 18) (ucast d0) OR push_bit (k + 12) (ucast d1) OR push_bit (k + 6) (ucast d2) OR push_bit k (ucast d3) OR w)
      = value4 (uint d0) (uint d1) (uint d2) (uint d3) * 2 ^ k + uint w" unfolding or.assoc u0(1) v ..
  show "value4 (uint d0) (uint d1) (uint d2) (uint d3) * 2 ^ k + uint w < 2 ^ (k + 24)" using u0(2) unfolding v .
qed

lemma bytes_of_word:
  fixes v :: "'a::len word"
  assumes "24 \<le> LENGTH('a)"
  shows "(ucast (drop_bit 16 v) :: byte) = word_of_int (uint v div 65536)" "(ucast (drop_bit 8 v) :: byte) = word_of_int (uint v div 256)"
    "(ucast v :: byte) = word_of_int (uint v)"
  by (simp_all only: ucast_eq uint_drop power_numeral_even power_numeral_odd) simp_all

subsection \<open>The reference decoder\<close>

text \<open>Up to four digits, missing ones counting as zero.\<close>

definition group_bytes :: "encoding \<Rightarrow> byte list \<Rightarrow> byte list" where
  "group_bytes enc ds =
     (let d = (\<lambda>i. if i < length ds then uint (dg enc (ds ! i)) else 0) in bytes_of (value4 (d 0) (d 1) (d 2) (d 3)))"

text \<open>
  A text without newlines gives bytes and whether it is correct. A last group of two or three digits must have the padding
  behind it and nothing else, and in a strict encoding its unused bits are zero.
\<close>

function b64_ref :: "encoding \<Rightarrow> byte list \<Rightarrow> byte list \<times> bool" where
  "b64_ref enc t =
     (if t = [] then ([], True)
      else
        let ds = takeWhile (isd enc) (take 4 t); u = drop (length ds) t; p = pads enc (4 - length ds); b = group_bytes enc ds
        in if length ds = 4 then (b @ fst (b64_ref enc (drop 4 t)), snd (b64_ref enc (drop 4 t)))
           else if 2 \<le> length ds \<and> (u = p \<or> p \<noteq> [] \<and> take (length p) u = p) \<and>
                  (strict enc \<longrightarrow> (\<forall>x \<in> set (drop (length ds - 1) b). x = 0))
             then (take (length ds - 1) b, u = p)
           else ([], False))"
  by pat_completeness auto
termination by (relation "measure (\<lambda>(enc, t). length t)") auto

declare b64_ref.simps [simp del]

lemma b64_ref_Nil [simp]: "b64_ref enc [] = ([], True)"
  by (simp add: b64_ref.simps)

lemma b64_ref_group:
  assumes "list_all (isd enc) [a, b, c, d]"
  shows "b64_ref enc (a # b # c # d # t) = (group_bytes enc [a, b, c, d] @ fst (b64_ref enc t), snd (b64_ref enc t))"
  using assms by (subst b64_ref.simps) (simp add: Let_def)

definition nonl :: "byte list \<Rightarrow> byte list" where "nonl s = filter (\<lambda>c. \<not> newline c) s"

lemma nonl_simps [simp]: "nonl [] = []" "nonl (c # s) = (if newline c then nonl s else c # nonl s)" "nonl (s @ t) = nonl s @ nonl t"
  by (simp_all add: nonl_def)

subsection \<open>Round trips of the reference\<close>

lemma word_of_int_byte: "word_of_int (uint x) = (x :: byte)"
  by simp

lemma bytes_of_three:
  fixes x y z :: byte
  shows "bytes_of (uint x * 65536 + uint y * 256 + uint z) = [x, y, z]"
proof -
  have x: "(uint x * 65536 + uint y * 256 + uint z) div 65536 = uint x"
    using uint_byte [of y] uint_byte [of z] div_mult_self1 [of 65536 "uint y * 256 + uint z" "uint x"] by (simp add: algebra_simps)
  have y: "(uint x * 65536 + uint y * 256 + uint z) div 256 = uint y + uint x * 256"
    using uint_byte [of z] div_mult_self1 [of 256 "uint z" "uint x * 256 + uint y"] by (simp add: algebra_simps)
  have m: "(word_of_int (k + j * 256) :: byte) = word_of_int k" for k j
    unfolding word_of_int_eq_iff by (simp add: take_bit_eq_mod)
  show ?thesis unfolding bytes_of_def x y using m [of "uint y" "uint x"] m [of "uint z" "uint x * 256 + uint y"]
    by (simp add: algebra_simps del: of_int_add of_int_mult)
qed

lemma value4_three:
  fixes x y z :: int
  assumes "0 \<le> x" "x < 256" "0 \<le> y" "y < 256" "0 \<le> z" "z < 256"
  shows "value4 (x div 4) (x mod 4 * 16 + y div 16) (y mod 16 * 4 + z div 64) (z mod 64) = x * 65536 + y * 256 + z"
proof -
  have "value4 a (b * 16 + c) (d * 4 + e) f = (a * 4 + b) * 65536 + (c * 16 + d) * 256 + (e * 64 + f)" for a b c d e f
    by (simp add: value4_def algebra_simps)
  then show ?thesis by (simp only: div_mult_mod_eq)
qed

end
