(* ===== verification/Base64_Reference.thy ===== *)
theory Base64_Reference
  imports Base64_Digits
begin

text \<open>
  The reference decoder inverts the reference encoder, and in a strict encoding it accepts nothing else.
\<close>

lemma valid_length: "valid_encoding enc \<Longrightarrow> length (encode enc) = 64" "valid_encoding enc \<Longrightarrow> length (decodeMap enc) = 256"
  by (simp_all add: valid_encoding_def)

lemma lett_dg: "valid_encoding enc \<Longrightarrow> isd enc c \<Longrightarrow> lett enc (uint (dg enc c)) = c"
  using valid_letters(2) [of enc c] by (simp add: lett_def)

lemma ucast_ucast_byte: "ucast (ucast (c :: byte) :: rune) = c"
  by (rule bit_word_eqI) (simp add: bit_ucast_iff bit_imp_le_length)

lemma pad_byte:
  assumes "valid_encoding enc" "padChar enc \<noteq> NoPadding"
  shows "ucast (ucast (padChar enc) :: byte) = padChar enc" "\<not> isd enc (ucast (padChar enc))" "\<not> newline (ucast (padChar enc))"
proof -
  obtain c :: byte where c: "padChar enc = ucast c" "\<not> newline c" using assms by (auto simp: valid_encoding_def)
  have u: "ucast (padChar enc) = c" unfolding c by (rule ucast_ucast_byte)
  show "ucast (ucast (padChar enc) :: byte) = padChar enc" "\<not> newline (ucast (padChar enc))" unfolding u using c by auto
  show "\<not> isd enc (ucast (padChar enc))" unfolding u using valid_letters(4) [OF assms(1)] c(1) by metis
qed

lemma pads_not_digits: "valid_encoding enc \<Longrightarrow> takeWhile (isd enc) (pads enc n) = []"
  using pad_byte(2) by (cases n) (auto simp: pads_def)

lemma nonl_pads: "valid_encoding enc \<Longrightarrow> nonl (pads enc n) = pads enc n"
  using pad_byte(3) by (auto simp: pads_def nonl_def filter_id_conv)

lemma group_bytes_simps:
  "group_bytes enc [a, b] = bytes_of (value4 (uint (dg enc a)) (uint (dg enc b)) 0 0)"
  "group_bytes enc [a, b, c] = bytes_of (value4 (uint (dg enc a)) (uint (dg enc b)) (uint (dg enc c)) 0)"
  "group_bytes enc [a, b, c, d] = bytes_of (value4 (uint (dg enc a)) (uint (dg enc b)) (uint (dg enc c)) (uint (dg enc d)))"
  by (simp_all add: group_bytes_def Let_def)

lemma length_group_bytes [simp]: "length (group_bytes enc ds) = 3"
  by (simp add: group_bytes_def bytes_of_def Let_def)

text \<open>The reference on a last group.\<close>

lemma b64_ref_last:
  assumes "list_all (isd enc) ds" "2 \<le> length ds" "length ds < 4" "takeWhile (isd enc) u = []"
  shows "b64_ref enc (ds @ u) =
    (if (u = pads enc (4 - length ds) \<or> pads enc (4 - length ds) \<noteq> [] \<and> take (length (pads enc (4 - length ds))) u = pads enc (4 - length ds)) \<and>
        (strict enc \<longrightarrow> (\<forall>x \<in> set (drop (length ds - 1) (group_bytes enc ds)). x = 0))
     then (take (length ds - 1) (group_bytes enc ds), u = pads enc (4 - length ds)) else ([], False))"
proof -
  have "takeWhile (isd enc) (take (4 - length ds) u) = []" using assms(4) by (cases u; cases "4 - length ds") (auto split: if_splits)
  then have "takeWhile (isd enc) (take 4 (ds @ u)) = ds" using assms(1-3) by (simp add: takeWhile_append2 list_all_iff)
  then show ?thesis using assms(2,3) by (subst b64_ref.simps) (auto simp: Let_def)
qed

subsection \<open>Decoding what was encoded\<close>

lemma six_bits_range:
  fixes x y z :: int
  assumes "0 \<le> x" "x < 256" "0 \<le> y" "y < 256" "0 \<le> z" "z < 256"
  shows "0 \<le> x div 4" "x div 4 < 64" "0 \<le> x mod 4 * 16 + y div 16" "x mod 4 * 16 + y div 16 < 64"
    "0 \<le> y mod 16 * 4 + z div 64" "y mod 16 * 4 + z div 64 < 64" "0 \<le> z mod 64" "z mod 64 < 64"
proof -
  have "y div 16 < 16" "0 \<le> y div 16" "z div 64 < 4" "0 \<le> z div 64" using assms by auto
  then show "0 \<le> x div 4" "x div 4 < 64" "0 \<le> x mod 4 * 16 + y div 16" "x mod 4 * 16 + y div 16 < 64"
    "0 \<le> y mod 16 * 4 + z div 64" "y mod 16 * 4 + z div 64 < 64" "0 \<le> z mod 64" "z mod 64 < 64"
    using assms pos_mod_bound [of 4 x] pos_mod_bound [of 16 y] pos_mod_sign [of 4 x] pos_mod_sign [of 16 y] by auto
qed

lemma b64_ref_text: "valid_encoding enc \<Longrightarrow> b64_ref enc (b64_text enc src) = (src, True)"
proof (induction enc src rule: b64_text.induct)
  case (1 enc)
  then show ?case by simp
next
  case (2 enc x)
  have r: "0 \<le> uint x div 4" "uint x div 4 < 64" "0 \<le> uint x mod 4 * 16" "uint x mod 4 * 16 < 64"
    using six_bits_range [OF uint_byte [of x], of 0 0] by simp_all
  have v: "value4 (uint x div 4) (uint x mod 4 * 16) 0 0 = uint x * 65536 + uint (0 :: byte) * 256 + uint (0 :: byte)"
    using value4_three [OF uint_byte [of x], of 0 0] by simp
  have "group_bytes enc [lett enc (uint x div 4), lett enc (uint x mod 4 * 16)] = [x, 0, 0]"
    unfolding group_bytes_simps dg_lett(1) [OF 2 r(1,2)] dg_lett(1) [OF 2 r(3,4)] v by (rule bytes_of_three)
  then show ?case
    using b64_ref_last [of enc "[lett enc (uint x div 4), lett enc (uint x mod 4 * 16)]" "pads enc 2"] dg_lett(2) [OF 2] r pads_not_digits [OF 2]
    by (simp add: numeral_2_eq_2)
next
  case (3 enc x y)
  have r: "0 \<le> uint x div 4" "uint x div 4 < 64" "0 \<le> uint x mod 4 * 16 + uint y div 16" "uint x mod 4 * 16 + uint y div 16 < 64"
    "0 \<le> uint y mod 16 * 4" "uint y mod 16 * 4 < 64" using six_bits_range [OF uint_byte [of x] uint_byte [of y], of 0] by simp_all
  have v: "value4 (uint x div 4) (uint x mod 4 * 16 + uint y div 16) (uint y mod 16 * 4) 0 = uint x * 65536 + uint y * 256 + uint (0 :: byte)"
    using value4_three [OF uint_byte [of x] uint_byte [of y], of 0] by simp
  have "group_bytes enc [lett enc (uint x div 4), lett enc (uint x mod 4 * 16 + uint y div 16), lett enc (uint y mod 16 * 4)] = [x, y, 0]"
    unfolding group_bytes_simps dg_lett(1) [OF 3 r(1,2)] dg_lett(1) [OF 3 r(3,4)] dg_lett(1) [OF 3 r(5,6)] v by (rule bytes_of_three)
  then show ?case
    using b64_ref_last [of enc "[lett enc (uint x div 4), lett enc (uint x mod 4 * 16 + uint y div 16), lett enc (uint y mod 16 * 4)]" "pads enc 1"]
      dg_lett(2) [OF 3] r pads_not_digits [OF 3] by (simp add: numeral_2_eq_2)
next
  case (4 enc x y z r)
  have r: "0 \<le> uint x div 4" "uint x div 4 < 64" "0 \<le> uint x mod 4 * 16 + uint y div 16" "uint x mod 4 * 16 + uint y div 16 < 64"
    "0 \<le> uint y mod 16 * 4 + uint z div 64" "uint y mod 16 * 4 + uint z div 64 < 64" "0 \<le> uint z mod 64" "uint z mod 64 < 64"
    using six_bits_range [OF uint_byte [of x] uint_byte [of y] uint_byte [of z]] by simp_all
  have "group_bytes enc [lett enc (uint x div 4), lett enc (uint x mod 4 * 16 + uint y div 16), lett enc (uint y mod 16 * 4 + uint z div 64),
      lett enc (uint z mod 64)] = [x, y, z]"
    unfolding group_bytes_simps dg_lett(1) [OF 4(2) r(1,2)] dg_lett(1) [OF 4(2) r(3,4)] dg_lett(1) [OF 4(2) r(5,6)] dg_lett(1) [OF 4(2) r(7,8)]
      value4_three [OF uint_byte [of x] uint_byte [of y] uint_byte [of z]] by (rule bytes_of_three)
  then show ?case using 4 dg_lett(2) [OF 4(2)] r by (simp add: b64_ref_group)
qed

subsection \<open>Strict encodings accept nothing else\<close>

lemma value4_digits:
  assumes "0 \<le> a" "a < 64" "0 \<le> b" "b < 64" "0 \<le> c" "c < 64" "0 \<le> d" "d < 64"
  shows "value4 a b c d div 262144 mod 64 = a" "value4 a b c d div 4096 mod 64 = b" "value4 a b c d div 64 mod 64 = c" "value4 a b c d mod 64 = d"
proof -
  have v: "value4 a b c d = d + (c + (b + a * 64) * 64) * 64" by (simp add: value4_def)
  have 1: "value4 a b c d div 64 = c + (b + a * 64) * 64" unfolding v using div_mult_self1 [of 64 d "c + (b + a * 64) * 64"] assms(7,8) by simp
  have 2: "value4 a b c d div 4096 = b + a * 64"
  proof -
    have "value4 a b c d div 4096 = value4 a b c d div 64 div 64" by (simp flip: zdiv_zmult2_eq)
    then show ?thesis unfolding 1 using div_mult_self1 [of 64 c "b + a * 64"] assms(5,6) by simp
  qed
  have 3: "value4 a b c d div 262144 = a"
  proof -
    have "value4 a b c d div 262144 = value4 a b c d div 4096 div 64" by (simp flip: zdiv_zmult2_eq)
    then show ?thesis unfolding 2 using div_mult_self1 [of 64 b a] assms(3,4) by simp
  qed
  show "value4 a b c d div 262144 mod 64 = a" unfolding 3 using assms(1,2) by simp
  show "value4 a b c d div 4096 mod 64 = b" unfolding 2 using assms(3,4) mod_mult_self1 [of b a 64] by (simp only: mod_pos_pos_trivial)
  show "value4 a b c d div 64 mod 64 = c" unfolding 1 using assms(5,6) mod_mult_self1 [of c "b + a * 64" 64] by (simp only: mod_pos_pos_trivial)
  show "value4 a b c d mod 64 = d" unfolding v using assms(7,8) mod_mult_self1 [of d "c + (b + a * 64) * 64" 64] by (simp only: mod_pos_pos_trivial)
qed

lemma bytes_of_value:
  assumes "0 \<le> v" "v < 16777216" "bytes_of v = [x, y, z]"
  shows "uint x * 65536 + uint y * 256 + uint z = v"
proof -
  have u: "uint (word_of_int k :: byte) = k mod 256" for k by (simp add: uint_word_of_int)
  have "v div 65536 < 256" "0 \<le> v div 65536" using assms(1,2) by auto
  then have x: "uint x = v div 65536" using assms(3) u [of "v div 65536"] by (auto simp: bytes_of_def)
  have y: "uint y = v div 256 mod 256" and z: "uint z = v mod 256" using assms(3) u by (auto simp: bytes_of_def simp del: of_int_eq_numeral_iff)
  have "v div 65536 = v div 256 div 256" by (simp flip: zdiv_zmult2_eq)
  then show ?thesis unfolding x y z using div_mult_mod_eq [of v 256] div_mult_mod_eq [of "v div 256" 256] by linarith
qed

lemma letters_back:
  assumes e: "valid_encoding enc" and d: "0 \<le> a" "a < 64" "0 \<le> b" "b < 64" "0 \<le> c" "c < 64" "0 \<le> d" "d < 64"
    and g: "bytes_of (value4 a b c d) = [x, y, z]"
  shows "uint x div 4 = a" "uint x mod 4 * 16 + uint y div 16 = b" "uint y mod 16 * 4 + uint z div 64 = c" "uint z mod 64 = d"
proof -
  note v = bytes_of_value [OF value4_range [OF d] g]
  note s = six_bits [OF uint_byte [of x] uint_byte [of y] uint_byte [of z], unfolded v value4_digits [OF d]]
  show "uint x div 4 = a" "uint x mod 4 * 16 + uint y div 16 = b" "uint y mod 16 * 4 + uint z div 64 = c" "uint z mod 64 = d"
    by (rule s [symmetric])+
qed

lemma bytes_of_cases:
  obtains x y z where "bytes_of v = [x, y, z]"
  by (simp add: bytes_of_def)

lemma digits_range:
  assumes "valid_encoding enc" "isd enc c"
  shows "0 \<le> uint (dg enc c)" "uint (dg enc c) < 64"
  using valid_letters(1) [OF assms] by simp_all

lemma few_digits:
  assumes "length ds = length (takeWhile P (take 4 t))" "ds = takeWhile P (take 4 t)"
  shows "list_all P ds" "length ds \<le> 4" "t = ds @ drop (length ds) t"
proof -
  show "list_all P ds" using assms(2) by (simp add: list_all_iff) (meson set_takeWhileD)
  have "length (takeWhile P (take 4 t)) \<le> length (take 4 t)" by (rule length_takeWhile_le)
  then show l: "length ds \<le> 4" using assms(1) by simp
  have "ds = take (length ds) (take 4 t)" using assms(2) by (metis takeWhile_eq_take)
  then have "ds = take (length ds) t" using l by (simp add: min_absorb1)
  then show "t = ds @ drop (length ds) t" by (metis append_take_drop_id)
qed

lemma b64_ref_strict:
  assumes e: "valid_encoding enc" "strict enc"
  shows "snd (b64_ref enc t) \<Longrightarrow> t = b64_text enc (fst (b64_ref enc t))"
proof (induction "length t" arbitrary: t rule: less_induct)
  case less
  show ?case
  proof (cases "t = []")
    case False
    define ds where "ds = takeWhile (isd enc) (take 4 t)"
    define u where "u = drop (length ds) t"
    note ds = few_digits [OF _ ds_def, simplified ds_def [symmetric], OF refl]
    have t: "t = ds @ u" using ds(3) by (simp add: u_def)
    have r: "b64_ref enc t = (if length ds = 4 then (group_bytes enc ds @ fst (b64_ref enc (drop 4 t)), snd (b64_ref enc (drop 4 t)))
         else if 2 \<le> length ds \<and> (u = pads enc (4 - length ds) \<or> pads enc (4 - length ds) \<noteq> [] \<and> take (length (pads enc (4 - length ds))) u = pads enc (4 - length ds)) \<and>
             (strict enc \<longrightarrow> (\<forall>x \<in> set (drop (length ds - 1) (group_bytes enc ds)). x = 0))
         then (take (length ds - 1) (group_bytes enc ds), u = pads enc (4 - length ds)) else ([], False))"
      unfolding b64_ref.simps [of enc t] Let_def ds_def [symmetric] u_def [symmetric] using False by (simp only: if_False)
    consider a b where "ds = [a, b]" | a b c where "ds = [a, b, c]" | a b c d where "ds = [a, b, c, d]" | "length ds < 2"
      using ds(2) by (cases ds; cases "tl ds"; cases "tl (tl ds)"; cases "tl (tl (tl ds))") auto
    then show ?thesis
    proof cases
      case (1 a b)
      then have i: "isd enc a" "isd enc b" using ds(1) by simp_all
      obtain x y z where g: "group_bytes enc [a, b] = [x, y, z]" unfolding group_bytes_simps by (rule bytes_of_cases)
      have z: "y = 0" "z = 0" "u = pads enc 2" "fst (b64_ref enc t) = [x]"
        using less.prems r 1 g e(2) by (auto split: if_splits)
      note l = letters_back [OF e(1) digits_range [OF e(1) i(1)] digits_range [OF e(1) i(2)] _ _ _ _ g [unfolded group_bytes_simps]]
      have "lett enc (uint x div 4) = a" "lett enc (uint x mod 4 * 16) = b"
        using l(1,2) lett_dg [OF e(1) i(1)] lett_dg [OF e(1) i(2)] z by simp_all
      then show ?thesis using t 1 z by simp
    next
      case (2 a b c)
      then have i: "isd enc a" "isd enc b" "isd enc c" using ds(1) by simp_all
      obtain x y z where g: "group_bytes enc [a, b, c] = [x, y, z]" unfolding group_bytes_simps by (rule bytes_of_cases)
      have z: "z = 0" "u = pads enc 1" "fst (b64_ref enc t) = [x, y]"
        using less.prems r 2 g e(2) by (auto split: if_splits)
      note l = letters_back [OF e(1) digits_range [OF e(1) i(1)] digits_range [OF e(1) i(2)] digits_range [OF e(1) i(3)] _ _ g [unfolded group_bytes_simps]]
      have "lett enc (uint x div 4) = a" "lett enc (uint x mod 4 * 16 + uint y div 16) = b" "lett enc (uint y mod 16 * 4) = c"
        using l(1,2,3) lett_dg [OF e(1) i(1)] lett_dg [OF e(1) i(2)] lett_dg [OF e(1) i(3)] z by simp_all
      then show ?thesis using t 2 z by simp
    next
      case (3 a b c d)
      then have i: "isd enc a" "isd enc b" "isd enc c" "isd enc d" using ds(1) by simp_all
      obtain x y z where g: "group_bytes enc [a, b, c, d] = [x, y, z]" unfolding group_bytes_simps by (rule bytes_of_cases)
      note l = letters_back [OF e(1) digits_range [OF e(1) i(1)] digits_range [OF e(1) i(2)] digits_range [OF e(1) i(3)] digits_range [OF e(1) i(4)]
          g [unfolded group_bytes_simps]]
      have "drop 4 t = u" using t 3 by simp
      then have "u = b64_text enc (fst (b64_ref enc u))" using less.hyps [of u] less.prems r 3 t by simp
      then show ?thesis using t 3 r g \<open>drop 4 t = u\<close> l lett_dg [OF e(1) i(1)] lett_dg [OF e(1) i(2)] lett_dg [OF e(1) i(3)] lett_dg [OF e(1) i(4)]
        by simp
    next
      case 4
      then show ?thesis using less.prems r by simp
    qed
  qed simp
qed

end
