(* ===== verification/Base64_Quantum.thy ===== *)
theory Base64_Quantum
  imports Base64_Reference
begin

text \<open>
  \<^verbatim>\<open>decodeQuantum\<close> against the reference: what its loop reads, how it skips newlines and padding, and what it stores.
\<close>

subsection \<open>Reading\<close>

lemma skip_newlines_eq: "skip_newlines (pre @ s) (int (length pre)) = Some (int (length pre + length (takeWhile newline s)))"
proof (induction s arbitrary: pre)
  case Nil
  show ?case by (subst skip_newlines.simps) simp
next
  case (Cons c s)
  from Cons [of "pre @ [c]"] show ?case by (subst skip_newlines.simps) (simp add: nth_append add.commute)
qed

lemma skip_newlines_ok:
  obtains pre' s' where "pre @ s = pre' @ s'" "skip_newlines (pre @ s) (int (length pre)) = Some (int (length pre'))" "nonl s' = nonl s"
    "s' = [] \<and> nonl s = [] \<or> (\<exists>c r. s' = c # r \<and> nonl s = c # nonl r)" "length pre \<le> length pre'"
proof -
  have n: "nonl (dropWhile newline s) = nonl s" by (induction s) auto
  have h: "dropWhile newline s = [] \<or> \<not> newline (hd (dropWhile newline s))" using hd_dropWhile by blast
  have sk: "skip_newlines (pre @ s) (int (length pre)) = Some (int (length (pre @ takeWhile newline s)))" by (simp add: skip_newlines_eq)
  have sp: "pre @ s = (pre @ takeWhile newline s) @ dropWhile newline s" by simp
  have cs: "dropWhile newline s = [] \<and> nonl s = [] \<or> (\<exists>c r. dropWhile newline s = c # r \<and> nonl s = c # nonl r)"
    using n h by (cases "dropWhile newline s") (auto split: if_splits)
  show ?thesis by (rule that [OF sp sk n cs]) simp
qed

text \<open>Whether what follows \<open>m\<close> digits is the padding, perhaps with garbage behind it.\<close>

definition tail_ok :: "encoding \<Rightarrow> nat \<Rightarrow> byte list \<Rightarrow> bool" where
  "tail_ok enc m u \<longleftrightarrow> 2 \<le> m \<and> (u = pads enc (4 - m) \<or> pads enc (4 - m) \<noteq> [] \<and> take (length (pads enc (4 - m))) u = pads enc (4 - m))"

text \<open>How the loop ends: \<open>D\<close> are the digits with zeros behind them, \<open>m\<close> their number, \<open>u\<close> the text behind them.\<close>

definition quantum_post :: "encoding \<Rightarrow> byte list \<Rightarrow> nat \<Rightarrow> nat \<Rightarrow> byte list \<Rightarrow> byte list \<Rightarrow> quantum \<Rightarrow> bool" where
  "quantum_post enc src i m D u q \<longleftrightarrow>
     (if m = 4 then \<exists>k. q = Digits D 4 (int k) None \<and> i \<le> k \<and> k \<le> length src \<and> nonl (drop k src) = u
      else if m = 0 \<and> u = [] then q = Early (int (length src)) None
      else if tail_ok enc m u then
        \<exists>k. i \<le> k \<and> k \<le> length src \<and> (if u = pads enc (4 - m) then k = length src \<and> q = Digits D (int m) (int k) None
             else \<exists>e. 0 \<le> e \<and> e \<le> int (length src) \<and> q = Digits D (int m) (int k) (Some (CorruptInputError e)))
      else \<exists>k e. k \<le> length src \<and> 0 \<le> e \<and> e \<le> int (length src) \<and> q = Early (int k) (Some (CorruptInputError e)))"

lemma quantum_padding_ok:
  assumes valid: "valid_encoding enc" "padChar enc \<noteq> NoPadding" and c: "ucast c = padChar enc" and j: "j < 4"
  shows "\<exists>q. quantum_padding enc (pre @ c # s) (int (length pre) + 1) (int j) D = Some q \<and> quantum_post enc (pre @ c # s) (length pre) j D (c # nonl s) q"
proof -
  have p: "pads enc n = replicate n c" for n using valid(2) c ucast_ucast_byte [of c] by (simp add: pads_def)
  let ?src = "pre @ c # s"
  consider "j < 2" | "j = 2" | "j = 3" using j by linarith
  then show ?thesis
  proof cases
    case 1
    then show ?thesis by (auto simp: quantum_padding_def quantum_post_def tail_ok_def intro!: exI [of _ "length pre + 1"])
  next
    case 2
    obtain pre1 s1 where s1: "(pre @ [c]) @ s = pre1 @ s1" "skip_newlines ((pre @ [c]) @ s) (int (length (pre @ [c]))) = Some (int (length pre1))"
      "s1 = [] \<and> nonl s = [] \<or> (\<exists>d r. s1 = d # r \<and> nonl s = d # nonl r)" "length (pre @ [c]) \<le> length pre1" by (rule skip_newlines_ok)
    have src: "?src = pre1 @ s1" using s1(1) by simp
    have sk: "skip_newlines ?src (int (length pre) + 1) = Some (int (length pre1))" using s1(2) by (simp add: add.commute)
    consider "s1 = []" "nonl s = []" | d r where "s1 = d # r" "nonl s = d # nonl r" "d \<noteq> c" | r where "s1 = c # r" "nonl s = c # nonl r"
      using s1(3) by blast
    then show ?thesis
    proof cases
      case 1
      then show ?thesis using 2 src p by (auto simp: quantum_padding_def sk quantum_post_def tail_ok_def numeral_2_eq_2 intro!: exI [of _ "length pre1"])
    next
      case (2 d r)
      have "ucast d \<noteq> padChar enc" using 2(3) c ucast_ucast_byte [of c] ucast_ucast_byte [of d] by metis
      moreover have "idx (pre1 @ d # r) (int (length pre1)) = Some d" by simp
      ultimately have "quantum_padding enc ?src (int (length pre) + 1) (int j) D = Some (Early (int (length pre1)) (Some (CorruptInputError (int (length pre1) - 1))))"
        using \<open>j = 2\<close> 2 sk by (simp add: quantum_padding_def src)
      then show ?thesis using \<open>j = 2\<close> 2 s1(4) p src by (auto simp: quantum_post_def tail_ok_def numeral_2_eq_2 intro!: exI [of _ "length pre1"])
    next
      case (3 r)
      obtain pre2 s2 where s2: "(pre1 @ [c]) @ r = pre2 @ s2" "skip_newlines ((pre1 @ [c]) @ r) (int (length (pre1 @ [c]))) = Some (int (length pre2))"
        "s2 = [] \<and> nonl r = [] \<or> (\<exists>d x. s2 = d # x \<and> nonl r = d # nonl x)" "length (pre1 @ [c]) \<le> length pre2" by (rule skip_newlines_ok)
      have sk2: "skip_newlines ?src (int (length pre1) + 1) = Some (int (length pre2))" using s2(2) 3 src by (simp add: add.commute)
      have l: "length ?src = length pre2 + length s2" using s2(1) 3 src by (metis append.assoc append_Cons append_Nil length_append)
      have "quantum_padding enc ?src (int (length pre) + 1) (int j) D
          = Some (Digits D 2 (int (length pre2)) (if s2 = [] then None else Some (CorruptInputError (int (length pre2)))))"
        using \<open>j = 2\<close> 3 sk sk2 c l by (simp add: quantum_padding_def src)
      then show ?thesis using \<open>j = 2\<close> 3 s1(4) s2(3,4) p l
        by (auto simp: quantum_post_def tail_ok_def numeral_2_eq_2 intro!: exI [of _ "length pre2"])
    qed
  next
    case 3
    obtain pre1 s1 where s1: "(pre @ [c]) @ s = pre1 @ s1" "skip_newlines ((pre @ [c]) @ s) (int (length (pre @ [c]))) = Some (int (length pre1))"
      "s1 = [] \<and> nonl s = [] \<or> (\<exists>d r. s1 = d # r \<and> nonl s = d # nonl r)" "length (pre @ [c]) \<le> length pre1" by (rule skip_newlines_ok)
    have sk: "skip_newlines ?src (int (length pre) + 1) = Some (int (length pre1))" using s1(2) by (simp add: add.commute)
    have l: "length ?src = length pre1 + length s1" using s1(1) by (metis append.assoc append_Cons append_Nil length_append)
    have "quantum_padding enc ?src (int (length pre) + 1) (int j) D
        = Some (Digits D 3 (int (length pre1)) (if s1 = [] then None else Some (CorruptInputError (int (length pre1)))))"
      using 3 sk l by (simp add: quantum_padding_def)
    then show ?thesis using 3 s1(3,4) p l
      by (auto simp: quantum_post_def tail_ok_def intro!: exI [of _ "length pre1"])
  qed
qed

lemma pads_NoPadding: "padChar enc = NoPadding \<Longrightarrow> pads enc n = []"
  by (simp add: pads_def)

lemma not_padding:
  assumes "valid_encoding enc" "ucast c \<noteq> padChar enc" "m < 4"
  shows "\<not> tail_ok enc m (c # u)"
proof (cases "padChar enc = NoPadding")
  case True
  then show ?thesis by (simp add: tail_ok_def pads_NoPadding)
next
  case False
  then have "ucast (padChar enc) \<noteq> c" using pad_byte(1) [OF assms(1)] assms(2) by metis
  then show ?thesis using False assms(3) by (cases "4 - m") (auto simp: tail_ok_def pads_def)
qed

lemma not_pad_NoPadding: "ucast (c :: byte) \<noteq> NoPadding"
proof
  assume "ucast c = NoPadding"
  then have "uint (ucast c :: rune) = uint NoPadding" by simp
  moreover have "uint (ucast c :: rune) = uint c" using uint_shift_byte [of c 0, where 'a = 32] uint_byte [of c] by simp
  moreover have "uint NoPadding = 4294967295" unfolding NoPadding_def by (simp add: unsigned_minus_1_eq_mask mask_eq_exp_minus_1)
  ultimately show False using uint_byte [of c] by simp
qed

lemma quantum_post_earlier: "quantum_post enc src i' m D u q \<Longrightarrow> i \<le> i' \<Longrightarrow> quantum_post enc src i m D u q"
  unfolding quantum_post_def by (auto split: if_splits)

lemma quantum_loop_ok:
  assumes valid: "valid_encoding enc"
  shows "j \<le> 4 \<Longrightarrow> length dd = j \<Longrightarrow> j \<le> length pre \<Longrightarrow> ds = takeWhile (isd enc) (take (4 - j) (nonl s)) \<Longrightarrow>
    \<exists>q. quantum_loop enc (pre @ s) (int (length pre)) (int j) (dd @ replicate (4 - j) 0) = Some q \<and>
      quantum_post enc (pre @ s) (length pre + length ds) (j + length ds) (dd @ map (dg enc) ds @ replicate (4 - j - length ds) 0)
        (drop (length ds) (nonl s)) q"
proof (induction s arbitrary: pre j dd ds)
  case Nil
  have "\<not> tail_ok enc j []" if "padChar enc \<noteq> NoPadding" "j < 4" using that by (simp add: tail_ok_def pads_def)
  then show ?case using Nil
    by (cases "j = 4"; cases "padChar enc = NoPadding"; subst quantum_loop.simps) (auto simp: quantum_post_def pads_NoPadding tail_ok_def)
next
  case (Cons c s)
  have full: ?case if "j = 4"
    using that Cons.prems by (subst quantum_loop.simps) (auto simp: quantum_post_def intro!: exI [of _ "length pre"])
  have dm: "idx (decodeMap enc) (uint c) = Some (dg enc c)"
    using valid_length(2) [OF valid] uint_byte [of c] by (simp add: dg_def)
  have ic: "idx (pre @ c # s) (int (length pre)) = Some c" by simp
  consider "j = 4" | "j < 4" "isd enc c" | "j < 4" "\<not> isd enc c" "newline c"
    | "j < 4" "\<not> isd enc c" "\<not> newline c" "ucast c \<noteq> padChar enc" | "j < 4" "\<not> isd enc c" "\<not> newline c" "ucast c = padChar enc"
    using Cons.prems(1) by linarith
  then show ?case
  proof cases
    case 1
    then show ?thesis by (rule full)
  next
    case 2
    define es where "es = takeWhile (isd enc) (take (4 - Suc j) (nonl s))"
    have nl: "\<not> newline c" by (rule valid_letters(3) [OF valid 2(2)])
    have s4: "4 - j = Suc (4 - Suc j)" using 2(1) by simp
    have ds: "ds = c # es" using 2 Cons.prems(4) nl unfolding s4 by (simp add: es_def)
    have u: "upd (dd @ replicate (4 - j) 0) (int j) (dg enc c) = Some ((dd @ [dg enc c]) @ replicate (4 - Suc j) 0)"
      using upd_append [of 0 "replicate (4 - j) 0" dd "dg enc c"] Cons.prems(2) unfolding s4 by simp
    have step: "quantum_loop enc (pre @ c # s) (int (length pre)) (int j) (dd @ replicate (4 - j) 0)
        = quantum_loop enc ((pre @ [c]) @ s) (int (length (pre @ [c]))) (int (Suc j)) ((dd @ [dg enc c]) @ replicate (4 - Suc j) 0)"
      using 2 by (subst quantum_loop.simps) (simp add: dm u isd_def add.commute)
    have "Suc j \<le> 4" "length (dd @ [dg enc c]) = Suc j" "Suc j \<le> length (pre @ [c])" using 2(1) Cons.prems(2,3) by simp_all
    from Cons.IH [OF this es_def] obtain q where
      "quantum_loop enc ((pre @ [c]) @ s) (int (length (pre @ [c]))) (int (Suc j)) ((dd @ [dg enc c]) @ replicate (4 - Suc j) 0) = Some q"
      "quantum_post enc ((pre @ [c]) @ s) (length (pre @ [c]) + length es) (Suc j + length es)
        ((dd @ [dg enc c]) @ map (dg enc) es @ replicate (4 - Suc j - length es) 0) (drop (length es) (nonl s)) q" by blast
    then show ?thesis unfolding step ds using nl by (intro exI [of _ q]) simp
  next
    case 3
    have step: "quantum_loop enc (pre @ c # s) (int (length pre)) (int j) (dd @ replicate (4 - j) 0)
        = quantum_loop enc ((pre @ [c]) @ s) (int (length (pre @ [c]))) (int j) (dd @ replicate (4 - j) 0)"
      using 3 by (subst quantum_loop.simps) (simp add: dm isd_def add.commute)
    have "j \<le> length (pre @ [c])" "ds = takeWhile (isd enc) (take (4 - j) (nonl s))" using 3(3) Cons.prems(3,4) by simp_all
    from Cons.IH [OF Cons.prems(1,2) this] obtain q where
      "quantum_loop enc ((pre @ [c]) @ s) (int (length (pre @ [c]))) (int j) (dd @ replicate (4 - j) 0) = Some q"
      "quantum_post enc ((pre @ [c]) @ s) (length (pre @ [c]) + length ds) (j + length ds) (dd @ map (dg enc) ds @ replicate (4 - j - length ds) 0)
        (drop (length ds) (nonl s)) q" by blast
    moreover from this(2) have "quantum_post enc (pre @ c # s) (length pre + length ds) (j + length ds)
        (dd @ map (dg enc) ds @ replicate (4 - j - length ds) 0) (drop (length ds) (nonl s)) q" by (auto intro: quantum_post_earlier)
    ultimately show ?thesis unfolding step using 3(3) by (intro exI [of _ q]) simp
  next
    case 4
    have "ds = []" using 4 Cons.prems(4) by (cases "4 - j") auto
    moreover have "quantum_loop enc (pre @ c # s) (int (length pre)) (int j) (dd @ replicate (4 - j) 0)
        = Some (Early (int (length pre) + 1) (Some (CorruptInputError (int (length pre)))))"
      using 4 by (subst quantum_loop.simps) (simp add: dm isd_def)
    ultimately show ?thesis using 4 not_padding [OF valid 4(4) 4(1), of "nonl s"]
      by (auto simp: quantum_post_def intro!: exI [of _ "length pre + 1"])
  next
    case 5
    have "ds = []" using 5 Cons.prems(4) by (cases "4 - j") auto
    moreover have "quantum_loop enc (pre @ c # s) (int (length pre)) (int j) (dd @ replicate (4 - j) 0)
        = quantum_padding enc (pre @ c # s) (int (length pre) + 1) (int j) (dd @ replicate (4 - j) 0)"
      using 5 by (subst quantum_loop.simps) (simp add: dm isd_def)
    moreover have "padChar enc \<noteq> NoPadding" using 5(4) not_pad_NoPadding by metis
    ultimately show ?thesis using quantum_padding_ok [OF valid _ 5(4) 5(1), of pre s] 5(3) by auto
  qed
qed

subsection \<open>Storing\<close>

definition spare_bits :: "encoding \<Rightarrow> nat \<Rightarrow> byte list \<Rightarrow> bool" where
  "spare_bits enc m b \<longleftrightarrow> strict enc \<and> (\<exists>x \<in> set (drop (m - 1) b). x \<noteq> 0)"

lemma upd_two: "upd (a # l) 0 v = Some (v # l)" "upd (a # b # l) 1 v = Some (a # v # l)" "upd (a # b # c # l) 2 v = Some (a # b # v # l)"
  by (simp_all add: upd_def numeral_2_eq_2)

lemma quantum_store_ok:
  fixes d0 d1 d2 d3 :: byte
  assumes d: "uint d0 < 64" "uint d1 < 64" "uint d2 < 64" "uint d3 < 64" and m: "m = 2 \<or> m = 3 \<or> m = 4" and room: "m - 1 \<le> length dst"
    and si: "2 \<le> si"
  defines "b \<equiv> bytes_of (value4 (uint d0) (uint d1) (uint d2) (uint d3))"
  shows "\<exists>dst'. length dst' = length dst \<and>
    (if spare_bits enc m b then \<exists>k. 0 \<le> k \<and> k \<le> si \<and> quantum_store enc dst [d0, d1, d2, d3] (int m) si err = Some (dst', si, 0, Some (CorruptInputError k))
     else quantum_store enc dst [d0, d1, d2, d3] (int m) si err = Some (dst', si, int m - 1, err) \<and> take (m - 1) dst' = take (m - 1) b)"
proof -
  define v :: uint64 where "v = push_bit 18 (ucast d0) OR push_bit 12 (ucast d1) OR push_bit 6 (ucast d2) OR ucast d3"
  have "uint v = value4 (uint d0) (uint d1) (uint d2) (uint d3)"
    using four_digits(1) [of d0 d1 d2 d3 "0 :: uint64" 0] d by (simp add: v_def)
  then obtain x y z where b: "b = [x, y, z]" "ucast (drop_bit 16 v) = x" "ucast (drop_bit 8 v) = y" "ucast v = z"
    using bytes_of_word [of v] by (simp add: b_def bytes_of_def)
  have i: "idx [d0, d1, d2, d3] 0 = Some d0" "idx [d0, d1, d2, d3] 1 = Some d1" "idx [d0, d1, d2, d3] 2 = Some d2" "idx [d0, d1, d2, d3] 3 = Some d3"
    by (simp_all add: idx_def)
  note body = quantum_store_def i Option.bind.bind_lunit Let_def v_def [symmetric] b(2-4) prod.case
  from m show ?thesis
  proof (elim disjE)
    assume m: "m = 2"
    then obtain a l where "dst = a # l" using room by (cases dst) auto
    then show ?thesis unfolding body using m b(1) si
      by (intro exI [of _ "x # l"]) (auto simp: upd_two spare_bits_def intro!: exI [of _ "si - 2"])
  next
    assume m: "m = 3"
    then obtain a c l where dst: "dst = a # c # l" using room by (cases dst; cases "tl dst") auto
    show ?thesis
    proof (cases "spare_bits enc m b")
      case True
      then show ?thesis unfolding body using m b(1) si dst
        by (intro exI [of _ "a # y # l"]) (auto simp: upd_two spare_bits_def intro!: exI [of _ "si - 1"])
    next
      case False
      then show ?thesis unfolding body using m b(1) dst
        by (intro exI [of _ "x # y # l"]) (auto simp: upd_two spare_bits_def)
    qed
  next
    assume m: "m = 4"
    then obtain a c e l where dst: "dst = a # c # e # l" using room by (cases dst; cases "tl dst"; cases "tl (tl dst)") auto
    have "\<not> spare_bits enc m b" using m b(1) by (simp add: spare_bits_def)
    then show ?thesis unfolding body using m b(1) dst
      by (intro exI [of _ "x # y # z # l"]) (auto simp: upd_two)
  qed
qed

subsection \<open>The whole quantum\<close>

text \<open>The room that \<^verbatim>\<open>DecodedLen\<close> provides for a rest of a given length.\<close>

definition room :: "encoding \<Rightarrow> nat \<Rightarrow> nat" where
  "room enc l = (if padChar enc = NoPadding then l * 6 div 8 else l div 4 * 3)"

lemma room_mono: "l \<le> l' \<Longrightarrow> room enc l \<le> room enc l'"
  by (simp add: room_def div_le_mono)

lemma room_4: "room enc (l + 4) = room enc l + 3"
proof -
  have "(l + 4) * 6 div 8 = l * 6 div 8 + 3" using div_mult_self1 [of 8 "l * 6" 3] by (simp add: algebra_simps)
  moreover have "(l + 4) div 4 = l div 4 + 1" by simp
  ultimately show ?thesis by (simp add: room_def)
qed

lemma room_tail:
  assumes "tail_ok enc m u" "m < 4" "m + length u \<le> l"
  shows "m - 1 \<le> room enc l"
proof (cases "padChar enc = NoPadding")
  case True
  have "m * 6 div 8 \<le> l * 6 div 8" using assms(3) by (intro div_le_mono) simp
  moreover have "m - 1 \<le> m * 6 div 8" using assms(1,2) by (auto simp: tail_ok_def)
  ultimately show ?thesis using True by (simp add: room_def)
next
  case False
  then have "length (pads enc (4 - m)) = 4 - m" by (simp add: pads_def)
  moreover have "length (pads enc (4 - m)) \<le> length u" using assms(1) by (auto simp: tail_ok_def) (metis length_take min.cobounded1)
  ultimately have "4 \<le> l" using assms(2,3) by simp
  then have "room enc 4 \<le> room enc l" by (rule room_mono)
  then show ?thesis using False assms(2) by (simp add: room_def)
qed

lemma b64_ref_eq:
  fixes enc :: encoding and t :: "byte list"
  defines "ds \<equiv> takeWhile (isd enc) (take 4 t)"
  defines "m \<equiv> length ds" and "u \<equiv> drop (length ds) t"
  assumes "t \<noteq> []"
  shows "b64_ref enc t = (if m = 4 then (group_bytes enc ds @ fst (b64_ref enc u), snd (b64_ref enc u))
    else if tail_ok enc m u \<and> \<not> spare_bits enc m (group_bytes enc ds) then (take (m - 1) (group_bytes enc ds), u = pads enc (4 - m)) else ([], False))"
  unfolding b64_ref.simps [of enc t] Let_def ds_def [symmetric] m_def [symmetric] u_def [symmetric] tail_ok_def spare_bits_def
  using assms(4) u_def by (auto simp: m_def)

end
