(* ===== verification/Base64_Decode.thy ===== *)
theory Base64_Decode
  imports Base64_Quantum
begin

text \<open>
  \<^verbatim>\<open>Decode\<close>: every step of its three loops, fast or slow, advances the reference decoder, and no step leaves the buffer.
\<close>

subsection \<open>One step\<close>

text \<open>
  A decoder that has read \<open>i\<close> bytes of \<open>src\<close> may write to a buffer with enough room for the rest.
  \<open>advance\<close> relates the reference at \<open>i\<close> with the \<open>n\<close> bytes a step has stored and the place it has reached.
\<close>

definition advance :: "encoding \<Rightarrow> byte list \<Rightarrow> nat \<Rightarrow> nat \<Rightarrow> nat \<Rightarrow> byte list \<Rightarrow> base64_error option \<Rightarrow> bool" where
  "advance enc src i i' n out err \<longleftrightarrow>
     i' \<le> length src \<and> length out = n \<and>
     (case err of
        None \<Rightarrow> i < i' \<and> room enc (length src - i') + n \<le> room enc (length src - i) \<and>
          b64_ref enc (nonl (drop i src)) = (out @ fst (b64_ref enc (nonl (drop i' src))), snd (b64_ref enc (nonl (drop i' src))))
      | Some (CorruptInputError k) \<Rightarrow> n \<le> room enc (length src - i) \<and> 0 \<le> k \<and> k \<le> int (length src) \<and> b64_ref enc (nonl (drop i src)) = (out, False))"

lemma take_digits:
  assumes "ds = takeWhile (isd enc) (take 4 t)"
  shows "list_all (isd enc) ds" "length ds \<le> 4" "t = ds @ drop (length ds) t"
  using few_digits [of ds "isd enc" t] assms by blast+

lemma group_bytes_eq:
  assumes "length ds \<le> 4" "map (dg enc) ds @ replicate (4 - length ds) 0 = [d0, d1, d2, d3]"
  shows "group_bytes enc ds = bytes_of (value4 (uint d0) (uint d1) (uint d2) (uint d3))"
proof -
  have "(if i < length ds then uint (dg enc (ds ! i)) else 0) = uint ([d0, d1, d2, d3] ! i)" if "i < 4" for i
    unfolding assms(2) [symmetric] using that by (auto simp: nth_append)
  from this [of 0] this [of 1] this [of 2] this [of 3]
  have "(if 0 < length ds then uint (dg enc (ds ! 0)) else 0) = uint d0" "(if 1 < length ds then uint (dg enc (ds ! 1)) else 0) = uint d1"
    "(if 2 < length ds then uint (dg enc (ds ! 2)) else 0) = uint d2" "(if 3 < length ds then uint (dg enc (ds ! 3)) else 0) = uint d3"
    by (simp_all add: numeral_3_eq_3 numeral_2_eq_2)
  then show ?thesis unfolding group_bytes_def Let_def by (simp only:)
qed

lemma decodeQuantum_ok:
  assumes valid: "valid_encoding enc" and i: "i < length src" and space: "room enc (length src - i) \<le> length dst"
  shows "\<exists>dst' i' n err. decodeQuantum enc dst src (int i) = Some (dst', int i', int n, err) \<and> length dst' = length dst \<and> n \<le> length dst
    \<and> advance enc src i i' n (take n dst') err"
proof -
  define pre s where "pre = take i src" and "s = drop i src"
  have src: "src = pre @ s" "length pre = i" "s \<noteq> []" using i by (simp_all add: pre_def s_def)
  define t where "t = nonl s"
  define ds where "ds = takeWhile (isd enc) (take 4 t)"
  define m where "m = length ds"
  define u where "u = drop m t"
  define D where "D = map (dg enc) ds @ replicate (4 - m) 0"
  note td = take_digits [OF ds_def, folded m_def]
  have lt: "m + length u \<le> length s" using length_filter_le [of "\<lambda>c. \<not> newline c" s] td(3) by (metis length_append m_def nonl_def t_def u_def)
  obtain q where q: "quantum_loop enc src (int i) 0 [0, 0, 0, 0] = Some q" "quantum_post enc src (i + m) m D u q"
    using quantum_loop_ok [OF valid, of 0 "[]" pre ds s] src(1,2)
    by (auto simp: ds_def t_def m_def u_def D_def numeral_eq_Suc)
  have ls: "length src - i = length s" using src by simp
  obtain d0 d1 d2 d3 where D4: "D = [d0, d1, d2, d3]"
  proof -
    have "length D = 4" using td(2) by (simp add: D_def m_def)
    then show ?thesis using that by (cases D; cases "tl D"; cases "tl (tl D)"; cases "tl (tl (tl D))") auto
  qed
  have d64: "uint d0 < 64" "uint d1 < 64" "uint d2 < 64" "uint d3 < 64"
  proof -
    have "\<forall>d \<in> set D. uint d < 64" using td(1) valid_letters(1) [OF valid] by (auto simp: D_def list_all_iff)
    then show "uint d0 < 64" "uint d1 < 64" "uint d2 < 64" "uint d3 < 64" by (simp_all add: D4)
  qed
  have gb: "group_bytes enc ds = bytes_of (value4 (uint d0) (uint d1) (uint d2) (uint d3))"
    using group_bytes_eq [of ds enc d0 d1 d2 d3] td(2) D4 by (simp add: D_def m_def)
  have ref: "t \<noteq> [] \<Longrightarrow> b64_ref enc t = (if m = 4 then (group_bytes enc ds @ fst (b64_ref enc u), snd (b64_ref enc u))
    else if tail_ok enc m u \<and> \<not> spare_bits enc m (group_bytes enc ds) then (take (m - 1) (group_bytes enc ds), u = pads enc (4 - m)) else ([], False))"
    using b64_ref_eq [of t enc] by (simp add: ds_def m_def u_def)
  have store: "\<exists>dst'. length dst' = length dst \<and>
    (if spare_bits enc m (group_bytes enc ds) then \<exists>e. 0 \<le> e \<and> e \<le> int k \<and> quantum_store enc dst D (int m) (int k) err = Some (dst', int k, 0, Some (CorruptInputError e))
     else quantum_store enc dst D (int m) (int k) err = Some (dst', int k, int m - 1, err) \<and> take (m - 1) dst' = take (m - 1) (group_bytes enc ds))"
    if "m = 2 \<or> m = 3 \<or> m = 4" "m - 1 \<le> room enc (length s)" "i + m \<le> k" for k err
    unfolding D4 gb by (rule quantum_store_ok [OF d64 that(1)]) (use that space ls in auto)
  have sd: "drop i src = s" by (simp add: s_def)
  consider "m = 4" | "m = 0" "u = []" | "m < 4" "m \<noteq> 0 \<or> u \<noteq> []" "tail_ok enc m u" | "m < 4" "m \<noteq> 0 \<or> u \<noteq> []" "\<not> tail_ok enc m u"
    using td(2) by linarith
  then show ?thesis
  proof cases
    case 1
    then obtain k where k: "q = Digits D 4 (int k) None" "i + 4 \<le> k" "k \<le> length src" "nonl (drop k src) = u"
      using q(2) by (auto simp: quantum_post_def)
    have rm: "room enc (length src - k) + 3 \<le> room enc (length s)"
      using room_4 [of enc "length src - k"] room_mono [of "length src - k + 4" "length s" enc] k ls by simp
    have "t \<noteq> []" using 1 td(3) by (auto simp: m_def)
    then have rt: "b64_ref enc t = (group_bytes enc ds @ fst (b64_ref enc u), snd (b64_ref enc u))" using ref 1 by simp
    have "\<not> spare_bits enc m (group_bytes enc ds)" using 1 by (simp add: spare_bits_def)
    then obtain dst' where s: "length dst' = length dst" "quantum_store enc dst D 4 (int k) None = Some (dst', int k, 3, None)" "take 3 dst' = group_bytes enc ds"
      using store [of k None] 1 rm k by auto
    have "3 \<le> length dst" using rm space ls by simp
    then have "advance enc src i k 3 (take 3 dst') None"
      using k rm rt s by (simp add: advance_def sd t_def ls)
    then show ?thesis using q(1) k(1) s \<open>3 \<le> length dst\<close>
      by (intro exI [of _ dst'] exI [of _ k] exI [of _ 3] exI [of _ None]) (simp add: decodeQuantum_def)
  next
    case 2
    then have "q = Early (int (length src)) None" "t = []" using q(2) td(3) by (auto simp: quantum_post_def u_def)
    then show ?thesis using q(1) i
      by (intro exI [of _ dst] exI [of _ "length src"] exI [of _ 0] exI [of _ None])
        (simp add: decodeQuantum_def advance_def sd t_def [symmetric] room_def)
  next
    case 3
    then obtain k err where k: "q = Digits D (int m) (int k) err" "i + m \<le> k" "k \<le> length src"
      "u = pads enc (4 - m) \<and> k = length src \<and> err = None \<or> u \<noteq> pads enc (4 - m) \<and> (\<exists>e. 0 \<le> e \<and> e \<le> int (length src) \<and> err = Some (CorruptInputError e))"
      using q(2) by (auto simp: quantum_post_def split: if_splits)
    have m: "m = 2 \<or> m = 3" using 3 by (auto simp: tail_ok_def)
    have rm: "m - 1 \<le> room enc (length s)" by (rule room_tail [OF 3(3,1) lt])
    have "t \<noteq> []" using 3 td(3) m by (auto simp: m_def)
    then have rt: "b64_ref enc t = (if spare_bits enc m (group_bytes enc ds) then ([], False) else (take (m - 1) (group_bytes enc ds), u = pads enc (4 - m)))"
      using ref 3 by simp
    obtain dst' where l: "length dst' = length dst" and s: "if spare_bits enc m (group_bytes enc ds)
        then \<exists>e. 0 \<le> e \<and> e \<le> int k \<and> quantum_store enc dst D (int m) (int k) err = Some (dst', int k, 0, Some (CorruptInputError e))
        else quantum_store enc dst D (int m) (int k) err = Some (dst', int k, int m - 1, err) \<and> take (m - 1) dst' = take (m - 1) (group_bytes enc ds)"
      using store [OF _ rm k(2), of err] m by blast
    show ?thesis
    proof (cases "spare_bits enc m (group_bytes enc ds)")
      case True
      then obtain e where e: "0 \<le> e" "e \<le> int k" "quantum_store enc dst D (int m) (int k) err = Some (dst', int k, 0, Some (CorruptInputError e))"
        using s by auto
      have "advance enc src i k 0 (take 0 dst') (Some (CorruptInputError e))"
        using True k(3) rt e by (simp add: advance_def sd t_def [symmetric])
      then show ?thesis using q(1) k(1) e(3) l
        by (intro exI [of _ dst'] exI [of _ k] exI [of _ 0] exI [of _ "Some (CorruptInputError e)"]) (simp add: decodeQuantum_def)
    next
      case False
      then have s': "quantum_store enc dst D (int m) (int k) err = Some (dst', int k, int (m - 1), err)" "take (m - 1) dst' = take (m - 1) (group_bytes enc ds)"
        using s m by (auto simp: of_nat_diff)
      have n: "m - 1 \<le> length dst" using rm space ls by simp
      have "advance enc src i k (m - 1) (take (m - 1) dst') err"
        using False k rt s'(2) n m rm i l ls by (auto simp: advance_def sd t_def [symmetric] room_def)
      then show ?thesis using q(1) k(1) s'(1) l n
        by (intro exI [of _ dst'] exI [of _ k] exI [of _ "m - 1"] exI [of _ err]) (simp add: decodeQuantum_def)
    qed
  next
    case 4
    then obtain k e where k: "q = Early (int k) (Some (CorruptInputError e))" "k \<le> length src" "0 \<le> e" "e \<le> int (length src)"
      using q(2) by (auto simp: quantum_post_def split: if_splits)
    have "t \<noteq> []" using 4 td(3) by (auto simp: u_def m_def)
    then have "b64_ref enc t = ([], False)" using ref 4 by simp
    then show ?thesis using q(1) k
      by (intro exI [of _ dst] exI [of _ k] exI [of _ 0] exI [of _ "Some (CorruptInputError e)"])
        (simp add: decodeQuantum_def advance_def sd t_def [symmetric])
  qed
qed

subsection \<open>The fast paths\<close>

lemma or_all_ones: "(0xFF :: byte) OR x = 0xFF" "x OR 0xFF = (0xFF :: byte)"
proof -
  have m: "(0xFF :: byte) = -1" by simp
  show "(0xFF :: byte) OR x = 0xFF" "x OR 0xFF = (0xFF :: byte)" unfolding m by simp_all
qed

lemma assemble32_digits:
  assumes "snd (assemble32 (dg enc a) (dg enc b) (dg enc c) (dg enc d))"
  shows "list_all (isd enc) [a, b, c, d]"
  using assms by (auto simp: assemble32_def isd_def or_all_ones split: if_splits)

lemma assemble64_digits:
  assumes "snd (assemble64 (dg enc a) (dg enc b) (dg enc c) (dg enc d) (dg enc e) (dg enc f) (dg enc g) (dg enc h))"
  shows "list_all (isd enc) [a, b, c, d]" "list_all (isd enc) [e, f, g, h]"
  using assms by (auto simp: assemble64_def isd_def or_all_ones split: if_splits)

text \<open>The bytes at the front of the word that the fast paths store.\<close>

lemma bytes_cong: "k mod 256 = l mod 256 \<Longrightarrow> (word_of_int k :: byte) = word_of_int l"
  unfolding word_of_int_eq_iff by (simp add: take_bit_eq_mod)

lemma front32:
  assumes v: "valid_encoding enc" and d: "list_all (isd enc) [a, b, c, d]" and room: "4 \<le> length dst"
    and dn: "assemble32 (dg enc a) (dg enc b) (dg enc c) (dg enc d) = (dn, ok)" "ok"
  shows "\<exists>dst'. BE_PutUint32 dst dn = Some dst' \<and> length dst' = length dst \<and> take 3 dst' = group_bytes enc [a, b, c, d]"
proof -
  define w where "w = value4 (uint (dg enc a)) (uint (dg enc b)) (uint (dg enc c)) (uint (dg enc d))"
  have dn': "dn = push_bit (8 + 18) (ucast (dg enc a)) OR push_bit (8 + 12) (ucast (dg enc b)) OR push_bit (8 + 6) (ucast (dg enc c)) OR push_bit 8 (ucast (dg enc d)) OR 0"
    using dn by (auto simp: assemble32_def split: if_splits)
  have i: "isd enc a" "isd enc b" "isd enc c" "isd enc d" using d by simp_all
  have u: "uint dn = w * 256"
    unfolding dn' using four_digits(1) [OF valid_letters(1) [OF v i(1)] valid_letters(1) [OF v i(2)] valid_letters(1) [OF v i(3)] valid_letters(1) [OF v i(4)],
        of "0 :: uint32" 8] by (simp add: w_def)
  obtain x0 x1 x2 x3 l where dst: "dst = x0 # x1 # x2 # x3 # l"
    using room by (cases dst; cases "tl dst"; cases "tl (tl dst)"; cases "tl (tl (tl dst))") auto
  have b: "(ucast (drop_bit k dn) :: byte) = word_of_int (w * 256 div 2 ^ k)" for k by (simp only: ucast_eq uint_drop u)
  have "w * 256 div 2 ^ 24 = w div 65536" "w * 256 div 2 ^ 16 = w div 256" "w * 256 div 2 ^ 8 = w"
    using div_mult_mult2 [of 256 w 65536] div_mult_mult2 [of 256 w 256] by simp_all
  then have "BE_PutUint32 dst dn = Some (bytes_of w @ ucast dn # l)"
    unfolding BE_PutUint32_def dst b by (simp add: idx_Cons upd_Cons bytes_of_def del: of_int_mult)
  then show ?thesis by (simp add: group_bytes_simps w_def [symmetric] bytes_of_def dst)
qed

lemma front64:
  assumes v: "valid_encoding enc" and d: "list_all (isd enc) [a, b, c, d]" "list_all (isd enc) [e, f, g, h]" and room: "8 \<le> length dst"
    and dn: "assemble64 (dg enc a) (dg enc b) (dg enc c) (dg enc d) (dg enc e) (dg enc f) (dg enc g) (dg enc h) = (dn, ok)" "ok"
  shows "\<exists>dst'. BE_PutUint64 dst dn = Some dst' \<and> length dst' = length dst \<and> take 6 dst' = group_bytes enc [a, b, c, d] @ group_bytes enc [e, f, g, h]"
proof -
  define w1 where "w1 = value4 (uint (dg enc a)) (uint (dg enc b)) (uint (dg enc c)) (uint (dg enc d))"
  define w2 where "w2 = value4 (uint (dg enc e)) (uint (dg enc f)) (uint (dg enc g)) (uint (dg enc h))"
  define lo :: uint64 where "lo = push_bit (16 + 18) (ucast (dg enc e)) OR push_bit (16 + 12) (ucast (dg enc f)) OR push_bit (16 + 6) (ucast (dg enc g)) OR push_bit 16 (ucast (dg enc h)) OR 0"
  have dn': "dn = push_bit (40 + 18) (ucast (dg enc a)) OR push_bit (40 + 12) (ucast (dg enc b)) OR push_bit (40 + 6) (ucast (dg enc c)) OR push_bit 40 (ucast (dg enc d)) OR lo"
    using dn by (auto simp: assemble64_def lo_def or.assoc split: if_splits)
  have i: "isd enc a" "isd enc b" "isd enc c" "isd enc d" "isd enc e" "isd enc f" "isd enc g" "isd enc h" using d by simp_all
  note l = valid_letters(1) [OF v]
  have lo: "uint lo = w2 * 65536" "uint lo < 2 ^ 40"
    unfolding lo_def using four_digits [OF l [OF i(5)] l [OF i(6)] l [OF i(7)] l [OF i(8)], of "0 :: uint64" 16] by (simp_all add: w2_def)
  have u: "uint dn = w1 * 2 ^ 40 + w2 * 65536"
    unfolding dn' using four_digits(1) [OF l [OF i(1)] l [OF i(2)] l [OF i(3)] l [OF i(4)] lo(2)] by (simp add: w1_def lo)
  have w2: "0 \<le> w2" "w2 < 16777216" unfolding w2_def using l [OF i(5)] l [OF i(6)] l [OF i(7)] l [OF i(8)] by (auto intro!: value4_range)
  obtain x0 x1 x2 x3 x4 x5 x6 x7 r where dst: "dst = x0 # x1 # x2 # x3 # x4 # x5 # x6 # x7 # r"
    using room by (cases dst; cases "tl dst"; cases "tl (tl dst)"; cases "tl (tl (tl dst))"; cases "tl (tl (tl (tl dst)))";
        cases "tl (tl (tl (tl (tl dst))))"; cases "tl (tl (tl (tl (tl (tl dst)))))"; cases "tl (tl (tl (tl (tl (tl (tl dst))))))") auto
  have b: "(ucast (drop_bit k dn) :: byte) = word_of_int ((w1 * 2 ^ 40 + w2 * 65536) div 2 ^ k)" for k by (simp only: ucast_eq uint_drop u)
  have hi: "(w1 * 2 ^ 40 + w2 * 65536) div 2 ^ 40 = w1" using w2 by simp
  have top: "(w1 * 2 ^ 40 + w2 * 65536) div 2 ^ 56 = w1 div 65536" "(w1 * 2 ^ 40 + w2 * 65536) div 2 ^ 48 = w1 div 256"
    using hi zdiv_zmult2_eq [of "2 ^ 16" "w1 * 2 ^ 40 + w2 * 65536" "2 ^ 40"] zdiv_zmult2_eq [of "2 ^ 8" "w1 * 2 ^ 40 + w2 * 65536" "2 ^ 40"] by simp_all
  have mid': "(w1 * 2 ^ 40 + w2 * 65536) div 2 ^ 16 = w1 * 16777216 + w2"
    using div_mult_self1 [of 65536 0 "w1 * 16777216 + w2"] by (simp add: algebra_simps)
  have low: "(w1 * 2 ^ 40 + w2 * 65536) div 2 ^ 32 = w2 div 65536 + w1 * 256" "(w1 * 2 ^ 40 + w2 * 65536) div 2 ^ 24 = w2 div 256 + w1 * 65536"
    using mid' zdiv_zmult2_eq [of "2 ^ 16" "w1 * 2 ^ 40 + w2 * 65536" "2 ^ 16"] zdiv_zmult2_eq [of "2 ^ 8" "w1 * 2 ^ 40 + w2 * 65536" "2 ^ 16"]
      div_mult_self1 [of 65536 w2 "w1 * 256"] div_mult_self1 [of 256 w2 "w1 * 65536"] by (simp_all add: algebra_simps)
  have m: "(w2 div 65536 + w1 * 256) mod 256 = w2 div 65536 mod 256" "(w2 div 256 + w1 * 65536) mod 256 = w2 div 256 mod 256"
    "(w1 * 16777216 + w2) mod 256 = w2 mod 256"
    using mod_mult_self1 [of "w2 div 256" "w1 * 256" 256] mod_mult_self1 [of w2 "w1 * 65536" 256] by (simp_all add: algebra_simps)
  note bl = m [THEN bytes_cong]
  have "BE_PutUint64 dst dn = Some (bytes_of w1 @ bytes_of w2 @ ucast (drop_bit 8 dn) # ucast dn # r)"
    unfolding BE_PutUint64_def dst b [of 56] b [of 48] b [of 40] b [of 32] b [of 24] b [of 16] top hi low mid' bl
    by (simp add: idx_Cons upd_Cons bytes_of_def)
  then show ?thesis by (simp add: group_bytes_simps w1_def [symmetric] w2_def [symmetric] bytes_of_def dst)
qed

subsection \<open>Steps of the loops\<close>

text \<open>From \<open>i\<close> bytes read and \<open>n\<close> written to \<open>i'\<close> and \<open>n'\<close>: the bytes written are what the reference gives in between.\<close>

definition rest_ref :: "encoding \<Rightarrow> byte list \<Rightarrow> nat \<Rightarrow> byte list \<times> bool" where
  "rest_ref enc src i = b64_ref enc (nonl (drop i src))"

definition decoded :: "encoding \<Rightarrow> byte list \<Rightarrow> byte list \<Rightarrow> nat \<Rightarrow> nat \<Rightarrow> byte list \<Rightarrow> nat \<Rightarrow> nat \<Rightarrow> base64_error option \<Rightarrow> bool" where
  "decoded enc src dst i n dst' i' n' err \<longleftrightarrow>
     length dst' = length dst \<and> n \<le> n' \<and> n' \<le> length dst \<and> i' \<le> length src \<and> take n dst' = take n dst \<and>
     (case err of
        None \<Rightarrow> i \<le> i' \<and> room enc (length src - i') + n' \<le> length dst \<and>
          rest_ref enc src i = (drop n (take n' dst') @ fst (rest_ref enc src i'), snd (rest_ref enc src i'))
      | Some (CorruptInputError k) \<Rightarrow> 0 \<le> k \<and> k \<le> int (length src) \<and> rest_ref enc src i = (drop n (take n' dst'), False))"

lemma drop_take_join: "n \<le> n' \<Longrightarrow> n' \<le> n'' \<Longrightarrow> take n' xs = take n' ys \<Longrightarrow> drop n (take n' ys) @ drop n' (take n'' xs) = drop n (take n'' xs)"
proof -
  assume a: "n \<le> n'" "n' \<le> n''" "take n' xs = take n' ys"
  have "take n'' xs = take n' xs @ drop n' (take n'' xs)" using a(2) by (metis append_take_drop_id min.absorb1 take_take)
  then have "drop n (take n'' xs) = drop n (take n' xs) @ drop (n - length (take n' xs)) (drop n' (take n'' xs))" by (metis drop_append)
  moreover have "drop (n - length (take n' xs)) (drop n' (take n'' xs)) = drop n' (take n'' xs)"
    using a(1,2) by (cases "n' \<le> length xs") auto
  ultimately show ?thesis using a(3) by simp
qed

lemma decoded_refl: "i \<le> length src \<Longrightarrow> room enc (length src - i) + n \<le> length dst \<Longrightarrow> decoded enc src dst i n dst i n None"
  by (simp add: decoded_def)

lemma decoded_trans:
  assumes "decoded enc src dst i n dst' i' n' None" "decoded enc src dst' i' n' dst'' i'' n'' err"
  shows "decoded enc src dst i n dst'' i'' n'' err"
proof -
  have t: "take n' dst'' = take n' dst'" "n \<le> n'" "n' \<le> n''" using assms by (auto simp: decoded_def)
  then have "take n dst'' = take n dst'" by (metis min.absorb1 take_take)
  then show ?thesis using assms drop_take_join [OF t(2,3,1)]
    by (auto simp: decoded_def split: option.splits base64_error.splits)
qed

lemma Decode_slow_ok:
  assumes valid: "valid_encoding enc" and i: "i < length src" and space: "room enc (length src - i) + n \<le> length dst"
  shows "\<exists>dst' i' n' err. Decode_slow enc dst src (int i) (int n) = Some (dst', int i', int n', err) \<and>
    decoded enc src dst i n dst' i' n' err \<and> (err = None \<longrightarrow> i < i')"
proof -
  have "room enc (length src - i) \<le> length (drop n dst)" using space by simp
  from decodeQuantum_ok [OF valid i this] obtain d i' k err where d: "decodeQuantum enc (drop n dst) src (int i) = Some (d, int i', int k, err)"
    "length d = length (drop n dst)" "k \<le> length (drop n dst)" "advance enc src i i' k (take k d) err" by blast
  have s: "Decode_slow enc dst src (int i) (int n) = Some (take n dst @ d, int i', int (n + k), err)"
    using d(1) space by (simp add: Decode_slow_def on_tail_def from_index_def)
  have t: "drop n (take (n + k) (take n dst @ d)) = take k d" using space by (simp add: take_append)
  have "decoded enc src dst i n (take n dst @ d) i' (n + k) err"
    using d(2-4) space t by (auto simp: decoded_def advance_def rest_ref_def split: option.splits base64_error.splits)
  then show ?thesis using s d(4) by (intro exI [of _ "take n dst @ d"] exI [of _ i'] exI [of _ "n + k"] exI [of _ err]) (auto simp: advance_def)
qed

text \<open>A fast step over groups of digits that are stored at \<open>n\<close>.\<close>

lemma decoded_fast:
  assumes g: "list_all (isd enc) g" "valid_encoding enc" and src: "src = pre @ g @ s" and len: "length g = 4 * k"
    and b: "b64_ref enc (g @ nonl s) = (b @ fst (b64_ref enc (nonl s)), snd (b64_ref enc (nonl s)))" "length b = 3 * k" "take (3 * k) d = b"
    and d: "length d = length (drop n dst)" "3 * k \<le> length d" and space: "room enc (length src - length pre) + n \<le> length dst"
  shows "decoded enc src dst (length pre) n (take n dst @ d) (length pre + 4 * k) (n + 3 * k) None"
proof -
  have "\<forall>c \<in> set g. \<not> newline c" using g valid_letters(3) by (auto simp: list_all_iff)
  then have "nonl g = g" by (simp add: nonl_def filter_id_conv)
  then have r: "rest_ref enc src (length pre) = b64_ref enc (g @ nonl s)" "rest_ref enc src (length pre + 4 * k) = b64_ref enc (nonl s)"
    using len by (simp_all add: rest_ref_def src)
  have "room enc (length s) + 3 * k = room enc (length s + 4 * k)"
    by (induction k) (simp_all add: room_4 [symmetric] add.assoc [symmetric] del: add_Suc_right, metis add.commute add.left_commute mult_Suc_right room_4)
  then have "room enc (length src - (length pre + 4 * k)) + (n + 3 * k) \<le> length dst" using space len by (simp add: src add.commute)
  moreover have "drop n (take (n + 3 * k) (take n dst @ d)) = b" using b(3) space by (simp add: take_append)
  ultimately show ?thesis using r b(1) d space len by (simp add: decoded_def src)
qed

subsection \<open>The loops\<close>

lemma at_offset:
  assumes "i + k \<le> length src" "length (take k (drop i src)) = k"
  shows "src = take i src @ take k (drop i src) @ drop (i + k) src"
  by (simp add: add.commute [of i k] flip: drop_drop)

lemma length_8: "length xs = 8 \<Longrightarrow> \<exists>a b c d e f g h. xs = [a, b, c, d, e, f, g, h]"
  by (auto simp: numeral_eq_Suc length_Suc_conv)

lemma length_4: "length xs = 4 \<Longrightarrow> \<exists>a b c d. xs = [a, b, c, d]"
  by (auto simp: numeral_eq_Suc length_Suc_conv)

lemma digit_at_nth:
  assumes "valid_encoding enc" "m < length src2"
  shows "digit_at enc src2 (int m) = Some (dg enc (src2 ! m))"
  using assms valid_length(2) [OF assms(1)] uint_byte [of "src2 ! m"] by (simp add: digit_at_def dg_def)

lemma on_tail_ok: "n \<le> length dst \<Longrightarrow> f (drop n dst) = Some d \<Longrightarrow> on_tail dst (int n) (\<lambda>t. do { t \<leftarrow> f t; Some (t, ()) }) = Some (take n dst @ d, ())"
  by (simp add: on_tail_def from_index_def)

lemma slow_round:
  assumes "decoded enc src dst i n dst' i' n' err" "err = None \<longrightarrow> i < i'"
    and "err = None \<Longrightarrow> \<exists>dst'' i'' n'' err''. P dst' i' n' = Some (dst'', int i'', int n'', err'') \<and> decoded enc src dst' i' n' dst'' i'' n'' err'' \<and> Q i'' err''"
    and "err \<noteq> None \<Longrightarrow> Q i' err"
  shows "\<exists>dst'' i'' n'' err''. (if err \<noteq> None then Some (dst', int i', int n', err) else P dst' i' n') = Some (dst'', int i'', int n'', err'')
    \<and> decoded enc src dst i n dst'' i'' n'' err'' \<and> Q i'' err''"
proof (cases err)
  case None
  then show ?thesis using assms(3) decoded_trans assms(1) by fastforce
next
  case (Some e)
  then show ?thesis using assms(1,4) by auto
qed

lemma loop64_ok:
  assumes valid: "valid_encoding enc"
  shows "i \<le> length src \<Longrightarrow> room enc (length src - i) + n \<le> length dst \<Longrightarrow>
    \<exists>dst' i' n' err. Decode_loop64 enc dst src (int i) (int n) = Some (dst', int i', int n', err) \<and> decoded enc src dst i n dst' i' n' err"
proof (induction "length src - i" arbitrary: dst i n rule: less_induct)
  case less
  show ?case
  proof (cases "int (length src) - int i \<ge> 8 \<and> int (length dst) - int n \<ge> 8")
    case False
    then have "Decode_loop64 enc dst src (int i) (int n) = Some (dst, int i, int n, None)" by (subst Decode_loop64.simps) auto
    then show ?thesis using decoded_refl [OF less.prems] by blast
  next
    case True
    define s where "s = drop (i + 8) src"
    obtain a b c d e f g h where ch: "take 8 (drop i src) = [a, b, c, d, e, f, g, h]"
    proof -
      have "length (take 8 (drop i src)) = 8" using True by auto
      then show ?thesis using that length_8 [of "take 8 (drop i src)"] by blast
    qed
    have src: "src = take i src @ [a, b, c, d, e, f, g, h] @ s"
      using at_offset [of i 8 src] True unfolding ch s_def by simp
    have s2: "slice_of src (int i) (int i + 8) = Some [a, b, c, d, e, f, g, h]"
      using True ch by (simp add: slice_of_def nat_add_distrib drop_take)
    have dig: "digit_at enc [a, b, c, d, e, f, g, h] 0 = Some (dg enc a)" "digit_at enc [a, b, c, d, e, f, g, h] 1 = Some (dg enc b)"
      "digit_at enc [a, b, c, d, e, f, g, h] 2 = Some (dg enc c)" "digit_at enc [a, b, c, d, e, f, g, h] 3 = Some (dg enc d)"
      "digit_at enc [a, b, c, d, e, f, g, h] 4 = Some (dg enc e)" "digit_at enc [a, b, c, d, e, f, g, h] 5 = Some (dg enc f)"
      "digit_at enc [a, b, c, d, e, f, g, h] 6 = Some (dg enc g)" "digit_at enc [a, b, c, d, e, f, g, h] 7 = Some (dg enc h)"
      using digit_at_nth [OF valid, of 0 "[a, b, c, d, e, f, g, h]"] digit_at_nth [OF valid, of 1 "[a, b, c, d, e, f, g, h]"]
        digit_at_nth [OF valid, of 2 "[a, b, c, d, e, f, g, h]"] digit_at_nth [OF valid, of 3 "[a, b, c, d, e, f, g, h]"]
        digit_at_nth [OF valid, of 4 "[a, b, c, d, e, f, g, h]"] digit_at_nth [OF valid, of 5 "[a, b, c, d, e, f, g, h]"]
        digit_at_nth [OF valid, of 6 "[a, b, c, d, e, f, g, h]"] digit_at_nth [OF valid, of 7 "[a, b, c, d, e, f, g, h]"] by simp_all
    obtain dn ok where as: "assemble64 (dg enc a) (dg enc b) (dg enc c) (dg enc d) (dg enc e) (dg enc f) (dg enc g) (dg enc h) = (dn, ok)" by fastforce
    note round = Decode_loop64.simps [of enc dst src "int i" "int n"]
    show ?thesis
    proof (cases ok)
      case t: True
      have l: "list_all (isd enc) [a, b, c, d]" "list_all (isd enc) [e, f, g, h]" using assemble64_digits [of enc a b c d e f g h] as t by simp_all
      have "8 \<le> length (drop n dst)" using True by auto
      from front64 [OF valid l this as t] obtain dd where dd: "BE_PutUint64 (drop n dst) dn = Some dd" "length dd = length (drop n dst)"
        "take 6 dd = group_bytes enc [a, b, c, d] @ group_bytes enc [e, f, g, h]" by blast
      have lpre: "length (take i src) = i" using less.prems(1) by simp
      have "6 \<le> length dst - n" using True by auto
      then have st: "decoded enc src dst i n (take n dst @ dd) (i + 8) (n + 6) None"
        using decoded_fast [of enc "[a, b, c, d, e, f, g, h]" src "take i src" s 2 "group_bytes enc [a, b, c, d] @ group_bytes enc [e, f, g, h]" dd n dst]
          l valid src dd lpre True less.prems(2) b64_ref_group [OF l(1)] b64_ref_group [OF l(2)] by simp
      have "\<exists>dst' i' n' err. Decode_loop64 enc (take n dst @ dd) src (int (i + 8)) (int (n + 6)) = Some (dst', int i', int n', err)
          \<and> decoded enc src (take n dst @ dd) (i + 8) (n + 6) dst' i' n' err"
        by (rule less.hyps) (use True st in \<open>auto simp: decoded_def\<close>)
      then obtain dst' i' n' err where r: "Decode_loop64 enc (take n dst @ dd) src (int (i + 8)) (int (n + 6)) = Some (dst', int i', int n', err)"
        "decoded enc src (take n dst @ dd) (i + 8) (n + 6) dst' i' n' err" by blast
      have "n \<le> length dst" using True by simp
      then have "Decode_loop64 enc dst src (int i) (int n) = Some (dst', int i', int n', err)"
        using True r(1) t by (simp add: round s2 dig as on_tail_ok [of n dst "\<lambda>t. BE_PutUint64 t dn", OF _ dd(1)])
      then show ?thesis using decoded_trans [OF st r(2)] by blast
    next
      case f: False
      have "i < length src" using True by simp
      from Decode_slow_ok [OF valid this less.prems(2)] obtain dst' i' n' err where sl:
        "Decode_slow enc dst src (int i) (int n) = Some (dst', int i', int n', err)" "decoded enc src dst i n dst' i' n' err" "err = None \<longrightarrow> i < i'" by blast
      have "\<exists>dst'' i'' n'' err''. Decode_loop64 enc dst' src (int i') (int n') = Some (dst'', int i'', int n'', err'') \<and> decoded enc src dst' i' n' dst'' i'' n'' err'' \<and> True"
        if "err = None" using less.hyps [of i' n' dst'] sl(2,3) that by (auto simp: decoded_def)
      from slow_round [where Q = "\<lambda>_ _. True" and P = "\<lambda>d i n. Decode_loop64 enc d src (int i) (int n)", OF sl(2,3) this]
      show ?thesis using True f by (simp add: round s2 dig as sl(1))
    qed
  qed
qed

lemma loop32_ok:
  assumes valid: "valid_encoding enc"
  shows "i \<le> length src \<Longrightarrow> room enc (length src - i) + n \<le> length dst \<Longrightarrow>
    \<exists>dst' i' n' err. Decode_loop32 enc dst src (int i) (int n) = Some (dst', int i', int n', err) \<and> decoded enc src dst i n dst' i' n' err"
proof (induction "length src - i" arbitrary: dst i n rule: less_induct)
  case less
  show ?case
  proof (cases "int (length src) - int i \<ge> 4 \<and> int (length dst) - int n \<ge> 4")
    case False
    then have "Decode_loop32 enc dst src (int i) (int n) = Some (dst, int i, int n, None)" by (subst Decode_loop32.simps) auto
    then show ?thesis using decoded_refl [OF less.prems] by blast
  next
    case True
    define s where "s = drop (i + 4) src"
    obtain a b c d where ch: "take 4 (drop i src) = [a, b, c, d]"
    proof -
      have "length (take 4 (drop i src)) = 4" using True by auto
      then show ?thesis using that length_4 [of "take 4 (drop i src)"] by blast
    qed
    have src: "src = take i src @ [a, b, c, d] @ s"
      using at_offset [of i 4 src] True unfolding ch s_def by simp
    have s2: "slice_of src (int i) (int i + 4) = Some [a, b, c, d]"
      using True ch by (simp add: slice_of_def nat_add_distrib drop_take)
    have dig: "digit_at enc [a, b, c, d] 0 = Some (dg enc a)" "digit_at enc [a, b, c, d] 1 = Some (dg enc b)"
      "digit_at enc [a, b, c, d] 2 = Some (dg enc c)" "digit_at enc [a, b, c, d] 3 = Some (dg enc d)"
      using digit_at_nth [OF valid, of 0 "[a, b, c, d]"] digit_at_nth [OF valid, of 1 "[a, b, c, d]"]
        digit_at_nth [OF valid, of 2 "[a, b, c, d]"] digit_at_nth [OF valid, of 3 "[a, b, c, d]"] by simp_all
    obtain dn ok where as: "assemble32 (dg enc a) (dg enc b) (dg enc c) (dg enc d) = (dn, ok)" by fastforce
    note round = Decode_loop32.simps [of enc dst src "int i" "int n"]
    show ?thesis
    proof (cases ok)
      case t: True
      have l: "list_all (isd enc) [a, b, c, d]" using assemble32_digits [of enc a b c d] as t by simp
      have "4 \<le> length (drop n dst)" using True by auto
      from front32 [OF valid l this as t] obtain dd where dd: "BE_PutUint32 (drop n dst) dn = Some dd" "length dd = length (drop n dst)"
        "take 3 dd = group_bytes enc [a, b, c, d]" by blast
      have lpre: "length (take i src) = i" using less.prems(1) by simp
      have "3 \<le> length dst - n" using True by auto
      then have st: "decoded enc src dst i n (take n dst @ dd) (i + 4) (n + 3) None"
        using decoded_fast [of enc "[a, b, c, d]" src "take i src" s 1 "group_bytes enc [a, b, c, d]" dd n dst]
          l valid src dd lpre True less.prems(2) b64_ref_group [OF l] by simp
      have "\<exists>dst' i' n' err. Decode_loop32 enc (take n dst @ dd) src (int (i + 4)) (int (n + 3)) = Some (dst', int i', int n', err)
          \<and> decoded enc src (take n dst @ dd) (i + 4) (n + 3) dst' i' n' err"
        by (rule less.hyps) (use True st in \<open>auto simp: decoded_def\<close>)
      then obtain dst' i' n' err where r: "Decode_loop32 enc (take n dst @ dd) src (int (i + 4)) (int (n + 3)) = Some (dst', int i', int n', err)"
        "decoded enc src (take n dst @ dd) (i + 4) (n + 3) dst' i' n' err" by blast
      have "n \<le> length dst" using True by simp
      then have "Decode_loop32 enc dst src (int i) (int n) = Some (dst', int i', int n', err)"
        using True r(1) t by (simp add: round s2 dig as on_tail_ok [of n dst "\<lambda>t. BE_PutUint32 t dn", OF _ dd(1)])
      then show ?thesis using decoded_trans [OF st r(2)] by blast
    next
      case f: False
      have "i < length src" using True by simp
      from Decode_slow_ok [OF valid this less.prems(2)] obtain dst' i' n' err where sl:
        "Decode_slow enc dst src (int i) (int n) = Some (dst', int i', int n', err)" "decoded enc src dst i n dst' i' n' err" "err = None \<longrightarrow> i < i'" by blast
      have "\<exists>dst'' i'' n'' err''. Decode_loop32 enc dst' src (int i') (int n') = Some (dst'', int i'', int n'', err'') \<and> decoded enc src dst' i' n' dst'' i'' n'' err'' \<and> True"
        if "err = None" using less.hyps [of i' n' dst'] sl(2,3) that by (auto simp: decoded_def)
      from slow_round [where Q = "\<lambda>_ _. True" and P = "\<lambda>d i n. Decode_loop32 enc d src (int i) (int n)", OF sl(2,3) this]
      show ?thesis using True f by (simp add: round s2 dig as sl(1))
    qed
  qed
qed

lemma loop8_ok:
  assumes valid: "valid_encoding enc"
  shows "i \<le> length src \<Longrightarrow> room enc (length src - i) + n \<le> length dst \<Longrightarrow>
    \<exists>dst' i' n' err. Decode_loop8 enc dst src (int i) (int n) = Some (dst', int i', int n', err) \<and> decoded enc src dst i n dst' i' n' err
      \<and> (err = None \<longrightarrow> i' = length src)"
proof (induction "length src - i" arbitrary: dst i n rule: less_induct)
  case less
  show ?case
  proof (cases "i < length src")
    case False
    then have "Decode_loop8 enc dst src (int i) (int n) = Some (dst, int i, int n, None)" by (subst Decode_loop8.simps) auto
    then show ?thesis using decoded_refl [OF less.prems] less.prems(1) False by force
  next
    case True
    from Decode_slow_ok [OF valid True less.prems(2)] obtain dst' i' n' err where sl:
      "Decode_slow enc dst src (int i) (int n) = Some (dst', int i', int n', err)" "decoded enc src dst i n dst' i' n' err" "err = None \<longrightarrow> i < i'" by blast
    have rec: "\<exists>dst'' i'' n'' err''. Decode_loop8 enc dst' src (int i') (int n') = Some (dst'', int i'', int n'', err'')
        \<and> decoded enc src dst' i' n' dst'' i'' n'' err'' \<and> (err'' = None \<longrightarrow> i'' = length src)"
      if "err = None" using less.hyps [of i' n' dst'] sl(2,3) that by (auto simp: decoded_def)
    have "err \<noteq> None \<Longrightarrow> err = None \<longrightarrow> i' = length src" by blast
    from slow_round [where Q = "\<lambda>i e. e = None \<longrightarrow> i = length src" and P = "\<lambda>d i n. Decode_loop8 enc d src (int i) (int n)", OF sl(2,3) rec this]
    show ?thesis using True by (simp add: Decode_loop8.simps [of enc dst src "int i" "int n"] sl(1))
  qed
qed

subsection \<open>Decode and DecodeString\<close>

lemma b64_Decode_ok:
  assumes valid: "valid_encoding enc" and space: "room enc (length src) \<le> length dst"
  shows "\<exists>dst' n err. b64_Decode enc dst src = Some (dst', int n, err) \<and> length dst' = length dst \<and> n \<le> length dst' \<and> take n dst' = fst (b64_ref enc (nonl src))
    \<and> (case err of None \<Rightarrow> snd (b64_ref enc (nonl src)) | Some (CorruptInputError k) \<Rightarrow> \<not> snd (b64_ref enc (nonl src)) \<and> 0 \<le> k \<and> k \<le> int (length src))"
proof (cases "src = []")
  case True
  then show ?thesis by (simp add: b64_Decode_def)
next
  case False
  have start: "0 \<le> length src" "room enc (length src - 0) + 0 \<le> length dst" using space by simp_all
  obtain d1 i1 n1 e1 where 1: "Decode_loop64 enc dst src 0 0 = Some (d1, int i1, int n1, e1)" "decoded enc src dst 0 0 d1 i1 n1 e1"
    using loop64_ok [OF valid start] by auto
  have fin: ?thesis if "b64_Decode enc dst src = Some (d, int n, e)" "decoded enc src dst 0 0 d i n e" "e = None \<longrightarrow> i = length src" for d i n e
    using that by (intro exI [of _ d] exI [of _ n] exI [of _ e]) (auto simp: decoded_def rest_ref_def split: option.splits base64_error.splits)
  show ?thesis
  proof (cases e1)
    case (Some a)
    then show ?thesis using 1 False by (intro fin [OF _ 1(2)]) (simp_all add: b64_Decode_def)
  next
    case None
    then have "i1 \<le> length src" "room enc (length src - i1) + n1 \<le> length d1" using 1(2) by (simp_all add: decoded_def)
    then obtain d2 i2 n2 e2 where 2: "Decode_loop32 enc d1 src (int i1) (int n1) = Some (d2, int i2, int n2, e2)" "decoded enc src d1 i1 n1 d2 i2 n2 e2"
      using loop32_ok [OF valid] by blast
    note t2 = decoded_trans [OF 1(2) [unfolded None] 2(2)]
    show ?thesis
    proof (cases e2)
      case (Some a)
      then show ?thesis using 1 2 None False by (intro fin [OF _ t2]) (simp_all add: b64_Decode_def)
    next
      case n2: None
      then have "i2 \<le> length src" "room enc (length src - i2) + n2 \<le> length d2" using 2(2) by (simp_all add: decoded_def)
      then obtain d3 i3 n3 e3 where 3: "Decode_loop8 enc d2 src (int i2) (int n2) = Some (d3, int i3, int n3, e3)" "decoded enc src d2 i2 n2 d3 i3 n3 e3"
        "e3 = None \<longrightarrow> i3 = length src"
        using loop8_ok [OF valid] by blast
      show ?thesis using 1 2 3 None n2 False by (intro fin [OF _ decoded_trans [OF t2 [unfolded n2] 3(2)] 3(3)]) (simp add: b64_Decode_def)
    qed
  qed
qed

lemma b64_DecodedLen_ok:
  assumes "length s < 2 ^ 59"
  shows "b64_DecodedLen enc (int (length s)) = int (room enc (length s))"
proof -
  have b: "int (length s) < 576460752303423488" using assms by simp
  then have i: "int64 (int (length s) * 6) = int (length s) * 6" by (simp add: go_int_simps)
  have "0 \<le> int (length s) div 4" "int (length s) div 4 \<le> int (length s)" using int_div_le_self [of "int (length s)" 4] by simp_all
  then have "int64 (int (length s) div 4 * 3) = int (length s) div 4 * 3" using b by (intro int64_id) auto
  then show ?thesis by (simp add: b64_DecodedLen_def room_def i signed_divide_int_def zdiv_int int64_id [of 0])
qed

lemma b64_DecodeString_ok:
  assumes "valid_encoding enc" "length s < 2 ^ 59"
  shows "\<exists>err. b64_DecodeString enc s = Some (fst (b64_ref enc (nonl s)), err)
    \<and> (case err of None \<Rightarrow> snd (b64_ref enc (nonl s)) | Some (CorruptInputError k) \<Rightarrow> \<not> snd (b64_ref enc (nonl s)) \<and> 0 \<le> k \<and> k \<le> int (length s))"
proof -
  obtain dst n err where d: "b64_Decode enc (replicate (room enc (length s)) 0) s = Some (dst, int n, err)" "n \<le> length dst"
    "take n dst = fst (b64_ref enc (nonl s))"
    "case err of None \<Rightarrow> snd (b64_ref enc (nonl s)) | Some (CorruptInputError k) \<Rightarrow> \<not> snd (b64_ref enc (nonl s)) \<and> 0 \<le> k \<and> k \<le> int (length s)"
    using b64_Decode_ok [OF assms(1), of s "replicate (room enc (length s)) 0"] by auto
  then have "b64_DecodeString enc s = Some (fst (b64_ref enc (nonl s)), err)"
    by (simp add: b64_DecodeString_def b64_DecodedLen_ok [OF assms(2)] slice_of_def)
  then show ?thesis using d(4) by blast
qed

end
