(* ===== verification/Base64_Properties.thy ===== *)
theory Base64_Properties
  imports Base64_Decode
begin

text \<open>
  What \<^verbatim>\<open>encoding/base64\<close> promises: its constructors give encodings whose decode map inverts the alphabet, decoding inverts
  encoding wherever newlines are put in, strict decoding accepts nothing else, and the streaming encoder writes what \<^verbatim>\<open>Encode\<close> does.
\<close>

subsection \<open>Constructors\<close>

lemma unat_byte_256: "unat (c :: byte) < 256"
  using unsigned_less [of c, where 'a = nat] by simp

lemma map_letters_ok:
  "distinct encoder \<Longrightarrow> length m = 256 \<Longrightarrow>
    \<exists>m'. map_letters m encoder (int i) = Some m' \<and> length m' = 256 \<and> (\<forall>k < length encoder. m' ! unat (encoder ! k) = word_of_nat (i + k))
      \<and> (\<forall>c. c \<notin> set encoder \<longrightarrow> m' ! unat c = m ! unat c)"
proof (induction encoder arbitrary: m i)
  case (Cons c encoder)
  have u: "upd m (uint c) (word_of_int (int i)) = Some (m[unat c := word_of_nat i])"
    using Cons.prems(2) uint_byte [of c] by simp
  from Cons.IH [of "m[unat c := word_of_nat i]" "Suc i"] Cons.prems obtain m' where
    m': "map_letters (m[unat c := word_of_nat i]) encoder (int (Suc i)) = Some m'" "length m' = 256"
      "\<forall>k < length encoder. m' ! unat (encoder ! k) = word_of_nat (Suc i + k)"
      "\<forall>d. d \<notin> set encoder \<longrightarrow> m' ! unat d = (m[unat c := word_of_nat i]) ! unat d" by auto
  have "m' ! unat ((c # encoder) ! k) = word_of_nat (i + k)" if "k < length (c # encoder)" for k
    using that m'(3,4) Cons.prems unat_byte_256 [of c] by (cases k) auto
  moreover have "m' ! unat d = m ! unat d" if "d \<notin> set (c # encoder)" for d
    using that m'(4) by (simp add: word_unat_eq_iff)
  ultimately show ?case using m'(1,2) u by (auto simp: add.commute)
qed simp

lemma NewEncoding_ok:
  assumes "length alphabet = 64" "distinct alphabet" "\<forall>c \<in> set alphabet. \<not> newline c \<and> c \<noteq> 0x3D"
  shows "\<exists>enc. NewEncoding alphabet = Some enc \<and> valid_encoding enc \<and> encode enc = alphabet \<and> padChar enc = StdPadding \<and> \<not> strict enc"
proof -
  obtain m where m: "map_letters (replicate 256 0xFF) alphabet (int 0) = Some m" "length m = 256"
    "\<forall>k < length alphabet. m ! unat (alphabet ! k) = word_of_nat (0 + k)" "\<forall>c. c \<notin> set alphabet \<longrightarrow> m ! unat c = replicate 256 0xFF ! unat c"
    using map_letters_ok [OF assms(2), of "replicate 256 0xFF" 0] by auto
  have p: "StdPadding = ucast (0x3D :: byte)" by (simp add: StdPadding_def)
  define enc where "enc = \<lparr>encode = alphabet, decodeMap = m, padChar = StdPadding, strict = False\<rparr>"
  have new: "NewEncoding alphabet = Some enc" using assms(1,3) m(1) by (auto simp: NewEncoding_def copy_into_def enc_def)
  have "ucast c \<noteq> StdPadding" if "c \<in> set alphabet" for c :: byte
  proof
    assume "ucast c = StdPadding"
    then have "c = 0x3D" unfolding p by (metis ucast_ucast_byte)
    then show False using assms(3) that by blast
  qed
  moreover have "\<exists>c. StdPadding = ucast (c :: byte) \<and> \<not> newline c" by (rule exI [of _ "0x3D"]) (simp add: p)
  ultimately have "valid_encoding enc" using assms m(2-4) unat_byte_256
    by (auto simp: valid_encoding_def enc_def dg_def)
  then show ?thesis using new by (auto simp: enc_def)
qed

lemma WithPadding_ok:
  assumes "valid_encoding enc" "\<forall>c \<in> set (encode enc). ucast c \<noteq> padding" "padding = NoPadding \<or> (\<exists>c. padding = ucast (c :: byte) \<and> \<not> newline c)"
  shows "WithPadding enc padding = Some (enc\<lparr>padChar := padding\<rparr>)" "valid_encoding (enc\<lparr>padChar := padding\<rparr>)"
proof -
  have "padding \<noteq> 0x0D \<and> padding \<noteq> 0x0A \<and> sint padding \<le> 0xFF"
  proof (cases "padding = NoPadding")
    case True
    then show ?thesis by (simp add: NoPadding_def)
  next
    case False
    then obtain c :: byte where c: "padding = ucast c" "\<not> newline c" using assms(3) by blast
    have u: "uint padding = uint c" using uint_shift_byte [of c 0, where 'a = 32] uint_byte [of c] c(1) by simp
    have "- (2 ^ 31) \<le> uint c" "uint c < 2 ^ 31" using uint_byte [of c] by (simp_all add: order_trans [of _ 0])
    then have "sint padding = uint padding" unfolding sint_uint u by (simp add: signed_take_bit_int_eq_self)
    moreover have "padding \<noteq> 0x0D" "padding \<noteq> 0x0A"
    proof -
      have "ucast (0x0D :: byte) = (0x0D :: rune)" "ucast (0x0A :: byte) = (0x0A :: rune)" by simp_all
      then show "padding \<noteq> 0x0D" "padding \<noteq> 0x0A" using c ucast_ucast_byte by metis+
    qed
    ultimately show ?thesis using u uint_byte [of c] by simp
  qed
  then show "WithPadding enc padding = Some (enc\<lparr>padChar := padding\<rparr>)" using assms(2) by (auto simp: WithPadding_def)
  show "valid_encoding (enc\<lparr>padChar := padding\<rparr>)" using assms by (simp add: valid_encoding_def dg_def)
qed

lemma Strict_ok: "valid_encoding enc \<Longrightarrow> valid_encoding (Strict enc)" "strict (Strict enc)"
  by (simp_all add: valid_encoding_def dg_def Strict_def)

subsection \<open>The streaming encoder\<close>

text \<open>The encoder has written whole groups of the data and keeps the rest, less than a group, in its buffer.\<close>

definition b64_stream :: "encoding \<Rightarrow> unit b64_encoder \<Rightarrow> byte list \<Rightarrow> byte list \<Rightarrow> bool" where
  "b64_stream enc e w ds \<longleftrightarrow>
     b64_err e = None \<and> length (b64_buf e) = 3 \<and> length (b64_out e) = 1024 \<and>
     (\<exists>p q k. ds = p @ q \<and> length p = 3 * k \<and> length q < 3 \<and> w = b64_text enc p \<and> b64_nbuf e = int (length q) \<and> take (length q) (b64_buf e) = q)"

lemma b64_streamI:
  assumes "ds = p @ q" "length p = 3 * k" "b64_err e = None" "length (b64_buf e) = 3" "length (b64_out e) = 1024"
    "length q < 3" "w = b64_text enc p" "b64_nbuf e = int (length q)" "take (length q) (b64_buf e) = q"
  shows "b64_stream enc e w ds"
  unfolding b64_stream_def using assms by blast

lemma stream_chunk:
  assumes "length (encode enc) = 64" "length p = 3 * k" "length out' = 1024" "k \<le> 256"
  shows "\<exists>o'. b64_Encode enc out' p = Some o' \<and> length o' = 1024 \<and> slice_of o' 0 (4 * int k) = Some (b64_text enc p)"
proof -
  have l: "length (b64_text enc p) = 4 * k" by (rule length_b64_text_groups [OF assms(2)])
  then have "b64_Encode enc out' p = Some (b64_text enc p @ drop (4 * k) out')" using b64_Encode_ok [OF assms(1), of p out'] assms(3,4) by simp
  then show ?thesis using l assms(3,4) by (simp add: slice_of_def nat_mult_distrib)
qed

lemma interior_ok:
  assumes enc: "length (encode enc) = 64"
  shows "b64_err e = None \<Longrightarrow> length (b64_out e) = 1024 \<Longrightarrow>
    \<exists>o' p1 p2 k. p = p1 @ p2 \<and> length p1 = 3 * k \<and> length p2 < 3 \<and> length o' = 1024 \<and>
      interior enc builder_Write e p n w = Some (e\<lparr>b64_out := o'\<rparr>, p2, n + int (length p1), w @ b64_text enc p1)"
proof (induction "length p" arbitrary: p e n w rule: less_induct)
  case less
  show ?case
  proof (cases "length p < 3")
    case True
    then have "interior enc builder_Write e p n w = Some (e, p, n, w)" by (subst interior.simps) simp
    then show ?thesis using True less.prems by (intro exI [of _ "b64_out e"] exI [of _ "[]"] exI [of _ p] exI [of _ 0]) simp
  next
    case False
    define k where "k = min 256 (length p div 3)"
    have k: "1 \<le> k" "k \<le> 256" "3 * k \<le> length p" using False by (auto simp: k_def)
    define p1 where "p1 = take (3 * k) p"
    define q where "q = drop (3 * k) p"
    have p: "p = p1 @ q" "length p1 = 3 * k" using k by (simp_all add: p1_def q_def)
    have nn: "(let nn = int (length (b64_out e)) div 4 * 3 in if nn > int (length p) then int (length p) - int (length p) mod 3 else nn) = 3 * int k"
      using less.prems(2) by (auto simp: k_def min_def zdiv_int minus_mod_eq_mult_div)
    have nn': "(if int (length (b64_out e)) div 4 * 3 > int (length p) then int (length p) - int (length p) mod 3 else int (length (b64_out e)) div 4 * 3) = 3 * int k"
      using nn by (simp only: Let_def)
    obtain o1 where o1: "b64_Encode enc (b64_out e) p1 = Some o1" "length o1 = 1024" "slice_of o1 0 (4 * int k) = Some (b64_text enc p1)"
      using stream_chunk [OF enc p(2) less.prems(2) k(2)] by blast
    have step: "interior enc builder_Write e p n w = interior enc builder_Write (e\<lparr>b64_out := o1\<rparr>) q (n + 3 * int k) (w @ b64_text enc p1)"
    proof -
      have t: "take (nat (3 * int k)) p = p1" "drop (nat (3 * int k)) p = q" "3 * int k div 3 * 4 = 4 * int k" by (simp_all add: p1_def q_def nat_mult_distrib)
      have e: "e\<lparr>b64_err := None, b64_out := o1\<rparr> = e\<lparr>b64_out := o1\<rparr>" using less.prems(1) by simp
      show ?thesis by (subst interior.simps) (use False in \<open>simp add: Let_def nn' t o1 o1(3) [unfolded mult.commute [of 4]] builder_Write_def e\<close>)
    qed
    have "length q < length p" using p k(1) by simp
    from less.hyps [OF this, of "e\<lparr>b64_out := o1\<rparr>" "n + 3 * int k" "w @ b64_text enc p1"] less.prems(1) o1(2)
    obtain o' q1 q2 k' where r: "q = q1 @ q2" "length q1 = 3 * k'" "length q2 < 3" "length o' = 1024"
      "interior enc builder_Write (e\<lparr>b64_out := o1\<rparr>) q (n + 3 * int k) (w @ b64_text enc p1)
        = Some (e\<lparr>b64_out := o1, b64_out := o'\<rparr>, q2, n + 3 * int k + int (length q1), (w @ b64_text enc p1) @ b64_text enc q1)" by auto
    show ?thesis using step r p b64_text_append [OF p(2), of enc q1]
      by (intro exI [of _ o'] exI [of _ "p1 @ q1"] exI [of _ q2] exI [of _ "k + k'"]) simp
  qed
qed

lemma trailing_ok: "length p \<le> 3 \<Longrightarrow> length pre + length t = 3 \<Longrightarrow> length p \<le> length t \<Longrightarrow>
    \<exists>t'. trailing (pre @ t) (int (length pre)) p = Some (pre @ p @ t') \<and> length (pre @ p @ t') = 3"
proof (induction p arbitrary: pre t)
  case (Cons c p)
  then obtain d t1 where t: "t = d # t1" by (cases t) auto
  have "upd (pre @ t) (int (length pre)) c = Some ((pre @ [c]) @ t1)" using upd_append [of 0 t pre c] t by simp
  then show ?case using Cons.IH [of "pre @ [c]" t1] Cons.prems t by (auto simp: add.commute)
qed simp

lemma Write_rest_ok:
  assumes enc: "length (encode enc) = 64" and e: "b64_err e = None" "length (b64_buf e) = 3" "length (b64_out e) = 1024"
    and w: "w = b64_text enc ds" "length ds = 3 * k"
  shows "\<exists>e' w'. b64_Write_rest enc builder_Write p n e w = Some ((n + int (length p), None), e', w') \<and> b64_stream enc e' w' (ds @ p)"
proof -
  obtain o' p1 p2 k1 where i: "p = p1 @ p2" "length p1 = 3 * k1" "length p2 < 3" "length o' = 1024"
    "interior enc builder_Write e p n w = Some (e\<lparr>b64_out := o'\<rparr>, p2, n + int (length p1), w @ b64_text enc p1)"
    using interior_ok [OF enc e(1,3)] by blast
  obtain t' where t: "trailing (b64_buf e) 0 p2 = Some (p2 @ t')" "length (p2 @ t') = 3"
    using trailing_ok [of p2 "[]" "b64_buf e"] e(2) i(3) by auto
  have "b64_stream enc (e\<lparr>b64_out := o', b64_buf := p2 @ t', b64_nbuf := int (length p2)\<rparr>) (w @ b64_text enc p1) (ds @ p)"
    by (rule b64_streamI [of _ "ds @ p1" p2 "k + k1"]) (use e i(1-4) t(2) w b64_text_append [OF w(2), of enc p1] in simp_all)
  then show ?thesis using i e(1) t(1) by (simp add: b64_Write_rest_def)
qed

lemma fringe_ok:
  assumes "length (b64_buf e) = 3" "length q \<le> 3" "b64_nbuf e = int (length q)" "take (length q) (b64_buf e) = q"
  shows "\<exists>e'. fringe e p i = Some (e', i + int (min (3 - length q) (length p)), drop (3 - length q) p) \<and>
    b64_err e' = b64_err e \<and> b64_out e' = b64_out e \<and> length (b64_buf e') = 3 \<and> b64_nbuf e' = int (length (q @ take (3 - length q) p)) \<and>
    take (length (q @ take (3 - length q) p)) (b64_buf e') = q @ take (3 - length q) p"
  using assms
proof (induction p arbitrary: e q i)
  case Nil
  then show ?case by simp
next
  case (Cons c p)
  show ?case
  proof (cases "length q = 3")
    case True
    then show ?thesis using Cons.prems by simp
  next
    case False
    then have l: "length q < 3" using Cons.prems(2) by simp
    define e1 where "e1 = e\<lparr>b64_buf := (b64_buf e)[length q := c], b64_nbuf := b64_nbuf e + 1\<rparr>"
    have "take (length (q @ [c])) (b64_buf e1) = q @ [c]" using l Cons.prems(1,4) by (simp add: e1_def take_Suc_conv_app_nth)
    then obtain e' where e': "fringe e1 p (i + 1) = Some (e', i + 1 + int (min (3 - length (q @ [c])) (length p)), drop (3 - length (q @ [c])) p)"
      "b64_err e' = b64_err e1" "b64_out e' = b64_out e1" "length (b64_buf e') = 3" "b64_nbuf e' = int (length ((q @ [c]) @ take (3 - length (q @ [c])) p))"
      "take (length ((q @ [c]) @ take (3 - length (q @ [c])) p)) (b64_buf e') = (q @ [c]) @ take (3 - length (q @ [c])) p"
      using Cons.IH [of e1 "q @ [c]" "i + 1"] l Cons.prems(1,3) by (auto simp: e1_def)
    have f: "fringe e (c # p) i = fringe e1 p (i + 1)" using l Cons.prems(1,3) by (simp add: e1_def)
    have d: "3 - length q = Suc (3 - length (q @ [c]))" using l by simp
    show ?thesis unfolding f e'(1) d using e'(2-6) by (auto simp: e1_def)
  qed
qed

lemma b64_Write_ok:
  assumes enc: "length (encode enc) = 64" and st: "b64_stream enc e w ds"
  shows "\<exists>e' w'. b64_Write enc builder_Write p e w = Some ((int (length p), None), e', w') \<and> b64_stream enc e' w' (ds @ p)"
proof -
  obtain d q k where s: "b64_err e = None" "length (b64_buf e) = 3" "length (b64_out e) = 1024" "ds = d @ q" "length d = 3 * k" "length q < 3"
    "w = b64_text enc d" "b64_nbuf e = int (length q)" "take (length q) (b64_buf e) = q" using st by (auto simp: b64_stream_def)
  show ?thesis
  proof (cases "q = []")
    case True
    then show ?thesis using Write_rest_ok [OF enc s(1-3,7,5), of p 0] s by (simp add: b64_Write_def)
  next
    case False
    have "length q \<le> 3" using s(6) by simp
    from fringe_ok [OF s(2) this s(8,9), of p 0] obtain e1 where
      f: "fringe e p 0 = Some (e1, int (min (3 - length q) (length p)), drop (3 - length q) p)" "b64_err e1 = None" "b64_out e1 = b64_out e"
        "length (b64_buf e1) = 3" "b64_nbuf e1 = int (length (q @ take (3 - length q) p))"
        "take (length (q @ take (3 - length q) p)) (b64_buf e1) = q @ take (3 - length q) p" using s(1) by auto
    show ?thesis
    proof (cases "length p < 3 - length q")
      case True
      then have less3: "int (length q) + int (length p) < 3" using s(6) by linarith
      from True have "b64_stream enc e1 w (ds @ p)" 
        by (intro b64_streamI [of _ d "q @ p" k]) (use f s in simp_all)
      moreover have "b64_Write enc builder_Write p e w = Some ((int (length p), None), e1, w)"
        using less3 True s f(1,5) False by (simp add: b64_Write_def)
      ultimately show ?thesis by blast
    next
      case long: False
      define b where "b = q @ take (3 - length q) p"
      have b: "length b = 3" "b64_buf e1 = b" "b64_nbuf e1 = 3" using long f(4-6) s(6) by (simp_all add: b_def)
      obtain o1 where o1: "b64_Encode enc (b64_out e1) b = Some o1" "length o1 = 1024" "slice_of o1 0 4 = Some (b64_text enc b)"
        using stream_chunk [OF enc, of b 1 "b64_out e1"] b(1) f(3) s(3) by auto
      define e2 where "e2 = e1\<lparr>b64_err := None, b64_out := o1, b64_nbuf := 0\<rparr>"
      have w2: "w @ b64_text enc b = b64_text enc (d @ b)" using b64_text_append [OF s(5), of enc b] s(7) by simp
      obtain e' w' where r: "b64_Write_rest enc builder_Write (drop (3 - length q) p) (int (3 - length q)) e2 (w @ b64_text enc b)
          = Some ((int (3 - length q) + int (length (drop (3 - length q) p)), None), e', w')"
        "b64_stream enc e' w' ((d @ b) @ drop (3 - length q) p)"
        using Write_rest_ok [OF enc _ _ _ w2, of e2 "Suc k" "drop (3 - length q) p" "int (3 - length q)"] f(4) o1(2) b(1) s(5) by (auto simp: e2_def)
      have "(d @ b) @ drop (3 - length q) p = ds @ p" by (simp add: b_def s(4))
      moreover have "b64_Write enc builder_Write p e w = Some ((int (length p), None), e', w')"
        using s(1,8) False f(1,2) long b o1 r(1) by (simp add: b64_Write_def builder_Write_def e2_def min_def Let_def)
      ultimately show ?thesis using r(2) by metis
    qed
  qed
qed

lemma b64_Close_ok:
  assumes enc: "length (encode enc) = 64" and st: "b64_stream enc e w ds"
  shows "\<exists>e'. b64_Close enc builder_Write e w = Some (None, e', b64_text enc ds)"
proof -
  obtain d q k where s: "b64_err e = None" "length (b64_buf e) = 3" "length (b64_out e) = 1024" "ds = d @ q" "length d = 3 * k" "length q < 3"
    "w = b64_text enc d" "b64_nbuf e = int (length q)" "take (length q) (b64_buf e) = q" using st by (auto simp: b64_stream_def)
  have t: "b64_text enc ds = w @ b64_text enc q" using b64_text_append [OF s(5), of enc q] s(4,7) by simp
  show ?thesis
  proof (cases "q = []")
    case True
    then show ?thesis using s t by (simp add: b64_Close_def)
  next
    case False
    have p: "slice_of (b64_buf e) 0 (b64_nbuf e) = Some q" using s(2,6,8,9) by (simp add: slice_of_def)
    have l: "b64_EncodedLen enc (b64_nbuf e) = int (length (b64_text enc q))" unfolding s(8) by (rule b64_EncodedLen_ok) (use s(6) in simp)
    have le: "length (b64_text enc q) \<le> 4" using s(6) by (cases q rule: short_list_cases) (auto simp: pads_def)
    then have "b64_Encode enc (b64_out e) q = Some (b64_text enc q @ drop (length (b64_text enc q)) (b64_out e))" using b64_Encode_ok [OF enc] s(3) by simp
    moreover have "slice_of (b64_text enc q @ drop (length (b64_text enc q)) (b64_out e)) 0 (int (length (b64_text enc q))) = Some (b64_text enc q)"
      by (simp add: slice_of_def)
    ultimately show ?thesis using s(1,8) False t p l by (simp add: b64_Close_def builder_Write_def)
  qed
qed

text \<open>A client of the encoder: it writes the pieces one after the other and closes the encoder.\<close>

fun b64_pieces :: "encoding \<Rightarrow> byte list list \<Rightarrow> unit b64_encoder \<Rightarrow> byte list \<Rightarrow> byte list option" where
  "b64_pieces enc [] e w = do { (_, _, w) \<leftarrow> b64_Close enc builder_Write e w; Some w }"
| "b64_pieces enc (p # ps) e w = do { (_, e, w) \<leftarrow> b64_Write enc builder_Write p e w; b64_pieces enc ps e w }"

lemma b64_pieces_ok:
  assumes "length (encode enc) = 64"
  shows "b64_stream enc e w ds \<Longrightarrow> b64_pieces enc ps e w = Some (b64_text enc (ds @ concat ps))"
proof (induction ps arbitrary: e w ds)
  case Nil
  then show ?case using b64_Close_ok [OF assms] by fastforce
next
  case (Cons p ps)
  then obtain e' w' where "b64_Write enc builder_Write p e w = Some ((int (length p), None), e', w')" "b64_stream enc e' w' (ds @ p)"
    using b64_Write_ok [OF assms] by blast
  then show ?case using Cons.IH [of e' w' "ds @ p"] by simp
qed

lemma b64_stream_new: "b64_stream enc b64_NewEncoder [] []"
  by (rule b64_streamI [of _ "[]" "[]" 0]) (simp_all add: b64_NewEncoder_def)

subsection \<open>The four encodings of the package\<close>

lemma alphabets:
  "length encodeStd = 64 \<and> distinct encodeStd \<and> (\<forall>c \<in> set encodeStd. \<not> newline c \<and> c \<noteq> 0x3D)"
  "length encodeURL = 64 \<and> distinct encodeURL \<and> (\<forall>c \<in> set encodeURL. \<not> newline c \<and> c \<noteq> 0x3D)"
  by code_simp+

lemma raw_encoding:
  assumes "valid_encoding enc"
  shows "WithPadding enc NoPadding = Some (enc\<lparr>padChar := NoPadding\<rparr>)" "valid_encoding (enc\<lparr>padChar := NoPadding\<rparr>)"
  using WithPadding_ok [OF assms, of NoPadding] not_pad_NoPadding by auto

lemma standard_encodings:
  "\<exists>std url. StdEncoding = Some std \<and> valid_encoding std \<and> URLEncoding = Some url \<and> valid_encoding url \<and>
    RawStdEncoding = Some (std\<lparr>padChar := NoPadding\<rparr>) \<and> valid_encoding (std\<lparr>padChar := NoPadding\<rparr>) \<and>
    RawURLEncoding = Some (url\<lparr>padChar := NoPadding\<rparr>) \<and> valid_encoding (url\<lparr>padChar := NoPadding\<rparr>)"
proof -
  obtain std url where "NewEncoding encodeStd = Some std" "valid_encoding std" "NewEncoding encodeURL = Some url" "valid_encoding url"
    using NewEncoding_ok [of encodeStd] NewEncoding_ok [of encodeURL] alphabets by blast
  then show ?thesis using raw_encoding [of std] raw_encoding [of url]
    by (simp add: StdEncoding_def URLEncoding_def RawStdEncoding_def RawURLEncoding_def)
qed

subsection \<open>Properties\<close>

lemma b64_DecodeString_None:
  assumes "valid_encoding enc" "length t < 2 ^ 59"
  shows "b64_DecodeString enc t = Some (src, None) \<longleftrightarrow> b64_ref enc (nonl t) = (src, True)"
proof -
  obtain err where d: "b64_DecodeString enc t = Some (fst (b64_ref enc (nonl t)), err)"
    "case err of None \<Rightarrow> snd (b64_ref enc (nonl t)) | Some (CorruptInputError k) \<Rightarrow> \<not> snd (b64_ref enc (nonl t)) \<and> 0 \<le> k \<and> k \<le> int (length t)"
    using b64_DecodeString_ok [OF assms] by blast
  show ?thesis
  proof (cases err)
    case None
    then show ?thesis using d by (auto simp: prod_eq_iff)
  next
    case (Some e)
    then show ?thesis using d by (cases e) (auto simp: prod_eq_iff)
  qed
qed

text \<open>
  C16 (Decoding is total and exact). Decoding any string with a valid encoding returns, without leaving a buffer: the bytes are
  those of the reference decoder on the text without newlines, there is no error exactly when the reference accepts, and the offset
  of an error lies within the string. The paths that take eight or four characters at once change nothing.
\<close>

theorem base64_decode_exact:
  assumes "valid_encoding enc" "length s < 2 ^ 59"
  shows "\<exists>err. b64_DecodeString enc s = Some (fst (b64_ref enc (nonl s)), err)
    \<and> (case err of None \<Rightarrow> snd (b64_ref enc (nonl s)) | Some (CorruptInputError k) \<Rightarrow> \<not> snd (b64_ref enc (nonl s)) \<and> 0 \<le> k \<and> k \<le> int (length s))"
  by (rule b64_DecodeString_ok [OF assms])

text \<open>The standard encoding on two letters and one padding character, a newline between them.\<close>

lemma base64_decode_exact_witness:
  "\<exists>std k. StdEncoding = Some std \<and> b64_DecodeString std [0x51, 0x0A, 0x3D] = Some ([], Some (CorruptInputError k)) \<and> 0 \<le> k \<and> k \<le> 3"
proof -
  obtain std where std: "StdEncoding = Some std" "valid_encoding std" using standard_encodings by blast
  have "std = the (NewEncoding encodeStd)" using std(1) by (simp add: StdEncoding_def)
  moreover have "b64_ref (the (NewEncoding encodeStd)) [0x51, 0x3D] = ([], False)" by code_simp
  ultimately have r: "b64_ref std (nonl [0x51, 0x0A, 0x3D]) = ([], False)" by simp
  obtain err where d: "b64_DecodeString std [0x51, 0x0A, 0x3D] = Some (fst (b64_ref std (nonl [0x51, 0x0A, 0x3D])), err)"
    "case err of None \<Rightarrow> snd (b64_ref std (nonl [0x51, 0x0A, 0x3D]))
      | Some (CorruptInputError k) \<Rightarrow> \<not> snd (b64_ref std (nonl [0x51, 0x0A, 0x3D])) \<and> 0 \<le> k \<and> k \<le> int (length [0x51, 0x0A, 0x3D :: byte])"
    using base64_decode_exact [OF std(2), of "[0x51, 0x0A, 0x3D]"] by fastforce
  then have "err \<noteq> None" using r by (cases err) simp_all
  then obtain k where "err = Some (CorruptInputError k)" by (metis base64_error.exhaust not_None_eq)
  then show ?thesis using d std(1) r by (intro exI [of _ std] exI [of _ k]) simp
qed

text \<open>
  C17 (Decoding inverts encoding). Whatever newlines are put into the encoded text, decoding it gives the bytes back, for every
  valid encoding: every alphabet, padded or not, strict or not.
\<close>

theorem base64_round_trip:
  assumes "valid_encoding enc" "length src < 2 ^ 59" "length t < 2 ^ 59" "b64_EncodeToString enc src = Some (nonl t)"
  shows "b64_DecodeString enc t = Some (src, None)"
proof -
  have "nonl t = b64_text enc src" using assms(2,4) b64_EncodeToString_ok [OF valid_length(1) [OF assms(1)]] by simp
  then show ?thesis unfolding b64_DecodeString_None [OF assms(1,3)] using b64_ref_text [OF assms(1), of src] by simp
qed

lemma base64_round_trip_witness:
  "\<exists>std. StdEncoding = Some std \<and> b64_DecodeString std [0x0D, 0x51, 0x51, 0x0A, 0x3D, 0x3D] = Some ([0x41], None)"
proof -
  obtain std where std: "StdEncoding = Some std" "valid_encoding std" using standard_encodings by blast
  have "std = the (NewEncoding encodeStd)" using std(1) by (simp add: StdEncoding_def)
  moreover have "b64_EncodeToString (the (NewEncoding encodeStd)) [0x41] = Some [0x51, 0x51, 0x3D, 0x3D]" by code_simp
  ultimately have "b64_EncodeToString std [0x41] = Some (nonl [0x0D, 0x51, 0x51, 0x0A, 0x3D, 0x3D])" by simp
  then show ?thesis using base64_round_trip [OF std(2), of "[0x41]" "[0x0D, 0x51, 0x51, 0x0A, 0x3D, 0x3D]"] std(1)
    by (intro exI [of _ std]) simp
qed

text \<open>
  C18 (Strict decoding is canonical). A strict encoding decodes a text without an error to some bytes exactly when the text without
  its newlines is the encoding of these bytes: there are no two encodings of the same bytes but for newlines.
\<close>

theorem base64_strict_canonical:
  assumes "valid_encoding enc" "strict enc" "length src < 2 ^ 59" "length t < 2 ^ 59"
  shows "b64_DecodeString enc t = Some (src, None) \<longleftrightarrow> b64_EncodeToString enc src = Some (nonl t)"
proof -
  have e: "b64_EncodeToString enc src = Some (b64_text enc src)" by (rule b64_EncodeToString_ok [OF valid_length(1) [OF assms(1)] assms(3)])
  have "b64_DecodeString enc t = Some (src, None) \<longleftrightarrow> b64_ref enc (nonl t) = (src, True)"
    by (rule b64_DecodeString_None [OF assms(1,4)])
  also have "\<dots> \<longleftrightarrow> nonl t = b64_text enc src"
    using b64_ref_strict [OF assms(1,2), of "nonl t"] b64_ref_text [OF assms(1), of src] by auto
  finally show ?thesis using e by auto
qed

lemma base64_strict_canonical_witness:
  "\<exists>std. StdEncoding = Some std \<and> b64_DecodeString (Strict std) [0x51, 0x52, 0x3D, 0x3D] \<noteq> Some ([0x41], None)"
proof -
  obtain std where std: "StdEncoding = Some std" "valid_encoding std" using standard_encodings by blast
  have "std = the (NewEncoding encodeStd)" using std(1) by (simp add: StdEncoding_def)
  moreover have "b64_EncodeToString (Strict (the (NewEncoding encodeStd))) [0x41] = Some [0x51, 0x51, 0x3D, 0x3D]" by code_simp
  ultimately have "b64_EncodeToString (Strict std) [0x41] \<noteq> Some (nonl [0x51, 0x52, 0x3D, 0x3D])" by simp
  then show ?thesis using base64_strict_canonical [OF Strict_ok(1) [OF std(2)] Strict_ok(2), of "[0x41]" "[0x51, 0x52, 0x3D, 0x3D]"] std(1) by auto
qed

text \<open>
  C34 (The streaming encoder). However the data is cut into pieces, writing them one after the other and closing the encoder writes
  the text that encodes all of the data at once.
\<close>

theorem base64_stream_encodes:
  assumes "length (encode enc) = 64" "length (concat ps) < 2 ^ 59"
  shows "b64_pieces enc ps b64_NewEncoder [] = b64_EncodeToString enc (concat ps)"
  using b64_pieces_ok [OF assms(1) b64_stream_new, of ps] b64_EncodeToString_ok [OF assms] by simp

lemma base64_stream_encodes_witness:
  "\<exists>std. StdEncoding = Some std \<and> b64_pieces std [[0x41], [], [0x42, 0x43, 0x44]] b64_NewEncoder [] = Some [0x51, 0x55, 0x4A, 0x44, 0x52, 0x41, 0x3D, 0x3D]"
proof -
  obtain std where std: "StdEncoding = Some std" "valid_encoding std" using standard_encodings by blast
  have "std = the (NewEncoding encodeStd)" using std(1) by (simp add: StdEncoding_def)
  moreover have "b64_EncodeToString (the (NewEncoding encodeStd)) [0x41, 0x42, 0x43, 0x44] = Some [0x51, 0x55, 0x4A, 0x44, 0x52, 0x41, 0x3D, 0x3D]" by code_simp
  ultimately show ?thesis
    using base64_stream_encodes [OF valid_length(1) [OF std(2)], of "[[0x41], [], [0x42, 0x43, 0x44]]"] std(1)
    by (intro exI [of _ std]) (simp del: b64_pieces.simps)
qed

text \<open>
  WithPadding accepts negative characters other than NoPadding, which no byte of a text can equal: with \<open>-5\<close> the encoded
  text ends in bytes that decoding rejects.
\<close>

lemma WithPadding_negative:
  "\<exists>std e. StdEncoding = Some std \<and> WithPadding std (-5) = Some e \<and> \<not> valid_encoding e \<and> b64_EncodeToString e [0x41] = Some [0x51, 0x51, 0xFB, 0xFB]
    \<and> quantum_loop e [0x51, 0x51, 0xFB, 0xFB] 0 0 [0, 0, 0, 0] = Some (Early 3 (Some (CorruptInputError 2)))"
proof -
  obtain std where std: "StdEncoding = Some std" "valid_encoding std" using standard_encodings by blast
  have s: "std = the (NewEncoding encodeStd)" using std(1) by (simp add: StdEncoding_def)
  define e where "e = std\<lparr>padChar := -5\<rparr>"
  have "WithPadding std (-5) = Some e" unfolding e_def s by code_simp
  moreover have "b64_EncodeToString e [0x41] = Some [0x51, 0x51, 0xFB, 0xFB]" unfolding e_def s by code_simp
  moreover have "quantum_loop e [0x51, 0x51, 0xFB, 0xFB] 0 0 [0, 0, 0, 0] = Some (Early 3 (Some (CorruptInputError 2)))" unfolding e_def s by code_simp
  moreover have "\<not> valid_encoding e"
  proof
    assume "valid_encoding e"
    moreover have "padChar e \<noteq> NoPadding" by (simp add: e_def NoPadding_def)
    ultimately have "ucast (ucast (padChar e) :: byte) = padChar e" by (rule pad_byte(1))
    then show False by (simp add: e_def)
  qed
  ultimately show ?thesis using std(1) by blast
qed

end
