(* ===== verification/Io.thy ===== *)
theory Io
  imports Go_IO
begin

text \<open>
  \<^verbatim>\<open>io\<close>, io.go and multi.go: the functions over \<^verbatim>\<open>Reader\<close> and \<^verbatim>\<open>Writer\<close>, and the readers and writers that wrap others. A reader is
  a function of the buffer and its own state: the new contents of the buffer, the number of bytes read, the error and the new
  state, or \<^const>\<open>None\<close> where the call panics or does not return. The readers and writers of this package that are handed one
  own it: no other part of the program calls them.
\<close>

datatype 'e io_error = EOF | ErrUnexpectedEOF | ErrShortWrite | ErrShortBuffer | ErrInvalidWrite | ErrNoProgress | OtherError 'e

type_synonym ('r, 'e) reader = "byte list \<Rightarrow> 'r \<Rightarrow> (byte list \<times> int \<times> 'e io_error option \<times> 'r) option"

type_synonym ('w, 'e) io_writer = "('w, 'e io_error) writer"

text \<open>An operation on \<^verbatim>\<open>s[a:b]\<close> that writes through to \<^verbatim>\<open>s\<close>.\<close>

definition on_slice :: "'a list \<Rightarrow> int \<Rightarrow> int \<Rightarrow> ('a list \<Rightarrow> ('a list \<times> 'b) option) \<Rightarrow> ('a list \<times> 'b) option" where
  "on_slice s a b f = do { t \<leftarrow> slice_of s a b; (t, x) \<leftarrow> f t; Some (take (nat a) s @ t @ drop (nat b) s, x) }"

subsection \<open>Reading\<close>

partial_function (option) ReadAtLeast_loop ::
  "('r, 'e) reader \<Rightarrow> byte list \<Rightarrow> int \<Rightarrow> int \<Rightarrow> 'e io_error option \<Rightarrow> 'r \<Rightarrow> (byte list \<times> int \<times> 'e io_error option \<times> 'r) option" where
  "ReadAtLeast_loop Read buf mn n err r =
     (if n < mn \<and> err = None then
        do {
          (buf, nn, err, r) \<leftarrow> on_tail buf n (\<lambda>p. Read p r);
          ReadAtLeast_loop Read buf mn (n + nn) err r
        }
      else Some (buf, n, err, r))"

definition ReadAtLeast ::
  "('r, 'e) reader \<Rightarrow> byte list \<Rightarrow> int \<Rightarrow> 'r \<Rightarrow> (byte list \<times> int \<times> 'e io_error option \<times> 'r) option" where
  "ReadAtLeast Read buf mn r =
     (if int (length buf) < mn then Some (buf, 0, Some ErrShortBuffer, r)
      else do {
        (buf, n, err, r) \<leftarrow> ReadAtLeast_loop Read buf mn 0 None r;
        let err = (if n \<ge> mn then None else if n > 0 \<and> err = Some EOF then Some ErrUnexpectedEOF else err);
        Some (buf, n, err, r)
      })"

definition ReadFull :: "('r, 'e) reader \<Rightarrow> byte list \<Rightarrow> 'r \<Rightarrow> (byte list \<times> int \<times> 'e io_error option \<times> 'r) option" where
  "ReadFull Read buf r = ReadAtLeast Read buf (int (length buf)) r"

text \<open>
  \<^verbatim>\<open>ReadAll\<close>: \<open>b\<close> is the slice, \<open>spare\<close> the elements between its length and its capacity. How much capacity \<^verbatim>\<open>append\<close> adds to a
  slice of some length is the parameter \<open>grow\<close>.
\<close>

partial_function (option) ReadAll_loop ::
  "(nat \<Rightarrow> nat) \<Rightarrow> ('r, 'e) reader \<Rightarrow> byte list \<Rightarrow> byte list \<Rightarrow> 'r \<Rightarrow> (byte list \<times> 'e io_error option \<times> 'r) option" where
  "ReadAll_loop grow Read b spare r =
     do {
       let spare = (if spare = [] then replicate (grow (length b)) 0 else spare);
       (spare, n, err, r) \<leftarrow> Read spare r;
       new \<leftarrow> slice_of spare 0 n;
       spare \<leftarrow> from_index spare n;
       let b = b @ new;
       if err \<noteq> None then Some (b, if err = Some EOF then None else err, r) else ReadAll_loop grow Read b spare r
     }"

definition ReadAll :: "(nat \<Rightarrow> nat) \<Rightarrow> ('r, 'e) reader \<Rightarrow> 'r \<Rightarrow> (byte list \<times> 'e io_error option \<times> 'r) option" where
  "ReadAll grow Read r = ReadAll_loop grow Read [] (replicate 512 0) r"

subsection \<open>Copying\<close>

text \<open>The loop of \<^verbatim>\<open>copyBuffer\<close>; the number of bytes written is an \<^verbatim>\<open>int64\<close>.\<close>

partial_function (option) copyBuffer_loop ::
  "('r, 'e) reader \<Rightarrow> ('w, 'e) io_writer \<Rightarrow> byte list \<Rightarrow> int \<Rightarrow> 'r \<Rightarrow> 'w \<Rightarrow> (int \<times> 'e io_error option \<times> 'r \<times> 'w) option" where
  "copyBuffer_loop Read Write buf written r w =
     do {
       (buf, nr, er, r) \<leftarrow> Read buf r;
       (written, err, stop, w) \<leftarrow>
         (if nr > 0 then
            do {
              p \<leftarrow> slice_of buf 0 nr;
              let ((nw, ew), w) = Write p w;
              let (nw, ew) = (if nw < 0 \<or> nr < nw then (0, if ew = None then Some ErrInvalidWrite else ew) else (nw, ew));
              let written = int64 (written + nw);
              Some (if ew \<noteq> None then (written, ew, True, w)
                    else if nr \<noteq> nw then (written, Some ErrShortWrite, True, w)
                    else (written, None, False, w))
            }
          else Some (written, None, False, w));
       if stop then Some (written, err, r, w)
       else if er \<noteq> None then Some (written, if er \<noteq> Some EOF then er else None, r, w)
       else copyBuffer_loop Read Write buf written r w
     }"

text \<open>
  \<open>wt\<close> is the method \<^verbatim>\<open>WriteTo\<close> of the source and \<open>rf\<close> the method \<^verbatim>\<open>ReadFrom\<close> of the destination, where they have one; \<open>limit\<close> is the
  field \<^verbatim>\<open>N\<close> where the source is a \<^verbatim>\<open>LimitedReader\<close>. Without a buffer, one is made.
\<close>

type_synonym ('r, 'w, 'e) copier = "'r \<Rightarrow> 'w \<Rightarrow> (int \<times> 'e io_error option \<times> 'r \<times> 'w) option"

definition copyBuffer ::
  "('r, 'e) reader \<Rightarrow> ('w, 'e) io_writer \<Rightarrow> ('r, 'w, 'e) copier option \<Rightarrow> ('r, 'w, 'e) copier option \<Rightarrow> byte list option \<Rightarrow> int option \<Rightarrow> ('r, 'w, 'e) copier" where
  "copyBuffer Read Write wt rf buf limit r w =
     (case wt of
        Some WriteTo \<Rightarrow> WriteTo r w
      | None \<Rightarrow>
          (case rf of
             Some ReadFrom \<Rightarrow> ReadFrom r w
           | None \<Rightarrow>
               let buf = (case buf of
                            Some buf \<Rightarrow> buf
                          | None \<Rightarrow>
                              let size = 32 * 1024;
                                  size = (case limit of Some N \<Rightarrow> (if size > N then if N < 1 then 1 else N else size) | None \<Rightarrow> size)
                              in replicate (nat size) 0)
               in copyBuffer_loop Read Write buf 0 r w))"

definition io_Copy ::
  "('r, 'e) reader \<Rightarrow> ('w, 'e) io_writer \<Rightarrow> ('r, 'w, 'e) copier option \<Rightarrow> ('r, 'w, 'e) copier option \<Rightarrow> int option \<Rightarrow> ('r, 'w, 'e) copier" where
  "io_Copy Read Write wt rf limit r w = copyBuffer Read Write wt rf None limit r w"

definition CopyBuffer ::
  "('r, 'e) reader \<Rightarrow> ('w, 'e) io_writer \<Rightarrow> ('r, 'w, 'e) copier option \<Rightarrow> ('r, 'w, 'e) copier option \<Rightarrow> byte list option \<Rightarrow> int option \<Rightarrow> ('r, 'w, 'e) copier" where
  "CopyBuffer Read Write wt rf buf limit r w = (if buf = Some [] then None else copyBuffer Read Write wt rf buf limit r w)"

subsection \<open>Limited and section readers\<close>

record 'r LimitedReader =
  lr_R :: 'r
  lr_N :: int

definition LimitReader :: "'r \<Rightarrow> int \<Rightarrow> 'r LimitedReader" where
  "LimitReader r n = \<lparr>lr_R = r, lr_N = n\<rparr>"

definition LimitedReader_Read :: "('r, 'e) reader \<Rightarrow> ('r LimitedReader, 'e) reader" where
  "LimitedReader_Read Read p l =
     (if lr_N l \<le> 0 then Some (p, 0, Some EOF, l)
      else do {
        let k = (if int (length p) > lr_N l then lr_N l else int (length p));
        head \<leftarrow> slice_of p 0 k;
        (head, n, err, r) \<leftarrow> Read head (lr_R l);
        Some (head @ drop (nat k) p, n, err, \<lparr>lr_R = r, lr_N = int64 (lr_N l - n)\<rparr>)
      })"

text \<open>A \<^verbatim>\<open>LimitedReader\<close> has no \<^verbatim>\<open>WriteTo\<close>.\<close>

definition CopyN ::
  "('r, 'e) reader \<Rightarrow> ('w, 'e) io_writer \<Rightarrow> ('r LimitedReader, 'w, 'e) copier option \<Rightarrow> int \<Rightarrow> ('r, 'w, 'e) copier" where
  "CopyN Read Write rf n r w =
     do {
       (written, err, l, w) \<leftarrow> io_Copy (LimitedReader_Read Read) Write None rf (Some n) (LimitReader r n) w;
       if written = n then Some (n, None, lr_R l, w)
       else Some (written, if written < n \<and> err = None then Some EOF else err, lr_R l, w)
     }"

text \<open>An \<^verbatim>\<open>io.ReaderAt\<close> has no state that reading changes; it gives the new contents of the buffer, the count and the error.\<close>

type_synonym 'e reader_at = "byte list \<Rightarrow> int \<Rightarrow> byte list \<times> int \<times> 'e io_error option"

record SectionReader =
  sr_base :: int
  sr_off :: int
  sr_limit :: int

definition NewSectionReader :: "int \<Rightarrow> int \<Rightarrow> SectionReader" where
  "NewSectionReader off n = \<lparr>sr_base = off, sr_off = off, sr_limit = int64 (off + n)\<rparr>"

definition SectionReader_Read :: "'e reader_at \<Rightarrow> (SectionReader, 'e) reader" where
  "SectionReader_Read At p s =
     (if sr_off s \<ge> sr_limit s then Some (p, 0, Some EOF, s)
      else do {
        let mx = int64 (sr_limit s - sr_off s);
        let k = (if int (length p) > mx then mx else int (length p));
        head \<leftarrow> slice_of p 0 k;
        let (head, n, err) = At head (sr_off s);
        Some (head @ drop (nat k) p, n, err, s\<lparr>sr_off := int64 (sr_off s + n)\<rparr>)
      })"

datatype whence = SeekStart | SeekCurrent | SeekEnd | OtherWhence

datatype seek_error = ErrWhence | ErrOffset

definition SectionReader_Seek :: "int \<Rightarrow> whence \<Rightarrow> SectionReader \<Rightarrow> (int \<times> seek_error option) \<times> SectionReader" where
  "SectionReader_Seek offset whence s =
     (case (case whence of
              SeekStart \<Rightarrow> Some (int64 (offset + sr_base s))
            | SeekCurrent \<Rightarrow> Some (int64 (offset + sr_off s))
            | SeekEnd \<Rightarrow> Some (int64 (offset + sr_limit s))
            | OtherWhence \<Rightarrow> None) of
        None \<Rightarrow> ((0, Some ErrWhence), s)
      | Some offset \<Rightarrow>
          if offset < sr_base s then ((0, Some ErrOffset), s)
          else ((int64 (offset - sr_base s), None), s\<lparr>sr_off := offset\<rparr>))"

definition SectionReader_ReadAt :: "'e reader_at \<Rightarrow> SectionReader \<Rightarrow> byte list \<Rightarrow> int \<Rightarrow> (byte list \<times> int \<times> 'e io_error option) option" where
  "SectionReader_ReadAt At s p off =
     (if off < 0 \<or> off \<ge> int64 (sr_limit s - sr_base s) then Some (p, 0, Some EOF)
      else do {
        let off = int64 (off + sr_base s);
        let mx = int64 (sr_limit s - off);
        if int (length p) > mx then do {
          head \<leftarrow> slice_of p 0 mx;
          let (head, n, err) = At head off;
          Some (head @ drop (nat mx) p, n, if err = None then Some EOF else err)
        }
        else Some (At p off)
      })"

definition SectionReader_Size :: "SectionReader \<Rightarrow> int" where
  "SectionReader_Size s = int64 (sr_limit s - sr_base s)"

subsection \<open>Duplicating and discarding\<close>

definition teeReader_Read :: "('r, 'e) reader \<Rightarrow> ('w, 'e) io_writer \<Rightarrow> ('r \<times> 'w, 'e) reader" where
  "teeReader_Read Read Write p t =
     do {
       (p, n, err, r) \<leftarrow> Read p (fst t);
       if n > 0 then do {
         d \<leftarrow> slice_of p 0 n;
         let ((m, err'), w) = Write d (snd t);
         Some (if err' \<noteq> None then (p, m, err', (r, w)) else (p, n, err, (r, w)))
       }
       else Some (p, n, err, (r, snd t))
     }"

definition discard_Write :: "(unit, 'e) io_writer" where
  "discard_Write p w = ((int (length p), None), w)"

partial_function (option) discard_ReadFrom_loop ::
  "('r, 'e) reader \<Rightarrow> byte list \<Rightarrow> int \<Rightarrow> 'r \<Rightarrow> (int \<times> 'e io_error option \<times> 'r) option" where
  "discard_ReadFrom_loop Read buf n r =
     do {
       (buf, k, err, r) \<leftarrow> Read buf r;
       let n = int64 (n + k);
       if err \<noteq> None then Some (n, if err = Some EOF then None else err, r) else discard_ReadFrom_loop Read buf n r
     }"

text \<open>A buffer from the pool has 8192 bytes of any contents.\<close>

definition discard_ReadFrom :: "byte list \<Rightarrow> ('r, 'e) reader \<Rightarrow> 'r \<Rightarrow> (int \<times> 'e io_error option \<times> 'r) option" where
  "discard_ReadFrom pooled Read r = discard_ReadFrom_loop Read pooled 0 r"

subsection \<open>Several readers or writers\<close>

text \<open>
  The readers of a \<^verbatim>\<open>multiReader\<close>: others (with one function for all of them), multiReaders, or the \<^verbatim>\<open>eofReader\<close>. A nested
  one that is alone is flattened.
\<close>

datatype 'r mreader = Plain 'r | Multi "'r mreader list" | EofReader

definition MultiReader :: "'r mreader list \<Rightarrow> 'r mreader" where
  "MultiReader readers = Multi readers"

partial_function (option) multiReader_Read ::
  "('r, 'e) reader \<Rightarrow> byte list \<Rightarrow> 'r mreader \<Rightarrow> (byte list \<times> int \<times> 'e io_error option \<times> 'r mreader) option" where
  "multiReader_Read Read p mr =
     (case mr of
        Plain r \<Rightarrow> do { (p, n, err, r) \<leftarrow> Read p r; Some (p, n, err, Plain r) }
      | EofReader \<Rightarrow> Some (p, 0, Some EOF, EofReader)
      | Multi [] \<Rightarrow> Some (p, 0, Some EOF, Multi [])
      | Multi (r # rs) \<Rightarrow>
          if rs = [] \<and> (case r of Multi _ \<Rightarrow> True | _ \<Rightarrow> False) then multiReader_Read Read p r
          else do {
            (p, n, err, r) \<leftarrow> multiReader_Read Read p r;
            let rs' = (if err = Some EOF then rs else r # rs);
            if n > 0 \<or> err \<noteq> Some EOF then Some (p, n, if err = Some EOF \<and> rs' \<noteq> [] then None else err, Multi rs')
            else multiReader_Read Read p (Multi rs')
          })"

fun multiWriter_Write :: "('w, 'e) io_writer \<Rightarrow> byte list \<Rightarrow> 'w list \<Rightarrow> (int \<times> 'e io_error option) \<times> 'w list" where
  "multiWriter_Write Write p [] = ((int (length p), None), [])"
| "multiWriter_Write Write p (w # ws) =
     (let ((n, err), w) = Write p w
      in if err \<noteq> None then ((n, err), w # ws)
         else if n \<noteq> int (length p) then ((n, Some ErrShortWrite), w # ws)
         else let (res, ws) = multiWriter_Write Write p ws in (res, w # ws))"

declare ReadAtLeast_loop.simps [code] ReadAll_loop.simps [code] copyBuffer_loop.simps [code] discard_ReadFrom_loop.simps [code] multiReader_Read.simps [code]

end
