(* ===== verification/Io_Reader.thy ===== *)
theory Io_Reader
  imports Io
begin

text \<open>
  The contracts of \<^verbatim>\<open>io.Reader\<close> and \<^verbatim>\<open>io.Writer\<close> as locales. A reader has some bytes to deliver and then fails with EOF; what it
  returns with each call, and where it cuts the bytes, is left open, and so are calls that return no bytes and no error as long as
  there are only finitely many. A writer takes a prefix of what it is given, all of it unless it fails. The functions of \<^verbatim>\<open>io\<close>
  are correct for all such readers and writers, and its wrappers are such readers again.
\<close>

text \<open>What a call of Read does that delivers \<open>d\<close>, with the error and the new state.\<close>

definition delivers :: "('r, 'e) reader \<Rightarrow> byte list \<Rightarrow> 'r \<Rightarrow> byte list \<Rightarrow> 'e io_error option \<Rightarrow> 'r \<Rightarrow> bool" where
  "delivers Read p r d err r' \<longleftrightarrow>
     (\<exists>p'. Read p r = Some (p', int (length d), err, r') \<and> length p' = length p \<and> length d \<le> length p \<and> take (length d) p' = d)"

locale io_reader =
  fixes Read :: "('r, 'e) reader" and ok :: "'r \<Rightarrow> bool" and content :: "'r \<Rightarrow> byte list" and bound :: "'r \<Rightarrow> nat"
  assumes Read_delivers: "ok r \<Longrightarrow> \<exists>d err r'. delivers Read p r d err r' \<and> ok r' \<and> content r = d @ content r'
    \<and> (err = None \<and> (p \<noteq> [] \<longrightarrow> bound r' < bound r) \<or> err = Some EOF \<and> content r' = [] \<and> bound r' \<le> bound r)"

locale io_writer =
  fixes Write :: "('w, 'e) io_writer" and wok :: "'w \<Rightarrow> bool" and written :: "'w \<Rightarrow> byte list"
  assumes Write_prefix: "wok w \<Longrightarrow> \<exists>k err w'. Write p w = ((int k, err), w') \<and> wok w' \<and> k \<le> length p \<and> written w' = written w @ take k p
    \<and> (k < length p \<longrightarrow> err \<noteq> None)"

subsection \<open>Slices of the buffer\<close>

lemma deliversE:
  assumes "delivers Read p r d err r'"
  obtains t where "Read p r = Some (d @ t, int (length d), err, r')" "length d + length t = length p"
proof -
  obtain p' where p: "Read p r = Some (p', int (length d), err, r')" "length p' = length p" "length d \<le> length p" "take (length d) p' = d"
    using assms by (auto simp: delivers_def)
  have "p' = d @ drop (length d) p'" using p(4) append_take_drop_id [of "length d" p'] by simp
  moreover have "length d + length (drop (length d) p') = length p" using p(2,3) by simp
  ultimately show thesis using that p(1) by metis
qed

lemma deliversI: "Read p r = Some (d @ t, int (length d), err, r') \<Longrightarrow> length d + length t = length p \<Longrightarrow> delivers Read p r d err r'"
  by (auto simp: delivers_def)

lemma slice_of_prefix [simp]: "slice_of (d @ t) 0 (int (length d)) = Some d"
  by (simp add: slice_of_def)

lemma slice_of_take: "k \<le> length p \<Longrightarrow> slice_of p 0 (int k) = Some (take k p)"
  by (simp add: slice_of_def)

lemma from_index_append [simp]: "from_index (d @ t) (int (length d)) = Some t"
  by (simp add: from_index_def)

lemma on_tail_append: "Read q r = Some (q', x) \<Longrightarrow> on_tail (d @ q) (int (length d)) (\<lambda>p. Read p r) = Some (d @ q', x)"
  by (simp add: on_tail_def)

subsection \<open>Reading with a contract\<close>

context io_reader
begin

lemma Read_step:
  assumes "ok r"
  obtains d t err r' where "Read p r = Some (d @ t, int (length d), err, r')" "length d + length t = length p" "ok r'" "content r = d @ content r'"
    "err = None \<and> (p \<noteq> [] \<longrightarrow> bound r' < bound r) \<or> err = Some EOF \<and> content r' = [] \<and> bound r' \<le> bound r"
  using Read_delivers [OF assms, of p] deliversE by metis

lemma Read_cases:
  assumes "ok r"
  obtains (more) d t r' where "Read p r = Some (d @ t, int (length d), None, r')" "length d + length t = length p" "ok r'"
      "content r = d @ content r'" "p \<noteq> [] \<Longrightarrow> bound r' < bound r"
    | (eof) t r' where "Read p r = Some (content r @ t, int (length (content r)), Some EOF, r')" "length (content r) + length t = length p"
      "ok r'" "content r' = []"
proof -
  obtain d t err r' where d: "Read p r = Some (d @ t, int (length d), err, r')" "length d + length t = length p" "ok r'" "content r = d @ content r'"
    "err = None \<and> (p \<noteq> [] \<longrightarrow> bound r' < bound r) \<or> err = Some EOF \<and> content r' = [] \<and> bound r' \<le> bound r" using Read_step [OF assms] .
  show thesis
  proof (cases "err = None")
    case True
    then show ?thesis using more d by auto
  next
    case False
    then show ?thesis using eof d by auto
  qed
qed

lemma ReadAll_loop_ok:
  assumes "\<forall>n. 0 < grow n"
  shows "ok r \<Longrightarrow> \<exists>r'. ReadAll_loop grow Read b spare r = Some (b @ content r, None, r')"
proof (induction "bound r" arbitrary: b spare r rule: less_induct)
  case less
  define sp where "sp = (if spare = [] then replicate (grow (length b)) 0 else spare)"
  have ne: "sp \<noteq> []" using assms by (auto simp: sp_def)
  from \<open>ok r\<close> show ?case
  proof (cases rule: Read_cases [where p = sp])
    case (more d t r')
    then have "ReadAll_loop grow Read b spare r = ReadAll_loop grow Read (b @ d) t r'"
      by (subst ReadAll_loop.simps) (simp add: sp_def [symmetric])
    then show ?thesis using less.hyps [of r' "b @ d" t] more ne by simp
  next
    case (eof t r')
    then show ?thesis by (subst ReadAll_loop.simps) (simp add: sp_def [symmetric])
  qed
qed

lemma ReadAll_ok: "\<forall>n. 0 < grow n \<Longrightarrow> ok r \<Longrightarrow> \<exists>r'. ReadAll grow Read r = Some (content r, None, r')"
  using ReadAll_loop_ok [of grow r "[]"] by (simp add: ReadAll_def)

lemma discard_ReadFrom_loop_ok:
  "ok r \<Longrightarrow> buf \<noteq> [] \<Longrightarrow> n + length (content r) < 2 ^ 63 \<Longrightarrow>
    \<exists>r'. discard_ReadFrom_loop Read buf (int n) r = Some (int n + int (length (content r)), None, r')"
proof (induction "bound r" arbitrary: buf n r rule: less_induct)
  case less
  from \<open>ok r\<close> show ?case
  proof (cases rule: Read_cases [where p = buf])
    case (more d t r')
    then have "int64 (int n + int (length d)) = int (n + length d)" using less.prems(3) by (simp add: int64_id)
    then have "discard_ReadFrom_loop Read buf (int n) r = discard_ReadFrom_loop Read (d @ t) (int (n + length d)) r'"
      by (subst discard_ReadFrom_loop.simps) (simp add: more)
    moreover have "d @ t \<noteq> []" using more(2) less.prems(2) by auto
    ultimately show ?thesis using less.hyps [of r' "d @ t" "n + length d"] more less.prems by (auto simp: add.assoc)
  next
    case (eof t r')
    then show ?thesis using less.prems(3) by (subst discard_ReadFrom_loop.simps) (simp add: int64_id)
  qed
qed

text \<open>\<^verbatim>\<open>ReadAtLeast\<close> reads a prefix of at least \<open>mn\<close> bytes, or everything.\<close>

lemma ReadAtLeast_loop_ok:
  "ok r \<Longrightarrow> mn \<le> length (b @ q) \<Longrightarrow>
    \<exists>d t err r'. ReadAtLeast_loop Read (b @ q) (int mn) (int (length b)) None r = Some (b @ d @ t, int (length (b @ d)), err, r')
      \<and> length (d @ t) = length q \<and> ok r' \<and> content r = d @ content r'
      \<and> (mn \<le> length (b @ d) \<or> err = Some EOF \<and> content r' = [])"
proof (induction "bound r" arbitrary: b q r rule: less_induct)
  case less
  show ?case
  proof (cases "length b < mn")
    case False
    then have "ReadAtLeast_loop Read (b @ q) (int mn) (int (length b)) None r = Some (b @ [] @ q, int (length (b @ [])), None, r)"
      by (subst ReadAtLeast_loop.simps) simp
    then show ?thesis using False less.prems(1) by (intro exI [of _ "[]"] exI [of _ q] exI [of _ None] exI [of _ r]) simp
  next
    case True
    then have ne: "q \<noteq> []" using less.prems(2) by auto
    from \<open>ok r\<close> show ?thesis
    proof (cases rule: Read_cases [where p = q])
      case (more d t r')
      have step: "ReadAtLeast_loop Read (b @ q) (int mn) (int (length b)) None r
          = ReadAtLeast_loop Read ((b @ d) @ t) (int mn) (int (length (b @ d))) None r'"
        by (subst ReadAtLeast_loop.simps) (simp add: True on_tail_append [of Read, OF more(1)])
      have "mn \<le> length ((b @ d) @ t)" using less.prems(2) more(2) by simp
      then obtain d' t' err r'' where IH: "ReadAtLeast_loop Read ((b @ d) @ t) (int mn) (int (length (b @ d))) None r'
          = Some ((b @ d) @ d' @ t', int (length ((b @ d) @ d')), err, r'')" "length (d' @ t') = length t" "ok r''" "content r' = d' @ content r''"
        "mn \<le> length ((b @ d) @ d') \<or> err = Some EOF \<and> content r'' = []"
        using less.hyps [OF more(5) [OF ne] more(3), of "b @ d" t] by blast
      show ?thesis unfolding step
        by (intro exI [of _ "d @ d'"] exI [of _ t'] exI [of _ err] exI [of _ r'']) (use IH more(2,4) in auto)
    next
      case (eof t r')
      have "ReadAtLeast_loop Read (b @ q) (int mn) (int (length b)) None r = Some (b @ content r @ t, int (length (b @ content r)), Some EOF, r')"
        by (subst ReadAtLeast_loop.simps) (simp add: True on_tail_append [of Read, OF eof(1)] ReadAtLeast_loop.simps)
      then show ?thesis using eof(2-4) by (intro exI [of _ "content r"] exI [of _ t] exI [of _ "Some EOF"] exI [of _ r']) simp
    qed
  qed
qed

lemma ReadAtLeast_ok:
  assumes "ok r" "mn \<le> length buf"
  shows "\<exists>d t err r'. ReadAtLeast Read buf (int mn) r = Some (d @ t, int (length d), err, r') \<and> length (d @ t) = length buf
    \<and> ok r' \<and> content r = d @ content r'
    \<and> (if mn \<le> length d then err = None else content r' = [] \<and> err = Some (if d = [] then EOF else ErrUnexpectedEOF))"
proof -
  obtain d t err r' where l: "ReadAtLeast_loop Read buf (int mn) 0 None r = Some (d @ t, int (length d), err, r')" "length (d @ t) = length buf"
    "ok r'" "content r = d @ content r'" "mn \<le> length d \<or> err = Some EOF \<and> content r' = []"
    using ReadAtLeast_loop_ok [OF assms(1), of mn "[]" buf] assms(2) by auto
  define err' where "err' = (if mn \<le> length d then None else if d \<noteq> [] then Some ErrUnexpectedEOF else err)"
  have "ReadAtLeast Read buf (int mn) r = Some (d @ t, int (length d), err', r')"
    using assms(2) l(1,5) by (auto simp: ReadAtLeast_def err'_def)
  then show ?thesis using l(2-5) by (intro exI [of _ d] exI [of _ t] exI [of _ err'] exI [of _ r']) (auto simp: err'_def)
qed

lemma ReadFull_ok:
  assumes "ok r" "length buf \<le> length (content r)"
  shows "\<exists>r'. ReadFull Read buf r = Some (take (length buf) (content r), int (length buf), None, r') \<and> content r' = drop (length buf) (content r) \<and> ok r'"
proof -
  obtain d t err r' where d: "ReadAtLeast Read buf (int (length buf)) r = Some (d @ t, int (length d), err, r')" "length (d @ t) = length buf"
    "ok r'" "content r = d @ content r'" "if length buf \<le> length d then err = None else content r' = [] \<and> err = Some (if d = [] then EOF else ErrUnexpectedEOF)"
    using ReadAtLeast_ok [OF assms(1) order_refl, of buf] by blast
  have l: "length buf = length d" using d(2,4,5) assms(2) by (auto split: if_splits)
  then have "t = []" using d(2) by simp
  then show ?thesis using d l by (auto simp: ReadFull_def)
qed

end

end
