(* ===== verification/Io_Copy.thy ===== *)
theory Io_Copy
  imports Io_Reader
begin

text \<open>
  Copying between a reader and a writer that keep their contracts, and the readers that wrap one: each wrapper keeps the contract of
  \<^verbatim>\<open>io.Reader\<close> when the reader it wraps does, so wrappers compose.
\<close>

subsection \<open>Copying\<close>

text \<open>
  An error with which a copy ends comes from the writer: it is what a call of Write has returned for bytes that were next to be
  written, and no call came after it. \<open>rest\<close> are the bytes behind those of that call.
\<close>

definition write_failed :: "('w, 'e) io_writer \<Rightarrow> ('w \<Rightarrow> bool) \<Rightarrow> ('w \<Rightarrow> byte list) \<Rightarrow> byte list \<Rightarrow> 'e io_error \<Rightarrow> 'w \<Rightarrow> bool" where
  "write_failed Write wok written goal err w' \<longleftrightarrow>
     (\<exists>p w k rest. wok w \<and> Write p w = ((k, Some err), w') \<and> written w @ p @ rest = goal)"

text \<open>
  However the copy ends, the writer has got a prefix of what was taken from the reader and the count is its length; without an error
  it has got everything there was, and an error is one of the writer.
\<close>

definition copied ::
  "('w, 'e) io_writer \<Rightarrow> ('r \<Rightarrow> bool) \<Rightarrow> ('r \<Rightarrow> byte list) \<Rightarrow> ('w \<Rightarrow> bool) \<Rightarrow> ('w \<Rightarrow> byte list) \<Rightarrow> int \<Rightarrow> 'r \<Rightarrow> 'w \<Rightarrow> int \<times> 'e io_error option \<times> 'r \<times> 'w \<Rightarrow> bool" where
  "copied Write ok content wok written n r w res \<longleftrightarrow> (case res of (m, err, r', w') \<Rightarrow>
     \<exists>d k. content r = d @ content r' \<and> k \<le> length d \<and> m = n + int k \<and> written w' = written w @ take k d \<and> ok r' \<and> wok w' \<and>
       (case err of None \<Rightarrow> k = length d \<and> content r' = [] | Some e \<Rightarrow> write_failed Write wok written (written w @ content r) e w'))"

lemma write_failedI: "wok w \<Longrightarrow> Write p w = ((k, Some err), w') \<Longrightarrow> goal = written w @ p @ rest \<Longrightarrow> write_failed Write wok written goal err w'"
  by (auto simp: write_failed_def)

text \<open>A method that copies, \<^verbatim>\<open>WriteTo\<close> or \<^verbatim>\<open>ReadFrom\<close>, is correct when its result is of this kind.\<close>

definition copies :: "('w, 'e) io_writer \<Rightarrow> ('r \<Rightarrow> bool) \<Rightarrow> ('r \<Rightarrow> byte list) \<Rightarrow> ('w \<Rightarrow> bool) \<Rightarrow> ('w \<Rightarrow> byte list) \<Rightarrow> ('r, 'w, 'e) copier \<Rightarrow> bool" where
  "copies Write ok content wok written f \<longleftrightarrow>
     (\<forall>r w. ok r \<longrightarrow> wok w \<longrightarrow> length (content r) < 2 ^ 63 \<longrightarrow> (\<exists>res. f r w = Some res \<and> copied Write ok content wok written 0 r w res))"

locale io_copy = io_reader Read ok content bound + io_writer Write wok written
  for Read :: "('r, 'e) reader" and ok content bound and Write :: "('w, 'e) io_writer" and wok written
begin

lemma Write_cases:
  assumes "wok w"
  obtains k err w' where "Write p w = ((int k, err), w')" "wok w'" "k \<le> length p" "written w' = written w @ take k p" "k < length p \<Longrightarrow> err \<noteq> None"
  using Write_prefix [OF assms, of p] by blast

lemma copied_more:
  assumes "copied Write ok content wok written (n + int (length d)) r' w' res" "content r = d @ content r'" "written w' = written w @ d"
  shows "copied Write ok content wok written n r w res"
proof -
  obtain m err r'' w'' d' k where res: "res = (m, err, r'', w'')" "content r' = d' @ content r''" "k \<le> length d'" "m = n + int (length d) + int k"
    "written w'' = written w' @ take k d'" "ok r''" "wok w''"
    "case err of None \<Rightarrow> k = length d' \<and> content r'' = [] | Some e \<Rightarrow> write_failed Write wok written (written w' @ content r') e w''"
    using assms(1) by (auto simp: copied_def)
  moreover have "written w @ content r = written w' @ content r'" using assms(2,3) by simp
  ultimately show ?thesis unfolding copied_def using assms(2,3)
    by (auto intro!: exI [of _ "d @ d'"] exI [of _ "length d + k"] split: option.splits)
qed

text \<open>One round of the loop: what is left to do after the call of Read with the bytes \<open>d\<close>.\<close>

lemma copy_round:
  assumes r: "Read buf r = Some (d @ t, int (length d), er, r')" and w: "wok w"
    and bound: "0 \<le> n" "n + int (length d) < 2 ^ 63"
  obtains w' where "wok w'" "written w' = written w @ d"
      "copyBuffer_loop Read Write buf n r w = (if er \<noteq> None then Some (n + int (length d), if er \<noteq> Some EOF then er else None, r', w')
         else copyBuffer_loop Read Write (d @ t) (n + int (length d)) r' w')"
    | k err w' where "wok w'" "k \<le> length d" "written w' = written w @ take k d" "Write d w = ((int k, Some err), w')"
      "copyBuffer_loop Read Write buf n r w = Some (n + int k, Some err, r', w')"
proof (cases "d = []")
  case True
  show thesis by (rule that(1) [OF w]) (use True r in \<open>simp_all add: copyBuffer_loop.simps [of Read Write buf]\<close>)
next
  case False
  obtain k err w' where k: "Write d w = ((int k, err), w')" "wok w'" "k \<le> length d" "written w' = written w @ take k d" "k < length d \<Longrightarrow> err \<noteq> None"
    using Write_cases [OF w, of d] by blast
  have i: "int64 (n + int k) = n + int k" using bound k(3) by (simp add: int64_id)
  show thesis
  proof (cases err)
    case None
    then have "k = length d" using k(3,5) by (cases "k = length d") auto
    then show ?thesis using that(1) [OF k(2)] k(4) False r i None
      by (simp add: copyBuffer_loop.simps [of Read Write buf] k(1) Let_def)
  next
    case (Some e)
    then show ?thesis using that(2) [OF k(2,3,4)] False r i k(1,3)
      by (simp add: copyBuffer_loop.simps [of Read Write buf] Let_def)
  qed
qed

lemma copyBuffer_loop_ok:
  "ok r \<Longrightarrow> wok w \<Longrightarrow> buf \<noteq> [] \<Longrightarrow> 0 \<le> n \<Longrightarrow> n + int (length (content r)) < 2 ^ 63 \<Longrightarrow>
    \<exists>res. copyBuffer_loop Read Write buf n r w = Some res \<and> copied Write ok content wok written n r w res"
proof (induction "bound r" arbitrary: buf n r w rule: less_induct)
  case less
  from \<open>ok r\<close> show ?case
  proof (cases rule: Read_cases [where p = buf])
    case (more d t r')
    have b: "0 \<le> n" "n + int (length d) < 2 ^ 63" using less.prems more(4) by simp_all
    show ?thesis
    proof (rule copy_round [OF more(1) less.prems(2) b])
      fix w' assume w': "wok w'" "written w' = written w @ d"
        "copyBuffer_loop Read Write buf n r w = (if None \<noteq> (None :: 'e io_error option) then Some (n + int (length d), if None \<noteq> Some EOF then None else None, r', w')
         else copyBuffer_loop Read Write (d @ t) (n + int (length d)) r' w')"
      have "d @ t \<noteq> []" using more(2) less.prems(3) by auto
      from less.hyps [OF more(5) [OF less.prems(3)] more(3) w'(1) this, of "n + int (length d)"]
      obtain res where res: "copyBuffer_loop Read Write (d @ t) (n + int (length d)) r' w' = Some res" "copied Write ok content wok written (n + int (length d)) r' w' res"
        using less.prems(4,5) more(4) by (auto simp: add.assoc)
      have "copied Write ok content wok written n r w res" by (rule copied_more [OF res(2) more(4) w'(2)])
      then show ?thesis using w'(3) res(1) by simp
    next
      fix k err w' assume f: "wok w'" "k \<le> length d" "written w' = written w @ take k d" "Write d w = ((int k, Some err), w')"
        "copyBuffer_loop Read Write buf n r w = Some (n + int k, Some err, r', w')"
      have "write_failed Write wok written (written w @ content r) err w'" using f(4) less.prems(2) more(4) by (auto intro: write_failedI)
      then show ?thesis using f more(3,4) by (auto simp: copied_def)
    qed
  next
    case (eof t r')
    have b: "0 \<le> n" "n + int (length (content r)) < 2 ^ 63" using less.prems by simp_all
    have wf: "write_failed Write wok written (written w @ content r) err w'" if "Write (content r) w = ((int k, Some err), w')" for k err w'
      using that less.prems(2) by (auto intro: write_failedI)
    show ?thesis
      by (rule copy_round [OF eof(1) less.prems(2) b]) (use eof(3,4) wf in \<open>auto simp: copied_def\<close>)
  qed
qed

lemma copyBuffer_ok:
  assumes "ok r" "wok w" "buf \<noteq> Some []" "length (content r) < 2 ^ 63" "\<forall>f. wt = Some f \<or> rf = Some f \<longrightarrow> copies Write ok content wok written f"
  shows "\<exists>res. copyBuffer Read Write wt rf buf limit r w = Some res \<and> copied Write ok content wok written 0 r w res"
proof (cases "wt = None \<and> rf = None")
  case True
  show ?thesis unfolding copyBuffer_def Let_def conjunct1 [OF True] conjunct2 [OF True] option.case
    by (rule copyBuffer_loop_ok [OF assms(1,2)]) (use assms(3,4) in \<open>auto split: option.splits if_splits\<close>)
next
  case False
  then show ?thesis using assms(1,2,4,5) by (cases wt; cases rf) (auto simp: copyBuffer_def copies_def)
qed

end

subsection \<open>Limited readers\<close>

text \<open>The invariant remembers the limit \<open>N\<close> and the bytes \<open>C\<close> of the wrapped reader at the start.\<close>

definition limited_inv :: "('r \<Rightarrow> bool) \<Rightarrow> ('r \<Rightarrow> byte list) \<Rightarrow> byte list \<Rightarrow> int \<Rightarrow> 'r LimitedReader \<Rightarrow> bool" where
  "limited_inv ok content C N l \<longleftrightarrow> ok (lr_R l) \<and> lr_N l < 2 ^ 63 \<and>
     (\<exists>d. C = d @ content (lr_R l) \<and> int (length d) = N - lr_N l \<and> (0 \<le> N \<longrightarrow> 0 \<le> lr_N l))"

definition limited_content :: "('r \<Rightarrow> byte list) \<Rightarrow> 'r LimitedReader \<Rightarrow> byte list" where
  "limited_content content l = take (nat (lr_N l)) (content (lr_R l))"

lemma take_append_exact: "n = length d + m \<Longrightarrow> take n (d @ xs) = d @ take m xs"
  by simp

lemma io_reader_limited:
  assumes rd: "io_reader Read ok content bound"
  shows "io_reader (LimitedReader_Read Read) (limited_inv ok content C N) (limited_content content) (bound \<circ> lr_R)"
proof
  fix p l assume l: "limited_inv ok content C N l"
  show "\<exists>d err l'. delivers (LimitedReader_Read Read) p l d err l' \<and> limited_inv ok content C N l' \<and> limited_content content l = d @ limited_content content l'
    \<and> (err = None \<and> (p \<noteq> [] \<longrightarrow> (bound \<circ> lr_R) l' < (bound \<circ> lr_R) l) \<or> err = Some EOF \<and> limited_content content l' = [] \<and> (bound \<circ> lr_R) l' \<le> (bound \<circ> lr_R) l)"
  proof (cases "lr_N l \<le> 0")
    case True
    then show ?thesis using l
      by (intro exI [of _ "[]"] exI [of _ "Some EOF"] exI [of _ l]) (simp add: delivers_def LimitedReader_Read_def limited_content_def)
  next
    case False
    define k where "k = min (length p) (nat (lr_N l))"
    have k: "(if int (length p) > lr_N l then lr_N l else int (length p)) = int k" using False by (auto simp: k_def min_def)
    have kl: "k \<le> length p" "int k \<le> lr_N l" using False by (auto simp: k_def)
    have "ok (lr_R l)" using l by (simp add: limited_inv_def)
    then obtain d t err r' where t: "Read (take k p) (lr_R l) = Some (d @ t, int (length d), err, r')" "length d + length t = length (take k p)"
      and d: "ok r'" "content (lr_R l) = d @ content r'"
        "err = None \<and> (take k p \<noteq> [] \<longrightarrow> bound r' < bound (lr_R l)) \<or> err = Some EOF \<and> content r' = [] \<and> bound r' \<le> bound (lr_R l)"
      using io_reader.Read_step [OF rd] by metis
    have N: "int64 (lr_N l - int (length d)) = lr_N l - int (length d)" "0 \<le> lr_N l - int (length d)"
      using l t(2) kl(2) False by (simp_all add: int64_id limited_inv_def)
    define l' where "l' = \<lparr>lr_R = r', lr_N = lr_N l - int (length d)\<rparr>"
    have "LimitedReader_Read Read p l = Some (d @ t @ drop k p, int (length d), err, l')"
      using False kl(1) t(1) by (simp add: LimitedReader_Read_def Let_def k slice_of_take N(1) l'_def)
    moreover have "length d + length (t @ drop k p) = length p" using t(2) kl(1) by simp
    ultimately have dl: "delivers (LimitedReader_Read Read) p l d err l'" by (rule deliversI)
    have "limited_inv ok content C N l'" using l d(1,2) N(2) by (auto simp: limited_inv_def l'_def)
    moreover have "limited_content content l = d @ limited_content content l'"
      unfolding limited_content_def d(2) l'_def LimitedReader.simps by (rule take_append_exact) (use N(2) in simp)
    moreover have "p \<noteq> [] \<longrightarrow> take k p \<noteq> []" using False by (auto simp: k_def)
    ultimately show ?thesis using dl d(3) by (intro exI [of _ d] exI [of _ err] exI [of _ l']) (auto simp: limited_content_def l'_def)
  qed
qed

text \<open>What was taken from the limited reader was taken from the reader in it.\<close>

lemma limited_taken:
  assumes "limited_inv ok content C (int n) l" "take n C = d @ limited_content content l"
  shows "C = d @ content (lr_R l)" "length d \<le> n"
proof -
  obtain e where e: "C = e @ content (lr_R l)" "int (length e) = int n - lr_N l" "0 \<le> lr_N l" using assms(1) by (auto simp: limited_inv_def)
  define k where "k = nat (lr_N l)"
  have n: "n = length e + k" using e(2,3) by (simp add: k_def)
  have "e @ take k (content (lr_R l)) = d @ take k (content (lr_R l))"
    using assms(2) unfolding limited_content_def e(1) k_def [symmetric] n by simp
  then have "e = d" by simp
  then show "C = d @ content (lr_R l)" "length d \<le> n" using e(1) n by simp_all
qed

lemma limited_start: "ok r \<Longrightarrow> n < 2 ^ 63 \<Longrightarrow> limited_inv ok content (content r) n (LimitReader r n)"
  by (simp add: limited_inv_def LimitReader_def)

subsection \<open>Duplicating readers\<close>

locale total_writer = io_writer +
  assumes Write_total: "wok w \<Longrightarrow> snd (fst (Write p w)) = None"
begin

lemma Write_all:
  assumes "wok w"
  shows "\<exists>w'. Write p w = ((int (length p), None), w') \<and> wok w' \<and> written w' = written w @ p"
proof -
  obtain k err w' where k: "Write p w = ((int k, err), w')" "wok w'" "k \<le> length p" "written w' = written w @ take k p" "k < length p \<longrightarrow> err \<noteq> None"
    using Write_prefix [OF assms, of p] by blast
  have "err = None" using Write_total [OF assms, of p] k(1) by simp
  then have "k = length p" using k(3,5) by auto
  then show ?thesis using k \<open>err = None\<close> by simp
qed

lemma not_write_failed: "\<not> write_failed Write wok written goal err w'"
proof
  assume "write_failed Write wok written goal err w'"
  then obtain p w k where "wok w" "Write p w = ((k, Some err), w')" by (auto simp: write_failed_def)
  then show False using Write_total [of w p] by simp
qed

lemma multiWriter_Write_all:
  "\<forall>w \<in> set ws. wok w \<Longrightarrow> \<exists>ws'. multiWriter_Write Write p ws = ((int (length p), None), ws') \<and> (\<forall>w \<in> set ws'. wok w)
    \<and> map written ws' = map (\<lambda>w. written w @ p) ws"
proof (induction ws)
  case (Cons w ws)
  obtain w' where "Write p w = ((int (length p), None), w')" "wok w'" "written w' = written w @ p" using Write_all Cons.prems by (meson list.set_intros(1))
  then show ?case using Cons by (auto simp: Let_def)
qed simp

end

text \<open>The invariant of a tee: the writer has got what was read, \<open>C\<close> being all there was to read and \<open>W\<close> what was written before.\<close>

definition tee_inv :: "('r \<Rightarrow> bool) \<Rightarrow> ('r \<Rightarrow> byte list) \<Rightarrow> ('w \<Rightarrow> bool) \<Rightarrow> ('w \<Rightarrow> byte list) \<Rightarrow> byte list \<Rightarrow> byte list \<Rightarrow> 'r \<times> 'w \<Rightarrow> bool" where
  "tee_inv ok content wok written C W t \<longleftrightarrow> ok (fst t) \<and> wok (snd t) \<and> (\<exists>d. C = d @ content (fst t) \<and> written (snd t) = W @ d)"

lemma io_reader_tee:
  assumes rd: "io_reader Read ok content bound" and wr: "total_writer Write wok written"
  shows "io_reader (teeReader_Read Read Write) (tee_inv ok content wok written C W) (content \<circ> fst) (bound \<circ> fst)"
proof
  fix p t assume t: "tee_inv ok content wok written C W t"
  have "ok (fst t)" using t by (simp add: tee_inv_def)
  then obtain d s err r' where s: "Read p (fst t) = Some (d @ s, int (length d), err, r')" "length d + length s = length p"
    and d: "ok r'" "content (fst t) = d @ content r'" "err = None \<and> (p \<noteq> [] \<longrightarrow> bound r' < bound (fst t)) \<or> err = Some EOF \<and> content r' = [] \<and> bound r' \<le> bound (fst t)"
    using io_reader.Read_step [OF rd] by metis
  obtain w' where w': "d \<noteq> [] \<Longrightarrow> Write d (snd t) = ((int (length d), None), w')" "d = [] \<Longrightarrow> w' = snd t" "wok w'" "written w' = written (snd t) @ d"
  proof (cases "d = []")
    case True
    then show ?thesis using t that [of "snd t"] by (auto simp: tee_inv_def)
  next
    case False
    then show ?thesis using total_writer.Write_all [OF wr, of "snd t" d] t that by (auto simp: tee_inv_def)
  qed
  have "teeReader_Read Read Write p t = Some (d @ s, int (length d), err, (r', w'))" using s(1) w'(1,2) by (cases "d = []") (simp_all add: teeReader_Read_def)
  then have "delivers (teeReader_Read Read Write) p t d err (r', w')" using s(2) by (rule deliversI)
  moreover have "tee_inv ok content wok written C W (r', w')" using t d(1,2) w'(3,4) by (auto simp: tee_inv_def)
  ultimately show "\<exists>d err t'. delivers (teeReader_Read Read Write) p t d err t' \<and> tee_inv ok content wok written C W t' \<and> (content \<circ> fst) t = d @ (content \<circ> fst) t'
    \<and> (err = None \<and> (p \<noteq> [] \<longrightarrow> (bound \<circ> fst) t' < (bound \<circ> fst) t) \<or> err = Some EOF \<and> (content \<circ> fst) t' = [] \<and> (bound \<circ> fst) t' \<le> (bound \<circ> fst) t)"
    using d(2,3) by (intro exI [of _ d] exI [of _ err] exI [of _ "(r', w')"]) simp
qed

subsection \<open>Concatenated readers\<close>

primrec mr_content :: "('r \<Rightarrow> byte list) \<Rightarrow> 'r mreader \<Rightarrow> byte list" where
  "mr_content content (Plain r) = content r"
| "mr_content content (Multi rs) = concat (map (mr_content content) rs)"
| "mr_content content EofReader = []"

primrec mr_bound :: "('r \<Rightarrow> nat) \<Rightarrow> 'r mreader \<Rightarrow> nat" where
  "mr_bound bound (Plain r) = bound r"
| "mr_bound bound (Multi rs) = sum_list (map (Suc \<circ> mr_bound bound) rs)"
| "mr_bound bound EofReader = 0"

abbreviation mr_inv :: "('r \<Rightarrow> bool) \<Rightarrow> 'r mreader \<Rightarrow> bool" where
  "mr_inv ok \<equiv> pred_mreader ok"

definition mr_result :: "('r \<Rightarrow> bool) \<Rightarrow> ('r \<Rightarrow> byte list) \<Rightarrow> ('r \<Rightarrow> nat) \<Rightarrow> byte list \<Rightarrow> 'r mreader \<Rightarrow> (byte list \<times> int \<times> 'e io_error option \<times> 'r mreader) option \<Rightarrow> bool" where
  "mr_result ok content bound p m res \<longleftrightarrow>
     (\<exists>d t err m'. res = Some (d @ t, int (length d), err, m') \<and> length d + length t = length p \<and> mr_inv ok m' \<and> mr_content content m = d @ mr_content content m'
        \<and> (err = None \<and> (p \<noteq> [] \<longrightarrow> mr_bound bound m' < mr_bound bound m) \<or> err = Some EOF \<and> mr_content content m' = [] \<and> mr_bound bound m' \<le> mr_bound bound m))"

lemma mr_resultI:
  assumes "res = Some (d @ t, int (length d), err, m')" "length d + length t = length p" "mr_inv ok m'" "mr_content content m = d @ mr_content content m'"
    "err = None \<and> (p \<noteq> [] \<longrightarrow> mr_bound bound m' < mr_bound bound m) \<or> err = Some EOF \<and> mr_content content m' = [] \<and> mr_bound bound m' \<le> mr_bound bound m"
  shows "mr_result ok content bound p m res"
  using assms by (auto simp: mr_result_def)

lemma mr_result_mono:
  assumes "mr_result ok content bound p m res" "length p = length q" "mr_content content m' = mr_content content m" "mr_bound bound m \<le> mr_bound bound m'"
  shows "mr_result ok content bound q m' res"
proof -
  have "p \<noteq> [] \<longleftrightarrow> q \<noteq> []" using assms(2) by auto
  then show ?thesis using assms unfolding mr_result_def by fastforce
qed

lemma multiReader_Read_ok:
  assumes rd: "io_reader Read ok content bound"
  shows "mr_inv ok m \<Longrightarrow> mr_result ok content bound p m (multiReader_Read Read p m)"
proof (induction "mr_bound bound m + size m" arbitrary: m p rule: less_induct)
  case less
  show ?case
  proof (cases m)
    case (Plain r)
    then have "ok r" using less.prems by simp
    then obtain d t err r' where t: "Read p r = Some (d @ t, int (length d), err, r')" "length d + length t = length p"
      and d: "ok r'" "content r = d @ content r'" "err = None \<and> (p \<noteq> [] \<longrightarrow> bound r' < bound r) \<or> err = Some EOF \<and> content r' = [] \<and> bound r' \<le> bound r"
      using io_reader.Read_step [OF rd] by metis
    show ?thesis by (rule mr_resultI [of _ d t err "Plain r'"]) (use Plain d t in \<open>simp_all add: multiReader_Read.simps\<close>)
  next
    case EofReader
    show ?thesis by (rule mr_resultI [of _ "[]" p "Some EOF" m]) (use EofReader in \<open>simp_all add: multiReader_Read.simps\<close>)
  next
    case (Multi ms)
    show ?thesis
    proof (cases ms)
      case Nil
      show ?thesis by (rule mr_resultI [of _ "[]" p "Some EOF" m]) (use Multi Nil in \<open>simp_all add: multiReader_Read.simps\<close>)
    next
      case (Cons r rs)
      have oks: "mr_inv ok r" "list_all (mr_inv ok) rs" using less.prems Multi Cons by simp_all
      have sub: "mr_result ok content bound q r (multiReader_Read Read q r)" for q
        using less.hyps [of r q] oks(1) Multi Cons by simp
      show ?thesis
      proof (cases "rs = [] \<and> (case r of Multi _ \<Rightarrow> True | _ \<Rightarrow> False)")
        case True
        then have "multiReader_Read Read p m = multiReader_Read Read p r" unfolding Multi Cons by (subst multiReader_Read.simps) simp
        then show ?thesis using mr_result_mono [OF sub [of p], of p m] True Multi Cons by simp
      next
        case False
        obtain d t err r' where s: "multiReader_Read Read p r = Some (d @ t, int (length d), err, r')" "length d + length t = length p" "mr_inv ok r'"
          "mr_content content r = d @ mr_content content r'"
          "err = None \<and> (p \<noteq> [] \<longrightarrow> mr_bound bound r' < mr_bound bound r) \<or> err = Some EOF \<and> mr_content content r' = [] \<and> mr_bound bound r' \<le> mr_bound bound r"
          using sub [of p] by (auto simp: mr_result_def)
        have step: "multiReader_Read Read p m =
            (let rs' = (if err = Some EOF then rs else r' # rs)
             in if 0 < length d \<or> err \<noteq> Some EOF then Some (d @ t, int (length d), if err = Some EOF \<and> rs' \<noteq> [] then None else err, Multi rs')
                else multiReader_Read Read (d @ t) (Multi rs'))"
          unfolding Multi Cons by (subst multiReader_Read.simps) (use False s(1) in \<open>auto simp: Let_def\<close>)
        show ?thesis
        proof (cases "err = Some EOF")
          case False
          show ?thesis by (rule mr_resultI [of _ d t None "Multi (r' # rs)"]) (use False s(2-5) step oks Multi Cons in auto)
        next
          case eof: True
          show ?thesis
          proof (cases "d = []")
            case False
            show ?thesis by (rule mr_resultI [of _ d t "if rs \<noteq> [] then None else Some EOF" "Multi rs"]) (use False eof s(2-5) step oks Multi Cons in auto)
          next
            case True
            have "mr_result ok content bound t (Multi rs) (multiReader_Read Read t (Multi rs))" using less.hyps [of "Multi rs" t] oks(2) Multi Cons by simp
            moreover have "multiReader_Read Read p m = multiReader_Read Read t (Multi rs)" using step True eof by simp
            ultimately show ?thesis using mr_result_mono [of ok content bound t "Multi rs" _ p m] s(2,4,5) True eof Multi Cons by simp
          qed
        qed
      qed
    qed
  qed
qed

lemma io_reader_multi:
  assumes "io_reader Read ok content bound"
  shows "io_reader (\<lambda>p. multiReader_Read Read p) (mr_inv ok) (mr_content content) (mr_bound bound)"
proof
  fix p m assume "mr_inv ok m"
  from multiReader_Read_ok [OF assms this, of p]
  show "\<exists>d err m'. delivers (\<lambda>p. multiReader_Read Read p) p m d err m' \<and> mr_inv ok m' \<and> mr_content content m = d @ mr_content content m'
    \<and> (err = None \<and> (p \<noteq> [] \<longrightarrow> mr_bound bound m' < mr_bound bound m) \<or> err = Some EOF \<and> mr_content content m' = [] \<and> mr_bound bound m' \<le> mr_bound bound m)"
    unfolding mr_result_def by (blast intro: deliversI)
qed

end
