(* ===== verification/Io_Section.thy ===== *)
theory Io_Section
  imports Io_Copy
begin

text \<open>
  The contract of \<^verbatim>\<open>io.ReaderAt\<close>, and sections: a section of such a reader is a reader of the bytes between its bounds, and its
  \<^verbatim>\<open>ReadAt\<close> keeps the contract again, so sections of sections are covered.
\<close>

locale io_reader_at =
  fixes At :: "'e reader_at" and data :: "byte list"
  assumes At_reads: "0 \<le> off \<Longrightarrow> d = take (length p) (drop (nat off) data) \<Longrightarrow>
    \<exists>t err. At p off = (d @ t, int (length d), err) \<and> length d + length t = length p \<and> (err = None \<longrightarrow> length d = length p)
      \<and> (err \<noteq> None \<longrightarrow> err = Some EOF \<and> int (length data) \<le> off + int (length d))"

definition sec_ok :: "SectionReader \<Rightarrow> bool" where
  "sec_ok s \<longleftrightarrow> 0 \<le> sr_base s \<and> sr_base s \<le> sr_off s \<and> sr_off s < 2 ^ 63 \<and> sr_base s \<le> sr_limit s \<and> sr_limit s < 2 ^ 63"

definition section_of :: "byte list \<Rightarrow> int \<Rightarrow> int \<Rightarrow> byte list" where
  "section_of data a b = take (nat (b - a)) (drop (nat a) data)"

definition sec_content :: "byte list \<Rightarrow> SectionReader \<Rightarrow> byte list" where
  "sec_content data s = section_of data (sr_off s) (sr_limit s)"

lemma section_of_split:
  assumes "0 \<le> a" "a + int k \<le> b"
  shows "section_of data a b = take k (drop (nat a) data) @ section_of data (a + int k) b"
proof -
  have n: "nat (b - a) = k + nat (b - (a + int k))" "nat (a + int k) = k + nat a" using assms by (simp_all add: nat_add_distrib)
  show ?thesis unfolding section_of_def n take_add drop_drop ..
qed

lemma section_of_short: "0 \<le> a \<Longrightarrow> int (length data) \<le> a \<Longrightarrow> section_of data a b = []"
  by (simp add: section_of_def)

lemma take_section: "k \<le> nat (b - a) \<Longrightarrow> take k (section_of data a b) = take k (drop (nat a) data)"
  by (simp add: section_of_def)

lemma nested_section:
  assumes "0 \<le> base" "0 \<le> off"
  shows "drop (nat off) (section_of data base limit) = section_of data (off + base) limit"
proof -
  have "nat (limit - base) - nat off = nat (limit - (off + base))" "nat off + nat base = nat (off + base)" using assms by (simp_all add: nat_add_distrib)
  then show ?thesis by (simp add: section_of_def drop_take)
qed

context io_reader_at
begin

lemma section_io_reader: "io_reader (SectionReader_Read At) sec_ok (sec_content data) (length \<circ> sec_content data)"
proof
  fix p s assume ok: "sec_ok s"
  show "\<exists>d err s'. delivers (SectionReader_Read At) p s d err s' \<and> sec_ok s' \<and> sec_content data s = d @ sec_content data s'
    \<and> (err = None \<and> (p \<noteq> [] \<longrightarrow> (length \<circ> sec_content data) s' < (length \<circ> sec_content data) s) \<or> err = Some EOF \<and> sec_content data s' = [] \<and> (length \<circ> sec_content data) s' \<le> (length \<circ> sec_content data) s)"
  proof (cases "sr_limit s \<le> sr_off s")
    case True
    then show ?thesis using ok
      by (intro exI [of _ "[]"] exI [of _ "Some EOF"] exI [of _ s]) (simp add: delivers_def SectionReader_Read_def sec_content_def section_of_def)
  next
    case False
    define k where "k = min (length p) (nat (sr_limit s - sr_off s))"
    have mx: "int64 (sr_limit s - sr_off s) = sr_limit s - sr_off s" using ok False by (simp add: sec_ok_def int64_id)
    have k: "(if int (length p) > sr_limit s - sr_off s then sr_limit s - sr_off s else int (length p)) = int k"
      using False by (auto simp: k_def min_def)
    have kl: "k \<le> length p" "sr_off s + int k \<le> sr_limit s" using False by (auto simp: k_def)
    have off: "0 \<le> sr_off s" using ok by (simp add: sec_ok_def)
    obtain d where d: "d = take (length (take k p)) (drop (nat (sr_off s)) data)" by blast
    obtain t err where t: "At (take k p) (sr_off s) = (d @ t, int (length d), err)" "length d + length t = length (take k p)"
      "err = None \<longrightarrow> length d = length (take k p)" "err \<noteq> None \<longrightarrow> err = Some EOF \<and> int (length data) \<le> sr_off s + int (length d)"
      using At_reads [OF off d] by blast
    have dk: "length d \<le> k" using t(2) kl(1) by simp
    define s' where "s' = s\<lparr>sr_off := sr_off s + int (length d)\<rparr>"
    have o': "int64 (sr_off s + int (length d)) = sr_off s + int (length d)" using ok kl dk off by (simp add: int64_id sec_ok_def)
    have "SectionReader_Read At p s = Some (d @ t @ drop k p, int (length d), err, s')"
      using False kl(1) t(1) by (simp add: SectionReader_Read_def Let_def mx k slice_of_take o' s'_def)
    moreover have "length d + length (t @ drop k p) = length p" using t(2) kl(1) by simp
    ultimately have dl: "delivers (SectionReader_Read At) p s d err s'" by (rule deliversI)
    have "sec_content data s = take (length d) (drop (nat (sr_off s)) data) @ sec_content data s'"
      unfolding sec_content_def s'_def using section_of_split [OF off, of "length d"] kl(2) dk by simp
    moreover have "take (length d) (drop (nat (sr_off s)) data) = d" using d by (metis append_take_drop_id append_eq_conv_conj)
    ultimately have c: "sec_content data s = d @ sec_content data s'" by simp
    have "sec_content data s' = []" if "err \<noteq> None" using t(4) that off by (simp add: sec_content_def s'_def section_of_short)
    moreover have "p \<noteq> [] \<longrightarrow> length (sec_content data s') < length (sec_content data s)" if "err = None"
    proof -
      have "p \<noteq> [] \<longrightarrow> 0 < k" using False by (auto simp: k_def)
      then show ?thesis using t(3) kl(1) that c by auto
    qed
    ultimately show ?thesis using dl c ok kl dk t(4)
      by (intro exI [of _ d] exI [of _ err] exI [of _ s']) (cases "err = None"; simp add: sec_ok_def s'_def)
  qed
qed

text \<open>\<^verbatim>\<open>ReadAt\<close> of a section, which may panic in the model, as a plain function.\<close>

lemma SectionReader_ReadAt_Some:
  assumes ok: "sec_ok s" and "0 \<le> off" and d: "d = take (length p) (drop (nat off) (section_of data (sr_base s) (sr_limit s)))"
  shows "\<exists>t err. SectionReader_ReadAt At s p off = Some (d @ t, int (length d), err) \<and> length d + length t = length p \<and> (err = None \<longrightarrow> length d = length p)
      \<and> (err \<noteq> None \<longrightarrow> err = Some EOF \<and> int (length (section_of data (sr_base s) (sr_limit s))) \<le> off + int (length d))"
proof (cases "sr_limit s - sr_base s \<le> off")
  case True
  have "int64 (sr_limit s - sr_base s) = sr_limit s - sr_base s" using ok by (simp add: sec_ok_def int64_id)
  moreover have "d = []" using d True assms(2) ok by (simp add: section_of_def sec_ok_def)
  moreover have "int (length (section_of data (sr_base s) (sr_limit s))) \<le> off" using True assms(2) by (simp add: section_of_def)
  ultimately show ?thesis using True by (intro exI [of _ p] exI [of _ "Some EOF"]) (simp add: SectionReader_ReadAt_def)
next
  case False
  define a where "a = off + sr_base s"
  have i: "int64 (sr_limit s - sr_base s) = sr_limit s - sr_base s" "int64 a = a" "int64 (sr_limit s - a) = sr_limit s - a"
    using ok False assms(2) by (simp_all add: sec_ok_def int64_id a_def)
  have a: "0 \<le> a" "a < sr_limit s" using assms(2) ok False by (simp_all add: a_def sec_ok_def)
  have dn: "d = take (length p) (section_of data a (sr_limit s))"
    unfolding d a_def using nested_section [of "sr_base s" off data "sr_limit s"] ok assms(2) by (simp add: sec_ok_def)
  have len: "int (length (section_of data (sr_base s) (sr_limit s))) \<le> off + int (length (section_of data a (sr_limit s)))"
    using ok assms(2) by (simp add: section_of_def a_def sec_ok_def)
  show ?thesis
  proof (cases "int (length p) > sr_limit s - a")
    case True
    define k where "k = nat (sr_limit s - a)"
    have k: "sr_limit s - a = int k" "k \<le> length p" using True a by (simp_all add: k_def)
    have dk: "d = take (length (take k p)) (drop (nat a) data)" using dn k(2) by (simp add: section_of_def k_def)
    obtain t err where t: "At (take k p) a = (d @ t, int (length d), err)" "length d + length t = length (take k p)"
      "err \<noteq> None \<longrightarrow> err = Some EOF"
      using At_reads [OF a(1) dk] by blast
    have "SectionReader_ReadAt At s p off = Some (d @ t @ drop k p, int (length d), if err = None then Some EOF else err)"
      using False True assms(2) t(1) k(2) by (simp add: SectionReader_ReadAt_def Let_def a_def [symmetric] i i(3) [unfolded k(1)] k(1) slice_of_take)
    moreover have "length (section_of data a (sr_limit s)) = length d" using dn k by (simp add: section_of_def)
    ultimately show ?thesis using t(2,3) k(2) len
      by (intro exI [of _ "t @ drop k p"] exI [of _ "if err = None then Some EOF else err"]) auto
  next
    case long: False
    then have p: "length p \<le> nat (sr_limit s - a)" using a by simp
    have dk: "d = take (length p) (drop (nat a) data)" using dn take_section [OF p] by simp
    obtain t err where t: "At p a = (d @ t, int (length d), err)" "length d + length t = length p" "err = None \<longrightarrow> length d = length p"
      "err \<noteq> None \<longrightarrow> err = Some EOF \<and> int (length data) \<le> a + int (length d)"
      using At_reads [OF a(1) dk] by blast
    have "SectionReader_ReadAt At s p off = Some (d @ t, int (length d), err)"
      using False long assms(2) t(1) by (simp add: SectionReader_ReadAt_def Let_def a_def [symmetric] i)
    moreover have "int (length (section_of data (sr_base s) (sr_limit s))) \<le> off + int (length d)" if "err \<noteq> None"
      using t(4) that ok assms(2) by (simp add: section_of_def a_def sec_ok_def min_le_iff_disj le_diff_conv nat_le_iff of_nat_diff) linarith
    ultimately show ?thesis using t(2-4) by blast
  qed
qed

end

lemma sec_ok_new: "0 \<le> off \<Longrightarrow> 0 \<le> n \<Longrightarrow> off + n < 2 ^ 63 \<Longrightarrow> sec_ok (NewSectionReader off n) \<and> sec_content data (NewSectionReader off n) = take (nat n) (drop (nat off) data)"
  by (simp add: sec_ok_def sec_content_def section_of_def NewSectionReader_def int64_id)

text \<open>Seeking keeps the invariant; a successful one sets the offset, which is relative to the start of the section.\<close>

lemma Seek_ok:
  assumes "sec_ok s" "SectionReader_Seek offset whence s = ((pos, err), s')"
  shows "sec_ok s'" "err = None \<Longrightarrow> pos = sr_off s' - sr_base s \<and> 0 \<le> pos" "err \<noteq> None \<Longrightarrow> s' = s"
proof -
  have "sec_ok s' \<and> (err = None \<longrightarrow> pos = sr_off s' - sr_base s \<and> 0 \<le> pos) \<and> (err \<noteq> None \<longrightarrow> s' = s)"
    using assms int64_range [of "offset + sr_base s"] int64_range [of "offset + sr_off s"] int64_range [of "offset + sr_limit s"]
    by (cases whence) (auto simp: SectionReader_Seek_def sec_ok_def int64_id split: if_splits)
  then show "sec_ok s'" "err = None \<Longrightarrow> pos = sr_off s' - sr_base s \<and> 0 \<le> pos" "err \<noteq> None \<Longrightarrow> s' = s" by blast+
qed

end
