(* ===== verification/Strings_Reader.thy ===== *)
theory Strings_Reader
  imports Io_Section Utf8_Text Utf8_String
begin

text \<open>
  \<^verbatim>\<open>strings/reader.go\<close>: every method of the \<^verbatim>\<open>strings.Reader\<close>, which is the reader of this development that is not made from another;
  it provides the contracts of \<^verbatim>\<open>io.Reader\<close> and \<^verbatim>\<open>io.ReaderAt\<close>.
\<close>

datatype strings_error =
  NegativeOffset | AtBeginning | RuneAtBeginning | PreviousNotReadRune | InvalidWhence | NegativePosition

record strings_reader =
  rd_s :: "byte list"
  rd_i :: int
  rd_prevRune :: int

definition strings_NewReader :: "byte list \<Rightarrow> strings_reader" where
  "strings_NewReader s = \<lparr>rd_s = s, rd_i = 0, rd_prevRune = -1\<rparr>"

definition strings_Reset :: "byte list \<Rightarrow> strings_reader \<Rightarrow> strings_reader" where
  "strings_Reset s r = \<lparr>rd_s = s, rd_i = 0, rd_prevRune = -1\<rparr>"

abbreviation rd_len :: "strings_reader \<Rightarrow> int" where "rd_len r \<equiv> int (length (rd_s r))"

definition strings_Len :: "strings_reader \<Rightarrow> int" where
  "strings_Len r = (if rd_i r \<ge> rd_len r then 0 else rd_len r - rd_i r)"

definition strings_Size :: "strings_reader \<Rightarrow> int" where
  "strings_Size r = rd_len r"

definition strings_Read :: "(strings_reader, 'e) reader" where
  "strings_Read b r =
     (if rd_i r \<ge> rd_len r then Some (b, 0, Some EOF, r)
      else do {
        rest \<leftarrow> from_index (rd_s r) (rd_i r);
        let (b, n) = copy_into b rest;
        Some (b, n, None, r\<lparr>rd_prevRune := -1, rd_i := rd_i r + n\<rparr>)
      })"

definition strings_ReadAt :: "strings_reader \<Rightarrow> strings_error reader_at" where
  "strings_ReadAt r b off =
     (if off < 0 then (b, 0, Some (OtherError NegativeOffset))
      else if off \<ge> rd_len r then (b, 0, Some EOF)
      else
        let (b, n) = copy_into b (drop (nat off) (rd_s r))
        in (b, n, if n < int (length b) then Some EOF else None))"

definition strings_ReadByte :: "strings_reader \<Rightarrow> (byte \<times> strings_error io_error option \<times> strings_reader) option" where
  "strings_ReadByte r =
     (let r = r\<lparr>rd_prevRune := -1\<rparr>
      in if rd_i r \<ge> rd_len r then Some (0, Some EOF, r)
         else do {
           b \<leftarrow> idx (rd_s r) (rd_i r);
           Some (b, None, r\<lparr>rd_i := rd_i r + 1\<rparr>)
         })"

definition strings_UnreadByte :: "strings_reader \<Rightarrow> strings_error option \<times> strings_reader" where
  "strings_UnreadByte r =
     (if rd_i r \<le> 0 then (Some AtBeginning, r) else (None, r\<lparr>rd_prevRune := -1, rd_i := rd_i r - 1\<rparr>))"

definition strings_ReadRune :: "strings_reader \<Rightarrow> (rune \<times> int \<times> strings_error io_error option \<times> strings_reader) option" where
  "strings_ReadRune r =
     (if rd_i r \<ge> rd_len r then Some (0, 0, Some EOF, r\<lparr>rd_prevRune := -1\<rparr>)
      else do {
        let r = r\<lparr>rd_prevRune := rd_i r\<rparr>;
        c \<leftarrow> idx (rd_s r) (rd_i r);
        if c < RuneSelf then Some (ucast c, 1, None, r\<lparr>rd_i := rd_i r + 1\<rparr>)
        else do {
          rest \<leftarrow> from_index (rd_s r) (rd_i r);
          (ch, n) \<leftarrow> DecodeRuneInString rest;
          Some (ch, n, None, r\<lparr>rd_i := rd_i r + n\<rparr>)
        }
      })"

definition strings_UnreadRune :: "strings_reader \<Rightarrow> strings_error option \<times> strings_reader" where
  "strings_UnreadRune r =
     (if rd_i r \<le> 0 then (Some RuneAtBeginning, r)
      else if rd_prevRune r < 0 then (Some PreviousNotReadRune, r)
      else (None, r\<lparr>rd_i := rd_prevRune r, rd_prevRune := -1\<rparr>))"

definition strings_Seek :: "int \<Rightarrow> whence \<Rightarrow> strings_reader \<Rightarrow> (int \<times> strings_error option) \<times> strings_reader" where
  "strings_Seek offset whence r =
     (let r = r\<lparr>rd_prevRune := -1\<rparr>
      in case (case whence of
                 SeekStart \<Rightarrow> Some offset
               | SeekCurrent \<Rightarrow> Some (int64 (rd_i r + offset))
               | SeekEnd \<Rightarrow> Some (int64 (rd_len r + offset))
               | OtherWhence \<Rightarrow> None) of
           None \<Rightarrow> ((0, Some InvalidWhence), r)
         | Some pos \<Rightarrow> if pos < 0 then ((0, Some NegativePosition), r) else ((pos, None), r\<lparr>rd_i := pos\<rparr>))"

text \<open>\<^verbatim>\<open>io.WriteString\<close> on a writer without a \<^verbatim>\<open>WriteString\<close> method is its \<^verbatim>\<open>Write\<close>.\<close>

definition strings_WriteTo :: "('w, 'e) io_writer \<Rightarrow> strings_reader \<Rightarrow> 'w \<Rightarrow> (int \<times> 'e io_error option \<times> strings_reader \<times> 'w) option" where
  "strings_WriteTo Write r w =
     (let r = r\<lparr>rd_prevRune := -1\<rparr>
      in if rd_i r \<ge> rd_len r then Some (0, None, r, w)
         else do {
           s \<leftarrow> from_index (rd_s r) (rd_i r);
           let ((m, err), w) = Write s w;
           if m > int (length s) then None
           else Some (m, if m \<noteq> int (length s) \<and> err = None then Some ErrShortWrite else err, r\<lparr>rd_i := rd_i r + m\<rparr>, w)
         })"

text \<open>\<^verbatim>\<open>strings.Builder\<close> as a writer of any error type.\<close>

definition Builder_Write :: "(byte list, 'e) io_writer" where
  "Builder_Write p b = ((int (length p), None), b @ p)"

subsection \<open>The contracts\<close>

definition strings_ok :: "strings_reader \<Rightarrow> bool" where "strings_ok r \<longleftrightarrow> 0 \<le> rd_i r"

definition unread :: "strings_reader \<Rightarrow> byte list" where "unread r = drop (nat (rd_i r)) (rd_s r)"

lemma unread_NewReader [simp]: "unread (strings_NewReader s) = s" "strings_ok (strings_NewReader s)"
  by (simp_all add: unread_def strings_NewReader_def strings_ok_def)

lemma rd_s_NewReader: "rd_s (strings_NewReader s) = s"
  by (simp add: strings_NewReader_def)

lemma unread_Nil: "strings_ok r \<Longrightarrow> unread r = [] \<longleftrightarrow> rd_len r \<le> rd_i r"
  by (auto simp: unread_def strings_ok_def)

lemma copy_into_eq: "copy_into b s = (take (length b) s @ drop (length (take (length b) s)) b, int (length (take (length b) s)))"
  by (simp add: copy_into_def Let_def min.commute) (metis min_def nat_le_linear take_all)

lemma strings_Read_eq:
  assumes "strings_ok r" "unread r \<noteq> []"
  shows "strings_Read b r = Some (take (length b) (unread r) @ drop (length (take (length b) (unread r))) b, int (length (take (length b) (unread r))), None,
    r\<lparr>rd_prevRune := -1, rd_i := rd_i r + int (length (take (length b) (unread r)))\<rparr>)"
  using assms by (simp add: strings_Read_def strings_ok_def unread_def from_index_def copy_into_eq del: length_take)

interpretation strings_reader: io_reader "strings_Read :: (strings_reader, 'e) reader" strings_ok unread "length \<circ> unread"
proof
  fix p r assume ok: "strings_ok r"
  show "\<exists>d err r'. delivers (strings_Read :: (strings_reader, 'e) reader) p r d err r' \<and> strings_ok r' \<and> unread r = d @ unread r'
    \<and> (err = None \<and> (p \<noteq> [] \<longrightarrow> (length \<circ> unread) r' < (length \<circ> unread) r) \<or> err = Some EOF \<and> unread r' = [] \<and> (length \<circ> unread) r' \<le> (length \<circ> unread) r)"
  proof (cases "unread r = []")
    case True
    then have "delivers (strings_Read :: (strings_reader, 'e) reader) p r [] (Some EOF) r" using ok by (simp add: delivers_def strings_Read_def unread_Nil)
    then show ?thesis using True ok by (intro exI [of _ "[]"] exI [of _ "Some EOF"] exI [of _ r]) (simp add: delivers_def)
  next
    case False
    define d where "d = take (length p) (unread r)"
    define r' where "r' = r\<lparr>rd_prevRune := -1, rd_i := rd_i r + int (length d)\<rparr>"
    have "unread r' = drop (length d) (unread r)" using ok by (simp add: r'_def unread_def strings_ok_def nat_add_distrib add.commute)
    then have u: "unread r' = drop (length p) (unread r)" by (cases "length p \<le> length (unread r)") (simp_all add: d_def)
    have "delivers strings_Read p r d None r'"
      by (rule deliversI) (simp_all add: strings_Read_eq [OF ok False] d_def [symmetric] r'_def, simp add: d_def)
    moreover have "p \<noteq> [] \<longrightarrow> length (unread r') < length (unread r)" using False u by (cases p) auto
    ultimately show ?thesis using ok u by (intro exI [of _ d] exI [of _ None] exI [of _ r']) (simp add: d_def r'_def strings_ok_def)
  qed
qed

interpretation strings_reader_at: io_reader_at "strings_ReadAt r" "rd_s r"
proof
  fix off :: int and d p :: "byte list" assume o: "0 \<le> off" and d: "d = take (length p) (drop (nat off) (rd_s r))"
  have "strings_ReadAt r p off = (d @ drop (length d) p, int (length d), if off < rd_len r \<and> length d = length p then None else Some EOF)"
  proof (cases "rd_len r \<le> off")
    case True
    then show ?thesis using o d by (simp add: strings_ReadAt_def)
  next
    case False
    then show ?thesis using o by (simp add: strings_ReadAt_def copy_into_eq d [symmetric]) (simp add: d)
  qed
  then show "\<exists>t err. strings_ReadAt r p off = (d @ t, int (length d), err) \<and> length d + length t = length p \<and> (err = None \<longrightarrow> length d = length p)
      \<and> (err \<noteq> None \<longrightarrow> err = Some EOF \<and> int (length (rd_s r)) \<le> off + int (length d))"
    using o by (intro exI [of _ "drop (length d) p"] exI [of _ "if off < rd_len r \<and> length d = length p then None else Some EOF"]) (auto simp: d)
qed

interpretation builder: total_writer "Builder_Write :: (byte list, 'e) io_writer" "\<lambda>_. True" "\<lambda>b. b"
  by unfold_locales (auto simp: Builder_Write_def)

text \<open>\<^verbatim>\<open>WriteTo\<close> gives everything to one call of Write.\<close>

lemma strings_WriteTo_copies:
  fixes Write :: "('w, 'e) io_writer"
  assumes "io_writer Write wok written"
  shows "copies Write strings_ok unread wok written (strings_WriteTo Write)"
  unfolding copies_def
proof (intro allI impI)
  fix r w assume ok: "strings_ok r" and w: "wok w"
  show "\<exists>res. strings_WriteTo Write r w = Some res \<and> copied Write strings_ok unread wok written 0 r w res"
  proof (cases "unread r = []")
    case True
    then have "strings_WriteTo Write r w = Some (0, None, r\<lparr>rd_prevRune := -1\<rparr>, w)" using unread_Nil [OF ok] by (simp add: strings_WriteTo_def)
    then show ?thesis using True ok w by (simp add: copied_def strings_ok_def unread_def)
  next
    case False
    obtain k err w' where k: "Write (unread r) w = ((int k, err), w')" "wok w'" "k \<le> length (unread r)" "written w' = written w @ take k (unread r)"
      "k < length (unread r) \<longrightarrow> err \<noteq> None" using io_writer.Write_prefix [OF assms w] by blast
    define r' where "r' = r\<lparr>rd_prevRune := -1, rd_i := rd_i r + int k\<rparr>"
    have r': "unread r' = drop k (unread r)" "strings_ok r'" using ok by (simp_all add: r'_def unread_def strings_ok_def nat_add_distrib add.commute)
    have "from_index (rd_s r) (rd_i r) = Some (unread r)" "\<not> rd_len r \<le> rd_i r" using False ok by (simp_all add: unread_Nil [OF ok] from_index_def strings_ok_def unread_def)
    then have "strings_WriteTo Write r w = Some (int k, err, r', w')" using k(1,3,5) by (auto simp: strings_WriteTo_def r'_def)
    moreover have "write_failed Write wok written (written w @ unread r) e w'" if "err = Some e" for e
      using w k(1) that by (auto intro: write_failedI [where rest = "[]"])
    ultimately show ?thesis using k r'
      by (intro exI [of _ "(int k, err, r', w')"]) (auto simp: copied_def intro!: exI [of _ "take k (unread r)"] exI [of _ k] split: option.splits)
  qed
qed

subsection \<open>Bytes and runes\<close>

lemma DecodeRune_range:
  assumes "p \<noteq> []" "DecodeRune p = Some (ch, n)"
  shows "1 \<le> n \<and> n \<le> int (length p)"
  using assms(1)
proof (cases rule: DecodeRune_cases)
  case (1 s q)
  moreover have "s \<noteq> []" using 1(2) by auto
  ultimately show ?thesis using assms(2) by (cases s) auto
next
  case 2
  then show ?thesis using assms by (cases p) auto
qed

lemma DecodeRune_ASCII: "uint c < 0x80 \<Longrightarrow> DecodeRune (c # s) = Some (ucast c, 1)"
  using DecodeRune_well_formed [of "[c]" s] by simp

lemma unread_Cons:
  assumes "strings_ok r" "unread r = c # t"
  shows "\<not> rd_len r \<le> rd_i r" "idx (rd_s r) (rd_i r) = Some c" "from_index (rd_s r) (rd_i r) = Some (unread r)" "unread (r\<lparr>rd_i := rd_i r + 1, rd_prevRune := k\<rparr>) = t"
proof -
  show nl: "\<not> rd_len r \<le> rd_i r" using unread_Nil [OF assms(1)] assms(2) by simp
  then show "idx (rd_s r) (rd_i r) = Some c" using assms by (simp add: unread_def strings_ok_def nth_via_drop)
  show "from_index (rd_s r) (rd_i r) = Some (unread r)" using nl assms(1) by (simp add: from_index_def strings_ok_def unread_def)
  show "unread (r\<lparr>rd_i := rd_i r + 1, rd_prevRune := k\<rparr>) = t" using assms by (simp add: unread_def strings_ok_def nat_add_distrib) (metis drop_Suc tl_drop list.sel(3))
qed

text \<open>Reading a rune decodes what is unread; the reader then stands behind it and remembers where it began.\<close>

lemma strings_ReadRune_eq:
  assumes "strings_ok r" "unread r \<noteq> []" "DecodeRune (unread r) = Some (ch, n)"
  shows "strings_ReadRune r = Some (ch, n, None, r\<lparr>rd_i := rd_i r + n, rd_prevRune := rd_i r\<rparr>)"
proof -
  obtain c t where u: "unread r = c # t" using assms(2) by (cases "unread r") auto
  note uc = unread_Cons [OF assms(1) u]
  show ?thesis
  proof (cases "c < 0x80")
    case True
    then have "uint c < 0x80" by (simp add: word_less_def)
    then show ?thesis using True DecodeRune_ASCII [of c t] assms(3) uc(1,2) by (simp add: strings_ReadRune_def u)
  next
    case False
    then show ?thesis using assms(3) uc(1-3) by (simp add: strings_ReadRune_def DecodeRuneInString_eq)
  qed
qed



end
