(* ===== verification/Io_Properties.thy ===== *)
theory Io_Properties
  imports Strings_Reader
begin

text \<open>
  What \<^verbatim>\<open>io\<close> promises for all readers and writers that keep their contracts, and what becomes of the wrappers when they are stacked.
\<close>

text \<open>Concatenating limited readers: the shape of the reader in the examples below.\<close>

type_synonym limited_strings = "strings_reader LimitedReader"

abbreviation limited_Read :: "(limited_strings, 'e) reader" where "limited_Read \<equiv> LimitedReader_Read strings_Read"

lemma limited_strings_reader: "io_reader limited_Read (limited_inv strings_ok unread C N) (limited_content unread) ((length \<circ> unread) \<circ> lr_R)"
  by (rule io_reader_limited) (rule strings_reader.io_reader_axioms)

text \<open>Limits of different readers have different invariants; a common one forgets the history.\<close>

definition limited_ok :: "limited_strings \<Rightarrow> bool" where
  "limited_ok l \<longleftrightarrow> (\<exists>C N. limited_inv strings_ok unread C N l)"

interpretation limited_strings: io_reader "limited_Read :: (limited_strings, 'e) reader" limited_ok "limited_content unread" "(length \<circ> unread) \<circ> lr_R"
proof
  fix p l assume "limited_ok l"
  then obtain C N where "limited_inv strings_ok unread C N l" by (auto simp: limited_ok_def)
  from io_reader.Read_delivers [OF limited_strings_reader this]
  show "\<exists>d err l'. delivers (limited_Read :: (limited_strings, 'e) reader) p l d err l' \<and> limited_ok l' \<and> limited_content unread l = d @ limited_content unread l'
    \<and> (err = None \<and> (p \<noteq> [] \<longrightarrow> ((length \<circ> unread) \<circ> lr_R) l' < ((length \<circ> unread) \<circ> lr_R) l) \<or> err = Some EOF \<and> limited_content unread l' = [] \<and> ((length \<circ> unread) \<circ> lr_R) l' \<le> ((length \<circ> unread) \<circ> lr_R) l)"
    unfolding limited_ok_def by blast
qed

lemma limited_ok_new: "n < 2 ^ 63 \<Longrightarrow> limited_ok (LimitReader (strings_NewReader s) n)"
  using limited_start [of strings_ok "strings_NewReader s" n unread] by (auto simp: limited_ok_def)

interpretation multi_limited: io_reader "multiReader_Read limited_Read :: (limited_strings mreader, 'e) reader" "mr_inv limited_ok"
    "mr_content (limited_content unread)" "mr_bound ((length \<circ> unread) \<circ> lr_R)"
  using io_reader_multi [OF limited_strings.io_reader_axioms] by simp

interpretation strings_copy: io_copy strings_Read strings_ok unread "length \<circ> unread" "Builder_Write :: (byte list, 'e) io_writer" "\<lambda>_. True" "\<lambda>b. b"
  by unfold_locales

subsection \<open>Reading everything\<close>

text \<open>
  C28 (ReadAll reads everything). From a reader that keeps its contract, however it cuts its bytes and however often it returns
  none, ReadAll returns, with all the bytes and no error, for every way append may grow a slice.
\<close>

theorem ReadAll_reads_all:
  assumes "io_reader Read ok content bound" "ok r" "\<forall>n. 0 < grow n"
  shows "\<exists>r'. ReadAll grow Read r = Some (content r, None, r')"
  by (rule io_reader.ReadAll_ok [OF assms(1,3,2)])

text \<open>Two strings one after the other, the first limited to two bytes.\<close>

lemma ReadAll_reads_all_witness:
  "\<exists>r'. ReadAll (\<lambda>n. n + 1) (multiReader_Read (limited_Read :: (limited_strings, unit) reader))
     (MultiReader [Plain (LimitReader (strings_NewReader [1, 2, 3]) 2), Plain (LimitReader (strings_NewReader [4]) 9)]) = Some ([1, 2, 4], None, r')"
proof -
  define m where "m = MultiReader [Plain (LimitReader (strings_NewReader [1, 2, 3]) 2), Plain (LimitReader (strings_NewReader [4]) 9)]"
  have "mr_inv limited_ok m" using limited_ok_new by (simp add: m_def MultiReader_def)
  moreover have "mr_content (limited_content unread) m = [1, 2, 4]"
    by (simp add: m_def MultiReader_def limited_content_def LimitReader_def)
  ultimately show ?thesis unfolding m_def [symmetric]
    using ReadAll_reads_all [OF multi_limited.io_reader_axioms, of m "\<lambda>n. n + 1"] by simp
qed

text \<open>
  ReadAtLeast and ReadFull. With a buffer that is long enough, ReadAtLeast reads a prefix of the bytes into it; with fewer bytes
  than asked for, all of them, and the error is EOF when there were none and ErrUnexpectedEOF otherwise. A buffer that is too
  short is reported before anything is read.
\<close>

theorem ReadAtLeast_exact:
  assumes "io_reader Read ok content bound" "ok r"
  shows "if length buf < mn then ReadAtLeast Read buf (int mn) r = Some (buf, 0, Some ErrShortBuffer, r)
    else \<exists>d t err r'. ReadAtLeast Read buf (int mn) r = Some (d @ t, int (length d), err, r') \<and> length (d @ t) = length buf
      \<and> content r = d @ content r' \<and> (if mn \<le> length d then err = None else content r' = [] \<and> err = Some (if d = [] then EOF else ErrUnexpectedEOF))"
proof (cases "length buf < mn")
  case True
  then show ?thesis by (simp add: ReadAtLeast_def)
next
  case False
  then have "mn \<le> length buf" by simp
  from io_reader.ReadAtLeast_ok [OF assms this] show ?thesis unfolding if_not_P [OF False] by blast
qed

lemma ReadAtLeast_exact_witness:
  "\<exists>t r'. ReadAtLeast (strings_Read :: (strings_reader, unit) reader) [0, 0, 0, 0] 3 (strings_NewReader [7, 8]) = Some ([7, 8] @ t, 2, Some ErrUnexpectedEOF, r')"
proof -
  have nl: "\<not> length [0, 0, 0, 0 :: byte] < 3" by simp
  obtain d t err r' where d: "ReadAtLeast (strings_Read :: (strings_reader, unit) reader) [0, 0, 0, 0] (int 3) (strings_NewReader [7, 8]) = Some (d @ t, int (length d), err, r')"
    "[7, 8] = d @ unread r'" "if 3 \<le> length d then err = None else unread r' = [] \<and> err = Some (if d = [] then EOF else ErrUnexpectedEOF)"
    using ReadAtLeast_exact [OF strings_reader.io_reader_axioms unread_NewReader(2) [of "[7, 8]"], of "[0, 0, 0, 0]" 3]
    unfolding if_not_P [OF nl] unread_NewReader(1) by blast
  have "length d \<le> 2" using arg_cong [OF d(2), of length] by simp
  then have "unread r' = []" "err = Some (if d = [] then EOF else ErrUnexpectedEOF)" using d(3) by simp_all
  then show ?thesis using d(1,2) by auto
qed

subsection \<open>Copying\<close>

lemma write_failed_total: "\<forall>p v. wok v \<longrightarrow> snd (fst (Write p v)) = None \<Longrightarrow> \<not> write_failed Write wok written goal e w'"
  by (metis write_failed_def fst_conv option.distinct(1) snd_conv)





subsection \<open>Wrappers\<close>

text \<open>
  C31 (Wrappers compose). LimitedReader, MultiReader and TeeReader on readers that keep the contract of io.Reader keep it again:
  with the first n bytes, with the bytes of all readers in their order, and with the same bytes while a writer that cannot fail gets
  what is read.
\<close>

theorem wrappers_compose:
  assumes "io_reader Read ok content bound" "total_writer Write wok written"
  shows "io_reader (LimitedReader_Read Read) (limited_inv ok content C N) (limited_content content) (bound \<circ> lr_R)
    \<and> io_reader (multiReader_Read Read) (mr_inv ok) (mr_content content) (mr_bound bound)
    \<and> io_reader (teeReader_Read Read Write) (tee_inv ok content wok written C W) (content \<circ> fst) (bound \<circ> fst)"
  using io_reader_limited [OF assms(1)] io_reader_multi [OF assms(1)] io_reader_tee [OF assms] by blast

lemma wrappers_compose_witness:
  "io_reader (LimitedReader_Read (strings_Read :: (strings_reader, unit) reader)) (limited_inv strings_ok unread [1] 1) (limited_content unread) ((length \<circ> unread) \<circ> lr_R)"
  using wrappers_compose [OF strings_reader.io_reader_axioms builder.total_writer_axioms, of "[1]" 1] by blast

text \<open>
  C32 (Sections). A section of a reader at offsets reads the n bytes from its offset on, or what there is of them, and its own ReadAt
  keeps the contract, so that sections nest. Seeking keeps the section well formed, whatever the arguments.
\<close>

theorem section_exact:
  assumes "io_reader_at At data" "0 \<le> off" "0 \<le> n" "off + n < 2 ^ 63"
  shows "(\<exists>s'. ReadAll (\<lambda>n. n + 1) (SectionReader_Read At) (NewSectionReader off n) = Some (take (nat n) (drop (nat off) data), None, s'))
    \<and> io_reader_at (\<lambda>p o'. the (SectionReader_ReadAt At (NewSectionReader off n) p o')) (take (nat n) (drop (nat off) data))
    \<and> sec_ok (snd (SectionReader_Seek k whence (NewSectionReader off n)))"
proof -
  define s where "s = NewSectionReader off n"
  have ok: "sec_ok s" "sec_content data s = take (nat n) (drop (nat off) data)" using sec_ok_new assms(2-4) by (simp_all add: s_def)
  have so: "section_of data (sr_base s) (sr_limit s) = take (nat n) (drop (nat off) data)"
    using assms(2-4) by (simp add: s_def NewSectionReader_def section_of_def int64_id)
  have "io_reader_at (\<lambda>p o'. the (SectionReader_ReadAt At s p o')) (take (nat n) (drop (nat off) data))"
  proof
    fix o' :: int and d p :: "byte list"
    assume "0 \<le> o'" "d = take (length p) (drop (nat o') (take (nat n) (drop (nat off) data)))"
    with io_reader_at.SectionReader_ReadAt_Some [OF assms(1) ok(1), of o' d p, unfolded so]
    obtain t err where t: "SectionReader_ReadAt At s p o' = Some (d @ t, int (length d), err)" "length d + length t = length p" "err = None \<longrightarrow> length d = length p"
      "err \<noteq> None \<longrightarrow> err = Some EOF \<and> int (length (take (nat n) (drop (nat off) data))) \<le> o' + int (length d)" by blast
    show "\<exists>t err. the (SectionReader_ReadAt At s p o') = (d @ t, int (length d), err) \<and> length d + length t = length p \<and> (err = None \<longrightarrow> length d = length p)
      \<and> (err \<noteq> None \<longrightarrow> err = Some EOF \<and> int (length (take (nat n) (drop (nat off) data))) \<le> o' + int (length d))"
      unfolding t(1) option.sel using t(2-4) by blast
  qed
  moreover have "sec_ok (snd (SectionReader_Seek k whence s))" using Seek_ok(1) [OF ok(1)] by (metis prod.collapse)
  moreover have "\<exists>s'. ReadAll (\<lambda>n. n + 1) (SectionReader_Read At) s = Some (take (nat n) (drop (nat off) data), None, s')"
    using io_reader.ReadAll_ok [OF io_reader_at.section_io_reader [OF assms(1)] _ ok(1), of "\<lambda>n. n + 1"] ok(2) by simp
  ultimately show ?thesis unfolding s_def by blast
qed

lemma section_bound: "(1 :: int) + 3 < 2 ^ 63"
  by simp

lemma section_exact_witness:
  "\<exists>s'. ReadAll (\<lambda>n. n + 1) (SectionReader_Read (strings_ReadAt (strings_NewReader [1, 2, 3, 4, 5]))) (NewSectionReader 1 3) = Some ([2, 3, 4], None, s')"
proof -
  have c: "io_reader_at (strings_ReadAt (strings_NewReader [1, 2, 3, 4, 5])) [1, 2, 3, 4, 5]"
    using strings_reader_at.io_reader_at_axioms [of "strings_NewReader [1, 2, 3, 4, 5]"] unfolding rd_s_NewReader .
  have "take (nat 3) (drop (nat 1) [1, 2, 3, 4, 5 :: byte]) = [2, 3, 4]" by simp
  then show ?thesis using section_exact [OF c, of 1 3, THEN conjunct1] by (metis (no_types, lifting) one_le_numeral zero_le_one zero_le_numeral section_bound)
qed

text \<open>
  C38 (A section without an end is empty). The bound on the sum above is needed: NewSectionReader adds offset and length without
  looking at the overflow, so that a section of the greatest length at an offset other than zero, the obvious way to ask for all
  bytes from an offset on, fails with EOF at once.
\<close>

theorem section_overflow:
  assumes "0 < off" "off < 2 ^ 63"
  shows "SectionReader_Read At p (NewSectionReader off (2 ^ 63 - 1)) = Some (p, 0, Some EOF, NewSectionReader off (2 ^ 63 - 1))"
proof -
  have "int64 (off + (2 ^ 63 - 1)) = off + (2 ^ 63 - 1) - 2 ^ 64" using int64_shift [of "off + (2 ^ 63 - 1)"] int64_id [of "off + (2 ^ 63 - 1) - 2 ^ 64"] assms by simp
  then show ?thesis using assms by (simp add: SectionReader_Read_def NewSectionReader_def)
qed

lemma section_overflow_witness:
  "SectionReader_Read (strings_ReadAt (strings_NewReader [1, 2, 3])) [0] (NewSectionReader 1 (2 ^ 63 - 1)) = Some ([0], 0, Some EOF, NewSectionReader 1 (2 ^ 63 - 1))"
  by (rule section_overflow) simp_all

end
