(* ===== verification/Base64_Decoder.thy ===== *)
theory Base64_Decoder
  imports Base64_Properties Io_Properties
begin

text \<open>
  \<^verbatim>\<open>encoding/base64\<close>, the streaming decoder: \<^verbatim>\<open>NewDecoder\<close> puts a reader that removes newlines in front of a decoder with a buffer
  of text and one of decoded bytes. The errors of the wrapped reader and those of the decoder make up one type of errors. The field
  \<^verbatim>\<open>out\<close>, a slice of \<^verbatim>\<open>outbuf\<close>, is kept as the bytes it shows: \<^verbatim>\<open>outbuf\<close> is only written when \<^verbatim>\<open>out\<close> is empty.
\<close>

type_synonym 'e b64_err = "(base64_error + 'e) io_error"

definition corrupt :: "base64_error option \<Rightarrow> 'e b64_err option" where
  "corrupt err = map_option (\<lambda>e. OtherError (Inl e)) err"

subsection \<open>Removing newlines\<close>

text \<open>The loop over \<^verbatim>\<open>p[:n]\<close> that moves other bytes to the front.\<close>

function compact :: "byte list \<Rightarrow> int \<Rightarrow> int \<Rightarrow> int \<Rightarrow> (byte list \<times> int) option" where
  "compact p n i offset =
     (if i < n then
        do {
          b \<leftarrow> idx p i;
          if b \<noteq> 0x0D \<and> b \<noteq> 0x0A then do {
            p \<leftarrow> (if i \<noteq> offset then upd p offset b else Some p);
            compact p n (i + 1) (offset + 1)
          }
          else compact p n (i + 1) offset
        }
      else Some (p, offset))"
  by pat_completeness auto
termination by (relation "measure (\<lambda>(p, n, i, offset). nat (n - i))") auto

declare compact.simps [simp del]

partial_function (option) newlineFilter_loop ::
  "('r, 'e) reader \<Rightarrow> byte list \<Rightarrow> int \<Rightarrow> 'e io_error option \<Rightarrow> 'r \<Rightarrow> (byte list \<times> int \<times> 'e io_error option \<times> 'r) option" where
  "newlineFilter_loop Read p n err r =
     (if n > 0 then
        do {
          _ \<leftarrow> slice_of p 0 n;
          (p, offset) \<leftarrow> compact p n 0 0;
          if offset > 0 then Some (p, offset, err, r)
          else do { (p, n, err, r) \<leftarrow> Read p r; newlineFilter_loop Read p n err r }
        }
      else Some (p, n, err, r))"

definition newlineFilteringReader_Read :: "('r, 'e) reader \<Rightarrow> ('r, 'e) reader" where
  "newlineFilteringReader_Read Read p r = do { (p, n, err, r) \<leftarrow> Read p r; newlineFilter_loop Read p n err r }"

subsection \<open>The decoder\<close>

record ('r, 'e) b64_decoder =
  dec_err :: "'e b64_err option"
  dec_readErr :: "'e b64_err option"
  dec_r :: 'r
  dec_buf :: "byte list"
  dec_nbuf :: int
  dec_out :: "byte list"
  dec_outbuf :: "byte list"

definition b64_NewDecoder :: "'r \<Rightarrow> ('r, 'e) b64_decoder" where
  "b64_NewDecoder r = \<lparr>dec_err = None, dec_readErr = None, dec_r = r, dec_buf = replicate 1024 0, dec_nbuf = 0, dec_out = [],
     dec_outbuf = replicate (1024 div 4 * 3) 0\<rparr>"

text \<open>\<^verbatim>\<open>n = copy(p, d.out); d.out = d.out[n:]\<close>\<close>

definition dec_copy :: "byte list \<Rightarrow> ('r, 'e) b64_decoder \<Rightarrow> (byte list \<times> int \<times> ('r, 'e) b64_decoder) option" where
  "dec_copy p d =
     (let (p, n) = copy_into p (dec_out d)
      in do { out' \<leftarrow> from_index (dec_out d) n; Some (p, n, d\<lparr>dec_out := out'\<rparr>) })"

partial_function (option) dec_refill :: "('r, base64_error + 'e) reader \<Rightarrow> int \<Rightarrow> ('r, 'e) b64_decoder \<Rightarrow> ('r, 'e) b64_decoder option" where
  "dec_refill Read plen d =
     (if dec_nbuf d < 4 \<and> dec_readErr d = None then
        do {
          let nn = plen div 3 * 4;
          let nn = (if nn < 4 then 4 else nn);
          let nn = (if nn > int (length (dec_buf d)) then int (length (dec_buf d)) else nn);
          (buf, nn, err, r) \<leftarrow> on_slice (dec_buf d) (dec_nbuf d) nn (\<lambda>p. newlineFilteringReader_Read Read p (dec_r d));
          dec_refill Read plen (d\<lparr>dec_buf := buf, dec_readErr := err, dec_r := r, dec_nbuf := dec_nbuf d + nn\<rparr>)
        }
      else Some d)"

definition dec_end :: "byte list \<Rightarrow> ('r, 'e) b64_decoder \<Rightarrow> byte list \<times> int \<times> 'e b64_err option \<times> ('r, 'e) b64_decoder" where
  "dec_end p d =
     (let d = d\<lparr>dec_err := dec_readErr d\<rparr>;
          d = (if dec_err d = Some EOF \<and> dec_nbuf d > 0 then d\<lparr>dec_err := Some ErrUnexpectedEOF\<rparr> else d)
      in (p, 0, dec_err d, d))"

text \<open>Fewer than four characters are left: the final fragment without padding, and the end.\<close>

definition dec_final ::
  "encoding \<Rightarrow> byte list \<Rightarrow> ('r, 'e) b64_decoder \<Rightarrow> (byte list \<times> int \<times> 'e b64_err option \<times> ('r, 'e) b64_decoder) option" where
  "dec_final enc p d =
     (if padChar enc = NoPadding \<and> dec_nbuf d > 0 then
        do {
          src \<leftarrow> slice_of (dec_buf d) 0 (dec_nbuf d);
          (outbuf, nw, err) \<leftarrow> b64_Decode enc (dec_outbuf d) src;
          out' \<leftarrow> slice_of outbuf 0 nw;
          (p, n, d) \<leftarrow> dec_copy p (d\<lparr>dec_err := corrupt err, dec_nbuf := 0, dec_outbuf := outbuf, dec_out := out'\<rparr>);
          if n > 0 \<or> length p = 0 \<and> length (dec_out d) > 0 then Some (p, n, None, d)
          else if dec_err d \<noteq> None then Some (p, 0, dec_err d, d)
          else Some (dec_end p d)
        }
      else Some (dec_end p d))"

text \<open>A chunk of whole groups is decoded into \<^verbatim>\<open>p\<close>, or into \<^verbatim>\<open>outbuf\<close> where \<^verbatim>\<open>p\<close> is too small.\<close>

definition dec_chunk ::
  "encoding \<Rightarrow> byte list \<Rightarrow> ('r, 'e) b64_decoder \<Rightarrow> (byte list \<times> int \<times> 'e b64_err option \<times> ('r, 'e) b64_decoder) option" where
  "dec_chunk enc p d =
     do {
       let nr = dec_nbuf d div 4 * 4;
       let nw = dec_nbuf d div 4 * 3;
       src \<leftarrow> slice_of (dec_buf d) 0 nr;
       (p, n, d) \<leftarrow>
         (if nw > int (length p) then
            do {
              (outbuf, nw, err) \<leftarrow> b64_Decode enc (dec_outbuf d) src;
              out' \<leftarrow> slice_of outbuf 0 nw;
              dec_copy p (d\<lparr>dec_err := corrupt err, dec_outbuf := outbuf, dec_out := out'\<rparr>)
            }
          else do { (p, n, err) \<leftarrow> b64_Decode enc p src; Some (p, n, d\<lparr>dec_err := corrupt err\<rparr>) });
       let nbuf = dec_nbuf d - nr;
       rest \<leftarrow> from_index (dec_buf d) nr;
       (buf, _) \<leftarrow> on_slice (dec_buf d) 0 nbuf (\<lambda>t. Some (copy_into t rest));
       let d = d\<lparr>dec_nbuf := nbuf, dec_buf := buf\<rparr>;
       Some (p, n, dec_err d, d)
     }"

definition b64_decoder_Read :: "encoding \<Rightarrow> ('r, base64_error + 'e) reader \<Rightarrow> (('r, 'e) b64_decoder, base64_error + 'e) reader" where
  "b64_decoder_Read enc Read p d =
     (if length (dec_out d) > 0 then do { (p, n, d) \<leftarrow> dec_copy p d; Some (p, n, None, d) }
      else if dec_err d \<noteq> None then Some (p, 0, dec_err d, d)
      else do {
        d \<leftarrow> dec_refill Read (int (length p)) d;
        if dec_nbuf d < 4 then dec_final enc p d else dec_chunk enc p d
      })"

declare newlineFilter_loop.simps [code] dec_refill.simps [code]

end
