(* ===== verification/Base64_Stream.thy ===== *)
theory Base64_Stream
  imports Base64_Decoder
begin

text \<open>
  The newline filter and the decoder are readers again: the filter delivers the text without newlines, and the decoder, on a text that
  decodes without an error, the decoded bytes.
\<close>

subsection \<open>The newline filter\<close>

lemma compact_ok:
  "n = int (length (a @ g @ s)) \<Longrightarrow>
    \<exists>t'. compact (a @ g @ s @ t) n (int (length (a @ g))) (int (length a)) = Some (a @ nonl s @ t', int (length (a @ nonl s)))
      \<and> length (a @ nonl s @ t') = length (a @ g @ s @ t)"
proof (induction s arbitrary: a g)
  case Nil
  then show ?case by (subst compact.simps) simp
next
  case (Cons b s)
  have i: "idx (a @ g @ (b # s) @ t) (int (length (a @ g))) = Some b" using idx_of_nat [of "length (a @ g)" "a @ g @ (b # s) @ t"] by (simp add: nth_append)
  show ?case
  proof (cases "newline b")
    case True
    then have "compact (a @ g @ (b # s) @ t) n (int (length (a @ g))) (int (length a)) = compact (a @ (g @ [b]) @ s @ t) n (int (length (a @ (g @ [b])))) (int (length a))"
      using Cons.prems i by (subst compact.simps) (auto simp: add.commute)
    then show ?thesis using Cons.IH [of a "g @ [b]"] Cons.prems True by simp
  next
    case False
    define g' where "g' = (if g = [] then [] else tl g @ [b])"
    have u: "(if int (length (a @ g)) \<noteq> int (length a) then upd (a @ g @ (b # s) @ t) (int (length a)) b else Some (a @ g @ (b # s) @ t))
        = Some ((a @ [b]) @ g' @ s @ t)"
      by (cases g) (simp_all add: g'_def)
    have l: "length g' = length g" by (cases g) (simp_all add: g'_def)
    have "compact (a @ g @ (b # s) @ t) n (int (length (a @ g))) (int (length a))
        = compact ((a @ [b]) @ g' @ s @ t) n (int (length ((a @ [b]) @ g'))) (int (length (a @ [b])))"
      using Cons.prems i u False by (subst compact.simps) (auto simp: add.commute l)
    moreover have "n = int (length ((a @ [b]) @ g' @ s))" using Cons.prems l by simp
    ultimately show ?thesis using Cons.IH [of "a @ [b]" g'] False l by auto
  qed
qed

lemma compact_start: "\<exists>t'. compact (d @ t) (int (length d)) 0 0 = Some (nonl d @ t', int (length (nonl d))) \<and> length (nonl d @ t') = length (d @ t)"
  using compact_ok [of "int (length d)" "[]" "[]" d t] by simp

text \<open>The loop of the filter, from a state in which \<open>d\<close> has just been read.\<close>

lemma newlineFilter_loop_ok:
  assumes rd: "io_reader Read ok content bound"
  shows "ok r \<Longrightarrow> err = None \<or> err = Some EOF \<and> content r = [] \<Longrightarrow>
    \<exists>d' t' err' r'. newlineFilter_loop Read (d @ t) (int (length d)) err r = Some (d' @ t', int (length d'), err', r')
      \<and> length d' + length t' = length d + length t \<and> ok r' \<and> nonl (d @ content r) = d' @ nonl (content r')
      \<and> (err' = None \<or> err' = Some EOF \<and> content r' = []) \<and> bound r' \<le> bound r \<and> (err \<noteq> None \<and> err' = None \<longrightarrow> bound r' < bound r)"
proof (induction "if err = None then bound r + 1 else 0" arbitrary: d t r err rule: less_induct)
  case less
  note step = newlineFilter_loop.simps [of Read "d @ t" "int (length d)" err r]
  show ?case
  proof (cases "d = []")
    case True
    then show ?thesis using step less.prems by (intro exI [of _ "[]"] exI [of _ t] exI [of _ err] exI [of _ r]) auto
  next
    case False
    obtain t1 where c: "compact (d @ t) (int (length d)) 0 0 = Some (nonl d @ t1, int (length (nonl d)))" "length (nonl d @ t1) = length (d @ t)"
      using compact_start by blast
    show ?thesis
    proof (cases "nonl d = []")
      case False
      then have "newlineFilter_loop Read (d @ t) (int (length d)) err r = Some (nonl d @ t1, int (length (nonl d)), err, r)"
        using step \<open>d \<noteq> []\<close> c(1) by simp
      then show ?thesis using c(2) less.prems by (intro exI [of _ "nonl d"] exI [of _ t1] exI [of _ err] exI [of _ r]) auto
    next
      case True
      have p: "t1 \<noteq> []" "length t1 = length d + length t" using c(2) True \<open>d \<noteq> []\<close> by auto
      obtain d2 t2 err2 r2 where r2: "Read t1 r = Some (d2 @ t2, int (length d2), err2, r2)" "length d2 + length t2 = length t1" "ok r2"
        "content r = d2 @ content r2" "err2 = None \<and> (t1 \<noteq> [] \<longrightarrow> bound r2 < bound r) \<or> err2 = Some EOF \<and> content r2 = [] \<and> bound r2 \<le> bound r"
        using io_reader.Read_step [OF rd less.prems(1), of t1] by metis
      have st: "newlineFilter_loop Read (d @ t) (int (length d)) err r = newlineFilter_loop Read (d2 @ t2) (int (length d2)) err2 r2"
        using step \<open>d \<noteq> []\<close> c(1) True r2(1) by simp
      have pre: "err2 = None \<or> err2 = Some EOF \<and> content r2 = []" using r2(5) by blast
      have "\<exists>d' t' err' r'. newlineFilter_loop Read (d2 @ t2) (int (length d2)) err2 r2 = Some (d' @ t', int (length d'), err', r')
        \<and> length d' + length t' = length d2 + length t2 \<and> ok r' \<and> nonl (d2 @ content r2) = d' @ nonl (content r')
        \<and> (err' = None \<or> err' = Some EOF \<and> content r' = []) \<and> bound r' \<le> bound r2 \<and> (err2 \<noteq> None \<and> err' = None \<longrightarrow> bound r' < bound r2)"
      proof (cases "err = None")
        case True
        then show ?thesis using less.hyps [OF _ r2(3) pre, of d2 t2] r2(5) p(1) by (cases "err2 = None") auto
      next
        case False
        then have "d2 = []" using less.prems(2) r2(4) by auto
        then show ?thesis using pre r2(3) newlineFilter_loop.simps [of Read t2 0 err2 r2]
          by (intro exI [of _ "[]"] exI [of _ t2] exI [of _ err2] exI [of _ r2]) auto
      qed
      then obtain d' t' err' r' where "newlineFilter_loop Read (d2 @ t2) (int (length d2)) err2 r2 = Some (d' @ t', int (length d'), err', r')"
        "length d' + length t' = length d2 + length t2" "ok r'" "nonl (d2 @ content r2) = d' @ nonl (content r')"
        "err' = None \<or> err' = Some EOF \<and> content r' = []" "bound r' \<le> bound r2" "err2 \<noteq> None \<and> err' = None \<longrightarrow> bound r' < bound r2" by blast
      then show ?thesis unfolding st using r2(2,4,5) p True
        by (intro exI [of _ d'] exI [of _ t'] exI [of _ err'] exI [of _ r']) auto
    qed
  qed
qed

lemma io_reader_newlines:
  assumes rd: "io_reader Read ok content bound"
  shows "io_reader (newlineFilteringReader_Read Read) ok (nonl \<circ> content) bound"
proof
  fix p r assume "ok r"
  then obtain d t err r1 where r1: "Read p r = Some (d @ t, int (length d), err, r1)" "length d + length t = length p" "ok r1"
    "content r = d @ content r1" "err = None \<and> (p \<noteq> [] \<longrightarrow> bound r1 < bound r) \<or> err = Some EOF \<and> content r1 = [] \<and> bound r1 \<le> bound r"
    using io_reader.Read_step [OF rd] by metis
  have "err = None \<or> err = Some EOF \<and> content r1 = []" using r1(5) by blast
  from newlineFilter_loop_ok [OF rd r1(3) this, of d t]
  obtain d' t' err' r' where l: "newlineFilter_loop Read (d @ t) (int (length d)) err r1 = Some (d' @ t', int (length d'), err', r')"
    "length d' + length t' = length d + length t" "ok r'" "nonl (d @ content r1) = d' @ nonl (content r')"
    "err' = None \<or> err' = Some EOF \<and> content r' = []" "bound r' \<le> bound r1" "err \<noteq> None \<and> err' = None \<longrightarrow> bound r' < bound r1" by blast
  have "newlineFilteringReader_Read Read p r = Some (d' @ t', int (length d'), err', r')" using r1(1) l(1) by (simp add: newlineFilteringReader_Read_def)
  moreover have "length d' + length t' = length p" using l(2) r1(2) by simp
  ultimately have "delivers (newlineFilteringReader_Read Read) p r d' err' r'" by (rule deliversI)
  moreover have "p \<noteq> [] \<longrightarrow> err' = None \<longrightarrow> bound r' < bound r" using r1(5) l(6,7) by auto
  moreover have "err' \<noteq> None \<longrightarrow> bound r' \<le> bound r"
  proof (cases "p = []")
    case True
    then have "d = []" "t = []" using r1(2) by simp_all
    then show ?thesis using r1(1,5) l True newlineFilter_loop.simps [of Read "[]" 0 err r1] by auto
  next
    case False
    then show ?thesis using r1(5) l(6) by auto
  qed
  ultimately show "\<exists>d err r'. delivers (newlineFilteringReader_Read Read) p r d err r' \<and> ok r' \<and> (nonl \<circ> content) r = d @ (nonl \<circ> content) r'
    \<and> (err = None \<and> (p \<noteq> [] \<longrightarrow> bound r' < bound r) \<or> err = Some EOF \<and> (nonl \<circ> content) r' = [] \<and> bound r' \<le> bound r)"
    using r1(4,5) l by (intro exI [of _ d'] exI [of _ err'] exI [of _ r']) auto
qed

subsection \<open>Texts that decode\<close>

lemma b64_ref_accept:
  assumes "snd (b64_ref enc t)"
  obtains "t = []"
  | a b c d t' where "t = a # b # c # d # t'" "list_all (isd enc) [a, b, c, d]" "snd (b64_ref enc t')"
  | ds where "2 \<le> length ds" "length ds < 4" "t = ds @ pads enc (4 - length ds)" "fst (b64_ref enc t) = take (length ds - 1) (group_bytes enc ds)"
proof (cases "t = []")
  case False
  define ds where "ds = takeWhile (isd enc) (take 4 t)"
  define u where "u = drop (length ds) t"
  note ds = few_digits [OF _ ds_def, simplified ds_def [symmetric], OF refl]
  have t: "t = ds @ u" using ds(3) by (simp add: u_def)
  have r: "b64_ref enc t = (if length ds = 4 then (group_bytes enc ds @ fst (b64_ref enc (drop 4 t)), snd (b64_ref enc (drop 4 t)))
       else if 2 \<le> length ds \<and> (u = pads enc (4 - length ds) \<or> pads enc (4 - length ds) \<noteq> [] \<and> take (length (pads enc (4 - length ds))) u = pads enc (4 - length ds)) \<and>
           (strict enc \<longrightarrow> (\<forall>x \<in> set (drop (length ds - 1) (group_bytes enc ds)). x = 0))
       then (take (length ds - 1) (group_bytes enc ds), u = pads enc (4 - length ds)) else ([], False))"
    unfolding b64_ref.simps [of enc t] Let_def ds_def [symmetric] u_def [symmetric] using False by (simp only: if_False)
  show thesis
  proof (cases "length ds = 4")
    case True
    then obtain a b c d where "ds = [a, b, c, d]" using length_4 by blast
    then show ?thesis using that(2) [of a b c d u] t ds(1) assms r by simp
  next
    case False
    then have "2 \<le> length ds" "u = pads enc (4 - length ds)" "fst (b64_ref enc t) = take (length ds - 1) (group_bytes enc ds)"
      using assms r by (auto split: if_splits)
    then show ?thesis using that(3) [of ds] t ds(2) False by simp
  qed
qed (rule that(1))

text \<open>A text that decodes may be cut behind any group.\<close>

lemma b64_ref_split:
  "snd (b64_ref enc (s @ u)) \<Longrightarrow> length s = 4 * k \<Longrightarrow>
    snd (b64_ref enc s) \<and> snd (b64_ref enc u) \<and> fst (b64_ref enc (s @ u)) = fst (b64_ref enc s) @ fst (b64_ref enc u) \<and> (0 < k \<longrightarrow> fst (b64_ref enc s) \<noteq> [])"
proof (induction k arbitrary: s)
  case (Suc k)
  from Suc.prems(1) show ?case
  proof (cases rule: b64_ref_accept)
    case 1
    then show ?thesis using Suc.prems(2) by simp
  next
    case (2 a b c d t')
    obtain s' where s': "s = a # b # c # d # s'" "t' = s' @ u" "length s' = 4 * k" using Suc.prems(2) 2(1)
      by (auto simp: Cons_eq_append_conv append_eq_Cons_conv length_Suc_conv)
    show ?thesis using Suc.IH [of s'] 2(2,3) s' length_group_bytes [of enc "[a, b, c, d]"]
      by (auto simp: b64_ref_group simp del: length_group_bytes)
  next
    case (3 ds)
    have "length (s @ u) \<le> 4" using 3(1-3) by (simp add: pads_def)
    then have u: "u = []" using Suc.prems(2) by simp
    have "fst (b64_ref enc s) \<noteq> []" using 3(1,2,4) u by (auto simp: length_0_conv [symmetric] simp del: length_0_conv)
    then show ?thesis using u Suc.prems(1) by simp
  qed
qed simp

text \<open>A short text that decodes: nothing, or a final fragment where there is no padding.\<close>

lemma b64_ref_short:
  assumes "snd (b64_ref enc t)" "length t < 4" "t \<noteq> []"
  shows "padChar enc = NoPadding \<and> fst (b64_ref enc t) \<noteq> []"
  using assms(1)
proof (cases rule: b64_ref_accept)
  case (3 ds)
  have "length (fst (b64_ref enc t)) = length ds - 1" using 3(2,4) by simp
  moreover have "padChar enc = NoPadding" using 3(2,3) assms(2) by (auto simp: pads_def split: if_splits)
  ultimately show ?thesis using 3(1) by auto
qed (use assms(2,3) in auto)

lemma room_groups: "room enc (4 * k) = 3 * k"
  by (simp add: room_def)

subsection \<open>The decoder\<close>

lemma nonl_prefix:
  assumes "nonl (s @ t) = d @ nonl t'"
  shows "nonl d = d"
proof -
  have idem: "nonl (nonl x) = nonl x" for x by (simp add: nonl_def)
  have "nonl d @ nonl t' = d @ nonl t'" using arg_cong [OF assms, of nonl] assms idem by simp
  then show ?thesis by simp
qed

lemma nonl_id_append: "nonl (s @ t) = s @ t \<longleftrightarrow> nonl s = s \<and> nonl t = t"
  unfolding nonl_def filter_id_conv by auto

locale b64_source = io_reader Read ok content bound
  for Read :: "('r, base64_error + 'e) reader" and ok content bound +
  fixes enc :: encoding
  assumes valid: "valid_encoding enc"
begin

text \<open>The text the decoder has not decoded yet, its invariant, and the bytes it still has to deliver.\<close>

definition pending :: "('r, 'e) b64_decoder \<Rightarrow> byte list" where
  "pending d = take (nat (dec_nbuf d)) (dec_buf d) @ nonl (content (dec_r d))"

definition dec_inv :: "('r, 'e) b64_decoder \<Rightarrow> bool" where
  "dec_inv d \<longleftrightarrow> ok (dec_r d) \<and> length (dec_buf d) = 1024 \<and> length (dec_outbuf d) = 768 \<and> 0 \<le> dec_nbuf d \<and> dec_nbuf d \<le> 1024
     \<and> nonl (take (nat (dec_nbuf d)) (dec_buf d)) = take (nat (dec_nbuf d)) (dec_buf d)
     \<and> (dec_readErr d = None \<or> dec_readErr d = Some EOF \<and> nonl (content (dec_r d)) = [])
     \<and> (dec_err d = None \<or> dec_err d = Some EOF \<and> pending d = []) \<and> snd (b64_ref enc (pending d))"

text \<open>The part of the invariant that does not speak of the text.\<close>

definition dec_wf :: "('r, 'e) b64_decoder \<Rightarrow> bool" where
  "dec_wf d \<longleftrightarrow> ok (dec_r d) \<and> length (dec_buf d) = 1024 \<and> length (dec_outbuf d) = 768 \<and> 0 \<le> dec_nbuf d \<and> dec_nbuf d \<le> 1024
     \<and> nonl (take (nat (dec_nbuf d)) (dec_buf d)) = take (nat (dec_nbuf d)) (dec_buf d)
     \<and> (dec_readErr d = None \<or> dec_readErr d = Some EOF \<and> nonl (content (dec_r d)) = [])"

lemma dec_inv_wf: "dec_inv d \<longleftrightarrow> dec_wf d \<and> (dec_err d = None \<or> dec_err d = Some EOF \<and> pending d = []) \<and> snd (b64_ref enc (pending d))"
  by (simp add: dec_inv_def dec_wf_def)

definition dec_content :: "('r, 'e) b64_decoder \<Rightarrow> byte list" where
  "dec_content d = dec_out d @ fst (b64_ref enc (pending d))"

lemma filtered: "io_reader (newlineFilteringReader_Read Read) ok (nonl \<circ> content) bound"
  by (rule io_reader_newlines) unfold_locales

text \<open>One round of refilling the buffer from \<open>k\<close> to \<open>m\<close> bytes.\<close>

lemma refill_round:
  assumes inv: "dec_wf d" "dec_readErr d = None" "dec_nbuf d = int k" and m: "k < m" "m \<le> 1024"
  obtains buf n err r where
    "on_slice (dec_buf d) (int k) (int m) (\<lambda>p. newlineFilteringReader_Read Read p (dec_r d)) = Some (buf, int n, err, r)"
    "dec_wf (d\<lparr>dec_buf := buf, dec_readErr := err, dec_r := r, dec_nbuf := int k + int n\<rparr>)"
    "pending (d\<lparr>dec_buf := buf, dec_readErr := err, dec_r := r, dec_nbuf := int k + int n\<rparr>) = pending d"
    "err = None \<and> bound r < bound (dec_r d) \<or> err = Some EOF"
proof -
  define p where "p = drop k (take m (dec_buf d))"
  have len: "length (dec_buf d) = 1024" using inv(1) by (simp add: dec_wf_def)
  then have lp: "length p = m - k" "p \<noteq> []" using m by (simp_all add: p_def flip: length_greater_0_conv)
  have okr: "ok (dec_r d)" using inv(1) by (simp add: dec_wf_def)
  obtain x t err r where r: "newlineFilteringReader_Read Read p (dec_r d) = Some (x @ t, int (length x), err, r)" "length x + length t = length p" "ok r"
    "(nonl \<circ> content) (dec_r d) = x @ (nonl \<circ> content) r"
    "err = None \<and> (p \<noteq> [] \<longrightarrow> bound r < bound (dec_r d)) \<or> err = Some EOF \<and> (nonl \<circ> content) r = [] \<and> bound r \<le> bound (dec_r d)"
    using io_reader.Read_step [OF filtered okr, of p] .
  define buf where "buf = take k (dec_buf d) @ (x @ t) @ drop m (dec_buf d)"
  define d' where "d' = d\<lparr>dec_buf := buf, dec_readErr := err, dec_r := r, dec_nbuf := int k + int (length x)\<rparr>"
  have x: "nonl x = x" using nonl_prefix [of "[]" "content (dec_r d)" x] r(4) by simp
  have lb: "length buf = 1024" using len lp m r(2) by (simp add: buf_def)
  have k: "k \<le> length (dec_buf d)" "k + length x \<le> 1024" using len m r(2) lp by simp_all
  then have "nat (dec_nbuf d') = length (take k (dec_buf d) @ x)" by (simp add: d'_def nat_int_add)
  moreover have "dec_buf d' = (take k (dec_buf d) @ x) @ t @ drop m (dec_buf d)" by (simp add: d'_def buf_def)
  ultimately have tk: "take (nat (dec_nbuf d')) (dec_buf d') = take k (dec_buf d) @ x" by (metis append_eq_conv_conj)
  have s: "slice_of (dec_buf d) (int k) (int m) = Some p" using m len by (simp add: slice_of_def p_def)
  have "on_slice (dec_buf d) (int k) (int m) (\<lambda>p. newlineFilteringReader_Read Read p (dec_r d)) = Some (buf, int (length x), err, r)"
    using r(1) s by (simp add: on_slice_def buf_def)
  moreover have pd: "pending d' = pending d" unfolding pending_def tk using r(4) inv(3) by (simp add: d'_def)
  moreover have "dec_wf d'"
    using inv lb k r(3,5) x pd tk unfolding dec_wf_def by (auto simp: d'_def)
  ultimately show thesis using r(5) lp(2) that [of buf "length x" err r] by (auto simp: d'_def)
qed

lemma dec_refill_wf:
  "dec_wf d \<Longrightarrow> \<exists>d'. dec_refill Read (int l) d = Some d' \<and> dec_wf d' \<and> pending d' = pending d \<and> dec_out d' = dec_out d \<and> dec_err d' = dec_err d
    \<and> (4 \<le> dec_nbuf d' \<or> dec_readErr d' = Some EOF)"
proof (induction "if dec_readErr d = None then bound (dec_r d) + 1 else 0" arbitrary: d rule: less_induct)
  case less
  show ?case
  proof (cases "dec_nbuf d < 4 \<and> dec_readErr d = None")
    case False
    then show ?thesis using less.prems by (subst dec_refill.simps) (auto simp: dec_wf_def)
  next
    case True
    obtain k where k: "dec_nbuf d = int k" "k < 4" using True less.prems nonneg_int_cases [of "dec_nbuf d"] by (auto simp: dec_wf_def)
    define q where "q = l div 3"
    have q: "int l div 3 = int q" by (simp add: q_def zdiv_int)
    define m where "m = min (max (q * 4) 4) 1024"
    have len: "length (dec_buf d) = 1024" using less.prems by (simp add: dec_wf_def)
    have m: "k < m" "m \<le> 1024" using k(2) by (auto simp: m_def)
    obtain buf n err r where r: "on_slice (dec_buf d) (int k) (int m) (\<lambda>p. newlineFilteringReader_Read Read p (dec_r d)) = Some (buf, int n, err, r)"
      "dec_wf (d\<lparr>dec_buf := buf, dec_readErr := err, dec_r := r, dec_nbuf := int k + int n\<rparr>)"
      "pending (d\<lparr>dec_buf := buf, dec_readErr := err, dec_r := r, dec_nbuf := int k + int n\<rparr>) = pending d"
      "err = None \<and> bound r < bound (dec_r d) \<or> err = Some EOF"
      using refill_round [OF less.prems conjunct2 [OF True] k(1) m] .
    define d1 where "d1 = d\<lparr>dec_buf := buf, dec_readErr := err, dec_r := r, dec_nbuf := int k + int n\<rparr>"
    have nn: "(if int (length (dec_buf d)) < (if int l div 3 * 4 < 4 then 4 else int l div 3 * 4) then int (length (dec_buf d))
        else if int l div 3 * 4 < 4 then 4 else int l div 3 * 4) = int m"
      unfolding len m_def q by (auto simp: min_def max_def)
    have "dec_refill Read (int l) d = dec_refill Read (int l) d1"
      unfolding dec_refill.simps [of Read "int l" d] Let_def nn if_P [OF True] unfolding k(1) r(1) by (simp add: d1_def)
    moreover have "(if dec_readErr d1 = None then bound (dec_r d1) + 1 else 0) < (if dec_readErr d = None then bound (dec_r d) + 1 else 0)"
      using r(4) True by (auto simp: d1_def)
    ultimately show ?thesis using less.hyps [of d1] r(2,3) by (auto simp: d1_def)
  qed
qed

lemma dec_refill_ok:
  "dec_inv d \<Longrightarrow> \<exists>d'. dec_refill Read (int l) d = Some d' \<and> dec_inv d' \<and> pending d' = pending d \<and> dec_out d' = dec_out d \<and> dec_err d' = dec_err d
    \<and> (4 \<le> dec_nbuf d' \<or> dec_readErr d' = Some EOF)"
  using dec_refill_wf [of d l] unfolding dec_inv_wf by fastforce

text \<open>Copying from \<open>out\<close> delivers its front.\<close>

lemma dec_copy_ok:
  assumes "x = take (length p) (dec_out d)"
  shows "dec_copy p d = Some (x @ drop (length x) p, int (length x), d\<lparr>dec_out := drop (length p) (dec_out d)\<rparr>)"
proof -
  have "drop (length x) (dec_out d) = drop (length p) (dec_out d)" using assms by (cases "length p \<le> length (dec_out d)") simp_all
  then show ?thesis using assms by (simp add: dec_copy_def copy_into_eq from_index_def)
qed

lemma dec_inv_out [simp]: "dec_inv (d\<lparr>dec_out := x\<rparr>) = dec_inv d" "pending (d\<lparr>dec_out := x\<rparr>) = pending d"
  by (simp_all add: dec_inv_def pending_def)

text \<open>What a call delivers, in terms of \<open>dec_content\<close>.\<close>

definition dec_result :: "byte list \<Rightarrow> ('r, 'e) b64_decoder \<Rightarrow> (byte list \<times> int \<times> 'e b64_err option \<times> ('r, 'e) b64_decoder) option \<Rightarrow> bool" where
  "dec_result p d res \<longleftrightarrow> (\<exists>x t err d'. res = Some (x @ t, int (length x), err, d') \<and> length x + length t = length p \<and> dec_inv d' \<and> dec_content d = x @ dec_content d'
     \<and> (err = None \<and> (p \<noteq> [] \<longrightarrow> x \<noteq> []) \<or> err = Some EOF \<and> dec_content d' = []))"

lemma dec_resultI:
  assumes "res = Some (x @ t, int (length x), err, d')" "length x + length t = length p" "dec_inv d'" "dec_content d = x @ dec_content d'"
    "err = None \<and> (p \<noteq> [] \<longrightarrow> x \<noteq> []) \<or> err = Some EOF \<and> dec_content d' = []"
  shows "dec_result p d res"
  using assms by (auto simp: dec_result_def)

text \<open>Copying from a full \<open>out\<close> with no error.\<close>

lemma dec_copy_result:
  assumes "dec_inv d1" "dec_content d = dec_content d1" "dec_out d1 \<noteq> []"
  shows "dec_result p d (do { (p, n, d) \<leftarrow> dec_copy p d1; Some (p, n, None, d) })"
proof (rule dec_resultI)
  let ?x = "take (length p) (dec_out d1)"
  show "do { (p, n, d) \<leftarrow> dec_copy p d1; Some (p, n, None, d) } = Some (?x @ drop (length ?x) p, int (length ?x), None, d1\<lparr>dec_out := drop (length p) (dec_out d1)\<rparr>)"
    by (simp add: dec_copy_ok [OF refl] del: length_take)
  show "dec_content d = ?x @ dec_content (d1\<lparr>dec_out := drop (length p) (dec_out d1)\<rparr>)" using assms(2) by (simp add: dec_content_def)
qed (use assms in \<open>auto simp: min_def\<close>)

text \<open>The reference decides what \<^verbatim>\<open>Decode\<close> does with a text that has no newlines and is accepted.\<close>

lemma Decode_accepted:
  assumes "nonl s = s" "snd (b64_ref enc s)" "room enc (length s) \<le> length dst"
  shows "\<exists>t. b64_Decode enc dst s = Some (fst (b64_ref enc s) @ t, int (length (fst (b64_ref enc s))), None) \<and> length (fst (b64_ref enc s) @ t) = length dst"
proof -
  obtain dst' n err where d: "b64_Decode enc dst s = Some (dst', int n, err)" "length dst' = length dst" "n \<le> length dst'" "take n dst' = fst (b64_ref enc s)"
    "case err of None \<Rightarrow> snd (b64_ref enc s) | Some (CorruptInputError k) \<Rightarrow> \<not> snd (b64_ref enc s) \<and> 0 \<le> k \<and> k \<le> int (length s)"
    using b64_Decode_ok [OF valid assms(3), unfolded assms(1)] by blast
  have "err = None" using d(5) assms(2) by (auto split: option.splits base64_error.splits)
  moreover have "length (fst (b64_ref enc s)) = n" using arg_cong [OF d(4), of length] d(3) by simp
  ultimately show ?thesis using d(1-4) by (intro exI [of _ "drop n dst'"]) (metis append_take_drop_id)
qed

lemma dec_final_ok:
  assumes inv: "dec_inv d" "dec_out d = []" "dec_err d = None" "dec_nbuf d < 4" "dec_readErr d = Some EOF"
  shows "dec_result p d (dec_final enc p d)"
proof -
  define s where "s = take (nat (dec_nbuf d)) (dec_buf d)"
  have s: "pending d = s" "nonl s = s" "snd (b64_ref enc s)" "length s < 4" "int (length s) = dec_nbuf d"
    using inv by (auto simp: dec_inv_def pending_def s_def)
  show ?thesis
  proof (cases "s = []")
    case True
    have e: "dec_end p d = (p, 0, Some EOF, d\<lparr>dec_err := Some EOF\<rparr>)" using inv(5) s(5) True by (simp add: dec_end_def)
    have i: "dec_inv (d\<lparr>dec_err := Some EOF\<rparr>)" using inv(1) s(1) True by (simp add: dec_inv_def pending_def)
    show ?thesis
      by (rule dec_resultI [of _ "[]" p "Some EOF" "d\<lparr>dec_err := Some EOF\<rparr>"])
        (use i s(1,5) True inv(2) e in \<open>simp_all add: dec_final_def dec_content_def pending_def\<close>)
  next
    case False
    note sh = b64_ref_short [OF s(3,4) False]
    define x where "x = fst (b64_ref enc s)"
    have "room enc (length s) \<le> 3" using s(4) sh by (simp add: room_def)
    then obtain t where t: "b64_Decode enc (dec_outbuf d) s = Some (x @ t, int (length x), None)" "length (x @ t) = 768"
      using Decode_accepted [OF s(2,3), of "dec_outbuf d"] inv(1) by (auto simp: dec_inv_def x_def)
    define d1 where "d1 = d\<lparr>dec_err := None, dec_nbuf := 0, dec_outbuf := x @ t, dec_out := x\<rparr>"
    have n0: "nonl (content (dec_r d)) = []" using inv(1,5) by (simp add: dec_inv_def)
    then have i1: "dec_inv d1" "dec_content d1 = x" using inv(1) t(2) by (simp_all add: dec_inv_def d1_def pending_def dec_content_def)
    have c: "dec_content d = dec_content d1" using i1(2) inv(2) s(1) by (simp add: dec_content_def x_def)
    have sl: "slice_of (dec_buf d) 0 (dec_nbuf d) = Some s" using inv(1) by (simp add: dec_inv_def slice_of_def s_def)
    have n: "0 < dec_nbuf d" using False s(5) by (cases s) simp_all
    define y where "y = take (length p) x"
    have "0 < length y \<or> length p = 0 \<and> 0 < length (drop (length p) x)" using sh by (cases p) (auto simp: y_def x_def)
    then have "dec_final enc p d = do { (p, n, d) \<leftarrow> dec_copy p d1; Some (p, n, None, d) }"
      using sh n sl t(1) dec_copy_ok [of y p d1] by (cases p) (auto simp: dec_final_def corrupt_def d1_def y_def)
    then show ?thesis using dec_copy_result [OF i1(1) c] sh by (simp add: d1_def x_def)
  qed
qed

lemma dec_chunk_ok:
  assumes inv: "dec_inv d" "dec_out d = []" "dec_err d = None" "4 \<le> dec_nbuf d"
  shows "dec_result p d (dec_chunk enc p d)"
proof -
  define n where "n = nat (dec_nbuf d)"
  define k where "k = n div 4"
  have n: "dec_nbuf d = int n" "n \<le> 1024" "4 * k \<le> n" "0 < k" using inv(1,4) by (auto simp: dec_inv_def n_def k_def div_greater_zero_iff nat_le_iff)
  have nr: "dec_nbuf d div 4 * 4 = int (4 * k)" "dec_nbuf d div 4 * 3 = int (3 * k)" unfolding n(1) k_def by (simp_all add: zdiv_int)
  have len: "length (dec_buf d) = 1024" "length (dec_outbuf d) = 768" using inv(1) by (simp_all add: dec_inv_def)
  define s where "s = take (4 * k) (dec_buf d)"
  define rest where "rest = drop (4 * k) (take n (dec_buf d))"
  have sr: "take n (dec_buf d) = s @ rest" using n(3) by (simp add: s_def rest_def) (metis append_take_drop_id min.absorb1 take_take)
  have ls: "length s = 4 * k" using len n by (simp add: s_def)
  have nl: "nonl s = s" "nonl rest = rest"
  proof -
    have "nonl (s @ rest) = s @ rest" using inv(1) sr by (simp add: dec_inv_def n_def)
    then show "nonl s = s" "nonl rest = rest" using nonl_id_append by blast+
  qed
  have pd: "pending d = s @ rest @ nonl (content (dec_r d))" using sr by (simp add: pending_def n_def)
  have ref: "snd (b64_ref enc s)" "snd (b64_ref enc (rest @ nonl (content (dec_r d))))"
    "fst (b64_ref enc (pending d)) = fst (b64_ref enc s) @ fst (b64_ref enc (rest @ nonl (content (dec_r d))))" "fst (b64_ref enc s) \<noteq> []"
    using b64_ref_split [of enc s "rest @ nonl (content (dec_r d))" k] inv(1) ls n(4) unfolding pd by (simp_all add: dec_inv_def pd)
  define x where "x = fst (b64_ref enc s)"
  have src: "slice_of (dec_buf d) 0 (int (4 * k)) = Some s" using len n unfolding s_def by (intro slice_of_take) simp
  have rm: "room enc (length s) = 3 * k" using room_groups ls by simp
  define buf where "buf = rest @ drop (length rest) (dec_buf d)"
  define m where "m = n - 4 * k"
  have nm: "n = 4 * k + m" "dec_nbuf d - int (4 * k) = int m" using n by (simp_all add: m_def)
  have lr: "length rest = m" using len n by (simp add: rest_def m_def)
  have move: "from_index (dec_buf d) (int (4 * k)) = Some (drop (4 * k) (dec_buf d))"
    "on_slice (dec_buf d) 0 (int m) (\<lambda>t. Some (copy_into t (drop (4 * k) (dec_buf d)))) = Some (buf, int m)"
  proof -
    show "from_index (dec_buf d) (int (4 * k)) = Some (drop (4 * k) (dec_buf d))" using len n by (simp add: from_index_def nat_mult_distrib)
    have "take (m) (drop (4 * k) (dec_buf d)) = rest" by (simp add: rest_def drop_take m_def)
    then show "on_slice (dec_buf d) 0 (int m) (\<lambda>t. Some (copy_into t (drop (4 * k) (dec_buf d)))) = Some (buf, int m)"
      using len n nm(1) lr by (simp add: on_slice_def slice_of_def copy_into_eq buf_def)
  qed
  have fin: "dec_inv (d1\<lparr>dec_nbuf := int m, dec_buf := buf\<rparr>)" "pending (d1\<lparr>dec_nbuf := int m, dec_buf := buf\<rparr>) = rest @ nonl (content (dec_r d))"
    if "d1 = d\<lparr>dec_outbuf := ob, dec_out := ot\<rparr>" "length ob = 768" for d1 ob ot
  proof -
    have "take (m) buf = rest" "length buf = 1024" using lr len n nm(1) by (simp_all add: buf_def)
    then show "pending (d1\<lparr>dec_nbuf := int m, dec_buf := buf\<rparr>) = rest @ nonl (content (dec_r d))"
      and "dec_inv (d1\<lparr>dec_nbuf := int m, dec_buf := buf\<rparr>)"
      using inv that nl(2) ref(2) n(2) nm(1) by (simp_all add: dec_inv_def pending_def)
  qed
  show ?thesis
  proof (cases "3 * k > length p")
    case True
    have "room enc (length s) \<le> length (dec_outbuf d)" using rm len(2) n by simp
    then obtain t where t: "b64_Decode enc (dec_outbuf d) s = Some (x @ t, int (length x), None)" "length (x @ t) = 768"
      using Decode_accepted [OF nl(1) ref(1), of "dec_outbuf d"] len(2) by (auto simp: x_def)
    define y where "y = take (length p) x"
    define d1 where "d1 = d\<lparr>dec_outbuf := x @ t, dec_out := drop (length p) x\<rparr>"
    have c: "dec_chunk enc p d = Some (y @ drop (length y) p, int (length y), None, d1\<lparr>dec_nbuf := int m, dec_buf := buf\<rparr>)"
      using True src t(1) dec_copy_ok [of y p "d\<lparr>dec_err := None, dec_outbuf := x @ t, dec_out := x\<rparr>"] move inv(3)
      by (simp add: dec_chunk_def Let_def nr nm(2) corrupt_def y_def d1_def del: of_nat_mult of_nat_numeral)
    show ?thesis
      by (rule dec_resultI [OF c]) (use fin [OF d1_def t(2)] ref(3,4) inv(2) in \<open>auto simp: y_def x_def dec_content_def d1_def\<close>)
  next
    case False
    then obtain t where t: "b64_Decode enc p s = Some (x @ t, int (length x), None)" "length (x @ t) = length p"
      using Decode_accepted [OF nl(1) ref(1), of p] rm by (auto simp: x_def)
    have "d = d\<lparr>dec_outbuf := dec_outbuf d, dec_out := dec_out d\<rparr>" by simp
    note fin = fin [OF this len(2)]
    have c: "dec_chunk enc p d = Some (x @ t, int (length x), None, d\<lparr>dec_nbuf := int m, dec_buf := buf\<rparr>)"
      using False src t(1) move inv(3)
      by (simp add: dec_chunk_def Let_def nr nm(2) corrupt_def del: of_nat_mult of_nat_numeral)
    show ?thesis
      by (rule dec_resultI [OF c]) (use fin ref(3,4) inv(2) t(2) in \<open>auto simp: x_def dec_content_def\<close>)
  qed
qed

lemma decoder_Read_ok:
  assumes inv: "dec_inv d"
  shows "dec_result p d (b64_decoder_Read enc Read p d)"
proof (cases "dec_out d = []")
  case False
  then show ?thesis using dec_copy_result [OF inv refl False, of p] by (simp add: b64_decoder_Read_def)
next
  case out: True
  show ?thesis
  proof (cases "dec_err d = None")
    case False
    then have "dec_err d = Some EOF" "pending d = []" using inv by (auto simp: dec_inv_def)
    then show ?thesis using out inv by (intro dec_resultI [of _ "[]" p "Some EOF" d]) (simp_all add: b64_decoder_Read_def dec_content_def)
  next
    case True
    obtain d' where d': "dec_refill Read (int (length p)) d = Some d'" "dec_inv d'" "pending d' = pending d" "dec_out d' = dec_out d" "dec_err d' = dec_err d"
      "4 \<le> dec_nbuf d' \<or> dec_readErr d' = Some EOF" using dec_refill_ok [OF inv] by blast
    have c: "dec_content d = dec_content d'" using d'(3,4) by (simp add: dec_content_def)
    have "dec_result p d' (if dec_nbuf d' < 4 then dec_final enc p d' else dec_chunk enc p d')"
      using dec_final_ok [of d' p] dec_chunk_ok [of d' p] d' out True by auto
    then show ?thesis using out True d'(1) c by (simp add: b64_decoder_Read_def dec_result_def)
  qed
qed

lemma decoder_reader: "io_reader (b64_decoder_Read enc Read) dec_inv dec_content (length \<circ> dec_content)"
proof
  fix p d assume "dec_inv d"
  from decoder_Read_ok [OF this, of p] obtain x t err d' where r: "b64_decoder_Read enc Read p d = Some (x @ t, int (length x), err, d')"
    "length x + length t = length p" "dec_inv d'" "dec_content d = x @ dec_content d'"
    "err = None \<and> (p \<noteq> [] \<longrightarrow> x \<noteq> []) \<or> err = Some EOF \<and> dec_content d' = []" unfolding dec_result_def by blast
  have "delivers (b64_decoder_Read enc Read) p d x err d'" using r(1,2) by (rule deliversI)
  then show "\<exists>x err d'. delivers (b64_decoder_Read enc Read) p d x err d' \<and> dec_inv d' \<and> dec_content d = x @ dec_content d'
    \<and> (err = None \<and> (p \<noteq> [] \<longrightarrow> (length \<circ> dec_content) d' < (length \<circ> dec_content) d) \<or> err = Some EOF \<and> dec_content d' = [] \<and> (length \<circ> dec_content) d' \<le> (length \<circ> dec_content) d)"
    using r(3-5) by (intro exI [of _ x] exI [of _ err] exI [of _ d']) auto
qed

lemma NewDecoder_ok:
  assumes "ok r" "snd (b64_ref enc (nonl (content r)))"
  shows "dec_inv (b64_NewDecoder r)" "dec_content (b64_NewDecoder r) = fst (b64_ref enc (nonl (content r)))"
  using assms by (simp_all add: dec_inv_def dec_content_def pending_def b64_NewDecoder_def)

end

end
