(* ===== verification/Base64_Stream_Any.thy ===== *)
theory Base64_Stream_Any
  imports Base64_Stream
begin

text \<open>
  The streaming decoder on any text: reading everything always returns, and without an error only when the text is made of pieces
  that decode without one.
\<close>

subsection \<open>Texts in pieces\<close>

definition pieces_of :: "encoding \<Rightarrow> byte list \<Rightarrow> byte list \<Rightarrow> bool" where
  "pieces_of enc t y \<longleftrightarrow> (\<exists>cs. t = concat cs \<and> (\<forall>c \<in> set cs. snd (b64_ref enc c)) \<and> y = concat (map (\<lambda>c. fst (b64_ref enc c)) cs))"

lemma nonl_piece:
  assumes "nonl t = a @ c @ b"
  shows "nonl c = c"
proof -
  have "nonl (nonl t) = nonl t" by (simp add: nonl_def)
  then have "nonl (a @ c @ b) = a @ c @ b" unfolding assms .
  then show ?thesis using nonl_id_append by blast
qed

lemma pieces_of_Nil: "pieces_of enc [] []"
  unfolding pieces_of_def by (rule exI [of _ "[]"]) simp

lemma pieces_of_append:
  assumes "snd (b64_ref enc c)" "pieces_of enc u y"
  shows "pieces_of enc (c @ u) (fst (b64_ref enc c) @ y)"
proof -
  obtain cs where "u = concat cs" "\<forall>c \<in> set cs. snd (b64_ref enc c)" "y = concat (map (\<lambda>c. fst (b64_ref enc c)) cs)"
    using assms(2) by (auto simp: pieces_of_def)
  then show ?thesis using assms(1) unfolding pieces_of_def by (intro exI [of _ "c # cs"]) simp
qed

text \<open>The errors the decoder makes itself, other than EOF.\<close>

definition decode_error :: "'e b64_err \<Rightarrow> bool" where
  "decode_error e \<longleftrightarrow> e = ErrUnexpectedEOF \<or> (\<exists>k. e = OtherError (Inl (CorruptInputError k)))"

lemma not_decode_error_EOF [simp]: "\<not> decode_error EOF"
  by (simp add: decode_error_def)

lemma corrupt_cases: "corrupt err = (None :: 'e b64_err option) \<longleftrightarrow> err = None" "corrupt err = Some (e :: 'e b64_err) \<Longrightarrow> decode_error e"
  by (cases err; auto simp: corrupt_def decode_error_def intro: base64_error.exhaust)+

text \<open>What the bytes \<open>y\<close> must be that come from the text \<open>t\<close> when the error is already known.\<close>

fun ends_well :: "encoding \<Rightarrow> 'e b64_err option \<Rightarrow> byte list \<Rightarrow> byte list \<Rightarrow> bool" where
  "ends_well enc None t y \<longleftrightarrow> pieces_of enc t y"
| "ends_well enc (Some e) t y \<longleftrightarrow> e = EOF \<and> y = []"

context b64_source
begin

subsection \<open>One call of Read\<close>

definition dec_any :: "('r, 'e) b64_decoder \<Rightarrow> bool" where
  "dec_any d \<longleftrightarrow> dec_wf d \<and> (case dec_err d of None \<Rightarrow> True | Some e \<Rightarrow> e = EOF \<and> pending d = [] \<or> decode_error e)"

text \<open>\<open>z\<close> is a correct rest of the data, if there is no error in it.\<close>

definition correct_rest :: "('r, 'e) b64_decoder \<Rightarrow> byte list \<Rightarrow> bool" where
  "correct_rest d z \<longleftrightarrow> (\<exists>y. z = dec_out d @ y \<and> ends_well enc (dec_err d) (pending d) y)"

definition dec_size :: "('r, 'e) b64_decoder \<Rightarrow> nat" where
  "dec_size d = 1000 * length (pending d) + length (dec_out d)"

definition any_result :: "byte list \<Rightarrow> ('r, 'e) b64_decoder \<Rightarrow> (byte list \<times> int \<times> 'e b64_err option \<times> ('r, 'e) b64_decoder) option \<Rightarrow> bool" where
  "any_result p d res \<longleftrightarrow> (\<exists>x t err d'. res = Some (x @ t, int (length x), err, d') \<and> length x + length t = length p \<and>
     (case err of
        None \<Rightarrow> dec_any d' \<and> dec_size d' < dec_size d \<and> (\<forall>z. correct_rest d' z \<longrightarrow> correct_rest d (x @ z))
      | Some e \<Rightarrow> e = EOF \<and> correct_rest d x \<or> decode_error e))"

lemma any_resultI:
  assumes "res = Some (x @ t, int (length x), err, d')" "length x + length t = length p"
    "err = None \<Longrightarrow> dec_any d' \<and> dec_size d' < dec_size d \<and> (\<forall>z. correct_rest d' z \<longrightarrow> correct_rest d (x @ z))"
    "\<And>e. err = Some e \<Longrightarrow> e = EOF \<and> correct_rest d x \<or> decode_error e"
  shows "any_result p d res"
  using assms by (cases err) (auto simp: any_result_def)

lemma dec_wf_out [simp]: "dec_wf (d\<lparr>dec_out := x\<rparr>) = dec_wf d"
  by (simp add: dec_wf_def)

text \<open>The front of \<open>out\<close> is delivered.\<close>

lemma any_copy:
  assumes "dec_any d1" "dec_out d1 \<noteq> []" "p \<noteq> []" "dec_size d1 \<le> dec_size d" "\<And>z. correct_rest d1 z \<Longrightarrow> correct_rest d z"
  shows "any_result p d (do { (p, n, d) \<leftarrow> dec_copy p d1; Some (p, n, None, d) })"
proof (rule any_resultI)
  let ?x = "take (length p) (dec_out d1)" and ?d = "d1\<lparr>dec_out := drop (length p) (dec_out d1)\<rparr>"
  show "do { (p, n, d) \<leftarrow> dec_copy p d1; Some (p, n, None, d) } = Some (?x @ drop (length ?x) p, int (length ?x), None, ?d)"
    by (simp add: dec_copy_ok [OF refl] del: length_take)
  show "length ?x + length (drop (length ?x) p) = length p" by simp
  have "length (drop (length p) (dec_out d1)) < length (dec_out d1)" using assms(2,3) by (cases p; cases "dec_out d1") auto
  then have "dec_size ?d < dec_size d" using assms(4) by (simp add: dec_size_def)
  moreover have "dec_any ?d" using assms(1) by (simp add: dec_any_def split: option.splits)
  moreover have "correct_rest d (?x @ z)" if z: "correct_rest ?d z" for z
  proof (rule assms(5))
    obtain y where "z = drop (length p) (dec_out d1) @ y" "ends_well enc (dec_err d1) (pending d1) y" using z by (auto simp: correct_rest_def)
    then show "correct_rest d1 (?x @ z)" unfolding correct_rest_def by (intro exI [of _ y]) simp
  qed
  ultimately show "dec_any ?d \<and> dec_size ?d < dec_size d \<and> (\<forall>z. correct_rest ?d z \<longrightarrow> correct_rest d (?x @ z))" by blast
qed simp

lemma Decode_any:
  assumes "nonl s = s" "room enc (length s) \<le> length dst"
  obtains t err where "b64_Decode enc dst s = Some (fst (b64_ref enc s) @ t, int (length (fst (b64_ref enc s))), err)"
    "length (fst (b64_ref enc s) @ t) = length dst" "err = None \<longleftrightarrow> snd (b64_ref enc s)"
proof -
  obtain dst' n err where d: "b64_Decode enc dst s = Some (dst', int n, err)" "length dst' = length dst" "n \<le> length dst'" "take n dst' = fst (b64_ref enc s)"
    "case err of None \<Rightarrow> snd (b64_ref enc s) | Some (CorruptInputError k) \<Rightarrow> \<not> snd (b64_ref enc s) \<and> 0 \<le> k \<and> k \<le> int (length s)"
    using b64_Decode_ok [OF valid assms(2), unfolded assms(1)] by blast
  have "err = None \<longleftrightarrow> snd (b64_ref enc s)" using d(5) by (auto split: option.splits base64_error.splits)
  moreover have "length (fst (b64_ref enc s)) = n" using arg_cong [OF d(4), of length] d(3) by simp
  moreover have "dst' = fst (b64_ref enc s) @ drop n dst'" using d(4) by (metis append_take_drop_id)
  ultimately show thesis using d(1,2) that [of "drop n dst'" err] by simp
qed

lemma any_end:
  assumes "dec_wf d" "dec_err d = None" "dec_out d = []" "dec_readErr d = Some EOF" "dec_nbuf d < 4"
  shows "any_result p d (Some (dec_end p (d\<lparr>dec_err := e\<rparr>)))"
proof -
  define err where "err = (if 0 < dec_nbuf d then Some (ErrUnexpectedEOF :: 'e b64_err) else Some EOF)"
  have r: "Some (dec_end p (d\<lparr>dec_err := e\<rparr>)) = Some ([] @ p, int (length ([] :: byte list)), err, d\<lparr>dec_err := err\<rparr>)"
    using assms(4) by (simp add: dec_end_def err_def)
  have "correct_rest d []" if "dec_nbuf d = 0"
    using assms(1-4) that pieces_of_Nil by (simp add: correct_rest_def pending_def dec_wf_def)
  moreover have "0 \<le> dec_nbuf d" using assms(1) by (simp add: dec_wf_def)
  ultimately show ?thesis by (intro any_resultI [OF r]) (auto simp: err_def decode_error_def split: if_splits)
qed

lemma dec_final_any:
  assumes d: "dec_wf d" "dec_err d = None" "dec_out d = []" "dec_readErr d = Some EOF" "dec_nbuf d < 4" and p: "p \<noteq> []"
  shows "any_result p d (dec_final enc p d)"
proof (cases "padChar enc = NoPadding \<and> dec_nbuf d > 0")
  case False
  have "d\<lparr>dec_err := dec_err d\<rparr> = d" by simp
  then show ?thesis using any_end [OF d, of p "dec_err d"] unfolding dec_final_def if_not_P [OF False] by simp
next
  case True
  define s where "s = take (nat (dec_nbuf d)) (dec_buf d)"
  have s: "pending d = s" "nonl s = s" "length s < 4" "int (length s) = dec_nbuf d" "slice_of (dec_buf d) 0 (dec_nbuf d) = Some s" "length (dec_outbuf d) = 768"
    using d by (auto simp: dec_wf_def pending_def s_def slice_of_def)
  define x where "x = fst (b64_ref enc s)"
  have "room enc (length s) \<le> length (dec_outbuf d)" using s(3,6) True by (simp add: room_def)
  then obtain t err where t: "b64_Decode enc (dec_outbuf d) s = Some (x @ t, int (length x), err)" "length (x @ t) = 768" "err = None \<longleftrightarrow> snd (b64_ref enc s)"
    using Decode_any [OF s(2), of "dec_outbuf d"] s(6) unfolding x_def by metis
  define d1 where "d1 = d\<lparr>dec_err := corrupt err, dec_nbuf := 0, dec_outbuf := x @ t, dec_out := x\<rparr>"
  have pd: "pending d1 = []" "dec_wf d1" using d(1,4) t(2) by (simp_all add: pending_def d1_def dec_wf_def)
  have s0: "s \<noteq> []" using s(4) True by auto
  have fin: "dec_final enc p d = do {
       (p, n, d) \<leftarrow> dec_copy p d1;
       if n > 0 \<or> length p = 0 \<and> length (dec_out d) > 0 then Some (p, n, None, d)
       else if dec_err d \<noteq> None then Some (p, 0, dec_err d, d) else Some (dec_end p d) }"
    using True s(5) t(1) by (simp add: dec_final_def d1_def)
  show ?thesis
  proof (cases "x = []")
    case False
    have "dec_any d1" using pd corrupt_cases(2) by (auto simp: dec_any_def d1_def split: option.splits)
    moreover have "dec_size d1 \<le> dec_size d"
    proof -
      have "length x \<le> 768" using arg_cong [OF t(2), of "\<lambda>n. n"] by simp
      moreover have "1 \<le> length s" using s0 by (cases s) auto
      ultimately show ?thesis using pd(1) d(3) s(1) by (simp add: dec_size_def) (simp add: d1_def)
    qed
    moreover have "correct_rest d z" if z: "correct_rest d1 z" for z
    proof -
      have de: "dec_err d1 = corrupt err" "dec_out d1 = x" by (simp_all add: d1_def)
      obtain y where y: "z = x @ y" "ends_well enc (corrupt err :: 'e b64_err option) [] y"
        using z unfolding correct_rest_def de pd(1) by blast
      have e: "err = None"
      proof (cases "corrupt err :: 'e b64_err option")
        case (Some a)
        then show ?thesis using y(2) corrupt_cases(2) [OF Some] by simp
      qed (simp add: corrupt_cases(1))
      then have "pieces_of enc [] y" using y(2) by (simp add: corrupt_def)
      from pieces_of_append [OF _ this, of s] have "pieces_of enc s z" using t(3) e y(1) by (simp add: x_def)
      then show ?thesis using d(2,3) s(1) by (simp add: correct_rest_def)
    qed
    ultimately have "any_result p d (do { (p, n, d) \<leftarrow> dec_copy p d1; Some (p, n, None, d) })"
      using False p by (intro any_copy) (simp_all add: d1_def)
    moreover have "dec_final enc p d = do { (p, n, d) \<leftarrow> dec_copy p d1; Some (p, n, None, d) }"
      unfolding fin dec_copy_ok [OF refl] using False p by (simp add: d1_def)
    ultimately show ?thesis by simp
  next
    case True
    have "\<not> snd (b64_ref enc s)" using b64_ref_short [OF _ s(3) s0] True unfolding x_def by blast
    then have "err \<noteq> None" using t(3) by simp
    then obtain e where e: "corrupt err = Some (e :: 'e b64_err)" "decode_error e" using corrupt_cases [of err] by (metis option.exhaust)
    then have "dec_final enc p d = Some ([] @ p, int (length ([] :: byte list)), Some e, d1)"
      unfolding fin dec_copy_ok [OF refl] using True by (simp add: d1_def)
    then show ?thesis by (rule any_resultI) (use e(2) in simp_all)
  qed
qed

lemma dec_chunk_any:
  assumes d: "dec_wf d" "dec_err d = None" "dec_out d = []" "4 \<le> dec_nbuf d"
  shows "any_result p d (dec_chunk enc p d)"
proof -
  define n where "n = nat (dec_nbuf d)"
  define k where "k = n div 4"
  have n: "dec_nbuf d = int n" "n \<le> 1024" "4 * k \<le> n" "0 < k" using d(1,4) by (auto simp: dec_wf_def n_def k_def div_greater_zero_iff nat_le_iff)
  have nr: "dec_nbuf d div 4 * 4 = int (4 * k)" "dec_nbuf d div 4 * 3 = int (3 * k)" unfolding n(1) k_def by (simp_all add: zdiv_int)
  have len: "length (dec_buf d) = 1024" "length (dec_outbuf d) = 768" using d(1) by (simp_all add: dec_wf_def)
  define s where "s = take (4 * k) (dec_buf d)"
  define rest where "rest = drop (4 * k) (take n (dec_buf d))"
  define m where "m = n - 4 * k"
  define buf where "buf = rest @ drop (length rest) (dec_buf d)"
  have sr: "take n (dec_buf d) = s @ rest" using n(3) by (simp add: s_def rest_def) (metis append_take_drop_id min.absorb1 take_take)
  have ls: "length s = 4 * k" "length rest = m" "n = 4 * k + m" "dec_nbuf d - int (4 * k) = int m" using len n by (simp_all add: s_def rest_def m_def)
  have nl: "nonl s = s" "nonl rest = rest" using d(1) sr nonl_id_append [of s rest] by (simp_all add: dec_wf_def n_def)
  have pd: "pending d = s @ rest @ nonl (content (dec_r d))" using sr by (simp add: pending_def n_def)
  define x where "x = fst (b64_ref enc s)"
  have src: "slice_of (dec_buf d) 0 (int (4 * k)) = Some s" using len n unfolding s_def by (intro slice_of_take) simp
  have rm: "room enc (length s) = 3 * k" using room_groups ls by simp
  have move: "from_index (dec_buf d) (int (4 * k)) = Some (drop (4 * k) (dec_buf d))"
    "on_slice (dec_buf d) 0 (int m) (\<lambda>t. Some (copy_into t (drop (4 * k) (dec_buf d)))) = Some (buf, int m)"
  proof -
    show "from_index (dec_buf d) (int (4 * k)) = Some (drop (4 * k) (dec_buf d))" using len n by (simp add: from_index_def nat_mult_distrib)
    have "take m (drop (4 * k) (dec_buf d)) = rest" by (simp add: rest_def drop_take m_def)
    then show "on_slice (dec_buf d) 0 (int m) (\<lambda>t. Some (copy_into t (drop (4 * k) (dec_buf d)))) = Some (buf, int m)"
      using len n ls by (simp add: on_slice_def slice_of_def copy_into_eq buf_def)
  qed
  have bm: "take m buf = rest" "length buf = 1024" using ls len n by (simp_all add: buf_def)
  have after: "dec_any d2 \<and> dec_size d2 < dec_size d \<and> (\<forall>z. correct_rest d2 z \<longrightarrow> correct_rest d (y @ z))"
    if "d2 = d\<lparr>dec_err := None, dec_outbuf := ob, dec_out := ot, dec_nbuf := int m, dec_buf := buf\<rparr>" "length ob = 768" "length ot \<le> 768" "x = y @ ot" "snd (b64_ref enc s)" for d2 ob ot y
  proof -
    have p2: "pending d2 = rest @ nonl (content (dec_r d))" using bm(1) that(1) by (simp add: pending_def)
    then have "dec_any d2" using d(1) that(1,2) bm nl(2) n(2) ls(3) by (simp add: dec_any_def dec_wf_def)
    moreover have "dec_size d2 < dec_size d" using that(1,3) p2 pd ls(1) n(4) d(3) by (simp add: dec_size_def)
    moreover have "correct_rest d (y @ z)" if z: "correct_rest d2 z" for z
    proof -
      obtain w where w: "z = ot @ w" "pieces_of enc (rest @ nonl (content (dec_r d))) w"
        using z p2 \<open>d2 = _\<close> by (auto simp: correct_rest_def)
      from pieces_of_append [OF \<open>snd (b64_ref enc s)\<close> w(2)] have "pieces_of enc (pending d) (y @ z)"
        using w(1) \<open>x = y @ ot\<close> unfolding pd x_def by simp
      then show ?thesis using d(2,3) by (simp add: correct_rest_def)
    qed
    ultimately show ?thesis by blast
  qed
  show ?thesis
  proof (cases "3 * k > length p")
    case True
    have "room enc (length s) \<le> length (dec_outbuf d)" using rm len(2) n by simp
    then obtain t err where t: "b64_Decode enc (dec_outbuf d) s = Some (x @ t, int (length x), err)" "length (x @ t) = 768" "err = None \<longleftrightarrow> snd (b64_ref enc s)"
      using Decode_any [OF nl(1), of "dec_outbuf d"] len(2) unfolding x_def by metis
    define y where "y = take (length p) x"
    have c: "dec_chunk enc p d = Some (y @ drop (length y) p, int (length y), corrupt err,
        d\<lparr>dec_err := corrupt err, dec_outbuf := x @ t, dec_out := drop (length p) x, dec_nbuf := int m, dec_buf := buf\<rparr>)"
      using True src t(1) dec_copy_ok [of y p "d\<lparr>dec_err := corrupt err, dec_outbuf := x @ t, dec_out := x\<rparr>"] move
      by (simp add: dec_chunk_def Let_def nr ls(4) y_def del: of_nat_mult of_nat_numeral)
    have "length (drop (length p) x) \<le> 768" using t(2) by simp
    from after [OF refl t(2) this, of y] show ?thesis using t(3) corrupt_cases [of err]
      by (intro any_resultI [OF c]) (auto simp: y_def corrupt_def)
  next
    case False
    then obtain t err where t: "b64_Decode enc p s = Some (x @ t, int (length x), err)" "length (x @ t) = length p" "err = None \<longleftrightarrow> snd (b64_ref enc s)"
      using Decode_any [OF nl(1), of p] rm unfolding x_def by (metis not_le)
    have c: "dec_chunk enc p d = Some (x @ t, int (length x), corrupt err, d\<lparr>dec_err := corrupt err, dec_nbuf := int m, dec_buf := buf\<rparr>)"
      using False src t(1) move by (simp add: dec_chunk_def Let_def nr ls(4) del: of_nat_mult of_nat_numeral)
    have "d\<lparr>dec_err := None, dec_nbuf := int m, dec_buf := buf\<rparr> =
        d\<lparr>dec_err := None, dec_outbuf := dec_outbuf d, dec_out := dec_out d, dec_nbuf := int m, dec_buf := buf\<rparr>" by simp
    note after = after [OF this len(2)]
    show ?thesis using after [of x] d(3) t(2,3) corrupt_cases [of err]
      by (intro any_resultI [OF c]) (auto simp: corrupt_def)
  qed
qed

lemma Read_any:
  assumes d: "dec_any d" and p: "p \<noteq> []"
  shows "any_result p d (b64_decoder_Read enc Read p d)"
proof (cases "dec_out d = []")
  case False
  then show ?thesis using any_copy [OF d False p, of d] by (simp add: b64_decoder_Read_def)
next
  case out: True
  show ?thesis
  proof (cases "dec_err d")
    case (Some e)
    then have "e = EOF \<and> correct_rest d [] \<or> decode_error e" using d out by (auto simp: dec_any_def correct_rest_def)
    then show ?thesis using out Some by (intro any_resultI [of _ "[]" p "Some e" d]) (auto simp: b64_decoder_Read_def)
  next
    case None
    have "dec_wf d" using d by (simp add: dec_any_def)
    from dec_refill_wf [OF this, of "length p"]
    obtain d' where d': "dec_refill Read (int (length p)) d = Some d'" "dec_wf d'" "pending d' = pending d" "dec_out d' = dec_out d" "dec_err d' = dec_err d"
      "4 \<le> dec_nbuf d' \<or> dec_readErr d' = Some EOF" by blast
    have "any_result p d' (if dec_nbuf d' < 4 then dec_final enc p d' else dec_chunk enc p d')"
      using dec_final_any [of d' p] dec_chunk_any [of d' p] d' out None p by auto
    moreover have e: "dec_size d' = dec_size d" "correct_rest d' = correct_rest d"
      using d'(3-5) by (simp_all add: dec_size_def correct_rest_def fun_eq_iff)
    have "any_result p d' res \<longleftrightarrow> any_result p d res" for res unfolding any_result_def e ..
    ultimately have "any_result p d (if dec_nbuf d' < 4 then dec_final enc p d' else dec_chunk enc p d')" by blast
    then show ?thesis using out None d'(1) by (simp add: b64_decoder_Read_def)
  qed
qed

subsection \<open>Reading everything\<close>

lemma ReadAll_loop_any:
  assumes "\<forall>n. 0 < grow n"
  shows "dec_any d \<Longrightarrow> \<exists>z err d'. ReadAll_loop grow (b64_decoder_Read enc Read) b spare d = Some (b @ z, err, d')
    \<and> (case err of None \<Rightarrow> correct_rest d z | Some e \<Rightarrow> decode_error e)"
proof (induction "dec_size d" arbitrary: b spare d rule: less_induct)
  case less
  define sp where "sp = (if spare = [] then replicate (grow (length b)) 0 else spare)"
  have ne: "sp \<noteq> []" using assms by (auto simp: sp_def)
  obtain x t err d1 where r: "b64_decoder_Read enc Read sp d = Some (x @ t, int (length x), err, d1)"
    "case err of None \<Rightarrow> dec_any d1 \<and> dec_size d1 < dec_size d \<and> (\<forall>z. correct_rest d1 z \<longrightarrow> correct_rest d (x @ z))
      | Some e \<Rightarrow> e = EOF \<and> correct_rest d x \<or> decode_error e"
    using Read_any [OF less.prems ne] unfolding any_result_def by blast
  have step: "ReadAll_loop grow (b64_decoder_Read enc Read) b spare d =
      (if err \<noteq> None then Some (b @ x, if err = Some EOF then None else err, d1) else ReadAll_loop grow (b64_decoder_Read enc Read) (b @ x) t d1)"
    by (subst ReadAll_loop.simps) (simp add: sp_def [symmetric] r(1))
  show ?case
  proof (cases err)
    case None
    then obtain z err' d' where "ReadAll_loop grow (b64_decoder_Read enc Read) (b @ x) t d1 = Some ((b @ x) @ z, err', d')"
      "case err' of None \<Rightarrow> correct_rest d1 z | Some e \<Rightarrow> decode_error e" using less.hyps [of d1 "b @ x" t] r(2) by auto
    then show ?thesis using step None r(2)
      by (intro exI [of _ "x @ z"] exI [of _ err'] exI [of _ d']) (auto split: option.splits)
  next
    case (Some e)
    then show ?thesis using step r(2)
      by (intro exI [of _ x] exI [of _ "if err = Some EOF then None else err"] exI [of _ d1]) auto
  qed
qed

lemma ReadAll_any:
  assumes "\<forall>n. 0 < grow n" "ok r"
  shows "\<exists>z err d'. ReadAll grow (b64_decoder_Read enc Read) (b64_NewDecoder r) = Some (z, err, d')
    \<and> (case err of None \<Rightarrow> pieces_of enc (nonl (content r)) z | Some e \<Rightarrow> decode_error e)"
proof -
  have "dec_any (b64_NewDecoder r)" using assms(2) by (simp add: dec_any_def dec_wf_def b64_NewDecoder_def)
  from ReadAll_loop_any [OF assms(1) this, of "[]" "replicate 512 0"]
  obtain z err d' where "ReadAll grow (b64_decoder_Read enc Read) (b64_NewDecoder r) = Some (z, err, d')"
    "case err of None \<Rightarrow> correct_rest (b64_NewDecoder r) z | Some e \<Rightarrow> decode_error e" by (auto simp: ReadAll_def)
  then show ?thesis by (auto simp: correct_rest_def b64_NewDecoder_def pending_def split: option.splits)
qed

end

end
