(* ===== verification/Base64_Stream_Properties.thy ===== *)
theory Base64_Stream_Properties
  imports Base64_Stream_Any
begin

text \<open>
  What the streaming decoder promises: on a text that \<^verbatim>\<open>DecodeString\<close> accepts it is a reader of the decoded bytes, whatever reader
  the text comes from and however it is read, so that it undoes the streaming encoder. It accepts more than \<^verbatim>\<open>DecodeString\<close>.
\<close>

lemma lett_not_newline: "valid_encoding enc \<Longrightarrow> 0 \<le> k \<Longrightarrow> k < 64 \<Longrightarrow> \<not> newline (lett enc k)"
  using valid_letters(3) dg_lett(2) by blast

lemma nonl_b64_text: "valid_encoding enc \<Longrightarrow> nonl (b64_text enc src) = b64_text enc src"
proof (induction enc src rule: b64_text.induct)
  case (2 enc x)
  note r = six_bits_range [OF uint_byte [of x], of 0 0]
  show ?case using lett_not_newline [OF 2, of "uint x div 4"] lett_not_newline [OF 2, of "uint x mod 4 * 16"] nonl_pads [OF 2] r by simp
next
  case (3 enc x y)
  note r = six_bits_range [OF uint_byte [of x] uint_byte [of y], of 0]
  show ?case using lett_not_newline [OF 3, OF r(1,2)] lett_not_newline [OF 3, OF r(3,4)] lett_not_newline [OF 3, of "uint y mod 16 * 4"] nonl_pads [OF 3] r by simp
next
  case (4 enc x y z r)
  note r = six_bits_range [OF uint_byte [of x] uint_byte [of y] uint_byte [of z]]
  show ?case using lett_not_newline [OF 4(2), OF r(1,2)] lett_not_newline [OF 4(2), OF r(3,4)] lett_not_newline [OF 4(2), OF r(5,6)] lett_not_newline [OF 4(2), OF r(7,8)] 4 by simp
qed simp

lemma pieces_of_DecodeString:
  assumes "valid_encoding enc" "pieces_of enc (nonl t) y" "length t < 2 ^ 59"
  shows "\<exists>cs. nonl t = concat (map fst cs) \<and> (\<forall>(c, x) \<in> set cs. b64_DecodeString enc c = Some (x, None)) \<and> y = concat (map snd cs)"
proof -
  obtain cs where cs: "nonl t = concat cs" "\<forall>c \<in> set cs. snd (b64_ref enc c)" "y = concat (map (\<lambda>c. fst (b64_ref enc c)) cs)"
    using assms(2) by (auto simp: pieces_of_def)
  have "b64_DecodeString enc c = Some (fst (b64_ref enc c), None)" if c: "c \<in> set cs" for c
  proof -
    obtain as bs where s: "cs = as @ c # bs" using c by (auto dest: split_list)
    have "nonl t = concat as @ c @ concat bs" using cs(1) s by simp
    then have n: "nonl c = c" using nonl_piece by blast
    have "length c \<le> length (nonl t)" using s cs(1) by simp
    also have "\<dots> \<le> length t" by (simp add: nonl_def)
    finally have "length c < 2 ^ 59" using assms(3) by simp
    from b64_DecodeString_None [OF assms(1) this, of "fst (b64_ref enc c)"] show ?thesis using cs(2) c n by (simp add: prod_eq_iff)
  qed
  then show ?thesis using cs by (intro exI [of _ "map (\<lambda>c. (c, fst (b64_ref enc c))) cs"]) (auto simp: comp_def)
qed

text \<open>
  C36 (Streaming decoding). Reading everything from a decoder on a reader always returns, wherever the reader cuts its text and however
  large the reads are. If DecodeString decodes the text without an error, the result is the same bytes and no error. On every text, a result without an error
  means that the text, its newlines removed, is made of pieces that DecodeString decodes without an error, and the result is what
  they decode to, one after the other; any other text gives a CorruptInputError or ErrUnexpectedEOF. (It may be made of more than one piece, where
  DecodeString gives an error: texts one after the other, below.)
\<close>

theorem base64_stream_decodes:
  assumes "valid_encoding enc" "io_reader Read ok content bound" "ok r" "length (content r) < 2 ^ 59" "\<forall>n. 0 < grow n"
  shows "\<exists>out err d. ReadAll grow (b64_decoder_Read enc Read) (b64_NewDecoder r) = Some (out, err, d)
    \<and> (\<forall>data. b64_DecodeString enc (content r) = Some (data, None) \<longrightarrow> out = data \<and> err = None)
    \<and> (case err of
         None \<Rightarrow> \<exists>cs. nonl (content r) = concat (map fst cs) \<and> (\<forall>(c, x) \<in> set cs. b64_DecodeString enc c = Some (x, None)) \<and> out = concat (map snd cs)
       | Some e \<Rightarrow> e = ErrUnexpectedEOF \<or> (\<exists>k. e = OtherError (Inl (CorruptInputError k))))"
proof -
  have src: "b64_source Read ok content bound enc" using assms(1,2) by (simp add: b64_source_def b64_source_axioms_def)
  obtain out err d where r: "ReadAll grow (b64_decoder_Read enc Read) (b64_NewDecoder r) = Some (out, err, d)"
    "case err of None \<Rightarrow> pieces_of enc (nonl (content r)) out | Some e \<Rightarrow> decode_error e"
    using b64_source.ReadAll_any [OF src assms(5,3)] by blast
  have "out = data \<and> err = None" if "b64_DecodeString enc (content r) = Some (data, None)" for data
  proof -
    have ref: "b64_ref enc (nonl (content r)) = (data, True)" by (rule b64_DecodeString_None [OF assms(1,4), THEN iffD1, OF that])
    then have "snd (b64_ref enc (nonl (content r)))" by simp
    note new = b64_source.NewDecoder_ok [OF src assms(3) this]
    show ?thesis using io_reader.ReadAll_ok [OF b64_source.decoder_reader [OF src] assms(5) new(1)] new(2) ref r(1) by simp
  qed
  moreover have "case err of
         None \<Rightarrow> \<exists>cs. nonl (content r) = concat (map fst cs) \<and> (\<forall>(c, x) \<in> set cs. b64_DecodeString enc c = Some (x, None)) \<and> out = concat (map snd cs)
       | Some e \<Rightarrow> e = ErrUnexpectedEOF \<or> (\<exists>k. e = OtherError (Inl (CorruptInputError k)))"
  proof (cases err)
    case None
    then show ?thesis using r(2) pieces_of_DecodeString [OF assms(1) _ assms(4)] by simp
  next
    case (Some e)
    then show ?thesis using r(2) by (simp add: decode_error_def)
  qed
  ultimately show ?thesis using r(1) by blast
qed

text \<open>A string with newlines, read through a limit.\<close>

lemma base64_stream_decodes_witness:
  "\<exists>std d. StdEncoding = Some std \<and>
    ReadAll (\<lambda>n. n + 1) (b64_decoder_Read std (strings_Read :: (strings_reader, base64_error + unit) reader)) (b64_NewDecoder (strings_NewReader [0x51, 0x0A, 0x51, 0x3D, 0x3D]))
      = Some ([0x41], None, d)"
proof -
  obtain std where std: "StdEncoding = Some std" "valid_encoding std" using standard_encodings by blast
  have "std = the (NewEncoding encodeStd)" using std(1) by (simp add: StdEncoding_def)
  moreover have "b64_ref (the (NewEncoding encodeStd)) [0x51, 0x51, 0x3D, 0x3D] = ([0x41], True)" by code_simp
  ultimately have "b64_DecodeString std [0x51, 0x0A, 0x51, 0x3D, 0x3D] = Some ([0x41], None)" using b64_DecodeString_None [OF std(2), of "[0x51, 0x0A, 0x51, 0x3D, 0x3D]"] by simp
  then have d: "b64_DecodeString std (unread (strings_NewReader [0x51, 0x0A, 0x51, 0x3D, 0x3D])) = Some ([0x41], None)" by simp
  have "length (unread (strings_NewReader [0x51, 0x0A, 0x51, 0x3D, 0x3D])) < 2 ^ 59" "\<forall>n. 0 < n + (1 :: nat)" by simp_all
  from base64_stream_decodes [OF std(2) strings_reader.io_reader_axioms unread_NewReader(2) this] d
  show ?thesis using std(1) by blast
qed

text \<open>
  C37 (Streaming round trip). Data cut into any pieces and written to the streaming encoder, which is then closed, is what reading
  everything from a streaming decoder on the encoder's output returns.
\<close>

theorem base64_stream_round_trip:
  assumes "valid_encoding enc" "\<forall>n. 0 < grow n"
  shows "\<exists>w d. b64_pieces enc ps b64_NewEncoder [] = Some w \<and>
    ReadAll grow (b64_decoder_Read enc (strings_Read :: (strings_reader, base64_error + 'e) reader)) (b64_NewDecoder (strings_NewReader w)) = Some (concat ps, None, d)"
proof -
  define w where "w = b64_text enc (concat ps)"
  have p: "b64_pieces enc ps b64_NewEncoder [] = Some w" using b64_pieces_ok [OF valid_length(1) [OF assms(1)] b64_stream_new] by (simp add: w_def)
  have src: "b64_source (strings_Read :: (strings_reader, base64_error + 'e) reader) strings_ok unread (length \<circ> unread) enc"
    using assms(1) strings_reader.io_reader_axioms by (simp add: b64_source_def b64_source_axioms_def)
  have ref: "b64_ref enc (nonl (unread (strings_NewReader w))) = (concat ps, True)" using b64_ref_text [OF assms(1)] by (simp add: w_def nonl_b64_text [OF assms(1)])
  then have "snd (b64_ref enc (nonl (unread (strings_NewReader w))))" by simp
  note new = b64_source.NewDecoder_ok [OF src unread_NewReader(2) this]
  show ?thesis using io_reader.ReadAll_ok [OF b64_source.decoder_reader [OF src] assms(2) new(1)] new(2) ref p by auto
qed

lemma base64_stream_round_trip_witness:
  "\<exists>std w d. StdEncoding = Some std \<and> b64_pieces std [[0x41], [], [0x42, 0x43, 0x44]] b64_NewEncoder [] = Some w \<and>
    ReadAll (\<lambda>n. n + 1) (b64_decoder_Read std (strings_Read :: (strings_reader, base64_error + unit) reader)) (b64_NewDecoder (strings_NewReader w))
      = Some ([0x41, 0x42, 0x43, 0x44], None, d)"
proof -
  obtain std where std: "StdEncoding = Some std" "valid_encoding std" using standard_encodings by blast
  from base64_stream_round_trip [OF std(2), of "\<lambda>n. n + 1" "[[0x41], [], [0x42, 0x43, 0x44]]"] std(1) show ?thesis by auto
qed

subsection \<open>Texts one after the other\<close>

text \<open>Reading three bytes at a time, the decoder takes a group from a string and forgets it.\<close>

definition at_group :: "strings_reader \<Rightarrow> (strings_reader, 'e) b64_decoder \<Rightarrow> bool" where
  "at_group r d \<longleftrightarrow> strings_ok r \<and> dec_r d = r \<and> dec_err d = None \<and> dec_readErr d = None \<and> length (dec_buf d) = 1024 \<and> dec_nbuf d = 0 \<and> dec_out d = []"

lemma filter_group:
  assumes "strings_ok r" "unread r = g @ u" "g \<noteq> []" "length p = length g" "nonl g = g"
  shows "\<exists>r'. newlineFilteringReader_Read (strings_Read :: (strings_reader, 'e) reader) p r = Some (g, int (length g), None, r') \<and> strings_ok r' \<and> unread r' = u"
proof -
  define r1 where "r1 = r\<lparr>rd_prevRune := -1, rd_i := rd_i r + int (length g)\<rparr>"
  have s: "(strings_Read :: (strings_reader, 'e) reader) p r = Some (g, int (length g), None, r1)" using strings_Read_eq [OF assms(1), of p] assms by (simp add: r1_def)
  have "strings_ok r1" "unread r1 = u" using assms(1,2) by (simp_all add: r1_def strings_ok_def unread_def nat_add_distrib add.commute flip: drop_drop)
  moreover obtain t' where "compact (g @ []) (int (length g)) 0 0 = Some (nonl g @ t', int (length (nonl g)))" "length (nonl g @ t') = length (g @ [])"
    using compact_start by blast
  ultimately show ?thesis using s assms(3,5) newlineFilter_loop.simps [of "strings_Read :: (strings_reader, 'e) reader" g "int (length g)" None r1]
    by (simp add: newlineFilteringReader_Read_def slice_of_def)
qed

lemma read_group:
  fixes d :: "(strings_reader, 'e) b64_decoder"
  assumes v: "valid_encoding enc" and d: "at_group r d" and g: "unread r = g @ u" "length g = 4" "nonl g = g" "snd (b64_ref enc g)" and p: "length p = 3"
  shows "\<exists>t d' r'. b64_decoder_Read enc strings_Read p d = Some (fst (b64_ref enc g) @ t, int (length (fst (b64_ref enc g))), None, d') \<and> at_group r' d' \<and> unread r' = u"
proof -
  have s4: "slice_of (dec_buf d) 0 4 = Some (take 4 (dec_buf d))" "length (take 4 (dec_buf d)) = length g" using d g(2) by (simp_all add: slice_of_def at_group_def)
  have "strings_ok r" "g \<noteq> []" using d g(2) by (auto simp: at_group_def)
  from filter_group [OF this(1) g(1) this(2) s4(2) g(3), where 'e = "base64_error + 'e"]
  obtain r' where r': "newlineFilteringReader_Read (strings_Read :: (strings_reader, base64_error + 'e) reader) (take 4 (dec_buf d)) r = Some (g, 4, None, r')"
    "strings_ok r'" "unread r' = u" using g(2) by auto
  define d1 where "d1 = d\<lparr>dec_buf := g @ drop 4 (dec_buf d), dec_readErr := None, dec_r := r', dec_nbuf := 4\<rparr>"
  have rf: "dec_refill strings_Read (int (length p)) d = dec_refill strings_Read (int (length p)) d1"
    using d p s4(1) r'(1) by (subst dec_refill.simps) (simp add: at_group_def on_slice_def d1_def)
  have "dec_refill strings_Read (int (length p)) d1 = Some d1" by (subst dec_refill.simps) (simp add: d1_def)
  then have rf: "dec_refill strings_Read (int (length p)) d = Some d1" using rf by simp
  have src: "b64_source (strings_Read :: (strings_reader, base64_error + 'e) reader) strings_ok unread (length \<circ> unread) enc"
    using v strings_reader.io_reader_axioms by (simp add: b64_source_def b64_source_axioms_def)
  have "room enc (length g) \<le> length p" using room_groups [of enc 1] g(2) p by simp
  then obtain t where t: "b64_Decode enc p g = Some (fst (b64_ref enc g) @ t, int (length (fst (b64_ref enc g))), None)"
    using b64_source.Decode_accepted [OF src g(3,4)] by blast
  define d2 where "d2 = d1\<lparr>dec_err := None, dec_nbuf := 0, dec_buf := dec_buf d1\<rparr>"
  have sl: "slice_of (dec_buf d1) 0 4 = Some g" "length (dec_buf d1) = 1024" "dec_nbuf d1 = 4" using g(2) d by (simp_all add: d1_def slice_of_def at_group_def)
  have "dec_chunk enc p d1 = Some (fst (b64_ref enc g) @ t, int (length (fst (b64_ref enc g))), None, d2)"
    using sl p t by (simp add: dec_chunk_def from_index_def on_slice_def slice_of_def copy_into_def corrupt_def d2_def)
  then have "b64_decoder_Read enc strings_Read p d = Some (fst (b64_ref enc g) @ t, int (length (fst (b64_ref enc g))), None, d2)"
    using d rf sl(3) by (simp add: b64_decoder_Read_def at_group_def)
  moreover have "at_group r' d2" using d r'(2) sl(2) by (simp add: at_group_def d2_def d1_def)
  ultimately show ?thesis using r'(3) by blast
qed

text \<open>A client that reads with buffers of three bytes until there is an error.\<close>

fun read3 :: "nat \<Rightarrow> encoding \<Rightarrow> (strings_reader, 'e) b64_decoder \<Rightarrow> (byte list \<times> 'e b64_err option) option" where
  "read3 0 enc d = Some ([], None)"
| "read3 (Suc k) enc d = do {
     (p, n, err, d) \<leftarrow> b64_decoder_Read enc strings_Read [0, 0, 0] d;
     x \<leftarrow> slice_of p 0 n;
     if err \<noteq> None then Some (x, err) else do { (y, err) \<leftarrow> read3 k enc d; Some (x @ y, err) }
   }"

lemma read3_group:
  assumes "valid_encoding enc" "at_group r d" "unread r = g @ u" "length g = 4" "nonl g = g" "snd (b64_ref enc g)"
  shows "\<exists>d' r'. read3 (Suc k) enc d = do { (y, err) \<leftarrow> read3 k enc d'; Some (fst (b64_ref enc g) @ y, err) } \<and> at_group r' d' \<and> unread r' = u"
  using read_group [OF assms, of "[0, 0, 0]"] by auto

lemma read3_end:
  fixes d :: "(strings_reader, 'e) b64_decoder"
  assumes "at_group r d" "unread r = []"
  shows "read3 (Suc k) enc d = Some ([], Some EOF)"
proof -
  have "(strings_Read :: (strings_reader, base64_error + 'e) reader) (take 4 (dec_buf d)) r = Some (take 4 (dec_buf d), 0, Some EOF, r)" using assms unread_Nil [of r] by (simp add: at_group_def strings_Read_def)
  then have f: "newlineFilteringReader_Read (strings_Read :: (strings_reader, base64_error + 'e) reader) (take 4 (dec_buf d)) r = Some (take 4 (dec_buf d), 0, Some EOF, r)"
    by (simp add: newlineFilteringReader_Read_def newlineFilter_loop.simps)
  have s4: "slice_of (dec_buf d) 0 4 = Some (take 4 (dec_buf d))" using assms(1) by (simp add: slice_of_def at_group_def)
  define d1 where "d1 = d\<lparr>dec_readErr := Some EOF, dec_r := r, dec_nbuf := 0\<rparr>"
  have "dec_refill strings_Read 3 d = dec_refill strings_Read 3 d1"
    using assms(1) s4 f by (subst dec_refill.simps) (simp add: at_group_def on_slice_def d1_def)
  moreover have "dec_refill strings_Read 3 d1 = Some d1" by (subst dec_refill.simps) (simp add: d1_def)
  ultimately show ?thesis using assms(1)
    by (simp add: at_group_def b64_decoder_Read_def dec_final_def dec_end_def slice_of_def d1_def)
qed

text \<open>
  C39 (Streaming accepts padding in the middle). The four characters QQ== twice: DecodeString reports an error at the fifth character,
  but a client that reads from the streaming decoder three bytes at a time gets the two decoded bytes and then EOF.
\<close>

theorem base64_stream_concatenated:
  "\<exists>std. StdEncoding = Some std \<and>
    (\<exists>k. b64_DecodeString std [0x51, 0x51, 0x3D, 0x3D, 0x51, 0x51, 0x3D, 0x3D] = Some ([0x41], Some (CorruptInputError k))) \<and>
    read3 3 std (b64_NewDecoder (strings_NewReader [0x51, 0x51, 0x3D, 0x3D, 0x51, 0x51, 0x3D, 0x3D]) :: (strings_reader, unit) b64_decoder) = Some ([0x41, 0x41], Some EOF)"
proof -
  obtain std where std: "StdEncoding = Some std" "valid_encoding std" using standard_encodings by blast
  define g where "g = [0x51, 0x51, 0x3D, 0x3D :: byte]"
  have e: "std = the (NewEncoding encodeStd)" using std(1) by (simp add: StdEncoding_def)
  have r1: "b64_ref std g = ([0x41], True)" unfolding e g_def by code_simp
  have r2: "b64_ref std (g @ g) = ([0x41], False)" unfolding e g_def by code_simp
  have g: "length g = 4" "nonl g = g" "nonl (g @ g) = g @ g" "length (g @ g) < 2 ^ 59" by (simp_all add: g_def)
  obtain err where err: "b64_DecodeString std (g @ g) = Some ([0x41], err)" "case err of None \<Rightarrow> False | Some (CorruptInputError k) \<Rightarrow> \<not> False \<and> 0 \<le> k \<and> k \<le> int (length (g @ g))"
    using b64_DecodeString_ok [OF std(2) g(4)] unfolding g(3) r2 fst_conv snd_conv by blast
  obtain k where "err = Some (CorruptInputError k)" using err(2) by (metis base64_error.exhaust option.exhaust option.simps(4))
  moreover have "read3 3 std (b64_NewDecoder (strings_NewReader (g @ g)) :: (strings_reader, unit) b64_decoder) = Some ([0x41, 0x41], Some EOF)"
  proof -
    have s0: "at_group (strings_NewReader (g @ g)) (b64_NewDecoder (strings_NewReader (g @ g)) :: (strings_reader, unit) b64_decoder)"
      by (simp add: at_group_def b64_NewDecoder_def)
    have acc: "snd (b64_ref std g)" using r1 by simp
    obtain d1 r1' where 1: "read3 (Suc 2) std (b64_NewDecoder (strings_NewReader (g @ g)) :: (strings_reader, unit) b64_decoder)
        = do { (y, err) \<leftarrow> read3 2 std d1; Some (fst (b64_ref std g) @ y, err) }" "at_group r1' d1" "unread r1' = g"
      using read3_group [OF std(2) s0 unread_NewReader(1) g(1,2) acc] by blast
    have "unread r1' = g @ []" using 1(3) by simp
    then obtain d2 r2' where 2: "read3 (Suc 1) std d1 = do { (y, err) \<leftarrow> read3 1 std d2; Some (fst (b64_ref std g) @ y, err) }" "at_group r2' d2" "unread r2' = []"
      using read3_group [OF std(2) 1(2) _ g(1,2) acc, of "[]"] by blast
    have "read3 (Suc 0) std d2 = Some ([], Some EOF)" by (rule read3_end [OF 2(2,3)])
    then show ?thesis using 1(1) 2(1) r1 by (simp add: numeral_3_eq_3 numeral_2_eq_2 del: read3.simps)
  qed
  ultimately show ?thesis using std(1) err(1) unfolding g_def by auto
qed

end
