(* ===== verification/Spec2Isabelle.thy ===== *)
theory Spec2Isabelle
  imports Sort_Properties Container_Heap Utf8_Text Utf16 Strconv_Properties Utf8_String Json_Properties Container_List_Properties Binary_Properties Hex_Properties Crc32_Properties Hash_Properties Path_Properties Path_Match_Properties Base64_Stream_Properties
begin

text \<open>
  A verification development for the packages of the Go distribution (version 1.16) that this repository bundles under
  \<^verbatim>\<open>src/Go\<close>. File names below are relative to \<^verbatim>\<open>src/Go/src\<close>.

  \<^bold>\<open>The program and its parts.\<close> The repository is an AutoIt front end together with a complete Go tool chain. The front end
  is a script of calls to window and registry functions; the logic is that of the Go library, whose leaf packages are
  modelled here from the bottom up, in an order in which every package only uses earlier ones:

  \<^item> \<^verbatim>\<open>math/bits\<close>: \<^theory_text>\<open>Math_Bits\<close> is the model of every function of bits.go with its tables; \<^theory_text>\<open>Math_Bits_Count\<close>,
    \<^theory_text>\<open>Math_Bits_Arith\<close> and \<^theory_text>\<open>Math_Bits_Div\<close> relate counting, carries, products and Knuth's division to the integers.
  \<^item> \<^verbatim>\<open>sort\<close>: \<^theory_text>\<open>Sort_Search\<close>, \<^theory_text>\<open>Sort_Interface\<close> (the Interface as a record of operations, its contract as a locale, the
    slice types as interpretations), \<^theory_text>\<open>Sort_Insertion\<close>, \<^theory_text>\<open>Sort_Heap\<close>, \<^theory_text>\<open>Sort_Quick\<close>, \<^theory_text>\<open>Sort_Stable\<close>.
  \<^item> \<^verbatim>\<open>container/heap\<close> with the action queue of \<^verbatim>\<open>cmd/go\<close> as its client (\<^theory_text>\<open>Heap_Shape\<close>, \<^theory_text>\<open>Container_Heap\<close>), and
    \<^verbatim>\<open>container/list\<close> over an explicit store of elements (\<^theory_text>\<open>Container_List\<close>) with the sequences it implements
    (\<^theory_text>\<open>Container_List_Spec\<close>).
  \<^item> \<^verbatim>\<open>unicode/utf8\<close> and \<^verbatim>\<open>unicode/utf16\<close>: \<^theory_text>\<open>Utf8\<close>, \<^theory_text>\<open>Utf8_Text\<close>, \<^theory_text>\<open>Utf8_String\<close>, \<^theory_text>\<open>Utf16\<close>.
  \<^item> \<^verbatim>\<open>strconv\<close>, integers and booleans: \<^theory_text>\<open>Strconv\<close> (which calls \<^verbatim>\<open>math/bits\<close> and \<^verbatim>\<open>unicode/utf8\<close>), \<^theory_text>\<open>Strconv_Parse\<close>,
    \<^theory_text>\<open>Strconv_Format\<close>.
  \<^item> \<^verbatim>\<open>encoding/json\<close>, the scanner: \<^theory_text>\<open>Json_Scanner\<close> (the state functions of scanner.go), \<^theory_text>\<open>Json_Machine\<close> (the
    pushdown automaton they implement), \<^theory_text>\<open>Json_Grammar\<close> (RFC 8259 as inductive predicates).
  \<^item> \<^verbatim>\<open>encoding/binary\<close> (byte orders and varints), \<^verbatim>\<open>encoding/hex\<close>: \<^theory_text>\<open>Binary_Encoding\<close>, \<^theory_text>\<open>Hex\<close>.
  \<^item> \<^verbatim>\<open>hash/adler32\<close>, \<^verbatim>\<open>hash/crc32\<close>, \<^verbatim>\<open>hash/crc64\<close>, \<^verbatim>\<open>hash/fnv\<close>: \<^theory_text>\<open>Hash_Bytes\<close> (the shared encodings of sums and the
    contract of \<^verbatim>\<open>hash.Hash\<close> as a locale), \<^theory_text>\<open>Adler32\<close>, \<^theory_text>\<open>Crc\<close> (the bit-serial register and its linearity, for every
    word length), \<^theory_text>\<open>Crc32\<close>, \<^theory_text>\<open>Crc32_Package\<close>, \<^theory_text>\<open>Crc64\<close>, \<^theory_text>\<open>Fnv\<close>.
  \<^item> \<^verbatim>\<open>path\<close>: \<^theory_text>\<open>Path\<close> (path.go), \<^theory_text>\<open>Path_Clean\<close> (the canonical path as a stack of elements), \<^theory_text>\<open>Path_Match\<close> (match.go),
    \<^theory_text>\<open>Path_Pattern\<close> (the documented pattern grammar and its meaning), \<^theory_text>\<open>Path_Scan\<close> and \<^theory_text>\<open>Path_Greedy\<close> (how the code cuts a
    pattern and searches).
  \<^item> \<^verbatim>\<open>encoding/base64\<close>: \<^theory_text>\<open>Base64\<close> (the model), \<^theory_text>\<open>Base64_Encode\<close> (the text as a function of the bytes),
    \<^theory_text>\<open>Base64_Digits\<close> and \<^theory_text>\<open>Base64_Reference\<close> (the reference decoder on text without newlines), \<^theory_text>\<open>Base64_Quantum\<close> and
    \<^theory_text>\<open>Base64_Decode\<close> (the slow path and the two fast ones compute it); \<^theory_text>\<open>Base64_Decoder\<close> is the streaming decoder, which
    \<^theory_text>\<open>Base64_Stream\<close> shows to be a reader of the decoded bytes where DecodeString accepts the text, and \<^theory_text>\<open>Base64_Stream_Any\<close>
    follows through any text, errors included.
  \<^item> \<^verbatim>\<open>io\<close> and \<^verbatim>\<open>strings.Reader\<close>: \<^theory_text>\<open>Io\<close> (io.go and multi.go over arbitrary readers and writers), \<^theory_text>\<open>Io_Reader\<close> (the contracts of
    \<^verbatim>\<open>io.Reader\<close> and \<^verbatim>\<open>io.Writer\<close> as locales), \<^theory_text>\<open>Io_Copy\<close> and \<^theory_text>\<open>Io_Section\<close> (copying and the wrapping readers keep them),
    \<^theory_text>\<open>Strings_Reader\<close> (reader.go, which provides them). \<^theory_text>\<open>Go_IO\<close> holds the operations on parts of slices that all of these share.
  \<^bold>\<open>How code becomes definitions.\<close> A definition has the name of its Go function, or that name behind the name of its
  package or type where it is taken. A value of type \<^typ>\<open>'a option\<close> is the result of an expression that may panic (an
  index out of range, a nil dereference) or not return: both are \<^const>\<open>None\<close>, so that a theorem with the result
  \<^const>\<open>Some\<close> shows the absence of both. An error value of Go is a component of the result of an error datatype of the
  package. A loop is a recursive function of the variables it changes, with its name behind the function's; it is a
  \<^theory_text>\<open>function\<close> with a measure, or a \<^theory_text>\<open>partial_function\<close> whose termination the properties include. Integers of a fixed
  width are words; an \<^verbatim>\<open>int\<close> that is an index or a length is an integer, and where it may overflow the wrap-around is
  written out by \<open>int64\<close>. A slice or a string is the list of its elements; where two slices may share memory (decoding in
  place, the elements of a list) the store is explicit. \<^theory_text>\<open>Go_Prelude\<close>, \<^theory_text>\<open>Go_Words\<close> and \<^theory_text>\<open>Go_Float\<close> hold these conventions
  and the facts all components share.

  \<^bold>\<open>What is proved.\<close> The properties are numbered C1, C2 and so on in the theories whose names end in \<open>_Properties\<close> and in the
  last section of a component's theory. They are of these kinds: refinement of an abstract specification (lists are
  sequences, queues are bags, checksums are the bit-serial register, a cleaned path is a stack); equivalence with a reference
  (the JSON scanner with the grammar, slicing-by-8 with the bit-serial CRC, the greedy pattern matcher with the meaning of
  patterns on ASCII names); functional correctness on every branch, errors included (parsing integers, copying with success as
  well as failure pinned, decoding hexadecimal text, UTF-8 and base64 streams); invariants over all histories of calls (the JSON
  scanner, the lazily initialised CRC package, in which also every further call returns); round trips; bounds (128-bit by 64-bit
  division, the delayed reductions of Adler-32).

  \<^bold>\<open>Where the code is wrong.\<close> A property leaves out the inputs on which the code does not do what its documentation says, and a theorem
  beside it shows the failure: the elements of a list that \<^verbatim>\<open>list.Init\<close> has cleared (\<open>list_Init_keeps_members\<close>), bit size 1 of
  ParseInt (\<open>ParseInt_bitSize1_out_of_range\<close>), classes that take the slash in \<^verbatim>\<open>path.Match\<close> (\<open>path_Match_leftmost_misses\<close>) and its stars, which
  take bytes and may end within a character (\<open>path_Match_star_within_character\<close>), the limit of a section that overflows, and
  base64 texts put one after the other, which only the streaming decoder accepts.

  \<^bold>\<open>Bounds and fuel.\<close> No definition has fuel. Slices are shorter than $2^{59}$ (base64), $2^{62}$ or $2^{63}$ bytes where an index expression could
  overflow (stated as a hypothesis of the property); the platform has a 64-bit \<^verbatim>\<open>int\<close>. What an assembly routine computes is
  a parameter: \<^verbatim>\<open>crc32_arch\<close> stands for the processor-specific CRC functions, with the documented contract \<open>arch_ok\<close>.
  Readers and writers (\<^verbatim>\<open>io.Reader\<close>, \<^verbatim>\<open>io.ReaderAt\<close>, \<^verbatim>\<open>io.Writer\<close>, \<^verbatim>\<open>io.ByteReader\<close>) are functions the model is given, with the documented
  contracts \<open>io_reader\<close>, \<open>io_reader_at\<close> and \<open>io_writer\<close> where a property needs them; how far \<^verbatim>\<open>append\<close> grows a slice is a parameter.

  \<^bold>\<open>What is not modelled.\<close> The AutoIt front end (calls to the operating system only); the compiler, linker and other
  commands under \<^verbatim>\<open>cmd\<close> but for the action queue, and the run-time system, which are tied to machine code; packages that
  are input and output (\<^verbatim>\<open>net\<close>, \<^verbatim>\<open>os\<close>, \<^verbatim>\<open>syscall\<close>), reflection, cryptography, compression and image formats; within the packages
  above: the constant results of Size and BlockSize, the texts of errors (\<^verbatim>\<open>NumError.Error\<close>, \<^verbatim>\<open>quoteChar\<close>), the branch of
  formatBits for 32-bit hosts, the streaming decoder of \<^verbatim>\<open>encoding/hex\<close>, and Read, Write and Size of \<^verbatim>\<open>encoding/binary\<close>,
  which walk values by reflection. The plan for further work, most important first: the remaining encodings (\<^verbatim>\<open>encoding/csv\<close>,
  \<^verbatim>\<open>encoding/json\<close>'s indenter), \<^verbatim>\<open>strings\<close> and \<^verbatim>\<open>bytes\<close>, the dictionary and Huffman codes of
  \<^verbatim>\<open>compress/flate\<close>, and \<^verbatim>\<open>path/filepath\<close>.
\<close>

end
